(* ===== verification/Tealet_Prelude.thy ===== *)
theory Tealet_Prelude
  imports Main "HOL-Library.Multiset"
begin

text \<open>
  Shared vocabulary of the development: Python exceptions as values, the three ways a call
  on a tealet can end (return, raise, park), Python's \<open>list\<close>/\<open>deque\<close> operations with their
  clamping and \<open>ValueError\<close> behaviour, and the \<open>heapq\<close> operations the runtime uses (timer heap,
  priority runnable queue, reorder buffer, \<open>PriorityQueue\<close>).  A heap is kept as the list of its
  entries in the order \<open>heappop\<close> returns them, which is all the runtime observes of it
  (\<open>heap[0]\<close>, truth value, length, push, pop); the locale \<open>min_heap\<close> states that contract
  and is interpreted on these definitions.
\<close>

section \<open>Exceptions and outcomes\<close>

datatype pyexn =
    AssertionErr
  | RuntimeErr
  | ValueErr
  | TypeErr
  | KeyErr
  | IndexErr
  | FileNotFoundErr
  | NotImplementedErr
  | BlockingIOErr
  | InvalidStateErr
  | DeadlockErr
  | CancelledErr
  | RawTimeoutErr
  | TimeoutErr
  | QueueEmptyErr
  | QueueFullErr
  | QueueShutDownErr
  | SystemExitErr
  | KeyboardInterruptErr
  | LimitOverrunErr
  | OSErr int
  | UserErr nat

text \<open>\<open>isinstance(exc, Exception)\<close>: cancellation, the raw timeout sentinel, \<open>SystemExit\<close> and
  \<open>KeyboardInterrupt\<close> derive from \<open>BaseException\<close> only.\<close>

fun is_Exception :: "pyexn \<Rightarrow> bool" where
  "is_Exception CancelledErr = False"
| "is_Exception RawTimeoutErr = False"
| "is_Exception SystemExitErr = False"
| "is_Exception KeyboardInterruptErr = False"
| "is_Exception _ = True"

text \<open>\<open>isinstance(exc, OSError)\<close>; from Python 3.11 on \<open>TimeoutError\<close> is one.\<close>

fun is_OSError :: "pyexn \<Rightarrow> bool" where
  "is_OSError (OSErr n) = True"
| "is_OSError FileNotFoundErr = True"
| "is_OSError BlockingIOErr = True"
| "is_OSError TimeoutErr = True"
| "is_OSError _ = False"

text \<open>How a call made by a running tealet ends: with a value, with an exception, or by
  switching away (the tealet is suspended inside the call).\<close>

datatype 'a outcome = Ret 'a | Raise pyexn | Parked

section \<open>Python sequences\<close>

text \<open>\<open>list.insert\<close> and \<open>deque.insert\<close>: a negative index counts from the end, and both ends
  are clamped.\<close>

definition py_index :: "int \<Rightarrow> nat \<Rightarrow> nat" where
  "py_index i n = (if i < 0 then nat (int n + i) else min (nat i) n)"

definition py_insert :: "int \<Rightarrow> 'a \<Rightarrow> 'a list \<Rightarrow> 'a list" where
  "py_insert i x xs = take (py_index i (length xs)) xs @ x # drop (py_index i (length xs)) xs"

text \<open>\<open>deque.popleft\<close> raises on an empty deque.\<close>

definition popleft :: "'a list \<Rightarrow> (pyexn + 'a) \<times> 'a list" where
  "popleft xs = (case xs of [] \<Rightarrow> (Inl IndexErr, []) | x # ys \<Rightarrow> (Inr x, ys))"

section \<open>heapq\<close>

definition heappush :: "('a \<Rightarrow> 'k::linorder) \<Rightarrow> 'a list \<Rightarrow> 'a \<Rightarrow> 'a list" where
  "heappush key h x = insort_key key x h"

definition heappop :: "'a list \<Rightarrow> (pyexn + 'a) \<times> 'a list" where
  "heappop h = popleft h"

definition is_heap :: "('a \<Rightarrow> 'k::linorder) \<Rightarrow> 'a list \<Rightarrow> bool" where
  "is_heap key h = sorted (map key h)"

locale min_heap =
  fixes key :: "'a \<Rightarrow> 'k::linorder"
    and push :: "'h \<Rightarrow> 'a \<Rightarrow> 'h"
    and pop :: "'h \<Rightarrow> (pyexn + 'a) \<times> 'h"
    and entries :: "'h \<Rightarrow> 'a multiset"
    and invar :: "'h \<Rightarrow> bool"
  assumes entries_push: "invar h \<Longrightarrow> entries (push h x) = add_mset x (entries h)"
    and invar_push: "invar h \<Longrightarrow> invar (push h x)"
    and pop_empty: "entries h = {#} \<Longrightarrow> pop h = (Inl IndexErr, h)"
    and pop_min: "invar h \<Longrightarrow> entries h \<noteq> {#} \<Longrightarrow>
      \<exists>x h'. pop h = (Inr x, h') \<and> invar h' \<and> entries h = add_mset x (entries h')
        \<and> (\<forall>y \<in># entries h. key x \<le> key y)"
begin

lemma pop_push_least:
  assumes "invar h" and "\<forall>y \<in># entries h. key x < key y"
  obtains h' where "pop (push h x) = (Inr x, h')" and "entries h' = entries h"
proof -
  have ne: "entries (push h x) \<noteq> {#}"
    using assms(1) by (simp add: entries_push)
  obtain z h' where z: "pop (push h x) = (Inr z, h')"
    "entries (push h x) = add_mset z (entries h')" "\<forall>y \<in># entries (push h x). key z \<le> key y"
    using pop_min [OF invar_push [OF assms(1)] ne] by blast
  have "z = x"
  proof (rule ccontr)
    assume "z \<noteq> x"
    moreover have "z \<in># entries (push h x)" by (simp add: z(2))
    ultimately have "z \<in># entries h" using assms(1) by (simp add: entries_push)
    moreover have "key z \<le> key x" using z(3) assms(1) by (simp add: entries_push)
    ultimately show False using assms(2) by fastforce
  qed
  then show thesis using that z(1,2) assms(1) by (simp add: entries_push)
qed

end

section \<open>Automation shared by the components\<close>

named_theorems state_simps \<open>unfolding equations of the components' operations\<close>

lemma py_index_le [simp]: "py_index i n \<le> n"
  by (auto simp: py_index_def)

lemma set_py_insert [simp]: "set (py_insert i x xs) = insert x (set xs)"
proof -
  have "set (take k xs) \<union> set (drop k xs) = set xs" for k
    by (metis append_take_drop_id set_append)
  then show ?thesis by (auto simp: py_insert_def)
qed

lemma length_py_insert [simp]: "length (py_insert i x xs) = Suc (length xs)"
  by (simp add: py_insert_def)

lemma distinct_py_insert [simp]: "distinct (py_insert i x xs) = (x \<notin> set xs \<and> distinct xs)"
proof -
  have "mset (py_insert i x xs) = add_mset x (mset xs)"
    by (simp add: py_insert_def) (metis append_take_drop_id mset_append)
  then have "distinct (py_insert i x xs) = distinct (x # xs)"
    by (metis mset.simps(2) mset_eq_imp_distinct_iff)
  then show ?thesis by simp
qed

lemma filter_py_insert [simp]: "x \<notin> set xs \<Longrightarrow> [y \<leftarrow> py_insert i x xs. y \<noteq> x] = xs"
proof -
  assume "x \<notin> set xs"
  then have "[y \<leftarrow> xs. y \<noteq> x] = xs" by (auto intro: filter_True)
  moreover have "[y \<leftarrow> py_insert i x xs. y \<noteq> x] = [y \<leftarrow> take k xs @ drop k xs. y \<noteq> x]"
    if "k = py_index i (length xs)" for k
    using that by (simp only: py_insert_def filter_append filter.simps) simp
  ultimately show ?thesis by simp
qed

lemma py_insert_0 [simp]: "py_insert 0 x xs = x # xs"
  by (simp add: py_insert_def py_index_def)

lemma distinct_fst_remove1: "distinct (map fst xs) \<Longrightarrow> distinct (map fst (remove1 x xs))"
  by (induction xs) (auto dest!: set_remove1_subset [THEN subsetD] intro: rev_image_eqI)

lemma fst_remove1_notin: "distinct (map fst xs) \<Longrightarrow> (w, f) \<in> set xs \<Longrightarrow> w \<notin> fst ` set (remove1 (w, f) xs)"
  by (induction xs) (auto simp: image_iff dest: notin_set_remove1 split: if_splits)

lemma filter_neq_remove1: "distinct xs \<Longrightarrow> [y \<leftarrow> xs. y \<noteq> x] = remove1 x xs"
  by (simp add: distinct_remove1_removeAll removeAll_filter_not_eq)
     (metis (mono_tags))

lemma insort_key_split:
  "insort_key f x xs = takeWhile (\<lambda>y. \<not> f x \<le> f y) xs @ x # dropWhile (\<lambda>y. \<not> f x \<le> f y) xs"
  by (induction xs) auto

lemma heappush_split: "\<exists>b a. heappush key h x = b @ x # a \<and> h = b @ a"
  by (metis heappush_def insort_key_split takeWhile_dropWhile_id)

lemma mset_insort_key_add [simp]: "mset (insort_key f x xs) = add_mset x (mset xs)"
  by (induction xs) auto

lemma is_heap_push: "is_heap key h \<Longrightarrow> is_heap key (heappush key h x)"
  by (simp add: is_heap_def heappush_def sorted_insort_key)

interpretation heapq: min_heap key "heappush key" heappop mset "is_heap key"
  for key :: "'a \<Rightarrow> 'k::linorder"
proof unfold_locales
  fix h :: "'a list"
  assume h: "is_heap key h" and ne: "mset h \<noteq> {#}"
  from ne obtain x xs where "h = x # xs" by (cases h) auto
  with h show "\<exists>x h'. heappop h = (Inr x, h') \<and> is_heap key h' \<and> mset h = add_mset x (mset h')
      \<and> (\<forall>y \<in># mset h. key x \<le> key y)"
    by (auto simp: heappop_def popleft_def is_heap_def)
qed (auto simp: heappush_def heappop_def popleft_def is_heap_push [unfolded heappush_def])

end
