(* ===== verification/Delivery.thy ===== *)
theory Delivery
  imports Tealet_Prelude "HOL-Library.Product_Lexorder"
begin

text \<open>
  Stream deliveries of \<open>tealetio/delivery.py\<close>: \<open>MultishotDelivery\<close>, the \<open>ReorderBuffer\<close> that hands
  deliveries to its callback in index order whatever order they arrive in, the \<open>CountFinalizer\<close> that runs
  \<open>finish\<close> once all indices through the terminal have been seen, and the accept helpers.  A callback
  acts on the client's state \<open>'c\<close>; it may also move \<open>_delivered\<close> (\<open>arm_next_index\<close>, which
  \<open>RecvIterBuffer\<close> calls from its callback) and may raise.  The heap of a \<open>ReorderBuffer\<close> is ordered by
  the index, which is distinct for the entries of one stream.
\<close>

section \<open>Deliveries\<close>

record 'v delivery =
  d_index :: int
  d_value :: "'v option"
  d_exception :: "pyexn option"
  d_more :: bool

definition ECANCELED :: int where "ECANCELED = 125"

definition io_cancellation_error :: pyexn where
  "io_cancellation_error = OSErr ECANCELED"

definition is_io_cancellation :: "pyexn option \<Rightarrow> bool" where
  "is_io_cancellation exc = (case exc of Some (OSErr e) \<Rightarrow> e = ECANCELED | _ \<Rightarrow> False)"

definition is_cancellation_delivery :: "'v delivery \<Rightarrow> bool" where
  "is_cancellation_delivery d = is_io_cancellation (d_exception d)"

section \<open>ReorderBuffer\<close>

record 'v rbuf =
  rb_delivered :: int
  rb_heap :: "'v delivery list"

type_synonym ('v, 'c) callback_fn = "'v delivery \<Rightarrow> 'c \<Rightarrow> int \<Rightarrow> 'c \<times> int \<times> pyexn option"

definition rb_init :: "int \<Rightarrow> 'v rbuf" where
  "rb_init start = \<lparr>rb_delivered = start, rb_heap = []\<rparr>"

text \<open>The loop of \<open>_deliver_now\<close>: hand off the heap's head while it is the next index.\<close>

fun rb_loop :: "('v, 'c) callback_fn \<Rightarrow> 'v delivery list \<Rightarrow> int \<Rightarrow> 'c \<Rightarrow> 'v rbuf \<times> 'c \<times> pyexn option" where
  "rb_loop cb [] n c = (\<lparr>rb_delivered = n, rb_heap = []\<rparr>, c, None)"
| "rb_loop cb (p # h) n c =
     (if d_index p = n
      then (case cb p c n of
              (c1, n1, Some e) \<Rightarrow> (\<lparr>rb_delivered = n1, rb_heap = h\<rparr>, c1, Some e)
            | (c1, n1, None) \<Rightarrow> rb_loop cb h (n1 + 1) c1)
      else (\<lparr>rb_delivered = n, rb_heap = p # h\<rparr>, c, None))"

definition rb_deliver_now :: "('v, 'c) callback_fn \<Rightarrow> 'v delivery \<Rightarrow> 'v rbuf \<Rightarrow> 'c \<Rightarrow> 'v rbuf \<times> 'c \<times> pyexn option" where
  "rb_deliver_now cb d rb c =
     (case cb d c (rb_delivered rb) of
        (c1, n1, Some e) \<Rightarrow> (rb\<lparr>rb_delivered := n1\<rparr>, c1, Some e)
      | (c1, n1, None) \<Rightarrow> rb_loop cb (rb_heap rb) (n1 + 1) c1)"

definition rb_deliver :: "('v, 'c) callback_fn \<Rightarrow> 'v delivery \<Rightarrow> 'v rbuf \<Rightarrow> 'c \<Rightarrow> 'v rbuf \<times> 'c \<times> pyexn option" where
  "rb_deliver cb d rb c =
     (if d_index d = rb_delivered rb then rb_deliver_now cb d rb c
      else (rb\<lparr>rb_heap := heappush d_index (rb_heap rb) d\<rparr>, c, None))"

definition rb_next_index :: "'v rbuf \<Rightarrow> int" where
  "rb_next_index rb = rb_delivered rb"

definition rb_pending :: "'v rbuf \<Rightarrow> bool" where
  "rb_pending rb = (rb_heap rb \<noteq> [])"

definition rb_drain :: "'v rbuf \<Rightarrow> 'v rbuf \<times> 'v delivery list" where
  "rb_drain rb = (rb\<lparr>rb_heap := []\<rparr>, rb_heap rb)"

definition rb_reset :: "int \<Rightarrow> 'v rbuf \<Rightarrow> 'v rbuf" where
  "rb_reset start rb = rb\<lparr>rb_heap := [], rb_delivered := start\<rparr>"

definition arm_next_index :: "int \<Rightarrow> int" where
  "arm_next_index index = index - 1"

section \<open>CountFinalizer\<close>

record 'v countfin =
  cf_start :: int
  cf_delivered_count :: int
  cf_max_count :: "int option"
  cf_final :: "'v delivery option"

definition cf_init :: "int \<Rightarrow> 'v countfin" where
  "cf_init start = \<lparr>cf_start = start, cf_delivered_count = 0, cf_max_count = None, cf_final = None\<rparr>"

text \<open>\<open>deliver\<close> calls the callback, then counts in a \<open>finally\<close> block; \<open>finish\<close> is run at most once per
  call.  The result is the exception that leaves the call, and the terminal handed to \<open>finish\<close>.\<close>

definition cf_deliver :: "('v delivery \<Rightarrow> pyexn option) \<Rightarrow> 'v delivery \<Rightarrow> 'v countfin \<Rightarrow> 'v countfin \<times> pyexn option \<times> 'v delivery option" where
  "cf_deliver cb d cf =
     (if d_index d < cf_start cf then (cf, Some AssertionErr, None)
      else
        (let cf1 = (if \<not> d_more d then cf\<lparr>cf_max_count := Some (d_index d - cf_start cf + 1), cf_final := Some d\<rparr> else cf);
             e = cb d;
             cf2 = cf1\<lparr>cf_delivered_count := cf_delivered_count cf1 + 1\<rparr>
         in if cf_max_count cf2 = Some (cf_delivered_count cf2)
            then (case cf_final cf2 of
                    None \<Rightarrow> (cf2, Some AssertionErr, None)
                  | Some f \<Rightarrow> (cf2\<lparr>cf_final := None\<rparr>, e, Some f))
            else (cf2, e, None)))"

section \<open>Accept helpers\<close>

definition MAX_ACCEPT_RECV_SIZE :: int where "MAX_ACCEPT_RECV_SIZE = 65536"

definition normalize_accept_recv_size :: "int option \<Rightarrow> pyexn + int option" where
  "normalize_accept_recv_size recv_size =
     (case recv_size of
        None \<Rightarrow> Inr None
      | Some n \<Rightarrow> if n \<le> 0 then Inl ValueErr
                  else if n > MAX_ACCEPT_RECV_SIZE then Inr (Some MAX_ACCEPT_RECV_SIZE)
                  else Inr (Some n))"

text \<open>\<open>hook\<close> is \<open>on_recv_error\<close> with the exception it raises, if any; the result lists the effects in
  order (hook called, connection closed) and the exception re-raised.\<close>

datatype accept_effect = HookCalled pyexn | ConnClosed

definition finalize_accept_recv_error :: "(pyexn \<Rightarrow> pyexn option) option \<Rightarrow> pyexn \<Rightarrow> accept_effect list \<times> pyexn option" where
  "finalize_accept_recv_error hook recv_error =
     (case hook of
        None \<Rightarrow> ([ConnClosed], None)
      | Some f \<Rightarrow> ([HookCalled recv_error, ConnClosed], f recv_error))"

section \<open>Reordering\<close>

text \<open>A callback that folds a function over the client state, never raises and does not re-arm.\<close>

definition plain_cb :: "('v delivery \<Rightarrow> 'c \<Rightarrow> 'c) \<Rightarrow> ('v, 'c) callback_fn" where
  "plain_cb f d c n = (f d c, n, None)"

definition rb_deliver_all :: "('v, 'c) callback_fn \<Rightarrow> 'v delivery list \<Rightarrow> 'v rbuf \<Rightarrow> 'c \<Rightarrow> 'v rbuf \<times> 'c" where
  "rb_deliver_all cb ds rb c = foldl (\<lambda>(rb, c) d. case rb_deliver cb d rb c of (rb', c', _) \<Rightarrow> (rb', c')) (rb, c) ds"

text \<open>\<open>contiguous n ds\<close>: the indices are \<open>n, n+1, \<dots>\<close>\<close>

fun contiguous :: "int \<Rightarrow> 'v delivery list \<Rightarrow> bool" where
  "contiguous n [] = True"
| "contiguous n (d # ds) = (d_index d = n \<and> contiguous (n + 1) ds)"

text \<open>The state after some arrivals \<open>seen\<close>: \<open>out\<close> was handed off, in index order from \<open>start\<close>, and the
  heap holds the rest, all beyond the next index.\<close>

definition rb_inv :: "int \<Rightarrow> 'v delivery list \<Rightarrow> 'v delivery list \<Rightarrow> 'v rbuf \<Rightarrow> bool" where
  "rb_inv start seen out rb \<longleftrightarrow>
     contiguous start out \<and> rb_delivered rb = start + int (length out)
     \<and> sorted (map d_index (rb_heap rb)) \<and> mset seen = mset out + mset (rb_heap rb)
     \<and> (\<forall>d \<in> set (rb_heap rb). rb_delivered rb < d_index d) \<and> distinct (map d_index seen)"

lemma contiguous_append: "contiguous n (xs @ ys) \<longleftrightarrow> contiguous n xs \<and> contiguous (n + int (length xs)) ys"
  by (induction xs arbitrary: n) (auto simp: algebra_simps)

lemma contiguous_bounds: "contiguous n xs \<Longrightarrow> d \<in> set xs \<Longrightarrow> n \<le> d_index d \<and> d_index d < n + int (length xs)"
  by (induction xs arbitrary: n) fastforce+

lemma contiguous_sorted: "contiguous n xs \<Longrightarrow> sorted (map d_index xs)"
proof (induction xs arbitrary: n)
  case (Cons d ds)
  then show ?case using contiguous_bounds [of "n + 1" ds] by fastforce
qed simp

lemma rb_loop_plain:
  assumes "sorted (map d_index h)" and "distinct (map d_index h)" and "\<forall>d \<in> set h. n \<le> d_index d"
  shows "\<exists>now later. h = now @ later \<and> contiguous n now \<and> (\<forall>d \<in> set later. n + int (length now) < d_index d)
    \<and> rb_loop (plain_cb f) h n c = (\<lparr>rb_delivered = n + int (length now), rb_heap = later\<rparr>, fold f now c, None)"
  using assms
proof (induction h arbitrary: n c)
  case Nil
  then show ?case by (intro exI [of _ "[]"]) simp
next
  case (Cons p h)
  show ?case
  proof (cases "d_index p = n")
    case True
    have "\<forall>d \<in> set h. n + 1 \<le> d_index d"
    proof
      fix d assume d: "d \<in> set h"
      have "d_index p \<notin> d_index ` set h" using Cons.prems(2) by simp
      then have "d_index d \<noteq> d_index p" using d by (metis imageI)
      moreover have "n \<le> d_index d" using Cons.prems(3) d by simp
      ultimately have "n \<le> d_index d" "d_index d \<noteq> d_index p" by simp_all
      then show "n + 1 \<le> d_index d" using True by simp
    qed
    then obtain now later where nl: "h = now @ later" "contiguous (n + 1) now"
      "\<forall>d \<in> set later. n + 1 + int (length now) < d_index d"
      "rb_loop (plain_cb f) h (n + 1) (f p c) = (\<lparr>rb_delivered = n + 1 + int (length now), rb_heap = later\<rparr>, fold f now (f p c), None)"
      using Cons.IH [of "n + 1" "f p c"] Cons.prems by auto
    have len: "n + 1 + int (length now) = n + int (length (p # now))" by simp
    have "rb_loop (plain_cb f) (p # h) n c = rb_loop (plain_cb f) h (n + 1) (f p c)"
      using True by (simp add: plain_cb_def)
    then show ?thesis using True nl unfolding len
      by (intro exI [of _ "p # now"] exI [of _ later]) (simp del: rb_loop.simps)
  next
    case False
    then have "\<forall>d \<in> set (p # h). n < d_index d" using Cons.prems by fastforce
    then show ?thesis using False by (intro exI [of _ "[]"] exI [of _ "p # h"]) simp
  qed
qed

lemma rb_deliver_inv:
  assumes inv: "rb_inv start seen out rb" and new: "d_index d \<notin> d_index ` set seen" and ge: "start \<le> d_index d"
  shows "\<exists>now rb'. rb_deliver (plain_cb f) d rb c = (rb', fold f now c, None) \<and> rb_inv start (seen @ [d]) (out @ now) rb'"
proof (cases "d_index d = rb_delivered rb")
  case True
  let ?n = "rb_delivered rb + 1"
  have h: "sorted (map d_index (rb_heap rb))" "\<forall>x \<in> set (rb_heap rb). ?n \<le> d_index x"
    using inv by (auto simp: rb_inv_def)
  have "mset (map d_index seen) = mset (map d_index (out @ rb_heap rb))"
    using inv by (simp add: rb_inv_def)
  then have "distinct (map d_index (out @ rb_heap rb))"
    using inv mset_eq_imp_distinct_iff unfolding rb_inv_def by blast
  then have dh: "distinct (map d_index (rb_heap rb))" by simp
  obtain now later where nl: "rb_heap rb = now @ later" "contiguous ?n now" "\<forall>x \<in> set later. ?n + int (length now) < d_index x"
    "rb_loop (plain_cb f) (rb_heap rb) ?n (f d c) = (\<lparr>rb_delivered = ?n + int (length now), rb_heap = later\<rparr>, fold f now (f d c), None)"
    using rb_loop_plain [OF h(1) dh h(2), of f "f d c"] by blast
  let ?rb = "\<lparr>rb_delivered = ?n + int (length now), rb_heap = later\<rparr>"
  have "rb_deliver (plain_cb f) d rb c = (?rb, fold f (d # now) c, None)"
    using True nl(4) by (simp add: rb_deliver_def rb_deliver_now_def plain_cb_def)
  moreover have "rb_inv start (seen @ [d]) (out @ d # now) ?rb"
    using inv True nl new by (auto simp: rb_inv_def contiguous_append algebra_simps sorted_append)
  ultimately show ?thesis by blast
next
  case False
  let ?rb = "rb\<lparr>rb_heap := heappush d_index (rb_heap rb) d\<rparr>"
  have out: "d_index ` set out \<subseteq> d_index ` set seen" using inv unfolding rb_inv_def by (metis image_mono mset_subset_eq_add_left set_mset_mono set_mset_mset)
  have "rb_delivered rb < d_index d"
  proof (rule ccontr)
    assume "\<not> rb_delivered rb < d_index d"
    then have "d_index d < start + int (length out)" using False inv by (simp add: rb_inv_def)
    moreover have "\<exists>x \<in> set xs. d_index x = k" if "contiguous n xs" "n \<le> k" "k < n + int (length xs)" for n k and xs :: "'a delivery list"
      using that by (induction xs arbitrary: n) (auto, smt (verit))
    ultimately have "d_index d \<in> d_index ` set out" using inv ge unfolding rb_inv_def by (metis image_eqI)
    then show False using out new by blast
  qed
  moreover have "sorted (map d_index (heappush d_index (rb_heap rb) d))"
    using is_heap_push [of d_index "rb_heap rb" d] inv by (simp add: is_heap_def rb_inv_def)
  ultimately have "rb_inv start (seen @ [d]) (out @ []) ?rb"
    using inv new by (auto simp: rb_inv_def heappush_def set_insort_key)
  moreover have "rb_deliver (plain_cb f) d rb c = (?rb, fold f [] c, None)" using False by (simp add: rb_deliver_def)
  ultimately show ?thesis by blast
qed

lemma rb_deliver_all_inv:
  assumes "distinct (map d_index ds)" and "\<forall>d \<in> set ds. start \<le> d_index d"
  shows "\<exists>out rb. rb_deliver_all (plain_cb f) ds (rb_init start) c = (rb, fold f out c) \<and> rb_inv start ds out rb"
  using assms
proof (induction ds rule: rev_induct)
  case Nil
  show ?case by (intro exI [of _ "[]"] exI [of _ "rb_init start"]) (simp add: rb_deliver_all_def rb_inv_def rb_init_def)
next
  case (snoc d ds)
  obtain out rb where o: "rb_deliver_all (plain_cb f) ds (rb_init start) c = (rb, fold f out c)" "rb_inv start ds out rb"
    using snoc by auto
  have "d_index d \<notin> d_index ` set ds" "start \<le> d_index d" using snoc.prems by auto
  from rb_deliver_inv [OF o(2) this, of f "fold f out c"] obtain now rb' where
    "rb_deliver (plain_cb f) d rb (fold f out c) = (rb', fold f now (fold f out c), None)" "rb_inv start (ds @ [d]) (out @ now) rb'"
    by blast
  with o(1) show ?case by (intro exI [of _ "out @ now"] exI [of _ rb']) (simp add: rb_deliver_all_def)
qed

section \<open>Properties\<close>

text \<open>C33: \<open>ReorderBuffer\<close> hands deliveries to its callback in strict index order: whatever the order of
  arrival, the deliveries handed off so far are those with the indices \<open>start\<close>, \<open>start + 1\<close>, \<dots> without a
  gap, each once; every other arrival is still in the heap, beyond the next expected index.\<close>

theorem reorder_in_order:
  assumes "distinct (map d_index ds)" and "\<forall>d \<in> set ds. start \<le> d_index d"
  shows "\<exists>out rb. rb_deliver_all (plain_cb f) ds (rb_init start) c = (rb, fold f out c)
    \<and> contiguous start out \<and> rb_next_index rb = start + int (length out)
    \<and> mset ds = mset out + mset (rb_heap rb) \<and> (\<forall>d \<in> set (rb_heap rb). rb_next_index rb < d_index d)"
  using rb_deliver_all_inv [OF assms, of f c] by (auto simp: rb_inv_def rb_next_index_def)

definition dl :: "int \<Rightarrow> bool \<Rightarrow> nat delivery" where
  "dl i m = \<lparr>d_index = i, d_value = Some (nat i), d_exception = None, d_more = m\<rparr>"

theorem reorder_in_order_witness:
  "\<exists>(out :: nat delivery list) rb. rb_deliver_all (plain_cb (\<lambda>d c. c @ [d_index d])) [dl 2 True, dl 0 True] (rb_init 0) [] = (rb, fold (\<lambda>d c. c @ [d_index d]) out [])
     \<and> contiguous 0 out \<and> rb_next_index rb = 0 + int (length out)"
proof -
  have "distinct (map d_index [dl 2 True, dl 0 True])" "\<forall>d \<in> set [dl 2 True, dl 0 True]. 0 \<le> d_index d"
    by (simp_all add: dl_def)
  from reorder_in_order [OF this, of "\<lambda>d c. c @ [d_index d]" "[]"] show ?thesis by blast
qed

lemma complete_heap_empty:
  assumes inv: "rb_inv start ds out rb" and range: "d_index ` set ds = {start ..< start + int (length ds)}"
  shows "rb_heap rb = []"
proof (rule ccontr)
  assume ne: "rb_heap rb \<noteq> []"
  have m: "mset ds = mset out + mset (rb_heap rb)" using inv by (simp add: rb_inv_def)
  then have "length ds = length out + length (rb_heap rb)" by (metis size_mset size_union)
  then have "rb_delivered rb \<in> {start ..< start + int (length ds)}" using ne inv by (simp add: rb_inv_def)
  then obtain d where d: "d \<in> set ds" "d_index d = rb_delivered rb" using range by (metis imageE)
  then have "d \<in> set out \<or> d \<in> set (rb_heap rb)" using m by (metis set_mset_mset set_mset_union Un_iff)
  then show False
  proof
    assume "d \<in> set out"
    then have "d_index d < start + int (length out)" using contiguous_bounds inv unfolding rb_inv_def by blast
    then show False using d(2) inv by (simp add: rb_inv_def)
  next
    assume "d \<in> set (rb_heap rb)"
    then have "rb_delivered rb < d_index d" using inv unfolding rb_inv_def by blast
    then show False using d(2) by simp
  qed
qed

text \<open>C34: Once every index up to some point has arrived, in any order, nothing is left in the heap and
  the callback has been run on exactly the deliveries sorted by index: out-of-order arrival is
  indistinguishable from in-order arrival.\<close>

theorem reorder_complete:
  assumes "distinct (map d_index ds)" and "d_index ` set ds = {start ..< start + int (length ds)}"
  shows "rb_deliver_all (plain_cb f) ds (rb_init start) c
    = (\<lparr>rb_delivered = start + int (length ds), rb_heap = []\<rparr>, fold f (sort_key d_index ds) c)"
proof -
  have ge: "\<forall>d \<in> set ds. start \<le> d_index d"
  proof
    fix d assume "d \<in> set ds"
    then have "d_index d \<in> {start ..< start + int (length ds)}" using assms(2) by blast
    then show "start \<le> d_index d" by simp
  qed
  obtain out rb where o: "rb_deliver_all (plain_cb f) ds (rb_init start) c = (rb, fold f out c)" and inv: "rb_inv start ds out rb"
    using rb_deliver_all_inv [OF assms(1) ge, of f c] by blast
  have h: "rb_heap rb = []" by (rule complete_heap_empty [OF inv assms(2)])
  then have m: "mset ds = mset out" using inv by (simp add: rb_inv_def)
  have "sort_key d_index ds = out"
    using m contiguous_sorted inv assms(1) by (intro sort_key_inj_key_eq) (auto simp: rb_inv_def distinct_map)
  moreover have "length ds = length out" using m by (metis size_mset)
  ultimately show ?thesis using o h inv by (cases rb) (simp add: rb_inv_def)
qed

theorem reorder_complete_witness:
  "rb_deliver_all (plain_cb (\<lambda>d c. c @ [d_index d])) [dl 6 False, dl 5 True] (rb_init 5) []
    = (\<lparr>rb_delivered = 7, rb_heap = []\<rparr>, [5, 6])"
proof -
  have "d_index ` set [dl 6 False, dl 5 True] = {5 ..< 5 + int (length [dl 6 False, dl 5 True])}" by (auto simp: dl_def)
  from reorder_complete [OF _ this, of "\<lambda>d c. c @ [d_index d]" "[]"] show ?thesis by (simp add: dl_def)
qed

text \<open>\<open>CountFinalizer\<close>: the terminals handed to \<open>finish\<close> by a run of deliveries.\<close>

fun cf_run :: "('v delivery \<Rightarrow> pyexn option) \<Rightarrow> 'v delivery list \<Rightarrow> 'v countfin \<Rightarrow> 'v delivery option list" where
  "cf_run cb [] cf = []"
| "cf_run cb (d # ds) cf = (case cf_deliver cb d cf of (cf', _, fin) \<Rightarrow> fin # cf_run cb ds cf')"

lemma cf_run_count:
  assumes "\<forall>d \<in> set (seen @ ds). start \<le> d_index d \<and> (d_more d \<or> d = t)" and "\<not> d_more t"
    and "d_index t = start + int (length (seen @ ds)) - 1" and "t \<in> set (seen @ ds)" and "distinct (seen @ ds)"
    and "cf_start cf = start" and "cf_delivered_count cf = int (length seen)"
    and "cf_max_count cf = (if t \<in> set seen then Some (int (length (seen @ ds))) else None)"
    and "cf_final cf = (if t \<in> set seen then Some t else None)" and "ds \<noteq> []"
  shows "cf_run cb ds cf = replicate (length ds - 1) None @ [Some t]"
  using assms
proof (induction ds arbitrary: seen cf)
  case (Cons d ds)
  define cf1 where "cf1 = (if \<not> d_more d then cf\<lparr>cf_max_count := Some (d_index d - cf_start cf + 1), cf_final := Some d\<rparr> else cf)"
  let ?cf2 = "cf1\<lparr>cf_delivered_count := cf_delivered_count cf1 + 1\<rparr>"
  let ?n = "int (length (seen @ d # ds))"
  have dt: "\<not> d_more d \<longleftrightarrow> d = t" using Cons.prems(1,2) by auto
  have c1: "cf_max_count cf1 = (if t \<in> set (seen @ [d]) then Some ?n else None)"
    "cf_final cf1 = (if t \<in> set (seen @ [d]) then Some t else None)" "cf_start cf1 = start"
    "cf_delivered_count cf1 = int (length seen)"
    using Cons.prems(3,6-9) dt by (auto simp: cf1_def)
  have ge: "\<not> d_index d < cf_start cf" using Cons.prems(1,6) by simp
  show ?case
  proof (cases ds)
    case Nil
    then have "t \<in> set (seen @ [d])" using Cons.prems(4) by simp
    then show ?thesis
      using ge c1 Nil by (simp add: cf_deliver_def Let_def cf1_def [symmetric])
  next
    case (Cons e es)
    have "cf_deliver cb d cf = (?cf2, cb d, None)"
      using ge c1 Cons by (simp add: cf_deliver_def Let_def cf1_def [symmetric])
    moreover have "cf_run cb ds ?cf2 = replicate (length ds - 1) None @ [Some t]"
      by (rule Cons.IH [of "seen @ [d]"]) (use Cons.prems c1 Cons in auto)
    ultimately show ?thesis using Cons by simp
  qed
qed simp

text \<open>\<open>CountFinalizer\<close> finishes exactly once and last.  For a complete stream (indices from
  \<open>start\<close> on without a gap, one terminal at the last index) that arrives in any order, whatever the
  callback raises, \<open>finish\<close> runs during the last arrival only, and it gets the terminal.\<close>

theorem count_finalizer_once:
  assumes "distinct (map d_index ds)" and "d_index ` set ds = {start ..< start + int (length ds)}"
    and "t \<in> set ds" and "\<not> d_more t" and "d_index t = start + int (length ds) - 1"
    and "\<forall>d \<in> set ds. d \<noteq> t \<longrightarrow> d_more d"
  shows "cf_run cb ds (cf_init start) = replicate (length ds - 1) None @ [Some t]"
proof (rule cf_run_count [of "[]" ds start t])
  show "\<forall>d \<in> set ([] @ ds). start \<le> d_index d \<and> (d_more d \<or> d = t)"
  proof
    fix d assume "d \<in> set ([] @ ds)"
    then have d: "d \<in> set ds" by simp
    then have "d_index d \<in> {start ..< start + int (length ds)}" using assms(2) by blast
    then show "start \<le> d_index d \<and> (d_more d \<or> d = t)" using assms(6) d by auto
  qed
  show "distinct ([] @ ds)" using assms(1) by (simp add: distinct_map)
  show "ds \<noteq> []" using assms(3) by auto
qed (use assms in \<open>simp_all add: cf_init_def\<close>)

theorem count_finalizer_once_witness:
  "cf_run (\<lambda>_. Some ValueErr) [dl 1 False, dl 0 True] (cf_init 0) = [None, Some (dl 1 False)]"
proof -
  have "d_index ` set [dl 1 False, dl 0 True] = {0 ..< 0 + int (length [dl 1 False, dl 0 True])}" by (auto simp: dl_def)
  from count_finalizer_once [OF _ this, of "dl 1 False" "\<lambda>_. Some ValueErr"] show ?thesis by (simp add: dl_def)
qed

text \<open>\<open>normalize_accept_recv_size\<close> rejects sizes below one with \<open>ValueError\<close>, passes \<open>None\<close> through, and
  otherwise returns the requested size capped at the maximum; \<open>finalize_accept_recv_error\<close> closes the
  connection exactly once and last, also when the hook raises, and then re-raises the hook's error.\<close>

theorem accept_helpers:
  "(case recv_size of
      None \<Rightarrow> normalize_accept_recv_size recv_size = Inr None
    | Some n \<Rightarrow> if n \<le> 0 then normalize_accept_recv_size recv_size = Inl ValueErr
                else normalize_accept_recv_size recv_size = Inr (Some (min n MAX_ACCEPT_RECV_SIZE)))
   \<and> (\<exists>pre. fst (finalize_accept_recv_error hook e) = pre @ [ConnClosed] \<and> ConnClosed \<notin> set pre)
   \<and> snd (finalize_accept_recv_error hook e) = (case hook of None \<Rightarrow> None | Some f \<Rightarrow> f e)"
  by (auto simp: normalize_accept_recv_size_def finalize_accept_recv_error_def split: option.split)

end
