(* ===== verification/Readiness.thy ===== *)
theory Readiness
  imports Delivery "HOL-Library.AList"
begin

unbundle bit_operations_syntax

text \<open>
  The readiness table of \<open>tealetio/readiness.py\<close> with \<open>poll\<close>, \<open>epoll\<close> and \<open>select\<close> over it, and the probe of
  \<open>poll_helpers.py\<close>.  Masks are Python integers with bitwise operations.  Registrations are objects shared
  between a \<open>Poll\<close> object, the watch of its descriptor and the calls parked on it, so they live in a store
  and are named by number.  A dict is an association list in insertion order.

  The kernel and the IO manager are parameters, one record per uninterrupted run of the code: what
  \<open>select(..., 0)\<close> answers for a descriptor, and what \<open>io.poll_many\<close> does when it is armed: the deliveries
  it makes on the spot (an already ready descriptor) and the exception it raises, if any.  Descriptors are
  integers already (\<open>_as_fd\<close> has run), time-outs are integers, and the running scheduler is a proactor.
\<close>

section \<open>Masks\<close>

definition POLLIN :: int where "POLLIN = 1"
definition POLLPRI :: int where "POLLPRI = 2"
definition POLLOUT :: int where "POLLOUT = 4"
definition POLLERR :: int where "POLLERR = 8"
definition POLLHUP :: int where "POLLHUP = 16"
definition POLLRDHUP :: int where "POLLRDHUP = 8192"

definition READ_MASK :: int where "READ_MASK = POLLIN OR POLLERR OR POLLHUP"
definition WRITE_MASK :: int where "WRITE_MASK = POLLOUT"
definition EXC_MASK :: int where "EXC_MASK = POLLPRI"
definition EPOLLET :: int where "EPOLLET = 2 ^ 31"
definition EPOLLONESHOT :: int where "EPOLLONESHOT = 2 ^ 30"
definition EPOLLEXCLUSIVE :: int where "EPOLLEXCLUSIVE = 2 ^ 28"
definition EPOLL_FLAGS :: int where "EPOLL_FLAGS = EPOLLET OR EPOLLONESHOT OR EPOLLEXCLUSIVE"
definition DEFAULT_POLL_MASK :: int where "DEFAULT_POLL_MASK = POLLIN OR POLLPRI OR POLLOUT"
definition DEFAULT_EPOLL_MASK :: int where "DEFAULT_EPOLL_MASK = POLLIN"

definition SELECT_READ_MASK :: int where "SELECT_READ_MASK = POLLIN OR POLLERR OR POLLHUP OR POLLRDHUP"
definition SELECT_EXC_MASK :: int where "SELECT_EXC_MASK = POLLPRI"

definition ENOENT :: int where "ENOENT = 2"
definition EEXIST :: int where "EEXIST = 17"

section \<open>State\<close>

record reg =
  rg_owner :: nat
  rg_interest :: int
  rg_edge :: bool
  rg_oneshot :: bool
  rg_ephemeral :: bool
  rg_seen :: int
  rg_disarmed :: bool
  rg_latched :: bool

definition new_reg :: "nat \<Rightarrow> int \<Rightarrow> bool \<Rightarrow> bool \<Rightarrow> bool \<Rightarrow> reg" where
  "new_reg owner interest edge oneshot ephemeral =
     \<lparr>rg_owner = owner, rg_interest = interest, rg_edge = edge, rg_oneshot = oneshot, rg_ephemeral = ephemeral,
      rg_seen = 0, rg_disarmed = False, rg_latched = False\<rparr>"

record watch =
  wt_regs :: "(nat \<times> nat) list"
  wt_stored :: int
  wt_generation :: nat
  wt_handle :: "nat option"
  wt_armed_mask :: int
  wt_error :: "pyexn option"
  wt_shell :: bool

definition new_watch :: watch where
  "new_watch = \<lparr>wt_regs = [], wt_stored = 0, wt_generation = 0, wt_handle = None, wt_armed_mask = 0, wt_error = None, wt_shell = False\<rparr>"

text \<open>The table.  \<open>tb_regs\<close> is the store of registration objects; \<open>tb_waiters\<close> are the calls parked on the
  pulse and \<open>tb_woken\<close> those it has made runnable.  A handle is a number; \<open>tb_subs\<close> is what its delivery
  callback has captured (descriptor and generation), \<open>tb_closed\<close> lists the \<open>close()\<close> calls made on handles and
  \<open>tb_failed\<close> the descriptors whose \<open>poll_many\<close> has raised.\<close>

record rtable =
  tb_selector :: bool
  tb_watches :: "(int \<times> watch) list"
  tb_regs :: "nat \<Rightarrow> reg"
  tb_next_reg :: nat
  tb_fd_waits :: "int \<Rightarrow> nat"
  tb_waiters :: "nat list"
  tb_woken :: "nat list"
  tb_next_handle :: nat
  tb_subs :: "nat \<Rightarrow> int \<times> nat"
  tb_closed :: "nat list"
  tb_failed :: "int list"

definition table_init :: "bool \<Rightarrow> rtable" where
  "table_init selector =
     \<lparr>tb_selector = selector, tb_watches = [], tb_regs = (\<lambda>_. new_reg 0 0 False False False), tb_next_reg = 0, tb_fd_waits = (\<lambda>_. 0),
      tb_waiters = [], tb_woken = [], tb_next_handle = 0, tb_subs = (\<lambda>_. (0, 0)), tb_closed = [], tb_failed = []\<rparr>"

record kernel =
  kn_select :: "int \<Rightarrow> pyexn + (bool \<times> bool \<times> bool)"
  kn_arm :: "int \<Rightarrow> int \<Rightarrow> int delivery list \<times> pyexn option"

type_synonym spec = "int \<times> nat"

abbreviation watch_of :: "rtable \<Rightarrow> int \<Rightarrow> watch option" where
  "watch_of t fd \<equiv> map_of (tb_watches t) fd"

definition put_watch :: "int \<Rightarrow> watch \<Rightarrow> rtable \<Rightarrow> rtable" where
  "put_watch fd w t = t\<lparr>tb_watches := AList.update fd w (tb_watches t)\<rparr>"

definition upd_watch :: "int \<Rightarrow> (watch \<Rightarrow> watch) \<Rightarrow> rtable \<Rightarrow> rtable" where
  "upd_watch fd f t = (case watch_of t fd of None \<Rightarrow> t | Some w \<Rightarrow> put_watch fd (f w) t)"

definition upd_reg :: "nat \<Rightarrow> (reg \<Rightarrow> reg) \<Rightarrow> rtable \<Rightarrow> rtable" where
  "upd_reg r f t = t\<lparr>tb_regs := (tb_regs t)(r := f (tb_regs t r))\<rparr>"

definition upd_regs :: "nat list \<Rightarrow> (reg \<Rightarrow> reg) \<Rightarrow> rtable \<Rightarrow> rtable" where
  "upd_regs rs f t = t\<lparr>tb_regs := (\<lambda>r. if r \<in> set rs then f (tb_regs t r) else tb_regs t r)\<rparr>"

definition pulse :: "rtable \<Rightarrow> rtable" where
  "pulse t = t\<lparr>tb_woken := tb_woken t @ tb_waiters t, tb_waiters := []\<rparr>"

text \<open>Statements in sequence, the first exception ends them.\<close>

definition then_do :: "rtable \<times> pyexn option \<Rightarrow> (rtable \<Rightarrow> rtable \<times> pyexn option) \<Rightarrow> rtable \<times> pyexn option" where
  "then_do m f = (case m of (t, Some e) \<Rightarrow> (t, Some e) | (t, None) \<Rightarrow> f t)"

fun for_each :: "('a \<Rightarrow> rtable \<Rightarrow> rtable \<times> pyexn option) \<Rightarrow> 'a list \<Rightarrow> rtable \<Rightarrow> rtable \<times> pyexn option" where
  "for_each f [] t = (t, None)"
| "for_each f (x # xs) t = then_do (f x t) (for_each f xs)"

section \<open>Probes\<close>

definition probe_poll_fd_now :: "kernel \<Rightarrow> int \<Rightarrow> int \<Rightarrow> pyexn + int" where
  "probe_poll_fd_now k fd msk =
     (let r = (msk AND SELECT_READ_MASK \<noteq> 0); w = (msk AND POLLOUT \<noteq> 0); x = (msk AND SELECT_EXC_MASK \<noteq> 0)
      in if \<not> (r \<or> w \<or> x) then Inl ValueErr
         else (case kn_select k fd of
             Inl e \<Rightarrow> Inl e
           | Inr (ready_r, ready_w, ready_x) \<Rightarrow>
               (let result = (if r \<and> ready_r then msk AND SELECT_READ_MASK else 0)
                          OR (if w \<and> ready_w then msk AND POLLOUT else 0)
                          OR (if x \<and> ready_x then msk AND SELECT_EXC_MASK else 0)
                in if result \<noteq> 0 then Inr result else Inl BlockingIOErr)))"

definition table_probe :: "kernel \<Rightarrow> int \<Rightarrow> int \<Rightarrow> rtable \<Rightarrow> rtable \<times> (pyexn + int option)" where
  "table_probe k fd msk t =
     (if msk = 0 then (t, Inr (Some 0))
      else (case probe_poll_fd_now k fd msk of
          Inr got \<Rightarrow> (t, Inr (Some got))
        | Inl e \<Rightarrow>
            if e = BlockingIOErr then (t, Inr (Some 0))
            else if is_OSError e then (upd_watch fd (\<lambda>w. w\<lparr>wt_error := Some e\<rparr>) t, Inr None)
            else (t, Inl e)))"

section \<open>Deliveries and arming\<close>

text \<open>The value of a delivery with \<open>POLLPRI\<close> checked against the kernel; an exception other than \<open>OSError\<close> leaves
  the callback (no value) and is reported by the guard around it.\<close>

definition check_pri :: "kernel \<Rightarrow> int \<Rightarrow> int \<Rightarrow> rtable \<Rightarrow> rtable \<times> int option" where
  "check_pri k fd v t =
     (if v AND POLLPRI = 0 then (t, Some v)
      else let v' = v AND NOT POLLPRI in
        (case probe_poll_fd_now k fd POLLPRI of
           Inr got \<Rightarrow> (t, Some (if got AND POLLPRI \<noteq> 0 then v' OR POLLPRI else v'))
         | Inl e \<Rightarrow>
             if e = BlockingIOErr then (t, Some v')
             else if is_OSError e then (pulse (upd_watch fd (\<lambda>w. w\<lparr>wt_error := Some e\<rparr>) t), Some v')
             else (t, None)))"

text \<open>One registration of the watch sees the new bits.\<close>

definition see_bits :: "int \<Rightarrow> int \<Rightarrow> reg \<Rightarrow> reg" where
  "see_bits new_bits stored g =
     (if rg_disarmed g then g
      else let fresh = new_bits AND rg_interest g AND NOT (rg_seen g);
               g1 = (if rg_edge g \<and> fresh \<noteq> 0 then g\<lparr>rg_seen := rg_seen g AND NOT fresh, rg_latched := False\<rparr> else g)
           in g1\<lparr>rg_seen := rg_seen g1 AND stored\<rparr>)"

definition visible_bits :: "int \<Rightarrow> reg \<Rightarrow> int" where
  "visible_bits stored g =
     (let bits = stored AND rg_interest g in if rg_edge g then bits AND NOT (rg_seen g) else bits)"

definition on_delivery :: "kernel \<Rightarrow> int \<Rightarrow> int delivery \<Rightarrow> rtable \<Rightarrow> rtable" where
  "on_delivery k fd d t =
     (case d_exception d of
        Some e \<Rightarrow>
          if is_io_cancellation (Some e) then t
          else pulse (upd_watch fd (\<lambda>w. w\<lparr>wt_error := Some e\<rparr>) t)
      | None \<Rightarrow>
          (if \<not> d_more d then t
           else case d_value d of
               None \<Rightarrow> t
             | Some v \<Rightarrow>
                 (case check_pri k fd v t of
                    (t1, None) \<Rightarrow> t1
                  | (t1, Some v1) \<Rightarrow>
                      (case watch_of t1 fd of
                         None \<Rightarrow> t1
                       | Some w \<Rightarrow>
                           (let new_bits = v1 AND NOT (wt_stored w);
                                stored = wt_stored w OR v1;
                                rs = map snd (wt_regs w);
                                t2 = upd_regs rs (see_bits new_bits stored) (put_watch fd (w\<lparr>wt_stored := stored\<rparr>) t1);
                                visible = (\<exists>r\<in>set rs. \<not> rg_disarmed (tb_regs t2 r) \<and> visible_bits stored (tb_regs t2 r) \<noteq> 0)
                            in if visible then pulse t2 else t2)))))"

text \<open>The callback \<open>ensure_armed\<close> gives to \<open>poll_many\<close>.\<close>

definition delivery_callback :: "kernel \<Rightarrow> int \<Rightarrow> nat \<Rightarrow> int delivery \<Rightarrow> rtable \<Rightarrow> rtable" where
  "delivery_callback k fd generation d t =
     (case watch_of t fd of
        None \<Rightarrow> t
      | Some w \<Rightarrow> if wt_generation w \<noteq> generation then t else on_delivery k fd d t)"

definition union_mask :: "rtable \<Rightarrow> watch \<Rightarrow> int" where
  "union_mask t w =
     fold (\<lambda>(owner, r) m. if \<not> rg_disarmed (tb_regs t r) \<and> rg_interest (tb_regs t r) \<noteq> 0 then m OR rg_interest (tb_regs t r) else m) (wt_regs w) 0"

definition disarm :: "int \<Rightarrow> rtable \<Rightarrow> rtable" where
  "disarm fd t =
     (case watch_of t fd of
        None \<Rightarrow> t
      | Some w \<Rightarrow>
          (case wt_handle w of
             None \<Rightarrow> t
           | Some h \<Rightarrow>
               (put_watch fd (w\<lparr>wt_generation := Suc (wt_generation w), wt_handle := None, wt_armed_mask := 0\<rparr>) t)
                 \<lparr>tb_closed := tb_closed t @ [h]\<rparr>))"

text \<open>\<open>poll_many\<close>: the handle is numbered, what it delivers on the spot is handled, and it returns or raises.\<close>

definition arm :: "kernel \<Rightarrow> int \<Rightarrow> int \<Rightarrow> nat \<Rightarrow> rtable \<Rightarrow> rtable \<times> pyexn option" where
  "arm k fd msk generation t =
     (case kn_arm k fd msk of
        (ds, x) \<Rightarrow>
          (let t1 = fold (delivery_callback k fd generation) ds t in
           case x of
             Some e \<Rightarrow> (t1\<lparr>tb_failed := fd # tb_failed t1\<rparr>, Some e)
           | None \<Rightarrow>
               (let h = tb_next_handle t1 in
                ((upd_watch fd (\<lambda>w. w\<lparr>wt_handle := Some h, wt_armed_mask := msk\<rparr>) t1)
                   \<lparr>tb_next_handle := Suc h, tb_subs := (tb_subs t1)(h := (fd, generation))\<rparr>, None))))"

definition ensure_armed :: "kernel \<Rightarrow> int \<Rightarrow> rtable \<Rightarrow> rtable \<times> pyexn option" where
  "ensure_armed k fd t =
     (case watch_of t fd of
        None \<Rightarrow> (t, None)
      | Some w \<Rightarrow>
          (let msk = union_mask t w in
           if msk = 0 then (disarm fd t, None)
           else if wt_handle w \<noteq> None \<and> wt_armed_mask w = msk then (t, None)
           else (let t1 = disarm fd t in
                 case watch_of t1 fd of
                   None \<Rightarrow> (t1, None)
                 | Some w1 \<Rightarrow> arm k fd msk (wt_generation w1) t1)))"

definition note_interest :: "kernel \<Rightarrow> int \<Rightarrow> rtable \<Rightarrow> rtable \<times> pyexn option" where
  "note_interest k fd t =
     then_do (ensure_armed k fd t) (\<lambda>t1. (if tb_selector t1 \<and> tb_fd_waits t1 fd = 0 then disarm fd t1 else t1, None))"

definition add_reg :: "kernel \<Rightarrow> int \<Rightarrow> nat \<Rightarrow> rtable \<Rightarrow> rtable \<times> pyexn option" where
  "add_reg k fd r t =
     (let w = (case watch_of t fd of None \<Rightarrow> new_watch | Some w \<Rightarrow> w) in
      note_interest k fd (put_watch fd (w\<lparr>wt_regs := AList.update (rg_owner (tb_regs t r)) r (wt_regs w), wt_shell := False\<rparr>) t))"

definition pop_watch :: "int \<Rightarrow> rtable \<Rightarrow> rtable" where
  "pop_watch fd t = t\<lparr>tb_watches := AList.delete fd (tb_watches t)\<rparr>"

definition remove_owner :: "kernel \<Rightarrow> int \<Rightarrow> nat \<Rightarrow> bool \<Rightarrow> rtable \<Rightarrow> rtable \<times> pyexn option" where
  "remove_owner k fd owner keep_shell t =
     (case watch_of t fd of
        None \<Rightarrow> (t, None)
      | Some w \<Rightarrow>
          (let w1 = w\<lparr>wt_regs := AList.delete owner (wt_regs w)\<rparr>; t1 = put_watch fd w1 t in
           if wt_regs w1 \<noteq> [] then note_interest k fd t1
           else (let t2 = disarm fd t1 in
                 (if keep_shell then upd_watch fd (\<lambda>w. w\<lparr>wt_shell := True\<rparr>) t2 else pop_watch fd t2, None))))"

text \<open>The loops over \<open>list(self.watches.items())\<close>, one descriptor at a time.\<close>

definition release_one :: "kernel \<Rightarrow> nat \<Rightarrow> int \<Rightarrow> rtable \<Rightarrow> rtable \<times> pyexn option" where
  "release_one k owner fd t =
     (case watch_of t fd of
        None \<Rightarrow> (t, None)
      | Some w \<Rightarrow> if map_of (wt_regs w) owner = None then (t, None) else remove_owner k fd owner False t)"

definition release_owner :: "kernel \<Rightarrow> nat \<Rightarrow> rtable \<Rightarrow> rtable \<times> pyexn option" where
  "release_owner k owner t = for_each (release_one k owner) (map fst (tb_watches t)) t"

definition sweep_one :: "int list \<Rightarrow> int \<Rightarrow> rtable \<Rightarrow> rtable" where
  "sweep_one keep fd t =
     (case watch_of t fd of
        None \<Rightarrow> t
      | Some w \<Rightarrow> if wt_regs w \<noteq> [] \<or> fd \<in> set keep then t else pop_watch fd (disarm fd t))"

definition sweep_shells :: "int list \<Rightarrow> rtable \<Rightarrow> rtable" where
  "sweep_shells keep t = fold (sweep_one keep) (map fst (tb_watches t)) t"

definition rearm_rest :: "kernel \<Rightarrow> int \<Rightarrow> rtable \<Rightarrow> rtable \<times> pyexn option" where
  "rearm_rest k fd t =
     (case watch_of t fd of
        None \<Rightarrow> (t, None)
      | Some w \<Rightarrow> if \<not> tb_selector t \<and> wt_regs w \<noteq> [] then ensure_armed k fd t else (t, None))"

definition finish_one :: "kernel \<Rightarrow> nat \<Rightarrow> int \<Rightarrow> rtable \<Rightarrow> rtable \<times> pyexn option" where
  "finish_one k owner fd t =
     (case watch_of t fd of
        None \<Rightarrow> (t, None)
      | Some w \<Rightarrow>
          (case map_of (wt_regs w) owner of
             None \<Rightarrow> (t, None)
           | Some r \<Rightarrow>
               if \<not> rg_ephemeral (tb_regs t r) then (t, None)
               else then_do (remove_owner k fd owner True t) (rearm_rest k fd)))"

definition finish_ephemeral :: "kernel \<Rightarrow> nat \<Rightarrow> rtable \<Rightarrow> rtable \<times> pyexn option" where
  "finish_ephemeral k owner t = for_each (finish_one k owner) (map fst (tb_watches t)) t"

section \<open>Waiting\<close>

definition collect_one :: "rtable \<Rightarrow> spec \<Rightarrow> (int \<times> int \<times> nat) list \<times> pyexn list" where
  "collect_one t = (\<lambda>(fd, r).
     if rg_disarmed (tb_regs t r) then ([], [])
     else (case watch_of t fd of
         None \<Rightarrow> ([], [])
       | Some w \<Rightarrow>
           (let bits = visible_bits (wt_stored w) (tb_regs t r) in
            (if bits \<noteq> 0 then [(fd, bits, r)] else [], case wt_error w of None \<Rightarrow> [] | Some e \<Rightarrow> [e]))))"

definition collect :: "spec list \<Rightarrow> rtable \<Rightarrow> (int \<times> int \<times> nat) list \<times> pyexn list" where
  "collect specs t = (concat (map (\<lambda>s. fst (collect_one t s)) specs), concat (map (\<lambda>s. snd (collect_one t s)) specs))"

definition pending :: "spec list \<Rightarrow> rtable \<Rightarrow> ((int \<times> int \<times> nat) list \<times> pyexn list) option" where
  "pending specs t = (case collect specs t of (ready, errors) \<Rightarrow> if ready = [] \<and> errors = [] then None else Some (ready, errors))"

definition cap :: "(int \<times> int \<times> nat) list \<Rightarrow> int option \<Rightarrow> (int \<times> int \<times> nat) list" where
  "cap ready maxevents = (case maxevents of None \<Rightarrow> ready | Some n \<Rightarrow> if n < 0 then ready else take (nat n) ready)"

definition mark_reported :: "int \<Rightarrow> reg \<Rightarrow> reg" where
  "mark_reported bits g =
     (let g1 = (if rg_edge g then g\<lparr>rg_seen := rg_seen g OR bits, rg_latched := True\<rparr> else g)
      in if rg_oneshot g1 then g1\<lparr>rg_disarmed := True\<rparr> else g1)"

definition rearm_oneshot :: "kernel \<Rightarrow> int \<times> int \<times> nat \<Rightarrow> rtable \<Rightarrow> rtable \<times> pyexn option" where
  "rearm_oneshot k = (\<lambda>(fd, bits, r) t. if rg_oneshot (tb_regs t r) then ensure_armed k fd t else (t, None))"

definition commit :: "kernel \<Rightarrow> (int \<times> int \<times> nat) list \<Rightarrow> rtable \<Rightarrow> rtable \<times> (pyexn + (int \<times> int) list)" where
  "commit k ready t =
     (let t1 = fold (\<lambda>(fd, bits, r). upd_reg r (mark_reported bits)) ready t;
          out = map (\<lambda>(fd, bits, r). (fd, bits)) ready
      in if tb_selector t1 then (t1, Inr out)
         else (case for_each (rearm_oneshot k) ready t1 of
             (t2, Some e) \<Rightarrow> (t2, Inl e)
           | (t2, None) \<Rightarrow> (t2, Inr out)))"

definition level_mask :: "rtable \<Rightarrow> watch \<Rightarrow> int" where
  "level_mask t w =
     fold (\<lambda>(owner, r) m. if rg_edge (tb_regs t r) \<or> rg_disarmed (tb_regs t r) then m else m OR (wt_stored w AND rg_interest (tb_regs t r))) (wt_regs w) 0"

text \<open>The bits of \<open>msk\<close> are replaced by those a probe found, and no registration has seen a bit that is not
  stored.\<close>

definition store_probed :: "int \<Rightarrow> int \<Rightarrow> int \<Rightarrow> rtable \<Rightarrow> rtable" where
  "store_probed fd msk got t =
     (case watch_of t fd of
        None \<Rightarrow> t
      | Some w \<Rightarrow>
          (let stored = (wt_stored w AND NOT msk) OR (got AND msk) in
           upd_regs (map snd (wt_regs w)) (\<lambda>g. g\<lparr>rg_seen := rg_seen g AND stored\<rparr>) (put_watch fd (w\<lparr>wt_stored := stored\<rparr>) t)))"

definition revalidate_level :: "kernel \<Rightarrow> int \<Rightarrow> watch \<Rightarrow> rtable \<Rightarrow> rtable \<times> pyexn option" where
  "revalidate_level k fd w t =
     (let msk = level_mask t w in
      if msk = 0 then (t, None)
      else (case table_probe k fd msk t of
          (t1, Inl e) \<Rightarrow> (t1, Some e)
        | (t1, Inr None) \<Rightarrow> (t1, None)
        | (t1, Inr (Some got)) \<Rightarrow> (store_probed fd msk got t1, None)))"

definition revalidate_edge :: "kernel \<Rightarrow> int \<Rightarrow> nat \<Rightarrow> rtable \<Rightarrow> rtable \<times> pyexn option" where
  "revalidate_edge k fd r t =
     (let g = tb_regs t r; msk = rg_seen g AND rg_interest g in
      if \<not> rg_edge g \<or> msk = 0 then (t, None)
      else (case table_probe k fd msk t of
          (t1, Inl e) \<Rightarrow> (t1, Some e)
        | (t1, Inr None) \<Rightarrow> (t1, None)
        | (t1, Inr (Some got)) \<Rightarrow>
            (if got AND msk \<noteq> 0 then (upd_reg r (\<lambda>g. g\<lparr>rg_latched := True\<rparr>) t1, None)
             else (upd_watch fd (\<lambda>w. w\<lparr>wt_stored := wt_stored w AND NOT msk\<rparr>)
                     (upd_reg r (\<lambda>g. g\<lparr>rg_seen := rg_seen g AND NOT msk\<rparr>) t1), None))))"

fun revalidate :: "kernel \<Rightarrow> int list \<Rightarrow> spec list \<Rightarrow> rtable \<Rightarrow> rtable \<times> pyexn option" where
  "revalidate k seen_fds [] t = (t, None)"
| "revalidate k seen_fds ((fd, r) # specs) t =
     (let t1 = upd_reg r (\<lambda>g. g\<lparr>rg_latched := False\<rparr>) t in
      case watch_of t1 fd of
        None \<Rightarrow> revalidate k seen_fds specs t1
      | Some w \<Rightarrow>
          then_do (then_do (if fd \<in> set seen_fds then (t1, None) else revalidate_level k fd w t1) (revalidate_edge k fd r))
            (revalidate k (fd # seen_fds) specs))"

definition probe_one :: "kernel \<Rightarrow> spec \<Rightarrow> rtable \<Rightarrow> rtable \<times> pyexn option" where
  "probe_one k = (\<lambda>(fd, r) t.
     let g = tb_regs t r in
     if rg_disarmed g \<or> rg_latched g \<or> rg_interest g = 0 \<or> (rg_edge g \<and> rg_seen g \<noteq> 0) then (t, None)
     else (case watch_of t fd of
         None \<Rightarrow> (t, None)
       | Some w \<Rightarrow>
           (if wt_stored w AND rg_interest g \<noteq> 0 then (t, None)
            else (case table_probe k fd (rg_interest g) t of
                (t1, Inl e) \<Rightarrow> (t1, Some e)
              | (t1, Inr None) \<Rightarrow> (t1, None)
              | (t1, Inr (Some got)) \<Rightarrow> (store_probed fd (rg_interest g) got t1, None)))))"

definition probe_empty :: "kernel \<Rightarrow> spec list \<Rightarrow> rtable \<Rightarrow> rtable \<times> pyexn option" where
  "probe_empty k specs t = for_each (probe_one k) specs t"

definition needs_arm :: "spec list \<Rightarrow> rtable \<Rightarrow> bool" where
  "needs_arm specs t =
     list_ex (\<lambda>(fd, r). \<not> rg_disarmed (tb_regs t r) \<and> \<not> rg_latched (tb_regs t r) \<and> rg_interest (tb_regs t r) \<noteq> 0) specs"

definition arm_one :: "kernel \<Rightarrow> spec \<Rightarrow> rtable \<Rightarrow> rtable \<times> pyexn option" where
  "arm_one k = (\<lambda>(fd, r) t. if rg_disarmed (tb_regs t r) \<or> rg_latched (tb_regs t r) then (t, None) else ensure_armed k fd t)"

text \<open>How a run of \<open>_wait\<close> ends: with a value, with an exception, parked on the pulse, or asleep.\<close>

datatype wres = WRet "(int \<times> int) list" | WRaise pyexn | WPark | WSleep

definition report :: "kernel \<Rightarrow> int option \<Rightarrow> (int \<times> int \<times> nat) list \<times> pyexn list \<Rightarrow> rtable \<Rightarrow> rtable \<times> wres" where
  "report k maxevents found t =
     (case found of
        (ready, errors) \<Rightarrow>
          if ready \<noteq> [] then
            (case commit k (cap ready maxevents) t of
               (t1, Inl e) \<Rightarrow> (t1, WRaise e)
             | (t1, Inr out) \<Rightarrow> (t1, WRet out))
          else if errors \<noteq> [] then (t, WRaise (hd errors))
          else (t, WRet []))"

text \<open>\<open>_park\<close>: \<open>swait_for\<close> evaluates \<open>_pending\<close> first.\<close>

definition park :: "kernel \<Rightarrow> spec list \<Rightarrow> int option \<Rightarrow> int option \<Rightarrow> rtable \<Rightarrow> rtable \<times> wres" where
  "park k specs timeout_seconds maxevents t =
     (case pending specs t of
        Some found \<Rightarrow> report k maxevents found t
      | None \<Rightarrow> (case timeout_seconds of
          Some n \<Rightarrow> if n \<le> 0 then (t, WRet []) else (t, WPark)
        | None \<Rightarrow> (t, WPark)))"

definition inner_wait :: "kernel \<Rightarrow> spec list \<Rightarrow> int option \<Rightarrow> int option \<Rightarrow> rtable \<Rightarrow> rtable \<times> wres" where
  "inner_wait k specs timeout_seconds maxevents t =
     (case revalidate k [] specs t of
        (t1, Some e) \<Rightarrow> (t1, WRaise e)
      | (t1, None) \<Rightarrow>
          (case collect specs t1 of
             (ready, errors) \<Rightarrow>
               if ready \<noteq> [] then report k maxevents (ready, errors) t1
               else if timeout_seconds = Some 0 then
                 (case probe_empty k specs t1 of
                    (t2, Some e) \<Rightarrow> (t2, WRaise e)
                  | (t2, None) \<Rightarrow> report k maxevents (collect specs t2) t2)
               else if errors \<noteq> [] then (t1, WRaise (hd errors))
               else if needs_arm specs t1 then
                 (case for_each (arm_one k) specs t1 of
                    (t2, Some e) \<Rightarrow> (t2, WRaise e)
                  | (t2, None) \<Rightarrow>
                      (case pending specs t2 of
                         Some found \<Rightarrow> report k maxevents found t2
                       | None \<Rightarrow> park k specs timeout_seconds maxevents t2))
               else (case timeout_seconds of
                   None \<Rightarrow> park k specs None maxevents t1
                 | Some n \<Rightarrow> if 0 < n then (t1, WSleep) else (t1, WRet []))))"

definition enter_one :: "spec \<Rightarrow> rtable \<Rightarrow> rtable" where
  "enter_one = (\<lambda>(fd, r) t. t\<lparr>tb_fd_waits := (tb_fd_waits t)(fd := tb_fd_waits t fd + 1)\<rparr>)"

definition wait_enter :: "spec list \<Rightarrow> rtable \<Rightarrow> rtable" where
  "wait_enter specs t = fold enter_one specs t"

definition leave_one :: "spec \<Rightarrow> rtable \<Rightarrow> rtable" where
  "leave_one = (\<lambda>(fd, r) t.
     let left = tb_fd_waits t fd - 1; t1 = t\<lparr>tb_fd_waits := (tb_fd_waits t)(fd := left)\<rparr>
     in if left \<noteq> 0 then t1 else disarm fd t1)"

definition wait_finally :: "spec list \<Rightarrow> rtable \<Rightarrow> rtable" where
  "wait_finally specs t = (if tb_selector t then fold leave_one specs t else t)"

definition wait_empty :: "int option \<Rightarrow> wres" where
  "wait_empty timeout_seconds =
     (case timeout_seconds of None \<Rightarrow> WPark | Some n \<Rightarrow> if 0 < n then WSleep else WRet [])"

fun is_over :: "wres \<Rightarrow> bool" where
  "is_over (WRet _) = True"
| "is_over (WRaise _) = True"
| "is_over _ = False"

text \<open>\<open>wait\<close> up to its end or the point where it is suspended.\<close>

definition table_wait :: "kernel \<Rightarrow> spec list \<Rightarrow> int option \<Rightarrow> int option \<Rightarrow> rtable \<Rightarrow> rtable \<times> wres" where
  "table_wait k specs timeout_seconds maxevents t =
     (if specs = [] then (t, wait_empty timeout_seconds)
      else (case inner_wait k specs timeout_seconds maxevents (wait_enter specs t) of
          (t1, out) \<Rightarrow> (if is_over out then wait_finally specs t1 else t1, out)))"

text \<open>A suspended \<open>wait\<close> goes on: woken by the pulse (\<open>swait_for\<close> evaluates \<open>_pending\<close> again), after its
  time-out or sleep, or with an exception thrown into it.\<close>

definition wait_woken :: "kernel \<Rightarrow> spec list \<Rightarrow> int option \<Rightarrow> rtable \<Rightarrow> rtable \<times> wres" where
  "wait_woken k specs maxevents t =
     (case pending specs t of
        None \<Rightarrow> (t, WPark)
      | Some found \<Rightarrow> (case report k maxevents found t of (t1, out) \<Rightarrow> (wait_finally specs t1, out)))"

definition wait_expired :: "kernel \<Rightarrow> spec list \<Rightarrow> int option \<Rightarrow> rtable \<Rightarrow> rtable \<times> wres" where
  "wait_expired k specs maxevents t =
     (case pending specs t of
        None \<Rightarrow> (wait_finally specs t, WRet [])
      | Some found \<Rightarrow> (case report k maxevents found t of (t1, out) \<Rightarrow> (wait_finally specs t1, out)))"

definition wait_thrown :: "spec list \<Rightarrow> pyexn \<Rightarrow> rtable \<Rightarrow> rtable \<times> wres" where
  "wait_thrown specs e t = (wait_finally specs t, WRaise e)"

end
