(* ===== verification/Polling.thy ===== *)
theory Polling
  imports Readiness
begin

unbundle bit_operations_syntax

text \<open>
  \<open>Poll\<close>, \<open>Epoll\<close> and \<open>select\<close> of \<open>tealetio/readiness.py\<close> over the table of \<open>Readiness\<close>, and the system of
  all objects, suspended calls and deliveries of one table.  A call is cut where it is suspended: woken by
  the pulse, at its time-out, or ended by an exception thrown into it.  Deliveries arrive for any handle ever
  armed, closed or not, since a delivery may be queued on the scheduler when its handle is closed.
\<close>

section \<open>Poll and Epoll objects\<close>

record pobj =
  po_epoll :: bool
  po_regs :: "(int \<times> nat) list"
  po_bound :: bool
  po_closed :: bool

definition pobj_init :: "bool \<Rightarrow> pobj" where
  "pobj_init epoll = \<lparr>po_epoll = epoll, po_regs = [], po_bound = False, po_closed = False\<rparr>"

definition pobj_bind :: "pobj \<Rightarrow> pobj \<times> pyexn option" where
  "pobj_bind p = (if po_epoll p \<and> po_closed p then (p, Some ValueErr) else (p\<lparr>po_bound := True\<rparr>, None))"

definition alloc_reg :: "reg \<Rightarrow> rtable \<Rightarrow> rtable \<times> nat" where
  "alloc_reg g t = (t\<lparr>tb_regs := (tb_regs t)(tb_next_reg t := g), tb_next_reg := Suc (tb_next_reg t)\<rparr>, tb_next_reg t)"

type_synonym obj_result = "pobj \<times> rtable \<times> pyexn option"

text \<open>The common tail of both \<open>register\<close> methods.\<close>

definition register_reg :: "kernel \<Rightarrow> int \<Rightarrow> reg \<Rightarrow> pobj \<Rightarrow> rtable \<Rightarrow> obj_result" where
  "register_reg k fd g p t =
     (case alloc_reg g t of
        (t1, r) \<Rightarrow> (case add_reg k fd r t1 of (t2, x) \<Rightarrow> (p\<lparr>po_regs := AList.update fd r (po_regs p)\<rparr>, t2, x)))"

definition poll_register :: "kernel \<Rightarrow> nat \<Rightarrow> int \<Rightarrow> int option \<Rightarrow> pobj \<Rightarrow> rtable \<Rightarrow> obj_result" where
  "poll_register k self fd eventmask p t =
     (let m = (case eventmask of None \<Rightarrow> DEFAULT_POLL_MASK | Some m \<Rightarrow> m) in
      case pobj_bind p of
        (p1, Some e) \<Rightarrow> (p1, t, Some e)
      | (p1, None) \<Rightarrow> register_reg k fd (new_reg self m False False False) p1 t)"

definition epoll_parts :: "int \<Rightarrow> pyexn + (int \<times> bool \<times> bool)" where
  "epoll_parts m =
     (if m AND EPOLLEXCLUSIVE \<noteq> 0 then Inl NotImplementedErr
      else let interest = m AND NOT EPOLL_FLAGS in
        if interest = 0 then Inl ValueErr else Inr (interest, m AND EPOLLET \<noteq> 0, m AND EPOLLONESHOT \<noteq> 0))"

definition epoll_register :: "kernel \<Rightarrow> nat \<Rightarrow> int \<Rightarrow> int option \<Rightarrow> pobj \<Rightarrow> rtable \<Rightarrow> obj_result" where
  "epoll_register k self fd eventmask p t =
     (let m = (case eventmask of None \<Rightarrow> DEFAULT_EPOLL_MASK | Some m \<Rightarrow> m) in
      if map_of (po_regs p) fd \<noteq> None then (p, t, Some (OSErr EEXIST))
      else (case epoll_parts m of
          Inl e \<Rightarrow> (p, t, Some e)
        | Inr (interest, edge, oneshot) \<Rightarrow>
            (case pobj_bind p of
               (p1, Some e) \<Rightarrow> (p1, t, Some e)
             | (p1, None) \<Rightarrow> register_reg k fd (new_reg self interest edge oneshot False) p1 t)))"

definition rearm_reg :: "int \<Rightarrow> reg \<Rightarrow> reg" where
  "rearm_reg interest g = g\<lparr>rg_interest := interest, rg_disarmed := False, rg_seen := 0, rg_latched := False\<rparr>"

definition poll_modify :: "kernel \<Rightarrow> int \<Rightarrow> int \<Rightarrow> pobj \<Rightarrow> rtable \<Rightarrow> obj_result" where
  "poll_modify k fd eventmask p t =
     (case map_of (po_regs p) fd of
        None \<Rightarrow> (p, t, Some FileNotFoundErr)
      | Some r \<Rightarrow>
          (case note_interest k fd (upd_reg r (rearm_reg eventmask) t) of (t1, x) \<Rightarrow> (fst (pobj_bind p), t1, x)))"

definition epoll_modify :: "kernel \<Rightarrow> int \<Rightarrow> int \<Rightarrow> pobj \<Rightarrow> rtable \<Rightarrow> obj_result" where
  "epoll_modify k fd eventmask p t =
     (case map_of (po_regs p) fd of
        None \<Rightarrow> (p, t, Some (OSErr ENOENT))
      | Some r \<Rightarrow>
          (case epoll_parts eventmask of
             Inl e \<Rightarrow> (p, t, Some e)
           | Inr (interest, edge, oneshot) \<Rightarrow>
               (let t1 = upd_reg r (\<lambda>g. rearm_reg interest (g\<lparr>rg_edge := edge, rg_oneshot := oneshot\<rparr>)) t in
                case pobj_bind p of
                  (p1, Some e) \<Rightarrow> (p1, t1, Some e)
                | (p1, None) \<Rightarrow> (case note_interest k fd t1 of (t2, x) \<Rightarrow> (p1, t2, x)))))"

definition obj_unregister :: "kernel \<Rightarrow> nat \<Rightarrow> int \<Rightarrow> pobj \<Rightarrow> rtable \<Rightarrow> obj_result" where
  "obj_unregister k self fd p t =
     (if map_of (po_regs p) fd = None then (p, t, Some (if po_epoll p then OSErr ENOENT else KeyErr))
      else let p1 = p\<lparr>po_regs := AList.delete fd (po_regs p)\<rparr> in
        if po_bound p then (case remove_owner k fd self False t of (t1, x) \<Rightarrow> (p1, t1, x)) else (p1, t, None))"

definition obj_close :: "kernel \<Rightarrow> nat \<Rightarrow> pobj \<Rightarrow> rtable \<Rightarrow> obj_result" where
  "obj_close k self p t =
     (if po_epoll p \<and> po_closed p then (p, t, None)
      else let p1 = p\<lparr>po_closed := po_epoll p \<or> po_closed p, po_regs := []\<rparr> in
        if \<not> po_bound p then (p1, t, None)
        else (case for_each (\<lambda>fd. remove_owner k fd self False) (map fst (po_regs p)) t of (t1, x) \<Rightarrow> (p1, t1, x)))"

definition millis_to_seconds :: "int option \<Rightarrow> int option" where
  "millis_to_seconds timeout = (case timeout of None \<Rightarrow> None | Some n \<Rightarrow> if n < 0 then None else Some n)"

definition poll_poll :: "kernel \<Rightarrow> int option \<Rightarrow> pobj \<Rightarrow> rtable \<Rightarrow> pobj \<times> rtable \<times> wres" where
  "poll_poll k timeout p t =
     (case pobj_bind p of
        (p1, Some e) \<Rightarrow> (p1, t, WRaise e)
      | (p1, None) \<Rightarrow> (case table_wait k (po_regs p1) (millis_to_seconds timeout) None t of (t1, out) \<Rightarrow> (p1, t1, out)))"

definition epoll_poll :: "kernel \<Rightarrow> int option \<Rightarrow> int \<Rightarrow> pobj \<Rightarrow> rtable \<Rightarrow> pobj \<times> rtable \<times> wres" where
  "epoll_poll k timeout maxevents p t =
     (if maxevents \<noteq> -1 \<and> maxevents \<le> 0 then (p, t, WRaise ValueErr)
      else (case pobj_bind p of
          (p1, Some e) \<Rightarrow> (p1, t, WRaise e)
        | (p1, None) \<Rightarrow>
            (case table_wait k (po_regs p1) (millis_to_seconds timeout) (Some maxevents) t of (t1, out) \<Rightarrow> (p1, t1, out))))"

section \<open>select\<close>

text \<open>An object of the lists is its identity with its descriptor.\<close>

definition select_add :: "int \<Rightarrow> nat \<times> int \<Rightarrow> (int \<times> int) list \<Rightarrow> (int \<times> int) list" where
  "select_add bits = (\<lambda>(key, fd) groups. AList.update fd ((case map_of groups fd of None \<Rightarrow> 0 | Some i \<Rightarrow> i) OR bits) groups)"

definition select_groups :: "(nat \<times> int) list \<Rightarrow> (nat \<times> int) list \<Rightarrow> (nat \<times> int) list \<Rightarrow> (int \<times> int) list" where
  "select_groups readers writers excepts =
     fold (select_add EXC_MASK) excepts (fold (select_add WRITE_MASK) writers (fold (select_add READ_MASK) readers []))"

fun alloc_specs :: "nat \<Rightarrow> (int \<times> int) list \<Rightarrow> rtable \<Rightarrow> rtable \<times> spec list" where
  "alloc_specs owner [] t = (t, [])"
| "alloc_specs owner ((fd, interest) # groups) t =
     (case alloc_reg (new_reg owner interest False False True) t of
        (t1, r) \<Rightarrow> (case alloc_specs owner groups t1 of (t2, specs) \<Rightarrow> (t2, (fd, r) # specs)))"

text \<open>The \<open>finally\<close> of a call that is over.\<close>

definition select_finish :: "kernel \<Rightarrow> nat \<Rightarrow> rtable \<times> wres \<Rightarrow> rtable \<times> wres" where
  "select_finish k owner = (\<lambda>(t, out).
     if is_over out then (case finish_ephemeral k owner t of (t1, Some e) \<Rightarrow> (t1, WRaise e) | (t1, None) \<Rightarrow> (t1, out))
     else (t, out))"

definition select_call :: "kernel \<Rightarrow> nat \<Rightarrow> (nat \<times> int) list \<Rightarrow> (nat \<times> int) list \<Rightarrow> (nat \<times> int) list \<Rightarrow> int option
    \<Rightarrow> rtable \<Rightarrow> rtable \<times> wres \<times> spec list" where
  "select_call k owner readers writers excepts timeout t =
     (if (case timeout of None \<Rightarrow> False | Some n \<Rightarrow> n < 0) then (t, WRaise ValueErr, [])
      else if readers = [] \<and> writers = [] \<and> excepts = [] then (t, wait_empty timeout, [])
      else let groups = select_groups readers writers excepts in
        (case alloc_specs owner groups (sweep_shells (map fst groups) t) of
           (t1, specs) \<Rightarrow>
             (case for_each (\<lambda>(fd, r). add_reg k fd r) specs t1 of
                (t2, Some e) \<Rightarrow> (t2, WRaise e, specs)
              | (t2, None) \<Rightarrow> (case select_finish k owner (table_wait k specs timeout None t2) of (t3, out) \<Rightarrow> (t3, out, specs)))))"

fun pick :: "(int \<times> int) list \<Rightarrow> int \<Rightarrow> nat list \<Rightarrow> (nat \<times> int) list \<Rightarrow> nat list" where
  "pick ready bits seen [] = []"
| "pick ready bits seen ((key, fd) # objs) =
     (if key \<in> set seen then pick ready bits seen objs
      else if (case map_of (rev ready) fd of None \<Rightarrow> 0 | Some m \<Rightarrow> m) AND bits \<noteq> 0 then key # pick ready bits (key # seen) objs
      else pick ready bits seen objs)"

definition select_result :: "(nat \<times> int) list \<Rightarrow> (nat \<times> int) list \<Rightarrow> (nat \<times> int) list \<Rightarrow> (int \<times> int) list
    \<Rightarrow> nat list \<times> nat list \<times> nat list" where
  "select_result readers writers excepts ready =
     (pick ready READ_MASK [] readers, pick ready WRITE_MASK [] writers, pick ready EXC_MASK [] excepts)"

section \<open>The system\<close>

record rcall =
  rc_specs :: "spec list"
  rc_timeout :: "int option"
  rc_maxevents :: "int option"
  rc_owner :: "nat option"
  rc_asleep :: bool

record rsys =
  ry_table :: rtable
  ry_objs :: "nat \<Rightarrow> pobj option"
  ry_next :: nat
  ry_calls :: "(nat \<times> rcall) list"
  ry_next_call :: nat

definition ry_init :: "bool \<Rightarrow> rsys" where
  "ry_init selector = \<lparr>ry_table = table_init selector, ry_objs = (\<lambda>_. None), ry_next = 0, ry_calls = [], ry_next_call = 0\<rparr>"

definition put_obj :: "nat \<Rightarrow> obj_result \<Rightarrow> rsys \<Rightarrow> rsys" where
  "put_obj self = (\<lambda>(p, t, x) s. s\<lparr>ry_objs := (ry_objs s)(self \<mapsto> p), ry_table := t\<rparr>)"

text \<open>A call that is not over is suspended, on the pulse when it has descriptors to wait for.\<close>

definition begin_call :: "spec list \<Rightarrow> int option \<Rightarrow> int option \<Rightarrow> nat option \<Rightarrow> rtable \<times> wres \<Rightarrow> rsys \<Rightarrow> rsys" where
  "begin_call specs timeout maxevents owner = (\<lambda>(t, out) s.
     if is_over out then s\<lparr>ry_table := t\<rparr>
     else let c = ry_next_call s in
       s\<lparr>ry_table := (if out = WPark \<and> specs \<noteq> [] then t\<lparr>tb_waiters := tb_waiters t @ [c]\<rparr> else t),
         ry_calls := ry_calls s @ [(c, \<lparr>rc_specs = specs, rc_timeout = timeout, rc_maxevents = maxevents, rc_owner = owner, rc_asleep = (out = WSleep)\<rparr>)],
         ry_next_call := Suc c\<rparr>)"

definition end_call :: "kernel \<Rightarrow> nat \<Rightarrow> rcall \<Rightarrow> rtable \<times> wres \<Rightarrow> rsys \<Rightarrow> rsys" where
  "end_call k c call res s =
     s\<lparr>ry_table := (case rc_owner call of None \<Rightarrow> fst res | Some owner \<Rightarrow> fst (select_finish k owner res)),
       ry_calls := remove1 (c, call) (ry_calls s)\<rparr>"

text \<open>The call leaves the pulse: it is unlinked when an exception (its time-out too) reaches it there.\<close>

definition unpark :: "nat \<Rightarrow> rtable \<Rightarrow> rtable" where
  "unpark c t = t\<lparr>tb_waiters := removeAll c (tb_waiters t), tb_woken := removeAll c (tb_woken t)\<rparr>"

inductive ry_step :: "rsys \<Rightarrow> rsys \<Rightarrow> bool" where
  new_object: "ry_step s (s\<lparr>ry_objs := (ry_objs s)(ry_next s \<mapsto> pobj_init epoll), ry_next := Suc (ry_next s)\<rparr>)"
| register: "ry_objs s self = Some p \<Longrightarrow>
    ry_step s (put_obj self ((if po_epoll p then epoll_register else poll_register) k self fd m p (ry_table s)) s)"
| modify: "ry_objs s self = Some p \<Longrightarrow>
    ry_step s (put_obj self ((if po_epoll p then epoll_modify else poll_modify) k fd m p (ry_table s)) s)"
| unregister: "ry_objs s self = Some p \<Longrightarrow> ry_step s (put_obj self (obj_unregister k self fd p (ry_table s)) s)"
| close_object: "ry_objs s self = Some p \<Longrightarrow> ry_step s (put_obj self (obj_close k self p (ry_table s)) s)"
| call_poll: "ry_objs s self = Some p \<Longrightarrow> \<not> po_epoll p \<Longrightarrow> poll_poll k timeout p (ry_table s) = (p', t', out) \<Longrightarrow>
    ry_step s (begin_call (po_regs p) (millis_to_seconds timeout) None None (t', out) (s\<lparr>ry_objs := (ry_objs s)(self \<mapsto> p')\<rparr>))"
| call_epoll: "ry_objs s self = Some p \<Longrightarrow> po_epoll p \<Longrightarrow> epoll_poll k timeout n p (ry_table s) = (p', t', out) \<Longrightarrow>
    ry_step s (begin_call (po_regs p) (millis_to_seconds timeout) (Some n) None (t', out) (s\<lparr>ry_objs := (ry_objs s)(self \<mapsto> p')\<rparr>))"
| call_select: "select_call k (ry_next s) readers writers excepts timeout (ry_table s) = (t', out, specs) \<Longrightarrow>
    ry_step s (begin_call specs timeout None (Some (ry_next s)) (t', out) (s\<lparr>ry_next := Suc (ry_next s)\<rparr>))"
| deliver: "h < tb_next_handle (ry_table s) \<Longrightarrow>
    ry_step s (s\<lparr>ry_table := delivery_callback k (fst (tb_subs (ry_table s) h)) (snd (tb_subs (ry_table s) h)) d (ry_table s)\<rparr>)"
| woken: "(c, call) \<in> set (ry_calls s) \<Longrightarrow> c \<in> set (tb_woken (ry_table s)) \<Longrightarrow>
    wait_woken k (rc_specs call) (rc_maxevents call) (unpark c (ry_table s)) = (t', out) \<Longrightarrow>
    ry_step s (if out = WPark then s\<lparr>ry_table := t'\<lparr>tb_waiters := tb_waiters t' @ [c]\<rparr>\<rparr> else end_call k c call (t', out) s)"
| expired: "(c, call) \<in> set (ry_calls s) \<Longrightarrow> rc_timeout call = Some n \<Longrightarrow>
    wait_expired k (rc_specs call) (rc_maxevents call) (unpark c (ry_table s)) = (t', out) \<Longrightarrow>
    ry_step s (end_call k c call (t', out) s)"
| thrown: "(c, call) \<in> set (ry_calls s) \<Longrightarrow>
    wait_thrown (rc_specs call) e (unpark c (ry_table s)) = (t', out) \<Longrightarrow> ry_step s (end_call k c call (t', out) s)"

end
