(* ===== verification/Polling_Facts.thy ===== *)
theory Polling_Facts
  imports Polling
begin

unbundle bit_operations_syntax

text \<open>
  Facts on the readiness table and its system: every armed handle is closed exactly once or held by one
  watch, the selector's slot of a descriptor is taken only while a call waits for it, a suspended call stays
  armed for its level-triggered registrations and a delivery wakes it, and \<open>poll(0)\<close> reports exactly when
  something is ready.  Most of the code leaves handles and registrations alone; the relation \<open>quiet\<close> says so,
  and the invariants are proved once for it and once for each operation that arms, disarms or changes
  registrations.
\<close>

section \<open>Accessors\<close>

lemma watch_put [simp]: "watch_of (put_watch fd w t) fd' = (if fd' = fd then Some w else watch_of t fd')"
  by (simp add: put_watch_def update_conv')

lemma watch_upd [simp]: "watch_of (upd_watch fd f t) fd' = (if fd' = fd then map_option f (watch_of t fd) else watch_of t fd')"
  by (auto simp: upd_watch_def split: option.splits)

lemma watch_pop [simp]: "watch_of (pop_watch fd t) fd' = (if fd' = fd then None else watch_of t fd')"
  by (simp add: pop_watch_def delete_conv')

lemma put_watch_simps [simp]:
  "tb_selector (put_watch fd w t) = tb_selector t" "tb_regs (put_watch fd w t) = tb_regs t" "tb_next_reg (put_watch fd w t) = tb_next_reg t"
  "tb_fd_waits (put_watch fd w t) = tb_fd_waits t" "tb_waiters (put_watch fd w t) = tb_waiters t" "tb_woken (put_watch fd w t) = tb_woken t"
  "tb_next_handle (put_watch fd w t) = tb_next_handle t" "tb_subs (put_watch fd w t) = tb_subs t" "tb_closed (put_watch fd w t) = tb_closed t"
  "tb_failed (put_watch fd w t) = tb_failed t"
  by (simp_all add: put_watch_def)

lemma upd_watch_simps [simp]:
  "tb_selector (upd_watch fd f t) = tb_selector t" "tb_regs (upd_watch fd f t) = tb_regs t" "tb_next_reg (upd_watch fd f t) = tb_next_reg t"
  "tb_fd_waits (upd_watch fd f t) = tb_fd_waits t" "tb_waiters (upd_watch fd f t) = tb_waiters t" "tb_woken (upd_watch fd f t) = tb_woken t"
  "tb_next_handle (upd_watch fd f t) = tb_next_handle t" "tb_subs (upd_watch fd f t) = tb_subs t" "tb_closed (upd_watch fd f t) = tb_closed t"
  "tb_failed (upd_watch fd f t) = tb_failed t"
  by (simp_all add: upd_watch_def split: option.splits)

lemma pop_watch_simps [simp]:
  "tb_selector (pop_watch fd t) = tb_selector t" "tb_regs (pop_watch fd t) = tb_regs t" "tb_next_reg (pop_watch fd t) = tb_next_reg t"
  "tb_fd_waits (pop_watch fd t) = tb_fd_waits t" "tb_waiters (pop_watch fd t) = tb_waiters t" "tb_woken (pop_watch fd t) = tb_woken t"
  "tb_next_handle (pop_watch fd t) = tb_next_handle t" "tb_subs (pop_watch fd t) = tb_subs t" "tb_closed (pop_watch fd t) = tb_closed t"
  "tb_failed (pop_watch fd t) = tb_failed t"
  by (simp_all add: pop_watch_def)

lemma then_do_inv: "P (fst m) \<Longrightarrow> (\<And>t. P t \<Longrightarrow> P (fst (f t))) \<Longrightarrow> P (fst (then_do m f))"
  by (cases m; cases "snd m") (auto simp: then_do_def)

lemma for_each_inv: "P t \<Longrightarrow> (\<And>x t. x \<in> set xs \<Longrightarrow> P t \<Longrightarrow> P (fst (f x t))) \<Longrightarrow> P (fst (for_each f xs t))"
proof (induction xs arbitrary: t)
  case (Cons x xs)
  have "P (fst (then_do (f x t) (for_each f xs)))"
    by (rule then_do_inv [of P]) (use Cons in auto)
  then show ?case by simp
qed simp

lemma fold_inv: "P t \<Longrightarrow> (\<And>x t. x \<in> set xs \<Longrightarrow> P t \<Longrightarrow> P (f x t)) \<Longrightarrow> P (fold f xs t)"
  by (induction xs arbitrary: t) auto

section \<open>Masks of a watch\<close>

definition wanted :: "rtable \<Rightarrow> nat \<Rightarrow> bool" where
  "wanted t r = (\<not> rg_disarmed (tb_regs t r) \<and> rg_interest (tb_regs t r) \<noteq> 0)"

lemma bit_fold_or:
  "bit (fold (\<lambda>(owner, r) m. if P r then m OR f r else m) xs m0) n
     \<longleftrightarrow> bit m0 n \<or> (\<exists>r \<in> snd ` set xs. P r \<and> bit (f r :: int) n)"
  by (induction xs arbitrary: m0) (auto simp: bit_simps split: if_splits)

definition regs_of :: "watch \<Rightarrow> nat set" where
  "regs_of w = snd ` set (wt_regs w)"

lemma bit_union_mask: "bit (union_mask t w) n \<longleftrightarrow> (\<exists>r \<in> regs_of w. wanted t r \<and> bit (rg_interest (tb_regs t r)) n)"
  using bit_fold_or [of "wanted t" "\<lambda>r. rg_interest (tb_regs t r)" "wt_regs w" 0 n] by (simp add: union_mask_def wanted_def regs_of_def)

lemma union_mask_0: "union_mask t w = 0 \<longleftrightarrow> (\<forall>r \<in> regs_of w. \<not> wanted t r)"
proof
  assume z: "union_mask t w = 0"
  show "\<forall>r \<in> regs_of w. \<not> wanted t r"
  proof (intro ballI notI)
    fix r assume r: "r \<in> regs_of w" "wanted t r"
    then obtain n where "bit (rg_interest (tb_regs t r)) n" by (auto simp: wanted_def bit_eq_iff)
    with r have "bit (union_mask t w) n" by (auto simp: bit_union_mask)
    with z show False by simp
  qed
next
  assume "\<forall>r \<in> regs_of w. \<not> wanted t r"
  then show "union_mask t w = 0" by (intro bit_eqI) (auto simp: bit_union_mask)
qed

text \<open>\<open>a\<close> has no bit outside \<open>b\<close>.\<close>

definition within :: "int \<Rightarrow> int \<Rightarrow> bool" where
  "within a b = (\<forall>n. bit a n \<longrightarrow> bit b n)"

lemma within_iff: "within a b \<longleftrightarrow> a AND NOT b = 0"
  by (auto simp: within_def bit_eq_iff bit_simps)

lemma within_refl [simp]: "within a a" by (simp add: within_def)
lemma within_trans: "within a b \<Longrightarrow> within b c \<Longrightarrow> within a c" by (simp add: within_def)

section \<open>Quiet operations\<close>

definition frame :: "watch \<Rightarrow> (nat \<times> nat) list \<times> nat \<times> nat option \<times> int" where
  "frame w = (wt_regs w, wt_generation w, wt_handle w, wt_armed_mask w)"

definition quiet :: "rtable \<Rightarrow> rtable \<Rightarrow> bool" where
  "quiet t t' \<longleftrightarrow>
     tb_selector t' = tb_selector t \<and> tb_next_reg t' = tb_next_reg t \<and> tb_fd_waits t' = tb_fd_waits t
   \<and> tb_next_handle t' = tb_next_handle t \<and> tb_subs t' = tb_subs t \<and> tb_closed t' = tb_closed t \<and> tb_failed t' = tb_failed t
   \<and> (\<forall>fd. map_option frame (watch_of t' fd) = map_option frame (watch_of t fd))
   \<and> (\<forall>r. rg_interest (tb_regs t' r) = rg_interest (tb_regs t r) \<and> rg_edge (tb_regs t' r) = rg_edge (tb_regs t r)
        \<and> rg_oneshot (tb_regs t' r) = rg_oneshot (tb_regs t r) \<and> rg_ephemeral (tb_regs t' r) = rg_ephemeral (tb_regs t r)
        \<and> rg_owner (tb_regs t' r) = rg_owner (tb_regs t r)
        \<and> (rg_disarmed (tb_regs t r) \<longrightarrow> rg_disarmed (tb_regs t' r)) \<and> (rg_disarmed (tb_regs t' r) \<longrightarrow> rg_disarmed (tb_regs t r) \<or> rg_oneshot (tb_regs t r))
        \<and> (rg_latched (tb_regs t' r) \<longrightarrow> rg_latched (tb_regs t r) \<or> rg_edge (tb_regs t r)))
   \<and> set (tb_waiters t') \<union> set (tb_woken t') = set (tb_waiters t) \<union> set (tb_woken t) \<and> set (tb_waiters t') \<subseteq> set (tb_waiters t)"

lemma quiet_refl [simp, intro]: "quiet t t" by (simp add: quiet_def)

lemma quiet_trans [trans]: "quiet t u \<Longrightarrow> quiet u v \<Longrightarrow> quiet t v"
  unfolding quiet_def by (elim conjE, intro conjI allI) (metis subset_trans)+

lemma quiet_pulse: "quiet t (pulse t)" by (auto simp: quiet_def pulse_def)

lemma quiet_upd_watch: "(\<And>w. frame (f w) = frame w) \<Longrightarrow> quiet t (upd_watch fd f t)"
  by (auto simp: quiet_def option.map_comp comp_def split: option.splits)

lemma quiet_put_watch: "watch_of t fd = Some w \<Longrightarrow> frame w' = frame w \<Longrightarrow> quiet t (put_watch fd w' t)"
  by (auto simp: quiet_def)

definition calm :: "(reg \<Rightarrow> reg) \<Rightarrow> bool" where
  "calm f \<longleftrightarrow> (\<forall>g. rg_interest (f g) = rg_interest g \<and> rg_edge (f g) = rg_edge g \<and> rg_oneshot (f g) = rg_oneshot g
     \<and> rg_ephemeral (f g) = rg_ephemeral g \<and> rg_owner (f g) = rg_owner g \<and> (rg_disarmed g \<longrightarrow> rg_disarmed (f g))
     \<and> (rg_disarmed (f g) \<longrightarrow> rg_disarmed g \<or> rg_oneshot g) \<and> (rg_latched (f g) \<longrightarrow> rg_latched g \<or> rg_edge g))"

lemma quiet_upd_reg: "calm f \<Longrightarrow> quiet t (upd_reg r f t)"
  by (simp add: quiet_def calm_def upd_reg_def)

lemma quiet_upd_regs: "calm f \<Longrightarrow> quiet t (upd_regs rs f t)"
  by (simp add: quiet_def calm_def upd_regs_def)

lemma calm_simps [simp]:
  "calm (see_bits n s)" "calm (mark_reported b)" "calm (rg_seen_update h)" "calm (\<lambda>g. g\<lparr>rg_seen := h2 g\<rparr>)" "calm (\<lambda>g. g\<lparr>rg_latched := False\<rparr>)"
  by (auto simp: calm_def see_bits_def mark_reported_def Let_def)

lemma quiet_check_pri: "check_pri k fd v t = (t', x) \<Longrightarrow> quiet t t'"
  by (auto simp: check_pri_def Let_def frame_def intro: quiet_trans [OF quiet_upd_watch quiet_pulse] split: if_splits sum.splits)

lemma quiet_on_delivery: "quiet t (on_delivery k fd d t)"
proof -
  have store: "quiet t1 (upd_regs rs (see_bits n s) (put_watch fd (w\<lparr>wt_stored := s\<rparr>) t1))" if "watch_of t1 fd = Some w" for t1 w rs n s
    using that by (intro quiet_trans [OF quiet_put_watch quiet_upd_regs]) (auto simp: frame_def)
  show ?thesis
    by (auto simp: on_delivery_def Let_def frame_def quiet_check_pri split: option.splits prod.splits
        intro: quiet_trans [OF quiet_upd_watch quiet_pulse] quiet_trans [OF quiet_check_pri store] quiet_check_pri
          quiet_trans [OF quiet_check_pri quiet_trans [OF store quiet_pulse]])
qed

lemma quiet_callback: "quiet t (delivery_callback k fd gen d t)"
  by (auto simp: delivery_callback_def quiet_on_delivery split: option.splits)

lemma quiet_probe: "table_probe k fd m t = (t', x) \<Longrightarrow> quiet t t'"
  by (auto simp: table_probe_def frame_def intro: quiet_upd_watch split: if_splits sum.splits)

lemma quiet_store: "quiet t (store_probed fd m got t)"
  by (auto simp: store_probed_def Let_def frame_def intro!: quiet_trans [OF quiet_put_watch quiet_upd_regs] split: option.splits)

lemma quiet_revalidate_level: "quiet t (fst (revalidate_level k fd w t))"
  by (auto simp: revalidate_level_def Let_def intro: quiet_probe quiet_trans [OF quiet_probe quiet_store] split: prod.splits sum.splits option.splits)

lemma quiet_upd_latched: "rg_edge (tb_regs t r) \<Longrightarrow> quiet t (upd_reg r (\<lambda>g. g\<lparr>rg_latched := True\<rparr>) t)"
  by (simp add: quiet_def upd_reg_def)

lemma quiet_edge: "quiet t t' \<Longrightarrow> rg_edge (tb_regs t' r) = rg_edge (tb_regs t r)"
  by (simp add: quiet_def)

lemma quiet_revalidate_edge: "quiet t (fst (revalidate_edge k fd r t))"
proof -
  have "quiet t (fst (revalidate_edge k fd r t))" if e: "rg_edge (tb_regs t r)" "rg_seen (tb_regs t r) AND rg_interest (tb_regs t r) \<noteq> 0"
  proof (cases "table_probe k fd (rg_seen (tb_regs t r) AND rg_interest (tb_regs t r)) t")
    case (Pair t1 x)
    then have q: "quiet t t1" by (rule quiet_probe)
    have l: "quiet t (upd_reg r (\<lambda>g. g\<lparr>rg_latched := True\<rparr>) t1)"
      using q e quiet_edge [OF q] by (intro quiet_trans [OF q quiet_upd_latched]) simp
    have "quiet t (upd_watch fd (\<lambda>w. w\<lparr>wt_stored := f w\<rparr>) (upd_reg r (\<lambda>g. g\<lparr>rg_seen := h g\<rparr>) t1))" for f h
      by (intro quiet_trans [OF q quiet_trans [OF quiet_upd_reg quiet_upd_watch]]) (auto simp: frame_def)
    then show ?thesis using q l e Pair by (auto simp: revalidate_edge_def Let_def split: sum.splits option.splits)
  qed
  then show ?thesis by (auto simp: revalidate_edge_def Let_def)
qed

lemma quiet_then_do: "quiet t (fst m) \<Longrightarrow> (\<And>u. quiet u (fst (f u))) \<Longrightarrow> quiet t (fst (then_do m f))"
  using then_do_inv [of "quiet t" m f] quiet_trans by blast

lemma quiet_revalidate: "quiet t (fst (revalidate k seen specs t))"
proof (induction k seen specs t rule: revalidate.induct)
  case (1 k seen t)
  then show ?case by simp
next
  case (2 k seen fd r specs t)
  let ?t = "upd_reg r (\<lambda>g. g\<lparr>rg_latched := False\<rparr>) t"
  have q: "quiet t ?t" by (rule quiet_upd_reg) simp
  show ?case
  proof (cases "watch_of ?t fd")
    case None
    then show ?thesis using quiet_trans [OF q 2(1) [OF refl None]] by (simp add: Let_def)
  next
    case (Some w)
    have "quiet ?t (fst (then_do (then_do (if fd \<in> set seen then (?t, None) else revalidate_level k fd w ?t) (revalidate_edge k fd r))
       (revalidate k (fd # seen) specs)))"
      using 2(2) [OF refl Some] by (intro quiet_then_do) (auto simp: quiet_revalidate_level quiet_revalidate_edge)
    from quiet_trans [OF q this] Some show ?thesis by (simp add: Let_def)
  qed
qed

lemma quiet_probe_empty: "quiet t (fst (probe_empty k specs t))"
proof -
  have "quiet u (fst (probe_one k s u))" for s u
    by (cases s) (auto simp: probe_one_def Let_def intro: quiet_probe quiet_trans [OF quiet_probe quiet_store] split: option.splits prod.splits sum.splits)
  then show ?thesis unfolding probe_empty_def
    by (intro for_each_inv [where P = "quiet t"]) (auto intro: quiet_trans)
qed

section \<open>The invariant of the table\<close>

definition handles_ok :: "rtable \<Rightarrow> bool" where
  "handles_ok t \<longleftrightarrow>
     (\<forall>fd w h. watch_of t fd = Some w \<and> wt_handle w = Some h \<longrightarrow> h < tb_next_handle t \<and> h \<notin> set (tb_closed t) \<and> tb_subs t h = (fd, wt_generation w))
   \<and> distinct (tb_closed t) \<and> (\<forall>h \<in> set (tb_closed t). h < tb_next_handle t)
   \<and> (\<forall>h < tb_next_handle t. h \<in> set (tb_closed t) \<or> (\<exists>fd w. watch_of t fd = Some w \<and> wt_handle w = Some h))"

definition latch_ok :: "rtable \<Rightarrow> bool" where
  "latch_ok t \<longleftrightarrow> (\<forall>r. rg_latched (tb_regs t r) \<longrightarrow> rg_edge (tb_regs t r))"

definition slots_ok :: "int set \<Rightarrow> rtable \<Rightarrow> bool" where
  "slots_ok X t \<longleftrightarrow> (tb_selector t \<longrightarrow> (\<forall>fd w. watch_of t fd = Some w \<and> wt_handle w \<noteq> None \<and> fd \<notin> X \<longrightarrow> 0 < tb_fd_waits t fd))"

definition cover_ok :: "int set \<Rightarrow> rtable \<Rightarrow> bool" where
  "cover_ok Y t \<longleftrightarrow> (\<forall>fd w. watch_of t fd = Some w \<and> wt_handle w \<noteq> None \<and> fd \<notin> Y \<longrightarrow> within (union_mask t w) (wt_armed_mask w))"

definition armed_ok :: "int set \<Rightarrow> (int \<times> nat) set \<Rightarrow> rtable \<Rightarrow> bool" where
  "armed_ok Y Z t \<longleftrightarrow> (\<forall>fd r w. (fd, r) \<in> Z \<and> fd \<notin> Y \<and> watch_of t fd = Some w \<and> r \<in> regs_of w \<and> wanted t r
     \<and> \<not> rg_edge (tb_regs t r) \<longrightarrow> wt_handle w \<noteq> None \<or> fd \<in> set (tb_failed t))"

definition homes_ok :: "rtable \<Rightarrow> bool" where
  "homes_ok t \<longleftrightarrow> (\<forall>fd w r. watch_of t fd = Some w \<and> r \<in> regs_of w \<longrightarrow>
     r < tb_next_reg t \<and> (\<forall>fd' w'. watch_of t fd' = Some w' \<and> r \<in> regs_of w' \<longrightarrow> fd' = fd))"

definition tb_ok :: "int set \<Rightarrow> int set \<Rightarrow> (int \<times> nat) set \<Rightarrow> rtable \<Rightarrow> bool" where
  "tb_ok X Y Z t \<longleftrightarrow> handles_ok t \<and> latch_ok t \<and> slots_ok X t \<and> cover_ok Y t \<and> armed_ok Y Z t \<and> homes_ok t"

lemmas tb_ok_parts = handles_ok_def latch_ok_def slots_ok_def cover_ok_def armed_ok_def homes_ok_def

lemma handlesD: "handles_ok t \<Longrightarrow> watch_of t fd = Some w \<Longrightarrow> wt_handle w = Some h \<Longrightarrow>
    h < tb_next_handle t \<and> h \<notin> set (tb_closed t) \<and> tb_subs t h = (fd, wt_generation w)"
  by (simp add: handles_ok_def)

lemma handlesI:
  assumes "\<And>fd w h. watch_of t fd = Some w \<Longrightarrow> wt_handle w = Some h \<Longrightarrow>
      h < tb_next_handle t \<and> h \<notin> set (tb_closed t) \<and> tb_subs t h = (fd, wt_generation w)"
    and "distinct (tb_closed t)" and "\<And>h. h \<in> set (tb_closed t) \<Longrightarrow> h < tb_next_handle t"
    and "\<And>h. h < tb_next_handle t \<Longrightarrow> h \<in> set (tb_closed t) \<or> (\<exists>fd w. watch_of t fd = Some w \<and> wt_handle w = Some h)"
  shows "handles_ok t"
  using assms unfolding handles_ok_def by blast

lemma armedD: "armed_ok Y Z t \<Longrightarrow> (fd, r) \<in> Z \<Longrightarrow> fd \<notin> Y \<Longrightarrow> watch_of t fd = Some w \<Longrightarrow> r \<in> regs_of w \<Longrightarrow> wanted t r
    \<Longrightarrow> \<not> rg_edge (tb_regs t r) \<Longrightarrow> wt_handle w \<noteq> None \<or> fd \<in> set (tb_failed t)"
  unfolding armed_ok_def by blast

lemma coverD: "cover_ok Y t \<Longrightarrow> watch_of t fd = Some w \<Longrightarrow> wt_handle w \<noteq> None \<Longrightarrow> fd \<notin> Y \<Longrightarrow> within (union_mask t w) (wt_armed_mask w)"
  unfolding cover_ok_def by blast

lemma homesD: "homes_ok t \<Longrightarrow> watch_of t fd = Some w \<Longrightarrow> r \<in> regs_of w \<Longrightarrow>
    r < tb_next_reg t \<and> (\<forall>fd' w'. watch_of t fd' = Some w' \<and> r \<in> regs_of w' \<longrightarrow> fd' = fd)"
  unfolding homes_ok_def by blast

lemma regs_of_cong: "wt_regs w' = wt_regs w \<Longrightarrow> regs_of w' = regs_of w"
  by (simp add: regs_of_def)

lemma frame_eqD: "frame w = frame w' \<Longrightarrow> wt_regs w' = wt_regs w \<and> regs_of w' = regs_of w \<and> wt_generation w' = wt_generation w
    \<and> wt_handle w' = wt_handle w \<and> wt_armed_mask w' = wt_armed_mask w"
  by (simp add: frame_def regs_of_def)

lemma tb_ok_slots: "X \<subseteq> X' \<Longrightarrow> tb_ok X Y Z t \<Longrightarrow> tb_ok X' Y Z t"
  by (auto simp: tb_ok_def slots_ok_def)

lemma tb_ok_settle:
  assumes ok: "tb_ok X (insert fd Y) Z t"
    and c: "\<And>w. watch_of t fd = Some w \<Longrightarrow> wt_handle w \<noteq> None \<Longrightarrow> within (union_mask t w) (wt_armed_mask w)"
    and a: "\<And>r w. (fd, r) \<in> Z \<Longrightarrow> watch_of t fd = Some w \<Longrightarrow> r \<in> regs_of w \<Longrightarrow> wanted t r \<Longrightarrow> \<not> rg_edge (tb_regs t r) \<Longrightarrow>
      wt_handle w \<noteq> None \<or> fd \<in> set (tb_failed t)"
  shows "tb_ok X Y Z t"
proof -
  have o: "cover_ok (insert fd Y) t" "armed_ok (insert fd Y) Z t" using ok by (simp_all add: tb_ok_def)
  have "cover_ok Y t" unfolding cover_ok_def
  proof (intro allI impI, elim conjE)
    fix fd' w' assume h: "watch_of t fd' = Some w'" "wt_handle w' \<noteq> None" "fd' \<notin> Y"
    show "within (union_mask t w') (wt_armed_mask w')"
    proof (cases "fd' = fd")
      case True
      then show ?thesis using c h by blast
    next
      case False
      then show ?thesis using coverD [OF o(1) h(1,2)] h by blast
    qed
  qed
  moreover have "armed_ok Y Z t" unfolding armed_ok_def
  proof (intro allI impI, elim conjE)
    fix fd' r w' assume h: "(fd', r) \<in> Z" "fd' \<notin> Y" "watch_of t fd' = Some w'" "r \<in> regs_of w'" "wanted t r" "\<not> rg_edge (tb_regs t r)"
    show "wt_handle w' \<noteq> None \<or> fd' \<in> set (tb_failed t)"
    proof (cases "fd' = fd")
      case True
      then show ?thesis using a h by blast
    next
      case False
      then show ?thesis using armedD [OF o(2) h(1) _ h(3-6)] h by blast
    qed
  qed
  ultimately show ?thesis using ok by (simp add: tb_ok_def)
qed

lemma quiet_watch: "quiet t t' \<Longrightarrow> watch_of t' fd = Some w' \<Longrightarrow> \<exists>w. watch_of t fd = Some w \<and> frame w = frame w'"
  unfolding quiet_def by (metis map_option_eq_Some option.simps(9))

lemma quiet_watch_back: "quiet t t' \<Longrightarrow> watch_of t fd = Some w \<Longrightarrow> \<exists>w'. watch_of t' fd = Some w' \<and> frame w = frame w'"
  unfolding quiet_def by (metis map_option_eq_Some option.simps(9))

lemma quiet_wanted: "quiet t t' \<Longrightarrow> wanted t' r \<Longrightarrow> wanted t r"
  by (auto simp: quiet_def wanted_def)

lemma quiet_interest: "quiet t t' \<Longrightarrow> rg_interest (tb_regs t' r) = rg_interest (tb_regs t r)"
  by (simp add: quiet_def)

lemma quiet_union: "quiet t t' \<Longrightarrow> wt_regs w' = wt_regs w \<Longrightarrow> within (union_mask t' w') (union_mask t w)"
  by (auto simp: within_def bit_union_mask regs_of_cong [of w' w] quiet_interest dest: quiet_wanted)

lemma quiet_handles: "quiet t t' \<Longrightarrow> handles_ok t \<Longrightarrow> handles_ok t'"
proof -
  assume q: "quiet t t'" and h: "handles_ok t"
  have s: "tb_next_handle t' = tb_next_handle t" "tb_subs t' = tb_subs t" "tb_closed t' = tb_closed t" using q by (simp_all add: quiet_def)
  have "h < tb_next_handle t \<and> h \<notin> set (tb_closed t) \<and> tb_subs t h = (fd, wt_generation w')"
    if "watch_of t' fd = Some w'" "wt_handle w' = Some h" for fd w' h
    using quiet_watch [OF q that(1)] that(2) \<open>handles_ok t\<close> by (auto simp: handles_ok_def frame_def)
  moreover have "\<exists>fd w'. watch_of t' fd = Some w' \<and> wt_handle w' = Some h" if "watch_of t fd = Some w" "wt_handle w = Some h" for fd w h
    using quiet_watch_back [OF q that(1)] that(2) unfolding frame_def by (metis prod.inject)
  ultimately show ?thesis using h unfolding handles_ok_def s by blast
qed

lemma quiet_tb_ok:
  assumes q: "quiet t t'" and ok: "tb_ok X Y Z t"
  shows "tb_ok X Y Z t'"
proof -
  have s: "tb_selector t' = tb_selector t" "tb_next_reg t' = tb_next_reg t" "tb_fd_waits t' = tb_fd_waits t" "tb_failed t' = tb_failed t"
    using q by (simp_all add: quiet_def)
  have "handles_ok t'" using quiet_handles [OF q] ok by (simp add: tb_ok_def)
  moreover have "latch_ok t'" using q ok by (auto simp: tb_ok_def latch_ok_def quiet_def)
  moreover have "slots_ok X t'" using ok quiet_watch [OF q] s by (fastforce simp: tb_ok_def slots_ok_def frame_def)
  moreover have "cover_ok Y t'"
    unfolding cover_ok_def
  proof (intro allI impI, elim conjE)
    fix fd w' assume w': "watch_of t' fd = Some w'" "wt_handle w' \<noteq> None" "fd \<notin> Y"
    then obtain w where w: "watch_of t fd = Some w" "frame w = frame w'" using quiet_watch [OF q] by blast
    then have "within (union_mask t w) (wt_armed_mask w')" using ok w' unfolding tb_ok_def cover_ok_def frame_def by (metis prod.inject)
    moreover have "within (union_mask t' w') (union_mask t w)" using w by (intro quiet_union [OF q]) (auto simp: frame_def)
    ultimately show "within (union_mask t' w') (wt_armed_mask w')" using within_trans by blast
  qed
  moreover have "armed_ok Y Z t'"
    unfolding armed_ok_def
  proof (intro allI impI, elim conjE)
    fix fd r w' assume h: "(fd, r) \<in> Z" "fd \<notin> Y" "watch_of t' fd = Some w'" "r \<in> regs_of w'" "wanted t' r" "\<not> rg_edge (tb_regs t' r)"
    obtain w where w: "watch_of t fd = Some w" "frame w = frame w'" using quiet_watch [OF q h(3)] by blast
    note f = frame_eqD [OF w(2)]
    have "wt_handle w \<noteq> None \<or> fd \<in> set (tb_failed t)"
      by (rule armedD [OF _ h(1,2) w(1)]) (use ok h f quiet_wanted [OF q] quiet_edge [OF q] in \<open>simp_all add: tb_ok_def\<close>)
    then show "wt_handle w' \<noteq> None \<or> fd \<in> set (tb_failed t')" using f s by simp
  qed
  moreover have "homes_ok t'" unfolding homes_ok_def s
  proof (intro allI impI, elim conjE)
    fix fd w r assume h: "watch_of t' fd = Some w" "r \<in> regs_of w"
    obtain w0 where w0: "watch_of t fd = Some w0" "r \<in> regs_of w0" using quiet_watch [OF q h(1)] h(2) frame_eqD by metis
    have "fd' = fd" if h': "watch_of t' fd' = Some w'" "r \<in> regs_of w'" for fd' w'
    proof -
      obtain w1 where w1: "watch_of t fd' = Some w1" "r \<in> regs_of w1" using quiet_watch [OF q h'(1)] h'(2) frame_eqD by metis
      then show ?thesis using ok w0 unfolding tb_ok_def homes_ok_def by blast
    qed
    then show "r < tb_next_reg t \<and> (\<forall>fd' w'. watch_of t' fd' = Some w' \<and> r \<in> regs_of w' \<longrightarrow> fd' = fd)"
      using ok w0 unfolding tb_ok_def homes_ok_def by blast
  qed
  ultimately show ?thesis by (simp add: tb_ok_def)
qed

section \<open>Arming and disarming\<close>

definition shut_watch :: "watch \<Rightarrow> watch" where
  "shut_watch w = (if wt_handle w = None then w else w\<lparr>wt_generation := Suc (wt_generation w), wt_handle := None, wt_armed_mask := 0\<rparr>)"

lemma shut_watch_simps [simp]: "wt_regs (shut_watch w) = wt_regs w" "wt_handle (shut_watch w) = None" "wt_stored (shut_watch w) = wt_stored w" "wt_error (shut_watch w) = wt_error w"
  by (simp_all add: shut_watch_def)

lemma watch_disarm [simp]: "watch_of (disarm fd t) fd' = (if fd' = fd then map_option shut_watch (watch_of t fd) else watch_of t fd')"
  by (auto simp: disarm_def shut_watch_def split: option.splits)

lemma disarm_simps [simp]:
  "tb_selector (disarm fd t) = tb_selector t" "tb_regs (disarm fd t) = tb_regs t" "tb_next_reg (disarm fd t) = tb_next_reg t"
  "tb_fd_waits (disarm fd t) = tb_fd_waits t" "tb_waiters (disarm fd t) = tb_waiters t" "tb_woken (disarm fd t) = tb_woken t"
  "tb_next_handle (disarm fd t) = tb_next_handle t" "tb_subs (disarm fd t) = tb_subs t" "tb_failed (disarm fd t) = tb_failed t"
  by (simp_all add: disarm_def split: option.splits)

lemma disarm_closed: "tb_closed (disarm fd t) = tb_closed t @ (case watch_of t fd of None \<Rightarrow> [] | Some w \<Rightarrow> (case wt_handle w of None \<Rightarrow> [] | Some h \<Rightarrow> [h]))"
  by (simp add: disarm_def split: option.splits)

lemma union_mask_cong: "wt_regs w' = wt_regs w \<Longrightarrow> tb_regs t' = tb_regs t \<Longrightarrow> union_mask t' w' = union_mask t w"
  by (rule bit_eqI) (simp add: bit_union_mask wanted_def regs_of_def)

lemma wanted_cong: "tb_regs t' = tb_regs t \<Longrightarrow> wanted t' r = wanted t r"
  by (simp add: wanted_def)

lemma handles_disarm: "handles_ok t \<Longrightarrow> handles_ok (disarm fd t)"
proof (cases "\<exists>w h. watch_of t fd = Some w \<and> wt_handle w = Some h")
  case True
  then obtain w h where w: "watch_of t fd = Some w" "wt_handle w = Some h" by blast
  assume ok: "handles_ok t"
  have c: "tb_closed (disarm fd t) = tb_closed t @ [h]" using w by (simp add: disarm_closed)
  have h: "h < tb_next_handle t" "h \<notin> set (tb_closed t)" using ok w by (auto simp: handles_ok_def)
  have other: "h' \<noteq> h" if "watch_of t fd' = Some w'" "wt_handle w' = Some h'" "fd' \<noteq> fd" for fd' w' h'
  proof
    assume "h' = h"
    then have "tb_subs t h = (fd', wt_generation w')" "tb_subs t h = (fd, wt_generation w)" using handlesD [OF ok that(1,2)] handlesD [OF ok w] by auto
    then show False using that by simp
  qed
  have a: "h' < tb_next_handle t \<and> h' \<notin> set (tb_closed t) \<and> h' \<noteq> h \<and> tb_subs t h' = (fd', wt_generation w')"
    if "watch_of (disarm fd t) fd' = Some w'" "wt_handle w' = Some h'" for fd' w' h'
  proof -
    have "fd' \<noteq> fd" using that by auto
    then show ?thesis using that other ok by (auto simp: handles_ok_def)
  qed
  have b: "h' \<in> set (tb_closed t) \<or> h' = h \<or> (\<exists>fd' w'. watch_of (disarm fd t) fd' = Some w' \<and> wt_handle w' = Some h')" if lt: "h' < tb_next_handle t" for h'
  proof (cases "h' \<in> set (tb_closed t) \<or> h' = h")
    case False
    then obtain fd' w' where f: "watch_of t fd' = Some w'" "wt_handle w' = Some h'" using ok lt unfolding handles_ok_def by blast
    with False w have "fd' \<noteq> fd" by auto
    then show ?thesis using f by auto
  qed auto
  have c': "distinct (tb_closed t @ [h])" "\<And>h'. h' \<in> set (tb_closed t @ [h]) \<Longrightarrow> h' < tb_next_handle t" using ok h by (auto simp: handles_ok_def)
  show ?thesis
  proof (rule handlesI)
    fix fd' w' h' assume "watch_of (disarm fd t) fd' = Some w'" "wt_handle w' = Some h'"
    from a [OF this] show "h' < tb_next_handle (disarm fd t) \<and> h' \<notin> set (tb_closed (disarm fd t)) \<and> tb_subs (disarm fd t) h' = (fd', wt_generation w')"
      by (simp add: c)
  next
    fix h' assume "h' < tb_next_handle (disarm fd t)"
    then show "h' \<in> set (tb_closed (disarm fd t)) \<or> (\<exists>fd' w'. watch_of (disarm fd t) fd' = Some w' \<and> wt_handle w' = Some h')"
      using b [of h'] by (simp add: c del: watch_disarm) blast
  qed (use c' in \<open>simp_all add: c\<close>)
next
  case False
  assume ok: "handles_ok t"
  have "disarm fd t = t" using False by (auto simp: disarm_def split: option.splits)
  then show ?thesis using ok by simp
qed

definition idle_fd :: "int set \<Rightarrow> (int \<times> nat) set \<Rightarrow> int \<Rightarrow> rtable \<Rightarrow> bool" where
  "idle_fd Y Z fd t \<longleftrightarrow> fd \<in> Y \<or> (\<forall>r w. (fd, r) \<in> Z \<and> watch_of t fd = Some w \<and> r \<in> regs_of w \<longrightarrow> \<not> wanted t r)"

lemma disarm_ok:
  assumes ok: "tb_ok X Y Z t" and idle: "idle_fd Y Z fd t"
  shows "tb_ok (X - {fd}) Y Z (disarm fd t)"
proof -
  note w = wanted_cong [of "disarm fd t" t] and u = union_mask_cong [of _ _ "disarm fd t" t]
  have "handles_ok (disarm fd t)" "latch_ok (disarm fd t)"
    using ok handles_disarm by (auto simp: tb_ok_def latch_ok_def)
  moreover have "slots_ok (X - {fd}) (disarm fd t)" using ok by (auto simp: tb_ok_def slots_ok_def)
  moreover have "cover_ok Y (disarm fd t)" using ok u by (auto simp: tb_ok_def cover_ok_def)
  moreover have "armed_ok Y Z (disarm fd t)"
    unfolding armed_ok_def
  proof (intro allI impI, elim conjE)
    fix fd' r w' assume h: "(fd', r) \<in> Z" "fd' \<notin> Y" "watch_of (disarm fd t) fd' = Some w'" "r \<in> regs_of w'"
      "wanted (disarm fd t) r" "\<not> rg_edge (tb_regs (disarm fd t) r)"
    show "wt_handle w' \<noteq> None \<or> fd' \<in> set (tb_failed (disarm fd t))"
    proof (cases "fd' = fd")
      case True
      then obtain v where "watch_of t fd = Some v" "regs_of v = regs_of w'" using h(3) True by (auto simp: regs_of_def)
      then have False using idle h w True unfolding idle_fd_def by auto
      then show ?thesis ..
    next
      case False
      then show ?thesis using ok h w unfolding tb_ok_def armed_ok_def by auto
    qed
  qed
  moreover have "homes_ok (disarm fd t)"
  proof -
    have e: "\<exists>w. watch_of t fd' = Some w \<and> regs_of w = regs_of w'" if "watch_of (disarm fd t) fd' = Some w'" for fd' w'
      using that by (auto simp: regs_of_def split: if_splits)
    show ?thesis unfolding homes_ok_def disarm_simps using homesD [of t] ok e unfolding tb_ok_def by metis
  qed
  ultimately show ?thesis by (simp add: tb_ok_def)
qed

definition arm_watch :: "int \<Rightarrow> int \<Rightarrow> nat \<Rightarrow> rtable \<Rightarrow> rtable" where
  "arm_watch fd msk gen t =
     (upd_watch fd (\<lambda>w. w\<lparr>wt_handle := Some (tb_next_handle t), wt_armed_mask := msk\<rparr>) t)
       \<lparr>tb_next_handle := Suc (tb_next_handle t), tb_subs := (tb_subs t)(tb_next_handle t := (fd, gen))\<rparr>"

lemma watch_arm [simp]: "watch_of (arm_watch fd msk gen t) fd' =
    (if fd' = fd then map_option (\<lambda>w. w\<lparr>wt_handle := Some (tb_next_handle t), wt_armed_mask := msk\<rparr>) (watch_of t fd) else watch_of t fd')"
  using watch_upd [of fd _ t fd'] by (simp add: arm_watch_def)

lemma arm_watch_simps [simp]:
  "tb_selector (arm_watch fd msk gen t) = tb_selector t" "tb_regs (arm_watch fd msk gen t) = tb_regs t" "tb_next_reg (arm_watch fd msk gen t) = tb_next_reg t"
  "tb_fd_waits (arm_watch fd msk gen t) = tb_fd_waits t" "tb_waiters (arm_watch fd msk gen t) = tb_waiters t" "tb_woken (arm_watch fd msk gen t) = tb_woken t"
  "tb_next_handle (arm_watch fd msk gen t) = Suc (tb_next_handle t)" "tb_closed (arm_watch fd msk gen t) = tb_closed t" "tb_failed (arm_watch fd msk gen t) = tb_failed t"
  by (simp_all add: arm_watch_def)

lemma arm_eq: "arm k fd msk gen t = (let t1 = fold (delivery_callback k fd gen) (fst (kn_arm k fd msk)) t in
    case snd (kn_arm k fd msk) of Some e \<Rightarrow> (t1\<lparr>tb_failed := fd # tb_failed t1\<rparr>, Some e) | None \<Rightarrow> (arm_watch fd msk gen t1, None))"
  by (simp add: arm_def arm_watch_def Let_def case_prod_beta split: option.split)

lemma handles_arm:
  assumes ok: "handles_ok t" and w: "watch_of t fd = Some w" "wt_handle w = None"
  shows "handles_ok (arm_watch fd msk (wt_generation w) t)"
proof -
  let ?t = "arm_watch fd msk (wt_generation w) t"
  have s: "tb_subs ?t h = (if h = tb_next_handle t then (fd, wt_generation w) else tb_subs t h)" for h by (simp add: arm_watch_def)
  have c: "\<forall>h \<in> set (tb_closed t). h < tb_next_handle t" "distinct (tb_closed t)" using ok by (simp_all add: handles_ok_def)
  have "h < Suc (tb_next_handle t) \<and> h \<notin> set (tb_closed t) \<and> tb_subs ?t h = (fd', wt_generation w')"
    if h: "watch_of ?t fd' = Some w'" "wt_handle w' = Some h" for fd' w' h
  proof (cases "fd' = fd")
    case True
    then show ?thesis using h w c by (auto simp: s)
  next
    case False
    then have "watch_of t fd' = Some w'" using h by simp
    from handlesD [OF ok this h(2)] show ?thesis by (simp add: s)
  qed
  moreover have "h \<in> set (tb_closed t) \<or> (\<exists>fd' w'. watch_of ?t fd' = Some w' \<and> wt_handle w' = Some h)" if lt: "h < Suc (tb_next_handle t)" for h
  proof (cases "h = tb_next_handle t")
    case True
    then have "watch_of ?t fd = Some (w\<lparr>wt_handle := Some h, wt_armed_mask := msk\<rparr>)" using w by simp
    then show ?thesis by (intro disjI2 exI [of _ fd] exI [of _ "w\<lparr>wt_handle := Some h, wt_armed_mask := msk\<rparr>"]) simp
  next
    case False
    then have "h < tb_next_handle t" using lt by simp
    then show ?thesis
    proof (cases "h \<in> set (tb_closed t)")
      case False
      then obtain fd' w' where f: "watch_of t fd' = Some w'" "wt_handle w' = Some h" using ok \<open>h < tb_next_handle t\<close> unfolding handles_ok_def by blast
      then have "fd' \<noteq> fd" using w by auto
      then show ?thesis using f by auto
    qed simp
  qed
  moreover have "\<forall>h \<in> set (tb_closed t). h < Suc (tb_next_handle t)" using c(1) by auto
  ultimately show ?thesis using c(2) unfolding handles_ok_def arm_watch_simps by blast
qed

lemma arm_watch_ok:
  assumes ok: "tb_ok X (insert fd Y) Z t" and w: "watch_of t fd = Some w" "wt_handle w = None" and u: "within (union_mask t w) msk"
  shows "tb_ok (insert fd X) Y Z (arm_watch fd msk (wt_generation w) t)"
proof -
  let ?t = "arm_watch fd msk (wt_generation w) t"
  note c = union_mask_cong [of _ _ ?t t, OF _ arm_watch_simps(2)] and d = wanted_cong [of ?t t, OF arm_watch_simps(2)]
  have "handles_ok ?t" "latch_ok ?t" using ok handles_arm [OF _ w] by (auto simp: tb_ok_def latch_ok_def)
  moreover have "slots_ok (insert fd X) ?t" using ok by (auto simp: tb_ok_def slots_ok_def)
  moreover have "cover_ok Y ?t"
    unfolding cover_ok_def
  proof (intro allI impI, elim conjE)
    fix fd' w' assume h: "watch_of ?t fd' = Some w'" "wt_handle w' \<noteq> None" "fd' \<notin> Y"
    show "within (union_mask ?t w') (wt_armed_mask w')"
    proof (cases "fd' = fd")
      case True
      then have "w' = w\<lparr>wt_handle := Some (tb_next_handle t), wt_armed_mask := msk\<rparr>" using h w by simp
      then show ?thesis using u c [of w' w] by simp
    next
      case False
      then have "watch_of t fd' = Some w'" using h by simp
      then show ?thesis using coverD [of "insert fd Y" t fd' w'] ok h False c [of w' w'] by (simp add: tb_ok_def)
    qed
  qed
  moreover have "armed_ok Y Z ?t"
    unfolding armed_ok_def
  proof (intro allI impI, elim conjE)
    fix fd' r w' assume h: "(fd', r) \<in> Z" "fd' \<notin> Y" "watch_of ?t fd' = Some w'" "r \<in> regs_of w'" "wanted ?t r" "\<not> rg_edge (tb_regs ?t r)"
    show "wt_handle w' \<noteq> None \<or> fd' \<in> set (tb_failed ?t)"
    proof (cases "fd' = fd")
      case True
      then show ?thesis using h by auto
    next
      case False
      then have "watch_of t fd' = Some w'" using h by simp
      from armedD [OF _ h(1) _ this h(4), of "insert fd Y"] show ?thesis using ok h False d by (simp add: tb_ok_def)
    qed
  qed
  moreover have "homes_ok ?t"
  proof -
    have e: "\<exists>w. watch_of t fd' = Some w \<and> regs_of w = regs_of w'" if "watch_of ?t fd' = Some w'" for fd' w'
      using that by (auto simp: regs_of_def split: if_splits)
    show ?thesis unfolding homes_ok_def arm_watch_simps using homesD [of t] ok e unfolding tb_ok_def by metis
  qed
  ultimately show ?thesis by (simp add: tb_ok_def)
qed

lemma tb_ok_failed:
  assumes ok: "tb_ok X (insert fd Y) Z t" and w: "\<And>w. watch_of t fd = Some w \<Longrightarrow> wt_handle w = None"
  shows "tb_ok X Y Z (t\<lparr>tb_failed := fd # tb_failed t\<rparr>)"
proof -
  let ?t = "t\<lparr>tb_failed := fd # tb_failed t\<rparr>"
  have [simp]: "union_mask ?t w = union_mask t w" "wanted ?t r = wanted t r" for w r by (rule union_mask_cong, simp, simp) (simp add: wanted_def)
  have c: "cover_ok (insert fd Y) t" "armed_ok (insert fd Y) Z t" using ok by (simp_all add: tb_ok_def)
  have "cover_ok (insert fd Y) ?t" using c(1) by (simp add: cover_ok_def)
  moreover have "armed_ok (insert fd Y) Z ?t" unfolding armed_ok_def
  proof (intro allI impI, elim conjE)
    fix fd' r w' assume h: "(fd', r) \<in> Z" "fd' \<notin> insert fd Y" "watch_of ?t fd' = Some w'" "r \<in> regs_of w'" "wanted ?t r" "\<not> rg_edge (tb_regs ?t r)"
    from armedD [OF c(2) h(1,2) _ h(4)] h show "wt_handle w' \<noteq> None \<or> fd' \<in> set (tb_failed ?t)" by auto
  qed
  moreover have "handles_ok ?t = handles_ok t" "latch_ok ?t = latch_ok t" "slots_ok X ?t = slots_ok X t" "homes_ok ?t = homes_ok t"
    by (simp_all add: handles_ok_def latch_ok_def slots_ok_def homes_ok_def)
  ultimately have "tb_ok X (insert fd Y) Z ?t" using ok unfolding tb_ok_def by blast
  then show ?thesis by (rule tb_ok_settle) (use w in auto)
qed

lemma arm_ok:
  assumes ok: "tb_ok X (insert fd Y) Z t" and w: "watch_of t fd = Some w" "wt_handle w = None" "gen = wt_generation w"
    and u: "within (union_mask t w) msk"
  shows "tb_ok (if snd (arm k fd msk gen t) = None then insert fd X else X) Y Z (fst (arm k fd msk gen t))"
proof -
  let ?t = "fold (delivery_callback k fd gen) (fst (kn_arm k fd msk)) t"
  have q: "quiet t ?t" by (rule fold_inv [where P = "quiet t"]) (auto intro: quiet_trans quiet_callback)
  obtain w1 where w1: "watch_of ?t fd = Some w1" "frame w = frame w1" using quiet_watch_back [OF q w(1)] by blast
  note f = frame_eqD [OF w1(2)]
  have ok1: "tb_ok X (insert fd Y) Z ?t" by (rule quiet_tb_ok [OF q ok])
  have u1: "within (union_mask ?t w1) msk" using within_trans [OF quiet_union [OF q] u] f by blast
  show ?thesis
  proof (cases "snd (kn_arm k fd msk)")
    case None
    then show ?thesis using arm_watch_ok [OF ok1 w1(1) _ u1] f w by (simp add: arm_eq Let_def)
  next
    case (Some e)
    have "tb_ok X Y Z (?t\<lparr>tb_failed := fd # tb_failed ?t\<rparr>)" by (rule tb_ok_failed [OF ok1]) (use w1 f w in auto)
    then show ?thesis using Some by (simp add: arm_eq Let_def)
  qed
qed

lemma ensure_armed_ok:
  assumes ok: "tb_ok X (insert fd Y) Z t"
  shows "tb_ok (if snd (ensure_armed k fd t) = None then insert fd X else X) Y Z (fst (ensure_armed k fd t))"
proof (cases "watch_of t fd")
  case None
  have "tb_ok X Y Z t" by (rule tb_ok_settle [OF ok]) (use None in auto)
  then have "tb_ok (insert fd X) Y Z t" by (rule tb_ok_slots [rotated]) auto
  then show ?thesis using None by (simp add: ensure_armed_def)
next
  case (Some w)
  let ?m = "union_mask t w"
  consider (none) "?m = 0" | (same) "?m \<noteq> 0" "wt_handle w \<noteq> None" "wt_armed_mask w = ?m" | (new) "?m \<noteq> 0" "\<not> (wt_handle w \<noteq> None \<and> wt_armed_mask w = ?m)" by blast
  then show ?thesis
  proof cases
    case none
    have d: "tb_ok (X - {fd}) (insert fd Y) Z (disarm fd t)" by (rule disarm_ok [OF ok]) (simp add: idle_fd_def)
    have n: "\<not> wanted (disarm fd t) r" if "r \<in> regs_of w" for r
      using none that wanted_cong [of "disarm fd t" t] by (simp add: union_mask_0)
    have "tb_ok (X - {fd}) Y Z (disarm fd t)"
      by (rule tb_ok_settle [OF d]) (use Some n regs_of_cong [of "shut_watch w" w] in auto)
    then have "tb_ok (insert fd X) Y Z (disarm fd t)" by (rule tb_ok_slots [rotated]) auto
    then show ?thesis using Some none by (simp add: ensure_armed_def)
  next
    case same
    have "tb_ok X Y Z t" by (rule tb_ok_settle [OF ok]) (use same Some in auto)
    then have "tb_ok (insert fd X) Y Z t" by (rule tb_ok_slots [rotated]) auto
    then show ?thesis using Some same by (simp add: ensure_armed_def)
  next
    case new
    have d: "tb_ok (X - {fd}) (insert fd Y) Z (disarm fd t)" by (rule disarm_ok [OF ok]) (simp add: idle_fd_def)
    have u: "union_mask (disarm fd t) (shut_watch w) = ?m" by (rule union_mask_cong) simp_all
    have e: "ensure_armed k fd t = arm k fd ?m (wt_generation (shut_watch w)) (disarm fd t)"
      using Some new by (auto simp: ensure_armed_def Let_def)
    have a: "tb_ok (if snd (ensure_armed k fd t) = None then insert fd (X - {fd}) else X - {fd}) Y Z (fst (ensure_armed k fd t))"
      unfolding e by (rule arm_ok [OF d, of "shut_watch w"]) (use Some u in simp_all)
    have weak: "tb_ok X Y Z u" if "tb_ok (X - {fd}) Y Z u" for u by (rule tb_ok_slots [OF _ that]) auto
    show ?thesis
    proof (cases "snd (ensure_armed k fd t)")
      case None
      then show ?thesis using a by simp
    next
      case (Some e)
      then show ?thesis using weak a by simp
    qed
  qed
qed

section \<open>What arming leaves alone\<close>

definition steady :: "rtable \<Rightarrow> rtable \<Rightarrow> bool" where
  "steady t t' \<longleftrightarrow> tb_selector t' = tb_selector t \<and> tb_next_reg t' = tb_next_reg t \<and> tb_fd_waits t' = tb_fd_waits t
     \<and> (\<forall>fd w'. watch_of t' fd = Some w' \<longrightarrow> (\<exists>w. watch_of t fd = Some w \<and> regs_of w' \<subseteq> regs_of w))
     \<and> set (tb_waiters t') \<union> set (tb_woken t') = set (tb_waiters t) \<union> set (tb_woken t)"

lemma steady_refl [simp, intro]: "steady t t" by (simp add: steady_def)

lemma steady_trans [trans]: "steady t u \<Longrightarrow> steady u v \<Longrightarrow> steady t v"
  unfolding steady_def by (elim conjE, intro conjI allI impI) (metis subset_trans)+

lemma quiet_steady: "quiet t t' \<Longrightarrow> steady t t'"
proof -
  assume q: "quiet t t'"
  have "\<exists>w. watch_of t fd = Some w \<and> regs_of w' \<subseteq> regs_of w" if "watch_of t' fd = Some w'" for fd w'
    using quiet_watch [OF q that] frame_eqD by blast
  then show ?thesis using q by (simp add: steady_def quiet_def)
qed

lemma steady_disarm: "steady t (disarm fd t)"
  by (auto simp: steady_def regs_of_def)

lemma steady_pop: "steady t (pop_watch fd t)"
  by (auto simp: steady_def)

lemma steady_arm: "steady t (fst (arm k fd msk gen t))"
proof -
  have q: "steady t (fold (delivery_callback k fd gen) ds t)" for ds
    by (rule fold_inv [where P = "steady t"]) (auto intro: steady_trans quiet_steady quiet_callback)
  have "steady u (arm_watch fd msk gen u)" for u by (auto simp: steady_def regs_of_def)
  moreover have "steady u (u\<lparr>tb_failed := x\<rparr>)" for u x by (auto simp: steady_def)
  ultimately show ?thesis using q steady_trans by (simp add: arm_eq Let_def split: option.splits) blast
qed

lemma steady_ensure_armed: "steady t (fst (ensure_armed k fd t))"
  by (auto simp: ensure_armed_def Let_def steady_disarm split: option.splits intro: steady_trans [OF steady_disarm steady_arm])

lemma steady_note_interest: "steady t (fst (note_interest k fd t))"
  unfolding note_interest_def
  by (rule then_do_inv [where P = "steady t"]) (auto simp: steady_ensure_armed intro: steady_trans steady_disarm)

lemma note_interest_ok:
  assumes ok: "tb_ok X (insert fd Y) Z t" and idle: "tb_selector t \<Longrightarrow> tb_fd_waits t fd = 0 \<Longrightarrow> fd \<in> Y \<or> fd \<notin> fst ` Z"
  shows "tb_ok X Y Z (fst (note_interest k fd t))"
proof -
  let ?t = "fst (ensure_armed k fd t)"
  have a: "tb_ok (if snd (ensure_armed k fd t) = None then insert fd X else X) Y Z ?t" by (rule ensure_armed_ok [OF ok])
  have s: "tb_selector ?t = tb_selector t" "tb_fd_waits ?t = tb_fd_waits t" using steady_ensure_armed [of t k fd] by (simp_all add: steady_def)
  have slot: "tb_ok X Y Z u" if "tb_ok (insert fd X) Y Z u" "\<not> (tb_selector u \<and> tb_fd_waits u fd = 0)" for u
    using that unfolding tb_ok_def slots_ok_def by (metis gr0I insert_iff)
  show ?thesis
  proof (cases "snd (ensure_armed k fd t)")
    case (Some e)
    then show ?thesis using a by (cases "ensure_armed k fd t") (simp add: note_interest_def then_do_def)
  next
    case None
    have n: "fst (note_interest k fd t) = (if tb_selector ?t \<and> tb_fd_waits ?t fd = 0 then disarm fd ?t else ?t)"
      using None by (cases "ensure_armed k fd t") (simp add: note_interest_def then_do_def)
    show ?thesis
    proof (cases "tb_selector ?t \<and> tb_fd_waits ?t fd = 0")
      case True
      have "tb_ok (insert fd X - {fd}) Y Z (disarm fd ?t)"
        by (rule disarm_ok) (use a None idle True s in \<open>auto simp: idle_fd_def image_iff\<close>)
      then have "tb_ok X Y Z (disarm fd ?t)" by (auto simp: tb_ok_def slots_ok_def)
      then show ?thesis using n True by simp
    next
      case False
      have "tb_ok X Y Z ?t" by (rule slot [OF _ False]) (use a None in simp)
      then show ?thesis using n False by metis
    qed
  qed
qed

section \<open>Changing registrations\<close>

text \<open>\<open>r\<close> can only be registered for \<open>fd\<close>.\<close>

definition tied :: "rtable \<Rightarrow> int \<Rightarrow> nat \<Rightarrow> bool" where
  "tied t fd r \<longleftrightarrow> r < tb_next_reg t \<and> (\<forall>fd' w'. watch_of t fd' = Some w' \<and> r \<in> regs_of w' \<longrightarrow> fd' = fd)"

lemma tied_steady: "steady t t' \<Longrightarrow> tied t fd r \<Longrightarrow> tied t' fd r"
  unfolding steady_def tied_def by (metis subsetD)

lemma grow_ok:
  assumes ok: "tb_ok X Y Z t" and w: "w = (case watch_of t fd of None \<Rightarrow> new_watch | Some w \<Rightarrow> w)"
    and w': "wt_handle w' = wt_handle w" "wt_generation w' = wt_generation w" "regs_of w' \<subseteq> insert r (regs_of w)" and r: "tied t fd r"
  shows "tb_ok X (insert fd Y) Z (put_watch fd w' t)"
proof -
  let ?t = "put_watch fd w' t"
  note c = union_mask_cong [of _ _ ?t t, OF _ put_watch_simps(2)] and d = wanted_cong [of ?t t, OF put_watch_simps(2)]
  have old: "wt_handle w = Some h \<Longrightarrow> watch_of t fd = Some w" for h using w by (cases "watch_of t fd") (auto simp: new_watch_def)
  have oldr: "r' \<in> regs_of w \<Longrightarrow> watch_of t fd = Some w" for r' using w by (cases "watch_of t fd") (auto simp: new_watch_def regs_of_def)
  have "handles_ok ?t"
  proof (rule handlesI)
    have ho: "handles_ok t" using ok by (simp add: tb_ok_def)
    show "distinct (tb_closed ?t)" "\<And>h. h \<in> set (tb_closed ?t) \<Longrightarrow> h < tb_next_handle ?t" using ho by (simp_all add: handles_ok_def)
    fix fd1 w1 h assume h: "watch_of ?t fd1 = Some w1" "wt_handle w1 = Some h"
    show "h < tb_next_handle ?t \<and> h \<notin> set (tb_closed ?t) \<and> tb_subs ?t h = (fd1, wt_generation w1)"
      using handlesD [OF ho, of fd1 w1 h] handlesD [OF ho old, of h h] h w' by (cases "fd1 = fd") auto
  next
    fix h assume "h < tb_next_handle ?t"
    then consider "h \<in> set (tb_closed t)" | fd1 w1 where "watch_of t fd1 = Some w1" "wt_handle w1 = Some h"
      using ok unfolding tb_ok_def handles_ok_def put_watch_simps by blast
    then show "h \<in> set (tb_closed ?t) \<or> (\<exists>fd w. watch_of ?t fd = Some w \<and> wt_handle w = Some h)"
    proof cases
      case 2
      then show ?thesis using w w' by (cases "fd1 = fd") (auto intro!: exI [of _ fd1])
    qed simp
  qed
  moreover have "latch_ok ?t" using ok by (simp add: tb_ok_def latch_ok_def)
  moreover have "slots_ok X ?t" using ok w' old by (auto simp: tb_ok_def slots_ok_def)
  moreover have "cover_ok (insert fd Y) ?t" using ok c unfolding tb_ok_def cover_ok_def by auto
  moreover have "armed_ok (insert fd Y) Z ?t"
    unfolding armed_ok_def
  proof (intro allI impI, elim conjE)
    fix fd1 r w1 assume h: "(fd1, r) \<in> Z" "fd1 \<notin> insert fd Y" "watch_of ?t fd1 = Some w1" "r \<in> regs_of w1" "wanted ?t r" "\<not> rg_edge (tb_regs ?t r)"
    then have "watch_of t fd1 = Some w1" by simp
    from armedD [OF _ h(1) _ this h(4), of Y] show "wt_handle w1 \<noteq> None \<or> fd1 \<in> set (tb_failed ?t)" using ok h d by (simp add: tb_ok_def)
  qed
  moreover have "homes_ok ?t"
  proof -
    have ho: "homes_ok t" using ok by (simp add: tb_ok_def)
    have t: "tied t fd1 r1" if h: "watch_of ?t fd1 = Some w1" "r1 \<in> regs_of w1" for fd1 w1 r1
    proof (cases "fd1 = fd")
      case True
      then have "r1 = r \<or> r1 \<in> regs_of w" using h w' by auto
      then show ?thesis using True r homesD [OF ho oldr] unfolding tied_def by blast
    next
      case False
      then have "watch_of t fd1 = Some w1" using h by simp
      from homesD [OF ho this h(2)] show ?thesis unfolding tied_def .
    qed
    have "fd2 = fd1" if "watch_of ?t fd1 = Some w1" "r1 \<in> regs_of w1" "watch_of ?t fd2 = Some w2" "r1 \<in> regs_of w2" for fd1 w1 r1 fd2 w2
    proof (cases "fd1 = fd")
      case True
      show ?thesis
      proof (cases "fd2 = fd")
        case False
        then have "watch_of t fd2 = Some w2" using that by simp
        then show ?thesis using t [OF that(1,2)] that(4) unfolding tied_def by blast
      qed (use True in simp)
    next
      case False
      then have "watch_of t fd1 = Some w1" using that by simp
      then show ?thesis using t [OF that(3,4)] that(2) unfolding tied_def by blast
    qed
    then show ?thesis using t unfolding homes_ok_def tied_def put_watch_simps by blast
  qed
  ultimately show ?thesis by (simp add: tb_ok_def)
qed

lemma shrink_ok:
  assumes ok: "tb_ok X Y Z t" and w: "watch_of t fd = Some w"
    and w': "wt_handle w' = wt_handle w" "wt_generation w' = wt_generation w" "wt_armed_mask w' = wt_armed_mask w" "regs_of w' \<subseteq> regs_of w"
  shows "tb_ok X Y Z (put_watch fd w' t)"
proof (cases "regs_of w = {}")
  case True
  then have "frame w' = frame w" using w' by (simp add: frame_def regs_of_def)
  then show ?thesis using quiet_tb_ok [OF quiet_put_watch [OF w] ok] by simp
next
  case False
  then obtain r where r: "r \<in> regs_of w" by blast
  let ?t = "put_watch fd w' t"
  note d = wanted_cong [of ?t t, OF put_watch_simps(2)]
  have "tied t fd r" using homesD [OF _ w r] ok by (simp add: tb_ok_def tied_def)
  then have g: "tb_ok X (insert fd Y) Z ?t" by (rule grow_ok [OF ok refl, rotated 3]) (use w w' in auto)
  have u: "within (union_mask ?t w') (union_mask t w)" using w'(4) by (auto simp: within_def bit_union_mask d)
  show ?thesis
  proof (cases "fd \<in> Y")
    case True
    then show ?thesis using g by (simp add: insert_absorb)
  next
    case False
    have o: "cover_ok Y t" "armed_ok Y Z t" using ok by (simp_all add: tb_ok_def)
    show ?thesis
    proof (rule tb_ok_settle [OF g])
      fix v assume v: "watch_of ?t fd = Some v" "wt_handle v \<noteq> None"
      then show "within (union_mask ?t v) (wt_armed_mask v)"
        using within_trans [OF u coverD [OF o(1) w _ False]] w' by simp
    next
      fix r v assume v: "(fd, r) \<in> Z" "watch_of ?t fd = Some v" "r \<in> regs_of v" "wanted ?t r" "\<not> rg_edge (tb_regs ?t r)"
      then show "wt_handle v \<noteq> None \<or> fd \<in> set (tb_failed ?t)"
        using armedD [OF o(2) v(1) False w] w' d by auto
    qed
  qed
qed

lemma regs_of_update: "regs_of (w\<lparr>wt_regs := AList.update owner r (wt_regs w), wt_shell := b\<rparr>) \<subseteq> insert r (regs_of w)"
proof -
  have "set (AList.update owner r xs) \<subseteq> insert (owner, r) (set xs)" for xs by (induction xs) auto
  then show ?thesis by (force simp: regs_of_def)
qed

lemma regs_of_delete: "regs_of (w\<lparr>wt_regs := AList.delete owner (wt_regs w)\<rparr>) \<subseteq> regs_of w"
  by (auto simp: regs_of_def AList.delete_eq)

text \<open>Every descriptor of \<open>Z\<close> is waited for.\<close>

definition waited :: "(int \<times> nat) set \<Rightarrow> rtable \<Rightarrow> bool" where
  "waited Z t \<longleftrightarrow> (tb_selector t \<longrightarrow> (\<forall>fd \<in> fst ` Z. 0 < tb_fd_waits t fd))"

lemma waited_steady: "steady t t' \<Longrightarrow> waited Z t' = waited Z t"
  by (simp add: steady_def waited_def)

lemma add_reg_ok:
  assumes ok: "tb_ok X Y Z t" and z: "waited Z t" and r: "tied t fd r"
  shows "tb_ok X Y Z (fst (add_reg k fd r t))"
  unfolding add_reg_def Let_def
proof (rule note_interest_ok)
  show "tb_ok X (insert fd Y) Z (put_watch fd ((case watch_of t fd of None \<Rightarrow> new_watch | Some w \<Rightarrow> w)
      \<lparr>wt_regs := AList.update (rg_owner (tb_regs t r)) r (wt_regs (case watch_of t fd of None \<Rightarrow> new_watch | Some w \<Rightarrow> w)), wt_shell := False\<rparr>) t)"
    by (rule grow_ok [OF ok refl _ _ regs_of_update r]) simp_all
qed (use z in \<open>auto simp: waited_def\<close>)

lemma add_reg_waits: "tb_selector (fst (add_reg k fd r t)) = tb_selector t" "tb_fd_waits (fst (add_reg k fd r t)) = tb_fd_waits t"
    "tb_next_reg (fst (add_reg k fd r t)) = tb_next_reg t"
    "set (tb_waiters (fst (add_reg k fd r t))) \<union> set (tb_woken (fst (add_reg k fd r t))) = set (tb_waiters t) \<union> set (tb_woken t)"
  using steady_note_interest [of "put_watch fd _ t" k fd] by (simp_all add: add_reg_def Let_def steady_def)

lemma add_reg_tied: "tied t fd1 r1 \<Longrightarrow> r1 \<noteq> r \<or> fd1 = fd \<Longrightarrow> tied (fst (add_reg k fd r t)) fd1 r1"
proof -
  assume r1: "tied t fd1 r1" and n: "r1 \<noteq> r \<or> fd1 = fd"
  let ?w = "case watch_of t fd of None \<Rightarrow> new_watch | Some w \<Rightarrow> w"
  let ?t = "put_watch fd (?w\<lparr>wt_regs := AList.update (rg_owner (tb_regs t r)) r (wt_regs ?w), wt_shell := False\<rparr>) t"
  have e: "r1 \<in> regs_of ?w \<Longrightarrow> fd = fd1" using r1 unfolding tied_def by (cases "watch_of t fd") (auto simp: new_watch_def regs_of_def)
  have "tied ?t fd1 r1"
    using r1 n regs_of_update [where w = ?w and owner = "rg_owner (tb_regs t r)" and r = r and b = False] e unfolding tied_def by auto
  then have "tied (fst (note_interest k fd ?t)) fd1 r1" using tied_steady [OF steady_note_interest] by blast
  then show ?thesis by (simp add: add_reg_def Let_def)
qed

lemma pop_ok:
  assumes ok: "tb_ok X Y Z t" and w: "\<And>w. watch_of t fd = Some w \<Longrightarrow> wt_handle w = None"
  shows "tb_ok X Y Z (pop_watch fd t)"
proof -
  let ?t = "pop_watch fd t"
  note c = union_mask_cong [of _ _ ?t t, OF _ pop_watch_simps(2)] and d = wanted_cong [of ?t t, OF pop_watch_simps(2)]
  have e: "watch_of t fd1 = Some w1" if "watch_of ?t fd1 = Some w1" for fd1 w1 using that by (auto split: if_splits)
  have ho: "handles_ok t" using ok by (simp add: tb_ok_def)
  have "handles_ok ?t"
  proof (rule handlesI)
    fix h assume "h < tb_next_handle ?t"
    then consider "h \<in> set (tb_closed t)" | fd1 w1 where "watch_of t fd1 = Some w1" "wt_handle w1 = Some h"
      using ho unfolding handles_ok_def pop_watch_simps by blast
    then show "h \<in> set (tb_closed ?t) \<or> (\<exists>fd w. watch_of ?t fd = Some w \<and> wt_handle w = Some h)"
    proof cases
      case 2
      then have "fd1 \<noteq> fd" using w by auto
      then show ?thesis using 2 by auto
    qed simp
  next
    fix fd1 w1 h assume h: "watch_of ?t fd1 = Some w1" "wt_handle w1 = Some h"
    from handlesD [OF ho e [OF h(1)] h(2)]
    show "h < tb_next_handle ?t \<and> h \<notin> set (tb_closed ?t) \<and> tb_subs ?t h = (fd1, wt_generation w1)" by simp
  qed (use ho in \<open>simp_all add: handles_ok_def\<close>)
  moreover have "latch_ok ?t" using ok by (simp add: tb_ok_def latch_ok_def)
  moreover have "slots_ok X ?t" using ok e unfolding tb_ok_def slots_ok_def pop_watch_simps by blast
  moreover have "cover_ok Y ?t" using ok e c unfolding tb_ok_def cover_ok_def by metis
  moreover have "armed_ok Y Z ?t" using ok e d unfolding tb_ok_def armed_ok_def pop_watch_simps by blast
  moreover have "homes_ok ?t" using ok e unfolding tb_ok_def homes_ok_def pop_watch_simps by blast
  ultimately show ?thesis by (simp add: tb_ok_def)
qed

lemma tb_ok_exempt: "tb_ok X Y Z t \<Longrightarrow> tb_ok X (insert fd Y) Z t"
  unfolding tb_ok_def cover_ok_def armed_ok_def by blast

lemma remove_owner_ok:
  assumes ok: "tb_ok X Y Z t" and z: "waited Z t"
  shows "tb_ok X Y Z (fst (remove_owner k fd owner keep t))"
proof (cases "watch_of t fd")
  case None
  then show ?thesis using ok by (simp add: remove_owner_def)
next
  case (Some w)
  let ?w = "w\<lparr>wt_regs := AList.delete owner (wt_regs w)\<rparr>" and ?t = "put_watch fd (w\<lparr>wt_regs := AList.delete owner (wt_regs w)\<rparr>) t"
  have s: "tb_ok X Y Z ?t" by (rule shrink_ok [OF ok Some]) (simp_all add: regs_of_delete)
  show ?thesis
  proof (cases "wt_regs ?w = []")
    case False
    have "tb_ok X Y Z (fst (note_interest k fd ?t))"
      by (rule note_interest_ok [OF tb_ok_exempt [OF s]]) (use z in \<open>auto simp: waited_def\<close>)
    then show ?thesis using Some False by (simp add: remove_owner_def Let_def)
  next
    case True
    have "tb_ok (X - {fd}) Y Z (disarm fd ?t)"
      by (rule disarm_ok [OF s]) (use True in \<open>simp add: idle_fd_def regs_of_def\<close>)
    then have d: "tb_ok X Y Z (disarm fd ?t)" by (rule tb_ok_slots [rotated]) auto
    have "tb_ok X Y Z (upd_watch fd (\<lambda>w. w\<lparr>wt_shell := True\<rparr>) (disarm fd ?t))"
      by (rule quiet_tb_ok [OF quiet_upd_watch d]) (simp add: frame_def)
    moreover have "tb_ok X Y Z (pop_watch fd (disarm fd ?t))" by (rule pop_ok [OF d]) auto
    ultimately show ?thesis using Some True by (simp add: remove_owner_def Let_def)
  qed
qed

lemma steady_remove_owner: "steady t (fst (remove_owner k fd owner keep t))"
proof (cases "watch_of t fd")
  case None
  then show ?thesis by (simp add: remove_owner_def)
next
  case (Some w)
  let ?t = "put_watch fd (w\<lparr>wt_regs := AList.delete owner (wt_regs w)\<rparr>) t"
  have s: "steady t ?t" using Some regs_of_delete [of owner w] by (auto simp: steady_def)
  have u: "steady v (upd_watch fd (\<lambda>w. w\<lparr>wt_shell := True\<rparr>) v)" for v
    by (rule quiet_steady [OF quiet_upd_watch]) (simp add: frame_def)
  have "steady t (fst (note_interest k fd ?t))" "steady t (upd_watch fd (\<lambda>w. w\<lparr>wt_shell := True\<rparr>) (disarm fd ?t))"
    "steady t (pop_watch fd (disarm fd ?t))"
    using steady_trans [OF s steady_note_interest] steady_trans [OF steady_trans [OF s steady_disarm]] u steady_pop by blast+
  then show ?thesis using Some by (cases "wt_regs (w\<lparr>wt_regs := AList.delete owner (wt_regs w)\<rparr>) = []") (auto simp: remove_owner_def Let_def)
qed

lemma steady_rearm_rest: "steady t (fst (rearm_rest k fd t))"
  by (simp add: rearm_rest_def steady_ensure_armed split: option.split)

lemma steady_then_do: "steady t (fst m) \<Longrightarrow> (\<And>u. steady u (fst (f u))) \<Longrightarrow> steady t (fst (then_do m f))"
  using then_do_inv [of "steady t" m f] steady_trans by blast

lemma steady_for_each: "(\<And>x u. steady u (fst (f x u))) \<Longrightarrow> steady t (fst (for_each f xs t))"
  using for_each_inv [of "steady t" t xs f] steady_trans by blast

lemma steady_finish_ephemeral: "steady t (fst (finish_ephemeral k owner t))"
  unfolding finish_ephemeral_def
  by (rule steady_for_each) (auto simp: finish_one_def steady_remove_owner steady_rearm_rest intro!: steady_then_do split: option.split)

lemma steady_sweep: "steady t (sweep_shells keep t)"
  unfolding sweep_shells_def
  by (rule fold_inv [where P = "steady t"])
    (auto simp: sweep_one_def intro: steady_trans [OF _ steady_trans [OF steady_disarm steady_pop]] split: option.split)

text \<open>What an operation keeps of the invariant while \<open>Z\<close> is waited for.\<close>

definition kept :: "(int \<times> nat) set \<Rightarrow> rtable \<Rightarrow> bool" where
  "kept Z t \<longleftrightarrow> tb_ok {} {} Z t \<and> waited Z t"

lemma ensure_armed_kept:
  assumes k: "kept Z t" and s: "tb_selector t \<Longrightarrow> 0 < tb_fd_waits t fd"
  shows "kept Z (fst (ensure_armed k fd t))"
proof -
  let ?t = "fst (ensure_armed k fd t)"
  have st: "steady t ?t" by (rule steady_ensure_armed)
  have "tb_ok (if snd (ensure_armed k fd t) = None then insert fd {} else {}) {} Z ?t"
    by (rule ensure_armed_ok) (use k in \<open>simp add: kept_def tb_ok_exempt\<close>)
  then have "tb_ok {fd} {} Z ?t" using tb_ok_slots [of "{}" "{fd}"] by (simp split: if_splits)
  moreover have "tb_selector ?t \<Longrightarrow> 0 < tb_fd_waits ?t fd" using st s by (simp add: steady_def)
  ultimately have "tb_ok {} {} Z ?t" by (auto simp: tb_ok_def slots_ok_def)
  then show ?thesis using k waited_steady [OF st] by (simp add: kept_def)
qed

lemma kept_quiet: "quiet t t' \<Longrightarrow> kept Z t \<Longrightarrow> kept Z t'"
  using quiet_tb_ok waited_steady [OF quiet_steady] unfolding kept_def by blast

lemma remove_owner_kept: "kept Z t \<Longrightarrow> kept Z (fst (remove_owner k fd owner keep t))"
  using remove_owner_ok waited_steady [OF steady_remove_owner] unfolding kept_def by blast

lemma add_reg_kept: "kept Z t \<Longrightarrow> tied t fd r \<Longrightarrow> kept Z (fst (add_reg k fd r t))"
  using add_reg_ok [of "{}" "{}" Z t fd r k] by (simp add: kept_def waited_def add_reg_waits)

lemma finish_ephemeral_kept: "kept Z t \<Longrightarrow> kept Z (fst (finish_ephemeral k owner t))"
proof -
  have "kept Z (fst (rearm_rest k fd u))" if "kept Z u" for fd u
    using that by (auto simp: rearm_rest_def intro: ensure_armed_kept split: option.split)
  then have "kept Z (fst (finish_one k owner fd u))" if "kept Z u" for fd u
    using that by (auto simp: finish_one_def remove_owner_kept intro!: then_do_inv [of "kept Z"] split: option.split)
  then show "kept Z t \<Longrightarrow> kept Z (fst (finish_ephemeral k owner t))"
    unfolding finish_ephemeral_def by (intro for_each_inv [of "kept Z"])
qed

lemma sweep_kept: "kept Z t \<Longrightarrow> kept Z (sweep_shells keep t)"
  unfolding sweep_shells_def
proof (rule fold_inv [of "kept Z"])
  fix fd u assume u: "kept Z u"
  have "tb_ok {} {} Z (pop_watch fd (disarm fd u))" if w: "watch_of u fd = Some w" "wt_regs w = []" for w
  proof -
    have "tb_ok ({} - {fd}) {} Z (disarm fd u)"
      by (rule disarm_ok) (use u w in \<open>auto simp: kept_def idle_fd_def regs_of_def\<close>)
    then show ?thesis by (intro pop_ok) auto
  qed
  then show "kept Z (sweep_one keep fd u)"
    using u by (auto simp: sweep_one_def kept_def waited_def split: option.split)
qed

lemma commit_kept: "kept Z t \<Longrightarrow> kept Z (fst (commit k ready t))"
proof -
  assume k: "kept Z t"
  let ?t = "fold (\<lambda>(fd, bits, r). upd_reg r (mark_reported bits)) ready t"
  have "quiet t ?t"
    by (rule fold_inv [where P = "quiet t"]) (auto intro: quiet_trans [OF _ quiet_upd_reg])
  then have k1: "kept Z ?t" using kept_quiet k by blast
  have "kept Z (fst (for_each (rearm_oneshot k) ready ?t)) \<and> True" if n: "\<not> tb_selector ?t"
  proof -
    have "(\<lambda>u. kept Z u \<and> \<not> tb_selector u) (fst (for_each (rearm_oneshot k) ready ?t))"
      by (rule for_each_inv)
        (use k1 n ensure_armed_kept steady_ensure_armed in \<open>auto simp: rearm_oneshot_def steady_def split: prod.splits\<close>)
    then show ?thesis by simp
  qed
  then show ?thesis using k1 by (auto simp: commit_def Let_def split: prod.splits option.splits)
qed

section \<open>Waits\<close>

definition homed :: "rtable \<Rightarrow> rtable \<Rightarrow> bool" where
  "homed t t' \<longleftrightarrow> tb_selector t' = tb_selector t \<and> tb_next_reg t' = tb_next_reg t
     \<and> (\<forall>fd w'. watch_of t' fd = Some w' \<longrightarrow> (\<exists>w. watch_of t fd = Some w \<and> regs_of w' \<subseteq> regs_of w))
     \<and> set (tb_waiters t') \<union> set (tb_woken t') = set (tb_waiters t) \<union> set (tb_woken t)"

lemma homed_refl [simp, intro]: "homed t t" by (simp add: homed_def)

lemma homed_trans [trans]: "homed t u \<Longrightarrow> homed u v \<Longrightarrow> homed t v"
  unfolding homed_def by (elim conjE, intro conjI allI impI) (metis subset_trans)+

lemma steady_homed: "steady t t' \<Longrightarrow> homed t t'" by (simp add: steady_def homed_def)

lemma tied_homed: "homed t t' \<Longrightarrow> tied t fd r \<Longrightarrow> tied t' fd r"
  unfolding homed_def tied_def by (metis subsetD)

text \<open>The waits of \<open>cs\<close> are in progress.\<close>

definition waits_for :: "spec list list \<Rightarrow> rtable \<Rightarrow> bool" where
  "waits_for cs t \<longleftrightarrow> (tb_selector t \<longrightarrow> (\<forall>fd. tb_fd_waits t fd = count_list (map fst (concat cs)) fd))"

definition table_inv :: "spec list list \<Rightarrow> rtable \<Rightarrow> bool" where
  "table_inv cs t \<longleftrightarrow> tb_ok {} {} (set (concat cs)) t \<and> waits_for cs t"

lemma waits_waited: "waits_for (cs @ ds) t \<Longrightarrow> waited (set (concat ds)) t"
  unfolding waits_for_def waited_def by (auto simp: count_list_0_iff intro!: gr0I) force

lemma table_inv_kept: "table_inv cs t \<Longrightarrow> kept (set (concat cs)) t"
  using waits_waited [of "[]" cs] by (simp add: table_inv_def kept_def)

lemma kept_table_inv: "table_inv cs t \<Longrightarrow> steady t t' \<Longrightarrow> kept (set (concat cs)) t' \<Longrightarrow> table_inv cs t'"
  by (simp add: table_inv_def kept_def waits_for_def steady_def)

lemma wait_enter_fields:
  "tb_fd_waits (wait_enter specs t) fd = tb_fd_waits t fd + count_list (map fst specs) fd"
  "wait_enter specs t = t\<lparr>tb_fd_waits := tb_fd_waits (wait_enter specs t)\<rparr>"
proof -
  show "tb_fd_waits (wait_enter specs t) fd = tb_fd_waits t fd + count_list (map fst specs) fd"
    unfolding wait_enter_def by (induction specs arbitrary: t) (auto simp: enter_one_def)
  have one: "enter_one s u = u\<lparr>tb_fd_waits := tb_fd_waits (enter_one s u)\<rparr>" for s u by (cases s) (simp add: enter_one_def)
  show "wait_enter specs t = t\<lparr>tb_fd_waits := tb_fd_waits (wait_enter specs t)\<rparr>"
    unfolding wait_enter_def
  proof (induction specs arbitrary: t)
    case (Cons s specs)
    have "t\<lparr>tb_fd_waits := f\<rparr> = (enter_one s t)\<lparr>tb_fd_waits := f\<rparr>" for f by (subst one) simp
    then show ?case using Cons [of "enter_one s t"] by simp
  qed simp
qed

lemma tb_ok_waits:
  assumes ok: "tb_ok X Y Z t" and f: "\<And>fd w. watch_of t fd = Some w \<Longrightarrow> wt_handle w \<noteq> None \<Longrightarrow> fd \<notin> X \<Longrightarrow> tb_selector t \<Longrightarrow> 0 < f fd"
  shows "tb_ok X Y Z (t\<lparr>tb_fd_waits := f\<rparr>)"
proof -
  let ?t = "t\<lparr>tb_fd_waits := f\<rparr>"
  have [simp]: "union_mask ?t w = union_mask t w" "wanted ?t r = wanted t r" for w r by (rule union_mask_cong, simp, simp) (simp add: wanted_def)
  have "handles_ok ?t = handles_ok t" "latch_ok ?t = latch_ok t" "cover_ok Y ?t = cover_ok Y t" "armed_ok Y Z ?t = armed_ok Y Z t" "homes_ok ?t = homes_ok t"
    by (simp_all add: handles_ok_def latch_ok_def cover_ok_def armed_ok_def homes_ok_def)
  moreover have "slots_ok X ?t" using f by (auto simp: slots_ok_def)
  ultimately show ?thesis using ok by (simp add: tb_ok_def)
qed

lemma wait_enter_ok:
  assumes "table_inv cs t"
  shows "tb_ok {} {} (set (concat cs)) (wait_enter specs t)" "waits_for (specs # cs) (wait_enter specs t)" "homed t (wait_enter specs t)"
proof -
  have "tb_ok {} {} (set (concat cs)) (t\<lparr>tb_fd_waits := tb_fd_waits (wait_enter specs t)\<rparr>)"
    by (rule tb_ok_waits) (use assms in \<open>auto simp: table_inv_def wait_enter_fields(1) tb_ok_def slots_ok_def\<close>)
  then show "tb_ok {} {} (set (concat cs)) (wait_enter specs t)" using wait_enter_fields(2) by metis
  have sel: "tb_selector (wait_enter specs t) = tb_selector t" by (subst wait_enter_fields(2)) simp
  then show "waits_for (specs # cs) (wait_enter specs t)" using assms by (simp add: table_inv_def waits_for_def wait_enter_fields(1))
  show "homed t (wait_enter specs t)" by (subst wait_enter_fields(2)) (simp add: homed_def)
qed

lemma leave_one_ok:
  assumes ok: "tb_ok {} {} (set (concat cs)) t" and w: "waits_for ((s # specs) # cs) t" and sel: "tb_selector t"
  shows "tb_ok {} {} (set (concat cs)) (leave_one s t)" "waits_for (specs # cs) (leave_one s t)" "homed t (leave_one s t)"
proof -
  obtain fd r where s: "s = (fd, r)" by (cases s)
  let ?left = "tb_fd_waits t fd - 1" and ?t = "t\<lparr>tb_fd_waits := (tb_fd_waits t)(fd := tb_fd_waits t fd - 1)\<rparr>"
  have l: "?left = count_list (map fst (concat (specs # cs))) fd" using w sel by (simp add: waits_for_def s)
  have e: "leave_one s t = (if ?left \<noteq> 0 then ?t else disarm fd ?t)" by (simp add: leave_one_def s Let_def)
  have w1: "waits_for (specs # cs) ?t" using w by (simp add: waits_for_def s)
  then have w2: "waits_for (specs # cs) (disarm fd ?t)" by (simp add: waits_for_def)
  show "waits_for (specs # cs) (leave_one s t)"
    unfolding e by (intro if_split [of "waits_for (specs # cs)", THEN iffD2]) (use w1 w2 in blast)
  have h1: "homed t ?t" by (simp add: homed_def)
  have h2: "homed t (disarm fd ?t)" by (rule homed_trans [OF h1 steady_homed [OF steady_disarm]])
  show "homed t (leave_one s t)" unfolding e by (intro if_split [of "homed t", THEN iffD2]) (use h1 h2 in blast)
  show "tb_ok {} {} (set (concat cs)) (leave_one s t)"
  proof (cases "?left = 0")
    case False
    have "tb_ok {} {} (set (concat cs)) ?t" by (rule tb_ok_waits [OF ok]) (use ok False in \<open>auto simp: tb_ok_def slots_ok_def\<close>)
    then show ?thesis using e False by simp
  next
    case True
    have "tb_ok {fd} {} (set (concat cs)) t" using ok by (rule tb_ok_slots [rotated]) simp
    then have t: "tb_ok {fd} {} (set (concat cs)) ?t" by (rule tb_ok_waits) (use ok in \<open>auto simp: tb_ok_def slots_ok_def\<close>)
    have "fd \<notin> fst ` set (concat cs)" using True l by (auto simp: count_list_0_iff)
    then have "idle_fd {} (set (concat cs)) fd ?t" unfolding idle_fd_def by force
    from disarm_ok [OF t this] have "tb_ok {} {} (set (concat cs)) (disarm fd ?t)" by simp
    moreover have "leave_one s t = disarm fd ?t" unfolding e using True by (rule if_not_P [OF not_not [THEN iffD2]])
    ultimately show ?thesis by (simp only:)
  qed
qed

lemma wait_finally_ok:
  assumes "tb_ok {} {} (set (concat cs)) t" and "waits_for (specs # cs) t"
  shows "table_inv cs (wait_finally specs t)" "homed t (wait_finally specs t)"
proof -
  have "table_inv cs (fold leave_one specs t) \<and> homed t (fold leave_one specs t)" if "tb_selector t"
    using assms that
  proof (induction specs arbitrary: t)
    case Nil
    then show ?case by (simp add: table_inv_def waits_for_def)
  next
    case (Cons s specs)
    note l = leave_one_ok [OF Cons.prems]
    have "tb_selector (leave_one s t)" using l(3) Cons.prems(3) by (simp add: homed_def)
    from Cons.IH [OF l(1,2) this] homed_trans [OF l(3)] show ?case by simp
  qed
  moreover have "table_inv cs t" if "\<not> tb_selector t" using assms that by (simp add: table_inv_def waits_for_def)
  ultimately show "table_inv cs (wait_finally specs t)" "homed t (wait_finally specs t)" by (simp_all add: wait_finally_def)
qed

end
