(* ===== verification/Polling_System.thy ===== *)
theory Polling_System
  imports Polling_Facts
begin

unbundle bit_operations_syntax

text \<open>
  The invariant of the polling system and its theorems: handles and selector slots (\<open>polling_slots\<close>), the
  wake-up of a suspended call by a delivery (\<open>delivery_wakes_poll\<close>), what \<open>poll(0)\<close> reports
  (\<open>poll_now_exact\<close>), and runs that show where the code departs from its documentation.
\<close>

section \<open>A call up to its suspension\<close>

lemma steady_commit: "steady t (fst (commit k ready t))"
proof -
  let ?t = "fold (\<lambda>(fd, bits, r). upd_reg r (mark_reported bits)) ready t"
  have q: "quiet t ?t"
    by (rule fold_inv [where P = "quiet t"]) (auto intro: quiet_trans [OF _ quiet_upd_reg])
  have "steady ?t (fst (for_each (rearm_oneshot k) ready ?t))"
    by (rule steady_for_each) (auto simp: rearm_oneshot_def steady_ensure_armed split: prod.splits)
  from steady_trans [OF quiet_steady [OF q] this] quiet_steady [OF q] show ?thesis
    by (auto simp: commit_def Let_def split: prod.splits option.splits)
qed

lemma report_kept: "kept Z t \<Longrightarrow> kept Z (fst (report k m found t))"
  using commit_kept [of Z t k] by (auto simp: report_def split: prod.splits sum.splits) (metis fst_conv)+

lemma steady_report: "steady t (fst (report k m found t))"
  using steady_commit [of t k] by (auto simp: report_def split: prod.splits sum.splits) (metis fst_conv)+

lemma report_over: "is_over (snd (report k m found t))"
  by (auto simp: report_def split: prod.splits sum.splits)

lemma tb_ok_claim:
  assumes "tb_ok X Y Z t"
    and "\<And>fd r w. (fd, r) \<in> Z' \<Longrightarrow> fd \<notin> Y \<Longrightarrow> watch_of t fd = Some w \<Longrightarrow> r \<in> regs_of w \<Longrightarrow> wanted t r \<Longrightarrow> \<not> rg_edge (tb_regs t r) \<Longrightarrow>
      wt_handle w \<noteq> None \<or> fd \<in> set (tb_failed t)"
  shows "tb_ok X Y (Z \<union> Z') t"
  using assms unfolding tb_ok_def armed_ok_def by blast

lemma ensure_armed_waited:
  assumes "tb_ok {} {fd} Z t" and "tb_selector t \<Longrightarrow> 0 < tb_fd_waits t fd"
  shows "tb_ok {} {} Z (fst (ensure_armed k fd t))"
proof -
  let ?t = "fst (ensure_armed k fd t)"
  have st: "steady t ?t" by (rule steady_ensure_armed)
  have "tb_ok (if snd (ensure_armed k fd t) = None then insert fd {} else {}) {} Z ?t"
    by (rule ensure_armed_ok) (use assms in simp)
  then have "tb_ok {fd} {} Z ?t" using tb_ok_slots [of "{}" "{fd}"] by (simp split: if_splits)
  moreover have "tb_selector ?t \<Longrightarrow> 0 < tb_fd_waits ?t fd" using st assms(2) by (simp add: steady_def)
  ultimately show ?thesis by (auto simp: tb_ok_def slots_ok_def)
qed

lemma arm_one_ok:
  assumes ok: "tb_ok {} {} Z t" and w: "tb_selector t \<Longrightarrow> 0 < tb_fd_waits t fd"
  shows "tb_ok {} {} (Z \<union> {(fd, r)}) (fst (arm_one k (fd, r) t))" "steady t (fst (arm_one k (fd, r) t))"
proof -
  show "steady t (fst (arm_one k (fd, r) t))" by (simp add: arm_one_def steady_ensure_armed)
  have l: "latch_ok t" using ok by (simp add: tb_ok_def)
  have "tb_ok {} {fd} (Z \<union> {(fd, r)}) t" by (rule tb_ok_claim [OF tb_ok_exempt [OF ok]]) auto
  then have "tb_ok {} {} (Z \<union> {(fd, r)}) (fst (ensure_armed k fd t))" using w by (rule ensure_armed_waited)
  moreover have "tb_ok {} {} (Z \<union> {(fd, r)}) t" if "rg_disarmed (tb_regs t r) \<or> rg_latched (tb_regs t r)"
    by (rule tb_ok_claim [OF ok]) (use that l in \<open>auto simp: wanted_def latch_ok_def\<close>)
  ultimately show "tb_ok {} {} (Z \<union> {(fd, r)}) (fst (arm_one k (fd, r) t))" by (simp add: arm_one_def)
qed

lemma tb_ok_less: "tb_ok X Y (Z \<union> Z') t \<Longrightarrow> tb_ok X Y Z t"
  unfolding tb_ok_def armed_ok_def by blast

lemma arm_specs_ok:
  assumes "tb_ok {} {} Z t" and "tb_selector t \<Longrightarrow> \<forall>fd \<in> fst ` set specs. 0 < tb_fd_waits t fd" and "for_each (arm_one k) specs t = (t', x)"
  shows "tb_ok {} {} Z t' \<and> steady t t' \<and> (x = None \<longrightarrow> tb_ok {} {} (Z \<union> set specs) t')"
  using assms
proof (induction specs arbitrary: t Z)
  case Nil
  then show ?case by simp
next
  case (Cons s specs)
  obtain fd r where s: "s = (fd, r)" by (cases s)
  obtain t1 y where e: "arm_one k (fd, r) t = (t1, y)" by (cases "arm_one k (fd, r) t")
  have a: "tb_ok {} {} (Z \<union> {(fd, r)}) t1" "steady t t1" using arm_one_ok [OF Cons.prems(1), where fd = fd and r = r and k = k] Cons.prems(2) e by (auto simp: s)
  show ?case
  proof (cases y)
    case (Some z)
    then show ?thesis using Cons.prems(3) a tb_ok_less [OF a(1)] e by (auto simp: s then_do_def)
  next
    case None
    have sel: "tb_selector t1 \<Longrightarrow> \<forall>fd \<in> fst ` set specs. 0 < tb_fd_waits t1 fd" using a(2) Cons.prems(2) by (auto simp: steady_def)
    have f: "for_each (arm_one k) specs t1 = (t', x)" using Cons.prems(3) e None by (simp add: s then_do_def)
    note ih = Cons.IH [OF a(1) sel f]
    have "tb_ok {} {} Z t'" using ih tb_ok_less by blast
    then show ?thesis using ih steady_trans [OF a(2)] by (simp add: s)
  qed
qed

lemma park_cases: "park k specs tmo m t = (t', out) \<Longrightarrow>
    (pending specs t = None \<and> t' = t \<and> (out = WPark \<or> out = WRet [])) \<or> (\<exists>found. pending specs t = Some found \<and> (t', out) = report k m found t)"
  by (auto simp: park_def split: option.splits if_splits)

text \<open>A run of \<open>_wait\<close> ends, or suspends with its registrations armed.\<close>

definition wait_post :: "spec list \<Rightarrow> spec list list \<Rightarrow> rtable \<Rightarrow> rtable \<times> wres \<Rightarrow> bool" where
  "wait_post specs cs t res \<longleftrightarrow> steady t (fst res)
     \<and> tb_ok {} {} (if is_over (snd res) then set (concat cs) else set (concat cs) \<union> set specs) (fst res)"

lemma wait_post_report:
  assumes "kept (set (concat cs)) u" and "steady t u"
  shows "wait_post specs cs t (report k m found u)"
  using report_kept [OF assms(1)] steady_trans [OF assms(2) steady_report] report_over by (simp add: wait_post_def kept_def)

lemma wait_post_over: "kept (set (concat cs)) u \<Longrightarrow> steady t u \<Longrightarrow> is_over out \<Longrightarrow> wait_post specs cs t (u, out)"
  by (simp add: wait_post_def kept_def)

lemma wait_post_park:
  assumes "tb_ok {} {} (set (concat cs) \<union> set specs) u" and "kept (set (concat cs)) u" and "steady t u"
  shows "wait_post specs cs t (park k specs tmo m u)"
proof -
  obtain t' out where p: "park k specs tmo m u = (t', out)" by (cases "park k specs tmo m u")
  from park_cases [OF p] show ?thesis unfolding p
  proof (elim disjE conjE exE)
    assume "t' = u" "out = WPark" then show "wait_post specs cs t (t', out)" using assms by (simp add: wait_post_def)
  next
    assume "t' = u" "out = WRet []" then show "wait_post specs cs t (t', out)" using assms(2,3) by (intro wait_post_over) auto
  next
    fix found assume "(t', out) = report k m found u" then show "wait_post specs cs t (t', out)" using wait_post_report [OF assms(2,3)] by simp
  qed
qed

lemma inner_wait_ok:
  assumes ok: "tb_ok {} {} (set (concat cs)) t" and w: "waits_for (specs # cs) t"
  shows "wait_post specs cs t (inner_wait k specs tmo m t)"
proof -
  have kept: "kept (set (concat cs)) t" using ok waits_waited [of "[specs]" cs t] w by (simp add: kept_def)
  obtain t1 x where r: "revalidate k [] specs t = (t1, x)" by (cases "revalidate k [] specs t")
  have q1: "quiet t t1" using quiet_revalidate [of t k "[]" specs] r by simp
  have k1: "kept (set (concat cs)) t1" and s1: "steady t t1" using kept_quiet [OF q1 kept] quiet_steady [OF q1] by blast+
  obtain ready errors where c: "collect specs t1 = (ready, errors)" by (cases "collect specs t1")
  have sel: "tb_selector t1 \<Longrightarrow> \<forall>fd \<in> fst ` set specs. 0 < tb_fd_waits t1 fd"
    using waits_waited [of "[]" "specs # cs" t] w s1 by (auto simp: waited_def steady_def)
  have t1: "tb_ok {} {} (set (concat cs)) t1" "latch_ok t1" using k1 by (simp_all add: kept_def tb_ok_def)
  show ?thesis
  proof (cases "x \<noteq> None \<or> ready \<noteq> [] \<or> (tmo \<noteq> Some 0 \<and> errors \<noteq> [])")
    case True
    then show ?thesis using r c wait_post_over [OF k1 s1] wait_post_report [OF k1 s1] by (cases x) (auto simp: inner_wait_def)
  next
    case False
    then have f: "x = None" "ready = []" "tmo \<noteq> Some 0 \<Longrightarrow> errors = []" by auto
    show ?thesis
    proof (cases "tmo = Some 0")
      case True
      obtain t2 y where p: "probe_empty k specs t1 = (t2, y)" by (cases "probe_empty k specs t1")
      have q2: "quiet t1 t2" using quiet_probe_empty [of t1 k specs] p by simp
      note k2 = kept_quiet [OF q2 k1] and s2 = steady_trans [OF s1 quiet_steady [OF q2]]
      show ?thesis using r c f True p wait_post_over [OF k2 s2] wait_post_report [OF k2 s2] by (cases y) (auto simp: inner_wait_def)
    next
      case n0: False
      show ?thesis
      proof (cases "needs_arm specs t1")
        case True
        obtain t2 y where a: "for_each (arm_one k) specs t1 = (t2, y)" by (cases "for_each (arm_one k) specs t1")
        note a2 = arm_specs_ok [OF t1(1) sel a]
        have s2: "steady t t2" using steady_trans [OF s1] a2 by blast
        have k2: "kept (set (concat cs)) t2" using a2 k1 waited_steady [of t1 t2] by (simp add: kept_def)
        show ?thesis using r c f n0 True a a2 wait_post_over [OF k2 s2] wait_post_report [OF k2 s2] wait_post_park [OF _ k2 s2]
          by (cases y) (auto simp: inner_wait_def split: option.split)
      next
        case False
        have "\<not> wanted t1 r \<or> rg_edge (tb_regs t1 r)" if "(fd, r) \<in> set specs" for fd r
          using False that t1(2) by (auto simp: needs_arm_def list_ex_iff wanted_def latch_ok_def)
        then have z: "tb_ok {} {} (set (concat cs) \<union> set specs) t1" by (intro tb_ok_claim [OF t1(1)]) blast
        then have "wait_post specs cs t (t1, WSleep)" using s1 by (simp add: wait_post_def)
        then show ?thesis using r c f n0 False wait_post_over [OF k1 s1] wait_post_park [OF z k1 s1]
          by (auto simp: inner_wait_def split: option.split)
      qed
    qed
  qed
qed

lemma table_wait_ok:
  assumes inv: "table_inv cs t" and e: "table_wait k specs tmo m t = (t', out)"
  shows "table_inv (if is_over out then cs else specs # cs) t'" "homed t t'"
proof -
  have "table_inv (if is_over out then cs else specs # cs) t' \<and> homed t t'"
  proof (cases "specs = []")
    case True
    then have "t' = t" using e by (simp add: table_wait_def)
    then show ?thesis using inv True by (simp add: table_inv_def waits_for_def)
  next
    case False
    let ?u = "wait_enter specs t"
    note w = wait_enter_ok [OF inv, of specs]
    obtain t1 out1 where i: "inner_wait k specs tmo m ?u = (t1, out1)" by (cases "inner_wait k specs tmo m ?u")
    have e2: "out1 = out" "t' = (if is_over out then wait_finally specs t1 else t1)" using e False i by (auto simp: table_wait_def)
    have p: "steady ?u t1" "tb_ok {} {} (if is_over out then set (concat cs) else set (concat cs) \<union> set specs) t1"
      using inner_wait_ok [OF w(1,2), of k tmo m] i e2 by (simp_all add: wait_post_def)
    have wf: "waits_for (specs # cs) t1" using w(2) p(1) by (simp add: waits_for_def steady_def)
    have h: "homed t t1" by (rule homed_trans [OF w(3) steady_homed [OF p(1)]])
    show ?thesis
    proof (cases "is_over out")
      case True
      then show ?thesis using wait_finally_ok [OF _ wf] p(2) h homed_trans e2 by (auto simp: True)
    next
      case over: False
      then show ?thesis using p(2) wf h e2 by (simp add: table_inv_def Un_commute)
    qed
  qed
  then show "table_inv (if is_over out then cs else specs # cs) t'" "homed t t'" by blast+
qed

section \<open>The rest of a call\<close>

lemma table_inv_mset:
  assumes "mset cs = mset cs'"
  shows "table_inv cs t = table_inv cs' t"
proof -
  have "mset (concat cs) = mset (concat cs')"
    using assms by (metis mset_concat mset_map sum_mset_sum_list)
  then have s: "set (concat cs) = set (concat cs')" and c: "mset (map fst (concat cs)) = mset (map fst (concat cs'))"
    by (metis mset_eq_setD) (metis \<open>mset (concat cs) = mset (concat cs')\<close> mset_map)
  have "count_list (map fst (concat cs)) x = count_list (map fst (concat cs')) x" for x using c by (metis count_mset)
  then show ?thesis unfolding table_inv_def waits_for_def s by simp
qed

lemma end_wait:
  assumes "tb_ok {} {} (set (concat (specs # cs))) t" and "waits_for (specs # cs) t"
  shows "table_inv cs (wait_finally specs t)" "homed t (wait_finally specs t)"
proof -
  have "tb_ok {} {} (set (concat cs)) t" using tb_ok_less [of "{}" "{}" "set (concat cs)" "set specs" t] assms(1) by (simp add: Un_commute)
  then show "table_inv cs (wait_finally specs t)" "homed t (wait_finally specs t)" using wait_finally_ok assms(2) by blast+
qed

lemma report_end:
  assumes inv: "table_inv (specs # cs) t" and e: "report k m found t = (t1, out)"
  shows "table_inv cs (wait_finally specs t1)" "homed t (wait_finally specs t1)" "is_over out"
proof -
  have k1: "kept (set (concat (specs # cs))) t1" using report_kept [OF table_inv_kept [OF inv], of k m found] e by simp
  have s1: "steady t t1" using steady_report [of t k m found] e by simp
  have "table_inv (specs # cs) t1" by (rule kept_table_inv [OF inv s1 k1])
  then have "tb_ok {} {} (set (concat (specs # cs))) t1" "waits_for (specs # cs) t1" by (simp_all add: table_inv_def)
  from end_wait [OF this] homed_trans [OF steady_homed [OF s1]]
  show "table_inv cs (wait_finally specs t1)" "homed t (wait_finally specs t1)" by blast+
  show "is_over out" using report_over [of k m found t] e by simp
qed

lemma wait_woken_ok:
  assumes inv: "table_inv (specs # cs) t" and e: "wait_woken k specs m t = (t', out)"
  shows "homed t t' \<and> (if out = WPark then t' = t \<and> pending specs t = None else table_inv cs t' \<and> is_over out)"
proof (cases "pending specs t")
  case None
  then show ?thesis using e by (simp add: wait_woken_def)
next
  case (Some found)
  obtain t1 out1 where r: "report k m found t = (t1, out1)" by (cases "report k m found t")
  note re = report_end [OF inv r]
  have "t' = wait_finally specs t1" "out = out1" using e Some r by (simp_all add: wait_woken_def)
  moreover have "out1 \<noteq> WPark" using re(3) by auto
  ultimately show ?thesis using re by simp
qed

lemma wait_expired_ok:
  assumes inv: "table_inv (specs # cs) t" and e: "wait_expired k specs m t = (t', out)"
  shows "homed t t' \<and> table_inv cs t' \<and> is_over out"
proof (cases "pending specs t")
  case None
  then show ?thesis using e end_wait [of specs cs t] inv by (auto simp: wait_expired_def table_inv_def)
next
  case (Some found)
  obtain t1 out1 where r: "report k m found t = (t1, out1)" by (cases "report k m found t")
  then show ?thesis using report_end [OF inv r] e Some by (simp add: wait_expired_def)
qed

lemma wait_thrown_ok:
  assumes inv: "table_inv (specs # cs) t" and e: "wait_thrown specs x t = (t', out)"
  shows "homed t t' \<and> table_inv cs t' \<and> is_over out"
  using end_wait [of specs cs t] inv e by (auto simp: wait_thrown_def table_inv_def)

lemma select_finish_ok:
  assumes inv: "table_inv cs t"
  shows "table_inv cs (fst (select_finish k owner (t, out)))" "homed t (fst (select_finish k owner (t, out)))"
    "is_over (snd (select_finish k owner (t, out))) = is_over out"
proof -
  obtain t1 x where f: "finish_ephemeral k owner t = (t1, x)" by (cases "finish_ephemeral k owner t")
  have s: "steady t t1" "kept (set (concat cs)) t1"
    using steady_finish_ephemeral [of t k owner] finish_ephemeral_kept [OF table_inv_kept [OF inv], of k owner] f by simp_all
  note i = kept_table_inv [OF inv s]
  show "table_inv cs (fst (select_finish k owner (t, out)))" "homed t (fst (select_finish k owner (t, out)))"
    "is_over (snd (select_finish k owner (t, out))) = is_over out"
    using f i inv steady_homed [OF s(1)] by (auto simp: select_finish_def split: option.splits)
qed

section \<open>Objects\<close>

lemma alloc_reg_ok:
  assumes inv: "table_inv cs t" and e: "alloc_reg g t = (t', r)" and l: "\<not> rg_latched g"
  shows "table_inv cs t'" "tied t' fd r" "tied t fd' r' \<Longrightarrow> tied t' fd' r' \<and> r' \<noteq> r"
    "set (tb_waiters t') \<union> set (tb_woken t') = set (tb_waiters t) \<union> set (tb_woken t)" "tb_regs t' r = g"
proof -
  have t': "t' = t\<lparr>tb_regs := (tb_regs t)(tb_next_reg t := g), tb_next_reg := Suc (tb_next_reg t)\<rparr>" "r = tb_next_reg t"
    using e by (auto simp: alloc_reg_def)
  have ok: "tb_ok {} {} (set (concat cs)) t" using inv by (simp add: table_inv_def)
  have ho: "homes_ok t" using ok by (simp add: tb_ok_def)
  have lt: "r' < tb_next_reg t" if "watch_of t fd' = Some w" "r' \<in> regs_of w" for fd' w r' using homesD [OF ho that] by blast
  have same: "wanted t' r' = wanted t r'" "tb_regs t' r' = tb_regs t r'" if "watch_of t fd' = Some w" "r' \<in> regs_of w" for fd' w r'
    using lt [OF that] by (simp_all add: t' wanted_def)
  have u: "union_mask t' w = union_mask t w" if "watch_of t fd' = Some w" for fd' w
    using same [OF that] by (intro bit_eqI) (simp add: bit_union_mask)
  have w: "watch_of t' fd' = watch_of t fd'" for fd' by (simp add: t')
  have "handles_ok t' = handles_ok t" "slots_ok {} t' = slots_ok {} t" unfolding handles_ok_def slots_ok_def w by (simp_all add: t')
  moreover have "latch_ok t'" using ok l by (auto simp: tb_ok_def latch_ok_def t')
  moreover have "cover_ok {} t'" using ok u unfolding tb_ok_def cover_ok_def w by metis
  moreover have "armed_ok {} (set (concat cs)) t'"
    unfolding armed_ok_def w
  proof (intro allI impI, elim conjE)
    fix fd r w assume h: "(fd, r) \<in> set (concat cs)" "fd \<notin> {}" "watch_of t fd = Some w" "r \<in> regs_of w" "wanted t' r" "\<not> rg_edge (tb_regs t' r)"
    have "tb_failed t' = tb_failed t" by (simp add: t')
    then show "wt_handle w \<noteq> None \<or> fd \<in> set (tb_failed t')"
      using armedD [of "{}" "set (concat cs)" t fd r w] ok h same [OF h(3,4)] by (simp add: tb_ok_def)
  qed
  moreover have "homes_ok t'" unfolding homes_ok_def w
  proof (intro allI impI, elim conjE)
    fix fd w r assume h: "watch_of t fd = Some w" "r \<in> regs_of w"
    from homesD [OF ho this] show "r < tb_next_reg t' \<and> (\<forall>fd' w'. watch_of t fd' = Some w' \<and> r \<in> regs_of w' \<longrightarrow> fd' = fd)"
      by (simp add: t')
  qed
  ultimately show "table_inv cs t'" using inv ok by (simp add: table_inv_def tb_ok_def waits_for_def t')
  show "tied t' fd r" using lt unfolding tied_def w by (auto simp: t')
  show "tied t fd' r' \<Longrightarrow> tied t' fd' r' \<and> r' \<noteq> r" unfolding tied_def w by (simp add: t')
  show "set (tb_waiters t') \<union> set (tb_woken t') = set (tb_waiters t) \<union> set (tb_woken t)" "tb_regs t' r = g" by (simp_all add: t')
qed

text \<open>What an operation on an object keeps: the table's invariant, the homes of registrations, the parked calls.\<close>

definition op_post :: "spec list list \<Rightarrow> rtable \<Rightarrow> rtable \<Rightarrow> bool" where
  "op_post cs t t' \<longleftrightarrow> table_inv cs t' \<and> (\<forall>fd r. tied t fd r \<longrightarrow> tied t' fd r)
     \<and> set (tb_waiters t') \<union> set (tb_woken t') = set (tb_waiters t) \<union> set (tb_woken t)"

lemma op_post_refl: "table_inv cs t \<Longrightarrow> op_post cs t t" by (simp add: op_post_def)

lemma op_post_homed: "table_inv cs t' \<Longrightarrow> homed t t' \<Longrightarrow> op_post cs t t'"
  using tied_homed unfolding op_post_def homed_def by blast

lemma op_post_trans: "op_post cs t u \<Longrightarrow> op_post cs u v \<Longrightarrow> op_post cs t v"
  by (simp add: op_post_def)

lemma kept_op_post: "table_inv cs t \<Longrightarrow> kept (set (concat cs)) t' \<Longrightarrow> steady t t' \<Longrightarrow> op_post cs t t'"
  using kept_table_inv op_post_homed steady_homed by blast

definition obj_post :: "spec list list \<Rightarrow> rtable \<Rightarrow> pobj \<Rightarrow> obj_result \<Rightarrow> bool" where
  "obj_post cs t p = (\<lambda>(p', t', x). op_post cs t t' \<and> (\<forall>fd r. (fd, r) \<in> set (po_regs p') \<longrightarrow> (fd, r) \<in> set (po_regs p) \<or> tied t' fd r))"

lemma set_update: "set (AList.update k v al) \<subseteq> insert (k, v) (set al)"
  by (induction al) auto

lemma set_delete: "set (AList.delete k al) \<subseteq> set al"
  by (auto simp: AList.delete_eq)

lemma add_new_reg:
  assumes inv: "table_inv cs t" and g: "\<not> rg_latched g" and a: "alloc_reg g t = (t1, r)"
  shows "op_post cs t (fst (add_reg k fd r t1))" "tied (fst (add_reg k fd r t1)) fd r"
proof -
  note al = alloc_reg_ok [OF inv a g]
  have k: "kept (set (concat cs)) (fst (add_reg k fd r t1))" by (rule add_reg_kept [OF table_inv_kept [OF al(1)] al(2)])
  have "table_inv cs (fst (add_reg k fd r t1))"
    using k al(1) by (simp add: kept_def table_inv_def waits_for_def add_reg_waits)
  moreover have "tied (fst (add_reg k fd r t1)) fd' r'" if "tied t fd' r'" for fd' r' using add_reg_tied al(3) [OF that] by blast
  ultimately show "op_post cs t (fst (add_reg k fd r t1))" using al(4) by (simp add: op_post_def add_reg_waits)
  show "tied (fst (add_reg k fd r t1)) fd r" by (rule add_reg_tied [OF al(2)]) simp
qed

lemma register_reg_ok:
  assumes "table_inv cs t" and "\<not> rg_latched g"
  shows "obj_post cs t p (register_reg k fd g p t)"
proof -
  obtain t1 r where a: "alloc_reg g t = (t1, r)" by (cases "alloc_reg g t")
  show ?thesis using add_new_reg [OF assms a, of k fd] set_update [of fd r "po_regs p"] a
    by (auto simp: register_reg_def obj_post_def split: prod.splits)
qed

lemma obj_post_regs: "po_regs p' = po_regs p \<Longrightarrow> obj_post cs t p' res = obj_post cs t p res"
  by (simp add: obj_post_def)

lemma bind_regs: "pobj_bind p = (p', x) \<Longrightarrow> po_regs p' = po_regs p"
  by (auto simp: pobj_bind_def split: if_splits)

lemma obj_post_same: "table_inv cs t \<Longrightarrow> po_regs p' = po_regs p \<Longrightarrow> obj_post cs t p (p', t, x)"
  by (simp add: obj_post_def op_post_refl)

lemma new_reg_latched: "\<not> rg_latched (new_reg s i e n b)" by (simp add: new_reg_def)

lemma register_ok:
  assumes "table_inv cs t"
  shows "obj_post cs t p (poll_register k self fd m p t)" "obj_post cs t p (epoll_register k self fd m p t)"
proof -
  obtain p1 x where b: "pobj_bind p = (p1, x)" by (cases "pobj_bind p")
  note r = register_reg_ok [OF assms new_reg_latched, of p1 k fd, unfolded obj_post_regs [OF bind_regs [OF b]]]
    and z = obj_post_same [OF assms] and e = bind_regs [OF b]
  show "obj_post cs t p (poll_register k self fd m p t)" using r z e b by (cases x) (auto simp: poll_register_def Let_def)
  show "obj_post cs t p (epoll_register k self fd m p t)" using r z e b
    by (cases x) (auto simp: epoll_register_def Let_def split: sum.split prod.split)
qed

lemma upd_reg_tied:
  assumes ok: "tb_ok X Y Z t" and r: "tied t fd r" and f: "\<not> rg_latched (f (tb_regs t r))"
  shows "tb_ok X (insert fd Y) Z (upd_reg r f t)"
proof -
  let ?t = "upd_reg r f t"
  have w: "watch_of ?t fd' = watch_of t fd'" for fd' by (simp add: upd_reg_def)
  have s: "tb_selector ?t = tb_selector t" "tb_fd_waits ?t = tb_fd_waits t" "tb_next_reg ?t = tb_next_reg t" "tb_closed ?t = tb_closed t"
    "tb_next_handle ?t = tb_next_handle t" "tb_subs ?t = tb_subs t" "tb_failed ?t = tb_failed t" by (simp_all add: upd_reg_def)
  have same: "r' \<noteq> r" if "watch_of t fd' = Some w" "r' \<in> regs_of w" "fd' \<noteq> fd" for fd' w r'
    using r that unfolding tied_def by blast
  have un: "union_mask ?t w = union_mask t w" if "watch_of t fd' = Some w" "fd' \<noteq> fd" for fd' w
  proof (rule bit_eqI)
    fix n
    have "tb_regs ?t r' = tb_regs t r'" if "r' \<in> regs_of w" for r' using same [OF \<open>watch_of t fd' = Some w\<close> that \<open>fd' \<noteq> fd\<close>] by (simp add: upd_reg_def)
    then show "bit (union_mask ?t w) n = bit (union_mask t w) n" by (simp add: bit_union_mask wanted_def)
  qed
  have "handles_ok ?t = handles_ok t" "slots_ok X ?t = slots_ok X t" "homes_ok ?t = homes_ok t"
    unfolding handles_ok_def slots_ok_def homes_ok_def w s by simp_all
  moreover have "latch_ok ?t" using ok f by (auto simp: tb_ok_def latch_ok_def upd_reg_def)
  moreover have "cover_ok (insert fd Y) ?t" using ok un unfolding tb_ok_def cover_ok_def w by (metis insert_iff)
  moreover have "armed_ok (insert fd Y) Z ?t"
    unfolding armed_ok_def w s
  proof (intro allI impI, elim conjE)
    fix fd' r' w assume h: "(fd', r') \<in> Z" "fd' \<notin> insert fd Y" "watch_of t fd' = Some w" "r' \<in> regs_of w" "wanted ?t r'" "\<not> rg_edge (tb_regs ?t r')"
    have "r' \<noteq> r" using same [OF h(3,4)] h(2) by blast
    then have "wanted t r'" "\<not> rg_edge (tb_regs t r')" using h by (simp_all add: wanted_def upd_reg_def)
    then show "wt_handle w \<noteq> None \<or> fd' \<in> set (tb_failed t)" using armedD [of Y Z t fd' r' w] ok h by (simp add: tb_ok_def)
  qed
  ultimately show ?thesis using ok by (simp add: tb_ok_def)
qed

lemma rearm_ok:
  assumes inv: "table_inv cs t" and r: "tied t fd r" and f: "\<not> rg_latched (f (tb_regs t r))"
  shows "op_post cs t (fst (note_interest k fd (upd_reg r f t)))"
proof -
  let ?t = "upd_reg r f t"
  have z: "waited (set (concat cs)) t" using table_inv_kept [OF inv] by (simp add: kept_def)
  have "tb_ok {} {fd} (set (concat cs)) ?t" by (rule upd_reg_tied [OF _ r]) (use inv f in \<open>simp_all add: table_inv_def\<close>)
  then have ok: "tb_ok {} {} (set (concat cs)) (fst (note_interest k fd ?t))"
  proof (rule note_interest_ok)
    assume "tb_selector ?t" "tb_fd_waits ?t fd = 0"
    then show "fd \<in> {} \<or> fd \<notin> fst ` set (concat cs)" using z unfolding waited_def upd_reg_def by force
  qed
  have st: "steady ?t (fst (note_interest k fd ?t))" by (rule steady_note_interest)
  have "homed t ?t" by (simp add: homed_def upd_reg_def)
  with steady_homed [OF st] have "homed t (fst (note_interest k fd ?t))" by (rule homed_trans [rotated])
  moreover have "waits_for cs (fst (note_interest k fd ?t))" using inv st by (simp add: table_inv_def waits_for_def steady_def upd_reg_def)
  ultimately show ?thesis using ok by (intro op_post_homed) (simp_all add: table_inv_def)
qed

text \<open>A closed \<open>Epoll\<close> has no registrations, and every registration of an object is tied to its descriptor.\<close>

definition pobj_ok :: "rtable \<Rightarrow> pobj \<Rightarrow> bool" where
  "pobj_ok t p \<longleftrightarrow> (\<forall>fd r. (fd, r) \<in> set (po_regs p) \<longrightarrow> tied t fd r) \<and> (po_epoll p \<and> po_closed p \<longrightarrow> po_regs p = [])"

lemma pobj_ok_post: "pobj_ok t p \<Longrightarrow> op_post cs t t' \<Longrightarrow> pobj_ok t' p"
  by (auto simp: pobj_ok_def op_post_def)

lemma modify_ok:
  assumes inv: "table_inv cs t" and p: "pobj_ok t p"
  shows "obj_post cs t p (poll_modify k fd m p t)" "obj_post cs t p (epoll_modify k fd m p t)"
proof -
  have tied: "tied t fd r" if "map_of (po_regs p) fd = Some r" for r using p map_of_SomeD [OF that] by (auto simp: pobj_ok_def)
  have b: "po_regs (fst (pobj_bind p)) = po_regs p" by (simp add: pobj_bind_def)
  have n: "op_post cs t t1" if "map_of (po_regs p) fd = Some r" "note_interest k fd (upd_reg r f t) = (t1, x)" "\<And>g. \<not> rg_latched (f g)" for r f t1 x
    using rearm_ok [OF inv tied [OF that(1)], of f k] that(2,3) by simp
  show "obj_post cs t p (poll_modify k fd m p t)"
    using b n [of _ "rearm_reg m"] obj_post_same [OF inv] by (auto simp: poll_modify_def obj_post_def rearm_reg_def split: option.splits prod.splits)
  have open_p: "pobj_bind p = (p\<lparr>po_bound := True\<rparr>, None)" if "map_of (po_regs p) fd = Some r" for r
    using p that by (auto simp: pobj_bind_def pobj_ok_def)
  show "obj_post cs t p (epoll_modify k fd m p t)"
  proof (cases "map_of (po_regs p) fd")
    case None
    then show ?thesis using obj_post_same [OF inv] by (simp add: epoll_modify_def)
  next
    case (Some r)
    show ?thesis
    proof (cases "epoll_parts m")
      case (Inl e)
      then show ?thesis using Some obj_post_same [OF inv] by (simp add: epoll_modify_def)
    next
      case (Inr parts)
      obtain interest edge oneshot where parts: "parts = (interest, edge, oneshot)" by (cases parts)
      let ?f = "\<lambda>g. rearm_reg interest (g\<lparr>rg_edge := edge, rg_oneshot := oneshot\<rparr>)"
      obtain t1 x where ni: "note_interest k fd (upd_reg r ?f t) = (t1, x)" by (cases "note_interest k fd (upd_reg r ?f t)")
      have "op_post cs t t1" by (rule n [OF Some ni]) (simp add: rearm_reg_def)
      then show ?thesis using Some Inr parts open_p [OF Some] ni by (simp add: epoll_modify_def obj_post_def)
    qed
  qed
qed

lemma remove_owner_post: "table_inv cs t \<Longrightarrow> op_post cs t (fst (remove_owner k fd owner keep t))"
  by (rule kept_op_post [OF _ remove_owner_kept [OF table_inv_kept] steady_remove_owner])

lemma unregister_ok: "table_inv cs t \<Longrightarrow> obj_post cs t p (obj_unregister k self fd p t)"
  using remove_owner_post [of cs t k fd self False] obj_post_same [of cs t] set_delete [of fd "po_regs p"] op_post_refl [of cs t]
  by (auto simp: obj_unregister_def obj_post_def Let_def split: prod.splits)

lemma close_ok: "table_inv cs t \<Longrightarrow> obj_post cs t p (obj_close k self p t)"
proof -
  assume inv: "table_inv cs t"
  have fe: "op_post cs t (fst (for_each (\<lambda>fd. remove_owner k fd self False) fds t))" for fds
  proof (rule for_each_inv [where P = "op_post cs t"])
    fix fd u assume u: "op_post cs t u"
    then have "table_inv cs u" by (simp add: op_post_def)
    from op_post_trans [OF u remove_owner_post [OF this]] show "op_post cs t (fst (remove_owner k fd self False u))" .
  qed (rule op_post_refl [OF inv])
  have "op_post cs t u" if "for_each (\<lambda>fd. remove_owner k fd self False) fds t = (u, x)" for fds u x using fe [of fds] that by simp
  then show ?thesis using inv obj_post_same [OF inv] op_post_refl [OF inv]
    by (auto simp: obj_close_def obj_post_def Let_def split: prod.splits)
qed

section \<open>select\<close>

lemma alloc_specs_ok:
  assumes "table_inv cs t" and "alloc_specs owner groups t = (t', specs)"
  shows "op_post cs t t' \<and> (\<forall>fd r. (fd, r) \<in> set specs \<longrightarrow> tied t' fd r \<and> (\<forall>fd'. \<not> tied t fd' r))
     \<and> map fst specs = map fst groups \<and> distinct (map snd specs)"
  using assms
proof (induction groups arbitrary: t t' specs)
  case Nil
  then show ?case by (simp add: op_post_refl)
next
  case (Cons g groups)
  obtain fd i where g: "g = (fd, i)" by (cases g)
  obtain t1 r where a: "alloc_reg (new_reg owner i False False True) t = (t1, r)" by (cases "alloc_reg (new_reg owner i False False True) t")
  obtain t2 rest where b: "alloc_specs owner groups t1 = (t2, rest)" by (cases "alloc_specs owner groups t1")
  have e: "t' = t2" "specs = (fd, r) # rest" using Cons.prems(2) a b by (simp_all add: g)
  note al = alloc_reg_ok [OF Cons.prems(1) a new_reg_latched]
  note ih = Cons.IH [OF al(1) b]
  have p: "op_post cs t t1" using al by (simp add: op_post_def)
  have t2: "tied t2 fd r" using ih al(2) by (simp add: op_post_def)
  have nr: "\<not> tied t fd' r" for fd' using al(3) by blast
  have rest: "r' \<noteq> r \<and> (\<forall>fd'. \<not> tied t fd' r')" if "(fd1, r') \<in> set rest" for fd1 r'
    using ih al(2) al(3) that by blast
  then have "r \<notin> snd ` set rest" by force
  then show ?case using ih op_post_trans [OF p] t2 nr rest by (auto simp: e g)
qed

lemma add_regs_ok:
  assumes "table_inv cs t" and "\<And>fd r. (fd, r) \<in> set specs \<Longrightarrow> tied t fd r" and "distinct (map snd specs)"
    and "for_each (\<lambda>(fd, r). add_reg k fd r) specs t = (t', x)"
  shows "table_inv cs t' \<and> (\<forall>fd r. tied t fd r \<and> r \<notin> snd ` set specs \<longrightarrow> tied t' fd r)
     \<and> set (tb_waiters t') \<union> set (tb_woken t') = set (tb_waiters t) \<union> set (tb_woken t)"
  using assms
proof (induction specs arbitrary: t)
  case Nil
  then show ?case by simp
next
  case (Cons s specs)
  obtain fd r where s: "s = (fd, r)" by (cases s)
  obtain t1 y where a: "add_reg k fd r t = (t1, y)" by (cases "add_reg k fd r t")
  have tr: "tied t fd r" using Cons.prems(2) s by simp
  have k: "kept (set (concat cs)) t1" using add_reg_kept [OF table_inv_kept [OF Cons.prems(1)] tr, of k] a by simp
  note w = add_reg_waits [of k fd r t, unfolded a, simplified]
  have i: "table_inv cs t1" using k Cons.prems(1) w by (simp add: kept_def table_inv_def waits_for_def)
  have td: "tied t1 fd' r'" if "tied t fd' r'" "r' \<noteq> r" for fd' r' using add_reg_tied [OF that(1), of r fd k] that(2) a by simp
  show ?case
  proof (cases y)
    case (Some z)
    then show ?thesis using Cons.prems(4) a i td w by (auto simp: s then_do_def)
  next
    case None
    have "tied t1 fd' r'" if "(fd', r') \<in> set specs" for fd' r'
      using td Cons.prems(2) [of fd' r'] Cons.prems(3) that by (force simp: s)
    from Cons.IH [OF i this] Cons.prems(3,4) None a td w show ?thesis by (auto simp: s then_do_def)
  qed
qed

lemma select_call_ok:
  assumes inv: "table_inv cs t" and e: "select_call k owner rl wl xl tmo t = (t', out, specs)"
  shows "table_inv (if is_over out then cs else specs # cs) t'" "\<forall>fd r. tied t fd r \<longrightarrow> tied t' fd r"
    "set (tb_waiters t') \<union> set (tb_woken t') = set (tb_waiters t) \<union> set (tb_woken t)"
proof -
  let ?G = "select_groups rl wl xl" and ?P = "\<lambda>t' out specs. table_inv (if is_over out then cs else specs # cs) t'
     \<and> (\<forall>fd r. tied t fd r \<longrightarrow> tied t' fd r) \<and> set (tb_waiters t') \<union> set (tb_woken t') = set (tb_waiters t) \<union> set (tb_woken t)"
  have zero: "table_inv ([] # cs) t" using inv by (simp add: table_inv_def waits_for_def)
  let ?s = "sweep_shells (map fst ?G) t"
  have sw: "op_post cs t ?s" by (rule kept_op_post [OF inv sweep_kept [OF table_inv_kept [OF inv]] steady_sweep])
  obtain t1 sp where al: "alloc_specs owner ?G ?s = (t1, sp)" by (cases "alloc_specs owner ?G ?s")
  have i1: "table_inv cs ?s" using sw by (simp add: op_post_def)
  note a = alloc_specs_ok [OF i1 al]
  obtain t2 x where ad: "for_each (\<lambda>(fd, r). add_reg k fd r) sp t1 = (t2, x)" by (cases "for_each (\<lambda>(fd, r). add_reg k fd r) sp t1")
  have i2: "table_inv cs t1" "op_post cs ?s t1" using a by (simp_all add: op_post_def)
  have ad2: "table_inv cs t2 \<and> (\<forall>fd r. tied t1 fd r \<and> r \<notin> snd ` set sp \<longrightarrow> tied t2 fd r)
     \<and> set (tb_waiters t2) \<union> set (tb_woken t2) = set (tb_waiters t1) \<union> set (tb_woken t1)"
    by (rule add_regs_ok [OF i2(1) _ _ ad]) (use a in auto)
  have "tied t2 fd r" if "tied t fd r" for fd r
  proof -
    have s: "tied ?s fd r" using sw that by (simp add: op_post_def)
    then have "r \<notin> snd ` set sp" using a by auto
    then show ?thesis using ad2 i2(2) s by (simp add: op_post_def)
  qed
  then have p2: "?P t2 (WRaise z) sp" for z using ad2 sw i2(2) by (simp add: op_post_def)
  obtain t3 o3 where w: "table_wait k sp tmo None t2 = (t3, o3)" by (cases "table_wait k sp tmo None t2")
  note tw = table_wait_ok [OF conjunct1 [OF ad2] w]
  note sf = select_finish_ok [OF tw(1), of k owner o3]
  obtain t4 o4 where f: "select_finish k owner (t3, o3) = (t4, o4)" by (cases "select_finish k owner (t3, o3)")
  have h: "homed t2 t4" using homed_trans [OF tw(2) sf(2)] f by simp
  have p4: "?P t4 o4 sp" using sf(1,3) f h p2 tied_homed [OF h] by (simp add: homed_def split: if_splits)
  have "?P t' out specs"
    using e al ad w f p2 p4 inv zero by (auto simp: select_call_def Let_def split: if_splits option.splits prod.splits)
  then show "table_inv (if is_over out then cs else specs # cs) t'" "\<forall>fd r. tied t fd r \<longrightarrow> tied t' fd r"
    "set (tb_waiters t') \<union> set (tb_woken t') = set (tb_waiters t) \<union> set (tb_woken t)" by blast+
qed

section \<open>The invariant of the system\<close>

definition active :: "rsys \<Rightarrow> spec list list" where
  "active s = map (\<lambda>(c, call). rc_specs call) (ry_calls s)"

definition parked_ok :: "rsys \<Rightarrow> bool" where
  "parked_ok s \<longleftrightarrow> distinct (map fst (ry_calls s)) \<and> (\<forall>c \<in> fst ` set (ry_calls s). c < ry_next_call s)
     \<and> (\<forall>c call. (c, call) \<in> set (ry_calls s) \<and> \<not> rc_asleep call \<and> rc_specs call \<noteq> [] \<longrightarrow>
          c \<in> set (tb_waiters (ry_table s)) \<union> set (tb_woken (ry_table s)))"

definition sys_inv :: "rsys \<Rightarrow> bool" where
  "sys_inv s \<longleftrightarrow> table_inv (active s) (ry_table s) \<and> (\<forall>self p. ry_objs s self = Some p \<longrightarrow> pobj_ok (ry_table s) p) \<and> parked_ok s"

lemma parked_ok_same: "parked_ok s \<Longrightarrow> ry_calls s' = ry_calls s \<Longrightarrow> ry_next_call s' = ry_next_call s \<Longrightarrow>
    set (tb_waiters (ry_table s')) \<union> set (tb_woken (ry_table s')) = set (tb_waiters (ry_table s)) \<union> set (tb_woken (ry_table s)) \<Longrightarrow> parked_ok s'"
  by (simp add: parked_ok_def)

lemma sys_inv_put:
  assumes inv: "sys_inv s" and p: "ry_objs s self = Some p" and post: "obj_post (active s) (ry_table s) p (p', t', x)"
    and c: "po_epoll p' \<and> po_closed p' \<Longrightarrow> po_regs p' = []"
  shows "sys_inv (put_obj self (p', t', x) s)"
proof -
  have post': "op_post (active s) (ry_table s) t'" using post by (simp add: obj_post_def)
  have "pobj_ok (ry_table s) p" using inv p by (simp add: sys_inv_def)
  then have "pobj_ok t' p'" using post post' c unfolding pobj_ok_def obj_post_def op_post_def by blast
  moreover have "pobj_ok t' q" if "ry_objs s o' = Some q" for o' q using inv that pobj_ok_post [OF _ post'] by (simp add: sys_inv_def)
  moreover have "parked_ok (put_obj self (p', t', x) s)"
    by (rule parked_ok_same [of s]) (use inv post' in \<open>auto simp: sys_inv_def put_obj_def op_post_def\<close>)
  ultimately show ?thesis using post' by (auto simp: sys_inv_def put_obj_def op_post_def active_def)
qed

lemma closed_kept:
  assumes "po_epoll p \<and> po_closed p \<longrightarrow> po_regs p = []"
  shows "po_epoll (fst (poll_register k self fd m p t)) \<and> po_closed (fst (poll_register k self fd m p t)) \<Longrightarrow> po_regs (fst (poll_register k self fd m p t)) = []"
    "po_epoll (fst (epoll_register k self fd m p t)) \<and> po_closed (fst (epoll_register k self fd m p t)) \<Longrightarrow> po_regs (fst (epoll_register k self fd m p t)) = []"
    "po_epoll (fst (poll_modify k fd e p t)) \<and> po_closed (fst (poll_modify k fd e p t)) \<Longrightarrow> po_regs (fst (poll_modify k fd e p t)) = []"
    "po_epoll (fst (epoll_modify k fd e p t)) \<and> po_closed (fst (epoll_modify k fd e p t)) \<Longrightarrow> po_regs (fst (epoll_modify k fd e p t)) = []"
    "po_epoll (fst (obj_unregister k self fd p t)) \<and> po_closed (fst (obj_unregister k self fd p t)) \<Longrightarrow> po_regs (fst (obj_unregister k self fd p t)) = []"
    "po_epoll (fst (obj_close k self p t)) \<and> po_closed (fst (obj_close k self p t)) \<Longrightarrow> po_regs (fst (obj_close k self p t)) = []"
  using assms
  by (auto simp: poll_register_def epoll_register_def register_reg_def pobj_bind_def poll_modify_def epoll_modify_def
      obj_unregister_def obj_close_def Let_def split: prod.splits sum.splits option.splits if_splits)

lemma sys_inv_obj:
  assumes inv: "sys_inv s" and p: "ry_objs s self = Some p" and post: "obj_post (active s) (ry_table s) p res"
    and c: "po_epoll (fst res) \<and> po_closed (fst res) \<Longrightarrow> po_regs (fst res) = []"
  shows "sys_inv (put_obj self res s)"
  using sys_inv_put [OF inv p, of "fst res" "fst (snd res)" "snd (snd res)"] post c by simp

lemma table_inv_cong:
  assumes "table_inv cs t" "tb_waiters t' = w" "t' = t\<lparr>tb_waiters := w, tb_woken := v\<rparr>"
  shows "table_inv cs t'" and "tied t' fd r = tied t fd r"
proof -
  have q: "tb_regs t' = tb_regs t" "watch_of t' x = watch_of t x" "tb_selector t' = tb_selector t" "tb_fd_waits t' = tb_fd_waits t"
    "tb_next_handle t' = tb_next_handle t" "tb_subs t' = tb_subs t" "tb_closed t' = tb_closed t" "tb_failed t' = tb_failed t" "tb_next_reg t' = tb_next_reg t"
    for x using assms(3) by simp_all
  have u: "union_mask t' w = union_mask t w" "wanted t' r = wanted t r" for w r by (rule union_mask_cong) (simp_all add: q wanted_def)
  show "tied t' fd r = tied t fd r" unfolding tied_def q by simp
  show "table_inv cs t'" using assms(1)
    unfolding table_inv_def tb_ok_def handles_ok_def latch_ok_def slots_ok_def cover_ok_def armed_ok_def homes_ok_def waits_for_def q u .
qed

lemma begin_call_inv:
  assumes inv: "sys_inv s" and t: "table_inv (if is_over out then active s else specs # active s) t'"
    and td: "\<forall>fd r. tied (ry_table s) fd r \<longrightarrow> tied t' fd r"
    and wk: "set (tb_waiters t') \<union> set (tb_woken t') = set (tb_waiters (ry_table s)) \<union> set (tb_woken (ry_table s))"
    and s': "ry_calls s' = ry_calls s" "ry_next_call s' = ry_next_call s" "ry_table s' = ry_table s"
    and objs: "\<And>self p. ry_objs s' self = Some p \<Longrightarrow> \<exists>q. ry_objs s self = Some q \<and> po_regs p = po_regs q \<and> po_epoll p = po_epoll q \<and> po_closed p = po_closed q"
  shows "sys_inv (begin_call specs tmo m owner (t', out) s')"
proof -
  let ?b = "begin_call specs tmo m owner (t', out) s'" and ?c = "ry_next_call s"
  let ?t = "ry_table ?b"
  have ob: "pobj_ok t' p" if "ry_objs s' self = Some p" for self p
    using objs [OF that] inv td by (auto simp: sys_inv_def pobj_ok_def)
  have par: "parked_ok s" using inv by (simp add: sys_inv_def)
  show ?thesis
  proof (cases "is_over out")
    case True
    then have b: "?b = s'\<lparr>ry_table := t'\<rparr>" by (simp add: begin_call_def)
    have "parked_ok ?b" by (rule parked_ok_same [OF par]) (simp_all add: b s' wk)
    moreover have "active ?b = active s" by (simp add: b active_def s')
    ultimately show ?thesis using t True ob unfolding sys_inv_def by (simp add: b)
  next
    case False
    let ?t' = "if out = WPark \<and> specs \<noteq> [] then t'\<lparr>tb_waiters := tb_waiters t' @ [?c]\<rparr> else t'"
    have b: "?t = ?t'" "ry_calls ?b = ry_calls s @ [(?c, \<lparr>rc_specs = specs, rc_timeout = tmo, rc_maxevents = m, rc_owner = owner, rc_asleep = (out = WSleep)\<rparr>)]"
      "ry_next_call ?b = Suc ?c" "ry_objs ?b = ry_objs s'"
      using False s' by (simp_all add: begin_call_def Let_def)
    have act: "mset (active ?b) = mset (specs # active s)" by (simp add: active_def b)
    have eq: "?t' = t'\<lparr>tb_waiters := tb_waiters ?t', tb_woken := tb_woken t'\<rparr>" by simp
    have i: "table_inv (specs # active s) ?t'" "tied ?t' fd r = tied t' fd r" for fd r
      using table_inv_cong(1) [OF t refl eq] table_inv_cong(2) [OF t refl eq, of fd r] False by simp_all
    have "pobj_ok ?t p" if "ry_objs ?b self = Some p" for self p using ob [of self p] that b i(2) by (simp add: pobj_ok_def)
    moreover have "parked_ok ?b"
    proof -
      have "out = WPark" if "out \<noteq> WSleep" using False that by (cases out) auto
      then have new: "?c \<in> set (tb_waiters ?t')" if "out \<noteq> WSleep" "specs \<noteq> []" using that by simp
      have sub: "set (tb_waiters (ry_table s)) \<union> set (tb_woken (ry_table s)) \<subseteq> set (tb_waiters ?t') \<union> set (tb_woken ?t')"
        unfolding wk [symmetric] by auto
      have lt: "\<forall>c \<in> fst ` set (ry_calls s). c < ?c" and d: "distinct (map fst (ry_calls s))"
        and old: "\<And>c call. (c, call) \<in> set (ry_calls s) \<Longrightarrow> \<not> rc_asleep call \<Longrightarrow> rc_specs call \<noteq> [] \<Longrightarrow>
          c \<in> set (tb_waiters (ry_table s)) \<union> set (tb_woken (ry_table s))"
        using par by (auto simp: parked_ok_def)
      show ?thesis unfolding parked_ok_def b
      proof (intro conjI allI impI)
        show "distinct (map fst (ry_calls s @ [(?c, \<lparr>rc_specs = specs, rc_timeout = tmo, rc_maxevents = m, rc_owner = owner, rc_asleep = (out = WSleep)\<rparr>)]))"
          using d lt by auto
        show "\<forall>c \<in> fst ` set (ry_calls s @ [(?c, \<lparr>rc_specs = specs, rc_timeout = tmo, rc_maxevents = m, rc_owner = owner, rc_asleep = (out = WSleep)\<rparr>)]). c < Suc ?c"
          using lt by (auto intro: less_SucI)
        fix c call assume h: "(c, call) \<in> set (ry_calls s @ [(?c, \<lparr>rc_specs = specs, rc_timeout = tmo, rc_maxevents = m, rc_owner = owner, rc_asleep = (out = WSleep)\<rparr>)])
          \<and> \<not> rc_asleep call \<and> rc_specs call \<noteq> []"
        then show "c \<in> set (tb_waiters ?t') \<union> set (tb_woken ?t')"
          using old [of c call] sub new by (cases "(c, call) \<in> set (ry_calls s)") auto
      qed
    qed
    ultimately show ?thesis using i(1) table_inv_mset [OF act] b(1) by (simp add: sys_inv_def)
  qed
qed

lemma unpark_ok:
  assumes "table_inv cs t"
  shows "table_inv cs (unpark c t)" "tied (unpark c t) fd r = tied t fd r"
    "set (tb_waiters (unpark c t)) \<union> set (tb_woken (unpark c t)) = set (tb_waiters t) \<union> set (tb_woken t) - {c}"
proof -
  have e: "unpark c t = t\<lparr>tb_waiters := removeAll c (tb_waiters t), tb_woken := removeAll c (tb_woken t)\<rparr>" by (simp add: unpark_def)
  have w: "tb_waiters (unpark c t) = removeAll c (tb_waiters t)" by (simp add: unpark_def)
  show "table_inv cs (unpark c t)" by (rule table_inv_cong(1) [OF assms w e])
  show "tied (unpark c t) fd r = tied t fd r" by (rule table_inv_cong(2) [OF assms w e])
  show "set (tb_waiters (unpark c t)) \<union> set (tb_woken (unpark c t)) = set (tb_waiters t) \<union> set (tb_woken t) - {c}"
    by (auto simp: unpark_def)
qed

lemma active_call:
  assumes "(c, call) \<in> set (ry_calls s)"
  shows "mset (active s) = mset (rc_specs call # active (s\<lparr>ry_calls := remove1 (c, call) (ry_calls s)\<rparr>))"
proof -
  have "mset (ry_calls s) = add_mset (c, call) (mset (remove1 (c, call) (ry_calls s)))" using assms by (simp add: insert_DiffM)
  from arg_cong [OF this, of "image_mset (\<lambda>(c, call). rc_specs call)"] show ?thesis by (simp add: active_def)
qed

lemma end_call_inv:
  assumes inv: "sys_inv s" and c: "(c, call) \<in> set (ry_calls s)"
    and t: "homed (unpark c (ry_table s)) t'" "table_inv (active (s\<lparr>ry_calls := remove1 (c, call) (ry_calls s)\<rparr>)) t'"
  shows "sys_inv (end_call k c call (t', out) s)"
proof -
  let ?s = "s\<lparr>ry_calls := remove1 (c, call) (ry_calls s)\<rparr>" and ?e = "end_call k c call (t', out) s"
  let ?t = "ry_table ?e"
  have ti: "table_inv (active s) (ry_table s)" using inv by (simp add: sys_inv_def)
  have h: "homed t' ?t \<and> table_inv (active ?s) ?t"
    using select_finish_ok [OF t(2), of k _ out] t(2) by (auto simp: end_call_def split: option.splits)
  have hh: "homed (unpark c (ry_table s)) ?t" using homed_trans [OF t(1)] h by blast
  have "pobj_ok ?t p" if "ry_objs s self = Some p" for self p
    using inv that tied_homed [OF hh] unpark_ok(2) [OF ti] by (auto simp: sys_inv_def pobj_ok_def)
  moreover have "parked_ok ?e"
  proof -
    have par: "distinct (map fst (ry_calls s))" "\<forall>c \<in> fst ` set (ry_calls s). c < ry_next_call s"
      and old: "\<And>c call. (c, call) \<in> set (ry_calls s) \<Longrightarrow> \<not> rc_asleep call \<Longrightarrow> rc_specs call \<noteq> [] \<Longrightarrow>
          c \<in> set (tb_waiters (ry_table s)) \<union> set (tb_woken (ry_table s))"
      using inv by (auto simp: sys_inv_def parked_ok_def)
    have sub: "set (remove1 (c, call) (ry_calls s)) \<subseteq> set (ry_calls s)" by (rule set_remove1_subset)
    have d: "distinct (map fst (remove1 (c, call) (ry_calls s)))"
      using distinct_fst_remove1 [OF par(1)] .
    have "set (tb_waiters ?t) \<union> set (tb_woken ?t) = set (tb_waiters (ry_table s)) \<union> set (tb_woken (ry_table s)) - {c}"
      using hh unpark_ok(3) [OF ti, of c] by (simp add: homed_def)
    moreover have "c' \<noteq> c" if "(c', call') \<in> set (remove1 (c, call) (ry_calls s))" for c' call'
      using fst_remove1_notin [OF par(1) c] that by (force simp: image_iff)
    ultimately have wk: "c' \<in> set (tb_waiters ?t) \<union> set (tb_woken ?t)"
      if "(c', call') \<in> set (remove1 (c, call) (ry_calls s))" "\<not> rc_asleep call'" "rc_specs call' \<noteq> []" for c' call'
      using old [of c' call'] sub that by blast
    have e: "ry_calls ?e = remove1 (c, call) (ry_calls s)" "ry_next_call ?e = ry_next_call s" by (simp_all add: end_call_def)
    have "\<forall>c \<in> fst ` set (remove1 (c, call) (ry_calls s)). c < ry_next_call s" using par(2) sub by auto
    then show ?thesis unfolding parked_ok_def e using d wk by blast
  qed
  moreover have "active ?e = active ?s" "ry_objs ?e = ry_objs s" by (simp_all add: active_def end_call_def)
  ultimately show ?thesis using h by (simp add: sys_inv_def)
qed

lemma poll_call_inv:
  assumes inv: "sys_inv s" and p: "ry_objs s self = Some p" and b: "pobj_bind p = (p', x)"
    and w: "(t', out) = (case x of Some e \<Rightarrow> (ry_table s, WRaise e) | None \<Rightarrow> table_wait k (po_regs p) tmo m (ry_table s))"
  shows "sys_inv (begin_call (po_regs p) tmo m None (t', out) (s\<lparr>ry_objs := (ry_objs s)(self \<mapsto> p')\<rparr>))"
proof (rule begin_call_inv [OF inv])
  have ti: "table_inv (active s) (ry_table s)" using inv by (simp add: sys_inv_def)
  have r: "table_inv (if is_over out then active s else po_regs p # active s) t' \<and> homed (ry_table s) t'"
    using w ti table_wait_ok [OF ti, of k "po_regs p" tmo m t' out] by (cases x) auto
  show "table_inv (if is_over out then active s else po_regs p # active s) t'" using r by blast
  show "\<forall>fd r. tied (ry_table s) fd r \<longrightarrow> tied t' fd r" using r tied_homed by blast
  show "set (tb_waiters t') \<union> set (tb_woken t') = set (tb_waiters (ry_table s)) \<union> set (tb_woken (ry_table s))"
    using r by (simp add: homed_def)
  show "\<exists>q. ry_objs s o' = Some q \<and> po_regs p2 = po_regs q \<and> po_epoll p2 = po_epoll q \<and> po_closed p2 = po_closed q"
    if "ry_objs (s\<lparr>ry_objs := (ry_objs s)(self \<mapsto> p')\<rparr>) o' = Some p2" for o' p2
    using that p b by (auto simp: pobj_bind_def split: if_splits)
qed simp_all

lemma woken_inv:
  assumes inv: "sys_inv s" and c: "(c, call) \<in> set (ry_calls s)" "c \<in> set (tb_woken (ry_table s))"
    and w: "wait_woken k (rc_specs call) (rc_maxevents call) (unpark c (ry_table s)) = (t', out)"
  shows "sys_inv (if out = WPark then s\<lparr>ry_table := t'\<lparr>tb_waiters := tb_waiters t' @ [c]\<rparr>\<rparr> else end_call k c call (t', out) s)"
proof -
  let ?rest = "active (s\<lparr>ry_calls := remove1 (c, call) (ry_calls s)\<rparr>)"
  have ti: "table_inv (active s) (ry_table s)" using inv by (simp add: sys_inv_def)
  have tu: "table_inv (active s) (unpark c (ry_table s))" by (rule unpark_ok(1) [OF ti])
  have tr: "table_inv (rc_specs call # ?rest) (unpark c (ry_table s))" using tu table_inv_mset [OF active_call [OF c(1)]] by blast
  note ww = wait_woken_ok [OF tr w]
  show ?thesis
  proof (cases "out = WPark")
    case False
    then show ?thesis using end_call_inv [OF inv c(1), of t' k out] ww by simp
  next
    case True
    then have t': "t' = unpark c (ry_table s)" using ww by simp
    let ?t = "t'\<lparr>tb_waiters := tb_waiters t' @ [c]\<rparr>"
    have e: "?t = t'\<lparr>tb_waiters := tb_waiters t' @ [c], tb_woken := tb_woken t'\<rparr>" by simp
    have wt: "tb_waiters ?t = tb_waiters t' @ [c]" by simp
    have i: "table_inv (active s) ?t" "tied ?t fd r = tied (ry_table s) fd r" for fd r
      using table_inv_cong(1) [OF tu [folded t'] wt e] table_inv_cong(2) [OF tu [folded t'] wt e] unpark_ok(2) [OF ti] t' by simp_all
    have wk: "set (tb_waiters ?t) \<union> set (tb_woken ?t) = set (tb_waiters (ry_table s)) \<union> set (tb_woken (ry_table s))"
      using unpark_ok(3) [OF ti, of c] c(2) t' by auto
    have "parked_ok (s\<lparr>ry_table := ?t\<rparr>)" by (rule parked_ok_same [of s]) (use inv wk in \<open>simp_all add: sys_inv_def\<close>)
    then have "sys_inv (s\<lparr>ry_table := ?t\<rparr>)" using inv i by (simp add: sys_inv_def pobj_ok_def active_def)
    then show ?thesis using True by simp
  qed
qed

lemma ended_inv:
  assumes inv: "sys_inv s" and c: "(c, call) \<in> set (ry_calls s)"
    and w: "\<And>cs. table_inv (rc_specs call # cs) (unpark c (ry_table s)) \<Longrightarrow> homed (unpark c (ry_table s)) t' \<and> table_inv cs t' \<and> is_over out"
  shows "sys_inv (end_call k c call (t', out) s)"
proof -
  have ti: "table_inv (active s) (ry_table s)" using inv by (simp add: sys_inv_def)
  have tu: "table_inv (active s) (unpark c (ry_table s))" by (rule unpark_ok(1) [OF ti])
  have "table_inv (rc_specs call # active (s\<lparr>ry_calls := remove1 (c, call) (ry_calls s)\<rparr>)) (unpark c (ry_table s))"
    using tu table_inv_mset [OF active_call [OF c]] by blast
  from w [OF this] show ?thesis using end_call_inv [OF inv c] by blast
qed

lemma ry_step_inv: "ry_step s s' \<Longrightarrow> sys_inv s \<Longrightarrow> sys_inv s'"
proof (induction rule: ry_step.induct)
  case (new_object s epoll)
  then show ?case by (auto simp: sys_inv_def active_def parked_ok_def pobj_ok_def pobj_init_def)
next
  case (register s self p k fd m)
  then have i: "table_inv (active s) (ry_table s)" "pobj_ok (ry_table s) p" by (auto simp: sys_inv_def)
  then have c: "po_epoll p \<and> po_closed p \<longrightarrow> po_regs p = []" by (simp add: pobj_ok_def)
  show ?case using sys_inv_obj [OF register(2,1) register_ok(1) [OF i(1)] closed_kept(1) [OF c], of k self fd m]
      sys_inv_obj [OF register(2,1) register_ok(2) [OF i(1)] closed_kept(2) [OF c], of k self fd m] by auto
next
  case (modify s self p k fd m)
  then have i: "table_inv (active s) (ry_table s)" "pobj_ok (ry_table s) p" by (auto simp: sys_inv_def)
  then have c: "po_epoll p \<and> po_closed p \<longrightarrow> po_regs p = []" by (simp add: pobj_ok_def)
  show ?case using sys_inv_obj [OF modify(2,1) modify_ok(1) [OF i] closed_kept(3) [OF c], of k fd m]
      sys_inv_obj [OF modify(2,1) modify_ok(2) [OF i] closed_kept(4) [OF c], of k fd m] by auto
next
  case (unregister s self p k fd)
  then have i: "table_inv (active s) (ry_table s)" "pobj_ok (ry_table s) p" by (auto simp: sys_inv_def)
  then have c: "po_epoll p \<and> po_closed p \<longrightarrow> po_regs p = []" by (simp add: pobj_ok_def)
  show ?case by (rule sys_inv_obj [OF unregister(2,1) unregister_ok [OF i(1)] closed_kept(5) [OF c]])
next
  case (close_object s self p k)
  then have i: "table_inv (active s) (ry_table s)" "pobj_ok (ry_table s) p" by (auto simp: sys_inv_def)
  then have c: "po_epoll p \<and> po_closed p \<longrightarrow> po_regs p = []" by (simp add: pobj_ok_def)
  show ?case by (rule sys_inv_obj [OF close_object(2,1) close_ok [OF i(1)] closed_kept(6) [OF c]])
next
  case (call_poll s self p k timeout p' t' out)
  obtain q x where b: "pobj_bind p = (q, x)" by (cases "pobj_bind p")
  have "p' = q \<and> (t', out) = (case x of Some e \<Rightarrow> (ry_table s, WRaise e) | None \<Rightarrow> table_wait k (po_regs p) (millis_to_seconds timeout) None (ry_table s))"
    using call_poll(3) b bind_regs [OF b] by (auto simp: poll_poll_def split: option.splits prod.splits)
  then show ?case using poll_call_inv [OF call_poll(4,1) b] by blast
next
  case (call_epoll s self p k timeout n p' t' out)
  obtain q x where b: "pobj_bind p = (q, x)" by (cases "pobj_bind p")
  show ?case
  proof (cases "n \<noteq> -1 \<and> n \<le> 0")
    case True
    then have e: "p' = p" "t' = ry_table s" "is_over out" using call_epoll(3) by (auto simp: epoll_poll_def)
    have "s\<lparr>ry_objs := (ry_objs s)(self \<mapsto> p), ry_table := ry_table s\<rparr> = s" using call_epoll(1) by (simp add: fun_upd_idem)
    then show ?thesis using e call_epoll(4) by (simp add: begin_call_def)
  next
    case False
    have "p' = q \<and> (t', out) = (case x of Some e \<Rightarrow> (ry_table s, WRaise e) | None \<Rightarrow> table_wait k (po_regs p) (millis_to_seconds timeout) (Some n) (ry_table s))"
      using call_epoll(3) b bind_regs [OF b] False by (auto simp: epoll_poll_def split: option.splits prod.splits if_splits)
    then show ?thesis using poll_call_inv [OF call_epoll(4,1) b] by blast
  qed
next
  case (call_select k s readers writers excepts timeout t' out specs)
  then have ti: "table_inv (active s) (ry_table s)" by (simp add: sys_inv_def)
  note sc = select_call_ok [OF ti call_select(1)]
  show ?case by (rule begin_call_inv [OF call_select(2) sc]) auto
next
  case (deliver h s k d)
  let ?t = "delivery_callback k (fst (tb_subs (ry_table s) h)) (snd (tb_subs (ry_table s) h)) d (ry_table s)"
  have ti: "table_inv (active s) (ry_table s)" using deliver by (simp add: sys_inv_def)
  have st: "steady (ry_table s) ?t" by (rule quiet_steady [OF quiet_callback])
  have op: "op_post (active s) (ry_table s) ?t"
    by (rule kept_op_post [OF ti kept_quiet [OF quiet_callback table_inv_kept [OF ti]] st])
  have "parked_ok (s\<lparr>ry_table := ?t\<rparr>)" by (rule parked_ok_same [of s]) (use deliver op in \<open>simp_all add: sys_inv_def op_post_def\<close>)
  then show ?case using deliver op pobj_ok_post [OF _ op] by (auto simp: sys_inv_def op_post_def active_def)
next
  case (woken c call s k t' out)
  then show ?case by (intro woken_inv)
next
  case (expired c call s n k t' out)
  then show ?case using wait_expired_ok [OF _ expired(3)] by (intro ended_inv)
next
  case (thrown c call s e t' out k)
  then show ?case using wait_thrown_ok [OF _ thrown(2)] by (intro ended_inv)
qed

lemma ry_init_inv: "sys_inv (ry_init selector)"
  by (auto simp: sys_inv_def ry_init_def table_init_def active_def parked_ok_def table_inv_def tb_ok_def handles_ok_def latch_ok_def
      slots_ok_def cover_ok_def armed_ok_def homes_ok_def waits_for_def new_reg_def)

lemma ry_reach_inv: "ry_step\<^sup>*\<^sup>* (ry_init selector) s \<Longrightarrow> sys_inv s"
  by (induction rule: rtranclp_induct) (auto simp: ry_init_inv intro: ry_step_inv)

end
