(* ===== verification/Poll_Properties.thy ===== *)
theory Poll_Properties
  imports Polling_System
begin

unbundle bit_operations_syntax

text \<open>The theorems on \<open>poll\<close>, \<open>epoll\<close> and \<open>select\<close>, with their witnesses.\<close>

section \<open>Handles and slots\<close>

text \<open>C15: in every reachable state each armed poll handle is closed exactly once or is held by exactly one
  watch, and on the selector backend a descriptor's slot is held only while a suspended call waits for it,
  so that a later receive finds the slot free.\<close>

theorem polling_slots:
  assumes "ry_step\<^sup>*\<^sup>* (ry_init selector) s"
  shows "distinct (tb_closed (ry_table s))
    \<and> (\<forall>h < tb_next_handle (ry_table s). (h \<in> set (tb_closed (ry_table s))) \<noteq> (\<exists>fd w. watch_of (ry_table s) fd = Some w \<and> wt_handle w = Some h))
    \<and> (\<forall>fd w fd' w' h. watch_of (ry_table s) fd = Some w \<and> wt_handle w = Some h \<and> watch_of (ry_table s) fd' = Some w' \<and> wt_handle w' = Some h \<longrightarrow> fd = fd')
    \<and> (tb_selector (ry_table s) \<longrightarrow> (\<forall>fd w. watch_of (ry_table s) fd = Some w \<and> wt_handle w \<noteq> None \<longrightarrow>
         (\<exists>c call r. (c, call) \<in> set (ry_calls s) \<and> (fd, r) \<in> set (rc_specs call))))"
proof -
  let ?t = "ry_table s"
  have i: "table_inv (active s) ?t" using ry_reach_inv [OF assms] by (simp add: sys_inv_def)
  have h: "handles_ok ?t" "slots_ok {} ?t" "waits_for (active s) ?t" using i by (simp_all add: table_inv_def tb_ok_def)
  have one: "fd = fd'" if "watch_of ?t fd = Some w" "wt_handle w = Some h" "watch_of ?t fd' = Some w'" "wt_handle w' = Some h" for fd w fd' w' h
    using handlesD [OF h(1) that(1,2)] handlesD [OF h(1) that(3,4)] by simp
  have slot: "\<exists>c call r. (c, call) \<in> set (ry_calls s) \<and> (fd, r) \<in> set (rc_specs call)"
    if "tb_selector ?t" "watch_of ?t fd = Some w" "wt_handle w \<noteq> None" for fd w
  proof -
    have "0 < tb_fd_waits ?t fd" using h(2) that by (auto simp: slots_ok_def)
    then have "fd \<in> set (map fst (concat (active s)))" using h(3) that(1) by (metis count_list_0_iff less_irrefl waits_for_def)
    then obtain c call r where "(c, call) \<in> set (ry_calls s)" "(fd, r) \<in> set (rc_specs call)" by (auto simp: active_def)
    then show ?thesis by blast
  qed
  show ?thesis
    using h(1) one slot unfolding handles_ok_def by (intro conjI allI impI) (blast | metis)+
qed

section \<open>Deliveries wake calls\<close>

lemma see_bits_level: "\<not> rg_edge g \<Longrightarrow> visible_bits stored (see_bits n stored' g) = stored AND rg_interest g"
  by (simp add: see_bits_def visible_bits_def Let_def)

lemma see_bits_disarmed: "rg_disarmed (see_bits n s g) = rg_disarmed g"
  by (simp add: see_bits_def Let_def)

text \<open>The bits of a delivery that count: \<open>POLLPRI\<close> only when \<open>select\<close> confirms the exceptional condition.\<close>

definition confirmed :: "kernel \<Rightarrow> int \<Rightarrow> int \<Rightarrow> int" where
  "confirmed k fd v =
     (case kn_select k fd of
        Inr (_, _, True) \<Rightarrow> v
      | _ \<Rightarrow> v AND NOT POLLPRI)"

text \<open>\<open>select\<close> answers or fails with an \<open>OSError\<close>; it is asked only when \<open>POLLPRI\<close> was delivered.\<close>

definition askable :: "kernel \<Rightarrow> int \<Rightarrow> int \<Rightarrow> bool" where
  "askable k fd v = (v AND POLLPRI = 0 \<or> (case kn_select k fd of Inr _ \<Rightarrow> True | Inl e \<Rightarrow> is_OSError e))"

lemma without_pri: "v AND POLLPRI = 0 \<Longrightarrow> v AND NOT POLLPRI = (v :: int)"
  by (simp add: bit_eq_iff bit_simps) blast

lemma with_pri: "v AND POLLPRI \<noteq> 0 \<Longrightarrow> v AND NOT POLLPRI OR POLLPRI = (v :: int)"
proof -
  assume a: "v AND POLLPRI \<noteq> 0"
  have p: "bit POLLPRI n \<longleftrightarrow> n = 1" for n
    using bit_exp_iff [of 1 n, where ?'a = int] by (simp add: POLLPRI_def)
  obtain n where "bit (v AND POLLPRI) n" using a by (metis bit_0_eq bit_eqI bot_apply bot_bool_def)
  then have v: "bit v 1" unfolding bit_and_iff p by auto
  show ?thesis
  proof (rule bit_eqI)
    fix n
    show "bit (v AND NOT POLLPRI OR POLLPRI) n = bit v n"
      unfolding bit_or_iff bit_and_iff bit_not_iff p using v by (cases "n = 1") simp_all
  qed
qed

lemma probe_pri: "probe_poll_fd_now k fd POLLPRI =
    (case kn_select k fd of Inl e \<Rightarrow> Inl e | Inr (_, _, x) \<Rightarrow> if x then Inr POLLPRI else Inl BlockingIOErr)"
proof -
  have "POLLPRI AND SELECT_READ_MASK = 0" "POLLPRI AND POLLOUT = 0" "POLLPRI AND SELECT_EXC_MASK = POLLPRI" "POLLPRI \<noteq> 0" by code_simp+
  then show ?thesis by (simp add: probe_poll_fd_now_def Let_def split: sum.split prod.split)
qed

lemma check_pri_confirms:
  assumes "watch_of t fd = Some w" "askable k fd v"
  shows "\<exists>t1 w1. check_pri k fd v t = (t1, Some (confirmed k fd v)) \<and> watch_of t1 fd = Some w1 \<and> wt_regs w1 = wt_regs w
    \<and> wt_stored w1 = wt_stored w \<and> tb_regs t1 = tb_regs t
    \<and> set (tb_woken t1) \<union> set (tb_waiters t1) = set (tb_woken t) \<union> set (tb_waiters t)"
proof (cases "v AND POLLPRI = 0")
  case True
  have c: "confirmed k fd v = v" using without_pri [OF True] by (auto simp: confirmed_def split: sum.split prod.split bool.split)
  show ?thesis unfolding c using True assms(1) by (simp add: check_pri_def)
next
  case False
  show ?thesis
  proof (cases "kn_select k fd")
    case (Inl e)
    then have c: "confirmed k fd v = v AND NOT POLLPRI" "is_OSError e" using assms(2) False by (simp_all add: confirmed_def askable_def)
    show ?thesis unfolding c(1) using Inl c(2) False assms(1)
      by (auto simp: check_pri_def probe_pri Let_def pulse_def upd_watch_def put_watch_def AList.update_conv')
  next
    case (Inr a)
    obtain x y z where a: "a = (x, y, z)" by (cases a)
    have c: "confirmed k fd v = (if z then v else v AND NOT POLLPRI)" using Inr a by (auto simp: confirmed_def split: bool.split)
    have "POLLPRI AND POLLPRI \<noteq> (0 :: int)" by (simp add: POLLPRI_def)
    then show ?thesis unfolding c using Inr a False assms(1) with_pri [OF False] by (simp add: check_pri_def probe_pri Let_def)
  qed
qed

lemma delivery_visible:
  fixes k :: kernel and i :: int
  assumes w: "watch_of t fd = Some w" "r \<in> regs_of w" and g: "\<not> rg_disarmed (tb_regs t r)" "\<not> rg_edge (tb_regs t r)"
    and v: "askable k fd v" "confirmed k fd v AND rg_interest (tb_regs t r) \<noteq> 0"
  defines "t' \<equiv> delivery_callback k fd (wt_generation w) \<lparr>d_index = i, d_value = Some v, d_exception = None, d_more = True\<rparr> t"
  shows "set (tb_woken t') = set (tb_woken t) \<union> set (tb_waiters t)" "tb_waiters t' = []"
    "fst (collect_one t' (fd, r)) = [(fd, (wt_stored w OR confirmed k fd v) AND rg_interest (tb_regs t r), r)]"
proof -
  let ?v = "confirmed k fd v"
  obtain t1 w1 where c: "check_pri k fd v t = (t1, Some ?v)" "watch_of t1 fd = Some w1" "wt_regs w1 = wt_regs w" "wt_stored w1 = wt_stored w"
    "tb_regs t1 = tb_regs t" "set (tb_woken t1) \<union> set (tb_waiters t1) = set (tb_woken t) \<union> set (tb_waiters t)"
    using check_pri_confirms [OF w(1) v(1)] by blast
  let ?stored = "wt_stored w OR ?v" and ?rs = "map snd (wt_regs w)"
  let ?t2 = "upd_regs ?rs (see_bits (?v AND NOT (wt_stored w)) ?stored) (put_watch fd (w1\<lparr>wt_stored := ?stored\<rparr>) t1)"
  have r: "r \<in> set ?rs" using w(2) by (simp add: regs_of_def)
  have g2: "tb_regs ?t2 r = see_bits (?v AND NOT (wt_stored w)) ?stored (tb_regs t r)" using r c(5) by (simp add: upd_regs_def)
  have nz: "?stored AND rg_interest (tb_regs t r) \<noteq> 0"
  proof
    assume "?stored AND rg_interest (tb_regs t r) = 0"
    then have "?v AND rg_interest (tb_regs t r) = 0" by (simp add: bit_eq_iff bit_simps) blast
    then show False using v(2) by simp
  qed
  have vis: "\<exists>r \<in> set ?rs. \<not> rg_disarmed (tb_regs ?t2 r) \<and> visible_bits ?stored (tb_regs ?t2 r) \<noteq> 0"
    by (rule bexI [OF _ r]) (use g nz g2 in \<open>simp add: see_bits_level see_bits_disarmed\<close>)
  have t': "t' = pulse ?t2"
    using w(1) c(1-4) vis by (simp add: t'_def delivery_callback_def on_delivery_def Let_def)
  show "set (tb_woken t') = set (tb_woken t) \<union> set (tb_waiters t)" "tb_waiters t' = []"
    using c(6) by (simp_all add: t' pulse_def upd_regs_def)
  have "watch_of t' fd = Some (w1\<lparr>wt_stored := ?stored\<rparr>)" "tb_regs t' r = see_bits (?v AND NOT (wt_stored w)) ?stored (tb_regs t r)"
    using g2 by (simp_all add: t' pulse_def) (simp add: upd_regs_def)
  then show "fst (collect_one t' (fd, r)) = [(fd, ?stored AND rg_interest (tb_regs t r), r)]"
    using g nz by (simp add: collect_one_def see_bits_level see_bits_disarmed Let_def)
qed

lemma woken_ends:
  assumes "pending specs t \<noteq> None"
  shows "snd (wait_woken k specs m t) \<noteq> WPark"
proof -
  obtain found where f: "pending specs t = Some found" using assms by blast
  obtain t1 out where r: "report k m found t = (t1, out)" by (cases "report k m found t")
  have "is_over out" using report_over [of k m found t] r by simp
  then show ?thesis using f r by (auto simp: wait_woken_def)
qed

lemma collect_unpark: "collect specs (unpark c t) = collect specs t"
proof -
  have "collect_one (unpark c t) sp = collect_one t sp" for sp
    by (cases sp) (simp add: collect_one_def unpark_def split: option.split)
  then show ?thesis by (simp add: collect_def)
qed

text \<open>C16: a call parked on the pulse for a level-triggered registration that is still in place is armed: the
  watch holds a live handle whose mask covers the interest (unless arming this descriptor has raised), and a
  delivery of a wanted bit on that handle makes the call runnable and gives it the descriptor to report.  Any
  delivered value is covered: \<open>POLLPRI\<close> counts as delivered only when \<open>select\<close> confirms it, and the other bits that
  come with it count always.  (With \<open>POLLPRI\<close> in the value, \<open>select\<close> must answer or fail with an \<open>OSError\<close>.)\<close>

theorem delivery_wakes_poll:
  assumes "ry_step\<^sup>*\<^sup>* (ry_init selector) s" and "(c, call) \<in> set (ry_calls s)" and "c \<in> set (tb_waiters (ry_table s))"
    and "(fd, r) \<in> set (rc_specs call)" and "watch_of (ry_table s) fd = Some w" and "r \<in> snd ` set (wt_regs w)"
    and "\<not> rg_disarmed (tb_regs (ry_table s) r)" and "\<not> rg_edge (tb_regs (ry_table s) r)"
    and "fd \<notin> set (tb_failed (ry_table s))" and "confirmed k fd v AND rg_interest (tb_regs (ry_table s) r) \<noteq> 0" and "askable k fd v"
  shows "\<exists>h. wt_handle w = Some h \<and> h \<notin> set (tb_closed (ry_table s)) \<and> rg_interest (tb_regs (ry_table s) r) AND NOT (wt_armed_mask w) = 0
    \<and> (let t' = delivery_callback k (fst (tb_subs (ry_table s) h)) (snd (tb_subs (ry_table s) h))
                  \<lparr>d_index = i, d_value = Some v, d_exception = None, d_more = True\<rparr> (ry_table s)
       in c \<in> set (tb_woken t') \<and> snd (wait_woken k' (rc_specs call) (rc_maxevents call) (unpark c t')) \<noteq> WPark
        \<and> (\<exists>bits. (fd, bits, r) \<in> set (fst (collect (rc_specs call) t')) \<and> confirmed k fd v AND rg_interest (tb_regs (ry_table s) r) AND NOT bits = 0))"
proof -
  let ?t = "ry_table s" and ?g = "tb_regs (ry_table s) r"
  have i: "table_inv (active s) ?t" using ry_reach_inv [OF assms(1)] by (simp add: sys_inv_def)
  have ok: "handles_ok ?t" "cover_ok {} ?t" "armed_ok {} (set (concat (active s))) ?t" using i by (simp_all add: table_inv_def tb_ok_def)
  have r: "r \<in> regs_of w" using assms(6) by (simp add: regs_of_def)
  have z: "(fd, r) \<in> set (concat (active s))" using assms(2,4) by (force simp: active_def)
  have want: "wanted ?t r" using assms(7,10) by (auto simp: wanted_def)
  have "wt_handle w \<noteq> None" using armedD [OF ok(3) z _ assms(5) r want assms(8)] assms(9) by simp
  then obtain h where h: "wt_handle w = Some h" by blast
  note hd = handlesD [OF ok(1) assms(5) h]
  have "within (union_mask ?t w) (wt_armed_mask w)" using coverD [OF ok(2) assms(5)] h by simp
  moreover have "within (rg_interest ?g) (union_mask ?t w)" using r want by (auto simp: within_def bit_union_mask)
  ultimately have cov: "rg_interest ?g AND NOT (wt_armed_mask w) = 0" using within_trans within_iff by blast
  let ?t' = "delivery_callback k fd (wt_generation w) \<lparr>d_index = i, d_value = Some v, d_exception = None, d_more = True\<rparr> ?t"
  note d = delivery_visible [OF assms(5) r assms(7,8,11,10), where i = i]
  let ?bits = "(wt_stored w OR confirmed k fd v) AND rg_interest ?g"
  have col: "(fd, ?bits, r) \<in> set (fst (collect (rc_specs call) ?t'))"
    using assms(4) d(3) by (force simp: collect_def)
  have sub: "confirmed k fd v AND rg_interest ?g AND NOT ?bits = 0" by (auto simp: bit_eq_iff bit_simps)
  have "collect (rc_specs call) (unpark c ?t') = collect (rc_specs call) ?t'" by (rule collect_unpark)
  then have "pending (rc_specs call) (unpark c ?t') \<noteq> None" using col by (auto simp: pending_def split: prod.splits)
  then have "snd (wait_woken k' (rc_specs call) (rc_maxevents call) (unpark c ?t')) \<noteq> WPark"
    by (rule woken_ends)
  then have all: "c \<in> set (tb_woken ?t') \<and> snd (wait_woken k' (rc_specs call) (rc_maxevents call) (unpark c ?t')) \<noteq> WPark
        \<and> (\<exists>bits. (fd, bits, r) \<in> set (fst (collect (rc_specs call) ?t')) \<and> confirmed k fd v AND rg_interest ?g AND NOT bits = 0)"
    using d(1) assms(3) col sub by blast
  have e: "fst (tb_subs ?t h) = fd" "snd (tb_subs ?t h) = wt_generation w" using hd by simp_all
  show ?thesis unfolding Let_def by (rule exI [of _ h]) (use h hd cov all in \<open>simp add: e\<close>)
qed

section \<open>Polling without waiting\<close>

definition SUPPORTED :: int where
  "SUPPORTED = SELECT_READ_MASK OR POLLOUT OR SELECT_EXC_MASK"

text \<open>The bits a descriptor has ready, and what a probe answers for them.\<close>

definition ready_bits :: "kernel \<Rightarrow> int \<Rightarrow> int" where
  "ready_bits k fd =
     (case kn_select k fd of
        Inl e \<Rightarrow> 0
      | Inr (r, w, x) \<Rightarrow> (if r then SELECT_READ_MASK else 0) OR (if w then POLLOUT else 0) OR (if x then SELECT_EXC_MASK else 0))"

lemma probe_supported:
  assumes k: "kn_select k fd = Inr v" and m: "within m SUPPORTED"
  shows "table_probe k fd m t = (t, Inr (Some (m AND ready_bits k fd)))"
proof (cases "m = 0")
  case False
  obtain rr rw rx where v: "v = (rr, rw, rx)" by (cases v)
  let ?res = "(if m AND SELECT_READ_MASK \<noteq> 0 \<and> rr then m AND SELECT_READ_MASK else 0)
     OR (if m AND POLLOUT \<noteq> 0 \<and> rw then m AND POLLOUT else 0) OR (if m AND SELECT_EXC_MASK \<noteq> 0 \<and> rx then m AND SELECT_EXC_MASK else 0)"
  have e: "?res = m AND ready_bits k fd"
    by (simp add: ready_bits_def k v bit.conj_disj_distrib)
  have "m AND SUPPORTED = m" using m by (auto simp: within_def bit_eq_iff bit_simps)
  then have "(m AND SELECT_READ_MASK) OR (m AND POLLOUT) OR (m AND SELECT_EXC_MASK) \<noteq> 0"
    using False by (simp add: SUPPORTED_def bit.conj_disj_distrib)
  then have "m AND SELECT_READ_MASK \<noteq> 0 \<or> m AND POLLOUT \<noteq> 0 \<or> m AND SELECT_EXC_MASK \<noteq> 0" by auto
  then have "probe_poll_fd_now k fd m = (if m AND ready_bits k fd \<noteq> 0 then Inr (m AND ready_bits k fd) else Inl BlockingIOErr)"
    unfolding e [symmetric] by (simp add: probe_poll_fd_now_def k v Let_def)
  then show ?thesis using False by (simp add: table_probe_def)
qed (simp add: table_probe_def)

definition calmed :: "rtable \<Rightarrow> rtable \<Rightarrow> bool" where
  "calmed t t' \<longleftrightarrow> quiet t t' \<and> (\<forall>fd. map_option wt_error (watch_of t' fd) = map_option wt_error (watch_of t fd))
     \<and> (\<forall>r. rg_latched (tb_regs t' r) \<longrightarrow> rg_latched (tb_regs t r)) \<and> (\<forall>r. rg_disarmed (tb_regs t' r) = rg_disarmed (tb_regs t r))"

lemma calmed_refl [simp, intro]: "calmed t t" by (simp add: calmed_def)

lemma calmed_trans [trans]: "calmed t u \<Longrightarrow> calmed u v \<Longrightarrow> calmed t v"
  using quiet_trans unfolding calmed_def by metis

lemma calmed_latch: "calmed t (upd_reg r (\<lambda>g. g\<lparr>rg_latched := False\<rparr>) t)"
  using quiet_upd_reg [of "\<lambda>g. g\<lparr>rg_latched := False\<rparr>" t r] by (simp add: calmed_def) (simp add: upd_reg_def)

lemma calmed_store: "calmed t (store_probed fd m got t)"
  using quiet_store [of t fd m got]
  by (simp add: calmed_def store_probed_def Let_def upd_regs_def split: option.split)

text \<open>A registration that \<open>poll(0)\<close> looks at: level triggered, not one-shot, armed, in place, without a stored error,
  on a descriptor that \<open>select\<close> answers for and all of whose registrations ask only for bits the probe knows.\<close>

definition pollable :: "kernel \<Rightarrow> rtable \<Rightarrow> spec \<Rightarrow> bool" where
  "pollable k t = (\<lambda>(fd, r). \<exists>w v. watch_of t fd = Some w \<and> r \<in> snd ` set (wt_regs w) \<and> wt_error w = None \<and> kn_select k fd = Inr v
     \<and> (\<forall>r' \<in> snd ` set (wt_regs w). rg_interest (tb_regs t r') AND NOT SUPPORTED = 0)
     \<and> \<not> rg_edge (tb_regs t r) \<and> \<not> rg_disarmed (tb_regs t r) \<and> \<not> rg_oneshot (tb_regs t r))"

lemma pollable_iff: "pollable k t (fd, r) \<longleftrightarrow> (\<exists>w v. watch_of t fd = Some w \<and> r \<in> regs_of w \<and> wt_error w = None \<and> kn_select k fd = Inr v
     \<and> (\<forall>r' \<in> regs_of w. rg_interest (tb_regs t r') AND NOT SUPPORTED = 0)
     \<and> \<not> rg_edge (tb_regs t r) \<and> \<not> rg_disarmed (tb_regs t r) \<and> \<not> rg_oneshot (tb_regs t r))"
  by (simp only: pollable_def prod.case regs_of_def)

lemma pollable_calmed:
  assumes c: "calmed t t'" and p: "pollable k t (fd, r)"
  shows "pollable k t' (fd, r)"
proof -
  have q: "quiet t t'" using c by (simp add: calmed_def)
  obtain w v where w: "watch_of t fd = Some w" "r \<in> regs_of w" "wt_error w = None" "kn_select k fd = Inr v"
    "\<forall>r' \<in> regs_of w. rg_interest (tb_regs t r') AND NOT SUPPORTED = 0" "\<not> rg_edge (tb_regs t r)" "\<not> rg_disarmed (tb_regs t r)" "\<not> rg_oneshot (tb_regs t r)"
    using p unfolding pollable_def prod.case regs_of_def by blast
  obtain w' where w': "watch_of t' fd = Some w'" "frame w = frame w'" using quiet_watch_back [OF q w(1)] by blast
  have "wt_error w' = None" using c w(1,3) w'(1) unfolding calmed_def by (metis option.simps(9) option.inject)
  moreover have "regs_of w' = regs_of w" using frame_eqD [OF w'(2)] by simp
  moreover have "\<not> rg_disarmed (tb_regs t' r)" "\<not> rg_edge (tb_regs t' r)" "\<not> rg_oneshot (tb_regs t' r)"
    using c w q by (simp_all add: calmed_def quiet_def)
  moreover have "rg_interest (tb_regs t' r') = rg_interest (tb_regs t r')" for r' using q by (simp add: quiet_def)
  ultimately show ?thesis unfolding pollable_iff by (intro exI [of _ w'] exI [of _ v]) (use w w'(1) in simp)
qed

text \<open>Every stored bit of a level registration of \<open>fd\<close> is ready.\<close>

definition sound :: "kernel \<Rightarrow> rtable \<Rightarrow> int \<Rightarrow> bool" where
  "sound k t fd \<longleftrightarrow> (\<forall>w r. watch_of t fd = Some w \<and> r \<in> regs_of w \<and> \<not> rg_edge (tb_regs t r) \<and> \<not> rg_disarmed (tb_regs t r) \<longrightarrow>
     within (wt_stored w AND rg_interest (tb_regs t r)) (ready_bits k fd))"

lemma bit_level_mask: "bit (level_mask t w) n \<longleftrightarrow>
    (\<exists>r \<in> regs_of w. \<not> rg_edge (tb_regs t r) \<and> \<not> rg_disarmed (tb_regs t r) \<and> bit (wt_stored w) n \<and> bit (rg_interest (tb_regs t r)) n)"
proof -
  have "level_mask t w = fold (\<lambda>(owner, r) m. if \<not> rg_edge (tb_regs t r) \<and> \<not> rg_disarmed (tb_regs t r) then m OR (wt_stored w AND rg_interest (tb_regs t r)) else m) (wt_regs w) 0"
    unfolding level_mask_def by (rule fold_cong) auto
  then show ?thesis
    using bit_fold_or [of "\<lambda>r. \<not> rg_edge (tb_regs t r) \<and> \<not> rg_disarmed (tb_regs t r)" "\<lambda>r. wt_stored w AND rg_interest (tb_regs t r)" "wt_regs w" 0 n]
    by (auto simp: regs_of_def bit_simps)
qed

lemma sound_other:
  assumes c: "calmed t t'" and w: "watch_of t' fd = watch_of t fd" and s: "sound k t fd"
  shows "sound k t' fd"
  using s c unfolding sound_def w calmed_def quiet_def by simp

lemma store_watch: "watch_of (store_probed fd m got t) fd' =
    (if fd' = fd then map_option (\<lambda>w. w\<lparr>wt_stored := (wt_stored w AND NOT m) OR (got AND m)\<rparr>) (watch_of t fd) else watch_of t fd')"
  by (simp add: store_probed_def Let_def upd_regs_def split: option.split)

lemma revalidate_level_now:
  assumes p: "pollable k t (fd, r)" and w: "watch_of t fd = Some w"
  shows "\<exists>t'. revalidate_level k fd w t = (t', None) \<and> calmed t t' \<and> sound k t' fd \<and> (\<forall>fd'. fd' \<noteq> fd \<longrightarrow> watch_of t' fd' = watch_of t fd')"
proof -
  let ?m = "level_mask t w" and ?R = "ready_bits k fd"
  obtain v where v: "kn_select k fd = Inr v" "\<forall>r' \<in> regs_of w. within (rg_interest (tb_regs t r')) SUPPORTED"
    using p w by (auto simp: pollable_def regs_of_def within_iff)
  have sup: "within ?m SUPPORTED" using v(2) by (auto simp: within_def bit_level_mask)
  show ?thesis
  proof (cases "?m = 0")
    case True
    have "sound k t fd" unfolding sound_def
    proof (intro allI impI, elim conjE)
      fix w' r assume h: "watch_of t fd = Some w'" "r \<in> regs_of w'" "\<not> rg_edge (tb_regs t r)" "\<not> rg_disarmed (tb_regs t r)"
      have "\<not> bit ?m n" for n using True by simp
      then show "within (wt_stored w' AND rg_interest (tb_regs t r)) ?R" using h w by (auto simp: within_def bit_level_mask bit_simps)
    qed
    then show ?thesis using True by (auto simp: revalidate_level_def)
  next
    case False
    let ?t = "store_probed fd ?m (?m AND ?R) t"
    have e: "revalidate_level k fd w t = (?t, None)" using False probe_supported [OF v(1) sup] by (simp add: revalidate_level_def Let_def)
    have c: "calmed t ?t" by (rule calmed_store)
    have "sound k ?t fd" unfolding sound_def
    proof (intro allI impI, elim conjE)
      fix w' r assume h: "watch_of ?t fd = Some w'" "r \<in> regs_of w'" "\<not> rg_edge (tb_regs ?t r)" "\<not> rg_disarmed (tb_regs ?t r)"
      have w': "w' = w\<lparr>wt_stored := (wt_stored w AND NOT ?m) OR (?m AND ?R AND ?m)\<rparr>" using h(1) w by (simp add: store_watch and.assoc)
      have q: "rg_edge (tb_regs ?t r) = rg_edge (tb_regs t r)" "rg_interest (tb_regs ?t r) = rg_interest (tb_regs t r)" "rg_disarmed (tb_regs ?t r) = rg_disarmed (tb_regs t r)"
        using c by (simp_all add: calmed_def quiet_def)
      have "r \<in> regs_of w" using h(2) w' by (simp add: regs_of_def)
      then show "within (wt_stored w' AND rg_interest (tb_regs ?t r)) ?R"
        using h(3,4) by (auto simp: within_def w' bit_simps q bit_level_mask)
    qed
    then show ?thesis using e c by (auto simp: store_watch)
  qed
qed

lemma revalidate_now:
  assumes "\<forall>sp \<in> set specs. pollable k t sp" and "distinct (map fst specs)" and "set (map fst specs) \<inter> set seen = {}"
  shows "\<exists>t'. revalidate k seen specs t = (t', None) \<and> calmed t t' \<and> (\<forall>fd. sound k t fd \<longrightarrow> sound k t' fd)
    \<and> (\<forall>(fd, r) \<in> set specs. sound k t' fd \<and> \<not> rg_latched (tb_regs t' r))"
  using assms
proof (induction specs arbitrary: t seen)
  case Nil
  then show ?case by auto
next
  case (Cons sp specs)
  obtain fd r where sp: "sp = (fd, r)" by (cases sp)
  let ?t = "upd_reg r (\<lambda>g. g\<lparr>rg_latched := False\<rparr>) t"
  have c0: "calmed t ?t" by (rule calmed_latch)
  have w0: "watch_of ?t fd' = watch_of t fd'" for fd' by (simp add: upd_reg_def)
  have p0: "pollable k ?t (fd, r)" using pollable_calmed [OF c0] Cons.prems(1) sp by simp
  obtain w where w: "watch_of ?t fd = Some w" using p0 unfolding pollable_def prod.case by blast
  obtain t1 where t1: "revalidate_level k fd w ?t = (t1, None)" "calmed ?t t1" "sound k t1 fd" "\<forall>fd'. fd' \<noteq> fd \<longrightarrow> watch_of t1 fd' = watch_of ?t fd'"
    using revalidate_level_now [OF p0 w] by blast
  have c1: "calmed t t1" by (rule calmed_trans [OF c0 t1(2)])
  have "\<not> rg_edge (tb_regs t1 r)" using pollable_calmed [OF t1(2) p0] unfolding pollable_def prod.case by blast
  then have ed: "revalidate_edge k fd r t1 = (t1, None)" by (simp add: revalidate_edge_def)
  have p1: "\<forall>sp \<in> set specs. pollable k t1 sp" using pollable_calmed [OF c1] Cons.prems(1) by auto
  have fds: "distinct (map fst specs)" "set (map fst specs) \<inter> set (fd # seen) = {}" "fd \<notin> set seen"
    using Cons.prems(2,3) by (auto simp: sp)
  obtain t2 where t2: "revalidate k (fd # seen) specs t1 = (t2, None)" "calmed t1 t2" "\<forall>fd. sound k t1 fd \<longrightarrow> sound k t2 fd"
    "\<forall>(fd, r) \<in> set specs. sound k t2 fd \<and> \<not> rg_latched (tb_regs t2 r)" using Cons.IH [OF p1 fds(1,2)] by blast
  have e: "revalidate k seen (sp # specs) t = (t2, None)" using w t1(1) ed t2(1) fds(3) by (simp add: sp Let_def then_do_def)
  have s1: "sound k t1 fd'" if "sound k t fd'" for fd'
    using sound_other [OF c1 _ that] t1(3,4) w0 by (cases "fd' = fd") simp_all
  have "\<not> rg_latched (tb_regs ?t r)" by (simp add: upd_reg_def)
  then have "\<not> rg_latched (tb_regs t2 r)" using calmed_trans [OF t1(2) t2(2)] unfolding calmed_def by blast
  then show ?case using e calmed_trans [OF c1 t2(2)] s1 t2(3,4) t1(3) by (auto simp: sp)
qed

text \<open>The stored bits of a pollable registration.\<close>

definition stored_for :: "rtable \<Rightarrow> spec \<Rightarrow> int" where
  "stored_for t = (\<lambda>(fd, r). case watch_of t fd of None \<Rightarrow> 0 | Some w \<Rightarrow> wt_stored w AND rg_interest (tb_regs t r))"

lemma collect_pollable:
  assumes "\<forall>sp \<in> set specs. pollable k t sp"
  shows "collect specs t = (map (\<lambda>(fd, r). (fd, stored_for t (fd, r), r)) (filter (\<lambda>sp. stored_for t sp \<noteq> 0) specs), [])"
proof -
  have one: "collect_one t (fd, r) = (if stored_for t (fd, r) \<noteq> 0 then [(fd, stored_for t (fd, r), r)] else [], [])" if h: "pollable k t (fd, r)" for fd r
  proof -
    obtain w where w: "watch_of t fd = Some w" "wt_error w = None" "\<not> rg_edge (tb_regs t r)" "\<not> rg_disarmed (tb_regs t r)"
      using h unfolding pollable_def prod.case by blast
    then show ?thesis by (simp add: collect_one_def stored_for_def visible_bits_def Let_def)
  qed
  have "concat (map (\<lambda>s. fst (collect_one t s)) specs) = map (\<lambda>(fd, r). (fd, stored_for t (fd, r), r)) (filter (\<lambda>sp. stored_for t sp \<noteq> 0) specs)
     \<and> concat (map (\<lambda>s. snd (collect_one t s)) specs) = []"
    using assms one by (induction specs) auto
  then show ?thesis by (simp add: collect_def)
qed

lemma commit_plain:
  assumes "\<forall>(fd, bits, r) \<in> set ready. \<not> rg_oneshot (tb_regs t r)"
  shows "snd (commit k ready t) = Inr (map (\<lambda>(fd, bits, r). (fd, bits)) ready)"
proof -
  let ?t = "fold (\<lambda>(fd, bits, r). upd_reg r (mark_reported bits)) ready t"
  have "quiet t ?t" by (rule fold_inv [where P = "quiet t"]) (auto intro: quiet_trans [OF _ quiet_upd_reg])
  then have os: "\<forall>(fd, bits, r) \<in> set ready. \<not> rg_oneshot (tb_regs ?t r)" using assms by (auto simp: quiet_def)
  have "for_each (rearm_oneshot k) xs ?t = (?t, None)" if "set xs \<subseteq> set ready" for xs
    using that os by (induction xs) (auto simp: rearm_oneshot_def then_do_def split: prod.splits)
  then show ?thesis by (simp add: commit_def Let_def)
qed

lemma report_plain:
  assumes "\<forall>sp \<in> set specs. pollable k t sp"
  shows "snd (report k None (collect specs t) t) = WRet (map (\<lambda>(fd, r). (fd, stored_for t (fd, r))) (filter (\<lambda>sp. stored_for t sp \<noteq> 0) specs))"
proof -
  let ?l = "map (\<lambda>(fd, r). (fd, stored_for t (fd, r), r)) (filter (\<lambda>sp. stored_for t sp \<noteq> 0) specs)"
  have c: "collect specs t = (?l, [])" by (rule collect_pollable [OF assms])
  have "\<forall>(fd, bits, r) \<in> set ?l. \<not> rg_oneshot (tb_regs t r)" using assms by (auto simp: pollable_def)
  from commit_plain [OF this, of k] have "snd (commit k ?l t) = Inr (map (\<lambda>(fd, r). (fd, stored_for t (fd, r))) (filter (\<lambda>sp. stored_for t sp \<noteq> 0) specs))"
    by (simp add: comp_def case_prod_beta)
  then show ?thesis by (cases "commit k ?l t") (auto simp: report_def c cap_def)
qed

lemma probe_empty_now:
  assumes "\<forall>sp \<in> set specs. pollable k t sp \<and> stored_for t sp = 0 \<and> \<not> rg_latched (tb_regs t (snd sp))" and "distinct (map fst specs)"
  shows "\<exists>t'. for_each (probe_one k) specs t = (t', None) \<and> calmed t t' \<and> (\<forall>fd. fd \<notin> fst ` set specs \<longrightarrow> watch_of t' fd = watch_of t fd)
    \<and> (\<forall>(fd, r) \<in> set specs. stored_for t' (fd, r) = rg_interest (tb_regs t r) AND ready_bits k fd)"
  using assms
proof (induction specs arbitrary: t)
  case Nil
  then show ?case by auto
next
  case (Cons sp specs)
  obtain fd r where sp: "sp = (fd, r)" by (cases sp)
  have p: "pollable k t (fd, r)" "stored_for t (fd, r) = 0" "\<not> rg_latched (tb_regs t r)" using Cons.prems(1) sp by auto
  obtain w v where w: "watch_of t fd = Some w" "r \<in> regs_of w" "kn_select k fd = Inr v" "within (rg_interest (tb_regs t r)) SUPPORTED"
    "\<not> rg_edge (tb_regs t r)" "\<not> rg_disarmed (tb_regs t r)"
    using p(1) unfolding pollable_def prod.case regs_of_def within_iff by blast
  let ?i = "rg_interest (tb_regs t r)" and ?R = "ready_bits k fd"
  let ?t = "if ?i = 0 then t else store_probed fd ?i (?i AND ?R) t"
  have e: "probe_one k (fd, r) t = (?t, None)"
    using p w probe_supported [OF w(3,4)] by (simp add: probe_one_def Let_def stored_for_def)
  have c1: "calmed t ?t" using calmed_store by simp
  have ow: "watch_of ?t fd' = watch_of t fd'" if "fd' \<noteq> fd" for fd' using that by (simp add: store_watch)
  have int: "rg_interest (tb_regs ?t r') = rg_interest (tb_regs t r')" for r' using c1 by (simp add: calmed_def quiet_def)
  have st: "stored_for ?t (fd, r) = ?i AND ?R"
  proof (cases "?i = 0")
    case True
    then show ?thesis using w by (simp add: stored_for_def)
  next
    case False
    then have "watch_of ?t fd = Some (w\<lparr>wt_stored := (wt_stored w AND NOT ?i) OR (?i AND ?R AND ?i)\<rparr>)" using w(1) by (simp add: store_watch and.assoc)
    then show ?thesis unfolding stored_for_def prod.case int by (auto simp: bit_eq_iff bit_simps)
  qed
  have fdn: "fd \<notin> fst ` set specs" using Cons.prems(2) by (simp add: sp)
  have "pollable k ?t sp' \<and> stored_for ?t sp' = 0 \<and> \<not> rg_latched (tb_regs ?t (snd sp'))" if "sp' \<in> set specs" for sp'
  proof -
    obtain fd' r' where sp': "sp' = (fd', r')" by (cases sp')
    have h: "pollable k t (fd', r')" "stored_for t (fd', r') = 0" "\<not> rg_latched (tb_regs t r')" using Cons.prems(1) that sp' by auto
    have "fd' \<noteq> fd" using fdn that sp' by force
    then have "stored_for ?t (fd', r') = 0" using h(2) ow [of fd'] unfolding stored_for_def prod.case int by simp
    moreover have "\<not> rg_latched (tb_regs ?t r')" using c1 h(3) unfolding calmed_def by blast
    ultimately show ?thesis using pollable_calmed [OF c1 h(1)] sp' by simp
  qed
  then obtain t2 where t2: "for_each (probe_one k) specs ?t = (t2, None)" "calmed ?t t2" "\<forall>fd. fd \<notin> fst ` set specs \<longrightarrow> watch_of t2 fd = watch_of ?t fd"
    "\<forall>(fd, r) \<in> set specs. stored_for t2 (fd, r) = rg_interest (tb_regs ?t r) AND ready_bits k fd"
    using Cons.IH [of ?t] Cons.prems(2) by auto
  have int2: "rg_interest (tb_regs t2 r') = rg_interest (tb_regs ?t r')" for r' using t2(2) by (simp add: calmed_def quiet_def)
  have "stored_for t2 (fd, r) = ?i AND ?R" using st t2(3) fdn unfolding stored_for_def prod.case int2 by simp
  moreover have "for_each (probe_one k) (sp # specs) t = (t2, None)" unfolding for_each.simps sp e then_do_def using t2(1) by simp
  ultimately show ?case using calmed_trans [OF c1 t2(2)] t2(3,4) ow int by (auto simp: sp)
qed

lemma poll_now_inner:
  assumes p: "\<forall>sp \<in> set specs. pollable k t sp" and d: "distinct (map fst specs)"
  shows "\<exists>out. snd (inner_wait k specs (Some 0) None t) = WRet out
    \<and> (\<forall>(fd, bits) \<in> set out. bits \<noteq> 0 \<and> (\<exists>r. (fd, r) \<in> set specs \<and> within bits (rg_interest (tb_regs t r) AND ready_bits k fd)))
    \<and> (out = [] \<longleftrightarrow> (\<forall>(fd, r) \<in> set specs. rg_interest (tb_regs t r) AND ready_bits k fd = 0))"
proof -
  obtain t1 where t1: "revalidate k [] specs t = (t1, None)" "calmed t t1" "\<forall>(fd, r) \<in> set specs. sound k t1 fd \<and> \<not> rg_latched (tb_regs t1 r)"
    using revalidate_now [OF p d, of "[]"] by auto
  have p1: "\<forall>sp \<in> set specs. pollable k t1 sp" using pollable_calmed [OF t1(2)] p by auto
  have int: "rg_interest (tb_regs t1 r) = rg_interest (tb_regs t r)" for r using t1(2) by (simp add: calmed_def quiet_def)
  let ?out = "\<lambda>u. map (\<lambda>(fd, r). (fd, stored_for u (fd, r))) (filter (\<lambda>sp. stored_for u sp \<noteq> 0) specs)"
  have sub: "within (stored_for t1 (fd, r)) (rg_interest (tb_regs t r) AND ready_bits k fd)" if h: "(fd, r) \<in> set specs" for fd r
  proof -
    obtain w where w: "watch_of t1 fd = Some w" "r \<in> regs_of w" "\<not> rg_edge (tb_regs t1 r)" "\<not> rg_disarmed (tb_regs t1 r)"
      using p1 h pollable_iff by blast
    have "within (wt_stored w AND rg_interest (tb_regs t1 r)) (ready_bits k fd)" using t1(3) h w unfolding sound_def by blast
    then show ?thesis using w(1) by (auto simp: stored_for_def within_def bit_simps int)
  qed
  show ?thesis
  proof (cases "filter (\<lambda>sp. stored_for t1 sp \<noteq> 0) specs = []")
    case False
    then have "snd (inner_wait k specs (Some 0) None t) = WRet (?out t1)"
      using t1(1) report_plain [OF p1] collect_pollable [OF p1] by (simp add: inner_wait_def)
    moreover have "?out t1 \<noteq> []" using False by simp
    moreover obtain fd r where "(fd, r) \<in> set specs" "stored_for t1 (fd, r) \<noteq> 0" using False by (auto simp: filter_empty_conv)
    then have "rg_interest (tb_regs t r) AND ready_bits k fd \<noteq> 0" using sub [of fd r] by (auto simp: within_def bit_eq_iff)
    moreover have "\<forall>(fd, bits) \<in> set (?out t1). bits \<noteq> 0 \<and> (\<exists>r. (fd, r) \<in> set specs \<and> within bits (rg_interest (tb_regs t r) AND ready_bits k fd))"
      using sub by auto
    ultimately show ?thesis using \<open>(fd, r) \<in> set specs\<close> by blast
  next
    case True
    have pre: "\<forall>sp \<in> set specs. pollable k t1 sp \<and> stored_for t1 sp = 0 \<and> \<not> rg_latched (tb_regs t1 (snd sp))"
      using True p1 t1(3) by (auto simp: filter_empty_conv)
    obtain t2 where t2: "for_each (probe_one k) specs t1 = (t2, None)" "calmed t1 t2"
      "\<forall>(fd, r) \<in> set specs. stored_for t2 (fd, r) = rg_interest (tb_regs t1 r) AND ready_bits k fd"
      using probe_empty_now [OF pre d] by blast
    have p2: "\<forall>sp \<in> set specs. pollable k t2 sp" using pollable_calmed [OF t2(2)] p1 by auto
    have "snd (inner_wait k specs (Some 0) None t) = WRet (?out t2)"
      using t1(1) True t2(1) report_plain [OF p2] collect_pollable [OF p1] by (simp add: inner_wait_def probe_empty_def)
    moreover have st: "stored_for t2 (fd, r) = rg_interest (tb_regs t r) AND ready_bits k fd" if "(fd, r) \<in> set specs" for fd r
      using t2(3) that int by auto
    moreover have "?out t2 = [] \<longleftrightarrow> (\<forall>(fd, r) \<in> set specs. rg_interest (tb_regs t r) AND ready_bits k fd = 0)"
      using st by (auto simp: filter_empty_conv)
    moreover have "\<forall>(fd, bits) \<in> set (?out t2). bits \<noteq> 0 \<and> (\<exists>r. (fd, r) \<in> set specs \<and> within bits (rg_interest (tb_regs t r) AND ready_bits k fd))"
      using st by auto
    ultimately show ?thesis by blast
  qed
qed

text \<open>C18: \<open>poll(0)\<close> over distinct descriptors whose registrations are level-triggered, not one-shot, armed and in
  place, which \<open>select\<close> answers for, for which no error is stored from before, and all of whose registrations ask
  only for bits that \<open>select\<close> can report: it returns at once, every descriptor it reports has the reported bits ready
  now and asked for, and it reports nothing exactly when no descriptor has a bit ready that it was asked for.
  (A stored error is raised instead, see \<open>watch_error_sticks\<close>.)\<close>

theorem poll_now_exact:
  assumes "\<forall>sp \<in> set specs. pollable k t sp" and "distinct (map fst specs)"
  shows "\<exists>t' out. table_wait k specs (Some 0) None t = (t', WRet out)
    \<and> (\<forall>(fd, bits) \<in> set out. bits \<noteq> 0 \<and> (\<exists>r. (fd, r) \<in> set specs \<and> bits AND NOT (rg_interest (tb_regs t r) AND ready_bits k fd) = 0))
    \<and> (out = [] \<longleftrightarrow> (\<forall>(fd, r) \<in> set specs. rg_interest (tb_regs t r) AND ready_bits k fd = 0))"
proof (cases "specs = []")
  case True
  then show ?thesis by (simp add: table_wait_def wait_empty_def)
next
  case False
  let ?u = "wait_enter specs t"
  have e: "tb_regs ?u = tb_regs t" "tb_watches ?u = tb_watches t" by (subst wait_enter_fields(2), simp)+
  then have "\<forall>sp \<in> set specs. pollable k ?u sp" using assms(1) unfolding pollable_def by simp
  from poll_now_inner [OF this assms(2)] obtain out where o: "snd (inner_wait k specs (Some 0) None ?u) = WRet out"
    "\<forall>(fd, bits) \<in> set out. bits \<noteq> 0 \<and> (\<exists>r. (fd, r) \<in> set specs \<and> within bits (rg_interest (tb_regs t r) AND ready_bits k fd))"
    "out = [] \<longleftrightarrow> (\<forall>(fd, r) \<in> set specs. rg_interest (tb_regs t r) AND ready_bits k fd = 0)" unfolding e by blast
  obtain t1 where "inner_wait k specs (Some 0) None ?u = (t1, WRet out)" using o(1) by (cases "inner_wait k specs (Some 0) None ?u") simp
  then have "table_wait k specs (Some 0) None t = (wait_finally specs t1, WRet out)" using False by (simp add: table_wait_def)
  then show ?thesis using o(2,3) unfolding within_iff by blast
qed

section \<open>Runs\<close>

text \<open>A kernel that makes no delivery of its own and answers every probe alike.\<close>

definition still :: "bool \<Rightarrow> kernel" where
  "still readable = \<lparr>kn_select = (\<lambda>fd. Inr (readable, False, False)), kn_arm = (\<lambda>fd m. ([], None))\<rparr>"

definition obj_of :: "nat \<Rightarrow> rsys \<Rightarrow> pobj" where
  "obj_of self s = (case ry_objs s self of None \<Rightarrow> pobj_init False | Some p \<Rightarrow> p)"

definition run_new :: "bool \<Rightarrow> rsys \<Rightarrow> rsys" where
  "run_new epoll s = s\<lparr>ry_objs := (ry_objs s)(ry_next s \<mapsto> pobj_init epoll), ry_next := Suc (ry_next s)\<rparr>"

definition run_register :: "kernel \<Rightarrow> nat \<Rightarrow> int \<Rightarrow> int \<Rightarrow> rsys \<Rightarrow> rsys" where
  "run_register k self fd m s =
     put_obj self ((if po_epoll (obj_of self s) then epoll_register else poll_register) k self fd (Some m) (obj_of self s) (ry_table s)) s"

definition run_poll :: "kernel \<Rightarrow> nat \<Rightarrow> int option \<Rightarrow> rsys \<Rightarrow> rsys" where
  "run_poll k self tmo s =
     (let p = obj_of self s in
      case (if po_epoll p then epoll_poll k tmo (-1) p (ry_table s) else poll_poll k tmo p (ry_table s)) of
        (p', t', out) \<Rightarrow> begin_call (po_regs p) (millis_to_seconds tmo) (if po_epoll p then Some (-1) else None) None (t', out) (s\<lparr>ry_objs := (ry_objs s)(self \<mapsto> p')\<rparr>))"

lemma run_steps:
  "ry_step s (run_new epoll s)"
  "ry_objs s self \<noteq> None \<Longrightarrow> ry_step s (run_register k self fd m s)"
  "ry_objs s self \<noteq> None \<Longrightarrow> ry_step s (run_poll k self tmo s)"
proof -
  show "ry_step s (run_new epoll s)" unfolding run_new_def by (rule ry_step.new_object)
  assume "ry_objs s self \<noteq> None"
  then have p: "ry_objs s self = Some (obj_of self s)" by (auto simp: obj_of_def)
  show "ry_step s (run_register k self fd m s)" unfolding run_register_def by (rule ry_step.register [OF p])
  let ?p = "obj_of self s"
  show "ry_step s (run_poll k self tmo s)"
  proof (cases "po_epoll ?p")
    case True
    obtain p' t' out where e: "epoll_poll k tmo (-1) ?p (ry_table s) = (p', t', out)" by (metis prod_cases3)
    show ?thesis using ry_step.call_epoll [OF p True e] True e by (simp add: run_poll_def Let_def)
  next
    case False
    obtain p' t' out where e: "poll_poll k tmo ?p (ry_table s) = (p', t', out)" by (metis prod_cases3)
    show ?thesis using ry_step.call_poll [OF p False e] False e by (simp add: run_poll_def Let_def)
  qed
qed

text \<open>On the selector, a \<open>Poll\<close> object with descriptor 5 for reading, and a call parked on it.\<close>

definition demo_registered :: rsys where
  "demo_registered = run_register (still False) 0 5 1 (run_new False (ry_init True))"

definition demo_parked :: rsys where
  "demo_parked = run_poll (still False) 0 None demo_registered"

lemma demo_parked_reach: "ry_step\<^sup>*\<^sup>* (ry_init True) demo_parked"
proof -
  note c = converse_rtranclp_into_rtranclp [of ry_step]
  have "ry_objs (run_new False (ry_init True)) 0 \<noteq> None" by (simp add: run_new_def ry_init_def)
  note s2 = run_steps(2) [OF this, of "still False" 5 1, folded demo_registered_def]
  have "ry_objs demo_registered 0 \<noteq> None" by (simp add: demo_registered_def run_register_def put_obj_def split: prod.split)
  note s3 = run_steps(3) [OF this, of "still False" None, folded demo_parked_def]
  show ?thesis by (rule c [OF run_steps(1) c [OF s2 r_into_rtranclp [of ry_step, OF s3]]])
qed

lemma demo_parked_eval:
  "map fst (ry_calls demo_parked) = [0]" "map (rc_specs \<circ> snd) (ry_calls demo_parked) = [[(5, 0)]]"
  "tb_waiters (ry_table demo_parked) = [0]" "map fst (tb_watches (ry_table demo_parked)) = [5]"
  "map (wt_regs \<circ> snd) (tb_watches (ry_table demo_parked)) = [[(0, 0)]]" "map (wt_handle \<circ> snd) (tb_watches (ry_table demo_parked)) = [Some 1]"
  "\<not> rg_disarmed (tb_regs (ry_table demo_parked) 0)" "\<not> rg_edge (tb_regs (ry_table demo_parked) 0)"
  "rg_interest (tb_regs (ry_table demo_parked) 0) = 1" "tb_failed (ry_table demo_parked) = []" "tb_closed (ry_table demo_parked) = [0]" "tb_selector (ry_table demo_parked)"
  by code_simp+

theorem polling_slots_witness:
  "tb_selector (ry_table demo_parked) \<and> tb_closed (ry_table demo_parked) = [0]
    \<and> (\<exists>c call r. (c, call) \<in> set (ry_calls demo_parked) \<and> (5, r) \<in> set (rc_specs call))"
proof -
  obtain w where w: "tb_watches (ry_table demo_parked) = [(5, w)]" "wt_handle w = Some 1"
    using demo_parked_eval(4,6) by (cases "tb_watches (ry_table demo_parked)") auto
  have "watch_of (ry_table demo_parked) 5 = Some w \<and> wt_handle w \<noteq> None" using w by simp
  then show ?thesis using polling_slots [OF demo_parked_reach] demo_parked_eval(11,12) by blast
qed

theorem delivery_wakes_poll_witness:
  "\<exists>call w h. (0, call) \<in> set (ry_calls demo_parked) \<and> watch_of (ry_table demo_parked) 5 = Some w \<and> wt_handle w = Some h
    \<and> 0 \<in> set (tb_woken (delivery_callback (still True) (fst (tb_subs (ry_table demo_parked) h)) (snd (tb_subs (ry_table demo_parked) h))
        \<lparr>d_index = 0, d_value = Some 3, d_exception = None, d_more = True\<rparr> (ry_table demo_parked)))"
proof -
  obtain w where w: "tb_watches (ry_table demo_parked) = [(5, w)]" "wt_regs w = [(0, 0)]"
    using demo_parked_eval(4,5) by (cases "tb_watches (ry_table demo_parked)") auto
  obtain call where c: "ry_calls demo_parked = [(0, call)]" "rc_specs call = [(5, 0)]"
    using demo_parked_eval(1,2) by (cases "ry_calls demo_parked") auto
  note e = demo_parked_eval
  have 1: "(0, call) \<in> set (ry_calls demo_parked)" "0 \<in> set (tb_waiters (ry_table demo_parked))" "(5, 0) \<in> set (rc_specs call)"
    "watch_of (ry_table demo_parked) 5 = Some w" "0 \<in> snd ` set (wt_regs w)" using c w e(3) by simp_all
  have 2: "5 \<notin> set (tb_failed (ry_table demo_parked))" "confirmed (still True) 5 3 AND rg_interest (tb_regs (ry_table demo_parked) 0) \<noteq> 0"
    "askable (still True) 5 3"
    using e(9,10) by (simp_all add: confirmed_def askable_def still_def POLLPRI_def)
  show ?thesis using delivery_wakes_poll [OF demo_parked_reach 1 e(7,8) 2, of 0 "still True"] 1(1,4) unfolding Let_def by blast
qed

theorem poll_now_exact_witness:
  "\<exists>t' out. table_wait (still True) [(5, 0)] (Some 0) None (ry_table demo_registered) = (t', WRet out) \<and> out \<noteq> []"
proof -
  have e: "map fst (tb_watches (ry_table demo_registered)) = [5]" "map (wt_regs \<circ> snd) (tb_watches (ry_table demo_registered)) = [[(0, 0)]]"
    "map (wt_error \<circ> snd) (tb_watches (ry_table demo_registered)) = [None]" "\<not> rg_disarmed (tb_regs (ry_table demo_registered) 0)"
    "\<not> rg_edge (tb_regs (ry_table demo_registered) 0)" "\<not> rg_oneshot (tb_regs (ry_table demo_registered) 0)"
    "rg_interest (tb_regs (ry_table demo_registered) 0) = 1" "1 AND NOT SUPPORTED = 0" "1 AND ready_bits (still True) 5 \<noteq> 0"
    by code_simp+
  obtain w where w: "tb_watches (ry_table demo_registered) = [(5, w)]" "wt_regs w = [(0, 0)]" "wt_error w = None"
    using e(1-3) by (cases "tb_watches (ry_table demo_registered)") auto
  have "\<forall>sp \<in> set [(5, 0)]. pollable (still True) (ry_table demo_registered) sp"
    using w e by (auto simp: pollable_def still_def)
  from poll_now_exact [OF this] obtain t' out where
    "table_wait (still True) [(5, 0)] (Some 0) None (ry_table demo_registered) = (t', WRet out)" "out = [] \<longleftrightarrow> 1 AND ready_bits (still True) 5 = 0"
    using e(7) by auto
  then show ?thesis using e(9) by blast
qed

section \<open>Departures from the documentation\<close>

text \<open>An edge-triggered \<open>Epoll\<close> on the selector: the readable descriptor is reported; it is drained, and new data
  arrives before the next call.  That call parks, and no descriptor is armed: nothing will wake it.\<close>

definition edge_parked :: rsys where
  "edge_parked = run_poll (still True) 0 None
     (run_poll (still True) 0 (Some 0) (run_register (still True) 0 5 (1 OR EPOLLET) (run_new True (ry_init True))))"

theorem edge_parks_unarmed:
  "map fst (ry_calls edge_parked) = [0]" "tb_waiters (ry_table edge_parked) = [0]" "tb_woken (ry_table edge_parked) = []"
  "map (wt_handle \<circ> snd) (tb_watches (ry_table edge_parked)) = [None]" "ready_bits (still True) 5 AND 1 = 1"
  by code_simp+

text \<open>An error stored for a descriptor is never cleared: a later \<open>poll(0)\<close> on a descriptor that is fine and not
  ready raises it again.\<close>

definition failing :: kernel where
  "failing = \<lparr>kn_select = (\<lambda>fd. Inl (OSErr 9)), kn_arm = (\<lambda>fd m. ([], None))\<rparr>"

theorem watch_error_sticks:
  "snd (table_wait failing [(5, 0)] (Some 0) None (ry_table demo_registered)) = WRaise (OSErr 9)"
  "snd (table_wait (still False) [(5, 0)] (Some 0) None (fst (table_wait failing [(5, 0)] (Some 0) None (ry_table demo_registered)))) = WRaise (OSErr 9)"
  by code_simp+

text \<open>\<open>select\<close> registers outside its \<open>try\<close>: when arming one descriptor raises, the registration stays in the table
  although the call is over.\<close>

definition busy_slot :: kernel where
  "busy_slot = \<lparr>kn_select = (\<lambda>fd. Inr (False, False, False)), kn_arm = (\<lambda>fd m. ([], if fd = 6 then Some RuntimeErr else None))\<rparr>"

theorem select_error_leaks:
  "(case select_call busy_slot 0 [(0, 5), (1, 6)] [] [] (Some 0) (table_init False) of
      (t, out, specs) \<Rightarrow> (out, map (\<lambda>(fd, w). (fd, wt_regs w, wt_handle w)) (tb_watches t)))
   = (WRaise RuntimeErr, [(5, [(0, 0)], Some 0), (6, [(0, 1)], None)])"
  by code_simp

text \<open>The generation guard restarts with a new watch: a delivery of the closed handle of an earlier
  registration is taken for one of the new registration.\<close>

definition reregistered :: rsys where
  "reregistered = run_register (still False) 0 5 1
     (put_obj 0 (obj_unregister (still False) 0 5 (obj_of 0 (run_register (still False) 0 5 1 (run_new False (ry_init False))))
        (ry_table (run_register (still False) 0 5 1 (run_new False (ry_init False)))))
        (run_register (still False) 0 5 1 (run_new False (ry_init False))))"

theorem stale_delivery_accepted:
  "tb_closed (ry_table reregistered) = [0]" "tb_subs (ry_table reregistered) 0 = (5, 0)"
  "map (wt_stored \<circ> snd) (tb_watches (delivery_callback (still False) 5 0 \<lparr>d_index = 0, d_value = Some 1, d_exception = None, d_more = True\<rparr> (ry_table reregistered))) = [1]"
  by code_simp+

end
