(* ===== verification/Selector_Proactor.thy ===== *)
theory Selector_Proactor
  imports Readiness
begin

unbundle bit_operations_syntax

text \<open>
  The selector proactor of \<open>tealetio/proactor.py\<close> (\<open>SelectorProactor\<close>): one operation per descriptor and
  direction, tried at once and parked in a slot when it would block, a queue of write-side operations behind
  the one in flight, and the registration of the slots with a selector.

  User callbacks run inside the calls of the proactor and may call it again, so the control stack is
  explicit: a frame is the rest of a Python function after a call that can run user code, \<open>CUser\<close> is user
  code running (at top level, in a callback, or on another thread while \<open>select\<close> has released the lock),
  \<open>CRun\<close> the proactor's code and \<open>CExc\<close> an exception on its way up.  \<open>K\<close> is the kernel: what the n-th system
  call answers.  A handle is a number into a store; \<open>op_tk\<close> and \<open>qw_tk\<close> number the submissions, and the log, the
  list of rejected handles and the flags \<open>sp_regfail\<close> and \<open>sp_cbraise\<close> record what has happened: nothing of the
  proactor reads them.

  The lock is held by every segment, \<open>InterruptedError\<close> answers as \<open>BlockingIOError\<close> does (the source catches
  both together), the wake-up pipe and the buffer pool are left out, and a \<open>_poll\<close> that finds nothing to do
  returns and is called again.
\<close>

section \<open>Data\<close>

datatype pval = VNone | VInt nat | VData nat | VMask int | VReady bool bool bool

datatype kans = KBlock | KFail int | KRet pval

type_synonym knl = "nat \<Rightarrow> kans"

datatype opkind = Recv | RecvInto | Recvfrom | RecvfromInto | SendAll | Send | Sendto | Accept | Connect | PollOp | AcceptMany | RecvMany | PollMany

text \<open>Callbacks: the user's own, the wrapper of \<open>send_nowait\<close> that forwards failures only, and the one that
  reports failures to the delivery exception handler.\<close>

datatype pcb = CbUser nat | CbFail nat | CbReport

record oph =
  op_kind :: opkind
  op_sock :: nat
  op_fd :: int
  op_mask :: int
  op_cb :: pcb
  op_done :: bool
  op_view :: "nat list"
  op_off :: nat
  op_started :: bool
  op_next :: int
  op_tk :: nat

datatype wrun = RStart nat | RShutdown nat nat | RShutdownNw nat | RClose nat nat | RCloseNw nat

record qwrite =
  qw_run :: wrun
  qw_handle :: "nat option"
  qw_tk :: nat

record fdentry =
  en_id :: nat
  en_reader :: "nat option"
  en_writer :: "nat option"
  en_queue :: "qwrite list"

datatype reply = RpCb nat | RpNowait

datatype frame =
    FUser
  | FTry "nat option"
  | FDrain int nat
  | FRemoved int
  | FFinish nat "pyexn + pval"
  | FTerm nat pyexn
  | FStepped int nat bool bool int
  | FUpdate int
  | FStop nat reply
  | FReply reply "pyexn option"
  | FCloseNw nat
  | FSelect
  | FEvents "(int \<times> bool \<times> bool) list"
  | FStepWrite int

datatype ctrl = CUser | CRun | CExc pyexn

datatype pev =
    EvSend nat nat "nat list"
  | EvShut nat nat
  | EvClose nat nat
  | EvFin nat "pyexn + pval"
  | EvDel nat "pval delivery"
  | EvCall nat "pyexn + pval"
  | EvReport pyexn
  | EvRaise pyexn

record sproac =
  sp_closed :: bool
  sp_slots :: "(int \<times> fdentry) list"
  sp_reg :: "int \<Rightarrow> (bool \<times> bool) option"
  sp_h :: "nat \<Rightarrow> oph"
  sp_nh :: nat
  sp_fd :: "nat \<Rightarrow> int"
  sp_blk :: "nat \<Rightarrow> bool"
  sp_ns :: nat
  sp_handler :: bool
  sp_tk :: nat
  sp_eid :: nat
  sp_kn :: nat
  sp_log :: "pev list"
  sp_stk :: "frame list"
  sp_ctl :: ctrl
  sp_rej :: "nat list"
  sp_regfail :: bool
  sp_cbraise :: bool

definition dead_op :: oph where
  "dead_op = \<lparr>op_kind = Recv, op_sock = 0, op_fd = -1, op_mask = 0, op_cb = CbReport, op_done = True, op_view = [], op_off = 0,
     op_started = False, op_next = 0, op_tk = 0\<rparr>"

definition sp_init :: "bool \<Rightarrow> sproac" where
  "sp_init handler = \<lparr>sp_closed = False, sp_slots = [], sp_reg = (\<lambda>_. None), sp_h = (\<lambda>_. dead_op), sp_nh = 0, sp_fd = (\<lambda>_. -1),
     sp_blk = (\<lambda>_. False), sp_ns = 0, sp_handler = handler, sp_tk = 0, sp_eid = 0, sp_kn = 0, sp_log = [], sp_stk = [], sp_ctl = CUser,
     sp_rej = [], sp_regfail = False, sp_cbraise = False\<rparr>"

fun is_stream :: "opkind \<Rightarrow> bool" where
  "is_stream AcceptMany = True"
| "is_stream RecvMany = True"
| "is_stream PollMany = True"
| "is_stream _ = False"

text \<open>The direction each socket operation passes to \<open>_prepare_socket_operation\<close>: \<open>EVENT_READ\<close>?\<close>

fun reads :: "opkind \<Rightarrow> bool" where
  "reads SendAll = False"
| "reads Send = False"
| "reads Sendto = False"
| "reads Connect = False"
| "reads _ = True"

definition EBADF :: int where "EBADF = 9"
definition ENOBUFS :: int where "ENOBUFS = 105"

abbreviation push :: "frame list \<Rightarrow> sproac \<Rightarrow> sproac" where
  "push fs st \<equiv> st\<lparr>sp_stk := fs @ sp_stk st\<rparr>"

abbreviation logs :: "pev list \<Rightarrow> sproac \<Rightarrow> sproac" where
  "logs es st \<equiv> st\<lparr>sp_log := sp_log st @ es\<rparr>"

abbreviation throw :: "pyexn \<Rightarrow> sproac \<Rightarrow> sproac" where
  "throw e st \<equiv> st\<lparr>sp_ctl := CExc e\<rparr>"

abbreviation tick :: "sproac \<Rightarrow> sproac" where
  "tick st \<equiv> st\<lparr>sp_kn := Suc (sp_kn st)\<rparr>"

abbreviation upd_op :: "nat \<Rightarrow> (oph \<Rightarrow> oph) \<Rightarrow> sproac \<Rightarrow> sproac" where
  "upd_op h f st \<equiv> st\<lparr>sp_h := (sp_h st)(h := f (sp_h st h))\<rparr>"

abbreviation entry_of :: "sproac \<Rightarrow> int \<Rightarrow> fdentry option" where
  "entry_of st fd \<equiv> map_of (sp_slots st) fd"

abbreviation put_entry :: "int \<Rightarrow> fdentry \<Rightarrow> sproac \<Rightarrow> sproac" where
  "put_entry fd en st \<equiv> st\<lparr>sp_slots := AList.update fd en (sp_slots st)\<rparr>"

section \<open>Callbacks\<close>

definition call_cb :: "pcb \<Rightarrow> pyexn + pval \<Rightarrow> sproac \<Rightarrow> sproac" where
  "call_cb c out st =
     (case c of
        CbUser n \<Rightarrow> (logs [EvCall n out] st)\<lparr>sp_ctl := CUser\<rparr>
      | CbFail n \<Rightarrow> (case out of Inr _ \<Rightarrow> st | Inl e \<Rightarrow> (logs [EvCall n (Inl e)] st)\<lparr>sp_ctl := CUser\<rparr>)
      | CbReport \<Rightarrow> (case out of Inr _ \<Rightarrow> st | Inl e \<Rightarrow> if sp_handler st then (logs [EvReport e] st)\<lparr>sp_ctl := CUser\<rparr> else st))"

definition finish_oneshot :: "nat \<Rightarrow> pyexn + pval \<Rightarrow> sproac \<Rightarrow> sproac" where
  "finish_oneshot h out st =
     (if op_done (sp_h st h) then st
      else call_cb (op_cb (sp_h st h)) out (logs [EvFin h out] (upd_op h (op_done_update (\<lambda>_. True)) st)))"

definition emit :: "nat \<Rightarrow> pval delivery \<Rightarrow> sproac \<Rightarrow> sproac" where
  "emit h d st = (logs [EvDel h d] st)\<lparr>sp_ctl := CUser\<rparr>"

definition error_delivery :: "int \<Rightarrow> pyexn \<Rightarrow> pval delivery" where
  "error_delivery i e = \<lparr>d_index = i, d_value = None, d_exception = Some e, d_more = False\<rparr>"

definition terminalise_cancelled :: "nat \<Rightarrow> sproac \<Rightarrow> sproac" where
  "terminalise_cancelled h st =
     (if is_stream (op_kind (sp_h st h)) then emit h (error_delivery (op_next (sp_h st h)) io_cancellation_error) st
      else finish_oneshot h (Inl io_cancellation_error) st)"

section \<open>Slots and registration\<close>

definition en_empty :: "fdentry \<Rightarrow> bool" where
  "en_empty en = (en_reader en = None \<and> en_writer en = None \<and> en_queue en = [])"

definition new_entry :: "nat \<Rightarrow> fdentry" where
  "new_entry i = \<lparr>en_id = i, en_reader = None, en_writer = None, en_queue = []\<rparr>"

text \<open>\<open>self._fd_slots.setdefault(fd, _FdEntry())\<close> and a change of the entry it returns.\<close>

definition on_entry :: "int \<Rightarrow> (fdentry \<Rightarrow> fdentry) \<Rightarrow> sproac \<Rightarrow> sproac" where
  "on_entry fd f st =
     (case entry_of st fd of
        Some en \<Rightarrow> put_entry fd (f en) st
      | None \<Rightarrow> (put_entry fd (f (new_entry (sp_eid st))) st)\<lparr>sp_eid := Suc (sp_eid st)\<rparr>)"

definition slot_taken :: "int \<Rightarrow> bool \<Rightarrow> sproac \<Rightarrow> bool" where
  "slot_taken fd rd st =
     (case entry_of st fd of None \<Rightarrow> False | Some en \<Rightarrow> (if rd then en_reader en else en_writer en) \<noteq> None)"

definition reserve_slot :: "int \<Rightarrow> bool \<Rightarrow> nat \<Rightarrow> sproac \<Rightarrow> sproac" where
  "reserve_slot fd rd h st = on_entry fd (\<lambda>en. if rd then en\<lparr>en_reader := Some h\<rparr> else en\<lparr>en_writer := Some h\<rparr>) st"

definition reserve_poll_slot :: "int \<Rightarrow> bool \<Rightarrow> bool \<Rightarrow> nat \<Rightarrow> sproac \<Rightarrow> sproac" where
  "reserve_poll_slot fd rd wr h st =
     on_entry fd (\<lambda>en. en\<lparr>en_reader := (if rd then Some h else en_reader en), en_writer := (if wr then Some h else en_writer en)\<rparr>) st"

definition selector_mask :: "int \<Rightarrow> sproac \<Rightarrow> bool \<times> bool" where
  "selector_mask fd st = (case entry_of st fd of None \<Rightarrow> (False, False) | Some en \<Rightarrow> (en_reader en \<noteq> None, en_writer en \<noteq> None))"

text \<open>\<open>selectors\<close> keeps a key per descriptor.  A registration that the kernel refuses drops the key, and a
  modification to the same events makes no system call.\<close>

definition reg_call :: "knl \<Rightarrow> int \<Rightarrow> bool \<times> bool \<Rightarrow> sproac \<Rightarrow> sproac" where
  "reg_call K fd m st =
     (case K (sp_kn st) of
        KFail e \<Rightarrow> throw (OSErr e) ((tick st)\<lparr>sp_reg := (sp_reg st)(fd := None), sp_regfail := True\<rparr>)
      | _ \<Rightarrow> (tick st)\<lparr>sp_reg := (sp_reg st)(fd := Some m)\<rparr>)"

definition update_registration :: "knl \<Rightarrow> int \<Rightarrow> sproac \<Rightarrow> sproac" where
  "update_registration K fd st =
     (if sp_closed st then st
      else let m = selector_mask fd st
           in (case sp_reg st fd of
                 None \<Rightarrow> (if m \<noteq> (False, False) then reg_call K fd m st else st)
               | Some old \<Rightarrow> (if m = (False, False) then st\<lparr>sp_reg := (sp_reg st)(fd := None)\<rparr>
                              else if m = old then st else reg_call K fd m st)))"

section \<open>Attempts\<close>

datatype aout = ABlock | AExn pyexn | AVal pval

definition sys :: "knl \<Rightarrow> nat \<Rightarrow> sproac \<Rightarrow> aout \<times> sproac" where
  "sys K s st =
     (if sp_fd st s < 0 then (AExn (OSErr EBADF), st)
      else (case K (sp_kn st) of KBlock \<Rightarrow> ABlock | KFail e \<Rightarrow> AExn (OSErr e) | KRet v \<Rightarrow> AVal v, tick st))"

text \<open>One \<open>sock.send(view)\<close>: the kernel takes at most what it is given; an answer that is no count is none.\<close>

definition sock_send :: "knl \<Rightarrow> nat \<Rightarrow> nat \<Rightarrow> nat list \<Rightarrow> sproac \<Rightarrow> aout \<times> sproac" where
  "sock_send K t s view st =
     (case sys K s st of
        (AVal v, st') \<Rightarrow> (let n = (case v of VInt n \<Rightarrow> min n (length view) | _ \<Rightarrow> 0)
                          in (AVal (VInt n), if n = 0 then st' else logs [EvSend t s (take n view)] st'))
      | r \<Rightarrow> r)"

function send_loop :: "knl \<Rightarrow> nat \<Rightarrow> sproac \<Rightarrow> aout \<times> sproac" where
  "send_loop K h st =
     (let o1 = sp_h st h
      in if op_off o1 < length (op_view o1)
         then (case sock_send K (op_tk o1) (op_sock o1) (drop (op_off o1) (op_view o1)) st of
                 (AVal (VInt n), st') \<Rightarrow> (if n = 0 then (ABlock, st')
                                          else send_loop K h (upd_op h (op_off_update (\<lambda>_. op_off o1 + n)) st'))
               | (AVal v, st') \<Rightarrow> (ABlock, st')
               | r \<Rightarrow> r)
         else (AVal (VInt (op_off o1)), st))"
  by pat_completeness auto

lemma sys_frame: "sys K s st = (r, st') \<Longrightarrow> \<exists>n. st' = st\<lparr>sp_kn := n\<rparr>"
  by (auto simp: sys_def split: if_splits intro: exI [of _ "sp_kn st"])

lemma sock_send_cases:
  assumes "sock_send K t s view st = (r, st')"
  obtains (none) n where "st' = st\<lparr>sp_kn := n\<rparr>" "r = ABlock \<or> (\<exists>e. r = AExn e) \<or> r = AVal (VInt 0)"
    | (some) n m where "0 < m" "m \<le> length view" "0 \<le> sp_fd st s" "r = AVal (VInt m)"
        "st' = st\<lparr>sp_kn := n, sp_log := sp_log st @ [EvSend t s (take m view)]\<rparr>"
proof -
  obtain q s1 where q: "sys K s st = (q, s1)" by (cases "sys K s st")
  from sys_frame [OF q] obtain n where n: "s1 = st\<lparr>sp_kn := n\<rparr>" ..
  show thesis
  proof (cases q)
    case (AVal v)
    define m where "m = (case v of VInt n \<Rightarrow> min n (length view) | _ \<Rightarrow> 0)"
    have m: "m \<le> length view" by (simp add: m_def split: pval.splits)
    have fd: "0 \<le> sp_fd st s" using q AVal by (auto simp: sys_def split: if_splits)
    have "sock_send K t s view st = (AVal (VInt m), if m = 0 then s1 else logs [EvSend t s (take m view)] s1)"
      unfolding sock_send_def q AVal m_def Let_def by simp
    hence *: "(AVal (VInt m), if m = 0 then s1 else logs [EvSend t s (take m view)] s1) = (r, st')" using assms by (rule trans [OF sym])
    show thesis
    proof (cases "m = 0")
      case True
      thus thesis using * n by (intro none [of n]) auto
    next
      case False
      thus thesis using * n m fd by (intro some [of m n]) auto
    qed
  next
    case ABlock
    thus thesis using assms q n by (intro none [of n]) (simp_all add: sock_send_def)
  next
    case (AExn e)
    thus thesis using assms q n by (intro none [of n]) (auto simp: sock_send_def)
  qed
qed

termination send_loop
proof (relation "measure (\<lambda>(K, h, st). length (op_view (sp_h st h)) - op_off (sp_h st h))", goal_cases)
  case 1
  show ?case by simp
next
  case (2 K h st o1 r st' v n)
  have "sock_send K (op_tk o1) (op_sock o1) (drop (op_off o1) (op_view o1)) st = (AVal (VInt n), st')" using 2 by simp
  hence "sp_h st' = sp_h st" by (cases rule: sock_send_cases) auto
  thus ?case using 2 by simp
qed

declare send_loop.simps [simp del]

definition EINPROGRESS :: int where "EINPROGRESS = 115"
definition EWOULDBLOCK :: int where "EWOULDBLOCK = 11"
definition EALREADY :: int where "EALREADY = 114"

text \<open>\<open>finish_connect\<close>: the first attempt calls \<open>connect\<close>, a later one reads \<open>SO_ERROR\<close>.\<close>

definition finish_connect :: "knl \<Rightarrow> nat \<Rightarrow> sproac \<Rightarrow> aout \<times> sproac" where
  "finish_connect K h st =
     (let o1 = sp_h st h
      in if \<not> op_started o1
         then (case sys K (op_sock o1) (upd_op h (op_started_update (\<lambda>_. True)) st) of
                 (AExn (OSErr e), st') \<Rightarrow> (if e \<in> {EINPROGRESS, EWOULDBLOCK, EALREADY} then ABlock else AExn (OSErr e), st')
               | (AVal v, st') \<Rightarrow> (AVal VNone, st')
               | r \<Rightarrow> r)
         else (case sys K (op_sock o1) st of
                 (AVal (VInt n), st') \<Rightarrow>
                   (if n = 0 then AVal VNone
                    else if int n \<in> {EINPROGRESS, EWOULDBLOCK, EALREADY} then ABlock else AExn (OSErr (int n)), st')
               | (AVal v, st') \<Rightarrow> (AVal VNone, st')
               | r \<Rightarrow> r))"

definition probe :: "knl \<Rightarrow> int \<Rightarrow> int \<Rightarrow> sproac \<Rightarrow> aout \<times> sproac" where
  "probe K fd msk st =
     (case probe_poll_fd_now
             \<lparr>kn_select = (\<lambda>_. case K (sp_kn st) of KFail e \<Rightarrow> Inl (OSErr e) | KRet (VReady r w x) \<Rightarrow> Inr (r, w, x) | _ \<Rightarrow> Inr (False, False, False)),
              kn_arm = (\<lambda>_ _. ([], None))\<rparr> fd msk of
        Inl BlockingIOErr \<Rightarrow> ABlock
      | Inl e \<Rightarrow> AExn e
      | Inr n \<Rightarrow> AVal (VMask n), tick st)"

definition attempt :: "knl \<Rightarrow> nat \<Rightarrow> sproac \<Rightarrow> aout \<times> sproac" where
  "attempt K h st =
     (let o1 = sp_h st h
      in (case op_kind o1 of
            SendAll \<Rightarrow> send_loop K h st
          | Send \<Rightarrow> sock_send K (op_tk o1) (op_sock o1) (op_view o1) st
          | Connect \<Rightarrow> finish_connect K h st
          | PollOp \<Rightarrow> probe K (op_fd o1) (op_mask o1) st
          | _ \<Rightarrow> sys K (op_sock o1) st))"

section \<open>Removing an operation\<close>

definition has_op :: "nat \<Rightarrow> fdentry \<Rightarrow> bool" where
  "has_op h en = (en_reader en = Some h \<or> en_writer en = Some h \<or> (\<exists>q \<in> set (en_queue en). qw_handle q = Some h))"

definition clear_op :: "nat \<Rightarrow> fdentry \<Rightarrow> fdentry" where
  "clear_op h en = en\<lparr>en_reader := (if en_reader en = Some h then None else en_reader en),
     en_writer := (if en_writer en = Some h then None else en_writer en),
     en_queue := filter (\<lambda>q. qw_handle q \<noteq> Some h) (en_queue en)\<rparr>"

text \<open>\<open>_remove_handle\<close>: the entry is cleared at once; the drain of its write queue and the rest of the
  function are left on the stack.\<close>

definition remove_handle :: "nat \<Rightarrow> sproac \<Rightarrow> sproac" where
  "remove_handle h st =
     (case find (\<lambda>(fd, en). has_op h en) (sp_slots st) of
        None \<Rightarrow> st
      | Some (fd, en) \<Rightarrow>
          push ((if en_writer en = Some h then [FDrain fd (en_id en)] else []) @ [FRemoved fd]) (put_entry fd (clear_op h en) st))"

definition is_held :: "nat \<Rightarrow> sproac \<Rightarrow> bool" where
  "is_held h st = (\<exists>(fd, en) \<in> set (sp_slots st). has_op h en)"

definition removed_rest :: "knl \<Rightarrow> int \<Rightarrow> sproac \<Rightarrow> sproac" where
  "removed_rest K fd st =
     update_registration K fd
       (case entry_of st fd of
          Some en \<Rightarrow> (if en_empty en then st\<lparr>sp_slots := AList.delete fd (sp_slots st)\<rparr> else st)
        | None \<Rightarrow> st)"

section \<open>Submitting\<close>

definition spawn_operation :: "opkind \<Rightarrow> nat \<Rightarrow> int \<Rightarrow> int \<Rightarrow> pcb \<Rightarrow> nat list \<Rightarrow> int \<Rightarrow> sproac \<Rightarrow> nat \<times> sproac" where
  "spawn_operation kind s fd msk c view base st =
     (sp_nh st, st\<lparr>sp_h := (sp_h st)(sp_nh st :=
        \<lparr>op_kind = kind, op_sock = s, op_fd = fd, op_mask = msk, op_cb = c, op_done = False, op_view = view, op_off = 0,
         op_started = False, op_next = base, op_tk = sp_tk st\<rparr>), sp_nh := Suc (sp_nh st), sp_tk := Suc (sp_tk st)\<rparr>)"

definition reject :: "nat \<Rightarrow> pyexn \<Rightarrow> sproac \<Rightarrow> sproac" where
  "reject h e st = throw e (st\<lparr>sp_rej := h # sp_rej st\<rparr>)"

definition try_complete :: "nat \<Rightarrow> aout \<Rightarrow> sproac \<Rightarrow> sproac" where
  "try_complete h r st = (case r of AExn e \<Rightarrow> finish_oneshot h (Inl e) st | AVal v \<Rightarrow> finish_oneshot h (Inr v) st | ABlock \<Rightarrow> st)"

definition prepare_socket_operation :: "knl \<Rightarrow> nat \<Rightarrow> sproac \<Rightarrow> sproac" where
  "prepare_socket_operation K h st =
     (let s = op_sock (sp_h st h); rd = reads (op_kind (sp_h st h)); fd = sp_fd st s
      in if sp_closed st then reject h RuntimeErr st
         else if sp_blk st s \<or> fd < 0 then reject h ValueErr st
         else if slot_taken fd rd st then reject h RuntimeErr st
         else (case attempt K h st of
                 (ABlock, st') \<Rightarrow> update_registration K fd (reserve_slot fd rd h st')
               | (r, st') \<Rightarrow> try_complete h r st'))"

definition POLL_READ_MASK :: int where "POLL_READ_MASK = POLLIN OR POLLPRI OR POLLRDHUP"
definition POLL_EX_MASK :: int where "POLL_EX_MASK = POLLERR OR POLLHUP"

definition poll_mask_to_selector_events :: "int \<Rightarrow> (bool \<times> bool) option" where
  "poll_mask_to_selector_events msk =
     (let ex = (msk AND POLL_EX_MASK \<noteq> 0); r = (msk AND POLL_READ_MASK \<noteq> 0 \<or> ex); w = (msk AND POLLOUT \<noteq> 0 \<or> ex)
      in if r \<or> w then Some (r, w) else None)"

definition prepare_fd_operation :: "knl \<Rightarrow> nat \<Rightarrow> sproac \<Rightarrow> sproac" where
  "prepare_fd_operation K h st =
     (let fd = op_fd (sp_h st h)
      in if sp_closed st then reject h RuntimeErr st
         else if fd < 0 then reject h ValueErr st
         else (case poll_mask_to_selector_events (op_mask (sp_h st h)) of
                 None \<Rightarrow> reject h ValueErr st
               | Some (rd, wr) \<Rightarrow>
                   if rd \<and> slot_taken fd True st \<or> wr \<and> slot_taken fd False st then reject h RuntimeErr st
                   else (case attempt K h st of
                           (ABlock, st') \<Rightarrow> update_registration K fd (reserve_poll_slot fd rd wr h st')
                         | (r, st') \<Rightarrow> try_complete h r st')))"

definition prepare_socket_continuous :: "knl \<Rightarrow> nat \<Rightarrow> sproac \<Rightarrow> sproac" where
  "prepare_socket_continuous K h st =
     (let s = op_sock (sp_h st h); fd = sp_fd st s
      in if sp_closed st then reject h RuntimeErr st
         else if sp_blk st s \<or> fd < 0 then reject h ValueErr st
         else if slot_taken fd True st then reject h RuntimeErr st
         else update_registration K fd (reserve_slot fd True h st))"

section \<open>Stream steps\<close>

text \<open>The \<open>step\<close> closures of \<open>accept_many\<close>, \<open>recv_many\<close> and \<open>poll_many\<close> up to their callback, and what follows in
  the two functions that run them: \<open>_step_continuous_fd_operation\<close>, and with \<open>again\<close> the synchronous
  \<open>_try_step_continuous_operation\<close> of a new \<open>poll_many\<close>.\<close>

definition stream_step :: "knl \<Rightarrow> int \<Rightarrow> nat \<Rightarrow> bool \<Rightarrow> sproac \<Rightarrow> sproac" where
  "stream_step K fd h again st =
     (let o1 = sp_h st h;
          chunk = (\<lambda>v more st'. emit h \<lparr>d_index = op_next o1, d_value = Some v, d_exception = None, d_more = more\<rparr>
                                  (push [FStepped fd h (\<not> more) again (op_next o1)] st'))
      in (case op_kind o1 of
            PollMany \<Rightarrow>
              (case probe K fd (op_mask o1) st of
                 (ABlock, st') \<Rightarrow> update_registration K fd st'
               | (AExn e, st') \<Rightarrow> remove_handle h (push [FTerm h e] st')
               | (AVal v, st') \<Rightarrow> chunk v True st')
          | RecvMany \<Rightarrow>
              (case sys K (op_sock o1) st of
                 (ABlock, st') \<Rightarrow> update_registration K fd st'
               | (AExn e, st') \<Rightarrow> emit h (error_delivery (op_next o1) e) (push [FStepped fd h True again (op_next o1)] st')
               | (AVal v, st') \<Rightarrow> chunk v False st')
          | _ \<Rightarrow>
              (case sys K (op_sock o1) st of
                 (ABlock, st') \<Rightarrow> update_registration K fd st'
               | (AExn e, st') \<Rightarrow> remove_handle h (push [FTerm h e] st')
               | (AVal v, st') \<Rightarrow> chunk v False st')))"

definition stepped :: "knl \<Rightarrow> int \<Rightarrow> nat \<Rightarrow> bool \<Rightarrow> bool \<Rightarrow> int \<Rightarrow> sproac \<Rightarrow> sproac" where
  "stepped K fd h fin again i st =
     (if fin then remove_handle h st
      else update_registration K fd (push (if again then [FUpdate fd] else []) (upd_op h (op_next_update (\<lambda>_. i + 1)) st)))"

definition prepare_fd_continuous :: "knl \<Rightarrow> nat \<Rightarrow> sproac \<Rightarrow> sproac" where
  "prepare_fd_continuous K h st =
     (let fd = op_fd (sp_h st h)
      in if sp_closed st then reject h RuntimeErr st
         else if fd < 0 then reject h ValueErr st
         else (case poll_mask_to_selector_events (op_mask (sp_h st h)) of
                 None \<Rightarrow> reject h ValueErr st
               | Some (rd, wr) \<Rightarrow>
                   if rd \<and> slot_taken fd True st \<or> wr \<and> slot_taken fd False st then reject h RuntimeErr st
                   else stream_step K fd h True (reserve_poll_slot fd rd wr h st)))"

section \<open>Write-side operations\<close>

definition write_busy :: "int \<Rightarrow> sproac \<Rightarrow> bool" where
  "write_busy fd st = (case entry_of st fd of None \<Rightarrow> False | Some en \<Rightarrow> en_writer en \<noteq> None \<or> en_queue en \<noteq> [])"

definition enqueue_write :: "int \<Rightarrow> wrun \<Rightarrow> nat option \<Rightarrow> nat \<Rightarrow> sproac \<Rightarrow> sproac" where
  "enqueue_write fd r h t st =
     on_entry fd (\<lambda>en. en\<lparr>en_queue := en_queue en @ [\<lparr>qw_run = r, qw_handle = h, qw_tk = t\<rparr>]\<rparr>) st"

definition close_sock :: "nat \<Rightarrow> nat \<Rightarrow> sproac \<Rightarrow> sproac" where
  "close_sock t s st = (tick (logs [EvClose t s] st))\<lparr>sp_fd := (sp_fd st)(s := -1)\<rparr>"

definition failure :: "knl \<Rightarrow> sproac \<Rightarrow> pyexn option" where
  "failure K st = (case K (sp_kn st) of KFail e \<Rightarrow> Some (OSErr e) | _ \<Rightarrow> None)"

definition as_result :: "pyexn option \<Rightarrow> pyexn + pval" where
  "as_result e = (case e of None \<Rightarrow> Inr VNone | Some x \<Rightarrow> Inl x)"

definition run_write :: "knl \<Rightarrow> nat \<Rightarrow> wrun \<Rightarrow> sproac \<Rightarrow> sproac" where
  "run_write K t r st =
     (case r of
        RStart h \<Rightarrow> prepare_socket_operation K h st
      | RShutdown s c \<Rightarrow>
          (if sp_fd st s < 0 then call_cb (CbUser c) (Inl (OSErr EBADF)) st
           else call_cb (CbUser c) (as_result (failure K st)) (tick (logs [EvShut t s] st)))
      | RShutdownNw s \<Rightarrow>
          (if sp_fd st s < 0 then st else call_cb CbReport (as_result (failure K st)) (tick (logs [EvShut t s] st)))
      | RClose s c \<Rightarrow>
          (if sp_fd st s < 0 then call_cb (CbUser c) (Inr VNone) st else call_cb (CbUser c) (as_result (failure K st)) (close_sock t s st))
      | RCloseNw s \<Rightarrow> (if sp_fd st s < 0 then st else close_sock t s st))"

definition run_or_enqueue_write :: "knl \<Rightarrow> nat \<Rightarrow> wrun \<Rightarrow> sproac \<Rightarrow> sproac" where
  "run_or_enqueue_write K s r st =
     (let st1 = st\<lparr>sp_tk := Suc (sp_tk st)\<rparr>
      in if sp_fd st s < 0 then run_write K (sp_tk st) r st1
         else if sp_closed st then throw RuntimeErr st1
         else if write_busy (sp_fd st s) st then enqueue_write (sp_fd st s) r None (sp_tk st) st1
         else run_write K (sp_tk st) r st1)"

text \<open>One turn of the loop of \<open>_drain_write_queue\<close>.  The loop holds on to its entry: once that has been
  deleted (it was empty then) there is nothing to do, even if the descriptor has a new entry.\<close>

definition drain_write_queue :: "knl \<Rightarrow> int \<Rightarrow> nat \<Rightarrow> sproac \<Rightarrow> sproac" where
  "drain_write_queue K fd eid st =
     (case entry_of st fd of
        None \<Rightarrow> st
      | Some en \<Rightarrow>
          if en_id en \<noteq> eid \<or> en_writer en \<noteq> None then st
          else (case en_queue en of
                  [] \<Rightarrow> st
                | q # qs \<Rightarrow>
                    (let st1 = put_entry fd (en\<lparr>en_queue := qs\<rparr>) st
                     in (case qw_handle q of
                           Some h \<Rightarrow> (if op_done (sp_h st h) then push [FDrain fd eid] st1
                                      else run_write K (qw_tk q) (qw_run q) (push [FTry (Some h), FDrain fd eid] st1))
                         | None \<Rightarrow> run_write K (qw_tk q) (qw_run q) (push [FTry None, FDrain fd eid] st1)))))"

definition submit_send :: "knl \<Rightarrow> opkind \<Rightarrow> nat \<Rightarrow> nat list \<Rightarrow> pcb \<Rightarrow> sproac \<Rightarrow> sproac" where
  "submit_send K kind s view c st =
     (case spawn_operation kind s (-1) 0 c view 0 st of
        (h, st1) \<Rightarrow>
          if sp_closed st1 then reject h RuntimeErr st1
          else if write_busy (sp_fd st1 s) st1 then enqueue_write (sp_fd st1 s) (RStart h) (Some h) (sp_tk st) st1
          else prepare_socket_operation K h st1)"

definition send_nowait :: "knl \<Rightarrow> nat \<Rightarrow> nat list \<Rightarrow> pcb \<Rightarrow> sproac \<Rightarrow> sproac" where
  "send_nowait K s view c st =
     (if sp_closed st then throw RuntimeErr st
      else if view = [] then st
      else submit_send K SendAll s view c st)"

definition send_close_nowait :: "knl \<Rightarrow> nat \<Rightarrow> nat list \<Rightarrow> sproac \<Rightarrow> sproac" where
  "send_close_nowait K s view st =
     (if sp_closed st then throw RuntimeErr st
      else if view = [] then run_or_enqueue_write K s (RCloseNw s) st
      else send_nowait K s view CbReport (push [FCloseNw s] st))"

section \<open>Stopping\<close>

definition give_reply :: "reply \<Rightarrow> pyexn option \<Rightarrow> sproac \<Rightarrow> sproac" where
  "give_reply r err st =
     (case r of
        RpCb c \<Rightarrow> call_cb (CbUser c) (as_result err) st
      | RpNowait \<Rightarrow> (case err of None \<Rightarrow> st | Some e \<Rightarrow> throw e st))"

definition selector_stop_handle :: "nat \<Rightarrow> reply \<Rightarrow> sproac \<Rightarrow> sproac" where
  "selector_stop_handle h r st =
     (if \<not> is_stream (op_kind (sp_h st h)) \<and> op_done (sp_h st h) then give_reply r None st
      else if is_held h st then remove_handle h (push [FStop h r] st)
      else if is_stream (op_kind (sp_h st h)) then give_reply r None st
      else terminalise_cancelled h (push [FReply r None] st))"

definition set_operation_callback :: "nat \<Rightarrow> nat \<Rightarrow> sproac \<Rightarrow> sproac" where
  "set_operation_callback h c st =
     (if \<not> is_stream (op_kind (sp_h st h)) \<and> op_done (sp_h st h) then st else upd_op h (op_cb_update (\<lambda>_. CbUser c)) st)"

section \<open>Polling\<close>

definition step_fd_operation :: "knl \<Rightarrow> int \<Rightarrow> bool \<Rightarrow> sproac \<Rightarrow> sproac" where
  "step_fd_operation K fd rd st =
     (case entry_of st fd of
        None \<Rightarrow> st
      | Some en \<Rightarrow>
          (case (if rd then en_reader en else en_writer en) of
             None \<Rightarrow> st
           | Some h \<Rightarrow>
               if is_stream (op_kind (sp_h st h)) then stream_step K fd h False st
               else if op_done (sp_h st h) then st
               else (case attempt K h st of
                       (ABlock, st') \<Rightarrow> update_registration K fd st'
                     | (AExn e, st') \<Rightarrow> remove_handle h (push [FFinish h (Inl e)] st')
                     | (AVal v, st') \<Rightarrow> remove_handle h (push [FFinish h (Inr v)] st'))))"

definition poll_event :: "knl \<Rightarrow> int \<Rightarrow> bool \<Rightarrow> bool \<Rightarrow> sproac \<Rightarrow> sproac" where
  "poll_event K fd r w st =
     (if (case entry_of st fd of None \<Rightarrow> False | Some en \<Rightarrow> en_reader en \<noteq> None \<and> en_reader en = en_writer en)
      then (if r \<or> w then step_fd_operation K fd True st else st)
      else if r then step_fd_operation K fd True (push (if w then [FStepWrite fd] else []) st)
      else if w then step_fd_operation K fd False st
      else st)"

text \<open>\<open>select_released\<close>: descriptors without a key are dropped, events not asked for are masked out.\<close>

definition select_events :: "(int \<times> bool \<times> bool) list \<Rightarrow> sproac \<Rightarrow> (int \<times> bool \<times> bool) list" where
  "select_events evs st =
     concat (map (\<lambda>(fd, r, w). case sp_reg st fd of None \<Rightarrow> [] | Some (mr, mw) \<Rightarrow> [(fd, r \<and> mr, w \<and> mw)]) evs)"

definition close_proactor :: "sproac \<Rightarrow> sproac" where
  "close_proactor st = (if sp_closed st then st else st\<lparr>sp_closed := True, sp_reg := (\<lambda>_. None)\<rparr>)"

definition has_pending_operations :: "sproac \<Rightarrow> bool" where
  "has_pending_operations st = (sp_slots st \<noteq> [])"

section \<open>The machine\<close>

datatype spcall =
    COneshot opkind nat nat
  | CSendAll nat "nat list" nat
  | CSend nat "nat list" nat
  | CSendNowait nat "nat list" "nat option"
  | CSendClose nat "nat list"
  | CShutdown nat nat
  | CShutdownNw nat
  | CCloseSock nat nat
  | CCloseSockNw nat
  | CPoll int int nat
  | CPollMany int int nat
  | CAcceptMany nat nat int
  | CRecvMany nat nat int bool
  | CCancel nat nat
  | CCancelNw nat
  | CSetCb nat nat
  | CWait
  | CClose

definition socket_oneshot :: "opkind \<Rightarrow> bool" where
  "socket_oneshot k = (k \<in> {Recv, RecvInto, Recvfrom, RecvfromInto, Sendto, Accept, Connect})"

fun sp_call :: "knl \<Rightarrow> spcall \<Rightarrow> sproac \<Rightarrow> sproac" where
  "sp_call K (COneshot k s c) st =
     (if socket_oneshot k then (case spawn_operation k s (-1) 0 (CbUser c) [] 0 st of (h, st1) \<Rightarrow> prepare_socket_operation K h st1) else st)"
| "sp_call K (CSendAll s view c) st = submit_send K SendAll s view (CbUser c) st"
| "sp_call K (CSend s view c) st =
     (if view = [] then call_cb (CbUser c) (Inr (VInt 0)) st else submit_send K Send s view (CbUser c) st)"
| "sp_call K (CSendNowait s view c) st = send_nowait K s view (case c of None \<Rightarrow> CbReport | Some n \<Rightarrow> CbFail n) st"
| "sp_call K (CSendClose s view) st = send_close_nowait K s view st"
| "sp_call K (CShutdown s c) st = run_or_enqueue_write K s (RShutdown s c) st"
| "sp_call K (CShutdownNw s) st = run_or_enqueue_write K s (RShutdownNw s) st"
| "sp_call K (CCloseSock s c) st = run_or_enqueue_write K s (RClose s c) st"
| "sp_call K (CCloseSockNw s) st = run_or_enqueue_write K s (RCloseNw s) st"
| "sp_call K (CPoll fd msk c) st = (case spawn_operation PollOp 0 fd msk (CbUser c) [] 0 st of (h, st1) \<Rightarrow> prepare_fd_operation K h st1)"
| "sp_call K (CPollMany fd msk c) st = (case spawn_operation PollMany 0 fd msk (CbUser c) [] 0 st of (h, st1) \<Rightarrow> prepare_fd_continuous K h st1)"
| "sp_call K (CAcceptMany s c base) st = (case spawn_operation AcceptMany s (-1) 0 (CbUser c) [] base st of (h, st1) \<Rightarrow> prepare_socket_continuous K h st1)"
| "sp_call K (CRecvMany s c base full) st =
     (case spawn_operation RecvMany s (-1) 0 (CbUser c) [] base st of
        (h, st1) \<Rightarrow> if full then emit h (error_delivery base (OSErr ENOBUFS)) st1 else prepare_socket_continuous K h st1)"
| "sp_call K (CCancel h c) st = (if h < sp_nh st then selector_stop_handle h (RpCb c) st else st)"
| "sp_call K (CCancelNw h) st = (if h < sp_nh st then selector_stop_handle h RpNowait st else st)"
| "sp_call K (CSetCb h c) st = (if h < sp_nh st then set_operation_callback h c st else st)"
| "sp_call K CWait st = (if sp_closed st then throw RuntimeErr st else (push [FSelect] st)\<lparr>sp_ctl := CUser\<rparr>)"
| "sp_call K CClose st = close_proactor st"

text \<open>A frame in the normal case, and what it makes of an exception.\<close>

fun sp_exec :: "knl \<Rightarrow> frame \<Rightarrow> sproac \<Rightarrow> sproac" where
  "sp_exec K FUser st = st\<lparr>sp_ctl := CUser\<rparr>"
| "sp_exec K (FTry h) st = st"
| "sp_exec K (FDrain fd eid) st = drain_write_queue K fd eid st"
| "sp_exec K (FRemoved fd) st = removed_rest K fd st"
| "sp_exec K (FFinish h out) st = finish_oneshot h out st"
| "sp_exec K (FTerm h e) st = emit h (error_delivery (op_next (sp_h st h)) e) st"
| "sp_exec K (FStepped fd h fin again i) st = stepped K fd h fin again i st"
| "sp_exec K (FUpdate fd) st = update_registration K fd st"
| "sp_exec K (FStop h r) st = terminalise_cancelled h (push [FReply r None] st)"
| "sp_exec K (FReply r err) st = give_reply r err st"
| "sp_exec K (FCloseNw s) st = run_or_enqueue_write K s (RCloseNw s) st"
| "sp_exec K FSelect st = st"
| "sp_exec K (FEvents []) st = st"
| "sp_exec K (FEvents ((fd, r, w) # evs)) st = poll_event K fd r w (push [FEvents evs] st)"
| "sp_exec K (FStepWrite fd) st = step_fd_operation K fd False st"

fun sp_catch :: "knl \<Rightarrow> frame \<Rightarrow> pyexn \<Rightarrow> sproac \<Rightarrow> sproac" where
  "sp_catch K FUser e st = (logs [EvRaise e] st)\<lparr>sp_ctl := CUser\<rparr>"
| "sp_catch K (FTry h) e st =
     (if \<not> is_Exception e then st
      else (case h of None \<Rightarrow> st\<lparr>sp_ctl := CRun\<rparr> | Some h1 \<Rightarrow> finish_oneshot h1 (Inl e) (st\<lparr>sp_ctl := CRun\<rparr>)))"
| "sp_catch K (FStepped fd h fin again i) e st =
     (if e = BlockingIOErr then update_registration K fd (st\<lparr>sp_ctl := CRun\<rparr>)
      else if is_Exception e then remove_handle h (push [FTerm h e] (st\<lparr>sp_ctl := CRun\<rparr>))
      else st)"
| "sp_catch K (FStop h r) e st =
     (if is_OSError e then terminalise_cancelled h (push [FReply r (Some e)] (st\<lparr>sp_ctl := CRun\<rparr>)) else st)"
| "sp_catch K _ e st = st"

inductive sp_step :: "knl \<Rightarrow> sproac \<Rightarrow> sproac \<Rightarrow> bool" for K where
  call: "sp_ctl st = CUser \<Longrightarrow> sp_step K st (sp_call K c (st\<lparr>sp_stk := FUser # sp_stk st, sp_ctl := CRun\<rparr>))"
| run: "sp_ctl st = CRun \<Longrightarrow> sp_stk st = f # k \<Longrightarrow> sp_step K st (sp_exec K f (st\<lparr>sp_stk := k\<rparr>))"
| unwind: "sp_ctl st = CExc e \<Longrightarrow> sp_stk st = f # k \<Longrightarrow> sp_step K st (sp_catch K f e (st\<lparr>sp_stk := k\<rparr>))"
| ret: "sp_ctl st = CUser \<Longrightarrow> sp_stk st = f # k \<Longrightarrow> f \<noteq> FSelect \<Longrightarrow> sp_step K st (st\<lparr>sp_ctl := CRun\<rparr>)"
| raise: "sp_ctl st = CUser \<Longrightarrow> sp_stk st = f # k \<Longrightarrow> f \<noteq> FSelect \<Longrightarrow> sp_step K st (throw e (st\<lparr>sp_cbraise := True\<rparr>))"
| select: "sp_ctl st = CUser \<Longrightarrow> sp_stk st = FSelect # k
    \<Longrightarrow> sp_step K st (st\<lparr>sp_stk := FEvents (select_events evs st) # k, sp_ctl := CRun\<rparr>)"
| socket: "sp_ctl st = CUser \<Longrightarrow> 0 \<le> fd \<Longrightarrow> \<forall>s < sp_ns st. sp_fd st s \<noteq> fd
    \<Longrightarrow> sp_step K st (st\<lparr>sp_fd := (sp_fd st)(sp_ns st := fd), sp_blk := (sp_blk st)(sp_ns st := b), sp_ns := Suc (sp_ns st)\<rparr>)"
| sock_closed: "sp_ctl st = CUser \<Longrightarrow> sp_step K st (st\<lparr>sp_fd := (sp_fd st)(s := -1)\<rparr>)"

abbreviation sp_reach :: "knl \<Rightarrow> bool \<Rightarrow> sproac \<Rightarrow> bool" where
  "sp_reach K handler st \<equiv> (sp_step K)\<^sup>*\<^sup>* (sp_init handler) st"

end
