(* ===== verification/Selector_Facts.thy ===== *)
theory Selector_Facts
  imports Selector_Proactor
begin

text \<open>
  What each function of the selector proactor changes: the fields it writes, as equations that rewrite a call
  into record updates, and the events it can log.
\<close>

section \<open>Events\<close>

fun ticket_of :: "pev \<Rightarrow> (nat \<times> nat) option" where
  "ticket_of (EvSend t s b) = Some (t, s)"
| "ticket_of (EvShut t s) = Some (t, s)"
| "ticket_of (EvClose t s) = Some (t, s)"
| "ticket_of _ = None"

fun fin_of :: "pev \<Rightarrow> (nat \<times> (pyexn + pval)) option" where
  "fin_of (EvFin h out) = Some (h, out)"
| "fin_of _ = None"

definition silent :: "pev list \<Rightarrow> bool" where
  "silent l = (\<forall>e \<in> set l. ticket_of e = None \<and> fin_of e = None)"

lemma silent_Nil [simp]: "silent []"
  by (simp add: silent_def)

lemma call_cb_eq:
  obtains (eq) l x where "call_cb c out st = st\<lparr>sp_log := sp_log st @ l, sp_ctl := x\<rparr>" "silent l" "x = CUser \<or> x = sp_ctl st"
proof -
  have none: thesis if "call_cb c out st = st"
    by (rule eq [where l = "[]" and x = "sp_ctl st"]) (simp_all add: that)
  have one: thesis if "call_cb c out st = (logs [e] st)\<lparr>sp_ctl := CUser\<rparr>" "ticket_of e = None" "fin_of e = None" for e
    by (rule eq [where l = "[e]" and x = CUser]) (simp_all add: that silent_def)
  show thesis
  proof (cases c)
    case (CbUser n)
    thus thesis by (intro one [of "EvCall n out"]) (simp_all add: call_cb_def)
  next
    case (CbFail n)
    show thesis
    proof (cases out)
      case (Inl e)
      thus thesis using CbFail by (intro one [of "EvCall n (Inl e)"]) (simp_all add: call_cb_def)
    qed (simp add: none CbFail call_cb_def)
  next
    case CbReport
    show thesis
    proof (cases "\<exists>e. out = Inl e \<and> sp_handler st")
      case True
      then obtain e where "out = Inl e" "sp_handler st" by blast
      thus thesis using CbReport by (intro one [of "EvReport e"]) (simp_all add: call_cb_def)
    qed (rule none, auto simp: CbReport call_cb_def split: sum.splits)
  qed
qed

lemma finish_oneshot_done: "op_done (sp_h st h) \<Longrightarrow> finish_oneshot h out st = st"
  by (simp add: finish_oneshot_def)

lemma finish_oneshot_eq:
  assumes "\<not> op_done (sp_h st h)"
  obtains l x where "finish_oneshot h out st =
      st\<lparr>sp_h := (sp_h st)(h := (sp_h st h)\<lparr>op_done := True\<rparr>), sp_log := sp_log st @ EvFin h out # l, sp_ctl := x\<rparr>"
    "silent l" "x = CUser \<or> x = sp_ctl st"
proof -
  let ?s = "logs [EvFin h out] (upd_op h (op_done_update (\<lambda>_. True)) st)"
  obtain l x where lx: "call_cb (op_cb (sp_h st h)) out ?s = ?s\<lparr>sp_log := sp_log ?s @ l, sp_ctl := x\<rparr>" "silent l" "x = CUser \<or> x = sp_ctl ?s"
    by (rule call_cb_eq)
  show thesis using lx assms by (intro that [where l = l and x = x]) (auto simp: finish_oneshot_def)
qed

section \<open>Registration\<close>

definition reg_mask :: "sproac \<Rightarrow> int \<Rightarrow> (bool \<times> bool) option" where
  "reg_mask st fd = (if selector_mask fd st = (False, False) then None else Some (selector_mask fd st))"

lemma update_registration_eq:
  obtains n r b x where "update_registration K fd st = st\<lparr>sp_kn := n, sp_reg := r, sp_regfail := b, sp_ctl := x\<rparr>"
    "sp_regfail st \<Longrightarrow> b" "\<not> b \<Longrightarrow> x = sp_ctl st" "\<not> b \<Longrightarrow> r = (if sp_closed st then sp_reg st else (sp_reg st)(fd := reg_mask st fd))"
    "x = sp_ctl st \<or> (b \<and> (\<exists>e. x = CExc (OSErr e)))"
proof (cases "\<exists>e. update_registration K fd st = throw (OSErr e) ((tick st)\<lparr>sp_reg := (sp_reg st)(fd := None), sp_regfail := True\<rparr>)")
  case True
  then obtain e where "update_registration K fd st = throw (OSErr e) ((tick st)\<lparr>sp_reg := (sp_reg st)(fd := None), sp_regfail := True\<rparr>)" ..
  thus thesis by (intro that [where n = "Suc (sp_kn st)" and r = "(sp_reg st)(fd := None)" and b = True and x = "CExc (OSErr e)"]) auto
next
  case False
  let ?u = "update_registration K fd st"
  have "\<exists>n. ?u = st\<lparr>sp_kn := n, sp_reg := (if sp_closed st then sp_reg st else (sp_reg st)(fd := reg_mask st fd))\<rparr>"
    using False
    by (auto simp: update_registration_def reg_call_def reg_mask_def Let_def fun_upd_idem split: option.splits kans.splits
             intro: exI [of _ "sp_kn st"] exI [of _ "Suc (sp_kn st)"])
  then obtain n where "?u = st\<lparr>sp_kn := n, sp_reg := (if sp_closed st then sp_reg st else (sp_reg st)(fd := reg_mask st fd))\<rparr>" ..
  thus thesis
    by (intro that [where n = n and r = "if sp_closed st then sp_reg st else (sp_reg st)(fd := reg_mask st fd)" and b = "sp_regfail st" and x = "sp_ctl st"])
       simp_all
qed

section \<open>Attempts\<close>

lemma probe_eq: obtains r n where "probe K fd m st = (r, st\<lparr>sp_kn := n\<rparr>)"
  by (simp add: probe_def)

lemma sys_eq: obtains r n where "sys K s st = (r, st\<lparr>sp_kn := n\<rparr>)"
  by (metis sys_frame surj_pair)

definition sends :: "nat \<Rightarrow> nat \<Rightarrow> pev list \<Rightarrow> bool" where
  "sends t s l = (\<forall>e \<in> set l. \<exists>b. e = EvSend t s b)"

definition sent_bytes :: "nat \<Rightarrow> pev list \<Rightarrow> nat list" where
  "sent_bytes t l = concat (map (\<lambda>e. case e of EvSend u s b \<Rightarrow> if u = t then b else [] | _ \<Rightarrow> []) l)"

lemma sent_bytes_append [simp]: "sent_bytes t (l @ l') = sent_bytes t l @ sent_bytes t l'"
  by (simp add: sent_bytes_def)

lemma sent_bytes_simps [simp]:
  "sent_bytes t [] = []"
  "sent_bytes t (EvSend u s b # l) = (if u = t then b else []) @ sent_bytes t l"
  "(\<forall>u s b. e \<noteq> EvSend u s b) \<Longrightarrow> sent_bytes t (e # l) = sent_bytes t l"
  by (simp_all add: sent_bytes_def split: pev.splits)

lemma sends_simps [simp]:
  "sends t s []"
  "sends t s (e # l) \<longleftrightarrow> (\<exists>b. e = EvSend t s b) \<and> sends t s l"
  "sends t s (l @ l') \<longleftrightarrow> sends t s l \<and> sends t s l'"
  by (auto simp: sends_def)

text \<open>The loop of \<open>send_all\<close>: the bytes it hands to the kernel are the next ones of the view, and it returns only
  when all are gone.\<close>

lemma send_loop_eq:
  assumes "op_off (sp_h st h) \<le> length (op_view (sp_h st h))"
  shows "\<exists>r n l i. send_loop K h st = (r, st\<lparr>sp_kn := n, sp_log := sp_log st @ l, sp_h := (sp_h st)(h := (sp_h st h)\<lparr>op_off := i\<rparr>)\<rparr>)
     \<and> sends (op_tk (sp_h st h)) (op_sock (sp_h st h)) l \<and> (l \<noteq> [] \<longrightarrow> 0 \<le> sp_fd st (op_sock (sp_h st h)))
     \<and> op_off (sp_h st h) \<le> i \<and> i \<le> length (op_view (sp_h st h))
     \<and> sent_bytes (op_tk (sp_h st h)) l = take (i - op_off (sp_h st h)) (drop (op_off (sp_h st h)) (op_view (sp_h st h)))
     \<and> (\<forall>v. r = AVal v \<longrightarrow> i = length (op_view (sp_h st h)) \<and> v = VInt (length (op_view (sp_h st h))))"
  using assms
proof (induction K h st rule: send_loop.induct)
  case (1 K h st)
  let ?o = "sp_h st h"
  show ?case
  proof (cases "op_off ?o < length (op_view ?o)")
    case False
    hence "send_loop K h st = (AVal (VInt (op_off ?o)), st\<lparr>sp_kn := sp_kn st, sp_log := sp_log st @ [], sp_h := (sp_h st)(h := ?o\<lparr>op_off := op_off ?o\<rparr>)\<rparr>)"
      by (subst send_loop.simps) simp
    thus ?thesis using "1.prems" False
      by - (rule exI [of _ "AVal (VInt (op_off ?o))"], rule exI [of _ "sp_kn st"], rule exI [of _ "[]"], rule exI [of _ "op_off ?o"], intro conjI, assumption, simp_all)
  next
    case less: True
    obtain r st' where s: "sock_send K (op_tk ?o) (op_sock ?o) (drop (op_off ?o) (op_view ?o)) st = (r, st')" by (meson surj_pair)
    from s show ?thesis
    proof (cases rule: sock_send_cases)
      case (none n)
      have "\<exists>r. send_loop K h st = (r, st') \<and> (\<forall>v. r \<noteq> AVal v)"
        using none(2) less s by (subst send_loop.simps) auto
      then obtain q where q: "send_loop K h st = (q, st')" "\<forall>v. q \<noteq> AVal v" by blast
      show ?thesis unfolding q(1) none(1) using q(2) "1.prems"
        by - (rule exI [of _ q], rule exI [of _ n], rule exI [of _ "[]"], rule exI [of _ "op_off ?o"], simp)
    next
      case (some n m)
      let ?s2 = "upd_op h (op_off_update (\<lambda>_. op_off ?o + m)) st'"
      have u: "send_loop K h st = send_loop K h ?s2"
        using some(1,4) less s by (subst send_loop.simps) simp
      have o: "sp_h ?s2 h = ?o\<lparr>op_off := op_off ?o + m\<rparr>" by (simp add: some(5))
      have "op_off (sp_h ?s2 h) \<le> length (op_view (sp_h ?s2 h))" using some(2) less unfolding o by simp
      note ih = "1.IH" [OF refl less s [symmetric] some(4) refl _ this]
      have "m \<noteq> 0" using some(1) by simp
      from ih [OF this] obtain r2 n2 l2 i2 where i0:
        "send_loop K h ?s2 = (r2, ?s2\<lparr>sp_kn := n2, sp_log := sp_log ?s2 @ l2, sp_h := (sp_h ?s2)(h := (sp_h ?s2 h)\<lparr>op_off := i2\<rparr>)\<rparr>)"
        "sends (op_tk (sp_h ?s2 h)) (op_sock (sp_h ?s2 h)) l2" "op_off (sp_h ?s2 h) \<le> i2" "i2 \<le> length (op_view (sp_h ?s2 h))"
        "sent_bytes (op_tk (sp_h ?s2 h)) l2 = take (i2 - op_off (sp_h ?s2 h)) (drop (op_off (sp_h ?s2 h)) (op_view (sp_h ?s2 h)))"
        "\<forall>v. r2 = AVal v \<longrightarrow> i2 = length (op_view (sp_h ?s2 h)) \<and> v = VInt (length (op_view (sp_h ?s2 h)))"
        by (elim exE conjE) (rule that)
      have i: "sends (op_tk ?o) (op_sock ?o) l2" "op_off ?o + m \<le> i2" "i2 \<le> length (op_view ?o)"
        "sent_bytes (op_tk ?o) l2 = take (i2 - (op_off ?o + m)) (drop (op_off ?o + m) (op_view ?o))"
        "\<forall>v. r2 = AVal v \<longrightarrow> i2 = length (op_view ?o) \<and> v = VInt (length (op_view ?o))"
        using i0(2-) unfolding o by auto
      have "take m (drop (op_off ?o) (op_view ?o)) @ sent_bytes (op_tk ?o) l2 = take (i2 - op_off ?o) (drop (op_off ?o) (op_view ?o))"
      proof -
        have "i2 - op_off ?o = m + (i2 - (op_off ?o + m))" using i(2) by simp
        thus ?thesis unfolding i(4) by (simp only: take_add drop_drop add.commute)
      qed
      moreover have fe: "(sp_h ?s2)(h := (sp_h ?s2 h)\<lparr>op_off := i2\<rparr>) = (sp_h st)(h := ?o\<lparr>op_off := i2\<rparr>)"
        by (rule ext) (simp add: some(5))
      moreover have "sp_h_update (\<lambda>_. f) (sp_h_update (\<lambda>_. g) s) = sp_h_update (\<lambda>_. f) s" for f g s by simp
      ultimately show ?thesis unfolding u i0(1) fe using i some(3,5)
        by - (rule exI [of _ r2], rule exI [of _ n2], rule exI [of _ "EvSend (op_tk ?o) (op_sock ?o) (take m (drop (op_off ?o) (op_view ?o))) # l2"], rule exI [of _ i2], simp add: fun_upd_def)
    qed
  qed
qed

definition attempt_post :: "nat \<Rightarrow> sproac \<Rightarrow> aout \<Rightarrow> nat \<Rightarrow> pev list \<Rightarrow> nat \<Rightarrow> bool \<Rightarrow> sproac \<Rightarrow> bool" where
  "attempt_post h st r n l i b st' =
     (st' = st\<lparr>sp_kn := n, sp_log := sp_log st @ l, sp_h := (sp_h st)(h := (sp_h st h)\<lparr>op_off := i, op_started := b\<rparr>)\<rparr>
      \<and> sends (op_tk (sp_h st h)) (op_sock (sp_h st h)) l
      \<and> (l \<noteq> [] \<longrightarrow> 0 \<le> sp_fd st (op_sock (sp_h st h)) \<and> op_kind (sp_h st h) \<in> {Send, SendAll})
      \<and> (op_kind (sp_h st h) \<noteq> SendAll \<longrightarrow> i = op_off (sp_h st h))
      \<and> (op_kind (sp_h st h) = SendAll \<longrightarrow> op_off (sp_h st h) \<le> i \<and> i \<le> length (op_view (sp_h st h))
          \<and> sent_bytes (op_tk (sp_h st h)) l = take (i - op_off (sp_h st h)) (drop (op_off (sp_h st h)) (op_view (sp_h st h)))
          \<and> (\<forall>v. r = AVal v \<longrightarrow> i = length (op_view (sp_h st h)) \<and> v = VInt (length (op_view (sp_h st h))))))"

lemma op_same: "st = st\<lparr>sp_h := (sp_h st)(h := (sp_h st h)\<lparr>op_off := op_off (sp_h st h), op_started := op_started (sp_h st h)\<rparr>)\<rparr>"
  by simp

lemma attempt_post_quiet:
  assumes "op_kind (sp_h st h) \<noteq> SendAll" "st' = st\<lparr>sp_kn := n\<rparr>"
  shows "attempt_post h st r n [] (op_off (sp_h st h)) (op_started (sp_h st h)) st'"
  using assms by (simp add: attempt_post_def)

lemma finish_connect_eq:
  obtains r n b where "finish_connect K h st = (r, st\<lparr>sp_kn := n, sp_h := (sp_h st)(h := (sp_h st h)\<lparr>op_started := b\<rparr>)\<rparr>)"
proof (cases "op_started (sp_h st h)")
  case True
  obtain r n where s: "sys K (op_sock (sp_h st h)) st = (r, st\<lparr>sp_kn := n\<rparr>)" by (rule sys_eq)
  have "\<exists>r. finish_connect K h st = (r, st\<lparr>sp_kn := n\<rparr>)"
    using True s by (auto simp: finish_connect_def Let_def split: aout.splits pval.splits)
  moreover have "(sp_h st)(h := (sp_h st h)\<lparr>op_started := True\<rparr>) = sp_h st" using True by (intro ext) simp
  ultimately show thesis by (auto intro: that [where b = True])
next
  case False
  let ?s = "upd_op h (op_started_update (\<lambda>_. True)) st"
  obtain r n where s: "sys K (op_sock (sp_h st h)) ?s = (r, ?s\<lparr>sp_kn := n\<rparr>)" by (rule sys_eq)
  have "\<exists>r. finish_connect K h st = (r, ?s\<lparr>sp_kn := n\<rparr>)"
    using False s by (auto simp: finish_connect_def Let_def split: aout.splits pyexn.splits)
  then obtain r where "finish_connect K h st = (r, ?s\<lparr>sp_kn := n\<rparr>)" ..
  thus thesis by (intro that [where r = r and n = n and b = True]) simp
qed

lemma attempt_eq:
  assumes "op_off (sp_h st h) \<le> length (op_view (sp_h st h))"
  obtains r n l i b st' where "attempt K h st = (r, st')" "attempt_post h st r n l i b st'"
proof -
  let ?o = "sp_h st h"
  have "\<exists>r n l i b st'. attempt K h st = (r, st') \<and> attempt_post h st r n l i b st'"
  proof -
    consider (all) "op_kind ?o = SendAll" | (send) "op_kind ?o = Send" | (con) "op_kind ?o = Connect" | (poll) "op_kind ?o = PollOp"
      | (other) "op_kind ?o \<notin> {SendAll, Send, Connect, PollOp}" by auto
    thus ?thesis
    proof cases
      case all
      obtain r n l i where "send_loop K h st = (r, st\<lparr>sp_kn := n, sp_log := sp_log st @ l, sp_h := (sp_h st)(h := ?o\<lparr>op_off := i\<rparr>)\<rparr>)"
        "sends (op_tk ?o) (op_sock ?o) l" "l \<noteq> [] \<longrightarrow> 0 \<le> sp_fd st (op_sock ?o)" "op_off ?o \<le> i" "i \<le> length (op_view ?o)"
        "sent_bytes (op_tk ?o) l = take (i - op_off ?o) (drop (op_off ?o) (op_view ?o))"
        "\<forall>v. r = AVal v \<longrightarrow> i = length (op_view ?o) \<and> v = VInt (length (op_view ?o))"
        using send_loop_eq [OF assms, of K] by (elim exE conjE) (rule that)
      hence "attempt K h st = (r, st\<lparr>sp_kn := n, sp_log := sp_log st @ l, sp_h := (sp_h st)(h := ?o\<lparr>op_off := i\<rparr>)\<rparr>)"
        "attempt_post h st r n l i (op_started ?o) (st\<lparr>sp_kn := n, sp_log := sp_log st @ l, sp_h := (sp_h st)(h := ?o\<lparr>op_off := i\<rparr>)\<rparr>)"
        using all by (simp_all add: attempt_def attempt_post_def Let_def)
      thus ?thesis by blast
    next
      case send
      obtain r st' where s: "sock_send K (op_tk ?o) (op_sock ?o) (op_view ?o) st = (r, st')" by (meson surj_pair)
      hence a: "attempt K h st = (r, st')" using send by (simp add: attempt_def Let_def)
      from s have "\<exists>n l. attempt_post h st r n l (op_off ?o) (op_started ?o) st'"
      proof (cases rule: sock_send_cases)
        case (none n)
        have "op_kind ?o \<noteq> SendAll" using send by simp
        thus ?thesis using attempt_post_quiet none(1) by blast
      next
        case (some n m)
        thus ?thesis using send
          by (intro exI [of _ n] exI [of _ "[EvSend (op_tk ?o) (op_sock ?o) (take m (op_view ?o))]"]) (simp add: attempt_post_def)
      qed
      with a show ?thesis by blast
    next
      case con
      obtain r n b where "finish_connect K h st = (r, st\<lparr>sp_kn := n, sp_h := (sp_h st)(h := ?o\<lparr>op_started := b\<rparr>)\<rparr>)"
        by (rule finish_connect_eq)
      hence "attempt K h st = (r, st\<lparr>sp_kn := n, sp_h := (sp_h st)(h := ?o\<lparr>op_started := b\<rparr>)\<rparr>)"
        "attempt_post h st r n [] (op_off ?o) b (st\<lparr>sp_kn := n, sp_h := (sp_h st)(h := ?o\<lparr>op_started := b\<rparr>)\<rparr>)"
        using con by (simp_all add: attempt_def attempt_post_def Let_def)
      thus ?thesis by blast
    next
      case poll
      obtain r n where "probe K (op_fd ?o) (op_mask ?o) st = (r, st\<lparr>sp_kn := n\<rparr>)" by (rule probe_eq)
      hence "attempt K h st = (r, st\<lparr>sp_kn := n\<rparr>)" using poll by (simp add: attempt_def Let_def)
      thus ?thesis using attempt_post_quiet [of st h _ n r] poll by fastforce
    next
      case other
      obtain r n where "sys K (op_sock ?o) st = (r, st\<lparr>sp_kn := n\<rparr>)" by (rule sys_eq)
      hence "attempt K h st = (r, st\<lparr>sp_kn := n\<rparr>)" using other by (simp add: attempt_def Let_def split: opkind.splits)
      thus ?thesis using attempt_post_quiet [of st h _ n r] other by fastforce
    qed
  qed
  thus thesis using that by blast
qed

end
