(* ===== verification/Selector_Order.thy ===== *)
theory Selector_Order
  imports Selector_Facts
begin

text \<open>
  The order of write-side operations.  Every submission has a ticket; the writer in flight and the queue
  of an entry hold tickets in ascending order, and the system calls of a socket are logged in that order.
\<close>

section \<open>Tickets\<close>

definition is_send :: "opkind \<Rightarrow> bool" where
  "is_send k = (k = Send \<or> k = SendAll)"

fun run_sock :: "(nat \<Rightarrow> oph) \<Rightarrow> wrun \<Rightarrow> nat" where
  "run_sock hs (RStart h) = op_sock (hs h)"
| "run_sock hs (RShutdown s c) = s"
| "run_sock hs (RShutdownNw s) = s"
| "run_sock hs (RClose s c) = s"
| "run_sock hs (RCloseNw s) = s"

definition queue_tickets :: "(nat \<Rightarrow> oph) \<Rightarrow> qwrite list \<Rightarrow> (nat \<times> nat) list" where
  "queue_tickets hs qs = map (\<lambda>q. (qw_tk q, run_sock hs (qw_run q))) qs"

definition writer_tickets :: "(nat \<Rightarrow> oph) \<Rightarrow> nat option \<Rightarrow> (nat \<times> nat) list" where
  "writer_tickets hs w = (case w of None \<Rightarrow> [] | Some h \<Rightarrow> if is_send (op_kind (hs h)) then [(op_tk (hs h), op_sock (hs h))] else [])"

definition en_tickets :: "(nat \<Rightarrow> oph) \<Rightarrow> fdentry \<Rightarrow> (nat \<times> nat) list" where
  "en_tickets hs en = writer_tickets hs (en_writer en) @ queue_tickets hs (en_queue en)"

definition tickets :: "nat \<Rightarrow> pev list \<Rightarrow> nat list" where
  "tickets s l = concat (map (\<lambda>e. case ticket_of e of Some (t, u) \<Rightarrow> if u = s then [t] else [] | None \<Rightarrow> []) l)"

text \<open>A queued item is either the start of a send and has its handle, or has none.\<close>

definition queued_ok :: "(nat \<Rightarrow> oph) \<Rightarrow> nat \<Rightarrow> qwrite \<Rightarrow> bool" where
  "queued_ok hs n q =
     (case qw_run q of RStart h \<Rightarrow> qw_handle q = Some h \<and> h < n \<and> is_send (op_kind (hs h)) \<and> qw_tk q = op_tk (hs h) | _ \<Rightarrow> qw_handle q = None)"

definition entry_ok :: "sproac \<Rightarrow> int \<Rightarrow> fdentry \<Rightarrow> bool" where
  "entry_ok st fd en =
     (0 \<le> fd \<and> sorted_wrt (<) (map fst (en_tickets (sp_h st) en))
      \<and> (\<forall>(t, s) \<in> set (en_tickets (sp_h st) en). t < sp_tk st \<and> s < sp_ns st \<and> (sp_fd st s = fd \<or> sp_fd st s < 0) \<and> (\<forall>u \<in> set (tickets s (sp_log st)). u \<le> t))
      \<and> (\<forall>q \<in> set (en_queue en). queued_ok (sp_h st) (sp_nh st) q)
      \<and> (\<forall>h. en_reader en = Some h \<longrightarrow> h < sp_nh st \<and> \<not> is_send (op_kind (sp_h st h)))
      \<and> (\<forall>h. en_writer en = Some h \<longrightarrow> h < sp_nh st))"

definition order_ok :: "sproac \<Rightarrow> bool" where
  "order_ok st =
     (distinct (map fst (sp_slots st)) \<and> (\<forall>s \<ge> sp_ns st. sp_fd st s < 0)
      \<and> (\<forall>fd en. entry_of st fd = Some en \<longrightarrow> entry_ok st fd en)
      \<and> (\<forall>s. sorted (tickets s (sp_log st)) \<and> (\<forall>t \<in> set (tickets s (sp_log st)). t < sp_tk st)))"

definition turn :: "nat \<Rightarrow> nat \<Rightarrow> sproac \<Rightarrow> bool" where
  "turn t s st =
     (t < sp_tk st \<and> (\<forall>u \<in> set (tickets s (sp_log st)). u \<le> t)
      \<and> (0 \<le> sp_fd st s \<longrightarrow> (\<forall>en. entry_of st (sp_fd st s) = Some en \<longrightarrow> (\<forall>p \<in> set (en_tickets (sp_h st) en). t < fst p))))"

definition may_write :: "nat \<Rightarrow> nat \<Rightarrow> sproac \<Rightarrow> bool" where
  "may_write t s st =
     (t < sp_tk st \<and> (\<forall>u \<in> set (tickets s (sp_log st)). u \<le> t)
      \<and> (0 \<le> sp_fd st s \<longrightarrow> (\<forall>en. entry_of st (sp_fd st s) = Some en \<longrightarrow> (\<forall>p \<in> set (en_tickets (sp_h st) en). t \<le> fst p))))"

lemma turn_may_write: "turn t s st \<Longrightarrow> may_write t s st"
  by (auto simp: turn_def may_write_def intro: less_imp_le)

lemma tickets_simps [simp]:
  "tickets s [] = []"
  "tickets s (l @ l') = tickets s l @ tickets s l'"
  "tickets s (e # l) = (case ticket_of e of Some (t, u) \<Rightarrow> if u = s then [t] else [] | None \<Rightarrow> []) @ tickets s l"
  by (simp_all add: tickets_def)

lemma tickets_silent: "silent l \<Longrightarrow> tickets s l = []"
  by (auto simp: tickets_def silent_def)

definition by_ticket :: "nat \<Rightarrow> nat \<Rightarrow> pev list \<Rightarrow> bool" where
  "by_ticket t s l = (\<forall>e \<in> set l. ticket_of e = Some (t, s) \<or> ticket_of e = None)"

lemma tickets_by_ticket:
  assumes "by_ticket t s l"
  shows "set (tickets u l) \<subseteq> (if u = s then {t} else {})" "sorted (tickets u l)"
proof -
  show "set (tickets u l) \<subseteq> (if u = s then {t} else {})"
    using assms by (fastforce simp: tickets_def by_ticket_def split: option.splits)
  hence "\<exists>n. tickets u l = replicate n t"
    by (metis (full_types) empty_iff in_mono insert_iff list.set_intros(1) neq_Nil_conv replicate_eqI replicate_empty)
  thus "sorted (tickets u l)" by auto
qed

lemma sends_by_ticket: "sends t s l \<Longrightarrow> by_ticket t s l"
  by (auto simp: sends_def by_ticket_def)

section \<open>Changes that keep the order\<close>

text \<open>The fields the invariant reads.\<close>

definition same_ops :: "nat \<Rightarrow> (nat \<Rightarrow> oph) \<Rightarrow> (nat \<Rightarrow> oph) \<Rightarrow> bool" where
  "same_ops n hs hs' = (\<forall>h < n. op_kind (hs' h) = op_kind (hs h) \<and> op_sock (hs' h) = op_sock (hs h) \<and> op_tk (hs' h) = op_tk (hs h))"

lemma same_ops_refl [simp]: "same_ops n hs hs"
  by (simp add: same_ops_def)

lemma en_tickets_cong:
  assumes "same_ops n hs hs'" "\<forall>h. en_writer en = Some h \<longrightarrow> h < n" "\<forall>q \<in> set (en_queue en). queued_ok hs n q"
  shows "en_tickets hs' en = en_tickets hs en"
proof -
  have "run_sock hs' (qw_run q) = run_sock hs (qw_run q)" if "q \<in> set (en_queue en)" for q
    using assms(1,3) that by (cases "qw_run q") (fastforce simp: queued_ok_def same_ops_def)+
  moreover have "writer_tickets hs' (en_writer en) = writer_tickets hs (en_writer en)"
    using assms(1,2) by (auto simp: writer_tickets_def same_ops_def split: option.splits)
  ultimately show ?thesis by (simp add: en_tickets_def queue_tickets_def)
qed

lemma queued_ok_cong:
  assumes "same_ops n hs hs'" "n \<le> n'" "queued_ok hs n q"
  shows "queued_ok hs' n' q"
  using assms by (cases "qw_run q") (auto simp: queued_ok_def same_ops_def)

lemma entry_ok_cong:
  assumes "entry_ok st fd en" "same_ops (sp_nh st) (sp_h st) (sp_h st')" "sp_nh st \<le> sp_nh st'" "sp_tk st \<le> sp_tk st'" "sp_ns st \<le> sp_ns st'"
    and "\<forall>(t, s) \<in> set (en_tickets (sp_h st) en). (sp_fd st' s = sp_fd st s \<or> sp_fd st' s < 0) \<and> (\<forall>u \<in> set (tickets s (sp_log st')). u \<le> t)"
  shows "entry_ok st' fd en"
proof -
  have p: "en_tickets (sp_h st') en = en_tickets (sp_h st) en"
    using assms(1) by (intro en_tickets_cong [OF assms(2)]) (simp_all add: entry_ok_def)
  have "queued_ok (sp_h st') (sp_nh st') q" if "q \<in> set (en_queue en)" for q
    using queued_ok_cong [OF assms(2,3)] assms(1) that by (simp add: entry_ok_def)
  moreover have "h < sp_nh st'" if "en_writer en = Some h \<or> en_reader en = Some h" for h
    using assms(1,3) that by (auto simp: entry_ok_def)
  moreover have "\<not> is_send (op_kind (sp_h st' h))" if "en_reader en = Some h" for h
    using assms(1,2) that by (auto simp: entry_ok_def same_ops_def)
  ultimately show ?thesis using assms(1,4-6) unfolding entry_ok_def p by fastforce
qed

lemma order_ok_keep:
  assumes "order_ok st" "sp_slots st' = sp_slots st" "same_ops (sp_nh st) (sp_h st) (sp_h st')" "sp_nh st \<le> sp_nh st'" "sp_tk st \<le> sp_tk st'"
    and "sp_fd st' = sp_fd st" "\<forall>s. tickets s (sp_log st') = tickets s (sp_log st)" "sp_ns st' = sp_ns st"
  shows "order_ok st'"
proof -
  have l: "tickets s (sp_log st') = tickets s (sp_log st)" for s using assms(7) by simp
  have "entry_ok st' fd en" if "entry_of st fd = Some en" for fd en
  proof (rule entry_ok_cong [OF _ assms(3-5)])
    show "sp_ns st \<le> sp_ns st'" by (simp add: assms(8))
    show "entry_ok st fd en" using assms(1) that by (simp add: order_ok_def)
    thus "\<forall>(t, s) \<in> set (en_tickets (sp_h st) en). (sp_fd st' s = sp_fd st s \<or> sp_fd st' s < 0) \<and> (\<forall>u \<in> set (tickets s (sp_log st')). u \<le> t)"
      unfolding l assms(6) entry_ok_def by fastforce
  qed
  thus ?thesis using assms(1,5) unfolding order_ok_def l assms(2,6,8) by fastforce
qed

text \<open>A system call of an operation whose turn it is.\<close>

lemma order_ok_write:
  assumes "order_ok st" "may_write t s st" "0 \<le> sp_fd st s" "by_ticket t s l"
    and "sp_slots st' = sp_slots st" "same_ops (sp_nh st) (sp_h st) (sp_h st')" "sp_nh st' = sp_nh st" "sp_tk st' = sp_tk st"
    and "sp_log st' = sp_log st @ l" "\<forall>u. sp_fd st' u = sp_fd st u \<or> sp_fd st' u < 0" "sp_ns st' = sp_ns st"
  shows "order_ok st'"
proof -
  have new: "set (tickets u l) \<subseteq> (if u = s then {t} else {})" "sorted (tickets u l)" for u
    using tickets_by_ticket [OF assms(4)] by blast+
  have log: "sorted (tickets u (sp_log st')) \<and> (\<forall>x \<in> set (tickets u (sp_log st')). x < sp_tk st')" for u
  proof -
    have "sorted (tickets u (sp_log st))" "\<forall>x \<in> set (tickets u (sp_log st)). x < sp_tk st" using assms(1) by (simp_all add: order_ok_def)
    moreover have "x \<le> y" if "x \<in> set (tickets u (sp_log st))" "y \<in> set (tickets u l)" for x y
      using that new(1) [of u] assms(2) by (auto simp: may_write_def split: if_splits)
    moreover have "x < sp_tk st" if "x \<in> set (tickets u l)" for x
      using that new(1) [of u] assms(2) by (auto simp: may_write_def split: if_splits)
    ultimately show ?thesis using new(2) [of u] unfolding assms(8,9) by (auto simp: sorted_append)
  qed
  have "entry_ok st' fd en" if en: "entry_of st fd = Some en" for fd en
  proof (rule entry_ok_cong [OF _ assms(6)])
    show ok: "entry_ok st fd en" using assms(1) en by (simp add: order_ok_def)
    have "u \<le> a" if p: "(a, b) \<in> set (en_tickets (sp_h st) en)" and u: "u \<in> set (tickets b (sp_log st'))" for a b u
    proof (cases "u \<in> set (tickets b (sp_log st))")
      case True
      thus ?thesis using ok p by (auto simp: entry_ok_def)
    next
      case False
      hence "u \<in> set (tickets b l)" using u assms(9) by simp
      hence ub: "u = t" "b = s" using new(1) [of b] by (auto split: if_splits)
      have "sp_fd st b = fd" using ok p assms(3) ub by (fastforce simp: entry_ok_def)
      thus ?thesis using assms(2,3) en p ub by (fastforce simp: may_write_def)
    qed
    thus "\<forall>(t, s) \<in> set (en_tickets (sp_h st) en). (sp_fd st' s = sp_fd st s \<or> sp_fd st' s < 0) \<and> (\<forall>u \<in> set (tickets s (sp_log st')). u \<le> t)"
      using assms(10) by auto
  qed (simp_all add: assms(7,8,11))
  moreover have "\<forall>u \<ge> sp_ns st'. sp_fd st' u < 0" using assms(1,10) unfolding order_ok_def assms(11) by (metis order_less_trans)
  ultimately show ?thesis using assms(1) log unfolding order_ok_def assms(5) by simp
qed

lemma order_ok_put:
  assumes "order_ok st" "entry_ok st fd en" "sp_slots st' = AList.update fd en (sp_slots st)" "sp_h st' = sp_h st" "sp_nh st' = sp_nh st"
    and "sp_tk st' = sp_tk st" "sp_fd st' = sp_fd st" "sp_log st' = sp_log st" "sp_ns st' = sp_ns st"
  shows "order_ok st'"
proof -
  have "entry_ok st' = entry_ok st" by (intro ext) (simp add: entry_ok_def assms(4-9))
  thus ?thesis using assms(1,2) unfolding order_ok_def assms(3,6-9) by (auto simp: distinct_update update_conv' split: if_splits)
qed

lemma order_ok_delete:
  assumes "order_ok st"
  shows "order_ok (st\<lparr>sp_slots := AList.delete fd (sp_slots st)\<rparr>)"
proof -
  have "entry_ok (st\<lparr>sp_slots := AList.delete fd (sp_slots st)\<rparr>) = entry_ok st" by (intro ext) (simp add: entry_ok_def)
  thus ?thesis using assms by (auto simp: order_ok_def distinct_delete delete_conv' split: if_splits)
qed

section \<open>Functions that leave slots and sockets alone\<close>

definition views_ok :: "sproac \<Rightarrow> bool" where
  "views_ok st = (\<forall>h. op_off (sp_h st h) \<le> length (op_view (sp_h st h)))"

definition calm :: "sproac \<Rightarrow> sproac \<Rightarrow> bool" where
  "calm st st' = (sp_slots st' = sp_slots st \<and> same_ops (sp_nh st) (sp_h st) (sp_h st') \<and> sp_nh st' = sp_nh st \<and> sp_tk st' = sp_tk st
     \<and> sp_fd st' = sp_fd st \<and> sp_ns st' = sp_ns st \<and> (\<forall>s. tickets s (sp_log st') = tickets s (sp_log st)) \<and> (views_ok st \<longrightarrow> views_ok st'))"

definition ordered :: "sproac \<Rightarrow> bool" where
  "ordered st = (order_ok st \<and> views_ok st)"

lemma calm_refl [simp]: "calm st st"
  by (simp add: calm_def)

lemma calm_trans [trans]: "calm a b \<Longrightarrow> calm b c \<Longrightarrow> calm a c"
  by (auto simp: calm_def same_ops_def)

lemma calm_ordered: "calm st st' \<Longrightarrow> ordered st \<Longrightarrow> ordered st'"
  unfolding calm_def ordered_def by (metis order_ok_keep order_refl)

lemma ordered_fields [simp]:
  "ordered (st\<lparr>sp_stk := k\<rparr>) = ordered st" "ordered (st\<lparr>sp_ctl := x\<rparr>) = ordered st" "ordered (st\<lparr>sp_kn := n\<rparr>) = ordered st"
  "ordered (st\<lparr>sp_rej := r\<rparr>) = ordered st" "ordered (st\<lparr>sp_reg := g\<rparr>) = ordered st" "ordered (st\<lparr>sp_regfail := b\<rparr>) = ordered st"
  "ordered (st\<lparr>sp_cbraise := b\<rparr>) = ordered st" "ordered (st\<lparr>sp_closed := b\<rparr>) = ordered st" "ordered (st\<lparr>sp_blk := bs\<rparr>) = ordered st"
  by (simp_all add: ordered_def order_ok_def entry_ok_def views_ok_def)

lemma calm_turn:
  assumes "calm st st'" "order_ok st" "turn t s st"
  shows "turn t s st'"
proof -
  have "en_tickets (sp_h st') en = en_tickets (sp_h st) en" if "entry_of st fd = Some en" for fd en
    using assms(1,2) that by (intro en_tickets_cong [of "sp_nh st"]) (auto simp: calm_def order_ok_def entry_ok_def)
  thus ?thesis using assms(1,3) by (auto simp: turn_def calm_def)
qed

lemma calm_fields [simp]:
  "calm st (st\<lparr>sp_stk := k\<rparr>)" "calm st (st\<lparr>sp_ctl := x\<rparr>)" "calm st (st\<lparr>sp_kn := n\<rparr>)" "calm st (st\<lparr>sp_rej := r\<rparr>)"
  "calm st (st\<lparr>sp_stk := k, sp_ctl := x\<rparr>)"
  by (simp_all add: calm_def views_ok_def)

lemma calm_call_cb: "calm st (call_cb c out st)"
proof -
  obtain l x where "call_cb c out st = st\<lparr>sp_log := sp_log st @ l, sp_ctl := x\<rparr>" "silent l" by (rule call_cb_eq)
  thus ?thesis by (simp add: calm_def tickets_silent views_ok_def)
qed

lemma calm_finish: "calm st (finish_oneshot h out st)"
proof (cases "op_done (sp_h st h)")
  case False
  then obtain l x where "finish_oneshot h out st =
      st\<lparr>sp_h := (sp_h st)(h := (sp_h st h)\<lparr>op_done := True\<rparr>), sp_log := sp_log st @ EvFin h out # l, sp_ctl := x\<rparr>" "silent l"
    by (rule finish_oneshot_eq)
  thus ?thesis by (simp add: calm_def tickets_silent views_ok_def same_ops_def)
qed (simp add: finish_oneshot_done)

lemma calm_emit: "calm st (emit h d st)"
  by (simp add: emit_def calm_def views_ok_def)

lemma calm_terminalise: "calm st (terminalise_cancelled h st)"
  by (simp add: terminalise_cancelled_def calm_emit calm_finish)

lemma calm_update: "calm st (update_registration K fd st)"
  by (rule update_registration_eq [of K fd st]) (simp add: calm_def views_ok_def)

lemma calm_reject: "calm st (reject h e st)"
  by (simp add: reject_def calm_def views_ok_def)

lemma calm_settle: "calm st (try_complete h r st)"
  by (simp add: try_complete_def calm_finish split: aout.splits)

lemma calm_give_reply: "calm st (give_reply r err st)"
  by (simp add: give_reply_def calm_call_cb split: reply.splits option.splits)

lemma calm_set_callback: "calm st (set_operation_callback h c st)"
  by (simp add: set_operation_callback_def calm_def views_ok_def same_ops_def)

lemma calm_next: "calm st (upd_op h (op_next_update f) st)"
  by (simp add: calm_def views_ok_def same_ops_def)

lemmas calm_intros = calm_call_cb calm_finish calm_emit calm_terminalise calm_update calm_reject calm_settle calm_give_reply
  calm_set_callback calm_next

lemma views_alone: "sp_h st' = sp_h st \<Longrightarrow> views_ok st' = views_ok st"
  by (simp add: views_ok_def)

lemma ordered_view: "ordered st \<Longrightarrow> op_off (sp_h st h) \<le> length (op_view (sp_h st h))"
  by (simp add: ordered_def views_ok_def)

section \<open>Attempts and slots\<close>

lemma attempt_ordered:
  assumes "ordered st" "attempt_post h st r n l i b st'"
    and "is_send (op_kind (sp_h st h)) \<Longrightarrow> may_write (op_tk (sp_h st h)) (op_sock (sp_h st h)) st"
  shows "ordered st'" "same_ops (sp_nh st) (sp_h st) (sp_h st')" "sp_slots st' = sp_slots st" "sp_nh st' = sp_nh st" "sp_tk st' = sp_tk st"
    "sp_fd st' = sp_fd st" "sp_ns st' = sp_ns st" "turn (op_tk (sp_h st h)) (op_sock (sp_h st h)) st \<Longrightarrow> turn (op_tk (sp_h st h)) (op_sock (sp_h st h)) st'"
proof -
  let ?o = "sp_h st h"
  have st': "st' = st\<lparr>sp_kn := n, sp_log := sp_log st @ l, sp_h := (sp_h st)(h := ?o\<lparr>op_off := i, op_started := b\<rparr>)\<rparr>"
    and l: "sends (op_tk ?o) (op_sock ?o) l" "l \<noteq> [] \<Longrightarrow> 0 \<le> sp_fd st (op_sock ?o) \<and> is_send (op_kind ?o)"
    and i: "i \<le> length (op_view ?o)"
    using assms(1,2) by (auto simp: attempt_post_def is_send_def ordered_def views_ok_def)
  show same: "same_ops (sp_nh st) (sp_h st) (sp_h st')" "sp_slots st' = sp_slots st" "sp_nh st' = sp_nh st" "sp_tk st' = sp_tk st" "sp_fd st' = sp_fd st" "sp_ns st' = sp_ns st"
    by (simp_all add: st' same_ops_def)
  have v: "views_ok st'" using assms(1) i by (simp add: st' ordered_def views_ok_def)
  show "ordered st'"
  proof (cases "l = []")
    case True
    thus ?thesis using assms(1) v same by (auto simp: ordered_def st' intro: order_ok_keep [of st])
  next
    case False
    note l' = l(2) [OF False]
    have "order_ok st'"
      by (rule order_ok_write [of st "op_tk ?o" "op_sock ?o" l]) (use assms(1,3) l' l(1) same in \<open>auto simp: ordered_def sends_by_ticket st'\<close>)
    thus ?thesis using v by (simp add: ordered_def)
  qed
  assume t: "turn (op_tk ?o) (op_sock ?o) st"
  have "en_tickets (sp_h st') en = en_tickets (sp_h st) en" if "entry_of st fd = Some en" for fd en
    using assms(1) same that by (intro en_tickets_cong [of "sp_nh st"]) (auto simp: ordered_def order_ok_def entry_ok_def)
  moreover have "u \<le> op_tk ?o" if "u \<in> set (tickets (op_sock ?o) (sp_log st'))" for u
    using that t tickets_by_ticket(1) [OF sends_by_ticket [OF l(1)], of "op_sock ?o"] by (auto simp: st' turn_def)
  ultimately show "turn (op_tk ?o) (op_sock ?o) st'" using t same unfolding turn_def by simp
qed

lemma new_entry_tickets [simp]: "en_tickets hs (new_entry n) = []"
  by (simp add: new_entry_def en_tickets_def writer_tickets_def queue_tickets_def)

lemma entry_ok_new: "0 \<le> fd \<Longrightarrow> entry_ok st fd (new_entry n)"
  by (simp add: entry_ok_def) (simp add: new_entry_def)

lemma on_entry_ordered:
  assumes "ordered st" "0 \<le> fd" "\<And>en. entry_ok st fd en \<Longrightarrow> entry_of st fd = Some en \<or> (\<exists>n. en = new_entry n) \<and> entry_of st fd = None \<Longrightarrow> entry_ok st fd (f en)"
  shows "ordered (on_entry fd f st)"
proof (cases "entry_of st fd")
  case None
  have "order_ok (on_entry fd f st)"
    by (rule order_ok_put [of st fd "f (new_entry (sp_eid st))"])
       (use assms None entry_ok_new in \<open>auto simp: on_entry_def ordered_def\<close>)
  thus ?thesis using assms(1) by (simp add: ordered_def on_entry_def None views_ok_def)
next
  case (Some en)
  have "entry_ok st fd en" using assms(1) Some by (simp add: ordered_def order_ok_def)
  have "order_ok (on_entry fd f st)"
    by (rule order_ok_put [of st fd "f en"]) (use assms Some \<open>entry_ok st fd en\<close> in \<open>auto simp: on_entry_def ordered_def\<close>)
  thus ?thesis using assms(1) by (simp add: ordered_def on_entry_def Some views_ok_def)
qed

lemma reserve_ordered:
  assumes "ordered st" and fd: "0 \<le> fd" and "\<not> slot_taken fd rd st" "h < sp_nh st" "rd \<Longrightarrow> \<not> is_send (op_kind (sp_h st h))"
    and "is_send (op_kind (sp_h st h)) \<Longrightarrow> sp_fd st (op_sock (sp_h st h)) = fd \<and> 0 \<le> fd \<and> turn (op_tk (sp_h st h)) (op_sock (sp_h st h)) st"
  shows "ordered (reserve_slot fd rd h st)"
  unfolding reserve_slot_def
proof (rule on_entry_ordered [OF assms(1) fd])
  fix en
  assume ok: "entry_ok st fd en" and en: "entry_of st fd = Some en \<or> (\<exists>n. en = new_entry n) \<and> entry_of st fd = None"
  have free: "(if rd then en_reader en else en_writer en) = None" using en assms(3) by (auto simp: slot_taken_def new_entry_def)
  show "entry_ok st fd (if rd then en\<lparr>en_reader := Some h\<rparr> else en\<lparr>en_writer := Some h\<rparr>)"
  proof (cases rd)
    case True
    thus ?thesis using ok assms(4,5) by (simp add: entry_ok_def en_tickets_def)
  next
    case False
    let ?o = "sp_h st h"
    have w: "en_tickets (sp_h st) (en\<lparr>en_writer := Some h\<rparr>) = (if is_send (op_kind ?o) then [(op_tk ?o, op_sock ?o)] else []) @ en_tickets (sp_h st) en"
      using free False by (simp add: en_tickets_def writer_tickets_def)
    have "op_tk ?o < fst p" if "is_send (op_kind ?o)" "p \<in> set (en_tickets (sp_h st) en)" for p
      using en assms(6) that by (auto simp: turn_def)
    moreover have "op_tk ?o < sp_tk st \<and> sp_fd st (op_sock ?o) = fd \<and> (\<forall>u \<in> set (tickets (op_sock ?o) (sp_log st)). u \<le> op_tk ?o) \<and> op_sock ?o < sp_ns st" if "is_send (op_kind ?o)"
      using assms(6) [OF that] assms(1) by (auto simp: turn_def ordered_def order_ok_def not_le [symmetric])
    ultimately have "entry_ok st fd (en\<lparr>en_writer := Some h\<rparr>)" using ok assms(4) unfolding entry_ok_def w by auto
    thus ?thesis using False by simp
  qed
qed

lemma reserve_poll_ordered:
  assumes "ordered st" and fd: "0 \<le> fd" and "rd \<Longrightarrow> \<not> slot_taken fd True st" "wr \<Longrightarrow> \<not> slot_taken fd False st" "h < sp_nh st" "\<not> is_send (op_kind (sp_h st h))"
  shows "ordered (reserve_poll_slot fd rd wr h st)"
  unfolding reserve_poll_slot_def
proof (rule on_entry_ordered [OF assms(1) fd])
  fix en
  assume ok: "entry_ok st fd en" and en: "entry_of st fd = Some en \<or> (\<exists>n. en = new_entry n) \<and> entry_of st fd = None"
  have "en_writer en = None" if wr using en assms(4) that by (auto simp: slot_taken_def new_entry_def)
  hence "en_tickets (sp_h st) (en\<lparr>en_reader := (if rd then Some h else en_reader en), en_writer := (if wr then Some h else en_writer en)\<rparr>) = en_tickets (sp_h st) en"
    using assms(6) by (simp add: en_tickets_def writer_tickets_def)
  thus "entry_ok st fd (en\<lparr>en_reader := (if rd then Some h else en_reader en), en_writer := (if wr then Some h else en_writer en)\<rparr>)"
    using ok assms(5,6) by (simp add: entry_ok_def)
qed

lemma enqueue_ordered:
  assumes "ordered st" and fd: "0 \<le> fd" and "queued_ok (sp_h st) (sp_nh st) \<lparr>qw_run = r, qw_handle = h, qw_tk = t\<rparr>" "t < sp_tk st" "sp_fd st (run_sock (sp_h st) r) = fd"
    and "\<And>u. u \<in> set (tickets (run_sock (sp_h st) r) (sp_log st)) \<Longrightarrow> u < t" "\<And>en p. entry_of st fd = Some en \<Longrightarrow> p \<in> set (en_tickets (sp_h st) en) \<Longrightarrow> fst p < t"
  shows "ordered (enqueue_write fd r h t st)"
  unfolding enqueue_write_def
proof (rule on_entry_ordered [OF assms(1) fd])
  let ?q = "\<lparr>qw_run = r, qw_handle = h, qw_tk = t\<rparr>"
  fix en
  assume ok: "entry_ok st fd en" and en: "entry_of st fd = Some en \<or> (\<exists>n. en = new_entry n) \<and> entry_of st fd = None"
  have w: "en_tickets (sp_h st) (en\<lparr>en_queue := en_queue en @ [?q]\<rparr>) = en_tickets (sp_h st) en @ [(t, run_sock (sp_h st) r)]"
    by (simp add: en_tickets_def queue_tickets_def)
  have "fst p < t" if "p \<in> set (en_tickets (sp_h st) en)" for p
    using en assms(7) [of en p] that by auto
  moreover have ns: "run_sock (sp_h st) r < sp_ns st"
    using assms(1,5) fd by (auto simp: ordered_def order_ok_def not_le [symmetric])
  ultimately show "entry_ok st fd (en\<lparr>en_queue := en_queue en @ [?q]\<rparr>)"
    using ok assms(3-6) ns unfolding entry_ok_def w by (auto simp: sorted_wrt_append less_imp_le)
qed

section \<open>Removal\<close>

lemma clear_op_ok:
  assumes "entry_ok st fd en"
  shows "entry_ok st fd (clear_op h en)"
proof -
  have w: "en_tickets (sp_h st) (clear_op h en) =
      (if en_writer en = Some h then [] else writer_tickets (sp_h st) (en_writer en)) @ queue_tickets (sp_h st) (filter (\<lambda>q. qw_handle q \<noteq> Some h) (en_queue en))"
    by (simp add: clear_op_def en_tickets_def writer_tickets_def)
  have "set (en_tickets (sp_h st) (clear_op h en)) \<subseteq> set (en_tickets (sp_h st) en)"
    unfolding w by (auto simp: en_tickets_def queue_tickets_def)
  moreover have "sorted_wrt (<) (map fst (en_tickets (sp_h st) (clear_op h en)))"
    using assms unfolding w unfolding entry_ok_def en_tickets_def queue_tickets_def
    by (auto simp: sorted_wrt_append sorted_wrt_map sorted_wrt_filter)
  moreover have "\<forall>q \<in> set (en_queue (clear_op h en)). queued_ok (sp_h st) (sp_nh st) q" using assms by (simp add: clear_op_def entry_ok_def)
  moreover have "en_reader (clear_op h en) = Some g \<Longrightarrow> en_reader en = Some g" "en_writer (clear_op h en) = Some g \<Longrightarrow> en_writer en = Some g" for g
    by (simp_all add: clear_op_def split: if_splits)
  ultimately show ?thesis using assms unfolding entry_ok_def by blast
qed

lemma find_slot:
  assumes "find P xs = Some x"
  shows "x \<in> set xs" "P x"
  using assms by (auto simp: find_Some_iff)

lemma remove_handle_eq:
  assumes "distinct (map fst (sp_slots st))"
  obtains (none) "\<not> is_held h st" "remove_handle h st = st"
    | (some) fd en where "entry_of st fd = Some en" "has_op h en" "is_held h st"
        "remove_handle h st = push ((if en_writer en = Some h then [FDrain fd (en_id en)] else []) @ [FRemoved fd]) (put_entry fd (clear_op h en) st)"
proof (cases "find (\<lambda>(fd, en). has_op h en) (sp_slots st)")
  case None
  have "\<not> is_held h st" using None by (auto simp: is_held_def find_None_iff)
  thus thesis by (rule none) (simp add: remove_handle_def None)
next
  case (Some p)
  obtain fd en where p: "p = (fd, en)" by (cases p)
  have "(fd, en) \<in> set (sp_slots st)" "has_op h en" using find_slot [OF Some] by (simp_all add: p)
  thus thesis using assms Some by (intro some [of fd en]) (auto simp: remove_handle_def p is_held_def)
qed

lemma remove_handle_ordered:
  assumes "ordered st"
  shows "ordered (remove_handle h st)"
proof -
  have "distinct (map fst (sp_slots st))" using assms by (simp add: ordered_def order_ok_def)
  thus ?thesis
  proof (cases rule: remove_handle_eq [of st h])
    case none
    thus ?thesis using assms by simp
  next
    case (some fd en)
    have o: "order_ok st" and "entry_ok st fd en" using assms some(1) by (simp_all add: ordered_def order_ok_def)
    have "order_ok (put_entry fd (clear_op h en) st)"
      by (rule order_ok_put [OF o clear_op_ok [OF \<open>entry_ok st fd en\<close>]]) simp_all
    hence "ordered (put_entry fd (clear_op h en) st)" using assms by (simp add: ordered_def views_ok_def)
    thus ?thesis unfolding some(4) by simp
  qed
qed

lemma removed_rest_ordered:
  assumes "ordered st"
  shows "ordered (removed_rest K fd st)"
proof -
  have "ordered (st\<lparr>sp_slots := AList.delete fd (sp_slots st)\<rparr>)" using assms order_ok_delete by (simp add: ordered_def views_ok_def)
  thus ?thesis using assms by (auto simp: removed_rest_def intro: calm_ordered [OF calm_update] split: option.splits)
qed

lemma stop_ordered:
  assumes "ordered st"
  shows "ordered (selector_stop_handle h r st)"
proof -
  show ?thesis using assms unfolding selector_stop_handle_def
    by (auto intro: calm_ordered [OF calm_give_reply] calm_ordered [OF calm_terminalise] remove_handle_ordered)
qed

section \<open>Submission and steps\<close>

lemma prepare_socket_ordered:
  assumes "ordered st" "h < sp_nh st"
    and "is_send (op_kind (sp_h st h)) \<Longrightarrow> turn (op_tk (sp_h st h)) (op_sock (sp_h st h)) st"
  shows "ordered (prepare_socket_operation K h st)"
proof -
  let ?o = "sp_h st h" and ?fd = "sp_fd st (op_sock (sp_h st h))" and ?rd = "reads (op_kind (sp_h st h))"
  have rej: "ordered (reject h e st)" for e using assms(1) by (rule calm_ordered [OF calm_reject])
  obtain r n l i b st' where a: "attempt K h st = (r, st')" and p: "attempt_post h st r n l i b st'"
    by (rule attempt_eq [OF ordered_view [OF assms(1)]])
  have may: "is_send (op_kind ?o) \<Longrightarrow> may_write (op_tk ?o) (op_sock ?o) st" using assms(3) by (rule turn_may_write)
  note at = attempt_ordered [OF assms(1) p may]
  have o': "op_kind (sp_h st' h) = op_kind ?o" "op_tk (sp_h st' h) = op_tk ?o" "op_sock (sp_h st' h) = op_sock ?o"
    using at(2) assms(2) by (simp_all add: same_ops_def)
  have "ordered (update_registration K ?fd (reserve_slot ?fd ?rd h st'))" if "\<not> slot_taken ?fd ?rd st" "0 \<le> ?fd"
  proof (rule calm_ordered [OF calm_update], rule reserve_ordered [OF at(1)])
    show "\<not> slot_taken ?fd ?rd st'" using that(1) at(3) by (simp add: slot_taken_def)
    show "?rd \<Longrightarrow> \<not> is_send (op_kind (sp_h st' h))" unfolding o' by (auto simp: is_send_def)
  qed (use assms(2,3) at o' that(2) in simp_all)
  moreover have "ordered (try_complete h r st')" using at(1) by (rule calm_ordered [OF calm_settle])
  ultimately show ?thesis using rej a
    by (auto simp: prepare_socket_operation_def Let_def split: aout.splits)
qed

lemma prepare_fd_ordered:
  assumes "ordered st" "h < sp_nh st" "\<not> is_send (op_kind (sp_h st h))"
  shows "ordered (prepare_fd_operation K h st)"
proof -
  let ?fd = "op_fd (sp_h st h)"
  have rej: "ordered (reject h e st)" for e using assms(1) by (rule calm_ordered [OF calm_reject])
  obtain r n l i b st' where a: "attempt K h st = (r, st')" and p: "attempt_post h st r n l i b st'"
    by (rule attempt_eq [OF ordered_view [OF assms(1)]])
  note at = attempt_ordered [OF assms(1) p]
  have at1: "ordered st'" "same_ops (sp_nh st) (sp_h st) (sp_h st')" "sp_slots st' = sp_slots st" "sp_nh st' = sp_nh st"
    using at(1-4) assms(3) by blast+
  have "ordered (update_registration K ?fd (reserve_poll_slot ?fd rd wr h st'))"
    if "\<not> (rd \<and> slot_taken ?fd True st \<or> wr \<and> slot_taken ?fd False st)" "0 \<le> ?fd" for rd wr
    by (rule calm_ordered [OF calm_update], rule reserve_poll_ordered [OF at1(1)])
       (use that at1 assms(2,3) in \<open>auto simp: slot_taken_def same_ops_def\<close>)
  moreover have "ordered (try_complete h r st')" using at1(1) by (rule calm_ordered [OF calm_settle])
  ultimately show ?thesis using rej a
    by (auto simp: prepare_fd_operation_def Let_def split: aout.splits option.splits)
qed

lemma prepare_continuous_ordered:
  assumes "ordered st" "h < sp_nh st" "\<not> is_send (op_kind (sp_h st h))"
  shows "ordered (prepare_socket_continuous K h st)"
proof -
  have "ordered (reserve_slot fd True h st)" if "\<not> slot_taken fd True st" "0 \<le> fd" for fd
    using assms that by (intro reserve_ordered) simp_all
  thus ?thesis using assms(1)
    by (auto simp: prepare_socket_continuous_def Let_def intro: calm_ordered [OF calm_update] calm_ordered [OF calm_reject])
qed

lemma stream_step_ordered:
  assumes "ordered st"
  shows "ordered (stream_step K fd h again st)"
proof -
  obtain r n where p: "probe K fd (op_mask (sp_h st h)) st = (r, st\<lparr>sp_kn := n\<rparr>)" by (rule probe_eq)
  obtain r' n' where s: "sys K (op_sock (sp_h st h)) st = (r', st\<lparr>sp_kn := n'\<rparr>)" by (rule sys_eq)
  have u: "ordered (update_registration K fd (st\<lparr>sp_kn := m\<rparr>))" for m by (rule calm_ordered [OF calm_update]) (simp add: assms)
  have e: "ordered (emit h d (st\<lparr>sp_kn := m, sp_stk := k\<rparr>))" for d k m by (rule calm_ordered [OF calm_emit]) (simp add: assms)
  have x: "ordered (remove_handle h (st\<lparr>sp_kn := m, sp_stk := k\<rparr>))" for k m by (rule remove_handle_ordered) (simp add: assms)
  show ?thesis unfolding stream_step_def Let_def p s prod.case
    by (simp add: u e x split: opkind.split aout.split)
qed

lemma prepare_fd_continuous_ordered:
  assumes "ordered st" "h < sp_nh st" "\<not> is_send (op_kind (sp_h st h))"
  shows "ordered (prepare_fd_continuous K h st)"
proof -
  have "ordered (reserve_poll_slot fd rd wr h st)" if "\<not> (rd \<and> slot_taken fd True st \<or> wr \<and> slot_taken fd False st)" "0 \<le> fd" for fd rd wr
    using assms that by (intro reserve_poll_ordered) auto
  thus ?thesis using assms(1)
    by (auto simp: prepare_fd_continuous_def Let_def intro: stream_step_ordered calm_ordered [OF calm_reject] split: option.splits)
qed

section \<open>Writes\<close>

lemma log_ordered:
  assumes "ordered st" "may_write t s st" "0 \<le> sp_fd st s" "by_ticket t s l"
  shows "ordered (logs l st)"
proof -
  have "order_ok (logs l st)" by (rule order_ok_write [OF _ assms(2-4)]) (use assms(1) in \<open>simp_all add: ordered_def\<close>)
  thus ?thesis using assms(1) by (simp add: ordered_def views_ok_def)
qed

lemma sock_close_ordered:
  assumes "ordered st" "may_write t s st" "0 \<le> sp_fd st s"
  shows "ordered (close_sock t s st)"
proof -
  have "order_ok (close_sock t s st)"
    by (rule order_ok_write [OF _ assms(2,3), of "[EvClose t s]"]) (use assms(1) in \<open>simp_all add: ordered_def close_sock_def by_ticket_def\<close>)
  thus ?thesis using assms(1) by (simp add: ordered_def views_ok_def close_sock_def)
qed

lemma run_write_ordered:
  assumes "ordered st" "turn t (run_sock (sp_h st) r) st" "\<And>h. r = RStart h \<Longrightarrow> h < sp_nh st \<and> op_tk (sp_h st h) = t"
  shows "ordered (run_write K t r st)"
proof -
  note may = turn_may_write [OF assms(2)]
  have shut: "ordered (call_cb c out (tick (logs [EvShut t s] st)))" if "run_sock (sp_h st) r = s" "\<not> sp_fd st s < 0" for c out s
  proof (rule calm_ordered [OF calm_call_cb])
    show "ordered (tick (logs [EvShut t s] st))" using log_ordered [OF assms(1) may, of "[EvShut t s]"] that by (simp add: by_ticket_def)
  qed
  have clo: "ordered (close_sock t s st)" if "run_sock (sp_h st) r = s" "\<not> sp_fd st s < 0" for s
    using sock_close_ordered [OF assms(1) may] that by simp
  have cb: "ordered (call_cb c out st)" for c out using assms(1) by (rule calm_ordered [OF calm_call_cb])
  show ?thesis
  proof (cases r)
    case (RStart h)
    thus ?thesis using assms by (auto simp: run_write_def intro!: prepare_socket_ordered)
  next
    case (RShutdown s c)
    thus ?thesis using shut [of s] cb by (simp add: run_write_def)
  next
    case (RShutdownNw s)
    thus ?thesis using shut [of s] assms(1) by (simp add: run_write_def)
  next
    case (RClose s c)
    thus ?thesis using clo [of s] cb by (simp add: run_write_def calm_ordered [OF calm_call_cb])
  next
    case (RCloseNw s)
    thus ?thesis using clo [of s] assms(1) by (simp add: run_write_def)
  qed
qed

lemma ticket_bounds:
  assumes "ordered st"
  shows "u \<in> set (tickets s (sp_log st)) \<Longrightarrow> u < sp_tk st" "entry_of st fd = Some en \<Longrightarrow> p \<in> set (en_tickets (sp_h st) en) \<Longrightarrow> fst p < sp_tk st"
  using assms by (auto simp: ordered_def order_ok_def entry_ok_def) fastforce

lemma idle_tickets: "\<not> write_busy fd st \<Longrightarrow> entry_of st fd = Some en \<Longrightarrow> en_tickets hs en = []"
  by (simp add: write_busy_def en_tickets_def writer_tickets_def queue_tickets_def)

lemma fresh_turn:
  assumes "ordered st" "0 \<le> sp_fd st s \<Longrightarrow> \<not> write_busy (sp_fd st s) st" "sp_slots st' = sp_slots st" "sp_fd st' = sp_fd st" "sp_log st' = sp_log st"
    and "sp_tk st' = Suc (sp_tk st)"
  shows "turn (sp_tk st) s st'"
  using assms(2-) ticket_bounds(1) [OF assms(1)] idle_tickets by (fastforce simp: turn_def intro: less_imp_le)

lemma run_or_enqueue_ordered:
  assumes "ordered st" "run_sock (sp_h st) r = s" "\<And>h. r \<noteq> RStart h"
  shows "ordered (run_or_enqueue_write K s r st)"
proof -
  let ?st = "st\<lparr>sp_tk := Suc (sp_tk st)\<rparr>"
  have o: "order_ok ?st" by (rule order_ok_keep [of st]) (use assms(1) in \<open>simp_all add: ordered_def\<close>)
  hence o1: "ordered ?st" using assms(1) by (simp add: ordered_def views_ok_def)
  have "ordered (run_write K (sp_tk st) r ?st)" if "0 \<le> sp_fd st s \<Longrightarrow> \<not> write_busy (sp_fd st s) st"
    by (intro run_write_ordered [OF o1] fresh_turn [OF assms(1)]) (use assms(2,3) in \<open>simp_all add: that\<close>)
  moreover have "ordered (enqueue_write (sp_fd st s) r None (sp_tk st) ?st)" if "0 \<le> sp_fd st s"
  proof (rule enqueue_ordered [OF o1])
    show "queued_ok (sp_h ?st) (sp_nh ?st) \<lparr>qw_run = r, qw_handle = None, qw_tk = sp_tk st\<rparr>" using assms(3) by (simp add: queued_ok_def split: wrun.splits)
  qed (use assms(2) ticket_bounds [OF assms(1)] that in auto)
  ultimately show ?thesis using o1 by (auto simp: run_or_enqueue_write_def Let_def)
qed

lemma drain_ordered:
  assumes "ordered st"
  shows "ordered (drain_write_queue K fd eid st)"
proof -
  have "ordered (drain_write_queue K fd eid st)" if en: "entry_of st fd = Some en" and w: "en_writer en = None" and q: "en_queue en = q # qs" and id: "en_id en = eid" for en q qs
  proof -
    let ?en = "en\<lparr>en_queue := qs\<rparr>" and ?s = "run_sock (sp_h st) (qw_run q)"
    let ?st = "put_entry fd ?en st"
    have ord: "order_ok st" and ok: "entry_ok st fd en" using assms en by (simp_all add: ordered_def order_ok_def)
    have t: "en_tickets (sp_h st) en = (qw_tk q, ?s) # en_tickets (sp_h st) ?en"
      using w q by (simp add: en_tickets_def writer_tickets_def queue_tickets_def)
    have qok: "queued_ok (sp_h st) (sp_nh st) q" using ok q by (simp add: entry_ok_def)
    have "entry_ok st fd ?en" using ok q unfolding entry_ok_def t by simp
    hence "order_ok ?st" by (rule order_ok_put [OF ord]) simp_all
    hence o1: "ordered ?st" using assms by (simp add: ordered_def views_ok_def)
    have "turn (qw_tk q) ?s ?st" using ok unfolding turn_def entry_ok_def t by (auto simp: update_conv')
    hence tk: "turn (qw_tk q) ?s (push fs ?st)" for fs by (simp add: turn_def)
    have run: "ordered (run_write K (qw_tk q) (qw_run q) (push fs ?st))" for fs
      using o1 tk qok by (intro run_write_ordered) (simp_all add: queued_ok_def)
    have "ordered (run_write K (qw_tk q) (qw_run q) (?st\<lparr>sp_stk := [a, b] @ sp_stk st\<rparr>))" for a b using run [of "[a, b]"] by simp
    thus ?thesis using o1 en w q id by (simp add: drain_write_queue_def Let_def split: option.split)
  qed
  thus ?thesis using assms by (auto simp: drain_write_queue_def split: option.split list.split)
qed

lemma alloc_ordered:
  assumes "ordered st" "spawn_operation kind s fd msk c view base st = (h, st1)"
  shows "ordered st1" "h < sp_nh st1" "op_kind (sp_h st1 h) = kind" "op_sock (sp_h st1 h) = s" "op_tk (sp_h st1 h) = sp_tk st"
    "\<And>u. u \<in> set (tickets s (sp_log st1)) \<Longrightarrow> u < sp_tk st" "\<And>g en p. entry_of st1 g = Some en \<Longrightarrow> p \<in> set (en_tickets (sp_h st1) en) \<Longrightarrow> fst p < sp_tk st"
    "(0 \<le> sp_fd st1 s \<Longrightarrow> \<not> write_busy (sp_fd st1 s) st1) \<Longrightarrow> turn (sp_tk st) s st1"
proof -
  let ?o = "\<lparr>op_kind = kind, op_sock = s, op_fd = fd, op_mask = msk, op_cb = c, op_done = False, op_view = view, op_off = 0,
         op_started = False, op_next = base, op_tk = sp_tk st\<rparr>"
  have st1: "h = sp_nh st" "st1 = st\<lparr>sp_h := (sp_h st)(sp_nh st := ?o), sp_nh := Suc (sp_nh st), sp_tk := Suc (sp_tk st)\<rparr>"
    using assms(2) by (auto simp: spawn_operation_def)
  have same: "same_ops (sp_nh st) (sp_h st) (sp_h st1)" by (simp add: st1 same_ops_def)
  have "order_ok st1" by (rule order_ok_keep [of st]) (use assms(1) same in \<open>simp_all add: ordered_def st1\<close>)
  thus "ordered st1" using assms(1) by (simp add: ordered_def views_ok_def st1)
  show "h < sp_nh st1" "op_kind (sp_h st1 h) = kind" "op_sock (sp_h st1 h) = s" "op_tk (sp_h st1 h) = sp_tk st" by (simp_all add: st1)
  show "u < sp_tk st" if "u \<in> set (tickets s (sp_log st1))" for u using that ticket_bounds(1) [OF assms(1)] by (simp add: st1)
  show "fst p < sp_tk st" if "entry_of st1 g = Some en" "p \<in> set (en_tickets (sp_h st1) en)" for g en p
  proof -
    have "entry_of st g = Some en" using that(1) by (simp add: st1)
    hence "en_tickets (sp_h st1) en = en_tickets (sp_h st) en"
      using assms(1) by (intro en_tickets_cong [OF same]) (auto simp: ordered_def order_ok_def entry_ok_def)
    thus ?thesis using ticket_bounds(2) [OF assms(1) \<open>entry_of st g = Some en\<close>] that(2) by simp
  qed
  show "turn (sp_tk st) s st1" if "0 \<le> sp_fd st1 s \<Longrightarrow> \<not> write_busy (sp_fd st1 s) st1"
    by (rule fresh_turn [OF assms(1)]) (use that in \<open>simp_all add: st1 write_busy_def\<close>)
qed

lemma submit_send_ordered:
  assumes "ordered st" "is_send kind"
  shows "ordered (submit_send K kind s view c st)"
proof -
  obtain h st1 where a: "spawn_operation kind s (-1) 0 c view 0 st = (h, st1)" by (meson surj_pair)
  note al = alloc_ordered [OF assms(1) a]
  have tk: "sp_tk st1 = Suc (sp_tk st)" using a by (auto simp: spawn_operation_def)
  have "ordered (enqueue_write (sp_fd st1 s) (RStart h) (Some h) (sp_tk st) st1)" if "write_busy (sp_fd st1 s) st1"
  proof (rule enqueue_ordered [OF al(1)])
    show "0 \<le> sp_fd st1 s" using that al(1) by (auto simp: write_busy_def ordered_def order_ok_def entry_ok_def split: option.splits)
  qed (use al(2-7) assms(2) tk in \<open>simp_all add: queued_ok_def\<close>)
  moreover have "ordered (prepare_socket_operation K h st1)" if "\<not> write_busy (sp_fd st1 s) st1"
    using al that by (intro prepare_socket_ordered) simp_all
  moreover have "ordered (reject h e st1)" for e using al(1) by (rule calm_ordered [OF calm_reject])
  ultimately show ?thesis by (simp add: submit_send_def a)
qed

lemma send_nowait_ordered: "ordered st \<Longrightarrow> ordered (send_nowait K s view c st)"
  by (simp add: send_nowait_def submit_send_ordered is_send_def)

lemma send_close_ordered: "ordered st \<Longrightarrow> ordered (send_close_nowait K s view st)"
  by (simp add: send_close_nowait_def send_nowait_ordered run_or_enqueue_ordered)

section \<open>Steps\<close>

lemma writer_may_write:
  assumes "ordered st" "entry_of st fd = Some en" "en_writer en = Some h" "is_send (op_kind (sp_h st h))"
  shows "may_write (op_tk (sp_h st h)) (op_sock (sp_h st h)) st"
proof -
  let ?o = "sp_h st h"
  have ok: "entry_ok st fd en" using assms(1,2) by (simp add: ordered_def order_ok_def)
  have t: "en_tickets (sp_h st) en = (op_tk ?o, op_sock ?o) # queue_tickets (sp_h st) (en_queue en)"
    using assms(3,4) by (simp add: en_tickets_def writer_tickets_def)
  have "\<forall>p \<in> set (en_tickets (sp_h st) en). op_tk ?o \<le> fst p" using ok unfolding entry_ok_def t by (auto intro: less_imp_le)
  moreover have "sp_fd st (op_sock ?o) = fd" if "0 \<le> sp_fd st (op_sock ?o)" using ok that unfolding entry_ok_def t by auto
  moreover have "op_tk ?o < sp_tk st \<and> (\<forall>u \<in> set (tickets (op_sock ?o) (sp_log st)). u \<le> op_tk ?o)" using ok unfolding entry_ok_def t by auto
  ultimately show ?thesis using assms(2) by (auto simp: may_write_def)
qed

lemma step_fd_ordered:
  assumes "ordered st"
  shows "ordered (step_fd_operation K fd rd st)"
proof -
  have "ordered (case attempt K h st of (ABlock, st') \<Rightarrow> update_registration K fd st'
      | (AExn e, st') \<Rightarrow> remove_handle h (push [FFinish h (Inl e)] st')
      | (AVal v, st') \<Rightarrow> remove_handle h (push [FFinish h (Inr v)] st'))"
    if en: "entry_of st fd = Some en" and h: "(if rd then en_reader en else en_writer en) = Some h" for en h
  proof -
    have ok: "entry_ok st fd en" using assms en by (simp add: ordered_def order_ok_def)
    obtain r n l i b st' where a: "attempt K h st = (r, st')" and p: "attempt_post h st r n l i b st'"
      by (rule attempt_eq [OF ordered_view [OF assms]])
    have "is_send (op_kind (sp_h st h)) \<Longrightarrow> may_write (op_tk (sp_h st h)) (op_sock (sp_h st h)) st"
      using h ok writer_may_write [OF assms en] by (auto simp: entry_ok_def split: if_splits)
    hence "ordered st'" by (rule attempt_ordered [OF assms p])
    thus ?thesis unfolding a prod.case
      by (cases r) (simp_all add: calm_ordered [OF calm_update] remove_handle_ordered)
  qed
  thus ?thesis using assms by (simp add: step_fd_operation_def stream_step_ordered split: option.split)
qed

lemma poll_event_ordered: "ordered st \<Longrightarrow> ordered (poll_event K fd r w st)"
  by (simp add: poll_event_def step_fd_ordered)

lemma sp_call_ordered:
  assumes "ordered st"
  shows "ordered (sp_call K c st)"
proof (cases c)
  case (COneshot k s n)
  obtain h st1 where a: "spawn_operation k s (-1) 0 (CbUser n) [] 0 st = (h, st1)" by (meson surj_pair)
  note al = alloc_ordered [OF assms a]
  have "ordered (prepare_socket_operation K h st1)" if "socket_oneshot k"
    using al that by (intro prepare_socket_ordered) (auto simp: socket_oneshot_def is_send_def)
  thus ?thesis using assms by (simp add: COneshot a)
next
  case (CPoll fd msk n)
  obtain h st1 where a: "spawn_operation PollOp 0 fd msk (CbUser n) [] 0 st = (h, st1)" by (meson surj_pair)
  show ?thesis using alloc_ordered(1-3) [OF assms a] by (simp add: CPoll a prepare_fd_ordered is_send_def)
next
  case (CPollMany fd msk n)
  obtain h st1 where a: "spawn_operation PollMany 0 fd msk (CbUser n) [] 0 st = (h, st1)" by (meson surj_pair)
  show ?thesis using alloc_ordered(1-3) [OF assms a] by (simp add: CPollMany a prepare_fd_continuous_ordered is_send_def)
next
  case (CAcceptMany s n base)
  obtain h st1 where a: "spawn_operation AcceptMany s (-1) 0 (CbUser n) [] base st = (h, st1)" by (meson surj_pair)
  show ?thesis using alloc_ordered(1-3) [OF assms a] by (simp add: CAcceptMany a prepare_continuous_ordered is_send_def)
next
  case (CRecvMany s n base full)
  obtain h st1 where a: "spawn_operation RecvMany s (-1) 0 (CbUser n) [] base st = (h, st1)" by (meson surj_pair)
  show ?thesis using alloc_ordered(1-3) [OF assms a]
    by (simp add: CRecvMany a prepare_continuous_ordered is_send_def calm_ordered [OF calm_emit])
qed (use assms in \<open>simp_all add: submit_send_ordered is_send_def calm_ordered [OF calm_call_cb] send_nowait_ordered send_close_ordered
       run_or_enqueue_ordered stop_ordered calm_ordered [OF calm_set_callback] close_proactor_def\<close>)

lemma sp_exec_ordered:
  assumes "ordered st"
  shows "ordered (sp_exec K f st)"
proof (cases f)
  case (FEvents evs)
  thus ?thesis using assms by (cases evs) (auto simp: poll_event_ordered)
next
  case (FStepped fd h fin again i)
  have "ordered (upd_op h (op_next_update (\<lambda>_. i + 1)) st)" using assms by (rule calm_ordered [OF calm_next])
  thus ?thesis using assms FStepped by (simp add: stepped_def remove_handle_ordered calm_ordered [OF calm_update])
qed (use assms in \<open>simp_all add: drain_ordered removed_rest_ordered calm_ordered [OF calm_finish] calm_ordered [OF calm_emit]
       calm_ordered [OF calm_update] calm_ordered [OF calm_terminalise] calm_ordered [OF calm_give_reply] run_or_enqueue_ordered step_fd_ordered\<close>)

lemma sp_catch_ordered:
  assumes "ordered st"
  shows "ordered (sp_catch K f e st)"
proof (cases f)
  case FUser
  have "calm st (logs [EvRaise e] st)" by (simp add: calm_def views_ok_def)
  thus ?thesis using assms FUser by (simp add: calm_ordered)
qed (use assms in \<open>simp_all add: calm_ordered [OF calm_finish] calm_ordered [OF calm_update] remove_handle_ordered
       calm_ordered [OF calm_terminalise] split: option.split\<close>)

lemma new_socket_ordered:
  assumes "ordered st" "0 \<le> fd"
  shows "ordered (st\<lparr>sp_fd := (sp_fd st)(sp_ns st := fd), sp_blk := bs, sp_ns := Suc (sp_ns st)\<rparr>)" (is "ordered ?st")
proof -
  have "entry_ok ?st g en" if "entry_of st g = Some en" for g en
  proof (rule entry_ok_cong)
    show "entry_ok st g en" using assms(1) that by (simp add: ordered_def order_ok_def)
    thus "\<forall>(t, s) \<in> set (en_tickets (sp_h st) en). (sp_fd ?st s = sp_fd st s \<or> sp_fd ?st s < 0) \<and> (\<forall>u \<in> set (tickets s (sp_log ?st)). u \<le> t)"
      by (fastforce simp: entry_ok_def)
  qed simp_all
  thus ?thesis using assms(1) by (simp add: ordered_def order_ok_def views_ok_def)
qed

lemma closed_socket_ordered:
  assumes "ordered st"
  shows "ordered (st\<lparr>sp_fd := (sp_fd st)(s := -1)\<rparr>)" (is "ordered ?st")
proof -
  have "entry_ok ?st g en" if "entry_of st g = Some en" for g en
  proof (rule entry_ok_cong)
    show "entry_ok st g en" using assms(1) that by (simp add: ordered_def order_ok_def)
    thus "\<forall>(t, s) \<in> set (en_tickets (sp_h st) en). (sp_fd ?st s = sp_fd st s \<or> sp_fd ?st s < 0) \<and> (\<forall>u \<in> set (tickets s (sp_log ?st)). u \<le> t)"
      by (fastforce simp: entry_ok_def)
  qed simp_all
  thus ?thesis using assms by (simp add: ordered_def order_ok_def views_ok_def)
qed

theorem sp_step_ordered: "sp_step K st st' \<Longrightarrow> ordered st \<Longrightarrow> ordered st'"
  by (induction rule: sp_step.induct)
     (simp_all add: sp_call_ordered sp_exec_ordered sp_catch_ordered new_socket_ordered closed_socket_ordered)

lemma sp_reach_ordered: "sp_reach K handler st \<Longrightarrow> ordered st"
proof (induction rule: rtranclp_induct)
  case base
  show ?case by (simp add: sp_init_def ordered_def order_ok_def views_ok_def dead_op_def)
qed (rule sp_step_ordered)

end
