(* ===== verification/Selector_Results.thy ===== *)
theory Selector_Results
  imports Selector_Order
begin

text \<open>
  What operations report: a handle is completed once, and a \<open>send_all\<close> has handed the kernel exactly the bytes
  up to its offset, all of them when it reports success.
\<close>

section \<open>The invariant\<close>

definition fins :: "pev list \<Rightarrow> (nat \<times> (pyexn + pval)) list" where
  "fins l = List.map_filter fin_of l"

lemma fins_simps [simp]:
  "fins [] = []"
  "fins (l @ l') = fins l @ fins l'"
  "fins (e # l) = (case fin_of e of None \<Rightarrow> [] | Some p \<Rightarrow> [p]) @ fins l"
  by (simp_all add: fins_def List.map_filter_def split: option.split)

lemma silent_results: "silent l \<Longrightarrow> fins l = []" "silent l \<Longrightarrow> sent_bytes t l = []"
proof -
  assume l: "silent l"
  thus "fins l = []" by (induction l) (auto simp: silent_def)
  show "sent_bytes t l = []" using l by (force simp: sent_bytes_def silent_def split: pev.splits)
qed

lemma sends_fins: "sends t s l \<Longrightarrow> fins l = []"
  by (induction l) auto

lemma sends_bytes: "sends t s l \<Longrightarrow> u \<noteq> t \<Longrightarrow> sent_bytes u l = []"
  by (induction l) auto

definition full_send :: "oph \<Rightarrow> pyexn + pval \<Rightarrow> bool" where
  "full_send o1 out = (op_kind o1 = SendAll \<longrightarrow> (\<forall>v. out = Inr v \<longrightarrow> op_off o1 = length (op_view o1) \<and> v = VInt (length (op_view o1))))"

text \<open>Handles named on the stack exist; only streams are stepped.\<close>

fun frame_handle :: "frame \<Rightarrow> nat option" where
  "frame_handle (FTry h) = h"
| "frame_handle (FFinish h out) = Some h"
| "frame_handle (FStop h r) = Some h"
| "frame_handle (FStepped fd h fin again i) = Some h"
| "frame_handle _ = None"

definition results_ok :: "sproac \<Rightarrow> bool" where
  "results_ok st =
     ((\<forall>h < sp_nh st. op_tk (sp_h st h) < sp_tk st) \<and> inj_on (\<lambda>h. op_tk (sp_h st h)) {..<sp_nh st}
      \<and> (\<forall>h < sp_nh st. op_kind (sp_h st h) = SendAll \<longrightarrow> sent_bytes (op_tk (sp_h st h)) (sp_log st) = take (op_off (sp_h st h)) (op_view (sp_h st h)))
      \<and> (\<forall>h < sp_nh st. length (filter (\<lambda>p. fst p = h) (fins (sp_log st))) = of_bool (op_done (sp_h st h)))
      \<and> (\<forall>(h, out) \<in> set (fins (sp_log st)). h < sp_nh st \<and> full_send (sp_h st h) out)
      \<and> (\<forall>f \<in> set (sp_stk st). \<forall>h. frame_handle f = Some h \<longrightarrow> h < sp_nh st \<and> (\<forall>out. f = FFinish h out \<longrightarrow> full_send (sp_h st h) out)
          \<and> (\<forall>fd fin again i. f = FStepped fd h fin again i \<longrightarrow> is_stream (op_kind (sp_h st h)))))"

definition same_result :: "oph \<Rightarrow> oph \<Rightarrow> bool" where
  "same_result a b = (op_kind b = op_kind a \<and> op_tk b = op_tk a \<and> op_view b = op_view a \<and> op_off b = op_off a \<and> op_done b = op_done a)"

definition still :: "sproac \<Rightarrow> sproac \<Rightarrow> bool" where
  "still st st' = (sp_nh st' = sp_nh st \<and> sp_tk st \<le> sp_tk st' \<and> (\<forall>h. same_result (sp_h st h) (sp_h st' h))
     \<and> (\<forall>t. sent_bytes t (sp_log st') = sent_bytes t (sp_log st)) \<and> fins (sp_log st') = fins (sp_log st)
     \<and> (\<forall>f \<in> set (sp_stk st'). frame_handle f \<noteq> None \<longrightarrow> f \<in> set (sp_stk st)))"

lemma same_result_refl [simp]: "same_result a a"
  by (simp add: same_result_def)

lemma same_result_full: "same_result a b \<Longrightarrow> full_send b out = full_send a out"
  by (simp add: same_result_def full_send_def)

lemma still_refl [simp]: "still st st"
  by (simp add: still_def)

lemma still_trans [trans]: "still a b \<Longrightarrow> still b c \<Longrightarrow> still a c"
  by (auto simp: still_def same_result_def)

lemma still_results:
  assumes "still st st'" "results_ok st"
  shows "results_ok st'"
proof -
  have s: "op_kind (sp_h st' h) = op_kind (sp_h st h)" "op_tk (sp_h st' h) = op_tk (sp_h st h)" "op_view (sp_h st' h) = op_view (sp_h st h)"
    "op_off (sp_h st' h) = op_off (sp_h st h)" "op_done (sp_h st' h) = op_done (sp_h st h)" "full_send (sp_h st' h) = full_send (sp_h st h)" for h
    using assms(1) same_result_full by (auto simp: still_def same_result_def intro!: ext)
  have "sp_nh st' = sp_nh st" "sp_tk st \<le> sp_tk st'" "sent_bytes t (sp_log st') = sent_bytes t (sp_log st)" "fins (sp_log st') = fins (sp_log st)"
    "f \<in> set (sp_stk st') \<Longrightarrow> frame_handle f = Some h \<Longrightarrow> f \<in> set (sp_stk st)" for t h f
    using assms(1) by (simp_all add: still_def)
  thus ?thesis using assms(2) unfolding results_ok_def s by fastforce
qed

lemma still_fields [simp]:
  "still st (st\<lparr>sp_ctl := x\<rparr>)" "still st (st\<lparr>sp_kn := n\<rparr>)" "still st (st\<lparr>sp_rej := r\<rparr>)" "still st (st\<lparr>sp_slots := sl\<rparr>)" "still st (st\<lparr>sp_reg := g\<rparr>)"
  "still st (st\<lparr>sp_cbraise := b\<rparr>)" "still st (st\<lparr>sp_closed := b\<rparr>)" "still st (st\<lparr>sp_eid := i\<rparr>)" "still st (st\<lparr>sp_tk := Suc (sp_tk st)\<rparr>)"
  "still st (st\<lparr>sp_fd := fds\<rparr>)"
  by (simp_all add: still_def)

lemma still_call_cb: "still st (call_cb c out st)"
proof -
  obtain l x where "call_cb c out st = st\<lparr>sp_log := sp_log st @ l, sp_ctl := x\<rparr>" "silent l" by (rule call_cb_eq)
  thus ?thesis by (simp add: still_def silent_results)
qed

lemma still_emit: "still st (emit h d st)"
  by (simp add: emit_def still_def)

lemma still_update: "still st (update_registration K fd st)"
  by (rule update_registration_eq [of K fd st]) (simp add: still_def)

lemma still_reject: "still st (reject h e st)"
  by (simp add: reject_def still_def)

lemma still_give_reply: "still st (give_reply r err st)"
  by (simp add: give_reply_def still_call_cb split: reply.splits option.splits)

lemma still_set_callback: "still st (set_operation_callback h c st)"
  by (simp add: set_operation_callback_def still_def same_result_def)

lemma still_next: "still st (upd_op h (op_next_update f) st)"
  by (simp add: still_def same_result_def)

lemma still_on_entry: "still st (on_entry fd f st)"
  by (simp add: on_entry_def still_def split: option.split)

lemma still_reserve: "still st (reserve_slot fd rd h st)" "still st (reserve_poll_slot fd rd wr h st)" "still st (enqueue_write fd r hh t st)"
  by (simp_all add: reserve_slot_def reserve_poll_slot_def enqueue_write_def still_on_entry)

lemma still_remove: "still st (remove_handle h st)"
  by (auto simp: remove_handle_def still_def split: option.split)

lemma still_removed_rest: "still st (removed_rest K fd st)"
proof -
  have "still st (case entry_of st fd of Some en \<Rightarrow> if en_empty en then st\<lparr>sp_slots := AList.delete fd (sp_slots st)\<rparr> else st | None \<Rightarrow> st)"
    by (simp split: option.split)
  thus ?thesis unfolding removed_rest_def by (rule still_trans [OF _ still_update])
qed

lemma still_push: "\<forall>f \<in> set fs. frame_handle f = None \<Longrightarrow> still st (push fs st)"
  by (auto simp: still_def)

lemma still_close_write: "still st (close_sock t s st)" "still st ((logs [EvShut t s] st)\<lparr>sp_kn := Suc (sp_kn st)\<rparr>)"
  by (simp_all add: close_sock_def still_def)

section \<open>Completions\<close>

lemma finish_results:
  assumes "results_ok st" "h < sp_nh st" "full_send (sp_h st h) out"
  shows "results_ok (finish_oneshot h out st)"
proof (cases "op_done (sp_h st h)")
  case True
  thus ?thesis using assms(1) by (simp add: finish_oneshot_done)
next
  case False
  then obtain l x where e: "finish_oneshot h out st =
      st\<lparr>sp_h := (sp_h st)(h := (sp_h st h)\<lparr>op_done := True\<rparr>), sp_log := sp_log st @ EvFin h out # l, sp_ctl := x\<rparr>" "silent l"
    by (rule finish_oneshot_eq)
  have full: "full_send ((sp_h st h)\<lparr>op_done := True\<rparr>) = full_send (sp_h st h)" by (intro ext) (simp add: full_send_def)
  have tk: "(\<lambda>g. op_tk (if g = h then (sp_h st h)\<lparr>op_done := True\<rparr> else sp_h st g)) = (\<lambda>g. op_tk (sp_h st g))" by (intro ext) simp
  show ?thesis using assms False unfolding e(1) results_ok_def
    by (auto simp: silent_results [OF e(2)] full tk cong: if_cong)
qed

lemma terminalise_results:
  assumes "results_ok st" "h < sp_nh st"
  shows "results_ok (terminalise_cancelled h st)"
  using assms by (simp add: terminalise_cancelled_def still_results [OF still_emit] finish_results full_send_def)

lemma attempt_results:
  assumes "results_ok st" "h < sp_nh st" "attempt_post h st r n l i b st'"
  shows "results_ok st'" "\<And>v. r = AVal v \<Longrightarrow> full_send (sp_h st' h) (Inr v)" "sp_nh st' = sp_nh st"
proof -
  let ?o = "sp_h st h"
  have st': "st' = st\<lparr>sp_kn := n, sp_log := sp_log st @ l, sp_h := (sp_h st)(h := ?o\<lparr>op_off := i, op_started := b\<rparr>)\<rparr>"
    and l: "sends (op_tk ?o) (op_sock ?o) l" and i: "op_kind ?o \<noteq> SendAll \<Longrightarrow> i = op_off ?o"
    and all: "op_kind ?o = SendAll \<Longrightarrow> op_off ?o \<le> i \<and> i \<le> length (op_view ?o)
        \<and> sent_bytes (op_tk ?o) l = take (i - op_off ?o) (drop (op_off ?o) (op_view ?o))
        \<and> (\<forall>v. r = AVal v \<longrightarrow> i = length (op_view ?o) \<and> v = VInt (length (op_view ?o)))"
    using assms(3) by (simp_all add: attempt_post_def)
  show "sp_nh st' = sp_nh st" by (simp add: st')
  show "full_send (sp_h st' h) (Inr v)" if "r = AVal v" for v using that all by (simp add: st' full_send_def)
  have tk: "op_tk (sp_h st' g) = op_tk (sp_h st g)" "op_kind (sp_h st' g) = op_kind (sp_h st g)" "op_done (sp_h st' g) = op_done (sp_h st g)"
    "g \<noteq> h \<Longrightarrow> sp_h st' g = sp_h st g" for g by (simp_all add: st')
  have f: "fins (sp_log st') = fins (sp_log st)" "sp_stk st' = sp_stk st" "sp_nh st' = sp_nh st" "sp_tk st' = sp_tk st" by (simp_all add: st' sends_fins [OF l])
  have b: "sent_bytes (op_tk (sp_h st g)) (sp_log st') = take (op_off (sp_h st' g)) (op_view (sp_h st' g))"
    if g: "g < sp_nh st" "op_kind (sp_h st g) = SendAll" for g
  proof (cases "g = h")
    case True
    have "sent_bytes (op_tk ?o) (sp_log st) = take (op_off ?o) (op_view ?o)" using assms(1,2) g True by (simp add: results_ok_def)
    moreover have "take (op_off ?o) (op_view ?o) @ take (i - op_off ?o) (drop (op_off ?o) (op_view ?o)) = take i (op_view ?o)"
      using all g True by (metis le_add_diff_inverse take_add)
    ultimately show ?thesis using all g True by (simp add: st')
  next
    case False
    hence "op_tk (sp_h st g) \<noteq> op_tk ?o" using assms(1,2) g(1) by (auto simp: results_ok_def inj_on_def)
    hence "sent_bytes (op_tk (sp_h st g)) l = []" by (rule sends_bytes [OF l])
    thus ?thesis using assms(1) g False by (simp add: st' results_ok_def)
  qed
  have full: "full_send (sp_h st' g) out" if "full_send (sp_h st g) out" for g out
    using that i all by (cases "g = h") (auto simp: st' full_send_def)
  have fr: "\<forall>(g, out) \<in> set (fins (sp_log st)). g < sp_nh st \<and> full_send (sp_h st' g) out"
    using assms(1) full by (auto simp: results_ok_def)
  have "\<forall>f \<in> set (sp_stk st). \<forall>g. frame_handle f = Some g \<longrightarrow> g < sp_nh st \<and> (\<forall>out. f = FFinish g out \<longrightarrow> full_send (sp_h st' g) out)
      \<and> (\<forall>fd fin again i. f = FStepped fd g fin again i \<longrightarrow> is_stream (op_kind (sp_h st g)))"
    using assms(1) full by (auto simp: results_ok_def)
  thus "results_ok st'" using assms(1) b fr unfolding results_ok_def tk(1-3) f by simp
qed

lemma settle_results: "results_ok st \<Longrightarrow> h < sp_nh st \<Longrightarrow> (\<And>v. r = AVal v \<Longrightarrow> full_send (sp_h st h) (Inr v)) \<Longrightarrow> results_ok (try_complete h r st)"
  by (simp add: try_complete_def finish_results full_send_def split: aout.split)

section \<open>Functions\<close>

lemma prepare_socket_results:
  assumes "ordered st" "results_ok st" "h < sp_nh st"
  shows "results_ok (prepare_socket_operation K h st)"
proof -
  obtain r n l i b st' where a: "attempt K h st = (r, st')" and p: "attempt_post h st r n l i b st'"
    by (rule attempt_eq [OF ordered_view [OF assms(1)]])
  note at = attempt_results [OF assms(2,3) p]
  have "results_ok (update_registration K fd (reserve_slot fd rd h st'))" for fd rd
    by (rule still_results [OF still_trans [OF still_reserve(1) still_update] at(1)])
  moreover have "results_ok (try_complete h r st')" using at assms(3) by (intro settle_results) simp_all
  moreover have "results_ok (reject h e st)" for e by (rule still_results [OF still_reject assms(2)])
  ultimately show ?thesis using a by (auto simp: prepare_socket_operation_def Let_def split: aout.split)
qed

lemma prepare_fd_results:
  assumes "ordered st" "results_ok st" "h < sp_nh st"
  shows "results_ok (prepare_fd_operation K h st)"
proof -
  obtain r n l i b st' where a: "attempt K h st = (r, st')" and p: "attempt_post h st r n l i b st'"
    by (rule attempt_eq [OF ordered_view [OF assms(1)]])
  note at = attempt_results [OF assms(2,3) p]
  have "results_ok (update_registration K fd (reserve_poll_slot fd rd wr h st'))" for fd rd wr
    by (rule still_results [OF still_trans [OF still_reserve(2) still_update] at(1)])
  moreover have "results_ok (try_complete h r st')" using at assms(3) by (intro settle_results) simp_all
  moreover have "results_ok (reject h e st)" for e by (rule still_results [OF still_reject assms(2)])
  ultimately show ?thesis using a by (auto simp: prepare_fd_operation_def Let_def split: aout.split option.split)
qed

lemma still_continuous: "still st (prepare_socket_continuous K h st)"
proof -
  have "still st (update_registration K fd (reserve_slot fd True h st))" for fd by (rule still_trans [OF still_reserve(1) still_update])
  thus ?thesis by (simp add: prepare_socket_continuous_def Let_def still_reject)
qed

lemma stream_step_results:
  assumes "results_ok st" "h < sp_nh st" "is_stream (op_kind (sp_h st h))"
  shows "results_ok (stream_step K fd h again st)"
proof -
  obtain r n where p: "probe K fd (op_mask (sp_h st h)) st = (r, st\<lparr>sp_kn := n\<rparr>)" by (rule probe_eq)
  obtain r' n' where s: "sys K (op_sock (sp_h st h)) st = (r', st\<lparr>sp_kn := n'\<rparr>)" by (rule sys_eq)
  have u: "results_ok (update_registration K fd (st\<lparr>sp_kn := m\<rparr>))" for m
    by (rule still_results [OF still_trans [OF still_fields(2) still_update] assms(1)])
  have k: "results_ok (st\<lparr>sp_kn := m, sp_stk := FStepped fd h fin again i # sp_stk st\<rparr>)" for m fin i
    using assms unfolding results_ok_def by auto
  have e: "results_ok (emit h d (st\<lparr>sp_kn := m, sp_stk := FStepped fd h fin again i # sp_stk st\<rparr>))" for d m fin i
    by (rule still_results [OF still_emit k])
  have "still st (st\<lparr>sp_kn := m, sp_stk := FTerm h err # sp_stk st\<rparr>)" for m err by (auto simp: still_def)
  hence x: "results_ok (remove_handle h (st\<lparr>sp_kn := m, sp_stk := FTerm h err # sp_stk st\<rparr>))" for m err
    by (rule still_results [OF still_trans [OF _ still_remove] assms(1)])
  show ?thesis unfolding stream_step_def Let_def p s prod.case
    by (simp add: u e x split: opkind.split aout.split)
qed

lemma fd_continuous_results:
  assumes "results_ok st" "h < sp_nh st" "is_stream (op_kind (sp_h st h))"
  shows "results_ok (prepare_fd_continuous K h st)"
proof -
  have "results_ok (stream_step K fd h True (reserve_poll_slot fd rd wr h st))" for fd rd wr
    by (rule stream_step_results [OF still_results [OF still_reserve(2) assms(1)]])
       (use assms(2,3) in \<open>simp_all add: reserve_poll_slot_def on_entry_def split: option.split\<close>)
  thus ?thesis using still_results [OF still_reject assms(1)] by (simp add: prepare_fd_continuous_def Let_def split: option.split)
qed

lemma run_write_results:
  assumes "ordered st" "results_ok st" "\<And>h. r = RStart h \<Longrightarrow> h < sp_nh st"
  shows "results_ok (run_write K t r st)"
proof -
  have s: "results_ok (call_cb c out (close_sock t s st))" "results_ok (call_cb c out ((logs [EvShut t s] st)\<lparr>sp_kn := Suc (sp_kn st)\<rparr>))"
    "results_ok (call_cb c out st)" "results_ok (close_sock t s st)" for c out s
    using assms(2) still_trans [OF still_close_write(1) still_call_cb] still_trans [OF still_close_write(2) still_call_cb] still_call_cb still_close_write
    by (blast intro: still_results)+
  show ?thesis using assms by (cases r) (simp_all add: run_write_def s prepare_socket_results)
qed

lemma run_or_enqueue_results:
  assumes "ordered st" "results_ok st" "\<And>h. r \<noteq> RStart h"
  shows "results_ok (run_or_enqueue_write K s r st)"
proof -
  let ?st = "st\<lparr>sp_tk := Suc (sp_tk st)\<rparr>"
  have o: "ordered ?st" using assms(1) order_ok_keep [of st ?st] by (simp add: ordered_def views_ok_def)
  have r1: "results_ok ?st" by (rule still_results [OF still_fields(9) assms(2)])
  have "results_ok (run_write K t r ?st)" for t by (rule run_write_results [OF o r1]) (use assms(3) in simp)
  moreover have "results_ok (enqueue_write fd r h t ?st)" for fd h t by (rule still_results [OF still_reserve(3) r1])
  moreover have "results_ok (throw e ?st)" for e by (rule still_results [OF still_fields(1) r1])
  ultimately show ?thesis by (simp add: run_or_enqueue_write_def Let_def)
qed

lemma drain_results:
  assumes "ordered st" "results_ok st"
  shows "results_ok (drain_write_queue K fd eid st)"
proof -
  have "results_ok (drain_write_queue K fd eid st)" if en: "entry_of st fd = Some en" and w: "en_writer en = None" and q: "en_queue en = q # qs" and id: "en_id en = eid" for en q qs
  proof -
    let ?st = "put_entry fd (en\<lparr>en_queue := qs\<rparr>) st"
    have ok: "entry_ok st fd en" and o: "order_ok st" using assms(1) en by (simp_all add: ordered_def order_ok_def)
    have t: "en_tickets (sp_h st) en = (qw_tk q, run_sock (sp_h st) (qw_run q)) # en_tickets (sp_h st) (en\<lparr>en_queue := qs\<rparr>)"
      using w q by (simp add: en_tickets_def writer_tickets_def queue_tickets_def)
    have "entry_ok st fd (en\<lparr>en_queue := qs\<rparr>)" using ok q unfolding entry_ok_def t by simp
    hence "order_ok ?st" by (rule order_ok_put [OF o]) simp_all
    hence o1: "ordered ?st" using assms(1) by (simp add: ordered_def views_ok_def)
    have "still st (?st\<lparr>sp_stk := FDrain fd eid # sp_stk st\<rparr>)" by (auto simp: still_def)
    hence r1: "results_ok (?st\<lparr>sp_stk := FDrain fd eid # sp_stk st\<rparr>)" using assms(2) by (rule still_results)
    have qok: "queued_ok (sp_h st) (sp_nh st) q" using ok q by (simp add: entry_ok_def)
    have "results_ok (?st\<lparr>sp_stk := FTry (qw_handle q) # FDrain fd eid # sp_stk st\<rparr>)"
      using r1 qok unfolding results_ok_def by (auto simp: queued_ok_def split: wrun.splits)
    hence run: "results_ok (run_write K (qw_tk q) (qw_run q) (?st\<lparr>sp_stk := FTry (qw_handle q) # FDrain fd eid # sp_stk st\<rparr>))"
      using o1 qok by (intro run_write_results) (simp_all add: queued_ok_def)
    show ?thesis using run r1 en w q id by (auto simp: drain_write_queue_def Let_def split: option.split)
  qed
  thus ?thesis using assms by (auto simp: drain_write_queue_def split: option.split list.split)
qed

lemma alloc_results:
  assumes "ordered st" "results_ok st" "spawn_operation kind s fd msk c view base st = (h, st1)"
  shows "results_ok st1"
proof -
  have none: "sent_bytes (sp_tk st) (sp_log st) = []"
  proof -
    have "t < sp_tk st" if "EvSend t u b \<in> set (sp_log st)" for t u b
    proof -
      have "t \<in> set (tickets u (sp_log st))" using that by (force simp: tickets_def)
      thus ?thesis using assms(1) by (auto simp: ordered_def order_ok_def)
    qed
    thus ?thesis by (fastforce simp: sent_bytes_def split: pev.splits)
  qed
  have nofin: "filter (\<lambda>p. fst p = sp_nh st) (fins (sp_log st)) = []"
    using assms(2) by (fastforce simp: results_ok_def filter_empty_conv)
  let ?o = "\<lparr>op_kind = kind, op_sock = s, op_fd = fd, op_mask = msk, op_cb = c, op_done = False, op_view = view, op_off = 0,
         op_started = False, op_next = base, op_tk = sp_tk st\<rparr>"
  have st1: "st1 = st\<lparr>sp_h := (sp_h st)(sp_nh st := ?o), sp_nh := Suc (sp_nh st), sp_tk := Suc (sp_tk st)\<rparr>"
    using assms(3) by (auto simp: spawn_operation_def)
  have old: "h < sp_nh st \<Longrightarrow> sp_h st1 h = sp_h st h" for h by (simp add: st1)
  have new: "sp_h st1 (sp_nh st) = ?o" "sp_nh st1 = Suc (sp_nh st)" "sp_tk st1 = Suc (sp_tk st)" "sp_log st1 = sp_log st" "sp_stk st1 = sp_stk st" by (simp_all add: st1)
  have "inj_on (\<lambda>h. op_tk (sp_h st1 h)) {..<sp_nh st1}"
    using assms(2) old unfolding new(2) lessThan_Suc by (fastforce simp: results_ok_def inj_on_def new(1))
  moreover have "op_tk (sp_h st1 h) < sp_tk st1
      \<and> (op_kind (sp_h st1 h) = SendAll \<longrightarrow> sent_bytes (op_tk (sp_h st1 h)) (sp_log st1) = take (op_off (sp_h st1 h)) (op_view (sp_h st1 h)))
      \<and> length (filter (\<lambda>p. fst p = h) (fins (sp_log st1))) = of_bool (op_done (sp_h st1 h))" if "h < sp_nh st1" for h
    using that assms(2) none nofin old [of h] unfolding new(2-5) by (cases "h = sp_nh st") (auto simp: results_ok_def new(1) less_Suc_eq)
  moreover have "h < sp_nh st1 \<and> full_send (sp_h st1 h) out" if "(h, out) \<in> set (fins (sp_log st1))" for h out
    using that assms(2) old [of h] unfolding results_ok_def new(2,4) by auto
  moreover have "h < sp_nh st1 \<and> (\<forall>out. f = FFinish h out \<longrightarrow> full_send (sp_h st1 h) out)
      \<and> (\<forall>fd fin again i. f = FStepped fd h fin again i \<longrightarrow> is_stream (op_kind (sp_h st1 h)))" if "f \<in> set (sp_stk st1)" "frame_handle f = Some h" for f h
    using that assms(2) old [of h] unfolding results_ok_def new(2,5) by auto
  ultimately show ?thesis unfolding results_ok_def by auto
qed

lemma submit_send_results:
  assumes "ordered st" "results_ok st"
  shows "results_ok (submit_send K kind s view c st)"
proof -
  obtain h st1 where a: "spawn_operation kind s (-1) 0 c view 0 st = (h, st1)" by (meson surj_pair)
  note al = alloc_ordered [OF assms(1) a]
  note r1 = alloc_results [OF assms a]
  show ?thesis using prepare_socket_results [OF al(1) r1 al(2)] still_results [OF still_reject r1] still_results [OF still_reserve(3) r1]
    by (simp add: submit_send_def a)
qed

lemma send_results:
  assumes "ordered st" "results_ok st"
  shows "results_ok (send_nowait K s view c st)" "results_ok (send_close_nowait K s view st)"
proof -
  have t: "results_ok (throw e st)" for e by (rule still_results [OF still_fields(1) assms(2)])
  show "results_ok (send_nowait K s view c st)" using assms t by (simp add: send_nowait_def submit_send_results)
  let ?st = "push [FCloseNw s] st"
  have p: "results_ok ?st" by (rule still_results [OF still_push assms(2)]) simp
  have "results_ok (send_nowait K s view CbReport ?st)"
    using submit_send_results [OF _ p] assms(1) p still_results [OF still_fields(1) p] by (simp add: send_nowait_def)
  thus "results_ok (send_close_nowait K s view st)" using assms t by (simp add: send_close_nowait_def run_or_enqueue_results)
qed

lemma push_still: "frame_handle f = None \<Longrightarrow> still st (st\<lparr>sp_stk := f # sp_stk st\<rparr>)"
  by (auto simp: still_def)

lemma stop_results:
  assumes "results_ok st" "h < sp_nh st"
  shows "results_ok (selector_stop_handle h r st)"
proof -
  have "results_ok (st\<lparr>sp_stk := FStop h r # sp_stk st\<rparr>)" using assms unfolding results_ok_def by auto
  hence "results_ok (remove_handle h (st\<lparr>sp_stk := FStop h r # sp_stk st\<rparr>))" by (rule still_results [OF still_remove])
  moreover have "results_ok (terminalise_cancelled h (st\<lparr>sp_stk := FReply r None # sp_stk st\<rparr>))"
    by (rule terminalise_results, rule still_results [OF push_still assms(1)]) (simp_all add: assms(2))
  ultimately show ?thesis using still_results [OF still_give_reply assms(1)] by (simp add: selector_stop_handle_def)
qed

lemma step_fd_results:
  assumes "ordered st" "results_ok st"
  shows "results_ok (step_fd_operation K fd rd st)"
proof -
  have "results_ok (case attempt K h st of (ABlock, st') \<Rightarrow> update_registration K fd st'
      | (AExn e, st') \<Rightarrow> remove_handle h (push [FFinish h (Inl e)] st')
      | (AVal v, st') \<Rightarrow> remove_handle h (push [FFinish h (Inr v)] st'))" if h: "h < sp_nh st" for h
  proof -
    obtain r n l i b st' where a: "attempt K h st = (r, st')" and p: "attempt_post h st r n l i b st'"
      by (rule attempt_eq [OF ordered_view [OF assms(1)]])
    note at = attempt_results [OF assms(2) h p]
    have "results_ok (st'\<lparr>sp_stk := FFinish h out # sp_stk st'\<rparr>)" if "full_send (sp_h st' h) out" for out
      using at(1,3) h that unfolding results_ok_def by auto
    moreover have "full_send (sp_h st' h) (Inl e)" for e by (simp add: full_send_def)
    ultimately show ?thesis unfolding a prod.case using at(1,2)
      by (cases r) (simp_all add: still_results [OF still_update] still_results [OF still_remove])
  qed
  moreover have "results_ok (stream_step K fd h False st)" if "h < sp_nh st" "is_stream (op_kind (sp_h st h))" for h
    by (rule stream_step_results [OF assms(2) that])
  moreover have "h < sp_nh st" if "entry_of st fd = Some en" "(if rd then en_reader en else en_writer en) = Some h" for en h
    using assms(1) that by (auto simp: ordered_def order_ok_def entry_ok_def split: if_splits)
  ultimately show ?thesis using assms(2) by (auto simp: step_fd_operation_def split: option.split)
qed

lemma poll_event_results:
  assumes "ordered st" "results_ok st"
  shows "results_ok (poll_event K fd r w st)"
proof -
  have "results_ok (st\<lparr>sp_stk := FStepWrite fd # sp_stk st\<rparr>)" by (rule still_results [OF push_still assms(2)]) simp
  thus ?thesis using assms by (simp add: poll_event_def step_fd_results)
qed

section \<open>Steps\<close>

lemma sp_call_results:
  assumes "ordered st" "results_ok st"
  shows "results_ok (sp_call K c st)"
proof (cases c)
  case (COneshot k s n)
  obtain h st1 where a: "spawn_operation k s (-1) 0 (CbUser n) [] 0 st = (h, st1)" by (meson surj_pair)
  show ?thesis using prepare_socket_results [OF alloc_ordered(1) [OF assms(1) a] alloc_results [OF assms a] alloc_ordered(2) [OF assms(1) a]] assms(2)
    by (simp add: COneshot a)
next
  case (CPoll fd msk n)
  obtain h st1 where a: "spawn_operation PollOp 0 fd msk (CbUser n) [] 0 st = (h, st1)" by (meson surj_pair)
  show ?thesis using prepare_fd_results [OF alloc_ordered(1) [OF assms(1) a] alloc_results [OF assms a] alloc_ordered(2) [OF assms(1) a]]
    by (simp add: CPoll a)
next
  case (CPollMany fd msk n)
  obtain h st1 where a: "spawn_operation PollMany 0 fd msk (CbUser n) [] 0 st = (h, st1)" by (meson surj_pair)
  show ?thesis using fd_continuous_results [OF alloc_results [OF assms a]] alloc_ordered(2,3) [OF assms(1) a] by (simp add: CPollMany a)
next
  case (CAcceptMany s n base)
  obtain h st1 where a: "spawn_operation AcceptMany s (-1) 0 (CbUser n) [] base st = (h, st1)" by (meson surj_pair)
  show ?thesis using still_results [OF still_continuous alloc_results [OF assms a]] by (simp add: CAcceptMany a)
next
  case (CRecvMany s n base full)
  obtain h st1 where a: "spawn_operation RecvMany s (-1) 0 (CbUser n) [] base st = (h, st1)" by (meson surj_pair)
  show ?thesis using still_results [OF still_continuous alloc_results [OF assms a]] still_results [OF still_emit alloc_results [OF assms a]]
    by (simp add: CRecvMany a)
next
  case CWait
  have "still st ((push [FSelect] st)\<lparr>sp_ctl := CUser\<rparr>)" by (simp add: still_def)
  thus ?thesis using assms still_results [OF still_fields(1)] still_results [of st] by (auto simp: CWait)
next
  case CClose
  have "still st (st\<lparr>sp_closed := True, sp_reg := \<lambda>_. None\<rparr>)" by (simp add: still_def)
  thus ?thesis using assms still_results [of st] by (auto simp: CClose close_proactor_def)
qed (use assms in \<open>simp_all add: submit_send_results still_results [OF still_call_cb] send_results run_or_enqueue_results stop_results still_results [OF still_set_callback]\<close>)

lemma sp_exec_results:
  assumes "ordered st" "results_ok st" "\<And>h out. f = FFinish h out \<Longrightarrow> h < sp_nh st \<and> full_send (sp_h st h) out" "\<And>h r. f = FStop h r \<Longrightarrow> h < sp_nh st"
  shows "results_ok (sp_exec K f st)"
proof (cases f)
  case (FEvents evs)
  have "results_ok (st\<lparr>sp_stk := FEvents es # sp_stk st\<rparr>)" for es by (rule still_results [OF push_still assms(2)]) simp
  thus ?thesis using assms FEvents by (cases evs) (auto simp: poll_event_results)
next
  case (FStepped fd h fin again i)
  have "still st (update_registration K fd (push (if again then [FUpdate fd] else []) (upd_op h (op_next_update (\<lambda>_. i + 1)) st)))"
    by (rule still_trans [OF still_next still_trans [OF still_push still_update]]) simp
  thus ?thesis using assms(2) FStepped still_results still_remove by (auto simp: stepped_def)
next
  case (FStop h r)
  have "results_ok (st\<lparr>sp_stk := FReply r None # sp_stk st\<rparr>)" by (rule still_results [OF push_still assms(2)]) simp
  thus ?thesis using assms(4) FStop by (simp add: terminalise_results)
qed (use assms in \<open>simp_all add: drain_results finish_results still_results [OF still_removed_rest] still_results [OF still_emit]
       still_results [OF still_update] still_results [OF still_give_reply] run_or_enqueue_results step_fd_results still_results [OF still_fields(1)]\<close>)

lemma sp_catch_results:
  assumes "ordered st" "results_ok st" "\<And>h. f = FTry (Some h) \<Longrightarrow> h < sp_nh st" "\<And>h r. f = FStop h r \<Longrightarrow> h < sp_nh st"
  shows "results_ok (sp_catch K f e st)"
proof (cases f)
  case FUser
  have "still st ((logs [EvRaise e] st)\<lparr>sp_ctl := CUser\<rparr>)" by (simp add: still_def)
  thus ?thesis using assms(2) FUser still_results by auto
next
  case (FTry h)
  have "results_ok (st\<lparr>sp_ctl := CRun\<rparr>)" by (rule still_results [OF still_fields(1) assms(2)])
  thus ?thesis using assms(2,3) FTry by (simp add: finish_results full_send_def split: option.split)
next
  case (FStepped fd h fin again i)
  have "still st (remove_handle h (push [FTerm h e] (st\<lparr>sp_ctl := CRun\<rparr>)))"
    by (rule still_trans [OF still_fields(1) still_trans [OF still_push still_remove]]) simp
  moreover have "still st (update_registration K fd (st\<lparr>sp_ctl := CRun\<rparr>))" by (rule still_trans [OF still_fields(1) still_update])
  ultimately show ?thesis using assms(2) FStepped still_results by auto
next
  case (FStop h r)
  have "still st (push [FReply r (Some e)] (st\<lparr>sp_ctl := CRun\<rparr>))" by (auto simp: still_def)
  hence "results_ok (push [FReply r (Some e)] (st\<lparr>sp_ctl := CRun\<rparr>))" using assms(2) by (rule still_results)
  thus ?thesis using assms(2,4) FStop by (simp add: terminalise_results)
qed (use assms in simp_all)

lemma pop_results:
  assumes "results_ok st" "sp_stk st = f # k"
  shows "results_ok (st\<lparr>sp_stk := k\<rparr>)" "frame_handle f = Some h \<Longrightarrow> h < sp_nh st" "f = FFinish h out \<Longrightarrow> full_send (sp_h st h) out"
    "f = FStepped fd h fin again i \<Longrightarrow> is_stream (op_kind (sp_h st h))"
proof -
  have "still st (st\<lparr>sp_stk := k\<rparr>)" using assms(2) by (auto simp: still_def)
  thus "results_ok (st\<lparr>sp_stk := k\<rparr>)" using assms(1) by (rule still_results)
  show "frame_handle f = Some h \<Longrightarrow> h < sp_nh st" "f = FFinish h out \<Longrightarrow> full_send (sp_h st h) out"
    "f = FStepped fd h fin again i \<Longrightarrow> is_stream (op_kind (sp_h st h))"
    using assms by (auto simp: results_ok_def)
qed

lemma sp_step_results: "sp_step K st st' \<Longrightarrow> ordered st \<Longrightarrow> results_ok st \<Longrightarrow> results_ok st'"
proof (induction rule: sp_step.induct)
  case (call st c)
  have "still st (st\<lparr>sp_stk := FUser # sp_stk st, sp_ctl := CRun\<rparr>)" by (auto simp: still_def)
  thus ?case using call still_results by (intro sp_call_results) auto
next
  case (run st f k)
  note p = pop_results [OF run(4,2)]
  show ?case by (rule sp_exec_results) (use run(3) p in auto)
next
  case (unwind st e f k)
  note p = pop_results [OF unwind(4,2)]
  show ?case by (rule sp_catch_results) (use unwind(3) p in auto)
next
  case (ret st f k)
  thus ?case by (auto intro: still_results [OF still_fields(1)])
next
  case (raise st f k e)
  have "still st (throw e (st\<lparr>sp_cbraise := True\<rparr>))" by (simp add: still_def)
  thus ?case using raise by (auto intro: still_results)
next
  case (select st k evs)
  have "still st (st\<lparr>sp_stk := FEvents (select_events evs st) # k, sp_ctl := CRun\<rparr>)" using select by (auto simp: still_def)
  thus ?case using select by (auto intro: still_results)
next
  case (socket st fd b)
  have "still st (st\<lparr>sp_fd := (sp_fd st)(sp_ns st := fd), sp_blk := (sp_blk st)(sp_ns st := b), sp_ns := Suc (sp_ns st)\<rparr>)" by (simp add: still_def)
  thus ?case using socket by (auto intro: still_results)
next
  case (sock_closed st s)
  thus ?case by (auto intro: still_results [OF still_fields(10)])
qed

lemma sp_reach_results: "sp_reach K handler st \<Longrightarrow> results_ok st"
proof (induction rule: rtranclp_induct)
  case base
  show ?case by (simp add: sp_init_def results_ok_def)
next
  case (step st st')
  thus ?case using sp_step_results sp_reach_ordered by blast
qed

end
