(* ===== verification/Selector_Holding.thy ===== *)
theory Selector_Holding
  imports Selector_Results
begin

text \<open>
  Where an operation waits.  As long as the selector has accepted every registration and no callback has
  raised, an operation that is neither completed nor refused is held in exactly one place: a slot, a write
  queue, or the frame that is about to complete it.  A queue without a writer is being drained, and the
  selector watches exactly the slots.
\<close>

section \<open>Handles held by slots and frames\<close>

definition opt_ref :: "nat option \<Rightarrow> nat multiset" where
  "opt_ref x = (case x of None \<Rightarrow> {#} | Some h \<Rightarrow> {#h#})"

lemma opt_ref_simps [simp]: "opt_ref None = {#}" "opt_ref (Some h) = {#h#}"
  by (simp_all add: opt_ref_def)

definition queue_refs :: "qwrite list \<Rightarrow> nat multiset" where
  "queue_refs qs = sum_list (map (\<lambda>q. opt_ref (qw_handle q)) qs)"

definition entry_refs :: "fdentry \<Rightarrow> nat multiset" where
  "entry_refs en = opt_ref (en_reader en) + (if en_writer en = en_reader en then {#} else opt_ref (en_writer en)) + queue_refs (en_queue en)"

definition slot_refs :: "(int \<times> fdentry) list \<Rightarrow> nat multiset" where
  "slot_refs sl = sum_list (map (\<lambda>p. entry_refs (snd p)) sl)"

fun frame_ref :: "frame \<Rightarrow> nat multiset" where
  "frame_ref (FFinish h out) = {#h#}"
| "frame_ref (FStop h r) = {#h#}"
| "frame_ref _ = {#}"

definition stack_refs :: "frame list \<Rightarrow> nat multiset" where
  "stack_refs k = sum_list (map frame_ref k)"

lemma refs_simps [simp]:
  "queue_refs [] = {#}" "queue_refs (q # qs) = opt_ref (qw_handle q) + queue_refs qs" "queue_refs (qs @ qs') = queue_refs qs + queue_refs qs'"
  "slot_refs [] = {#}" "slot_refs (p # sl) = entry_refs (snd p) + slot_refs sl"
  "stack_refs [] = {#}" "stack_refs (f # k) = frame_ref f + stack_refs k" "stack_refs (k @ k') = stack_refs k + stack_refs k'"
  "entry_refs (new_entry n) = {#}"
  by (simp_all add: queue_refs_def slot_refs_def stack_refs_def entry_refs_def new_entry_def)

lemma slot_refs_update:
  assumes "distinct (map fst sl)" "map_of sl fd = Some en"
  shows "slot_refs (AList.update fd en' sl) + entry_refs en = slot_refs sl + entry_refs en'"
  using assms
proof (induction sl)
  case (Cons p sl)
  show ?case
  proof (cases "fst p = fd")
    case True
    thus ?thesis using Cons by (cases p) (simp add: add_ac)
  next
    case False
    hence "slot_refs (AList.update fd en' sl) + entry_refs en = slot_refs sl + entry_refs en'" using Cons by (cases p) auto
    thus ?thesis using False by (cases p) (simp add: add.assoc)
  qed
qed simp

lemma slot_refs_new: "map_of sl fd = None \<Longrightarrow> slot_refs (AList.update fd en sl) = slot_refs sl + entry_refs en"
  by (induction sl) (auto simp: add.commute add.left_commute split: if_splits)

lemma slot_refs_delete:
  assumes "distinct (map fst sl)" "map_of sl fd = Some en"
  shows "slot_refs (AList.delete fd sl) + entry_refs en = slot_refs sl"
proof -
  have none: "slot_refs (AList.delete fd sl) = slot_refs sl" if "fd \<notin> fst ` set sl" for sl :: "(int \<times> fdentry) list"
    using that by (simp add: AList.delete_id)
  show ?thesis using assms
    by (induction sl) (auto simp: none add.commute add.left_commute)
qed

lemma queue_refs_filter: "count (queue_refs (filter (\<lambda>q. qw_handle q \<noteq> Some h) qs)) g = (if g = h then 0 else count (queue_refs qs) g)"
  by (induction qs) (auto simp: opt_ref_def split: option.split)

lemma clear_op_refs: "count (entry_refs (clear_op h en)) g = (if g = h then 0 else count (entry_refs en) g)"
  by (auto simp: entry_refs_def clear_op_def queue_refs_filter opt_ref_def split: option.split)

lemma queue_refs_member: "q \<in> set qs \<Longrightarrow> qw_handle q = Some h \<Longrightarrow> h \<in># queue_refs qs"
  by (induction qs) auto

lemma has_op_refs: "has_op h en \<longleftrightarrow> h \<in># entry_refs en"
proof -
  have "h \<in># queue_refs qs \<longleftrightarrow> (\<exists>q \<in> set qs. qw_handle q = Some h)" for qs
    by (induction qs) (auto simp: opt_ref_def split: option.split)
  thus ?thesis by (auto simp: has_op_def entry_refs_def opt_ref_def split: option.splits)
qed

lemma entry_in_slots: "map_of sl fd = Some en \<Longrightarrow> entry_refs en \<subseteq># slot_refs sl"
  by (induction sl) (auto split: if_splits intro: subset_mset.order_trans)

section \<open>The invariants\<close>

definition good :: "sproac \<Rightarrow> bool" where
  "good st = (\<not> sp_regfail st \<and> \<not> sp_cbraise st)"

definition oneshot :: "sproac \<Rightarrow> nat \<Rightarrow> bool" where
  "oneshot st h = (\<not> is_stream (op_kind (sp_h st h)))"

definition pending_op :: "sproac \<Rightarrow> nat \<Rightarrow> bool" where
  "pending_op st h = (h < sp_nh st \<and> \<not> op_done (sp_h st h) \<and> h \<notin> set (sp_rej st))"

text \<open>\<open>X\<close> are the handles the code has in hand, \<open>F\<close> the descriptors whose registration it is about to update.\<close>

definition hold :: "nat multiset \<Rightarrow> sproac \<Rightarrow> bool" where
  "hold X st =
     (set (sp_rej st) \<subseteq> {..<sp_nh st}
      \<and> (\<forall>h. oneshot st h \<longrightarrow>
           (if pending_op st h then count (slot_refs (sp_slots st)) h + count (stack_refs (sp_stk st)) h + count X h = 1
            else count (slot_refs (sp_slots st)) h = 0)))"

definition drained :: "sproac \<Rightarrow> bool" where
  "drained st = (\<forall>fd en. entry_of st fd = Some en \<longrightarrow> en_writer en = None \<longrightarrow> en_queue en \<noteq> [] \<longrightarrow> FDrain fd (en_id en) \<in> set (sp_stk st))"

definition due :: "sproac \<Rightarrow> int \<Rightarrow> bool" where
  "due st fd = (\<exists>f \<in> set (sp_stk st). f = FRemoved fd \<or> f = FUpdate fd \<or> (\<exists>h i. f = FStepped fd h False True i))"

definition watched :: "int set \<Rightarrow> sproac \<Rightarrow> bool" where
  "watched F st = (\<not> sp_closed st \<longrightarrow> (\<forall>fd. fd \<notin> F \<longrightarrow> \<not> due st fd \<longrightarrow> sp_reg st fd = reg_mask st fd))"

definition keep :: "nat multiset \<Rightarrow> int set \<Rightarrow> sproac \<Rightarrow> bool" where
  "keep X F st = (good st \<longrightarrow> hold X st \<and> drained st \<and> watched F st)"

text \<open>Fields the invariants read.\<close>

definition alike :: "sproac \<Rightarrow> sproac \<Rightarrow> bool" where
  "alike st st' = (sp_slots st' = sp_slots st \<and> sp_stk st' = sp_stk st \<and> sp_nh st' = sp_nh st \<and> sp_rej st' = sp_rej st
     \<and> (\<forall>h. op_kind (sp_h st' h) = op_kind (sp_h st h) \<and> op_done (sp_h st' h) = op_done (sp_h st h))
     \<and> sp_reg st' = sp_reg st \<and> sp_closed st' = sp_closed st \<and> sp_regfail st' = sp_regfail st \<and> sp_cbraise st' = sp_cbraise st)"

lemma alike_refl [simp]: "alike st st"
  by (simp add: alike_def)

lemma alike_trans [trans]: "alike a b \<Longrightarrow> alike b c \<Longrightarrow> alike a c"
  by (simp add: alike_def)

lemma alike_keep: "alike st st' \<Longrightarrow> keep X F st \<Longrightarrow> keep X F st'"
  by (simp add: alike_def keep_def good_def hold_def pending_op_def oneshot_def drained_def watched_def due_def reg_mask_def selector_mask_def)

lemma alike_fields [simp]: "alike st (st\<lparr>sp_ctl := x\<rparr>)" "alike st (st\<lparr>sp_kn := n\<rparr>)" "alike st (st\<lparr>sp_tk := t\<rparr>)" "alike st (st\<lparr>sp_fd := fds\<rparr>)"
  by (simp_all add: alike_def)

lemma alike_call_cb: "alike st (call_cb c out st)"
  by (rule call_cb_eq [of c out st]) (simp add: alike_def)

lemma alike_emit: "alike st (emit h d st)"
  by (simp add: emit_def alike_def)

lemma alike_give_reply: "alike st (give_reply r err st)"
  by (simp add: give_reply_def alike_call_cb split: reply.splits option.splits)

lemma alike_set_callback: "alike st (set_operation_callback h c st)"
  by (simp add: set_operation_callback_def alike_def)

lemma alike_next: "alike st (upd_op h (op_next_update f) st)"
  by (simp add: alike_def)

lemma alike_writes: "alike st (close_sock t s st)" "alike st ((logs [EvShut t s] st)\<lparr>sp_kn := Suc (sp_kn st)\<rparr>)"
  by (simp_all add: close_sock_def alike_def)

lemma alike_attempt: "attempt_post h st r n l i b st' \<Longrightarrow> alike st st'"
  by (simp add: attempt_post_def alike_def)

section \<open>Changes\<close>

lemma keep_weaken: "keep X F st \<Longrightarrow> F \<subseteq> G \<Longrightarrow> keep X G st"
  by (auto simp: keep_def watched_def)

lemma keep_update:
  assumes "keep X (insert fd F) st"
  shows "keep X F (update_registration K fd st)"
proof -
  obtain n r b x where u: "update_registration K fd st = st\<lparr>sp_kn := n, sp_reg := r, sp_regfail := b, sp_ctl := x\<rparr>"
    and b: "sp_regfail st \<Longrightarrow> b" "\<not> b \<Longrightarrow> r = (if sp_closed st then sp_reg st else (sp_reg st)(fd := reg_mask st fd))"
    by (rule update_registration_eq [of K fd st]) (rule that)
  have m: "reg_mask (update_registration K fd st) = reg_mask st" by (intro ext) (simp add: u reg_mask_def selector_mask_def)
  show ?thesis
  proof (cases b)
    case True
    thus ?thesis by (simp add: u keep_def good_def)
  next
    case False
    thus ?thesis using assms b m unfolding keep_def good_def hold_def pending_op_def oneshot_def drained_def watched_def due_def u by auto
  qed
qed

lemma hold_slots: "hold X st \<Longrightarrow> oneshot st h \<Longrightarrow> \<not> pending_op st h \<Longrightarrow> count (slot_refs (sp_slots st)) h = 0"
  by (simp add: hold_def)

lemma hold_one: "hold X st \<Longrightarrow> oneshot st h \<Longrightarrow> pending_op st h
    \<Longrightarrow> count (slot_refs (sp_slots st)) h + count (stack_refs (sp_stk st)) h + count X h = 1"
  by (simp add: hold_def)

lemma hold_pending: "hold X st \<Longrightarrow> oneshot st h \<Longrightarrow> h \<in># slot_refs (sp_slots st) \<Longrightarrow> pending_op st h"
  unfolding hold_def by (metis count_eq_zero_iff)

text \<open>Completing an operation that is in hand, or that no slot holds.\<close>

lemma keep_done:
  assumes "keep X F st" "good st \<Longrightarrow> oneshot st h \<Longrightarrow> count (slot_refs (sp_slots st)) h = 0" "\<And>g. g \<noteq> h \<Longrightarrow> count Y g = count X g"
  shows "keep Y F (finish_oneshot h out st)"
proof (cases "op_done (sp_h st h)")
  case True
  hence "hold Y st" if "hold X st" using that assms(3) unfolding hold_def by (metis pending_op_def)
  thus ?thesis using assms(1) True by (simp add: finish_oneshot_done keep_def)
next
  case False
  then obtain l x where e: "finish_oneshot h out st =
      st\<lparr>sp_h := (sp_h st)(h := (sp_h st h)\<lparr>op_done := True\<rparr>), sp_log := sp_log st @ EvFin h out # l, sp_ctl := x\<rparr>"
    by (rule finish_oneshot_eq)
  let ?st = "finish_oneshot h out st"
  have "oneshot ?st = oneshot st" by (intro ext) (simp add: oneshot_def e)
  moreover have "pending_op ?st g = (g \<noteq> h \<and> pending_op st g)" for g by (simp add: pending_op_def e)
  moreover have "sp_slots ?st = sp_slots st" "sp_stk ?st = sp_stk st" "sp_rej ?st = sp_rej st" "sp_nh ?st = sp_nh st" by (simp_all add: e)
  ultimately have "hold Y ?st" if "hold X st" "good st" using that assms(2,3) unfolding hold_def by auto
  thus ?thesis using assms(1) unfolding keep_def
    by (simp add: good_def drained_def watched_def due_def reg_mask_def selector_mask_def e)
qed

lemma keep_finish:
  assumes "keep (add_mset h X) F st" "pending_op st h"
  shows "keep X F (finish_oneshot h out st)"
proof (rule keep_done [OF assms(1)])
  assume "good st" "oneshot st h"
  hence "count (slot_refs (sp_slots st)) h + count (stack_refs (sp_stk st)) h + count (add_mset h X) h = 1"
    using assms hold_one unfolding keep_def by blast
  thus "count (slot_refs (sp_slots st)) h = 0" by simp
qed simp

lemma keep_reject:
  assumes "keep (add_mset h X) F st" "h < sp_nh st"
  shows "keep X F (reject h e st)"
proof -
  have p: "pending_op (reject h e st) g = (g \<noteq> h \<and> pending_op st g)" for g by (auto simp: pending_op_def reject_def)
  have "hold X (reject h e st)" if h: "hold (add_mset h X) st"
  proof -
    have "count (slot_refs (sp_slots st)) h = 0" if "oneshot st h"
    proof (cases "pending_op st h")
      case True
      hence "count (slot_refs (sp_slots st)) h + count (stack_refs (sp_stk st)) h + count (add_mset h X) h = 1" by (rule hold_one [OF h that])
      thus ?thesis by simp
    qed (rule hold_slots [OF h that])
    thus ?thesis using h assms(2) unfolding hold_def p by (auto simp: oneshot_def reject_def)
  qed
  thus ?thesis using assms unfolding keep_def
    by (simp add: good_def drained_def watched_def due_def reg_mask_def selector_mask_def reject_def)
qed

lemma keep_push:
  assumes "keep (frame_ref f + X) F st"
  shows "keep X F (st\<lparr>sp_stk := f # sp_stk st\<rparr>)"
  using assms by (auto simp: keep_def hold_def pending_op_def oneshot_def good_def drained_def watched_def due_def reg_mask_def selector_mask_def add_ac)

text \<open>A frame that nothing waits for is dropped.\<close>

lemma keep_pop:
  assumes "keep X F (st\<lparr>sp_stk := f # k\<rparr>)" "\<And>fd eid. f \<noteq> FDrain fd eid"
  shows "keep (frame_ref f + X) (F \<union> {fd. f = FRemoved fd \<or> f = FUpdate fd \<or> (\<exists>h i. f = FStepped fd h False True i)}) (st\<lparr>sp_stk := k\<rparr>)"
  using assms by (fastforce simp: keep_def hold_def pending_op_def oneshot_def good_def drained_def watched_def due_def reg_mask_def selector_mask_def add_ac)

lemma keep_stream: "\<not> oneshot st h \<Longrightarrow> keep (add_mset h X) F st = keep X F st"
  by (auto simp: keep_def hold_def split: if_splits)

lemma good_pending:
  assumes "ordered st" "keep X F st" "good st" "entry_of st fd = Some en" "h \<in># entry_refs en" "oneshot st h"
  shows "pending_op st h"
  using assms entry_in_slots [of "sp_slots st" fd en] by (auto simp: keep_def dest: mset_subset_eqD intro: hold_pending)

lemma keep_on_entry:
  assumes "ordered st" "keep Y F st"
    and refs: "\<And>en g. good st \<Longrightarrow> oneshot st g \<Longrightarrow> entry_of st fd = Some en \<or> entry_of st fd = None \<and> (\<exists>n. en = new_entry n)
        \<Longrightarrow> count (entry_refs (f en)) g + count X g = count (entry_refs en) g + count Y g \<and> (\<not> pending_op st g \<longrightarrow> count (entry_refs (f en)) g = count (entry_refs en) g)"
    and id: "\<And>en. en_id (f en) = en_id en" "\<And>en. en_writer (f en) = None \<Longrightarrow> en_queue (f en) \<noteq> [] \<Longrightarrow> en_writer en = None \<and> en_queue en \<noteq> []"
  shows "keep X (insert fd F) (on_entry fd f st)"
    "(\<And>en. en_reader (f en) = en_reader en \<and> en_writer (f en) = en_writer en) \<Longrightarrow> keep X F (on_entry fd f st)"
proof -
  let ?st = "on_entry fd f st"
  obtain en where en: "entry_of st fd = Some en \<or> entry_of st fd = None \<and> (\<exists>n. en = new_entry n)"
    and slots: "sp_slots ?st = AList.update fd (f en) (sp_slots st)"
    by (cases "entry_of st fd") (auto simp: on_entry_def)
  have same: "sp_stk ?st = sp_stk st" "sp_h ?st = sp_h st" "sp_nh ?st = sp_nh st" "sp_rej ?st = sp_rej st" "sp_reg ?st = sp_reg st" "sp_closed ?st = sp_closed st"
    "good ?st = good st"
    by (simp_all add: on_entry_def good_def split: option.split)
  have sr: "count (slot_refs (sp_slots ?st)) g + count (entry_refs en) g = count (slot_refs (sp_slots st)) g + count (entry_refs (f en)) g" for g
  proof (cases "entry_of st fd")
    case None
    hence "entry_refs en = {#}" using en by auto
    thus ?thesis using slot_refs_new [OF None, of "f en"] by (simp add: slots)
  next
    case (Some en')
    have "distinct (map fst (sp_slots st))" using assms(1) by (simp add: ordered_def order_ok_def)
    thus ?thesis using slot_refs_update [OF _ Some, of "f en"] en Some by (simp add: slots multiset_eq_iff)
  qed
  have "hold X ?st" if "hold Y st" "good st"
  proof -
    have "if pending_op st g then count (slot_refs (sp_slots ?st)) g + count (stack_refs (sp_stk st)) g + count X g = 1 else count (slot_refs (sp_slots ?st)) g = 0"
      if "oneshot st g" for g
      using hold_one [OF \<open>hold Y st\<close> that] hold_slots [OF \<open>hold Y st\<close> that] refs [OF \<open>good st\<close> that en] sr [of g] by (cases "pending_op st g") auto
    thus ?thesis using \<open>hold Y st\<close> unfolding hold_def by (simp add: oneshot_def pending_op_def same)
  qed
  moreover have "drained ?st" if "drained st"
    unfolding drained_def same
  proof (intro allI impI)
    fix g e
    assume e: "entry_of ?st g = Some e" "en_writer e = None" "en_queue e \<noteq> []"
    show "FDrain g (en_id e) \<in> set (sp_stk st)"
    proof (cases "g = fd")
      case True
      hence "e = f en" using e(1) by (simp add: slots update_conv')
      hence w: "en_writer en = None" "en_queue en \<noteq> []" "en_id e = en_id en" using id e by auto
      hence "entry_of st fd = Some en" using en by (auto simp: new_entry_def)
      thus ?thesis using that w True by (auto simp: drained_def)
    next
      case False
      thus ?thesis using e that by (simp add: slots update_conv' drained_def)
    qed
  qed
  moreover have "reg_mask ?st g = reg_mask st g" if "g \<noteq> fd" for g
    using that by (simp add: reg_mask_def selector_mask_def slots update_conv')
  hence "watched (insert fd F) ?st" if "watched F st" using that by (auto simp: watched_def due_def same)
  ultimately show k: "keep X (insert fd F) ?st" using assms(2) by (simp add: keep_def same)
  assume f: "\<And>en. en_reader (f en) = en_reader en \<and> en_writer (f en) = en_writer en"
  have "reg_mask ?st fd = reg_mask st fd"
    using en f by (auto simp: reg_mask_def selector_mask_def slots update_conv' new_entry_def)
  hence "reg_mask ?st = reg_mask st" using \<open>\<And>g. g \<noteq> fd \<Longrightarrow> reg_mask ?st g = reg_mask st g\<close> by (metis ext)
  hence "watched F ?st" if "watched F st" using that by (simp add: watched_def due_def same)
  thus "keep X F ?st" using k assms(2) by (simp add: keep_def same)
qed

lemma hand_not_held:
  assumes "keep (add_mset h X) F st" "good st" "pending_op st h" "oneshot st h" "entry_of st fd = Some en \<or> entry_of st fd = None \<and> (\<exists>n. en = new_entry n)"
  shows "h \<notin># entry_refs en"
proof -
  have "hold (add_mset h X) st" using assms(1,2) by (simp add: keep_def)
  hence "count (slot_refs (sp_slots st)) h = 0" using hold_one [of "add_mset h X" st h] assms(3,4) by simp
  thus ?thesis using assms(5) entry_in_slots [of "sp_slots st" fd en] by (auto simp: count_eq_zero_iff dest: mset_subset_eqD)
qed

lemma entry_refs_reader:
  "en_reader en = None \<Longrightarrow> (g = h \<longrightarrow> h \<notin># entry_refs en) \<Longrightarrow> count (entry_refs (en\<lparr>en_reader := Some h\<rparr>)) g = count (entry_refs en) g + of_bool (g = h)"
  by (auto simp: entry_refs_def opt_ref_def split: option.splits)

lemma entry_refs_writer:
  "en_writer en = None \<Longrightarrow> (g = h \<longrightarrow> h \<notin># entry_refs en) \<Longrightarrow> count (entry_refs (en\<lparr>en_writer := Some h\<rparr>)) g = count (entry_refs en) g + of_bool (g = h)"
  by (auto simp: entry_refs_def opt_ref_def split: option.splits)

lemma keep_reserve:
  assumes "ordered st" "keep (add_mset h X) F st" "\<not> slot_taken fd rd st" "oneshot st h \<Longrightarrow> pending_op st h"
  shows "keep X (insert fd F) (reserve_slot fd rd h st)"
  unfolding reserve_slot_def
proof (rule keep_on_entry(1) [OF assms(1,2)])
  fix en g
  assume g: "good st" "oneshot st g" and en: "entry_of st fd = Some en \<or> entry_of st fd = None \<and> (\<exists>n. en = new_entry n)"
  have "(if rd then en_reader en else en_writer en) = None" using en assms(3) by (auto simp: slot_taken_def new_entry_def)
  moreover have "g = h \<longrightarrow> h \<notin># entry_refs en" using hand_not_held [OF assms(2) g(1) _ _ en] assms(4) g(2) by auto
  ultimately show "count (entry_refs (if rd then en\<lparr>en_reader := Some h\<rparr> else en\<lparr>en_writer := Some h\<rparr>)) g + count X g = count (entry_refs en) g + count (add_mset h X) g
      \<and> (\<not> pending_op st g \<longrightarrow> count (entry_refs (if rd then en\<lparr>en_reader := Some h\<rparr> else en\<lparr>en_writer := Some h\<rparr>)) g = count (entry_refs en) g)"
    using assms(4) g(2) by (auto simp: entry_refs_reader entry_refs_writer)
qed (auto split: if_splits)

lemma keep_reserve_poll:
  assumes "ordered st" "keep (add_mset h X) F st" "rd \<Longrightarrow> \<not> slot_taken fd True st" "wr \<Longrightarrow> \<not> slot_taken fd False st" "rd \<or> wr"
    and "oneshot st h \<Longrightarrow> pending_op st h"
  shows "keep X (insert fd F) (reserve_poll_slot fd rd wr h st)"
  unfolding reserve_poll_slot_def
proof (rule keep_on_entry(1) [OF assms(1,2)])
  fix en g
  assume g: "good st" "oneshot st g" and en: "entry_of st fd = Some en \<or> entry_of st fd = None \<and> (\<exists>n. en = new_entry n)"
  have "rd \<Longrightarrow> en_reader en = None" "wr \<Longrightarrow> en_writer en = None" using en assms(3,4) by (auto simp: slot_taken_def new_entry_def)
  moreover have "g = h \<longrightarrow> h \<notin># entry_refs en" using hand_not_held [OF assms(2) g(1) _ _ en] assms(6) g(2) by auto
  ultimately have "count (entry_refs (en\<lparr>en_reader := (if rd then Some h else en_reader en), en_writer := (if wr then Some h else en_writer en)\<rparr>)) g
      = count (entry_refs en) g + of_bool (g = h)"
    using assms(5) by (cases rd; cases wr) (auto simp: entry_refs_def opt_ref_def split: option.splits)
  thus "count (entry_refs (en\<lparr>en_reader := (if rd then Some h else en_reader en), en_writer := (if wr then Some h else en_writer en)\<rparr>)) g + count X g
      = count (entry_refs en) g + count (add_mset h X) g
      \<and> (\<not> pending_op st g \<longrightarrow> count (entry_refs (en\<lparr>en_reader := (if rd then Some h else en_reader en), en_writer := (if wr then Some h else en_writer en)\<rparr>)) g = count (entry_refs en) g)"
    using assms(6) g(2) by auto
qed (auto split: if_splits)

lemma keep_enqueue:
  assumes "ordered st" "keep (opt_ref hh + X) F st" "write_busy fd st" "\<And>h. hh = Some h \<Longrightarrow> pending_op st h"
  shows "keep X F (enqueue_write fd r hh t st)"
proof -
  obtain en0 where en0: "entry_of st fd = Some en0" "en_writer en0 \<noteq> None \<or> en_queue en0 \<noteq> []" using assms(3) by (auto simp: write_busy_def split: option.splits)
  let ?f = "\<lambda>en. if en_writer en = None \<and> en_queue en = [] then en else en\<lparr>en_queue := en_queue en @ [\<lparr>qw_run = r, qw_handle = hh, qw_tk = t\<rparr>]\<rparr>"
  have eq: "enqueue_write fd r hh t st = on_entry fd ?f st" using en0 by (auto simp: enqueue_write_def on_entry_def)
  show ?thesis unfolding eq
  proof (rule keep_on_entry(2) [OF assms(1,2)])
    fix en g
    assume g: "good st" "oneshot st g" and en: "entry_of st fd = Some en \<or> entry_of st fd = None \<and> (\<exists>n. en = new_entry n)"
    have "en = en0" using en en0(1) by auto
    thus "count (entry_refs (?f en)) g + count X g = count (entry_refs en) g + count (opt_ref hh + X) g
        \<and> (\<not> pending_op st g \<longrightarrow> count (entry_refs (?f en)) g = count (entry_refs en) g)"
      using en0(2) assms(4) by (auto simp: entry_refs_def opt_ref_def split: option.splits)
  qed (auto split: if_splits)
qed

end
