(* ===== verification/Selector_Machine.thy ===== *)
theory Selector_Machine
  imports Selector_Holding
begin

text \<open>
  The invariants of \<open>Selector_Holding\<close> along every step of the machine.
\<close>

section \<open>Removal\<close>

lemma keep_pushes:
  assumes "keep (stack_refs fs + X) F st"
  shows "keep X F (st\<lparr>sp_stk := fs @ sp_stk st\<rparr>)"
  using assms
  by (auto simp: keep_def hold_def pending_op_def oneshot_def good_def drained_def watched_def due_def reg_mask_def selector_mask_def add_ac)

lemma keep_streams: "\<not> oneshot st h \<Longrightarrow> set_mset Y \<subseteq> {h} \<Longrightarrow> keep (Y + X) F st = keep X F st"
proof -
  assume "\<not> oneshot st h" "set_mset Y \<subseteq> {h}"
  hence "oneshot st g \<Longrightarrow> count Y g = 0" for g by (metis count_eq_zero_iff singletonD subsetD)
  thus ?thesis by (auto simp: keep_def hold_def split: if_splits)
qed

lemma keep_remove:
  assumes "ordered st" "keep X F st" "oneshot st h \<Longrightarrow> is_held h st \<and> stack_refs fs = {#h#}" "\<not> oneshot st h \<Longrightarrow> set_mset (stack_refs fs) \<subseteq> {h}"
  shows "keep X F (remove_handle h (st\<lparr>sp_stk := fs @ sp_stk st\<rparr>))"
proof -
  let ?s = "st\<lparr>sp_stk := fs @ sp_stk st\<rparr>"
  have d: "distinct (map fst (sp_slots ?s))" using assms(1) by (simp add: ordered_def order_ok_def)
  thus ?thesis
  proof (cases rule: remove_handle_eq [of ?s h])
    case none
    hence "\<not> oneshot st h" using assms(3) by (auto simp: is_held_def)
    thus ?thesis unfolding none(2) using assms(2,4) keep_streams by (intro keep_pushes) blast
  next
    case (some fd en)
    let ?dr = "(if en_writer en = Some h then [FDrain fd (en_id en)] else []) @ [FRemoved fd]"
    let ?t = "remove_handle h ?s"
    have t: "sp_slots ?t = AList.update fd (clear_op h en) (sp_slots st)" "sp_stk ?t = ?dr @ fs @ sp_stk st" "sp_h ?t = sp_h st" "sp_nh ?t = sp_nh st"
      "sp_rej ?t = sp_rej st" "sp_reg ?t = sp_reg st" "sp_closed ?t = sp_closed st" "good ?t = good st"
      unfolding some(4) by (simp_all add: good_def)
    have en: "entry_of st fd = Some en" using some(1) by simp
    have sr: "count (slot_refs (sp_slots ?t)) g + count (entry_refs en) g = count (slot_refs (sp_slots st)) g + (if g = h then 0 else count (entry_refs en) g)" for g
      using slot_refs_update [OF _ en, of "clear_op h en"] d unfolding t by (simp add: multiset_eq_iff clear_op_refs)
    have kr: "stack_refs (sp_stk ?t) = stack_refs fs + stack_refs (sp_stk st)" unfolding t by simp
    have "hold X ?t" if ho: "hold X st"
    proof -
      have "if pending_op st g then count (slot_refs (sp_slots ?t)) g + count (stack_refs (sp_stk ?t)) g + count X g = 1 else count (slot_refs (sp_slots ?t)) g = 0"
        if g: "oneshot st g" for g
      proof (cases "g = h")
        case True
        have "h \<in># entry_refs en" using some(2) by (simp add: has_op_refs)
        hence "h \<in># slot_refs (sp_slots st)" and pos: "0 < count (entry_refs en) h" using entry_in_slots [OF en] by (auto dest: mset_subset_eqD)
        hence "pending_op st h" using hold_pending [OF ho] g True by blast
        hence "count (slot_refs (sp_slots st)) h + count (stack_refs (sp_stk st)) h + count X h = 1" using hold_one [OF ho] g True by blast
        moreover have "count (slot_refs (sp_slots ?t)) h + count (entry_refs en) h = count (slot_refs (sp_slots st)) h" using sr [of h] by simp
        ultimately have "count (slot_refs (sp_slots ?t)) h + (1 + count (stack_refs (sp_stk st)) h) + count X h = 1" using pos by linarith
        thus ?thesis using \<open>pending_op st h\<close> assms(3) g True unfolding kr by simp
      next
        case False
        have "count (stack_refs fs) g = 0" using assms(3,4) False by (cases "oneshot st h") (auto simp: count_eq_zero_iff)
        thus ?thesis using sr [of g] hold_one [OF ho g] hold_slots [OF ho g] False unfolding kr by auto
      qed
      thus ?thesis using ho unfolding hold_def by (simp add: oneshot_def pending_op_def t(3-5))
    qed
    moreover have "drained ?t" if "drained st"
      unfolding drained_def
    proof (intro allI impI)
      fix g e
      assume e: "entry_of ?t g = Some e" "en_writer e = None" "en_queue e \<noteq> []"
      show "FDrain g (en_id e) \<in> set (sp_stk ?t)"
      proof (cases "g = fd")
        case True
        hence "e = clear_op h en" using e(1) by (simp add: t update_conv')
        moreover have "en_queue en \<noteq> []" using e(3) calculation by (auto simp: clear_op_def)
        ultimately show ?thesis using e that en True unfolding t by (auto simp: drained_def clear_op_def split: if_splits)
      next
        case False
        thus ?thesis using e that by (simp add: t update_conv' drained_def)
      qed
    qed
    moreover have "watched F ?t" if "watched F st"
    proof -
      have "reg_mask ?t g = reg_mask st g" if "g \<noteq> fd" for g using that by (simp add: reg_mask_def selector_mask_def t update_conv')
      moreover have "due ?t fd" unfolding due_def t by simp
      moreover have "due st g \<Longrightarrow> due ?t g" for g unfolding due_def t by auto
      ultimately show ?thesis using that unfolding watched_def t(6,7) by metis
    qed
    ultimately show ?thesis using assms(2) unfolding keep_def t(8) by blast
  qed
qed

lemma keep_delete:
  assumes "ordered st" "keep X F st" "entry_of st fd = Some en" "en_empty en"
  shows "keep X F (st\<lparr>sp_slots := AList.delete fd (sp_slots st)\<rparr>)"
proof -
  let ?t = "st\<lparr>sp_slots := AList.delete fd (sp_slots st)\<rparr>"
  have "distinct (map fst (sp_slots st))" using assms(1) by (simp add: ordered_def order_ok_def)
  moreover have "entry_refs en = {#}" using assms(4) by (simp add: en_empty_def entry_refs_def)
  ultimately have r: "slot_refs (sp_slots ?t) = slot_refs (sp_slots st)" using slot_refs_delete [OF _ assms(3)] by simp
  have m: "reg_mask ?t = reg_mask st"
    using assms(3,4) by (intro ext) (auto simp: reg_mask_def selector_mask_def delete_conv' en_empty_def)
  have "hold X st \<Longrightarrow> hold X ?t" unfolding hold_def oneshot_def pending_op_def r by simp
  moreover have "drained st \<Longrightarrow> drained ?t" by (simp add: drained_def delete_conv')
  moreover have "watched F st \<Longrightarrow> watched F ?t" unfolding watched_def m by (simp add: due_def)
  ultimately show ?thesis using assms(2) by (simp add: keep_def good_def)
qed

lemma keep_removed_rest:
  assumes "ordered st" "keep X (insert fd F) st"
  shows "keep X F (removed_rest K fd st)"
  unfolding removed_rest_def
  by (rule keep_update) (use assms keep_delete in \<open>auto split: option.split\<close>)

section \<open>Submission\<close>

lemma pending_alike: "alike st st' \<Longrightarrow> pending_op st' h = pending_op st h"
  by (simp add: alike_def pending_op_def)

lemma oneshot_alike: "alike st st' \<Longrightarrow> oneshot st' h = oneshot st h"
  by (simp add: alike_def oneshot_def)

lemma keep_settle:
  assumes "keep (add_mset h X) F st" "pending_op st h" "r \<noteq> ABlock"
  shows "keep X F (try_complete h r st)"
  using assms by (cases r) (simp_all add: try_complete_def keep_finish)

lemma keep_prepare_socket:
  assumes "ordered st" "keep (add_mset h X) F st" "pending_op st h" "is_send (op_kind (sp_h st h)) \<Longrightarrow> turn (op_tk (sp_h st h)) (op_sock (sp_h st h)) st"
  shows "keep X F (prepare_socket_operation K h st)"
proof -
  let ?fd = "sp_fd st (op_sock (sp_h st h))" and ?rd = "reads (op_kind (sp_h st h))"
  obtain r n l i b st' where a: "attempt K h st = (r, st')" and p: "attempt_post h st r n l i b st'"
    by (rule attempt_eq [OF ordered_view [OF assms(1)]])
  note at = attempt_ordered [OF assms(1) p turn_may_write [OF assms(4)]]
  note al = alike_attempt [OF p]
  have k: "keep (add_mset h X) F st'" by (rule alike_keep [OF al assms(2)])
  have pe: "pending_op st' h" using assms(3) pending_alike [OF al] by simp
  have "keep X F (update_registration K ?fd (reserve_slot ?fd ?rd h st'))" if "\<not> slot_taken ?fd ?rd st"
    by (rule keep_update, rule keep_reserve [OF at(1) k]) (use that at(3) pe in \<open>auto simp: slot_taken_def\<close>)
  moreover have "keep X F (reject h e st)" for e using assms(2,3) by (intro keep_reject) (simp_all add: pending_op_def)
  ultimately show ?thesis using keep_settle [OF k pe] a by (auto simp: prepare_socket_operation_def Let_def split: aout.split)
qed

lemma selector_events_some: "poll_mask_to_selector_events m = Some (rd, wr) \<Longrightarrow> rd \<or> wr"
  by (auto simp: poll_mask_to_selector_events_def Let_def split: if_splits)

lemma keep_prepare_fd:
  assumes "ordered st" "keep (add_mset h X) F st" "pending_op st h" "\<not> is_send (op_kind (sp_h st h))"
  shows "keep X F (prepare_fd_operation K h st)"
proof -
  let ?fd = "op_fd (sp_h st h)"
  obtain r n l i b st' where a: "attempt K h st = (r, st')" and p: "attempt_post h st r n l i b st'"
    by (rule attempt_eq [OF ordered_view [OF assms(1)]])
  have at: "ordered st'" "sp_slots st' = sp_slots st" using attempt_ordered(1,3) [OF assms(1) p] assms(4) by blast+
  note al = alike_attempt [OF p]
  have k: "keep (add_mset h X) F st'" by (rule alike_keep [OF al assms(2)])
  have pe: "pending_op st' h" using assms(3) pending_alike [OF al] by simp
  have "keep X F (update_registration K ?fd (reserve_poll_slot ?fd rd wr h st'))"
    if "\<not> (rd \<and> slot_taken ?fd True st \<or> wr \<and> slot_taken ?fd False st)" "rd \<or> wr" for rd wr
    by (rule keep_update, rule keep_reserve_poll [OF at(1) k]) (use that at(2) pe in \<open>auto simp: slot_taken_def\<close>)
  moreover have "keep X F (reject h e st)" for e using assms(2,3) by (intro keep_reject) (simp_all add: pending_op_def)
  ultimately show ?thesis using keep_settle [OF k pe] a selector_events_some
    by (auto simp: prepare_fd_operation_def Let_def split: aout.split option.split)
qed

lemma keep_continuous:
  assumes "ordered st" "keep X F st" "\<not> oneshot st h" "h < sp_nh st"
  shows "keep X F (prepare_socket_continuous K h st)"
proof -
  have k: "keep (add_mset h X) F st" using assms(2,3) keep_stream by blast
  have "keep X F (update_registration K fd (reserve_slot fd True h st))" if "\<not> slot_taken fd True st" for fd
    by (rule keep_update, rule keep_reserve [OF assms(1) k that]) (use assms(3) in simp)
  thus ?thesis using keep_reject [OF k assms(4)] by (simp add: prepare_socket_continuous_def Let_def)
qed

section \<open>Stream steps\<close>

lemma keep_emit: "keep X F st \<Longrightarrow> keep X F (emit h d st)"
  by (rule alike_keep [OF alike_emit])

lemma keep_kn: "keep X F st \<Longrightarrow> keep X F (st\<lparr>sp_kn := n\<rparr>)"
  by (rule alike_keep [OF alike_fields(2)])

lemma keep_stream_step:
  assumes "ordered st" "keep X F st" "\<not> oneshot st h"
  shows "keep X F (stream_step K fd h False st)"
proof -
  obtain r n where p: "probe K fd (op_mask (sp_h st h)) st = (r, st\<lparr>sp_kn := n\<rparr>)" by (rule probe_eq)
  obtain r' n' where s: "sys K (op_sock (sp_h st h)) st = (r', st\<lparr>sp_kn := n'\<rparr>)" by (rule sys_eq)
  have u: "keep X F (update_registration K fd (st\<lparr>sp_kn := m\<rparr>))" for m
    by (rule keep_update, rule keep_weaken [OF keep_kn [OF assms(2)]]) auto
  have e: "keep X F (emit h d (st\<lparr>sp_kn := m, sp_stk := FStepped fd h fin False i # sp_stk st\<rparr>))" for d m fin i
    using keep_push [of "FStepped fd h fin False i" X F "st\<lparr>sp_kn := m\<rparr>"] keep_kn [OF assms(2)] by (intro keep_emit) simp
  have x: "keep X F (remove_handle h (st\<lparr>sp_kn := m, sp_stk := FTerm h err # sp_stk st\<rparr>))" for m err
    using keep_remove [of "st\<lparr>sp_kn := m\<rparr>" X F h "[FTerm h err]"] assms keep_kn [OF assms(2)] by (simp add: oneshot_def)
  show ?thesis unfolding stream_step_def Let_def p s prod.case
    by (simp add: u e x split: opkind.split aout.split)
qed

text \<open>The first step of a new \<open>poll_many\<close>, whose slot is reserved but not yet registered.\<close>

lemma keep_first_step:
  assumes "ordered st" "keep X (insert fd F) st" "op_kind (sp_h st h) = PollMany"
    and "entry_of st fd = Some en0" "has_op h en0" "\<And>g en. entry_of st g = Some en \<Longrightarrow> has_op h en \<Longrightarrow> g = fd"
  shows "keep X F (stream_step K fd h True st)"
proof -
  obtain r n where p: "probe K fd (op_mask (sp_h st h)) st = (r, st\<lparr>sp_kn := n\<rparr>)" by (rule probe_eq)
  have k: "keep X (insert fd F) (st\<lparr>sp_kn := n\<rparr>)" by (rule keep_kn [OF assms(2)])
  show ?thesis
  proof (cases r)
    case ABlock
    thus ?thesis using keep_update [OF k] assms(3) p by (simp add: stream_step_def)
  next
    case (AVal v)
    have "keep X F (st\<lparr>sp_kn := n, sp_stk := FStepped fd h False True i # sp_stk st\<rparr>)" for i
      using k by (auto simp: keep_def hold_def pending_op_def oneshot_def good_def drained_def watched_def due_def reg_mask_def selector_mask_def)
    thus ?thesis using AVal assms(3) p by (simp add: stream_step_def keep_emit Let_def)
  next
    case (AExn e)
    let ?s = "st\<lparr>sp_kn := n, sp_stk := FTerm h e # sp_stk st\<rparr>"
    have no: "\<not> oneshot (st\<lparr>sp_kn := n\<rparr>) h" using assms(3) by (simp add: oneshot_def)
    have kk: "keep X (insert fd F) (remove_handle h ?s)"
      using keep_remove [of "st\<lparr>sp_kn := n\<rparr>" X "insert fd F" h "[FTerm h e]"] assms(1) k no by simp
    have "distinct (map fst (sp_slots ?s))" using assms(1) by (simp add: ordered_def order_ok_def)
    hence "due (remove_handle h ?s) fd"
    proof (cases rule: remove_handle_eq [of ?s h])
      case none
      thus ?thesis using assms(4,5) by (auto simp: is_held_def dest: map_of_SomeD)
    next
      case (some g en)
      have "g = fd" using some(1,2) assms(6) by simp
      thus ?thesis unfolding some(4) by (simp add: due_def)
    qed
    hence "keep X F (remove_handle h ?s)" using kk by (auto simp: keep_def watched_def)
    thus ?thesis using AExn assms(3) p by (simp add: stream_step_def)
  qed
qed

lemma keep_fd_continuous:
  assumes "ordered st" "keep X F st" "op_kind (sp_h st h) = PollMany" "h < sp_nh st" "\<And>g en. entry_of st g = Some en \<Longrightarrow> \<not> has_op h en"
  shows "keep X F (prepare_fd_continuous K h st)"
proof -
  have no: "\<not> oneshot st h" using assms(3) by (simp add: oneshot_def)
  have k: "keep (add_mset h X) F st" using assms(2) no keep_stream by blast
  have "keep X F (stream_step K fd h True (reserve_poll_slot fd rd wr h st))"
    if "\<not> (rd \<and> slot_taken fd True st \<or> wr \<and> slot_taken fd False st)" "rd \<or> wr" "0 \<le> fd" for fd rd wr
  proof -
    let ?s = "reserve_poll_slot fd rd wr h st"
    have e: "entry_of ?s g = (if g = fd then Some ((case entry_of st fd of Some en \<Rightarrow> en | None \<Rightarrow> new_entry (sp_eid st))
        \<lparr>en_reader := if rd then Some h else en_reader (case entry_of st fd of Some en \<Rightarrow> en | None \<Rightarrow> new_entry (sp_eid st)),
         en_writer := if wr then Some h else en_writer (case entry_of st fd of Some en \<Rightarrow> en | None \<Rightarrow> new_entry (sp_eid st))\<rparr>) else entry_of st g)" for g
      by (simp add: reserve_poll_slot_def on_entry_def update_conv' split: option.split)
    show ?thesis
    proof (rule keep_first_step)
      show "ordered ?s" using assms(1,3,4) that by (intro reserve_poll_ordered) (auto simp: is_send_def)
      show "keep X (insert fd F) ?s" by (rule keep_reserve_poll [OF assms(1) k]) (use that no in auto)
      show "op_kind (sp_h ?s h) = PollMany" using assms(3) by (simp add: reserve_poll_slot_def on_entry_def split: option.split)
      show "entry_of ?s fd = Some (the (entry_of ?s fd))" by (simp add: e)
      show "has_op h (the (entry_of ?s fd))" using that(2) by (auto simp: e has_op_def)
      show "g = fd" if "entry_of ?s g = Some en" "has_op h en" for g en using that assms(5) by (auto simp: e split: if_splits)
    qed
  qed
  thus ?thesis using keep_reject [OF k assms(4)] selector_events_some
    by (auto simp: prepare_fd_continuous_def Let_def split: option.split)
qed

section \<open>Writes\<close>

text \<open>The flags only rise.\<close>

definition flags :: "sproac \<Rightarrow> sproac \<Rightarrow> bool" where
  "flags st st' = (sp_cbraise st' = sp_cbraise st \<and> (sp_regfail st \<longrightarrow> sp_regfail st'))"

lemma flags_good: "flags st st' \<Longrightarrow> good st' \<Longrightarrow> good st"
  by (auto simp: flags_def good_def)

lemma flags_trans [trans]: "flags a b \<Longrightarrow> flags b c \<Longrightarrow> flags a c"
  by (auto simp: flags_def)

lemma flags_alike: "alike st st' \<Longrightarrow> flags st st'"
  by (simp add: alike_def flags_def)

lemma flags_update: "flags st (update_registration K fd st)"
  by (rule update_registration_eq [of K fd st]) (simp add: flags_def)

lemma flags_finish: "flags st (finish_oneshot h out st)"
proof (cases "op_done (sp_h st h)")
  case False
  thus ?thesis by (rule finish_oneshot_eq [where out = out]) (simp add: flags_def)
qed (simp add: finish_oneshot_done flags_def)

lemma flags_on_entry: "flags st (on_entry fd f st)"
  by (simp add: on_entry_def flags_def split: option.split)

lemma flags_settle: "flags st (try_complete h r st)"
  by (simp add: try_complete_def flags_finish split: aout.split) (simp add: flags_def)

lemma flags_reject: "flags st (reject h e st)"
  by (simp add: reject_def flags_def)

lemma flags_prepare_socket:
  assumes "ordered st"
  shows "flags st (prepare_socket_operation K h st)"
proof -
  obtain r n l i b st' where a: "attempt K h st = (r, st')" and p: "attempt_post h st r n l i b st'"
    by (rule attempt_eq [OF ordered_view [OF assms]])
  note f = flags_alike [OF alike_attempt [OF p]]
  have "flags st (update_registration K fd (reserve_slot fd rd h st'))" for fd rd
    unfolding reserve_slot_def by (rule flags_trans [OF f flags_trans [OF flags_on_entry flags_update]])
  moreover have "flags st (try_complete h r st')" by (rule flags_trans [OF f flags_settle])
  ultimately show ?thesis using a flags_reject by (auto simp: prepare_socket_operation_def Let_def split: aout.split)
qed

lemma flags_run_write:
  assumes "ordered st"
  shows "flags st (run_write K t r st)"
proof -
  have "alike st (call_cb c out ((logs [EvShut t s] st)\<lparr>sp_kn := Suc (sp_kn st)\<rparr>))" "alike st (call_cb c out (close_sock t s st))" for c out s
    by (rule alike_trans [OF alike_writes(2) alike_call_cb], rule alike_trans [OF alike_writes(1) alike_call_cb])
  thus ?thesis using assms flags_prepare_socket flags_alike alike_call_cb alike_writes(1)
    by (cases r) (auto simp: run_write_def flags_alike [OF alike_refl])
qed

lemma keep_alike_cb: "keep X F st \<Longrightarrow> keep X F (call_cb c out st)"
  by (rule alike_keep [OF alike_call_cb])

lemma keep_run_write:
  assumes "ordered st" "keep (opt_ref hh + X) F st" "turn t (run_sock (sp_h st) r) st"
    and "\<And>h. r = RStart h \<Longrightarrow> hh = Some h \<and> pending_op st h \<and> op_tk (sp_h st h) = t" "(\<And>h. r \<noteq> RStart h) \<Longrightarrow> hh = None"
  shows "keep X F (run_write K t r st)"
proof (cases "\<exists>h. r = RStart h")
  case True
  then obtain h where r: "r = RStart h" ..
  have "keep X F (prepare_socket_operation K h st)" by (rule keep_prepare_socket) (use assms r in auto)
  thus ?thesis by (simp add: run_write_def r)
next
  case False
  hence "keep X F st" using assms(2,5) by auto
  thus ?thesis using False
    by (cases r) (auto simp: run_write_def intro!: keep_alike_cb alike_keep [OF alike_writes(1)] alike_keep [OF alike_writes(2)])
qed

lemma keep_tk: "keep X F st \<Longrightarrow> keep X F (st\<lparr>sp_tk := t\<rparr>)"
  by (rule alike_keep [OF alike_fields(3)])

lemma tk_ordered:
  assumes "ordered st"
  shows "ordered (st\<lparr>sp_tk := Suc (sp_tk st)\<rparr>)"
  using assms order_ok_keep [of st "st\<lparr>sp_tk := Suc (sp_tk st)\<rparr>"] by (simp add: ordered_def views_ok_def)

lemma keep_run_or_enqueue:
  assumes "ordered st" "keep X F st" "run_sock (sp_h st) r = s" "\<And>h. r \<noteq> RStart h"
  shows "keep X F (run_or_enqueue_write K s r st)"
proof -
  let ?st = "st\<lparr>sp_tk := Suc (sp_tk st)\<rparr>"
  note o1 = tk_ordered [OF assms(1)] and k1 = keep_tk [OF assms(2)]
  have "keep X F (run_write K (sp_tk st) r ?st)" if "0 \<le> sp_fd st s \<Longrightarrow> \<not> write_busy (sp_fd st s) st"
  proof (rule keep_run_write [OF o1, of None])
    show "turn (sp_tk st) (run_sock (sp_h ?st) r) ?st" by (rule fresh_turn [OF assms(1)]) (use assms(3) that in simp_all)
  qed (use k1 assms(4) in simp_all)
  moreover have "keep X F (enqueue_write (sp_fd st s) r None (sp_tk st) ?st)" if "write_busy (sp_fd st s) st"
    by (rule keep_enqueue [OF o1]) (use k1 that in \<open>simp_all add: write_busy_def\<close>)
  moreover have "keep X F (throw e ?st)" for e by (rule alike_keep [OF alike_fields(1) k1])
  ultimately show ?thesis by (auto simp: run_or_enqueue_write_def Let_def)
qed

lemma keep_drain_pop:
  assumes "keep X F (st\<lparr>sp_stk := FDrain fd eid # sp_stk st\<rparr>)"
    and "\<And>en. entry_of st fd = Some en \<Longrightarrow> en_id en = eid \<Longrightarrow> en_writer en = None \<Longrightarrow> en_queue en = []"
  shows "keep X F st"
proof -
  have "drained st" if "drained (st\<lparr>sp_stk := FDrain fd eid # sp_stk st\<rparr>)"
    using that assms(2) by (auto simp: drained_def)
  moreover have "hold X (st\<lparr>sp_stk := FDrain fd eid # sp_stk st\<rparr>) = hold X st"
    by (simp add: hold_def pending_op_def oneshot_def cong: if_cong)
  moreover have "watched F (st\<lparr>sp_stk := FDrain fd eid # sp_stk st\<rparr>) = watched F st"
    by (simp add: watched_def due_def reg_mask_def selector_mask_def)
  ultimately show ?thesis using assms(1) by (simp add: keep_def good_def)
qed

lemma keep_drain:
  assumes "ordered st" "keep X F (st\<lparr>sp_stk := FDrain fd eid # sp_stk st\<rparr>)"
  shows "keep X F (drain_write_queue K fd eid st)"
proof (cases "\<exists>en q qs. entry_of st fd = Some en \<and> en_id en = eid \<and> en_writer en = None \<and> en_queue en = q # qs")
  case False
  hence "drain_write_queue K fd eid st = st" by (auto simp: drain_write_queue_def split: option.split list.split)
  moreover have "keep X F st" by (rule keep_drain_pop [OF assms(2)]) (use False in \<open>metis list.exhaust\<close>)
  ultimately show ?thesis by simp
next
  case True
  then obtain en q qs where en: "entry_of st fd = Some en" and id: "en_id en = eid" and w: "en_writer en = None" and q: "en_queue en = q # qs" by blast
  let ?en = "en\<lparr>en_queue := qs\<rparr>" and ?k = "FDrain fd eid # sp_stk st"
  let ?f = "\<lambda>en. if en_queue en = [] then en else en\<lparr>en_queue := tl (en_queue en)\<rparr>"
  let ?b = "st\<lparr>sp_stk := ?k\<rparr>" and ?s = "run_sock (sp_h st) (qw_run q)" and ?t = "put_entry fd ?en st"
  have oe: "on_entry fd ?f ?b = ?t\<lparr>sp_stk := ?k\<rparr>" using en q by (simp add: on_entry_def)
  have ob: "ordered ?b" using assms(1) by simp
  have ok: "entry_ok st fd en" and ord: "order_ok st" using assms(1) en by (simp_all add: ordered_def order_ok_def)
  have qok: "queued_ok (sp_h st) (sp_nh st) q" using ok q by (simp add: entry_ok_def)
  have pend: "pending_op st h" if "qw_handle q = Some h" "good st" for h
  proof -
    have "oneshot st h" using that qok by (auto simp: queued_ok_def oneshot_def is_send_def split: wrun.splits)
    moreover have "h \<in># entry_refs en" using that q by (simp add: entry_refs_def)
    ultimately show ?thesis using good_pending [OF ob assms(2), of fd en h] that(2) en by (simp add: good_def pending_op_def oneshot_def)
  qed
  have k: "keep (opt_ref (qw_handle q) + X) F (?t\<lparr>sp_stk := ?k\<rparr>)"
    unfolding oe [symmetric]
  proof (rule keep_on_entry(2) [OF ob assms(2)])
    fix e g
    assume g: "good ?b" "oneshot ?b g" and e: "entry_of ?b fd = Some e \<or> entry_of ?b fd = None \<and> (\<exists>n. e = new_entry n)"
    have e: "e = en" using e en by auto
    have "count (opt_ref (qw_handle q)) g = 0" if "\<not> pending_op ?b g"
      using pend [of g] that g(1) by (auto simp: opt_ref_def pending_op_def good_def split: option.split)
    thus "count (entry_refs (?f e)) g + count (opt_ref (qw_handle q) + X) g = count (entry_refs e) g + count X g
        \<and> (\<not> pending_op ?b g \<longrightarrow> count (entry_refs (?f e)) g = count (entry_refs e) g)"
      using q w unfolding e by (auto simp: entry_refs_def)
  qed (auto split: if_splits)
  have t: "en_tickets (sp_h st) en = (qw_tk q, ?s) # en_tickets (sp_h st) ?en"
    using w q by (simp add: en_tickets_def writer_tickets_def queue_tickets_def)
  have "entry_ok st fd ?en" using ok q unfolding entry_ok_def t by simp
  hence "order_ok ?t" by (rule order_ok_put [OF ord]) simp_all
  hence o1: "ordered ?t" using assms(1) by (simp add: ordered_def views_ok_def)
  have tu: "turn (qw_tk q) ?s ?t" using ok unfolding turn_def entry_ok_def t by (auto simp: update_conv')
  let ?u = "?t\<lparr>sp_stk := FTry (qw_handle q) # ?k\<rparr>"
  have ku: "keep (opt_ref (qw_handle q) + X) F ?u" using keep_push [of "FTry (qw_handle q)" _ F "?t\<lparr>sp_stk := ?k\<rparr>"] k by simp
  have run: "keep X F (run_write K (qw_tk q) (qw_run q) ?u)" if "good st"
  proof (rule keep_run_write [OF _ ku])
    show "qw_handle q = Some h \<and> pending_op ?u h \<and> op_tk (sp_h ?u h) = qw_tk q" if "qw_run q = RStart h" for h
      using that qok pend [of h] \<open>good st\<close> by (simp add: queued_ok_def pending_op_def)
    show "qw_handle q = None" if "\<And>h. qw_run q \<noteq> RStart h" using that qok by (auto simp: queued_ok_def split: wrun.splits)
  qed (use o1 tu in \<open>simp_all add: turn_def\<close>)
  have "good st" if "good (run_write K (qw_tk q) (qw_run q) ?u)"
    using flags_good [OF flags_run_write that] o1 by (simp add: good_def)
  hence flags: "keep X F (run_write K (qw_tk q) (qw_run q) ?u)" using run by (auto simp: keep_def)
  have dn: "keep X F (?t\<lparr>sp_stk := ?k\<rparr>)" if "qw_handle q = Some h" "op_done (sp_h st h)" for h
    using pend [of h] that by (auto simp: keep_def good_def pending_op_def)
  show ?thesis using en id w q flags dn by (auto simp: drain_write_queue_def Let_def split: option.split)
qed

lemma stack_refs_bound:
  assumes "results_ok st" "h \<in># stack_refs (sp_stk st)"
  shows "h < sp_nh st"
proof -
  have "\<exists>f \<in> set k. frame_handle f = Some h" if "h \<in># stack_refs k" for k
    using that
  proof (induction k)
    case (Cons f k)
    thus ?case by (cases f) auto
  qed simp
  thus ?thesis using assms by (fastforce simp: results_ok_def)
qed

lemma keep_alloc:
  assumes "ordered st" "results_ok st" "keep {#} F st" "spawn_operation kind s fd msk c view base st = (h, st1)"
  shows "keep {#h#} F st1" "pending_op st1 h \<or> sp_rej st1 \<noteq> sp_rej st \<or> \<not> good st1" "entry_of st1 g = Some en \<Longrightarrow> \<not> has_op h en"
proof -
  let ?o = "\<lparr>op_kind = kind, op_sock = s, op_fd = fd, op_mask = msk, op_cb = c, op_done = False, op_view = view, op_off = 0,
         op_started = False, op_next = base, op_tk = sp_tk st\<rparr>"
  have st1: "h = sp_nh st" "st1 = st\<lparr>sp_h := (sp_h st)(sp_nh st := ?o), sp_nh := Suc (sp_nh st), sp_tk := Suc (sp_tk st)\<rparr>"
    using assms(4) by (auto simp: spawn_operation_def)
  show none: "entry_of st1 g = Some en \<Longrightarrow> \<not> has_op h en" for g en
  proof -
    assume "entry_of st1 g = Some en"
    hence ok: "entry_ok st g en" using assms(1) by (simp add: st1 ordered_def order_ok_def)
    have "qw_handle q \<noteq> Some h" if "q \<in> set (en_queue en)" for q
    proof -
      have "queued_ok (sp_h st) (sp_nh st) q" using ok that by (simp add: entry_ok_def)
      thus ?thesis by (auto simp: queued_ok_def st1(1) split: wrun.splits)
    qed
    moreover have "en_reader en \<noteq> Some h" "en_writer en \<noteq> Some h" using ok by (auto simp: entry_ok_def st1(1))
    ultimately show ?thesis by (simp add: has_op_def)
  qed
  have slots: "count (slot_refs (sp_slots st)) h = 0"
  proof -
    have "distinct (map fst (sp_slots st))" using assms(1) by (simp add: ordered_def order_ok_def)
    hence "\<not> has_op h (snd p)" if "p \<in> set (sp_slots st)" for p using that none [of "fst p" "snd p"] by (cases p) (simp add: st1)
    hence "h \<notin># entry_refs (snd p)" if "p \<in> set (sp_slots st)" for p using that by (simp add: has_op_refs)
    hence "h \<notin># slot_refs sl" if "set sl \<subseteq> set (sp_slots st)" for sl using that by (induction sl) auto
    thus ?thesis by (simp add: count_eq_zero_iff)
  qed
  have stack: "count (stack_refs (sp_stk st)) h = 0" using stack_refs_bound [OF assms(2), of h] by (auto simp: count_eq_zero_iff st1)
  show "pending_op st1 h \<or> sp_rej st1 \<noteq> sp_rej st \<or> \<not> good st1"
    using assms(3) by (auto simp: pending_op_def st1 keep_def hold_def good_def)
  have "hold {#h#} st1" if ho: "hold {#} st"
    unfolding hold_def
  proof (intro conjI allI impI)
    show "set (sp_rej st1) \<subseteq> {..<sp_nh st1}" using ho by (auto simp: hold_def st1)
    fix g
    assume g: "oneshot st1 g"
    show "if pending_op st1 g then count (slot_refs (sp_slots st1)) g + count (stack_refs (sp_stk st1)) g + count {#h#} g = 1 else count (slot_refs (sp_slots st1)) g = 0"
    proof (cases "g = h")
      case True
      thus ?thesis using slots stack by (simp add: st1)
    next
      case False
      hence "oneshot st g" "pending_op st1 g = pending_op st g" using g by (auto simp: st1 oneshot_def pending_op_def)
      thus ?thesis using hold_one [OF ho, of g] hold_slots [OF ho, of g] False by (simp add: st1)
    qed
  qed
  thus "keep {#h#} F st1" using assms(3)
    by (simp add: keep_def good_def st1 drained_def watched_def due_def reg_mask_def selector_mask_def)
qed

lemma alloc_pending:
  assumes "ordered st" "results_ok st" "keep {#} F st" "spawn_operation kind s fd msk c view base st = (h, st1)" "good st"
  shows "pending_op st1 h"
proof -
  have "sp_rej st1 = sp_rej st" "good st1" using assms(4,5) by (auto simp: spawn_operation_def good_def)
  thus ?thesis using keep_alloc(2) [OF assms(1-4)] by blast
qed

lemma keep_bad: "\<not> good st \<Longrightarrow> keep X F st"
  by (simp add: keep_def)

lemma flags_alloc: "spawn_operation kind s fd msk c view base st = (h, st1) \<Longrightarrow> flags st st1"
  by (auto simp: spawn_operation_def flags_def)

lemma keep_submit_send:
  assumes "ordered st" "results_ok st" "keep {#} F st" "is_send kind"
  shows "keep {#} F (submit_send K kind s view c st)"
proof -
  obtain h st1 where a: "spawn_operation kind s (-1) 0 c view 0 st = (h, st1)" by (meson surj_pair)
  note al = alloc_ordered [OF assms(1) a] and k = keep_alloc(1) [OF assms(1-3) a]
  have fl: "flags st (submit_send K kind s view c st)"
    using flags_trans [OF flags_alloc [OF a]] flags_reject flags_on_entry flags_prepare_socket [OF al(1)]
    by (auto simp: submit_send_def a enqueue_write_def)
  show ?thesis
  proof (cases "good st")
    case True
    note pe = alloc_pending [OF assms(1-3) a True]
    have "keep {#} F (prepare_socket_operation K h st1)" if "\<not> write_busy (sp_fd st1 s) st1"
      by (rule keep_prepare_socket [OF al(1) k pe]) (use al that in simp)
    moreover have "keep {#} F (enqueue_write (sp_fd st1 s) (RStart h) (Some h) (sp_tk st) st1)" if "write_busy (sp_fd st1 s) st1"
      by (rule keep_enqueue [OF al(1)]) (use k pe that in simp_all)
    moreover have "keep {#} F (reject h e st1)" for e by (rule keep_reject [OF k al(2)])
    ultimately show ?thesis by (simp add: submit_send_def a)
  qed (use flags_good [OF fl] keep_bad in blast)
qed

lemma keep_throw: "keep X F st \<Longrightarrow> keep X F (throw e st)"
  by (rule alike_keep [OF alike_fields(1)])

lemma keep_send_nowait: "ordered st \<Longrightarrow> results_ok st \<Longrightarrow> keep {#} F st \<Longrightarrow> keep {#} F (send_nowait K s view c st)"
  by (simp add: send_nowait_def keep_throw keep_submit_send is_send_def)

lemma keep_send_close:
  assumes "ordered st" "results_ok st" "keep {#} F st"
  shows "keep {#} F (send_close_nowait K s view st)"
proof -
  have "keep {#} F (push [FCloseNw s] st)" using keep_pushes [of "[FCloseNw s]" "{#}" F st] assms(3) by simp
  moreover have "results_ok (push [FCloseNw s] st)" by (rule still_results [OF still_push assms(2)]) simp
  ultimately have "keep {#} F (send_nowait K s view CbReport (push [FCloseNw s] st))" using assms(1) by (intro keep_send_nowait) simp_all
  thus ?thesis using assms by (simp add: send_close_nowait_def keep_throw keep_run_or_enqueue)
qed

section \<open>Stopping and steps\<close>

lemma keep_terminalise:
  assumes "keep X F st" "good st \<Longrightarrow> oneshot st h \<Longrightarrow> count (slot_refs (sp_slots st)) h = 0" "\<And>g. g \<noteq> h \<Longrightarrow> count Y g = count X g"
    and "\<not> oneshot st h \<Longrightarrow> keep Y F st"
  shows "keep Y F (terminalise_cancelled h st)"
  using keep_done [OF assms(1-3)] keep_emit assms(4) by (simp add: terminalise_cancelled_def oneshot_def)

lemma not_held_refs: "\<not> is_held h st \<Longrightarrow> count (slot_refs (sp_slots st)) h = 0"
proof -
  assume "\<not> is_held h st"
  hence "h \<notin># slot_refs sl" if "set sl \<subseteq> set (sp_slots st)" for sl
    using that by (induction sl) (auto simp: is_held_def has_op_refs)
  thus ?thesis by (simp add: count_eq_zero_iff)
qed

lemma keep_stop:
  assumes "ordered st" "keep X F st"
  shows "keep X F (selector_stop_handle h r st)"
proof -
  have "keep X F (remove_handle h (st\<lparr>sp_stk := FStop h r # sp_stk st\<rparr>))" if "is_held h st"
    using keep_remove [OF assms, of h "[FStop h r]"] that by simp
  moreover have "keep X F (terminalise_cancelled h (st\<lparr>sp_stk := FReply r None # sp_stk st\<rparr>))" if "\<not> is_held h st"
    by (rule keep_terminalise [of X]) (use keep_push [of "FReply r None" X F st] assms(2) not_held_refs [OF that] in simp_all)
  moreover have "keep X F (give_reply r None st)" by (rule alike_keep [OF alike_give_reply assms(2)])
  ultimately show ?thesis by (simp add: selector_stop_handle_def)
qed

lemma keep_step_fd:
  assumes "ordered st" "keep X F st"
  shows "keep X F (step_fd_operation K fd rd st)"
proof -
  have "keep X F (case attempt K h st of (ABlock, st') \<Rightarrow> update_registration K fd st'
      | (AExn e, st') \<Rightarrow> remove_handle h (push [FFinish h (Inl e)] st')
      | (AVal v, st') \<Rightarrow> remove_handle h (push [FFinish h (Inr v)] st'))"
    if en: "entry_of st fd = Some en" and h: "(if rd then en_reader en else en_writer en) = Some h" and one: "oneshot st h" for en h
  proof -
    obtain r n l i b st' where a: "attempt K h st = (r, st')" and p: "attempt_post h st r n l i b st'"
      by (rule attempt_eq [OF ordered_view [OF assms(1)]])
    have ok: "entry_ok st fd en" using assms(1) en by (simp add: ordered_def order_ok_def)
    have "is_send (op_kind (sp_h st h)) \<Longrightarrow> may_write (op_tk (sp_h st h)) (op_sock (sp_h st h)) st"
      using h ok writer_may_write [OF assms(1) en] by (auto simp: entry_ok_def split: if_splits)
    note at = attempt_ordered(1,3) [OF assms(1) p this]
    note al = alike_attempt [OF p]
    have k: "keep X F st'" by (rule alike_keep [OF al assms(2)])
    have "is_held h st'" using en h at(2) by (auto simp: is_held_def has_op_def split: if_splits dest!: map_of_SomeD)
    hence "keep X F (remove_handle h (push [FFinish h out] st'))" for out
      using keep_remove [OF at(1) k, of h "[FFinish h out]"] one oneshot_alike [OF al] by simp
    moreover have "keep X F (update_registration K fd st')" by (rule keep_update, rule keep_weaken [OF k]) auto
    ultimately show ?thesis unfolding a prod.case by (simp split: aout.split)
  qed
  thus ?thesis using assms keep_stream_step [OF assms]
    by (auto simp: step_fd_operation_def oneshot_def split: option.split)
qed

lemma keep_poll_event:
  assumes "ordered st" "keep X F st"
  shows "keep X F (poll_event K fd r w st)"
proof -
  have "keep X F (st\<lparr>sp_stk := FStepWrite fd # sp_stk st\<rparr>)" using keep_push [of "FStepWrite fd" X F st] assms(2) by simp
  thus ?thesis using assms by (simp add: poll_event_def keep_step_fd)
qed

lemma keep_close: "keep X F st \<Longrightarrow> keep X F (close_proactor st)"
  by (auto simp: close_proactor_def keep_def good_def hold_def pending_op_def oneshot_def drained_def watched_def)

section \<open>Exceptions\<close>

text \<open>As long as no registration fails and no callback raises, the only exceptions are those of a refused
  submission, and they reach the caller or the drain loop directly.\<close>

definition benign :: "frame \<Rightarrow> bool" where
  "benign f = (\<forall>s r e. f \<noteq> FCloseNw s \<and> f \<noteq> FReply r (Some e))"

definition tame :: "sproac \<Rightarrow> sproac \<Rightarrow> bool" where
  "tame st st' = (flags st st' \<and> (\<forall>e. sp_ctl st' = CExc e \<longrightarrow> sp_ctl st = CExc e \<or> sp_regfail st')
     \<and> (\<exists>fs. (\<forall>f \<in> set fs. benign f) \<and> sp_stk st' = fs @ sp_stk st) \<and> set (sp_rej st) \<subseteq> set (sp_rej st'))"

definition refused :: "nat option \<Rightarrow> sproac \<Rightarrow> sproac \<Rightarrow> bool" where
  "refused hh st st' = (flags st st' \<and> (sp_ctl st' = CExc RuntimeErr \<or> sp_ctl st' = CExc ValueErr) \<and> sp_stk st' = sp_stk st
     \<and> (\<forall>h. hh = Some h \<longrightarrow> h \<in> set (sp_rej st')))"

definition outcome_ok :: "nat option \<Rightarrow> sproac \<Rightarrow> sproac \<Rightarrow> bool" where
  "outcome_ok hh st st' = (tame st st' \<or> refused hh st st')"

lemma benign_simps [simp]:
  "benign FUser" "benign (FTry h)" "benign (FDrain fd i)" "benign (FRemoved fd)" "benign (FFinish g out)" "benign (FTerm g e)"
  "benign (FStepped fd g b a j)" "benign (FUpdate fd)" "benign (FStop g r)" "benign (FReply r None)" "benign FSelect" "benign (FEvents evs)" "benign (FStepWrite fd)"
  by (simp_all add: benign_def)

lemma tame_refl [simp]: "tame st st"
  by (auto simp: tame_def flags_def)

lemma tame_trans [trans]:
  assumes "tame a b" "tame b c"
  shows "tame a c"
proof -
  obtain fs gs where "\<forall>f \<in> set fs. benign f" "sp_stk b = fs @ sp_stk a" "\<forall>f \<in> set gs. benign f" "sp_stk c = gs @ sp_stk b"
    using assms by (auto simp: tame_def)
  hence "\<exists>fs. (\<forall>f \<in> set fs. benign f) \<and> sp_stk c = fs @ sp_stk a" by (intro exI [of _ "gs @ fs"]) auto
  moreover have "flags a c" using assms flags_trans by (auto simp: tame_def)
  moreover have "sp_regfail b \<longrightarrow> sp_regfail c" using assms(2) by (simp add: tame_def flags_def)
  ultimately show ?thesis using assms unfolding tame_def by blast
qed

lemma tame_flags: "outcome_ok hh st st' \<Longrightarrow> flags st st'"
  by (auto simp: outcome_ok_def tame_def refused_def)

lemma tame_outcome: "tame st st' \<Longrightarrow> outcome_ok hh st st'"
  by (simp add: outcome_ok_def)

lemma outcome_after: "tame a b \<Longrightarrow> sp_stk b = sp_stk a \<Longrightarrow> outcome_ok hh b c \<Longrightarrow> outcome_ok hh a c"
  unfolding outcome_ok_def refused_def using tame_trans [of a b c] flags_trans [of a b c] by (auto simp: tame_def)

lemma tame_same:
  assumes "sp_stk st' = sp_stk st" "sp_rej st' = sp_rej st" "flags st st'" "\<And>e. sp_ctl st' = CExc e \<Longrightarrow> sp_ctl st = CExc e \<or> sp_regfail st'"
  shows "tame st st'"
  unfolding tame_def using assms by (intro conjI exI [of _ "[]"]) auto

lemma tame_push: "\<forall>f \<in> set fs. benign f \<Longrightarrow> tame st (push fs st)"
  by (auto simp: tame_def flags_def)

lemma tame_call_cb: "tame st (call_cb c out st)" "sp_stk (call_cb c out st) = sp_stk st"
  by (rule call_cb_eq [of c out st], auto simp: flags_def intro!: tame_same)+

lemma tame_emit: "tame st (emit h d st)"
  by (rule tame_same) (simp_all add: emit_def flags_def)

lemma tame_finish: "tame st (finish_oneshot h out st)" "sp_stk (finish_oneshot h out st) = sp_stk st"
proof -
  have "tame st (finish_oneshot h out st) \<and> sp_stk (finish_oneshot h out st) = sp_stk st"
  proof (cases "op_done (sp_h st h)")
    case False
    thus ?thesis by (rule finish_oneshot_eq [where out = out]) (auto simp: flags_def intro!: tame_same)
  qed (simp add: finish_oneshot_done)
  thus "tame st (finish_oneshot h out st)" "sp_stk (finish_oneshot h out st) = sp_stk st" by blast+
qed

lemma tame_update: "tame st (update_registration K fd st)" "sp_stk (update_registration K fd st) = sp_stk st"
  by (rule update_registration_eq [of K fd st], auto simp: flags_def intro!: tame_same)+

lemma tame_terminalise: "tame st (terminalise_cancelled h st)"
  by (simp add: terminalise_cancelled_def tame_emit tame_finish)

lemma tame_settle: "tame st (try_complete h r st)"
  by (simp add: try_complete_def tame_finish split: aout.split)

lemma tame_on_entry: "tame st (on_entry fd f st)" "sp_stk (on_entry fd f st) = sp_stk st"
  by (auto simp: on_entry_def flags_def intro!: tame_same split: option.split)

lemma tame_attempt: "attempt_post h st r n l i b st' \<Longrightarrow> tame st st'" "attempt_post h st r n l i b st' \<Longrightarrow> sp_stk st' = sp_stk st"
  by (auto simp: attempt_post_def flags_def intro!: tame_same)

lemma tame_remove: "tame st (remove_handle h st)"
  by (auto simp: remove_handle_def tame_def flags_def split: option.split)

lemma tame_removed_rest: "tame st (removed_rest K fd st)"
proof -
  have "tame st (case entry_of st fd of Some en \<Rightarrow> if en_empty en then st\<lparr>sp_slots := AList.delete fd (sp_slots st)\<rparr> else st | None \<Rightarrow> st)"
    by (auto simp: flags_def intro!: tame_same split: option.split)
  thus ?thesis unfolding removed_rest_def by (rule tame_trans [OF _ tame_update(1)])
qed

lemma refused_reject: "e = RuntimeErr \<or> e = ValueErr \<Longrightarrow> outcome_ok (Some h) st (reject h e st)"
  by (auto simp: outcome_ok_def refused_def reject_def flags_def)

lemma refused_throw: "outcome_ok None st (throw RuntimeErr st)"
  by (simp add: outcome_ok_def refused_def flags_def)

lemma outcome_weaken: "outcome_ok hh st st' \<Longrightarrow> outcome_ok None st st'"
  by (auto simp: outcome_ok_def refused_def)

lemma outcome_prepare_socket:
  assumes "ordered st"
  shows "outcome_ok (Some h) st (prepare_socket_operation K h st)"
proof -
  obtain r n l i b st' where a: "attempt K h st = (r, st')" and p: "attempt_post h st r n l i b st'"
    by (rule attempt_eq [OF ordered_view [OF assms]])
  note t = tame_attempt(1) [OF p]
  have "tame st (update_registration K fd (reserve_slot fd rd h st'))" for fd rd
    unfolding reserve_slot_def by (rule tame_trans [OF t tame_trans [OF tame_on_entry(1) tame_update(1)]])
  moreover have "tame st (try_complete h r st')" by (rule tame_trans [OF t tame_settle])
  ultimately show ?thesis using a refused_reject tame_outcome by (auto simp: prepare_socket_operation_def Let_def split: aout.split)
qed

lemma outcome_prepare_fd:
  assumes "ordered st"
  shows "outcome_ok (Some h) st (prepare_fd_operation K h st)"
proof -
  obtain r n l i b st' where a: "attempt K h st = (r, st')" and p: "attempt_post h st r n l i b st'"
    by (rule attempt_eq [OF ordered_view [OF assms]])
  note t = tame_attempt(1) [OF p]
  have "tame st (update_registration K fd (reserve_poll_slot fd rd wr h st'))" for fd rd wr
    unfolding reserve_poll_slot_def by (rule tame_trans [OF t tame_trans [OF tame_on_entry(1) tame_update(1)]])
  moreover have "tame st (try_complete h r st')" by (rule tame_trans [OF t tame_settle])
  ultimately show ?thesis using a refused_reject tame_outcome by (auto simp: prepare_fd_operation_def Let_def split: aout.split option.split)
qed

lemma outcome_continuous: "outcome_ok (Some h) st (prepare_socket_continuous K h st)"
proof -
  have "tame st (update_registration K fd (reserve_slot fd True h st))" for fd
    unfolding reserve_slot_def by (rule tame_trans [OF tame_on_entry(1) tame_update(1)])
  thus ?thesis using refused_reject tame_outcome by (auto simp: prepare_socket_continuous_def Let_def)
qed

lemma tame_kn: "tame st (st\<lparr>sp_kn := n\<rparr>)"
  by (rule tame_same) (simp_all add: flags_def)

lemma tame_stream_step: "tame st (stream_step K fd h again st)"
proof -
  obtain r n where p: "probe K fd (op_mask (sp_h st h)) st = (r, st\<lparr>sp_kn := n\<rparr>)" by (rule probe_eq)
  obtain r' n' where s: "sys K (op_sock (sp_h st h)) st = (r', st\<lparr>sp_kn := n'\<rparr>)" by (rule sys_eq)
  have k: "tame st (st\<lparr>sp_kn := m, sp_stk := f # sp_stk st\<rparr>)" if "benign f" for m f using that by (auto simp: tame_def flags_def)
  have u: "tame st (update_registration K fd (st\<lparr>sp_kn := m\<rparr>))" for m by (rule tame_trans [OF tame_kn tame_update(1)])
  have e: "tame st (emit h d (st\<lparr>sp_kn := m, sp_stk := f # sp_stk st\<rparr>))" if "benign f" for d m f by (rule tame_trans [OF k tame_emit]) (rule that)
  have x: "tame st (remove_handle h (st\<lparr>sp_kn := m, sp_stk := f # sp_stk st\<rparr>))" if "benign f" for m f by (rule tame_trans [OF k tame_remove]) (rule that)
  show ?thesis unfolding stream_step_def Let_def p s prod.case
    by (simp add: u e x split: opkind.split aout.split)
qed

lemma outcome_fd_continuous: "outcome_ok (Some h) st (prepare_fd_continuous K h st)"
proof -
  have "tame st (stream_step K fd h True (reserve_poll_slot fd rd wr h st))" for fd rd wr
    unfolding reserve_poll_slot_def by (rule tame_trans [OF tame_on_entry(1) tame_stream_step])
  thus ?thesis using refused_reject tame_outcome by (auto simp: prepare_fd_continuous_def Let_def split: option.split)
qed

lemma outcome_run_write:
  assumes "ordered st"
  shows "outcome_ok (case r of RStart h \<Rightarrow> Some h | _ \<Rightarrow> None) st (run_write K t r st)"
proof -
  have w: "tame st ((logs [EvShut t s] st)\<lparr>sp_kn := Suc (sp_kn st)\<rparr>)" "tame st (close_sock t s st)" for s
    by (rule tame_same; simp add: close_sock_def flags_def)+
  show ?thesis using assms outcome_prepare_socket tame_outcome tame_trans [OF w(1) tame_call_cb(1)] tame_trans [OF w(2) tame_call_cb(1)] tame_call_cb(1) w(2)
    by (cases r) (auto simp: run_write_def)
qed

lemma outcome_run_or_enqueue:
  assumes "ordered st"
  shows "outcome_ok None st (run_or_enqueue_write K s r st)"
proof -
  let ?st = "st\<lparr>sp_tk := Suc (sp_tk st)\<rparr>"
  have t: "tame st ?st" by (rule tame_same) (simp_all add: flags_def)
  have "outcome_ok None st (run_write K (sp_tk st) r ?st)"
    by (rule outcome_after [OF t _ outcome_weaken [OF outcome_run_write [OF tk_ordered [OF assms]]]]) simp
  moreover have "tame st (enqueue_write fd r hh n ?st)" for fd hh n
    unfolding enqueue_write_def by (rule tame_trans [OF t tame_on_entry(1)])
  moreover have "outcome_ok None st (throw RuntimeErr ?st)" by (rule outcome_after [OF t _ refused_throw]) simp
  ultimately show ?thesis by (simp add: run_or_enqueue_write_def Let_def tame_outcome)
qed

lemma tame_alloc: "spawn_operation kind s fd msk c view base st = (h, st1) \<Longrightarrow> tame st st1" "spawn_operation kind s fd msk c view base st = (h, st1) \<Longrightarrow> sp_stk st1 = sp_stk st"
  by (auto simp: spawn_operation_def flags_def intro!: tame_same)

lemma outcome_submit_send:
  assumes "ordered st"
  shows "outcome_ok None st (submit_send K kind s view c st)"
proof -
  obtain h st1 where a: "spawn_operation kind s (-1) 0 c view 0 st = (h, st1)" by (meson surj_pair)
  have "outcome_ok None st (reject h RuntimeErr st1)" "outcome_ok None st (prepare_socket_operation K h st1)"
    using outcome_after [OF tame_alloc [OF a]] outcome_weaken refused_reject outcome_prepare_socket [OF alloc_ordered(1) [OF assms a]] by blast+
  moreover have "outcome_ok None st (enqueue_write fd r hh n st1)" for fd r hh n
    unfolding enqueue_write_def by (rule tame_outcome [OF tame_trans [OF tame_alloc(1) [OF a] tame_on_entry(1)]])
  ultimately show ?thesis by (simp add: submit_send_def a)
qed

lemma outcome_send_nowait: "ordered st \<Longrightarrow> outcome_ok None st (send_nowait K s view c st)"
  by (simp add: send_nowait_def outcome_submit_send refused_throw tame_outcome)

lemma tame_give_reply: "tame st (give_reply r None st)"
  by (simp add: give_reply_def tame_call_cb split: reply.split)

lemma tame_stop: "tame st (selector_stop_handle h r st)"
proof -
  have p: "tame st (st\<lparr>sp_stk := f # sp_stk st\<rparr>)" if "benign f" for f using tame_push [of "[f]" st] that by simp
  show ?thesis using tame_trans [OF p tame_remove] tame_trans [OF p tame_terminalise]
    by (simp add: selector_stop_handle_def tame_give_reply)
qed

lemma tame_step_fd:
  assumes "ordered st"
  shows "tame st (step_fd_operation K fd rd st)"
proof -
  have "tame st (case attempt K h st of (ABlock, st') \<Rightarrow> update_registration K fd st'
      | (AExn e, st') \<Rightarrow> remove_handle h (push [FFinish h (Inl e)] st')
      | (AVal v, st') \<Rightarrow> remove_handle h (push [FFinish h (Inr v)] st'))" for h
  proof -
    obtain r n l i b st' where a: "attempt K h st = (r, st')" and p: "attempt_post h st r n l i b st'"
      by (rule attempt_eq [OF ordered_view [OF assms]])
    note t = tame_attempt(1) [OF p]
    have "tame st (remove_handle h (push [FFinish h out] st'))" for out
      by (rule tame_trans [OF t tame_trans [OF tame_push tame_remove]]) simp
    thus ?thesis unfolding a prod.case using tame_trans [OF t tame_update(1)] by (simp split: aout.split)
  qed
  thus ?thesis by (auto simp: step_fd_operation_def tame_stream_step split: option.split)
qed

lemma tame_poll_event:
  assumes "ordered st"
  shows "tame st (poll_event K fd r w st)"
proof -
  have "tame st (step_fd_operation K fd True (st\<lparr>sp_stk := FStepWrite fd # sp_stk st\<rparr>))"
    using tame_trans [OF tame_push [of "[FStepWrite fd]" st] tame_step_fd] assms by simp
  thus ?thesis using assms by (simp add: poll_event_def tame_step_fd)
qed

lemma tame_set_callback: "tame st (set_operation_callback h c st)"
  by (rule tame_same) (simp_all add: set_operation_callback_def flags_def split: if_splits)

text \<open>A call either keeps the stack below its own frames, or leaves its caller with an exception; the close that
  \<open>send_close_nowait\<close> has still to do goes with it.\<close>

definition call_ok :: "sproac \<Rightarrow> sproac \<Rightarrow> bool" where
  "call_ok st st' = (outcome_ok None st st' \<or> (\<exists>s. outcome_ok None (st\<lparr>sp_stk := FCloseNw s # sp_stk st\<rparr>) st'))"

lemma call_outcome:
  assumes "ordered st"
  shows "call_ok st (sp_call K c st)"
proof -
  have al: "outcome_ok None st (f h st1)" if "spawn_operation k s fd m cb view base st = (h, st1)" "outcome_ok (Some h) st1 (f h st1)" for k s fd m cb view base h st1 and f :: "nat \<Rightarrow> sproac \<Rightarrow> sproac"
    using outcome_after [OF tame_alloc [OF that(1)]] outcome_weaken that(2) by blast
  show ?thesis
  proof (cases c)
    case (COneshot k s n)
    obtain h st1 where a: "spawn_operation k s (-1) 0 (CbUser n) [] 0 st = (h, st1)" by (meson surj_pair)
    show ?thesis using al [OF a, of "prepare_socket_operation K"] outcome_prepare_socket [OF alloc_ordered(1) [OF assms a]]
      by (simp add: COneshot a call_ok_def tame_outcome)
  next
    case (CPoll fd msk n)
    obtain h st1 where a: "spawn_operation PollOp 0 fd msk (CbUser n) [] 0 st = (h, st1)" by (meson surj_pair)
    show ?thesis using al [OF a, of "prepare_fd_operation K"] outcome_prepare_fd [OF alloc_ordered(1) [OF assms a]]
      by (simp add: CPoll a call_ok_def)
  next
    case (CPollMany fd msk n)
    obtain h st1 where a: "spawn_operation PollMany 0 fd msk (CbUser n) [] 0 st = (h, st1)" by (meson surj_pair)
    show ?thesis using al [OF a, of "prepare_fd_continuous K"] outcome_fd_continuous by (simp add: CPollMany a call_ok_def)
  next
    case (CAcceptMany s n base)
    obtain h st1 where a: "spawn_operation AcceptMany s (-1) 0 (CbUser n) [] base st = (h, st1)" by (meson surj_pair)
    show ?thesis using al [OF a, of "prepare_socket_continuous K"] outcome_continuous by (simp add: CAcceptMany a call_ok_def)
  next
    case (CRecvMany s n base full)
    obtain h st1 where a: "spawn_operation RecvMany s (-1) 0 (CbUser n) [] base st = (h, st1)" by (meson surj_pair)
    show ?thesis using al [OF a, of "prepare_socket_continuous K"] outcome_continuous tame_outcome [OF tame_trans [OF tame_alloc(1) [OF a] tame_emit]]
      by (simp add: CRecvMany a call_ok_def)
  next
    case (CSendClose s view)
    have "outcome_ok None (st\<lparr>sp_stk := FCloseNw s # sp_stk st\<rparr>) (send_nowait K s view CbReport (st\<lparr>sp_stk := FCloseNw s # sp_stk st\<rparr>))"
      using assms by (intro outcome_send_nowait) simp
    thus ?thesis using assms refused_throw outcome_run_or_enqueue by (auto simp: CSendClose send_close_nowait_def call_ok_def)
  next
    case CWait
    have "tame st ((push [FSelect] st)\<lparr>sp_ctl := CUser\<rparr>)" by (auto simp: tame_def flags_def)
    thus ?thesis using refused_throw by (simp add: CWait call_ok_def tame_outcome)
  next
    case CClose
    have "tame st (close_proactor st)" by (rule tame_same) (simp_all add: close_proactor_def flags_def split: if_splits)
    thus ?thesis by (simp add: CClose call_ok_def tame_outcome)
  qed (use assms in \<open>simp_all add: call_ok_def outcome_submit_send tame_outcome tame_call_cb outcome_send_nowait outcome_run_or_enqueue tame_stop tame_set_callback\<close>)
qed

lemma call_flags: "call_ok st st' \<Longrightarrow> flags st st'"
  using tame_flags by (fastforce simp: call_ok_def flags_def)

lemma keep_call:
  assumes "ordered st" "results_ok st" "keep {#} {} st"
  shows "keep {#} {} (sp_call K c st)"
proof (cases "good st")
  case good: True
  show ?thesis
  proof (cases c)
    case (COneshot k s n)
    obtain h st1 where a: "spawn_operation k s (-1) 0 (CbUser n) [] 0 st = (h, st1)" by (meson surj_pair)
    note al = alloc_ordered [OF assms(1) a]
    have "keep {#} {} (prepare_socket_operation K h st1)" if "socket_oneshot k"
      by (rule keep_prepare_socket [OF al(1) keep_alloc(1) [OF assms a] alloc_pending [OF assms a good]])
         (use that al(3) in \<open>auto simp: socket_oneshot_def is_send_def\<close>)
    thus ?thesis using assms by (simp add: COneshot a)
  next
    case (CPoll fd msk n)
    obtain h st1 where a: "spawn_operation PollOp 0 fd msk (CbUser n) [] 0 st = (h, st1)" by (meson surj_pair)
    show ?thesis
      using keep_prepare_fd [OF alloc_ordered(1) [OF assms(1) a] keep_alloc(1) [OF assms a] alloc_pending [OF assms a good]] alloc_ordered(3) [OF assms(1) a]
      by (simp add: CPoll a is_send_def)
  next
    case (CPollMany fd msk n)
    obtain h st1 where a: "spawn_operation PollMany 0 fd msk (CbUser n) [] 0 st = (h, st1)" by (meson surj_pair)
    note al = alloc_ordered [OF assms(1) a]
    have "keep {#} {} st1" using keep_alloc(1) [OF assms a] al(3) keep_stream [of st1 h "{#}" "{}"] by (simp add: oneshot_def)
    thus ?thesis using keep_fd_continuous [OF al(1) _ al(3,2) keep_alloc(3) [OF assms a]] by (simp add: CPollMany a)
  next
    case (CAcceptMany s n base)
    obtain h st1 where a: "spawn_operation AcceptMany s (-1) 0 (CbUser n) [] base st = (h, st1)" by (meson surj_pair)
    note al = alloc_ordered [OF assms(1) a]
    have no: "\<not> oneshot st1 h" using al(3) by (simp add: oneshot_def)
    have "keep {#} {} st1" using keep_alloc(1) [OF assms a] no keep_stream by blast
    thus ?thesis using keep_continuous [OF al(1) _ no al(2)] by (simp add: CAcceptMany a)
  next
    case (CRecvMany s n base full)
    obtain h st1 where a: "spawn_operation RecvMany s (-1) 0 (CbUser n) [] base st = (h, st1)" by (meson surj_pair)
    note al = alloc_ordered [OF assms(1) a]
    have no: "\<not> oneshot st1 h" using al(3) by (simp add: oneshot_def)
    have "keep {#} {} st1" using keep_alloc(1) [OF assms a] no keep_stream by blast
    thus ?thesis using keep_continuous [OF al(1) _ no al(2)] keep_emit by (simp add: CRecvMany a)
  next
    case CWait
    have "keep {#} {} ((push [FSelect] st)\<lparr>sp_ctl := CUser\<rparr>)"
      using keep_push [of FSelect "{#}" "{}" st] assms(3) by (intro alike_keep [OF alike_fields(1)]) simp
    thus ?thesis using assms by (simp add: CWait keep_throw)
  qed (use assms in \<open>simp_all add: keep_submit_send is_send_def keep_alike_cb keep_send_nowait keep_send_close keep_run_or_enqueue
         keep_stop alike_keep [OF alike_set_callback] keep_close\<close>)
next
  case False
  thus ?thesis using flags_good [OF call_flags [OF call_outcome [OF assms(1)]]] keep_bad by blast
qed


section \<open>Steps\<close>

primrec stack_ok :: "frame list \<Rightarrow> bool" where
  "stack_ok [] = True"
| "stack_ok (f # k) = ((\<forall>s. f = FCloseNw s \<longrightarrow> (\<exists>k'. k = FUser # k')) \<and> (\<forall>r e. f \<noteq> FReply r (Some e)) \<and> stack_ok k)"

fun catcher :: "nat set \<Rightarrow> frame list \<Rightarrow> bool" where
  "catcher R (FUser # k) = True"
| "catcher R (FTry h # k) = (\<forall>g. h = Some g \<longrightarrow> g \<in> R)"
| "catcher R (FCloseNw s # k) = (\<exists>k'. k = FUser # k')"
| "catcher R _ = False"

definition caught :: "sproac \<Rightarrow> bool" where
  "caught st = (good st \<longrightarrow> stack_ok (sp_stk st)
     \<and> (\<forall>e. sp_ctl st = CExc e \<longrightarrow> (e = RuntimeErr \<or> e = ValueErr) \<and> catcher (set (sp_rej st)) (sp_stk st)))"

lemma stack_ok_push: "\<forall>f \<in> set fs. benign f \<Longrightarrow> stack_ok (fs @ k) = stack_ok k"
  by (induction fs) (auto simp: benign_def)

lemma tame_caught:
  assumes "tame st st'" "good st \<Longrightarrow> stack_ok (sp_stk st)" "\<And>e. sp_ctl st \<noteq> CExc e"
  shows "caught st'"
  unfolding caught_def
proof (intro impI conjI allI)
  assume g: "good st'"
  have "good st" using assms(1) g flags_good by (auto simp: tame_def)
  thus "stack_ok (sp_stk st')" using assms(1,2) stack_ok_push by (auto simp: tame_def)
  fix e
  assume "sp_ctl st' = CExc e"
  hence False using assms(1,3) g by (auto simp: tame_def good_def)
  thus "e = RuntimeErr \<or> e = ValueErr" "catcher (set (sp_rej st')) (sp_stk st')" by blast+
qed

lemma refused_caught:
  assumes "refused hh st st'" "good st \<Longrightarrow> stack_ok (sp_stk st)" "good st \<Longrightarrow> catcher (set (sp_rej st')) (sp_stk st)"
  shows "caught st'"
  using assms flags_good by (auto simp: caught_def refused_def)

lemma outcome_caught:
  assumes "outcome_ok hh st st'" "good st \<Longrightarrow> stack_ok (sp_stk st)" "\<And>e. sp_ctl st \<noteq> CExc e" "refused hh st st' \<Longrightarrow> good st \<Longrightarrow> catcher (set (sp_rej st')) (sp_stk st)"
  shows "caught st'"
  using assms tame_caught refused_caught by (metis outcome_ok_def)

definition machine_ok :: "sproac \<Rightarrow> bool" where
  "machine_ok st = (keep {#} {} st \<and> caught st)"

lemma call_machine:
  assumes "ordered st" "results_ok st" "machine_ok st" "sp_ctl st = CUser"
  shows "machine_ok (sp_call K c (st\<lparr>sp_stk := FUser # sp_stk st, sp_ctl := CRun\<rparr>))"
proof -
  let ?s = "st\<lparr>sp_stk := FUser # sp_stk st, sp_ctl := CRun\<rparr>"
  have o: "ordered ?s" using assms(1) by simp
  have r: "results_ok ?s" using assms(2) by (rule still_results [rotated]) (auto simp: still_def)
  have "keep {#} {} (st\<lparr>sp_stk := FUser # sp_stk st\<rparr>)" using keep_push [of FUser "{#}" "{}" st] assms(3) by (simp add: machine_ok_def)
  hence k: "keep {#} {} ?s" by (rule alike_keep [rotated]) (simp add: alike_def)
  have so: "good st \<Longrightarrow> stack_ok (sp_stk st)" using assms(3) by (simp add: machine_ok_def caught_def)
  have "caught (sp_call K c ?s)"
    using call_outcome [OF o, of K c] unfolding call_ok_def
  proof (elim disjE exE)
    assume "outcome_ok None ?s (sp_call K c ?s)"
    thus ?thesis by (rule outcome_caught) (use so in \<open>auto simp: good_def\<close>)
  next
    fix s
    assume "outcome_ok None (?s\<lparr>sp_stk := FCloseNw s # sp_stk ?s\<rparr>) (sp_call K c ?s)"
    thus ?thesis by (rule outcome_caught) (use so in \<open>auto simp: good_def\<close>)
  qed
  thus ?thesis using keep_call [OF o r k] by (simp add: machine_ok_def)
qed

lemma in_hand_slots:
  assumes "keep (add_mset h X) F st" "good st" "oneshot st h"
  shows "count (slot_refs (sp_slots st)) h = 0"
proof -
  have ho: "hold (add_mset h X) st" using assms(1,2) by (simp add: keep_def)
  show ?thesis using hold_one [OF ho assms(3)] hold_slots [OF ho assms(3)] by (cases "pending_op st h") auto
qed

lemma keep_exec:
  assumes "ordered st" "results_ok (st\<lparr>sp_stk := f # sp_stk st\<rparr>)" "keep {#} {} (st\<lparr>sp_stk := f # sp_stk st\<rparr>)"
  shows "keep {#} {} (sp_exec K f st)"
proof (cases "\<exists>fd eid. f = FDrain fd eid")
  case True
  thus ?thesis using keep_drain [OF assms(1)] assms(3) by auto
next
  case False
  hence pop: "keep (frame_ref f) {fd. f = FRemoved fd \<or> f = FUpdate fd \<or> (\<exists>h i. f = FStepped fd h False True i)} st"
    using keep_pop [OF assms(3)] by simp
  show ?thesis
  proof (cases f)
    case (FRemoved fd)
    thus ?thesis using pop keep_removed_rest [OF assms(1)] by simp
  next
    case (FUpdate fd)
    thus ?thesis using pop keep_update by simp
  next
    case (FFinish h out)
    hence "keep {#h#} {} st" using pop by simp
    moreover have "count (slot_refs (sp_slots st)) h = 0" if "good st" "oneshot st h" using in_hand_slots [of h "{#}"] calculation that by blast
    ultimately show ?thesis using keep_done [of "{#h#}" "{}" st h "{#}" out] FFinish by simp
  next
    case (FStop h r)
    hence k: "keep {#h#} {} st" using pop by simp
    have c: "count (slot_refs (sp_slots st)) h = 0" if "good st" "oneshot st h" using in_hand_slots [of h "{#}"] k that by blast
    let ?s = "st\<lparr>sp_stk := FReply r None # sp_stk st\<rparr>"
    have ks: "keep {#h#} {} ?s" using keep_push [of "FReply r None" "{#h#}" "{}" st] k by simp
    have "keep {#} {} (terminalise_cancelled h ?s)"
      by (rule keep_terminalise [OF ks]) (use c ks keep_stream [of ?s h "{#}" "{}"] in \<open>auto simp: good_def oneshot_def\<close>)
    thus ?thesis by (simp add: FStop)
  next
    case (FStepped fd h fin again i)
    have "is_stream (op_kind (sp_h st h))" using pop_results(4) [OF assms(2)] FStepped by simp
    hence no: "\<not> oneshot st h" by (simp add: oneshot_def)
    let ?n = "upd_op h (op_next_update (\<lambda>_. i + 1)) st"
    have k: "keep {#} (insert fd {}) st" by (rule keep_weaken [OF _ subset_refl]) (use pop FStepped keep_weaken in \<open>force simp: keep_def watched_def\<close>)
    have "keep {#} {} (remove_handle h st)" if fin using keep_remove [OF assms(1), of "{#}" "{}" h "[]"] pop that no FStepped by simp
    moreover have "keep {#} (insert fd {}) (push (if again then [FUpdate fd] else []) ?n)"
      using keep_pushes [of "if again then [FUpdate fd] else []" "{#}" "insert fd {}" ?n] alike_keep [OF alike_next k] by simp
    ultimately show ?thesis using keep_update by (simp add: FStepped stepped_def)
  next
    case (FEvents evs)
    hence k: "keep {#} {} st" using pop by simp
    show ?thesis
    proof (cases evs)
      case (Cons ev es)
      obtain fd r w where ev: "ev = (fd, r, w)" by (cases ev)
      have "keep {#} {} (st\<lparr>sp_stk := FEvents es # sp_stk st\<rparr>)" using keep_push [of "FEvents es" "{#}" "{}" st] k by simp
      thus ?thesis using keep_poll_event [of "st\<lparr>sp_stk := FEvents es # sp_stk st\<rparr>"] assms(1) by (simp add: FEvents Cons ev)
    qed (simp add: FEvents k)
  qed (use pop False assms(1) in \<open>simp_all add: keep_emit alike_keep [OF alike_give_reply] keep_run_or_enqueue keep_step_fd alike_keep [OF alike_fields(1)]\<close>)
qed

lemma exec_caught:
  assumes "ordered st" "good st \<Longrightarrow> stack_ok (f # sp_stk st)" "sp_ctl st = CRun"
  shows "caught (sp_exec K f st)"
proof -
  have so: "good st \<Longrightarrow> stack_ok (sp_stk st)" using assms(2) by simp
  have t: "tame st st' \<Longrightarrow> caught st'" for st' using tame_caught [OF _ so] assms(3) by simp
  show ?thesis
  proof (cases f)
    case (FDrain fd eid)
    have "caught (drain_write_queue K fd eid st)" if en: "entry_of st fd = Some en" and w: "en_writer en = None" and q: "en_queue en = q # qs" and id: "en_id en = eid" for en q qs
    proof -
      let ?t = "put_entry fd (en\<lparr>en_queue := qs\<rparr>) st"
      let ?u = "?t\<lparr>sp_stk := FTry (qw_handle q) # FDrain fd eid # sp_stk st\<rparr>"
      have ok: "entry_ok st fd en" and ord: "order_ok st" using assms(1) en by (simp_all add: ordered_def order_ok_def)
      have tk: "en_tickets (sp_h st) en = (qw_tk q, run_sock (sp_h st) (qw_run q)) # en_tickets (sp_h st) (en\<lparr>en_queue := qs\<rparr>)"
        using w q by (simp add: en_tickets_def writer_tickets_def queue_tickets_def)
      have "entry_ok st fd (en\<lparr>en_queue := qs\<rparr>)" using ok q unfolding entry_ok_def tk by simp
      hence "order_ok ?t" by (rule order_ok_put [OF ord]) simp_all
      hence o1: "ordered ?u" using assms(1) by (simp add: ordered_def order_ok_def views_ok_def entry_ok_def)
      have qok: "queued_ok (sp_h st) (sp_nh st) q" using ok q by (simp add: entry_ok_def)
      have run: "caught (run_write K (qw_tk q) (qw_run q) ?u)"
      proof (rule outcome_caught [OF outcome_run_write [OF o1]])
        show "catcher (set (sp_rej (run_write K (qw_tk q) (qw_run q) ?u))) (sp_stk ?u)"
          if "refused (case qw_run q of RStart h \<Rightarrow> Some h | _ \<Rightarrow> None) ?u (run_write K (qw_tk q) (qw_run q) ?u)"
          using that qok by (auto simp: refused_def queued_ok_def split: wrun.splits)
      qed (use so assms(3) in \<open>auto simp: good_def\<close>)
      have "tame st (?t\<lparr>sp_stk := FDrain fd eid # sp_stk st\<rparr>)" by (auto simp: tame_def flags_def)
      thus ?thesis using run t en w q id by (auto simp: drain_write_queue_def Let_def split: option.split)
    qed
    moreover have "caught st" by (rule t) simp
    ultimately show ?thesis by (auto simp: FDrain drain_write_queue_def split: option.split list.split)
  next
    case (FCloseNw s)
    have "caught (run_or_enqueue_write K s (RCloseNw s) st)"
      by (rule outcome_caught [OF outcome_run_or_enqueue [OF assms(1)] so]) (use assms(2,3) FCloseNw in auto)
    thus ?thesis by (simp add: FCloseNw)
  next
    case (FReply r err)
    show ?thesis
    proof (cases err)
      case None
      thus ?thesis using t [OF tame_give_reply] by (simp add: FReply)
    next
      case (Some e)
      hence "\<not> good st" using assms(2) FReply by auto
      moreover have "flags st (give_reply r err st)" by (rule flags_alike [OF alike_give_reply])
      ultimately have "\<not> good (give_reply r err st)" using flags_good by blast
      thus ?thesis by (simp add: FReply caught_def)
    qed
  next
    case (FEvents evs)
    show ?thesis
    proof (cases evs)
      case (Cons ev es)
      obtain fd r w where ev: "ev = (fd, r, w)" by (cases ev)
      let ?s = "st\<lparr>sp_stk := FEvents es # sp_stk st\<rparr>"
      have "tame st (poll_event K fd r w ?s)"
        using tame_trans [OF tame_push [of "[FEvents es]" st] tame_poll_event] assms(1) by simp
      thus ?thesis using t by (simp add: FEvents Cons ev)
    qed (use t [OF tame_refl] in \<open>simp add: FEvents\<close>)
  next
    case (FStepped fd h fin again i)
    have n: "tame st (upd_op h (op_next_update (\<lambda>_. i + 1)) st)" by (rule tame_same) (simp_all add: flags_def)
    have "tame st (stepped K fd h fin again i st)"
      using tame_remove tame_trans [OF n tame_trans [OF tame_push tame_update(1)], of "if again then [FUpdate fd] else []"] by (simp add: stepped_def)
    thus ?thesis using t by (simp add: FStepped)
  next
    case (FStop h r)
    have "tame st (terminalise_cancelled h (st\<lparr>sp_stk := FReply r None # sp_stk st\<rparr>))"
      using tame_trans [OF tame_push [of "[FReply r None]" st] tame_terminalise] by simp
    thus ?thesis using t by (simp add: FStop)
  next
    case FUser
    have "tame st (st\<lparr>sp_ctl := CUser\<rparr>)" by (rule tame_same) (simp_all add: flags_def)
    thus ?thesis using t by (simp add: FUser)
  qed (use t tame_refl tame_removed_rest tame_finish(1) tame_emit tame_update(1) tame_step_fd [OF assms(1)] in simp_all)
qed

lemma flags_catch: "flags st (sp_catch K f e st)"
proof -
  have c: "flags st (st\<lparr>sp_ctl := x\<rparr>)" "flags st (st\<lparr>sp_ctl := x, sp_stk := k\<rparr>)" for x k by (simp_all add: flags_def)
  show ?thesis
    using flags_trans [OF c(1) flags_finish] flags_trans [OF c(1) flags_update] tame_remove tame_terminalise c
      flags_trans [OF c(2), of _ _ "remove_handle _ (st\<lparr>sp_ctl := _, sp_stk := _\<rparr>)"] flags_trans [OF c(2), of _ _ "terminalise_cancelled _ (st\<lparr>sp_ctl := _, sp_stk := _\<rparr>)"]
    by (cases f) (auto simp: tame_def flags_def split: option.split)
qed

lemma catch_machine:
  assumes "ordered st" "machine_ok (st\<lparr>sp_stk := f # sp_stk st\<rparr>)" "sp_ctl st = CExc e"
  shows "machine_ok (sp_catch K f e st)"
proof (cases "good st")
  case False
  hence "\<not> good (sp_catch K f e st)" using flags_good [OF flags_catch] by blast
  thus ?thesis by (simp add: machine_ok_def keep_def caught_def)
next
  case True
  let ?p = "st\<lparr>sp_stk := f # sp_stk st\<rparr>"
  have g: "good ?p" using True by (simp add: good_def)
  have e: "e = RuntimeErr \<or> e = ValueErr" and c: "catcher (set (sp_rej st)) (f # sp_stk st)" and so: "stack_ok (sp_stk st)"
    using assms(2,3) g by (simp_all add: machine_ok_def caught_def)
  have kp: "keep {#} {} ?p" using assms(2) by (simp add: machine_ok_def)
  have k: "keep {#} {} st" if "frame_ref f = {#}" "\<And>fd. f \<noteq> FRemoved fd \<and> f \<noteq> FUpdate fd \<and> (\<forall>h i. f \<noteq> FStepped fd h False True i)" "\<And>fd eid. f \<noteq> FDrain fd eid"
    using keep_pop [OF kp that(3)] that by simp
  show ?thesis
  proof (cases f)
    case FUser
    have "alike st ((logs [EvRaise e] st)\<lparr>sp_ctl := CUser\<rparr>)" by (simp add: alike_def)
    hence "keep {#} {} (sp_catch K f e st)" using alike_keep k FUser by simp
    thus ?thesis using so FUser by (simp add: machine_ok_def caught_def)
  next
    case (FTry hh)
    let ?r = "st\<lparr>sp_ctl := CRun\<rparr>"
    have ex: "is_Exception e" using e by auto
    have kr: "keep {#} {} ?r" using alike_keep [OF alike_fields(1) k] FTry by simp
    show ?thesis
    proof (cases hh)
      case None
      thus ?thesis using FTry ex kr so by (simp add: machine_ok_def caught_def)
    next
      case (Some h)
      have "\<not> pending_op ?r h" using c FTry Some by (simp add: pending_op_def)
      hence "count (slot_refs (sp_slots ?r)) h = 0" if "good ?r" "oneshot ?r h" using hold_slots [of "{#}" ?r h] kr that by (simp add: keep_def)
      hence kf: "keep {#} {} (finish_oneshot h (Inl e) ?r)" using keep_done [OF kr, of h "{#}"] by blast
      have "caught (finish_oneshot h (Inl e) ?r)" by (rule tame_caught [OF tame_finish(1)]) (use so in simp_all)
      thus ?thesis using FTry Some ex kf by (simp add: machine_ok_def)
    qed
  next
    case (FCloseNw s)
    thus ?thesis using k so c e assms(3) by (auto simp: machine_ok_def caught_def)
  qed (use c in simp_all)
qed

lemma sp_step_machine: "sp_step K st st' \<Longrightarrow> ordered st \<Longrightarrow> results_ok st \<Longrightarrow> machine_ok st \<Longrightarrow> machine_ok st'"
proof (induction rule: sp_step.induct)
  case (call st c)
  thus ?case by (intro call_machine)
next
  case (run st f k)
  have p: "st\<lparr>sp_stk := f # k\<rparr> = st" unfolding run(2) [symmetric] by simp
  have "keep {#} {} (sp_exec K f (st\<lparr>sp_stk := k\<rparr>))"
    by (rule keep_exec) (use run in \<open>simp_all add: machine_ok_def p\<close>)
  moreover have "caught (sp_exec K f (st\<lparr>sp_stk := k\<rparr>))"
    by (rule exec_caught) (use run in \<open>auto simp: machine_ok_def caught_def good_def\<close>)
  ultimately show ?case by (simp add: machine_ok_def)
next
  case (unwind st e f k)
  have p: "st\<lparr>sp_stk := f # k\<rparr> = st" unfolding unwind(2) [symmetric] by simp
  show ?case by (rule catch_machine) (use unwind in \<open>simp_all add: p\<close>)
next
  case (ret st f k)
  thus ?case using alike_keep [OF alike_fields(1)] by (auto simp: machine_ok_def caught_def good_def)
next
  case (raise st f k e)
  thus ?case by (simp add: machine_ok_def keep_def caught_def good_def)
next
  case (select st k evs)
  let ?s = "st\<lparr>sp_stk := k\<rparr>"
  have p: "st\<lparr>sp_stk := FSelect # k\<rparr> = st" unfolding select(2) [symmetric] by simp
  have "keep {#} {} (st\<lparr>sp_stk := FSelect # k\<rparr>)" unfolding p using select(5) by (simp add: machine_ok_def)
  from keep_pop [OF this] have "keep {#} {} ?s" by simp
  hence "keep {#} {} (st\<lparr>sp_stk := FEvents (select_events evs st) # k\<rparr>)" using keep_push [of "FEvents (select_events evs st)" "{#}" "{}" ?s] by simp
  hence "keep {#} {} (st\<lparr>sp_stk := FEvents (select_events evs st) # k, sp_ctl := CRun\<rparr>)" by (rule alike_keep [rotated]) (simp add: alike_def)
  thus ?case using select by (auto simp: machine_ok_def caught_def good_def)
next
  case (socket st fd b)
  have "alike st (st\<lparr>sp_fd := (sp_fd st)(sp_ns st := fd), sp_blk := (sp_blk st)(sp_ns st := b), sp_ns := Suc (sp_ns st)\<rparr>)" by (simp add: alike_def)
  thus ?case using socket alike_keep by (auto simp: machine_ok_def caught_def good_def)
next
  case (sock_closed st s)
  thus ?case using alike_keep [OF alike_fields(4)] by (auto simp: machine_ok_def caught_def good_def)
qed

lemma sp_reach_machine: "sp_reach K handler st \<Longrightarrow> machine_ok st"
proof (induction rule: rtranclp_induct)
  case base
  show ?case
    by (simp add: sp_init_def machine_ok_def keep_def caught_def hold_def pending_op_def drained_def watched_def reg_mask_def selector_mask_def)
next
  case (step st st')
  thus ?case using sp_step_machine sp_reach_ordered sp_reach_results by blast
qed

end
