(* ===== verification/Selector_Properties.thy ===== *)
theory Selector_Properties
  imports Selector_Machine
begin

text \<open>
  Properties of the selector proactor over every run of its machine: any calls, from user code and from
  callbacks, any kernel, any readiness.  Concrete runs are written as lists of moves.
\<close>

section \<open>Runs\<close>

datatype sp_move = MCall spcall | MGo | MReturn | MRaise pyexn | MSelect "(int \<times> bool \<times> bool) list" | MSocket int

text \<open>A move that does not apply leaves the state alone.\<close>

fun sp_do :: "knl \<Rightarrow> sproac \<Rightarrow> sp_move \<Rightarrow> sproac" where
  "sp_do K st (MCall c) = (if sp_ctl st = CUser then sp_call K c (st\<lparr>sp_stk := FUser # sp_stk st, sp_ctl := CRun\<rparr>) else st)"
| "sp_do K st MGo =
     (case sp_stk st of
        [] \<Rightarrow> st
      | f # k \<Rightarrow> (case sp_ctl st of CUser \<Rightarrow> st | CRun \<Rightarrow> sp_exec K f (st\<lparr>sp_stk := k\<rparr>) | CExc e \<Rightarrow> sp_catch K f e (st\<lparr>sp_stk := k\<rparr>)))"
| "sp_do K st MReturn = (case sp_stk st of f # k \<Rightarrow> if sp_ctl st = CUser \<and> f \<noteq> FSelect then st\<lparr>sp_ctl := CRun\<rparr> else st | [] \<Rightarrow> st)"
| "sp_do K st (MRaise e) =
     (case sp_stk st of f # k \<Rightarrow> if sp_ctl st = CUser \<and> f \<noteq> FSelect then throw e (st\<lparr>sp_cbraise := True\<rparr>) else st | [] \<Rightarrow> st)"
| "sp_do K st (MSelect evs) =
     (case sp_stk st of
        f # k \<Rightarrow> if sp_ctl st = CUser \<and> f = FSelect then st\<lparr>sp_stk := FEvents (select_events evs st) # k, sp_ctl := CRun\<rparr> else st
      | [] \<Rightarrow> st)"
| "sp_do K st (MSocket fd) =
     (if sp_ctl st = CUser \<and> 0 \<le> fd \<and> (\<forall>s < sp_ns st. sp_fd st s \<noteq> fd)
      then st\<lparr>sp_fd := (sp_fd st)(sp_ns st := fd), sp_blk := (sp_blk st)(sp_ns st := False), sp_ns := Suc (sp_ns st)\<rparr> else st)"

lemma sp_do_steps: "(sp_step K)\<^sup>*\<^sup>* st (sp_do K st m)"
proof (cases m)
  case MGo
  thus ?thesis by (auto split: list.split ctrl.split intro: sp_step.run sp_step.unwind r_into_rtranclp)
qed (auto split: list.split intro: sp_step.intros r_into_rtranclp)

definition sp_run :: "knl \<Rightarrow> sp_move list \<Rightarrow> sproac" where
  "sp_run K ms = foldl (sp_do K) (sp_init False) ms"

lemma sp_run_reach: "sp_reach K False (sp_run K ms)"
proof -
  have "(sp_step K)\<^sup>*\<^sup>* st (foldl (sp_do K) st ms)" for st
    by (induction ms arbitrary: st) (auto intro: rtranclp_trans sp_do_steps)
  thus ?thesis by (simp add: sp_run_def)
qed

definition answers :: "kans list \<Rightarrow> knl" where
  "answers as n = (if n < length as then as ! n else KBlock)"

text \<open>Nobody is inside the proactor: threads are outside, or wait in \<open>select\<close>.\<close>

definition quiescent :: "sproac \<Rightarrow> bool" where
  "quiescent st = (sp_ctl st = CUser \<and> set (sp_stk st) \<subseteq> {FSelect})"

text \<open>How a concrete run is evaluated.\<close>

lemma send_loop_go:
  "op_off (sp_h st h) < length (op_view (sp_h st h)) \<Longrightarrow> send_loop K h st =
     (case sock_send K (op_tk (sp_h st h)) (op_sock (sp_h st h)) (drop (op_off (sp_h st h)) (op_view (sp_h st h))) st of
                 (AVal (VInt n), st') \<Rightarrow> (if n = 0 then (ABlock, st')
                                          else send_loop K h (upd_op h (op_off_update (\<lambda>_. op_off (sp_h st h) + n)) st'))
               | (AVal v, st') \<Rightarrow> (ABlock, st')
               | r \<Rightarrow> r)"
  by (subst send_loop.simps) (simp add: Let_def)

lemma send_loop_end: "\<not> op_off (sp_h st h) < length (op_view (sp_h st h)) \<Longrightarrow> send_loop K h st = (AVal (VInt (op_off (sp_h st h))), st)"
  by (subst send_loop.simps) (simp add: Let_def)

lemmas sp_eval = sp_run_def sp_init_def answers_def quiescent_def
  call_cb_def finish_oneshot_def emit_def error_delivery_def terminalise_cancelled_def en_empty_def new_entry_def on_entry_def
  slot_taken_def reserve_slot_def reserve_poll_slot_def selector_mask_def reg_call_def update_registration_def sys_def sock_send_def
  send_loop_go send_loop_end attempt_def has_op_def clear_op_def remove_handle_def is_held_def removed_rest_def spawn_operation_def reject_def try_complete_def
  prepare_socket_operation_def write_busy_def enqueue_write_def close_sock_def failure_def as_result_def run_write_def run_or_enqueue_write_def
  drain_write_queue_def submit_send_def give_reply_def selector_stop_handle_def step_fd_operation_def poll_event_def select_events_def
  socket_oneshot_def

lemma logged_fin: "EvFin h out \<in> set l \<Longrightarrow> (h, out) \<in> set (fins l)"
  by (induction l) (auto split: option.split)

section \<open>Order of writes\<close>

text \<open>C5: The write-side system calls of a socket (\<open>send\<close>, \<open>shutdown\<close>, \<open>close\<close>) that \<open>send\<close>, \<open>send_all\<close>, \<open>send_nowait\<close>,
  \<open>send_close_nowait\<close>, \<open>shutdown\<close> and \<open>close_socket\<close> ask for are made in the order of these calls, however they are
  interleaved with readiness, cancellations and callbacks that call the proactor again.  The bytes a \<open>send_all\<close>
  has handed to the kernel are the first ones of its data, and all of them once it reports success, with their
  number.\<close>

theorem selector_write_order:
  assumes "sp_reach K handler st"
  shows "sorted (tickets s (sp_log st))
    \<and> (\<forall>h < sp_nh st. op_kind (sp_h st h) = SendAll \<longrightarrow>
         sent_bytes (op_tk (sp_h st h)) (sp_log st) = take (op_off (sp_h st h)) (op_view (sp_h st h)))
    \<and> (\<forall>h v. EvFin h (Inr v) \<in> set (sp_log st) \<longrightarrow> op_kind (sp_h st h) = SendAll \<longrightarrow>
         sent_bytes (op_tk (sp_h st h)) (sp_log st) = op_view (sp_h st h) \<and> v = VInt (length (op_view (sp_h st h))))"
proof (intro conjI)
  show "sorted (tickets s (sp_log st))" using sp_reach_ordered [OF assms] by (simp add: ordered_def order_ok_def)
  have r: "results_ok st" by (rule sp_reach_results [OF assms])
  show bytes: "\<forall>h < sp_nh st. op_kind (sp_h st h) = SendAll \<longrightarrow> sent_bytes (op_tk (sp_h st h)) (sp_log st) = take (op_off (sp_h st h)) (op_view (sp_h st h))"
    using r by (simp add: results_ok_def)
  show "\<forall>h v. EvFin h (Inr v) \<in> set (sp_log st) \<longrightarrow> op_kind (sp_h st h) = SendAll \<longrightarrow>
      sent_bytes (op_tk (sp_h st h)) (sp_log st) = op_view (sp_h st h) \<and> v = VInt (length (op_view (sp_h st h)))"
  proof (intro allI impI)
    fix h v
    assume e: "EvFin h (Inr v) \<in> set (sp_log st)" and k: "op_kind (sp_h st h) = SendAll"
    have "h < sp_nh st \<and> full_send (sp_h st h) (Inr v)" using r logged_fin [OF e] unfolding results_ok_def by blast
    thus "sent_bytes (op_tk (sp_h st h)) (sp_log st) = op_view (sp_h st h) \<and> v = VInt (length (op_view (sp_h st h)))"
      using bytes k by (simp add: full_send_def)
  qed
qed

text \<open>A send that blocks half way, a second one and a close queued behind it, then readiness.\<close>

definition order_run :: sproac where
  "order_run = sp_run (answers [KRet (VInt 1), KBlock, KRet (VInt 0), KRet (VInt 5), KRet (VInt 2), KRet VNone])
     [MSocket 3, MCall (CSendAll 0 [10, 11, 12] 7), MGo, MCall (CSendAll 0 [20, 21] 8), MGo, MCall (CCloseSockNw 0), MGo,
      MCall CWait, MSelect [(3, False, True)], MGo, MGo, MGo, MReturn, MGo, MGo, MGo, MGo, MGo, MGo, MReturn, MGo, MGo, MGo]"

theorem selector_write_order_witness:
  "sorted (tickets 0 (sp_log order_run)) \<and> sp_log order_run =
     [EvSend 0 0 [10], EvSend 0 0 [11, 12], EvSend 1 0 [20, 21], EvFin 1 (Inr (VInt 2)), EvCall 8 (Inr (VInt 2)), EvClose 2 0,
      EvFin 0 (Inr (VInt 3)), EvCall 7 (Inr (VInt 3))]"
proof -
  have "sp_log order_run =
     [EvSend 0 0 [10], EvSend 0 0 [11, 12], EvSend 1 0 [20, 21], EvFin 1 (Inr (VInt 2)), EvCall 8 (Inr (VInt 2)), EvClose 2 0,
      EvFin 0 (Inr (VInt 3)), EvCall 7 (Inr (VInt 3))]"
    by (simp add: order_run_def sp_eval)
  thus ?thesis using selector_write_order [OF sp_run_reach] unfolding order_run_def by blast
qed

section \<open>Completions\<close>

text \<open>C6: The callback of a one-shot operation runs at most once.  As long as every registration has been accepted
  and no callback has raised, nothing is lost either: whenever nobody is inside the proactor, a submitted
  operation that is not complete and was not refused with an exception holds a slot of a descriptor, or waits
  in the write queue of one whose writer slot is taken; and unless the proactor has been closed the selector
  watches exactly the taken slots of that descriptor.\<close>

theorem selector_nothing_lost:
  assumes "sp_reach K handler st" "h < sp_nh st" "\<not> is_stream (op_kind (sp_h st h))"
  shows "length (filter (\<lambda>e. \<exists>out. e = EvFin h out) (sp_log st)) = of_bool (op_done (sp_h st h))
    \<and> (\<not> sp_regfail st \<longrightarrow> \<not> sp_cbraise st \<longrightarrow> quiescent st \<longrightarrow> \<not> op_done (sp_h st h) \<longrightarrow> h \<notin> set (sp_rej st)
       \<longrightarrow> (\<exists>fd en. entry_of st fd = Some en
             \<and> (en_reader en = Some h \<or> en_writer en = Some h \<or> en_writer en \<noteq> None \<and> (\<exists>q \<in> set (en_queue en). qw_handle q = Some h))
             \<and> (\<not> sp_closed st \<longrightarrow> sp_reg st fd = Some (en_reader en \<noteq> None, en_writer en \<noteq> None))))"
proof (intro conjI impI)
  have "length (filter (\<lambda>e. \<exists>out. e = EvFin h out) l) = length (filter (\<lambda>p. fst p = h) (fins l))" for l
  proof (induction l)
    case (Cons e l)
    thus ?case by (cases e) auto
  qed simp
  thus "length (filter (\<lambda>e. \<exists>out. e = EvFin h out) (sp_log st)) = of_bool (op_done (sp_h st h))"
    using sp_reach_results [OF assms(1)] assms(2) by (simp add: results_ok_def)
next
  assume a: "\<not> sp_regfail st" "\<not> sp_cbraise st" "quiescent st" "\<not> op_done (sp_h st h)" "h \<notin> set (sp_rej st)"
  have ord: "ordered st" by (rule sp_reach_ordered [OF assms(1)])
  have k: "hold {#} st" "drained st" "watched {} st"
    using sp_reach_machine [OF assms(1)] a(1,2) by (simp_all add: machine_ok_def keep_def good_def)
  have stk: "f = FSelect" if "f \<in> set (sp_stk st)" for f using a(3) that by (auto simp: quiescent_def)
  have "count (stack_refs (sp_stk st)) h = 0"
  proof -
    have "stack_refs fs = {#}" if "\<forall>f \<in> set fs. f = FSelect" for fs using that by (induction fs) auto
    thus ?thesis using stk by simp
  qed
  moreover have "count (slot_refs (sp_slots st)) h + count (stack_refs (sp_stk st)) h + count {#} h = 1"
    by (rule hold_one [OF k(1)]) (use assms(2,3) a in \<open>simp_all add: oneshot_def pending_op_def\<close>)
  ultimately have "h \<in># slot_refs (sp_slots st)" by (simp add: count_greater_zero_iff [symmetric])
  hence "is_held h st" using not_held_refs [of h st] by (auto simp: count_eq_zero_iff)
  then obtain fd en where "(fd, en) \<in> set (sp_slots st)" and has: "has_op h en" by (auto simp: is_held_def)
  hence en: "entry_of st fd = Some en" using ord by (simp add: ordered_def order_ok_def)
  have q: "en_writer en \<noteq> None" if "en_queue en \<noteq> []"
  proof
    assume "en_writer en = None"
    hence "FDrain fd (en_id en) \<in> set (sp_stk st)" using k(2) en that by (simp add: drained_def)
    thus False using stk by blast
  qed
  have "\<not> due st fd" using stk by (auto simp: due_def)
  hence reg: "\<not> sp_closed st \<longrightarrow> sp_reg st fd = reg_mask st fd" using k(3) by (simp add: watched_def)
  have w: "en_reader en = Some h \<or> en_writer en = Some h \<or> en_writer en \<noteq> None \<and> (\<exists>q \<in> set (en_queue en). qw_handle q = Some h)"
    using has q by (cases "en_queue en = []") (auto simp: has_op_def)
  hence "reg_mask st fd = Some (en_reader en \<noteq> None, en_writer en \<noteq> None)" by (auto simp: reg_mask_def selector_mask_def en)
  thus "\<exists>fd en. entry_of st fd = Some en
      \<and> (en_reader en = Some h \<or> en_writer en = Some h \<or> en_writer en \<noteq> None \<and> (\<exists>q \<in> set (en_queue en). qw_handle q = Some h))
      \<and> (\<not> sp_closed st \<longrightarrow> sp_reg st fd = Some (en_reader en \<noteq> None, en_writer en \<noteq> None))"
    using en w reg by auto
qed

text \<open>A read, a send and a second send that waits behind it.\<close>

definition parked_run :: sproac where
  "parked_run = sp_run (answers [KBlock, KRet VNone, KBlock, KRet VNone])
     [MSocket 3, MCall (COneshot Recv 0 1), MGo, MCall (CSendAll 0 [10] 2), MGo, MCall (CSendAll 0 [20] 3), MGo]"

theorem selector_nothing_lost_witness:
  "\<exists>fd en. entry_of parked_run fd = Some en
     \<and> (en_reader en = Some 2 \<or> en_writer en = Some 2 \<or> en_writer en \<noteq> None \<and> (\<exists>q \<in> set (en_queue en). qw_handle q = Some 2))
     \<and> sp_reg parked_run fd = Some (en_reader en \<noteq> None, en_writer en \<noteq> None)"
proof -
  have f: "2 < sp_nh parked_run" "\<not> is_stream (op_kind (sp_h parked_run 2))" "\<not> sp_regfail parked_run" "\<not> sp_cbraise parked_run"
    "\<not> op_done (sp_h parked_run 2)" "2 \<notin> set (sp_rej parked_run)" "\<not> sp_closed parked_run"
    by (simp_all add: parked_run_def sp_eval)
  have q: "quiescent parked_run" by (simp add: parked_run_def sp_eval)
  show ?thesis using selector_nothing_lost [OF sp_run_reach [of "answers [KBlock, KRet VNone, KBlock, KRet VNone]"
      "[MSocket 3, MCall (COneshot Recv 0 1), MGo, MCall (CSendAll 0 [10] 2), MGo, MCall (CSendAll 0 [20] 3), MGo]"], of 2]
    f q unfolding parked_run_def by blast
qed

text \<open>C17: While nobody is inside the proactor, and as long as every registration has been accepted, no callback has
  raised and the proactor is open, the selector has a key for a descriptor exactly when a slot of it is taken,
  and asks for exactly those directions: no readiness is missed, and none is reported for nobody.\<close>

theorem selector_watches_slots:
  assumes "sp_reach K handler st" "\<not> sp_regfail st" "\<not> sp_cbraise st" "\<not> sp_closed st" "quiescent st"
  shows "sp_reg st fd = (if slot_taken fd True st \<or> slot_taken fd False st then Some (slot_taken fd True st, slot_taken fd False st) else None)"
proof -
  have "watched {} st" using sp_reach_machine [OF assms(1)] assms(2,3) by (simp add: machine_ok_def keep_def good_def)
  moreover have "\<not> due st fd" using assms(5) by (auto simp: due_def quiescent_def)
  ultimately have "sp_reg st fd = reg_mask st fd" using assms(4) by (simp add: watched_def)
  thus ?thesis by (auto simp: reg_mask_def selector_mask_def slot_taken_def split: option.splits)
qed

theorem selector_watches_slots_witness: "sp_reg parked_run 3 = Some (True, True)"
proof -
  have f: "\<not> sp_regfail parked_run" "\<not> sp_cbraise parked_run" "\<not> sp_closed parked_run"
    by (simp_all add: parked_run_def sp_eval)
  have q: "quiescent parked_run" by (simp add: parked_run_def sp_eval)
  have "slot_taken 3 True parked_run \<and> slot_taken 3 False parked_run" by (simp add: parked_run_def sp_eval)
  thus ?thesis using selector_watches_slots [OF sp_run_reach [of "answers [KBlock, KRet VNone, KBlock, KRet VNone]"
      "[MSocket 3, MCall (COneshot Recv 0 1), MGo, MCall (CSendAll 0 [10] 2), MGo, MCall (CSendAll 0 [20] 3), MGo]"], of 3]
    f q unfolding parked_run_def by simp
qed

section \<open>What failures break\<close>

text \<open>A queued close runs inside \<open>_remove_handle\<close>, before the send in front of it is completed.  When a receive is
  pending on the same descriptor, the selector then has to modify the registration of a closed descriptor;
  the \<open>OSError\<close> leaves \<open>_step_fd_operation\<close> and \<open>wait\<close>, and the callback of the send, all of whose bytes are gone,
  never runs: the operation is neither complete nor refused, and nothing holds it.\<close>

definition lost_run :: sproac where
  "lost_run = sp_run (answers [KBlock, KRet VNone, KBlock, KRet VNone, KRet (VInt 2), KRet VNone, KFail EBADF])
     [MSocket 3, MCall (COneshot Recv 0 1), MGo, MCall (CSendAll 0 [10, 11] 2), MGo, MCall (CCloseSockNw 0), MGo,
      MCall CWait, MSelect [(3, False, True)], MGo, MGo, MGo, MGo, MGo, MGo, MGo, MGo, MGo]"

theorem selector_close_loses_send:
  "\<exists>K st. sp_reach K False st \<and> quiescent st \<and> sp_stk st = [] \<and> \<not> sp_cbraise st
     \<and> sp_log st = [EvSend 1 0 [10, 11], EvClose 2 0, EvRaise (OSErr EBADF)]
     \<and> op_kind (sp_h st 1) = SendAll \<and> op_off (sp_h st 1) = length (op_view (sp_h st 1)) \<and> \<not> op_done (sp_h st 1) \<and> 1 \<notin> set (sp_rej st)
     \<and> \<not> is_held 1 st"
proof -
  have "quiescent lost_run \<and> sp_stk lost_run = [] \<and> \<not> sp_cbraise lost_run
     \<and> sp_log lost_run = [EvSend 1 0 [10, 11], EvClose 2 0, EvRaise (OSErr EBADF)]
     \<and> op_kind (sp_h lost_run 1) = SendAll \<and> op_off (sp_h lost_run 1) = length (op_view (sp_h lost_run 1)) \<and> \<not> op_done (sp_h lost_run 1)
     \<and> 1 \<notin> set (sp_rej lost_run) \<and> \<not> is_held 1 lost_run"
    by (simp add: lost_run_def sp_eval)
  thus ?thesis unfolding lost_run_def using sp_run_reach by blast
qed

text \<open>A registration that the kernel refuses leaves the slot reserved: the call raises, so the caller has no
  handle, and every later operation of that direction is refused as already pending.\<close>

definition leak_run :: sproac where
  "leak_run = sp_run (answers [KBlock, KFail 1])
     [MSocket 3, MCall (COneshot Recv 0 1), MGo, MCall (COneshot Recv 0 2), MGo]"

theorem selector_register_error_leaks:
  "\<exists>K st. sp_reach K False st \<and> quiescent st \<and> sp_log st = [EvRaise (OSErr 1), EvRaise RuntimeErr]
     \<and> slot_taken 3 True st \<and> sp_reg st 3 = None"
proof -
  have "quiescent leak_run \<and> sp_log leak_run = [EvRaise (OSErr 1), EvRaise RuntimeErr] \<and> slot_taken 3 True leak_run \<and> sp_reg leak_run 3 = None"
    by (simp add: leak_run_def sp_eval)
  thus ?thesis unfolding leak_run_def using sp_run_reach by blast
qed

text \<open>The completion of a send runs after the queue behind it has been started.  A callback of a later operation
  that cancels the earlier one is told that it was cancelled although all its bytes are gone and the kernel
  has reported them.\<close>

definition cancel_run :: sproac where
  "cancel_run = sp_run (answers [KBlock, KRet VNone, KRet (VInt 1), KRet (VInt 1)])
     [MSocket 3, MCall (CSendAll 0 [10] 7), MGo, MCall (CSendAll 0 [20] 8), MGo,
      MCall CWait, MSelect [(3, False, True)], MGo, MGo, MCall (CCancelNw 0)]"

theorem selector_cancel_after_send:
  "\<exists>K st. sp_reach K False st \<and> \<not> sp_regfail st \<and> \<not> sp_cbraise st
     \<and> sp_log st = [EvSend 0 0 [10], EvSend 1 0 [20], EvFin 1 (Inr (VInt 1)), EvCall 8 (Inr (VInt 1)),
         EvFin 0 (Inl io_cancellation_error), EvCall 7 (Inl io_cancellation_error)]
     \<and> op_off (sp_h st 0) = length (op_view (sp_h st 0))"
proof -
  have "\<not> sp_regfail cancel_run \<and> \<not> sp_cbraise cancel_run
     \<and> sp_log cancel_run = [EvSend 0 0 [10], EvSend 1 0 [20], EvFin 1 (Inr (VInt 1)), EvCall 8 (Inr (VInt 1)),
         EvFin 0 (Inl io_cancellation_error), EvCall 7 (Inl io_cancellation_error)]
     \<and> op_off (sp_h cancel_run 0) = length (op_view (sp_h cancel_run 0))"
    by (simp add: cancel_run_def sp_eval)
  thus ?thesis unfolding cancel_run_def using sp_run_reach by blast
qed

end
