(* ===== verification/Runnable_Queue.thy ===== *)
theory Runnable_Queue
  imports Tealet_Prelude "HOL-Library.Product_Lexorder"
begin

text \<open>
  The runnable queues of \<open>tealetio/scheduler.py\<close>: the shared policy of \<open>RunnableQueueBase\<close>
  (index normalisation and \<open>yield_to\<close>, written over the methods a subclass supplies), the
  default \<open>FifoRunnableQueue\<close> and the \<open>PriorityRunnableQueue\<close> with its immediate lane.  The
  locale \<open>runnable_queue\<close> is the \<open>RunnableQueue\<close> protocol the scheduler relies on; both
  classes are interpretations of it, and what \<open>yield_to\<close> guarantees is proved once inside it.
\<close>

section \<open>RunnableQueueBase\<close>

definition normalise_insert_position :: "int \<Rightarrow> int \<Rightarrow> int" where
  "normalise_insert_position position n =
     (if position < 0 then max (n + position + 1) 0 else position)"

text \<open>\<open>yield_to\<close> calls the methods of \<open>self\<close>: \<open>reschedule\<close>, \<open>__contains__\<close>, \<open>discard\<close>, \<open>add\<close>
  and \<open>_indexed_len\<close>.\<close>

definition rq_yield_to ::
  "('q \<Rightarrow> 'a \<Rightarrow> int option \<Rightarrow> 'q \<times> (pyexn + unit)) \<Rightarrow> ('q \<Rightarrow> 'a \<Rightarrow> bool) \<Rightarrow> ('q \<Rightarrow> 'a \<Rightarrow> 'q \<times> bool)
   \<Rightarrow> ('q \<Rightarrow> 'a \<Rightarrow> int option \<Rightarrow> 'q \<times> bool) \<Rightarrow> ('q \<Rightarrow> nat)
   \<Rightarrow> 'q \<Rightarrow> 'a \<Rightarrow> 'a \<Rightarrow> int option \<Rightarrow> 'q \<times> (pyexn + unit)" where
  "rq_yield_to reschedule contains discard add indexed_len q target current insert_current_at =
     (case reschedule q target (Some 0) of
        (q1, Inl e) \<Rightarrow> (q1, Inl e)
      | (q1, Inr _) \<Rightarrow>
          let q2 = (if contains q1 current then fst (discard q1 current) else q1) in
          (case insert_current_at of
             None \<Rightarrow> (fst (add q2 current None), Inr ())
           | Some p \<Rightarrow>
               let after_len = max (int (indexed_len q2) - 1) 0;
                   index = normalise_insert_position p after_len + 1
               in (fst (add q2 current (Some index)), Inr ())))"

section \<open>FifoRunnableQueue\<close>

record 'a fifo =
  fq_items :: "'a list"
  fq_set :: "'a set"

definition fifo_init :: "'a fifo" where
  "fifo_init = \<lparr>fq_items = [], fq_set = {}\<rparr>"

definition fifo_bool :: "'a fifo \<Rightarrow> bool" where
  "fifo_bool q = (fq_items q \<noteq> [])"

definition fifo_len :: "'a fifo \<Rightarrow> nat" where
  "fifo_len q = length (fq_items q)"

definition fifo_contains :: "'a fifo \<Rightarrow> 'a \<Rightarrow> bool" where
  "fifo_contains q task = (task \<in> fq_set q)"

definition fifo_add :: "'a fifo \<Rightarrow> 'a \<Rightarrow> int option \<Rightarrow> 'a fifo \<times> bool" where
  "fifo_add q task position =
     (if task \<in> fq_set q then (q, False)
      else (let items = (case position of
                None \<Rightarrow> fq_items q @ [task]
              | Some p \<Rightarrow> py_insert (normalise_insert_position p (int (length (fq_items q)))) task (fq_items q))
            in (q\<lparr>fq_items := items, fq_set := insert task (fq_set q)\<rparr>, True)))"

definition fifo_discard :: "'a fifo \<Rightarrow> 'a \<Rightarrow> 'a fifo \<times> bool" where
  "fifo_discard q task =
     (if task \<notin> fq_set q then (q, False)
      else (q\<lparr>fq_set := fq_set q - {task}, fq_items := remove1 task (fq_items q)\<rparr>, True))"

definition fifo_pop_next :: "'a fifo \<Rightarrow> 'a fifo \<times> (pyexn + 'a)" where
  "fifo_pop_next q =
     (case fq_items q of
        [] \<Rightarrow> (q, Inl IndexErr)
      | task # rest \<Rightarrow> (q\<lparr>fq_items := rest, fq_set := fq_set q - {task}\<rparr>, Inr task))"

definition fifo_tasks :: "'a fifo \<Rightarrow> 'a list" where
  "fifo_tasks q = fq_items q"

definition fifo_reschedule :: "'a fifo \<Rightarrow> 'a \<Rightarrow> int option \<Rightarrow> 'a fifo \<times> (pyexn + unit)" where
  "fifo_reschedule q task position =
     (if task \<notin> fq_set q \<or> task \<notin> set (fq_items q) then (q, Inl ValueErr)
      else (let rest = remove1 task (fq_items q);
                items = (case position of
                    None \<Rightarrow> rest @ [task]
                  | Some p \<Rightarrow> py_insert (normalise_insert_position p (int (length rest))) task rest)
            in (q\<lparr>fq_items := items\<rparr>, Inr ())))"

definition fifo_yield_to :: "'a fifo \<Rightarrow> 'a \<Rightarrow> 'a \<Rightarrow> int option \<Rightarrow> 'a fifo \<times> (pyexn + unit)" where
  "fifo_yield_to = rq_yield_to fifo_reschedule fifo_contains fifo_discard fifo_add fifo_len"

definition fifo_invar :: "'a fifo \<Rightarrow> bool" where
  "fifo_invar q = (distinct (fq_items q) \<and> fq_set q = set (fq_items q))"

section \<open>PriorityRunnableQueue\<close>

text \<open>An entry of the heap is \<open>(priority, sequence, task)\<close>; sequence numbers are fresh, so
  tuple comparison never reaches the task.  \<open>prio\<close> is \<open>_active_priority\<close>, the task's
  \<open>get_effective_priority()\<close> at the time of the call.\<close>

type_synonym ('p, 'a) prio_entry = "'p \<times> nat \<times> 'a"

record ('p, 'a) prioq =
  pq_set :: "'a set"
  pq_prescheduled :: "'a list"
  pq_prescheduled_set :: "'a set"
  pq_items :: "('p, 'a) prio_entry list"
  pq_sequence :: nat

definition entry_key :: "('p, 'a) prio_entry \<Rightarrow> 'p \<times> nat" where
  "entry_key e = (fst e, fst (snd e))"

definition entry_seq :: "('p, 'a) prio_entry \<Rightarrow> nat" where
  "entry_seq e = fst (snd e)"

definition entry_task :: "('p, 'a) prio_entry \<Rightarrow> 'a" where
  "entry_task e = snd (snd e)"

definition prioq_init :: "('p, 'a) prioq" where
  "prioq_init = \<lparr>pq_set = {}, pq_prescheduled = [], pq_prescheduled_set = {}, pq_items = [], pq_sequence = 0\<rparr>"

definition prioq_bool :: "('p, 'a) prioq \<Rightarrow> bool" where
  "prioq_bool q = (pq_prescheduled q \<noteq> [] \<or> pq_items q \<noteq> [])"

definition prioq_len :: "('p, 'a) prioq \<Rightarrow> nat" where
  "prioq_len q = length (pq_prescheduled q) + length (pq_items q)"

definition prioq_contains :: "('p, 'a) prioq \<Rightarrow> 'a \<Rightarrow> bool" where
  "prioq_contains q task = (task \<in> pq_prescheduled_set q \<or> task \<in> pq_set q)"

definition prioq_indexed_len :: "('p, 'a) prioq \<Rightarrow> nat" where
  "prioq_indexed_len q = length (pq_prescheduled q)"

definition prioq_insert_prescheduled :: "('p, 'a) prioq \<Rightarrow> 'a \<Rightarrow> int \<Rightarrow> ('p, 'a) prioq" where
  "prioq_insert_prescheduled q task position =
     q\<lparr>pq_prescheduled := py_insert position task (pq_prescheduled q),
       pq_prescheduled_set := insert task (pq_prescheduled_set q)\<rparr>"

definition prioq_insert_normal :: "('a \<Rightarrow> 'p::linorder) \<Rightarrow> ('p, 'a) prioq \<Rightarrow> 'a \<Rightarrow> ('p, 'a) prioq" where
  "prioq_insert_normal prio q task =
     q\<lparr>pq_items := heappush entry_key (pq_items q) (prio task, pq_sequence q, task),
       pq_sequence := Suc (pq_sequence q),
       pq_set := insert task (pq_set q)\<rparr>"

text \<open>\<open>_remove_normal\<close> scans the heap for the entry of the task, deletes it and re-heapifies;
  the set member is gone even when the scan finds nothing and \<open>ValueError\<close> is raised.\<close>

fun del_entry :: "'a \<Rightarrow> ('p, 'a) prio_entry list \<Rightarrow> ('p, 'a) prio_entry list option" where
  "del_entry task [] = None"
| "del_entry task (e # es) =
     (if entry_task e = task then Some es else map_option ((#) e) (del_entry task es))"

definition prioq_remove_normal :: "('p, 'a) prioq \<Rightarrow> 'a \<Rightarrow> ('p, 'a) prioq \<times> (pyexn + unit)" where
  "prioq_remove_normal q task =
     (if task \<notin> pq_set q then (q, Inl KeyErr)
      else (case del_entry task (pq_items q) of
              None \<Rightarrow> (q\<lparr>pq_set := pq_set q - {task}\<rparr>, Inl ValueErr)
            | Some items \<Rightarrow> (q\<lparr>pq_set := pq_set q - {task}, pq_items := items\<rparr>, Inr ())))"

definition prioq_remove_without_unlink :: "('p, 'a) prioq \<Rightarrow> 'a \<Rightarrow> ('p, 'a) prioq \<times> (pyexn + unit)" where
  "prioq_remove_without_unlink q task =
     (if task \<in> pq_prescheduled_set q then
        (let q1 = q\<lparr>pq_prescheduled_set := pq_prescheduled_set q - {task}\<rparr> in
         if task \<notin> set (pq_prescheduled q) then (q1, Inl ValueErr)
         else (q1\<lparr>pq_prescheduled := remove1 task (pq_prescheduled q)\<rparr>, Inr ()))
      else if task \<in> pq_set q then prioq_remove_normal q task
      else (q, Inl ValueErr))"

definition prioq_add :: "('a \<Rightarrow> 'p::linorder) \<Rightarrow> ('p, 'a) prioq \<Rightarrow> 'a \<Rightarrow> int option \<Rightarrow> ('p, 'a) prioq \<times> bool" where
  "prioq_add prio q task position =
     (if task \<in> pq_set q \<or> task \<in> pq_prescheduled_set q then (q, False)
      else (case position of
              None \<Rightarrow> (prioq_insert_normal prio q task, True)
            | Some p \<Rightarrow> (prioq_insert_prescheduled q task
                 (normalise_insert_position p (int (length (pq_prescheduled q)))), True)))"

definition prioq_discard :: "('p, 'a) prioq \<Rightarrow> 'a \<Rightarrow> ('p, 'a) prioq \<times> bool" where
  "prioq_discard q task =
     (if task \<in> pq_prescheduled_set q then
        (q\<lparr>pq_prescheduled_set := pq_prescheduled_set q - {task},
           pq_prescheduled := remove1 task (pq_prescheduled q)\<rparr>, True)
      else if task \<notin> pq_set q then (q, False)
      else (fst (prioq_remove_normal q task), True))"

definition prioq_pop_next :: "('p, 'a) prioq \<Rightarrow> ('p, 'a) prioq \<times> (pyexn + 'a)" where
  "prioq_pop_next q =
     (case pq_prescheduled q of
        task # rest \<Rightarrow>
          (q\<lparr>pq_prescheduled := rest, pq_prescheduled_set := pq_prescheduled_set q - {task}\<rparr>, Inr task)
      | [] \<Rightarrow>
          (case heappop (pq_items q) of
             (Inl e, _) \<Rightarrow> (q, Inl e)
           | (Inr entry, items) \<Rightarrow>
               (q\<lparr>pq_items := items, pq_set := pq_set q - {entry_task entry}\<rparr>, Inr (entry_task entry))))"

definition prioq_tasks :: "('p::linorder, 'a) prioq \<Rightarrow> 'a list" where
  "prioq_tasks q = pq_prescheduled q @ map entry_task (sort_key entry_key (pq_items q))"

definition prioq_reschedule ::
  "('a \<Rightarrow> 'p::linorder) \<Rightarrow> ('p, 'a) prioq \<Rightarrow> 'a \<Rightarrow> int option \<Rightarrow> ('p, 'a) prioq \<times> (pyexn + unit)" where
  "prioq_reschedule prio q task position =
     (case prioq_remove_without_unlink q task of
        (q1, Inl e) \<Rightarrow> (q1, Inl e)
      | (q1, Inr _) \<Rightarrow>
          (case position of
             None \<Rightarrow> (prioq_insert_normal prio q1 task, Inr ())
           | Some p \<Rightarrow> (prioq_insert_prescheduled q1 task
                (normalise_insert_position p (int (length (pq_prescheduled q1)))), Inr ())))"

definition prioq_on_modified ::
  "('a \<Rightarrow> 'p::linorder) \<Rightarrow> ('p, 'a) prioq \<Rightarrow> 'a \<Rightarrow> ('p, 'a) prioq \<times> (pyexn + unit)" where
  "prioq_on_modified prio q task =
     (if task \<in> pq_prescheduled_set q then (q, Inr ())
      else if task \<notin> pq_set q then (q, Inr ())
      else (case prioq_remove_normal q task of
              (q1, Inl e) \<Rightarrow> (q1, Inl e)
            | (q1, Inr _) \<Rightarrow> (prioq_insert_normal prio q1 task, Inr ())))"

definition prioq_yield_to ::
  "('a \<Rightarrow> 'p::linorder) \<Rightarrow> ('p, 'a) prioq \<Rightarrow> 'a \<Rightarrow> 'a \<Rightarrow> int option \<Rightarrow> ('p, 'a) prioq \<times> (pyexn + unit)" where
  "prioq_yield_to prio =
     rq_yield_to (prioq_reschedule prio) prioq_contains prioq_discard (prioq_add prio) prioq_indexed_len"

definition prioq_invar :: "('p::linorder, 'a) prioq \<Rightarrow> bool" where
  "prioq_invar q =
     (distinct (pq_prescheduled q @ map entry_task (pq_items q))
      \<and> pq_prescheduled_set q = set (pq_prescheduled q)
      \<and> pq_set q = entry_task ` set (pq_items q)
      \<and> is_heap entry_key (pq_items q)
      \<and> distinct (map entry_seq (pq_items q))
      \<and> (\<forall>e \<in> set (pq_items q). entry_seq e < pq_sequence q))"

section \<open>The RunnableQueue protocol\<close>

text \<open>\<open>order q\<close> is the sequence in which \<open>pop_next\<close> hands the tasks out when nothing else
  changes the queue.  \<open>add\<close>, \<open>discard\<close> and \<open>reschedule\<close> never disturb the relative order of the
  tasks they are not about, and position 0 means next.\<close>

locale runnable_queue =
  fixes invar :: "'q \<Rightarrow> bool"
    and order :: "'q \<Rightarrow> 'a list"
    and contains :: "'q \<Rightarrow> 'a \<Rightarrow> bool"
    and add :: "'q \<Rightarrow> 'a \<Rightarrow> int option \<Rightarrow> 'q \<times> bool"
    and discard :: "'q \<Rightarrow> 'a \<Rightarrow> 'q \<times> bool"
    and pop_next :: "'q \<Rightarrow> 'q \<times> (pyexn + 'a)"
    and reschedule :: "'q \<Rightarrow> 'a \<Rightarrow> int option \<Rightarrow> 'q \<times> (pyexn + unit)"
    and indexed_len :: "'q \<Rightarrow> nat"
  assumes distinct_order: "invar q \<Longrightarrow> distinct (order q)"
    and contains_iff: "invar q \<Longrightarrow> contains q t \<longleftrightarrow> t \<in> set (order q)"
    and pop_Cons: "invar q \<Longrightarrow> order q = t # ts \<Longrightarrow>
      \<exists>q'. pop_next q = (q', Inr t) \<and> invar q' \<and> order q' = ts"
    and pop_Nil: "invar q \<Longrightarrow> order q = [] \<Longrightarrow> pop_next q = (q, Inl IndexErr)"
    and add_new: "invar q \<Longrightarrow> t \<notin> set (order q) \<Longrightarrow>
      \<exists>q'. add q t p = (q', True) \<and> invar q' \<and> set (order q') = insert t (set (order q))
        \<and> [x \<leftarrow> order q'. x \<noteq> t] = order q"
    and add_keeps_head: "invar q \<Longrightarrow> t \<notin> set (order q) \<Longrightarrow> indexed_len q \<noteq> 0 \<Longrightarrow>
      (case p of None \<Rightarrow> True | Some i \<Rightarrow> 0 < i) \<Longrightarrow> hd (order (fst (add q t p))) = hd (order q)"
    and add_old: "invar q \<Longrightarrow> t \<in> set (order q) \<Longrightarrow> add q t p = (q, False)"
    and discard_order: "invar q \<Longrightarrow>
      \<exists>q'. discard q t = (q', t \<in> set (order q)) \<and> invar q' \<and> order q' = remove1 t (order q)"
    and discard_indexed: "invar q \<Longrightarrow> indexed_len q \<noteq> 0 \<Longrightarrow> t \<noteq> hd (order q) \<Longrightarrow>
      indexed_len (fst (discard q t)) \<noteq> 0"
    and reschedule_in: "invar q \<Longrightarrow> t \<in> set (order q) \<Longrightarrow>
      \<exists>q'. reschedule q t p = (q', Inr ()) \<and> invar q' \<and> set (order q') = set (order q)
        \<and> [x \<leftarrow> order q'. x \<noteq> t] = [x \<leftarrow> order q. x \<noteq> t]"
    and reschedule_front: "invar q \<Longrightarrow> t \<in> set (order q) \<Longrightarrow>
      order (fst (reschedule q t (Some 0))) = t # remove1 t (order q)
        \<and> indexed_len (fst (reschedule q t (Some 0))) \<noteq> 0"
    and reschedule_out: "invar q \<Longrightarrow> t \<notin> set (order q) \<Longrightarrow> reschedule q t p = (q, Inl ValueErr)"
begin

abbreviation "yield_to \<equiv> rq_yield_to reschedule contains discard add indexed_len"

lemma yield_to_correct:
  assumes inv: "invar q" and target: "target \<in> set (order q)" and neq: "current \<noteq> target"
  obtains q' where "yield_to q target current pos = (q', Inr ())" and "invar q'"
    and "hd (order q') = target" and "set (order q') = insert current (set (order q))"
    and "[x \<leftarrow> order q'. x \<noteq> current \<and> x \<noteq> target] = [x \<leftarrow> order q. x \<noteq> current \<and> x \<noteq> target]"
proof -
  obtain q1 where q1: "reschedule q target (Some 0) = (q1, Inr ())" "invar q1"
    and o1: "order q1 = target # remove1 target (order q)" "indexed_len q1 \<noteq> 0"
    using reschedule_in [OF inv target, of "Some 0"] reschedule_front [OF inv target] by fastforce
  define q2 where "q2 = (if contains q1 current then fst (discard q1 current) else q1)"
  have d1: "distinct (order q1)" by (rule distinct_order [OF q1(2)])
  have q2: "invar q2" "order q2 = target # remove1 current (remove1 target (order q))"
    "indexed_len q2 \<noteq> 0" "current \<notin> set (order q2)"
  proof -
    obtain qd where qd: "discard q1 current = (qd, current \<in> set (order q1))" "invar qd"
      "order qd = remove1 current (order q1)"
      using discard_order [OF q1(2)] by blast
    have ni: "indexed_len (fst (discard q1 current)) \<noteq> 0"
      by (rule discard_indexed [OF q1(2)]) (use o1 neq in auto)
    have r: "remove1 current (order q1) = target # remove1 current (remove1 target (order q))"
      using neq by (simp add: o1)
    show "invar q2" using qd q1(2) by (simp add: q2_def)
    have nc: "\<not> contains q1 current \<Longrightarrow> remove1 current (order q1) = order q1"
      using contains_iff [OF q1(2)] by (simp add: remove1_idem)
    show o2: "order q2 = target # remove1 current (remove1 target (order q))"
      using qd r nc by (auto simp: q2_def)
    show "indexed_len q2 \<noteq> 0" using ni o1(2) by (simp add: q2_def)
    show "current \<notin> set (order q2)" using d1 neq by (simp add: o2 o1)
  qed
  define p where "p = (case pos of None \<Rightarrow> None
    | Some i \<Rightarrow> Some (normalise_insert_position i (max (int (indexed_len q2) - 1) 0) + 1))"
  have ppos: "case p of None \<Rightarrow> True | Some i \<Rightarrow> 0 < i"
    by (auto simp: p_def normalise_insert_position_def split: option.splits)
  obtain q' where q': "add q2 current p = (q', True)" "invar q'"
    "set (order q') = insert current (set (order q2))" "[x \<leftarrow> order q'. x \<noteq> current] = order q2"
    using add_new [OF q2(1,4)] by blast
  have y: "yield_to q target current pos = (q', Inr ())"
    using q1(1) q'(1) by (auto simp: rq_yield_to_def q2_def p_def Let_def split: option.splits)
  have h: "hd (order q') = target"
    using add_keeps_head [OF q2(1,4,3) ppos] q'(1) q2(2) by simp
  have dq: "distinct (order q)" by (rule distinct_order [OF inv])
  have "set (order q2) = insert target (set (order q) - {target} - {current})"
    using dq by (simp add: q2(2))
  then have s: "set (order q') = insert current (set (order q))"
    using q'(3) target by auto
  have "[x \<leftarrow> order q'. x \<noteq> current \<and> x \<noteq> target] = [x \<leftarrow> [x \<leftarrow> order q'. x \<noteq> current]. x \<noteq> target]"
    by (simp add: conj_commute)
  also have "\<dots> = [x \<leftarrow> remove1 current (remove1 target (order q)). x \<noteq> target]"
    by (simp add: q'(4) q2(2))
  also have "\<dots> = [x \<leftarrow> order q. x \<noteq> current \<and> x \<noteq> target]"
    using dq by (simp flip: filter_neq_remove1 add: conj_ac)
  finally show thesis by (rule that [OF y q'(2) h s])
qed

text \<open>Popping until the queue is empty returns exactly its order.\<close>

lemma pop_order:
  "invar q \<Longrightarrow> order q \<noteq> [] \<Longrightarrow> snd (pop_next q) = Inr (hd (order q))
     \<and> invar (fst (pop_next q)) \<and> order (fst (pop_next q)) = tl (order q)"
  using pop_Cons by (cases "order q") fastforce+

end

section \<open>FifoRunnableQueue implements the protocol\<close>

lemmas fifo_defs = fifo_init_def fifo_bool_def fifo_len_def fifo_contains_def fifo_add_def
  fifo_discard_def fifo_pop_next_def fifo_tasks_def fifo_reschedule_def fifo_invar_def

lemma hd_py_insert: "xs \<noteq> [] \<Longrightarrow> 0 < i \<Longrightarrow> hd (py_insert i x xs) = hd xs"
  by (cases xs) (auto simp: py_insert_def py_index_def hd_append take_Cons split: nat.splits)

lemma normalise_pos [simp]: "0 \<le> i \<Longrightarrow> normalise_insert_position i n = i"
  by (simp add: normalise_insert_position_def)

interpretation fifoq: runnable_queue fifo_invar fifo_tasks fifo_contains fifo_add fifo_discard
  fifo_pop_next fifo_reschedule fifo_len
proof (unfold_locales, goal_cases)
  case (6 q t p)
  then show ?case
    by (cases p) (auto simp: fifo_defs hd_py_insert)
next
  case (9 q t)
  then show ?case
    by (cases "fq_items q") (auto simp: fifo_defs)
next
  case (10 q t p)
  then have "t \<notin> set (remove1 t (fq_items q))" "[x \<leftarrow> fq_items q. x \<noteq> t] = remove1 t (fq_items q)"
    by (auto simp: fifo_defs filter_neq_remove1)
  then show ?case
    using 10 by (cases p) (auto simp: fifo_defs Let_def)
qed (auto simp: fifo_defs remove1_idem filter_id_conv split: option.splits)

section \<open>PriorityRunnableQueue implements the protocol\<close>

lemmas prioq_defs = prioq_contains_def prioq_add_def prioq_discard_def prioq_pop_next_def
  prioq_reschedule_def prioq_insert_normal_def prioq_insert_prescheduled_def
  prioq_remove_normal_def prioq_remove_without_unlink_def prioq_indexed_len_def

lemma entry_simps [simp]: "entry_task (p, n, t) = t" "entry_seq (p, n, t) = n"
  by (simp_all add: entry_task_def entry_seq_def)

lemma heap_sort_id: "is_heap key h \<Longrightarrow> sort_key key h = h"
  by (simp add: is_heap_def sort_key_id_if_sorted)

lemma prioq_tasks_invar:
  "prioq_invar q \<Longrightarrow> prioq_tasks q = pq_prescheduled q @ map entry_task (pq_items q)"
  by (simp add: prioq_tasks_def prioq_invar_def heap_sort_id)

lemma del_entry_None: "del_entry t es = None \<longleftrightarrow> t \<notin> entry_task ` set es"
  by (induction es) auto

lemma del_entry_Some:
  "del_entry t es = Some es' \<Longrightarrow>
     map entry_task es' = remove1 t (map entry_task es) \<and> (\<exists>e. mset es = add_mset e (mset es') \<and> entry_task e = t)
     \<and> (is_heap entry_key es \<longrightarrow> is_heap entry_key es') \<and> set es' \<subseteq> set es
     \<and> (distinct (map entry_seq es) \<longrightarrow> distinct (map entry_seq es'))"
proof (induction es arbitrary: es')
  case (Cons e es)
  show ?case
  proof (cases "entry_task e = t")
    case True
    then show ?thesis using Cons.prems by (auto simp: is_heap_def)
  next
    case False
    then obtain d where d: "del_entry t es = Some d" "es' = e # d" using Cons.prems by auto
    note ih = Cons.IH [OF d(1)]
    have "is_heap entry_key (e # es) \<longrightarrow> is_heap entry_key (e # d)"
      using ih by (auto simp: is_heap_def)
    moreover have "distinct (map entry_seq (e # es)) \<longrightarrow> distinct (map entry_seq (e # d))"
      using ih by auto
    moreover have "\<exists>x. mset (e # es) = add_mset x (mset (e # d)) \<and> entry_task x = t"
      using ih by (metis add_mset_commute mset.simps(2))
    ultimately show ?thesis using ih d(2) False by auto
  qed
qed simp

lemma map_task_heappush:
  assumes "t \<notin> entry_task ` set es"
  shows "[x \<leftarrow> map entry_task (heappush entry_key es (p, n, t)). x \<noteq> t] = map entry_task es"
  using assms
proof (induction es)
  case (Cons e es)
  then have "[x \<leftarrow> map entry_task es. x \<noteq> t] = map entry_task es"
    by (auto simp: filter_id_conv)
  with Cons show ?case
    by (auto simp: heappush_def)
qed (simp add: heappush_def)

lemma set_heappush [simp]: "set (heappush key h x) = insert x (set h)"
  by (simp add: heappush_def set_insort_key)

lemma distinct_map_heappush:
  "distinct (map f (heappush key h x)) \<longleftrightarrow> f x \<notin> f ` set h \<and> distinct (map f h)"
proof -
  have "mset (map f (heappush key h x)) = mset (f x # map f h)"
    by (simp add: heappush_def)
  then show ?thesis by (metis distinct.simps(2) list.set_map mset_eq_imp_distinct_iff)
qed

lemma prioq_invar_insert_normal:
  assumes "prioq_invar q" and "t \<notin> pq_prescheduled_set q" and "t \<notin> pq_set q"
  shows "prioq_invar (prioq_insert_normal prio q t)"
  using assms is_heap_push [of entry_key "pq_items q" "(prio t, pq_sequence q, t)"]
  by (auto simp: prioq_invar_def prioq_insert_normal_def distinct_map_heappush)

lemma prioq_invar_insert_prescheduled:
  "prioq_invar q \<Longrightarrow> t \<notin> pq_prescheduled_set q \<Longrightarrow> t \<notin> pq_set q \<Longrightarrow>
     prioq_invar (prioq_insert_prescheduled q t i)"
  by (auto simp: prioq_invar_def prioq_insert_prescheduled_def)

lemma prioq_remove_normal_ok:
  assumes inv: "prioq_invar q" and t: "t \<in> pq_set q"
  obtains q' where "prioq_remove_normal q t = (q', Inr ())" and "prioq_invar q'"
    and "map entry_task (pq_items q') = remove1 t (map entry_task (pq_items q))"
    and "pq_prescheduled q' = pq_prescheduled q" and "t \<notin> pq_prescheduled_set q'" and "t \<notin> pq_set q'"
    and "pq_sequence q' = pq_sequence q"
proof -
  obtain es where es: "del_entry t (pq_items q) = Some es"
    using inv t del_entry_None [of t "pq_items q"] by (auto simp: prioq_invar_def)
  note d = del_entry_Some [OF es]
  let ?q = "q\<lparr>pq_set := pq_set q - {t}, pq_items := es\<rparr>"
  have dist: "distinct (map entry_task (pq_items q))" using inv by (simp add: prioq_invar_def)
  have "entry_task ` set es = set (map entry_task es)" by simp
  also have "\<dots> = set (remove1 t (map entry_task (pq_items q)))" using d by simp
  also have "\<dots> = entry_task ` set (pq_items q) - {t}" using dist by simp
  finally have img: "entry_task ` set es = entry_task ` set (pq_items q) - {t}" .
  have tn: "t \<notin> set (pq_prescheduled q)" using inv t by (auto simp: prioq_invar_def)
  have "distinct (map entry_task es)" using d dist by (simp add: distinct_remove1)
  then have "prioq_invar ?q"
    using inv d img by (auto simp: prioq_invar_def)
  moreover have "prioq_remove_normal q t = (?q, Inr ())"
    using t es by (simp add: prioq_remove_normal_def)
  ultimately show thesis
    using that [of ?q] d tn inv by (auto simp: prioq_invar_def)
qed

lemma prioq_not_in: "prioq_invar q \<Longrightarrow> t \<notin> set (prioq_tasks q) \<longleftrightarrow> t \<notin> pq_set q \<and> t \<notin> pq_prescheduled_set q"
  by (auto simp: prioq_tasks_invar prioq_invar_def)

lemma prioq_add_tasks:
  assumes inv: "prioq_invar q" and t: "t \<notin> set (prioq_tasks q)"
  shows "prioq_invar (fst (prioq_add prio q t p)) \<and> snd (prioq_add prio q t p)
    \<and> set (prioq_tasks (fst (prioq_add prio q t p))) = insert t (set (prioq_tasks q))
    \<and> [x \<leftarrow> prioq_tasks (fst (prioq_add prio q t p)). x \<noteq> t] = prioq_tasks q"
proof -
  have nt: "t \<notin> pq_set q" "t \<notin> pq_prescheduled_set q" using prioq_not_in [OF inv] t by auto
  have ids: "[x \<leftarrow> pq_prescheduled q. x \<noteq> t] = pq_prescheduled q"
    "[x \<leftarrow> map entry_task (pq_items q). x \<noteq> t] = map entry_task (pq_items q)"
    "t \<notin> set (pq_prescheduled q)" "t \<notin> entry_task ` set (pq_items q)"
    using nt inv by (auto simp: prioq_invar_def filter_id_conv)
  show ?thesis
  proof (cases p)
    case None
    have i: "prioq_invar (prioq_insert_normal prio q t)"
      by (rule prioq_invar_insert_normal [OF inv nt(2,1)])
    have "prioq_add prio q t p = (prioq_insert_normal prio q t, True)"
      using nt None by (simp add: prioq_add_def)
    with i show ?thesis
      using ids map_task_heappush [OF ids(4)]
      by (simp add: prioq_tasks_invar [OF i] prioq_tasks_invar [OF inv]) (auto simp: prioq_insert_normal_def)
  next
    case (Some j)
    let ?i = "normalise_insert_position j (int (length (pq_prescheduled q)))"
    have i: "prioq_invar (prioq_insert_prescheduled q t ?i)"
      by (rule prioq_invar_insert_prescheduled [OF inv nt(2,1)])
    have "prioq_add prio q t p = (prioq_insert_prescheduled q t ?i, True)"
      using nt Some by (simp add: prioq_add_def)
    with i show ?thesis
      using ids by (simp add: prioq_tasks_invar [OF i] prioq_tasks_invar [OF inv])
        (simp add: prioq_insert_prescheduled_def)
  qed
qed

lemma prioq_remove_ok:
  assumes inv: "prioq_invar q" and t: "t \<in> set (prioq_tasks q)"
  obtains q' where "prioq_remove_without_unlink q t = (q', Inr ())" and "prioq_invar q'"
    and "prioq_tasks q' = remove1 t (prioq_tasks q)" and "t \<notin> pq_prescheduled_set q'" and "t \<notin> pq_set q'"
proof (cases "t \<in> pq_prescheduled_set q")
  case True
  let ?q = "q\<lparr>pq_prescheduled_set := pq_prescheduled_set q - {t}, pq_prescheduled := remove1 t (pq_prescheduled q)\<rparr>"
  have i: "prioq_invar ?q"
    using inv True by (auto simp: prioq_invar_def)
  have "prioq_remove_without_unlink q t = (?q, Inr ())"
    using inv True by (simp add: prioq_remove_without_unlink_def prioq_invar_def)
  moreover have "prioq_tasks ?q = remove1 t (prioq_tasks q)"
    using inv True by (simp add: prioq_tasks_invar [OF i] prioq_tasks_invar [OF inv])
      (simp add: remove1_append prioq_invar_def)
  moreover have "t \<notin> pq_set ?q"
    using inv True by (auto simp: prioq_invar_def)
  ultimately show thesis using that [of ?q] i by simp
next
  case False
  then have s: "t \<in> pq_set q" using prioq_not_in [OF inv] t by blast
  obtain q' where q': "prioq_remove_normal q t = (q', Inr ())" "prioq_invar q'"
    "map entry_task (pq_items q') = remove1 t (map entry_task (pq_items q))"
    "pq_prescheduled q' = pq_prescheduled q" "t \<notin> pq_prescheduled_set q'" "t \<notin> pq_set q'"
    using prioq_remove_normal_ok [OF inv s] by blast
  have "t \<notin> set (pq_prescheduled q)" using inv False by (simp add: prioq_invar_def)
  then have "prioq_tasks q' = remove1 t (prioq_tasks q)"
    by (simp add: prioq_tasks_invar [OF q'(2)] prioq_tasks_invar [OF inv] q'(3,4) remove1_append)
  with q' s False show thesis using that [of q'] by (simp add: prioq_remove_without_unlink_def)
qed

lemma prioq_discard_eq:
  "prioq_invar q \<Longrightarrow> prioq_discard q t =
     (if t \<in> set (prioq_tasks q) then (fst (prioq_remove_without_unlink q t), True) else (q, False))"
  using prioq_not_in [of q t]
  by (auto simp: prioq_discard_def prioq_remove_without_unlink_def prioq_invar_def)

lemma prioq_reschedule_eq:
  assumes "prioq_invar q" and "t \<in> set (prioq_tasks q)"
  shows "prioq_reschedule prio q t p =
    (fst (prioq_add prio (fst (prioq_remove_without_unlink q t)) t p), Inr ())"
proof -
  obtain q' where "prioq_remove_without_unlink q t = (q', Inr ())" "t \<notin> pq_prescheduled_set q'" "t \<notin> pq_set q'"
    using prioq_remove_ok [OF assms] by blast
  then show ?thesis by (simp add: prioq_reschedule_def prioq_add_def split: option.split)
qed

lemma prioq_add_front:
  assumes inv: "prioq_invar q" and t: "t \<notin> set (prioq_tasks q)"
  shows "prioq_tasks (fst (prioq_add prio q t (Some 0))) = t # prioq_tasks q"
    and "prioq_indexed_len (fst (prioq_add prio q t (Some 0))) \<noteq> 0"
proof -
  have e: "prioq_add prio q t (Some 0) = (prioq_insert_prescheduled q t 0, True)"
    using prioq_not_in [OF inv] t by (simp add: prioq_add_def)
  have i: "prioq_invar (prioq_insert_prescheduled q t 0)"
    using prioq_add_tasks [OF assms, of prio "Some 0"] e by simp
  show "prioq_tasks (fst (prioq_add prio q t (Some 0))) = t # prioq_tasks q"
    by (simp add: e prioq_tasks_invar [OF i] prioq_tasks_invar [OF inv])
      (simp add: prioq_insert_prescheduled_def)
  show "prioq_indexed_len (fst (prioq_add prio q t (Some 0))) \<noteq> 0"
    by (simp add: e prioq_indexed_len_def prioq_insert_prescheduled_def)
qed

lemma prioq_pop_tasks:
  assumes inv: "prioq_invar q" and o: "prioq_tasks q = t # ts"
  obtains q' where "prioq_pop_next q = (q', Inr t)" and "prioq_invar q'" and "prioq_tasks q' = ts"
proof (cases "pq_prescheduled q")
  case Nil
  then obtain e es where es: "pq_items q = e # es" "entry_task e = t" "map entry_task es = ts"
    using o by (auto simp: prioq_tasks_invar [OF inv])
  let ?q = "q\<lparr>pq_items := es, pq_set := pq_set q - {t}\<rparr>"
  have i: "prioq_invar ?q"
    using inv es Nil by (force simp: prioq_invar_def is_heap_def image_iff)
  show thesis
    using that [of ?q] i es Nil
    by (simp add: prioq_tasks_invar [OF i]) (simp add: prioq_pop_next_def heappop_def popleft_def)
next
  case (Cons x xs)
  let ?q = "q\<lparr>pq_prescheduled := xs, pq_prescheduled_set := pq_prescheduled_set q - {t}\<rparr>"
  have x: "x = t" "xs @ map entry_task (pq_items q) = ts"
    using o Cons by (auto simp: prioq_tasks_invar [OF inv])
  have i: "prioq_invar ?q"
    using inv x Cons by (auto simp: prioq_invar_def)
  show thesis
    using that [of ?q] i x Cons by (simp add: prioq_tasks_invar [OF i]) (simp add: prioq_pop_next_def)
qed

lemma prioq_indexed_remove:
  assumes "prioq_invar q" and "prioq_indexed_len q \<noteq> 0" and "t \<noteq> hd (prioq_tasks q)"
  shows "prioq_indexed_len (fst (prioq_discard q t)) \<noteq> 0"
proof -
  obtain x xs where x: "pq_prescheduled q = x # xs"
    using assms(2) by (cases "pq_prescheduled q") (auto simp: prioq_indexed_len_def)
  with assms have "t \<noteq> x" by (simp add: prioq_tasks_invar)
  with x show ?thesis
    by (auto simp: prioq_discard_def prioq_indexed_len_def prioq_remove_normal_def split: option.splits)
qed

lemma prioq_add_head:
  assumes inv: "prioq_invar q" and t: "t \<notin> set (prioq_tasks q)" and "prioq_indexed_len q \<noteq> 0"
    and p: "case p of None \<Rightarrow> True | Some i \<Rightarrow> 0 < i"
  shows "hd (prioq_tasks (fst (prioq_add prio q t p))) = hd (prioq_tasks q)"
proof -
  have ne: "pq_prescheduled q \<noteq> []" using assms(3) by (auto simp: prioq_indexed_len_def)
  have i: "prioq_invar (fst (prioq_add prio q t p))" using prioq_add_tasks [OF inv t] by blast
  have "hd (pq_prescheduled (fst (prioq_add prio q t p))) = hd (pq_prescheduled q)"
    and "pq_prescheduled (fst (prioq_add prio q t p)) \<noteq> []"
    using prioq_not_in [OF inv] t p ne
    by (auto simp: prioq_add_def prioq_insert_normal_def prioq_insert_prescheduled_def hd_py_insert
        split: option.splits) (auto simp: py_insert_def)
  then show ?thesis using ne by (simp add: prioq_tasks_invar [OF i] prioq_tasks_invar [OF inv])
qed

interpretation pq: runnable_queue prioq_invar prioq_tasks prioq_contains "prioq_add prio" prioq_discard
  prioq_pop_next "prioq_reschedule prio" prioq_indexed_len
  for prio :: "'a \<Rightarrow> 'p::linorder"
proof (unfold_locales, goal_cases)
  case (3 q t ts)
  then show ?case using prioq_pop_tasks [OF 3] by blast
next
  case (4 q)
  then show ?case
    using prioq_tasks_invar [of q] by (simp add: prioq_pop_next_def heappop_def popleft_def)
next
  case (5 q t p)
  then show ?case
    using prioq_add_tasks [OF 5, of prio p] by (cases "prioq_add prio q t p") simp
next
  case (6 q t p)
  then show ?case by (rule prioq_add_head)
next
  case (7 q t p)
  then show ?case using prioq_not_in [of q t] by (auto simp: prioq_add_def)
next
  case (8 q t)
  show ?case
  proof (cases "t \<in> set (prioq_tasks q)")
    case True
    obtain q' where "prioq_remove_without_unlink q t = (q', Inr ())" "prioq_invar q'"
      "prioq_tasks q' = remove1 t (prioq_tasks q)"
      using prioq_remove_ok [OF 8 True] by blast
    then show ?thesis using True by (simp add: prioq_discard_eq [OF 8])
  next
    case False
    then show ?thesis using 8 by (simp add: prioq_discard_eq [OF 8] remove1_idem)
  qed
next
  case (9 q t)
  then show ?case by (rule prioq_indexed_remove)
next
  case (10 q t p)
  obtain q' where q': "prioq_remove_without_unlink q t = (q', Inr ())" "prioq_invar q'"
    "prioq_tasks q' = remove1 t (prioq_tasks q)"
    using prioq_remove_ok [OF 10] by blast
  have d: "distinct (prioq_tasks q)" using 10 by (simp add: prioq_tasks_invar prioq_invar_def)
  then have nt: "t \<notin> set (prioq_tasks q')" by (simp add: q'(3))
  note a = prioq_add_tasks [OF q'(2) nt, of prio p]
  have "set (prioq_tasks (fst (prioq_add prio q' t p))) = set (prioq_tasks q)"
    using a d 10(2) by (auto simp: q'(3))
  moreover have "[x \<leftarrow> prioq_tasks q. x \<noteq> t] = prioq_tasks q'"
    using d by (simp add: q'(3) filter_neq_remove1)
  moreover have "prioq_reschedule prio q t p = (fst (prioq_add prio q' t p), Inr ())"
    by (simp add: prioq_reschedule_eq [OF 10] q'(1))
  ultimately show ?case using a by metis
next
  case (11 q t)
  obtain q' where q': "prioq_remove_without_unlink q t = (q', Inr ())" "prioq_invar q'"
    "prioq_tasks q' = remove1 t (prioq_tasks q)" "t \<notin> pq_prescheduled_set q'" "t \<notin> pq_set q'"
    using prioq_remove_ok [OF 11] by blast
  have "t \<notin> set (prioq_tasks q')" using prioq_not_in [OF q'(2)] q'(4,5) by simp
  then show ?case
    using prioq_add_front [OF q'(2)] by (simp add: prioq_reschedule_eq [OF 11] q'(1,3))
next
  case (12 q t p)
  then show ?case
    using prioq_not_in [of q t] by (simp add: prioq_reschedule_def prioq_remove_without_unlink_def)
qed (auto simp: prioq_tasks_invar prioq_contains_def prioq_invar_def)

section \<open>Properties\<close>

text \<open>\<open>FifoRunnableQueue.yield_to\<close>.  When the target is runnable, the call succeeds, the next
  \<open>pop_next\<close> returns the target whatever position is given for the caller, the caller is on the
  queue, no task is lost or invented, and all other tasks keep their relative order.\<close>

theorem fifo_yield_to_next:
  assumes "fifo_invar q" and "target \<in> set (fifo_tasks q)" and "current \<noteq> target"
  shows "\<exists>q'. fifo_yield_to q target current pos = (q', Inr ()) \<and> fifo_invar q'
    \<and> snd (fifo_pop_next q') = Inr target
    \<and> set (fifo_tasks q') = insert current (set (fifo_tasks q))
    \<and> [x \<leftarrow> fifo_tasks q'. x \<noteq> current \<and> x \<noteq> target] = [x \<leftarrow> fifo_tasks q. x \<noteq> current \<and> x \<noteq> target]"
proof (rule fifoq.yield_to_correct [OF assms, where pos = pos])
  fix q'
  assume y: "rq_yield_to fifo_reschedule fifo_contains fifo_discard fifo_add fifo_len q target current pos = (q', Inr ())"
    and inv: "fifo_invar q'" and h: "hd (fifo_tasks q') = target"
    and s: "set (fifo_tasks q') = insert current (set (fifo_tasks q))"
    and r: "[x \<leftarrow> fifo_tasks q'. x \<noteq> current \<and> x \<noteq> target] = [x \<leftarrow> fifo_tasks q. x \<noteq> current \<and> x \<noteq> target]"
  have "fifo_tasks q' \<noteq> []" using s by auto
  then have "snd (fifo_pop_next q') = Inr target"
    using fifoq.pop_order [OF inv] h by simp
  with y inv s r show ?thesis by (auto simp: fifo_yield_to_def)
qed

theorem fifo_yield_to_next_witness:
  "\<exists>q'. fifo_yield_to \<lparr>fq_items = [1, 2, 3], fq_set = {1, 2, 3::nat}\<rparr> 3 0 (Some (-1)) = (q', Inr ())
    \<and> snd (fifo_pop_next q') = Inr 3"
  using fifo_yield_to_next [of "\<lparr>fq_items = [1, 2, 3], fq_set = {1, 2, 3::nat}\<rparr>" 3 0 "Some (-1)"]
  by (fastforce simp: fifo_invar_def fifo_tasks_def)

text \<open>\<open>PriorityRunnableQueue.yield_to\<close> gives the same guarantee: the target is next even when
  other tasks have a better priority, because it is moved to the immediate lane.\<close>

theorem prioq_yield_to_next:
  assumes "prioq_invar q" and "target \<in> set (prioq_tasks q)" and "current \<noteq> target"
  shows "\<exists>q'. prioq_yield_to prio q target current pos = (q', Inr ()) \<and> prioq_invar q'
    \<and> snd (prioq_pop_next q') = Inr target
    \<and> set (prioq_tasks q') = insert current (set (prioq_tasks q))
    \<and> [x \<leftarrow> prioq_tasks q'. x \<noteq> current \<and> x \<noteq> target] = [x \<leftarrow> prioq_tasks q. x \<noteq> current \<and> x \<noteq> target]"
proof (rule pq.yield_to_correct [OF assms, where prio = prio and pos = pos])
  fix q'
  assume y: "rq_yield_to (prioq_reschedule prio) prioq_contains prioq_discard (prioq_add prio) prioq_indexed_len q target current pos = (q', Inr ())"
    and inv: "prioq_invar q'" and h: "hd (prioq_tasks q') = target"
    and s: "set (prioq_tasks q') = insert current (set (prioq_tasks q))"
    and r: "[x \<leftarrow> prioq_tasks q'. x \<noteq> current \<and> x \<noteq> target] = [x \<leftarrow> prioq_tasks q. x \<noteq> current \<and> x \<noteq> target]"
  have "prioq_tasks q' \<noteq> []" using s by auto
  then have "snd (prioq_pop_next q') = Inr target"
    using pq.pop_order [OF inv] h by simp
  with y inv s r show ?thesis by (auto simp: prioq_yield_to_def)
qed

theorem prioq_yield_to_next_witness:
  "\<exists>q'. prioq_yield_to (\<lambda>_. 0) \<lparr>pq_set = {1, 2}, pq_prescheduled = [], pq_prescheduled_set = {},
        pq_items = [(-10::int, 0, 1::nat), (0, 1, 2)], pq_sequence = 2\<rparr> 2 7 None = (q', Inr ())
    \<and> snd (prioq_pop_next q') = Inr 2"
  using prioq_yield_to_next [of "\<lparr>pq_set = {1, 2}, pq_prescheduled = [], pq_prescheduled_set = {},
        pq_items = [(-10::int, 0, 1::nat), (0, 1, 2)], pq_sequence = 2\<rparr>" 2 7 "\<lambda>_. 0" None]
  by (fastforce simp: prioq_invar_def prioq_tasks_def is_heap_def entry_key_def)

text \<open>\<open>PriorityRunnableQueue.on_modified\<close> re-sorts a queued task whose priority changed: it
  never raises, keeps the queue well formed and the same tasks, and afterwards the task pops before
  every other heap task whose recorded priority is worse and after every one whose recorded
  priority is at least as good.\<close>

theorem prioq_on_modified_resorts:
  assumes inv: "prioq_invar q" and t: "t \<in> pq_set q"
  shows "\<exists>q'. prioq_on_modified prio q t = (q', Inr ()) \<and> prioq_invar q'
    \<and> set (prioq_tasks q') = set (prioq_tasks q) \<and> pq_prescheduled q' = pq_prescheduled q
    \<and> (\<exists>before after n. pq_items q' = before @ (prio t, n, t) # after
        \<and> (\<forall>e \<in> set before. fst e \<le> prio t) \<and> (\<forall>e \<in> set after. prio t < fst e)
        \<and> map entry_task (before @ after) = remove1 t (map entry_task (pq_items q)))"
proof -
  obtain q1 where q1: "prioq_remove_normal q t = (q1, Inr ())" "prioq_invar q1"
    "map entry_task (pq_items q1) = remove1 t (map entry_task (pq_items q))"
    "pq_prescheduled q1 = pq_prescheduled q" "t \<notin> pq_prescheduled_set q1" "t \<notin> pq_set q1"
    using prioq_remove_normal_ok [OF inv t] by metis
  let ?q = "prioq_insert_normal prio q1 t" and ?e = "(prio t, pq_sequence q1, t)"
  have tp: "t \<notin> pq_prescheduled_set q" using inv t by (auto simp: prioq_invar_def)
  have eq: "prioq_on_modified prio q t = (?q, Inr ())"
    using q1(1) tp t by (simp add: prioq_on_modified_def)
  have i: "prioq_invar ?q" by (rule prioq_invar_insert_normal [OF q1(2,5,6)])
  have seq: "\<forall>e \<in> set (pq_items q1). entry_seq e < pq_sequence q1"
    using q1(2) by (simp add: prioq_invar_def)
  obtain b a where items: "pq_items ?q = b @ ?e # a" and ba: "pq_items q1 = b @ a"
    using heappush_split [of entry_key "pq_items q1" ?e] by (auto simp: prioq_insert_normal_def)
  have srt: "sorted (map entry_key (pq_items ?q))" using i by (simp add: prioq_invar_def is_heap_def)
  have le: "\<forall>e \<in> set b. entry_key e \<le> entry_key ?e" and ge: "\<forall>e \<in> set a. entry_key ?e \<le> entry_key e"
    using srt unfolding items by (auto simp: sorted_append)
  have bl: "\<forall>e \<in> set b. fst e \<le> prio t"
    using le unfolding entry_key_def less_eq_prod_def by (metis fst_conv order_less_imp_le)
  have al: "prio t < fst e" if "e \<in> set a" for e
  proof -
    have "entry_seq e < pq_sequence q1" using seq that by (simp add: ba)
    moreover have "entry_key ?e \<le> entry_key e" using ge that by blast
    ultimately show ?thesis
      by (auto simp: entry_key_def entry_seq_def less_eq_prod_def)
  qed
  have "set (prioq_tasks ?q) = set (prioq_tasks q)"
  proof -
    have "set (map entry_task (pq_items q1)) = set (map entry_task (pq_items q)) - {t}"
      unfolding q1(3) using inv by (simp add: prioq_invar_def)
    then show ?thesis
      using t inv q1(4) by (simp add: prioq_tasks_invar [OF i] prioq_tasks_invar [OF inv])
        (auto simp: prioq_insert_normal_def prioq_invar_def)
  qed
  moreover have "map entry_task (b @ a) = remove1 t (map entry_task (pq_items q))"
    using q1(3) by (simp add: ba)
  moreover have "pq_prescheduled ?q = pq_prescheduled q"
    using q1(4) by (simp add: prioq_insert_normal_def)
  ultimately show ?thesis
    using eq i items bl al by blast
qed

theorem prioq_on_modified_resorts_witness:
  "\<exists>q'. prioq_on_modified (\<lambda>t. if t = 2 then -20 else 0) \<lparr>pq_set = {1, 2}, pq_prescheduled = [],
        pq_prescheduled_set = {}, pq_items = [(0::int, 0, 1::nat), (0, 1, 2)], pq_sequence = 2\<rparr> 2 = (q', Inr ())
     \<and> set (prioq_tasks q') = {1, 2}"
  using prioq_on_modified_resorts [of "\<lparr>pq_set = {1, 2}, pq_prescheduled = [],
        pq_prescheduled_set = {}, pq_items = [(0::int, 0, 1::nat), (0, 1, 2)], pq_sequence = 2\<rparr>" 2
        "\<lambda>t. if t = 2 then -20 else 0"]
  by (fastforce simp: prioq_invar_def prioq_tasks_def is_heap_def entry_key_def)

end
