(* ===== verification/World.thy ===== *)
theory World
  imports Runnable_Queue
begin

text \<open>
  The object store of one scheduler and of the primitives parked tealets are linked to.  Tealets
  (every one a \<open>Task\<close> while a scheduler drives) are numbered; \<open>tlink\<close> is the \<open>Task.link\<close>
  attribute.  \<open>events\<close> holds the \<open>Event\<close>, \<open>PulseEvent\<close> and \<open>CrossThreadEvent\<close> objects, \<open>chans\<close> the
  \<open>Channel\<close> objects, \<open>handles\<close> the \<open>TimerHandle\<close> objects by their sequence number.  The clock is an
  integer.  Two history variables, \<open>cb_log\<close> (callbacks run) and \<open>switch_log\<close> (tealets switched to),
  are only appended to and never read by an operation.
\<close>

type_synonym tid = nat
type_synonym eid = nat
type_synonym cid = nat

text \<open>What a task can be linked to (\<open>TaskLink\<close> subclasses).\<close>

datatype link = RunLink | EvLink eid | ChanLink cid

text \<open>The callbacks the runtime itself queues, and user callbacks by number.\<close>

datatype callback = CbWake "tid list" | CbMakeRunnable tid | CbEventSet eid | CbUser nat

record timer_handle =
  h_when :: int
  h_callback :: callback
  h_cancelled :: bool

record event =
  ev_waiters :: "tid list"
  ev_async :: "nat list"
  ev_is_set :: bool

text \<open>A channel packet is \<open>(is_exc, payload)\<close>; a waiter is a tealet or a \<open>_PacketEvent\<close>.\<close>

type_synonym packet = "bool \<times> nat"

datatype chan_waiter = WTask tid | WEvent eid

record chan =
  ch_waiters :: "chan_waiter list"
  ch_balance :: int
  ch_preference :: int

record world =
  runnable :: "tid fifo"
  tlink :: "tid \<Rightarrow> link option"
  current :: tid
  main_tealet :: tid
  ctx_task :: "tid \<Rightarrow> tid option"
  inflight :: "pyexn option"
  runner :: "tid option"
  running :: bool
  stopping :: bool
  owner_thread :: "nat option"
  this_thread :: nat
  ready :: "callback list"
  executor_calls :: nat
  pending_async_waits :: "tid set"
  timers :: "(int \<times> nat) list"
  handles :: "nat \<Rightarrow> timer_handle"
  timer_sequence :: nat
  now :: int
  n_scheduled :: nat
  batch_activity :: nat
  target_count :: "nat option"
  in_callback_drain :: bool
  callback_drain_task :: "tid option"
  wakeup_flag :: bool
  host_wakeup :: bool
  host_deferred :: "nat option"
  host_calls :: nat
  handled :: "pyexn list"
  events :: "eid \<Rightarrow> event"
  next_event :: eid
  aio_done :: "nat set"
  chans :: "cid \<Rightarrow> chan"
  tempval :: "chan_waiter \<Rightarrow> packet option"
  cb_log :: "callback list"
  switch_log :: "tid list"

text \<open>An operation that may raise keeps the state it has changed so far.\<close>

type_synonym 'a act = "world \<Rightarrow> world \<times> (pyexn + 'a)"

definition new_event :: event where
  "new_event = \<lparr>ev_waiters = [], ev_async = [], ev_is_set = False\<rparr>"

text \<open>A scheduler driven by tealet 0, which is the main tealet, with nothing queued.\<close>

definition idle_world :: world where
  "idle_world = \<lparr>runnable = fifo_init, tlink = (\<lambda>_. None), current = 0, main_tealet = 0,
     ctx_task = (\<lambda>t. if t = 0 then None else Some t), inflight = None, runner = None, running = True,
     stopping = False, owner_thread = Some 0, this_thread = 0, ready = [], executor_calls = 0,
     pending_async_waits = {}, timers = [],
     handles = (\<lambda>_. \<lparr>h_when = 0, h_callback = CbUser 0, h_cancelled = False\<rparr>), timer_sequence = 0,
     now = 0, n_scheduled = 0, batch_activity = 0, target_count = None, in_callback_drain = False,
     callback_drain_task = None, wakeup_flag = False, host_wakeup = False, host_deferred = None,
     host_calls = 0, handled = [], events = (\<lambda>_. new_event), next_event = 0, aio_done = {},
     chans = (\<lambda>_. \<lparr>ch_waiters = [], ch_balance = 0, ch_preference = -1\<rparr>), tempval = (\<lambda>_. None),
     cb_log = [], switch_log = []\<rparr>"

text \<open>Field updates of one object in the store.\<close>

definition set_link :: "tid \<Rightarrow> link option \<Rightarrow> world \<Rightarrow> world" where
  "set_link t l s = s\<lparr>tlink := (tlink s)(t := l)\<rparr>"

definition upd_event :: "eid \<Rightarrow> (event \<Rightarrow> event) \<Rightarrow> world \<Rightarrow> world" where
  "upd_event e f s = s\<lparr>events := (events s)(e := f (events s e))\<rparr>"

definition upd_chan :: "cid \<Rightarrow> (chan \<Rightarrow> chan) \<Rightarrow> world \<Rightarrow> world" where
  "upd_chan c f s = s\<lparr>chans := (chans s)(c := f (chans s c))\<rparr>"

text \<open>Projections of one-object updates.\<close>

lemma set_link_simps [simp]:
  "tlink (set_link t l s) = (tlink s)(t := l)" "runnable (set_link t l s) = runnable s"
  "events (set_link t l s) = events s" "current (set_link t l s) = current s"
  "ready (set_link t l s) = ready s" "chans (set_link t l s) = chans s"
  "n_scheduled (set_link t l s) = n_scheduled s" "runner (set_link t l s) = runner s"
  "target_count (set_link t l s) = target_count s" "in_callback_drain (set_link t l s) = in_callback_drain s"
  "switch_log (set_link t l s) = switch_log s" "main_tealet (set_link t l s) = main_tealet s"
  "owner_thread (set_link t l s) = owner_thread s" "this_thread (set_link t l s) = this_thread s"
  "ctx_task (set_link t l s) = ctx_task s" "pending_async_waits (set_link t l s) = pending_async_waits s"
  "next_event (set_link t l s) = next_event s" "tempval (set_link t l s) = tempval s"
  "handled (set_link t l s) = handled s" "callback_drain_task (set_link t l s) = callback_drain_task s"
  by (simp_all add: set_link_def)

lemma upd_event_simps [simp]:
  "events (upd_event e f s) = (events s)(e := f (events s e))" "tlink (upd_event e f s) = tlink s"
  "runnable (upd_event e f s) = runnable s" "current (upd_event e f s) = current s"
  "ready (upd_event e f s) = ready s" "chans (upd_event e f s) = chans s"
  "n_scheduled (upd_event e f s) = n_scheduled s" "runner (upd_event e f s) = runner s"
  "target_count (upd_event e f s) = target_count s" "in_callback_drain (upd_event e f s) = in_callback_drain s"
  "switch_log (upd_event e f s) = switch_log s" "main_tealet (upd_event e f s) = main_tealet s"
  "owner_thread (upd_event e f s) = owner_thread s" "this_thread (upd_event e f s) = this_thread s"
  "ctx_task (upd_event e f s) = ctx_task s" "pending_async_waits (upd_event e f s) = pending_async_waits s"
  "next_event (upd_event e f s) = next_event s" "tempval (upd_event e f s) = tempval s"
  "handled (upd_event e f s) = handled s" "callback_drain_task (upd_event e f s) = callback_drain_task s"
  by (simp_all add: upd_event_def)

lemma upd_chan_simps [simp]:
  "chans (upd_chan c g s) = (chans s)(c := g (chans s c))" "events (upd_chan c g s) = events s"
  "tlink (upd_chan c g s) = tlink s"
  "runnable (upd_chan c g s) = runnable s" "current (upd_chan c g s) = current s"
  "ready (upd_chan c g s) = ready s"
  "n_scheduled (upd_chan c g s) = n_scheduled s" "runner (upd_chan c g s) = runner s"
  "target_count (upd_chan c g s) = target_count s" "in_callback_drain (upd_chan c g s) = in_callback_drain s"
  "switch_log (upd_chan c g s) = switch_log s" "main_tealet (upd_chan c g s) = main_tealet s"
  "owner_thread (upd_chan c g s) = owner_thread s" "this_thread (upd_chan c g s) = this_thread s"
  "ctx_task (upd_chan c g s) = ctx_task s" "pending_async_waits (upd_chan c g s) = pending_async_waits s"
  "next_event (upd_chan c g s) = next_event s" "tempval (upd_chan c g s) = tempval s"
  "handled (upd_chan c g s) = handled s" "callback_drain_task (upd_chan c g s) = callback_drain_task s"
  by (simp_all add: upd_chan_def)

end
