(* ===== verification/Scheduler.thy ===== *)
theory Scheduler
  imports World
begin

text \<open>
  The scheduling core of \<open>BaseScheduler\<close> in \<open>tealetio/scheduler.py\<close> (with \<open>Task._unlink\<close>,
  \<open>Task.run\<close> and \<open>Task.throw\<close> of \<open>tasks.py\<close>): the runnable set and task links, parking and target
  selection, the ready-callback queue, timers, and the batch loop.  A switch to another tealet sets
  \<open>current\<close>; what the resumed tealet then does is the next segment of its own code.  User callbacks
  are a parameter \<open>ucb\<close>, user task bodies a parameter \<open>body\<close>.
\<close>

section \<open>Live turns and driver wake-up\<close>

definition get_current :: "world \<Rightarrow> tid option" where
  "get_current s =
     (case ctx_task s (current s) of
        None \<Rightarrow> None
      | Some t \<Rightarrow> if current s \<noteq> t then None else Some t)"

definition in_owner_live_turn :: "world \<Rightarrow> bool" where
  "in_owner_live_turn s =
     (if owner_thread s \<noteq> Some (this_thread s) then False
      else if in_callback_drain s then True
      else (case get_current s of None \<Rightarrow> False | Some c \<Rightarrow> runner s \<noteq> Some c))"

text \<open>\<open>BasicScheduler._break_wait\<close> sets the driver's \<open>threading.Event\<close>.\<close>

definition break_wait :: "world \<Rightarrow> world" where
  "break_wait s = s\<lparr>wakeup_flag := True\<rparr>"

definition invoke_host_wakeup :: "world \<Rightarrow> world" where
  "invoke_host_wakeup s = s\<lparr>host_calls := Suc (host_calls s)\<rparr>"

definition wake_driver :: "world \<Rightarrow> world" where
  "wake_driver s =
     (let s1 = break_wait s in
      if \<not> host_wakeup s1 then s1
      else if running s1 \<and> owner_thread s1 = Some (this_thread s1) then s1
      else (case host_deferred s1 of
              Some n \<Rightarrow> s1\<lparr>host_deferred := Some (Suc n)\<rparr>
            | None \<Rightarrow> invoke_host_wakeup s1))"

section \<open>Links\<close>

definition runnable_link_unlink :: "tid \<Rightarrow> world \<Rightarrow> world" where
  "runnable_link_unlink t s = set_link t None (s\<lparr>runnable := fst (fifo_discard (runnable s) t)\<rparr>)"

text \<open>\<open>_unlink\<close> of \<open>Event\<close>, \<open>PulseEvent\<close> and \<open>CrossThreadEvent\<close>: the link is cleared only when the
  tealet was still on the waiter list.\<close>

definition event_unlink :: "eid \<Rightarrow> tid \<Rightarrow> world \<Rightarrow> world" where
  "event_unlink e t s =
     (if t \<in> set (ev_waiters (events s e))
      then set_link t None (upd_event e (\<lambda>ev. ev\<lparr>ev_waiters := remove1 t (ev_waiters ev)\<rparr>) s)
      else s)"

definition chan_unlink_waiter :: "cid \<Rightarrow> chan_waiter \<Rightarrow> world \<Rightarrow> world" where
  "chan_unlink_waiter c w s =
     (let ch = chans s c;
          removed = (w \<in> set (ch_waiters ch));
          s1 = (if removed
                then upd_chan c (\<lambda>ch. ch\<lparr>ch_waiters := remove1 w (ch_waiters ch),
                       ch_balance := (if ch_balance ch > 0 then ch_balance ch - 1
                                      else if ch_balance ch < 0 then ch_balance ch + 1
                                      else ch_balance ch)\<rparr>) s
                else s)
      in (case w of WTask t \<Rightarrow> set_link t None s1 | WEvent e \<Rightarrow> s1))"

definition link_unlink :: "link \<Rightarrow> tid \<Rightarrow> world \<Rightarrow> world" where
  "link_unlink l t s =
     (case l of
        RunLink \<Rightarrow> runnable_link_unlink t s
      | EvLink e \<Rightarrow> event_unlink e t s
      | ChanLink c \<Rightarrow> chan_unlink_waiter c (WTask t) s)"

definition task_unlink :: "tid \<Rightarrow> world \<Rightarrow> world" where
  "task_unlink t s =
     (let s1 = (case tlink s t of None \<Rightarrow> s | Some l \<Rightarrow> link_unlink l t s)
      in s1\<lparr>pending_async_waits := pending_async_waits s1 - {t}\<rparr>)"

text \<open>\<open>BaseScheduler._unlink\<close>.\<close>

definition sched_unlink :: "tid \<Rightarrow> world \<Rightarrow> world" where
  "sched_unlink t s =
     (let (q, removed) = fifo_discard (runnable s) t;
          blocked = (t \<in> pending_async_waits s);
          s1 = s\<lparr>runnable := q, pending_async_waits := pending_async_waits s - {t}\<rparr>
      in if removed \<or> blocked then set_link t None s1 else s1)"

section \<open>Runnable set and parking\<close>

definition make_runnable :: "tid \<Rightarrow> unit act" where
  "make_runnable t s =
     (if fifo_contains (runnable s) t then (s, Inl AssertionErr)
      else (let s1 = set_link t (Some RunLink) (s\<lparr>runnable := fst (fifo_add (runnable s) t None)\<rparr>)
            in (if in_owner_live_turn s1 then s1 else wake_driver s1, Inr ())))"

definition make_runnable_next :: "tid \<Rightarrow> unit act" where
  "make_runnable_next t s =
     (if fifo_contains (runnable s) t then (s, Inl AssertionErr)
      else (set_link t (Some RunLink) (s\<lparr>runnable := fst (fifo_add (runnable s) t (Some 0))\<rparr>), Inr ()))"

definition park_current :: "bool \<Rightarrow> unit act" where
  "park_current resume_next s =
     (let t = current s in
      if resume_next \<or> (in_callback_drain s \<and> callback_drain_task s = Some t)
      then make_runnable_next t s
      else make_runnable t s)"

definition has_runnable_work :: "world \<Rightarrow> bool" where
  "has_runnable_work s = fifo_bool (runnable s)"

definition steal_to_runner :: "bool \<Rightarrow> world \<Rightarrow> bool" where
  "steal_to_runner explicit s =
     (\<not> explicit \<and> runner s \<noteq> None \<and>
      (case target_count s of None \<Rightarrow> False | Some c \<Rightarrow> c \<le> n_scheduled s))"

definition find_target :: "bool \<Rightarrow> bool \<Rightarrow> tid act" where
  "find_target task_exit explicit s =
     (if steal_to_runner explicit s then
        (let r = the (runner s) in (set_link r None (task_unlink r s), Inr r))
      else if has_runnable_work s then
        (case fifo_pop_next (runnable s) of
           (q, Inl e) \<Rightarrow> (s\<lparr>runnable := q\<rparr>, Inl e)
         | (q, Inr t) \<Rightarrow> (set_link t None (s\<lparr>runnable := q, n_scheduled := Suc (n_scheduled s)\<rparr>), Inr t))
      else if \<not> task_exit then (s, Inl DeadlockErr)
      else (set_link (main_tealet s) None (s\<lparr>n_scheduled := Suc (n_scheduled s)\<rparr>), Inr (main_tealet s)))"

definition tealet_switch :: "tid \<Rightarrow> world \<Rightarrow> world" where
  "tealet_switch t s = s\<lparr>current := t, switch_log := switch_log s @ [t]\<rparr>"

text \<open>\<open>_schedule\<close>: run the enqueue step, pick a target, switch.  After \<open>Inr ()\<close> the caller is
  suspended inside this call.\<close>

definition schedule :: "unit act \<Rightarrow> bool \<Rightarrow> unit act" where
  "schedule enqueue explicit s =
     (case enqueue s of
        (s1, Inl e) \<Rightarrow> (s1, Inl e)
      | (s1, Inr _) \<Rightarrow>
          (case find_target False explicit s1 of
             (s2, Inl e) \<Rightarrow> (s2, Inl e)
           | (s2, Inr t) \<Rightarrow> (tealet_switch t s2, Inr ())))"

definition sched_yield :: "unit act" where
  "sched_yield s = schedule (park_current False) False s"

definition sched_reschedule :: "tid \<Rightarrow> int option \<Rightarrow> unit act" where
  "sched_reschedule t position s =
     (case fifo_reschedule (runnable s) t position of
        (q, r) \<Rightarrow> (s\<lparr>runnable := q\<rparr>, r))"

definition sched_yield_to :: "tid \<Rightarrow> int option \<Rightarrow> unit act" where
  "sched_yield_to t insert_current_at s =
     (if t = current s then (s, Inr ())
      else schedule (\<lambda>s. (case fifo_yield_to (runnable s) t (current s) insert_current_at of
                (q, Inl e) \<Rightarrow> (s\<lparr>runnable := q\<rparr>, Inl e)
              | (q, Inr _) \<Rightarrow> (set_link (current s) (Some RunLink) (s\<lparr>runnable := q\<rparr>), Inr ()))) True s)"

definition target_run :: "tid \<Rightarrow> unit act" where
  "target_run t s =
     (if t = current s then (s, Inr ())
      else (case park_current False (task_unlink t s) of
              (s1, Inl e) \<Rightarrow> (s1, Inl e)
            | (s1, Inr _) \<Rightarrow> (tealet_switch t s1, Inr ())))"

text \<open>\<open>Task.throw\<close>: the exception is in flight at the point where the target was suspended.\<close>

definition target_throw :: "tid \<Rightarrow> pyexn \<Rightarrow> unit act" where
  "target_throw t exc s =
     (if t = current s then (s, Inl exc)
      else (case park_current True (task_unlink t s) of
              (s1, Inl e) \<Rightarrow> (s1, Inl e)
            | (s1, Inr _) \<Rightarrow> ((tealet_switch t s1)\<lparr>inflight := Some exc\<rparr>, Inr ())))"

text \<open>A primed (not eagerly started) task is made runnable by \<open>spawn\<close>.\<close>

definition spawn_primed :: "tid \<Rightarrow> unit act" where
  "spawn_primed t s = make_runnable t s"

section \<open>Ready callbacks\<close>

fun make_runnable_all :: "tid list \<Rightarrow> unit act" where
  "make_runnable_all [] s = (s, Inr ())"
| "make_runnable_all (t # ts) s =
     (case make_runnable t s of
        (s1, Inl e) \<Rightarrow> (s1, Inl e)
      | (s1, Inr _) \<Rightarrow> make_runnable_all ts s1)"

text \<open>\<open>CrossThreadEvent._set\<close>, the body of the callback that \<open>CrossThreadEvent.set\<close> queues.  The
  waiter list is cleared only after every waiter was made runnable.\<close>

definition ct_event_set_now :: "eid \<Rightarrow> unit act" where
  "ct_event_set_now e s =
     (let s1 = upd_event e (\<lambda>ev. ev\<lparr>ev_is_set := True\<rparr>) s in
      case make_runnable_all (ev_waiters (events s1 e)) s1 of
        (s2, Inl x) \<Rightarrow> (s2, Inl x)
      | (s2, Inr _) \<Rightarrow> (upd_event e (\<lambda>ev. ev\<lparr>ev_waiters := []\<rparr>) s2, Inr ()))"

definition exec_callback :: "(nat \<Rightarrow> unit act) \<Rightarrow> callback \<Rightarrow> unit act" where
  "exec_callback ucb cb s =
     (case cb of
        CbWake ts \<Rightarrow> make_runnable_all ts s
      | CbMakeRunnable t \<Rightarrow> make_runnable t s
      | CbEventSet e \<Rightarrow> ct_event_set_now e s
      | CbUser n \<Rightarrow> ucb n s)"

definition call_exception_handler :: "pyexn \<Rightarrow> world \<Rightarrow> world" where
  "call_exception_handler e s = s\<lparr>handled := handled s @ [e]\<rparr>"

definition run_callback :: "(nat \<Rightarrow> unit act) \<Rightarrow> callback \<Rightarrow> unit act" where
  "run_callback ucb cb s =
     (case exec_callback ucb cb (s\<lparr>cb_log := cb_log s @ [cb]\<rparr>) of
        (s1, Inr _) \<Rightarrow> (s1, Inr ())
      | (s1, Inl e) \<Rightarrow>
          (if e = SystemExitErr \<or> e = KeyboardInterruptErr then (s1, Inl e)
           else if e = CancelledErr then
             (if in_callback_drain s1 \<and> callback_drain_task s1 = Some (current s1)
              then (call_exception_handler e s1, Inr ())
              else (s1, Inl e))
           else (call_exception_handler e s1, Inr ())))"

definition call_soon :: "callback \<Rightarrow> world \<Rightarrow> world" where
  "call_soon cb s = s\<lparr>ready := ready s @ [cb]\<rparr>"

definition call_soon_threadsafe :: "callback \<Rightarrow> world \<Rightarrow> world" where
  "call_soon_threadsafe cb s = wake_driver (s\<lparr>ready := ready s @ [cb]\<rparr>)"

definition call_on_scheduler :: "(nat \<Rightarrow> unit act) \<Rightarrow> callback \<Rightarrow> unit act" where
  "call_on_scheduler ucb cb s =
     (if in_owner_live_turn s then run_callback ucb cb s
      else (wake_driver (s\<lparr>ready := ready s @ [cb]\<rparr>), Inr ()))"

fun drain_loop :: "(nat \<Rightarrow> unit act) \<Rightarrow> nat \<Rightarrow> nat \<Rightarrow> nat act" where
  "drain_loop ucb 0 cnt s = (s, Inr cnt)"
| "drain_loop ucb (Suc pending) cnt s =
     (case ready s of
        [] \<Rightarrow> (s, Inr cnt)
      | cb # rest \<Rightarrow>
          (case run_callback ucb cb (s\<lparr>ready := rest\<rparr>) of
             (s1, Inl e) \<Rightarrow> (s1, Inl e)
           | (s1, Inr _) \<Rightarrow>
               drain_loop ucb pending (Suc cnt) (s1\<lparr>batch_activity := Suc (batch_activity s1)\<rparr>)))"

definition drain_ready_callbacks :: "(nat \<Rightarrow> unit act) \<Rightarrow> nat act" where
  "drain_ready_callbacks ucb s = drain_loop ucb (length (ready s)) 0 s"

section \<open>Timers\<close>

definition timer_key :: "int \<times> nat \<Rightarrow> int \<times> nat" where
  "timer_key e = e"

definition enqueue_timer :: "int \<Rightarrow> callback \<Rightarrow> world \<Rightarrow> world" where
  "enqueue_timer when cb s =
     (let s1 = s\<lparr>timers := heappush timer_key (timers s) (when, timer_sequence s),
               handles := (handles s)(timer_sequence s := \<lparr>h_when = when, h_callback = cb, h_cancelled = False\<rparr>),
               timer_sequence := Suc (timer_sequence s)\<rparr>
      in if in_owner_live_turn s1 then s1 else wake_driver s1)"

text \<open>\<open>call_at\<close> returns the handle, named here by its sequence number.\<close>

definition call_at :: "int \<Rightarrow> callback \<Rightarrow> world \<Rightarrow> world \<times> nat" where
  "call_at when cb s = (enqueue_timer when cb s, timer_sequence s)"

definition call_later :: "int \<Rightarrow> callback \<Rightarrow> world \<Rightarrow> world \<times> nat" where
  "call_later delay cb s = call_at (now s + max delay 0) cb s"

definition handle_cancel :: "nat \<Rightarrow> world \<Rightarrow> world" where
  "handle_cancel h s = s\<lparr>handles := (handles s)(h := (handles s h)\<lparr>h_cancelled := True\<rparr>)\<rparr>"

definition handle_run :: "(nat \<Rightarrow> unit act) \<Rightarrow> nat \<Rightarrow> unit act" where
  "handle_run ucb h s =
     (if h_cancelled (handles s h) then (s, Inr ())
      else run_callback ucb (h_callback (handles s h)) s)"

text \<open>Pop every timer that is due at the instant \<open>t\<close>, earliest first.\<close>

fun pop_due :: "int \<Rightarrow> (int \<times> nat) list \<Rightarrow> (int \<times> nat) list \<times> (int \<times> nat) list" where
  "pop_due t [] = ([], [])"
| "pop_due t (e # h) =
     (if fst e \<le> t then (let (due, rest) = pop_due t h in (e # due, rest)) else ([], e # h))"

fun push_all :: "(int \<times> nat) list \<Rightarrow> (int \<times> nat) list \<Rightarrow> (int \<times> nat) list" where
  "push_all h [] = h"
| "push_all h (e # es) = push_all (heappush timer_key h e) es"

text \<open>Run the popped timers; when one raises, the ones after it are pushed back.\<close>

fun run_due :: "(nat \<Rightarrow> unit act) \<Rightarrow> (int \<times> nat) list \<Rightarrow> nat \<Rightarrow> nat act" where
  "run_due ucb [] cnt s = (s, Inr cnt)"
| "run_due ucb (e # due) cnt s =
     (if h_cancelled (handles s (snd e)) then run_due ucb due cnt s
      else (case handle_run ucb (snd e) s of
              (s1, Inl x) \<Rightarrow> (s1\<lparr>timers := push_all (timers s1) due\<rparr>, Inl x)
            | (s1, Inr _) \<Rightarrow> run_due ucb due (Suc cnt) (s1\<lparr>batch_activity := Suc (batch_activity s1)\<rparr>)))"

text \<open>\<open>_callback_drain_scope\<close> around one drain.\<close>

definition callback_drain_scope :: "'a act \<Rightarrow> 'a act" where
  "callback_drain_scope m s =
     (case m (s\<lparr>in_callback_drain := True, callback_drain_task := Some (current s)\<rparr>) of
        (s1, r) \<Rightarrow> (s1\<lparr>in_callback_drain := False, callback_drain_task := None\<rparr>, r))"

definition run_ready_timers_body :: "(nat \<Rightarrow> unit act) \<Rightarrow> nat act" where
  "run_ready_timers_body ucb s =
     (case drain_ready_callbacks ucb s of
        (s1, Inl e) \<Rightarrow> (s1, Inl e)
      | (s1, Inr cnt) \<Rightarrow>
          (case pop_due (now s1) (timers s1) of
             (due, rest) \<Rightarrow> run_due ucb due cnt (s1\<lparr>timers := rest\<rparr>)))"

definition run_ready_timers :: "(nat \<Rightarrow> unit act) \<Rightarrow> nat act" where
  "run_ready_timers ucb s =
     (if in_callback_drain s then (s, Inr 0)
      else callback_drain_scope (run_ready_timers_body ucb) s)"

fun drop_cancelled :: "(nat \<Rightarrow> timer_handle) \<Rightarrow> (int \<times> nat) list \<Rightarrow> (int \<times> nat) list" where
  "drop_cancelled hs [] = []"
| "drop_cancelled hs (e # h) = (if h_cancelled (hs (snd e)) then drop_cancelled hs h else e # h)"

definition next_timer_deadline :: "world \<Rightarrow> world \<times> int option" where
  "next_timer_deadline s =
     (let h = drop_cancelled (handles s) (timers s)
      in (s\<lparr>timers := h\<rparr>, case h of [] \<Rightarrow> None | e # _ \<Rightarrow> Some (fst e)))"

definition delay_until :: "int \<Rightarrow> world \<Rightarrow> int" where
  "delay_until when s = max 0 (when - now s)"

definition has_pending_timers :: "world \<Rightarrow> bool" where
  "has_pending_timers s = (snd (next_timer_deadline s) \<noteq> None)"

definition has_pending_driver_work :: "world \<Rightarrow> bool" where
  "has_pending_driver_work s = (ready s \<noteq> [] \<or> executor_calls s \<noteq> 0)"

definition has_local_ready_work :: "world \<Rightarrow> bool" where
  "has_local_ready_work s = (has_runnable_work s \<or> ready s \<noteq> [])"

definition arun_should_terminate :: "world \<Rightarrow> bool" where
  "arun_should_terminate s =
     (\<not> (has_runnable_work s \<or> has_pending_timers s \<or> pending_async_waits s \<noteq> {}
         \<or> has_pending_driver_work s))"

text \<open>\<open>_sleep_until\<close> up to the switch; the wake callback makes the sleeper runnable, and leaving the
  \<open>with\<close> block cancels the handle.\<close>

definition sleep_until :: "int \<Rightarrow> nat option act" where
  "sleep_until when s =
     (if when \<le> now s then
        (case sched_yield s of (s1, Inl e) \<Rightarrow> (s1, Inl e) | (s1, Inr _) \<Rightarrow> (s1, Inr None))
      else
        (let (s1, h) = call_at when (CbMakeRunnable (current s)) s in
         case schedule (\<lambda>s. (s, Inr ())) False s1 of
           (s2, Inl e) \<Rightarrow> (handle_cancel h s2, Inl e)
         | (s2, Inr _) \<Rightarrow> (s2, Inr (Some h))))"

definition sleep_resume :: "nat \<Rightarrow> world \<Rightarrow> world" where
  "sleep_resume h s = handle_cancel h s"

definition sched_sleep :: "int \<Rightarrow> nat option act" where
  "sched_sleep delay s = sleep_until (now s + delay) s"

section \<open>The batch loop\<close>

text \<open>What a resumed task does until it gives up control is \<open>body\<close>: it returns the changed state and
  whether the task exits (its \<open>resolve_target\<close> then selects the next tealet) or parks (its
  \<open>_schedule\<close> does).  The loop ends when the runner is current again.  \<open>None\<close> stands for running out
  of fuel, and for a \<open>DeadlockError\<close> raised inside a task, which the body does not describe.\<close>

fun batch_loop :: "(tid \<Rightarrow> world \<Rightarrow> world \<times> bool) \<Rightarrow> tid \<Rightarrow> nat \<Rightarrow> world \<Rightarrow> world option" where
  "batch_loop body r fuel s =
     (if current s = r then Some s
      else (case fuel of
              0 \<Rightarrow> None
            | Suc fuel' \<Rightarrow>
                (case body (current s) s of
                   (s1, task_exit) \<Rightarrow>
                     (case find_target task_exit False s1 of
                        (s2, Inl e) \<Rightarrow> None
                      | (s2, Inr t) \<Rightarrow> batch_loop body r fuel' (tealet_switch t s2)))))"

declare batch_loop.simps [simp del]

text \<open>\<open>_run_ready_batch\<close>: callbacks and due timers first, then at most as many transfers as there were
  runnable tasks.  \<open>None\<close> means the fuel cnt out.\<close>

definition run_ready_batch ::
  "(nat \<Rightarrow> unit act) \<Rightarrow> (tid \<Rightarrow> world \<Rightarrow> world \<times> bool) \<Rightarrow> nat \<Rightarrow> nat option \<Rightarrow> world
     \<Rightarrow> (world \<times> (pyexn + int)) option" where
  "run_ready_batch ucb body fuel limit s =
     (if runner s \<noteq> None then Some (s, Inl RuntimeErr)
      else
        (let start_count = n_scheduled s;
             r = current s;
             s0 = s\<lparr>runner := Some r, batch_activity := 0\<rparr>;
             fin = (\<lambda>s. s\<lparr>runner := None, target_count := None\<rparr>)
         in case run_ready_timers ucb s0 of
              (s1, Inl e) \<Rightarrow> Some (fin s1, Inl e)
            | (s1, Inr _) \<Rightarrow>
                (if \<not> has_runnable_work s1 then Some (fin s1, Inr 0)
                 else
                   (let lim = (case limit of None \<Rightarrow> fifo_len (runnable s1) | Some l \<Rightarrow> l);
                        s2 = (if 0 < lim then s1\<lparr>target_count := Some (start_count + lim)\<rparr> else s1)
                    in case sched_yield s2 of
                         (s3, Inl e) \<Rightarrow> Some (fin s3, Inl e)
                       | (s3, Inr _) \<Rightarrow>
                           map_option (\<lambda>s4. (fin (s4\<lparr>batch_activity := Suc (batch_activity s4)\<rparr>),
                               Inr (int (n_scheduled s4) - int start_count - 1)))
                             (batch_loop body r fuel s3)))))"

end
