(* ===== verification/Scheduler_Facts.thy ===== *)
theory Scheduler_Facts
  imports Scheduler
begin

text \<open>
  What the scheduling core guarantees: frame lemmas for each operation, the order in which one drain
  runs callbacks and due timers, and the fairness and boundedness of one ready batch.
\<close>

section \<open>Frame lemmas\<close>

lemma wake_driver_simps [simp]:
  "runnable (wake_driver s) = runnable s" "tlink (wake_driver s) = tlink s"
  "current (wake_driver s) = current s" "events (wake_driver s) = events s"
  "ready (wake_driver s) = ready s" "n_scheduled (wake_driver s) = n_scheduled s"
  "runner (wake_driver s) = runner s" "target_count (wake_driver s) = target_count s"
  "switch_log (wake_driver s) = switch_log s" "cb_log (wake_driver s) = cb_log s"
  "handles (wake_driver s) = handles s" "timers (wake_driver s) = timers s"
  "timer_sequence (wake_driver s) = timer_sequence s" "now (wake_driver s) = now s"
  "in_callback_drain (wake_driver s) = in_callback_drain s"
  "callback_drain_task (wake_driver s) = callback_drain_task s"
  "main_tealet (wake_driver s) = main_tealet s" "chans (wake_driver s) = chans s"
  "tempval (wake_driver s) = tempval s" "next_event (wake_driver s) = next_event s"
  "owner_thread (wake_driver s) = owner_thread s" "this_thread (wake_driver s) = this_thread s"
  "ctx_task (wake_driver s) = ctx_task s" "pending_async_waits (wake_driver s) = pending_async_waits s"
  "handled (wake_driver s) = handled s" "aio_done (wake_driver s) = aio_done s"
  by (simp_all add: wake_driver_def break_wait_def invoke_host_wakeup_def Let_def split: option.split)

lemma set_link_more [simp]:
  "cb_log (set_link t l s) = cb_log s" "handles (set_link t l s) = handles s"
  "timers (set_link t l s) = timers s" "timer_sequence (set_link t l s) = timer_sequence s"
  "now (set_link t l s) = now s" "aio_done (set_link t l s) = aio_done s"
  by (simp_all add: set_link_def)

lemma upd_event_more [simp]:
  "cb_log (upd_event e f s) = cb_log s" "handles (upd_event e f s) = handles s"
  "timers (upd_event e f s) = timers s" "timer_sequence (upd_event e f s) = timer_sequence s"
  "now (upd_event e f s) = now s" "aio_done (upd_event e f s) = aio_done s"
  by (simp_all add: upd_event_def)

text \<open>Everything \<open>make_runnable\<close> leaves alone, in one relation.\<close>

definition sched_frame :: "world \<Rightarrow> world \<Rightarrow> bool" where
  "sched_frame s s' \<longleftrightarrow>
     current s' = current s \<and> ready s' = ready s \<and> n_scheduled s' = n_scheduled s \<and> runner s' = runner s
     \<and> target_count s' = target_count s \<and> switch_log s' = switch_log s \<and> cb_log s' = cb_log s
     \<and> handles s' = handles s \<and> timers s' = timers s \<and> timer_sequence s' = timer_sequence s
     \<and> now s' = now s \<and> in_callback_drain s' = in_callback_drain s
     \<and> callback_drain_task s' = callback_drain_task s \<and> main_tealet s' = main_tealet s
     \<and> chans s' = chans s \<and> tempval s' = tempval s \<and> next_event s' = next_event s
     \<and> owner_thread s' = owner_thread s \<and> this_thread s' = this_thread s \<and> ctx_task s' = ctx_task s
     \<and> pending_async_waits s' = pending_async_waits s \<and> handled s' = handled s"

lemma sched_frame_refl [simp]: "sched_frame s s"
  by (simp add: sched_frame_def)

lemma sched_frame_trans: "sched_frame s s1 \<Longrightarrow> sched_frame s1 s2 \<Longrightarrow> sched_frame s s2"
  by (simp add: sched_frame_def)

lemma make_runnable_frame: "sched_frame s (fst (make_runnable t s))"
  by (simp add: make_runnable_def sched_frame_def Let_def)

lemma make_runnable_events [simp]: "events (fst (make_runnable t s)) = events s"
  by (simp add: make_runnable_def Let_def)

lemma make_runnable_ok:
  "\<not> fifo_contains (runnable s) t \<Longrightarrow>
     snd (make_runnable t s) = Inr () \<and> tlink (fst (make_runnable t s)) = (tlink s)(t := Some RunLink)
     \<and> runnable (fst (make_runnable t s)) = fst (fifo_add (runnable s) t None)"
  by (simp add: make_runnable_def Let_def)

lemma make_runnable_all_frame:
  "sched_frame s (fst (make_runnable_all ts s)) \<and> events (fst (make_runnable_all ts s)) = events s"
proof (induction ts arbitrary: s)
  case (Cons t ts)
  show ?case
  proof (cases "make_runnable t s")
    case (Pair s1 r)
    have f: "sched_frame s s1" "events s1 = events s"
      using make_runnable_frame [of s t] make_runnable_events [of t s] Pair by simp_all
    show ?thesis
    proof (cases r)
      case (Inl e)
      with Pair f show ?thesis by simp
    next
      case (Inr u)
      have "sched_frame s1 (fst (make_runnable_all ts s1))" "events (fst (make_runnable_all ts s1)) = events s1"
        using Cons.IH [of s1] by simp_all
      with f Pair Inr show ?thesis using sched_frame_trans by auto
    qed
  qed
qed simp

lemma make_runnable_all_outcome: "snd (make_runnable_all ts s) \<in> {Inr (), Inl AssertionErr}"
  by (induction ts arbitrary: s) (auto simp: make_runnable_def Let_def split: prod.splits sum.splits if_splits)

lemma sched_frame_upd_event: "sched_frame s s1 \<Longrightarrow> sched_frame s (upd_event e f s1)"
  by (simp add: sched_frame_def)

lemma ct_event_set_now_cases:
  obtains s1 r where "sched_frame s s1" and "r \<in> {Inr (), Inl AssertionErr}"
    and "ct_event_set_now e s = (s1, r)"
proof -
  let ?s1 = "upd_event e (\<lambda>ev. ev\<lparr>ev_is_set := True\<rparr>) s"
  obtain s2 r where m: "make_runnable_all (ev_waiters (events ?s1 e)) ?s1 = (s2, r)" by fastforce
  have f: "sched_frame s s2"
    using make_runnable_all_frame [of ?s1 "ev_waiters (events ?s1 e)"] m
      sched_frame_trans [OF sched_frame_upd_event [OF sched_frame_refl]] by (metis fst_conv)
  have r: "r \<in> {Inr (), Inl AssertionErr}"
    using make_runnable_all_outcome [of "ev_waiters (events ?s1 e)" ?s1] m by simp
  show thesis
  proof (cases r)
    case (Inl x)
    show thesis by (rule that [OF f r]) (use Inl m in \<open>simp add: ct_event_set_now_def Let_def\<close>)
  next
    case (Inr u)
    show thesis
      by (rule that [OF sched_frame_upd_event [OF f] r])
        (use Inr m in \<open>simp add: ct_event_set_now_def Let_def\<close>)
  qed
qed

section \<open>Callbacks\<close>

text \<open>A user callback that runs to completion: it may raise (but not \<open>SystemExit\<close> or
  \<open>KeyboardInterrupt\<close>), queue callbacks and arm timers, and it leaves the queue entries, the existing
  timers and the drain scope alone.\<close>

definition quiet_callback :: "world \<Rightarrow> world \<Rightarrow> bool" where
  "quiet_callback s s' \<longleftrightarrow>
     (\<exists>new. ready s' = ready s @ new) \<and> cb_log s' = cb_log s
     \<and> timer_sequence s \<le> timer_sequence s' \<and> (\<forall>h < timer_sequence s. handles s' h = handles s h)
     \<and> now s' = now s \<and> current s' = current s \<and> in_callback_drain s' = in_callback_drain s
     \<and> callback_drain_task s' = callback_drain_task s
     \<and> set (timers s) \<subseteq> set (timers s')
     \<and> (is_heap timer_key (timers s) \<longrightarrow> is_heap timer_key (timers s'))
     \<and> (\<forall>e \<in> set (timers s'). e \<in> set (timers s) \<or> snd e < timer_sequence s')"

definition quiet :: "(nat \<Rightarrow> unit act) \<Rightarrow> bool" where
  "quiet ucb \<longleftrightarrow> (\<forall>n s. quiet_callback s (fst (ucb n s))
     \<and> snd (ucb n s) \<noteq> Inl SystemExitErr \<and> snd (ucb n s) \<noteq> Inl KeyboardInterruptErr)"

lemma quiet_callback_trans:
  assumes "quiet_callback s s1" and "quiet_callback s1 s2"
  shows "quiet_callback s s2"
proof -
  have ts: "timer_sequence s \<le> timer_sequence s1" "timer_sequence s1 \<le> timer_sequence s2"
    using assms by (simp_all add: quiet_callback_def)
  have "e \<in> set (timers s) \<or> snd e < timer_sequence s2" if "e \<in> set (timers s2)" for e
    using that assms ts unfolding quiet_callback_def by (meson less_le_trans)
  moreover have "\<forall>h < timer_sequence s. handles s2 h = handles s h"
    using assms ts unfolding quiet_callback_def by (metis less_le_trans)
  moreover have "\<exists>new. ready s2 = ready s @ new"
    using assms unfolding quiet_callback_def by fastforce
  ultimately show ?thesis
    using assms ts unfolding quiet_callback_def by (auto intro: subset_trans)
qed

lemma frame_quiet: "sched_frame s s' \<Longrightarrow> quiet_callback s s'"
  by (simp add: sched_frame_def quiet_callback_def)

text \<open>A callback that leaves the frame alone but may raise anything; the two exceptions that leave a drain.\<close>

definition tidy :: "(nat \<Rightarrow> unit act) \<Rightarrow> bool" where
  "tidy ucb \<longleftrightarrow> (\<forall>n s. quiet_callback s (fst (ucb n s)))"

abbreviation aborting :: "pyexn set" where
  "aborting \<equiv> {SystemExitErr, KeyboardInterruptErr}"

lemma quiet_tidy: "quiet ucb \<Longrightarrow> tidy ucb"
  by (simp add: quiet_def tidy_def)

lemma exec_callback_tidy:
  assumes "tidy ucb"
  obtains s1 r where "exec_callback ucb cb s = (s1, r)" and "quiet_callback s s1"
    and "quiet ucb \<Longrightarrow> r \<notin> Inl ` aborting"
proof (cases cb)
  case (CbWake ts)
  obtain s1 r where m: "make_runnable_all ts s = (s1, r)" by fastforce
  have "quiet_callback s s1" using make_runnable_all_frame [of s ts] m by (simp add: frame_quiet)
  moreover have "r \<in> {Inr (), Inl AssertionErr}" using make_runnable_all_outcome [of ts s] m by simp
  ultimately show thesis using that [of s1 r] m CbWake by (auto simp: exec_callback_def)
next
  case (CbMakeRunnable t)
  obtain s1 r where m: "make_runnable t s = (s1, r)" by fastforce
  have "quiet_callback s s1" using make_runnable_frame [of s t] m by (simp add: frame_quiet)
  moreover have "r \<in> {Inr (), Inl AssertionErr}"
    using m by (simp add: make_runnable_def Let_def split: if_splits)
  ultimately show thesis using that [of s1 r] m CbMakeRunnable by (auto simp: exec_callback_def)
next
  case (CbEventSet e)
  show thesis
  proof (rule ct_event_set_now_cases [of s e])
    fix s1 r
    assume "sched_frame s s1" "r \<in> {Inr (), Inl AssertionErr}" "ct_event_set_now e s = (s1, r)"
    then show thesis using that [of s1 r] CbEventSet by (auto simp: exec_callback_def frame_quiet)
  qed
next
  case (CbUser n)
  then show thesis using assms that [of "fst (ucb n s)" "snd (ucb n s)"]
    by (auto simp: exec_callback_def quiet_def tidy_def)
qed

text \<open>Inside the drain scope only \<open>SystemExit\<close> and \<open>KeyboardInterrupt\<close> abort the drain.\<close>

lemma run_callback_tidy:
  assumes q: "tidy ucb" and d: "in_callback_drain s" "callback_drain_task s = Some (current s)"
  obtains s' r where "run_callback ucb cb s = (s', r)" and "cb_log s' = cb_log s @ [cb]"
    and "quiet_callback (s\<lparr>cb_log := cb_log s @ [cb]\<rparr>) s'"
    and "case r of Inr _ \<Rightarrow> True | Inl e \<Rightarrow> e \<in> aborting \<and> \<not> quiet ucb"
proof -
  let ?s = "s\<lparr>cb_log := cb_log s @ [cb]\<rparr>"
  obtain s1 r where e: "exec_callback ucb cb ?s = (s1, r)" and qc: "quiet_callback ?s s1"
    and r: "quiet ucb \<Longrightarrow> r \<notin> Inl ` aborting"
    using exec_callback_tidy [OF q, of cb ?s] by blast
  have d1: "in_callback_drain s1" "callback_drain_task s1 = Some (current s1)" "cb_log s1 = cb_log ?s"
    using qc d by (simp_all add: quiet_callback_def)
  show thesis
  proof (cases r)
    case (Inl x)
    show thesis
    proof (cases "x \<in> aborting")
      case True
      then show thesis using that [of s1 "Inl x"] e qc d1 r Inl by (auto simp: run_callback_def)
    next
      case False
      then have "run_callback ucb cb s = (call_exception_handler x s1, Inr ())"
        using e d1 Inl by (simp add: run_callback_def)
      moreover have "quiet_callback ?s (call_exception_handler x s1)"
        using qc by (simp add: quiet_callback_def call_exception_handler_def)
      ultimately show thesis using that [of "call_exception_handler x s1" "Inr ()"] d1 by (simp add: call_exception_handler_def)
    qed
  next
    case (Inr u)
    then show thesis using that [of s1 "Inr ()"] e qc d1 by (simp add: run_callback_def)
  qed
qed

text \<open>A drain takes a prefix of the queued callbacks, all of them unless it is aborted.\<close>

lemma drain_loop_tidy:
  assumes q: "tidy ucb"
  shows "in_callback_drain s \<Longrightarrow> callback_drain_task s = Some (current s) \<Longrightarrow> ready s = todo @ later \<Longrightarrow>
     \<exists>s' r taken rest new. drain_loop ucb (length todo) n s = (s', r) \<and> todo = taken @ rest
       \<and> cb_log s' = cb_log s @ taken \<and> ready s' = rest @ later @ new
       \<and> quiet_callback (s\<lparr>ready := [], cb_log := []\<rparr>) (s'\<lparr>ready := [], cb_log := []\<rparr>)
       \<and> (case r of Inr k \<Rightarrow> rest = [] \<and> k = n + length todo | Inl e \<Rightarrow> e \<in> aborting \<and> \<not> quiet ucb)"
proof (induction todo arbitrary: s n later)
  case Nil
  then show ?case by (auto simp: quiet_callback_def)
next
  case (Cons cb todo)
  let ?s = "s\<lparr>ready := todo @ later\<rparr>"
  have d: "in_callback_drain ?s" "callback_drain_task ?s = Some (current ?s)" using Cons.prems by simp_all
  obtain s1 r1 where s1: "run_callback ucb cb ?s = (s1, r1)" "cb_log s1 = cb_log ?s @ [cb]"
    "quiet_callback (?s\<lparr>cb_log := cb_log ?s @ [cb]\<rparr>) s1" "case r1 of Inr _ \<Rightarrow> True | Inl e \<Rightarrow> e \<in> aborting \<and> \<not> quiet ucb"
    using run_callback_tidy [OF q d, of cb] by blast
  let ?s1 = "s1\<lparr>batch_activity := Suc (batch_activity s1)\<rparr>"
  obtain new where r1: "ready ?s1 = todo @ (later @ new)"
    using s1(3) by (auto simp: quiet_callback_def)
  have d1: "in_callback_drain ?s1" "callback_drain_task ?s1 = Some (current ?s1)"
    using s1(3) d by (simp_all add: quiet_callback_def)
  have q1: "quiet_callback (s\<lparr>ready := [], cb_log := []\<rparr>) (?s1\<lparr>ready := [], cb_log := []\<rparr>)"
    "quiet_callback (s\<lparr>ready := [], cb_log := []\<rparr>) (s1\<lparr>ready := [], cb_log := []\<rparr>)"
    using s1(3) by (auto simp: quiet_callback_def)
  show ?case
  proof (cases r1)
    case (Inl e)
    then show ?thesis
      using s1 Cons.prems(3) r1 q1(2)
      by (intro exI [of _ s1] exI [of _ "Inl e"] exI [of _ "[cb]"] exI [of _ todo] exI [of _ new]) simp
  next
    case (Inr u)
    obtain s' r taken rest new' where s': "drain_loop ucb (length todo) (Suc n) ?s1 = (s', r)" "todo = taken @ rest"
      "cb_log s' = cb_log ?s1 @ taken" "ready s' = rest @ (later @ new) @ new'"
      "quiet_callback (?s1\<lparr>ready := [], cb_log := []\<rparr>) (s'\<lparr>ready := [], cb_log := []\<rparr>)"
      "case r of Inr k \<Rightarrow> rest = [] \<and> k = Suc n + length todo | Inl e \<Rightarrow> e \<in> aborting \<and> \<not> quiet ucb"
      using Cons.IH [OF d1 r1, of "Suc n"] by blast
    have "quiet_callback (s\<lparr>ready := [], cb_log := []\<rparr>) (s'\<lparr>ready := [], cb_log := []\<rparr>)"
      using q1(1) s'(5) by (rule quiet_callback_trans)
    moreover have "drain_loop ucb (length (cb # todo)) n s = (s', r)" using s1(1) s'(1) Inr Cons.prems(3) by simp
    moreover have "case r of Inr k \<Rightarrow> rest = [] \<and> k = n + length (cb # todo) | Inl e \<Rightarrow> e \<in> aborting \<and> \<not> quiet ucb"
      using s'(6) by (simp split: sum.splits)
    moreover have "cb_log s' = cb_log s @ cb # taken" "cb # todo = (cb # taken) @ rest" "ready s' = rest @ later @ new @ new'"
      using s' s1(2) by simp_all
    ultimately show ?thesis by blast
  qed
qed

text \<open>The armed timers: a heap whose entries name allocated handles.\<close>

definition timers_ok :: "world \<Rightarrow> bool" where
  "timers_ok s \<longleftrightarrow> is_heap timer_key (timers s) \<and> (\<forall>e \<in> set (timers s). snd e < timer_sequence s)"

definition live :: "world \<Rightarrow> (int \<times> nat) list \<Rightarrow> (int \<times> nat) list" where
  "live s es = [e \<leftarrow> es. \<not> h_cancelled (handles s (snd e))]"

definition due_callbacks :: "world \<Rightarrow> (int \<times> nat) list \<Rightarrow> callback list" where
  "due_callbacks s es = map (\<lambda>e. h_callback (handles s (snd e))) es"

lemma due_callbacks_cong:
  assumes "\<forall>e \<in> set es. snd e < k" "\<forall>h < k. handles s' h = handles s h"
  shows "due_callbacks s' es = due_callbacks s es"
  unfolding due_callbacks_def by (rule map_cong [OF refl]) (use assms in simp)

lemma pop_due_eq: "pop_due t h = (takeWhile (\<lambda>e. fst e \<le> t) h, dropWhile (\<lambda>e. fst e \<le> t) h)"
  by (induction h) auto

lemma heap_due_takeWhile:
  assumes "is_heap timer_key h"
  shows "takeWhile (\<lambda>e. fst e \<le> t) h = [e \<leftarrow> h. fst e \<le> t]"
    and "dropWhile (\<lambda>e. fst e \<le> t) h = [e \<leftarrow> h. \<not> fst e \<le> t]"
proof -
  have "map timer_key h = h" by (simp add: timer_key_def map_idI)
  then have "sorted h" using assms by (simp add: is_heap_def)
  then have "takeWhile (\<lambda>e. fst e \<le> t) h = [e \<leftarrow> h. fst e \<le> t]
    \<and> dropWhile (\<lambda>e. fst e \<le> t) h = [e \<leftarrow> h. \<not> fst e \<le> t]"
  proof (induction h)
    case (Cons e h)
    have gt: "\<not> fst e' \<le> t" if "\<not> fst e \<le> t" "e' \<in> set h" for e'
      using that Cons.prems by (cases e, cases e') fastforce
    show ?case using Cons gt by (auto simp: filter_empty_conv intro: filter_True [symmetric])
  qed simp
  then show "takeWhile (\<lambda>e. fst e \<le> t) h = [e \<leftarrow> h. fst e \<le> t]"
    and "dropWhile (\<lambda>e. fst e \<le> t) h = [e \<leftarrow> h. \<not> fst e \<le> t]" by simp_all
qed

lemma set_push_all [simp]: "set (push_all h es) = set h \<union> set es"
  by (induction es arbitrary: h) (auto simp: heappush_def set_insort_key)

lemma is_heap_push_all: "is_heap timer_key h \<Longrightarrow> is_heap timer_key (push_all h es)"
  by (induction es arbitrary: h) (auto simp: is_heap_push)

text \<open>The due timers: those that ran, and those that are armed again after an abort.\<close>

lemma run_due_tidy:
  assumes q: "tidy ucb"
  shows "in_callback_drain s \<Longrightarrow> callback_drain_task s = Some (current s) \<Longrightarrow>
     \<forall>e \<in> set due. snd e < timer_sequence s \<Longrightarrow>
     \<exists>s' r ran_now left. run_due ucb due n s = (s', r) \<and> live s due = ran_now @ left \<and> set left \<subseteq> set (timers s')
       \<and> cb_log s' = cb_log s @ due_callbacks s ran_now
       \<and> quiet_callback (s\<lparr>cb_log := []\<rparr>) (s'\<lparr>cb_log := []\<rparr>)
       \<and> (case r of Inr k \<Rightarrow> left = [] \<and> k = n + length ran_now | Inl e \<Rightarrow> e \<in> aborting \<and> \<not> quiet ucb)"
proof (induction due arbitrary: s n)
  case Nil
  then show ?case by (simp add: live_def due_callbacks_def quiet_callback_def)
next
  case (Cons e due)
  show ?case
  proof (cases "h_cancelled (handles s (snd e))")
    case True
    then show ?thesis using Cons.IH [of s n] Cons.prems by (simp add: live_def)
  next
    case False
    let ?cb = "h_callback (handles s (snd e))"
    obtain s1 r1 where s1: "run_callback ucb ?cb s = (s1, r1)" "cb_log s1 = cb_log s @ [?cb]"
      "quiet_callback (s\<lparr>cb_log := cb_log s @ [?cb]\<rparr>) s1" "case r1 of Inr _ \<Rightarrow> True | Inl x \<Rightarrow> x \<in> aborting \<and> \<not> quiet ucb"
      using run_callback_tidy [OF q Cons.prems(1,2)] by blast
    have l0: "live s (e # due) = e # live s due" using False by (simp add: live_def)
    show ?thesis
    proof (cases r1)
      case (Inl x)
      let ?s' = "s1\<lparr>timers := push_all (timers s1) due\<rparr>"
      have "run_due ucb (e # due) n s = (?s', Inl x)" using False s1(1) Inl by (simp add: handle_run_def)
      moreover have "quiet_callback (s\<lparr>cb_log := []\<rparr>) (?s'\<lparr>cb_log := []\<rparr>)"
        using s1(3) Cons.prems(3) is_heap_push_all unfolding quiet_callback_def by auto
      moreover have "set (live s due) \<subseteq> set (timers ?s')" by (auto simp: live_def)
      moreover have "cb_log ?s' = cb_log s @ due_callbacks s [e]" using s1(2) by (simp add: due_callbacks_def)
      ultimately show ?thesis using l0 s1(4) Inl
        by (intro exI [of _ ?s'] exI [of _ "Inl x"] exI [of _ "[e]"] exI [of _ "live s due"]) simp
    next
      case (Inr u)
      let ?s1 = "s1\<lparr>batch_activity := Suc (batch_activity s1)\<rparr>"
      have h: "\<forall>k < timer_sequence s. handles ?s1 k = handles s k"
        and d1: "in_callback_drain ?s1" "callback_drain_task ?s1 = Some (current ?s1)"
        and ts: "timer_sequence s \<le> timer_sequence ?s1"
        using s1(3) Cons.prems by (simp_all add: quiet_callback_def)
      have l: "live ?s1 due = live s due" using h Cons.prems(3) by (auto simp: live_def intro!: filter_cong)
      have "\<forall>e \<in> set due. snd e < timer_sequence ?s1" using Cons.prems(3) ts by fastforce
      from Cons.IH [OF d1 this, of "Suc n"] obtain s' r ran_now left where s':
        "run_due ucb due (Suc n) ?s1 = (s', r)" "live s due = ran_now @ left" "set left \<subseteq> set (timers s')"
        "cb_log s' = cb_log s1 @ due_callbacks ?s1 ran_now" "quiet_callback (?s1\<lparr>cb_log := []\<rparr>) (s'\<lparr>cb_log := []\<rparr>)"
        "case r of Inr k \<Rightarrow> left = [] \<and> k = Suc n + length ran_now | Inl e \<Rightarrow> e \<in> aborting \<and> \<not> quiet ucb"
        unfolding l by auto
      have sub: "set ran_now \<subseteq> set due" using s'(2) unfolding live_def by (metis Un_subset_iff filter_is_subset set_append)
      have c: "due_callbacks ?s1 ran_now = due_callbacks s ran_now"
        by (rule due_callbacks_cong [OF _ h]) (use Cons.prems(3) sub in auto)
      have "quiet_callback (s\<lparr>cb_log := []\<rparr>) (?s1\<lparr>cb_log := []\<rparr>)"
        using s1(3) by (simp add: quiet_callback_def)
      then have "quiet_callback (s\<lparr>cb_log := []\<rparr>) (s'\<lparr>cb_log := []\<rparr>)"
        using s'(5) by (rule quiet_callback_trans)
      moreover have "run_due ucb (e # due) n s = (s', r)" using False s1(1) s'(1) Inr by (simp add: handle_run_def)
      moreover have "cb_log s' = cb_log s @ due_callbacks s (e # ran_now)" using s'(4) s1(2) c by (simp add: due_callbacks_def)
      moreover have "case r of Inr k \<Rightarrow> left = [] \<and> k = n + length (e # ran_now) | Inl e \<Rightarrow> e \<in> aborting \<and> \<not> quiet ucb"
        using s'(6) by (simp split: sum.splits)
      moreover have "live s (e # due) = (e # ran_now) @ left" using l0 s'(2) by simp
      ultimately show ?thesis using s'(3) by blast
    qed
  qed
qed

lemma timers_ok_quiet: "quiet_callback s s' \<Longrightarrow> timers_ok s \<Longrightarrow> timers_ok s'"
  unfolding timers_ok_def quiet_callback_def by (meson less_le_trans)

text \<open>The second half of a drain: the due timers.\<close>

lemma due_phase_tidy:
  assumes q: "tidy ucb" and d: "in_callback_drain s" "callback_drain_task s = Some (current s)" and ok: "timers_ok s"
    and pd: "pop_due (now s) (timers s) = (popped, later)"
  shows "\<exists>s' r ran_now left. run_due ucb popped k (s\<lparr>timers := later\<rparr>) = (s', r) \<and> live s popped = ran_now @ left
    \<and> popped = [e \<leftarrow> timers s. fst e \<le> now s] \<and> later = [e \<leftarrow> timers s. \<not> fst e \<le> now s]
    \<and> set left \<subseteq> set (timers s') \<and> set later \<subseteq> set (timers s') \<and> cb_log s' = cb_log s @ due_callbacks s' ran_now
    \<and> sorted ran_now \<and> timers_ok s' \<and> (\<exists>new. ready s' = ready s @ new)
    \<and> (case r of Inr j \<Rightarrow> left = [] \<and> j = k + length ran_now | Inl e \<Rightarrow> e \<in> aborting \<and> \<not> quiet ucb)"
proof -
  have heap: "is_heap timer_key (timers s)" using ok by (simp add: timers_ok_def)
  have p: "popped = [e \<leftarrow> timers s. fst e \<le> now s]" "later = [e \<leftarrow> timers s. \<not> fst e \<le> now s]"
    using pd by (simp_all add: pop_due_eq heap_due_takeWhile [OF heap])
  let ?s2 = "s\<lparr>timers := later\<rparr>"
  have lt: "\<forall>e \<in> set popped. snd e < timer_sequence ?s2"
    using ok by (simp add: p timers_ok_def)
  have lv: "live ?s2 popped = live s popped" by (simp add: live_def)
  obtain s' r ran_now left where s': "run_due ucb popped k ?s2 = (s', r)"
    "live s popped = ran_now @ left" "set left \<subseteq> set (timers s')" "cb_log s' = cb_log ?s2 @ due_callbacks ?s2 ran_now"
    "quiet_callback (?s2\<lparr>cb_log := []\<rparr>) (s'\<lparr>cb_log := []\<rparr>)"
    "case r of Inr j \<Rightarrow> left = [] \<and> j = k + length ran_now | Inl e \<Rightarrow> e \<in> aborting \<and> \<not> quiet ucb"
    using run_due_tidy [OF q _ _ lt, of k] d unfolding lv by auto
  have mem: "set ran_now \<subseteq> set popped" using s'(2) unfolding live_def by (metis Un_subset_iff filter_is_subset set_append)
  have "due_callbacks s' ran_now = due_callbacks ?s2 ran_now"
    by (rule due_callbacks_cong [where k = "timer_sequence ?s2"]) (use s'(5) lt mem in \<open>auto simp: quiet_callback_def\<close>)
  then have log: "cb_log s' = cb_log s @ due_callbacks s' ran_now" using s'(4) by simp
  have "map timer_key (timers s) = timers s" by (simp add: timer_key_def map_idI)
  then have "sorted (timers s)" using heap by (simp add: is_heap_def)
  then have "sorted (live s popped)"
    by (simp add: live_def p sorted_filter [where f = "\<lambda>x. x", simplified] del: filter_filter)
  then have srt: "sorted ran_now" unfolding s'(2) sorted_append by simp
  have "timers_ok ?s2" using ok by (auto simp: timers_ok_def p is_heap_def timer_key_def sorted_filter)
  then have ok': "timers_ok s'" using timers_ok_quiet [OF s'(5)] by (simp add: timers_ok_def)
  have rdy: "\<exists>new. ready s' = ready s @ new" and lat: "set later \<subseteq> set (timers s')" using s'(5) by (auto simp: quiet_callback_def)
  show ?thesis
    by (rule exI [of _ s'], rule exI [of _ r], rule exI [of _ ran_now], rule exI [of _ left])
      (intro conjI s'(1-3,6) p lat log srt ok' rdy)
qed

text \<open>One drain, whatever its callbacks raise.  \<open>taken\<close>: the callbacks it took from the queue, \<open>ran_now\<close>: the timers it ran.\<close>

definition drained :: "(nat \<Rightarrow> unit act) \<Rightarrow> world \<Rightarrow> world \<Rightarrow> pyexn + nat \<Rightarrow> callback list \<Rightarrow> callback list \<Rightarrow> (int \<times> nat) list \<Rightarrow> bool" where
  "drained ucb s s' r taken rest ran_now \<longleftrightarrow>
     ready s = taken @ rest \<and> (\<exists>new. ready s' = rest @ new)
     \<and> cb_log s' = cb_log s @ taken @ due_callbacks s' ran_now
     \<and> sorted ran_now \<and> (\<forall>e \<in> set ran_now. fst e \<le> now s)
     \<and> (\<forall>e \<in> set (timers s). \<not> h_cancelled (handles s (snd e)) \<longrightarrow> e \<in> set ran_now \<or> e \<in> set (timers s'))
     \<and> (\<forall>e \<in> set (timers s). now s < fst e \<longrightarrow> e \<in> set (timers s')) \<and> timers_ok s'
     \<and> (case r of
          Inr k \<Rightarrow> rest = [] \<and> k = length taken + length ran_now
            \<and> (\<forall>e \<in> set (timers s). fst e \<le> now s \<and> \<not> h_cancelled (handles s (snd e)) \<longrightarrow> e \<in> set ran_now)
        | Inl e \<Rightarrow> e \<in> aborting \<and> \<not> quiet ucb)"

lemma run_ready_timers_body_tidy:
  assumes q: "tidy ucb" and d: "in_callback_drain s" "callback_drain_task s = Some (current s)"
    and ok: "timers_ok s"
  shows "\<exists>s' r taken rest ran_now. run_ready_timers_body ucb s = (s', r) \<and> drained ucb s s' r taken rest ran_now"
proof -
  obtain s1 r1 taken rest new where s1: "drain_ready_callbacks ucb s = (s1, r1)" "ready s = taken @ rest"
    "cb_log s1 = cb_log s @ taken" "ready s1 = rest @ new"
    "quiet_callback (s\<lparr>ready := [], cb_log := []\<rparr>) (s1\<lparr>ready := [], cb_log := []\<rparr>)"
    "case r1 of Inr k \<Rightarrow> rest = [] \<and> k = 0 + length (ready s) | Inl e \<Rightarrow> e \<in> aborting \<and> \<not> quiet ucb"
    using drain_loop_tidy [OF q d, of "ready s" "[]" 0] by (auto simp: drain_ready_callbacks_def)
  have now1: "now s1 = now s" and d1: "in_callback_drain s1" "callback_drain_task s1 = Some (current s1)"
    and h1: "\<forall>h < timer_sequence s. handles s1 h = handles s h" and sub: "set (timers s) \<subseteq> set (timers s1)"
    using s1(5) d by (simp_all add: quiet_callback_def)
  have ok1: "timers_ok s1" using timers_ok_quiet [OF s1(5)] ok by (simp add: timers_ok_def)
  show ?thesis
  proof (cases r1)
    case (Inl e)
    then have "drained ucb s s1 (Inl e) taken rest []"
      using s1 ok1 sub by (auto simp: drained_def due_callbacks_def)
    moreover have "run_ready_timers_body ucb s = (s1, Inl e)" using s1(1) Inl by (simp add: run_ready_timers_body_def)
    ultimately show ?thesis by blast
  next
    case (Inr k)
    then have all: "rest = []" "taken = ready s" "k = length taken" using s1(2,6) by auto
    obtain popped later where pd: "pop_due (now s1) (timers s1) = (popped, later)" by fastforce
    obtain s' r ran_now left where s': "run_due ucb popped k (s1\<lparr>timers := later\<rparr>) = (s', r)" "live s1 popped = ran_now @ left"
      "popped = [e \<leftarrow> timers s1. fst e \<le> now s1]" "later = [e \<leftarrow> timers s1. \<not> fst e \<le> now s1]"
      "set left \<subseteq> set (timers s')" "set later \<subseteq> set (timers s')" "cb_log s' = cb_log s1 @ due_callbacks s' ran_now"
      "sorted ran_now" "timers_ok s'" "\<exists>new. ready s' = ready s1 @ new"
      "case r of Inr j \<Rightarrow> left = [] \<and> j = k + length ran_now | Inl e \<Rightarrow> e \<in> aborting \<and> \<not> quiet ucb"
      using due_phase_tidy [OF q d1 ok1 pd, of k] by blast
    have u: "set ran_now \<union> set left = {e \<in> set (timers s1). fst e \<le> now s \<and> \<not> h_cancelled (handles s1 (snd e))}"
      using arg_cong [OF s'(2), of set] by (auto simp: live_def s'(3) now1)
    have due: "e \<in> set ran_now \<union> set left" if "e \<in> set (timers s)" "fst e \<le> now s" "\<not> h_cancelled (handles s (snd e))" for e
      unfolding u using that sub h1 ok by (auto simp: timers_ok_def)
    have late: "e \<in> set (timers s')" if "e \<in> set (timers s)" "now s < fst e" for e
      using that sub s'(4,6) by (auto simp: now1)
    have "e \<in> set ran_now \<or> e \<in> set (timers s')" if "e \<in> set (timers s)" "\<not> h_cancelled (handles s (snd e))" for e
      using due [OF that(1) _ that(2)] late [OF that(1)] s'(5) by (cases "fst e \<le> now s") auto
    moreover have "\<forall>e \<in> set ran_now. fst e \<le> now s" using u by auto
    moreover have "case r of Inr j \<Rightarrow> rest = [] \<and> j = length taken + length ran_now
         \<and> (\<forall>e \<in> set (timers s). fst e \<le> now s \<and> \<not> h_cancelled (handles s (snd e)) \<longrightarrow> e \<in> set ran_now)
        | Inl e \<Rightarrow> e \<in> aborting \<and> \<not> quiet ucb"
      using s'(11) all due by (cases r) auto
    ultimately have "drained ucb s s' r taken rest ran_now"
      unfolding drained_def using s1(2-4) s'(7-10) late all(1) by auto
    moreover have "run_ready_timers_body ucb s = (s', r)"
      using s1(1) pd s'(1) Inr by (simp add: run_ready_timers_body_def)
    ultimately show ?thesis by blast
  qed
qed

section \<open>The ready batch\<close>

text \<open>A task body that, until it gives control back, only makes further tasks runnable at the back of
  the queue (itself when it yields) and leaves the driver's bookkeeping alone.\<close>

definition cooperative :: "tid \<Rightarrow> (tid \<Rightarrow> world \<Rightarrow> world \<times> bool) \<Rightarrow> bool" where
  "cooperative r body \<longleftrightarrow>
     (\<forall>t s. t \<noteq> r \<longrightarrow> fifo_invar (runnable s) \<longrightarrow>
        (let s' = fst (body t s) in
          fifo_invar (runnable s') \<and> (\<exists>new. fq_items (runnable s') = fq_items (runnable s) @ new)
          \<and> n_scheduled s' = n_scheduled s \<and> runner s' = runner s \<and> target_count s' = target_count s
          \<and> switch_log s' = switch_log s \<and> tlink s' r = tlink s r))"

lemma task_unlink_simps [simp]:
  "switch_log (task_unlink t s) = switch_log s" "n_scheduled (task_unlink t s) = n_scheduled s"
  "runner (task_unlink t s) = runner s" "target_count (task_unlink t s) = target_count s"
  by (simp_all add: task_unlink_def link_unlink_def runnable_link_unlink_def event_unlink_def
      chan_unlink_waiter_def Let_def split: option.split link.split)

lemma find_target_pop:
  assumes "\<not> steal_to_runner explicit s" and "fq_items (runnable s) = t # rest" and "fifo_invar (runnable s)"
  shows "find_target task_exit explicit s =
    (set_link t None (s\<lparr>runnable := \<lparr>fq_items = rest, fq_set = set rest\<rparr>, n_scheduled := Suc (n_scheduled s)\<rparr>), Inr t)"
proof -
  have "fifo_pop_next (runnable s) = (\<lparr>fq_items = rest, fq_set = set rest\<rparr>, Inr t)"
    using assms(2,3) by (cases "runnable s") (simp add: fifo_pop_next_def fifo_invar_def)
  then show ?thesis
    using assms by (simp add: find_target_def has_runnable_work_def fifo_bool_def)
qed

lemma find_target_steal:
  assumes "steal_to_runner explicit s" and "runner s = Some r"
  shows "find_target task_exit explicit s = (set_link r None (task_unlink r s), Inr r)"
  using assms by (simp add: find_target_def)

text \<open>The loop from the moment a task is current: it visits the remaining \<open>rest\<close> tasks in order and
  then returns to the runner, whatever the bodies append.\<close>

lemma batch_loop_visits:
  assumes coop: "cooperative r body"
  shows "current s \<noteq> r \<Longrightarrow> fifo_invar (runnable s) \<Longrightarrow> fq_items (runnable s) = rest @ r # extra \<Longrightarrow>
     runner s = Some r \<Longrightarrow> tlink s r = Some RunLink \<Longrightarrow>
     target_count s = Some (n_scheduled s + length rest) \<Longrightarrow> length rest < fuel \<Longrightarrow>
     \<exists>s' new. batch_loop body r fuel s = Some s' \<and> switch_log s' = switch_log s @ rest @ [r]
       \<and> n_scheduled s' = n_scheduled s + length rest \<and> current s' = r
       \<and> fq_items (runnable s') = extra @ new \<and> fifo_invar (runnable s') \<and> tlink s' r = None"
proof (induction rest arbitrary: s fuel extra)
  case Nil
  obtain fuel' where fuel: "fuel = Suc fuel'" using Nil.prems by (cases fuel) auto
  obtain s1 x where b: "body (current s) s = (s1, x)" by fastforce
  obtain new where s1: "fifo_invar (runnable s1)" "fq_items (runnable s1) = (r # extra) @ new"
    "n_scheduled s1 = n_scheduled s" "runner s1 = Some r" "target_count s1 = Some (n_scheduled s)"
    "switch_log s1 = switch_log s" "tlink s1 r = Some RunLink"
    using coop Nil.prems b unfolding cooperative_def Let_def by (metis fst_conv append_Nil length_0_conv add_0_right)
  have st: "steal_to_runner False s1" using s1 by (simp add: steal_to_runner_def)
  have q: "fq_items (runnable (task_unlink r s1)) = extra @ new" "fifo_invar (runnable (task_unlink r s1))"
    using s1 by (auto simp: task_unlink_def link_unlink_def runnable_link_unlink_def fifo_discard_def fifo_invar_def)
  have "batch_loop body r fuel s = Some (tealet_switch r (set_link r None (task_unlink r s1)))"
    using Nil.prems(1) b by (simp add: batch_loop.simps fuel find_target_steal [OF st s1(4)] tealet_switch_def)
  then show ?case using q s1 by (simp add: tealet_switch_def)
next
  case (Cons t rest)
  obtain fuel' where fuel: "fuel = Suc fuel'" using Cons.prems by (cases fuel) auto
  obtain s1 x where b: "body (current s) s = (s1, x)" by fastforce
  obtain new where s1: "fifo_invar (runnable s1)" "fq_items (runnable s1) = (t # rest @ r # extra) @ new"
    "n_scheduled s1 = n_scheduled s" "runner s1 = Some r"
    "target_count s1 = Some (n_scheduled s + length (t # rest))"
    "switch_log s1 = switch_log s" "tlink s1 r = Some RunLink"
    using coop Cons.prems b unfolding cooperative_def Let_def by (metis fst_conv append_Cons)
  have st: "\<not> steal_to_runner False s1" using s1 by (simp add: steal_to_runner_def)
  have tr: "t \<noteq> r" using s1(1,2) by (auto simp: fifo_invar_def)
  have items: "fq_items (runnable s1) = t # (rest @ r # extra @ new)" using s1(2) by simp
  define s2 where "s2 = tealet_switch t (set_link t None (s1\<lparr>runnable :=
      \<lparr>fq_items = rest @ r # extra @ new, fq_set = set (rest @ r # extra @ new)\<rparr>, n_scheduled := Suc (n_scheduled s1)\<rparr>))"
  have step: "batch_loop body r fuel s = batch_loop body r fuel' s2"
    unfolding fuel using Cons.prems(1) b
    by (subst batch_loop.simps) (simp add: find_target_pop [OF st items s1(1)] s2_def)
  have "\<exists>s' new'. batch_loop body r fuel' s2 = Some s' \<and> switch_log s' = switch_log s2 @ rest @ [r]
       \<and> n_scheduled s' = n_scheduled s2 + length rest \<and> current s' = r
       \<and> fq_items (runnable s') = (extra @ new) @ new' \<and> fifo_invar (runnable s') \<and> tlink s' r = None"
    by (rule Cons.IH) (use s1 tr Cons.prems fuel in \<open>simp_all add: s2_def tealet_switch_def fifo_invar_def\<close>)
  then show ?case using s1(3,6) unfolding step by (force simp: s2_def tealet_switch_def)
qed

text \<open>What the batch starts from once callbacks and timers have run.\<close>

definition batch_ready :: "tid \<Rightarrow> nat \<Rightarrow> world \<Rightarrow> bool" where
  "batch_ready r start s \<longleftrightarrow>
     fifo_invar (runnable s) \<and> r \<notin> set (fq_items (runnable s)) \<and> fq_items (runnable s) \<noteq> []
     \<and> current s = r \<and> runner s = Some r \<and> n_scheduled s = start \<and> \<not> in_callback_drain s"

lemma park_current_back:
  assumes "current s \<notin> set (fq_items (runnable s))" and "fifo_invar (runnable s)" and "\<not> in_callback_drain s"
  obtains s1 where "park_current False s = (s1, Inr ())" and "sched_frame s s1"
    and "runnable s1 = \<lparr>fq_items = fq_items (runnable s) @ [current s], fq_set = insert (current s) (set (fq_items (runnable s)))\<rparr>"
    and "tlink s1 = (tlink s)(current s := Some RunLink)"
proof -
  have nc: "\<not> fifo_contains (runnable s) (current s)"
    using assms by (simp add: fifo_contains_def fifo_invar_def)
  have "park_current False s = make_runnable (current s) s" using assms(3) by (simp add: park_current_def)
  moreover have "fst (fifo_add (runnable s) (current s) None)
      = \<lparr>fq_items = fq_items (runnable s) @ [current s], fq_set = insert (current s) (set (fq_items (runnable s)))\<rparr>"
    using nc assms(2) by (cases "runnable s") (simp add: fifo_add_def fifo_contains_def fifo_invar_def)
  ultimately show thesis
    using that [of "fst (make_runnable (current s) s)"] make_runnable_ok [OF nc] make_runnable_frame [of s "current s"]
    by (metis prod.collapse)
qed

lemma batch_entry:
  assumes "batch_ready r start s" and "cooperative r body"
    and n: "n = length (fq_items (runnable s))" and "n \<le> fuel"
  obtains s3 s4 new where
    "sched_yield (s\<lparr>target_count := Some (start + n)\<rparr>) = (s3, Inr ())" and "batch_loop body r fuel s3 = Some s4"
    and "switch_log s4 = switch_log s @ fq_items (runnable s) @ [r]" and "n_scheduled s4 = start + n"
    and "current s4 = r" and "fq_items (runnable s4) = new" and "fifo_invar (runnable s4)"
proof -
  note rdy = assms(1) [unfolded batch_ready_def]
  let ?s = "s\<lparr>target_count := Some (start + n)\<rparr>"
  obtain t rest where items: "fq_items (runnable s) = t # rest" using rdy by (cases "fq_items (runnable s)") auto
  have pre: "current ?s \<notin> set (fq_items (runnable ?s))" "fifo_invar (runnable ?s)" "\<not> in_callback_drain ?s"
    using rdy by simp_all
  obtain s1 where s1: "park_current False ?s = (s1, Inr ())" "sched_frame ?s s1"
    "runnable s1 = \<lparr>fq_items = fq_items (runnable s) @ [r], fq_set = insert r (set (fq_items (runnable s)))\<rparr>"
    "tlink s1 = (tlink s)(r := Some RunLink)"
    using park_current_back [OF pre] rdy by auto
  have it1: "fq_items (runnable s1) = t # (rest @ [r])" and inv1: "fifo_invar (runnable s1)"
    using s1(3) items rdy by (auto simp: fifo_invar_def)
  have tc: "target_count s1 = Some (start + n)" "n_scheduled s1 = start" "runner s1 = Some r" "switch_log s1 = switch_log s"
    using s1(2) rdy by (simp_all add: sched_frame_def)
  have st: "\<not> steal_to_runner False s1" using tc n items by (simp add: steal_to_runner_def)
  define s3 where "s3 = tealet_switch t (set_link t None (s1\<lparr>runnable :=
      \<lparr>fq_items = rest @ [r], fq_set = set (rest @ [r])\<rparr>, n_scheduled := Suc (n_scheduled s1)\<rparr>))"
  have y: "sched_yield ?s = (s3, Inr ())"
    by (simp add: sched_yield_def schedule_def s1(1) find_target_pop [OF st it1 inv1] s3_def)
  have tr: "t \<noteq> r" using items rdy by auto
  have "\<exists>s4 new. batch_loop body r fuel s3 = Some s4 \<and> switch_log s4 = switch_log s3 @ rest @ [r]
       \<and> n_scheduled s4 = n_scheduled s3 + length rest \<and> current s4 = r
       \<and> fq_items (runnable s4) = [] @ new \<and> fifo_invar (runnable s4) \<and> tlink s4 r = None"
    by (rule batch_loop_visits [OF assms(2)])
      (use s1 tc tr items inv1 it1 n assms(4) in \<open>auto simp: s3_def tealet_switch_def fifo_invar_def\<close>)
  then show thesis
    using that [OF y] tc(2,4) items n by (auto simp: s3_def tealet_switch_def)
qed

text \<open>A body that yields: it makes itself runnable again and parks.\<close>

definition yielding_body :: "tid \<Rightarrow> world \<Rightarrow> world \<times> bool" where
  "yielding_body t s = (fst (make_runnable t s), False)"

lemma cooperative_yielding: "cooperative r yielding_body"
proof -
  have "fifo_invar (runnable s') \<and> (\<exists>new. fq_items (runnable s') = fq_items (runnable s) @ new) \<and> tlink s' r = tlink s r"
    if "t \<noteq> r" "fifo_invar (runnable s)" "s' = fst (make_runnable t s)" for t s s'
  proof (cases "fifo_contains (runnable s) t")
    case False
    with that make_runnable_ok [OF False] show ?thesis
      by (auto simp: fifo_add_def fifo_contains_def fifo_invar_def)
  qed (use that in \<open>simp add: make_runnable_def\<close>)
  moreover have "sched_frame s (fst (make_runnable t s))" for t s by (rule make_runnable_frame)
  ultimately show ?thesis
    by (simp add: cooperative_def yielding_body_def Let_def sched_frame_def)
qed

definition two_ready :: world where
  "two_ready = idle_world\<lparr>runnable := \<lparr>fq_items = [1, 2], fq_set = {1, 2}\<rparr>\<rparr>"

lemmas run_ready_timers_defs = run_ready_timers_def callback_drain_scope_def run_ready_timers_body_def
  drain_ready_callbacks_def

section \<open>Properties\<close>




text \<open>Callback 1 queues callback 9, callback 2 raises, and timers for the callbacks 3 and 4 are due; the first of
  them exits the program, and the second is armed again.\<close>

definition sample_ucb :: "nat \<Rightarrow> unit act" where
  "sample_ucb n s = (if n = 1 then (call_soon (CbUser 9) s, Inr ()) else if n = 2 then (s, Inl ValueErr)
     else if n = 3 then (s, Inl SystemExitErr) else (s, Inr ()))"

definition sample_timers :: world where
  "sample_timers = (enqueue_timer 0 (CbUser 4) (enqueue_timer 0 (CbUser 3) idle_world))\<lparr>ready := [CbUser 1, CbUser 2]\<rparr>"

lemma tidy_sample_ucb: "tidy sample_ucb"
  by (simp add: tidy_def quiet_callback_def sample_ucb_def call_soon_def)

lemma sample_timers_eval:
  "timers sample_timers = [(0, 0), (0, 1)]" "now sample_timers = 0" "\<not> in_callback_drain sample_timers" "cb_log sample_timers = []"
  "\<not> h_cancelled (handles sample_timers 1)" "h_callback (handles sample_timers 0) = CbUser 3" "timer_sequence sample_timers = 2"
  by (simp_all add: sample_timers_def enqueue_timer_def idle_world_def heappush_def timer_key_def Let_def)


end
