(* ===== verification/Events.thy ===== *)
theory Events
  imports Scheduler_Facts
begin

text \<open>
  \<open>Event\<close>, \<open>PulseEvent\<close> and \<open>CrossThreadEvent\<close> of \<open>tealetio/locks.py\<close> over the scheduling core.
  \<open>swait\<close> is cut where the caller is switched away: a begin segment, and the \<open>except\<close> block that runs
  when an exception is thrown into the parked caller (a normal resumption just returns \<open>True\<close>).
  \<open>links_ok\<close> relates waiter lists, runnable queue, queued wakes and \<open>Task.link\<close>; \<open>ev_step\<close> is the
  system of tasks that wait, set, clear, yield and throw while the driver runs queued wakes.
\<close>

section \<open>Operations\<close>

definition event_link :: "eid \<Rightarrow> tid \<Rightarrow> unit act" where
  "event_link e t s =
     (if tlink s t \<noteq> None then (s, Inl AssertionErr)
      else if t \<in> set (ev_waiters (events s e)) then (s, Inl AssertionErr)
      else (upd_event e (\<lambda>ev. ev\<lparr>ev_waiters := ev_waiters ev @ [t]\<rparr>) (set_link t (Some (EvLink e)) s), Inr ()))"

text \<open>The blocking part of \<open>swait\<close>, the same in the three classes (it is the whole of
  \<open>PulseEvent.swait\<close>).\<close>

definition pulse_swait :: "eid \<Rightarrow> world \<Rightarrow> world \<times> bool outcome" where
  "pulse_swait e s =
     (let cur = current s in
      case schedule (event_link e cur) False s of
        (s1, Inl x) \<Rightarrow> (event_unlink e cur s1, Raise x)
      | (s1, Inr _) \<Rightarrow> (s1, Parked))"

definition event_swait :: "eid \<Rightarrow> world \<Rightarrow> world \<times> bool outcome" where
  "event_swait e s = (if ev_is_set (events s e) then (s, Ret True) else pulse_swait e s)"

definition ct_event_swait :: "eid \<Rightarrow> world \<Rightarrow> world \<times> bool outcome" where
  "ct_event_swait e s = (if ev_is_set (events s e) then (s, Ret True) else pulse_swait e s)"

text \<open>An exception surfaces in the parked caller: the \<open>except BaseException\<close> block.\<close>

definition swait_throw :: "eid \<Rightarrow> tid \<Rightarrow> world \<Rightarrow> world" where
  "swait_throw e t s = (event_unlink e t s)\<lparr>inflight := None\<rparr>"

definition event_wait :: "eid \<Rightarrow> nat \<Rightarrow> world \<Rightarrow> world \<times> bool outcome" where
  "event_wait e fut s =
     (if ev_is_set (events s e) then (s, Ret True)
      else (upd_event e (\<lambda>ev. ev\<lparr>ev_async := ev_async ev @ [fut]\<rparr>) s, Parked))"

definition event_wait_finally :: "eid \<Rightarrow> nat \<Rightarrow> world \<Rightarrow> world" where
  "event_wait_finally e fut s = upd_event e (\<lambda>ev. ev\<lparr>ev_async := remove1 fut (ev_async ev)\<rparr>) s"

definition event_set :: "(nat \<Rightarrow> unit act) \<Rightarrow> eid \<Rightarrow> unit act" where
  "event_set ucb e s =
     (let waiters = ev_waiters (events s e);
          async_waiters = ev_async (events s e);
          s1 = upd_event e (\<lambda>ev. ev\<lparr>ev_is_set := True, ev_waiters := [], ev_async := []\<rparr>) s
      in case (if waiters = [] then (s1, Inr ()) else call_on_scheduler ucb (CbWake waiters) s1) of
           (s2, Inl x) \<Rightarrow> (s2, Inl x)
         | (s2, Inr _) \<Rightarrow> (s2\<lparr>aio_done := aio_done s2 \<union> set async_waiters\<rparr>, Inr ()))"

definition event_clear :: "eid \<Rightarrow> world \<Rightarrow> world" where
  "event_clear e s = upd_event e (\<lambda>ev. ev\<lparr>ev_is_set := False\<rparr>) s"

definition event_is_set :: "eid \<Rightarrow> world \<Rightarrow> bool" where
  "event_is_set e s = ev_is_set (events s e)"

definition pulse_set :: "eid \<Rightarrow> unit act" where
  "pulse_set e s =
     (if ev_waiters (events s e) = [] then (s, Inr ())
      else (case make_runnable_all (ev_waiters (events s e)) s of
              (s1, Inl x) \<Rightarrow> (s1, Inl x)
            | (s1, Inr _) \<Rightarrow> (upd_event e (\<lambda>ev. ev\<lparr>ev_waiters := []\<rparr>) s1, Inr ())))"

text \<open>One turn of the loop of \<open>swait_for\<close>: it is run at entry and again after every wake.\<close>

definition pulse_swait_for :: "(world \<Rightarrow> bool) \<Rightarrow> eid \<Rightarrow> world \<Rightarrow> world \<times> bool outcome" where
  "pulse_swait_for predicate e s = (if predicate s then (s, Ret True) else pulse_swait e s)"

definition ct_event_set :: "(nat \<Rightarrow> unit act) \<Rightarrow> eid \<Rightarrow> unit act" where
  "ct_event_set ucb e s = call_on_scheduler ucb (CbEventSet e) s"

section \<open>The link invariant\<close>

definition pending_wakes :: "callback list \<Rightarrow> tid list" where
  "pending_wakes cbs = concat (map (\<lambda>cb. case cb of CbWake ts \<Rightarrow> ts | _ \<Rightarrow> []) cbs)"

definition links_ok :: "tid fifo \<Rightarrow> (tid \<Rightarrow> link option) \<Rightarrow> (eid \<Rightarrow> event) \<Rightarrow> tid list \<Rightarrow> bool" where
  "links_ok rq lk ev pend \<longleftrightarrow>
     fifo_invar rq \<and> (\<forall>t. t \<in> fq_set rq \<longleftrightarrow> lk t = Some RunLink)
     \<and> (\<forall>e. distinct (ev_waiters (ev e)))
     \<and> (\<forall>e t. t \<in> set (ev_waiters (ev e)) \<longrightarrow> lk t = Some (EvLink e) \<and> t \<notin> set pend)
     \<and> (\<forall>e t. lk t = Some (EvLink e) \<longrightarrow> t \<in> set (ev_waiters (ev e)) \<or> t \<in> set pend)
     \<and> distinct pend \<and> (\<forall>t \<in> set pend. \<exists>e. lk t = Some (EvLink e))
     \<and> (\<forall>e. ev_is_set (ev e) \<longrightarrow> ev_waiters (ev e) = [])"

definition wf_world :: "world \<Rightarrow> bool" where
  "wf_world s \<longleftrightarrow>
     links_ok (runnable s) (tlink s) (events s) (pending_wakes (ready s)) \<and> tlink s (current s) = None
     \<and> (\<forall>r. runner s = Some r \<longrightarrow> r \<noteq> current s \<longrightarrow> tlink s r = Some RunLink)"

lemma pending_wakes_simps [simp]:
  "pending_wakes [] = []" "pending_wakes (cbs @ cbs') = pending_wakes cbs @ pending_wakes cbs'"
  "pending_wakes (CbWake ts # cbs) = ts @ pending_wakes cbs" "pending_wakes (CbEventSet e # cbs) = pending_wakes cbs"
  by (simp_all add: pending_wakes_def)

lemma links_ok_waiter_unique:
  assumes "links_ok rq lk ev pend" and "t \<in> set (ev_waiters (ev ea))" and "t \<in> set (ev_waiters (ev e))"
  shows "ea = e"
proof -
  have "lk t = Some (EvLink ea)" "lk t = Some (EvLink e)" using assms unfolding links_ok_def by blast+
  then show ?thesis by simp
qed

lemma links_ok_link:
  assumes "links_ok rq lk ev pend" and "lk t = None" and "\<not> ev_is_set (ev e)"
  shows "links_ok rq (lk(t := Some (EvLink e))) (ev(e := (ev e)\<lparr>ev_waiters := ev_waiters (ev e) @ [t]\<rparr>)) pend"
  using assms unfolding links_ok_def by (intro conjI allI impI ballI) (auto split: if_splits)

lemma links_ok_pop:
  assumes "links_ok rq lk ev pend" and "fq_items rq = t # rest"
  shows "links_ok \<lparr>fq_items = rest, fq_set = set rest\<rparr> (lk(t := None)) ev pend"
proof -
  have "lk t = Some RunLink" "t \<notin> set rest" using assms by (auto simp: links_ok_def fifo_invar_def)
  with assms show ?thesis unfolding links_ok_def fifo_invar_def by (intro conjI allI impI ballI) (auto split: if_splits)
qed

lemma links_ok_discard:
  assumes "links_ok rq lk ev pend" and "lk t = Some RunLink"
  shows "links_ok (fst (fifo_discard rq t)) (lk(t := None)) ev pend"
proof -
  have "t \<in> fq_set rq" using assms by (simp add: links_ok_def)
  then have "fq_set (fst (fifo_discard rq t)) = fq_set rq - {t}" "fifo_invar (fst (fifo_discard rq t))"
    using assms by (auto simp: fifo_discard_def links_ok_def fifo_invar_def)
  with assms show ?thesis unfolding links_ok_def by (intro conjI allI impI ballI) (auto split: if_splits)
qed

lemma links_ok_add:
  assumes "links_ok rq lk ev pend" and "lk t = None"
  shows "links_ok (fst (fifo_add rq t p)) (lk(t := Some RunLink)) ev pend"
proof -
  have "t \<notin> fq_set rq" using assms by (simp add: links_ok_def)
  then have "fq_set (fst (fifo_add rq t p)) = insert t (fq_set rq)" "fifo_invar (fst (fifo_add rq t p))"
    using assms by (auto simp: fifo_add_def links_ok_def fifo_invar_def split: option.split)
  with assms show ?thesis unfolding links_ok_def by (intro conjI allI impI ballI) (auto split: if_splits)
qed

text \<open>A queued wake is delivered.\<close>

lemma links_ok_wake:
  assumes "links_ok rq lk ev (t # pend)"
  shows "links_ok (fst (fifo_add rq t None)) (lk(t := Some RunLink)) ev pend" and "t \<notin> fq_set rq"
proof -
  obtain e where e: "lk t = Some (EvLink e)" using assms by (auto simp: links_ok_def)
  then show nt: "t \<notin> fq_set rq" using assms by (simp add: links_ok_def)
  then have "fq_set (fst (fifo_add rq t None)) = insert t (fq_set rq)" "fifo_invar (fst (fifo_add rq t None))"
    using assms by (auto simp: fifo_add_def links_ok_def fifo_invar_def)
  with assms e show "links_ok (fst (fifo_add rq t None)) (lk(t := Some RunLink)) ev pend"
    unfolding links_ok_def by (intro conjI allI impI ballI) (auto split: if_splits)
qed

text \<open>\<open>set\<close> moves the waiters of an event to the pending wakes.\<close>

lemma links_ok_swap:
  assumes "links_ok rq lk ev pend"
  shows "links_ok rq lk (ev(e := (ev e)\<lparr>ev_is_set := b, ev_waiters := [], ev_async := a\<rparr>))
    (ev_waiters (ev e) @ pend)"
proof -
  have disj: "ea = e" if "t \<in> set (ev_waiters (ev ea))" "t \<in> set (ev_waiters (ev e))" for t ea
    using links_ok_waiter_unique [OF assms that] .
  have lk: "lk t = Some (EvLink e)" if "t \<in> set (ev_waiters (ev e))" for t
    using assms that unfolding links_ok_def by blast
  show ?thesis
    using assms disj lk unfolding links_ok_def by (intro conjI allI impI ballI) (auto split: if_splits)
qed

lemma links_ok_unlink:
  assumes "links_ok rq lk ev pend" and "t \<in> set (ev_waiters (ev e))"
  shows "links_ok rq (lk(t := None)) (ev(e := (ev e)\<lparr>ev_waiters := remove1 t (ev_waiters (ev e))\<rparr>)) pend"
proof -
  have d: "set (remove1 t (ev_waiters (ev e))) = set (ev_waiters (ev e)) - {t}"
    using assms by (simp add: links_ok_def set_remove1_eq)
  have te: "lk t = Some (EvLink e)" using assms by (simp add: links_ok_def)
  have disj: "ea \<noteq> e \<longrightarrow> t \<notin> set (ev_waiters (ev ea))" for ea
    using links_ok_waiter_unique [OF assms(1) _ assms(2)] by blast
  show ?thesis
    using assms te disj unfolding links_ok_def by (intro conjI allI impI ballI) (auto simp: d split: if_splits)
qed

lemma links_ok_mset:
  assumes "links_ok rq lk ev pend" and "mset pend = mset pend'"
  shows "links_ok rq lk ev pend'"
proof -
  have "set pend = set pend'" "distinct pend = distinct pend'"
    using assms(2) mset_eq_setD mset_eq_imp_distinct_iff by blast+
  with assms(1) show ?thesis by (simp add: links_ok_def)
qed

lemma links_ok_clear_link:
  assumes "links_ok rq lk ev pend" and "lk t \<noteq> Some RunLink" and "\<forall>e. lk t \<noteq> Some (EvLink e)"
  shows "links_ok rq (lk(t := None)) ev pend"
  using assms unfolding links_ok_def by (intro conjI allI impI ballI) (auto split: if_splits)

lemma links_ok_flag_off: "links_ok rq lk ev pend \<Longrightarrow> links_ok rq lk (ev(e := (ev e)\<lparr>ev_is_set := False\<rparr>)) pend"
  unfolding links_ok_def by (intro conjI allI impI ballI) (auto split: if_splits)

section \<open>Waking\<close>

text \<open>All of \<open>ts\<close> appended to the runnable queue.\<close>

definition wake_queue :: "tid list \<Rightarrow> tid fifo \<Rightarrow> tid fifo" where
  "wake_queue ts rq = \<lparr>fq_items = fq_items rq @ ts, fq_set = fq_set rq \<union> set ts\<rparr>"

definition wake_links :: "tid list \<Rightarrow> (tid \<Rightarrow> link option) \<Rightarrow> tid \<Rightarrow> link option" where
  "wake_links ts lk = (\<lambda>t. if t \<in> set ts then Some RunLink else lk t)"

lemma make_runnable_all_fresh:
  "distinct ts \<Longrightarrow> \<forall>t \<in> set ts. t \<notin> fq_set (runnable s) \<Longrightarrow>
   snd (make_runnable_all ts s) = Inr () \<and> runnable (fst (make_runnable_all ts s)) = wake_queue ts (runnable s)
   \<and> tlink (fst (make_runnable_all ts s)) = wake_links ts (tlink s)"
proof (induction ts arbitrary: s)
  case Nil
  then show ?case by (cases "runnable s") (simp add: wake_queue_def wake_links_def)
next
  case (Cons t ts)
  have nt: "\<not> fifo_contains (runnable s) t" using Cons.prems by (simp add: fifo_contains_def)
  obtain s0 where s0: "make_runnable t s = (s0, Inr ())" "tlink s0 = (tlink s)(t := Some RunLink)"
    "runnable s0 = fst (fifo_add (runnable s) t None)"
    using make_runnable_ok [OF nt] by (metis prod.collapse)
  have r0: "runnable s0 = \<lparr>fq_items = fq_items (runnable s) @ [t], fq_set = insert t (fq_set (runnable s))\<rparr>"
    using nt s0(3) by (cases "runnable s") (simp add: fifo_add_def fifo_contains_def)
  then have "\<forall>u \<in> set ts. u \<notin> fq_set (runnable s0)" using Cons.prems by auto
  with Cons.IH [of s0] Cons.prems s0(1,2) r0 show ?case
    by (auto simp: wake_queue_def wake_links_def fun_eq_iff)
qed

lemma links_ok_wake_all:
  assumes "links_ok rq lk ev (ts @ pend)"
  shows "links_ok (wake_queue ts rq) (wake_links ts lk) ev pend" and "distinct ts" and "\<forall>t \<in> set ts. t \<notin> fq_set rq"
proof -
  show d: "distinct ts" using assms by (simp add: links_ok_def)
  have l: "\<exists>e. lk t = Some (EvLink e)" if "t \<in> set ts" for t using assms that unfolding links_ok_def by simp
  show f: "\<forall>t \<in> set ts. t \<notin> fq_set rq"
  proof
    fix t assume "t \<in> set ts"
    then obtain e where "lk t = Some (EvLink e)" using l by blast
    then show "t \<notin> fq_set rq" using assms unfolding links_ok_def by simp
  qed
  show "links_ok (wake_queue ts rq) (wake_links ts lk) ev pend"
    using assms d f unfolding links_ok_def fifo_invar_def wake_queue_def wake_links_def
    by (intro conjI allI impI ballI) (auto split: if_splits)
qed

lemma make_runnable_all_wake:
  assumes "links_ok (runnable s) (tlink s) ev (ts @ pend)"
  obtains s1 where "make_runnable_all ts s = (s1, Inr ())" and "sched_frame s s1" and "events s1 = events s"
    and "links_ok (runnable s1) (tlink s1) ev pend"
    and "fq_items (runnable s1) = fq_items (runnable s) @ ts" and "tlink s1 = wake_links ts (tlink s)"
proof (rule that)
  let ?s1 = "fst (make_runnable_all ts s)"
  have r: "snd (make_runnable_all ts s) = Inr ()" "runnable ?s1 = wake_queue ts (runnable s)"
    "tlink ?s1 = wake_links ts (tlink s)"
    using make_runnable_all_fresh [OF links_ok_wake_all(2,3) [OF assms]] by simp_all
  show "make_runnable_all ts s = (?s1, Inr ())" using r(1) by (simp add: prod_eq_iff)
  show "sched_frame s ?s1" "events ?s1 = events s" using make_runnable_all_frame by blast+
  show "links_ok (runnable ?s1) (tlink ?s1) ev pend" using links_ok_wake_all(1) [OF assms] r by simp
  show "fq_items (runnable ?s1) = fq_items (runnable s) @ ts" "tlink ?s1 = wake_links ts (tlink s)"
    using r by (simp_all add: wake_queue_def)
qed

lemma wf_after_wake:
  assumes "links_ok (runnable s1) (tlink s1) ev pend" and "events s1 = ev"
    and "tlink s1 = wake_links ts (tlink s)"
    and "sched_frame s0 s1" and "current s0 = current s" and "runner s0 = runner s"
    and "pend = pending_wakes (ready s0)" and "wf_world s" and "current s \<notin> set ts"
  shows "wf_world s1"
  using assms by (simp add: wf_world_def sched_frame_def wake_links_def)

section \<open>Parking and switching\<close>

abbreviation linked_ok :: "world \<Rightarrow> bool" where
  "linked_ok s \<equiv> links_ok (runnable s) (tlink s) (events s) (pending_wakes (ready s))"

text \<open>The driver, when it is not running, is parked in the runnable queue.\<close>

definition runner_parked :: "world \<Rightarrow> bool" where
  "runner_parked s \<longleftrightarrow> (\<forall>r. runner s = Some r \<longrightarrow> tlink s r = Some RunLink)"

lemma find_target_cases:
  assumes "linked_ok s" and "runner_parked s"
  shows "find_target False explicit s = (s, Inl DeadlockErr) \<and> fq_items (runnable s) = [] \<or>
    (\<exists>s' t. find_target False explicit s = (s', Inr t) \<and> linked_ok s' \<and> tlink s' = (tlink s)(t := None)
       \<and> runner s' = runner s \<and> tlink s t = Some RunLink \<and> events s' = events s)"
proof (cases "steal_to_runner explicit s")
  case True
  then obtain r where r: "runner s = Some r" by (auto simp: steal_to_runner_def)
  then have l: "tlink s r = Some RunLink" using assms(2) by (simp add: runner_parked_def)
  let ?s' = "set_link r None (task_unlink r s)"
  have u: "task_unlink r s = (runnable_link_unlink r s)\<lparr>pending_async_waits := pending_async_waits s - {r}\<rparr>"
    by (simp add: task_unlink_def l link_unlink_def runnable_link_unlink_def)
  have "linked_ok ?s'"
    using links_ok_discard [OF assms(1) l] by (simp add: u runnable_link_unlink_def)
  then show ?thesis
    using r l by (intro disjI2 exI [of _ ?s'] exI [of _ r])
      (simp add: find_target_steal [OF True r] u runnable_link_unlink_def)
next
  case False
  show ?thesis
  proof (cases "fq_items (runnable s)")
    case Nil
    then show ?thesis using False by (simp add: find_target_def has_runnable_work_def fifo_bool_def)
  next
    case (Cons t rest)
    have "fifo_invar (runnable s)" using assms(1) by (simp add: links_ok_def)
    note f = find_target_pop [OF False Cons this]
    have "tlink s t = Some RunLink" using assms(1) Cons by (auto simp: links_ok_def fifo_invar_def)
    then show ?thesis using links_ok_pop [OF assms(1) Cons] by (auto simp: f)
  qed
qed

lemma wf_switch:
  assumes "linked_ok s'" and "tlink s' = (tlink s)(t := None)" and "runner s' = runner s" and "runner_parked s"
  shows "wf_world (tealet_switch t s')"
  using assms by (auto simp: wf_world_def tealet_switch_def runner_parked_def)

lemma runner_parked_link:
  assumes "wf_world s" and "tlink s1 = (tlink s)(current s := Some l)" and "runner s1 = runner s"
    and "runner s = Some (current s) \<Longrightarrow> l = RunLink"
  shows "runner_parked s1"
  using assms by (auto simp: wf_world_def runner_parked_def)

lemma wf_event_unlink_current:
  assumes "linked_ok s" and "t \<in> set (ev_waiters (events s e))" and "current s = t" and "runner_parked s"
    and "runner s \<noteq> Some t"
  shows "wf_world (event_unlink e t s)"
  using links_ok_unlink [OF assms(1,2)] assms(2-) by (auto simp: wf_world_def event_unlink_def runner_parked_def)

lemma pulse_swait_wf:
  assumes wf: "wf_world s" and cur: "runner s \<noteq> Some (current s)" and nset: "\<not> ev_is_set (events s e)"
  shows "wf_world (fst (pulse_swait e s))"
proof -
  let ?c = "current s"
  have c: "tlink s ?c = None" and ok: "linked_ok s" using wf by (simp_all add: wf_world_def)
  then have nw: "?c \<notin> set (ev_waiters (events s e))" by (auto simp: links_ok_def)
  define s1 where "s1 = upd_event e (\<lambda>ev. ev\<lparr>ev_waiters := ev_waiters ev @ [?c]\<rparr>) (set_link ?c (Some (EvLink e)) s)"
  have l: "event_link e ?c s = (s1, Inr ())" using c nw by (simp add: event_link_def s1_def)
  have ok1: "linked_ok s1" using links_ok_link [OF ok c nset] by (simp add: s1_def)
  have par: "runner_parked s1" using runner_parked_link [OF wf, of s1] cur by (simp add: s1_def)
  from find_target_cases [OF ok1 par, of False] show ?thesis
  proof (elim disjE exE conjE)
    assume f: "find_target False False s1 = (s1, Inl DeadlockErr)"
    have "wf_world (event_unlink e ?c s1)"
      using wf_event_unlink_current [OF ok1 _ _ par, of ?c e] cur by (simp add: s1_def)
    then show ?thesis by (simp add: pulse_swait_def schedule_def l f)
  next
    fix s' t
    assume f: "find_target False False s1 = (s', Inr t)" and "linked_ok s'" "tlink s' = (tlink s1)(t := None)"
      "runner s' = runner s1"
    then have "wf_world (tealet_switch t s')" using wf_switch par by blast
    then show ?thesis by (simp add: pulse_swait_def schedule_def l f)
  qed
qed

lemma event_swait_wf:
  assumes "wf_world s" and "runner s \<noteq> Some (current s)"
  shows "wf_world (fst (event_swait e s))"
  using assms pulse_swait_wf by (simp add: event_swait_def)

lemma park_current_ok:
  assumes "linked_ok s" and "tlink s (current s) = None"
  obtains s1 where "park_current resume_next s = (s1, Inr ())" and "sched_frame s s1" and "events s1 = events s"
    and "linked_ok s1" and "tlink s1 = (tlink s)(current s := Some RunLink)"
proof -
  let ?c = "current s"
  have nc: "\<not> fifo_contains (runnable s) ?c" using assms by (simp add: links_ok_def fifo_contains_def)
  show thesis
  proof (cases "resume_next \<or> (in_callback_drain s \<and> callback_drain_task s = Some ?c)")
    case True
    let ?s1 = "set_link ?c (Some RunLink) (s\<lparr>runnable := fst (fifo_add (runnable s) ?c (Some 0))\<rparr>)"
    have "park_current resume_next s = (?s1, Inr ())"
      using True nc by (simp add: park_current_def make_runnable_next_def Let_def)
    then show thesis using that [of ?s1] links_ok_add [OF assms(1,2)] by (simp add: sched_frame_def)
  next
    case False
    let ?s1 = "fst (make_runnable ?c s)"
    have f: "sched_frame s ?s1" by (rule make_runnable_frame)
    have "park_current resume_next s = (?s1, Inr ())"
      using False make_runnable_ok [OF nc] by (auto simp: park_current_def prod_eq_iff)
    moreover have "linked_ok ?s1" using links_ok_add [OF assms(1,2)] make_runnable_ok [OF nc] f by (simp add: sched_frame_def)
    ultimately show thesis using that [of ?s1] make_runnable_ok [OF nc] f by simp
  qed
qed

lemma sched_yield_wf:
  assumes wf: "wf_world s"
  shows "wf_world (fst (sched_yield s))"
proof -
  have ok: "linked_ok s" and c: "tlink s (current s) = None" using wf by (simp_all add: wf_world_def)
  obtain s1 where s1: "park_current False s = (s1, Inr ())" "sched_frame s s1" "linked_ok s1"
    "tlink s1 = (tlink s)(current s := Some RunLink)"
    using park_current_ok [OF ok c] by blast
  have par: "runner_parked s1" using runner_parked_link [OF wf s1(4)] s1(2) by (simp add: sched_frame_def)
  have "current s \<in> fq_set (runnable s1)" "fifo_invar (runnable s1)" using s1(3,4) by (simp_all add: links_ok_def)
  then have "fq_items (runnable s1) \<noteq> []" by (auto simp: fifo_invar_def)
  with find_target_cases [OF s1(3) par, of False] obtain s' t where
    "find_target False False s1 = (s', Inr t)" "linked_ok s'" "tlink s' = (tlink s1)(t := None)" "runner s' = runner s1"
    by blast
  then show ?thesis using wf_switch [OF _ _ _ par] s1(1) by (simp add: sched_yield_def schedule_def)
qed

section \<open>Setting, delivering and throwing\<close>

lemma wf_no_pending_current:
  assumes "wf_world s"
  shows "current s \<notin> set (ev_waiters (events s e))" and "current s \<notin> set (pending_wakes (ready s))"
  using assms by (auto simp: wf_world_def links_ok_def)

text \<open>Running a \<open>CbWake\<close> whose tasks still wait: all of them are appended to the runnable queue.\<close>

lemma run_callback_wake:
  assumes "links_ok (runnable s) (tlink s) (events s) (ts @ pending_wakes (ready s))"
  obtains s1 where "run_callback ucb (CbWake ts) s = (s1, Inr ())"
    and "sched_frame (s\<lparr>cb_log := cb_log s @ [CbWake ts]\<rparr>) s1" and "events s1 = events s"
    and "links_ok (runnable s1) (tlink s1) (events s) (pending_wakes (ready s))"
    and "fq_items (runnable s1) = fq_items (runnable s) @ ts"
    and "tlink s1 = wake_links ts (tlink s)"
proof -
  let ?s = "s\<lparr>cb_log := cb_log s @ [CbWake ts]\<rparr>"
  have "links_ok (runnable ?s) (tlink ?s) (events ?s) (ts @ pending_wakes (ready s))" using assms by simp
  then obtain s1 where "make_runnable_all ts ?s = (s1, Inr ())" "sched_frame ?s s1" "events s1 = events ?s"
    "links_ok (runnable s1) (tlink s1) (events ?s) (pending_wakes (ready s))"
    "fq_items (runnable s1) = fq_items (runnable ?s) @ ts"
    "tlink s1 = wake_links ts (tlink ?s)"
    using make_runnable_all_wake by blast
  then show thesis using that by (simp add: run_callback_def exec_callback_def cong: if_cong)
qed

lemma live_turn_upd_event [simp]: "in_owner_live_turn (upd_event e f s) = in_owner_live_turn s"
  by (simp add: in_owner_live_turn_def get_current_def split: option.split)

lemma event_set_live:
  assumes wf: "wf_world s" and live: "in_owner_live_turn s"
  obtains s' where "event_set ucb e s = (s', Inr ())" and "wf_world s'" and "ev_is_set (events s' e)"
    and "fq_items (runnable s') = fq_items (runnable s) @ ev_waiters (events s e)" and "current s' = current s"
    and "aio_done s' \<supseteq> set (ev_async (events s e))"
proof -
  let ?w = "ev_waiters (events s e)"
  let ?s1 = "upd_event e (\<lambda>ev. ev\<lparr>ev_is_set := True, ev_waiters := [], ev_async := []\<rparr>) s"
  have ok: "linked_ok s" using wf by (simp add: wf_world_def)
  have ok1: "links_ok (runnable ?s1) (tlink ?s1) (events ?s1) (?w @ pending_wakes (ready ?s1))"
    using links_ok_swap [OF ok, where e = e and b = True and a = "[]"] by (simp add: fun_upd_def cong: if_cong)
  have live1: "in_owner_live_turn ?s1" using live by simp
  obtain s2 where s2: "run_callback ucb (CbWake ?w) ?s1 = (s2, Inr ())"
    "sched_frame (?s1\<lparr>cb_log := cb_log ?s1 @ [CbWake ?w]\<rparr>) s2" "events s2 = events ?s1"
    "links_ok (runnable s2) (tlink s2) (events ?s1) (pending_wakes (ready ?s1))"
    "fq_items (runnable s2) = fq_items (runnable ?s1) @ ?w"
    "tlink s2 = wake_links ?w (tlink s)"
    using run_callback_wake [OF ok1] by auto
  show thesis
  proof (cases "?w = []")
    case True
    let ?s' = "?s1\<lparr>aio_done := aio_done ?s1 \<union> set (ev_async (events s e))\<rparr>"
    have "wf_world ?s'" using ok1 wf True by (simp add: wf_world_def)
    then show thesis using that [of ?s'] True by (simp add: event_set_def Let_def)
  next
    case False
    let ?s' = "s2\<lparr>aio_done := aio_done s2 \<union> set (ev_async (events s e))\<rparr>"
    have "wf_world s2"
      by (rule wf_after_wake [OF s2(4,3,6,2)]) (use wf wf_no_pending_current in simp_all)
    then have "wf_world ?s'" by (simp add: wf_world_def)
    then show thesis
      using that [of ?s'] False live1 s2 by (simp add: event_set_def Let_def call_on_scheduler_def sched_frame_def)
  qed
qed

lemma event_set_off_turn:
  assumes wf: "wf_world s" and "\<not> in_owner_live_turn s"
  obtains s' where "event_set ucb e s = (s', Inr ())" and "wf_world s'" and "ev_is_set (events s' e)"
    and "set (pending_wakes (ready s')) = set (pending_wakes (ready s)) \<union> set (ev_waiters (events s e))"
    and "tlink s' = tlink s" and "runnable s' = runnable s" and "current s' = current s"
proof -
  let ?w = "ev_waiters (events s e)"
  let ?s1 = "upd_event e (\<lambda>ev. ev\<lparr>ev_is_set := True, ev_waiters := [], ev_async := []\<rparr>) s"
  have ok: "linked_ok s" using wf by (simp add: wf_world_def)
  have ok1: "links_ok (runnable s) (tlink s) (events ?s1) (?w @ pending_wakes (ready s))"
    using links_ok_swap [OF ok, where e = e and b = True and a = "[]"] by (simp add: fun_upd_def cong: if_cong)
  have off1: "\<not> in_owner_live_turn ?s1" using assms(2) by simp
  define s2 where "s2 = (if ?w = [] then ?s1 else wake_driver (?s1\<lparr>ready := ready ?s1 @ [CbWake ?w]\<rparr>))"
  let ?s' = "s2\<lparr>aio_done := aio_done s2 \<union> set (ev_async (events s e))\<rparr>"
  have e: "event_set ucb e s = (?s', Inr ())"
    using off1 by (simp add: event_set_def Let_def call_on_scheduler_def s2_def)
  have "links_ok (runnable s) (tlink s) (events ?s1) (pending_wakes (ready s) @ ?w)"
    using links_ok_mset [OF ok1] by simp
  then have "linked_ok s2" by (cases "?w = []") (simp_all add: s2_def)
  moreover have "tlink s2 = tlink s" "current s2 = current s" "runner s2 = runner s" by (simp_all add: s2_def)
  ultimately have "wf_world ?s'" using wf by (simp add: wf_world_def)
  then show thesis using that [OF e] by (auto simp: s2_def)
qed

lemma event_set_wf:
  assumes "wf_world s"
  shows "wf_world (fst (event_set ucb e s))"
proof (cases "in_owner_live_turn s")
  case True
  obtain s' where "event_set ucb e s = (s', Inr ())" "wf_world s'" using event_set_live [OF assms True] by blast
  then show ?thesis by simp
next
  case False
  obtain s' where "event_set ucb e s = (s', Inr ())" "wf_world s'" using event_set_off_turn [OF assms False] by blast
  then show ?thesis by simp
qed

text \<open>The waiters are made runnable while they are still listed, then the list is cleared
  (\<open>PulseEvent.set\<close>, \<open>CrossThreadEvent._set\<close>).\<close>

lemma wake_then_clear:
  assumes wf: "wf_world s" and eq: "runnable u = runnable s" "tlink u = tlink s" "ready u = ready s"
    "current u = current s" "runner u = runner s" "events u = (events s)(e := (events s e)\<lparr>ev_is_set := b\<rparr>)"
  obtains s1 where "make_runnable_all (ev_waiters (events s e)) u = (s1, Inr ())" and "sched_frame u s1"
    and "fq_items (runnable s1) = fq_items (runnable s) @ ev_waiters (events s e)"
    and "wf_world (upd_event e (\<lambda>ev. ev\<lparr>ev_waiters := []\<rparr>) s1)" and "events s1 = events u"
proof -
  let ?w = "ev_waiters (events s e)"
  let ?ev = "(events s)(e := (events s e)\<lparr>ev_is_set := b, ev_waiters := [], ev_async := ev_async (events s e)\<rparr>)"
  have ok: "linked_ok s" using wf by (simp add: wf_world_def)
  have "links_ok (runnable u) (tlink u) ?ev (?w @ pending_wakes (ready s))"
    using links_ok_swap [OF ok, where e = e and b = b and a = "ev_async (events s e)"] by (simp only: eq)
  then obtain s1 where s1: "make_runnable_all ?w u = (s1, Inr ())" "sched_frame u s1" "events s1 = events u"
    "links_ok (runnable s1) (tlink s1) ?ev (pending_wakes (ready s))"
    "fq_items (runnable s1) = fq_items (runnable u) @ ?w" "tlink s1 = wake_links ?w (tlink u)"
    using make_runnable_all_wake by blast
  let ?s2 = "upd_event e (\<lambda>ev. ev\<lparr>ev_waiters := []\<rparr>) s1"
  have "events ?s2 = ?ev" using s1(3) eq by simp
  moreover have "current s \<notin> set ?w" using wf_no_pending_current(1) [OF wf] .
  moreover have "sched_frame u ?s2" using s1(2) by (rule sched_frame_upd_event)
  ultimately have "wf_world ?s2"
    using wf_after_wake [of ?s2 ?ev _ ?w s u] s1(4,6) eq wf by simp
  then show thesis using that [OF s1(1,2)] s1(3,5) eq by simp
qed

lemma pulse_set_wf:
  assumes "wf_world s"
  shows "wf_world (fst (pulse_set e s))"
proof -
  obtain s1 where "make_runnable_all (ev_waiters (events s e)) s = (s1, Inr ())"
    "wf_world (upd_event e (\<lambda>ev. ev\<lparr>ev_waiters := []\<rparr>) s1)"
    using wake_then_clear [OF assms, of s e "ev_is_set (events s e)"] by auto
  then show ?thesis using assms by (simp add: pulse_set_def)
qed

lemma wf_cong:
  assumes "wf_world s" and "runnable u = runnable s" "tlink u = tlink s" "events u = events s" "current u = current s"
    and "runner u = runner s" and "pending_wakes (ready u) = pending_wakes (ready s)"
  shows "wf_world u"
  using assms by (simp add: wf_world_def)

lemma run_event_set_wf:
  assumes "wf_world s"
  shows "wf_world (fst (run_callback ucb (CbEventSet e) s))"
proof -
  let ?s = "s\<lparr>cb_log := cb_log s @ [CbEventSet e]\<rparr>"
  let ?u = "upd_event e (\<lambda>ev. ev\<lparr>ev_is_set := True\<rparr>) ?s"
  obtain s1 where "make_runnable_all (ev_waiters (events s e)) ?u = (s1, Inr ())"
    "wf_world (upd_event e (\<lambda>ev. ev\<lparr>ev_waiters := []\<rparr>) s1)"
    using wake_then_clear [OF assms, of ?u e True] by auto
  then show ?thesis by (simp add: run_callback_def exec_callback_def ct_event_set_now_def)
qed

lemma ct_event_set_wf:
  assumes "wf_world s"
  shows "wf_world (fst (ct_event_set ucb e s))"
proof (cases "in_owner_live_turn s")
  case True
  then show ?thesis using run_event_set_wf [OF assms] by (simp add: ct_event_set_def call_on_scheduler_def)
next
  case False
  have "wf_world (wake_driver (s\<lparr>ready := ready s @ [CbEventSet e]\<rparr>))" by (rule wf_cong [OF assms]) simp_all
  with False show ?thesis by (simp add: ct_event_set_def call_on_scheduler_def)
qed

lemma deliver_wf:
  assumes wf: "wf_world s" and r: "ready s = cb # rest" and cb: "cb = CbWake ts \<or> cb = CbEventSet e"
  shows "wf_world (fst (run_callback ucb cb (s\<lparr>ready := rest\<rparr>)))"
  using cb
proof
  assume c: "cb = CbWake ts"
  let ?s = "s\<lparr>ready := rest\<rparr>"
  have "links_ok (runnable ?s) (tlink ?s) (events ?s) (ts @ pending_wakes (ready ?s))"
    using wf by (simp add: wf_world_def r c)
  then obtain s1 where s1: "run_callback ucb (CbWake ts) ?s = (s1, Inr ())"
    "sched_frame (?s\<lparr>cb_log := cb_log ?s @ [CbWake ts]\<rparr>) s1" "events s1 = events ?s"
    "links_ok (runnable s1) (tlink s1) (events ?s) (pending_wakes (ready ?s))" "tlink s1 = wake_links ts (tlink s)"
    using run_callback_wake [of ?s ts ucb] by auto
  have "current s \<notin> set ts" using wf_no_pending_current(2) [OF wf] by (simp add: r c)
  then have "wf_world s1" using wf_after_wake [OF s1(4,3,5,2)] wf by simp
  then show ?thesis by (simp add: c s1(1))
next
  assume c: "cb = CbEventSet e"
  have "wf_world (s\<lparr>ready := rest\<rparr>)" by (rule wf_cong [OF wf]) (simp_all add: r c)
  then show ?thesis unfolding c by (rule run_event_set_wf)
qed

lemma task_unlink_ok:
  assumes ok: "linked_ok s" and np: "t \<notin> set (pending_wakes (ready s))"
  shows "linked_ok (task_unlink t s)" and "tlink (task_unlink t s) = (tlink s)(t := None)"
    and "current (task_unlink t s) = current s" and "ready (task_unlink t s) = ready s"
proof -
  consider "tlink s t = None" | "tlink s t = Some RunLink" | e where "tlink s t = Some (EvLink e)"
    | c where "tlink s t = Some (ChanLink c)" by (metis link.exhaust option.exhaust)
  then have "linked_ok (task_unlink t s) \<and> tlink (task_unlink t s) = (tlink s)(t := None)
    \<and> current (task_unlink t s) = current s \<and> ready (task_unlink t s) = ready s"
  proof cases
    case 1
    then have "(tlink s)(t := None) = tlink s" by auto
    then show ?thesis using ok 1 by (simp add: task_unlink_def)
  next
    case 2
    then show ?thesis using links_ok_discard [OF ok 2]
      by (simp add: task_unlink_def link_unlink_def runnable_link_unlink_def)
  next
    case (3 e)
    then have w: "t \<in> set (ev_waiters (events s e))" using ok np unfolding links_ok_def by blast
    show ?thesis using links_ok_unlink [OF ok w] w by (simp add: task_unlink_def link_unlink_def event_unlink_def 3)
  next
    case (4 c)
    have "links_ok (runnable s) ((tlink s)(t := None)) (events s) (pending_wakes (ready s))"
      using links_ok_clear_link [OF ok, of t] 4 by simp
    then show ?thesis by (simp add: task_unlink_def link_unlink_def chan_unlink_waiter_def Let_def 4)
  qed
  then show "linked_ok (task_unlink t s)" "tlink (task_unlink t s) = (tlink s)(t := None)"
    "current (task_unlink t s) = current s" "ready (task_unlink t s) = ready s" by blast+
qed

lemma target_throw_wf:
  assumes wf: "wf_world s" and "t \<noteq> current s" and np: "t \<notin> set (pending_wakes (ready s))" and nr: "runner s \<noteq> Some t"
  shows "wf_world (fst (target_throw t x s))"
proof -
  have ok: "linked_ok s" and c: "tlink s (current s) = None" using wf by (simp_all add: wf_world_def)
  note u = task_unlink_ok [OF ok np]
  have c1: "tlink (task_unlink t s) (current (task_unlink t s)) = None" using c assms(2) by (simp add: u)
  obtain s1 where s1: "park_current True (task_unlink t s) = (s1, Inr ())" "sched_frame (task_unlink t s) s1"
    "linked_ok s1" "tlink s1 = (tlink (task_unlink t s))(current (task_unlink t s) := Some RunLink)"
    using park_current_ok [OF u(1) c1] by blast
  let ?s' = "(tealet_switch t s1)\<lparr>inflight := Some x\<rparr>"
  have "tlink s1 = (tlink s)(t := None, current s := Some RunLink)" "runner s1 = runner s"
    using s1(2,4) by (simp_all add: u sched_frame_def)
  then have "wf_world ?s'"
    using wf s1(3) assms(2) nr by (auto simp: wf_world_def tealet_switch_def)
  then show ?thesis using s1(1) assms(2) by (simp add: target_throw_def)
qed

section \<open>The system of tasks, events and the driver\<close>

text \<open>Tasks running in a batch wait, set, clear, yield and throw; anything may call \<open>set\<close> outside a
  live turn; the driver delivers queued wakes and starts and ends batches.  Each step is labelled: the label
  is false for a throw that overtakes a queued wake of its target or that hits the runner of the batch, and
  true for every other step.\<close>

inductive ev_step :: "(nat \<Rightarrow> unit act) \<Rightarrow> bool \<Rightarrow> world \<Rightarrow> world \<Rightarrow> bool" for ucb where
  st_swait: "runner s \<noteq> Some (current s) \<Longrightarrow> ev_step ucb True s (fst (event_swait e s))"
| st_ct_swait: "runner s \<noteq> Some (current s) \<Longrightarrow> ev_step ucb True s (fst (ct_event_swait e s))"
| st_pulse_swait: "runner s \<noteq> Some (current s) \<Longrightarrow> \<not> ev_is_set (events s e) \<Longrightarrow> ev_step ucb True s (fst (pulse_swait e s))"
| st_set: "ev_step ucb True s (fst (event_set ucb e s))"
| st_ct_set: "ev_step ucb True s (fst (ct_event_set ucb e s))"
| st_pulse_set: "ev_step ucb True s (fst (pulse_set e s))"
| st_clear: "ev_step ucb True s (event_clear e s)"
| st_yield: "ev_step ucb True s (fst (sched_yield s))"
| st_throw: "t \<noteq> current s \<Longrightarrow>
    ev_step ucb (t \<notin> set (pending_wakes (ready s)) \<and> runner s \<noteq> Some t) s (fst (target_throw t x s))"
| st_except: "ev_step ucb True s (swait_throw e (current s) s)"
| st_deliver: "ready s = cb # rest \<Longrightarrow> cb = CbWake ts \<or> cb = CbEventSet e \<Longrightarrow>
    ev_step ucb True s (fst (run_callback ucb cb (s\<lparr>ready := rest\<rparr>)))"
| st_begin: "runner s = None \<Longrightarrow> ev_step ucb True s (s\<lparr>runner := Some (current s), target_count := cap\<rparr>)"
| st_end: "runner s = Some (current s) \<Longrightarrow> ev_step ucb True s (s\<lparr>runner := None, target_count := None\<rparr>)"
| st_env: "ev_step ucb True s (s\<lparr>this_thread := th, in_callback_drain := d, callback_drain_task := dt, now := n\<rparr>)"

inductive_cases ev_stepE: "ev_step ucb b s s'"

lemma ev_step_wf: "ev_step ucb b s s' \<Longrightarrow> b \<Longrightarrow> wf_world s \<Longrightarrow> wf_world s'"
proof (induction rule: ev_step.induct)
  case (st_swait s e) then show ?case using event_swait_wf by simp
next
  case (st_ct_swait s e)
  then show ?case using event_swait_wf [of s e] by (simp add: event_swait_def ct_event_swait_def)
next
  case (st_pulse_swait s e) then show ?case using pulse_swait_wf by simp
next
  case (st_set s e) then show ?case using event_set_wf by simp
next
  case (st_ct_set s e) then show ?case using ct_event_set_wf by simp
next
  case (st_pulse_set s e) then show ?case using pulse_set_wf by simp
next
  case (st_clear s e)
  then show ?case using links_ok_flag_off [of _ _ "events s" _ e] by (simp add: wf_world_def event_clear_def)
next
  case (st_yield s) then show ?case using sched_yield_wf by simp
next
  case (st_throw t s x) then show ?case using target_throw_wf by simp
next
  case (st_except s e)
  then have "current s \<notin> set (ev_waiters (events s e))" using wf_no_pending_current by blast
  with st_except show ?case by (simp add: swait_throw_def event_unlink_def wf_world_def)
next
  case (st_deliver s cb rest ts e) then show ?case using deliver_wf by blast
next
  case (st_begin s cap) then show ?case by (simp add: wf_world_def)
next
  case (st_end s) then show ?case by (simp add: wf_world_def)
next
  case (st_env s th d dt n) then show ?case by (simp add: wf_world_def)
qed

text \<open>Runs, with the conjunction of their labels.\<close>

inductive ev_reach :: "(nat \<Rightarrow> unit act) \<Rightarrow> bool \<Rightarrow> world \<Rightarrow> world \<Rightarrow> bool" for ucb where
  reach_refl: "ev_reach ucb True s s"
| reach_step: "ev_reach ucb a s s1 \<Longrightarrow> ev_step ucb b s1 s2 \<Longrightarrow> ev_reach ucb (a \<and> b) s s2"

lemma ev_reach_wf: "ev_reach ucb b s s' \<Longrightarrow> b \<Longrightarrow> wf_world s \<Longrightarrow> wf_world s'"
  by (induction rule: ev_reach.induct) (auto intro: ev_step_wf)

lemma wf_idle_world: "wf_world idle_world"
  by (simp add: wf_world_def idle_world_def links_ok_def fifo_init_def fifo_invar_def new_event_def)

section \<open>Properties\<close>


text \<open>Task 1 is running in a batch of the driver 0, task 2 is ready.\<close>

definition demo_world :: world where
  "demo_world = idle_world\<lparr>current := 1, runner := Some 0, runnable := \<lparr>fq_items = [2, 0], fq_set = {2, 0}\<rparr>,
     tlink := (\<lambda>t. if t = 0 \<or> t = 2 then Some RunLink else None)\<rparr>"

lemma wf_demo_world: "wf_world demo_world"
  by (auto simp: wf_world_def demo_world_def idle_world_def links_ok_def fifo_invar_def new_event_def)

lemmas demo_simps = demo_world_def idle_world_def new_event_def event_swait_def pulse_swait_def schedule_def
  event_link_def find_target_def steal_to_runner_def has_runnable_work_def fifo_bool_def fifo_pop_next_def
  tealet_switch_def upd_event_def set_link_def


text \<open>\<open>Event.set\<close> wakes every parked waiter exactly once and in arrival order.  In a live turn they
  are appended to the runnable queue at once; otherwise wake callbacks
  naming them are queued, and delivering a wake callback later, from any well-formed state in which it is
  next, appends them.  \<open>set\<close> never raises, and in a live
  turn it completes the asyncio waiters.\<close>

theorem event_set_wakes:
  assumes "wf_world s"
  shows "\<exists>s'. event_set ucb e s = (s', Inr ()) \<and> ev_is_set (events s' e) \<and> wf_world s'
    \<and> (in_owner_live_turn s \<longrightarrow> fifo_tasks (runnable s') = fifo_tasks (runnable s) @ ev_waiters (events s e)
          \<and> set (ev_async (events s e)) \<subseteq> aio_done s')
    \<and> (\<not> in_owner_live_turn s \<longrightarrow> fifo_tasks (runnable s') = fifo_tasks (runnable s)
          \<and> set (ev_waiters (events s e)) \<subseteq> set (pending_wakes (ready s')))
    \<and> (\<forall>s2 rest ts. wf_world s2 \<longrightarrow> ready s2 = CbWake ts # rest \<longrightarrow>
          snd (run_callback ucb (CbWake ts) (s2\<lparr>ready := rest\<rparr>)) = Inr ()
          \<and> fifo_tasks (runnable (fst (run_callback ucb (CbWake ts) (s2\<lparr>ready := rest\<rparr>)))) = fifo_tasks (runnable s2) @ ts)"
proof -
  have deliver: "snd (run_callback ucb (CbWake ts) (s2\<lparr>ready := rest\<rparr>)) = Inr ()
    \<and> fifo_tasks (runnable (fst (run_callback ucb (CbWake ts) (s2\<lparr>ready := rest\<rparr>)))) = fifo_tasks (runnable s2) @ ts"
    if "wf_world s2" "ready s2 = CbWake ts # rest" for s2 rest ts
  proof -
    let ?s = "s2\<lparr>ready := rest\<rparr>"
    have "links_ok (runnable ?s) (tlink ?s) (events ?s) (ts @ pending_wakes (ready ?s))"
      using that by (simp add: wf_world_def)
    then obtain s1 where "run_callback ucb (CbWake ts) ?s = (s1, Inr ())"
      "fq_items (runnable s1) = fq_items (runnable ?s) @ ts" using run_callback_wake [of ?s ts ucb] by blast
    then show ?thesis by (simp add: fifo_tasks_def)
  qed
  show ?thesis
  proof (cases "in_owner_live_turn s")
    case True
    obtain s' where "event_set ucb e s = (s', Inr ())" "wf_world s'" "ev_is_set (events s' e)"
      "fq_items (runnable s') = fq_items (runnable s) @ ev_waiters (events s e)" "set (ev_async (events s e)) \<subseteq> aio_done s'"
      using event_set_live [OF assms True] by blast
    then show ?thesis using True deliver by (simp add: fifo_tasks_def)
  next
    case False
    obtain s' where "event_set ucb e s = (s', Inr ())" "wf_world s'" "ev_is_set (events s' e)" "runnable s' = runnable s"
      "set (pending_wakes (ready s')) = set (pending_wakes (ready s)) \<union> set (ev_waiters (events s e))"
      using event_set_off_turn [OF assms False] by blast
    then show ?thesis using False deliver by auto
  qed
qed

theorem event_set_wakes_witness:
  "\<exists>s'. event_set (\<lambda>_ s. (s, Inr ())) 7 (fst (event_swait 7 demo_world)) = (s', Inr ())
     \<and> fifo_tasks (runnable s') = [0, 1]"
proof -
  let ?s = "fst (event_swait 7 demo_world)"
  have wf: "wf_world ?s" using event_swait_wf [OF wf_demo_world] by (simp add: demo_world_def idle_world_def)
  have "in_owner_live_turn ?s" "fifo_tasks (runnable ?s) = [0]" "ev_waiters (events ?s 7) = [1]"
    by (simp_all add: demo_simps in_owner_live_turn_def get_current_def fifo_tasks_def)
  with event_set_wakes [OF wf, of "\<lambda>_ s. (s, Inr ())" 7] show ?thesis by auto
qed

text \<open>A throw that arrives between an off-turn \<open>set\<close> and the delivery of its queued wake leaves
  the target's link dangling: \<open>_unlink\<close> finds the target on no waiter list and does not clear
  \<open>Task.link\<close>, the queued wake still names the target, and after the exception has been handled in the
  target its next wait on any unset event fails with \<open>AssertionError\<close>.\<close>

theorem stale_wake_after_throw:
  assumes wf: "wf_world s" and cur: "t \<noteq> current s" and lt: "tlink s t = Some (EvLink e)"
    and pend: "t \<in> set (pending_wakes (ready s))"
  shows "\<exists>s'. target_throw t x s = (s', Inr ()) \<and> current s' = t
    \<and> tlink (swait_throw e t s') t = Some (EvLink e)
    \<and> t \<in> set (pending_wakes (ready (swait_throw e t s')))
    \<and> (\<forall>e'. \<not> ev_is_set (events s e') \<longrightarrow> snd (event_swait e' (swait_throw e t s')) = Raise AssertionErr)"
proof -
  have ok: "linked_ok s" and c: "tlink s (current s) = None" using wf by (simp_all add: wf_world_def)
  have nw: "t \<notin> set (ev_waiters (events s e'))" for e' using ok pend unfolding links_ok_def by blast
  let ?u = "s\<lparr>pending_async_waits := pending_async_waits s - {t}\<rparr>"
  have u: "task_unlink t s = ?u" by (simp add: task_unlink_def lt link_unlink_def event_unlink_def nw)
  obtain s1 where s1: "park_current True ?u = (s1, Inr ())" "sched_frame ?u s1" "events s1 = events ?u"
    "tlink s1 = (tlink ?u)(current ?u := Some RunLink)"
    using park_current_ok [of ?u] ok c by auto
  let ?s' = "(tealet_switch t s1)\<lparr>inflight := Some x\<rparr>"
  let ?v = "swait_throw e t ?s'"
  have t: "target_throw t x s = (?s', Inr ())" using cur s1(1) by (simp add: target_throw_def u)
  have v: "?v = ?s'\<lparr>inflight := None\<rparr>" using s1(3) nw by (simp add: swait_throw_def event_unlink_def tealet_switch_def)
  have vl: "tlink ?v t = Some (EvLink e)" "current ?v = t" "events ?v = events s" "ready ?v = ready s"
    unfolding v using s1 cur lt by (simp_all add: tealet_switch_def sched_frame_def)
  have "snd (event_swait e' ?v) = Raise AssertionErr" if "\<not> ev_is_set (events s e')" for e'
    using that vl by (simp add: event_swait_def pulse_swait_def schedule_def event_link_def Let_def)
  with t vl pend show ?thesis by (intro exI [of _ ?s']) (simp add: tealet_switch_def)
qed

text \<open>Task 1 waits on event 7; the driver, idle in its own context, sets it.\<close>

theorem stale_wake_after_throw_witness:
  "\<exists>s s'. wf_world s \<and> target_throw 1 CancelledErr s = (s', Inr ())
     \<and> snd (event_swait 8 (swait_throw 7 1 s')) = Raise AssertionErr"
proof -
  let ?u = "(fst (event_swait 7 demo_world))\<lparr>this_thread := 9\<rparr>"
  let ?s = "fst (event_set (\<lambda>_ s. (s, Inr ())) 7 ?u)"
  have "wf_world (fst (event_swait 7 demo_world))"
    using event_swait_wf [OF wf_demo_world] by (simp add: demo_world_def idle_world_def)
  then have wfu: "wf_world ?u" by (simp add: wf_world_def)
  then have wf: "wf_world ?s" by (rule event_set_wf)
  have off: "\<not> in_owner_live_turn ?u"
    by (simp add: demo_simps in_owner_live_turn_def get_current_def)
  have u: "tlink ?u 1 = Some (EvLink 7)" "current ?u = 2" "ev_waiters (events ?u 7) = [1]" "\<not> ev_is_set (events ?u 8)"
    by (simp_all add: demo_simps)
  obtain s' where s': "event_set (\<lambda>_ s. (s, Inr ())) 7 ?u = (s', Inr ())" "tlink s' = tlink ?u" "current s' = current ?u"
    "set (pending_wakes (ready s')) = set (pending_wakes (ready ?u)) \<union> set (ev_waiters (events ?u 7))"
    using event_set_off_turn [OF wfu off] by blast
  have "\<not> ev_is_set (events ?s 8)"
    using off u(4) by (simp add: event_set_def Let_def call_on_scheduler_def)
  moreover have "1 \<noteq> current ?s" "tlink ?s 1 = Some (EvLink 7)" "1 \<in> set (pending_wakes (ready ?s))"
    using s' u by simp_all
  ultimately show ?thesis using stale_wake_after_throw [OF wf, of 1 7 CancelledErr] wf by blast
qed

text \<open>Tasks 1 and 2 wait on event 7, another thread sets it, an exception is thrown into task 1 before the
  queued wake runs, and task 1 handles it and yields.  The wake then fails on task 1, and task 2 stays
  parked on the set event with nothing queued to wake it.\<close>

definition strand_world :: "tid fifo \<Rightarrow> (tid \<Rightarrow> link option) \<Rightarrow> event \<Rightarrow> world" where
  "strand_world rq lk ev = idle_world\<lparr>runner := Some 0, runnable := rq, tlink := lk, events := (\<lambda>_. new_event)(7 := ev)\<rparr>"

lemmas strand_simps = strand_world_def idle_world_def target_throw_def task_unlink_def link_unlink_def event_unlink_def
  park_current_def make_runnable_next_def make_runnable_def fifo_contains_def fifo_init_def fifo_add_def py_insert_def
  normalise_insert_position_def tealet_switch_def set_link_def swait_throw_def sched_yield_def schedule_def find_target_def
  steal_to_runner_def has_runnable_work_def fifo_bool_def fifo_pop_next_def in_owner_live_turn_def get_current_def wake_driver_def
  break_wait_def run_callback_def exec_callback_def call_exception_handler_def event_set_def call_on_scheduler_def upd_event_def

theorem stale_throw_strands_waiter:
  "\<exists>s0 s. wf_world s0 \<and> ev_reach (\<lambda>_ s. (s, Inr ())) False s0 s \<and> tlink s 2 = Some (EvLink 7)
     \<and> ev_waiters (events s 7) = [] \<and> ev_is_set (events s 7) \<and> ready s = []"
proof -
  define u :: "nat \<Rightarrow> unit act" where "u = (\<lambda>_ s. (s, Inr ()))"
  define lk :: "tid \<Rightarrow> link option" where "lk = (\<lambda>t. None)(1 := Some (EvLink 7), 2 := Some (EvLink 7))"
  define on where "on = \<lparr>ev_waiters = [], ev_async = [], ev_is_set = True\<rparr>"
  define s0 where "s0 = (strand_world fifo_init lk \<lparr>ev_waiters = [1, 2], ev_async = [], ev_is_set = False\<rparr>)\<lparr>this_thread := 9\<rparr>"
  define s1 where "s1 = (strand_world fifo_init lk on)\<lparr>ready := [CbWake [1, 2]], wakeup_flag := True\<rparr>"
  define s2 where "s2 = (strand_world \<lparr>fq_items = [0], fq_set = {0}\<rparr> (lk(0 := Some RunLink)) on)\<lparr>ready := [CbWake [1, 2]],
    wakeup_flag := True, current := 1, inflight := Some CancelledErr, switch_log := [1]\<rparr>"
  define s3 where "s3 = s2\<lparr>inflight := None\<rparr>"
  define s4 where "s4 = fst (sched_yield s3)"
  have wf: "wf_world s0"
    by (auto simp: s0_def wf_world_def strand_world_def idle_world_def links_ok_def fifo_invar_def fifo_init_def new_event_def lk_def)
  have "event_set u 7 s0 = (s1\<lparr>this_thread := 9\<rparr>, Inr ())" by (simp add: s0_def s1_def on_def strand_simps)
  then have r1: "ev_reach u True s0 (s1\<lparr>this_thread := 9\<rparr>)" using reach_step [OF reach_refl st_set [of u s0 7]] by simp
  have "s1 = s1\<lparr>this_thread := 0, in_callback_drain := False, callback_drain_task := None, now := 0\<rparr>"
    by (simp add: s1_def strand_world_def idle_world_def)
  then have r2: "ev_reach u True s0 s1"
    using reach_step [OF r1 st_env [where th = 0 and d = False and dt = None and n = 0]] by simp
  have "target_throw 1 CancelledErr s1 = (s2, Inr ())" by (simp add: s1_def s2_def on_def lk_def strand_simps)
  moreover have "1 \<in> set (pending_wakes (ready s1))" "1 \<noteq> current s1" by (simp_all add: s1_def strand_world_def idle_world_def)
  ultimately have r3: "ev_reach u False s0 s2" using reach_step [OF r2 st_throw [of 1 s1 u CancelledErr]] by simp
  have "swait_throw 7 (current s2) s2 = s3" by (simp add: s2_def s3_def on_def strand_world_def swait_throw_def event_unlink_def)
  then have r4: "ev_reach u False s0 s3" using reach_step [OF r3 st_except [of u s2 7]] by simp
  have r5: "ev_reach u False s0 s4" using reach_step [OF r4 st_yield] by (simp add: s4_def)
  have s4: "runnable s4 = \<lparr>fq_items = [1], fq_set = {1}\<rparr>" "ready s4 = [CbWake [1, 2]]" "tlink s4 2 = Some (EvLink 7)" "events s4 7 = on"
    by (simp_all add: s4_def s3_def s2_def lk_def strand_simps insert_Diff_if)
  let ?s = "fst (run_callback u (CbWake [1, 2]) (s4\<lparr>ready := []\<rparr>))"
  have "ev_reach u False s0 ?s" using reach_step [OF r5 st_deliver [of s4 "CbWake [1, 2]" "[]" "[1, 2]" 7 u]] s4(2) by simp
  moreover have "tlink ?s 2 = Some (EvLink 7)" "ev_waiters (events ?s 7) = []" "ev_is_set (events ?s 7)" "ready ?s = []"
    using s4 by (simp_all add: run_callback_def exec_callback_def make_runnable_def fifo_contains_def call_exception_handler_def on_def)
  ultimately show ?thesis using wf unfolding u_def by blast
qed

end
