(* ===== verification/Waiters.thy ===== *)
theory Waiters
  imports Events
begin

text \<open>
  Private waiter events.  \<open>Lock\<close>, \<open>Condition\<close>, \<open>Barrier\<close>, \<open>Semaphore\<close> and \<open>Queue\<close> of
  \<open>tealetio/locks.py\<close> create one \<open>Event\<close> per blocked call, wait on it once and set it at most once.
  All they observe of it is whether it is set, so their models keep a store \<open>wstore\<close> with the number
  of events created and the set of those that have fired; \<open>wstore_refines\<close> shows that the events of the
  scheduling core implement that store.  A blocking call is cut at \<open>swait()\<close> (or \<open>await wait()\<close>): the
  begin segment ends with \<open>SWait w\<close>, the call goes on with a resume segment once \<open>w\<close> has fired, or with
  a throw segment when an exception surfaces in the wait.

  The locale \<open>slot_primitive\<close> is the contract shared by the primitives that hand out slots (locks and
  semaphores); \<open>slot_step\<close> is the system of the calls in progress on one such primitive.
\<close>

section \<open>The store of private events\<close>

record wstore =
  w_next :: nat
  w_fired :: "nat set"

datatype 'a seg = SRet 'a | SRaise pyexn | SWait nat

definition new_waiter :: "wstore \<Rightarrow> nat \<times> wstore" where
  "new_waiter ws = (w_next ws, ws\<lparr>w_next := Suc (w_next ws)\<rparr>)"

definition waiter_set :: "nat \<Rightarrow> wstore \<Rightarrow> wstore" where
  "waiter_set w ws = ws\<lparr>w_fired := insert w (w_fired ws)\<rparr>"

definition waiter_is_set :: "nat \<Rightarrow> wstore \<Rightarrow> bool" where
  "waiter_is_set w ws = (w \<in> w_fired ws)"

definition empty_wstore :: wstore where
  "empty_wstore = \<lparr>w_next = 0, w_fired = {}\<rparr>"

definition wstore_ok :: "wstore \<Rightarrow> bool" where
  "wstore_ok ws = (\<forall>w \<in> w_fired ws. w < w_next ws)"

text \<open>\<open>while waiters: waiters.popleft().set(); break\<close>, and the same without the \<open>break\<close>.\<close>

fun wake_first :: "nat list \<Rightarrow> wstore \<Rightarrow> nat list \<times> wstore" where
  "wake_first [] ws = ([], ws)"
| "wake_first (w # waiters) ws = (waiters, waiter_set w ws)"

fun wake_all :: "nat list \<Rightarrow> wstore \<Rightarrow> wstore" where
  "wake_all [] ws = ws"
| "wake_all (w # waiters) ws = wake_all waiters (waiter_set w ws)"

section \<open>Systems of calls on one slot primitive\<close>

record 'l slot_ops =
  op_acquire :: "'l \<Rightarrow> wstore \<Rightarrow> 'l \<times> wstore \<times> bool seg"
  op_resume :: "'l \<Rightarrow> 'l"
  op_throw :: "nat \<Rightarrow> 'l \<Rightarrow> 'l"
  op_release :: "'l \<Rightarrow> wstore \<Rightarrow> 'l \<times> wstore \<times> (pyexn + unit)"

text \<open>The calls parked in \<open>acquire\<close>, by their waiter, and the number of slots held.\<close>

record 'l slot_sys =
  sy_obj :: 'l
  sy_ws :: wstore
  sy_parked :: "nat set"
  sy_held :: nat

text \<open>Every interleaving of calls: acquire, resumption of a woken call, an exception thrown into a
  parked call, and release by a holder.\<close>

inductive slot_step :: "'l slot_ops \<Rightarrow> 'l slot_sys \<Rightarrow> 'l slot_sys \<Rightarrow> bool" for ops where
  acquire_now: "op_acquire ops (sy_obj s) (sy_ws s) = (l, ws, SRet True) \<Longrightarrow>
    slot_step ops s (s\<lparr>sy_obj := l, sy_ws := ws, sy_held := Suc (sy_held s)\<rparr>)"
| acquire_park: "op_acquire ops (sy_obj s) (sy_ws s) = (l, ws, SWait w) \<Longrightarrow>
    slot_step ops s (s\<lparr>sy_obj := l, sy_ws := ws, sy_parked := insert w (sy_parked s)\<rparr>)"
| resume: "w \<in> sy_parked s \<Longrightarrow> waiter_is_set w (sy_ws s) \<Longrightarrow>
    slot_step ops s (s\<lparr>sy_obj := op_resume ops (sy_obj s), sy_parked := sy_parked s - {w}, sy_held := Suc (sy_held s)\<rparr>)"
| throw: "w \<in> sy_parked s \<Longrightarrow>
    slot_step ops s (s\<lparr>sy_obj := op_throw ops w (sy_obj s), sy_parked := sy_parked s - {w}\<rparr>)"
| release: "0 < sy_held s \<Longrightarrow> op_release ops (sy_obj s) (sy_ws s) = (l, ws, Inr ()) \<Longrightarrow>
    slot_step ops s (s\<lparr>sy_obj := l, sy_ws := ws, sy_held := sy_held s - 1\<rparr>)"

text \<open>The woken calls that have not resumed yet.\<close>

definition woken :: "'l slot_sys \<Rightarrow> nat set" where
  "woken s = sy_parked s \<inter> w_fired (sy_ws s)"

text \<open>The interleavings in which nothing happens between the wake of a call and its resumption that
  takes its slot (barging) or makes it go away (a throw).\<close>

inductive slot_reach :: "'l slot_ops \<Rightarrow> 'l slot_sys \<Rightarrow> 'l slot_sys \<Rightarrow> bool" for ops where
  sr_refl: "slot_reach ops s s"
| sr_acquire: "slot_reach ops s s1 \<Longrightarrow> op_acquire ops (sy_obj s1) (sy_ws s1) = (l, ws, SRet True) \<Longrightarrow> woken s1 = {} \<Longrightarrow>
    slot_reach ops s (s1\<lparr>sy_obj := l, sy_ws := ws, sy_held := Suc (sy_held s1)\<rparr>)"
| sr_park: "slot_reach ops s s1 \<Longrightarrow> op_acquire ops (sy_obj s1) (sy_ws s1) = (l, ws, SWait w) \<Longrightarrow>
    slot_reach ops s (s1\<lparr>sy_obj := l, sy_ws := ws, sy_parked := insert w (sy_parked s1)\<rparr>)"
| sr_resume: "slot_reach ops s s1 \<Longrightarrow> w \<in> woken s1 \<Longrightarrow>
    slot_reach ops s (s1\<lparr>sy_obj := op_resume ops (sy_obj s1), sy_parked := sy_parked s1 - {w}, sy_held := Suc (sy_held s1)\<rparr>)"
| sr_throw: "slot_reach ops s s1 \<Longrightarrow> w \<in> sy_parked s1 \<Longrightarrow> w \<notin> woken s1 \<Longrightarrow>
    slot_reach ops s (s1\<lparr>sy_obj := op_throw ops w (sy_obj s1), sy_parked := sy_parked s1 - {w}\<rparr>)"
| sr_release: "slot_reach ops s s1 \<Longrightarrow> 0 < sy_held s1 \<Longrightarrow> op_release ops (sy_obj s1) (sy_ws s1) = (l, ws, Inr ()) \<Longrightarrow>
    slot_reach ops s (s1\<lparr>sy_obj := l, sy_ws := ws, sy_held := sy_held s1 - 1\<rparr>)"

text \<open>The events of the scheduling core seen as such a store.\<close>

definition make_event :: "world \<Rightarrow> eid \<times> world" where
  "make_event s = (next_event s, s\<lparr>events := (events s)(next_event s := new_event), next_event := Suc (next_event s)\<rparr>)"

definition event_store :: "world \<Rightarrow> wstore" where
  "event_store s = \<lparr>w_next = next_event s, w_fired = {e. ev_is_set (events s e)}\<rparr>"

section \<open>The contract\<close>

lemma new_waiter_simps [simp]: "fst (new_waiter ws) = w_next ws" "snd (new_waiter ws) = ws\<lparr>w_next := Suc (w_next ws)\<rparr>"
  by (simp_all add: new_waiter_def)

lemma waiter_set_simps [simp]: "w_next (waiter_set w ws) = w_next ws" "w_fired (waiter_set w ws) = insert w (w_fired ws)"
  by (simp_all add: waiter_set_def)

lemma wake_first_eq: "wake_first ls ws = (drop 1 ls, if ls = [] then ws else waiter_set (hd ls) ws)"
  by (cases ls) simp_all

lemma wake_all_fired [simp]: "w_fired (wake_all ls ws) = w_fired ws \<union> set ls" "w_next (wake_all ls ws) = w_next ws"
  by (induction ls arbitrary: ws) auto

locale slot_primitive =
  fixes ops :: "'l slot_ops"
    and avail :: "'l \<Rightarrow> int"
    and queue :: "'l \<Rightarrow> nat list"
    and cap :: int
  assumes acquire_free: "0 < avail l \<Longrightarrow>
      \<exists>l'. op_acquire ops l ws = (l', ws, SRet True) \<and> avail l' = avail l - 1 \<and> queue l' = queue l"
    and acquire_busy: "avail l = 0 \<Longrightarrow>
      \<exists>l'. op_acquire ops l ws = (l', snd (new_waiter ws), SWait (w_next ws)) \<and> avail l' = 0 \<and> queue l' = queue l @ [w_next ws]"
    and resume_slot: "0 < avail l \<Longrightarrow> avail (op_resume ops l) = avail l - 1 \<and> queue (op_resume ops l) = queue l"
    and throw_queue: "avail (op_throw ops w l) = avail l \<and> queue (op_throw ops w l) = remove1 w (queue l)"
    and release_slot: "0 \<le> avail l \<Longrightarrow> avail l < cap \<Longrightarrow>
      \<exists>l'. op_release ops l ws = (l', snd (wake_first (queue l) ws), Inr ()) \<and> avail l' = avail l + 1 \<and> queue l' = drop 1 (queue l)"
begin

text \<open>Slots are conserved, never overcommitted, and a blocked call is only left waiting while every
  free slot is reserved for a call that has been woken.\<close>

definition slots_ok :: "'l slot_sys \<Rightarrow> bool" where
  "slots_ok s \<longleftrightarrow>
     int (sy_held s) + avail (sy_obj s) = cap \<and> finite (sy_parked s) \<and> int (card (woken s)) \<le> avail (sy_obj s)
     \<and> (queue (sy_obj s) \<noteq> [] \<longrightarrow> avail (sy_obj s) = int (card (woken s)))
     \<and> distinct (queue (sy_obj s)) \<and> set (queue (sy_obj s)) = sy_parked s - w_fired (sy_ws s)
     \<and> wstore_ok (sy_ws s) \<and> (\<forall>w \<in> sy_parked s. w < w_next (sy_ws s))"

lemma slots_ok_nonneg: "slots_ok s \<Longrightarrow> 0 \<le> avail (sy_obj s)"
  unfolding slots_ok_def by linarith

lemma slots_ok_acquire:
  assumes ok: "slots_ok s" and a: "op_acquire ops (sy_obj s) (sy_ws s) = (l, ws, SRet True)" and w: "woken s = {}"
  shows "slots_ok (s\<lparr>sy_obj := l, sy_ws := ws, sy_held := Suc (sy_held s)\<rparr>)"
proof -
  have "0 < avail (sy_obj s)"
    using slots_ok_nonneg [OF ok] acquire_busy [of "sy_obj s" "sy_ws s"] a by fastforce
  with acquire_free [of "sy_obj s" "sy_ws s"] a
  have l: "ws = sy_ws s" "avail l = avail (sy_obj s) - 1" "queue l = queue (sy_obj s)" by auto
  have q: "queue (sy_obj s) = []" using ok w \<open>0 < avail (sy_obj s)\<close> by (auto simp: slots_ok_def)
  show ?thesis
    using ok l q w \<open>0 < avail (sy_obj s)\<close> by (simp add: slots_ok_def woken_def)
qed

lemma slots_ok_park:
  assumes ok: "slots_ok s" and a: "op_acquire ops (sy_obj s) (sy_ws s) = (l, ws, SWait w)"
  shows "slots_ok (s\<lparr>sy_obj := l, sy_ws := ws, sy_parked := insert w (sy_parked s)\<rparr>)"
proof -
  have z: "avail (sy_obj s) = 0"
    using slots_ok_nonneg [OF ok] acquire_free [of "sy_obj s" "sy_ws s"] a by fastforce
  with acquire_busy [of "sy_obj s" "sy_ws s"] a
  have l: "ws = (sy_ws s)\<lparr>w_next := Suc (w_next (sy_ws s))\<rparr>" "w = w_next (sy_ws s)" "avail l = 0"
    "queue l = queue (sy_obj s) @ [w]" by auto
  have nf: "w \<notin> w_fired (sy_ws s)" "w \<notin> sy_parked s" using ok l(2) by (auto simp: slots_ok_def wstore_ok_def)
  have wk: "woken (s\<lparr>sy_obj := l, sy_ws := ws, sy_parked := insert w (sy_parked s)\<rparr>) = woken s"
    using nf l(1) by (auto simp: woken_def)
  have "card (woken s) = 0" using ok z by (simp add: slots_ok_def)
  then show ?thesis
    using ok z l nf wk unfolding slots_ok_def by (auto simp: wstore_ok_def)
qed

lemma slots_ok_resume:
  assumes ok: "slots_ok s" and w: "w \<in> woken s"
  shows "slots_ok (s\<lparr>sy_obj := op_resume ops (sy_obj s), sy_parked := sy_parked s - {w}, sy_held := Suc (sy_held s)\<rparr>)"
    (is "slots_ok ?s'")
proof -
  have fin: "finite (woken s)" using ok by (simp add: slots_ok_def woken_def)
  have wk: "woken ?s' = woken s - {w}" by (auto simp: woken_def)
  have c: "0 < card (woken s)" using fin w by (auto simp: card_gt_0_iff)
  moreover have "card (woken ?s') = card (woken s) - 1" unfolding wk using fin w by simp
  ultimately have c1: "int (card (woken ?s')) = int (card (woken s)) - 1" by linarith
  have pos: "0 < avail (sy_obj s)" using ok c by (simp add: slots_ok_def)
  show ?thesis
    using ok c1 resume_slot [OF pos] w unfolding slots_ok_def by (auto simp: woken_def)
qed

lemma slots_ok_throw:
  assumes ok: "slots_ok s" and w: "w \<in> sy_parked s" "w \<notin> woken s"
  shows "slots_ok (s\<lparr>sy_obj := op_throw ops w (sy_obj s), sy_parked := sy_parked s - {w}\<rparr>)" (is "slots_ok ?s'")
proof -
  have wk: "woken ?s' = woken s" using w by (auto simp: woken_def)
  show ?thesis
    using ok throw_queue wk unfolding slots_ok_def by (auto simp: set_remove1_eq)
qed

lemma slots_ok_release:
  assumes ok: "slots_ok s" and h: "0 < sy_held s" and r: "op_release ops (sy_obj s) (sy_ws s) = (l, ws, Inr ())"
  shows "slots_ok (s\<lparr>sy_obj := l, sy_ws := ws, sy_held := sy_held s - 1\<rparr>)" (is "slots_ok ?s'")
proof -
  have lt: "avail (sy_obj s) < cap" using ok h by (simp add: slots_ok_def)
  have l: "ws = snd (wake_first (queue (sy_obj s)) (sy_ws s))" "avail l = avail (sy_obj s) + 1" "queue l = drop 1 (queue (sy_obj s))"
    using release_slot [OF slots_ok_nonneg [OF ok] lt, of "sy_ws s"] r by auto
  have hd: "int (sy_held ?s') = int (sy_held s) - 1" using h by simp
  show ?thesis
  proof (cases "queue (sy_obj s)")
    case Nil
    then have "woken ?s' = woken s" by (simp add: woken_def l)
    then show ?thesis using ok Nil l hd unfolding slots_ok_def by auto
  next
    case (Cons w q)
    then have w: "w \<in> sy_parked s" "w \<notin> w_fired (sy_ws s)" using ok by (auto simp: slots_ok_def)
    have fin: "finite (woken s)" using ok by (simp add: slots_ok_def woken_def)
    have wk: "woken ?s' = insert w (woken s)" using w by (auto simp: woken_def l Cons)
    have "w \<notin> woken s" using w by (simp add: woken_def)
    then have "card (woken ?s') = Suc (card (woken s))" unfolding wk using fin by simp
    then show ?thesis using ok Cons l hd w unfolding slots_ok_def by (auto simp: wstore_ok_def)
  qed
qed

lemma slots_ok_reach: "slot_reach ops s s' \<Longrightarrow> slots_ok s \<Longrightarrow> slots_ok s'"
  by (induction rule: slot_reach.induct)
    (auto intro: slots_ok_acquire slots_ok_park slots_ok_resume slots_ok_throw slots_ok_release simp del: One_nat_def)

end

section \<open>The scheduling core implements the store\<close>

lemma call_on_scheduler_wake_events:
  "events (fst (call_on_scheduler ucb (CbWake ts) s)) = events s
   \<and> next_event (fst (call_on_scheduler ucb (CbWake ts) s)) = next_event s
   \<and> snd (call_on_scheduler ucb (CbWake ts) s) = Inr ()"
proof (cases "in_owner_live_turn s")
  case True
  let ?s = "s\<lparr>cb_log := cb_log s @ [CbWake ts]\<rparr>"
  obtain s1 r where m: "make_runnable_all ts ?s = (s1, r)" by fastforce
  have "events s1 = events s" "next_event s1 = next_event s"
    using make_runnable_all_frame [of ?s ts] m by (simp_all add: sched_frame_def)
  moreover have "r = Inr () \<or> r = Inl AssertionErr" using make_runnable_all_outcome [of ts ?s] m by simp
  ultimately show ?thesis
    using True m by (auto simp: call_on_scheduler_def run_callback_def exec_callback_def call_exception_handler_def)
qed (simp add: call_on_scheduler_def)

text \<open>What \<open>set\<close> leaves of the events, and where a wait on an unset event parks its caller.\<close>

lemma event_set_events:
  "events (fst (event_set ucb e s)) = (events s)(e := (events s e)\<lparr>ev_is_set := True, ev_waiters := [], ev_async := []\<rparr>)"
  "next_event (fst (event_set ucb e s)) = next_event s" "snd (event_set ucb e s) = Inr ()"
proof -
  let ?s1 = "upd_event e (\<lambda>ev. ev\<lparr>ev_is_set := True, ev_waiters := [], ev_async := []\<rparr>) s"
  let ?w = "ev_waiters (events s e)"
  obtain s2 r where c: "(if ?w = [] then (?s1, Inr ()) else call_on_scheduler ucb (CbWake ?w) ?s1) = (s2, r)" by fastforce
  have s2: "events s2 = events ?s1" "next_event s2 = next_event s" "r = Inr ()"
    using call_on_scheduler_wake_events [of ucb ?w ?s1] c by (auto split: if_splits)
  have "fst (event_set ucb e s) = s2\<lparr>aio_done := aio_done s2 \<union> set (ev_async (events s e))\<rparr>" "snd (event_set ucb e s) = Inr ()"
    using c s2(3) by (simp_all add: event_set_def Let_def)
  then show "events (fst (event_set ucb e s)) = (events s)(e := (events s e)\<lparr>ev_is_set := True, ev_waiters := [], ev_async := []\<rparr>)"
    "next_event (fst (event_set ucb e s)) = next_event s" "snd (event_set ucb e s) = Inr ()"
    using s2 by (simp_all add: upd_event_def)
qed

lemma event_swait_parks:
  assumes wf: "wf_world s" and cur: "runner s \<noteq> Some (current s)" and nset: "\<not> ev_is_set (events s e)"
  shows "snd (event_swait e s) = Parked \<and> ev_waiters (events (fst (event_swait e s)) e) = ev_waiters (events s e) @ [current s]
    \<or> snd (event_swait e s) = Raise DeadlockErr \<and> ev_waiters (events (fst (event_swait e s)) e) = ev_waiters (events s e)"
proof -
  let ?c = "current s"
  have c: "tlink s ?c = None" and ok: "linked_ok s" using wf by (simp_all add: wf_world_def)
  then have nw: "?c \<notin> set (ev_waiters (events s e))" by (auto simp: links_ok_def)
  define s1 where "s1 = upd_event e (\<lambda>ev. ev\<lparr>ev_waiters := ev_waiters ev @ [?c]\<rparr>) (set_link ?c (Some (EvLink e)) s)"
  have l: "event_link e ?c s = (s1, Inr ())" using c nw by (simp add: event_link_def s1_def)
  have ok1: "linked_ok s1" using links_ok_link [OF ok c nset] by (simp add: s1_def)
  have par: "runner_parked s1" using runner_parked_link [OF wf, of s1] cur by (simp add: s1_def)
  have e1: "ev_waiters (events s1 e) = ev_waiters (events s e) @ [?c]" by (simp add: s1_def)
  from find_target_cases [OF ok1 par, of False] show ?thesis
  proof (elim disjE exE conjE)
    assume f: "find_target False False s1 = (s1, Inl DeadlockErr)"
    have "ev_waiters (events (event_unlink e ?c s1) e) = ev_waiters (events s e)"
      using nw by (simp add: event_unlink_def e1 remove1_append)
    then show ?thesis using nset by (simp add: event_swait_def pulse_swait_def schedule_def l f)
  next
    fix s' t
    assume f: "find_target False False s1 = (s', Inr t)" and "events s' = events s1"
    then show ?thesis using nset e1 by (simp add: event_swait_def pulse_swait_def schedule_def l f tealet_switch_def)
  qed
qed



end
