(* ===== verification/Queues.thy ===== *)
theory Queues
  imports Waiters
begin

text \<open>
  \<open>Queue\<close>, \<open>LifoQueue\<close> and \<open>PriorityQueue\<close> of \<open>tealetio/locks.py\<close>.  The subclasses differ in
  \<open>_init\<close>, \<open>_put\<close> and \<open>_get\<close> only, which are collected in \<open>storage\<close>; the locale \<open>queue_storage\<close> is what
  \<open>Queue\<close> relies on, and the three classes are its interpretations.  \<open>q_step\<close> is the system of all calls
  in progress on one queue, in every interleaving, exceptions thrown into parked calls included.
\<close>

section \<open>Storage\<close>

record 'a storage =
  st_put :: "'a \<Rightarrow> 'a list \<Rightarrow> 'a list"
  st_get :: "'a list \<Rightarrow> (pyexn + 'a) \<times> 'a list"

definition queue_put :: "'a \<Rightarrow> 'a list \<Rightarrow> 'a list" where
  "queue_put item q = q @ [item]"

definition queue_get :: "'a list \<Rightarrow> (pyexn + 'a) \<times> 'a list" where
  "queue_get q = popleft q"

definition lifo_put :: "'a \<Rightarrow> 'a list \<Rightarrow> 'a list" where
  "lifo_put item q = q @ [item]"

definition lifo_get :: "'a list \<Rightarrow> (pyexn + 'a) \<times> 'a list" where
  "lifo_get q = (if q = [] then (Inl IndexErr, []) else (Inr (last q), butlast q))"

definition priority_put :: "'a::linorder \<Rightarrow> 'a list \<Rightarrow> 'a list" where
  "priority_put item q = heappush (\<lambda>x. x) q item"

definition priority_get :: "'a::linorder list \<Rightarrow> (pyexn + 'a) \<times> 'a list" where
  "priority_get q = heappop q"

definition fifo_storage :: "'a storage" where
  "fifo_storage = \<lparr>st_put = queue_put, st_get = queue_get\<rparr>"

definition lifo_storage :: "'a storage" where
  "lifo_storage = \<lparr>st_put = lifo_put, st_get = lifo_get\<rparr>"

definition priority_storage :: "'a::linorder storage" where
  "priority_storage = \<lparr>st_put = priority_put, st_get = priority_get\<rparr>"

section \<open>Queue\<close>

record 'a queue =
  q_maxsize :: nat
  q_items :: "'a list"
  q_getters :: "nat list"
  q_putters :: "nat list"
  q_unfinished :: nat
  q_is_shutdown :: bool
  q_finished :: bool

definition queue_init :: "int \<Rightarrow> pyexn + 'a queue" where
  "queue_init maxsize =
     (if maxsize < 0 then Inl ValueErr
      else Inr \<lparr>q_maxsize = nat maxsize, q_items = [], q_getters = [], q_putters = [], q_unfinished = 0,
                q_is_shutdown = False, q_finished = True\<rparr>)"

definition q_qsize :: "'a queue \<Rightarrow> nat" where
  "q_qsize q = length (q_items q)"

definition q_empty :: "'a queue \<Rightarrow> bool" where
  "q_empty q = (q_qsize q = 0)"

definition q_full :: "'a queue \<Rightarrow> bool" where
  "q_full q = (0 < q_maxsize q \<and> q_maxsize q \<le> q_qsize q)"

definition wakeup_getter :: "'a queue \<Rightarrow> wstore \<Rightarrow> 'a queue \<times> wstore" where
  "wakeup_getter q ws = (let (ls, ws1) = wake_first (q_getters q) ws in (q\<lparr>q_getters := ls\<rparr>, ws1))"

definition wakeup_putter :: "'a queue \<Rightarrow> wstore \<Rightarrow> 'a queue \<times> wstore" where
  "wakeup_putter q ws = (let (ls, ws1) = wake_first (q_putters q) ws in (q\<lparr>q_putters := ls\<rparr>, ws1))"

definition q_put_nowait :: "'a storage \<Rightarrow> 'a \<Rightarrow> 'a queue \<Rightarrow> wstore \<Rightarrow> 'a queue \<times> wstore \<times> unit seg" where
  "q_put_nowait st item q ws =
     (if q_is_shutdown q then (q, ws, SRaise QueueShutDownErr)
      else if q_full q then (q, ws, SRaise QueueFullErr)
      else (let q1 = q\<lparr>q_items := st_put st item (q_items q), q_unfinished := q_unfinished q + 1, q_finished := False\<rparr>;
                (q2, ws2) = wakeup_getter q1 ws
            in (q2, ws2, SRet ())))"

text \<open>One turn of the loop of \<open>sput\<close> (and \<open>put\<close>), up to the wait or through \<open>put_nowait\<close>.\<close>

definition q_sput :: "'a storage \<Rightarrow> 'a \<Rightarrow> 'a queue \<Rightarrow> wstore \<Rightarrow> 'a queue \<times> wstore \<times> unit seg" where
  "q_sput st item q ws =
     (if q_full q then
        (if q_is_shutdown q then (q, ws, SRaise QueueShutDownErr)
         else (let (w, ws1) = new_waiter ws in (q\<lparr>q_putters := q_putters q @ [w]\<rparr>, ws1, SWait w)))
      else q_put_nowait st item q ws)"

definition q_sput_resume :: "'a storage \<Rightarrow> nat \<Rightarrow> 'a \<Rightarrow> 'a queue \<Rightarrow> wstore \<Rightarrow> 'a queue \<times> wstore \<times> unit seg" where
  "q_sput_resume st w item q ws = q_sput st item (q\<lparr>q_putters := remove1 w (q_putters q)\<rparr>) ws"

text \<open>\<open>_abandon_waiter\<close> for the putters, run when the wait raises.\<close>

definition q_sput_throw :: "nat \<Rightarrow> 'a queue \<Rightarrow> wstore \<Rightarrow> 'a queue \<times> wstore" where
  "q_sput_throw w q ws =
     (let open_slot = \<not> q_full q;
          q1 = q\<lparr>q_putters := remove1 w (q_putters q)\<rparr>
      in if waiter_is_set w ws \<and> open_slot then wakeup_putter q1 ws else (q1, ws))"

definition q_get_nowait :: "'a storage \<Rightarrow> 'a queue \<Rightarrow> wstore \<Rightarrow> 'a queue \<times> wstore \<times> 'a seg" where
  "q_get_nowait st q ws =
     (if q_empty q then (q, ws, SRaise (if q_is_shutdown q then QueueShutDownErr else QueueEmptyErr))
      else (case st_get st (q_items q) of
              (Inl e, items) \<Rightarrow> (q\<lparr>q_items := items\<rparr>, ws, SRaise e)
            | (Inr item, items) \<Rightarrow>
                (let (q1, ws1) = wakeup_putter (q\<lparr>q_items := items\<rparr>) ws
                 in if q_empty q1 \<and> q_is_shutdown q1
                    then (q1\<lparr>q_getters := []\<rparr>, wake_all (q_getters q1) ws1, SRet item)
                    else (q1, ws1, SRet item))))"

definition q_sget :: "'a storage \<Rightarrow> 'a queue \<Rightarrow> wstore \<Rightarrow> 'a queue \<times> wstore \<times> 'a seg" where
  "q_sget st q ws =
     (if q_empty q then
        (if q_is_shutdown q then (q, ws, SRaise QueueShutDownErr)
         else (let (w, ws1) = new_waiter ws in (q\<lparr>q_getters := q_getters q @ [w]\<rparr>, ws1, SWait w)))
      else q_get_nowait st q ws)"

definition q_sget_resume :: "'a storage \<Rightarrow> nat \<Rightarrow> 'a queue \<Rightarrow> wstore \<Rightarrow> 'a queue \<times> wstore \<times> 'a seg" where
  "q_sget_resume st w q ws = q_sget st (q\<lparr>q_getters := remove1 w (q_getters q)\<rparr>) ws"

definition q_sget_throw :: "nat \<Rightarrow> 'a queue \<Rightarrow> wstore \<Rightarrow> 'a queue \<times> wstore" where
  "q_sget_throw w q ws =
     (let open_slot = \<not> q_empty q;
          q1 = q\<lparr>q_getters := remove1 w (q_getters q)\<rparr>
      in if waiter_is_set w ws \<and> open_slot then wakeup_getter q1 ws else (q1, ws))"

definition q_task_done :: "'a queue \<Rightarrow> 'a queue \<times> (pyexn + unit)" where
  "q_task_done q =
     (if q_unfinished q = 0 then (q, Inl ValueErr)
      else (let n = q_unfinished q - 1
            in (q\<lparr>q_unfinished := n, q_finished := (if n = 0 then True else q_finished q)\<rparr>, Inr ())))"

text \<open>\<open>sjoin\<close> and \<open>join\<close>: one turn of the loop.  \<open>True\<close> means it returns, \<open>False\<close> that it waits on
  \<open>_finished\<close> (which is not set then).\<close>

definition q_sjoin :: "'a queue \<Rightarrow> bool" where
  "q_sjoin q = (q_unfinished q = 0)"

text \<open>The drain loop of \<open>shutdown(immediate=True)\<close>; every \<open>_get\<close> removes one item, so the number of
  items at entry bounds it.\<close>

fun q_drain :: "'a storage \<Rightarrow> nat \<Rightarrow> 'a queue \<Rightarrow> 'a queue" where
  "q_drain st 0 q = q"
| "q_drain st (Suc n) q =
     (if q_items q = [] then q
      else q_drain st n (q\<lparr>q_items := snd (st_get st (q_items q)), q_unfinished := q_unfinished q - 1\<rparr>))"

definition q_shutdown :: "'a storage \<Rightarrow> bool \<Rightarrow> 'a queue \<Rightarrow> wstore \<Rightarrow> 'a queue \<times> wstore" where
  "q_shutdown st immediate q ws =
     (let q1 = q\<lparr>q_is_shutdown := True, q_putters := []\<rparr>;
          ws1 = wake_all (q_putters q) ws;
          q2 = (if immediate
                then (let q' = q_drain st (length (q_items q1)) q1
                      in if q_unfinished q' = 0 then q'\<lparr>q_finished := True\<rparr> else q')
                else q1)
      in (q2\<lparr>q_getters := []\<rparr>, wake_all (q_getters q2) ws1))"

section \<open>Systems of calls on one queue\<close>

text \<open>Parked calls by waiter (a parked put with its item), and the items accepted, handed out
  and discarded by an immediate shutdown.\<close>

record 'a qsys =
  sq_q :: "'a queue"
  sq_ws :: wstore
  sq_gets :: "nat set"
  sq_puts :: "nat \<Rightarrow> 'a option"
  sq_in :: "'a list"
  sq_out :: "'a list"
  sq_dropped :: "'a list"

text \<open>What a put or a get call does next: it completes, it raises, or it (still) waits.\<close>

definition put_done :: "'a \<Rightarrow> 'a queue \<times> wstore \<times> unit seg \<Rightarrow> 'a qsys \<Rightarrow> 'a qsys" where
  "put_done item r s =
     (case r of (q, ws, SRet _) \<Rightarrow> s\<lparr>sq_q := q, sq_ws := ws, sq_in := sq_in s @ [item]\<rparr>
              | (q, ws, SRaise _) \<Rightarrow> s\<lparr>sq_q := q, sq_ws := ws\<rparr>
              | (q, ws, SWait w) \<Rightarrow> s\<lparr>sq_q := q, sq_ws := ws, sq_puts := (sq_puts s)(w \<mapsto> item)\<rparr>)"

definition get_done :: "'a queue \<times> wstore \<times> 'a seg \<Rightarrow> 'a qsys \<Rightarrow> 'a qsys" where
  "get_done r s =
     (case r of (q, ws, SRet item) \<Rightarrow> s\<lparr>sq_q := q, sq_ws := ws, sq_out := sq_out s @ [item]\<rparr>
              | (q, ws, SRaise _) \<Rightarrow> s\<lparr>sq_q := q, sq_ws := ws\<rparr>
              | (q, ws, SWait w) \<Rightarrow> s\<lparr>sq_q := q, sq_ws := ws, sq_gets := insert w (sq_gets s)\<rparr>)"

inductive q_step :: "'a storage \<Rightarrow> 'a qsys \<Rightarrow> 'a qsys \<Rightarrow> bool" for st where
  s_put_nowait: "q_step st s (put_done item (q_put_nowait st item (sq_q s) (sq_ws s)) s)"
| s_sput: "q_step st s (put_done item (q_sput st item (sq_q s) (sq_ws s)) s)"
| s_sput_resume: "sq_puts s w = Some item \<Longrightarrow> waiter_is_set w (sq_ws s) \<Longrightarrow>
    q_step st s (put_done item (q_sput_resume st w item (sq_q s) (sq_ws s)) (s\<lparr>sq_puts := (sq_puts s)(w := None)\<rparr>))"
| s_sput_throw: "sq_puts s w = Some item \<Longrightarrow> q_sput_throw w (sq_q s) (sq_ws s) = (q, ws) \<Longrightarrow>
    q_step st s (s\<lparr>sq_q := q, sq_ws := ws, sq_puts := (sq_puts s)(w := None)\<rparr>)"
| s_get_nowait: "q_step st s (get_done (q_get_nowait st (sq_q s) (sq_ws s)) s)"
| s_sget: "q_step st s (get_done (q_sget st (sq_q s) (sq_ws s)) s)"
| s_sget_resume: "w \<in> sq_gets s \<Longrightarrow> waiter_is_set w (sq_ws s) \<Longrightarrow>
    q_step st s (get_done (q_sget_resume st w (sq_q s) (sq_ws s)) (s\<lparr>sq_gets := sq_gets s - {w}\<rparr>))"
| s_sget_throw: "w \<in> sq_gets s \<Longrightarrow> q_sget_throw w (sq_q s) (sq_ws s) = (q, ws) \<Longrightarrow>
    q_step st s (s\<lparr>sq_q := q, sq_ws := ws, sq_gets := sq_gets s - {w}\<rparr>)"
| s_task_done: "q_step st s (s\<lparr>sq_q := fst (q_task_done (sq_q s))\<rparr>)"
| s_shutdown: "q_shutdown st immediate (sq_q s) (sq_ws s) = (q, ws) \<Longrightarrow>
    q_step st s (s\<lparr>sq_q := q, sq_ws := ws, sq_dropped := sq_dropped s @ (if immediate then q_items (sq_q s) else [])\<rparr>)"

definition fresh_qsys :: "nat \<Rightarrow> 'a qsys" where
  "fresh_qsys maxsize = \<lparr>sq_q = \<lparr>q_maxsize = maxsize, q_items = [], q_getters = [], q_putters = [], q_unfinished = 0,
      q_is_shutdown = False, q_finished = True\<rparr>, sq_ws = empty_wstore, sq_gets = {}, sq_puts = (\<lambda>_. None),
      sq_in = [], sq_out = [], sq_dropped = []\<rparr>"

section \<open>Groups of waiters\<close>

text \<open>The queued waiters are exactly the parked calls that have not been woken.\<close>

definition grp_ok :: "nat list \<Rightarrow> nat set \<Rightarrow> nat set \<Rightarrow> bool" where
  "grp_ok ls P F \<longleftrightarrow> distinct ls \<and> set ls = P - F \<and> finite P"

lemma grp_wake:
  assumes "grp_ok (w # ls) P F"
  shows "grp_ok ls P (insert w F)" and "card (P \<inter> insert w F) = Suc (card (P \<inter> F))" and "w \<in> P" and "w \<notin> F"
proof -
  have w: "w \<in> P" "w \<notin> F" "finite P" using assms by (auto simp: grp_ok_def)
  show "grp_ok ls P (insert w F)" using assms by (auto simp: grp_ok_def)
  have "P \<inter> insert w F = insert w (P \<inter> F)" using w by auto
  then show "card (P \<inter> insert w F) = Suc (card (P \<inter> F))" using w by simp
qed (use assms in \<open>auto simp: grp_ok_def\<close>)

lemma grp_other: "grp_ok ls P F \<Longrightarrow> w \<notin> P \<Longrightarrow> grp_ok ls P (insert w F) \<and> P \<inter> insert w F = P \<inter> F"
  by (auto simp: grp_ok_def)

lemma grp_park: "grp_ok ls P F \<Longrightarrow> w \<notin> P \<Longrightarrow> w \<notin> F \<Longrightarrow> grp_ok (ls @ [w]) (insert w P) F \<and> insert w P \<inter> F = P \<inter> F"
  by (auto simp: grp_ok_def)

lemma grp_leave: "grp_ok ls P F \<Longrightarrow> grp_ok (remove1 w ls) (P - {w}) F"
  by (auto simp: grp_ok_def)

lemma grp_leave_woken:
  assumes "grp_ok ls P F" and "w \<in> P" and "w \<in> F"
  shows "remove1 w ls = ls" and "card (P \<inter> F) = Suc (card ((P - {w}) \<inter> F))"
proof -
  show "remove1 w ls = ls" using assms by (auto simp: grp_ok_def remove1_idem)
  have "P \<inter> F = insert w ((P - {w}) \<inter> F)" "finite ((P - {w}) \<inter> F)" using assms by (auto simp: grp_ok_def)
  then show "card (P \<inter> F) = Suc (card ((P - {w}) \<inter> F))" by (metis Diff_iff IntD1 card_insert_disjoint insertI1)
qed

lemma grp_wake_all: "grp_ok ls P F \<Longrightarrow> grp_ok [] P (F \<union> set ls)"
  by (auto simp: grp_ok_def)

lemma grp_wake_all_other: "grp_ok ls P F \<Longrightarrow> P \<inter> W = {} \<Longrightarrow> grp_ok ls P (F \<union> W) \<and> P \<inter> (F \<union> W) = P \<inter> F"
  by (auto simp: grp_ok_def)

section \<open>What Queue relies on, and what it guarantees\<close>

text \<open>The state of the queue and its parked calls; \<open>dg\<close> and \<open>dp\<close> count wake-ups that an operation in
  progress still owes to the getters and to the putters.\<close>

definition q_grp :: "'a queue \<Rightarrow> wstore \<Rightarrow> nat set \<Rightarrow> nat set \<Rightarrow> bool" where
  "q_grp q ws G P \<longleftrightarrow>
     grp_ok (q_getters q) G (w_fired ws) \<and> grp_ok (q_putters q) P (w_fired ws) \<and> G \<inter> P = {}
     \<and> wstore_ok ws \<and> (\<forall>w \<in> G \<union> P. w < w_next ws)"

definition q_cnt :: "nat \<Rightarrow> nat \<Rightarrow> 'a queue \<Rightarrow> nat \<Rightarrow> nat \<Rightarrow> bool" where
  "q_cnt dg dp q kg kp \<longleftrightarrow>
     (q_getters q \<noteq> [] \<longrightarrow> length (q_items q) \<le> kg + dg)
     \<and> (q_putters q \<noteq> [] \<longrightarrow> 0 < q_maxsize q \<and> q_maxsize q \<le> length (q_items q) + kp + dp)
     \<and> (0 < q_maxsize q \<longrightarrow> length (q_items q) \<le> q_maxsize q)
     \<and> (q_is_shutdown q \<longrightarrow> q_getters q = [] \<and> q_putters q = [])
     \<and> (q_finished q \<longleftrightarrow> q_unfinished q = 0)"

definition q_core :: "('a list \<Rightarrow> bool) \<Rightarrow> nat \<Rightarrow> nat \<Rightarrow> 'a queue \<Rightarrow> wstore \<Rightarrow> nat set \<Rightarrow> nat set \<Rightarrow> bool" where
  "q_core sinv dg dp q ws G P \<longleftrightarrow>
     q_grp q ws G P \<and> q_cnt dg dp q (card (G \<inter> w_fired ws)) (card (P \<inter> w_fired ws)) \<and> sinv (q_items q)"

lemma q_grp_wake_getter:
  assumes "q_grp q ws G P" and "q_getters q = x # ls"
  shows "q_grp (q\<lparr>q_getters := ls\<rparr>) (waiter_set x ws) G P"
    and "card (G \<inter> insert x (w_fired ws)) = Suc (card (G \<inter> w_fired ws))" and "P \<inter> insert x (w_fired ws) = P \<inter> w_fired ws"
proof -
  have g: "grp_ok (x # ls) G (w_fired ws)" and p: "grp_ok (q_putters q) P (w_fired ws)"
    using assms by (simp_all add: q_grp_def)
  note gw = grp_wake [OF g]
  have x: "x \<notin> P" using assms(1) gw(3) by (auto simp: q_grp_def)
  show "card (G \<inter> insert x (w_fired ws)) = Suc (card (G \<inter> w_fired ws))" by (rule gw(2))
  show "P \<inter> insert x (w_fired ws) = P \<inter> w_fired ws" using x by auto
  show "q_grp (q\<lparr>q_getters := ls\<rparr>) (waiter_set x ws) G P"
    using assms(1) gw(1,3) grp_other [OF p x] by (auto simp: q_grp_def wstore_ok_def)
qed

lemma q_grp_wake_putter:
  assumes "q_grp q ws G P" and "q_putters q = x # ls"
  shows "q_grp (q\<lparr>q_putters := ls\<rparr>) (waiter_set x ws) G P"
    and "card (P \<inter> insert x (w_fired ws)) = Suc (card (P \<inter> w_fired ws))" and "G \<inter> insert x (w_fired ws) = G \<inter> w_fired ws"
proof -
  have g: "grp_ok (x # ls) P (w_fired ws)" and p: "grp_ok (q_getters q) G (w_fired ws)"
    using assms by (simp_all add: q_grp_def)
  note gw = grp_wake [OF g]
  have x: "x \<notin> G" using assms(1) gw(3) by (auto simp: q_grp_def)
  show "card (P \<inter> insert x (w_fired ws)) = Suc (card (P \<inter> w_fired ws))" by (rule gw(2))
  show "G \<inter> insert x (w_fired ws) = G \<inter> w_fired ws" using x by auto
  show "q_grp (q\<lparr>q_putters := ls\<rparr>) (waiter_set x ws) G P"
    using assms(1) gw(1,3) grp_other [OF p x] by (auto simp: q_grp_def wstore_ok_def)
qed

lemma wakeup_getter_core:
  assumes c: "q_core sinv (Suc dg) dp q ws G P" and w: "wakeup_getter q ws = (q', ws')"
  shows "q_core sinv dg dp q' ws' G P"
proof (cases "q_getters q")
  case Nil
  then have "q' = q" "ws' = ws" using w by (cases q, auto simp: wakeup_getter_def)+
  then show ?thesis using c Nil by (simp add: q_core_def q_cnt_def)
next
  case (Cons x ls)
  have e: "q' = q\<lparr>q_getters := ls\<rparr>" "ws' = waiter_set x ws" using w Cons by (auto simp: wakeup_getter_def)
  have g: "q_grp q ws G P" using c by (simp add: q_core_def)
  note wk = q_grp_wake_getter [OF g Cons]
  have k: "card (G \<inter> w_fired ws') = Suc (card (G \<inter> w_fired ws))" "card (P \<inter> w_fired ws') = card (P \<inter> w_fired ws)"
    unfolding e waiter_set_simps by (simp_all only: wk)
  have "q_grp q' ws' G P" unfolding e by (rule wk(1))
  moreover have "q_cnt dg dp q' (card (G \<inter> w_fired ws')) (card (P \<inter> w_fired ws'))"
    using c Cons by (simp add: q_core_def k) (simp add: e(1) q_cnt_def)
  ultimately show ?thesis using c by (simp add: q_core_def e(1))
qed

lemma wakeup_putter_core:
  assumes c: "q_core sinv dg (Suc dp) q ws G P" and w: "wakeup_putter q ws = (q', ws')"
  shows "q_core sinv dg dp q' ws' G P"
proof (cases "q_putters q")
  case Nil
  then have "q' = q" "ws' = ws" using w by (cases q, auto simp: wakeup_putter_def)+
  then show ?thesis using c Nil by (simp add: q_core_def q_cnt_def)
next
  case (Cons x ls)
  have e: "q' = q\<lparr>q_putters := ls\<rparr>" "ws' = waiter_set x ws" using w Cons by (auto simp: wakeup_putter_def)
  have g: "q_grp q ws G P" using c by (simp add: q_core_def)
  note wk = q_grp_wake_putter [OF g Cons]
  have k: "card (P \<inter> w_fired ws') = Suc (card (P \<inter> w_fired ws))" "card (G \<inter> w_fired ws') = card (G \<inter> w_fired ws)"
    unfolding e waiter_set_simps by (simp_all only: wk)
  have "q_grp q' ws' G P" unfolding e by (rule wk(1))
  moreover have "q_cnt dg dp q' (card (G \<inter> w_fired ws')) (card (P \<inter> w_fired ws'))"
    using c Cons by (simp add: q_core_def k) (simp add: e(1) q_cnt_def)
  ultimately show ?thesis using c by (simp add: q_core_def e(1))
qed

lemma wakeup_fields:
  "q_items (fst (wakeup_getter q ws)) = q_items q" "q_items (fst (wakeup_putter q ws)) = q_items q"
  "q_is_shutdown (fst (wakeup_getter q ws)) = q_is_shutdown q" "q_is_shutdown (fst (wakeup_putter q ws)) = q_is_shutdown q"
  "q_getters (fst (wakeup_putter q ws)) = q_getters q"
  by (simp_all add: wakeup_getter_def wakeup_putter_def wake_first_eq)

text \<open>A call leaves the wait.\<close>

lemma leave_putter:
  assumes c: "q_core sinv 0 0 q ws G P" and "w \<in> P"
  shows "q_core sinv 0 (if w \<in> w_fired ws then 1 else 0) (q\<lparr>q_putters := remove1 w (q_putters q)\<rparr>) ws G (P - {w})"
proof -
  have g: "grp_ok (q_putters q) P (w_fired ws)" using c by (simp add: q_core_def q_grp_def)
  have grp: "q_grp (q\<lparr>q_putters := remove1 w (q_putters q)\<rparr>) ws G (P - {w})"
    using c grp_leave [OF g, of w] by (auto simp: q_core_def q_grp_def)
  have ne: "remove1 w (q_putters q) \<noteq> [] \<Longrightarrow> q_putters q \<noteq> []" by auto
  show ?thesis
  proof (cases "w \<in> w_fired ws")
    case True
    obtain k where "card ((P - {w}) \<inter> w_fired ws) = k" "card (P \<inter> w_fired ws) = Suc k"
      using grp_leave_woken(2) [OF g assms(2) True] by blast
    then show ?thesis using c grp True ne by (auto simp: q_core_def q_cnt_def)
  next
    case False
    then have "(P - {w}) \<inter> w_fired ws = P \<inter> w_fired ws" by auto
    then show ?thesis using c grp False ne by (auto simp: q_core_def q_cnt_def)
  qed
qed

lemma leave_getter:
  assumes c: "q_core sinv 0 0 q ws G P" and "w \<in> G"
  shows "q_core sinv (if w \<in> w_fired ws then 1 else 0) 0 (q\<lparr>q_getters := remove1 w (q_getters q)\<rparr>) ws (G - {w}) P"
proof -
  have g: "grp_ok (q_getters q) G (w_fired ws)" using c by (simp add: q_core_def q_grp_def)
  have grp: "q_grp (q\<lparr>q_getters := remove1 w (q_getters q)\<rparr>) ws (G - {w}) P"
    using c grp_leave [OF g, of w] by (auto simp: q_core_def q_grp_def)
  have ne: "remove1 w (q_getters q) \<noteq> [] \<Longrightarrow> q_getters q \<noteq> []" by auto
  show ?thesis
  proof (cases "w \<in> w_fired ws")
    case True
    obtain k where "card ((G - {w}) \<inter> w_fired ws) = k" "card (G \<inter> w_fired ws) = Suc k"
      using grp_leave_woken(2) [OF g assms(2) True] by blast
    then show ?thesis using c grp True ne by (auto simp: q_core_def q_cnt_def)
  next
    case False
    then have "(G - {w}) \<inter> w_fired ws = G \<inter> w_fired ws" by auto
    then show ?thesis using c grp False ne by (auto simp: q_core_def q_cnt_def)
  qed
qed

lemma sput_throw_core:
  assumes c: "q_core sinv 0 0 q ws G P" and "w \<in> P" and t: "q_sput_throw w q ws = (q', ws')"
  shows "q_core sinv 0 0 q' ws' G (P - {w})" and "q_items q' = q_items q"
proof -
  let ?q1 = "q\<lparr>q_putters := remove1 w (q_putters q)\<rparr>"
  note l = leave_putter [OF c assms(2)]
  have "q_core sinv 0 0 q' ws' G (P - {w}) \<and> q_items q' = q_items q"
  proof (cases "waiter_is_set w ws \<and> \<not> q_full q")
    case True
    then have a: "wakeup_putter ?q1 ws = (q', ws')" and b: "q_core sinv 0 (Suc 0) ?q1 ws G (P - {w})"
      using t l by (simp_all add: q_sput_throw_def waiter_is_set_def)
    show ?thesis using wakeup_putter_core [OF b a] wakeup_fields(2) [of ?q1 ws] a by simp
  next
    case False
    then have e: "q' = ?q1" "ws' = ws" using t by (auto simp: q_sput_throw_def Let_def)
    show ?thesis using False l unfolding e
      by (auto simp: q_core_def q_cnt_def waiter_is_set_def q_full_def q_qsize_def split: if_splits)
  qed
  then show "q_core sinv 0 0 q' ws' G (P - {w})" "q_items q' = q_items q" by simp_all
qed

lemma sget_throw_core:
  assumes c: "q_core sinv 0 0 q ws G P" and "w \<in> G" and t: "q_sget_throw w q ws = (q', ws')"
  shows "q_core sinv 0 0 q' ws' (G - {w}) P" and "q_items q' = q_items q"
proof -
  let ?q1 = "q\<lparr>q_getters := remove1 w (q_getters q)\<rparr>"
  note l = leave_getter [OF c assms(2)]
  have "q_core sinv 0 0 q' ws' (G - {w}) P \<and> q_items q' = q_items q"
  proof (cases "waiter_is_set w ws \<and> \<not> q_empty q")
    case True
    then have a: "wakeup_getter ?q1 ws = (q', ws')" and b: "q_core sinv (Suc 0) 0 ?q1 ws (G - {w}) P"
      using t l by (simp_all add: q_sget_throw_def waiter_is_set_def)
    show ?thesis using wakeup_getter_core [OF b a] wakeup_fields(1) [of ?q1 ws] a by simp
  next
    case False
    then have e: "q' = ?q1" "ws' = ws" using t by (auto simp: q_sget_throw_def Let_def)
    show ?thesis using False l unfolding e
      by (auto simp: q_core_def q_cnt_def waiter_is_set_def q_empty_def q_qsize_def split: if_splits)
  qed
  then show "q_core sinv 0 0 q' ws' (G - {w}) P" "q_items q' = q_items q" by simp_all
qed

lemma q_grp_items [simp]: "q_grp (q\<lparr>q_items := xs\<rparr>) ws G P = q_grp q ws G P"
  "q_grp (q\<lparr>q_items := xs, q_unfinished := n, q_finished := f\<rparr>) ws G P = q_grp q ws G P"
  by (simp_all add: q_grp_def)

lemma park_getter:
  assumes c: "q_core sinv dg 0 q ws G P" and e: "q_items q = []" and "\<not> q_is_shutdown q"
  shows "q_core sinv 0 0 (q\<lparr>q_getters := q_getters q @ [w_next ws]\<rparr>) (ws\<lparr>w_next := Suc (w_next ws)\<rparr>) (insert (w_next ws) G) P"
proof -
  let ?w = "w_next ws"
  have nf: "?w \<notin> w_fired ws" "?w \<notin> G" "?w \<notin> P" using c by (auto simp: q_core_def q_grp_def wstore_ok_def)
  have g: "grp_ok (q_getters q) G (w_fired ws)" using c by (simp add: q_core_def q_grp_def)
  note pk = grp_park [OF g nf(2,1)]
  have "q_grp (q\<lparr>q_getters := q_getters q @ [?w]\<rparr>) (ws\<lparr>w_next := Suc ?w\<rparr>) (insert ?w G) P"
    using c pk nf by (auto simp: q_core_def q_grp_def wstore_ok_def intro: less_SucI)
  then show ?thesis using c e assms(3) pk by (simp add: q_core_def q_cnt_def)
qed

lemma park_putter:
  assumes c: "q_core sinv 0 dp q ws G P" and e: "q_full q" and "\<not> q_is_shutdown q"
  shows "q_core sinv 0 0 (q\<lparr>q_putters := q_putters q @ [w_next ws]\<rparr>) (ws\<lparr>w_next := Suc (w_next ws)\<rparr>) G (insert (w_next ws) P)"
proof -
  let ?w = "w_next ws"
  have nf: "?w \<notin> w_fired ws" "?w \<notin> G" "?w \<notin> P" using c by (auto simp: q_core_def q_grp_def wstore_ok_def)
  have g: "grp_ok (q_putters q) P (w_fired ws)" using c by (simp add: q_core_def q_grp_def)
  note pk = grp_park [OF g nf(3,1)]
  have "q_grp (q\<lparr>q_putters := q_putters q @ [?w]\<rparr>) (ws\<lparr>w_next := Suc ?w\<rparr>) G (insert ?w P)"
    using c pk nf by (auto simp: q_core_def q_grp_def wstore_ok_def intro: less_SucI)
  then show ?thesis using c e assms(3) pk by (simp add: q_core_def q_cnt_def q_full_def q_qsize_def)
qed

locale queue_storage =
  fixes st :: "'a storage"
    and sinv :: "'a list \<Rightarrow> bool"
  assumes sinv_empty: "sinv []"
    and put_items: "sinv xs \<Longrightarrow> sinv (st_put st x xs) \<and> mset (st_put st x xs) = add_mset x (mset xs)"
    and get_items: "sinv xs \<Longrightarrow> xs \<noteq> [] \<Longrightarrow>
      \<exists>x ys. st_get st xs = (Inr x, ys) \<and> mset xs = add_mset x (mset ys) \<and> sinv ys"
begin

lemma length_put: "sinv xs \<Longrightarrow> length (st_put st x xs) = Suc (length xs)"
  using put_items by (metis size_add_mset size_mset)

lemma put_nowait_core:
  assumes c: "q_core sinv 0 dp q ws G P" and dp: "dp \<le> 1" and r: "q_put_nowait st item q ws = (q', ws', r)"
  shows "q_core sinv 0 0 q' ws' G P
    \<and> (r = SRet () \<and> q_items q' = st_put st item (q_items q) \<and> \<not> q_is_shutdown q \<or> (\<exists>e. r = SRaise e) \<and> q_items q' = q_items q)
    \<and> q_is_shutdown q' = q_is_shutdown q"
proof -
  consider "q_is_shutdown q" | "\<not> q_is_shutdown q" "q_full q" | "\<not> q_is_shutdown q" "\<not> q_full q" by blast
  then show ?thesis
  proof cases
    case 3
    let ?q1 = "q\<lparr>q_items := st_put st item (q_items q), q_unfinished := q_unfinished q + 1, q_finished := False\<rparr>"
    have si: "sinv (q_items q)" using c by (simp add: q_core_def)
    have "q_core sinv (Suc 0) 0 ?q1 ws G P"
      using c 3 dp put_items [OF si, of item] length_put [OF si, of item]
      by (auto simp: q_core_def q_cnt_def q_full_def q_qsize_def)
    moreover obtain q2 ws2 where w: "wakeup_getter ?q1 ws = (q2, ws2)" by fastforce
    ultimately have "q_core sinv 0 0 q2 ws2 G P" by (rule wakeup_getter_core)
    moreover have "q_items q2 = q_items ?q1" "q_is_shutdown q2 = q_is_shutdown ?q1"
      using wakeup_fields(1,3) [of ?q1 ws] w by simp_all
    ultimately show ?thesis using r 3 w by (auto simp: q_put_nowait_def Let_def)
  next
    case 1
    then show ?thesis using c r by (auto simp: q_put_nowait_def q_core_def q_cnt_def)
  next
    case 2
    then show ?thesis using c r by (auto simp: q_put_nowait_def q_core_def q_cnt_def q_full_def q_qsize_def)
  qed
qed

lemma sput_core:
  assumes c: "q_core sinv 0 dp q ws G P" and dp: "dp \<le> 1" and r: "q_sput st item q ws = (q', ws', r)"
  shows "r = SRet () \<and> q_core sinv 0 0 q' ws' G P \<and> q_items q' = st_put st item (q_items q) \<and> \<not> q_is_shutdown q
      \<and> q_is_shutdown q' = q_is_shutdown q
    \<or> (\<exists>e. r = SRaise e) \<and> q_core sinv 0 0 q' ws' G P \<and> q_items q' = q_items q \<and> q_is_shutdown q' = q_is_shutdown q
    \<or> (\<exists>w. r = SWait w \<and> q_core sinv 0 0 q' ws' G (insert w P)) \<and> q_items q' = q_items q \<and> q_is_shutdown q' = q_is_shutdown q"
proof (cases "q_full q")
  case True
  show ?thesis
  proof (cases "q_is_shutdown q")
    case sd: True
    then have "q_core sinv 0 0 q ws G P" using c by (auto simp: q_core_def q_cnt_def)
    then show ?thesis using r True sd by (auto simp: q_sput_def)
  next
    case False
    then show ?thesis using park_putter [OF c True False] r True by (auto simp: q_sput_def new_waiter_def)
  qed
next
  case False
  then have "q_put_nowait st item q ws = (q', ws', r)" using r by (simp add: q_sput_def)
  from put_nowait_core [OF c dp this] show ?thesis by blast
qed

lemma get_nowait_core:
  assumes c: "q_core sinv dg 0 q ws G P" and dg: "dg \<le> 1" and r: "q_get_nowait st q ws = (q', ws', r)"
  shows "q_core sinv 0 0 q' ws' G P
    \<and> ((\<exists>x. r = SRet x \<and> q_items q \<noteq> [] \<and> st_get st (q_items q) = (Inr x, q_items q')) \<or> (\<exists>e. r = SRaise e) \<and> q_items q' = q_items q)
    \<and> q_is_shutdown q' = q_is_shutdown q"
proof (cases "q_items q = []")
  case True
  then have "q_core sinv 0 0 q ws G P" using c by (auto simp: q_core_def q_cnt_def)
  then show ?thesis using r True by (auto simp: q_get_nowait_def q_empty_def q_qsize_def)
next
  case False
  have si: "sinv (q_items q)" using c by (simp add: q_core_def)
  obtain x ys where g: "st_get st (q_items q) = (Inr x, ys)" "mset (q_items q) = add_mset x (mset ys)" "sinv ys"
    using get_items [OF si False] by blast
  then have len: "length (q_items q) = Suc (length ys)" by (metis size_add_mset size_mset)
  let ?q1 = "q\<lparr>q_items := ys\<rparr>"
  have "q_core sinv 0 (Suc 0) ?q1 ws G P" using c dg len g(3) by (auto simp: q_core_def q_cnt_def)
  moreover obtain q2 ws2 where w: "wakeup_putter ?q1 ws = (q2, ws2)" by fastforce
  ultimately have c2: "q_core sinv 0 0 q2 ws2 G P" by (rule wakeup_putter_core)
  have f: "q_items q2 = ys" "q_is_shutdown q2 = q_is_shutdown q" using wakeup_fields(2,4) [of ?q1 ws] w by simp_all
  have e: "q_is_shutdown q2 \<Longrightarrow> q_getters q2 = []" using c2 by (simp add: q_core_def q_cnt_def)
  have ne: "\<not> q_empty q" using False by (simp add: q_empty_def q_qsize_def)
  have "(q', ws', r) = (q2, ws2, SRet x)"
  proof (cases "q_is_shutdown q2")
    case True
    then have "q2\<lparr>q_getters := []\<rparr> = q2" using e by (cases q2) simp
    then show ?thesis using r ne g(1) w e [OF True] by (auto simp: q_get_nowait_def split: if_splits)
  next
    case False
    then show ?thesis using r ne g(1) w by (auto simp: q_get_nowait_def)
  qed
  then show ?thesis using c2 f g(1) False by simp
qed

lemma sget_core:
  assumes c: "q_core sinv dg 0 q ws G P" and dg: "dg \<le> 1" and r: "q_sget st q ws = (q', ws', r)"
  shows "(\<exists>x. r = SRet x \<and> q_items q \<noteq> [] \<and> st_get st (q_items q) = (Inr x, q_items q')) \<and> q_core sinv 0 0 q' ws' G P
      \<and> q_is_shutdown q' = q_is_shutdown q
    \<or> (\<exists>e. r = SRaise e) \<and> q_core sinv 0 0 q' ws' G P \<and> q_items q' = q_items q \<and> q_is_shutdown q' = q_is_shutdown q
    \<or> (\<exists>w. r = SWait w \<and> q_core sinv 0 0 q' ws' (insert w G) P) \<and> q_items q' = q_items q \<and> q_is_shutdown q' = q_is_shutdown q"
proof (cases "q_items q = []")
  case True
  then have em: "q_empty q" by (simp add: q_empty_def q_qsize_def)
  show ?thesis
  proof (cases "q_is_shutdown q")
    case sd: True
    then have "q_core sinv 0 0 q ws G P" using c by (auto simp: q_core_def q_cnt_def)
    then show ?thesis using r em sd by (auto simp: q_sget_def)
  next
    case False
    then show ?thesis using park_getter [OF c True False] r em by (auto simp: q_sget_def new_waiter_def)
  qed
next
  case False
  then have "q_get_nowait st q ws = (q', ws', r)" using r by (simp add: q_sget_def q_empty_def q_qsize_def)
  from get_nowait_core [OF c dg this] show ?thesis by blast
qed

lemma drain_empties:
  "sinv (q_items q) \<Longrightarrow> length (q_items q) \<le> n \<Longrightarrow>
     q_items (q_drain st n q) = [] \<and> (q_unfinished q = 0 \<longrightarrow> q_unfinished (q_drain st n q) = 0)"
proof (induction n arbitrary: q)
  case (Suc n)
  show ?case
  proof (cases "q_items q = []")
    case False
    obtain x ys where g: "st_get st (q_items q) = (Inr x, ys)" "mset (q_items q) = add_mset x (mset ys)" "sinv ys"
      using get_items [OF Suc.prems(1) False] by blast
    have "length (q_items q) = Suc (length ys)" using g(2) by (metis size_add_mset size_mset)
    then show ?thesis
      using Suc.IH [of "q\<lparr>q_items := ys, q_unfinished := q_unfinished q - 1\<rparr>"] Suc.prems g(1,3) False by simp
  qed simp
qed simp

lemma drain_fields:
  "q_getters (q_drain st n q) = q_getters q \<and> q_putters (q_drain st n q) = q_putters q
   \<and> q_maxsize (q_drain st n q) = q_maxsize q \<and> q_is_shutdown (q_drain st n q) = q_is_shutdown q
   \<and> q_finished (q_drain st n q) = q_finished q"
  by (induction n arbitrary: q) auto

lemma shutdown_core:
  assumes c: "q_core sinv 0 0 q ws G P" and r: "q_shutdown st immediate q ws = (q', ws')"
  shows "q_core sinv 0 0 q' ws' G P \<and> q_items q' = (if immediate then [] else q_items q) \<and> q_is_shutdown q'"
proof -
  let ?q1 = "q\<lparr>q_is_shutdown := True, q_putters := []\<rparr>"
  let ?d = "q_drain st (length (q_items ?q1)) ?q1"
  define q2 where "q2 = (if immediate then (if q_unfinished ?d = 0 then ?d\<lparr>q_finished := True\<rparr> else ?d) else ?q1)"
  have si: "sinv (q_items q)" using c by (simp add: q_core_def)
  have d: "q_items ?d = []" "q_unfinished q = 0 \<longrightarrow> q_unfinished ?d = 0"
    using drain_empties [of ?q1 "length (q_items ?q1)"] si by simp_all
  have f: "q_getters q2 = q_getters q" "q_putters q2 = []" "q_maxsize q2 = q_maxsize q" "q_is_shutdown q2"
    using drain_fields [of "length (q_items ?q1)" ?q1] by (auto simp: q2_def)
  have items: "q_items q2 = (if immediate then [] else q_items q)" using d by (simp add: q2_def)
  have fin: "q_finished q2 \<longleftrightarrow> q_unfinished q2 = 0"
    using c d(2) drain_fields [of "length (q_items ?q1)" ?q1] by (auto simp: q2_def q_core_def q_cnt_def)
  have e: "q' = q2\<lparr>q_getters := []\<rparr>" "ws' = wake_all (q_getters q) (wake_all (q_putters q) ws)"
    using r f(1) by (auto simp: q_shutdown_def Let_def q2_def split: if_splits)
  have fired: "w_fired ws' = w_fired ws \<union> set (q_putters q) \<union> set (q_getters q)" by (simp add: e(2))
  have gg: "grp_ok (q_getters q) G (w_fired ws)" "grp_ok (q_putters q) P (w_fired ws)" "wstore_ok ws" "\<forall>w \<in> G \<union> P. w < w_next ws"
    "G \<inter> P = {}" using c by (simp_all add: q_core_def q_grp_def)
  have "grp_ok [] G (w_fired ws')" "grp_ok [] P (w_fired ws')"
    using gg(1,2) by (auto simp: grp_ok_def fired)
  moreover have "wstore_ok ws'" using gg by (auto simp: wstore_ok_def fired e(2) grp_ok_def)
  ultimately have "q_grp q' ws' G P" using gg(4,5) f by (simp add: q_grp_def e)
  moreover have "q_cnt 0 0 q' kg kp" for kg kp using c f fin items by (auto simp: q_core_def q_cnt_def e(1))
  moreover have "sinv (q_items q')" using si sinv_empty items by (simp add: e(1))
  ultimately show ?thesis using items f(4) by (simp add: q_core_def e(1))
qed

definition qs_inv :: "'a qsys \<Rightarrow> bool" where
  "qs_inv s \<longleftrightarrow> q_core sinv 0 0 (sq_q s) (sq_ws s) (sq_gets s) (dom (sq_puts s))
     \<and> mset (sq_in s) = mset (sq_out s) + mset (sq_dropped s) + mset (q_items (sq_q s))"

lemma put_done_inv:
  assumes r: "r = SRet () \<and> q_core sinv 0 0 q ws G P \<and> mset (q_items q) = add_mset item (mset (q_items (sq_q s)))
    \<or> (\<exists>e. r = SRaise e) \<and> q_core sinv 0 0 q ws G P \<and> q_items q = q_items (sq_q s)
    \<or> (\<exists>w. r = SWait w \<and> q_core sinv 0 0 q ws G (insert w P)) \<and> q_items q = q_items (sq_q s)"
    and "G = sq_gets s" and "P = dom (sq_puts s)"
    and "mset (sq_in s) = mset (sq_out s) + mset (sq_dropped s) + mset (q_items (sq_q s))"
  shows "qs_inv (put_done item (q, ws, r) s)"
  using r assms(2-) by (elim disjE) (auto simp: qs_inv_def put_done_def)

lemma get_done_inv:
  assumes r: "(\<exists>x. r = SRet x \<and> mset (q_items (sq_q s)) = add_mset x (mset (q_items q))) \<and> q_core sinv 0 0 q ws G P
    \<or> (\<exists>e. r = SRaise e) \<and> q_core sinv 0 0 q ws G P \<and> q_items q = q_items (sq_q s)
    \<or> (\<exists>w. r = SWait w \<and> q_core sinv 0 0 q ws (insert w G) P) \<and> q_items q = q_items (sq_q s)"
    and "G = sq_gets s" and "P = dom (sq_puts s)"
    and "mset (sq_in s) = mset (sq_out s) + mset (sq_dropped s) + mset (q_items (sq_q s))"
  shows "qs_inv (get_done (q, ws, r) s)"
  using r assms(2-) by (elim disjE) (auto simp: qs_inv_def get_done_def)

lemma get_mset: "sinv xs \<Longrightarrow> xs \<noteq> [] \<Longrightarrow> st_get st xs = (Inr x, ys) \<Longrightarrow> mset xs = add_mset x (mset ys)"
  using get_items by fastforce

lemma sput_inv:
  assumes c: "q_core sinv 0 dp q ws (sq_gets s) (dom (sq_puts s))" and "dp \<le> 1" and "q_items q = q_items (sq_q s)"
    and m: "mset (sq_in s) = mset (sq_out s) + mset (sq_dropped s) + mset (q_items (sq_q s))"
  shows "qs_inv (put_done item (q_sput st item q ws) s)"
proof -
  obtain q' ws' r where e: "q_sput st item q ws = (q', ws', r)" using prod_cases3 by blast
  have "sinv (q_items q)" using c by (simp add: q_core_def)
  then have "mset (st_put st item (q_items q)) = add_mset item (mset (q_items q))" using put_items by blast
  then show ?thesis unfolding e
    using sput_core [OF c assms(2) e] assms(3) by (intro put_done_inv [OF _ refl refl m]) auto
qed

lemma put_nowait_inv:
  assumes c: "q_core sinv 0 0 (sq_q s) (sq_ws s) (sq_gets s) (dom (sq_puts s))"
    and m: "mset (sq_in s) = mset (sq_out s) + mset (sq_dropped s) + mset (q_items (sq_q s))"
  shows "qs_inv (put_done item (q_put_nowait st item (sq_q s) (sq_ws s)) s)"
proof -
  obtain q' ws' r where e: "q_put_nowait st item (sq_q s) (sq_ws s) = (q', ws', r)" using prod_cases3 by blast
  have "sinv (q_items (sq_q s))" using c by (simp add: q_core_def)
  then have "mset (st_put st item (q_items (sq_q s))) = add_mset item (mset (q_items (sq_q s)))" using put_items by blast
  then show ?thesis unfolding e
    using put_nowait_core [OF c _ e] by (intro put_done_inv [OF _ refl refl m]) auto
qed

lemma sget_inv:
  assumes c: "q_core sinv dg 0 q ws (sq_gets s) (dom (sq_puts s))" and "dg \<le> 1" and i: "q_items q = q_items (sq_q s)"
    and m: "mset (sq_in s) = mset (sq_out s) + mset (sq_dropped s) + mset (q_items (sq_q s))"
  shows "qs_inv (get_done (q_sget st q ws) s)"
proof -
  obtain q' ws' r where e: "q_sget st q ws = (q', ws', r)" using prod_cases3 by blast
  have "sinv (q_items q)" using c by (simp add: q_core_def)
  then show ?thesis unfolding e
    using sget_core [OF c assms(2) e] get_mset i by (intro get_done_inv [OF _ refl refl m]) auto
qed

lemma get_nowait_inv:
  assumes c: "q_core sinv 0 0 (sq_q s) (sq_ws s) (sq_gets s) (dom (sq_puts s))"
    and m: "mset (sq_in s) = mset (sq_out s) + mset (sq_dropped s) + mset (q_items (sq_q s))"
  shows "qs_inv (get_done (q_get_nowait st (sq_q s) (sq_ws s)) s)"
proof -
  obtain q' ws' r where e: "q_get_nowait st (sq_q s) (sq_ws s) = (q', ws', r)" using prod_cases3 by blast
  have "sinv (q_items (sq_q s))" using c by (simp add: q_core_def)
  then show ?thesis unfolding e
    using get_nowait_core [OF c _ e] get_mset by (intro get_done_inv [OF _ refl refl m]) auto
qed

lemma q_step_inv: "q_step st s s' \<Longrightarrow> qs_inv s \<Longrightarrow> qs_inv s'"
proof (induction rule: q_step.induct)
  case (s_put_nowait s item)
  then show ?case by (intro put_nowait_inv) (simp_all add: qs_inv_def)
next
  case (s_sput s item)
  then show ?case by (intro sput_inv [where dp = 0]) (simp_all add: qs_inv_def)
next
  case (s_sput_resume s w item)
  have c: "q_core sinv 0 0 (sq_q s) (sq_ws s) (sq_gets s) (dom (sq_puts s))" and w: "w \<in> dom (sq_puts s)"
    using s_sput_resume by (auto simp: qs_inv_def)
  from leave_putter [OF c w] s_sput_resume show ?case
    unfolding q_sput_resume_def by (intro sput_inv [where dp = 1]) (simp_all add: qs_inv_def waiter_is_set_def dom_fun_upd)
next
  case (s_sput_throw s w item q ws)
  have c: "q_core sinv 0 0 (sq_q s) (sq_ws s) (sq_gets s) (dom (sq_puts s))" and w: "w \<in> dom (sq_puts s)"
    using s_sput_throw by (auto simp: qs_inv_def)
  from sput_throw_core [OF c w s_sput_throw(2)] s_sput_throw(3) show ?case by (simp add: qs_inv_def dom_fun_upd)
next
  case (s_get_nowait s)
  then show ?case by (intro get_nowait_inv) (simp_all add: qs_inv_def)
next
  case (s_sget s)
  then show ?case by (intro sget_inv [where dg = 0]) (simp_all add: qs_inv_def)
next
  case (s_sget_resume w s)
  have c: "q_core sinv 0 0 (sq_q s) (sq_ws s) (sq_gets s) (dom (sq_puts s))" using s_sget_resume by (simp add: qs_inv_def)
  from leave_getter [OF c s_sget_resume(1)] s_sget_resume show ?case
    unfolding q_sget_resume_def by (intro sget_inv [where dg = 1]) (simp_all add: qs_inv_def waiter_is_set_def)
next
  case (s_sget_throw w s q ws)
  have c: "q_core sinv 0 0 (sq_q s) (sq_ws s) (sq_gets s) (dom (sq_puts s))" using s_sget_throw by (simp add: qs_inv_def)
  from sget_throw_core [OF c s_sget_throw(1,2)] s_sget_throw(3) show ?case by (simp add: qs_inv_def)
next
  case (s_task_done s)
  have "q_core sinv 0 0 (fst (q_task_done (sq_q s))) (sq_ws s) (sq_gets s) (dom (sq_puts s))"
    using s_task_done by (auto simp: qs_inv_def q_task_done_def q_core_def q_grp_def q_cnt_def Let_def)
  then show ?case using s_task_done by (simp add: qs_inv_def q_task_done_def Let_def)
next
  case (s_shutdown immediate s q ws)
  have c: "q_core sinv 0 0 (sq_q s) (sq_ws s) (sq_gets s) (dom (sq_puts s))" using s_shutdown by (simp add: qs_inv_def)
  from shutdown_core [OF c s_shutdown(1)] s_shutdown(2) show ?case by (simp add: qs_inv_def)
qed

lemma q_reach_inv: "(q_step st)\<^sup>*\<^sup>* s s' \<Longrightarrow> qs_inv s \<Longrightarrow> qs_inv s'"
  by (induction rule: rtranclp_induct) (auto intro: q_step_inv)

lemma fresh_qsys_inv: "qs_inv (fresh_qsys maxsize)"
  by (simp add: qs_inv_def fresh_qsys_def q_core_def q_grp_def q_cnt_def grp_ok_def empty_wstore_def wstore_ok_def sinv_empty)

end

interpretation fifost: queue_storage fifo_storage "\<lambda>_. True"
  by unfold_locales (auto simp: fifo_storage_def queue_put_def queue_get_def popleft_def split: list.split)

lemma lifo_get_mset: "xs \<noteq> [] \<Longrightarrow> mset xs = add_mset (last xs) (mset (butlast xs))"
  by (metis append_butlast_last_id mset.simps mset_append add_mset_add_single)

interpretation lifost: queue_storage lifo_storage "\<lambda>_. True"
  by unfold_locales (auto simp: lifo_storage_def lifo_put_def lifo_get_def lifo_get_mset)

interpretation priost: queue_storage "priority_storage :: 'a::linorder storage" "is_heap (\<lambda>x. x)"
proof unfold_locales
  show "is_heap (\<lambda>x. x) ([] :: 'a list)" by (simp add: is_heap_def)
  show "is_heap (\<lambda>x. x) (st_put priority_storage x xs) \<and> mset (st_put priority_storage x xs) = add_mset x (mset xs)"
    if "is_heap (\<lambda>x. x) xs" for xs and x :: 'a
    using heapq.invar_push [OF that] heapq.entries_push [OF that] by (simp add: priority_storage_def priority_put_def)
  show "\<exists>x ys. st_get priority_storage xs = (Inr x, ys) \<and> mset xs = add_mset x (mset ys) \<and> is_heap (\<lambda>x. x) ys"
    if "is_heap (\<lambda>x. x) xs" "xs \<noteq> []" for xs :: "'a list"
    using heapq.pop_min [OF that(1)] that(2) by (auto simp: priority_storage_def priority_get_def)
qed

section \<open>Properties\<close>

lemma any_storage_core:
  fixes s :: "'a::linorder qsys"
  assumes "st \<in> {fifo_storage, lifo_storage, priority_storage}" and "(q_step st)\<^sup>*\<^sup>* (fresh_qsys maxsize) s"
  shows "\<exists>sinv. q_core sinv 0 0 (sq_q s) (sq_ws s) (sq_gets s) (dom (sq_puts s))
    \<and> mset (sq_in s) = mset (sq_out s) + mset (sq_dropped s) + mset (q_items (sq_q s))"
proof -
  consider "st = fifo_storage" | "st = lifo_storage" | "st = priority_storage" using assms(1) by blast
  then show ?thesis
  proof cases
    case 1
    then show ?thesis using fifost.q_reach_inv [OF _ fifost.fresh_qsys_inv] assms(2) by (auto simp: fifost.qs_inv_def)
  next
    case 2
    then show ?thesis using lifost.q_reach_inv [OF _ lifost.fresh_qsys_inv] assms(2) by (auto simp: lifost.qs_inv_def)
  next
    case 3
    then show ?thesis using priost.q_reach_inv [OF _ priost.fresh_qsys_inv] assms(2) by (auto simp: priost.qs_inv_def)
  qed
qed

text \<open>C3: No wake-up is lost on a \<open>Queue\<close>, \<open>LifoQueue\<close> or \<open>PriorityQueue\<close>.  In every state reachable
  by any interleaving of puts, gets, resumptions, exceptions thrown into parked calls, \<open>task_done\<close> and
  shutdown: while getters are queued, at least as many getters have been woken and not yet resumed as
  there are items; while putters are queued, at least as many putters have been woken as there are free
  slots.  So a call is never left parked while it could proceed and nothing is about to wake it.\<close>

theorem queue_no_lost_wakeup:
  fixes s :: "'a::linorder qsys"
  assumes "st \<in> {fifo_storage, lifo_storage, priority_storage}" and "(q_step st)\<^sup>*\<^sup>* (fresh_qsys maxsize) s"
  shows "(q_getters (sq_q s) \<noteq> [] \<longrightarrow> length (q_items (sq_q s)) \<le> card (sq_gets s \<inter> w_fired (sq_ws s)))
    \<and> (q_putters (sq_q s) \<noteq> [] \<longrightarrow>
        q_maxsize (sq_q s) \<le> length (q_items (sq_q s)) + card (dom (sq_puts s) \<inter> w_fired (sq_ws s)))
    \<and> set (q_getters (sq_q s)) = sq_gets s - w_fired (sq_ws s)
    \<and> set (q_putters (sq_q s)) = dom (sq_puts s) - w_fired (sq_ws s)"
  using any_storage_core [OF assms] by (auto simp: q_core_def q_cnt_def q_grp_def grp_ok_def)

text \<open>A getter parks on an empty queue of capacity 2, then an item is put.\<close>

definition q_demo_wait :: "nat qsys" where
  "q_demo_wait = (let s = fresh_qsys 2 in get_done (q_sget fifo_storage (sq_q s) (sq_ws s)) s)"

definition q_demo :: "nat qsys" where
  "q_demo = put_done 5 (q_sput fifo_storage 5 (sq_q q_demo_wait) (sq_ws q_demo_wait)) q_demo_wait"

lemmas q_demo_simps = q_demo_def q_demo_wait_def fresh_qsys_def get_done_def put_done_def q_sget_def q_sput_def
  q_put_nowait_def q_empty_def q_full_def q_qsize_def new_waiter_def empty_wstore_def wakeup_getter_def
  fifo_storage_def queue_put_def waiter_set_def

lemma q_demo_reach: "(q_step fifo_storage)\<^sup>*\<^sup>* (fresh_qsys 2) q_demo"
proof -
  have "q_step fifo_storage (fresh_qsys 2) q_demo_wait" unfolding q_demo_wait_def Let_def by (rule q_step.s_sget)
  moreover have "q_step fifo_storage q_demo_wait q_demo" unfolding q_demo_def by (rule q_step.s_sput)
  ultimately show ?thesis by (meson converse_rtranclp_into_rtranclp rtranclp.rtrancl_refl)
qed

theorem queue_no_lost_wakeup_witness:
  "(q_step fifo_storage)\<^sup>*\<^sup>* (fresh_qsys 2) q_demo \<and> q_items (sq_q q_demo) = [5]
     \<and> set (q_getters (sq_q q_demo)) = sq_gets q_demo - w_fired (sq_ws q_demo)"
  using queue_no_lost_wakeup [OF _ q_demo_reach] q_demo_reach by (simp add: q_demo_simps)

text \<open>C30: In every reachable state a bounded queue holds at most \<open>maxsize\<close> items, every accepted item
  is either still stored, or was handed out, or was discarded by an immediate shutdown, exactly once,
  and \<open>_finished\<close> is set exactly when no unfinished work is left, so \<open>sjoin\<close> does not wait on a set event.\<close>

theorem queue_capacity_conservation:
  fixes s :: "'a::linorder qsys"
  assumes "st \<in> {fifo_storage, lifo_storage, priority_storage}" and "(q_step st)\<^sup>*\<^sup>* (fresh_qsys maxsize) s"
  shows "(0 < q_maxsize (sq_q s) \<longrightarrow> q_qsize (sq_q s) \<le> q_maxsize (sq_q s))
    \<and> mset (sq_in s) = mset (sq_out s) + mset (sq_dropped s) + mset (q_items (sq_q s))
    \<and> (q_finished (sq_q s) \<longleftrightarrow> q_sjoin (sq_q s))"
  using any_storage_core [OF assms] by (auto simp: q_core_def q_cnt_def q_qsize_def q_sjoin_def)

theorem queue_capacity_conservation_witness:
  "q_qsize (sq_q q_demo) \<le> 2 \<and> mset (sq_in q_demo) = mset (sq_out q_demo) + mset (sq_dropped q_demo) + {#5#}"
  using queue_capacity_conservation [OF _ q_demo_reach] by (simp add: q_demo_simps)

definition fifo_order :: "'a qsys \<Rightarrow> bool" where
  "fifo_order s \<longleftrightarrow> sq_in s = sq_out s @ sq_dropped s @ q_items (sq_q s)
     \<and> (sq_dropped s \<noteq> [] \<longrightarrow> q_items (sq_q s) = [] \<and> q_is_shutdown (sq_q s))"

lemma fifo_put_order:
  assumes "fifo_order s" and "q_core (\<lambda>_. True) 0 dp q ws G P" and "dp \<le> 1"
    and "q_items q = q_items (sq_q s)" "q_is_shutdown q = q_is_shutdown (sq_q s)"
    and "sq_in s = sq_in s0" "sq_out s = sq_out s0" "sq_dropped s = sq_dropped s0"
  shows "fifo_order (put_done item (q_sput fifo_storage item q ws) (s0\<lparr>sq_puts := pp\<rparr>))"
proof -
  obtain q' ws' r where e: "q_sput fifo_storage item q ws = (q', ws', r)" using prod_cases3 by blast
  from fifost.sput_core [OF assms(2,3) e] assms(1,4-) show ?thesis
    unfolding e by (elim disjE conjE exE) (auto simp: put_done_def fifo_order_def fifo_storage_def queue_put_def)
qed

lemma fifo_get_order:
  assumes "fifo_order s" and "q_core (\<lambda>_. True) dg 0 q ws G P" and "dg \<le> 1"
    and "q_items q = q_items (sq_q s)" "q_is_shutdown q = q_is_shutdown (sq_q s)"
    and "sq_in s = sq_in s0" "sq_out s = sq_out s0" "sq_dropped s = sq_dropped s0"
  shows "fifo_order (get_done (q_sget fifo_storage q ws) (s0\<lparr>sq_gets := gg\<rparr>))"
proof -
  obtain q' ws' r where e: "q_sget fifo_storage q ws = (q', ws', r)" using prod_cases3 by blast
  from fifost.sget_core [OF assms(2,3) e] assms(1,4-) show ?thesis
    unfolding e by (elim disjE conjE exE)
      (auto simp: get_done_def fifo_order_def fifo_storage_def queue_get_def popleft_def split: list.splits)
qed

lemma fifo_step_order:
  assumes "q_step fifo_storage s s'" and "fifost.qs_inv s" and "fifo_order s"
  shows "fifo_order s'"
proof -
  have c: "q_core (\<lambda>_. True) 0 0 (sq_q s) (sq_ws s) (sq_gets s) (dom (sq_puts s))"
    using assms(2) by (simp add: fifost.qs_inv_def)
  from assms(1) show ?thesis
  proof cases
    case (s_put_nowait item)
    obtain q' ws' r where e: "q_put_nowait fifo_storage item (sq_q s) (sq_ws s) = (q', ws', r)" using prod_cases3 by blast
    from fifost.put_nowait_core [OF c _ e] assms(3) show ?thesis
      unfolding s_put_nowait e by (auto simp: put_done_def fifo_order_def fifo_storage_def queue_put_def)
  next
    case (s_sput item)
    then show ?thesis using fifo_put_order [OF assms(3) c, of s item "sq_puts s"] by simp
  next
    case (s_sput_resume w item)
    then have "w \<in> dom (sq_puts s)" by auto
    from fifo_put_order [OF assms(3) leave_putter [OF c this], of s item] s_sput_resume show ?thesis
      by (simp add: q_sput_resume_def waiter_is_set_def)
  next
    case (s_sput_throw w item q ws)
    then have "w \<in> dom (sq_puts s)" by auto
    from sput_throw_core [OF c this s_sput_throw(3)] assms(3) s_sput_throw show ?thesis
      by (auto simp: fifo_order_def q_sput_throw_def Let_def wakeup_putter_def wake_first_eq split: if_splits)
  next
    case s_get_nowait
    obtain q' ws' r where e: "q_get_nowait fifo_storage (sq_q s) (sq_ws s) = (q', ws', r)" using prod_cases3 by blast
    from fifost.get_nowait_core [OF c _ e] assms(3) show ?thesis
      unfolding s_get_nowait e
      by (auto simp: get_done_def fifo_order_def fifo_storage_def queue_get_def popleft_def split: list.splits)
  next
    case s_sget
    then show ?thesis using fifo_get_order [OF assms(3) c, of s "sq_gets s"] by simp
  next
    case (s_sget_resume w)
    from fifo_get_order [OF assms(3) leave_getter [OF c s_sget_resume(2)], of s] s_sget_resume show ?thesis
      by (simp add: q_sget_resume_def waiter_is_set_def)
  next
    case (s_sget_throw w q ws)
    from sget_throw_core [OF c s_sget_throw(2,3)] assms(3) s_sget_throw show ?thesis
      by (auto simp: fifo_order_def q_sget_throw_def Let_def wakeup_getter_def wake_first_eq split: if_splits)
  next
    case s_task_done
    then show ?thesis using assms(3) by (simp add: fifo_order_def q_task_done_def Let_def)
  next
    case (s_shutdown immediate q ws)
    from fifost.shutdown_core [OF c s_shutdown(2)] assms(3) s_shutdown(1) show ?thesis by (auto simp: fifo_order_def)
  qed
qed

text \<open>C31: \<open>Queue\<close> is first in, first out: over every interleaving, the items handed out so far,
  followed by those an immediate shutdown discarded, followed by those still stored, are exactly the
  items accepted so far in the order they were accepted.\<close>

theorem queue_fifo_order:
  assumes "(q_step fifo_storage)\<^sup>*\<^sup>* (fresh_qsys maxsize) s"
  shows "sq_in s = sq_out s @ sq_dropped s @ q_items (sq_q s)"
proof -
  from assms have "fifost.qs_inv s \<and> fifo_order s"
  proof (induction rule: rtranclp_induct)
    case base
    show ?case using fifost.fresh_qsys_inv by (simp add: fifo_order_def fresh_qsys_def)
  next
    case (step s1 s2)
    then show ?case using fifost.q_step_inv fifo_step_order by blast
  qed
  then show ?thesis by (simp add: fifo_order_def)
qed

theorem queue_fifo_order_witness:
  "sq_in q_demo = [5] \<and> sq_in q_demo = sq_out q_demo @ sq_dropped q_demo @ q_items (sq_q q_demo)"
  using queue_fifo_order [OF q_demo_reach] by (simp add: q_demo_simps)

end
