(* ===== verification/As_Completed.thy ===== *)
theory As_Completed
  imports Queues
begin

text \<open>
  \<open>_as_completed_futures\<close>, \<open>as_completed\<close> and \<open>wait\<close> of \<open>tealetio/scheduler.py\<close> over the queue of \<open>Queues\<close>.  Futures
  are numbers; a done callback \<open>complete_next\<close> moves a child into the queue and shuts the queue down after
  the last one.  The generator is cut at its \<open>yield\<close> and at the wait inside \<open>sget()\<close>; it ends when the queue
  is shut down and empty, when an exception is thrown into the wait (a timeout) and when its consumer
  closes it, and its \<open>finally\<close> block removes the callbacks that have not run.  A completing child runs its done
  callbacks in order and forgets them (\<open>Future._run_done_callbacks\<close>): when one registered before \<open>complete_next\<close>
  raises, \<open>complete_next\<close> never runs for that child.  The model has that case, and records the child in \<open>ac_dropped\<close>.
\<close>

section \<open>State and operations\<close>

text \<open>\<open>GSuspended\<close>: at the \<open>yield\<close>, the consumer runs.  \<open>GStop\<close>: exhausted, \<open>GRaised\<close>: left by an exception or closed.\<close>

datatype gen = GSuspended | GParked nat | GStop | GRaised

text \<open>\<open>ac_done\<close> are the completed children, \<open>ac_registered\<close> those that hold the callback; \<open>ac_order\<close> (the order
  of completion as far as the generator saw it), \<open>ac_out\<close> (what was yielded) and \<open>ac_dropped\<close> (the children whose
  \<open>complete_next\<close> was lost) are history variables.\<close>

record ac =
  ac_children :: "nat list"
  ac_pending :: "nat set"
  ac_q :: "nat queue"
  ac_ws :: wstore
  ac_registered :: "nat list"
  ac_done :: "nat set"
  ac_gen :: gen
  ac_order :: "nat list"
  ac_out :: "nat list"
  ac_dropped :: "nat set"

definition dict_fromkeys :: "'a list \<Rightarrow> 'a list" where
  "dict_fromkeys xs = rev (remdups (rev xs))"

text \<open>\<open>complete_next\<close>; the exception that \<open>put_nowait\<close> would raise propagates.\<close>

definition complete_next :: "nat \<Rightarrow> ac \<Rightarrow> ac \<times> pyexn option" where
  "complete_next child s =
     (let s1 = s\<lparr>ac_pending := ac_pending s - {child}\<rparr> in
      case q_put_nowait fifo_storage child (ac_q s1) (ac_ws s1) of
        (q, ws, SRet _) \<Rightarrow>
          (let s2 = s1\<lparr>ac_q := q, ac_ws := ws, ac_order := ac_order s1 @ [child]\<rparr> in
           if ac_pending s2 = {} then
             (case q_shutdown fifo_storage False (ac_q s2) (ac_ws s2) of (q2, ws2) \<Rightarrow> (s2\<lparr>ac_q := q2, ac_ws := ws2\<rparr>, None))
           else (s2, None))
      | (q, ws, SRaise e) \<Rightarrow> (s1\<lparr>ac_q := q, ac_ws := ws\<rparr>, Some e)
      | (q, ws, SWait _) \<Rightarrow> (s1\<lparr>ac_q := q, ac_ws := ws\<rparr>, None))"

fun ac_attach :: "nat list \<Rightarrow> ac \<Rightarrow> ac \<times> pyexn option" where
  "ac_attach [] s = (s, None)"
| "ac_attach (child # rest) s =
     (if child \<in> ac_done s then
        (case complete_next child s of
           (s1, Some e) \<Rightarrow> (s1, Some e)
         | (s1, None) \<Rightarrow> ac_attach rest s1)
      else ac_attach rest (s\<lparr>ac_registered := ac_registered s @ [child]\<rparr>))"

text \<open>The \<open>finally\<close> block.\<close>

definition ac_finally :: "gen \<Rightarrow> ac \<Rightarrow> ac" where
  "ac_finally g s = s\<lparr>ac_registered := filter (\<lambda>c. c \<notin> ac_pending s) (ac_registered s), ac_gen := g\<rparr>"

text \<open>What a turn of \<open>sget()\<close> does to the generator: \<open>except QueueShutDown: return\<close>.\<close>

definition got :: "nat queue \<times> wstore \<times> nat seg \<Rightarrow> ac \<Rightarrow> ac" where
  "got r s =
     (case r of
        (q, ws, SRet child) \<Rightarrow> s\<lparr>ac_q := q, ac_ws := ws, ac_gen := GSuspended, ac_out := ac_out s @ [child]\<rparr>
      | (q, ws, SWait w) \<Rightarrow> s\<lparr>ac_q := q, ac_ws := ws, ac_gen := GParked w\<rparr>
      | (q, ws, SRaise e) \<Rightarrow> ac_finally (if e = QueueShutDownErr then GStop else GRaised) (s\<lparr>ac_q := q, ac_ws := ws\<rparr>))"

definition ac_next :: "ac \<Rightarrow> ac" where
  "ac_next s = got (q_sget fifo_storage (ac_q s) (ac_ws s)) s"

definition ac_resume :: "nat \<Rightarrow> ac \<Rightarrow> ac" where
  "ac_resume w s = got (q_sget_resume fifo_storage w (ac_q s) (ac_ws s)) s"

definition ac_throw :: "nat \<Rightarrow> ac \<Rightarrow> ac" where
  "ac_throw w s = (case q_sget_throw w (ac_q s) (ac_ws s) of (q, ws) \<Rightarrow> ac_finally GRaised (s\<lparr>ac_q := q, ac_ws := ws\<rparr>))"

definition ac_close :: "ac \<Rightarrow> ac" where
  "ac_close s = ac_finally GRaised s"

definition ac_empty :: "nat list \<Rightarrow> nat set \<Rightarrow> ac" where
  "ac_empty children completed = \<lparr>ac_children = children, ac_pending = set children,
     ac_q = \<lparr>q_maxsize = 0, q_items = [], q_getters = [], q_putters = [], q_unfinished = 0, q_is_shutdown = False, q_finished = True\<rparr>,
     ac_ws = empty_wstore, ac_registered = [], ac_done = completed, ac_gen = GSuspended, ac_order = [], ac_out = [], ac_dropped = {}\<rparr>"

text \<open>The start of the generator, up to its loop.\<close>

definition as_completed_futures :: "nat list \<Rightarrow> nat set \<Rightarrow> ac \<times> pyexn option" where
  "as_completed_futures entries completed =
     (let children = dict_fromkeys entries in
      if children = [] then (ac_finally GStop (ac_empty [] completed), None)
      else ac_attach children (ac_empty children completed))"

text \<open>A child completes: \<open>_run_done_callbacks\<close> clears the list and runs the callbacks; \<open>earlier_raised\<close>: one that stands
  before \<open>complete_next\<close> raises, and the loop ends there.\<close>

definition child_completes :: "bool \<Rightarrow> nat \<Rightarrow> ac \<Rightarrow> ac \<times> pyexn option" where
  "child_completes earlier_raised c s =
     (let s1 = s\<lparr>ac_done := insert c (ac_done s), ac_registered := filter (\<lambda>x. x \<noteq> c) (ac_registered s)\<rparr>
      in if c \<notin> set (ac_registered s) then (s1, None)
         else if earlier_raised then (s1\<lparr>ac_dropped := insert c (ac_dropped s)\<rparr>, None)
         else complete_next c s1)"

section \<open>wait\<close>

datatype return_when = FIRST_COMPLETED | FIRST_EXCEPTION | ALL_COMPLETED

text \<open>Whether the loop of \<open>wait_task\<close> breaks at a yielded child; \<open>failed\<close>: it has an exception, \<open>was_cancelled\<close>: it was cancelled.\<close>

definition wait_breaks :: "return_when \<Rightarrow> bool \<Rightarrow> bool \<Rightarrow> bool" where
  "wait_breaks rw failed was_cancelled = (rw = FIRST_COMPLETED \<or> rw = FIRST_EXCEPTION \<and> failed \<and> \<not> was_cancelled)"

definition wait_result :: "ac \<Rightarrow> nat set \<times> nat set" where
  "wait_result s = (let d = {c \<in> set (ac_children s). c \<in> ac_done s} in (d, set (ac_children s) - d))"

text \<open>One turn of the loop, for the states a yielded child may have: closed generator and result, or more.\<close>

definition wait_turn :: "return_when \<Rightarrow> (nat \<Rightarrow> bool) \<Rightarrow> (nat \<Rightarrow> bool) \<Rightarrow> ac \<Rightarrow> ac \<times> (nat set \<times> nat set) option" where
  "wait_turn rw failed was_cancelled s =
     (case ac_gen s of
        GSuspended \<Rightarrow>
          (if ac_out s \<noteq> [] \<and> wait_breaks rw (failed (last (ac_out s))) (was_cancelled (last (ac_out s)))
           then (ac_close s, Some (wait_result s)) else (ac_next s, None))
      | GParked w \<Rightarrow> (s, None)
      | _ \<Rightarrow> (s, Some (wait_result s)))"

section \<open>Runs\<close>

inductive ac_step :: "ac \<Rightarrow> ac \<Rightarrow> bool" where
  ac_s_next: "ac_gen s = GSuspended \<Longrightarrow> ac_step s (ac_next s)"
| ac_s_resume: "ac_gen s = GParked w \<Longrightarrow> waiter_is_set w (ac_ws s) \<Longrightarrow> ac_step s (ac_resume w s)"
| ac_s_throw: "ac_gen s = GParked w \<Longrightarrow> ac_step s (ac_throw w s)"
| ac_s_close: "ac_gen s = GSuspended \<Longrightarrow> ac_step s (ac_close s)"
| ac_s_child: "c \<notin> ac_done s \<Longrightarrow> child_completes earlier_raised c s = (s', e) \<Longrightarrow> ac_step s s'"

text \<open>Callbacks are registered exactly with the children to come that are not lost; what was yielded and what is queued is what
  completed, in order; the queue is shut down exactly after the last child; a parked call waits on an empty
  queue or was woken.\<close>

definition ac_core :: "ac \<Rightarrow> bool" where
  "ac_core s \<longleftrightarrow> q_maxsize (ac_q s) = 0 \<and> q_putters (ac_q s) = [] \<and> wstore_ok (ac_ws s)
     \<and> distinct (ac_order s) \<and> set (ac_order s) \<inter> ac_pending s = {}
     \<and> set (ac_order s) \<union> ac_pending s = set (ac_children s) \<and> set (ac_order s) \<subseteq> ac_done s
     \<and> ac_out s @ q_items (ac_q s) = ac_order s \<and> (q_is_shutdown (ac_q s) \<longleftrightarrow> ac_pending s = {} \<and> ac_children s \<noteq> [])
     \<and> ac_dropped s \<subseteq> ac_pending s"

definition gen_ok :: "ac \<Rightarrow> bool" where
  "gen_ok s \<longleftrightarrow>
     (case ac_gen s of
        GSuspended \<Rightarrow> set (ac_registered s) = ac_pending s - ac_dropped s \<and> ac_pending s \<inter> ac_done s = ac_dropped s \<and> q_getters (ac_q s) = [] \<and> ac_children s \<noteq> []
      | GParked w \<Rightarrow> set (ac_registered s) = ac_pending s - ac_dropped s \<and> ac_pending s \<inter> ac_done s = ac_dropped s \<and> w < w_next (ac_ws s) \<and> ac_children s \<noteq> []
          \<and> (if w \<in> w_fired (ac_ws s) then q_getters (ac_q s) = [] \<and> (q_items (ac_q s) \<noteq> [] \<or> q_is_shutdown (ac_q s))
             else q_getters (ac_q s) = [w] \<and> q_items (ac_q s) = [] \<and> \<not> q_is_shutdown (ac_q s))
      | GStop \<Rightarrow> ac_registered s = [] \<and> ac_pending s = {} \<and> q_items (ac_q s) = []
      | GRaised \<Rightarrow> ac_registered s = [])"

definition ac_ok :: "ac \<Rightarrow> bool" where
  "ac_ok s \<longleftrightarrow> ac_core s \<and> gen_ok s"

lemma complete_next_eq:
  assumes "\<not> q_is_shutdown (ac_q s)" "q_maxsize (ac_q s) = 0" "q_putters (ac_q s) = []" "q_getters (ac_q s) = [] \<or> (\<exists>w. q_getters (ac_q s) = [w])"
  shows "complete_next c s =
    (s\<lparr>ac_pending := ac_pending s - {c}, ac_order := ac_order s @ [c], ac_ws := wake_all (q_getters (ac_q s)) (ac_ws s),
       ac_q := (ac_q s)\<lparr>q_items := q_items (ac_q s) @ [c], q_getters := [], q_unfinished := q_unfinished (ac_q s) + 1,
         q_is_shutdown := (ac_pending s - {c} = {}), q_finished := False\<rparr>\<rparr>, None)"
  using assms
  by (auto simp: complete_next_def q_put_nowait_def q_full_def wakeup_getter_def wake_first_eq fifo_storage_def queue_put_def
      q_shutdown_def Let_def)

lemma wake_all_events: "w_fired (wake_all ls ws) = w_fired ws \<union> set ls" "w_next (wake_all ls ws) = w_next ws"
  by (induction ls arbitrary: ws) auto

lemma wake_all_ok: "wstore_ok ws \<Longrightarrow> \<forall>w \<in> set ls. w < w_next ws \<Longrightarrow> wstore_ok (wake_all ls ws)"
  by (auto simp: wstore_ok_def wake_all_events)

text \<open>A completing child that is pending.\<close>

lemma complete_next_core:
  assumes "ac_core s" "c \<in> ac_pending s" "c \<in> ac_done s" "q_getters (ac_q s) = [] \<or> (\<exists>w < w_next (ac_ws s). q_getters (ac_q s) = [w])"
    "c \<notin> ac_dropped s"
  shows "ac_core (fst (complete_next c s))" "snd (complete_next c s) = None"
    "ac_pending (fst (complete_next c s)) = ac_pending s - {c}" "ac_registered (fst (complete_next c s)) = ac_registered s"
    "ac_done (fst (complete_next c s)) = ac_done s" "ac_gen (fst (complete_next c s)) = ac_gen s" "q_getters (ac_q (fst (complete_next c s))) = []"
    "q_items (ac_q (fst (complete_next c s))) \<noteq> []" "ac_children (fst (complete_next c s)) = ac_children s"
    "w_fired (ac_ws (fst (complete_next c s))) = w_fired (ac_ws s) \<union> set (q_getters (ac_q s))" "w_next (ac_ws (fst (complete_next c s))) = w_next (ac_ws s)"
    "ac_dropped (fst (complete_next c s)) = ac_dropped s"
proof -
  have n: "\<not> q_is_shutdown (ac_q s)" using assms(1,2) by (auto simp: ac_core_def)
  have e: "complete_next c s = (s\<lparr>ac_pending := ac_pending s - {c}, ac_order := ac_order s @ [c], ac_ws := wake_all (q_getters (ac_q s)) (ac_ws s),
       ac_q := (ac_q s)\<lparr>q_items := q_items (ac_q s) @ [c], q_getters := [], q_unfinished := q_unfinished (ac_q s) + 1,
         q_is_shutdown := (ac_pending s - {c} = {}), q_finished := False\<rparr>\<rparr>, None)"
    by (rule complete_next_eq) (use assms n in \<open>auto simp: ac_core_def\<close>)
  have w: "wstore_ok (wake_all (q_getters (ac_q s)) (ac_ws s))" by (rule wake_all_ok) (use assms in \<open>auto simp: ac_core_def\<close>)
  show "ac_core (fst (complete_next c s))"
    unfolding e using assms(1-3,5) w by (auto simp: ac_core_def)
  show "snd (complete_next c s) = None" "ac_pending (fst (complete_next c s)) = ac_pending s - {c}" "ac_registered (fst (complete_next c s)) = ac_registered s"
    "ac_done (fst (complete_next c s)) = ac_done s" "ac_gen (fst (complete_next c s)) = ac_gen s" "q_getters (ac_q (fst (complete_next c s))) = []"
    "q_items (ac_q (fst (complete_next c s))) \<noteq> []" "ac_children (fst (complete_next c s)) = ac_children s"
    "w_fired (ac_ws (fst (complete_next c s))) = w_fired (ac_ws s) \<union> set (q_getters (ac_q s))" "w_next (ac_ws (fst (complete_next c s))) = w_next (ac_ws s)"
    "ac_dropped (fst (complete_next c s)) = ac_dropped s"
    unfolding e by (simp_all add: wake_all_events)
qed

text \<open>Attaching the callbacks: \<open>rest\<close> are the children not looked at yet.\<close>

lemma ac_attach_ok:
  assumes "ac_core s" "ac_gen s = GSuspended" "q_getters (ac_q s) = []" "ac_children s \<noteq> []" "distinct rest" "set rest \<inter> set (ac_registered s) = {}"
    "set (ac_registered s) \<union> set rest = ac_pending s" "set (ac_registered s) \<inter> ac_done s = {}"
    "ac_dropped s = {}"
  shows "ac_ok (fst (ac_attach rest s)) \<and> snd (ac_attach rest s) = None \<and> ac_children (fst (ac_attach rest s)) = ac_children s"
  using assms
proof (induction rest arbitrary: s)
  case Nil
  then show ?case by (auto simp: ac_ok_def gen_ok_def)
next
  case (Cons c rest)
  show ?case
  proof (cases "c \<in> ac_done s")
    case True
    have p: "c \<in> ac_pending s" using Cons.prems(7) by auto
    note q = complete_next_core [OF Cons.prems(1) p True disjI1 [OF Cons.prems(3)], simplified Cons.prems(9), simplified]
    obtain s1 where s1: "complete_next c s = (s1, None)" using q(2) by (cases "complete_next c s") auto
    have "ac_ok (fst (ac_attach rest s1)) \<and> snd (ac_attach rest s1) = None \<and> ac_children (fst (ac_attach rest s1)) = ac_children s1"
      by (rule Cons.IH) (use Cons.prems q s1 in auto)
    then show ?thesis using True s1 q(9) by simp
  next
    case False
    let ?s1 = "s\<lparr>ac_registered := ac_registered s @ [c]\<rparr>"
    have "ac_core ?s1" using Cons.prems(1) by (simp add: ac_core_def)
    then have "ac_ok (fst (ac_attach rest ?s1)) \<and> snd (ac_attach rest ?s1) = None \<and> ac_children (fst (ac_attach rest ?s1)) = ac_children ?s1"
      by (rule Cons.IH) (use Cons.prems False in auto)
    then show ?thesis using False by simp
  qed
qed

lemma fromkeys_props [simp]: "dict_fromkeys [] = []" "set (dict_fromkeys xs) = set xs" "distinct (dict_fromkeys xs)"
  by (simp_all add: dict_fromkeys_def)

lemma start_ok:
  "ac_ok (fst (as_completed_futures entries completed)) \<and> snd (as_completed_futures entries completed) = None
   \<and> ac_children (fst (as_completed_futures entries completed)) = dict_fromkeys entries"
proof (cases "dict_fromkeys entries = []")
  case True
  then show ?thesis
    by (simp add: as_completed_futures_def ac_empty_def ac_finally_def ac_ok_def ac_core_def gen_ok_def empty_wstore_def wstore_ok_def)
next
  case False
  let ?s = "ac_empty (dict_fromkeys entries) completed"
  have "ac_ok (fst (ac_attach (dict_fromkeys entries) ?s)) \<and> snd (ac_attach (dict_fromkeys entries) ?s) = None
      \<and> ac_children (fst (ac_attach (dict_fromkeys entries) ?s)) = ac_children ?s"
    by (rule ac_attach_ok) (use False in \<open>auto simp: ac_empty_def ac_core_def empty_wstore_def wstore_ok_def\<close>)
  then show ?thesis using False by (simp add: as_completed_futures_def ac_empty_def Let_def)
qed

lemma popleft_Cons: "st_get fifo_storage (x # xs) = (Inr x, xs)"
  by (simp add: fifo_storage_def queue_get_def popleft_def)

text \<open>One turn of \<open>sget()\<close> with nobody parked.\<close>

lemma sget_ok:
  assumes "ac_core s" "q_getters (ac_q s) = []" "set (ac_registered s) = ac_pending s - ac_dropped s" "ac_pending s \<inter> ac_done s = ac_dropped s" "ac_children s \<noteq> []"
  shows "ac_ok (got (q_sget fifo_storage (ac_q s) (ac_ws s)) s)"
proof (cases "q_items (ac_q s)")
  case Nil
  show ?thesis
  proof (cases "q_is_shutdown (ac_q s)")
    case True
    then have "q_sget fifo_storage (ac_q s) (ac_ws s) = (ac_q s, ac_ws s, SRaise QueueShutDownErr)"
      using Nil by (simp add: q_sget_def q_empty_def q_qsize_def)
    moreover have "ac_pending s = {}" using assms(1) True by (simp add: ac_core_def)
    ultimately show ?thesis
      using assms(1,3) Nil by (simp add: got_def ac_finally_def ac_ok_def gen_ok_def) (auto simp: ac_core_def)
  next
    case False
    have "w_next (ac_ws s) \<notin> w_fired (ac_ws s)" using assms(1) by (auto simp: ac_core_def wstore_ok_def)
    moreover have "q_sget fifo_storage (ac_q s) (ac_ws s) =
        ((ac_q s)\<lparr>q_getters := [w_next (ac_ws s)]\<rparr>, (ac_ws s)\<lparr>w_next := Suc (w_next (ac_ws s))\<rparr>, SWait (w_next (ac_ws s)))"
      using Nil False assms(2) by (simp add: q_sget_def q_empty_def q_qsize_def new_waiter_def)
    moreover have "wstore_ok ((ac_ws s)\<lparr>w_next := Suc (w_next (ac_ws s))\<rparr>)" using assms(1) by (auto simp: ac_core_def wstore_ok_def)
    ultimately show ?thesis
      using assms Nil False by (simp add: got_def ac_ok_def gen_ok_def) (simp add: ac_core_def)
  qed
next
  case (Cons x xs)
  have g: "q_sget fifo_storage (ac_q s) (ac_ws s) = ((ac_q s)\<lparr>q_items := xs\<rparr>, ac_ws s, SRet x)"
    using Cons assms(1,2)
    by (simp add: q_sget_def q_get_nowait_def q_empty_def q_qsize_def popleft_Cons wakeup_putter_def ac_core_def)
  show ?thesis
    unfolding g got_def using assms Cons by (simp add: ac_ok_def gen_ok_def) (simp add: ac_core_def)
qed

lemma ac_finally_ok:
  assumes "ac_core s" "set (ac_registered s) = ac_pending s - ac_dropped s"
  shows "ac_ok (ac_finally GRaised s)"
  using assms by (auto simp: ac_finally_def ac_ok_def gen_ok_def ac_core_def filter_empty_conv)

lemma ac_throw_ok:
  assumes "ac_ok s" "ac_gen s = GParked w"
  shows "ac_ok (ac_throw w s)"
proof -
  have c: "ac_core s" "set (ac_registered s) = ac_pending s - ac_dropped s" using assms by (simp_all add: ac_ok_def gen_ok_def)
  obtain q ws where t: "q_sget_throw w (ac_q s) (ac_ws s) = (q, ws)" by fastforce
  have g: "q_getters (ac_q s) = [] \<or> q_getters (ac_q s) = [w]" using assms by (auto simp: ac_ok_def gen_ok_def split: if_splits)
  then have "q = (ac_q s)\<lparr>q_getters := []\<rparr>" "ws = ac_ws s"
    using t by (auto simp: q_sget_throw_def wakeup_getter_def Let_def split: if_splits)
  then have "ac_core (s\<lparr>ac_q := q, ac_ws := ws\<rparr>)" using c(1) by (simp add: ac_core_def)
  then show ?thesis using ac_finally_ok [of "s\<lparr>ac_q := q, ac_ws := ws\<rparr>"] c(2) t by (simp add: ac_throw_def)
qed

lemma child_completes_lost:
  assumes "ac_ok s" "c \<notin> ac_done s" "c \<in> set (ac_registered s)"
  shows "ac_ok (s\<lparr>ac_done := insert c (ac_done s), ac_registered := filter (\<lambda>x. x \<noteq> c) (ac_registered s), ac_dropped := insert c (ac_dropped s)\<rparr>)"
    (is "ac_ok ?s")
proof -
  have c: "ac_core s" "gen_ok s" using assms(1) by (simp_all add: ac_ok_def)
  then have live: "ac_gen s = GSuspended \<or> (\<exists>w. ac_gen s = GParked w)" using assms(3) by (cases "ac_gen s") (auto simp: gen_ok_def)
  then have r: "set (ac_registered s) = ac_pending s - ac_dropped s" using c(2) by (auto simp: gen_ok_def)
  have "ac_core ?s" using c(1) r assms(3) by (auto simp: ac_core_def)
  moreover have "gen_ok ?s" using live c r assms(3) by (auto simp: gen_ok_def ac_core_def split: if_splits)
  ultimately show ?thesis by (simp add: ac_ok_def)
qed

lemma child_completes_ok:
  assumes "ac_ok s" "c \<notin> ac_done s" "child_completes earlier_raised c s = (s', e)"
  shows "ac_ok s' \<and> e = None"
proof (cases "c \<in> set (ac_registered s) \<and> \<not> earlier_raised")
  case False
  have c: "ac_core s" "gen_ok s" using assms(1) by (simp_all add: ac_ok_def)
  show ?thesis
  proof (cases "c \<in> set (ac_registered s)")
    case True
    with False show ?thesis using child_completes_lost [OF assms(1,2) True] assms(3) by (auto simp: child_completes_def)
  next
    case unregistered: False
    have r: "filter (\<lambda>x. x \<noteq> c) (ac_registered s) = ac_registered s" using unregistered by (auto simp: filter_id_conv)
    have s: "s' = s\<lparr>ac_done := insert c (ac_done s)\<rparr>" "e = None" using assms(3) unregistered r by (auto simp: child_completes_def)
    have "ac_core s'" using c(1) s(1) by (auto simp: ac_core_def)
    moreover have "gen_ok s'" using c(2) s(1) unregistered assms(2) by (cases "ac_gen s") (auto simp: gen_ok_def split: if_splits)
    ultimately show ?thesis using s(2) by (simp add: ac_ok_def)
  qed
next
  case True
  let ?s1 = "s\<lparr>ac_done := insert c (ac_done s), ac_registered := filter (\<lambda>x. x \<noteq> c) (ac_registered s)\<rparr>"
  have e: "complete_next c ?s1 = (s', e)" using assms(3) True by (simp add: child_completes_def)
  have g: "gen_ok s" "ac_core ?s1" using assms(1) by (auto simp: ac_ok_def ac_core_def)
  have live: "ac_gen s = GSuspended \<or> (\<exists>w. ac_gen s = GParked w)" using g(1) True by (cases "ac_gen s") (auto simp: gen_ok_def)
  then have p: "c \<in> ac_pending ?s1" using g(1) True by (auto simp: gen_ok_def)
  have q: "q_getters (ac_q ?s1) = [] \<or> (\<exists>w < w_next (ac_ws ?s1). q_getters (ac_q ?s1) = [w])"
    using live g(1) by (auto simp: gen_ok_def split: if_splits)
  have d: "c \<notin> ac_dropped ?s1" using live g(1) True by (auto simp: gen_ok_def)
  note n = complete_next_core [OF g(2) p _ q d, simplified e, simplified]
  have "gen_ok s'"
    using live
  proof
    assume "ac_gen s = GSuspended"
    then show ?thesis using g(1) n d by (auto simp: gen_ok_def)
  next
    assume "\<exists>w. ac_gen s = GParked w"
    then obtain w where w: "ac_gen s = GParked w" by blast
    then have "w \<in> w_fired (ac_ws s')" using g(1) n(10) by (auto simp: gen_ok_def split: if_splits)
    then show ?thesis using g(1) n w d by (auto simp: gen_ok_def)
  qed
  then show ?thesis using n(1,2) by (simp add: ac_ok_def)
qed

lemma ac_step_ok: "ac_step s s' \<Longrightarrow> ac_ok s \<Longrightarrow> ac_ok s'"
proof (induction rule: ac_step.induct)
  case (ac_s_next s)
  then show ?case by (simp add: ac_next_def) (rule sget_ok; simp add: ac_ok_def gen_ok_def)
next
  case (ac_s_resume s w)
  then have g: "q_getters (ac_q s) = []" "ac_core s" by (simp_all add: ac_ok_def gen_ok_def waiter_is_set_def)
  then have "(ac_q s)\<lparr>q_getters := remove1 w (q_getters (ac_q s))\<rparr> = ac_q s" by simp
  moreover have "ac_ok (got (q_sget fifo_storage (ac_q s) (ac_ws s)) s)"
    by (rule sget_ok) (use ac_s_resume g in \<open>simp_all add: ac_ok_def gen_ok_def\<close>)
  ultimately show ?case by (simp only: ac_resume_def q_sget_resume_def)
next
  case (ac_s_throw s w)
  then show ?case by (simp add: ac_throw_ok)
next
  case (ac_s_close s)
  then show ?case unfolding ac_close_def by (intro ac_finally_ok) (simp_all add: ac_ok_def gen_ok_def)
next
  case (ac_s_child c s earlier_raised s' e)
  then show ?case using child_completes_ok by blast
qed

lemma ac_step_children: "ac_step s s' \<Longrightarrow> ac_children s' = ac_children s"
proof (induction rule: ac_step.induct)
  case (ac_s_child c s earlier_raised s' e)
  then show ?case by (auto simp: child_completes_def complete_next_def Let_def split: if_splits seg.splits prod.splits)
qed (auto simp: ac_next_def ac_resume_def ac_throw_def ac_close_def got_def ac_finally_def split: seg.splits prod.splits)

lemma ac_reach:
  "ac_step\<^sup>*\<^sup>* (fst (as_completed_futures entries completed)) s \<Longrightarrow> ac_ok s \<and> ac_children s = dict_fromkeys entries"
proof (induction rule: rtranclp_induct)
  case base
  show ?case using start_ok by blast
next
  case (step s s')
  then show ?case using ac_step_ok ac_step_children by metis
qed

section \<open>Properties\<close>

text \<open>C13: \<open>as_completed\<close> and \<open>wait\<close>.  Over every order of completions, every interleaving with the consumer,
  interrupts, and done callbacks of others that raise: what was yielded is a prefix of the order in which
  \<open>complete_next\<close> ran, without repetition; the iteration ends exactly when every entry has been yielded once; a
  generator parked on its queue is woken as soon as a child is queued, or all are done and \<open>complete_next\<close> was lost
  for none of them (it is lost for a child one of whose earlier done callbacks raised); a generator that ended
  keeps no callback on any child.  The sets that \<open>wait\<close> returns are a partition of the entries into done and not
  done: nothing pending after an exhausted iteration, at least one done after a yield.\<close>

theorem as_completed_order:
  assumes "ac_step\<^sup>*\<^sup>* (fst (as_completed_futures entries completed)) s"
  shows "ac_out s @ q_items (ac_q s) = ac_order s \<and> distinct (ac_order s) \<and> set (ac_order s) \<subseteq> set entries \<inter> ac_done s
    \<and> (ac_gen s = GStop \<longrightarrow> ac_out s = ac_order s \<and> set (ac_out s) = set entries)
    \<and> (\<forall>w. ac_gen s = GParked w \<and> (q_items (ac_q s) \<noteq> [] \<or> set entries \<subseteq> ac_done s \<and> ac_dropped s = {}) \<longrightarrow> waiter_is_set w (ac_ws s))
    \<and> (ac_gen s = GStop \<or> ac_gen s = GRaised \<longrightarrow> ac_registered s = [])
    \<and> fst (wait_result s) \<union> snd (wait_result s) = set entries \<and> fst (wait_result s) \<inter> snd (wait_result s) = {}
    \<and> (ac_gen s = GStop \<longrightarrow> snd (wait_result s) = {}) \<and> (ac_out s \<noteq> [] \<longrightarrow> fst (wait_result s) \<noteq> {})"
proof -
  from ac_reach [OF assms] have c: "ac_core s" and g: "gen_ok s" and e: "set (ac_children s) = set entries" by (auto simp: ac_ok_def)
  have o: "ac_out s @ q_items (ac_q s) = ac_order s" "distinct (ac_order s)" "set (ac_order s) \<subseteq> set entries" "set (ac_order s) \<subseteq> ac_done s"
    using c e by (auto simp: ac_core_def)
  have st: "ac_out s = ac_order s \<and> set (ac_out s) = set entries" if "ac_gen s = GStop"
    using that g c e by (simp add: gen_ok_def ac_core_def)
  have w: "waiter_is_set w (ac_ws s)" if p: "ac_gen s = GParked w" "q_items (ac_q s) \<noteq> [] \<or> set entries \<subseteq> ac_done s \<and> ac_dropped s = {}" for w
  proof (rule ccontr)
    assume "\<not> waiter_is_set w (ac_ws s)"
    then have x: "q_items (ac_q s) = []" "\<not> q_is_shutdown (ac_q s)" "ac_pending s \<inter> ac_done s = ac_dropped s" "ac_children s \<noteq> []"
      using g p(1) by (simp_all add: gen_ok_def waiter_is_set_def)
    then have "ac_pending s \<noteq> {}" "ac_pending s \<subseteq> set entries" using c e by (auto simp: ac_core_def)
    then show False using p(2) x(1,3) by auto
  qed
  have r: "ac_registered s = []" if "ac_gen s = GStop \<or> ac_gen s = GRaised" using that g by (auto simp: gen_ok_def)
  have "set (ac_out s) \<subseteq> set entries \<inter> ac_done s" using o by (metis Int_subset_iff Un_subset_iff set_append)
  then have f: "fst (wait_result s) \<noteq> {}" if "ac_out s \<noteq> []"
    using that e by (cases "ac_out s") (auto simp: wait_result_def Let_def)
  have z: "snd (wait_result s) = {}" if "ac_gen s = GStop"
    using st [OF that] o(4) e by (auto simp: wait_result_def Let_def)
  have p: "fst (wait_result s) \<union> snd (wait_result s) = set entries" "fst (wait_result s) \<inter> snd (wait_result s) = {}"
    using e by (auto simp: wait_result_def Let_def)
  have i: "set (ac_order s) \<subseteq> set entries \<inter> ac_done s" using o(3,4) by blast
  have st': "ac_gen s = GStop \<longrightarrow> ac_out s = ac_order s \<and> set (ac_out s) = set entries" using st by blast
  have w': "\<forall>w. ac_gen s = GParked w \<and> (q_items (ac_q s) \<noteq> [] \<or> set entries \<subseteq> ac_done s \<and> ac_dropped s = {}) \<longrightarrow> waiter_is_set w (ac_ws s)" using w by blast
  have r': "ac_gen s = GStop \<or> ac_gen s = GRaised \<longrightarrow> ac_registered s = []" using r by blast
  have z': "ac_gen s = GStop \<longrightarrow> snd (wait_result s) = {}" using z by blast
  have f': "ac_out s \<noteq> [] \<longrightarrow> fst (wait_result s) \<noteq> {}" using f by blast
  show ?thesis by (intro conjI o(1) o(2) i st' w' r' p z' f')
qed

text \<open>Children 4 and 7, given twice; 7 is done from the start, is yielded, then 4 completes.\<close>

theorem as_completed_order_witness:
  "set (ac_out (ac_next (fst (as_completed_futures [4, 7, 4] {7})))) \<subseteq> {4, 7}
   \<and> ac_out (ac_next (fst (as_completed_futures [4, 7, 4] {7}))) @ q_items (ac_q (ac_next (fst (as_completed_futures [4, 7, 4] {7})))) = [7]"
proof -
  let ?s0 = "fst (as_completed_futures [4, 7, 4] {7})"
  have "ac_gen ?s0 = GSuspended" by code_simp
  then have r: "ac_step\<^sup>*\<^sup>* ?s0 (ac_next ?s0)" by (intro r_into_rtranclp ac_s_next)
  have o: "ac_order (ac_next ?s0) = [7]" by code_simp
  note t = as_completed_order [OF r]
  have a: "ac_out (ac_next ?s0) @ q_items (ac_q (ac_next ?s0)) = [7]" using conjunct1 [OF t] unfolding o .
  then have "set (ac_out (ac_next ?s0)) \<subseteq> {7}" by (metis list.set(1,2) set_append sup_ge1)
  with a show ?thesis by blast
qed

text \<open>The lost callback: the only child completes while a done callback registered before raises; every entry is
  done, and the generator stays parked on an empty open queue that nothing will fill.\<close>

theorem as_completed_lost_callback:
  "\<exists>s. ac_step\<^sup>*\<^sup>* (fst (as_completed_futures [4] {})) s \<and> {4} \<subseteq> ac_done s \<and> ac_registered s = []
     \<and> (\<exists>w. ac_gen s = GParked w \<and> \<not> waiter_is_set w (ac_ws s))"
proof -
  let ?s0 = "fst (as_completed_futures [4] {})"
  let ?s1 = "ac_next ?s0"
  let ?s2 = "fst (child_completes True 4 ?s1)"
  have "ac_gen ?s0 = GSuspended" by code_simp
  then have 1: "ac_step ?s0 ?s1" by (rule ac_s_next)
  have "4 \<notin> ac_done ?s1" by code_simp
  then have 2: "ac_step ?s1 ?s2" by (rule ac_s_child [of _ _ True _ "snd (child_completes True 4 ?s1)"]) simp
  have "4 \<in> ac_done ?s2" "ac_registered ?s2 = []" "ac_gen ?s2 = GParked 0" "\<not> waiter_is_set 0 (ac_ws ?s2)" by code_simp+
  then show ?thesis using rtranclp.rtrancl_into_rtrancl [OF r_into_rtranclp [of ac_step, OF 1] 2] by blast
qed

end
