(* ===== verification/Recv_Buffer.thy ===== *)
theory Recv_Buffer
  imports Delivery
begin

text \<open>
  \<open>RecvIterBuffer\<close> of \<open>tealetio/io_buffers.py\<close>: the bridge from \<open>recv_many\<close> deliveries, reordered by the
  \<open>ReorderBuffer\<close>, to the blocking \<open>take_next()\<close>.  The proactor is outside: a started leg is a fresh handle,
  its deliveries are separate steps in any order, and cancellations are logged.  \<open>rv_pulses\<close> counts the
  \<open>PulseEvent.set()\<close> calls that wake the consumer, \<open>rv_taken\<close> lists the deliveries the consumer has taken
  (a history variable).  The pool counters are arguments of the operations that read them.
\<close>

section \<open>State\<close>

definition ENOBUFS :: int where "ENOBUFS = 105"

record 'b recvbuf =
  rv_ready :: "'b list delivery list"
  rv_pressure :: bool
  rv_next_base :: int
  rv_op :: "nat option"
  rv_recv_ended :: bool
  rv_closed :: bool
  rv_owns_pool :: bool
  rv_pool_returned :: nat
  rv_pulses :: nat
  rv_handles :: nat
  rv_started :: "int list"
  rv_cancelled :: "nat list"
  rv_taken :: "'b list delivery list"

type_synonym 'b rstate = "'b list rbuf \<times> 'b recvbuf"

definition is_enobufs_delivery :: "'v delivery \<Rightarrow> bool" where
  "is_enobufs_delivery d = (case d_exception d of Some (OSErr e) \<Rightarrow> e = ENOBUFS | _ \<Rightarrow> False)"

section \<open>Starting legs\<close>

text \<open>\<open>_start_recv_many\<close>: \<open>fails\<close> is the exception the starter raises, if any; otherwise it publishes a
  fresh handle through \<open>set_op\<close>.\<close>

definition set_op :: "nat \<Rightarrow> 'b recvbuf \<Rightarrow> 'b recvbuf" where
  "set_op operation b =
     (if rv_closed b then b\<lparr>rv_cancelled := rv_cancelled b @ [operation]\<rparr> else b\<lparr>rv_op := Some operation\<rparr>)"

definition start_recv_many :: "pyexn option \<Rightarrow> int \<Rightarrow> 'b recvbuf \<Rightarrow> 'b recvbuf \<times> (pyexn + unit)" where
  "start_recv_many fails base b =
     (if rv_closed b \<or> rv_recv_ended b then (b, Inr ())
      else (case fails of
              Some e \<Rightarrow> (b\<lparr>rv_op := None\<rparr>, Inl e)
            | None \<Rightarrow> (set_op (rv_handles b) (b\<lparr>rv_handles := Suc (rv_handles b), rv_started := rv_started b @ [base]\<rparr>), Inr ())))"

text \<open>\<open>_schedule_resubmit\<close>; the second component is the new \<open>_delivered\<close>.\<close>

definition schedule_resubmit :: "int \<Rightarrow> 'b recvbuf \<Rightarrow> 'b recvbuf \<times> int" where
  "schedule_resubmit base b = (b\<lparr>rv_next_base := base, rv_op := None\<rparr>, arm_next_index base)"

definition signal_pressure_if_pending :: "'b recvbuf \<Rightarrow> 'b recvbuf \<times> bool" where
  "signal_pressure_if_pending b = (if rv_pressure b then (b, False) else (b\<lparr>rv_pressure := True\<rparr>, True))"

section \<open>Ordered deliveries\<close>

definition pulse :: "bool \<Rightarrow> 'b recvbuf \<Rightarrow> 'b recvbuf" where
  "pulse notify b = (if notify then b\<lparr>rv_pulses := Suc (rv_pulses b)\<rparr> else b)"

definition on_ordered_delivery :: "('b list, 'b recvbuf) callback_fn" where
  "on_ordered_delivery d b n =
     (let index = d_index d;
          finish_leg = \<not> d_more d;
          (d1, b1, n1, notify) =
            (if is_enobufs_delivery d then
               (if rv_closed b then
                  (let d' = d\<lparr>d_exception := Some io_cancellation_error, d_more := False\<rparr>
                   in (d', b\<lparr>rv_ready := rv_ready b @ [d']\<rparr>, n, True))
                else (let (b', n') = schedule_resubmit index b;
                          (b'', p) = signal_pressure_if_pending b'
                      in (d, b'', n', p)))
             else
               (let b' = b\<lparr>rv_ready := rv_ready b @ [d]\<rparr>
                in case d_value d of
                     None \<Rightarrow> (d, b', n, True)
                   | Some data \<Rightarrow>
                       (if \<not> d_more d \<and> data \<noteq> [] \<and> \<not> rv_closed b'
                        then (let (b'', n') = schedule_resubmit (index + 1) b' in (d, b'', n', True))
                        else (d, b', n, True))));
          b2 = (if finish_leg \<and> \<not> is_enobufs_delivery d1 then
                  (if \<not> (d_value d1 \<noteq> None \<and> d_value d1 \<noteq> Some [] \<and> \<not> rv_closed b1)
                   then b1\<lparr>rv_op := None, rv_recv_ended := True\<rparr> else b1)
                else b1)
      in (pulse notify b2, n1, None))"

definition rv_deliver :: "'b list delivery \<Rightarrow> 'b rstate \<Rightarrow> 'b rstate" where
  "rv_deliver d s = (case rb_deliver on_ordered_delivery d (fst s) (snd s) of (rb, b, _) \<Rightarrow> (rb, b))"

section \<open>The consumer\<close>

definition pool_at_low_water :: "nat \<Rightarrow> nat \<Rightarrow> bool" where
  "pool_at_low_water leased_count buffer_count = (leased_count * 2 < buffer_count)"

definition should_resubmit :: "nat \<Rightarrow> nat \<Rightarrow> 'b rstate \<Rightarrow> bool" where
  "should_resubmit leased_count buffer_count s =
     (if rv_ready (snd s) \<noteq> [] \<or> rb_pending (fst s) then False else pool_at_low_water leased_count buffer_count)"

definition consume_pressure_resume :: "pyexn option \<Rightarrow> nat \<Rightarrow> nat \<Rightarrow> 'b rstate \<Rightarrow> 'b rstate \<times> (pyexn + unit)" where
  "consume_pressure_resume fails leased bufs s =
     (let b = snd s in
      if rv_closed b \<or> rv_recv_ended b \<or> rv_op b \<noteq> None \<or> \<not> should_resubmit leased bufs s then (s, Inr ())
      else (case start_recv_many fails (rv_next_base b) b of (b', r) \<Rightarrow> ((fst s, b'), r)))"

datatype 'b taken = Pressure | EndOfStream | Chunk int "'b list"

text \<open>\<open>_take_next_ready\<close>: \<open>None\<close> means nothing is ready, \<open>Inl\<close> that the queued error is raised.\<close>

definition take_next_ready :: "'b recvbuf \<Rightarrow> 'b recvbuf \<times> (pyexn + 'b taken) option" where
  "take_next_ready b =
     (if rv_pressure b then (b\<lparr>rv_pressure := False\<rparr>, Some (Inr Pressure))
      else (case rv_ready b of
              [] \<Rightarrow> (b, None)
            | d # rest \<Rightarrow>
                (let b' = b\<lparr>rv_ready := rest, rv_taken := rv_taken b @ [d]\<rparr> in
                 case d_exception d of
                   Some e \<Rightarrow> (b', Some (Inl e))
                 | None \<Rightarrow> (case d_value d of
                              None \<Rightarrow> (b', Some (Inr EndOfStream))
                            | Some chunk \<Rightarrow> if chunk = [] then (b', Some (Inr EndOfStream))
                                            else (b', Some (Inr (Chunk (d_index d) chunk)))))))"

text \<open>\<open>take_next\<close>: the predicate loop is entered after one resume attempt and left with another;
  \<open>None\<close> means the caller parks on the pulse and re-runs \<open>take_next_loop\<close> when woken.\<close>

definition take_next_loop :: "pyexn option \<Rightarrow> nat \<Rightarrow> nat \<Rightarrow> 'b rstate \<Rightarrow> 'b rstate \<times> (pyexn + 'b taken) option" where
  "take_next_loop fails leased bufs s =
     (case take_next_ready (snd s) of
        (b, None) \<Rightarrow> ((fst s, b), None)
      | (b, Some (Inl e)) \<Rightarrow> ((fst s, b), Some (Inl e))
      | (b, Some (Inr x)) \<Rightarrow>
          (case consume_pressure_resume fails leased bufs (fst s, b) of
             (s', Inl e) \<Rightarrow> (s', Some (Inl e))
           | (s', Inr _) \<Rightarrow> (s', Some (Inr x))))"

definition take_next :: "pyexn option \<Rightarrow> nat \<Rightarrow> nat \<Rightarrow> 'b rstate \<Rightarrow> 'b rstate \<times> (pyexn + 'b taken) option" where
  "take_next fails leased bufs s =
     (case consume_pressure_resume fails leased bufs s of
        (s', Inl e) \<Rightarrow> (s', Some (Inl e))
      | (s', Inr _) \<Rightarrow> take_next_loop fails leased bufs s')"

section \<open>Closing\<close>

definition deliver_close_terminal :: "'b rstate \<Rightarrow> 'b rstate" where
  "deliver_close_terminal s =
     rv_deliver \<lparr>d_index = rb_next_index (fst s), d_value = None, d_exception = Some io_cancellation_error, d_more = False\<rparr> s"

definition rv_close :: "'b rstate \<Rightarrow> 'b rstate" where
  "rv_close s =
     (let b = snd s in
      if rv_closed b then s
      else
        (let b1 = b\<lparr>rv_closed := True, rv_pressure := False\<rparr>;
             s1 = (case rv_op b of
                     Some operation \<Rightarrow> (fst s, b1\<lparr>rv_op := None, rv_cancelled := rv_cancelled b1 @ [operation]\<rparr>)
                   | None \<Rightarrow> deliver_close_terminal (fst s, b1))
         in if rv_owns_pool (snd s1) then (fst s1, (snd s1)\<lparr>rv_pool_returned := Suc (rv_pool_returned (snd s1))\<rparr>) else s1))"

definition open_recv_iter_buffer :: "bool \<Rightarrow> 'b rstate" where
  "open_recv_iter_buffer owns_pool =
     (rb_init 0, fst (start_recv_many None 0 \<lparr>rv_ready = [], rv_pressure = False, rv_next_base = 0, rv_op = None,
        rv_recv_ended = False, rv_closed = False, rv_owns_pool = owns_pool, rv_pool_returned = 0, rv_pulses = 0,
        rv_handles = 0, rv_started = [], rv_cancelled = [], rv_taken = []\<rparr>))"

section \<open>Runs\<close>

inductive rv_step :: "'b rstate \<Rightarrow> 'b rstate \<Rightarrow> bool" where
  r_deliver: "rv_step s (rv_deliver d s)"
| r_take: "rv_step s (fst (take_next fails leased bufs s))"
| r_take_loop: "rv_step s (fst (take_next_loop fails leased bufs s))"
| r_close: "rv_step s (rv_close s)"

text \<open>The deliveries taken and queued have the indices \<open>0, 1, \<dots>\<close> up to the next expected one; a leg is
  only live while the stream is open, its handle is allocated and not cancelled.\<close>

definition rv_inv :: "'b list rbuf \<Rightarrow> 'b recvbuf \<Rightarrow> bool" where
  "rv_inv rb b \<longleftrightarrow>
     contiguous 0 (rv_taken b @ rv_ready b) \<and> rb_delivered rb = int (length (rv_taken b @ rv_ready b))"

definition rv_legs :: "'b recvbuf \<Rightarrow> bool" where
  "rv_legs b \<longleftrightarrow>
     (rv_closed b \<or> rv_recv_ended b \<longrightarrow> rv_op b = None) \<and> (\<forall>h. rv_op b = Some h \<longrightarrow> h < rv_handles b \<and> h \<notin> set (rv_cancelled b))
     \<and> (\<forall>h \<in> set (rv_cancelled b). h < rv_handles b) \<and> distinct (rv_cancelled b)
     \<and> length (rv_started b) = rv_handles b \<and> (rv_closed b \<longrightarrow> \<not> rv_pressure b)"

definition pool_sig :: "'b recvbuf \<Rightarrow> bool \<times> bool \<times> nat" where
  "pool_sig b = (rv_closed b, rv_owns_pool b, rv_pool_returned b)"

definition pool_ok :: "'b recvbuf \<Rightarrow> bool" where
  "pool_ok b \<longleftrightarrow> rv_pool_returned b = (if rv_closed b \<and> rv_owns_pool b then 1 else 0)"

lemmas ordered_defs = on_ordered_delivery_def schedule_resubmit_def signal_pressure_if_pending_def arm_next_index_def
  pulse_def Let_def

lemma ordered_pressure:
  assumes "is_enobufs_delivery d" and "\<not> rv_closed b"
  shows "on_ordered_delivery d b n =
    (pulse (\<not> rv_pressure b) (b\<lparr>rv_next_base := d_index d, rv_op := None, rv_pressure := True\<rparr>), d_index d - 1, None)"
proof (cases "rv_pressure b")
  case True
  then have "b\<lparr>rv_next_base := d_index d, rv_op := None, rv_pressure := True\<rparr> = b\<lparr>rv_next_base := d_index d, rv_op := None\<rparr>"
    by (cases b) simp
  then show ?thesis using assms True by (simp add: ordered_defs)
next
  case False
  then show ?thesis using assms by (simp add: ordered_defs)
qed

text \<open>Every other delivery is queued.\<close>

definition queued :: "'b list delivery \<Rightarrow> 'b list delivery" where
  "queued d = (if is_enobufs_delivery d then d\<lparr>d_exception := Some io_cancellation_error, d_more := False\<rparr> else d)"

definition leg_rearmed :: "'b list delivery \<Rightarrow> 'b recvbuf \<Rightarrow> bool" where
  "leg_rearmed d b \<longleftrightarrow> \<not> is_enobufs_delivery d \<and> \<not> d_more d \<and> d_value d \<noteq> None \<and> d_value d \<noteq> Some [] \<and> \<not> rv_closed b"

lemma ordered_queued:
  assumes "\<not> (is_enobufs_delivery d \<and> \<not> rv_closed b)" and "d_index d = n"
  shows "on_ordered_delivery d b n =
    (pulse True (let b1 = b\<lparr>rv_ready := rv_ready b @ [queued d]\<rparr>
       in if leg_rearmed d b then b1\<lparr>rv_next_base := n + 1, rv_op := None\<rparr>
          else if \<not> d_more d then b1\<lparr>rv_op := None, rv_recv_ended := True\<rparr> else b1), n, None)"
proof (cases "is_enobufs_delivery d")
  case True
  then have "\<not> is_enobufs_delivery (d\<lparr>d_exception := Some io_cancellation_error, d_more := False\<rparr>)"
    by (simp add: is_enobufs_delivery_def io_cancellation_error_def ENOBUFS_def ECANCELED_def)
  then show ?thesis using assms True by (simp add: ordered_defs queued_def leg_rearmed_def)
next
  case False
  then show ?thesis using assms
    by (cases "d_value d") (simp_all add: ordered_defs queued_def leg_rearmed_def)
qed

lemma d_index_queued [simp]: "d_index (queued d) = d_index d"
  by (simp add: queued_def)

lemma on_ordered_inv:
  assumes "contiguous 0 (rv_taken b @ rv_ready b)" and "n = int (length (rv_taken b @ rv_ready b))" and "d_index d = n"
  shows "\<exists>b' n'. on_ordered_delivery d b n = (b', n', None) \<and> contiguous 0 (rv_taken b' @ rv_ready b')
    \<and> n' + 1 = int (length (rv_taken b' @ rv_ready b'))"
proof (cases "is_enobufs_delivery d \<and> \<not> rv_closed b")
  case True
  then show ?thesis using assms ordered_pressure [of d b n] by (auto simp: pulse_def)
next
  case False
  then show ?thesis using assms ordered_queued [OF False assms(3)]
    by (auto simp: pulse_def Let_def contiguous_append)
qed

lemma rb_loop_inv:
  assumes "contiguous 0 (rv_taken b @ rv_ready b)" and "n = int (length (rv_taken b @ rv_ready b))"
  shows "\<exists>rb' b'. rb_loop on_ordered_delivery h n b = (rb', b', None) \<and> rv_inv rb' b'"
  using assms
proof (induction h arbitrary: n b)
  case (Cons p h)
  show ?case
  proof (cases "d_index p = n")
    case True
    obtain b' n' where o: "on_ordered_delivery p b n = (b', n', None)" "contiguous 0 (rv_taken b' @ rv_ready b')"
      "n' + 1 = int (length (rv_taken b' @ rv_ready b'))" using on_ordered_inv [OF Cons.prems True] by blast
    then show ?thesis using Cons.IH [OF o(2,3)] True by simp
  next
    case False
    then show ?thesis using Cons.prems by (simp add: rv_inv_def)
  qed
qed (simp add: rv_inv_def)

lemma rv_deliver_inv:
  assumes "rv_inv (fst s) (snd s)"
  shows "rv_inv (fst (rv_deliver d s)) (snd (rv_deliver d s))"
proof (cases "d_index d = rb_delivered (fst s)")
  case True
  have c: "contiguous 0 (rv_taken (snd s) @ rv_ready (snd s))" "rb_delivered (fst s) = int (length (rv_taken (snd s) @ rv_ready (snd s)))"
    using assms by (simp_all add: rv_inv_def)
  obtain b' n' where o: "on_ordered_delivery d (snd s) (rb_delivered (fst s)) = (b', n', None)"
    "contiguous 0 (rv_taken b' @ rv_ready b')" "n' + 1 = int (length (rv_taken b' @ rv_ready b'))"
    using on_ordered_inv [OF c True] by blast
  obtain rb2 b2 where l: "rb_loop on_ordered_delivery (rb_heap (fst s)) (n' + 1) b' = (rb2, b2, None)" "rv_inv rb2 b2"
    using rb_loop_inv [OF o(2,3)] by blast
  show ?thesis using True o(1) l by (simp add: rv_deliver_def rb_deliver_def rb_deliver_now_def)
next
  case False
  then show ?thesis using assms by (simp add: rv_deliver_def rb_deliver_def rv_inv_def)
qed

lemma consume_same:
  assumes "consume_pressure_resume fails leased bufs s = (s', r)"
  shows "fst s' = fst s" and "rv_taken (snd s') = rv_taken (snd s)" and "rv_ready (snd s') = rv_ready (snd s)"
    and "rv_pressure (snd s') = rv_pressure (snd s)"
  using assms by (auto simp: consume_pressure_resume_def start_recv_many_def set_op_def Let_def split: if_splits option.splits)

lemma take_next_loop_inv:
  assumes "rv_inv (fst s) (snd s)"
  shows "rv_inv (fst (fst (take_next_loop fails leased bufs s))) (snd (fst (take_next_loop fails leased bufs s)))"
proof -
  obtain b r where t: "take_next_ready (snd s) = (b, r)" by fastforce
  then have i: "rv_inv (fst s) b"
    using assms by (auto simp: take_next_ready_def rv_inv_def Let_def split: if_splits list.splits option.splits)
  obtain s' q where c: "consume_pressure_resume fails leased bufs (fst s, b) = (s', q)" by fastforce
  from consume_same [OF c] i have "rv_inv (fst s') (snd s')" by (simp add: rv_inv_def)
  with t c i show ?thesis by (auto simp: take_next_loop_def split: option.split sum.split)
qed

lemma take_next_inv:
  assumes "rv_inv (fst s) (snd s)"
  shows "rv_inv (fst (fst (take_next fails leased bufs s))) (snd (fst (take_next fails leased bufs s)))"
proof -
  obtain s' q where c: "consume_pressure_resume fails leased bufs s = (s', q)" by fastforce
  from consume_same [OF c] assms have i: "rv_inv (fst s') (snd s')" by (simp add: rv_inv_def)
  then show ?thesis using c take_next_loop_inv [OF i] by (auto simp: take_next_def split: sum.split)
qed

lemma rv_close_inv:
  assumes "rv_inv (fst s) (snd s)"
  shows "rv_inv (fst (rv_close s)) (snd (rv_close s))"
proof -
  let ?b1 = "(snd s)\<lparr>rv_closed := True, rv_pressure := False\<rparr>"
  have i: "rv_inv (fst (fst s, ?b1)) (snd (fst s, ?b1))" using assms by (simp add: rv_inv_def)
  have "rv_inv (fst (deliver_close_terminal (fst s, ?b1))) (snd (deliver_close_terminal (fst s, ?b1)))"
    unfolding deliver_close_terminal_def by (rule rv_deliver_inv [OF i])
  with assms show ?thesis by (auto simp: rv_close_def Let_def rv_inv_def split: option.split)
qed

lemma rv_step_inv: "rv_step s s' \<Longrightarrow> rv_inv (fst s) (snd s) \<Longrightarrow> rv_inv (fst s') (snd s')"
  by (induction rule: rv_step.induct) (auto intro: rv_deliver_inv take_next_inv take_next_loop_inv rv_close_inv)

lemma rv_reach_inv:
  "rv_step\<^sup>*\<^sup>* (open_recv_iter_buffer owns) s \<Longrightarrow> rv_inv (fst s) (snd s)"
proof (induction rule: rtranclp_induct)
  case base
  show ?case by (simp add: open_recv_iter_buffer_def start_recv_many_def set_op_def rv_inv_def rb_init_def)
next
  case (step s1 s2)
  then show ?case using rv_step_inv by blast
qed

section \<open>Legs and closing\<close>

lemma ordered_legs:
  assumes "rv_legs b" and "d_index d = n"
  shows "rv_legs (fst (on_ordered_delivery d b n)) \<and> pool_sig (fst (on_ordered_delivery d b n)) = pool_sig b"
proof (cases "is_enobufs_delivery d \<and> \<not> rv_closed b")
  case True
  then show ?thesis using assms(1) ordered_pressure [of d b n] by (auto simp: pulse_def rv_legs_def pool_sig_def)
next
  case False
  then show ?thesis using assms ordered_queued [OF False assms(2)] by (auto simp: pulse_def Let_def rv_legs_def pool_sig_def)
qed

lemma rb_loop_legs:
  "rv_legs b \<Longrightarrow> rv_legs (fst (snd (rb_loop on_ordered_delivery h n b)))
     \<and> pool_sig (fst (snd (rb_loop on_ordered_delivery h n b))) = pool_sig b"
proof (induction h arbitrary: n b)
  case (Cons p h)
  show ?case
  proof (cases "d_index p = n")
    case True
    obtain b' n' e where o: "on_ordered_delivery p b n = (b', n', e)" using prod_cases3 by blast
    then have "rv_legs b'" "pool_sig b' = pool_sig b" using ordered_legs [OF Cons.prems True] by simp_all
    then show ?thesis using Cons.IH o True by (cases e) simp_all
  qed (use Cons.prems in simp)
qed simp

lemma rv_deliver_legs:
  assumes l: "rv_legs (snd s)"
  shows "rv_legs (snd (rv_deliver d s)) \<and> pool_sig (snd (rv_deliver d s)) = pool_sig (snd s)"
proof (cases "d_index d = rb_delivered (fst s)")
  case True
  obtain b' n' e where o: "on_ordered_delivery d (snd s) (rb_delivered (fst s)) = (b', n', e)" using prod_cases3 by blast
  then have "rv_legs b'" "pool_sig b' = pool_sig (snd s)" using ordered_legs [OF l True] by simp_all
  then show ?thesis using rb_loop_legs [of b' "rb_heap (fst s)" "n' + 1"] True o
    by (cases e) (auto simp: rv_deliver_def rb_deliver_def rb_deliver_now_def split: prod.splits)
qed (use l in \<open>simp add: rv_deliver_def rb_deliver_def\<close>)

lemma start_legs:
  assumes "rv_legs b" and "rv_op b = None"
  shows "rv_legs (fst (start_recv_many fails base b)) \<and> pool_sig (fst (start_recv_many fails base b)) = pool_sig b"
  using assms by (auto simp: start_recv_many_def set_op_def rv_legs_def pool_sig_def split: option.split)

lemma consume_legs:
  assumes "rv_legs (snd s)" and "consume_pressure_resume fails leased bufs s = (s', r)"
  shows "rv_legs (snd s') \<and> pool_sig (snd s') = pool_sig (snd s)"
  using start_legs [of "snd s" fails "rv_next_base (snd s)"] assms
  by (auto simp: consume_pressure_resume_def Let_def split: prod.splits if_splits)

lemma ready_legs: "rv_legs b \<Longrightarrow> rv_legs (fst (take_next_ready b)) \<and> pool_sig (fst (take_next_ready b)) = pool_sig b"
  by (auto simp: take_next_ready_def rv_legs_def pool_sig_def Let_def split: list.split option.split)

lemma take_loop_legs:
  assumes l: "rv_legs (snd s)" and t: "take_next_loop fails leased bufs s = (s', r)"
  shows "rv_legs (snd s') \<and> pool_sig (snd s') = pool_sig (snd s)"
proof -
  obtain b q where n: "take_next_ready (snd s) = (b, q)" by fastforce
  then have b: "rv_legs b" "pool_sig b = pool_sig (snd s)" using ready_legs [OF l] by simp_all
  obtain s1 q1 where c: "consume_pressure_resume fails leased bufs (fst s, b) = (s1, q1)" by fastforce
  have s1: "rv_legs (snd s1)" "pool_sig (snd s1) = pool_sig b" using consume_legs [OF _ c] b by simp_all
  have "snd s' = b \<or> s' = s1" using t n c by (auto simp: take_next_loop_def split: option.splits sum.splits)
  then show ?thesis using b s1 by auto
qed

lemma take_legs:
  assumes l: "rv_legs (snd s)" and t: "take_next fails leased bufs s = (s', r)"
  shows "rv_legs (snd s') \<and> pool_sig (snd s') = pool_sig (snd s)"
proof -
  obtain s1 q where c: "consume_pressure_resume fails leased bufs s = (s1, q)" by fastforce
  have s1: "rv_legs (snd s1)" "pool_sig (snd s1) = pool_sig (snd s)" using consume_legs [OF l c] by simp_all
  obtain s2 q2 where l2: "take_next_loop fails leased bufs s1 = (s2, q2)" by fastforce
  have "s' = s1 \<or> s' = s2" using t c l2 by (auto simp: take_next_def split: sum.splits)
  then show ?thesis using s1 take_loop_legs [OF s1(1) l2] by auto
qed

lemma close_legs:
  assumes l: "rv_legs (snd s)" and pool: "pool_ok (snd s)"
  shows "rv_legs (snd (rv_close s)) \<and> pool_ok (snd (rv_close s))"
proof (cases "rv_closed (snd s)")
  case True
  then show ?thesis using assms by (simp add: rv_close_def)
next
  case False
  let ?b1 = "(snd s)\<lparr>rv_closed := True, rv_pressure := False\<rparr>"
  define b2 where "b2 = snd (case rv_op (snd s) of
      Some operation \<Rightarrow> (fst s, ?b1\<lparr>rv_op := None, rv_cancelled := rv_cancelled ?b1 @ [operation]\<rparr>)
    | None \<Rightarrow> deliver_close_terminal (fst s, ?b1))"
  have "rv_legs b2 \<and> pool_sig b2 = pool_sig ?b1"
  proof (cases "rv_op (snd s)")
    case (Some h)
    then show ?thesis using l by (auto simp: b2_def rv_legs_def pool_sig_def)
  next
    case None
    have "rv_legs (snd (fst s, ?b1))" using l None by (simp add: rv_legs_def)
    then show ?thesis using rv_deliver_legs None by (fastforce simp: b2_def deliver_close_terminal_def)
  qed
  then have b2: "rv_legs b2" "rv_closed b2" "rv_owns_pool b2 = rv_owns_pool (snd s)" "rv_pool_returned b2 = 0"
    using pool False by (simp_all add: pool_sig_def pool_ok_def)
  have "snd (rv_close s) = (if rv_owns_pool b2 then b2\<lparr>rv_pool_returned := Suc (rv_pool_returned b2)\<rparr> else b2)"
    using False by (simp add: rv_close_def b2_def Let_def)
  then show ?thesis using b2 by (auto simp: rv_legs_def pool_ok_def)
qed

lemma pool_ok_sig: "pool_sig b = pool_sig b' \<Longrightarrow> pool_ok b' \<Longrightarrow> pool_ok b"
  by (simp add: pool_sig_def pool_ok_def)

lemma rv_step_legs: "rv_step s s' \<Longrightarrow> rv_legs (snd s) \<and> pool_ok (snd s) \<Longrightarrow> rv_legs (snd s') \<and> pool_ok (snd s')"
proof (induction rule: rv_step.induct)
  case (r_deliver s d)
  then show ?case using rv_deliver_legs [of s d] pool_ok_sig by blast
next
  case (r_take s fails leased bufs)
  then show ?case using take_legs [of s fails leased bufs] pool_ok_sig by (metis prod.collapse)
next
  case (r_take_loop s fails leased bufs)
  then show ?case using take_loop_legs [of s fails leased bufs] pool_ok_sig by (metis prod.collapse)
next
  case (r_close s)
  then show ?case using close_legs by blast
qed

section \<open>Properties\<close>

text \<open>C21: The consumer of \<open>sock_recv_iter\<close> sees the stream without gaps, repeats or reordering.  After any
  sequence of deliveries (in any order, of any index, data, error, pool pressure or terminal), takes,
  resubmissions and closes, the deliveries taken followed by those queued carry exactly the indices
  \<open>0, 1, 2, \<dots>\<close>, and the next index the buffer accepts is their number: an \<open>ENOBUFS\<close> leg is re-armed at its
  own index and a leg that stops with data at the following one.\<close>

theorem recv_stream_contiguous:
  assumes "rv_step\<^sup>*\<^sup>* (open_recv_iter_buffer owns) s"
  shows "contiguous 0 (rv_taken (snd s) @ rv_ready (snd s))
    \<and> rb_next_index (fst s) = int (length (rv_taken (snd s) @ rv_ready (snd s)))"
  using rv_reach_inv [OF assms] by (simp add: rv_inv_def rb_next_index_def)

definition sample_open :: "nat rstate" where
  "sample_open = open_recv_iter_buffer True"

definition sample_chunk :: "int \<Rightarrow> nat list delivery" where
  "sample_chunk i = \<lparr>d_index = i, d_value = Some [7], d_exception = None, d_more = True\<rparr>"

theorem recv_stream_contiguous_witness:
  "contiguous 0 (rv_taken (snd (rv_deliver (sample_chunk 0) (open_recv_iter_buffer True)))
     @ rv_ready (snd (rv_deliver (sample_chunk 0) (open_recv_iter_buffer True))))"
proof -
  have "rv_step\<^sup>*\<^sup>* (open_recv_iter_buffer True) (rv_deliver (sample_chunk 0) (open_recv_iter_buffer True))"
    by (rule r_into_rtranclp) (rule r_deliver)
  from recv_stream_contiguous [OF this] show ?thesis by blast
qed

text \<open>Receive legs are exclusive and closing is final.  In every reachable state: a live operation
  exists only while the stream is open and has neither ended nor been cancelled, no operation is cancelled
  twice, and an owned buffer pool has been handed back exactly once if the buffer is closed and not at all
  otherwise.\<close>

theorem recv_legs_exclusive:
  assumes "rv_step\<^sup>*\<^sup>* (open_recv_iter_buffer owns) s"
  shows "rv_legs (snd s) \<and> pool_ok (snd s)"
  using assms
proof (induction rule: rtranclp_induct)
  case base
  show ?case by (simp add: open_recv_iter_buffer_def start_recv_many_def set_op_def rv_legs_def pool_ok_def)
next
  case (step s1 s2)
  then show ?case using rv_step_legs by blast
qed

theorem recv_legs_exclusive_witness:
  "rv_cancelled (snd (rv_close sample_open)) = [0] \<and> pool_ok (snd (rv_close sample_open))"
proof -
  have "rv_step\<^sup>*\<^sup>* (open_recv_iter_buffer True) (rv_close sample_open)"
    unfolding sample_open_def by (rule r_into_rtranclp) (rule r_close)
  from recv_legs_exclusive [OF this] show ?thesis
    by (simp add: sample_open_def rv_close_def open_recv_iter_buffer_def start_recv_many_def set_op_def)
qed

text \<open>Nothing is ready for the consumer.\<close>

definition nothing_ready :: "'b recvbuf \<Rightarrow> bool" where
  "nothing_ready b \<longleftrightarrow> snd (take_next_ready b) = None"

lemma nothing_ready_iff: "nothing_ready b \<longleftrightarrow> \<not> rv_pressure b \<and> rv_ready b = []"
  by (auto simp: nothing_ready_def take_next_ready_def Let_def split: list.split option.split)

lemma ordered_pulses:
  assumes "d_index d = n" and "k < rv_pulses b \<or> k = rv_pulses b \<and> nothing_ready b"
    and "on_ordered_delivery d b n = (b', n', e)"
  shows "k < rv_pulses b'"
proof (cases "is_enobufs_delivery d \<and> \<not> rv_closed b")
  case True
  then show ?thesis using assms ordered_pressure [of d b n] by (auto simp: pulse_def nothing_ready_iff split: if_splits)
next
  case False
  then show ?thesis using assms ordered_queued [OF False assms(1)] by (auto simp: pulse_def Let_def)
qed

lemma ordered_ready: "d_index d = n \<Longrightarrow> rv_ready b \<noteq> [] \<Longrightarrow> rv_ready (fst (on_ordered_delivery d b n)) \<noteq> []"
proof (cases "is_enobufs_delivery d \<and> \<not> rv_closed b")
  case True
  assume "rv_ready b \<noteq> []"
  then show ?thesis using True ordered_pressure [of d b n] by (simp add: pulse_def)
next
  case False
  assume "d_index d = n"
  then show ?thesis using ordered_queued [OF False] by (simp add: pulse_def Let_def)
qed

lemma rb_loop_pulses:
  "k < rv_pulses b \<Longrightarrow> rb_loop on_ordered_delivery h n b = (rb', b', e) \<Longrightarrow>
     k < rv_pulses b' \<and> (rv_ready b \<noteq> [] \<longrightarrow> rv_ready b' \<noteq> [])"
proof (induction h arbitrary: n b)
  case (Cons p h)
  show ?case
  proof (cases "d_index p = n")
    case True
    obtain b1 n1 e1 where o: "on_ordered_delivery p b n = (b1, n1, e1)" using prod_cases3 by blast
    then have "k < rv_pulses b1" using ordered_pulses [OF True _ o] Cons.prems(1) by blast
    moreover have "rv_ready b \<noteq> [] \<longrightarrow> rv_ready b1 \<noteq> []" using ordered_ready [OF True, of b] o by simp
    ultimately show ?thesis using Cons.IH [of b1] Cons.prems(2) True o by (cases e1) auto
  qed (use Cons.prems in auto)
qed auto

lemma deliver_pulses:
  assumes nr: "nothing_ready (snd t)" and now: "d_index x = rb_delivered (fst t)"
  shows "rv_pulses (snd t) < rv_pulses (snd (rv_deliver x t))"
    and "\<not> is_enobufs_delivery x \<Longrightarrow> rv_ready (snd (rv_deliver x t)) \<noteq> []"
proof -
  obtain b1 n1 e1 where o: "on_ordered_delivery x (snd t) (rb_delivered (fst t)) = (b1, n1, e1)" using prod_cases3 by blast
  obtain rb2 b2 e2 where l: "rb_loop on_ordered_delivery (rb_heap (fst t)) (n1 + 1) b1 = (rb2, b2, e2)" using prod_cases3 by blast
  have n: "rv_pulses (snd t) < rv_pulses b1" using ordered_pulses [OF now _ o] nr by blast
  note n2 = rb_loop_pulses [OF n l]
  have d: "snd (rv_deliver x t) = b1 \<or> snd (rv_deliver x t) = b2"
    using now o l by (cases e1) (auto simp: rv_deliver_def rb_deliver_def rb_deliver_now_def)
  show "rv_pulses (snd t) < rv_pulses (snd (rv_deliver x t))" using d n n2 by auto
  assume "\<not> is_enobufs_delivery x"
  then have "rv_ready b1 \<noteq> []" using ordered_queued [of x "snd t", OF _ now] o by (auto simp: pulse_def Let_def)
  then show "rv_ready (snd (rv_deliver x t)) \<noteq> []" using d n2 by auto
qed

text \<open>The consumer is never left parked with something to take: whenever a delivery, or the terminal
  that \<open>close\<close> posts when no leg is live, makes the wait predicate of \<open>take_next\<close> true, the consumer's
  pulse has been set; and after such a close there is something to take.\<close>

theorem recv_wakes_consumer:
  assumes "nothing_ready (snd s)"
  shows "(\<not> nothing_ready (snd (rv_deliver d s)) \<longrightarrow> rv_pulses (snd s) < rv_pulses (snd (rv_deliver d s)))
    \<and> (rv_op (snd s) = None \<and> \<not> rv_closed (snd s) \<longrightarrow>
        \<not> nothing_ready (snd (rv_close s)) \<and> rv_pulses (snd s) < rv_pulses (snd (rv_close s)))"
proof (intro conjI impI)
  assume ch: "\<not> nothing_ready (snd (rv_deliver d s))"
  have "d_index d = rb_delivered (fst s)"
  proof (rule ccontr)
    assume "d_index d \<noteq> rb_delivered (fst s)"
    then have "snd (rv_deliver d s) = snd s" by (simp add: rv_deliver_def rb_deliver_def)
    then show False using ch assms by simp
  qed
  then show "rv_pulses (snd s) < rv_pulses (snd (rv_deliver d s))" by (rule deliver_pulses(1) [OF assms])
next
  assume op: "rv_op (snd s) = None \<and> \<not> rv_closed (snd s)"
  let ?t = "(fst s, (snd s)\<lparr>rv_closed := True, rv_pressure := False\<rparr>)"
  let ?x = "\<lparr>d_index = rb_next_index (fst s), d_value = None, d_exception = Some io_cancellation_error, d_more = False\<rparr>"
  have nt: "nothing_ready (snd ?t)" using assms by (simp add: nothing_ready_iff)
  have x: "d_index ?x = rb_delivered (fst ?t)" "\<not> is_enobufs_delivery ?x"
    by (simp_all add: rb_next_index_def is_enobufs_delivery_def io_cancellation_error_def ENOBUFS_def ECANCELED_def)
  have c: "rv_ready (snd (rv_close s)) = rv_ready (snd (rv_deliver ?x ?t))" "rv_pulses (snd (rv_close s)) = rv_pulses (snd (rv_deliver ?x ?t))"
    using op by (simp_all add: rv_close_def Let_def deliver_close_terminal_def)
  show "\<not> nothing_ready (snd (rv_close s))" using deliver_pulses(2) [OF nt x] c(1) by (simp add: nothing_ready_iff)
  show "rv_pulses (snd s) < rv_pulses (snd (rv_close s))" using deliver_pulses(1) [OF nt x(1)] c(2) by simp
qed

theorem recv_wakes_consumer_witness:
  "0 < rv_pulses (snd (rv_deliver (sample_chunk 0) sample_open))"
proof -
  have n: "nothing_ready (snd sample_open)" "rv_pulses (snd sample_open) = 0"
    by (simp_all add: nothing_ready_iff sample_open_def open_recv_iter_buffer_def start_recv_many_def set_op_def)
  have "rv_ready (snd (rv_deliver (sample_chunk 0) sample_open)) \<noteq> []"
    by (rule deliver_pulses(2) [OF n(1)])
      (simp_all add: sample_chunk_def sample_open_def open_recv_iter_buffer_def rb_init_def is_enobufs_delivery_def)
  then have "\<not> nothing_ready (snd (rv_deliver (sample_chunk 0) sample_open))" by (simp add: nothing_ready_iff)
  with recv_wakes_consumer [OF n(1), of "sample_chunk 0"] n(2) show ?thesis by simp
qed

end
