(* ===== verification/Stream_Reader.thy ===== *)
theory Stream_Reader
  imports Recv_Buffer "HOL-Library.Word" "HOL-Library.Sublist"
begin

text \<open>
  \<open>ReaderCore\<close> of \<open>tealetio/streams/reader.py\<close>, the code behind \<open>StreamReader\<close> and \<open>AsyncStreamReader\<close> (which
  only forward to it).  The receive buffer is seen through the results of successive \<open>take_next()\<close>
  calls, the list \<open>rd_src\<close>; at its end a call blocks.  \<open>unread\<close> is the abstract stream: the bytes buffered
  and not consumed, followed by the chunks still to come.  Every operation returns a prefix of it and
  keeps the rest, whatever the chunk boundaries and compactions are.
\<close>

section \<open>State\<close>

type_synonym byte = "8 word"

definition RECV_MANY_BUFFER_PRESSURE :: int where "RECV_MANY_BUFFER_PRESSURE = -1"
definition COMPACT_PREFIX :: nat where "COMPACT_PREFIX = 4096"
definition newline :: byte where "newline = 10"

type_synonym source = "(pyexn + byte taken) list"

record reader =
  rd_limit :: int
  rd_buffer :: "byte list"
  rd_pos :: nat
  rd_eof :: bool
  rd_src :: source

datatype rd_err = IncompleteRead "byte list" int | LimitOverrun nat | NegativeSize | RecvError pyexn

datatype 'a rd = RdRet 'a | RdRaise rd_err | RdBlock

definition reader_init :: "int \<Rightarrow> source \<Rightarrow> reader" where
  "reader_init limit src = \<lparr>rd_limit = limit, rd_buffer = [], rd_pos = 0, rd_eof = False, rd_src = src\<rparr>"

definition buffer_available :: "reader \<Rightarrow> nat" where
  "buffer_available r = length (rd_buffer r) - rd_pos r"

definition at_eof :: "reader \<Rightarrow> bool" where
  "at_eof r = (rd_eof r \<and> buffer_available r = 0)"

definition compact_buffer :: "reader \<Rightarrow> reader" where
  "compact_buffer r =
     (if rd_pos r \<noteq> 0 then r\<lparr>rd_buffer := drop (rd_pos r) (rd_buffer r), rd_pos := 0\<rparr> else r)"

definition maybe_compact_buffer :: "reader \<Rightarrow> reader" where
  "maybe_compact_buffer r =
     (if COMPACT_PREFIX \<le> rd_pos r \<and> length (rd_buffer r) div 2 \<le> rd_pos r then compact_buffer r else r)"

section \<open>Filling\<close>

text \<open>\<open>_append_next_chunk\<close>: skip pressure markers, then append a chunk or note the end of the stream.\<close>

fun append_loop :: "source \<Rightarrow> reader \<Rightarrow> reader \<times> bool rd" where
  "append_loop [] r = (r\<lparr>rd_src := []\<rparr>, RdBlock)"
| "append_loop (Inl e # src) r = (r\<lparr>rd_src := src\<rparr>, RdRaise (RecvError e))"
| "append_loop (Inr EndOfStream # src) r = (r\<lparr>rd_src := src, rd_eof := True\<rparr>, RdRet False)"
| "append_loop (Inr Pressure # src) r = append_loop src r"
| "append_loop (Inr (Chunk index chunk) # src) r =
     (if index = RECV_MANY_BUFFER_PRESSURE then append_loop src r
      else if chunk \<noteq> [] then (r\<lparr>rd_src := src, rd_buffer := rd_buffer r @ chunk\<rparr>, RdRet True)
      else (r\<lparr>rd_src := src, rd_eof := True\<rparr>, RdRet False))"

definition append_next_chunk :: "reader \<Rightarrow> reader \<times> bool rd" where
  "append_next_chunk r = append_loop (rd_src r) r"

lemma append_loop_shorter: "append_loop src r = (r', RdRet x) \<Longrightarrow> length (rd_src r') < length src"
  by (induction src r rule: append_loop.induct) (auto split: if_splits)

lemma append_shorter: "append_next_chunk r = (r', RdRet x) \<Longrightarrow> length (rd_src r') < length (rd_src r)"
  by (simp add: append_next_chunk_def append_loop_shorter)

function fill_buffer :: "nat \<Rightarrow> reader \<Rightarrow> reader \<times> unit rd" where
  "fill_buffer min_bytes r =
     (if buffer_available r < min_bytes \<and> \<not> rd_eof r
      then (case append_next_chunk r of
              (r1, RdRet True) \<Rightarrow> fill_buffer min_bytes r1
            | (r1, RdRet False) \<Rightarrow> (r1, RdRet ())
            | (r1, RdRaise e) \<Rightarrow> (r1, RdRaise e)
            | (r1, RdBlock) \<Rightarrow> (r1, RdBlock))
      else (r, RdRet ()))"
  by pat_completeness auto
termination
  by (relation "measure (\<lambda>(_, r). length (rd_src r))") (use append_shorter in \<open>auto dest!: sym [of "(_, _)"]\<close>)

text \<open>The loop of \<open>read(-1)\<close>.\<close>

function read_loop :: "reader \<Rightarrow> reader \<times> unit rd" where
  "read_loop r =
     (if \<not> rd_eof r
      then (case append_next_chunk r of
              (r1, RdRet True) \<Rightarrow> read_loop r1
            | (r1, RdRet False) \<Rightarrow> (r1, RdRet ())
            | (r1, RdRaise e) \<Rightarrow> (r1, RdRaise e)
            | (r1, RdBlock) \<Rightarrow> (r1, RdBlock))
      else (r, RdRet ()))"
  by pat_completeness auto
termination
  by (relation "measure (\<lambda>r. length (rd_src r))") (use append_shorter in \<open>auto dest!: sym [of "(_, _)"]\<close>)

section \<open>Reading\<close>

definition take_bytes :: "nat \<Rightarrow> reader \<Rightarrow> reader \<times> byte list" where
  "take_bytes n r =
     (let cnt = min n (buffer_available r) in
      if cnt = 0 then (r, [])
      else (maybe_compact_buffer (r\<lparr>rd_pos := rd_pos r + cnt\<rparr>), take cnt (drop (rd_pos r) (rd_buffer r))))"

text \<open>\<open>view[offset : offset + count] = ...\<close>\<close>

definition take_into :: "byte list \<Rightarrow> nat \<Rightarrow> nat \<Rightarrow> reader \<Rightarrow> reader \<times> byte list \<times> nat" where
  "take_into view offset n r =
     (let cnt = min n (buffer_available r) in
      if cnt = 0 then (r, view, 0)
      else (maybe_compact_buffer (r\<lparr>rd_pos := rd_pos r + cnt\<rparr>),
            take offset view @ take cnt (drop (rd_pos r) (rd_buffer r)) @ drop (offset + cnt) view, cnt))"

definition rd_read :: "int \<Rightarrow> reader \<Rightarrow> reader \<times> byte list rd" where
  "rd_read n r =
     (if n = 0 then (r, RdRet [])
      else if n < 0 then
        (case read_loop r of
           (r1, RdRet _) \<Rightarrow> (r1\<lparr>rd_buffer := [], rd_pos := 0\<rparr>, RdRet (drop (rd_pos r1) (rd_buffer r1)))
         | (r1, RdRaise e) \<Rightarrow> (r1, RdRaise e)
         | (r1, RdBlock) \<Rightarrow> (r1, RdBlock))
      else if buffer_available r \<noteq> 0 then
        (case take_bytes (min (nat n) (buffer_available r)) r of (r1, bs) \<Rightarrow> (r1, RdRet bs))
      else if rd_eof r then (r, RdRet [])
      else
        (case append_next_chunk r of
           (r1, RdRet _) \<Rightarrow> (case take_bytes (min (nat n) (buffer_available r1)) r1 of (r2, bs) \<Rightarrow> (r2, RdRet bs))
         | (r1, RdRaise e) \<Rightarrow> (r1, RdRaise e)
         | (r1, RdBlock) \<Rightarrow> (r1, RdBlock)))"

definition readexactly :: "int \<Rightarrow> reader \<Rightarrow> reader \<times> byte list rd" where
  "readexactly n r =
     (if n < 0 then (r, RdRaise NegativeSize)
      else if n = 0 then (r, RdRet [])
      else
        (case (if int (buffer_available r) < n \<and> \<not> rd_eof r then fill_buffer (nat n) r else (r, RdRet ())) of
           (r1, RdRet _) \<Rightarrow>
             if int (buffer_available r1) < n
             then (r1\<lparr>rd_buffer := [], rd_pos := 0\<rparr>, RdRaise (IncompleteRead (drop (rd_pos r1) (rd_buffer r1)) n))
             else (case take_bytes (nat n) r1 of (r2, bs) \<Rightarrow> (r2, RdRet bs))
         | (r1, RdRaise e) \<Rightarrow> (r1, RdRaise e)
         | (r1, RdBlock) \<Rightarrow> (r1, RdBlock)))"

text \<open>\<open>self._buffer.find(b"\\n", self._buffer_pos)\<close>, relative to the position.\<close>

definition find_newline :: "reader \<Rightarrow> nat option" where
  "find_newline r =
     (let rest = drop (rd_pos r) (rd_buffer r); k = length (takeWhile (\<lambda>b. b \<noteq> newline) rest)
      in if k < length rest then Some k else None)"

function readline :: "reader \<Rightarrow> reader \<times> byte list rd" where
  "readline r =
     (case find_newline r of
        Some k \<Rightarrow> (case take_bytes (k + 1) r of (r1, bs) \<Rightarrow> (r1, RdRet bs))
      | None \<Rightarrow>
          if rd_eof r then (case take_bytes (buffer_available r) r of (r1, bs) \<Rightarrow> (r1, RdRet bs))
          else if rd_limit r \<le> int (buffer_available r) then (r, RdRaise (LimitOverrun (buffer_available r)))
          else
            (case append_next_chunk r of
               (r1, RdRet True) \<Rightarrow> readline r1
             | (r1, RdRet False) \<Rightarrow> (case take_bytes (buffer_available r1) r1 of (r2, bs) \<Rightarrow> (r2, RdRet bs))
             | (r1, RdRaise e) \<Rightarrow> (r1, RdRaise e)
             | (r1, RdBlock) \<Rightarrow> (r1, RdBlock)))"
  by pat_completeness auto
termination
  by (relation "measure (\<lambda>r. length (rd_src r))") (use append_shorter in \<open>auto dest!: sym [of "(_, _)"]\<close>)

text \<open>The copy loop of \<open>readinto\<close>; each round that runs copies at least one byte.\<close>

lemma take_into_progress: "buffer_available r \<noteq> 0 \<Longrightarrow> n \<noteq> 0 \<Longrightarrow> 0 < snd (snd (take_into view offset n r))"
  by (simp add: take_into_def Let_def)

function copy_loop :: "nat \<Rightarrow> byte list \<Rightarrow> nat \<Rightarrow> reader \<Rightarrow> reader \<times> byte list \<times> nat" where
  "copy_loop nbytes view tot r =
     (if tot < nbytes \<and> buffer_available r \<noteq> 0
      then (let t = take_into view tot (nbytes - tot) r
            in copy_loop nbytes (fst (snd t)) (tot + snd (snd t)) (fst t))
      else (r, view, tot))"
  by pat_completeness auto
termination
  by (relation "measure (\<lambda>(nbytes, _, tot, _). nbytes - tot)")
     (use take_into_progress in \<open>auto intro!: diff_less_mono2\<close>)

definition readinto :: "byte list \<Rightarrow> reader \<Rightarrow> reader \<times> byte list \<times> nat rd" where
  "readinto view r =
     (if view = [] then (r, view, RdRet 0)
      else if rd_eof r \<and> buffer_available r = 0 then (r, view, RdRet 0)
      else
        (case (if buffer_available r < length view \<and> \<not> rd_eof r then fill_buffer (length view) r else (r, RdRet ())) of
           (r1, RdRet _) \<Rightarrow> (case copy_loop (length view) view 0 r1 of (r2, view2, tot) \<Rightarrow> (r2, view2, RdRet tot))
         | (r1, RdRaise e) \<Rightarrow> (r1, view, RdRaise e)
         | (r1, RdBlock) \<Rightarrow> (r1, view, RdBlock)))"

section \<open>The abstract stream\<close>

text \<open>The bytes a source delivers before it ends, raises or blocks, and whether it ends.\<close>

fun payload :: "source \<Rightarrow> byte list" where
  "payload (Inr Pressure # src) = payload src"
| "payload (Inr (Chunk index chunk) # src) =
     (if index = RECV_MANY_BUFFER_PRESSURE then payload src else if chunk \<noteq> [] then chunk @ payload src else [])"
| "payload _ = []"

fun src_ends :: "source \<Rightarrow> bool" where
  "src_ends (Inr EndOfStream # src) = True"
| "src_ends (Inr Pressure # src) = src_ends src"
| "src_ends (Inr (Chunk index chunk) # src) =
     (if index = RECV_MANY_BUFFER_PRESSURE then src_ends src else chunk = [] \<or> src_ends src)"
| "src_ends _ = False"

definition rd_ok :: "reader \<Rightarrow> bool" where
  "rd_ok r \<longleftrightarrow> rd_pos r \<le> length (rd_buffer r)"

definition buffered :: "reader \<Rightarrow> byte list" where
  "buffered r = drop (rd_pos r) (rd_buffer r)"

definition unread :: "reader \<Rightarrow> byte list" where
  "unread r = buffered r @ (if rd_eof r then [] else payload (rd_src r))"

definition rd_ends :: "reader \<Rightarrow> bool" where
  "rd_ends r \<longleftrightarrow> rd_eof r \<or> src_ends (rd_src r)"

text \<open>How an operation may fail on the way: the receive buffer raised, or nothing more has arrived.  All
  bytes received so far are then buffered.\<close>

definition stopped :: "reader \<Rightarrow> reader \<Rightarrow> 'a rd \<Rightarrow> bool" where
  "stopped r r' x \<longleftrightarrow> ((\<exists>e. x = RdRaise (RecvError e)) \<or> x = RdBlock) \<and> buffered r' = unread r \<and> \<not> rd_ends r"

lemma length_buffered [simp]: "length (buffered r) = buffer_available r"
  by (simp add: buffered_def buffer_available_def)

lemma buffered_Nil [simp]: "buffered r = [] \<longleftrightarrow> buffer_available r = 0"
  by (metis length_0_conv length_buffered)

lemma append_loop_result:
  assumes "append_loop src r = (r', x)" "rd_ok r" "\<not> rd_eof r"
  shows "rd_ok r' \<and> rd_limit r' = rd_limit r \<and>
    (case x of
       RdRet True \<Rightarrow> (\<exists>c. c \<noteq> [] \<and> buffered r' = buffered r @ c \<and> payload src = c @ payload (rd_src r'))
          \<and> \<not> rd_eof r' \<and> src_ends src = src_ends (rd_src r')
     | RdRet False \<Rightarrow> buffered r' = buffered r \<and> payload src = [] \<and> rd_eof r' \<and> src_ends src
     | RdRaise e \<Rightarrow> (\<exists>y. e = RecvError y) \<and> buffered r' = buffered r \<and> payload src = [] \<and> \<not> src_ends src
     | RdBlock \<Rightarrow> buffered r' = buffered r \<and> payload src = [] \<and> \<not> src_ends src)"
  using assms
proof (induction src r rule: append_loop.induct)
  case (5 index chunk src r)
  then show ?case by (auto simp: rd_ok_def buffered_def split: if_splits rd.splits bool.splits)
qed (auto simp: rd_ok_def buffered_def split: rd.splits bool.splits)

lemma append_more:
  assumes "append_next_chunk r = (r', RdRet True)" "rd_ok r" "\<not> rd_eof r"
  shows "rd_ok r'" "unread r' = unread r" "rd_ends r' = rd_ends r" "buffer_available r < buffer_available r'" "rd_limit r' = rd_limit r"
    "\<exists>c. buffered r' = buffered r @ c"
proof -
  obtain c where c: "rd_ok r'" "rd_limit r' = rd_limit r" "c \<noteq> []" "buffered r' = buffered r @ c" "payload (rd_src r) = c @ payload (rd_src r')"
    "\<not> rd_eof r'" "src_ends (rd_src r) = src_ends (rd_src r')"
    using append_loop_result [OF assms(1) [unfolded append_next_chunk_def] assms(2,3)] by auto
  have "buffer_available r' = buffer_available r + length c" by (metis c(4) length_append length_buffered)
  then show "rd_ok r'" "unread r' = unread r" "rd_ends r' = rd_ends r" "buffer_available r < buffer_available r'" "rd_limit r' = rd_limit r"
    "\<exists>c. buffered r' = buffered r @ c"
    using c assms(3) by (auto simp: unread_def rd_ends_def)
qed

lemma append_eof:
  assumes "append_next_chunk r = (r', RdRet False)" "rd_ok r" "\<not> rd_eof r"
  shows "rd_ok r'" "rd_eof r'" "buffered r' = unread r" "buffered r' = buffered r" "rd_ends r"
  using append_loop_result [OF assms(1) [unfolded append_next_chunk_def] assms(2,3)] assms(3)
  by (auto simp: unread_def rd_ends_def)

lemma append_stop:
  assumes "append_next_chunk r = (r', x)" "rd_ok r" "\<not> rd_eof r" "\<forall>b. x \<noteq> RdRet b"
  shows "rd_ok r'" "stopped r r' x"
  using append_loop_result [OF assms(1) [unfolded append_next_chunk_def] assms(2,3)] assms(3,4)
  by (auto simp: unread_def rd_ends_def stopped_def split: rd.splits)

lemma eof_unread: "rd_eof r \<Longrightarrow> unread r = buffered r"
  by (simp add: unread_def)

lemma stopped_trans: "unread r1 = unread r \<Longrightarrow> rd_ends r1 = rd_ends r \<Longrightarrow> stopped r1 r' x \<Longrightarrow> stopped r r' x"
  by (simp add: stopped_def)

lemma fill_buffer_result:
  assumes "fill_buffer n r = (r', x)" "rd_ok r"
  shows "rd_ok r' \<and>
    (x = RdRet () \<and> unread r' = unread r \<and> rd_ends r' = rd_ends r \<and> (n \<le> buffer_available r' \<or> rd_eof r') \<or> stopped r r' x)"
  using assms
proof (induction n r arbitrary: r' x rule: fill_buffer.induct)
  case (1 n r)
  show ?case
  proof (cases "buffer_available r < n \<and> \<not> rd_eof r")
    case go: True
    obtain r1 y where a: "append_next_chunk r = (r1, y)" by fastforce
    consider "y = RdRet True" | "y = RdRet False" | "\<forall>b. y \<noteq> RdRet b" by (cases y) auto
    then show ?thesis
    proof cases
      case 1
      have f: "fill_buffer n r1 = (r', x)" using "1.prems"(1) go a 1 by simp
      note m = append_more [OF a [unfolded 1] "1.prems"(2) conjunct2 [OF go]]
      have "rd_ok r' \<and> (x = RdRet () \<and> unread r' = unread r1 \<and> rd_ends r' = rd_ends r1 \<and> (n \<le> buffer_available r' \<or> rd_eof r') \<or> stopped r1 r' x)"
        by (rule "1.IH" [OF go a [symmetric] 1 _ f m(1)]) simp
      then show ?thesis using m(2,3) stopped_trans [OF m(2,3)] by auto
    next
      case 2
      then have "r' = r1" "x = RdRet ()" using "1.prems"(1) go a by simp_all
      then show ?thesis using append_eof [OF a [unfolded 2] "1.prems"(2)] go by (simp add: eof_unread rd_ends_def)
    next
      case 3
      note p = append_stop [OF a "1.prems"(2) conjunct2 [OF go] 3]
      have "r' = r1 \<and> stopped r r' x" using "1.prems"(1) go a p(2) by (cases y) (auto simp: stopped_def)
      then show ?thesis using p(1) by auto
    qed
  next
    case False
    then show ?thesis using "1.prems" by auto
  qed
qed

lemma read_loop_result:
  assumes "read_loop r = (r', x)" "rd_ok r"
  shows "rd_ok r' \<and> (x = RdRet () \<and> buffered r' = unread r \<and> rd_eof r' \<and> rd_ends r \<or> stopped r r' x)"
  using assms
proof (induction r arbitrary: r' x rule: read_loop.induct)
  case (1 r)
  show ?case
  proof (cases "rd_eof r")
    case False
    obtain r1 y where a: "append_next_chunk r = (r1, y)" by fastforce
    consider "y = RdRet True" | "y = RdRet False" | "\<forall>b. y \<noteq> RdRet b" by (cases y) auto
    then show ?thesis
    proof cases
      case 1
      have f: "read_loop r1 = (r', x)" using "1.prems"(1) False a 1 by simp
      note m = append_more [OF a [unfolded 1] "1.prems"(2) False]
      have "rd_ok r' \<and> (x = RdRet () \<and> buffered r' = unread r1 \<and> rd_eof r' \<and> rd_ends r1 \<or> stopped r1 r' x)"
        by (rule "1.IH" [OF False a [symmetric] 1 _ f m(1)]) simp
      then show ?thesis using m(2,3) stopped_trans [OF m(2,3)] by auto
    next
      case 2
      then have "r' = r1" "x = RdRet ()" using "1.prems"(1) False a by simp_all
      then show ?thesis using append_eof [OF a [unfolded 2] "1.prems"(2) False] by simp
    next
      case 3
      note p = append_stop [OF a "1.prems"(2) False 3]
      have "r' = r1 \<and> stopped r r' x" using "1.prems"(1) False a p(2) by (cases y) (auto simp: stopped_def)
      then show ?thesis using p(1) by auto
    qed
  next
    case True
    then show ?thesis using "1.prems" by (auto simp: eof_unread rd_ends_def)
  qed
qed

section \<open>Consuming\<close>

lemma maybe_compact_simps [simp]:
  "buffered (maybe_compact_buffer r) = buffered r" "rd_eof (maybe_compact_buffer r) = rd_eof r"
  "rd_src (maybe_compact_buffer r) = rd_src r" "rd_ok r \<Longrightarrow> rd_ok (maybe_compact_buffer r)"
  by (simp_all add: maybe_compact_buffer_def compact_buffer_def buffered_def rd_ok_def)

lemma buffered_pos: "rd_ok r \<Longrightarrow> k \<le> buffer_available r \<Longrightarrow>
    buffered (r\<lparr>rd_pos := rd_pos r + k\<rparr>) = drop k (buffered r) \<and> rd_ok (r\<lparr>rd_pos := rd_pos r + k\<rparr>)"
  by (auto simp: buffered_def rd_ok_def buffer_available_def add.commute)

lemma take_bytes_result:
  assumes "take_bytes n r = (r', bs)" "rd_ok r"
  shows "rd_ok r' \<and> bs = take n (buffered r) \<and> buffered r' = drop n (buffered r) \<and> unread r = bs @ unread r'"
proof -
  let ?k = "min n (buffer_available r)"
  have t: "take n (buffered r) = take ?k (buffered r)" "drop n (buffered r) = drop ?k (buffered r)"
    by (simp_all add: min_def)
  have b: "bs = take ?k (buffered r) \<and> buffered r' = drop ?k (buffered r) \<and> rd_ok r' \<and> rd_eof r' = rd_eof r \<and> rd_src r' = rd_src r"
    using assms buffered_pos [OF assms(2), of ?k]
    by (auto simp: take_bytes_def Let_def split: if_splits) (simp_all add: buffered_def)
  then show ?thesis unfolding t by (simp add: unread_def)
qed

lemma take_into_result:
  assumes "rd_ok r" "n \<noteq> 0" "buffer_available r \<noteq> 0"
  shows "\<exists>r'. take_into view off n r = (r', take off view @ take n (buffered r) @ drop (off + min n (buffer_available r)) view, min n (buffer_available r))
    \<and> rd_ok r' \<and> buffered r' = drop n (buffered r) \<and> rd_eof r' = rd_eof r \<and> rd_src r' = rd_src r"
proof -
  let ?k = "min n (buffer_available r)"
  have t: "take n (buffered r) = take ?k (buffered r)" "drop n (buffered r) = drop ?k (buffered r)"
    by (simp_all add: min_def)
  have k: "?k \<noteq> 0" using assms(2,3) by simp
  then have e: "take_into view off n r = (maybe_compact_buffer (r\<lparr>rd_pos := rd_pos r + ?k\<rparr>),
      take off view @ take ?k (buffered r) @ drop (off + ?k) view, ?k)"
    unfolding take_into_def Let_def buffered_def by (simp only: if_False)
  show ?thesis
    unfolding t e using buffered_pos [OF assms(1), of ?k]
    by (intro exI [of _ "maybe_compact_buffer (r\<lparr>rd_pos := rd_pos r + ?k\<rparr>)"]) simp
qed

lemma copy_loop_end: "\<not> (tot < nbytes \<and> buffer_available r \<noteq> 0) \<Longrightarrow> copy_loop nbytes view tot r = (r, view, tot)"
  by (subst copy_loop.simps) auto

lemma copy_loop_result:
  assumes "rd_ok r" "copy_loop (length view) view 0 r = (r', view', k)"
  shows "rd_ok r' \<and> k = min (length view) (buffer_available r) \<and> take k view' = take (length view) (buffered r)
    \<and> drop k view' = drop k view \<and> unread r = take k view' @ unread r'"
proof (cases "view = [] \<or> buffer_available r = 0")
  case True
  then have "copy_loop (length view) view 0 r = (r, view, 0)" by (intro copy_loop_end) auto
  then show ?thesis using True assms by auto
next
  case False
  then obtain r1 where t: "take_into view 0 (length view) r =
      (r1, take 0 view @ take (length view) (buffered r) @ drop (0 + min (length view) (buffer_available r)) view, min (length view) (buffer_available r))"
    "rd_ok r1" "buffered r1 = drop (length view) (buffered r)" "rd_eof r1 = rd_eof r" "rd_src r1 = rd_src r"
    using take_into_result [OF assms(1), of "length view" view 0] by auto
  let ?k = "min (length view) (buffer_available r)" and ?v = "take (length view) (buffered r) @ drop (min (length view) (buffer_available r)) view"
  have "buffer_available r1 = buffer_available r - length view" using t(3) by (metis length_buffered length_drop)
  then have e: "copy_loop (length view) ?v ?k r1 = (r1, ?v, ?k)" by (intro copy_loop_end) auto
  have "copy_loop (length view) view 0 r = copy_loop (length view) ?v ?k r1"
    using False t(1) by (subst copy_loop.simps) (simp add: Let_def)
  with assms(2) e have "r' = r1" "view' = ?v" "k = ?k" by simp_all
  moreover have "take ?k (buffered r) = take (length view) (buffered r)" by (simp add: min_def)
  ultimately show ?thesis using t(2-5) by (simp add: unread_def)
qed

section \<open>Lines\<close>

definition line_of :: "byte list \<Rightarrow> byte list" where
  "line_of bs = (if newline \<in> set bs then takeWhile (\<lambda>b. b \<noteq> newline) bs @ [newline] else bs)"

lemma take_Suc_takeWhile:
  "length (takeWhile P xs) < length xs \<Longrightarrow>
   take (Suc (length (takeWhile P xs))) xs = takeWhile P xs @ [xs ! length (takeWhile P xs)]"
  by (metis take_Suc_conv_app_nth takeWhile_eq_take)

lemma find_newline_Some:
  assumes "find_newline r = Some k"
  shows "newline \<in> set (buffered r) \<and> take (Suc k) (buffered r) = line_of (buffered r @ ys)"
proof -
  let ?w = "takeWhile (\<lambda>b. b \<noteq> newline) (buffered r)"
  have k: "k = length ?w" "length ?w < length (buffered r)"
    using assms by (auto simp: find_newline_def Let_def buffered_def split: if_splits)
  have n: "buffered r ! length ?w = newline" using nth_length_takeWhile [OF k(2)] by simp
  then have "newline \<in> set (buffered r)" using k(2) by (metis nth_mem)
  then show ?thesis
    using take_Suc_takeWhile [OF k(2)] n k(1) by (simp add: line_of_def takeWhile_append1)
qed

lemma length_takeWhile_less_newline: "y \<in> set xs \<Longrightarrow> length (takeWhile (\<lambda>b. b \<noteq> y) xs) < length xs"
  by (induction xs) auto

lemma find_newline_None: "find_newline r = None \<Longrightarrow> newline \<notin> set (buffered r)"
  by (auto simp: find_newline_def Let_def buffered_def dest: length_takeWhile_less_newline split: if_splits)

lemma take_all_line:
  assumes "rd_eof r" "rd_ok r" "newline \<notin> set (buffered r)" "take_bytes (buffer_available r) r = (r', bs)"
  shows "rd_ok r' \<and> bs = line_of (unread r) \<and> unread r = bs @ unread r'"
proof -
  have "take (buffer_available r) (buffered r) = buffered r" by simp
  moreover have "line_of (unread r) = buffered r" using assms(1,3) by (simp add: line_of_def eof_unread)
  ultimately show ?thesis using take_bytes_result [OF assms(4,2)] by metis
qed

lemma readline_result:
  assumes "readline r = (r', x)" "rd_ok r"
  shows "rd_ok r' \<and>
    ((\<exists>bs. x = RdRet bs \<and> bs = line_of (unread r) \<and> unread r = bs @ unread r')
     \<or> (\<exists>k. x = RdRaise (LimitOverrun k) \<and> unread r' = unread r \<and> rd_limit r \<le> int k \<and> k \<le> length (unread r)
          \<and> newline \<notin> set (take k (unread r)))
     \<or> stopped r r' x)"
  using assms
proof (induction r arbitrary: r' x rule: readline.induct)
  case (1 r)
  show ?case
  proof (cases "find_newline r")
    case (Some k)
    obtain r1 bs where t: "take_bytes (Suc k) r = (r1, bs)" by fastforce
    then have "r' = r1" "x = RdRet bs" using "1.prems"(1) Some by simp_all
    then show ?thesis
      using take_bytes_result [OF t "1.prems"(2)] find_newline_Some [OF Some] unfolding unread_def by blast
  next
    case None
    note nl = find_newline_None [OF None]
    show ?thesis
    proof (cases "rd_eof r")
      case True
      obtain r1 bs where t: "take_bytes (buffer_available r) r = (r1, bs)" by fastforce
      then have "r' = r1" "x = RdRet bs" using "1.prems"(1) None True by simp_all
      then show ?thesis using take_all_line [OF True "1.prems"(2) nl t] by blast
    next
      case noeof: False
      show ?thesis
      proof (cases "rd_limit r \<le> int (buffer_available r)")
        case True
        then have "r' = r" "x = RdRaise (LimitOverrun (buffer_available r))"
          using "1.prems"(1) None noeof by (auto simp only: readline.simps [of r] option.case if_False if_True prod.inject)
        then show ?thesis using "1.prems"(2) nl True by (auto simp: unread_def)
      next
        case lim: False
        obtain r1 y where a: "append_next_chunk r = (r1, y)" by fastforce
        consider "y = RdRet True" | "y = RdRet False" | "\<forall>b. y \<noteq> RdRet b" by (cases y) auto
        then show ?thesis
        proof cases
          case 1
          have f: "readline r1 = (r', x)" using "1.prems"(1) None noeof lim a 1 by simp
          note m = append_more [OF a [unfolded 1] "1.prems"(2) noeof]
          note ih = "1.IH" [OF None noeof lim a [symmetric] 1 _ f m(1)]
          from ih show ?thesis unfolding m(2,5) using stopped_trans [OF m(2,3)] by blast
        next
          case 2
          obtain r2 bs where t: "take_bytes (buffer_available r1) r1 = (r2, bs)" by fastforce
          then have "r' = r2" "x = RdRet bs" using "1.prems"(1) None noeof lim a 2 by simp_all
          note e = append_eof [OF a [unfolded 2] "1.prems"(2) noeof]
          have "newline \<notin> set (buffered r1)" "unread r1 = unread r" using e(2,3,4) nl by (simp_all add: eof_unread)
          with \<open>r' = r2\<close> \<open>x = RdRet bs\<close> show ?thesis using take_all_line [OF e(2,1) _ t] by metis
        next
          case 3
          note p = append_stop [OF a "1.prems"(2) noeof 3]
          have "r' = r1 \<and> stopped r r' x" using "1.prems"(1) None noeof lim a p(2) by (cases y) (auto simp: stopped_def)
          then show ?thesis using p(1) by auto
        qed
      qed
    qed
  qed
qed

section \<open>Operations on the stream\<close>

lemma consume_all: "rd_eof r \<Longrightarrow> rd_ok (r\<lparr>rd_buffer := [], rd_pos := 0\<rparr>) \<and> unread (r\<lparr>rd_buffer := [], rd_pos := 0\<rparr>) = []"
  by (simp add: rd_ok_def unread_def buffered_def)

lemma rd_read_result:
  assumes "rd_read n r = (r', x)" "rd_ok r"
  shows "rd_ok r' \<and>
    ((\<exists>bs. x = RdRet bs \<and> unread r = bs @ unread r' \<and> (0 \<le> n \<longrightarrow> int (length bs) \<le> n)
        \<and> (n < 0 \<longrightarrow> bs = unread r) \<and> (bs = [] \<longrightarrow> n = 0 \<or> unread r = []))
     \<or> stopped r r' x)"
proof -
  consider "n = 0" | "n < 0" | "0 < n" "buffer_available r \<noteq> 0" | "0 < n" "buffer_available r = 0" "rd_eof r"
    | "0 < n" "buffer_available r = 0" "\<not> rd_eof r" by linarith
  then show ?thesis
  proof cases
    case 1
    then show ?thesis using assms by (auto simp: rd_read_def)
  next
    case 2
    obtain r1 y where l: "read_loop r = (r1, y)" by fastforce
    from read_loop_result [OF l assms(2)] show ?thesis
    proof (elim conjE disjE)
      assume y: "y = RdRet ()" "buffered r1 = unread r" "rd_eof r1" "rd_ends r"
      then have "r' = r1\<lparr>rd_buffer := [], rd_pos := 0\<rparr>" "x = RdRet (unread r)"
        using assms(1) 2 l by (simp_all add: rd_read_def buffered_def del: read_loop.simps)
      then show ?thesis using consume_all [OF y(3)] 2 by auto
    next
      assume s: "rd_ok r1" "stopped r r1 y"
      have "r' = r1 \<and> stopped r r' x"
        using assms(1) 2 l s(2) by (cases y) (auto simp: rd_read_def stopped_def simp del: read_loop.simps)
      then show ?thesis using s(1) by auto
    qed
  next
    case 3
    let ?m = "min (nat n) (buffer_available r)"
    obtain r1 bs where t: "take_bytes ?m r = (r1, bs)" by fastforce
    then have e: "r' = r1" "x = RdRet bs" using assms(1) 3 by (simp_all add: rd_read_def)
    have "length bs = ?m" using take_bytes_result [OF t assms(2)] by simp
    then show ?thesis using e take_bytes_result [OF t assms(2)] 3 by auto
  next
    case 4
    then show ?thesis using assms by (auto simp: rd_read_def eof_unread)
  next
    case 5
    obtain r1 y where a: "append_next_chunk r = (r1, y)" by fastforce
    show ?thesis
    proof (cases "\<forall>b. y \<noteq> RdRet b")
      case True
      note p = append_stop [OF a assms(2) 5(3) True]
      have "r' = r1 \<and> stopped r r' x" using assms(1) 5 a p(2) by (cases y) (auto simp: rd_read_def stopped_def)
      then show ?thesis using p(1) by auto
    next
      case False
      then obtain b where y: "y = RdRet b" by blast
      let ?m = "min (nat n) (buffer_available r1)"
      obtain r2 bs where t: "take_bytes ?m r1 = (r2, bs)" by fastforce
      then have e: "r' = r2" "x = RdRet bs" using assms(1) 5 a y by (simp_all add: rd_read_def)
      have u: "rd_ok r1 \<and> unread r1 = unread r \<and> (buffer_available r1 = 0 \<longrightarrow> unread r = [])"
      proof (cases b)
        case True
        then have "append_next_chunk r = (r1, RdRet True)" using a y by simp
        from append_more [OF this assms(2) 5(3)] show ?thesis by auto
      next
        case False
        then have "append_next_chunk r = (r1, RdRet False)" using a y by simp
        note f = append_eof [OF this assms(2) 5(3)]
        then show ?thesis using eof_unread [OF f(2)] by (metis buffered_Nil)
      qed
      note tb = take_bytes_result [OF t conjunct1 [OF u]]
      have len: "length bs = ?m" using tb by simp
      have "int (length bs) \<le> n" using len 5(1) by simp
      moreover have "bs = [] \<longrightarrow> unread r = []" using len 5(1) u by auto
      moreover have "unread r = bs @ unread r2" using tb u by metis
      moreover have "\<not> n < 0" using 5(1) by simp
      ultimately show ?thesis using e(2) conjunct1 [OF tb] unfolding e(1) by (intro conjI disjI1 exI [of _ bs]) (assumption | blast)+
    qed
  qed
qed

text \<open>What \<open>readexactly\<close> and \<open>readinto\<close> find after filling the buffer.\<close>

lemma filled:
  assumes "(if buffer_available r < n \<and> \<not> rd_eof r then fill_buffer n r else (r, RdRet ())) = (r1, y)" "rd_ok r"
  shows "rd_ok r1 \<and>
    (y = RdRet () \<and> unread r1 = unread r \<and> (n \<le> buffer_available r1 \<or> rd_eof r1 \<and> unread r1 = buffered r1) \<or> stopped r r1 y)"
proof (cases "buffer_available r < n \<and> \<not> rd_eof r")
  case True
  then have f: "fill_buffer n r = (r1, y)" using assms(1) by (simp del: fill_buffer.simps)
  then show ?thesis using fill_buffer_result [OF f assms(2)] eof_unread by blast
next
  case False
  then have "r1 = r" "y = RdRet ()" using assms(1) by (auto simp del: fill_buffer.simps)
  then show ?thesis using False assms(2) eof_unread by auto
qed

lemma readexactly_result:
  assumes "readexactly n r = (r', x)" "rd_ok r" "0 \<le> n"
  shows "rd_ok r' \<and>
    ((\<exists>bs. x = RdRet bs \<and> unread r = bs @ unread r' \<and> int (length bs) = n)
     \<or> (\<exists>bs. x = RdRaise (IncompleteRead bs n) \<and> bs = unread r \<and> int (length bs) < n \<and> unread r' = [])
     \<or> stopped r r' x)"
proof (cases "n = 0")
  case True
  then show ?thesis using assms by (auto simp: readexactly_def)
next
  case False
  have c: "(int (buffer_available r) < n \<and> \<not> rd_eof r) = (buffer_available r < nat n \<and> \<not> rd_eof r)" using assms(3) by auto
  obtain r1 y where f: "(if buffer_available r < nat n \<and> \<not> rd_eof r then fill_buffer (nat n) r else (r, RdRet ())) = (r1, y)" by fastforce
  have e: "readexactly n r = (case (r1, y) of
           (r1, RdRet _) \<Rightarrow>
             if int (buffer_available r1) < n
             then (r1\<lparr>rd_buffer := [], rd_pos := 0\<rparr>, RdRaise (IncompleteRead (drop (rd_pos r1) (rd_buffer r1)) n))
             else (case take_bytes (nat n) r1 of (r2, bs) \<Rightarrow> (r2, RdRet bs))
         | (r1, RdRaise e) \<Rightarrow> (r1, RdRaise e)
         | (r1, RdBlock) \<Rightarrow> (r1, RdBlock))"
    unfolding readexactly_def c f using False assms(3) by simp
  from filled [OF f assms(2)] show ?thesis
  proof (elim conjE disjE)
    assume s: "rd_ok r1" "stopped r r1 y"
    have "r' = r1 \<and> stopped r r' x" using assms(1) e s(2) by (cases y) (auto simp: stopped_def)
    then show ?thesis using s(1) by auto
  next
    assume y: "rd_ok r1" "y = RdRet ()" "unread r1 = unread r" "nat n \<le> buffer_available r1"
    obtain r2 bs where t: "take_bytes (nat n) r1 = (r2, bs)" by fastforce
    have "\<not> int (buffer_available r1) < n" using y(4) by linarith
    then have "r' = r2" "x = RdRet bs" using assms(1) e y t by simp_all
    then show ?thesis using take_bytes_result [OF t y(1)] y(3,4) assms(3) by auto
  next
    assume y: "rd_ok r1" "y = RdRet ()" "unread r1 = unread r" "rd_eof r1" "unread r1 = buffered r1"
    show ?thesis
    proof (cases "int (buffer_available r1) < n")
      case True
      then have "r' = r1\<lparr>rd_buffer := [], rd_pos := 0\<rparr>" "x = RdRaise (IncompleteRead (buffered r1) n)"
        using assms(1) e y by (simp_all add: buffered_def)
      then show ?thesis using consume_all [OF y(4)] y(3,5) True by (metis length_buffered)
    next
      case False
      obtain r2 bs where t: "take_bytes (nat n) r1 = (r2, bs)" by fastforce
      have "r' = r2" "x = RdRet bs" using assms(1) e y t False by simp_all
      then show ?thesis using take_bytes_result [OF t y(1)] y(3) False assms(3) by auto
    qed
  qed
qed

lemma readinto_result:
  assumes "readinto view r = (r', view', x)" "rd_ok r"
  shows "rd_ok r' \<and>
    ((\<exists>k. x = RdRet k \<and> k = min (length view) (length (unread r)) \<and> unread r = take k view' @ unread r' \<and> drop k view' = drop k view)
     \<or> view' = view \<and> stopped r r' x)"
proof (cases "view = [] \<or> rd_eof r \<and> buffer_available r = 0")
  case True
  then have e: "readinto view r = (r, view, RdRet 0)" by (auto simp: readinto_def)
  have "view = [] \<or> unread r = []" using True by (auto simp: eof_unread)
  then have "min (length view) (length (unread r)) = 0" by auto
  then show ?thesis using assms e by auto
next
  case False
  obtain r1 y where f: "(if buffer_available r < length view \<and> \<not> rd_eof r then fill_buffer (length view) r else (r, RdRet ())) = (r1, y)" by fastforce
  have e: "readinto view r = (case (r1, y) of
           (r1, RdRet _) \<Rightarrow> (case copy_loop (length view) view 0 r1 of (r2, view2, tot) \<Rightarrow> (r2, view2, RdRet tot))
         | (r1, RdRaise e) \<Rightarrow> (r1, view, RdRaise e)
         | (r1, RdBlock) \<Rightarrow> (r1, view, RdBlock))"
    unfolding readinto_def f using False by (simp only: if_False de_Morgan_disj)
  note fr = filled [OF f assms(2)]
  show ?thesis
  proof (cases "y = RdRet ()")
    case False
    then have s: "rd_ok r1" "stopped r r1 y" using fr by auto
    have "r' = r1 \<and> view' = view \<and> stopped r r' x"
      using assms(1) e s(2) by (cases y) (auto simp: stopped_def simp del: copy_loop.simps)
    then show ?thesis using s(1) by auto
  next
    case True
    obtain r2 v2 k where l: "copy_loop (length view) view 0 r1 = (r2, v2, k)" using prod_cases3 by blast
    have x: "r' = r2" "view' = v2" "x = RdRet k" using assms(1) e True l by (simp_all del: copy_loop.simps)
    have y: "rd_ok r1" "unread r1 = unread r" "length view \<le> buffer_available r1 \<or> unread r1 = buffered r1"
      using fr True by (auto simp: stopped_def)
    have "min (length view) (buffer_available r1) = min (length view) (length (unread r))"
      using y(2,3) by (metis length_buffered length_append min_absorb1 le_add1 le_trans unread_def)
    then show ?thesis using copy_loop_result [OF y(1) l] unfolding x y(2) by blast
  qed
qed

text \<open>The receive buffer provides such a source: the items that successive \<open>take_next\<close> calls find in the
  ready queue, each taken once and in order.\<close>

definition item_of :: "'b list delivery \<Rightarrow> pyexn + 'b taken" where
  "item_of d =
     (case d_exception d of
        Some e \<Rightarrow> Inl e
      | None \<Rightarrow> (case d_value d of
                   None \<Rightarrow> Inr EndOfStream
                 | Some chunk \<Rightarrow> Inr (if chunk = [] then EndOfStream else Chunk (d_index d) chunk)))"

definition ready_items :: "'b recvbuf \<Rightarrow> (pyexn + 'b taken) list" where
  "ready_items b = (if rv_pressure b then [Inr Pressure] else []) @ map item_of (rv_ready b)"

lemma take_next_ready_items: "take_next_ready b = (b', Some x) \<Longrightarrow> ready_items b = x # ready_items b'"
  by (auto simp: take_next_ready_def ready_items_def item_of_def Let_def split: if_splits list.splits option.splits)

section \<open>Properties\<close>

text \<open>C19: No byte of a stream is lost, repeated or reordered by the reader.  Over any source and any chunk
  boundaries, what an operation returns, followed by what is still unread afterwards, is what was unread
  before; a failed operation consumes nothing except \<open>readexactly\<close> at the end of the stream, which hands
  out the remaining bytes with its error; when the receive buffer raises or nothing has arrived yet, all
  received bytes are still buffered.\<close>

theorem reader_lossless:
  assumes "rd_ok r"
  shows "(case rd_read n r of
       (r', RdRet bs) \<Rightarrow> rd_ok r' \<and> bs @ unread r' = unread r
     | (r', RdRaise e) \<Rightarrow> rd_ok r' \<and> buffered r' = unread r
     | (r', RdBlock) \<Rightarrow> rd_ok r' \<and> buffered r' = unread r)
   \<and> (case readexactly n r of
       (r', RdRet bs) \<Rightarrow> rd_ok r' \<and> bs @ unread r' = unread r
     | (r', RdRaise (IncompleteRead bs m)) \<Rightarrow> rd_ok r' \<and> bs @ unread r' = unread r
     | (r', RdRaise NegativeSize) \<Rightarrow> r' = r
     | (r', _) \<Rightarrow> rd_ok r' \<and> buffered r' = unread r)
   \<and> (case readline r of
       (r', RdRet bs) \<Rightarrow> rd_ok r' \<and> bs @ unread r' = unread r
     | (r', RdRaise (LimitOverrun k)) \<Rightarrow> rd_ok r' \<and> unread r' = unread r
     | (r', _) \<Rightarrow> rd_ok r' \<and> buffered r' = unread r)
   \<and> (case readinto view r of
       (r', view', RdRet k) \<Rightarrow> rd_ok r' \<and> take k view' @ unread r' = unread r \<and> drop k view' = drop k view
     | (r', view', _) \<Rightarrow> rd_ok r' \<and> view' = view \<and> buffered r' = unread r)"
proof (intro conjI)
  obtain r' x where e: "rd_read n r = (r', x)" by fastforce
  show "case rd_read n r of
       (r', RdRet bs) \<Rightarrow> rd_ok r' \<and> bs @ unread r' = unread r
     | (r', RdRaise e) \<Rightarrow> rd_ok r' \<and> buffered r' = unread r
     | (r', RdBlock) \<Rightarrow> rd_ok r' \<and> buffered r' = unread r"
    using rd_read_result [OF e assms] e by (auto simp: stopped_def)
next
  obtain r' x where e: "readexactly n r = (r', x)" by fastforce
  show "case readexactly n r of
       (r', RdRet bs) \<Rightarrow> rd_ok r' \<and> bs @ unread r' = unread r
     | (r', RdRaise (IncompleteRead bs m)) \<Rightarrow> rd_ok r' \<and> bs @ unread r' = unread r
     | (r', RdRaise NegativeSize) \<Rightarrow> r' = r
     | (r', _) \<Rightarrow> rd_ok r' \<and> buffered r' = unread r"
  proof (cases "0 \<le> n")
    case True
    then show ?thesis using readexactly_result [OF e assms True] e by (auto simp: stopped_def)
  next
    case False
    then show ?thesis by (simp add: readexactly_def)
  qed
next
  obtain r' x where e: "readline r = (r', x)" by fastforce
  show "case readline r of
       (r', RdRet bs) \<Rightarrow> rd_ok r' \<and> bs @ unread r' = unread r
     | (r', RdRaise (LimitOverrun k)) \<Rightarrow> rd_ok r' \<and> unread r' = unread r
     | (r', _) \<Rightarrow> rd_ok r' \<and> buffered r' = unread r"
    unfolding e using readline_result [OF e assms] by (auto simp: stopped_def simp del: readline.simps)
next
  obtain r' v' x where e: "readinto view r = (r', v', x)" using prod_cases3 by blast
  show "case readinto view r of
       (r', view', RdRet k) \<Rightarrow> rd_ok r' \<and> take k view' @ unread r' = unread r \<and> drop k view' = drop k view
     | (r', view', _) \<Rightarrow> rd_ok r' \<and> view' = view \<and> buffered r' = unread r"
    unfolding e using readinto_result [OF e assms] by (auto simp: stopped_def)
qed

text \<open>C20: What the operations return when the stream ends properly, whatever its chunks: \<open>read(-1)\<close> everything;
  \<open>read(n)\<close> at most \<open>n\<close> bytes and nothing only at the end; \<open>readexactly(n)\<close> exactly the first \<open>n\<close> bytes, or an
  error that carries all that is left when it is shorter; \<open>readline\<close> the bytes up to and including the first
  newline, all of them when there is none, or an overrun error after at least \<open>limit\<close> bytes without a
  newline; \<open>readinto\<close> fills the view as far as the stream goes.  In particular none of them blocks.\<close>

theorem reader_returns:
  assumes "rd_ok r" and "rd_ends r"
  shows "snd (rd_read (-1) r) = RdRet (unread r)
    \<and> (\<forall>n > 0. \<exists>bs. snd (rd_read n r) = RdRet bs \<and> prefix bs (unread r) \<and> int (length bs) \<le> n \<and> (bs = [] \<longrightarrow> unread r = []))
    \<and> (\<forall>n \<ge> 0. snd (readexactly n r) =
         (if n \<le> int (length (unread r)) then RdRet (take (nat n) (unread r)) else RdRaise (IncompleteRead (unread r) n)))
    \<and> (snd (readline r) = RdRet (line_of (unread r))
        \<or> (\<exists>k. snd (readline r) = RdRaise (LimitOverrun k) \<and> rd_limit r \<le> int k \<and> k \<le> length (unread r) \<and> newline \<notin> set (take k (unread r))))
    \<and> snd (snd (readinto view r)) = RdRet (min (length view) (length (unread r)))"
proof (intro conjI allI impI)
  have "rd_read (-1) r = (fst (rd_read (-1) r), snd (rd_read (-1) r))" by simp
  from rd_read_result [OF this assms(1)] assms(2) show "snd (rd_read (-1) r) = RdRet (unread r)"
    by (auto simp: stopped_def)
next
  fix n :: int
  assume n: "0 < n"
  have "rd_read n r = (fst (rd_read n r), snd (rd_read n r))" by simp
  from rd_read_result [OF this assms(1)] assms(2) n
  obtain bs where "snd (rd_read n r) = RdRet bs" "unread r = bs @ unread (fst (rd_read n r))" "int (length bs) \<le> n" "bs = [] \<longrightarrow> unread r = []"
    by (auto simp: stopped_def)
  then show "\<exists>bs. snd (rd_read n r) = RdRet bs \<and> prefix bs (unread r) \<and> int (length bs) \<le> n \<and> (bs = [] \<longrightarrow> unread r = [])"
    by (intro exI [of _ bs] conjI) (assumption | metis prefixI)+
next
  fix n :: int
  assume n: "0 \<le> n"
  have "readexactly n r = (fst (readexactly n r), snd (readexactly n r))" by simp
  from readexactly_result [OF this assms(1) n] assms(2)
  consider bs where "snd (readexactly n r) = RdRet bs" "unread r = bs @ unread (fst (readexactly n r))" "int (length bs) = n"
    | "snd (readexactly n r) = RdRaise (IncompleteRead (unread r) n)" "int (length (unread r)) < n" by (auto simp: stopped_def)
  then show "snd (readexactly n r) =
         (if n \<le> int (length (unread r)) then RdRet (take (nat n) (unread r)) else RdRaise (IncompleteRead (unread r) n))"
  proof cases
    case 1
    then have "take (nat n) (unread r) = bs" "n \<le> int (length (unread r))" by (metis append_eq_conv_conj nat_int, metis length_append of_nat_le_iff le_add1)
    then show ?thesis using 1(1) by simp
  qed simp
next
  have "readline r = (fst (readline r), snd (readline r))" by simp
  from readline_result [OF this assms(1)] assms(2)
  show "snd (readline r) = RdRet (line_of (unread r))
        \<or> (\<exists>k. snd (readline r) = RdRaise (LimitOverrun k) \<and> rd_limit r \<le> int k \<and> k \<le> length (unread r) \<and> newline \<notin> set (take k (unread r)))"
    unfolding stopped_def by blast
next
  have "readinto view r = (fst (readinto view r), fst (snd (readinto view r)), snd (snd (readinto view r)))" by simp
  from readinto_result [OF this assms(1)] assms(2)
  show "snd (snd (readinto view r)) = RdRet (min (length view) (length (unread r)))"
    unfolding stopped_def by blast
qed

text \<open>Two lines in three chunks, with a pressure marker in between.\<close>

definition demo_reader :: reader where
  "demo_reader = reader_init 64
     [Inr (Chunk 0 [104, 105]), Inr Pressure, Inr (Chunk 1 [10, 111]), Inr (Chunk 2 [107]), Inr EndOfStream]"

lemma demo_reader_facts: "rd_ok demo_reader" "rd_ends demo_reader" "unread demo_reader = [104, 105, 10, 111, 107]"
  by (simp_all add: demo_reader_def reader_init_def rd_ok_def rd_ends_def unread_def buffered_def RECV_MANY_BUFFER_PRESSURE_def)

theorem reader_lossless_witness:
  "fst (snd (readinto [0, 0] demo_reader)) = [104, 105] \<and> unread (fst (readinto [0, 0] demo_reader)) = [10, 111, 107]"
proof -
  obtain r' v' x where e: "readinto [0, 0] demo_reader = (r', v', x)" using prod_cases3 by blast
  have k: "x = RdRet 2" "length v' = 2"
    using e by (simp_all add: demo_reader_def reader_init_def readinto_def buffer_available_def append_next_chunk_def
        RECV_MANY_BUFFER_PRESSURE_def take_into_def maybe_compact_buffer_def COMPACT_PREFIX_def Let_def) auto
  have "take 2 v' @ unread r' = unread demo_reader"
    using reader_lossless [OF demo_reader_facts(1), of 0 "[0, 0]"] e k(1) by (auto simp del: readline.simps)
  then have u: "v' @ unread r' = [104, 105, 10, 111, 107]" using k(2) demo_reader_facts(3) by simp
  then show ?thesis using e k(2) by (auto simp: length_Suc_conv numeral_2_eq_2)
qed

theorem reader_returns_witness:
  "snd (rd_read (-1) demo_reader) = RdRet [104, 105, 10, 111, 107] \<and> snd (readexactly 3 demo_reader) = RdRet [104, 105, 10]
   \<and> snd (readexactly 9 demo_reader) = RdRaise (IncompleteRead [104, 105, 10, 111, 107] 9)"
  using reader_returns [OF demo_reader_facts(1,2), of "[]"] unfolding demo_reader_facts(3) by simp

end
