(* ===== verification/Send_Buffer.thy ===== *)
theory Send_Buffer
  imports Tealet_Prelude
begin

text \<open>
  \<open>SendBuffer\<close> of \<open>tealetio/io_buffers.py\<close>.  The IO manager is outside and given by \<open>io_ops\<close>: what a call
  raises, if anything, and which calls reach the buffer while it runs (for \<open>sock_send_nowait\<close> one answer per
  call; after the last one calls succeed undisturbed).  A \<open>sock_sendall_cb\<close> leg that was accepted is live until its completion, which is a
  step of its own (an eager completion is the completion directly after the submit).  \<open>sb_out\<close> lists the
  bytes detached from the buffer in order, \<open>sb_written\<close> the bytes accepted by \<open>write\<close>, \<open>sb_live\<close> counts live
  legs, and \<open>sb_shutdowns\<close>, \<open>sb_sock_closes\<close>, \<open>sb_notified\<close> count the calls on the socket and the condition;
  none of these is read by an operation.
\<close>

section \<open>State\<close>

record 'b sendbuf =
  sb_pending :: "'b list option"
  sb_pending_bytes :: nat
  sb_in_flight_bytes :: nat
  sb_active :: bool
  sb_send_error :: "pyexn option"
  sb_closed :: bool
  sb_eof_pending :: bool
  sb_write_eof_done :: bool
  sb_close_when_idle :: bool
  sb_high_water :: int
  sb_low_water :: int
  sb_min_write :: nat
  sb_fileno_open :: bool
  sb_out :: "'b list"
  sb_written :: "'b list"
  sb_live :: nat
  sb_shutdowns :: nat
  sb_sock_closes :: nat
  sb_notified :: nat

text \<open>Calls that other tasks and threads make on the buffer while a submit is in progress.  The submit runs
  outside the lock; the buffer is active, so none of these calls starts a leg of its own.\<close>

datatype 'b during = IWrite "'b list" | IEof | IClose | ILimits "int option" "int option" | IArm | IForget "pyexn option"

record 'b io_ops =
  io_sendall_cb :: "'b list \<Rightarrow> pyexn option \<times> 'b during list"
  io_send_nowait :: "(pyexn option \<times> 'b during list) list"
  io_shutdown_nowait :: "pyexn option"

type_synonym 'b sres = "'b sendbuf \<times> pyexn option"

definition notify_all :: "'b sendbuf \<Rightarrow> 'b sendbuf" where
  "notify_all s = s\<lparr>sb_notified := Suc (sb_notified s)\<rparr>"

definition pending_list :: "'b sendbuf \<Rightarrow> 'b list" where
  "pending_list s = (case sb_pending s of None \<Rightarrow> [] | Some p \<Rightarrow> p)"

section \<open>Backlog\<close>

definition write_buffer_limits :: "int option \<Rightarrow> int option \<Rightarrow> pyexn + int \<times> int" where
  "write_buffer_limits high low =
     (let h = (case high of Some h \<Rightarrow> h | None \<Rightarrow> (case low of None \<Rightarrow> 64 * 1024 | Some l \<Rightarrow> 4 * l));
          l = (case low of Some l \<Rightarrow> l | None \<Rightarrow> h div 4)
      in if h < l \<or> l < 0 then Inl ValueErr else Inr (h, l))"

definition set_write_buffer_limits :: "int option \<Rightarrow> int option \<Rightarrow> 'b sendbuf \<Rightarrow> 'b sres" where
  "set_write_buffer_limits high low s =
     (case write_buffer_limits high low of
        Inl e \<Rightarrow> (s, Some e)
      | Inr (h, l) \<Rightarrow> (notify_all (s\<lparr>sb_high_water := h, sb_low_water := l\<rparr>), None))"

definition append_pending :: "'b list \<Rightarrow> 'b sendbuf \<Rightarrow> 'b sendbuf" where
  "append_pending data s =
     (case sb_pending s of
        None \<Rightarrow> s\<lparr>sb_pending := Some data, sb_pending_bytes := length data\<rparr>
      | Some pending \<Rightarrow> s\<lparr>sb_pending := Some (pending @ data), sb_pending_bytes := length (pending @ data)\<rparr>)"

definition take_pending :: "'b sendbuf \<Rightarrow> 'b sendbuf \<times> 'b list option" where
  "take_pending s =
     (case sb_pending s of
        None \<Rightarrow> (s\<lparr>sb_pending := None, sb_pending_bytes := 0\<rparr>, None)
      | Some pending \<Rightarrow>
          if pending = [] then (s\<lparr>sb_pending := None, sb_pending_bytes := 0\<rparr>, None)
          else (s\<lparr>sb_pending := None, sb_pending_bytes := 0, sb_in_flight_bytes := length pending\<rparr>, Some pending))"

definition reserve_leg :: "bool \<Rightarrow> 'b sendbuf \<Rightarrow> 'b sendbuf \<times> 'b list option" where
  "reserve_leg force s =
     (if sb_active s \<or> sb_send_error s \<noteq> None then (s, None)
      else if pending_list s = [] then (s, None)
      else if \<not> force \<and> sb_pending_bytes s < sb_min_write s then (s, None)
      else take_pending (s\<lparr>sb_active := True\<rparr>))"

definition prepend_pending :: "'b list \<Rightarrow> 'b sendbuf \<Rightarrow> 'b sendbuf" where
  "prepend_pending chunk s =
     (case sb_pending s of
        None \<Rightarrow> s\<lparr>sb_pending := Some chunk, sb_pending_bytes := length chunk\<rparr>
      | Some pending \<Rightarrow> s\<lparr>sb_pending := Some (chunk @ pending), sb_pending_bytes := length (chunk @ pending)\<rparr>)"

definition maybe_shutdown :: "'b io_ops \<Rightarrow> 'b sendbuf \<Rightarrow> 'b sres" where
  "maybe_shutdown io s =
     (if sb_write_eof_done s \<or> \<not> sb_eof_pending s then (s, None)
      else if sb_active s \<or> sb_pending_bytes s \<noteq> 0 \<or> sb_in_flight_bytes s \<noteq> 0 then (s, None)
      else
        (let s1 = s\<lparr>sb_write_eof_done := True, sb_shutdowns := Suc (sb_shutdowns s)\<rparr>
         in case io_shutdown_nowait io of None \<Rightarrow> (s1, None) | Some e \<Rightarrow> (s1\<lparr>sb_send_error := Some e\<rparr>, Some e)))"

definition sock_close :: "bool \<Rightarrow> 'b sendbuf \<Rightarrow> 'b sendbuf" where
  "sock_close close_now s =
     (if close_now \<and> sb_fileno_open s then s\<lparr>sb_sock_closes := Suc (sb_sock_closes s), sb_fileno_open := False\<rparr> else s)"

definition on_fire_forget_error :: "pyexn option \<Rightarrow> 'b sendbuf \<Rightarrow> 'b sendbuf" where
  "on_fire_forget_error exception s =
     (case exception of
        None \<Rightarrow> s
      | Some e \<Rightarrow>
          sock_close True (notify_all (s\<lparr>sb_send_error := (case sb_send_error s of None \<Rightarrow> Some e | Some x \<Rightarrow> Some x),
             sb_closed := True, sb_active := False, sb_in_flight_bytes := 0\<rparr>)))"

definition sb_close :: "'b sendbuf \<Rightarrow> 'b sendbuf" where
  "sb_close s = (if sb_closed s then s else notify_all (s\<lparr>sb_closed := True\<rparr>))"

definition arm_close_when_idle :: "'b sendbuf \<Rightarrow> 'b sendbuf \<times> (pyexn + bool)" where
  "arm_close_when_idle s =
     (case sb_send_error s of
        Some e \<Rightarrow> (s, Inl e)
      | None \<Rightarrow> if \<not> sb_active s \<and> pending_list s = [] then (s, Inr True)
                else (s\<lparr>sb_close_when_idle := True\<rparr>, Inr False))"

section \<open>Calls during a submit\<close>

fun during_one :: "'b during \<Rightarrow> 'b sendbuf \<Rightarrow> 'b sendbuf" where
  "during_one (IWrite data) s =
     (if data = [] \<or> sb_send_error s \<noteq> None \<or> sb_closed s \<or> sb_eof_pending s then s
      else append_pending data (s\<lparr>sb_written := sb_written s @ data\<rparr>))"
| "during_one IEof s =
     (if sb_closed s \<or> sb_send_error s \<noteq> None \<or> sb_eof_pending s then s else notify_all (s\<lparr>sb_eof_pending := True\<rparr>))"
| "during_one IClose s = sb_close s"
| "during_one (ILimits high low) s = fst (set_write_buffer_limits high low s)"
| "during_one IArm s = fst (arm_close_when_idle s)"
| "during_one (IForget e) s = on_fire_forget_error e s"

definition during :: "'b during list \<Rightarrow> 'b sendbuf \<Rightarrow> 'b sendbuf" where
  "during ds s = fold during_one ds s"

section \<open>Legs\<close>

text \<open>A submit that raised: the chunk goes back in front of the backlog.\<close>

definition submit_failed :: "'b list \<Rightarrow> pyexn \<Rightarrow> 'b sendbuf \<Rightarrow> 'b sres" where
  "submit_failed chunk e s =
     (notify_all ((prepend_pending chunk s)\<lparr>sb_active := False, sb_in_flight_bytes := 0, sb_send_error := Some e\<rparr>), Some e)"

text \<open>The end of a leg with no successor: idle, shut down if EOF is pending, close if that is armed.  An
  exception of the shutdown skips the rest.\<close>

definition leg_idle :: "'b io_ops \<Rightarrow> 'b sendbuf \<Rightarrow> 'b sres" where
  "leg_idle io s =
     (case maybe_shutdown io (s\<lparr>sb_active := False\<rparr>) of
        (s1, Some e) \<Rightarrow> (notify_all s1, Some e)
      | (s1, None) \<Rightarrow> (sock_close (sb_close_when_idle s1) (notify_all (s1\<lparr>sb_close_when_idle := False\<rparr>)), None))"

text \<open>\<open>_submit_leg(chunk, wait=False)\<close>; the second argument answers the calls of \<open>sock_send_nowait\<close>.\<close>

definition answer :: "(pyexn option \<times> 'b during list) list \<Rightarrow> pyexn option \<times> 'b during list" where
  "answer outs = (case outs of [] \<Rightarrow> (None, []) | a # _ \<Rightarrow> a)"

function submit_nowait :: "'b io_ops \<Rightarrow> (pyexn option \<times> 'b during list) list \<Rightarrow> 'b list \<Rightarrow> 'b sendbuf \<Rightarrow> 'b sres" where
  "submit_nowait io outs chunk s =
     (let s0 = during (snd (answer outs)) s in
      case fst (answer outs) of
        Some e \<Rightarrow> submit_failed chunk e s0
      | None \<Rightarrow>
          (let s1 = s0\<lparr>sb_out := sb_out s0 @ chunk\<rparr> in
           if sb_send_error s1 \<noteq> None then (notify_all (s1\<lparr>sb_active := False, sb_in_flight_bytes := 0\<rparr>), None)
           else (case take_pending (s1\<lparr>sb_in_flight_bytes := 0\<rparr>) of
                   (s2, None) \<Rightarrow> leg_idle io s2
                 | (s2, Some next_chunk) \<Rightarrow> submit_nowait io (tl outs) next_chunk (notify_all s2))))"
  by pat_completeness auto
termination
  by (relation "measures [\<lambda>(io, outs, chunk, s). length outs, \<lambda>(io, outs, chunk, s). length (pending_list s)]")
    (auto simp: take_pending_def pending_list_def notify_all_def answer_def during_def split: option.splits if_splits list.splits)

declare submit_nowait.simps [simp del]

text \<open>\<open>_submit_leg(chunk)\<close>, up to the submit.\<close>

definition submit_wait :: "'b io_ops \<Rightarrow> 'b list \<Rightarrow> 'b sendbuf \<Rightarrow> 'b sres" where
  "submit_wait io chunk s =
     (let s0 = during (snd (io_sendall_cb io chunk)) s in
      case fst (io_sendall_cb io chunk) of
        Some e \<Rightarrow> submit_failed chunk e s0
      | None \<Rightarrow> (s0\<lparr>sb_out := sb_out s0 @ chunk, sb_live := Suc (sb_live s0)\<rparr>, None))"

text \<open>\<open>_on_leg_complete\<close>.\<close>

definition on_leg_complete :: "'b io_ops \<Rightarrow> pyexn option \<Rightarrow> 'b sendbuf \<Rightarrow> 'b sres" where
  "on_leg_complete io exception s =
     (let s1 = s\<lparr>sb_in_flight_bytes := 0, sb_send_error := (case exception of None \<Rightarrow> sb_send_error s | Some e \<Rightarrow> Some e)\<rparr> in
      if sb_send_error s1 = None
      then (case take_pending s1 of
              (s2, None) \<Rightarrow> leg_idle io s2
            | (s2, Some next_chunk) \<Rightarrow> submit_wait io next_chunk (notify_all s2))
      else leg_idle io s1)"

text \<open>\<open>on_done\<close>: an exception of the completion is recorded for the buffer's callers.\<close>

definition on_done :: "'b io_ops \<Rightarrow> pyexn option \<Rightarrow> 'b sendbuf \<Rightarrow> 'b sres" where
  "on_done io exception s =
     (case on_leg_complete io exception (s\<lparr>sb_live := sb_live s - 1\<rparr>) of
        (s1, None) \<Rightarrow> (s1, None)
      | (s1, Some e) \<Rightarrow>
          (let s2 = s1\<lparr>sb_send_error := (case sb_send_error s1 of None \<Rightarrow> Some e | Some x \<Rightarrow> Some x),
                       sb_active := (if sb_in_flight_bytes s1 = 0 then False else sb_active s1)\<rparr>
           in (notify_all s2, Some e)))"

section \<open>Operations\<close>

definition sb_write :: "'b io_ops \<Rightarrow> 'b list \<Rightarrow> 'b sendbuf \<Rightarrow> 'b sres" where
  "sb_write io data s =
     (if data = [] then (s, None)
      else if sb_send_error s \<noteq> None then (s, sb_send_error s)
      else if sb_closed s then (s, Some RuntimeErr)
      else if sb_eof_pending s then (s, Some RuntimeErr)
      else (case reserve_leg False (append_pending data (s\<lparr>sb_written := sb_written s @ data\<rparr>)) of
              (s1, None) \<Rightarrow> (s1, None)
            | (s1, Some to_send) \<Rightarrow> submit_wait io to_send s1))"

definition drain_ready :: "'b sendbuf \<Rightarrow> pyexn + bool" where
  "drain_ready s =
     (case sb_send_error s of
        Some e \<Rightarrow> Inl e
      | None \<Rightarrow> Inr (int (sb_pending_bytes s + sb_in_flight_bytes s) \<le> sb_low_water s))"

definition flush_ready :: "'b sendbuf \<Rightarrow> pyexn + bool" where
  "flush_ready s =
     (case sb_send_error s of
        Some e \<Rightarrow> Inl e
      | None \<Rightarrow> Inr (\<not> sb_active s \<and> sb_pending_bytes s = 0 \<and> sb_in_flight_bytes s = 0))"

text \<open>\<open>drain\<close> and \<open>flush\<close> up to their wait: the second component tells how the caller goes on.\<close>

datatype go_on = Returns | Raises pyexn | Waits

definition wait_for :: "(pyexn + bool) \<Rightarrow> go_on" where
  "wait_for r = (case r of Inl e \<Rightarrow> Raises e | Inr True \<Rightarrow> Returns | Inr False \<Rightarrow> Waits)"

definition sb_drain :: "'b io_ops \<Rightarrow> 'b sendbuf \<Rightarrow> 'b sendbuf \<times> go_on" where
  "sb_drain io s =
     (case sb_send_error s of
        Some e \<Rightarrow> (s, Raises e)
      | None \<Rightarrow>
          (case reserve_leg True s of
             (s1, to_send) \<Rightarrow>
               (let over_high = (int (sb_pending_bytes s1 + sb_in_flight_bytes s1) > sb_high_water s1) in
                case (case to_send of None \<Rightarrow> (s1, None) | Some c \<Rightarrow> submit_nowait io (io_send_nowait io) c s1) of
                  (s2, Some e) \<Rightarrow> (s2, Raises e)
                | (s2, None) \<Rightarrow> if \<not> over_high then (s2, Returns) else (s2, wait_for (drain_ready s2)))))"

definition sb_flush :: "'b io_ops \<Rightarrow> 'b sendbuf \<Rightarrow> 'b sendbuf \<times> go_on" where
  "sb_flush io s =
     (case sb_send_error s of
        Some e \<Rightarrow> (s, Raises e)
      | None \<Rightarrow>
          (case reserve_leg True s of
             (s1, to_send) \<Rightarrow>
               (case (case to_send of None \<Rightarrow> (s1, None) | Some c \<Rightarrow> submit_nowait io (io_send_nowait io) c s1) of
                  (s2, Some e) \<Rightarrow> (s2, Raises e)
                | (s2, None) \<Rightarrow> (s2, wait_for (flush_ready s2)))))"

definition sb_write_eof :: "'b io_ops \<Rightarrow> 'b sendbuf \<Rightarrow> 'b sres" where
  "sb_write_eof io s =
     (if sb_closed s then (s, Some RuntimeErr)
      else if sb_send_error s \<noteq> None then (s, sb_send_error s)
      else if sb_eof_pending s then (s, None)
      else (case reserve_leg True (s\<lparr>sb_eof_pending := True\<rparr>) of
              (s1, None) \<Rightarrow> (case maybe_shutdown io s1 of (s2, r) \<Rightarrow> (notify_all s2, r))
            | (s1, Some to_send) \<Rightarrow> submit_nowait io (io_send_nowait io) to_send (notify_all s1)))"

definition steal_pending :: "'b sendbuf \<Rightarrow> 'b sendbuf \<times> (pyexn + 'b list option)" where
  "steal_pending s =
     (case sb_send_error s of
        Some e \<Rightarrow> (s, Inl e)
      | None \<Rightarrow> if sb_active s then (s, Inr None)
                else (s\<lparr>sb_pending := None, sb_pending_bytes := 0, sb_out := sb_out s @ pending_list s\<rparr>, Inr (sb_pending s)))"

definition sb_init :: "int \<Rightarrow> int \<Rightarrow> nat \<Rightarrow> 'b sendbuf" where
  "sb_init high low min_write =
     \<lparr>sb_pending = None, sb_pending_bytes = 0, sb_in_flight_bytes = 0, sb_active = False, sb_send_error = None,
      sb_closed = False, sb_eof_pending = False, sb_write_eof_done = False, sb_close_when_idle = False,
      sb_high_water = high, sb_low_water = low, sb_min_write = min_write, sb_fileno_open = True, sb_out = [],
      sb_written = [], sb_live = 0, sb_shutdowns = 0, sb_sock_closes = 0, sb_notified = 0\<rparr>"

definition open_send_buffer :: "int option \<Rightarrow> int option \<Rightarrow> int option \<Rightarrow> pyexn + 'b sendbuf" where
  "open_send_buffer high low min_write =
     (case write_buffer_limits high low of
        Inl e \<Rightarrow> Inl e
      | Inr (h, l) \<Rightarrow>
          (let m = (case min_write of None \<Rightarrow> 2048 | Some m \<Rightarrow> m)
           in if m < 0 then Inl ValueErr else Inr (sb_init h l (nat m))))"

section \<open>Invariant\<close>

text \<open>Byte accounting, and the write side's shutdown.\<close>

definition sb_bytes :: "'b list \<Rightarrow> 'b sendbuf \<Rightarrow> bool" where
  "sb_bytes chunk s \<longleftrightarrow>
     sb_pending_bytes s = length (pending_list s) \<and> sb_pending s \<noteq> Some []
     \<and> sb_written s = sb_out s @ chunk @ pending_list s
     \<and> sb_shutdowns s = (if sb_write_eof_done s then 1 else 0)
     \<and> (sb_write_eof_done s \<longrightarrow> sb_eof_pending s \<and> chunk @ pending_list s = [])"

definition sb_inv :: "'b sendbuf \<Rightarrow> bool" where
  "sb_inv s \<longleftrightarrow>
     sb_bytes [] s \<and> sb_live s \<le> 1
     \<and> (sb_send_error s = None \<longrightarrow>
          (sb_active s \<longleftrightarrow> sb_live s = 1) \<and> (\<not> sb_active s \<longrightarrow> sb_in_flight_bytes s = 0)
          \<and> (\<not> sb_active s \<longrightarrow> pending_list s = [] \<or> sb_pending_bytes s < sb_min_write s \<and> \<not> sb_eof_pending s))"

text \<open>A chunk has been reserved and is being submitted.\<close>

definition sb_reserved :: "'b list \<Rightarrow> 'b sendbuf \<Rightarrow> bool" where
  "sb_reserved chunk s \<longleftrightarrow> sb_bytes chunk s \<and> sb_live s = 0 \<and> (sb_send_error s = None \<longrightarrow> sb_active s) \<and> chunk \<noteq> []"

lemma pending_list_simps [simp]:
  "sb_pending s = None \<Longrightarrow> pending_list s = []" "sb_pending s = Some p \<Longrightarrow> pending_list s = p"
  by (simp_all add: pending_list_def)

lemma notify_all_simps [simp]:
  "sb_inv (notify_all s) = sb_inv s" "sb_reserved chunk (notify_all s) = sb_reserved chunk s"
  "pending_list (notify_all s) = pending_list s" "sb_send_error (notify_all s) = sb_send_error s"
  by (auto simp: notify_all_def sb_inv_def sb_reserved_def sb_bytes_def pending_list_def)

lemma append_pending_bytes:
  assumes "sb_bytes chunk s" and "data \<noteq> []" and "\<not> sb_write_eof_done s"
  shows "sb_bytes chunk (append_pending data (s\<lparr>sb_written := sb_written s @ data\<rparr>))"
  using assms by (cases "sb_pending s") (auto simp: append_pending_def sb_bytes_def pending_list_def)

lemma append_pending_fields [simp]:
  "sb_active (append_pending d s) = sb_active s" "sb_send_error (append_pending d s) = sb_send_error s"
  "sb_live (append_pending d s) = sb_live s" "sb_in_flight_bytes (append_pending d s) = sb_in_flight_bytes s"
  "sb_eof_pending (append_pending d s) = sb_eof_pending s" "sb_min_write (append_pending d s) = sb_min_write s"
  by (simp_all add: append_pending_def split: option.split)

text \<open>Calls during a submit leave the reserved chunk in front of what is queued.\<close>

lemma sock_close_reserved [simp]: "sb_reserved chunk (sock_close c s) = sb_reserved chunk s"
  by (simp add: sock_close_def sb_reserved_def sb_bytes_def pending_list_def)

lemma during_one_reserved:
  assumes "sb_reserved chunk s"
  shows "sb_reserved chunk (during_one d s)"
proof (cases d)
  case (IWrite data)
  have "sb_bytes chunk (append_pending data (s\<lparr>sb_written := sb_written s @ data\<rparr>))" if "data \<noteq> []"
    by (rule append_pending_bytes [OF _ that]) (use assms in \<open>auto simp: sb_reserved_def sb_bytes_def\<close>)
  then show ?thesis using assms IWrite by (auto simp: sb_reserved_def)
next
  case IEof
  have "sb_reserved chunk (s\<lparr>sb_eof_pending := True\<rparr>)" using assms by (auto simp: sb_reserved_def sb_bytes_def pending_list_def)
  then show ?thesis using assms IEof by simp
next
  case IClose
  have "sb_reserved chunk (s\<lparr>sb_closed := True\<rparr>)" using assms by (auto simp: sb_reserved_def sb_bytes_def pending_list_def)
  then show ?thesis using assms IClose by (simp add: sb_close_def)
next
  case (ILimits high low)
  have "sb_reserved chunk (s\<lparr>sb_high_water := h, sb_low_water := l\<rparr>)" for h l
    using assms by (auto simp: sb_reserved_def sb_bytes_def pending_list_def)
  then show ?thesis using assms ILimits by (simp add: set_write_buffer_limits_def split: sum.split)
next
  case IArm
  have "sb_reserved chunk (s\<lparr>sb_close_when_idle := True\<rparr>)" using assms by (auto simp: sb_reserved_def sb_bytes_def pending_list_def)
  then show ?thesis using assms IArm by (simp add: arm_close_when_idle_def split: option.split)
next
  case (IForget e)
  have "sb_reserved chunk (s\<lparr>sb_send_error := Some x, sb_closed := True, sb_active := False, sb_in_flight_bytes := 0\<rparr>)" for x
    using assms by (auto simp: sb_reserved_def sb_bytes_def pending_list_def)
  then show ?thesis using assms IForget by (simp add: on_fire_forget_error_def split: option.split)
qed

lemma during_reserved: "sb_reserved chunk s \<Longrightarrow> sb_reserved chunk (during ds s)"
  unfolding during_def by (induction ds arbitrary: s) (simp_all add: during_one_reserved)

lemma take_pending_cases:
  obtains "take_pending s = (s\<lparr>sb_pending := None, sb_pending_bytes := 0\<rparr>, None)" and "pending_list s = []"
  | p where "take_pending s = (s\<lparr>sb_pending := None, sb_pending_bytes := 0, sb_in_flight_bytes := length p\<rparr>, Some p)"
      and "sb_pending s = Some p" and "p \<noteq> []"
  by (cases "sb_pending s") (auto simp: take_pending_def split: if_splits)

lemma reserve_leg_cases:
  assumes "sb_bytes [] s" and "sb_send_error s = None \<longrightarrow> \<not> sb_active s \<longrightarrow> sb_live s = 0"
  obtains "reserve_leg force s = (s, None)"
      and "sb_active s \<or> sb_send_error s \<noteq> None \<or> pending_list s = [] \<or> \<not> force \<and> sb_pending_bytes s < sb_min_write s"
  | s1 chunk where "reserve_leg force s = (s1, Some chunk)" and "sb_reserved chunk s1"
proof (cases "sb_active s \<or> sb_send_error s \<noteq> None \<or> pending_list s = [] \<or> \<not> force \<and> sb_pending_bytes s < sb_min_write s")
  case True
  then show thesis using that(1) by (auto simp: reserve_leg_def)
next
  case False
  then obtain p where p: "sb_pending s = Some p" "p \<noteq> []" by (cases "sb_pending s") auto
  let ?s1 = "s\<lparr>sb_active := True, sb_pending := None, sb_pending_bytes := 0, sb_in_flight_bytes := length p\<rparr>"
  have "reserve_leg force s = (?s1, Some p)" using False p by (simp add: reserve_leg_def take_pending_def)
  moreover have "sb_reserved p ?s1" using assms False p by (auto simp: sb_reserved_def sb_bytes_def pending_list_def)
  ultimately show thesis using that(2) by blast
qed

lemma submit_failed_inv:
  assumes "sb_bytes chunk s" and "chunk \<noteq> []" and "sb_live s \<le> 1"
  shows "sb_inv (fst (submit_failed chunk e s))"
  using assms by (cases "sb_pending s")
    (auto simp: submit_failed_def prepend_pending_def sb_inv_def sb_bytes_def pending_list_def notify_all_def)

lemma maybe_shutdown_inv:
  assumes b: "sb_bytes [] s" and l: "sb_live s \<le> 1"
    and e: "sb_send_error s = None \<longrightarrow> (sb_active s \<longleftrightarrow> sb_live s = 1) \<and> (\<not> sb_active s \<longrightarrow> sb_in_flight_bytes s = 0 \<and> pending_list s = [])"
  shows "sb_inv (fst (maybe_shutdown io s))"
proof (cases "sb_write_eof_done s \<or> \<not> sb_eof_pending s \<or> sb_active s \<or> sb_pending_bytes s \<noteq> 0 \<or> sb_in_flight_bytes s \<noteq> 0")
  case True
  then have "fst (maybe_shutdown io s) = s" by (auto simp: maybe_shutdown_def)
  then show ?thesis using assms by (auto simp: sb_inv_def)
next
  case False
  let ?s1 = "s\<lparr>sb_write_eof_done := True, sb_shutdowns := Suc (sb_shutdowns s)\<rparr>"
  have p: "pending_list s = []" "pending_list ?s1 = pending_list s" "sb_shutdowns s = 0"
    using b False by (simp_all add: sb_bytes_def pending_list_def)
  have b1: "sb_bytes [] ?s1" using b p False by (simp add: sb_bytes_def)
  have "sb_inv ?s1" using b1 l e False p by (auto simp: sb_inv_def)
  moreover have "sb_inv (?s1\<lparr>sb_send_error := Some x\<rparr>)" for x
    using b1 l by (simp add: sb_inv_def sb_bytes_def pending_list_def)
  ultimately show ?thesis using False by (simp add: maybe_shutdown_def Let_def split: option.split)
qed

lemma leg_idle_inv:
  assumes "sb_bytes [] s" and "sb_live s \<le> 1" and "sb_in_flight_bytes s = 0"
    and "sb_send_error s = None \<longrightarrow> sb_live s = 0 \<and> pending_list s = []"
  shows "sb_inv (fst (leg_idle io s))"
proof -
  obtain s1 r where m: "maybe_shutdown io (s\<lparr>sb_active := False\<rparr>) = (s1, r)" by fastforce
  have pl: "pending_list (s\<lparr>sb_active := False\<rparr>) = pending_list s" by (simp add: pending_list_def)
  have "sb_inv (fst (maybe_shutdown io (s\<lparr>sb_active := False\<rparr>)))"
    by (rule maybe_shutdown_inv) (use assms pl in \<open>simp_all add: sb_bytes_def\<close>)
  then have "sb_inv s1" using m by simp
  moreover have "sb_inv (s1\<lparr>sb_close_when_idle := False\<rparr>)" if "sb_inv s1" for s1 :: "'a sendbuf"
    using that by (auto simp: sb_inv_def sb_bytes_def pending_list_def)
  moreover have "sb_inv (sock_close c t)" if "sb_inv t" for c and t :: "'a sendbuf"
    using that by (auto simp: sock_close_def sb_inv_def sb_bytes_def pending_list_def)
  ultimately show ?thesis using m by (cases r) (simp_all add: leg_idle_def)
qed

lemma submit_nowait_inv: "sb_reserved chunk s \<Longrightarrow> sb_inv (fst (submit_nowait io outs chunk s))"
proof (induction io outs chunk s rule: submit_nowait.induct)
  case (1 io outs chunk s)
  define s0 where "s0 = during (snd (answer outs)) s"
  let ?s1 = "s0\<lparr>sb_out := sb_out s0 @ chunk\<rparr>"
  let ?s2 = "?s1\<lparr>sb_in_flight_bytes := 0\<rparr>"
  have "sb_reserved chunk s0" unfolding s0_def using 1(2) by (rule during_reserved)
  then have r: "sb_bytes chunk s0" "sb_live s0 = 0" "sb_send_error s0 = None \<longrightarrow> sb_active s0" "chunk \<noteq> []"
    by (simp_all add: sb_reserved_def)
  have b: "sb_bytes [] ?s2" using r(1,4) by (auto simp: sb_bytes_def pending_list_def)
  note eq = submit_nowait.simps [of io outs chunk s, folded s0_def, unfolded Let_def s0_def [symmetric]]
  show ?case
  proof (cases "fst (answer outs)")
    case (Some e)
    then show ?thesis using submit_failed_inv [OF r(1,4)] r(2) eq by simp
  next
    case None
    show ?thesis
    proof (cases "sb_send_error s0")
      case (Some e)
      have "sb_inv (?s1\<lparr>sb_active := False, sb_in_flight_bytes := 0\<rparr>)"
        using b r(2) Some by (simp add: sb_inv_def sb_bytes_def pending_list_def)
      then show ?thesis using None Some eq by simp
    next
      case ok: None
      show ?thesis
      proof (rule take_pending_cases [of ?s2])
        assume t: "take_pending ?s2 = (?s2\<lparr>sb_pending := None, sb_pending_bytes := 0\<rparr>, None)" and p: "pending_list ?s2 = []"
        have "sb_inv (fst (leg_idle io (?s2\<lparr>sb_pending := None, sb_pending_bytes := 0\<rparr>)))"
          by (rule leg_idle_inv) (use b p r in \<open>auto simp: sb_bytes_def pending_list_def\<close>)
        then show ?thesis using None ok t eq by simp
      next
        fix p :: "'a list"
        let ?s3 = "?s2\<lparr>sb_pending := None, sb_pending_bytes := 0, sb_in_flight_bytes := length p\<rparr>"
        assume t: "take_pending ?s2 = (?s3, Some p)" and p: "sb_pending ?s2 = Some p" "p \<noteq> []"
        have "sb_reserved p ?s3" using b p r ok by (auto simp: sb_reserved_def sb_bytes_def pending_list_def)
        then have "sb_inv (fst (submit_nowait io (tl outs) p (notify_all ?s3)))"
          using 1(1) [OF s0_def None refl _ t [symmetric] refl] ok by simp
        then show ?thesis using None ok t eq by simp
      qed
    qed
  qed
qed

lemma submit_wait_inv:
  assumes "sb_reserved chunk s"
  shows "sb_inv (fst (submit_wait io chunk s))"
proof -
  define s0 where "s0 = during (snd (io_sendall_cb io chunk)) s"
  have r: "sb_reserved chunk s0" unfolding s0_def using assms by (rule during_reserved)
  show ?thesis
  proof (cases "fst (io_sendall_cb io chunk)")
    case None
    then show ?thesis using r unfolding submit_wait_def Let_def s0_def [symmetric]
      by (auto simp: sb_reserved_def sb_inv_def sb_bytes_def pending_list_def)
  next
    case (Some e)
    then show ?thesis using submit_failed_inv [of chunk s0] r by (simp add: submit_wait_def Let_def s0_def sb_reserved_def)
  qed
qed

lemma on_leg_complete_inv:
  assumes "sb_inv s" and "sb_live s = 1"
  shows "sb_inv (fst (on_leg_complete io exception (s\<lparr>sb_live := sb_live s - 1\<rparr>)))"
proof -
  define s0 where "s0 = s\<lparr>sb_live := sb_live s - 1\<rparr>"
  define s1 where "s1 = s0\<lparr>sb_in_flight_bytes := 0,
    sb_send_error := (case exception of None \<Rightarrow> sb_send_error s0 | Some e \<Rightarrow> Some e)\<rparr>"
  have b: "sb_bytes [] s1" "sb_live s1 = 0" "sb_in_flight_bytes s1 = 0"
    using assms by (auto simp: s1_def s0_def sb_inv_def sb_bytes_def pending_list_def)
  have act: "sb_send_error s1 = None \<Longrightarrow> sb_active s1"
    using assms by (auto simp: s1_def s0_def sb_inv_def split: option.splits)
  have eq: "on_leg_complete io exception (s\<lparr>sb_live := sb_live s - 1\<rparr>) =
    (if sb_send_error s1 = None
      then (case take_pending s1 of
              (s2, None) \<Rightarrow> leg_idle io s2
            | (s2, Some next_chunk) \<Rightarrow> submit_wait io next_chunk (notify_all s2))
      else leg_idle io s1)"
    by (simp only: on_leg_complete_def s1_def s0_def Let_def)
  show ?thesis
  proof (cases "sb_send_error s1")
    case (Some e)
    then show ?thesis unfolding eq using leg_idle_inv [of s1 io] b by simp
  next
    case None
    show ?thesis
    proof (rule take_pending_cases [of s1])
      assume t: "take_pending s1 = (s1\<lparr>sb_pending := None, sb_pending_bytes := 0\<rparr>, None)" and p: "pending_list s1 = []"
      have "sb_inv (fst (leg_idle io (s1\<lparr>sb_pending := None, sb_pending_bytes := 0\<rparr>)))"
        by (rule leg_idle_inv) (use b p in \<open>auto simp: sb_bytes_def pending_list_def\<close>)
      then show ?thesis unfolding eq using None t by simp
    next
      fix p :: "'a list"
      let ?s3 = "s1\<lparr>sb_pending := None, sb_pending_bytes := 0, sb_in_flight_bytes := length p\<rparr>"
      assume t: "take_pending s1 = (?s3, Some p)" and p: "sb_pending s1 = Some p" "p \<noteq> []"
      have "sb_reserved p ?s3" using b p act None by (auto simp: sb_reserved_def sb_bytes_def pending_list_def)
      then show ?thesis unfolding eq using None t submit_wait_inv [of p "notify_all ?s3" io] by simp
    qed
  qed
qed

lemma set_error_inv:
  "sb_inv s \<Longrightarrow> sb_inv (s\<lparr>sb_send_error := Some e, sb_active := a\<rparr>)"
  "sb_inv s \<Longrightarrow> sb_inv (s\<lparr>sb_send_error := Some e, sb_closed := c, sb_active := a, sb_in_flight_bytes := n\<rparr>)"
  by (simp_all add: sb_inv_def sb_bytes_def pending_list_def)

lemma sock_close_inv: "sb_inv s \<Longrightarrow> sb_inv (sock_close c s)"
  by (auto simp: sock_close_def sb_inv_def sb_bytes_def pending_list_def)

lemma on_done_inv:
  assumes "sb_inv s" and "sb_live s = 1"
  shows "sb_inv (fst (on_done io exception s))"
proof -
  obtain s1 r where c: "on_leg_complete io exception (s\<lparr>sb_live := sb_live s - 1\<rparr>) = (s1, r)" by fastforce
  then have i: "sb_inv s1" using on_leg_complete_inv [OF assms, of io exception] by simp
  show ?thesis
  proof (cases r)
    case None
    then show ?thesis using c i by (simp add: on_done_def)
  next
    case (Some e)
    obtain x where "(case sb_send_error s1 of None \<Rightarrow> Some e | Some x \<Rightarrow> Some x) = Some x"
      by (cases "sb_send_error s1") auto
    then show ?thesis using c Some set_error_inv(1) [OF i] by (simp add: on_done_def Let_def)
  qed
qed

lemma sb_write_inv:
  assumes i: "sb_inv s"
  shows "sb_inv (fst (sb_write io data s))"
proof (cases "data = [] \<or> sb_send_error s \<noteq> None \<or> sb_closed s \<or> sb_eof_pending s")
  case True
  then show ?thesis using i by (auto simp: sb_write_def)
next
  case False
  let ?s1 = "append_pending data (s\<lparr>sb_written := sb_written s @ data\<rparr>)"
  have b: "sb_bytes [] ?s1" using i False by (intro append_pending_bytes) (auto simp: sb_inv_def sb_bytes_def)
  have l: "sb_send_error ?s1 = None \<longrightarrow> \<not> sb_active ?s1 \<longrightarrow> sb_live ?s1 = 0" using i by (auto simp: sb_inv_def)
  have eq: "sb_write io data s = (case reserve_leg False ?s1 of (s1, None) \<Rightarrow> (s1, None) | (s1, Some c) \<Rightarrow> submit_wait io c s1)"
    using False by (simp add: sb_write_def)
  show ?thesis
  proof (rule reserve_leg_cases [OF b l, of False])
    assume r: "reserve_leg False ?s1 = (?s1, None)"
      "sb_active ?s1 \<or> sb_send_error ?s1 \<noteq> None \<or> pending_list ?s1 = [] \<or> \<not> False \<and> sb_pending_bytes ?s1 < sb_min_write ?s1"
    have "sb_inv ?s1" using b i r(2) False by (auto simp: sb_inv_def)
    then show ?thesis unfolding eq r(1) by simp
  next
    fix s1 c
    assume "reserve_leg False ?s1 = (s1, Some c)" "sb_reserved c s1"
    then show ?thesis unfolding eq using submit_wait_inv by simp
  qed
qed

text \<open>\<open>drain\<close> and \<open>flush\<close> force a leg out.\<close>

lemma force_leg_inv:
  assumes i: "sb_inv s" and f: "reserve_leg True s = (s1, to_send)"
    and e: "(case to_send of None \<Rightarrow> (s1, None) | Some c \<Rightarrow> submit_nowait io (io_send_nowait io) c s1) = (s2, r)"
  shows "sb_inv s2"
proof -
  have b: "sb_bytes [] s" "sb_send_error s = None \<longrightarrow> \<not> sb_active s \<longrightarrow> sb_live s = 0" using i by (auto simp: sb_inv_def)
  show ?thesis
  proof (rule reserve_leg_cases [OF b, of True])
    assume "reserve_leg True s = (s, None)"
    then show ?thesis using i f e by simp
  next
    fix s1' c
    assume "reserve_leg True s = (s1', Some c)" "sb_reserved c s1'"
    then show ?thesis using f e submit_nowait_inv [of c s1' io "io_send_nowait io"] by simp
  qed
qed

lemma sb_drain_inv: "sb_inv s \<Longrightarrow> sb_inv (fst (sb_drain io s))"
proof (cases "sb_send_error s")
  case None
  assume i: "sb_inv s"
  obtain s1 c where f: "reserve_leg True s = (s1, c)" by fastforce
  obtain s2 r where e: "(case c of None \<Rightarrow> (s1, None) | Some c \<Rightarrow> submit_nowait io (io_send_nowait io) c s1) = (s2, r)" by fastforce
  from force_leg_inv [OF i f e] None f e show ?thesis by (cases r) (simp_all add: sb_drain_def)
qed (simp add: sb_drain_def)

lemma sb_flush_inv: "sb_inv s \<Longrightarrow> sb_inv (fst (sb_flush io s))"
proof (cases "sb_send_error s")
  case None
  assume i: "sb_inv s"
  obtain s1 c where f: "reserve_leg True s = (s1, c)" by fastforce
  obtain s2 r where e: "(case c of None \<Rightarrow> (s1, None) | Some c \<Rightarrow> submit_nowait io (io_send_nowait io) c s1) = (s2, r)" by fastforce
  from force_leg_inv [OF i f e] None f e show ?thesis by (cases r) (simp_all add: sb_flush_def)
qed (simp add: sb_flush_def)

lemma sb_write_eof_inv:
  assumes i: "sb_inv s"
  shows "sb_inv (fst (sb_write_eof io s))"
proof (cases "sb_closed s \<or> sb_send_error s \<noteq> None \<or> sb_eof_pending s")
  case True
  then show ?thesis using i by (auto simp: sb_write_eof_def)
next
  case False
  let ?s = "s\<lparr>sb_eof_pending := True\<rparr>"
  have b: "sb_bytes [] ?s" "sb_send_error ?s = None \<longrightarrow> \<not> sb_active ?s \<longrightarrow> sb_live ?s = 0"
    using i False by (auto simp: sb_inv_def sb_bytes_def pending_list_def)
  have eq: "sb_write_eof io s = (case reserve_leg True ?s of
      (s1, None) \<Rightarrow> (case maybe_shutdown io s1 of (s2, r) \<Rightarrow> (notify_all s2, r))
    | (s1, Some c) \<Rightarrow> submit_nowait io (io_send_nowait io) c (notify_all s1))" using False by (simp add: sb_write_eof_def)
  show ?thesis
  proof (rule reserve_leg_cases [OF b, of True])
    assume r: "reserve_leg True ?s = (?s, None)"
      "sb_active ?s \<or> sb_send_error ?s \<noteq> None \<or> pending_list ?s = [] \<or> \<not> True \<and> sb_pending_bytes ?s < sb_min_write ?s"
    have "sb_inv (fst (maybe_shutdown io ?s))"
      by (rule maybe_shutdown_inv) (use b i r(2) False in \<open>auto simp: sb_inv_def\<close>)
    then show ?thesis unfolding eq r(1) by (cases "maybe_shutdown io ?s") simp
  next
    fix s1 c
    assume "reserve_leg True ?s = (s1, Some c)" "sb_reserved c s1"
    then show ?thesis unfolding eq using submit_nowait_inv [of c "notify_all s1" io "io_send_nowait io"] by simp
  qed
qed

lemma on_fire_forget_error_inv: "sb_inv s \<Longrightarrow> sb_inv (on_fire_forget_error exception s)"
proof (cases exception)
  case (Some e)
  assume i: "sb_inv s"
  obtain x where "(case sb_send_error s of None \<Rightarrow> Some e | Some x \<Rightarrow> Some x) = Some x"
    by (cases "sb_send_error s") auto
  then show ?thesis using Some set_error_inv(2) [OF i] by (simp add: on_fire_forget_error_def sock_close_inv)
qed (simp add: on_fire_forget_error_def)

lemma wait_for_simps [simp]: "wait_for (Inl e) = Raises e" "wait_for (Inr b) = (if b then Returns else Waits)"
  by (cases b) (simp_all add: wait_for_def)

section \<open>Runs\<close>

inductive sb_step :: "'b sendbuf \<Rightarrow> 'b sendbuf \<Rightarrow> bool" where
  b_write: "sb_step s (fst (sb_write io data s))"
| b_drain: "sb_step s (fst (sb_drain io s))"
| b_flush: "sb_step s (fst (sb_flush io s))"
| b_write_eof: "sb_step s (fst (sb_write_eof io s))"
| b_close: "sb_step s (sb_close s)"
| b_limits: "sb_step s (fst (set_write_buffer_limits high low s))"
| b_steal: "sb_step s (fst (steal_pending s))"
| b_arm_close: "sb_step s (fst (arm_close_when_idle s))"
| b_complete: "sb_live s = 1 \<Longrightarrow> sb_step s (fst (on_done io exception s))"
| b_forget_error: "sb_step s (on_fire_forget_error exception s)"

lemma sb_step_inv: "sb_step s s' \<Longrightarrow> sb_inv s \<Longrightarrow> sb_inv s'"
proof (induction rule: sb_step.induct)
  case (b_write s io data) then show ?case by (rule sb_write_inv)
next
  case (b_drain s io) then show ?case by (rule sb_drain_inv)
next
  case (b_flush s io) then show ?case by (rule sb_flush_inv)
next
  case (b_write_eof s io) then show ?case by (rule sb_write_eof_inv)
next
  case (b_close s)
  then have "sb_inv (s\<lparr>sb_closed := True\<rparr>)" by (auto simp: sb_inv_def sb_bytes_def pending_list_def)
  then show ?case using b_close by (simp add: sb_close_def)
next
  case (b_limits s high low)
  have "sb_inv (s\<lparr>sb_high_water := h, sb_low_water := l\<rparr>)" for h l
    using b_limits by (auto simp: sb_inv_def sb_bytes_def pending_list_def)
  then show ?case using b_limits by (simp add: set_write_buffer_limits_def split: sum.split prod.split)
next
  case (b_steal s)
  then show ?case
    by (cases "sb_send_error s") (auto simp: steal_pending_def sb_inv_def sb_bytes_def pending_list_def)
next
  case (b_arm_close s)
  then show ?case
    by (cases "sb_send_error s") (auto simp: arm_close_when_idle_def sb_inv_def sb_bytes_def pending_list_def)
next
  case (b_complete s io exception) then show ?case by (intro on_done_inv)
next
  case (b_forget_error s exception) then show ?case by (rule on_fire_forget_error_inv)
qed

lemma sb_reach_inv: "sb_step\<^sup>*\<^sup>* (sb_init high low min_write) s \<Longrightarrow> sb_inv s"
proof (induction rule: rtranclp_induct)
  case base
  show ?case by (simp add: sb_init_def sb_inv_def sb_bytes_def pending_list_def)
next
  case (step s1 s2)
  then show ?case using sb_step_inv by blast
qed

text \<open>The calls during a submit are the buffer's own operations: while a leg is active, or an error is
  sticky, they start no leg, and \<open>drain\<close>, \<open>flush\<close> and \<open>steal_pending\<close> change nothing.\<close>

lemma during_is_call:
  assumes "sb_active s \<or> sb_send_error s \<noteq> None"
  shows "during_one (IWrite data) s = fst (sb_write io data s)" "during_one IEof s = fst (sb_write_eof io s)"
    "fst (sb_drain io s) = s" "fst (sb_flush io s) = s" "fst (steal_pending s) = s"
    "sb_active (during_one d s) \<or> sb_send_error (during_one d s) \<noteq> None"
proof -
  have r: "reserve_leg f t = (t, None)" if "sb_active t \<or> sb_send_error t \<noteq> None" for f and t :: "'a sendbuf"
    using that by (simp add: reserve_leg_def)
  show "during_one (IWrite data) s = fst (sb_write io data s)" using assms by (auto simp: sb_write_def r)
  show "during_one IEof s = fst (sb_write_eof io s)" using assms by (auto simp: sb_write_eof_def r maybe_shutdown_def)
  show "fst (sb_drain io s) = s" "fst (sb_flush io s) = s" "fst (steal_pending s) = s"
    using assms r [OF assms] by (cases "sb_send_error s"; simp add: sb_drain_def sb_flush_def steal_pending_def)+
  show "sb_active (during_one d s) \<or> sb_send_error (during_one d s) \<noteq> None"
  proof (cases d)
    case (IForget e)
    then show ?thesis using assms
      by (cases e) (auto simp: on_fire_forget_error_def sock_close_def notify_all_def split: option.split)
  qed (use assms in \<open>auto simp: notify_all_def sb_close_def set_write_buffer_limits_def arm_close_when_idle_def split: option.split sum.split\<close>)
qed

text \<open>A forced leg leaves nothing behind: it ends with an empty backlog or with an error.\<close>

lemma leg_idle_pending: "pending_list (fst (leg_idle io s)) = pending_list s"
proof -
  obtain s1 r where m: "maybe_shutdown io (s\<lparr>sb_active := False\<rparr>) = (s1, r)" by fastforce
  have "pending_list s1 = pending_list s"
    using m by (auto simp: maybe_shutdown_def Let_def pending_list_def split: if_splits option.splits)
  then show ?thesis using m by (cases r) (simp_all add: leg_idle_def sock_close_def notify_all_def pending_list_def)
qed

lemma submit_nowait_empties:
  "sb_send_error (fst (submit_nowait io outs chunk s)) = None \<Longrightarrow> pending_list (fst (submit_nowait io outs chunk s)) = []"
proof (induction io outs chunk s rule: submit_nowait.induct)
  case (1 io outs chunk s)
  define s0 where "s0 = during (snd (answer outs)) s"
  let ?s2 = "s0\<lparr>sb_out := sb_out s0 @ chunk, sb_in_flight_bytes := 0\<rparr>"
  note eq = submit_nowait.simps [of io outs chunk s, folded s0_def, unfolded Let_def s0_def [symmetric]]
  have ok: "fst (answer outs) = None" "sb_send_error s0 = None"
    using 1(2) eq by (auto simp: submit_failed_def notify_all_def split: option.splits if_splits)
  show ?case
  proof (rule take_pending_cases [of ?s2])
    assume "take_pending ?s2 = (?s2\<lparr>sb_pending := None, sb_pending_bytes := 0\<rparr>, None)"
    then show ?thesis using ok eq by (simp add: leg_idle_pending)
  next
    fix p
    assume t: "take_pending ?s2 = (?s2\<lparr>sb_pending := None, sb_pending_bytes := 0, sb_in_flight_bytes := length p\<rparr>, Some p)"
    then show ?thesis using 1(1) [OF s0_def ok(1) refl _ t [symmetric] refl] 1(2) ok eq by simp
  qed
qed

lemma force_leg_empties:
  assumes f: "reserve_leg True s = (s1, to_send)" and "sb_send_error s = None"
    and e: "(case to_send of None \<Rightarrow> (s1, None) | Some c \<Rightarrow> submit_nowait io (io_send_nowait io) c s1) = (s2, r)"
    and n: "sb_send_error s2 = None"
  shows "sb_active s2 \<or> pending_list s2 = []"
proof (cases to_send)
  case None
  then have "s1 = s \<and> (sb_active s \<or> pending_list s = [])"
    using f assms(2) by (auto simp: reserve_leg_def take_pending_def pending_list_def split: if_splits option.splits)
  then show ?thesis using e None by simp
next
  case (Some c)
  then show ?thesis using e n submit_nowait_empties [of io "io_send_nowait io" c s1] by simp
qed

lemma drain_flush_kick:
  assumes "sb_send_error s = None"
  shows "sb_send_error (fst (sb_drain io s)) = None \<Longrightarrow> sb_active (fst (sb_drain io s)) \<or> pending_list (fst (sb_drain io s)) = []"
    and "sb_send_error (fst (sb_flush io s)) = None \<Longrightarrow> sb_active (fst (sb_flush io s)) \<or> pending_list (fst (sb_flush io s)) = []"
proof -
  obtain s1 c where f: "reserve_leg True s = (s1, c)" by fastforce
  obtain s2 r where e: "(case c of None \<Rightarrow> (s1, None) | Some c \<Rightarrow> submit_nowait io (io_send_nowait io) c s1) = (s2, r)" by fastforce
  note k = force_leg_empties [OF f assms e]
  show "sb_active (fst (sb_drain io s)) \<or> pending_list (fst (sb_drain io s)) = []" if "sb_send_error (fst (sb_drain io s)) = None"
    using k that assms f e by (cases r) (simp_all add: sb_drain_def Let_def split: if_splits)
  show "sb_active (fst (sb_flush io s)) \<or> pending_list (fst (sb_flush io s)) = []" if "sb_send_error (fst (sb_flush io s)) = None"
    using k that assms f e by (cases r) (simp_all add: sb_flush_def)
qed

text \<open>A leg sent without waiting, when the backlog is empty and nothing fails.\<close>

lemma submit_nowait_last:
  "\<lbrakk>sb_send_error s = None; sb_pending s = None\<rbrakk> \<Longrightarrow>
    submit_nowait io [] chunk s =
      leg_idle io (s\<lparr>sb_out := sb_out s @ chunk, sb_in_flight_bytes := 0, sb_pending := None, sb_pending_bytes := 0\<rparr>)"
  by (subst submit_nowait.simps) (simp add: take_pending_def answer_def during_def)

section \<open>Properties\<close>

text \<open>C2: \<open>SendBuffer\<close> loses, repeats and reorders no byte, and runs at most one send at a time.  Over every
  sequence of writes, drains, flushes, EOF, close, completions and errors, whatever the IO calls raise and
  whatever is written while a submit is in progress, the bytes detached for sending followed by the backlog
  are exactly the bytes accepted by \<open>write\<close>, in their order; at most one callback leg is live, and without a
  sticky error the buffer is active exactly while it is.\<close>

theorem send_bytes_in_order:
  assumes "sb_step\<^sup>*\<^sup>* (sb_init high low min_write) s"
  shows "sb_written s = sb_out s @ pending_list s \<and> sb_pending_bytes s = length (pending_list s)
    \<and> sb_live s \<le> 1 \<and> (sb_send_error s = None \<longrightarrow> (sb_active s \<longleftrightarrow> sb_live s = 1))"
  using sb_reach_inv [OF assms] by (simp add: sb_inv_def sb_bytes_def)

definition ok_io :: "nat io_ops" where
  "ok_io = \<lparr>io_sendall_cb = (\<lambda>_. (None, [])), io_send_nowait = [], io_shutdown_nowait = None\<rparr>"

definition sb_sample :: "nat sendbuf" where
  "sb_sample = fst (sb_write ok_io [1, 2] (sb_init 10 2 4))"

lemma sb_sample_reach: "sb_step\<^sup>*\<^sup>* (sb_init 10 2 4) sb_sample"
  unfolding sb_sample_def by (rule r_into_rtranclp) (rule b_write)

lemmas sb_sample_simps = sb_sample_def sb_write_def sb_init_def append_pending_def reserve_leg_def pending_list_def ok_io_def

text \<open>A submit that fails while another task writes: the chunk goes back in front of what came meanwhile.\<close>

definition failing_io :: "nat io_ops" where
  "failing_io = ok_io\<lparr>io_sendall_cb := (\<lambda>_. (Some (OSErr 32), [IWrite [5, 6]]))\<rparr>"

theorem send_bytes_in_order_witness:
  "sb_written (fst (sb_write failing_io [1, 2, 3, 4] (sb_init 10 2 4))) = [1, 2, 3, 4, 5, 6]
   \<and> pending_list (fst (sb_write failing_io [1, 2, 3, 4] (sb_init 10 2 4))) = [1, 2, 3, 4, 5, 6]"
proof -
  let ?s = "fst (sb_write failing_io [1, 2, 3, 4] (sb_init 10 2 4))"
  have "sb_step\<^sup>*\<^sup>* (sb_init 10 2 4) ?s" by (rule r_into_rtranclp) (rule b_write)
  moreover have "sb_written ?s = [1, 2, 3, 4, 5, 6]" "sb_out ?s = []"
    by (simp_all add: sb_sample_simps failing_io_def take_pending_def submit_wait_def during_def submit_failed_def prepend_pending_def notify_all_def)
  ultimately show ?thesis using send_bytes_in_order [of 10 2 4 ?s] by simp
qed

text \<open>C37: What an idle buffer holds back, and EOF comes last.  In every reachable state without a sticky error
  an idle buffer holds back fewer than \<open>min_write\<close> bytes, none once EOF is pending, and none right after a
  \<open>drain\<close> or \<open>flush\<close>, which force the backlog out.  The write side is shut down at most once, only after
  \<open>write_eof\<close>, and when it is, every accepted byte has been handed to the transport.\<close>

theorem send_eof_last:
  assumes "sb_step\<^sup>*\<^sup>* (sb_init high low min_write) s"
  shows "(sb_send_error s = None \<and> \<not> sb_active s \<longrightarrow>
      pending_list s = [] \<or> sb_pending_bytes s < sb_min_write s \<and> \<not> sb_eof_pending s)
    \<and> (\<forall>io. \<forall>s' \<in> {fst (sb_drain io s), fst (sb_flush io s)}. sb_send_error s' = None \<and> \<not> sb_active s' \<longrightarrow> pending_list s' = [])
    \<and> sb_shutdowns s \<le> 1 \<and> (0 < sb_shutdowns s \<longrightarrow> sb_eof_pending s \<and> sb_out s = sb_written s)"
proof (intro conjI allI ballI impI)
  have i: "sb_inv s" by (rule sb_reach_inv [OF assms])
  show "pending_list s = [] \<or> sb_pending_bytes s < sb_min_write s \<and> \<not> sb_eof_pending s" if "sb_send_error s = None \<and> \<not> sb_active s"
    using i that by (auto simp: sb_inv_def)
  show "sb_shutdowns s \<le> 1" "0 < sb_shutdowns s \<Longrightarrow> sb_eof_pending s" "0 < sb_shutdowns s \<Longrightarrow> sb_out s = sb_written s"
    using i by (auto simp: sb_inv_def sb_bytes_def split: if_splits)
  fix io s'
  assume s': "s' \<in> {fst (sb_drain io s), fst (sb_flush io s)}" and ok: "sb_send_error s' = None \<and> \<not> sb_active s'"
  have "sb_send_error s = None" using s' ok by (cases "sb_send_error s") (auto simp: sb_drain_def sb_flush_def)
  then show "pending_list s' = []" using drain_flush_kick [of s io] s' ok by auto
qed

theorem send_eof_last_witness:
  "sb_shutdowns (fst (sb_write_eof ok_io sb_sample)) = 1
    \<and> sb_out (fst (sb_write_eof ok_io sb_sample)) = sb_written (fst (sb_write_eof ok_io sb_sample))"
proof -
  have "sb_step\<^sup>*\<^sup>* (sb_init 10 2 4) (fst (sb_write_eof ok_io sb_sample))"
    using sb_sample_reach b_write_eof by (rule rtranclp.rtrancl_into_rtrancl)
  moreover have "sb_shutdowns (fst (sb_write_eof ok_io sb_sample)) = 1"
    by (simp add: sb_sample_simps sb_write_eof_def take_pending_def submit_nowait_last notify_all_def leg_idle_def
        maybe_shutdown_def sock_close_def)
  ultimately show ?thesis using send_eof_last [of 10 2 4 "fst (sb_write_eof ok_io sb_sample)"] by simp
qed

text \<open>When \<open>flush\<close> returns, at once or after its wait, every accepted byte has been handed to the
  transport and no send is live; when \<open>drain\<close> returns from its wait, at most \<open>low_water\<close> bytes are queued or
  in flight.  Both raise a sticky send error instead of waiting on it.\<close>

theorem flush_drain_return:
  assumes "sb_step\<^sup>*\<^sup>* (sb_init high low min_write) s"
  shows "(wait_for (flush_ready s) = Returns \<longrightarrow> sb_out s = sb_written s \<and> sb_live s = 0)
    \<and> (wait_for (drain_ready s) = Returns \<longrightarrow> int (sb_pending_bytes s + sb_in_flight_bytes s) \<le> sb_low_water s)
    \<and> (sb_send_error s = Some e \<longrightarrow> sb_flush io s = (s, Raises e) \<and> sb_drain io s = (s, Raises e)
        \<and> wait_for (flush_ready s) = Raises e \<and> wait_for (drain_ready s) = Raises e)"
proof (intro conjI impI)
  have i: "sb_inv s" using sb_reach_inv [OF assms] .
  { assume "wait_for (flush_ready s) = Returns"
    then have f: "sb_send_error s = None" "\<not> sb_active s" "sb_pending_bytes s = 0"
      by (cases "sb_send_error s"; simp add: flush_ready_def split: if_splits)+
    then show "sb_out s = sb_written s" "sb_live s = 0" using i by (auto simp: sb_inv_def sb_bytes_def) }
  { assume "wait_for (drain_ready s) = Returns"
    then show "int (sb_pending_bytes s + sb_in_flight_bytes s) \<le> sb_low_water s"
      by (cases "sb_send_error s") (simp_all add: drain_ready_def split: if_splits) }
  assume e: "sb_send_error s = Some e"
  then show "sb_flush io s = (s, Raises e)" "sb_drain io s = (s, Raises e)"
    by (simp_all add: sb_flush_def sb_drain_def)
  show "wait_for (flush_ready s) = Raises e" "wait_for (drain_ready s) = Raises e"
    using e by (simp_all add: flush_ready_def drain_ready_def)
qed

theorem flush_drain_return_witness:
  "wait_for (flush_ready (sb_init 10 2 4 :: nat sendbuf)) = Returns \<and> sb_live (sb_init 10 2 4 :: nat sendbuf) = 0"
  using flush_drain_return [OF rtranclp.rtrancl_refl, of 10 2 4] by (simp add: sb_init_def flush_ready_def)

end
