(* ===== verification/Stream_Writer.thy ===== *)
theory Stream_Writer
  imports Send_Buffer
begin

text \<open>
  \<open>WriterCore\<close> and \<open>shutdown_stream_writer\<close> of \<open>tealetio/streams/writer.py\<close> over the send buffer
  (\<open>StreamWriter\<close> and \<open>AsyncStreamWriter\<close> forward to it).  The IO manager's calls are arguments: what they
  raise, if anything.  \<open>wr_sent_close\<close> lists the payloads handed to \<open>sock_send_close\<close> (a history variable);
  whether the socket still has its descriptor is the send buffer's \<open>sb_fileno_open\<close>.  The uring backend takes
  the descriptor from the socket when \<open>sock_send_close\<close> is submitted (\<open>wio_detaches\<close>), the selector backend
  when the close it has queued behind the send runs, which is a step of its own.
\<close>

section \<open>State and operations\<close>

record 'b writer =
  wr_buf :: "'b sendbuf"
  wr_closing :: bool
  wr_closed :: bool
  wr_sent_close :: "'b list list"

record 'b writer_io =
  wio_buf :: "'b io_ops"
  wio_send_close :: "'b list \<Rightarrow> pyexn option"
  wio_sock_close :: "pyexn option"
  wio_detaches :: bool

type_synonym 'b wres = "'b writer \<times> pyexn option"

definition wr_init :: "'b sendbuf \<Rightarrow> 'b writer" where
  "wr_init b = \<lparr>wr_buf = b, wr_closing = False, wr_closed = False, wr_sent_close = []\<rparr>"

definition wr_write :: "'b writer_io \<Rightarrow> 'b list \<Rightarrow> 'b writer \<Rightarrow> 'b wres" where
  "wr_write io data w =
     (if wr_closing w \<or> wr_closed w then (w, Some RuntimeErr)
      else (case sb_write (wio_buf io) data (wr_buf w) of (b, r) \<Rightarrow> (w\<lparr>wr_buf := b\<rparr>, r)))"

fun wr_writelines :: "'b writer_io \<Rightarrow> 'b list list \<Rightarrow> 'b writer \<Rightarrow> 'b wres" where
  "wr_writelines io [] w = (w, None)"
| "wr_writelines io (line # lines) w =
     (case wr_write io line w of
        (w1, Some e) \<Rightarrow> (w1, Some e)
      | (w1, None) \<Rightarrow> wr_writelines io lines w1)"

definition wr_drain :: "'b writer_io \<Rightarrow> 'b writer \<Rightarrow> 'b writer \<times> go_on" where
  "wr_drain io w = (case sb_drain (wio_buf io) (wr_buf w) of (b, r) \<Rightarrow> (w\<lparr>wr_buf := b\<rparr>, r))"

definition wr_flush :: "'b writer_io \<Rightarrow> 'b writer \<Rightarrow> 'b writer \<times> go_on" where
  "wr_flush io w = (case sb_flush (wio_buf io) (wr_buf w) of (b, r) \<Rightarrow> (w\<lparr>wr_buf := b\<rparr>, r))"

definition wr_set_write_buffer_limits :: "int option \<Rightarrow> int option \<Rightarrow> 'b writer \<Rightarrow> 'b wres" where
  "wr_set_write_buffer_limits high low w =
     (case set_write_buffer_limits high low (wr_buf w) of (b, r) \<Rightarrow> (w\<lparr>wr_buf := b\<rparr>, r))"

definition can_write_eof :: "'b writer \<Rightarrow> bool" where
  "can_write_eof w = (\<not> wr_closing w \<and> \<not> wr_closed w \<and> \<not> sb_eof_pending (wr_buf w) \<and> sb_fileno_open (wr_buf w))"

definition wr_write_eof :: "'b writer_io \<Rightarrow> 'b writer \<Rightarrow> 'b wres" where
  "wr_write_eof io w =
     (if wr_closing w \<or> wr_closed w then (w, Some RuntimeErr)
      else if \<not> sb_fileno_open (wr_buf w) then (w, Some RuntimeErr)
      else (case sb_write_eof (wio_buf io) (wr_buf w) of (b, r) \<Rightarrow> (w\<lparr>wr_buf := b\<rparr>, r)))"

definition wr_close :: "'b writer \<Rightarrow> 'b writer" where
  "wr_close w = (if wr_closing w \<or> wr_closed w then w else w\<lparr>wr_closing := True, wr_buf := sb_close (wr_buf w)\<rparr>)"

definition wr_is_closing :: "'b writer \<Rightarrow> bool" where
  "wr_is_closing w = (wr_closing w \<or> wr_closed w)"

definition wr_wait_closed :: "'b writer_io \<Rightarrow> 'b writer \<Rightarrow> 'b wres" where
  "wr_wait_closed io w =
     (if wr_closed w then (w, None)
      else
        (let w1 = (if \<not> wr_closing w then wr_close w else w) in
         case steal_pending (wr_buf w1) of
           (b, Inl e) \<Rightarrow> (w1\<lparr>wr_buf := b\<rparr>, Some e)
         | (b, Inr stolen) \<Rightarrow>
             (let w2 = w1\<lparr>wr_buf := b\<rparr>; pending = (case stolen of None \<Rightarrow> [] | Some p \<Rightarrow> p) in
              if pending \<noteq> [] then
                (case wio_send_close io pending of
                   Some e \<Rightarrow> (w2, Some e)
                 | None \<Rightarrow> (w2\<lparr>wr_sent_close := wr_sent_close w2 @ [pending], wr_closed := True, wr_buf := sock_close (wio_detaches io) b\<rparr>, None))
              else
                (case arm_close_when_idle b of
                   (b2, Inl e) \<Rightarrow> (w2\<lparr>wr_buf := b2\<rparr>, Some e)
                 | (b2, Inr True) \<Rightarrow>
                     (if sb_fileno_open b2 then
                        (case wio_sock_close io of
                           Some e \<Rightarrow> (w2\<lparr>wr_buf := b2\<rparr>, Some e)
                         | None \<Rightarrow> (w2\<lparr>wr_buf := sock_close True b2, wr_closed := True\<rparr>, None))
                      else (w2\<lparr>wr_buf := b2, wr_closed := True\<rparr>, None))
                 | (b2, Inr False) \<Rightarrow> (w2\<lparr>wr_buf := b2, wr_closed := True\<rparr>, None)))))"

text \<open>\<open>except OSError: pass\<close>, \<open>except Exception: if not best_effort: raise\<close>; anything else propagates.\<close>

definition shutdown_stream_writer :: "'b writer_io \<Rightarrow> bool \<Rightarrow> 'b writer \<Rightarrow> 'b wres" where
  "shutdown_stream_writer io best_effort w =
     (case wr_wait_closed io (wr_close w) of
        (w1, None) \<Rightarrow> (w1, None)
      | (w1, Some e) \<Rightarrow>
          if is_OSError e then (w1, None)
          else if is_Exception e \<and> best_effort then (w1, None)
          else (w1, Some e))"

section \<open>Runs\<close>

text \<open>The writer's operations interleaved with the completions and late errors of its sends.\<close>

inductive wr_step :: "'b writer \<Rightarrow> 'b writer \<Rightarrow> bool" where
  w_write: "wr_step w (fst (wr_write io data w))"
| w_drain: "wr_step w (fst (wr_drain io w))"
| w_flush: "wr_step w (fst (wr_flush io w))"
| w_limits: "wr_step w (fst (wr_set_write_buffer_limits high low w))"
| w_write_eof: "wr_step w (fst (wr_write_eof io w))"
| w_close: "wr_step w (wr_close w)"
| w_wait_closed: "wr_step w (fst (wr_wait_closed io w))"
| w_complete: "sb_live (wr_buf w) = 1 \<Longrightarrow> wr_step w (w\<lparr>wr_buf := fst (on_done io exception (wr_buf w))\<rparr>)"
| w_queued_close: "wr_sent_close w \<noteq> [] \<Longrightarrow> wr_step w (w\<lparr>wr_buf := sock_close True (wr_buf w)\<rparr>)"
| w_forget_error: "wr_step w (w\<lparr>wr_buf := on_fire_forget_error exception (wr_buf w)\<rparr>)"

text \<open>What a step of the buffer may do to its close flags; a closed buffer accepts no bytes.\<close>

definition closes_ok :: "'b sendbuf \<Rightarrow> 'b sendbuf \<Rightarrow> bool" where
  "closes_ok s s' \<longleftrightarrow> (sb_closed s \<longrightarrow> sb_closed s' \<and> sb_written s' = sb_written s)
     \<and> (sb_sock_closes s = (if sb_fileno_open s then 0 else 1) \<longrightarrow> sb_sock_closes s' = (if sb_fileno_open s' then 0 else 1))"

lemma closes_ok_refl [simp]: "closes_ok s s"
  by (simp add: closes_ok_def)

lemma closes_ok_trans: "closes_ok s s1 \<Longrightarrow> closes_ok s1 s2 \<Longrightarrow> closes_ok s s2"
  by (simp add: closes_ok_def)

lemma closes_ok_same:
  "sb_closed s' = sb_closed s \<Longrightarrow> sb_written s' = sb_written s \<Longrightarrow> sb_sock_closes s' = sb_sock_closes s \<Longrightarrow> sb_fileno_open s' = sb_fileno_open s \<Longrightarrow> closes_ok s s'"
  by (simp add: closes_ok_def)

lemma closes_sock_close [simp]: "closes_ok s (sock_close c s)"
  by (simp add: closes_ok_def sock_close_def)

lemma closes_fire_forget: "closes_ok s (on_fire_forget_error exception s)"
proof (cases exception)
  case (Some e)
  let ?s1 = "notify_all (s\<lparr>sb_send_error := (case sb_send_error s of None \<Rightarrow> Some e | Some x \<Rightarrow> Some x),
     sb_closed := True, sb_active := False, sb_in_flight_bytes := 0\<rparr>)"
  have "closes_ok s ?s1" by (simp add: closes_ok_def notify_all_def)
  from closes_ok_trans [OF this closes_sock_close] show ?thesis using Some by (simp add: on_fire_forget_error_def)
qed (simp add: on_fire_forget_error_def)

lemma closes_during: "closes_ok s (during ds s)"
proof -
  have one: "closes_ok s (during_one d s)" for d and s :: "'a sendbuf"
  proof (cases d)
    case (IForget e)
    then show ?thesis by (simp add: closes_fire_forget)
  next
    case (IWrite data)
    have "closes_ok s (append_pending data (s\<lparr>sb_written := sb_written s @ data\<rparr>))" if "\<not> sb_closed s"
      using that by (simp add: closes_ok_def append_pending_def split: option.split)
    then show ?thesis using IWrite by simp
  qed (auto simp: closes_ok_def notify_all_def sb_close_def set_write_buffer_limits_def arm_close_when_idle_def split: option.split sum.split)
  show ?thesis unfolding during_def by (induction ds arbitrary: s) (auto intro: closes_ok_trans [OF one])
qed

lemma closes_submit_failed: "closes_ok s (fst (submit_failed chunk e s))"
  by (rule closes_ok_same) (simp_all add: submit_failed_def notify_all_def prepend_pending_def split: option.split)

lemma closes_maybe_shutdown: "closes_ok s (fst (maybe_shutdown io s))"
  by (rule closes_ok_same) (simp_all add: maybe_shutdown_def Let_def split: option.split)

lemma closes_leg_idle: "closes_ok s (fst (leg_idle io s))"
proof -
  obtain s1 r where m: "maybe_shutdown io (s\<lparr>sb_active := False\<rparr>) = (s1, r)" by fastforce
  have "closes_ok s (s\<lparr>sb_active := False\<rparr>)" by (rule closes_ok_same) simp_all
  then have 1: "closes_ok s s1"
    using closes_maybe_shutdown [of "s\<lparr>sb_active := False\<rparr>" io] m closes_ok_trans by fastforce
  have 2: "closes_ok s1 (notify_all s1)" "closes_ok s1 (notify_all (s1\<lparr>sb_close_when_idle := False\<rparr>))"
    by (rule closes_ok_same; simp add: notify_all_def)+
  show ?thesis
    using m closes_ok_trans [OF 1 2(1)] closes_ok_trans [OF closes_ok_trans [OF 1 2(2)] closes_sock_close]
    by (cases r) (simp_all add: leg_idle_def)
qed

lemma closes_take_pending: "closes_ok s (fst (take_pending s))"
  by (rule closes_ok_same) (simp_all add: take_pending_def split: option.split)

lemma closes_reserve_leg: "closes_ok s (fst (reserve_leg f s))"
proof -
  have "closes_ok s (fst (take_pending (s\<lparr>sb_active := True\<rparr>)))"
    by (rule closes_ok_trans [OF _ closes_take_pending]) (rule closes_ok_same, simp_all)
  then show ?thesis by (simp add: reserve_leg_def)
qed

lemma closes_submit_nowait: "closes_ok s (fst (submit_nowait io outs chunk s))"
proof (induction io outs chunk s rule: submit_nowait.induct)
  case (1 io outs chunk s)
  define s0 where "s0 = during (snd (answer outs)) s"
  have d: "closes_ok s s0" unfolding s0_def by (rule closes_during)
  note eq = submit_nowait.simps [of io outs chunk s, folded s0_def, unfolded Let_def s0_def [symmetric]]
  show ?case
  proof (cases "fst (answer outs)")
    case (Some e)
    then show ?thesis using closes_ok_trans [OF d closes_submit_failed] eq by simp
  next
    case None
    let ?s1 = "s0\<lparr>sb_out := sb_out s0 @ chunk\<rparr>"
    have n: "closes_ok s0 (notify_all (?s1\<lparr>sb_active := False, sb_in_flight_bytes := 0\<rparr>))"
      by (rule closes_ok_same) (simp_all add: notify_all_def)
    obtain s2 p where t: "take_pending (?s1\<lparr>sb_in_flight_bytes := 0\<rparr>) = (s2, p)" by fastforce
    have "closes_ok s0 (?s1\<lparr>sb_in_flight_bytes := 0\<rparr>)" by (rule closes_ok_same) simp_all
    then have 2: "closes_ok s s2" using closes_take_pending closes_ok_trans d t by (metis fst_conv)
    have 3: "closes_ok s2 (notify_all s2)" by (rule closes_ok_same) (simp_all add: notify_all_def)
    show ?thesis
    proof (cases p)
      case no: None
      then show ?thesis
        using None closes_ok_trans [OF d n] t closes_ok_trans [OF 2 closes_leg_idle] eq by simp
    next
      case (Some c)
      have "closes_ok (notify_all s2) (fst (submit_nowait io (tl outs) c (notify_all s2)))" if "sb_send_error s0 = None"
        using 1 [OF s0_def None refl _ t [symmetric] Some] that by simp
      then show ?thesis
        using None closes_ok_trans [OF d n] t Some closes_ok_trans [OF closes_ok_trans [OF 2 3]] eq by simp
    qed
  qed
qed

lemma closes_submit_wait: "closes_ok s (fst (submit_wait io chunk s))"
proof -
  define s0 where "s0 = during (snd (io_sendall_cb io chunk)) s"
  have d: "closes_ok s s0" unfolding s0_def by (rule closes_during)
  show ?thesis
  proof (cases "fst (io_sendall_cb io chunk)")
    case None
    have "closes_ok s0 (s0\<lparr>sb_out := sb_out s0 @ chunk, sb_live := Suc (sb_live s0)\<rparr>)" by (rule closes_ok_same) simp_all
    then show ?thesis using None closes_ok_trans [OF d] by (simp add: submit_wait_def Let_def s0_def)
  next
    case (Some e)
    then show ?thesis using closes_ok_trans [OF d closes_submit_failed] by (simp add: submit_wait_def Let_def s0_def)
  qed
qed

lemma closes_on_leg_complete: "closes_ok s (fst (on_leg_complete io exception s))"
proof -
  define s1 where "s1 = s\<lparr>sb_in_flight_bytes := 0, sb_send_error := (case exception of None \<Rightarrow> sb_send_error s | Some e \<Rightarrow> Some e)\<rparr>"
  have 1: "closes_ok s s1" by (rule closes_ok_same) (simp_all add: s1_def)
  obtain s2 p where t: "take_pending s1 = (s2, p)" by fastforce
  have eq: "on_leg_complete io exception s = (if sb_send_error s1 = None
      then (case take_pending s1 of
              (s2, None) \<Rightarrow> leg_idle io s2
            | (s2, Some next_chunk) \<Rightarrow> submit_wait io next_chunk (notify_all s2))
      else leg_idle io s1)" by (simp only: on_leg_complete_def s1_def Let_def)
  have 2: "closes_ok s s2" using closes_ok_trans [OF 1 closes_take_pending] t by simp
  have 3: "closes_ok s2 (notify_all s2)" by (rule closes_ok_same) (simp_all add: notify_all_def)
  show ?thesis
    unfolding eq t using closes_ok_trans [OF 1 closes_leg_idle] closes_ok_trans [OF 2 closes_leg_idle]
      closes_ok_trans [OF closes_ok_trans [OF 2 3] closes_submit_wait]
    by (cases p) simp_all
qed

lemma closes_on_done: "closes_ok s (fst (on_done io exception s))"
proof -
  obtain s1 r where c: "on_leg_complete io exception (s\<lparr>sb_live := sb_live s - 1\<rparr>) = (s1, r)" by fastforce
  have "closes_ok s (s\<lparr>sb_live := sb_live s - 1\<rparr>)" by (rule closes_ok_same) simp_all
  then have 1: "closes_ok s s1" using closes_on_leg_complete closes_ok_trans c by (metis fst_conv)
  have "closes_ok s1 (notify_all (s1\<lparr>sb_send_error := x, sb_active := a\<rparr>))" for x a
    by (rule closes_ok_same) (simp_all add: notify_all_def)
  then show ?thesis using c closes_ok_trans [OF 1] 1 by (cases r) (simp_all add: on_done_def Let_def)
qed

lemma closes_sb_write: "closes_ok s (fst (sb_write io data s))"
proof (cases "sb_closed s")
  case True
  then have "fst (sb_write io data s) = s" by (simp add: sb_write_def)
  then show ?thesis by simp
next
  case False
  let ?s1 = "append_pending data (s\<lparr>sb_written := sb_written s @ data\<rparr>)"
  have 1: "closes_ok s ?s1" using False by (simp add: closes_ok_def append_pending_def split: option.split)
  obtain s2 p where r: "reserve_leg False ?s1 = (s2, p)" by fastforce
  have 2: "closes_ok s s2" using closes_ok_trans [OF 1 closes_reserve_leg] r by (metis fst_conv)
  show ?thesis using r 2 closes_ok_trans [OF 2 closes_submit_wait] by (cases p) (simp_all add: sb_write_def)
qed

lemma closes_force_leg:
  assumes "reserve_leg True s = (s1, to_send)"
    and "(case to_send of None \<Rightarrow> (s1, None) | Some c \<Rightarrow> submit_nowait io (io_send_nowait io) c s1) = (s2, r)"
  shows "closes_ok s s2"
proof -
  have "closes_ok s s1" using closes_reserve_leg [of s True] assms(1) by simp
  moreover have "closes_ok s1 s2"
  proof (cases to_send)
    case (Some c)
    then show ?thesis using assms(2) closes_submit_nowait [of s1 io "io_send_nowait io" c] by simp
  qed (use assms(2) in simp)
  ultimately show ?thesis by (rule closes_ok_trans)
qed

lemma closes_drain_flush: "closes_ok s (fst (sb_drain io s))" "closes_ok s (fst (sb_flush io s))"
proof -
  obtain s1 c where f: "reserve_leg True s = (s1, c)" by fastforce
  obtain s2 r where e: "(case c of None \<Rightarrow> (s1, None) | Some c \<Rightarrow> submit_nowait io (io_send_nowait io) c s1) = (s2, r)" by fastforce
  have "closes_ok s s2" by (rule closes_force_leg [OF f e])
  then show "closes_ok s (fst (sb_drain io s))" "closes_ok s (fst (sb_flush io s))"
    using f e by (cases "sb_send_error s"; cases r; simp add: sb_drain_def sb_flush_def)+
qed

lemma closes_write_eof: "closes_ok s (fst (sb_write_eof io s))"
proof -
  let ?s = "s\<lparr>sb_eof_pending := True\<rparr>"
  obtain s1 c where f: "reserve_leg True ?s = (s1, c)" by fastforce
  have "closes_ok s ?s" by (rule closes_ok_same) simp_all
  then have 1: "closes_ok s s1" using closes_ok_trans [OF _ closes_reserve_leg] f by (metis fst_conv)
  obtain s2 r where e: "maybe_shutdown io s1 = (s2, r)" by fastforce
  have 2: "closes_ok s s2" using closes_ok_trans [OF 1 closes_maybe_shutdown [of s1 io]] e by simp
  have 3: "closes_ok s1 (notify_all s1)" "closes_ok s2 (notify_all s2)"
    by (rule closes_ok_same; simp add: notify_all_def)+
  show ?thesis
    using f e closes_ok_trans [OF 2 3(2)] closes_ok_trans [OF closes_ok_trans [OF 1 3(1)] closes_submit_nowait]
    by (cases c) (simp_all add: sb_write_eof_def)
qed

section \<open>Invariant\<close>

text \<open>The buffer's own invariant; a closed writer is closing and a closing writer has closed its buffer;
  the descriptor is closed at most once, and at most one payload goes out with \<open>sock_send_close\<close>.\<close>

definition wr_inv :: "'b writer \<Rightarrow> bool" where
  "wr_inv w \<longleftrightarrow> sb_inv (wr_buf w) \<and> (wr_closed w \<longrightarrow> wr_closing w) \<and> (wr_closing w \<longrightarrow> sb_closed (wr_buf w))
     \<and> sb_sock_closes (wr_buf w) = (if sb_fileno_open (wr_buf w) then 0 else 1)
     \<and> (wr_sent_close w = [] \<or> wr_closed w \<and> length (wr_sent_close w) = 1)"

lemma wr_inv_buf: "wr_inv w \<Longrightarrow> sb_inv b \<Longrightarrow> closes_ok (wr_buf w) b \<Longrightarrow> wr_inv (w\<lparr>wr_buf := b\<rparr>)"
  by (auto simp: wr_inv_def closes_ok_def)

lemma steal_pending_facts:
  assumes "steal_pending s = (b, r)" "sb_inv s"
  shows "sb_inv b" "closes_ok s b" "sb_written b = sb_written s" "sb_fileno_open b = sb_fileno_open s" "sb_active b = sb_active s"
    "\<forall>e. r \<noteq> Inl e \<Longrightarrow> sb_send_error b = None \<and> (\<not> sb_active b \<longrightarrow> pending_list b = [])"
proof -
  show "sb_inv b" using sb_step_inv [OF b_steal assms(2)] assms(1) by simp
  show "closes_ok s b" "sb_written b = sb_written s" "sb_fileno_open b = sb_fileno_open s" "sb_active b = sb_active s"
    "\<forall>e. r \<noteq> Inl e \<Longrightarrow> sb_send_error b = None \<and> (\<not> sb_active b \<longrightarrow> pending_list b = [])"
    using assms(1) by (cases "sb_send_error s"; auto simp: steal_pending_def closes_ok_def pending_list_def split: if_splits)+
qed

lemma wr_close_inv: "wr_inv w \<Longrightarrow> wr_inv (wr_close w)"
  using sb_step_inv [OF b_close, of "wr_buf w"]
  by (auto simp: wr_inv_def wr_close_def sb_close_def notify_all_def)

lemma arm_close_facts:
  assumes "arm_close_when_idle s = (b, r)" "sb_inv s"
  shows "sb_inv b" "closes_ok s b" "sb_written b = sb_written s" "sb_fileno_open b = sb_fileno_open s" "sb_active b = sb_active s"
    "pending_list b = pending_list s" "sb_send_error b = sb_send_error s"
    "r = Inr True \<Longrightarrow> \<not> sb_active b \<and> pending_list b = []" "r = Inr False \<Longrightarrow> sb_close_when_idle b \<and> (sb_active b \<or> pending_list b \<noteq> [])"
proof -
  show "sb_inv b" using sb_step_inv [OF b_arm_close assms(2)] assms(1) by simp
  show "closes_ok s b" "sb_written b = sb_written s" "sb_fileno_open b = sb_fileno_open s" "sb_active b = sb_active s"
    "pending_list b = pending_list s" "sb_send_error b = sb_send_error s"
    "r = Inr True \<Longrightarrow> \<not> sb_active b \<and> pending_list b = []" "r = Inr False \<Longrightarrow> sb_close_when_idle b \<and> (sb_active b \<or> pending_list b \<noteq> [])"
    using assms(1) by (cases "sb_send_error s"; auto simp: arm_close_when_idle_def closes_ok_def pending_list_def split: if_splits)+
qed

text \<open>How \<open>wait_closed\<close> can end on an open writer.\<close>

definition close_settled :: "'b writer \<Rightarrow> bool" where
  "close_settled w \<longleftrightarrow>
     (sb_active (wr_buf w) \<and> sb_close_when_idle (wr_buf w))
     \<or> (\<not> sb_active (wr_buf w) \<and> pending_list (wr_buf w) = [] \<and> (wr_sent_close w \<noteq> [] \<or> \<not> sb_fileno_open (wr_buf w)))"

lemma wr_close_facts [simp]:
  "wr_closed (wr_close w) = wr_closed w" "wr_sent_close (wr_close w) = wr_sent_close w"
  "sb_written (wr_buf (wr_close w)) = sb_written (wr_buf w)" "wr_closing (wr_close w) = (wr_closing w \<or> \<not> wr_closed w)"
  "sb_send_error (wr_buf (wr_close w)) = sb_send_error (wr_buf w)" "sb_fileno_open (wr_buf (wr_close w)) = sb_fileno_open (wr_buf w)"
  by (auto simp: wr_close_def sb_close_def notify_all_def)

lemma wait_closed_result:
  assumes i: "wr_inv w" and o: "\<not> wr_closed w" and e: "wr_wait_closed io w = (w', r)"
  shows "wr_inv w' \<and> wr_closing w' \<and> sb_written (wr_buf w') = sb_written (wr_buf w)
    \<and> (r = None \<longrightarrow> wr_closed w' \<and> sb_send_error (wr_buf w') = None \<and> close_settled w')
    \<and> (r \<noteq> None \<longrightarrow> \<not> wr_closed w' \<and> sb_fileno_open (wr_buf w') = sb_fileno_open (wr_buf w))"
proof -
  define w1 where "w1 = (if \<not> wr_closing w then wr_close w else w)"
  have w1: "wr_inv w1" "wr_closing w1" "\<not> wr_closed w1" "sb_written (wr_buf w1) = sb_written (wr_buf w)"
    "sb_fileno_open (wr_buf w1) = sb_fileno_open (wr_buf w)" "wr_sent_close w1 = []"
    using i o wr_close_inv [OF i] by (auto simp: w1_def wr_inv_def)
  obtain b q where st: "steal_pending (wr_buf w1) = (b, q)" by fastforce
  have sb: "sb_inv (wr_buf w1)" using w1(1) by (simp add: wr_inv_def)
  note f = steal_pending_facts [OF st sb]
  define w2 where "w2 = w1\<lparr>wr_buf := b\<rparr>"
  have w2: "wr_inv w2" "wr_closing w2" "\<not> wr_closed w2" "wr_buf w2 = b" "wr_sent_close w2 = []"
    using wr_inv_buf [OF w1(1) f(1,2)] w1 by (simp_all add: w2_def)
  have eq: "wr_wait_closed io w = (case (b, q) of (b, Inl e) \<Rightarrow> (w1\<lparr>wr_buf := b\<rparr>, Some e)
         | (b, Inr stolen) \<Rightarrow>
             (let w2 = w1\<lparr>wr_buf := b\<rparr>; pending = (case stolen of None \<Rightarrow> [] | Some p \<Rightarrow> p) in
              if pending \<noteq> [] then
                (case wio_send_close io pending of
                   Some e \<Rightarrow> (w2, Some e)
                 | None \<Rightarrow> (w2\<lparr>wr_sent_close := wr_sent_close w2 @ [pending], wr_closed := True, wr_buf := sock_close (wio_detaches io) b\<rparr>, None))
              else
                (case arm_close_when_idle b of
                   (b2, Inl e) \<Rightarrow> (w2\<lparr>wr_buf := b2\<rparr>, Some e)
                 | (b2, Inr True) \<Rightarrow>
                     (if sb_fileno_open b2 then
                        (case wio_sock_close io of
                           Some e \<Rightarrow> (w2\<lparr>wr_buf := b2\<rparr>, Some e)
                         | None \<Rightarrow> (w2\<lparr>wr_buf := sock_close True b2, wr_closed := True\<rparr>, None))
                      else (w2\<lparr>wr_buf := b2, wr_closed := True\<rparr>, None))
                 | (b2, Inr False) \<Rightarrow> (w2\<lparr>wr_buf := b2, wr_closed := True\<rparr>, None))))"
    unfolding wr_wait_closed_def Let_def w1_def [symmetric] st using o by (simp only: if_False)
  show ?thesis
  proof (cases q)
    case (Inl x)
    then have "w' = w2" "r = Some x" using e eq by (simp_all add: w2_def)
    then show ?thesis using w2 f(3,4) w1(4,5) by simp
  next
    case (Inr stolen)
    define pend where "pend = (case stolen of None \<Rightarrow> [] | Some p \<Rightarrow> p)"
    have ne: "sb_send_error b = None" "\<not> sb_active b \<longrightarrow> pending_list b = []" using f(6) Inr by auto
    show ?thesis
    proof (cases "pend = []")
      case False
      then have na: "\<not> sb_active b"
        using st Inr f(5) by (auto simp: pend_def steal_pending_def split: option.splits if_splits)
      show ?thesis
      proof (cases "wio_send_close io pend")
        case None
        then have w': "w' = w2\<lparr>wr_sent_close := [pend], wr_closed := True, wr_buf := sock_close (wio_detaches io) b\<rparr>" "r = None"
          using e eq Inr False w2(5) by (simp_all add: w2_def pend_def Let_def)
        have "pending_list (sock_close (wio_detaches io) b) = []" using ne(2) na by (simp add: sock_close_def pending_list_def)
        then show ?thesis using w' w2 na ne f(1,3) w1(4) sock_close_inv [OF f(1), of "wio_detaches io"]
          by (auto simp: wr_inv_def close_settled_def sock_close_def)
      next
        case (Some x)
        then have "w' = w2" "r = Some x" using e eq Inr False by (simp_all add: w2_def pend_def Let_def)
        then show ?thesis using w2 f(3,4) w1(4,5) by simp
      qed
    next
      case True
      obtain b2 a where ar: "arm_close_when_idle b = (b2, a)" by fastforce
      note g = arm_close_facts [OF ar f(1)]
      have w3: "wr_inv (w2\<lparr>wr_buf := b2\<rparr>)" using wr_inv_buf [OF w2(1) g(1)] g(2) w2(4) by simp
      have w4: "wr_inv (w2\<lparr>wr_buf := b2, wr_closed := True\<rparr>)" using w3 w2(2,5) by (simp add: wr_inv_def)
      have w5: "wr_inv (w2\<lparr>wr_buf := sock_close True b2, wr_closed := True\<rparr>)"
        using wr_inv_buf [OF w4 sock_close_inv [OF g(1), of True]] by (simp add: wr_inv_def)
      have eq2: "(w', r) = (case (b2, a) of
                   (b2, Inl e) \<Rightarrow> (w2\<lparr>wr_buf := b2\<rparr>, Some e)
                 | (b2, Inr True) \<Rightarrow>
                     (if sb_fileno_open b2 then
                        (case wio_sock_close io of
                           Some e \<Rightarrow> (w2\<lparr>wr_buf := b2\<rparr>, Some e)
                         | None \<Rightarrow> (w2\<lparr>wr_buf := sock_close True b2, wr_closed := True\<rparr>, None))
                      else (w2\<lparr>wr_buf := b2, wr_closed := True\<rparr>, None))
                 | (b2, Inr False) \<Rightarrow> (w2\<lparr>wr_buf := b2, wr_closed := True\<rparr>, None))"
        unfolding e [symmetric] eq Inr
        by (simp only: prod.case sum.case Let_def pend_def [symmetric] w2_def [symmetric] True ar not_True_eq_False if_False simp_thms)
      consider x where "a = Inl x" | "a = Inr True" | "a = Inr False" by (cases a) auto
      then show ?thesis
      proof cases
        case 1
        then show ?thesis using eq2 w3 w2 g(3,4) f(3,4) w1(4,5) by simp
      next
        case 2
        have fin: "\<not> sb_active b2" "pending_list b2 = []" "sb_send_error b2 = None" using g(7,8) 2 ne(1) by simp_all
        consider "\<not> sb_fileno_open b2" | "sb_fileno_open b2" "wio_sock_close io = None" | x where "sb_fileno_open b2" "wio_sock_close io = Some x"
          by (cases "wio_sock_close io") auto
        then show ?thesis
        proof cases
          case 1
          then show ?thesis using eq2 2 w4 w2 fin g(3) f(3) w1(4) by (simp add: close_settled_def)
        next
          case 2
          have "pending_list (sock_close True b2) = []" using fin(2) by (simp add: sock_close_def pending_list_def)
          then show ?thesis using eq2 \<open>a = Inr True\<close> 2 w5 w2 fin g(3) f(3) w1(4) by (simp add: close_settled_def sock_close_def)
        next
          case 3
          then show ?thesis using eq2 2 w3 w2 g(3,4) f(3,4) w1(4,5) by simp
        qed
      next
        case 3
        then show ?thesis using eq2 w4 w2 g(3,5,6,7,9) f(3) w1(4) ne by (auto simp: close_settled_def)
      qed
    qed
  qed
qed

lemma wr_step_inv: "wr_step w w' \<Longrightarrow> wr_inv w \<Longrightarrow> wr_inv w'"
proof (induction rule: wr_step.induct)
  case (w_write w io data)
  have "wr_inv (w\<lparr>wr_buf := fst (sb_write (wio_buf io) data (wr_buf w))\<rparr>)"
    using w_write by (intro wr_inv_buf closes_sb_write sb_write_inv) (auto simp: wr_inv_def)
  then show ?case using w_write by (simp add: wr_write_def case_prod_beta)
next
  case (w_drain w io)
  have "wr_inv (w\<lparr>wr_buf := fst (sb_drain (wio_buf io) (wr_buf w))\<rparr>)"
    using w_drain by (intro wr_inv_buf closes_drain_flush sb_drain_inv) (auto simp: wr_inv_def)
  then show ?case by (simp add: wr_drain_def case_prod_beta)
next
  case (w_flush w io)
  have "wr_inv (w\<lparr>wr_buf := fst (sb_flush (wio_buf io) (wr_buf w))\<rparr>)"
    using w_flush by (intro wr_inv_buf closes_drain_flush sb_flush_inv) (auto simp: wr_inv_def)
  then show ?case by (simp add: wr_flush_def case_prod_beta)
next
  case (w_limits w high low)
  have "closes_ok (wr_buf w) (fst (set_write_buffer_limits high low (wr_buf w)))"
    by (rule closes_ok_same) (simp_all add: set_write_buffer_limits_def notify_all_def split: sum.split prod.split)
  then have "wr_inv (w\<lparr>wr_buf := fst (set_write_buffer_limits high low (wr_buf w))\<rparr>)"
    using w_limits sb_step_inv [OF b_limits] by (intro wr_inv_buf) (auto simp: wr_inv_def)
  then show ?case by (simp add: wr_set_write_buffer_limits_def case_prod_beta)
next
  case (w_write_eof w io)
  have "wr_inv (w\<lparr>wr_buf := fst (sb_write_eof (wio_buf io) (wr_buf w))\<rparr>)"
    using w_write_eof by (intro wr_inv_buf closes_write_eof sb_write_eof_inv) (auto simp: wr_inv_def)
  then show ?case using w_write_eof by (simp add: wr_write_eof_def case_prod_beta)
next
  case (w_close w) then show ?case by (rule wr_close_inv)
next
  case (w_wait_closed w io)
  obtain w' r where e: "wr_wait_closed io w = (w', r)" by fastforce
  show ?case
  proof (cases "wr_closed w")
    case True
    then show ?thesis using w_wait_closed by (simp add: wr_wait_closed_def)
  next
    case False
    then show ?thesis using wait_closed_result [OF w_wait_closed False e] e by simp
  qed
next
  case (w_complete w io exception)
  then show ?case by (intro wr_inv_buf closes_on_done on_done_inv) (auto simp: wr_inv_def)
next
  case (w_queued_close w)
  then show ?case by (intro wr_inv_buf closes_sock_close sock_close_inv) (auto simp: wr_inv_def)
next
  case (w_forget_error w exception)
  then show ?case by (intro wr_inv_buf closes_fire_forget on_fire_forget_error_inv) (auto simp: wr_inv_def)
qed

lemma wr_reach_inv: "wr_step\<^sup>*\<^sup>* (wr_init (sb_init high low min_write)) w \<Longrightarrow> wr_inv w"
proof (induction rule: rtranclp_induct)
  case base
  show ?case by (simp add: wr_init_def wr_inv_def sb_init_def sb_inv_def sb_bytes_def pending_list_def)
next
  case (step w1 w2)
  then show ?case using wr_step_inv by blast
qed

text \<open>The last send of an armed buffer closes the descriptor.\<close>

lemma armed_completion_closes:
  assumes "sb_inv s" "sb_send_error s = None" "sb_close_when_idle s" "pending_list s = []" "on_done io None s = (s', None)"
  shows "\<not> sb_fileno_open s'"
proof -
  define s1 where "s1 = s\<lparr>sb_live := sb_live s - 1, sb_in_flight_bytes := 0, sb_send_error := None\<rparr>"
  have p: "sb_pending s1 = None"
    using assms(1,4) by (cases "sb_pending s") (auto simp: s1_def sb_inv_def sb_bytes_def pending_list_def)
  have t: "take_pending s1 = (s1\<lparr>sb_pending := None, sb_pending_bytes := 0\<rparr>, None)" using p by (simp add: take_pending_def)
  have l: "leg_idle io (s1\<lparr>sb_pending := None, sb_pending_bytes := 0\<rparr>) = (s', None)"
    using assms(2,5) t by (auto simp: on_done_def on_leg_complete_def Let_def s1_def split: prod.splits option.splits)
  obtain s2 r where m: "maybe_shutdown io (s1\<lparr>sb_pending := None, sb_pending_bytes := 0, sb_active := False\<rparr>) = (s2, r)" by fastforce
  have "sb_close_when_idle s2"
    using m assms(3) by (auto simp: maybe_shutdown_def s1_def Let_def split: if_splits option.splits)
  then show ?thesis
    using l m by (cases r) (auto simp: leg_idle_def sock_close_def notify_all_def split: if_splits)
qed

text \<open>A step of a closing writer leaves it closing and accepts nothing.\<close>

lemma closing_step:
  assumes "wr_step w w1" "wr_inv w" "wr_is_closing w"
  shows "wr_is_closing w1 \<and> sb_written (wr_buf w1) = sb_written (wr_buf w)"
proof -
  have c: "wr_closing w" "sb_closed (wr_buf w)" using assms(2,3) by (auto simp: wr_inv_def wr_is_closing_def)
  have buf: "wr_is_closing (w\<lparr>wr_buf := b\<rparr>) \<and> sb_written (wr_buf (w\<lparr>wr_buf := b\<rparr>)) = sb_written (wr_buf w)"
    if "closes_ok (wr_buf w) b" for b
    using that c by (simp add: closes_ok_def wr_is_closing_def)
  show ?thesis using assms(1)
  proof cases
    case (w_write io data)
    then show ?thesis using c by (simp add: wr_write_def wr_is_closing_def)
  next
    case (w_drain io)
    then show ?thesis using buf [OF closes_drain_flush(1)] by (simp add: wr_drain_def case_prod_beta)
  next
    case (w_flush io)
    then show ?thesis using buf [OF closes_drain_flush(2)] by (simp add: wr_flush_def case_prod_beta)
  next
    case (w_limits high low)
    have "closes_ok (wr_buf w) (fst (set_write_buffer_limits high low (wr_buf w)))"
      by (rule closes_ok_same) (simp_all add: set_write_buffer_limits_def notify_all_def split: sum.split prod.split)
    from buf [OF this] show ?thesis unfolding w_limits by (simp add: wr_set_write_buffer_limits_def case_prod_beta)
  next
    case (w_write_eof io)
    then show ?thesis using c by (simp add: wr_write_eof_def wr_is_closing_def)
  next
    case w_close
    then show ?thesis using c by (simp add: wr_close_def wr_is_closing_def)
  next
    case (w_wait_closed io)
    obtain w' q where e: "wr_wait_closed io w = (w', q)" by fastforce
    show ?thesis
    proof (cases "wr_closed w")
      case True
      then show ?thesis using w_wait_closed c by (simp add: wr_wait_closed_def wr_is_closing_def)
    next
      case False
      have "wr_closing w'" "sb_written (wr_buf w') = sb_written (wr_buf w)" using wait_closed_result [OF assms(2) False e] by blast+
      then show ?thesis using w_wait_closed e by (simp add: wr_is_closing_def)
    qed
  next
    case (w_complete io exception)
    then show ?thesis using buf [OF closes_on_done] by simp
  next
    case w_queued_close
    then show ?thesis using buf [OF closes_sock_close] by simp
  next
    case (w_forget_error exception)
    then show ?thesis using buf [OF closes_fire_forget] by simp
  qed
qed

section \<open>Properties\<close>

text \<open>C22: Closing a writer.  Over every interleaving of writer calls with completions and late errors of sends,
  on both backends: the descriptor is closed at most once, and at most one payload goes out with
  \<open>sock_send_close\<close>; \<open>close\<close> makes the writer closing and nothing changes that, and a closing writer refuses every
  write and half-close, whatever the data, and stays as it is.  When \<open>wait_closed\<close> returns on an open writer,
  nothing accepted before is dropped, and either the descriptor was closed or the backlog left with
  \<open>sock_send_close\<close>, or a send is in flight and the close is armed, and then the completion of the last send
  closes the descriptor.\<close>

theorem writer_closes:
  assumes "wr_step\<^sup>*\<^sup>* (wr_init (sb_init high low min_write)) w"
  shows "sb_sock_closes (wr_buf w) = (if sb_fileno_open (wr_buf w) then 0 else 1) \<and> length (wr_sent_close w) \<le> 1
    \<and> wr_is_closing (wr_close w)
    \<and> (wr_is_closing w \<longrightarrow> wr_write io data w = (w, Some RuntimeErr) \<and> wr_write_eof io w = (w, Some RuntimeErr)
         \<and> (\<forall>w1. wr_step w w1 \<longrightarrow> wr_is_closing w1 \<and> sb_written (wr_buf w1) = sb_written (wr_buf w)))
    \<and> (\<not> wr_closed w \<and> wr_wait_closed io w = (w', None) \<longrightarrow>
        wr_closed w' \<and> sb_written (wr_buf w') = sb_written (wr_buf w) \<and> sb_written (wr_buf w') = sb_out (wr_buf w') @ pending_list (wr_buf w')
        \<and> ((\<not> sb_active (wr_buf w') \<and> sb_out (wr_buf w') = sb_written (wr_buf w') \<and> (wr_sent_close w' \<noteq> [] \<or> \<not> sb_fileno_open (wr_buf w')))
           \<or> (sb_active (wr_buf w') \<and>
              (\<forall>s'. pending_list (wr_buf w') = [] \<and> on_done (wio_buf io) None (wr_buf w') = (s', None) \<longrightarrow> \<not> sb_fileno_open s'))))"
proof (intro conjI impI allI)
  have i: "wr_inv w" by (rule wr_reach_inv [OF assms])
  show "sb_sock_closes (wr_buf w) = (if sb_fileno_open (wr_buf w) then 0 else 1)" "length (wr_sent_close w) \<le> 1"
    using i by (auto simp: wr_inv_def)
  show "wr_is_closing (wr_close w)" by (simp add: wr_is_closing_def)
  show "wr_write io data w = (w, Some RuntimeErr)" "wr_write_eof io w = (w, Some RuntimeErr)" if "wr_is_closing w"
    using that by (auto simp: wr_write_def wr_write_eof_def wr_is_closing_def)
  show "wr_is_closing w1" "sb_written (wr_buf w1) = sb_written (wr_buf w)" if "wr_is_closing w" "wr_step w w1" for w1
    using closing_step [OF that(2) i that(1)] by simp_all
next
  assume "\<not> wr_closed w \<and> wr_wait_closed io w = (w', None)"
  note r = wait_closed_result [OF wr_reach_inv [OF assms]] and h = this
  have r: "wr_inv w'" "sb_written (wr_buf w') = sb_written (wr_buf w)" "wr_closed w'" "sb_send_error (wr_buf w') = None" "close_settled w'"
    using r h by auto
  then have i: "sb_inv (wr_buf w')" by (auto simp: wr_inv_def)
  show "wr_closed w'" "sb_written (wr_buf w') = sb_written (wr_buf w)" by (rule r)+
  show b: "sb_written (wr_buf w') = sb_out (wr_buf w') @ pending_list (wr_buf w')" using i by (simp add: sb_inv_def sb_bytes_def)
  have "\<not> sb_fileno_open s'"
    if "sb_close_when_idle (wr_buf w')" "pending_list (wr_buf w') = []" "on_done (wio_buf io) None (wr_buf w') = (s', None)" for s'
    using armed_completion_closes [OF i r(4) that] .
  then show "(\<not> sb_active (wr_buf w') \<and> sb_out (wr_buf w') = sb_written (wr_buf w') \<and> (wr_sent_close w' \<noteq> [] \<or> \<not> sb_fileno_open (wr_buf w')))
           \<or> (sb_active (wr_buf w') \<and>
              (\<forall>s'. pending_list (wr_buf w') = [] \<and> on_done (wio_buf io) None (wr_buf w') = (s', None) \<longrightarrow> \<not> sb_fileno_open s'))"
    using r(5) b unfolding close_settled_def by auto
qed

definition quiet_io :: "nat writer_io" where
  "quiet_io = \<lparr>wio_buf = ok_io, wio_send_close = (\<lambda>_. None), wio_sock_close = None, wio_detaches = False\<rparr>"

theorem writer_closes_witness:
  "sb_out (wr_buf (fst (wr_wait_closed quiet_io (fst (wr_write quiet_io [1, 2] (wr_init (sb_init 10 2 4))))))) = [1, 2]
   \<and> wr_sent_close (fst (wr_wait_closed quiet_io (fst (wr_write quiet_io [1, 2] (wr_init (sb_init 10 2 4)))))) = [[1, 2]]"
proof -
  let ?w = "fst (wr_write quiet_io [1, 2] (wr_init (sb_init 10 2 4)))"
  let ?w' = "fst (wr_wait_closed quiet_io ?w)"
  have s: "wr_buf ?w = sb_sample" "\<not> wr_closed ?w"
    by (simp_all add: wr_write_def wr_init_def quiet_io_def sb_sample_def split: prod.split)
  have w: "?w = \<lparr>wr_buf = sb_sample, wr_closing = False, wr_closed = False, wr_sent_close = []\<rparr>"
    by (simp add: wr_write_def wr_init_def quiet_io_def sb_sample_def split: prod.split)
  have e: "wr_wait_closed quiet_io ?w = (?w', None)" "wr_sent_close ?w' = [[1, 2]]" "\<not> sb_active (wr_buf ?w')" "sb_written (wr_buf ?w) = [1, 2]"
    unfolding w by (simp_all add: wr_wait_closed_def wr_close_def sb_close_def steal_pending_def notify_all_def quiet_io_def
        sb_sample_simps sock_close_def Let_def)
  have r: "wr_step\<^sup>*\<^sup>* (wr_init (sb_init 10 2 4)) ?w" by (rule r_into_rtranclp) (rule w_write)
  from writer_closes [OF r, of quiet_io "[]" ?w'] e s(2) show ?thesis by auto
qed

text \<open>A sticky send error makes \<open>wait_closed\<close> raise before it closes the socket: a \<open>shutdown_stream_writer\<close>
  that meets an \<open>OSError\<close> reports success and leaves the descriptor open and the writer unclosed.\<close>

theorem shutdown_leaves_socket_open:
  assumes "sb_send_error (wr_buf w) = Some (OSErr n)" and "\<not> wr_closed w" and "sb_fileno_open (wr_buf w)"
  shows "\<exists>w'. shutdown_stream_writer io best_effort w = (w', None) \<and> \<not> wr_closed w' \<and> sb_fileno_open (wr_buf w')"
proof -
  let ?w1 = "wr_close w"
  have "steal_pending (wr_buf ?w1) = (wr_buf ?w1, Inl (OSErr n))" using assms(1) by (simp add: steal_pending_def)
  moreover have "wr_closing ?w1" "\<not> wr_closed ?w1" using assms(2) by simp_all
  ultimately have "wr_wait_closed io ?w1 = (?w1\<lparr>wr_buf := wr_buf ?w1\<rparr>, Some (OSErr n))" by (simp add: wr_wait_closed_def)
  then show ?thesis using assms(2,3) by (simp add: shutdown_stream_writer_def)
qed

end
