(* ===== verification/Locks.thy ===== *)
theory Locks
  imports Waiters
begin

text \<open>
  \<open>Lock\<close>, \<open>Semaphore\<close> and \<open>BoundedSemaphore\<close> of \<open>tealetio/locks.py\<close>.  Each is an interpretation of
  \<open>slot_primitive\<close>: mutual exclusion, the bound on granted slots and the absence of lost wake-ups hold
  for every interleaving in which a woken call resumes before another call takes its slot and without an
  exception being thrown into it.  Outside that window they fail, which is proved as well.
\<close>

section \<open>Lock\<close>

record lock =
  lk_locked :: bool
  lk_waiters :: "nat list"

definition lock_init :: lock where
  "lock_init = \<lparr>lk_locked = False, lk_waiters = []\<rparr>"

definition lock_locked :: "lock \<Rightarrow> bool" where
  "lock_locked l = lk_locked l"

text \<open>\<open>sacquire\<close> up to \<open>waiter.swait()\<close>, the code after it, and its \<open>except\<close> block.\<close>

definition lock_sacquire :: "lock \<Rightarrow> wstore \<Rightarrow> lock \<times> wstore \<times> bool seg" where
  "lock_sacquire l ws =
     (if \<not> lk_locked l then (l\<lparr>lk_locked := True\<rparr>, ws, SRet True)
      else (let (waiter, ws1) = new_waiter ws
            in (l\<lparr>lk_waiters := lk_waiters l @ [waiter]\<rparr>, ws1, SWait waiter)))"

definition lock_sacquire_resume :: "lock \<Rightarrow> lock" where
  "lock_sacquire_resume l = l\<lparr>lk_locked := True\<rparr>"

definition lock_sacquire_throw :: "nat \<Rightarrow> lock \<Rightarrow> lock" where
  "lock_sacquire_throw waiter l = l\<lparr>lk_waiters := remove1 waiter (lk_waiters l)\<rparr>"

text \<open>The coroutine \<open>acquire\<close> has the same segments around \<open>await waiter.wait()\<close>.\<close>

definition lock_acquire :: "lock \<Rightarrow> wstore \<Rightarrow> lock \<times> wstore \<times> bool seg" where
  "lock_acquire l ws =
     (if \<not> lk_locked l then (l\<lparr>lk_locked := True\<rparr>, ws, SRet True)
      else (let (waiter, ws1) = new_waiter ws
            in (l\<lparr>lk_waiters := lk_waiters l @ [waiter]\<rparr>, ws1, SWait waiter)))"

definition lock_release :: "lock \<Rightarrow> wstore \<Rightarrow> lock \<times> wstore \<times> (pyexn + unit)" where
  "lock_release l ws =
     (if \<not> lk_locked l then (l, ws, Inl RuntimeErr)
      else (let (waiters, ws1) = wake_first (lk_waiters l) ws
            in (l\<lparr>lk_locked := False, lk_waiters := waiters\<rparr>, ws1, Inr ())))"

definition lock_ops :: "lock slot_ops" where
  "lock_ops = \<lparr>op_acquire = lock_sacquire, op_resume = lock_sacquire_resume,
     op_throw = lock_sacquire_throw, op_release = lock_release\<rparr>"

definition lock_avail :: "lock \<Rightarrow> int" where
  "lock_avail l = (if lk_locked l then 0 else 1)"

section \<open>Semaphore and BoundedSemaphore\<close>

record sema =
  sm_value :: int
  sm_waiters :: "nat list"

definition sem_init :: "int \<Rightarrow> pyexn + sema" where
  "sem_init value = (if value < 0 then Inl ValueErr else Inr \<lparr>sm_value = value, sm_waiters = []\<rparr>)"

definition sem_locked :: "sema \<Rightarrow> bool" where
  "sem_locked m = (sm_value m = 0)"

definition sem_sacquire :: "sema \<Rightarrow> wstore \<Rightarrow> sema \<times> wstore \<times> bool seg" where
  "sem_sacquire m ws =
     (if 0 < sm_value m then (m\<lparr>sm_value := sm_value m - 1\<rparr>, ws, SRet True)
      else (let (waiter, ws1) = new_waiter ws
            in (m\<lparr>sm_waiters := sm_waiters m @ [waiter]\<rparr>, ws1, SWait waiter)))"

definition sem_sacquire_resume :: "sema \<Rightarrow> sema" where
  "sem_sacquire_resume m = m\<lparr>sm_value := sm_value m - 1\<rparr>"

definition sem_sacquire_throw :: "nat \<Rightarrow> sema \<Rightarrow> sema" where
  "sem_sacquire_throw waiter m = m\<lparr>sm_waiters := remove1 waiter (sm_waiters m)\<rparr>"

definition sem_acquire :: "sema \<Rightarrow> wstore \<Rightarrow> sema \<times> wstore \<times> bool seg" where
  "sem_acquire m ws =
     (if 0 < sm_value m then (m\<lparr>sm_value := sm_value m - 1\<rparr>, ws, SRet True)
      else (let (waiter, ws1) = new_waiter ws
            in (m\<lparr>sm_waiters := sm_waiters m @ [waiter]\<rparr>, ws1, SWait waiter)))"

definition sem_release :: "sema \<Rightarrow> wstore \<Rightarrow> sema \<times> wstore \<times> (pyexn + unit)" where
  "sem_release m ws =
     (let (waiters, ws1) = wake_first (sm_waiters m) ws
      in (m\<lparr>sm_value := sm_value m + 1, sm_waiters := waiters\<rparr>, ws1, Inr ()))"

definition bounded_release :: "int \<Rightarrow> sema \<Rightarrow> wstore \<Rightarrow> sema \<times> wstore \<times> (pyexn + unit)" where
  "bounded_release bound m ws =
     (if bound \<le> sm_value m then (m, ws, Inl ValueErr) else sem_release m ws)"

definition sem_ops :: "sema slot_ops" where
  "sem_ops = \<lparr>op_acquire = sem_sacquire, op_resume = sem_sacquire_resume,
     op_throw = sem_sacquire_throw, op_release = sem_release\<rparr>"

definition bounded_ops :: "int \<Rightarrow> sema slot_ops" where
  "bounded_ops bound = \<lparr>op_acquire = sem_sacquire, op_resume = sem_sacquire_resume,
     op_throw = sem_sacquire_throw, op_release = bounded_release bound\<rparr>"

text \<open>A fresh primitive with no call in progress.\<close>

definition fresh_sys :: "'l \<Rightarrow> 'l slot_sys" where
  "fresh_sys l = \<lparr>sy_obj = l, sy_ws = empty_wstore, sy_parked = {}, sy_held = 0\<rparr>"

section \<open>The contract holds\<close>

lemmas lock_defs = lock_sacquire_def lock_sacquire_resume_def lock_sacquire_throw_def lock_release_def
  lock_ops_def lock_avail_def
lemmas sem_defs = sem_sacquire_def sem_sacquire_resume_def sem_sacquire_throw_def sem_release_def
  bounded_release_def sem_ops_def bounded_ops_def

interpretation lockc: slot_primitive lock_ops lock_avail lk_waiters 1
  by unfold_locales (auto simp: lock_defs new_waiter_def wake_first_eq split: if_splits)

interpretation semc: slot_primitive sem_ops sm_value sm_waiters cap for cap
  by unfold_locales (auto simp: sem_defs new_waiter_def wake_first_eq)

interpretation bsemc: slot_primitive "bounded_ops bound" sm_value sm_waiters bound for bound
  by unfold_locales (auto simp: sem_defs new_waiter_def wake_first_eq)

section \<open>Properties\<close>

text \<open>C29: Mutual exclusion and no lost wake-up of \<open>Lock\<close>.  Over every interleaving of acquire, resume,
  throw and release in which a woken call resumes undisturbed, at most one call holds the lock, the
  lock is marked locked exactly while it is held, and while it is free with calls queued, exactly one
  call has been woken and will take it.\<close>

theorem lock_mutual_exclusion:
  assumes "slot_reach lock_ops (fresh_sys lock_init) s"
  shows "sy_held s \<le> 1 \<and> (lk_locked (sy_obj s) \<longleftrightarrow> sy_held s = 1)
    \<and> (\<not> lk_locked (sy_obj s) \<and> lk_waiters (sy_obj s) \<noteq> [] \<longrightarrow> card (woken s) = 1)"
proof -
  have "lockc.slots_ok (fresh_sys lock_init)"
    by (simp add: lockc.slots_ok_def fresh_sys_def lock_init_def lock_avail_def woken_def empty_wstore_def wstore_ok_def)
  then have "lockc.slots_ok s" using lockc.slots_ok_reach [OF assms] by simp
  then show ?thesis by (auto simp: lockc.slots_ok_def lock_avail_def split: if_splits)
qed

definition lock_busy_sys :: "lock slot_sys" where
  "lock_busy_sys = \<lparr>sy_obj = \<lparr>lk_locked = True, lk_waiters = [0]\<rparr>, sy_ws = \<lparr>w_next = 1, w_fired = {}\<rparr>,
     sy_parked = {0}, sy_held = 1\<rparr>"

lemma lock_busy_reach: "slot_reach lock_ops (fresh_sys lock_init) lock_busy_sys"
proof -
  let ?s0 = "fresh_sys lock_init"
  let ?s1 = "?s0\<lparr>sy_obj := \<lparr>lk_locked = True, lk_waiters = []\<rparr>, sy_ws := empty_wstore, sy_held := Suc (sy_held ?s0)\<rparr>"
  have 1: "slot_reach lock_ops ?s0 ?s1"
    by (rule sr_acquire [OF sr_refl]) (simp_all add: fresh_sys_def lock_defs lock_init_def woken_def)
  have "slot_reach lock_ops ?s0 (?s1\<lparr>sy_obj := \<lparr>lk_locked = True, lk_waiters = [0]\<rparr>,
      sy_ws := \<lparr>w_next = 1, w_fired = {}\<rparr>, sy_parked := insert 0 (sy_parked ?s1)\<rparr>)"
    by (rule sr_park [OF 1]) (simp add: fresh_sys_def lock_defs new_waiter_def empty_wstore_def)
  then show ?thesis by (simp add: fresh_sys_def lock_busy_sys_def)
qed

theorem lock_mutual_exclusion_witness:
  "slot_reach lock_ops (fresh_sys lock_init) lock_busy_sys \<and> lk_locked (sy_obj lock_busy_sys) \<and> sy_held lock_busy_sys = 1"
  using lock_mutual_exclusion [OF lock_busy_reach] lock_busy_reach by (simp add: lock_busy_sys_def)

text \<open>\<open>Lock\<close> lets a second call in between \<open>release\<close> and the resumption of the woken waiter: the
  releasing task (or any other) acquires the free lock, and the waiter then takes it without looking
  again, so two calls hold the lock at once.\<close>

theorem lock_barging_two_holders:
  "\<exists>s. (slot_step lock_ops)\<^sup>*\<^sup>* lock_busy_sys s \<and> sy_held s = 2"
proof -
  let ?s0 = lock_busy_sys
  let ?s1 = "?s0\<lparr>sy_obj := \<lparr>lk_locked = False, lk_waiters = []\<rparr>, sy_ws := \<lparr>w_next = 1, w_fired = {0}\<rparr>, sy_held := sy_held ?s0 - 1\<rparr>"
  let ?s2 = "?s1\<lparr>sy_obj := \<lparr>lk_locked = True, lk_waiters = []\<rparr>, sy_ws := sy_ws ?s1, sy_held := Suc (sy_held ?s1)\<rparr>"
  let ?s3 = "?s2\<lparr>sy_obj := op_resume lock_ops (sy_obj ?s2), sy_parked := sy_parked ?s2 - {0}, sy_held := Suc (sy_held ?s2)\<rparr>"
  have "slot_step lock_ops ?s0 ?s1"
    by (rule slot_step.release) (simp_all add: lock_busy_sys_def lock_defs waiter_set_def)
  moreover have "slot_step lock_ops ?s1 ?s2"
    by (rule slot_step.acquire_now) (simp add: lock_busy_sys_def lock_defs)
  moreover have "slot_step lock_ops ?s2 ?s3"
    by (rule slot_step.resume) (simp_all add: lock_busy_sys_def waiter_is_set_def)
  moreover have "sy_held ?s3 = 2" by (simp add: lock_busy_sys_def)
  ultimately show ?thesis by (meson converse_rtranclp_into_rtranclp rtranclp.rtrancl_refl)
qed

text \<open>An exception thrown into a waiter that \<open>release\<close> has already woken loses the wake-up: the lock
  is free, another call is queued, and no call has been woken, so the queued call stays parked although
  the lock is available.\<close>

theorem lock_throw_loses_wakeup:
  "\<exists>s. (slot_step lock_ops)\<^sup>*\<^sup>* (fresh_sys lock_init) s \<and> \<not> lk_locked (sy_obj s) \<and> lk_waiters (sy_obj s) \<noteq> []
     \<and> sy_parked s \<noteq> {} \<and> woken s = {} \<and> sy_held s = 0"
proof -
  let ?s0 = "fresh_sys lock_init"
  let ?s1 = "?s0\<lparr>sy_obj := \<lparr>lk_locked = True, lk_waiters = []\<rparr>, sy_ws := empty_wstore, sy_held := Suc (sy_held ?s0)\<rparr>"
  let ?s2 = "?s1\<lparr>sy_obj := \<lparr>lk_locked = True, lk_waiters = [0]\<rparr>, sy_ws := \<lparr>w_next = 1, w_fired = {}\<rparr>, sy_parked := insert 0 (sy_parked ?s1)\<rparr>"
  let ?s3 = "?s2\<lparr>sy_obj := \<lparr>lk_locked = True, lk_waiters = [0, 1]\<rparr>, sy_ws := \<lparr>w_next = 2, w_fired = {}\<rparr>, sy_parked := insert 1 (sy_parked ?s2)\<rparr>"
  let ?s4 = "?s3\<lparr>sy_obj := \<lparr>lk_locked = False, lk_waiters = [1]\<rparr>, sy_ws := \<lparr>w_next = 2, w_fired = {0}\<rparr>, sy_held := sy_held ?s3 - 1\<rparr>"
  let ?s5 = "?s4\<lparr>sy_obj := op_throw lock_ops 0 (sy_obj ?s4), sy_parked := sy_parked ?s4 - {0}\<rparr>"
  have "slot_step lock_ops ?s0 ?s1"
    by (rule slot_step.acquire_now) (simp add: fresh_sys_def lock_defs lock_init_def)
  moreover have "slot_step lock_ops ?s1 ?s2"
    by (rule slot_step.acquire_park) (simp add: fresh_sys_def lock_defs new_waiter_def empty_wstore_def)
  moreover have "slot_step lock_ops ?s2 ?s3"
    by (rule slot_step.acquire_park) (simp add: fresh_sys_def lock_defs new_waiter_def)
  moreover have "slot_step lock_ops ?s3 ?s4"
    by (rule slot_step.release) (simp_all add: fresh_sys_def lock_defs waiter_set_def)
  moreover have "slot_step lock_ops ?s4 ?s5"
    by (rule slot_step.throw) (simp add: fresh_sys_def)
  moreover have "\<not> lk_locked (sy_obj ?s5) \<and> lk_waiters (sy_obj ?s5) \<noteq> [] \<and> sy_parked ?s5 \<noteq> {} \<and> woken ?s5 = {} \<and> sy_held ?s5 = 0"
    by (auto simp: fresh_sys_def lock_defs woken_def)
  ultimately show ?thesis by (meson converse_rtranclp_into_rtranclp rtranclp.rtrancl_refl)
qed

text \<open>A semaphore created with \<open>n\<close> slots, over the same interleavings: granted and free slots
  add up to \<open>n\<close>, the value never becomes negative, and while calls are queued every free slot is
  reserved for a call that has been woken.\<close>

theorem semaphore_slots:
  assumes "0 \<le> n" and "slot_reach sem_ops (fresh_sys \<lparr>sm_value = n, sm_waiters = []\<rparr>) s"
  shows "int (sy_held s) + sm_value (sy_obj s) = n \<and> 0 \<le> sm_value (sy_obj s)
    \<and> (sm_waiters (sy_obj s) \<noteq> [] \<longrightarrow> sm_value (sy_obj s) = int (card (woken s)))"
proof -
  have "semc.slots_ok n (fresh_sys \<lparr>sm_value = n, sm_waiters = []\<rparr>)"
    using assms(1) by (simp add: semc.slots_ok_def fresh_sys_def woken_def empty_wstore_def wstore_ok_def)
  then have ok: "semc.slots_ok n s" using semc.slots_ok_reach [OF assms(2)] by simp
  show ?thesis using ok semc.slots_ok_nonneg [OF ok] by (simp add: semc.slots_ok_def)
qed

theorem semaphore_slots_witness:
  "\<exists>s. slot_reach sem_ops (fresh_sys \<lparr>sm_value = 2, sm_waiters = []\<rparr>) s \<and> sy_held s = 1 \<and> sm_value (sy_obj s) = 1"
proof -
  let ?s0 = "fresh_sys \<lparr>sm_value = 2, sm_waiters = []\<rparr>"
  let ?s1 = "?s0\<lparr>sy_obj := \<lparr>sm_value = 1, sm_waiters = []\<rparr>, sy_ws := empty_wstore, sy_held := Suc (sy_held ?s0)\<rparr>"
  have r: "slot_reach sem_ops ?s0 ?s1"
    by (rule sr_acquire [OF sr_refl]) (simp_all add: fresh_sys_def sem_defs woken_def)
  have h: "sy_held ?s1 = 1" by (simp add: fresh_sys_def)
  have "sm_value (sy_obj ?s1) = 1" using semaphore_slots [OF _ r] h by simp
  with r h show ?thesis by blast
qed

text \<open>Over every interleaving at all, barging and throws included, \<open>acquire\<close> and \<open>release\<close>
  account for each slot exactly once: the value is the initial value less the slots held.  (It is
  negative after barging.)\<close>

theorem semaphore_conservation:
  assumes "(slot_step sem_ops)\<^sup>*\<^sup>* (fresh_sys \<lparr>sm_value = n, sm_waiters = []\<rparr>) s"
  shows "sm_value (sy_obj s) = n - int (sy_held s)"
  using assms
proof (induction rule: rtranclp_induct)
  case base
  then show ?case by (simp add: fresh_sys_def)
next
  case (step s1 s2)
  from step.hyps(2) step.IH show ?case
    by (cases rule: slot_step.cases) (auto simp: sem_defs new_waiter_def wake_first_eq Let_def split: if_splits)
qed

theorem semaphore_conservation_witness:
  "\<exists>s. (slot_step sem_ops)\<^sup>*\<^sup>* (fresh_sys \<lparr>sm_value = 1, sm_waiters = []\<rparr>) s \<and> sm_value (sy_obj s) = -1 \<and> sy_held s = 2"
proof -
  let ?s0 = "fresh_sys \<lparr>sm_value = 1, sm_waiters = []\<rparr>"
  let ?s1 = "?s0\<lparr>sy_obj := \<lparr>sm_value = 0, sm_waiters = []\<rparr>, sy_ws := empty_wstore, sy_held := Suc (sy_held ?s0)\<rparr>"
  let ?s2 = "?s1\<lparr>sy_obj := \<lparr>sm_value = 0, sm_waiters = [0]\<rparr>, sy_ws := \<lparr>w_next = 1, w_fired = {}\<rparr>, sy_parked := insert 0 (sy_parked ?s1)\<rparr>"
  let ?s3 = "?s2\<lparr>sy_obj := \<lparr>sm_value = 1, sm_waiters = []\<rparr>, sy_ws := \<lparr>w_next = 1, w_fired = {0}\<rparr>, sy_held := sy_held ?s2 - 1\<rparr>"
  let ?s4 = "?s3\<lparr>sy_obj := \<lparr>sm_value = 0, sm_waiters = []\<rparr>, sy_ws := sy_ws ?s3, sy_held := Suc (sy_held ?s3)\<rparr>"
  let ?s5 = "?s4\<lparr>sy_obj := op_resume sem_ops (sy_obj ?s4), sy_parked := sy_parked ?s4 - {0}, sy_held := Suc (sy_held ?s4)\<rparr>"
  have "slot_step sem_ops ?s0 ?s1" by (rule slot_step.acquire_now) (simp add: fresh_sys_def sem_defs)
  moreover have "slot_step sem_ops ?s1 ?s2"
    by (rule slot_step.acquire_park) (simp add: fresh_sys_def sem_defs new_waiter_def empty_wstore_def)
  moreover have "slot_step sem_ops ?s2 ?s3"
    by (rule slot_step.release) (simp_all add: fresh_sys_def sem_defs waiter_set_def)
  moreover have "slot_step sem_ops ?s3 ?s4" by (rule slot_step.acquire_now) (simp add: fresh_sys_def sem_defs)
  moreover have "slot_step sem_ops ?s4 ?s5"
    by (rule slot_step.resume) (simp_all add: fresh_sys_def waiter_is_set_def)
  ultimately have r: "(slot_step sem_ops)\<^sup>*\<^sup>* ?s0 ?s5" by (meson converse_rtranclp_into_rtranclp rtranclp.rtrancl_refl)
  have h: "sy_held ?s5 = 2" by (simp add: fresh_sys_def)
  have "sm_value (sy_obj ?s5) = -1" using semaphore_conservation [OF r] h by simp
  with r h show ?thesis by blast
qed

text \<open>A \<open>BoundedSemaphore\<close> over the undisturbed interleavings: its value stays between 0 and the
  bound, a holder's release succeeds, and a release when nothing is held raises \<open>ValueError\<close> and changes
  nothing.\<close>

theorem bounded_semaphore_bound:
  assumes "0 \<le> n" and "slot_reach (bounded_ops n) (fresh_sys \<lparr>sm_value = n, sm_waiters = []\<rparr>) s"
  shows "0 \<le> sm_value (sy_obj s) \<and> sm_value (sy_obj s) \<le> n
    \<and> (0 < sy_held s \<longrightarrow> snd (snd (bounded_release n (sy_obj s) (sy_ws s))) = Inr ())
    \<and> (sy_held s = 0 \<longrightarrow> bounded_release n (sy_obj s) (sy_ws s) = (sy_obj s, sy_ws s, Inl ValueErr))"
proof -
  have "bsemc.slots_ok n (fresh_sys \<lparr>sm_value = n, sm_waiters = []\<rparr>)"
    using assms(1) by (simp add: bsemc.slots_ok_def fresh_sys_def woken_def empty_wstore_def wstore_ok_def)
  then have ok: "bsemc.slots_ok n s" using bsemc.slots_ok_reach [OF assms(2)] by simp
  show ?thesis using ok bsemc.slots_ok_nonneg [OF ok]
    by (auto simp: bsemc.slots_ok_def bounded_release_def sem_release_def split: prod.splits)
qed

theorem bounded_semaphore_bound_witness:
  "bounded_release 2 \<lparr>sm_value = 2, sm_waiters = []\<rparr> empty_wstore = (\<lparr>sm_value = 2, sm_waiters = []\<rparr>, empty_wstore, Inl ValueErr)"
  using bounded_semaphore_bound [of 2, OF _ sr_refl] by (simp add: fresh_sys_def)

end
