(* ===== verification/Priority_Lock.thy ===== *)
theory Priority_Lock
  imports Locks
begin

text \<open>
  \<open>PriorityLock\<close> of \<open>tealetio/locks.py\<close> and \<open>PriorityTask\<close> of \<open>tealetio/tasks.py\<close>: priority inheritance.  A
  smaller number is a better priority; priorities are integers.  \<open>get_effective_priority\<close> and
  \<open>_propagate_priority\<close> call each other through tasks and locks; the first argument of their models bounds
  the depth of the call chain and running out of it is \<open>None\<close> (Python's \<open>RecursionError\<close>).  Without a cycle
  of waiting tasks the number of tasks is depth enough, and the effective priority is the best base
  priority among the tasks that wait for this one, directly or through other locks.
\<close>

section \<open>State\<close>

record ptask =
  pt_priority :: int
  pt_owned :: "nat list"
  pt_waiting :: "nat option"
  pt_runnable :: bool
  pt_modified :: nat

record plock =
  pl_lock :: lock
  pl_owner :: "nat option"
  pl_waiter_tasks :: "nat list"

text \<open>\<open>pt_modified\<close> counts the calls of \<open>modified()\<close>, which make the runnable queue re-sort the task.\<close>

record pworld =
  pw_task :: "nat \<Rightarrow> ptask"
  pw_lock :: "nat \<Rightarrow> plock"
  pw_current :: nat

definition upd_task :: "nat \<Rightarrow> (ptask \<Rightarrow> ptask) \<Rightarrow> pworld \<Rightarrow> pworld" where
  "upd_task t f w = w\<lparr>pw_task := (pw_task w)(t := f (pw_task w t))\<rparr>"

definition upd_lock :: "nat \<Rightarrow> (plock \<Rightarrow> plock) \<Rightarrow> pworld \<Rightarrow> pworld" where
  "upd_lock l f w = w\<lparr>pw_lock := (pw_lock w)(l := f (pw_lock w l))\<rparr>"

definition plock_init :: plock where
  "plock_init = \<lparr>pl_lock = lock_init, pl_owner = None, pl_waiter_tasks = []\<rparr>"

definition ptask_init :: "int \<Rightarrow> ptask" where
  "ptask_init priority = \<lparr>pt_priority = priority, pt_owned = [], pt_waiting = None, pt_runnable = False, pt_modified = 0\<rparr>"

text \<open>\<open>Task.modified\<close>: only a linked task has something to notify; a waiting link ignores it.\<close>

definition task_modified :: "nat \<Rightarrow> pworld \<Rightarrow> pworld" where
  "task_modified t w = (if pt_runnable (pw_task w t) then upd_task t (\<lambda>x. x\<lparr>pt_modified := Suc (pt_modified x)\<rparr>) w else w)"

definition set_priority :: "int \<Rightarrow> nat \<Rightarrow> pworld \<Rightarrow> pworld" where
  "set_priority value t w = task_modified t (upd_task t (\<lambda>x. x\<lparr>pt_priority := value\<rparr>) w)"

definition add_owned_priority_lock :: "nat \<Rightarrow> nat \<Rightarrow> pworld \<Rightarrow> pworld" where
  "add_owned_priority_lock l t w = upd_task t (\<lambda>x. x\<lparr>pt_owned := List.insert l (pt_owned x)\<rparr>) w"

text \<open>\<open>set.remove\<close> raises when the lock is not there.\<close>

definition remove_owned_priority_lock :: "nat \<Rightarrow> nat \<Rightarrow> pworld \<Rightarrow> pworld \<times> (pyexn + unit)" where
  "remove_owned_priority_lock l t w =
     (if l \<in> set (pt_owned (pw_task w t)) then (upd_task t (\<lambda>x. x\<lparr>pt_owned := remove1 l (pt_owned x)\<rparr>) w, Inr ())
      else (w, Inl KeyErr))"

definition set_waiting_on_priority :: "nat option \<Rightarrow> nat \<Rightarrow> pworld \<Rightarrow> pworld" where
  "set_waiting_on_priority target t w = upd_task t (\<lambda>x. x\<lparr>pt_waiting := target\<rparr>) w"

section \<open>Effective priority and propagation\<close>

fun task_effective :: "nat \<Rightarrow> pworld \<Rightarrow> nat \<Rightarrow> int option" and lock_effective :: "nat \<Rightarrow> pworld \<Rightarrow> nat \<Rightarrow> int option option" where
  "task_effective 0 w t = None"
| "task_effective (Suc n) w t =
     (case those (map (lock_effective n w) (pt_owned (pw_task w t))) of
        None \<Rightarrow> None
      | Some rs \<Rightarrow>
          (let ps = map the (filter (\<lambda>r. r \<noteq> None) rs); base = pt_priority (pw_task w t)
           in Some (if ps = [] then base else min base (Min (set ps)))))"
| "lock_effective n w l =
     (if pl_waiter_tasks (pw_lock w l) = [] then Some None
      else (case those (map (task_effective n w) (pl_waiter_tasks (pw_lock w l))) of
              None \<Rightarrow> None
            | Some ps \<Rightarrow> Some (Some (Min (set ps)))))"

text \<open>\<open>PriorityTask._propagate_priority\<close> and \<open>PriorityLock._propagate_priority\<close>.\<close>

fun task_propagate :: "nat \<Rightarrow> nat \<Rightarrow> pworld \<Rightarrow> pworld option" and lock_propagate :: "nat \<Rightarrow> nat \<Rightarrow> pworld \<Rightarrow> pworld option" where
  "task_propagate 0 t w = None"
| "task_propagate (Suc n) t w =
     (if pt_runnable (pw_task w t) then Some (task_modified t w)
      else (case pt_waiting (pw_task w t) of
              None \<Rightarrow> Some w
            | Some l \<Rightarrow> lock_propagate n l w))"
| "lock_propagate n l w = (case pl_owner (pw_lock w l) of None \<Rightarrow> Some w | Some owner \<Rightarrow> task_propagate n owner w)"

section \<open>Acquire and release\<close>

definition take_lock :: "nat \<Rightarrow> nat \<Rightarrow> pworld \<Rightarrow> pworld" where
  "take_lock l t w =
     add_owned_priority_lock l t (upd_lock l (\<lambda>x. x\<lparr>pl_lock := (pl_lock x)\<lparr>lk_locked := True\<rparr>, pl_owner := Some t\<rparr>) w)"

text \<open>\<open>_is_current\<close> compares the owner with the current tealet and then with \<open>asyncio.current_task()\<close>, which is
  \<open>None\<close> in a tealet, so an unowned lock passes the check.\<close>

definition drop_lock :: "nat \<Rightarrow> pworld \<Rightarrow> pworld \<times> (pyexn + unit)" where
  "drop_lock l w =
     (case pl_owner (pw_lock w l) of
        None \<Rightarrow> (w, Inr ())
      | Some owner \<Rightarrow>
          if owner \<noteq> pw_current w then (w, Inl RuntimeErr)
          else (case remove_owned_priority_lock l owner (upd_lock l (\<lambda>x. x\<lparr>pl_owner := None\<rparr>) w) of
                  (w1, Inl e) \<Rightarrow> (w1, Inl e)
                | (w1, Inr _) \<Rightarrow> (task_modified owner w1, Inr ())))"

text \<open>\<open>sacquire\<close> up to the wait of \<open>Lock.sacquire\<close>, its code after a normal return, and the code that an
  exception thrown into the wait runs.  \<open>depth\<close> is the call depth left; \<open>None\<close> is \<open>RecursionError\<close>.\<close>

definition psacquire :: "nat \<Rightarrow> nat \<Rightarrow> pworld \<Rightarrow> wstore \<Rightarrow> pworld \<times> wstore \<times> bool seg option" where
  "psacquire depth l w ws =
     (let t = pw_current w in
      if \<not> lk_locked (pl_lock (pw_lock w l)) then
        (case lock_sacquire (pl_lock (pw_lock w l)) ws of
           (k, ws1, r) \<Rightarrow> (take_lock l t (upd_lock l (\<lambda>x. x\<lparr>pl_lock := k\<rparr>) w), ws1, Some (SRet True)))
      else
        (let w1 = set_waiting_on_priority (Some l) t
               (upd_lock l (\<lambda>x. x\<lparr>pl_waiter_tasks := List.insert t (pl_waiter_tasks x)\<rparr>) w)
         in case lock_propagate depth l w1 of
              None \<Rightarrow> (w1, ws, None)
            | Some w2 \<Rightarrow>
                (case lock_sacquire (pl_lock (pw_lock w2 l)) ws of
                   (k, ws1, r) \<Rightarrow> (upd_lock l (\<lambda>x. x\<lparr>pl_lock := k\<rparr>) w2, ws1, Some r))))"

text \<open>The \<open>finally\<close> block.\<close>

definition psacquire_finally :: "nat \<Rightarrow> nat \<Rightarrow> nat \<Rightarrow> pworld \<Rightarrow> pworld option" where
  "psacquire_finally depth l t w =
     (let w1 = set_waiting_on_priority None t
            (upd_lock l (\<lambda>x. x\<lparr>pl_waiter_tasks := removeAll t (pl_waiter_tasks x)\<rparr>) w)
      in if lk_locked (pl_lock (pw_lock w1 l)) \<and> pl_owner (pw_lock w1 l) \<noteq> Some t then lock_propagate depth l w1 else Some w1)"

definition psacquire_resume :: "nat \<Rightarrow> nat \<Rightarrow> nat \<Rightarrow> pworld \<Rightarrow> pworld option" where
  "psacquire_resume depth l t w =
     (case psacquire_finally depth l t (upd_lock l (\<lambda>x. x\<lparr>pl_lock := lock_sacquire_resume (pl_lock x)\<rparr>) w) of
        None \<Rightarrow> None
      | Some w1 \<Rightarrow> Some (take_lock l t w1))"

definition psacquire_throw :: "nat \<Rightarrow> nat \<Rightarrow> nat \<Rightarrow> nat \<Rightarrow> pworld \<Rightarrow> pworld option" where
  "psacquire_throw depth waiter l t w =
     psacquire_finally depth l t (upd_lock l (\<lambda>x. x\<lparr>pl_lock := lock_sacquire_throw waiter (pl_lock x)\<rparr>) w)"

definition prelease :: "nat \<Rightarrow> pworld \<Rightarrow> wstore \<Rightarrow> pworld \<times> wstore \<times> (pyexn + unit)" where
  "prelease l w ws =
     (if \<not> lk_locked (pl_lock (pw_lock w l)) then (w, ws, Inl RuntimeErr)
      else (case drop_lock l w of
              (w1, Inl e) \<Rightarrow> (w1, ws, Inl e)
            | (w1, Inr _) \<Rightarrow>
                (case lock_release (pl_lock (pw_lock w1 l)) ws of
                   (k, ws1, r) \<Rightarrow> (upd_lock l (\<lambda>x. x\<lparr>pl_lock := k\<rparr>) w1, ws1, r))))"

section \<open>The best priority among the waiting\<close>

text \<open>\<open>u\<close> waits for \<open>t\<close>: it is registered with a lock that \<open>t\<close> has registered as its own.\<close>

definition registered :: "pworld \<Rightarrow> (nat \<times> nat) set" where
  "registered w = {(u, t). \<exists>l \<in> set (pt_owned (pw_task w t)). u \<in> set (pl_waiter_tasks (pw_lock w l))}"

definition best_of :: "pworld \<Rightarrow> nat set \<Rightarrow> int" where
  "best_of w ts = Min ((\<lambda>t. pt_priority (pw_task w t)) ` ts)"

definition above :: "(nat \<times> nat) set \<Rightarrow> nat \<Rightarrow> nat set" where
  "above r t = {u. (u, t) \<in> r\<^sup>*}"

lemma those_map: "those (map f xs) = (if \<exists>x \<in> set xs. f x = None then None else Some (map (the \<circ> f) xs))"
  by (induction xs) (auto split: option.splits)

lemma above_refl [simp]: "t \<in> above r t"
  by (simp add: above_def)

lemma above_step: "(u, t) \<in> r \<Longrightarrow> above r u \<subseteq> above r t"
  by (auto simp: above_def intro: rtrancl_into_rtrancl)

lemma above_strict: "acyclic r \<Longrightarrow> (u, t) \<in> r \<Longrightarrow> above r u \<subset> above r t"
proof -
  assume a: "acyclic r" "(u, t) \<in> r"
  have "t \<notin> above r u"
  proof
    assume "t \<in> above r u"
    then have "(t, t) \<in> r\<^sup>+" using a(2) by (auto simp: above_def intro: rtrancl_into_trancl1)
    then show False using a(1) by (simp add: acyclic_def)
  qed
  then show ?thesis using above_step [OF a(2)] by auto
qed

lemma above_cases: "x \<in> above r t \<Longrightarrow> x = t \<or> (\<exists>u. (u, t) \<in> r \<and> x \<in> above r u)"
  by (auto simp: above_def elim: rtranclE)

lemma best_of_eq:
  assumes "finite S" "m \<in> (\<lambda>t. pt_priority (pw_task w t)) ` S" "\<And>t. t \<in> S \<Longrightarrow> m \<le> pt_priority (pw_task w t)"
  shows "best_of w S = m"
  unfolding best_of_def using assms by (intro Min_eqI) auto

lemma best_of_props:
  assumes "finite S" "S \<noteq> {}"
  shows "best_of w S \<in> (\<lambda>t. pt_priority (pw_task w t)) ` S" "t \<in> S \<Longrightarrow> best_of w S \<le> pt_priority (pw_task w t)"
  using assms by (auto simp: best_of_def intro: Min_in)

text \<open>What one lock contributes, once its waiters' priorities are known.\<close>

lemma lock_effective_eq:
  assumes "\<And>u. u \<in> set (pl_waiter_tasks (pw_lock w l)) \<Longrightarrow> task_effective n w u = Some (g u)"
  shows "lock_effective n w l =
    Some (if pl_waiter_tasks (pw_lock w l) = [] then None else Some (Min (g ` set (pl_waiter_tasks (pw_lock w l)))))"
proof -
  have "those (map (task_effective n w) (pl_waiter_tasks (pw_lock w l))) = Some (map g (pl_waiter_tasks (pw_lock w l)))"
    using assms by (simp add: those_map comp_def)
  then show ?thesis by (subst lock_effective.simps) simp
qed

lemma task_effective_eq:
  assumes "\<And>u. (u, t) \<in> registered w \<Longrightarrow> task_effective n w u = Some (g u)"
  shows "task_effective (Suc n) w t = Some (Min (insert (pt_priority (pw_task w t)) (g ` {u. (u, t) \<in> registered w})))"
proof -
  let ?own = "pt_owned (pw_task w t)" and ?ws = "\<lambda>l. pl_waiter_tasks (pw_lock w l)"
  let ?c = "\<lambda>l. if ?ws l = [] then None else Some (Min (g ` set (?ws l)))"
  have le: "lock_effective n w l = Some (?c l)" if "l \<in> set ?own" for l
    by (rule lock_effective_eq) (use assms that in \<open>auto simp: registered_def\<close>)
  have th: "those (map (lock_effective n w) ?own) = Some (map ?c ?own)"
    using le by (simp add: those_map comp_def)
  define ps where "ps = map the (filter (\<lambda>r. r \<noteq> None) (map ?c ?own))"
  have set_ps: "set ps = (\<lambda>l. Min (g ` set (?ws l))) ` {l \<in> set ?own. ?ws l \<noteq> []}"
    by (auto simp: ps_def split: if_splits) force
  have reg: "{u. (u, t) \<in> registered w} = (\<Union>l \<in> {l \<in> set ?own. ?ws l \<noteq> []}. set (?ws l))"
    by (auto simp: registered_def)
  have fin: "finite {l \<in> set ?own. ?ws l \<noteq> []}" by simp
  have "task_effective (Suc n) w t = Some (if ps = [] then pt_priority (pw_task w t) else min (pt_priority (pw_task w t)) (Min (set ps)))"
    by (subst task_effective.simps) (simp add: th ps_def Let_def del: lock_effective.simps)
  also have "(if ps = [] then pt_priority (pw_task w t) else min (pt_priority (pw_task w t)) (Min (set ps))) = Min (insert (pt_priority (pw_task w t)) (set ps))"
    by simp
  also have "Min (insert (pt_priority (pw_task w t)) (set ps)) = Min (insert (pt_priority (pw_task w t)) (g ` {u. (u, t) \<in> registered w}))"
  proof (rule Min_eqI)
    show "finite (insert (pt_priority (pw_task w t)) (set ps))" by simp
    let ?m = "Min (insert (pt_priority (pw_task w t)) (g ` {u. (u, t) \<in> registered w}))"
    have fr: "finite (g ` {u. (u, t) \<in> registered w})" unfolding reg by simp
    show "?m \<le> y" if "y \<in> insert (pt_priority (pw_task w t)) (set ps)" for y
    proof -
      have "y \<in> insert (pt_priority (pw_task w t)) (g ` {u. (u, t) \<in> registered w})"
      proof (cases "y \<in> set ps")
        case True
        then obtain l where l: "l \<in> set ?own" "?ws l \<noteq> []" "y = Min (g ` set (?ws l))" unfolding set_ps by auto
        then have "y \<in> g ` set (?ws l)" by (metis List.finite_set Min_in empty_is_image finite_imageI set_empty)
        then show ?thesis using l(1,2) unfolding reg by auto
      qed (use that in simp)
      then show ?thesis using fr by (intro Min_le) simp_all
    qed
    have "?m \<in> insert (pt_priority (pw_task w t)) (g ` {u. (u, t) \<in> registered w})" using fr by (intro Min_in) simp_all
    then show "?m \<in> insert (pt_priority (pw_task w t)) (set ps)"
    proof (elim insertE)
      assume "?m \<in> g ` {u. (u, t) \<in> registered w}"
      then obtain l u where l: "l \<in> set ?own" "?ws l \<noteq> []" "u \<in> set (?ws l)" "?m = g u" unfolding reg by auto
      have "Min (g ` set (?ws l)) = ?m"
      proof (rule Min_eqI)
        show "?m \<in> g ` set (?ws l)" using l(3,4) by auto
        show "?m \<le> y" if "y \<in> g ` set (?ws l)" for y
          using that l(1,2) fr unfolding reg by (intro Min_le) auto
      qed simp
      then have "?m \<in> set ps" unfolding set_ps using l(1,2) by (metis (mono_tags, lifting) CollectI imageI)
      then show ?thesis by simp
    qed simp
  qed
  finally show ?thesis .
qed

text \<open>With depth for the tasks above, the effective priority is the best base priority among them.\<close>

lemma task_effective_above:
  assumes "acyclic (registered w)" "finite (above (registered w) t)" "card (above (registered w) t) \<le> n"
  shows "task_effective n w t = Some (best_of w (above (registered w) t))"
  using assms(2,3)
proof (induction n arbitrary: t)
  case 0
  then show ?case by (metis above_refl card_0_eq empty_iff le_zero_eq)
next
  case (Suc n)
  let ?r = "registered w"
  have ih: "task_effective n w u = Some (best_of w (above ?r u))" if "(u, t) \<in> ?r" for u
  proof (rule Suc.IH)
    note s = above_strict [OF assms(1) that]
    show "finite (above ?r u)" using s Suc.prems(1) by (meson finite_subset psubset_imp_subset)
    show "card (above ?r u) \<le> n" using psubset_card_mono [OF Suc.prems(1) s] Suc.prems(2) by simp
  qed
  have e: "task_effective (Suc n) w t = Some (Min (insert (pt_priority (pw_task w t)) ((\<lambda>u. best_of w (above ?r u)) ` {u. (u, t) \<in> ?r})))"
    by (rule task_effective_eq) (rule ih)
  let ?M = "Min (insert (pt_priority (pw_task w t)) ((\<lambda>u. best_of w (above ?r u)) ` {u. (u, t) \<in> ?r}))"
  have fu: "finite (above ?r u)" if "(u, t) \<in> ?r" for u using above_step [OF that] Suc.prems(1) by (meson finite_subset)
  have "{u. (u, t) \<in> ?r} \<subseteq> above ?r t" by (auto simp: above_def)
  then have fr: "finite ((\<lambda>u. best_of w (above ?r u)) ` {u. (u, t) \<in> ?r})" using Suc.prems(1) by (meson finite_imageI finite_subset)
  have "best_of w (above ?r t) = ?M"
  proof (rule best_of_eq [OF Suc.prems(1)])
    have "?M \<in> insert (pt_priority (pw_task w t)) ((\<lambda>u. best_of w (above ?r u)) ` {u. (u, t) \<in> ?r})"
      using fr by (intro Min_in) simp_all
    then show "?M \<in> (\<lambda>t. pt_priority (pw_task w t)) ` above ?r t"
    proof (elim insertE imageE)
      fix u assume u: "?M = best_of w (above ?r u)" "u \<in> {u. (u, t) \<in> ?r}"
      then have "?M \<in> (\<lambda>t. pt_priority (pw_task w t)) ` above ?r u"
        using best_of_props(1) [OF fu, of u w] above_refl by (metis emptyE mem_Collect_eq)
      then show ?thesis using above_step [of u t ?r] u(2) by auto
    qed (metis above_refl imageI)
    show "?M \<le> pt_priority (pw_task w x)" if x: "x \<in> above ?r t" for x
    proof (cases "x = t")
      case False
      then obtain u where u: "(u, t) \<in> ?r" "x \<in> above ?r u" using above_cases [OF x] by blast
      have "?M \<le> best_of w (above ?r u)" using fr u(1) by (intro Min_le) auto
      also have "\<dots> \<le> pt_priority (pw_task w x)" using best_of_props(2) [OF fu [OF u(1)]] u(2) by (metis emptyE)
      finally show ?thesis .
    qed (use fr in simp)
  qed
  then show ?case using e by simp
qed

text \<open>A task on a cycle of waiting tasks has no effective priority at any depth.\<close>

lemma cycle_no_priority: "(t, t) \<in> (registered w)\<^sup>+ \<Longrightarrow> task_effective n w t = None"
proof (induction n arbitrary: t)
  case (Suc n)
  obtain u where u: "(u, t) \<in> registered w" "(t, u) \<in> (registered w)\<^sup>*" using Suc.prems by (meson tranclD2)
  then have "(u, u) \<in> (registered w)\<^sup>+" by (meson rtrancl_into_trancl2)
  then have none: "task_effective n w u = None" by (rule Suc.IH)
  obtain l where l: "l \<in> set (pt_owned (pw_task w t))" "u \<in> set (pl_waiter_tasks (pw_lock w l))" using u(1) by (auto simp: registered_def)
  have "those (map (task_effective n w) (pl_waiter_tasks (pw_lock w l))) = None" using none l(2) by (auto simp: those_map)
  then have "lock_effective n w l = None" using l(2) by (subst lock_effective.simps) auto
  then have "those (map (lock_effective n w) (pt_owned (pw_task w t))) = None"
    unfolding those_map using l(1) by (metis (mono_tags))
  then show ?case by (subst task_effective.simps) simp
qed simp

section \<open>Ownership and waiting\<close>

text \<open>Tasks that run acquire and release, are woken, or have an exception thrown into their wait.  The label of a
  step is \<open>False\<close> when a woken call resumes on a lock that another task has taken since the release: \<open>Lock.sacquire\<close>
  does not look again.  Calls that raise \<open>RecursionError\<close> are not steps.\<close>

inductive p_step :: "bool \<Rightarrow> pworld \<Rightarrow> pworld \<Rightarrow> bool" where
  p_acquire: "pt_waiting (pw_task w (pw_current w)) = None \<Longrightarrow> psacquire depth l w ws = (w', ws', Some r) \<Longrightarrow> p_step True w w'"
| p_resume: "pt_waiting (pw_task w t) = Some l \<Longrightarrow> psacquire_resume depth l t w = Some w' \<Longrightarrow> p_step (pl_owner (pw_lock w l) = None) w w'"
| p_throw: "pt_waiting (pw_task w t) = Some l \<Longrightarrow> psacquire_throw depth waiter l t w = Some w' \<Longrightarrow> p_step True w w'"
| p_release: "prelease l w ws = (w', ws', r) \<Longrightarrow> p_step True w w'"
| p_switch: "p_step True w (w\<lparr>pw_current := t\<rparr>)"
| p_runnable: "p_step True w (upd_task t (\<lambda>x. x\<lparr>pt_runnable := b\<rparr>) w)"
| p_priority: "p_step True w (set_priority v t w)"

definition pw_start :: "(nat \<Rightarrow> int) \<Rightarrow> pworld" where
  "pw_start prio = \<lparr>pw_task = (\<lambda>t. ptask_init (prio t)), pw_lock = (\<lambda>_. plock_init), pw_current = 0\<rparr>"

text \<open>The label of a run: whether every woken waiter found the lock without an owner.\<close>

inductive p_reach :: "(nat \<Rightarrow> int) \<Rightarrow> bool \<Rightarrow> pworld \<Rightarrow> bool" for prio where
  p_start: "p_reach prio True (pw_start prio)"
| p_next: "p_reach prio b w \<Longrightarrow> p_step b' w w' \<Longrightarrow> p_reach prio (b \<and> b') w'"

text \<open>Who is blocked by whom: by the lock the first waits for and its owner.\<close>

definition blocked_by :: "pworld \<Rightarrow> (nat \<times> nat) set" where
  "blocked_by w = {(u, t). \<exists>l. pt_waiting (pw_task w u) = Some l \<and> pl_owner (pw_lock w l) = Some t}"

definition pw_ok :: "pworld \<Rightarrow> bool" where
  "pw_ok w \<longleftrightarrow>
     (\<forall>l t. l \<in> set (pt_owned (pw_task w t)) \<longleftrightarrow> pl_owner (pw_lock w l) = Some t)
     \<and> (\<forall>l t. t \<in> set (pl_waiter_tasks (pw_lock w l)) \<longleftrightarrow> pt_waiting (pw_task w t) = Some l)
     \<and> (\<forall>t. distinct (pt_owned (pw_task w t)))
     \<and> (\<forall>l. pl_owner (pw_lock w l) \<noteq> None \<longrightarrow> lk_locked (pl_lock (pw_lock w l)))"

lemma registered_blocked: "pw_ok w \<Longrightarrow> registered w = blocked_by w"
  unfolding pw_ok_def registered_def blocked_by_def by auto

text \<open>What propagation may change.\<close>

definition same_links :: "pworld \<Rightarrow> pworld \<Rightarrow> bool" where
  "same_links w w' \<longleftrightarrow> pw_lock w' = pw_lock w \<and> pw_current w' = pw_current w
     \<and> (\<forall>t. pt_owned (pw_task w' t) = pt_owned (pw_task w t) \<and> pt_waiting (pw_task w' t) = pt_waiting (pw_task w t)
          \<and> pt_priority (pw_task w' t) = pt_priority (pw_task w t) \<and> pt_runnable (pw_task w' t) = pt_runnable (pw_task w t))"

lemma same_links_refl [simp]: "same_links w w"
  by (simp add: same_links_def)

lemma same_links_ok: "same_links w w' \<Longrightarrow> pw_ok w \<Longrightarrow> pw_ok w'"
  by (simp add: same_links_def pw_ok_def)

lemma modified_same: "same_links w (task_modified t w)"
  by (simp add: same_links_def task_modified_def upd_task_def)

lemma propagate_same: "task_propagate n t w = Some w' \<Longrightarrow> same_links w w'"
proof (induction n arbitrary: t)
  case (Suc n)
  then show ?case
    using modified_same by (auto split: if_splits option.splits)
qed simp

lemma lock_propagate_same: "lock_propagate n l w = Some w' \<Longrightarrow> same_links w w'"
  by (auto split: option.splits dest: propagate_same)

lemma upd_simps [simp]:
  "pw_task (upd_task t f w) = (pw_task w)(t := f (pw_task w t))" "pw_lock (upd_task t f w) = pw_lock w"
  "pw_current (upd_task t f w) = pw_current w" "pw_lock (upd_lock l g w) = (pw_lock w)(l := g (pw_lock w l))"
  "pw_task (upd_lock l g w) = pw_task w" "pw_current (upd_lock l g w) = pw_current w"
  by (simp_all add: upd_task_def upd_lock_def)

lemma take_lock_ok:
  assumes "pw_ok w" "pl_owner (pw_lock w l) = None"
  shows "pw_ok (take_lock l t w)"
  using assms unfolding pw_ok_def take_lock_def add_owned_priority_lock_def by auto

text \<open>Only the underlying lock changes.\<close>

lemma set_lock_ok: "pw_ok w \<Longrightarrow> (lk_locked (pl_lock (pw_lock w l)) \<longrightarrow> lk_locked k) \<Longrightarrow> pw_ok (upd_lock l (\<lambda>x. x\<lparr>pl_lock := k\<rparr>) w)"
  unfolding pw_ok_def by auto

lemma enlist_ok:
  "pw_ok w \<Longrightarrow> pt_waiting (pw_task w t) = None \<Longrightarrow>
    pw_ok (set_waiting_on_priority (Some l) t (upd_lock l (\<lambda>x. x\<lparr>pl_waiter_tasks := List.insert t (pl_waiter_tasks x)\<rparr>) w))"
  unfolding pw_ok_def set_waiting_on_priority_def by auto

lemma delist_ok:
  "pw_ok w \<Longrightarrow> pt_waiting (pw_task w t) = Some l \<Longrightarrow>
    pw_ok (set_waiting_on_priority None t (upd_lock l (\<lambda>x. x\<lparr>pl_waiter_tasks := removeAll t (pl_waiter_tasks x)\<rparr>) w))"
  unfolding pw_ok_def set_waiting_on_priority_def by auto

lemma finally_ok:
  assumes "pw_ok w" "pt_waiting (pw_task w t) = Some l" "psacquire_finally depth l t w = Some w'"
  shows "pw_ok w' \<and> pl_owner (pw_lock w' l) = pl_owner (pw_lock w l)"
proof -
  let ?w1 = "set_waiting_on_priority None t (upd_lock l (\<lambda>x. x\<lparr>pl_waiter_tasks := removeAll t (pl_waiter_tasks x)\<rparr>) w)"
  have ok: "pw_ok ?w1" by (rule delist_ok [OF assms(1,2)])
  have o: "pl_owner (pw_lock ?w1 l) = pl_owner (pw_lock w l)" by (simp add: set_waiting_on_priority_def)
  have "w' = ?w1 \<or> lock_propagate depth l ?w1 = Some w'"
    using assms(3) by (auto simp: psacquire_finally_def Let_def simp del: lock_propagate.simps split: if_splits)
  then have "same_links ?w1 w'" using lock_propagate_same by auto
  then show ?thesis using same_links_ok [OF _ ok] o by (simp add: same_links_def)
qed

lemma acquire_ok:
  assumes "pw_ok w" "pt_waiting (pw_task w (pw_current w)) = None" "psacquire depth l w ws = (w', ws', Some r)"
  shows "pw_ok w'"
proof (cases "lk_locked (pl_lock (pw_lock w l))")
  case False
  then have o: "pl_owner (pw_lock w l) = None" using assms(1) by (auto simp: pw_ok_def)
  let ?w1 = "upd_lock l (\<lambda>x. x\<lparr>pl_lock := (pl_lock (pw_lock w l))\<lparr>lk_locked := True\<rparr>\<rparr>) w"
  have "w' = take_lock l (pw_current w) ?w1" using assms(3) False by (simp add: psacquire_def lock_sacquire_def)
  moreover have "pw_ok ?w1" using set_lock_ok [OF assms(1)] by simp
  ultimately show ?thesis using take_lock_ok o by simp
next
  case True
  let ?t = "pw_current w"
  let ?w1 = "set_waiting_on_priority (Some l) ?t (upd_lock l (\<lambda>x. x\<lparr>pl_waiter_tasks := List.insert ?t (pl_waiter_tasks x)\<rparr>) w)"
  obtain w2 where p: "lock_propagate depth l ?w1 = Some w2"
    using assms(3) True by (auto simp: psacquire_def Let_def simp del: lock_propagate.simps split: option.splits)
  have s: "same_links ?w1 w2" by (rule lock_propagate_same [OF p])
  have k: "lk_locked (pl_lock (pw_lock w2 l))" using s True by (simp add: same_links_def set_waiting_on_priority_def)
  have "w' = upd_lock l (\<lambda>x. x\<lparr>pl_lock := fst (lock_sacquire (pl_lock (pw_lock w2 l)) ws)\<rparr>) w2"
    using assms(3) True p by (simp add: psacquire_def Let_def case_prod_beta del: lock_propagate.simps)
  moreover have "pw_ok w2" using same_links_ok [OF s enlist_ok [OF assms(1,2)]] .
  ultimately show ?thesis
    using set_lock_ok k by (simp add: lock_sacquire_def new_waiter_def)
qed

lemma release_ok:
  assumes "pw_ok w" "prelease l w ws = (w', ws', r)"
  shows "pw_ok w'"
proof (cases "lk_locked (pl_lock (pw_lock w l)) \<and> (\<forall>t. pl_owner (pw_lock w l) = Some t \<longrightarrow> t = pw_current w)")
  case False
  then have "w' = w" using assms(2) by (auto simp: prelease_def drop_lock_def split: if_splits)
  then show ?thesis using assms(1) by simp
next
  case True
  then have lk: "lk_locked (pl_lock (pw_lock w l))" by simp
  show ?thesis
  proof (cases "pl_owner (pw_lock w l)")
    case None
    then have "w' = upd_lock l (\<lambda>x. x\<lparr>pl_lock := fst (lock_release (pl_lock (pw_lock w l)) ws)\<rparr>) w"
      using assms(2) lk by (simp add: prelease_def drop_lock_def case_prod_beta)
    then show ?thesis using assms(1) None by (auto simp: pw_ok_def)
  next
    case (Some t)
    then have t: "t = pw_current w" using True by simp
    have own: "l \<in> set (pt_owned (pw_task w t))" using assms(1) Some by (simp add: pw_ok_def)
    let ?w1 = "upd_task t (\<lambda>x. x\<lparr>pt_owned := remove1 l (pt_owned x)\<rparr>) (upd_lock l (\<lambda>x. x\<lparr>pl_owner := None\<rparr>) w)"
    have d: "drop_lock l w = (task_modified t ?w1, Inr ())"
      using Some t own by (simp add: drop_lock_def remove_owned_priority_lock_def)
    have dist: "distinct (pt_owned (pw_task w t))" using assms(1) by (simp add: pw_ok_def)
    have own1: "l' \<in> set (pt_owned (pw_task ?w1 u)) \<longleftrightarrow> pl_owner (pw_lock ?w1 l') = Some u" for l' u
    proof -
      have "l' \<in> set (pt_owned (pw_task w u)) \<longleftrightarrow> pl_owner (pw_lock w l') = Some u" using assms(1) by (simp add: pw_ok_def)
      then show ?thesis using Some dist by (cases "u = t"; cases "l' = l") (simp_all add: set_remove1_eq)
    qed
    have "pw_ok ?w1"
      unfolding pw_ok_def
    proof (intro conjI allI)
      show "l' \<in> set (pt_owned (pw_task ?w1 u)) \<longleftrightarrow> pl_owner (pw_lock ?w1 l') = Some u" for l' u by (rule own1)
    qed (use assms(1) dist in \<open>simp_all add: pw_ok_def\<close>)
    then have ok: "pw_ok (task_modified t ?w1)" by (rule same_links_ok [OF modified_same])
    have o: "pl_owner (pw_lock (task_modified t ?w1) l) = None" using modified_same [of ?w1 t] by (simp add: same_links_def)
    have "w' = upd_lock l (\<lambda>x. x\<lparr>pl_lock := fst (lock_release (pl_lock (pw_lock (task_modified t ?w1) l)) ws)\<rparr>) (task_modified t ?w1)"
      using assms(2) lk d by (simp add: prelease_def case_prod_beta)
    then show ?thesis using ok o by (auto simp: pw_ok_def)
  qed
qed

lemma p_step_ok: "p_step b w w' \<Longrightarrow> b \<Longrightarrow> pw_ok w \<Longrightarrow> pw_ok w'"
proof (induction rule: p_step.induct)
  case (p_acquire w depth l ws w' ws' r) show ?case by (rule acquire_ok [OF p_acquire(4,1,2)])
next
  case (p_resume w t l depth w')
  let ?w1 = "upd_lock l (\<lambda>x. x\<lparr>pl_lock := lock_sacquire_resume (pl_lock (pw_lock w l))\<rparr>) w"
  have w1: "upd_lock l (\<lambda>x. x\<lparr>pl_lock := lock_sacquire_resume (pl_lock x)\<rparr>) w = ?w1" by (simp add: upd_lock_def)
  obtain w2 where f: "psacquire_finally depth l t ?w1 = Some w2" "w' = take_lock l t w2"
    using p_resume(2) by (auto simp: psacquire_resume_def w1 split: option.splits)
  have "pw_ok ?w1" using set_lock_ok [OF p_resume(4)] by (simp add: lock_sacquire_resume_def)
  from finally_ok [OF this _ f(1)] p_resume(1,3) show ?case using f(2) take_lock_ok by simp
next
  case (p_throw w t l depth waiter w')
  let ?w1 = "upd_lock l (\<lambda>x. x\<lparr>pl_lock := lock_sacquire_throw waiter (pl_lock (pw_lock w l))\<rparr>) w"
  have w1: "upd_lock l (\<lambda>x. x\<lparr>pl_lock := lock_sacquire_throw waiter (pl_lock x)\<rparr>) w = ?w1" by (simp add: upd_lock_def)
  have "pw_ok ?w1" using set_lock_ok [OF p_throw(4)] by (simp add: lock_sacquire_throw_def)
  from finally_ok [OF this] p_throw(1,2) show ?case by (simp add: psacquire_throw_def w1)
next
  case (p_release l w ws w' ws' r) show ?case by (rule release_ok [OF p_release(3,1)])
next
  case (p_switch w t) then show ?case by (simp add: pw_ok_def)
next
  case (p_runnable w t b) then show ?case unfolding pw_ok_def by auto
next
  case (p_priority w v t)
  have "pw_ok (upd_task t (\<lambda>x. x\<lparr>pt_priority := v\<rparr>) w)" using p_priority unfolding pw_ok_def by auto
  then show ?case using same_links_ok [OF modified_same] by (simp add: set_priority_def)
qed

lemma p_reach_ok: "p_reach prio b w \<Longrightarrow> b \<Longrightarrow> pw_ok w"
proof (induction rule: p_reach.induct)
  case p_start
  show ?case by (simp add: pw_start_def pw_ok_def ptask_init_def plock_init_def)
next
  case (p_next b w b' w')
  then show ?case using p_step_ok by blast
qed

section \<open>Propagation\<close>

text \<open>Propagation follows the chain of owners and re-sorts the first runnable one.\<close>

lemma task_propagate_above:
  assumes "acyclic (blocked_by w)" "finite {t. (u, t) \<in> (blocked_by w)\<^sup>*}" "card {t. (u, t) \<in> (blocked_by w)\<^sup>*} \<le> n"
  shows "\<exists>w'. task_propagate n u w = Some w' \<and>
    (w' = w \<or> (\<exists>t. (u, t) \<in> (blocked_by w)\<^sup>* \<and> pt_runnable (pw_task w t) \<and> w' = task_modified t w))"
  using assms(2,3)
proof (induction n arbitrary: u)
  case 0
  then have "{t. (u, t) \<in> (blocked_by w)\<^sup>*} = {}" by (metis card_0_eq le_zero_eq)
  then show ?case by blast
next
  case (Suc n)
  let ?b = "blocked_by w"
  show ?case
  proof (cases "pt_runnable (pw_task w u) \<or> pt_waiting (pw_task w u) = None \<or> (\<exists>l. pt_waiting (pw_task w u) = Some l \<and> pl_owner (pw_lock w l) = None)")
    case True
    then show ?thesis by (auto split: option.splits)
  next
    case False
    then obtain l t where l: "pt_waiting (pw_task w u) = Some l" "pl_owner (pw_lock w l) = Some t" "\<not> pt_runnable (pw_task w u)" by auto
    then have e: "(u, t) \<in> ?b" by (auto simp: blocked_by_def)
    have sub: "{x. (t, x) \<in> ?b\<^sup>*} \<subseteq> {x. (u, x) \<in> ?b\<^sup>*}" using e by (auto intro: converse_rtrancl_into_rtrancl)
    have nu: "u \<notin> {x. (t, x) \<in> ?b\<^sup>*}"
      using assms(1) e by (auto simp: acyclic_def dest: rtrancl_into_trancl2)
    have st: "{x. (t, x) \<in> ?b\<^sup>*} \<subset> {x. (u, x) \<in> ?b\<^sup>*}" using sub nu by auto
    have c: "finite {x. (t, x) \<in> ?b\<^sup>*}" "card {x. (t, x) \<in> ?b\<^sup>*} \<le> n"
      using Suc.prems(2) psubset_card_mono [OF Suc.prems(1) st] finite_subset [OF sub Suc.prems(1)] by simp_all
    have "task_propagate (Suc n) u w = task_propagate n t w" using l by simp
    moreover obtain w' where "task_propagate n t w = Some w'"
      "w' = w \<or> (\<exists>x. (t, x) \<in> ?b\<^sup>* \<and> pt_runnable (pw_task w x) \<and> w' = task_modified x w)"
      using Suc.IH [OF c] by blast
    ultimately show ?thesis using sub by auto
  qed
qed

section \<open>Properties\<close>

text \<open>C23: Priority inheritance.  In every state whose waiting tasks form no cycle, reached by a run in which no call
  exhausted the stack and every woken waiter found the lock free (nobody took it again between the release and
  the turn of the waiter), the effective priority of a task is the best base priority among the task itself and
  all tasks blocked by it, directly or through a chain of locks; a call depth of the number of these tasks is
  enough.  So the recursive computation over owned locks and registered waiters agrees with the transitive
  closure of ``waits for a lock owned by''.  (The other runs: \<open>barging_two_owners\<close>.)\<close>

theorem effective_priority_inherited:
  assumes "p_reach prio True w" and "acyclic (blocked_by w)"
    and "finite {u. (u, t) \<in> (blocked_by w)\<^sup>*}" and "card {u. (u, t) \<in> (blocked_by w)\<^sup>*} \<le> depth"
  shows "task_effective depth w t = Some (Min ((\<lambda>u. pt_priority (pw_task w u)) ` {u. (u, t) \<in> (blocked_by w)\<^sup>*}))"
proof -
  have r: "registered w = blocked_by w" by (rule registered_blocked [OF p_reach_ok [OF assms(1) TrueI]])
  have "task_effective depth w t = Some (best_of w (above (registered w) t))"
    by (rule task_effective_above) (use assms(2-4) in \<open>simp_all add: r above_def\<close>)
  then show ?thesis by (simp add: r best_of_def above_def)
qed

text \<open>Task 1 (priority 5) owns lock 0 and task 2 (priority 1) waits for it.\<close>

definition demo_prio :: "nat \<Rightarrow> int" where
  "demo_prio t = (if t = 2 then 1 else 5)"

definition demo_held :: pworld where
  "demo_held = \<lparr>pw_task = (\<lambda>t. ptask_init (demo_prio t))(1 := (ptask_init 5)\<lparr>pt_owned := [0]\<rparr>),
     pw_lock = (\<lambda>_. plock_init)(0 := \<lparr>pl_lock = \<lparr>lk_locked = True, lk_waiters = []\<rparr>, pl_owner = Some 1, pl_waiter_tasks = []\<rparr>), pw_current = 2\<rparr>"

definition demo_inherit :: pworld where
  "demo_inherit = demo_held\<lparr>pw_task := (pw_task demo_held)(2 := (ptask_init 1)\<lparr>pt_waiting := Some 0\<rparr>),
     pw_lock := (pw_lock demo_held)(0 := \<lparr>pl_lock = \<lparr>lk_locked = True, lk_waiters = [0]\<rparr>, pl_owner = Some 1, pl_waiter_tasks = [2]\<rparr>)\<rparr>"

lemma demo_inherit_reach: "p_reach demo_prio True demo_inherit"
proof -
  let ?s0 = "pw_start demo_prio"
  let ?s1 = "?s0\<lparr>pw_current := 1\<rparr>"
  let ?s2 = "demo_held\<lparr>pw_current := 1\<rparr>"
  have 1: "p_step True ?s0 ?s1" by (rule p_switch)
  have "psacquire 3 0 ?s1 empty_wstore = (?s2, empty_wstore, Some (SRet True))"
    by (simp add: psacquire_def pw_start_def plock_init_def lock_init_def lock_sacquire_def take_lock_def demo_held_def
        add_owned_priority_lock_def upd_task_def upd_lock_def ptask_init_def demo_prio_def fun_eq_iff)
  then have 2: "p_step True ?s1 ?s2" by (rule p_acquire [rotated]) (simp add: pw_start_def ptask_init_def)
  have 3: "p_step True ?s2 demo_held" using p_switch [of ?s2 2] by (simp add: demo_held_def)
  have "psacquire 3 0 demo_held empty_wstore = (demo_inherit, \<lparr>w_next = 1, w_fired = {}\<rparr>, Some (SWait 0))"
    by (simp add: psacquire_def demo_held_def demo_inherit_def lock_sacquire_def new_waiter_def empty_wstore_def eval_nat_numeral
        set_waiting_on_priority_def upd_task_def upd_lock_def ptask_init_def demo_prio_def fun_eq_iff plock_init_def)
  then have 4: "p_step True demo_held demo_inherit" by (rule p_acquire [rotated]) (simp add: demo_held_def ptask_init_def)
  show ?thesis using p_next [OF p_next [OF p_next [OF p_next [OF p_start 1] 2] 3] 4] by simp
qed

lemma demo_inherit_blocked: "blocked_by demo_inherit = {(2, 1)}"
  by (auto simp: blocked_by_def demo_inherit_def demo_held_def ptask_init_def plock_init_def split: if_splits)

lemma demo_inherit_above: "{u. (u, 1) \<in> {(2 :: nat, 1 :: nat)}\<^sup>*} = {1, 2}"
proof -
  have "u = 1 \<or> u = 2" if "(u, 1) \<in> {(2 :: nat, 1 :: nat)}\<^sup>*" for u
    using that by (cases rule: converse_rtranclE) auto
  then show ?thesis by auto
qed

theorem effective_priority_inherited_witness: "task_effective 2 demo_inherit 1 = Some 1"
proof -
  have a: "acyclic (blocked_by demo_inherit)" unfolding demo_inherit_blocked by (simp add: acyclic_def trancl_insert)
  have "task_effective 2 demo_inherit 1 = Some (Min ((\<lambda>u. pt_priority (pw_task demo_inherit u)) ` {1, 2}))"
    using effective_priority_inherited [OF demo_inherit_reach a, of 1 2]
    unfolding demo_inherit_blocked demo_inherit_above by simp
  then show ?thesis by (simp add: demo_inherit_def demo_held_def ptask_init_def)
qed

text \<open>Two tasks that wait for each other's locks: the effective priority is undefined at every call depth,
  that is, \<open>get_effective_priority\<close> recurses until the interpreter stops it.\<close>

theorem deadlock_exhausts_recursion:
  assumes "pw_ok w" and "(t, t) \<in> (blocked_by w)\<^sup>+"
  shows "task_effective depth w t = None"
  using cycle_no_priority assms registered_blocked by simp

text \<open>The lock of \<open>demo_inherit\<close> is released by task 1, which wakes task 2, and taken again by task 1 before task 2
  runs; \<open>Lock.sacquire\<close> does not look again, so both tasks hold the lock, each has it in its list of owned locks,
  and task 1 cannot release it any more.\<close>

definition demo_retaken :: pworld where
  "demo_retaken = fst (psacquire 3 0 (fst (prelease 0 (demo_inherit\<lparr>pw_current := 1\<rparr>) empty_wstore)) empty_wstore)"

definition demo_barged :: pworld where
  "demo_barged = the (psacquire_resume 3 0 2 demo_retaken)"

lemma demo_barged_reach: "p_reach demo_prio False demo_barged"
proof -
  let ?s1 = "demo_inherit\<lparr>pw_current := 1\<rparr>"
  let ?s2 = "fst (prelease 0 ?s1 empty_wstore)"
  have 1: "p_step True demo_inherit ?s1" by (rule p_switch)
  have "prelease 0 ?s1 empty_wstore = (?s2, snd (prelease 0 ?s1 empty_wstore))" by simp
  then have 2: "p_step True ?s1 ?s2" by (metis p_release surj_pair)
  let ?a = "psacquire 3 0 ?s2 empty_wstore"
  have "pt_waiting (pw_task ?s2 (pw_current ?s2)) = None" "snd (snd ?a) = Some (SRet True)" by code_simp+
  moreover have "?a = (demo_retaken, fst (snd ?a), snd (snd ?a))" by (simp add: demo_retaken_def)
  ultimately have 3: "p_step True ?s2 demo_retaken" by (metis p_acquire)
  have "pt_waiting (pw_task demo_retaken 2) = Some 0" "pl_owner (pw_lock demo_retaken 0) \<noteq> None" "psacquire_resume 3 0 2 demo_retaken \<noteq> None"
    by code_simp+
  then have 4: "p_step False demo_retaken demo_barged"
    using p_resume [of demo_retaken 2 0 3 demo_barged] by (auto simp: demo_barged_def)
  show ?thesis using p_next [OF p_next [OF p_next [OF p_next [OF demo_inherit_reach 1] 2] 3] 4] by simp
qed

theorem barging_two_owners:
  "\<exists>w. p_reach demo_prio False w \<and> pt_owned (pw_task w 1) = [0] \<and> pt_owned (pw_task w 2) = [0] \<and> pl_owner (pw_lock w 0) = Some 2
     \<and> snd (snd (prelease 0 (w\<lparr>pw_current := 1\<rparr>) empty_wstore)) = Inl RuntimeErr"
  by (rule exI [of _ demo_barged]) (intro conjI demo_barged_reach; code_simp)

end
