(* ===== verification/Timeouts.thy ===== *)
theory Timeouts
  imports Scheduler_Facts
begin

text \<open>
  \<open>timeout\<close>, \<open>timeout_at\<close>, \<open>Timeout\<close> and the exception-chain helpers of \<open>tealetio/locks.py\<close>.  Exception
  objects live in a heap (a list, an object is its position) with their class, \<open>__context__\<close>, \<open>__cause__\<close> and
  \<open>__suppress_context__\<close>; \<open>py_raise\<close> is what the interpreter's \<open>raise\<close> does to the links while another
  exception is being handled.  The timers of the timeouts are those of the scheduling core.
  \<open>unwind\<close> leaves a stack of \<open>with timeout(...)\<close> blocks, innermost first: of the timeouts whose sentinels
  are chained in nesting order only the outermost reports, exceptions that are not their own pass
  through, and every timer is disarmed.
\<close>

section \<open>Exception objects\<close>

record xobj =
  x_class :: pyexn
  x_context :: "nat option"
  x_cause :: "nat option"
  x_suppress :: bool

type_synonym xheap = "xobj list"

definition ctx :: "xheap \<Rightarrow> nat \<Rightarrow> nat option" where
  "ctx h i = (if i < length h then x_context (h ! i) else None)"

definition xclass :: "xheap \<Rightarrow> nat \<Rightarrow> pyexn" where
  "xclass h i = (if i < length h then x_class (h ! i) else TypeErr)"

definition set_ctx :: "nat \<Rightarrow> nat option \<Rightarrow> xheap \<Rightarrow> xheap" where
  "set_ctx i c h = (if i < length h then h[i := (h ! i)\<lparr>x_context := c\<rparr>] else h)"

definition new_exn :: "pyexn \<Rightarrow> nat option \<Rightarrow> nat option \<Rightarrow> xheap \<Rightarrow> xheap \<times> nat" where
  "new_exn c context cause h =
     (h @ [\<lparr>x_class = c, x_context = context, x_cause = cause, x_suppress = (cause \<noteq> None)\<rparr>], length h)"

text \<open>The loop of \<open>exception_split_context\<close>; it ends because the heap is finite and no object is visited
  twice.\<close>

function split_loop :: "xheap \<Rightarrow> nat option \<Rightarrow> nat set \<Rightarrow> nat list \<Rightarrow> nat list" where
  "split_loop h None seen chain = chain"
| "split_loop h (Some cur) seen chain =
     (if cur \<in> seen then chain else split_loop h (ctx h cur) (insert cur seen) (chain @ [cur]))"
  by pat_completeness auto
termination
proof (relation "measure (\<lambda>(h, cur, seen, chain).
    case cur of None \<Rightarrow> 0 | Some c \<Rightarrow> Suc (card ({..<length h} - seen) + (if c < length h then 1 else 0)))", goal_cases)
  case (2 h cur seen chain)
  show ?case
  proof (cases "cur < length h")
    case True
    then have "{..<length h} - insert cur seen = ({..<length h} - seen) - {cur}" "cur \<in> {..<length h} - seen"
      using 2 by auto
    then have "Suc (card ({..<length h} - insert cur seen)) = card ({..<length h} - seen)"
      by (simp only: card_Suc_Diff1 [OF _ _] finite_Diff finite_lessThan)
    then show ?thesis using True by (simp split: option.split)
  next
    case False
    then show ?thesis by (simp add: ctx_def)
  qed
qed simp

definition exception_split_context :: "xheap \<Rightarrow> nat \<Rightarrow> nat list" where
  "exception_split_context h exc = split_loop h (Some exc) {} []"

text \<open>\<open>for current, context in itertools.pairwise(excs): current.__context__ = context\<close>\<close>

fun link_pairs :: "nat list \<Rightarrow> xheap \<Rightarrow> xheap" where
  "link_pairs (cur # context # excs) h = link_pairs (context # excs) (set_ctx cur (Some context) h)"
| "link_pairs _ h = h"

definition exception_join_context :: "nat list \<Rightarrow> xheap \<Rightarrow> xheap \<times> (pyexn + nat)" where
  "exception_join_context excs h =
     (case excs of [] \<Rightarrow> (h, Inl ValueErr) | e # _ \<Rightarrow> (link_pairs excs h, Inr e))"

text \<open>The interpreter's \<open>raise exc\<close> while \<open>handling\<close> is handled: unless it is \<open>exc\<close> itself it becomes the
  context of \<open>exc\<close>, after a link back to \<open>exc\<close> in its own chain was cut.\<close>

definition py_raise :: "nat \<Rightarrow> nat option \<Rightarrow> xheap \<Rightarrow> xheap" where
  "py_raise exc handling h =
     (case handling of
        None \<Rightarrow> h
      | Some v \<Rightarrow>
          if v = exc then h
          else set_ctx exc (Some v)
            (case find (\<lambda>o'. ctx h o' = Some exc) (exception_split_context h v) of
               None \<Rightarrow> h | Some o' \<Rightarrow> set_ctx o' None h))"

definition restore_links :: "nat \<Rightarrow> nat option \<Rightarrow> bool \<Rightarrow> xheap \<Rightarrow> xheap" where
  "restore_links exc saved suppress h =
     (if exc < length h then h[exc := (h ! exc)\<lparr>x_context := saved, x_suppress := suppress\<rparr>] else h)"

definition raise_as_is :: "nat \<Rightarrow> nat option \<Rightarrow> xheap \<Rightarrow> xheap" where
  "raise_as_is exc handling h =
     (let saved = ctx h exc;
          suppress = (exc < length h \<and> x_suppress (h ! exc))
      in restore_links exc saved suppress (py_raise exc handling h))"

section \<open>Timeout\<close>

record tmo =
  to_when :: int
  to_handle :: "nat option"
  to_exc :: nat
  to_expired :: bool

text \<open>\<open>ts_args\<close>: the timeout and the target tealet bound into the callback of a timer handle.\<close>

record tstate =
  ts_world :: world
  ts_heap :: xheap
  ts_objs :: "tmo list"
  ts_args :: "nat \<Rightarrow> (nat \<times> tid) option"

definition upd_tmo :: "nat \<Rightarrow> (tmo \<Rightarrow> tmo) \<Rightarrow> tstate \<Rightarrow> tstate" where
  "upd_tmo i f s = s\<lparr>ts_objs := (ts_objs s)[i := f (ts_objs s ! i)]\<rparr>"

definition timeout_at :: "int \<Rightarrow> tstate \<Rightarrow> tstate \<times> nat" where
  "timeout_at when s =
     (let (h, exc) = new_exn RawTimeoutErr None None (ts_heap s)
      in (s\<lparr>ts_heap := h, ts_objs := ts_objs s @ [\<lparr>to_when = when, to_handle = None, to_exc = exc, to_expired = False\<rparr>]\<rparr>,
          length (ts_objs s)))"

definition timeout_in :: "int \<Rightarrow> tstate \<Rightarrow> tstate \<times> nat" where
  "timeout_in delay s = timeout_at (now (ts_world s) + delay) s"

text \<open>\<open>call_at(self._when, self._timeout, tealet.current())\<close>\<close>

definition arm_timer :: "nat \<Rightarrow> tstate \<Rightarrow> tstate" where
  "arm_timer i s =
     (let n = timer_sequence (ts_world s);
          (w, h) = call_at (to_when (ts_objs s ! i)) (CbUser n) (ts_world s)
      in upd_tmo i (\<lambda>t. t\<lparr>to_handle := Some h\<rparr>)
           (s\<lparr>ts_world := w, ts_args := (ts_args s)(h \<mapsto> (i, current (ts_world s)))\<rparr>))"

definition cancel_timer :: "nat \<Rightarrow> tstate \<Rightarrow> tstate" where
  "cancel_timer i s =
     (case to_handle (ts_objs s ! i) of
        None \<Rightarrow> s
      | Some h \<Rightarrow> s\<lparr>ts_world := handle_cancel h (ts_world s)\<rparr>)"

definition timeout_reschedule :: "int \<Rightarrow> nat \<Rightarrow> tstate \<Rightarrow> tstate" where
  "timeout_reschedule when i s =
     (if \<not> to_expired (ts_objs s ! i) \<and> to_handle (ts_objs s ! i) \<noteq> None
      then arm_timer i (upd_tmo i (\<lambda>t. t\<lparr>to_when := when\<rparr>) (cancel_timer i s))
      else s)"

definition timeout_expired :: "nat \<Rightarrow> tstate \<Rightarrow> bool" where
  "timeout_expired i s = to_expired (ts_objs s ! i)"

definition timeout_enter :: "nat \<Rightarrow> tstate \<Rightarrow> tstate" where
  "timeout_enter i s = arm_timer i s"

text \<open>The callback \<open>_timeout\<close> of a fired handle.\<close>

definition timeout_fire :: "nat \<Rightarrow> tid \<Rightarrow> tstate \<Rightarrow> tstate \<times> (pyexn + unit)" where
  "timeout_fire i target s =
     (let s1 = upd_tmo i (\<lambda>t. t\<lparr>to_expired := True\<rparr>) s
      in case target_throw target RawTimeoutErr (ts_world s1) of
           (w, r) \<Rightarrow> (s1\<lparr>ts_world := w\<rparr>, r))"

text \<open>\<open>__exit__\<close>: \<open>Inr ()\<close> lets the exception of the block pass, \<open>Inl e\<close> raises \<open>e\<close> in its place.\<close>

definition timeout_exit :: "nat \<Rightarrow> nat option \<Rightarrow> tstate \<Rightarrow> tstate \<times> (nat + unit)" where
  "timeout_exit i exc_val s =
     (let s1 = cancel_timer i s in
      case exc_val of
        None \<Rightarrow> (s1, Inr ())
      | Some v \<Rightarrow>
          if v \<noteq> to_exc (ts_objs s1 ! i) then (s1, Inr ())
          else if \<not> to_expired (ts_objs s1 ! i) then
            (let (h, e) = new_exn AssertionErr (Some v) None (ts_heap s1) in (s1\<lparr>ts_heap := h\<rparr>, Inl e))
          else
            (let chain = exception_split_context (ts_heap s1) v;
                 raise_timeout = (let (h, e) = new_exn TimeoutErr (Some v) (Some v) (ts_heap s1) in (s1\<lparr>ts_heap := h\<rparr>, Inl e))
             in if 1 < length chain \<and> \<not> is_Exception (xclass (ts_heap s1) (chain ! 1)) then
                  (case exception_join_context (drop 1 chain) (ts_heap s1) of
                     (h, Inl c) \<Rightarrow> (let (h1, e) = new_exn c (Some v) None h in (s1\<lparr>ts_heap := h1\<rparr>, Inl e))
                   | (h, Inr e) \<Rightarrow> (s1\<lparr>ts_heap := raise_as_is e (Some v) h\<rparr>, Inl e))
                else raise_timeout))"

text \<open>The interpreter leaves nested \<open>with\<close> blocks, innermost first.\<close>

fun unwind :: "nat list \<Rightarrow> nat option \<Rightarrow> tstate \<Rightarrow> tstate \<times> nat option" where
  "unwind [] exc s = (s, exc)"
| "unwind (i # blocks) exc s =
     (case timeout_exit i exc s of
        (s1, Inr _) \<Rightarrow> unwind blocks exc s1
      | (s1, Inl e) \<Rightarrow> unwind blocks (Some e) s1)"

section \<open>Chains\<close>

text \<open>\<open>xs\<close> is the whole context chain of its first object.\<close>

fun is_chain :: "xheap \<Rightarrow> nat list \<Rightarrow> bool" where
  "is_chain h [] = False"
| "is_chain h [x] = (ctx h x = None)"
| "is_chain h (x # y # xs) = (ctx h x = Some y \<and> is_chain h (y # xs))"

lemma length_set_ctx [simp]: "length (set_ctx i c h) = length h"
  by (simp add: set_ctx_def)

lemma ctx_set_ctx: "ctx (set_ctx i c h) j = (if j = i \<and> i < length h then c else ctx h j)"
  by (simp add: ctx_def set_ctx_def nth_list_update)

lemma xclass_set_ctx [simp]: "xclass (set_ctx i c h) j = xclass h j"
  by (simp add: xclass_def set_ctx_def nth_list_update)

lemma set_ctx_same: "ctx h i = c \<Longrightarrow> set_ctx i c h = h"
  by (auto simp: ctx_def set_ctx_def)

lemma is_chain_Cons: "is_chain h (x # xs) \<longleftrightarrow> (if xs = [] then ctx h x = None else ctx h x = Some (hd xs) \<and> is_chain h xs)"
  by (cases xs) simp_all

lemma is_chain_cong: "(\<And>x. x \<in> set xs \<Longrightarrow> ctx h' x = ctx h x) \<Longrightarrow> is_chain h' xs = is_chain h xs"
  by (induction xs) (auto simp: is_chain_Cons)

lemma split_loop_chain:
  "is_chain h xs \<Longrightarrow> distinct xs \<Longrightarrow> set xs \<inter> seen = {} \<Longrightarrow> split_loop h (Some (hd xs)) seen acc = acc @ xs"
proof (induction xs arbitrary: seen acc)
  case (Cons x xs)
  show ?case
  proof (cases "xs = []")
    case True
    then show ?thesis using Cons.prems by simp
  next
    case False
    then have c: "ctx h x = Some (hd xs)" "is_chain h xs" using Cons.prems(1) by (simp_all add: is_chain_Cons)
    have "split_loop h (Some (hd xs)) (insert x seen) (acc @ [x]) = (acc @ [x]) @ xs"
      by (rule Cons.IH [OF c(2)]) (use Cons.prems in auto)
    then show ?thesis using Cons.prems(3) c(1) by simp
  qed
qed simp

lemma split_chain: "is_chain h xs \<Longrightarrow> distinct xs \<Longrightarrow> exception_split_context h (hd xs) = xs"
  using split_loop_chain [of h xs "{}" "[]"] by (simp add: exception_split_context_def)

text \<open>Every object has a chain: the walk stops at the first repetition.\<close>

lemma split_loop_prefix: "\<exists>ys. split_loop h cur seen acc = acc @ ys \<and> distinct ys \<and> set ys \<inter> seen = {}"
proof (induction h cur seen acc rule: split_loop.induct)
  case (2 h cur seen chain)
  show ?case
  proof (cases "cur \<in> seen")
    case False
    with 2 obtain ys where "split_loop h (ctx h cur) (insert cur seen) (chain @ [cur]) = (chain @ [cur]) @ ys"
      "distinct ys" "set ys \<inter> insert cur seen = {}" by blast
    with False show ?thesis by (intro exI [of _ "cur # ys"]) auto
  qed simp
qed simp

lemma link_pairs_chain: "is_chain h xs \<Longrightarrow> link_pairs xs h = h"
  by (induction xs h rule: link_pairs.induct) (auto simp: set_ctx_same)

lemma length_link_pairs [simp]: "length (link_pairs xs h) = length h"
  by (induction xs h rule: link_pairs.induct) simp_all

lemma link_pairs_frame: "x \<notin> set (butlast xs) \<Longrightarrow> ctx (link_pairs xs h) x = ctx h x"
  by (induction xs h rule: link_pairs.induct) (auto simp: ctx_set_ctx)

lemma link_pairs_links:
  assumes "distinct xs" "xs \<noteq> []" "set xs \<subseteq> {..<length h}" "ctx h (last xs) = None"
  shows "is_chain (link_pairs xs h) xs"
  using assms
proof (induction xs h rule: link_pairs.induct)
  case (1 x y xs h)
  have "is_chain (link_pairs (y # xs) (set_ctx x (Some y) h)) (y # xs)"
    by (rule "1.IH") (use "1.prems" in \<open>auto simp: ctx_set_ctx\<close>)
  moreover have "x \<notin> set (butlast (y # xs))" using "1.prems"(1) by (meson distinct.simps(2) in_set_butlastD)
  then have "ctx (link_pairs (y # xs) (set_ctx x (Some y) h)) x = Some y"
    using link_pairs_frame [of x "y # xs" "set_ctx x (Some y) h"] "1.prems"(3) by (simp add: ctx_set_ctx)
  ultimately show ?case by simp
qed simp_all

text \<open>Splitting and joining are inverse to each other.\<close>

lemma join_split: "is_chain h xs \<Longrightarrow> distinct xs \<Longrightarrow>
    exception_join_context (exception_split_context h (hd xs)) h = (h, Inr (hd xs))"
  by (cases xs) (simp_all only: split_chain, simp_all add: exception_join_context_def link_pairs_chain)

lemma split_join: "distinct xs \<Longrightarrow> xs \<noteq> [] \<Longrightarrow> set xs \<subseteq> {..<length h} \<Longrightarrow> ctx h (last xs) = None \<Longrightarrow>
    exception_split_context (fst (exception_join_context xs h)) (hd xs) = xs"
  using split_chain [OF link_pairs_links [of xs h]] by (cases xs) (simp_all add: exception_join_context_def)

text \<open>Re-raising the context of the handled exception: the handled one loses its link, nothing else
  changes.\<close>

lemma raise_as_is_next:
  assumes "is_chain h (x # y # xs)" "distinct (x # y # xs)" "y < length h" "x < length h"
  shows "raise_as_is y (Some x) h = set_ctx x None h"
proof -
  have "exception_split_context h x = x # y # xs" using split_chain [OF assms(1,2)] by simp
  then have "py_raise y (Some x) h = set_ctx y (Some x) (set_ctx x None h)"
    using assms(1,2) by (simp add: py_raise_def)
  then show ?thesis
    using assms(2,3,4)
    by (auto simp: raise_as_is_def restore_links_def set_ctx_def ctx_def list_update_swap nth_list_update)
qed

section \<open>Leaving the blocks\<close>

definition sentinel :: "tstate \<Rightarrow> nat \<Rightarrow> nat" where
  "sentinel s i = to_exc (ts_objs s ! i)"

lemma cancel_timer_simps [simp]:
  "ts_heap (cancel_timer i s) = ts_heap s" "ts_objs (cancel_timer i s) = ts_objs s"
  "cancel_timer i (s\<lparr>ts_heap := h\<rparr>) = (cancel_timer i s)\<lparr>ts_heap := h\<rparr>"
  by (simp_all add: cancel_timer_def split: option.split)

lemma fold_cancel_simps [simp]:
  "ts_heap (fold cancel_timer ids s) = ts_heap s" "ts_objs (fold cancel_timer ids s) = ts_objs s"
  "fold cancel_timer ids (s\<lparr>ts_heap := h\<rparr>) = (fold cancel_timer ids s)\<lparr>ts_heap := h\<rparr>"
  by (induction ids arbitrary: s) simp_all

lemma sentinel_simps [simp]: "sentinel (cancel_timer i s) j = sentinel s j" "sentinel (s\<lparr>ts_heap := h\<rparr>) j = sentinel s j"
  by (simp_all add: sentinel_def)

lemma fold_cancel_keeps: "h_cancelled (handles (ts_world s) h) \<Longrightarrow> h_cancelled (handles (ts_world (fold cancel_timer ids s)) h)"
  by (induction ids arbitrary: s) (simp_all add: cancel_timer_def handle_cancel_def split: option.split)

lemma fold_cancel_cancels:
  "i \<in> set ids \<Longrightarrow> to_handle (ts_objs s ! i) = Some h \<Longrightarrow> h_cancelled (handles (ts_world (fold cancel_timer ids s)) h)"
proof (induction ids arbitrary: s)
  case (Cons j ids)
  show ?case
  proof (cases "i = j")
    case True
    then have "h_cancelled (handles (ts_world (cancel_timer j s)) h)"
      using Cons.prems(2) by (simp add: cancel_timer_def handle_cancel_def)
    then show ?thesis using fold_cancel_keeps by simp
  next
    case False
    then show ?thesis using Cons by simp
  qed
qed simp

text \<open>The branches of \<open>__exit__\<close>.\<close>

lemma exit_foreign: "exc \<noteq> Some (sentinel s i) \<Longrightarrow> timeout_exit i exc s = (cancel_timer i s, Inr ())"
  by (cases exc) (simp_all add: timeout_exit_def sentinel_def Let_def)

lemma exit_reports:
  assumes "to_expired (ts_objs s ! i)" "is_chain (ts_heap s) (sentinel s i # rest)" "distinct (sentinel s i # rest)"
    and "rest = [] \<or> is_Exception (xclass (ts_heap s) (hd rest))"
  shows "timeout_exit i (Some (sentinel s i)) s =
    ((cancel_timer i s)\<lparr>ts_heap := ts_heap s @ [\<lparr>x_class = TimeoutErr, x_context = Some (sentinel s i), x_cause = Some (sentinel s i), x_suppress = True\<rparr>]\<rparr>,
     Inl (length (ts_heap s)))"
  using assms(1,4) split_chain [OF assms(2,3)]
  by (cases rest) (simp_all add: timeout_exit_def sentinel_def Let_def new_exn_def)

lemma exit_hands_on:
  assumes "to_expired (ts_objs s ! i)" "is_chain (ts_heap s) (sentinel s i # y # rest)" "distinct (sentinel s i # y # rest)"
    and "sentinel s i < length (ts_heap s)" "y < length (ts_heap s)" "\<not> is_Exception (xclass (ts_heap s) y)"
  shows "timeout_exit i (Some (sentinel s i)) s =
    ((cancel_timer i s)\<lparr>ts_heap := set_ctx (sentinel s i) None (ts_heap s)\<rparr>, Inl y)"
proof -
  have c: "is_chain (ts_heap s) (y # rest)" using assms(2) by simp
  have "exception_join_context (y # rest) (ts_heap s) = (ts_heap s, Inr y)"
    using link_pairs_chain [OF c] by (simp add: exception_join_context_def)
  moreover have "exception_split_context (ts_heap s) (sentinel s i) = sentinel s i # y # rest"
    using split_chain [OF assms(2,3)] by simp
  ultimately show ?thesis
    using assms(1,6) raise_as_is_next [OF assms(2,3,5,4)]
    by (simp add: timeout_exit_def sentinel_def Let_def)
qed

lemma unwind_pass:
  "(\<forall>i \<in> set ids. exc \<noteq> Some (sentinel s i)) \<Longrightarrow> unwind ids exc s = (fold cancel_timer ids s, exc)"
  by (induction ids arbitrary: s) (simp_all add: exit_foreign)

definition reported :: "nat \<Rightarrow> xobj" where
  "reported v = \<lparr>x_class = TimeoutErr, x_context = Some v, x_cause = Some v, x_suppress = True\<rparr>"

lemma unwind_chain:
  assumes "fired = filter (\<lambda>i. i \<in> F) ids" "fired \<noteq> []" "distinct (map (sentinel s) ids)"
    and "\<forall>i \<in> set fired. to_expired (ts_objs s ! i)"
    and "is_chain (ts_heap s) (map (sentinel s) fired @ rest)" "distinct (map (sentinel s) fired @ rest)"
    and "\<forall>i \<in> set ids. sentinel s i < length (ts_heap s) \<and> xclass (ts_heap s) (sentinel s i) = RawTimeoutErr"
    and "rest = [] \<or> is_Exception (xclass (ts_heap s) (hd rest))"
  shows "\<exists>h. length h = length (ts_heap s) \<and>
    unwind ids (Some (sentinel s (hd fired))) s =
      ((fold cancel_timer ids s)\<lparr>ts_heap := h @ [reported (sentinel s (last fired))]\<rparr>, Some (length (ts_heap s)))"
  using assms
proof (induction ids arbitrary: s fired)
  case (Cons i ids)
  let ?x = "sentinel s i" and ?c = "cancel_timer i s"
  show ?case
  proof (cases "i \<in> F")
    case False
    then have f: "fired = filter (\<lambda>i. i \<in> F) ids" using Cons.prems(1) by simp
    have "hd fired \<in> set ids" using f Cons.prems(2) by (metis filter_is_subset hd_in_set subsetD)
    then have "sentinel s (hd fired) \<noteq> ?x" using Cons.prems(3) by (metis distinct.simps(2) image_eqI list.set_map list.simps(9))
    then have "timeout_exit i (Some (sentinel s (hd fired))) s = (?c, Inr ())" by (simp add: exit_foreign)
    then show ?thesis using Cons.IH [OF f Cons.prems(2), of ?c] Cons.prems(3-8) by simp
  next
    case True
    then obtain fs where fs: "fired = i # fs" "fs = filter (\<lambda>i. i \<in> F) ids" using Cons.prems(1) by simp
    show ?thesis
    proof (cases "fs = []")
      case True
      let ?s1 = "?c\<lparr>ts_heap := ts_heap s @ [reported ?x]\<rparr>"
      have e: "timeout_exit i (Some ?x) s = (?s1, Inl (length (ts_heap s)))"
        using exit_reports [of s i rest] Cons.prems(4,5,6,8) fs True by (simp add: reported_def)
      have "unwind ids (Some (length (ts_heap s))) ?s1 = (fold cancel_timer ids ?s1, Some (length (ts_heap s)))"
        by (rule unwind_pass) (use Cons.prems(7) in auto)
      then show ?thesis using e fs True by (intro exI [of _ "ts_heap s"]) simp
    next
      case False
      let ?y = "sentinel s (hd fs)" and ?s1 = "?c\<lparr>ts_heap := set_ctx ?x None (ts_heap s)\<rparr>"
      obtain rs where rs: "map (sentinel s) fs @ rest = ?y # rs" using False by (cases fs) auto
      have y: "hd fs \<in> set ids" using fs(2) False by (metis filter_is_subset hd_in_set subsetD)
      have ch: "is_chain (ts_heap s) (?x # ?y # rs)" and di: "distinct (?x # ?y # rs)"
        using Cons.prems(5,6) fs(1) rs by simp_all
      have ex: "to_expired (ts_objs s ! i)" "?x < length (ts_heap s)" "?y < length (ts_heap s)"
        "\<not> is_Exception (xclass (ts_heap s) ?y)"
        using Cons.prems(4,7) y fs(1) by simp_all
      have e: "timeout_exit i (Some ?x) s = (?s1, Inl ?y)"
        by (rule exit_hands_on [OF ex(1) ch di ex(2,3,4)])
      have "is_chain (set_ctx ?x None (ts_heap s)) (?y # rs) = is_chain (ts_heap s) (?y # rs)"
        by (rule is_chain_cong) (use di in \<open>auto simp: ctx_set_ctx\<close>)
      then have "is_chain (set_ctx ?x None (ts_heap s)) (map (sentinel s) fs @ rest)"
        using ch rs by simp
      then show ?thesis
        using Cons.IH [OF fs(2) False, of ?s1] Cons.prems(3,4,6,7,8) e fs(1) False by simp
    qed
  qed
qed simp

text \<open>An expired timeout takes over only its own sentinel; it never changes which handle is its own.\<close>

lemma timeout_exit_objs: "ts_objs (fst (timeout_exit i exc s)) = ts_objs s"
  "ts_world (fst (timeout_exit i exc s)) = ts_world (cancel_timer i s)" "ts_args (fst (timeout_exit i exc s)) = ts_args s"
proof -
  have a: "ts_args (cancel_timer i s) = ts_args s" by (simp add: cancel_timer_def split: option.split)
  show "ts_objs (fst (timeout_exit i exc s)) = ts_objs s"
    by (simp add: timeout_exit_def Let_def new_exn_def split: option.split prod.split sum.split)
  show "ts_world (fst (timeout_exit i exc s)) = ts_world (cancel_timer i s)"
    by (simp add: timeout_exit_def Let_def new_exn_def split: option.split prod.split sum.split)
  show "ts_args (fst (timeout_exit i exc s)) = ts_args s"
    using a by (simp add: timeout_exit_def Let_def new_exn_def split: option.split prod.split sum.split)
qed

section \<open>Timers of timeouts\<close>

definition pending :: "world \<Rightarrow> nat \<Rightarrow> bool" where
  "pending w h \<longleftrightarrow> h \<in> snd ` set (timers w) \<and> \<not> h_cancelled (handles w h)"

text \<open>Timeouts are created, entered (once), rescheduled, fired by a pending timer and left, in any order.\<close>

inductive ts_step :: "tstate \<Rightarrow> tstate \<Rightarrow> bool" where
  ts_create: "ts_step s (fst (timeout_at when s))"
| ts_enter: "i < length (ts_objs s) \<Longrightarrow> to_handle (ts_objs s ! i) = None \<Longrightarrow> ts_step s (timeout_enter i s)"
| ts_reschedule: "i < length (ts_objs s) \<Longrightarrow> ts_step s (timeout_reschedule when i s)"
| ts_fire: "ts_args s h = Some (i, t) \<Longrightarrow> pending (ts_world s) h \<Longrightarrow>
    ts_step s (fst (timeout_fire i t (s\<lparr>ts_world := (ts_world s)\<lparr>timers := filter (\<lambda>e. snd e \<noteq> h) (timers (ts_world s))\<rparr>\<rparr>)))"
| ts_exit: "i < length (ts_objs s) \<Longrightarrow> ts_step s (fst (timeout_exit i exc s))"

inductive ts_reach :: "tstate \<Rightarrow> tstate \<Rightarrow> bool" where
  ts_refl: "ts_reach s s"
| ts_next: "ts_reach s s1 \<Longrightarrow> ts_step s1 s2 \<Longrightarrow> ts_reach s s2"

definition ts_start :: "world \<Rightarrow> tstate" where
  "ts_start w = \<lparr>ts_world = w, ts_heap = [], ts_objs = [], ts_args = (\<lambda>_. None)\<rparr>"

text \<open>A pending timer of a timeout is the one its handle names.\<close>

definition timer_ok :: "tstate \<Rightarrow> bool" where
  "timer_ok s \<longleftrightarrow> (\<forall>h i t. ts_args s h = Some (i, t) \<longrightarrow>
     h < timer_sequence (ts_world s) \<and> i < length (ts_objs s) \<and> to_handle (ts_objs s ! i) \<noteq> None
     \<and> (pending (ts_world s) h \<longrightarrow> to_handle (ts_objs s ! i) = Some h))"

lemma timer_okD: "timer_ok s \<Longrightarrow> ts_args s h = Some (i, t) \<Longrightarrow>
    h < timer_sequence (ts_world s) \<and> i < length (ts_objs s) \<and> to_handle (ts_objs s ! i) \<noteq> None
     \<and> (pending (ts_world s) h \<longrightarrow> to_handle (ts_objs s ! i) = Some h)"
  unfolding timer_ok_def by blast

lemma park_timers:
  "timers (fst (park_current b w)) = timers w" "handles (fst (park_current b w)) = handles w"
  "timer_sequence (fst (park_current b w)) = timer_sequence w"
  by (simp_all add: park_current_def make_runnable_def make_runnable_next_def Let_def wake_driver_def break_wait_def
      invoke_host_wakeup_def split: option.split)

lemma unlink_timers:
  "timers (task_unlink t w) = timers w" "handles (task_unlink t w) = handles w" "timer_sequence (task_unlink t w) = timer_sequence w"
  by (simp_all add: task_unlink_def link_unlink_def runnable_link_unlink_def event_unlink_def chan_unlink_waiter_def
      upd_chan_def Let_def split: option.split link.split)

lemma throw_timers:
  "timers (fst (target_throw t x w)) = timers w" "handles (fst (target_throw t x w)) = handles w"
  "timer_sequence (fst (target_throw t x w)) = timer_sequence w"
  using park_timers [of True "task_unlink t w"] unlink_timers [of t w]
  by (auto simp: target_throw_def tealet_switch_def split: prod.splits sum.splits)

lemma call_at_timers:
  assumes "call_at when cb w = (w', h)"
  shows "h = timer_sequence w \<and> timer_sequence w' = Suc h \<and> snd ` set (timers w') = insert h (snd ` set (timers w))
    \<and> handles w' = (handles w)(h := \<lparr>h_when = when, h_callback = cb, h_cancelled = False\<rparr>)"
  using assms
  by (auto simp: call_at_def enqueue_timer_def Let_def wake_driver_def break_wait_def invoke_host_wakeup_def
      heappush_def set_insort_key split: if_splits option.splits)

lemma arm_timer_simps:
  assumes "i < length (ts_objs s)"
  shows "ts_args (arm_timer i s) = (ts_args s)(timer_sequence (ts_world s) \<mapsto> (i, current (ts_world s)))"
    "timer_sequence (ts_world (arm_timer i s)) = Suc (timer_sequence (ts_world s))"
    "pending (ts_world (arm_timer i s)) h \<longleftrightarrow> h = timer_sequence (ts_world s) \<or> pending (ts_world s) h \<and> h \<noteq> timer_sequence (ts_world s)"
    "length (ts_objs (arm_timer i s)) = length (ts_objs s)"
    "to_handle (ts_objs (arm_timer i s) ! j) = (if j = i then Some (timer_sequence (ts_world s)) else to_handle (ts_objs s ! j))"
proof -
  obtain w g where g: "call_at (to_when (ts_objs s ! i)) (CbUser (timer_sequence (ts_world s))) (ts_world s) = (w, g)" by fastforce
  note c = call_at_timers [OF g]
  show "ts_args (arm_timer i s) = (ts_args s)(timer_sequence (ts_world s) \<mapsto> (i, current (ts_world s)))"
    "timer_sequence (ts_world (arm_timer i s)) = Suc (timer_sequence (ts_world s))"
    "pending (ts_world (arm_timer i s)) h \<longleftrightarrow> h = timer_sequence (ts_world s) \<or> pending (ts_world s) h \<and> h \<noteq> timer_sequence (ts_world s)"
    "length (ts_objs (arm_timer i s)) = length (ts_objs s)"
    "to_handle (ts_objs (arm_timer i s) ! j) = (if j = i then Some (timer_sequence (ts_world s)) else to_handle (ts_objs s ! j))"
    using g c assms by (auto simp: arm_timer_def upd_tmo_def pending_def nth_list_update)
qed

lemma timer_ok_arm:
  assumes ok: "timer_ok s" and i: "i < length (ts_objs s)"
    and own: "\<And>h t. ts_args s h = Some (i, t) \<Longrightarrow> \<not> pending (ts_world s) h"
  shows "timer_ok (arm_timer i s)"
  unfolding timer_ok_def
proof (intro allI impI)
  fix h j t
  assume a: "ts_args (arm_timer i s) h = Some (j, t)"
  note e = arm_timer_simps [OF i]
  show "h < timer_sequence (ts_world (arm_timer i s)) \<and> j < length (ts_objs (arm_timer i s)) \<and>
     to_handle (ts_objs (arm_timer i s) ! j) \<noteq> None \<and>
     (pending (ts_world (arm_timer i s)) h \<longrightarrow> to_handle (ts_objs (arm_timer i s) ! j) = Some h)"
  proof (cases "h = timer_sequence (ts_world s)")
    case True
    then have "j = i" using a by (simp add: e(1))
    then show ?thesis using True i by (simp add: e)
  next
    case False
    then have old: "ts_args s h = Some (j, t)" using a by (simp add: e(1))
    show ?thesis using timer_okD [OF ok old] own [of h t] old False by (auto simp: e)
  qed
qed

lemma cancel_timer_world:
  assumes "timer_ok s" "i < length (ts_objs s)"
  shows "timer_sequence (ts_world (cancel_timer i s)) = timer_sequence (ts_world s)" "ts_args (cancel_timer i s) = ts_args s"
    "pending (ts_world (cancel_timer i s)) h \<longleftrightarrow> pending (ts_world s) h \<and> to_handle (ts_objs s ! i) \<noteq> Some h"
  by (auto simp: cancel_timer_def handle_cancel_def pending_def split: option.split)

lemma timer_ok_cancel:
  assumes "timer_ok s" "i < length (ts_objs s)"
  shows "timer_ok (cancel_timer i s)" "ts_args (cancel_timer i s) h = Some (i, t) \<Longrightarrow> \<not> pending (ts_world (cancel_timer i s)) h"
  using timer_okD [OF assms(1)] assms(1) by (auto simp: timer_ok_def cancel_timer_world [OF assms])

lemma timer_ok_frame:
  assumes "timer_ok s" "ts_args s' = ts_args s" "length (ts_objs s) \<le> length (ts_objs s')"
    "\<And>j. j < length (ts_objs s) \<Longrightarrow> to_handle (ts_objs s' ! j) = to_handle (ts_objs s ! j)"
    "\<And>h. pending (ts_world s') h \<Longrightarrow> pending (ts_world s) h" "timer_sequence (ts_world s') = timer_sequence (ts_world s)"
  shows "timer_ok s'"
  unfolding timer_ok_def
proof (intro allI impI)
  fix h i t
  assume "ts_args s' h = Some (i, t)"
  then show "h < timer_sequence (ts_world s') \<and> i < length (ts_objs s') \<and> to_handle (ts_objs s' ! i) \<noteq> None
     \<and> (pending (ts_world s') h \<longrightarrow> to_handle (ts_objs s' ! i) = Some h)"
    using timer_okD [OF assms(1), of h i t] assms(2-6) by (metis order.strict_trans2)
qed

lemma timer_ok_step: "ts_step s s' \<Longrightarrow> timer_ok s \<Longrightarrow> timer_ok s'"
proof (induction rule: ts_step.induct)
  case (ts_create s tm)
  show ?case
    by (rule timer_ok_frame [OF ts_create]) (simp_all add: timeout_at_def new_exn_def nth_append)
next
  case (ts_enter i s)
  have "\<not> pending (ts_world s) h" if "ts_args s h = Some (i, t)" for h t
    using timer_okD [OF ts_enter(3) that] ts_enter(2) by simp
  then show ?case using timer_ok_arm [OF ts_enter(3,1)] by (simp add: timeout_enter_def)
next
  case (ts_reschedule i s tm)
  let ?c = "cancel_timer i s"
  let ?u = "upd_tmo i (\<lambda>t. t\<lparr>to_when := tm\<rparr>) ?c"
  note c = timer_ok_cancel [OF ts_reschedule(2,1)]
  have "timer_ok ?u"
    by (rule timer_ok_frame [OF c(1)]) (use ts_reschedule(1) in \<open>simp_all add: upd_tmo_def nth_list_update\<close>)
  moreover have "\<not> pending (ts_world ?u) h" if "ts_args ?u h = Some (i, t)" for h t
    using c(2) that by (simp add: upd_tmo_def)
  ultimately have "timer_ok (arm_timer i ?u)"
    using timer_ok_arm [of ?u i] ts_reschedule(1) by (simp add: upd_tmo_def)
  then show ?case using ts_reschedule(2) by (simp add: timeout_reschedule_def)
next
  case (ts_fire s h i t)
  show ?case
    by (rule timer_ok_frame [OF ts_fire(3)])
       (use timer_okD [OF ts_fire(3,1)] in \<open>auto simp: timeout_fire_def upd_tmo_def Let_def nth_list_update pending_def
          throw_timers case_prod_beta\<close>)
next
  case (ts_exit i s exc)
  show ?case
    by (rule timer_ok_frame [OF timer_ok_cancel(1) [OF ts_exit(2,1)]])
       (simp_all add: timeout_exit_objs cancel_timer_world [OF ts_exit(2,1)])
qed

lemma timer_ok_reach: "ts_reach s s' \<Longrightarrow> timer_ok s \<Longrightarrow> timer_ok s'"
  by (induction rule: ts_reach.induct) (auto intro: timer_ok_step)

section \<open>Properties\<close>

text \<open>C28: \<open>Timeout.__exit__\<close> over nested blocks.  When the timeouts in \<open>fired\<close> (in nesting order, innermost
  first) have expired and their sentinels are chained through \<open>__context__\<close>, the chain ending in nothing
  or in an ordinary exception, leaving the whole stack of blocks raises exactly one new \<open>TimeoutError\<close>,
  whose cause is the sentinel of the outermost of them; the inner sentinels are dropped, timeouts that
  did not fire let the exception pass, and the timer of every block is cancelled.\<close>

theorem nested_timeouts_report:
  assumes "fired = filter (\<lambda>i. i \<in> F) ids" "fired \<noteq> []" "distinct (map (sentinel s) ids)"
    and "\<forall>i \<in> set fired. timeout_expired i s"
    and "is_chain (ts_heap s) (map (sentinel s) fired @ rest)" "distinct (map (sentinel s) fired @ rest)"
    and "\<forall>i \<in> set ids. sentinel s i < length (ts_heap s) \<and> xclass (ts_heap s) (sentinel s i) = RawTimeoutErr"
    and "rest = [] \<or> is_Exception (xclass (ts_heap s) (hd rest))"
  shows "\<exists>s' e. unwind ids (Some (sentinel s (hd fired))) s = (s', Some e) \<and> length (ts_heap s) \<le> e
    \<and> e < length (ts_heap s') \<and> x_class (ts_heap s' ! e) = TimeoutErr \<and> x_cause (ts_heap s' ! e) = Some (sentinel s (last fired))
    \<and> (\<forall>i \<in> set ids. \<forall>h. to_handle (ts_objs s ! i) = Some h \<longrightarrow> h_cancelled (handles (ts_world s') h))"
proof -
  obtain h where h: "length h = length (ts_heap s)" "unwind ids (Some (sentinel s (hd fired))) s =
      ((fold cancel_timer ids s)\<lparr>ts_heap := h @ [reported (sentinel s (last fired))]\<rparr>, Some (length (ts_heap s)))"
    using unwind_chain [OF assms(1-3) _ assms(5-8)] assms(4) by (auto simp: timeout_expired_def)
  have r: "(h @ [x]) ! length (ts_heap s) = x" for x using h(1) by (metis nth_append_length)
  show ?thesis
    unfolding h(2) by (rule exI, rule exI, rule conjI, rule refl)
      (use h(1) r fold_cancel_cancels in \<open>simp add: reported_def\<close>)
qed

text \<open>Two nested timeouts: the outer one (object 1) fired first, the inner one while the outer sentinel
  was propagating.\<close>

definition demo_nested :: "nat option \<Rightarrow> nat option \<Rightarrow> tstate" where
  "demo_nested c0 c1 = \<lparr>ts_world = idle_world,
     ts_heap = [\<lparr>x_class = RawTimeoutErr, x_context = c0, x_cause = None, x_suppress = False\<rparr>,
                \<lparr>x_class = RawTimeoutErr, x_context = c1, x_cause = None, x_suppress = False\<rparr>],
     ts_objs = [\<lparr>to_when = 5, to_handle = Some 0, to_exc = 0, to_expired = True\<rparr>,
                \<lparr>to_when = 3, to_handle = Some 1, to_exc = 1, to_expired = True\<rparr>],
     ts_args = [0 \<mapsto> (0, 4), 1 \<mapsto> (1, 4)]\<rparr>"

theorem nested_timeouts_report_witness:
  "\<exists>s' e. unwind [0, 1] (Some 0) (demo_nested (Some 1) None) = (s', Some e) \<and> x_class (ts_heap s' ! e) = TimeoutErr
    \<and> x_cause (ts_heap s' ! e) = Some 1 \<and> h_cancelled (handles (ts_world s') 1)"
proof -
  let ?s = "demo_nested (Some 1) None"
  have sent: "sentinel ?s 0 = 0" "sentinel ?s (Suc 0) = 1" "sentinel ?s 1 = 1" by (simp_all add: sentinel_def demo_nested_def)
  have "[0, 1] = filter (\<lambda>i. i \<in> {0, 1 :: nat}) [0, 1]" by simp
  from nested_timeouts_report [OF this, of ?s "[]"]
  obtain s' e where "unwind [0, 1] (Some 0) ?s = (s', Some e)" "x_class (ts_heap s' ! e) = TimeoutErr"
    "x_cause (ts_heap s' ! e) = Some 1" "\<forall>h. to_handle (ts_objs ?s ! 1) = Some h \<longrightarrow> h_cancelled (handles (ts_world s') h)"
    using sent by (auto simp: demo_nested_def timeout_expired_def ctx_def xclass_def)
  then show ?thesis by (auto simp: demo_nested_def)
qed

text \<open>In the other order the sentinel escapes: the inner timeout fires first, the outer one while the
  block handles the inner sentinel.  The inner block lets the outer sentinel pass, the outer block takes
  the inner sentinel for one that was propagating from outside and re-raises it, so the internal
  \<open>RawTimeoutError\<close> leaves both blocks and no \<open>TimeoutError\<close> is raised.\<close>

theorem timeout_sentinel_escapes:
  "snd (unwind [0, 1] (Some 1) (demo_nested None (Some 0))) = Some 0
   \<and> xclass (ts_heap (fst (unwind [0, 1] (Some 1) (demo_nested None (Some 0))))) 0 = RawTimeoutErr"
proof -
  let ?s = "demo_nested None (Some 0)"
  have sent: "sentinel ?s 0 = 0" "sentinel (cancel_timer 0 ?s) 1 = 1" "sentinel ?s (Suc 0) = 1"
    by (simp_all add: sentinel_def demo_nested_def)
  have 0: "timeout_exit 0 (Some 1) ?s = (cancel_timer 0 ?s, Inr ())" by (rule exit_foreign) (simp add: sent)
  have 1: "timeout_exit 1 (Some 1) (cancel_timer 0 ?s) =
      ((cancel_timer 1 (cancel_timer 0 ?s))\<lparr>ts_heap := set_ctx 1 None (ts_heap ?s)\<rparr>, Inl 0)"
    using exit_hands_on [of "cancel_timer 0 ?s" 1 0 "[]"] sent
    by (simp add: demo_nested_def ctx_def xclass_def)
  have "unwind [0, 1] (Some 1) ?s = ((cancel_timer 1 (cancel_timer 0 ?s))\<lparr>ts_heap := set_ctx 1 None (ts_heap ?s)\<rparr>, Some 0)"
    using 0 1 by simp
  then show ?thesis by (simp add: xclass_def set_ctx_def) (simp add: demo_nested_def)
qed

text \<open>A timeout cannot fire after its block was left.  Over every sequence of creations, entries,
  reschedules, fired timers and exits, a timeout has at most one pending timer, the one its handle names
  (a reschedule replaces it), and after \<open>__exit__\<close>, whatever exception the block ends with, none.\<close>

theorem timeout_disarmed:
  assumes "ts_reach (ts_start w) s" and "i < length (ts_objs s)"
  shows "(\<forall>h t. ts_args s h = Some (i, t) \<and> pending (ts_world s) h \<longrightarrow> to_handle (ts_objs s ! i) = Some h)
    \<and> (\<forall>h t. ts_args (fst (timeout_exit i exc s)) h = Some (i, t) \<longrightarrow> \<not> pending (ts_world (fst (timeout_exit i exc s))) h)"
proof -
  have "timer_ok (ts_start w)" by (simp add: timer_ok_def ts_start_def)
  then have ok: "timer_ok s" using timer_ok_reach [OF assms(1)] by blast
  show ?thesis
    using timer_okD [OF ok] timer_ok_cancel(2) [OF ok assms(2)]
    by (auto simp: timeout_exit_objs cancel_timer_world [OF ok assms(2)])
qed

theorem timeout_disarmed_witness:
  "to_handle (ts_objs (timeout_enter 0 (fst (timeout_at 5 (ts_start idle_world)))) ! 0) = Some 0
   \<and> \<not> pending (ts_world (fst (timeout_exit 0 None (timeout_enter 0 (fst (timeout_at 5 (ts_start idle_world))))))) 0"
proof -
  let ?s1 = "fst (timeout_at 5 (ts_start idle_world))"
  have o: "length (ts_objs ?s1) = 1" "to_handle (ts_objs ?s1 ! 0) = None"
    by (simp_all add: timeout_at_def new_exn_def ts_start_def)
  have r: "ts_reach (ts_start idle_world) (timeout_enter 0 ?s1)"
    by (rule ts_next [OF ts_next [OF ts_refl ts_create] ts_enter]) (use o in simp_all)
  note e = arm_timer_simps [of 0 ?s1]
  have seq: "timer_sequence (ts_world ?s1) = 0" by (simp add: timeout_at_def new_exn_def ts_start_def idle_world_def)
  have "ts_args (fst (timeout_exit 0 None (timeout_enter 0 ?s1))) 0 = Some (0, current (ts_world ?s1))"
    using e(1) o(1) seq by (simp add: timeout_exit_objs timeout_enter_def)
  then have "\<not> pending (ts_world (fst (timeout_exit 0 None (timeout_enter 0 ?s1)))) 0"
    using timeout_disarmed [OF r, of 0 None] e(4) o(1) by (simp add: timeout_enter_def)
  then show ?thesis using e(5) o(1) seq by (simp add: timeout_enter_def)
qed

end
