(* ===== verification/IO_Waiters.thy ===== *)
theory IO_Waiters
  imports Timeouts
begin

text \<open>
  \<open>IOHandle\<close>, \<open>IOWaiter\<close>, \<open>IOWaiterSync\<close> and \<open>iowait_or_dispose\<close> of \<open>tealetio/io_waiter.py\<close>.  Exceptions are
  objects (positions in the heap of \<open>Timeouts\<close>), because \<open>iowait_or_dispose\<close> compares them by identity; an
  outcome is \<open>Inl exception\<close> or \<open>Inr value\<close>.  A \<open>wait()\<close> is cut at \<open>swait()\<close> like the other blocking calls.
  \<open>complete\<close> hands the pair to the scheduler (\<open>call_on_scheduler\<close>): it is delivered at once in a live turn of
  the owner and queued otherwise.  The proactor's \<open>cancel_nowait\<close> and \<open>stop_poll\<close> are recorded in history
  variables.  The locale \<open>iowaitable\<close> is the contract \<open>iowait_or_dispose\<close> relies on.
\<close>

section \<open>IOHandle\<close>

record 'h iohandle =
  ih_handle :: "'h option"
  ih_closed :: bool
  ih_close_requested :: bool
  ih_stops :: "'h list"

definition ih_init :: "'h option \<Rightarrow> 'h iohandle" where
  "ih_init handle = \<lparr>ih_handle = handle, ih_closed = False, ih_close_requested = False, ih_stops = []\<rparr>"

definition ih_bind :: "'h \<Rightarrow> 'h iohandle \<Rightarrow> 'h iohandle" where
  "ih_bind handle x = (if ih_closed x then x else x\<lparr>ih_handle := Some handle\<rparr>)"

definition ih_mark_closed :: "'h iohandle \<Rightarrow> 'h iohandle" where
  "ih_mark_closed x = x\<lparr>ih_closed := True, ih_handle := None\<rparr>"

definition ih_close :: "'h iohandle \<Rightarrow> 'h iohandle" where
  "ih_close x =
     (if ih_closed x \<or> ih_close_requested x then x
      else (case ih_handle x of
              None \<Rightarrow> x
            | Some handle \<Rightarrow> x\<lparr>ih_close_requested := True, ih_stops := ih_stops x @ [handle]\<rparr>))"

inductive ih_step :: "'h iohandle \<Rightarrow> 'h iohandle \<Rightarrow> bool" where
  ih_s_bind: "ih_step x (ih_bind handle x)"
| ih_s_closed: "ih_step x (ih_mark_closed x)"
| ih_s_close: "ih_step x (ih_close x)"

text \<open>The stream is stopped at most once, and exactly when a close was requested.\<close>

lemma iohandle_stops_once:
  assumes "ih_step\<^sup>*\<^sup>* (ih_init handle) x"
  shows "length (ih_stops x) = (if ih_close_requested x then 1 else 0)"
  using assms
proof (induction rule: rtranclp_induct)
  case (step x y)
  from step.hyps(2) show ?case
    by cases (use step.IH in \<open>auto simp: ih_bind_def ih_mark_closed_def ih_close_def split: option.split\<close>)
qed (simp add: ih_init_def)

section \<open>IOWaiter\<close>

record ('h, 'v) iowaiter =
  iw_handle :: "'h option"
  iw_resolved :: "('v \<times> nat option) option"
  iw_released :: bool
  iw_ready :: bool
  iw_queued :: "('v \<times> nat option) list"
  iw_cancels :: "'h list"

datatype 'v wseg = WRet 'v | WRaise nat | WPark

definition iw_init :: "('h, 'v) iowaiter" where
  "iw_init = \<lparr>iw_handle = None, iw_resolved = None, iw_released = False, iw_ready = False, iw_queued = [], iw_cancels = []\<rparr>"

text \<open>\<open>assert self._resolved is None\<close> raises the assertion error \<open>ae\<close>.\<close>

definition iw_deliver :: "nat \<Rightarrow> 'v \<Rightarrow> nat option \<Rightarrow> ('h, 'v) iowaiter \<Rightarrow> ('h, 'v) iowaiter \<times> nat option" where
  "iw_deliver ae result exception w =
     (if iw_resolved w \<noteq> None then (w, Some ae)
      else (w\<lparr>iw_resolved := Some (result, exception), iw_ready := True\<rparr>, None))"

definition iw_complete :: "nat \<Rightarrow> bool \<Rightarrow> 'v \<Rightarrow> nat option \<Rightarrow> ('h, 'v) iowaiter \<Rightarrow> ('h, 'v) iowaiter \<times> nat option" where
  "iw_complete ae live_turn result exception w =
     (if live_turn then iw_deliver ae result exception w
      else (w\<lparr>iw_queued := iw_queued w @ [(result, exception)]\<rparr>, None))"

text \<open>The scheduler's ready callback runs a queued delivery.\<close>

definition iw_run_queued :: "nat \<Rightarrow> ('h, 'v) iowaiter \<Rightarrow> ('h, 'v) iowaiter \<times> nat option" where
  "iw_run_queued ae w =
     (case iw_queued w of
        [] \<Rightarrow> (w, None)
      | (result, exception) # rest \<Rightarrow> iw_deliver ae result exception (w\<lparr>iw_queued := rest\<rparr>))"

definition iw_bind :: "'h option \<Rightarrow> ('h, 'v) iowaiter \<Rightarrow> ('h, 'v) iowaiter" where
  "iw_bind handle w = w\<lparr>iw_handle := handle\<rparr>"

definition iw_release :: "('h, 'v) iowaiter \<Rightarrow> ('h, 'v) iowaiter" where
  "iw_release w = w\<lparr>iw_released := True, iw_handle := None\<rparr>"

definition iw_forget :: "('h, 'v) iowaiter \<Rightarrow> ('h, 'v) iowaiter" where
  "iw_forget w = iw_release w"

definition iw_done :: "('h, 'v) iowaiter \<Rightarrow> bool" where
  "iw_done w = (iw_resolved w \<noteq> None)"

definition iw_exception :: "('h, 'v) iowaiter \<Rightarrow> pyexn + nat option" where
  "iw_exception w = (case iw_resolved w of None \<Rightarrow> Inl InvalidStateErr | Some (value, exception) \<Rightarrow> Inr exception)"

definition iw_stored_result :: "nat \<Rightarrow> ('h, 'v) iowaiter \<Rightarrow> 'v wseg" where
  "iw_stored_result ae w =
     (case iw_resolved w of
        None \<Rightarrow> WRaise ae
      | Some (value, None) \<Rightarrow> WRet value
      | Some (value, Some e) \<Rightarrow> WRaise e)"

definition iw_cancel_nowait :: "('h, 'v) iowaiter \<Rightarrow> ('h, 'v) iowaiter" where
  "iw_cancel_nowait w = (case iw_handle w of None \<Rightarrow> w | Some h \<Rightarrow> w\<lparr>iw_cancels := iw_cancels w @ [h]\<rparr>)"

text \<open>\<open>wait\<close> up to the park of \<open>_wait_resolved\<close>, the code after it, and the code an exception thrown into it runs.\<close>

definition iw_wait_resume :: "nat \<Rightarrow> ('h, 'v) iowaiter \<Rightarrow> ('h, 'v) iowaiter \<times> 'v wseg" where
  "iw_wait_resume ae w = (iw_release w, iw_stored_result ae w)"

definition iw_wait :: "nat \<Rightarrow> ('h, 'v) iowaiter \<Rightarrow> ('h, 'v) iowaiter \<times> 'v wseg" where
  "iw_wait ae w =
     (if iw_released w \<or> iw_resolved w \<noteq> None \<or> iw_handle w = None \<or> iw_ready w then iw_wait_resume ae w
      else (w, WPark))"

definition iw_wait_throw :: "nat \<Rightarrow> ('h, 'v) iowaiter \<Rightarrow> ('h, 'v) iowaiter \<times> 'v wseg" where
  "iw_wait_throw e w = (iw_cancel_nowait w, WRaise e)"

section \<open>IOWaiterSync\<close>

record 'v iowaiter_sync =
  is_result :: "'v option"
  is_exception :: "nat option"

definition is_init :: "'v \<Rightarrow> 'v iowaiter_sync" where
  "is_init result = \<lparr>is_result = Some result, is_exception = None\<rparr>"

definition is_failed :: "nat \<Rightarrow> 'v iowaiter_sync" where
  "is_failed exception = \<lparr>is_result = None, is_exception = Some exception\<rparr>"

text \<open>The value of a successful waiter; \<open>None\<close> is the placeholder that \<open>failed\<close> stores.\<close>

definition is_wait :: "'v iowaiter_sync \<Rightarrow> nat + 'v option" where
  "is_wait w = (case is_exception w of Some e \<Rightarrow> Inl e | None \<Rightarrow> Inr (is_result w))"

section \<open>iowait\_or\_dispose\<close>

text \<open>\<open>wait\<close> is a whole blocking call (\<open>None\<close>: it does not return), \<open>stored\<close> what \<open>done()\<close> and
  \<open>exception()\<close> tell.  The loop runs while \<open>exc\<close> is handled, so an exception that leaves \<open>wait()\<close> gets it
  as its context (\<open>py_raise\<close>).  The result has the values passed to \<open>dispose_cb\<close> and the outcome.\<close>

fun retry_loop :: "('s \<Rightarrow> ('s \<times> (nat + 'v)) option) \<Rightarrow> ('s \<Rightarrow> (nat + 'v) option) \<Rightarrow> nat \<Rightarrow> nat \<Rightarrow> 's \<Rightarrow> xheap \<Rightarrow> nat list
    \<Rightarrow> ('s \<times> xheap \<times> nat list \<times> 'v option) option" where
  "retry_loop wait stored exc 0 s h chain = Some (s, h, chain, None)"
| "retry_loop wait stored exc (Suc n) s h chain =
     (case wait s of
        None \<Rightarrow> None
      | Some (s1, Inr v) \<Rightarrow> Some (s1, h, chain, Some v)
      | Some (s1, Inl e) \<Rightarrow>
          (let h1 = py_raise e (Some exc) h in
           if stored s1 = Some (Inl e) then Some (s1, h1, chain, None)
           else retry_loop wait stored exc n s1 h1 (chain @ [e])))"

definition iowait_finish :: "('v \<Rightarrow> nat option) \<Rightarrow> nat \<Rightarrow> 's \<Rightarrow> xheap \<Rightarrow> nat list \<Rightarrow> 'v option \<Rightarrow> 's \<times> xheap \<times> 'v list \<times> (nat + 'v)" where
  "iowait_finish dispose_cb exc s h chain got =
     (let (h1, chain1, disposed) =
        (case got of
           None \<Rightarrow> (h, chain, [])
         | Some v \<Rightarrow> (case dispose_cb v of
             None \<Rightarrow> (h, chain, [v])
           | Some d \<Rightarrow> (py_raise d (Some exc) h, chain @ [d], [v])))
      in case exception_join_context (rev chain1) h1 of
           (h2, Inr x) \<Rightarrow> (s, raise_as_is x (Some exc) h2, disposed, Inl x)
         | (h2, Inl pe) \<Rightarrow> (case new_exn pe (Some exc) None h2 of (h3, x) \<Rightarrow> (s, h3, disposed, Inl x)))"

definition iowait_or_dispose :: "('s \<Rightarrow> ('s \<times> (nat + 'v)) option) \<Rightarrow> ('s \<Rightarrow> (nat + 'v) option) \<Rightarrow> ('v \<Rightarrow> nat option) \<Rightarrow> int \<Rightarrow> 's \<Rightarrow> xheap
    \<Rightarrow> ('s \<times> xheap \<times> 'v list \<times> (nat + 'v)) option" where
  "iowait_or_dispose wait stored dispose_cb attempts s h =
     (if attempts < 0 then (case new_exn ValueErr None None h of (h1, e) \<Rightarrow> Some (s, h1, [], Inl e))
      else (case wait s of
              None \<Rightarrow> None
            | Some (s1, Inr v) \<Rightarrow> Some (s1, h, [], Inr v)
            | Some (s1, Inl exc) \<Rightarrow>
                if stored s1 = Some (Inl exc) then Some (s1, h, [], Inl exc)
                else (case retry_loop wait stored exc (nat attempts) s1 h [exc] of
                        None \<Rightarrow> None
                      | Some (s2, h2, chain, got) \<Rightarrow> Some (iowait_finish dispose_cb exc s2 h2 chain got))))"

section \<open>Runs of one IOWaiter\<close>

text \<open>The calls on one waiter with the completion of its operation.  The proactor completes once; a call
  waits only after \<open>bind\<close>, whose handle is \<open>None\<close> only when the callback has been delivered already; after
  \<open>forget\<close> there is no further \<open>wait\<close>.  \<open>iy_outs\<close> are the outcomes of the calls that were not thrown,
  \<open>iy_errs\<close> the errors raised by deliveries.\<close>

record ('h, 'v) iw_sys =
  iy_waiter :: "('h, 'v) iowaiter"
  iy_completed :: "('v \<times> nat option) option"
  iy_bound :: bool
  iy_forgotten :: bool
  iy_parked :: nat
  iy_outs :: "'v wseg list"
  iy_errs :: "nat list"

definition iy_start :: "('h, 'v) iw_sys" where
  "iy_start = \<lparr>iy_waiter = iw_init, iy_completed = None, iy_bound = False, iy_forgotten = False, iy_parked = 0, iy_outs = [], iy_errs = []\<rparr>"

inductive iy_step :: "nat \<Rightarrow> ('h, 'v) iw_sys \<Rightarrow> ('h, 'v) iw_sys \<Rightarrow> bool" for ae where
  iy_complete: "iy_completed s = None \<Longrightarrow> iw_complete ae live_turn r e (iy_waiter s) = (w, x) \<Longrightarrow>
    iy_step ae s (s\<lparr>iy_waiter := w, iy_completed := Some (r, e), iy_errs := iy_errs s @ (case x of None \<Rightarrow> [] | Some y \<Rightarrow> [y])\<rparr>)"
| iy_deliver: "iw_run_queued ae (iy_waiter s) = (w, x) \<Longrightarrow>
    iy_step ae s (s\<lparr>iy_waiter := w, iy_errs := iy_errs s @ (case x of None \<Rightarrow> [] | Some y \<Rightarrow> [y])\<rparr>)"
| iy_bind: "\<not> iy_bound s \<Longrightarrow> handle \<noteq> None \<or> iw_resolved (iy_waiter s) \<noteq> None \<Longrightarrow>
    iy_step ae s (s\<lparr>iy_waiter := iw_bind handle (iy_waiter s), iy_bound := True\<rparr>)"
| iy_wait: "iy_bound s \<Longrightarrow> \<not> iy_forgotten s \<Longrightarrow> iw_wait ae (iy_waiter s) = (w, out) \<Longrightarrow> out \<noteq> WPark \<Longrightarrow>
    iy_step ae s (s\<lparr>iy_waiter := w, iy_outs := iy_outs s @ [out]\<rparr>)"
| iy_park: "iy_bound s \<Longrightarrow> \<not> iy_forgotten s \<Longrightarrow> iw_wait ae (iy_waiter s) = (w, WPark) \<Longrightarrow>
    iy_step ae s (s\<lparr>iy_waiter := w, iy_parked := Suc (iy_parked s)\<rparr>)"
| iy_resume: "0 < iy_parked s \<Longrightarrow> iw_ready (iy_waiter s) \<Longrightarrow> iw_wait_resume ae (iy_waiter s) = (w, out) \<Longrightarrow>
    iy_step ae s (s\<lparr>iy_waiter := w, iy_parked := iy_parked s - 1, iy_outs := iy_outs s @ [out]\<rparr>)"
| iy_throw: "0 < iy_parked s \<Longrightarrow> iw_wait_throw e (iy_waiter s) = (w, out) \<Longrightarrow>
    iy_step ae s (s\<lparr>iy_waiter := w, iy_parked := iy_parked s - 1\<rparr>)"
| iy_forget: "iy_bound s \<Longrightarrow> iy_parked s = 0 \<Longrightarrow>
    iy_step ae s (s\<lparr>iy_waiter := iw_forget (iy_waiter s), iy_forgotten := True\<rparr>)"

definition pair_out :: "'v \<times> nat option \<Rightarrow> 'v wseg" where
  "pair_out p = (case snd p of None \<Rightarrow> WRet (fst p) | Some e \<Rightarrow> WRaise e)"

definition iw_ok :: "('v \<times> nat option) option \<Rightarrow> ('h, 'v) iowaiter \<Rightarrow> bool" where
  "iw_ok completed w \<longleftrightarrow> (iw_resolved w = None \<or> iw_resolved w = completed) \<and> (iw_ready w \<longleftrightarrow> iw_resolved w \<noteq> None)
     \<and> iw_queued w = (if iw_resolved w = None then (case completed of None \<Rightarrow> [] | Some p \<Rightarrow> [p]) else [])"

definition iy_ok :: "('h, 'v) iw_sys \<Rightarrow> bool" where
  "iy_ok s \<longleftrightarrow> iw_ok (iy_completed s) (iy_waiter s) \<and> iy_errs s = [] \<and> (\<forall>out \<in> set (iy_outs s). map_option pair_out (iy_completed s) = Some out)
     \<and> (iw_resolved (iy_waiter s) = None \<and> iy_bound s \<and> \<not> iy_forgotten s \<longrightarrow> iw_handle (iy_waiter s) \<noteq> None)
     \<and> (iw_resolved (iy_waiter s) = None \<and> iw_released (iy_waiter s) \<longrightarrow> iy_forgotten s)"

lemma iw_stored_ok: "iw_resolved w = Some p \<Longrightarrow> iw_stored_result ae w = pair_out p"
  by (cases p) (simp add: iw_stored_result_def pair_out_def split: option.split)

lemma iw_wait_out:
  assumes "iw_wait ae w = (w', out)" "out \<noteq> WPark" "iw_ready w \<longrightarrow> iw_resolved w \<noteq> None"
    "iw_resolved w = None \<longrightarrow> iw_handle w \<noteq> None \<and> \<not> iw_released w"
  shows "w' = iw_release w \<and> (\<exists>p. iw_resolved w = Some p \<and> out = pair_out p)"
  using assms by (auto simp: iw_wait_def iw_wait_resume_def iw_stored_ok split: if_splits)

lemma iy_step_ok: "iy_step ae s s' \<Longrightarrow> iy_ok s \<Longrightarrow> iy_ok s'"
proof (induction rule: iy_step.induct)
  case (iy_complete s live_turn r e w x)
  then show ?case
    by (auto simp: iy_ok_def iw_ok_def iw_complete_def iw_deliver_def split: if_splits)
next
  case (iy_deliver s w x)
  then show ?case
    by (auto simp: iy_ok_def iw_ok_def iw_run_queued_def iw_deliver_def split: if_splits option.splits list.splits prod.splits)
next
  case (iy_bind s handle)
  then show ?case by (auto simp: iy_ok_def iw_ok_def iw_bind_def)
next
  case (iy_wait s w out)
  then have "w = iw_release (iy_waiter s) \<and> (\<exists>p. iw_resolved (iy_waiter s) = Some p \<and> out = pair_out p)"
    by (intro iw_wait_out [of ae]) (auto simp: iy_ok_def iw_ok_def)
  with iy_wait show ?case by (auto simp: iy_ok_def iw_ok_def iw_release_def)
next
  case (iy_park s w)
  then have "w = iy_waiter s" by (auto simp: iw_wait_def iw_wait_resume_def iw_stored_result_def split: if_splits option.splits)
  with iy_park show ?case by (auto simp: iy_ok_def)
next
  case (iy_resume s w out)
  then obtain p where "iw_resolved (iy_waiter s) = Some p" by (auto simp: iy_ok_def iw_ok_def)
  with iy_resume show ?case by (auto simp: iy_ok_def iw_ok_def iw_wait_resume_def iw_release_def iw_stored_ok)
next
  case (iy_throw s e w out)
  then show ?case by (auto simp: iy_ok_def iw_ok_def iw_wait_throw_def iw_cancel_nowait_def split: option.splits)
next
  case (iy_forget s)
  then show ?case by (auto simp: iy_ok_def iw_ok_def iw_forget_def iw_release_def)
qed

lemma iy_reach_ok: "(iy_step ae)\<^sup>*\<^sup>* iy_start s \<Longrightarrow> iy_ok s"
proof (induction rule: rtranclp_induct)
  case base
  show ?case by (simp add: iy_start_def iy_ok_def iw_ok_def iw_init_def)
next
  case (step s s')
  then show ?case using iy_step_ok by blast
qed

text \<open>C12: \<open>IOWaiter\<close>.  Over every interleaving of \<open>bind\<close>, \<open>wait\<close>, interrupts, \<open>forget\<close> and the one completion of
  the operation: no delivery fails its assertion, every \<open>wait()\<close> that is not interrupted ends with the
  completion's value or error (the same for every call), and once the operation has completed a parked
  call is woken or the delivery that wakes it is queued.\<close>

theorem iowaiter_delivers:
  assumes "(iy_step ae)\<^sup>*\<^sup>* iy_start s"
  shows "iy_errs s = [] \<and> (\<forall>out \<in> set (iy_outs s). map_option pair_out (iy_completed s) = Some out)
    \<and> (iy_completed s \<noteq> None \<and> 0 < iy_parked s \<longrightarrow>
        iw_ready (iy_waiter s) \<or> iw_ready (fst (iw_run_queued ae (iy_waiter s))))"
proof -
  have i: "iy_ok s" by (rule iy_reach_ok [OF assms])
  have "iw_ready (fst (iw_run_queued ae (iy_waiter s)))" if "iy_completed s \<noteq> None" "\<not> iw_ready (iy_waiter s)"
  proof -
    from that i obtain p where "iw_resolved (iy_waiter s) = None" "iw_queued (iy_waiter s) = [p]"
      by (auto simp: iy_ok_def iw_ok_def)
    then show ?thesis by (cases p) (simp add: iw_run_queued_def iw_deliver_def)
  qed
  then show ?thesis using i by (auto simp: iy_ok_def)
qed

text \<open>A parked call, an interrupt, the completion from another thread, its delivery and a second call.\<close>

definition iy_demo :: "(nat, nat) iw_sys" where
  "iy_demo = \<lparr>iy_waiter = \<lparr>iw_handle = None, iw_resolved = Some (7, None), iw_released = True, iw_ready = True, iw_queued = [], iw_cancels = [5]\<rparr>,
     iy_completed = Some (7, None), iy_bound = True, iy_forgotten = False, iy_parked = 0, iy_outs = [WRet 7], iy_errs = []\<rparr>"

lemma iy_demo_reach: "(iy_step ae)\<^sup>*\<^sup>* iy_start iy_demo"
proof -
  let ?w = "\<lparr>iw_handle = Some 5, iw_resolved = None, iw_released = False, iw_ready = False, iw_queued = [], iw_cancels = []\<rparr> :: (nat, nat) iowaiter"
  let ?s1 = "iy_start\<lparr>iy_waiter := ?w, iy_bound := True\<rparr> :: (nat, nat) iw_sys"
  let ?s2 = "?s1\<lparr>iy_parked := 1\<rparr>"
  let ?s3 = "?s1\<lparr>iy_waiter := ?w\<lparr>iw_cancels := [5]\<rparr>\<rparr>"
  let ?s4 = "?s3\<lparr>iy_waiter := ?w\<lparr>iw_cancels := [5], iw_queued := [(7, None)]\<rparr>, iy_completed := Some (7, None)\<rparr>"
  let ?s5 = "?s4\<lparr>iy_waiter := ?w\<lparr>iw_cancels := [5], iw_resolved := Some (7, None), iw_ready := True\<rparr>\<rparr>"
  have "iy_step ae iy_start ?s1" using iy_bind [of iy_start "Some 5" ae] by (simp add: iy_start_def iw_bind_def iw_init_def)
  moreover have "iy_step ae ?s1 ?s2" using iy_park [of ?s1 ae ?w] by (simp add: iy_start_def iw_wait_def)
  moreover have "iy_step ae ?s2 ?s3" using iy_throw [of ?s2 0 _ _ ae] by (simp add: iy_start_def iw_wait_throw_def iw_cancel_nowait_def)
  moreover have "iy_step ae ?s3 ?s4" using iy_complete [of ?s3 ae False 7 None] by (simp add: iy_start_def iw_complete_def)
  moreover have "iy_step ae ?s4 ?s5" using iy_deliver [of ae ?s4] by (simp add: iy_start_def iw_run_queued_def iw_deliver_def)
  moreover have "iy_step ae ?s5 iy_demo"
    using iy_wait [of ?s5 ae] by (simp add: iy_start_def iw_wait_def iw_wait_resume_def iw_release_def iw_stored_result_def iy_demo_def)
  ultimately show ?thesis by (meson converse_rtranclp_into_rtranclp rtranclp.rtrancl_refl)
qed

theorem iowaiter_delivers_witness: "map_option pair_out (iy_completed iy_demo) = Some (WRet 7)"
  using iowaiter_delivers [OF iy_demo_reach [of 0]] by (simp add: iy_demo_def)

section \<open>The contract of a waitable\<close>

text \<open>The first \<open>n\<close> calls of \<open>wait\<close> all end with a throw that is not the operation's own error.\<close>

fun interrupted :: "('s \<Rightarrow> ('s \<times> (nat + 'v)) option) \<Rightarrow> ('s \<Rightarrow> (nat + 'v) option) \<Rightarrow> nat \<Rightarrow> 's \<Rightarrow> bool" where
  "interrupted wait stored 0 s = True"
| "interrupted wait stored (Suc n) s =
     (case wait s of
        Some (s1, Inl e) \<Rightarrow> stored s1 \<noteq> Some (Inl e) \<and> interrupted wait stored n s1
      | _ \<Rightarrow> False)"

lemma iowait_finish_shape:
  "iowait_finish dispose_cb exc s h chain got = (s', h', disposed, r) \<Longrightarrow>
     s' = s \<and> disposed = (case got of None \<Rightarrow> [] | Some v \<Rightarrow> [v]) \<and> (\<exists>x. r = Inl x)"
  by (auto simp: iowait_finish_def Let_def split: option.splits prod.splits sum.splits)

text \<open>\<open>wait\<close> stores what it returns; a stored outcome stays and is what every further \<open>wait\<close> gives.\<close>

locale iowaitable =
  fixes wait :: "'s \<Rightarrow> ('s \<times> (nat + 'v)) option" and stored :: "'s \<Rightarrow> (nat + 'v) option" and ok :: "'s \<Rightarrow> bool"
  assumes wait_ok: "ok s \<Longrightarrow> wait s = Some (s', r) \<Longrightarrow> ok s'"
    and wait_value: "ok s \<Longrightarrow> wait s = Some (s', Inr v) \<Longrightarrow> stored s' = Some (Inr v)"
    and wait_stored: "ok s \<Longrightarrow> stored s = Some r \<Longrightarrow> \<exists>s'. wait s = Some (s', r) \<and> stored s' = Some r"
begin

text \<open>What the retries hand on: a value they got is the stored one, otherwise the operation has failed or
  every retry was interrupted.\<close>

lemma retry_loop_result:
  assumes "ok s" "retry_loop wait stored exc n s h chain = Some (s', h', chain', got)"
  shows "ok s' \<and> (case got of Some v \<Rightarrow> stored s' = Some (Inr v)
    | None \<Rightarrow> (\<exists>e. stored s' = Some (Inl e)) \<or> interrupted wait stored n s)"
  using assms
proof (induction n arbitrary: s h chain)
  case (Suc n)
  from Suc.prems(2) obtain s1 r where w: "wait s = Some (s1, r)" by (auto split: option.splits prod.splits)
  show ?case
  proof (cases r)
    case (Inr v)
    then show ?thesis using Suc.prems w wait_ok wait_value by auto
  next
    case (Inl e)
    show ?thesis
    proof (cases "stored s1 = Some (Inl e)")
      case True
      then show ?thesis using Suc.prems w Inl wait_ok by (auto simp: Let_def)
    next
      case False
      have "retry_loop wait stored exc n s1 (py_raise e (Some exc) h) (chain @ [e]) = Some (s', h', chain', got)"
        using Suc.prems(2) w Inl False by (simp add: Let_def)
      from Suc.IH [OF wait_ok [OF Suc.prems(1) w] this] show ?thesis using w Inl False by (simp split: option.splits)
    qed
  qed
qed simp

text \<open>A value is returned or disposed of, once, unless every call was interrupted.\<close>

lemma dispose_accounts:
  assumes "ok s" "0 \<le> attempts" "iowait_or_dispose wait stored dispose_cb attempts s h = Some (s', h', disposed, r)"
  shows "(\<exists>v. r = Inr v \<and> disposed = [] \<and> stored s' = Some (Inr v))
    \<or> (\<exists>x v. r = Inl x \<and> disposed = [v] \<and> stored s' = Some (Inr v))
    \<or> (\<exists>x e. r = Inl x \<and> disposed = [] \<and> stored s' = Some (Inl e))
    \<or> (\<exists>x. r = Inl x \<and> disposed = [] \<and> interrupted wait stored (Suc (nat attempts)) s)"
proof -
  from assms(2,3) obtain s1 o1 where w: "wait s = Some (s1, o1)"
    by (auto simp: iowait_or_dispose_def split: option.splits prod.splits)
  show ?thesis
  proof (cases o1)
    case (Inr v)
    then show ?thesis using assms w wait_value by (auto simp: iowait_or_dispose_def)
  next
    case (Inl exc)
    show ?thesis
    proof (cases "stored s1 = Some (Inl exc)")
      case True
      then show ?thesis using assms w Inl by (auto simp: iowait_or_dispose_def)
    next
      case False
      then obtain s2 h2 chain got where l: "retry_loop wait stored exc (nat attempts) s1 h [exc] = Some (s2, h2, chain, got)"
        "iowait_finish dispose_cb exc s2 h2 chain got = (s', h', disposed, r)"
        using assms(2,3) w Inl by (auto simp: iowait_or_dispose_def split: option.splits)
      note f = iowait_finish_shape [OF l(2)] and q = retry_loop_result [OF wait_ok [OF assms(1) w] l(1)]
      show ?thesis using f q w Inl False by (cases got) auto
    qed
  qed
qed

text \<open>An operation that is stored already is given back at once.\<close>

lemma stored_returns:
  assumes "ok s" "0 \<le> attempts" "stored s = Some r"
  shows "\<exists>s'. iowait_or_dispose wait stored dispose_cb attempts s h = Some (s', h, [], r)"
proof -
  from wait_stored [OF assms(1,3)] obtain s' where "wait s = Some (s', r)" "stored s' = Some r" by blast
  then show ?thesis using assms(2) by (cases r) (auto simp: iowait_or_dispose_def)
qed

end

section \<open>The waiters keep the contract\<close>

text \<open>What happens while a call is parked: an exception is thrown into it or the operation completes.\<close>

datatype 'v wenv = EComplete 'v "nat option" | EThrow nat

type_synonym ('h, 'v) iw_run = "('h, 'v) iowaiter \<times> 'v wenv list"

fun seg_result :: "('h, 'v) iowaiter \<times> 'v wseg \<Rightarrow> 'v wenv list \<Rightarrow> (('h, 'v) iw_run \<times> (nat + 'v)) option" where
  "seg_result (w, WRet v) env = Some ((w, env), Inr v)"
| "seg_result (w, WRaise e) env = Some ((w, env), Inl e)"
| "seg_result (w, WPark) env = None"

text \<open>A whole \<open>IOWaiter.wait()\<close>; \<open>None\<close> when it stays parked.\<close>

fun iw_call :: "nat \<Rightarrow> ('h, 'v) iw_run \<Rightarrow> (('h, 'v) iw_run \<times> (nat + 'v)) option" where
  "iw_call ae (w, env) =
     (case iw_wait ae w of
        (w1, WPark) \<Rightarrow>
          (case env of
             [] \<Rightarrow> None
           | EThrow e # env1 \<Rightarrow> seg_result (iw_wait_throw e w1) env1
           | EComplete v e # env1 \<Rightarrow> seg_result (iw_wait_resume ae (fst (iw_deliver ae v e w1))) env1)
      | seg \<Rightarrow> seg_result seg env)"

definition iw_stored :: "('h, 'v) iw_run \<Rightarrow> (nat + 'v) option" where
  "iw_stored run = map_option (\<lambda>(v, e). case e of None \<Rightarrow> Inr v | Some x \<Rightarrow> Inl x) (iw_resolved (fst run))"

text \<open>\<open>done()\<close> and \<open>exception()\<close> tell the stored outcome.\<close>

lemma iw_stored_observed:
  "iw_done (fst run) = (iw_stored run \<noteq> None)"
  "iw_exception (fst run) = (case iw_stored run of None \<Rightarrow> Inl InvalidStateErr | Some (Inl e) \<Rightarrow> Inr (Some e) | Some (Inr _) \<Rightarrow> Inr None)"
  by (auto simp: iw_done_def iw_exception_def iw_stored_def split: option.splits prod.splits)

definition iw_run_ok :: "('h, 'v) iw_run \<Rightarrow> bool" where
  "iw_run_ok run \<longleftrightarrow> (iw_ready (fst run) \<longleftrightarrow> iw_resolved (fst run) \<noteq> None)
     \<and> (iw_resolved (fst run) = None \<longrightarrow> iw_handle (fst run) \<noteq> None \<and> \<not> iw_released (fst run))"

lemma iw_call_resolved:
  "iw_resolved w = Some (v, e) \<Longrightarrow> iw_call ae (w, env) = Some ((iw_release w, env), case e of None \<Rightarrow> Inr v | Some x \<Rightarrow> Inl x)"
  by (simp add: iw_wait_def iw_wait_resume_def iw_stored_result_def split: option.split)

lemma iw_call_parked:
  assumes "iw_run_ok (w, env)" "iw_resolved w = None"
  shows "iw_call ae (w, []) = None"
    "iw_call ae (w, EThrow x # rest) = Some ((iw_cancel_nowait w, rest), Inl x)"
    "iw_call ae (w, EComplete v e # rest) =
      Some ((iw_release (w\<lparr>iw_resolved := Some (v, e), iw_ready := True\<rparr>), rest), case e of None \<Rightarrow> Inr v | Some x \<Rightarrow> Inl x)"
proof -
  have "iw_wait ae w = (w, WPark)" using assms by (auto simp: iw_run_ok_def iw_wait_def)
  then show "iw_call ae (w, []) = None"
    "iw_call ae (w, EThrow x # rest) = Some ((iw_cancel_nowait w, rest), Inl x)"
    "iw_call ae (w, EComplete v e # rest) =
      Some ((iw_release (w\<lparr>iw_resolved := Some (v, e), iw_ready := True\<rparr>), rest), case e of None \<Rightarrow> Inr v | Some x \<Rightarrow> Inl x)"
    using assms(2) by (simp_all add: iw_wait_throw_def iw_wait_resume_def iw_deliver_def iw_stored_result_def split: option.split)
qed

declare iw_call.simps [simp del]

lemma iw_run_ok_kept [simp]:
  "iw_run_ok (iw_cancel_nowait w, env) = iw_run_ok (w, env)"
  "iw_resolved w \<noteq> None \<Longrightarrow> iw_run_ok (iw_release w, env) = iw_run_ok (w, env)"
  by (auto simp: iw_run_ok_def iw_cancel_nowait_def iw_release_def split: option.splits)

lemma iw_release_simps [simp]: "iw_resolved (iw_release w) = iw_resolved w" "iw_cancels (iw_release w) = iw_cancels w"
  by (simp_all add: iw_release_def)

lemma iw_cancel_simps [simp]: "iw_resolved (iw_cancel_nowait w) = iw_resolved w" "iw_handle (iw_cancel_nowait w) = iw_handle w"
  by (simp_all add: iw_cancel_nowait_def split: option.split)

text \<open>The three ways a call returns.\<close>

lemma iw_call_cases:
  assumes "iw_run_ok run" "iw_call ae run = Some (run', r)"
  obtains (resolved) v e where "iw_resolved (fst run) = Some (v, e)" "run' = (iw_release (fst run), snd run)" "r = (case e of None \<Rightarrow> Inr v | Some x \<Rightarrow> Inl x)"
  | (thrown) x env where "iw_resolved (fst run) = None" "snd run = EThrow x # env" "run' = (iw_cancel_nowait (fst run), env)" "r = Inl x"
  | (completed) v e env where "iw_resolved (fst run) = None" "snd run = EComplete v e # env"
      "run' = (iw_release ((fst run)\<lparr>iw_resolved := Some (v, e), iw_ready := True\<rparr>), env)" "r = (case e of None \<Rightarrow> Inr v | Some x \<Rightarrow> Inl x)"
proof (cases "iw_resolved (fst run)")
  case None
  have o: "iw_run_ok (fst run, snd run)" using assms(1) by simp
  note p = iw_call_parked [OF o None]
  show ?thesis
  proof (cases "snd run")
    case Nil
    then show ?thesis using p(1) assms(2) by (cases run) simp
  next
    case (Cons ev env)
    then show ?thesis
      using p(2) [where rest = env] p(3) [where rest = env] None assms(2) that(2,3) by (cases run; cases ev) fastforce+
  qed
next
  case (Some p)
  obtain v e where "p = (v, e)" by fastforce
  then show ?thesis using Some assms(2) that(1) iw_call_resolved [of "fst run" v e ae "snd run"] by (cases run) auto
qed

interpretation iow: iowaitable "iw_call ae" iw_stored iw_run_ok for ae :: nat
proof (unfold_locales, goal_cases)
  case (1 s s' r)
  show ?case
    by (rule iw_call_cases [OF 1]; use 1(1) in \<open>auto simp: iw_run_ok_def iw_release_def iw_cancel_nowait_def split: option.splits\<close>)
next
  case (2 s s' v)
  from 2 show ?case
    by (cases rule: iw_call_cases) (auto simp: iw_stored_def split: option.splits)
next
  case (3 s r)
  then obtain v e where "iw_resolved (fst s) = Some (v, e)" "r = (case e of None \<Rightarrow> Inr v | Some x \<Rightarrow> Inl x)"
    by (auto simp: iw_stored_def)
  then show ?case using iw_call_resolved [of "fst s" v e ae "snd s"] by (cases s) (simp add: iw_stored_def)
qed

interpretation ios: iowaitable "\<lambda>w. Some (w, is_wait w)" "\<lambda>w. Some (is_wait w)" "\<lambda>_. True"
  by unfold_locales auto

section \<open>The chain of throws\<close>

text \<open>While \<open>exc\<close>, which has no context, is handled, raising another exception changes only that one's context.\<close>

lemma split_single: "ctx h exc = None \<Longrightarrow> exception_split_context h exc = [exc]"
  using split_chain [of h "[exc]"] by simp

lemma py_raise_single: "ctx h exc = None \<Longrightarrow> py_raise x (Some exc) h = (if x = exc then h else set_ctx x (Some exc) h)"
  by (simp add: py_raise_def split_single)

definition raised :: "nat \<Rightarrow> nat list \<Rightarrow> xheap \<Rightarrow> xheap" where
  "raised exc xs h = fold (\<lambda>x. py_raise x (Some exc)) xs h"

lemma raised_simps [simp]:
  "raised exc [] h = h" "raised exc (x # xs) h = raised exc xs (py_raise x (Some exc) h)"
  by (simp_all add: raised_def)

lemma raised_ctx: "ctx h exc = None \<Longrightarrow> ctx (raised exc xs h) exc = None \<and> length (raised exc xs h) = length h"
  by (induction xs arbitrary: h) (auto simp: py_raise_single ctx_set_ctx)

lemma raise_as_is_ctx:
  assumes "ctx h exc = None"
  shows "ctx (raise_as_is x (Some exc) h) y = ctx h y"
  using assms
  by (auto simp: raise_as_is_def py_raise_single restore_links_def Let_def ctx_def set_ctx_def nth_list_update)

lemma iowait_finish_chain:
  assumes "ctx h exc = None" "distinct ts" "set ts \<subseteq> {..<length h}" "chain = exc # xs"
    and "ts = chain @ (case got of None \<Rightarrow> [] | Some v \<Rightarrow> (case dispose_cb v of None \<Rightarrow> [] | Some d \<Rightarrow> [d]))"
  shows "\<exists>h'. iowait_finish dispose_cb exc s h chain got = (s, h', case got of None \<Rightarrow> [] | Some v \<Rightarrow> [v], Inl (last ts)) \<and> is_chain h' (rev ts)"
proof -
  define h1 where "h1 = raised exc (drop (length chain) ts) h"
  have ne: "ts \<noteq> []" "last (rev ts) = exc" using assms(4,5) by (auto simp: last_rev)
  have c: "ctx h1 exc = None" "length h1 = length h" using raised_ctx [OF assms(1)] by (simp_all add: h1_def)
  have j: "exception_join_context (rev ts) h1 = (link_pairs (rev ts) h1, Inr (last ts))"
    using ne by (cases ts rule: rev_cases) (simp_all add: exception_join_context_def)
  have l: "is_chain (link_pairs (rev ts) h1) (rev ts)"
    by (rule link_pairs_links) (use assms(2,3) ne c in auto)
  have "ctx (link_pairs (rev ts) h1) exc = None"
  proof -
    have "exc \<notin> set (butlast (rev ts))"
      using assms(2) ne by (metis append_butlast_last_id distinct_append distinct_rev not_distinct_conv_prefix rev_is_Nil_conv)
    then show ?thesis using link_pairs_frame [of exc "rev ts" h1] c(1) by simp
  qed
  then have "is_chain (raise_as_is (last ts) (Some exc) (link_pairs (rev ts) h1)) (rev ts)"
    using l is_chain_cong [of "rev ts"] raise_as_is_ctx by blast
  moreover have "iowait_finish dispose_cb exc s h chain got =
      (s, raise_as_is (last ts) (Some exc) (link_pairs (rev ts) h1), case got of None \<Rightarrow> [] | Some v \<Rightarrow> [v], Inl (last ts))"
    using j assms(5) by (auto simp: iowait_finish_def h1_def Let_def split: option.splits)
  ultimately show ?thesis by blast
qed

text \<open>The retries while the waiter is interrupted: one cancel per throw.\<close>

lemma cancel_pow_simps [simp]:
  "iw_resolved ((iw_cancel_nowait ^^ n) w) = iw_resolved w" "iw_run_ok ((iw_cancel_nowait ^^ n) w, env) = iw_run_ok (w, env)"
  by (induction n) simp_all

lemma cancel_pow_cancels: "iw_handle w = Some hd1 \<Longrightarrow> iw_cancels ((iw_cancel_nowait ^^ n) w) = iw_cancels w @ replicate n hd1 \<and> iw_handle ((iw_cancel_nowait ^^ n) w) = Some hd1"
  by (induction n) (simp_all add: iw_cancel_nowait_def replicate_append_same)

lemma iw_run_ok_env: "iw_run_ok (w, env) \<Longrightarrow> iw_run_ok (w, env')"
  by (simp add: iw_run_ok_def)

lemma retry_loop_throws:
  assumes "iw_run_ok (w, env)" "iw_resolved w = None"
  shows "retry_loop (iw_call ae) iw_stored exc n (w, map EThrow xs @ env) h chain =
    (if n \<le> length xs then Some (((iw_cancel_nowait ^^ n) w, map EThrow (drop n xs) @ env), raised exc (take n xs) h, chain @ take n xs, None)
     else retry_loop (iw_call ae) iw_stored exc (n - length xs) ((iw_cancel_nowait ^^ length xs) w, env) (raised exc xs h) (chain @ xs))"
  using assms
proof (induction xs arbitrary: n w h chain)
  case Nil
  then show ?case by (cases n) simp_all
next
  case (Cons x xs)
  show ?case
  proof (cases n)
    case (Suc m)
    have "iw_call ae (w, EThrow x # map EThrow xs @ env) = Some ((iw_cancel_nowait w, map EThrow xs @ env), Inl x)"
      using iw_call_parked(2) [OF Cons.prems] by simp
    moreover have "iw_stored (iw_cancel_nowait w, map EThrow xs @ env) = None" using Cons.prems(2) by (simp add: iw_stored_def)
    ultimately show ?thesis
      using Suc Cons.IH [of "iw_cancel_nowait w" m "py_raise x (Some exc) h" "chain @ [x]"] Cons.prems
      by (simp add: Let_def funpow_swap1)
  qed simp
qed

section \<open>Properties of iowait\_or\_dispose\<close>

text \<open>After the last throw the operation completes: one more retry takes the value or drops the error.\<close>

lemma retry_loop_completes:
  assumes "iw_run_ok (w, env)" "iw_resolved w = None" "0 < n"
  shows "\<exists>w'. retry_loop (iw_call ae) iw_stored exc n (w, EComplete v e # rest) h chain =
      Some ((w', rest), raised exc (case e of None \<Rightarrow> [] | Some x \<Rightarrow> [x]) h, chain, case e of None \<Rightarrow> Some v | Some _ \<Rightarrow> None)
    \<and> iw_cancels w' = iw_cancels w"
proof -
  obtain m where n: "n = Suc m" using assms(3) by (cases n) auto
  show ?thesis
    using iw_call_parked(3) [OF assms(1,2), of ae v e rest]
    by (cases e) (auto simp: n iw_stored_def Let_def)
qed

definition thrown_then :: "nat list \<Rightarrow> 'v \<Rightarrow> nat option \<Rightarrow> 'v wenv list" where
  "thrown_then xs v e = map EThrow xs @ [EComplete v e]"

text \<open>The throws that a call reports: those that interrupted its waits, oldest first, and the error of
  \<open>dispose_cb\<close>.\<close>

definition reported_throws :: "('v \<Rightarrow> nat option) \<Rightarrow> int \<Rightarrow> nat list \<Rightarrow> 'v \<Rightarrow> nat option \<Rightarrow> nat list" where
  "reported_throws dispose_cb attempts xs v e =
     (if attempts < int (length xs) then take (Suc (nat attempts)) xs
      else xs @ (if e = None then (case dispose_cb v of None \<Rightarrow> [] | Some d \<Rightarrow> [d]) else []))"

lemma iowait_interrupted:
  fixes v :: 'v
  assumes w: "iw_run_ok (w, [])" "iw_resolved w = None" "iw_handle w = Some op" and a: "0 \<le> attempts"
    and x: "xs = x0 # ys" "ctx h x0 = None" "ts = reported_throws dispose_cb attempts xs v e" "distinct ts" "set ts \<subseteq> {..<length h}"
  shows "\<exists>w' env' h'. iowait_or_dispose (iw_call ae) iw_stored dispose_cb attempts (w, thrown_then xs v e) h =
      Some ((w', env'), h', if int (length xs) \<le> attempts \<and> e = None then [v] else [], Inl (last ts)) \<and> is_chain h' (rev ts)
    \<and> iw_cancels w' = iw_cancels w @ replicate (min (length xs) (Suc (nat attempts))) op"
proof -
  let ?w1 = "iw_cancel_nowait w" and ?n = "nat attempts" and ?env = "[EComplete v e]"
  have w1: "iw_run_ok (?w1, ?env)" "iw_resolved ?w1 = None" using w iw_run_ok_env by auto
  have first: "iw_call ae (w, thrown_then xs v e) = Some ((?w1, map EThrow ys @ ?env), Inl x0)"
    using iw_call_parked(2) [OF w(1,2), of ae x0 "map EThrow ys @ ?env"] x(1) by (simp add: thrown_then_def)
  have st: "iw_stored (?w1, map EThrow ys @ ?env) = None" using w(2) by (simp add: iw_stored_def)
  note r = retry_loop_throws [OF w1, of ae x0 ?n ys h "[x0]"]
  have can: "iw_cancels ((iw_cancel_nowait ^^ n) ?w1) = iw_cancels w @ replicate (Suc n) op" for n
    using cancel_pow_cancels [OF w(3), of "Suc n"] by (simp add: funpow_swap1)
  show ?thesis
  proof (cases "?n \<le> length ys")
    case True
    then have ts: "ts = x0 # take ?n ys" using x a by (auto simp: reported_throws_def)
    have l: "retry_loop (iw_call ae) iw_stored x0 ?n (?w1, map EThrow ys @ ?env) h [x0] =
        Some (((iw_cancel_nowait ^^ ?n) ?w1, map EThrow (drop ?n ys) @ ?env), raised x0 (take ?n ys) h, x0 # take ?n ys, None)"
      using r True by simp
    let ?s3 = "((iw_cancel_nowait ^^ ?n) ?w1, map EThrow (drop ?n ys) @ ?env)" and ?h3 = "raised x0 (take ?n ys) h"
    have g: "ts = (x0 # take ?n ys) @ (case None of None \<Rightarrow> [] | Some v \<Rightarrow> (case dispose_cb v of None \<Rightarrow> [] | Some d \<Rightarrow> [d]))" using ts by simp
    have h3: "ctx ?h3 x0 = None" "set ts \<subseteq> {..<length ?h3}" using raised_ctx [OF x(2)] x(5) by auto
    obtain h' where "iowait_finish dispose_cb x0 ?s3 ?h3 (x0 # take ?n ys) None = (?s3, h', [], Inl (last ts))" "is_chain h' (rev ts)"
      using iowait_finish_chain [OF h3(1) x(4) h3(2) refl g, of ?s3] by auto
    then show ?thesis using first st l a True x(1) can [of ?n] by (auto simp: iowait_or_dispose_def min_def)
  next
    case False
    let ?w2 = "(iw_cancel_nowait ^^ length ys) ?w1" and ?got = "case e of None \<Rightarrow> Some v | Some _ \<Rightarrow> None"
    have ok2: "iw_run_ok (?w2, ?env)" "iw_resolved ?w2 = None" using w1 by simp_all
    obtain w3 where w3: "retry_loop (iw_call ae) iw_stored x0 (?n - length ys) (?w2, ?env) (raised x0 ys h) (x0 # ys) =
        Some ((w3, []), raised x0 (case e of None \<Rightarrow> [] | Some x \<Rightarrow> [x]) (raised x0 ys h), x0 # ys, ?got)" "iw_cancels w3 = iw_cancels ?w2"
      using retry_loop_completes [OF ok2, of "?n - length ys" ae x0 v e "[]" "raised x0 ys h" "x0 # ys"] False by auto
    let ?h3 = "raised x0 (case e of None \<Rightarrow> [] | Some x \<Rightarrow> [x]) (raised x0 ys h)"
    have h3: "ctx ?h3 x0 = None" "length ?h3 = length h" using raised_ctx [OF x(2), of ys] raised_ctx [of "raised x0 ys h" x0] by auto
    have ts: "ts = (x0 # ys) @ (case ?got of None \<Rightarrow> [] | Some v \<Rightarrow> (case dispose_cb v of None \<Rightarrow> [] | Some d \<Rightarrow> [d]))"
      using x False a by (cases e) (auto simp: reported_throws_def)
    obtain h' where f: "iowait_finish dispose_cb x0 (w3, [] :: 'v wenv list) ?h3 (x0 # ys) ?got = ((w3, []), h', case ?got of None \<Rightarrow> [] | Some v \<Rightarrow> [v], Inl (last ts))" "is_chain h' (rev ts)"
      using iowait_finish_chain [OF h3(1) x(4) _ refl ts, of "(w3, [])"] h3(2) x(5) by (simp only:) blast
    have d: "(case ?got of None \<Rightarrow> [] | Some v \<Rightarrow> [v]) = (if int (length xs) \<le> attempts \<and> e = None then [v] else [])"
      using False x(1) a by (cases e) auto
    have c: "iw_cancels w3 = iw_cancels w @ replicate (min (length xs) (Suc ?n)) op"
      using w3(2) can [of "length ys"] False x(1) by (simp add: min_def)
    have "retry_loop (iw_call ae) iw_stored x0 ?n (?w1, map EThrow ys @ ?env) h [x0] = Some ((w3, []), ?h3, x0 # ys, ?got)"
      using r False w3(1) by simp
    then have "iowait_or_dispose (iw_call ae) iw_stored dispose_cb attempts (w, thrown_then xs v e) h = Some (iowait_finish dispose_cb x0 (w3, []) ?h3 (x0 # ys) ?got)"
      using first st a by (simp add: iowait_or_dispose_def)
    from this [unfolded f(1) d] f(2) c show ?thesis by blast
  qed
qed

text \<open>C11: \<open>iowait_or_dispose\<close> over an \<open>IOWaiter\<close>.  The call returns for every list of throws followed by the
  completion of the operation.  Uninterrupted it gives the operation's outcome.  Interrupted at most
  \<open>attempts\<close> times it passes a successful value to \<open>dispose_cb\<close>, once; interrupted more often it leaves the
  value on the waiter.  It then raises the newest throw (or the error of \<open>dispose_cb\<close>) and the context chain
  is exactly the older throws, the operation's own error never among them; every interrupted wait posts
  one cancel.\<close>

theorem iowait_or_dispose_settles:
  assumes "0 \<le> attempts" "distinct (reported_throws dispose_cb attempts xs v e)" "set (reported_throws dispose_cb attempts xs v e) \<subseteq> {..<length h}"
    and "xs \<noteq> [] \<longrightarrow> ctx h (hd xs) = None"
  shows "\<exists>w' env' h' disposed r. iowait_or_dispose (iw_call ae) iw_stored dispose_cb attempts (iw_bind (Some op) iw_init, thrown_then xs v e) h
        = Some ((w', env'), h', disposed, r)
      \<and> iw_cancels w' = replicate (min (length xs) (Suc (nat attempts))) op
      \<and> (if xs = [] then disposed = [] \<and> r = (case e of None \<Rightarrow> Inr v | Some x \<Rightarrow> Inl x)
         else disposed = (if int (length xs) \<le> attempts \<and> e = None then [v] else [])
           \<and> r = Inl (last (reported_throws dispose_cb attempts xs v e))
           \<and> is_chain h' (rev (reported_throws dispose_cb attempts xs v e)))"
proof -
  let ?w = "iw_bind (Some op) iw_init :: ('b, 'a) iowaiter"
  have w: "iw_run_ok (?w, [])" "iw_resolved ?w = None" "iw_handle ?w = Some op" "iw_cancels ?w = []"
    by (simp_all add: iw_run_ok_def iw_bind_def iw_init_def)
  show ?thesis
  proof (cases xs)
    case Nil
    then show ?thesis
      using iw_call_parked(3) [OF w(1,2), of ae v e "[]"] assms(1) w(4)
      by (cases e) (auto simp: iowait_or_dispose_def thrown_then_def iw_stored_def)
  next
    case (Cons x0 ys)
    then show ?thesis
      using iowait_interrupted [OF w(1-3) assms(1) Cons _ refl assms(2,3)] assms(4) w(4) by fastforce
  qed
qed

text \<open>Two throws, then the value 7 arrives: it is disposed of and the second throw is raised with the first
  as its context.\<close>

definition two_throws :: xheap where
  "two_throws = replicate 2 \<lparr>x_class = CancelledErr, x_context = None, x_cause = None, x_suppress = False\<rparr>"

theorem iowait_or_dispose_settles_witness:
  "\<exists>w' env' h'. iowait_or_dispose (iw_call 9) iw_stored (\<lambda>_. None) 3 (iw_bind (Some (5 :: nat)) iw_init, thrown_then [0, 1] (7 :: nat) None) two_throws
     = Some ((w', env'), h', [7], Inl 1) \<and> iw_cancels w' = [5, 5] \<and> is_chain h' [1, 0]"
  using iowait_or_dispose_settles [of 3 "\<lambda>_. None" "[0, 1]" "7 :: nat" None two_throws 9 "5 :: nat"]
  by (simp add: reported_throws_def two_throws_def ctx_def numeral_2_eq_2)

text \<open>Accounting over every run.  Whatever happens to the waits of a bound waiter: the value of the
  operation is returned and not disposed of, or disposed of once while an exception is raised, or the
  operation itself failed, or each of the \<open>attempts + 1\<close> waits was interrupted.\<close>

theorem iowait_accounts:
  assumes "iw_run_ok run" "0 \<le> attempts"
    and "iowait_or_dispose (iw_call ae) iw_stored dispose_cb attempts run h = Some (run', h', disposed, r)"
  shows "(\<exists>v. r = Inr v \<and> disposed = [] \<and> iw_stored run' = Some (Inr v))
    \<or> (\<exists>x v. r = Inl x \<and> disposed = [v] \<and> iw_stored run' = Some (Inr v))
    \<or> (\<exists>x e. r = Inl x \<and> disposed = [] \<and> iw_stored run' = Some (Inl e))
    \<or> (\<exists>x. r = Inl x \<and> disposed = [] \<and> interrupted (iw_call ae) iw_stored (Suc (nat attempts)) run)"
  by (rule iow.dispose_accounts [OF assms])

end
