(* ===== verification/IO_Chain.thy ===== *)
theory IO_Chain
  imports IO_Waiters
begin

text \<open>
  \<open>IOWaitChain\<close> and \<open>IOWaitLeg\<close> of \<open>tealetio/io_waiter.py\<close>: a composition of proactor operations with one result.
  The legs complete on worker threads while the owner waits; the chain lock makes the regions below
  atomic and the step relation interleaves them.  What the hooks of the legs and the proactor do is data: an
  \<open>act\<close> is what an \<open>advance\<close> hook does with the value (a hook may go on after \<open>finish()\<close>: finish again, raise, or
  try to follow), a \<open>sub\<close> is what a submit of the next leg does (it arms
  the operation, raises, or completes the leg on the same stack, which runs the next hook inside the lock).
  Exceptions are objects as in \<open>IO_Waiters\<close>.  \<open>ch_cancels\<close> (the cancels posted, with the leg), \<open>ch_cleaned\<close>
  (the cleanup hooks run), \<open>ch_flying\<close> (the leg whose operation is armed) and \<open>ch_accepted\<close> (the outcomes for which
  \<open>_complete\<close> answered \<open>True\<close>) are history variables.
\<close>

section \<open>State\<close>

record ('h, 'v) chain =
  ch_closed :: bool
  ch_completion :: "(nat + 'v) option"
  ch_setting :: bool
  ch_ready :: bool
  ch_legs :: "nat list"
  ch_handle :: "nat \<Rightarrow> 'h option"
  ch_next :: nat
  ch_flying :: "(nat \<times> nat option) option"
  ch_cleaned :: "nat list"
  ch_cancels :: "(nat \<times> 'h) list"
  ch_accepted :: "(nat + 'v) list"

text \<open>Cleanup hooks are numbers; a leg may have none.\<close>

datatype ('h, 'v) act = Finish 'v "('h, 'v) act" | Follow "nat option" "('h, 'v) sub" | RaiseAct nat | NoAct
and ('h, 'v) sub = Armed 'h | SubRaise nat | Inline "'h option" "('h, 'v) compl"
and ('h, 'v) compl = Failed nat | Succeeded "('h, 'v) act"

definition chain_init :: "('h, 'v) chain" where
  "chain_init = \<lparr>ch_closed = False, ch_completion = None, ch_setting = False, ch_ready = False, ch_legs = [], ch_handle = (\<lambda>_. None),
     ch_next = 0, ch_flying = None, ch_cleaned = [], ch_cancels = [], ch_accepted = []\<rparr>"

section \<open>Operations\<close>

definition leg_bind :: "nat \<Rightarrow> 'h option \<Rightarrow> ('h, 'v) chain \<Rightarrow> ('h, 'v) chain" where
  "leg_bind leg handle c = c\<lparr>ch_handle := (ch_handle c)(leg := handle)\<rparr>"

definition new_leg :: "('h, 'v) chain \<Rightarrow> ('h, 'v) chain \<times> (pyexn + nat)" where
  "new_leg c =
     (if ch_closed c \<or> ch_completion c \<noteq> None then (c, Inl RuntimeErr)
      else (c\<lparr>ch_legs := ch_legs c @ [ch_next c], ch_next := Suc (ch_next c)\<rparr>, Inr (ch_next c)))"

text \<open>\<open>_complete\<close>: the store inside the lock, then \<open>_ready.set()\<close>, which reaches the owner in a step of its own.\<close>

definition chain_complete :: "nat + 'v \<Rightarrow> ('h, 'v) chain \<Rightarrow> ('h, 'v) chain \<times> bool" where
  "chain_complete outcome c =
     (if ch_completion c \<noteq> None then (c, False)
      else (c\<lparr>ch_completion := Some outcome, ch_setting := True, ch_accepted := ch_accepted c @ [outcome]\<rparr>, True))"

definition chain_finish :: "'v \<Rightarrow> ('h, 'v) chain \<Rightarrow> ('h, 'v) chain \<times> bool" where
  "chain_finish result c = chain_complete (Inr result) c"

definition complete_error :: "nat \<Rightarrow> ('h, 'v) chain \<Rightarrow> ('h, 'v) chain" where
  "complete_error exc c = fst (chain_complete (Inl exc) c)"

definition run_cleanup :: "nat option \<Rightarrow> ('h, 'v) chain \<Rightarrow> ('h, 'v) chain" where
  "run_cleanup on_cleanup c = (case on_cleanup of None \<Rightarrow> c | Some k \<Rightarrow> c\<lparr>ch_cleaned := ch_cleaned c @ [k]\<rparr>)"

definition post_cancel :: "nat \<Rightarrow> 'h option \<Rightarrow> ('h, 'v) chain \<Rightarrow> ('h, 'v) chain" where
  "post_cancel leg handle c = (case handle of None \<Rightarrow> c | Some h \<Rightarrow> c\<lparr>ch_cancels := ch_cancels c @ [(leg, h)]\<rparr>)"

text \<open>\<open>follow\<close> up to the submit; \<open>ec\<close> is the error object made by \<open>io_cancellation_error\<close>.\<close>

definition follow_begin :: "nat \<Rightarrow> nat option \<Rightarrow> ('h, 'v) chain \<Rightarrow> ('h, 'v) chain \<times> nat option" where
  "follow_begin ec on_cleanup c =
     (case new_leg c of
        (c1, Inr leg) \<Rightarrow> (c1, Some leg)
      | (c1, Inl _) \<Rightarrow> (complete_error ec (if ch_completion c1 = None then run_cleanup on_cleanup c1 else c1), None))"

text \<open>After the submit returned a handle; with the manager still open a closed chain cancels it.\<close>

definition follow_store :: "nat \<Rightarrow> 'h option \<Rightarrow> ('h, 'v) chain \<Rightarrow> ('h, 'v) chain" where
  "follow_store leg handle c = (if \<not> ch_closed c then leg_bind leg handle c else post_cancel leg handle c)"

text \<open>\<open>run_act\<close>: an \<open>advance\<close> hook, with the exception it raises; \<open>follow_submit\<close>: the locked submit of \<open>follow\<close>;
  \<open>leg_complete\<close>: \<open>IOWaitLeg.complete\<close>.\<close>

fun run_act :: "nat \<Rightarrow> ('h, 'v) act \<Rightarrow> ('h, 'v) chain \<Rightarrow> ('h, 'v) chain \<times> nat option"
and follow_submit :: "nat \<Rightarrow> nat \<Rightarrow> nat option \<Rightarrow> ('h, 'v) sub \<Rightarrow> ('h, 'v) chain \<Rightarrow> ('h, 'v) chain \<times> nat option"
and leg_complete :: "nat \<Rightarrow> nat option \<Rightarrow> ('h, 'v) compl \<Rightarrow> ('h, 'v) chain \<Rightarrow> ('h, 'v) chain" where
  "run_act ec (Finish v a) c = run_act ec a (fst (chain_finish v c))"
| "run_act ec NoAct c = (c, None)"
| "run_act ec (RaiseAct e) c = (c, Some e)"
| "run_act ec (Follow on_cleanup sub) c =
     (case follow_begin ec on_cleanup c of
        (c1, None) \<Rightarrow> (c1, None)
      | (c1, Some leg) \<Rightarrow> follow_submit ec leg on_cleanup sub c1)"
| "follow_submit ec leg on_cleanup (Armed h) c = (follow_store leg (Some h) (c\<lparr>ch_flying := Some (leg, on_cleanup)\<rparr>), None)"
| "follow_submit ec leg on_cleanup (SubRaise e) c = (run_cleanup on_cleanup c, Some e)"
| "follow_submit ec leg on_cleanup (Inline handle k) c = (follow_store leg handle (leg_complete ec on_cleanup k c), None)"
| "leg_complete ec on_cleanup (Failed e) c = complete_error e (run_cleanup on_cleanup c)"
| "leg_complete ec on_cleanup (Succeeded a) c =
     (case run_act ec a c of
        (c1, None) \<Rightarrow> c1
      | (c1, Some e) \<Rightarrow> complete_error e c1)"

definition release_legs :: "('h, 'v) chain \<Rightarrow> ('h, 'v) chain" where
  "release_legs c = c\<lparr>ch_legs := [], ch_handle := (\<lambda>l. if l \<in> set (ch_legs c) then None else ch_handle c l)\<rparr>"

definition chain_forget :: "('h, 'v) chain \<Rightarrow> ('h, 'v) chain" where
  "chain_forget c = release_legs c"

definition chain_done :: "('h, 'v) chain \<Rightarrow> bool" where
  "chain_done c = (ch_completion c \<noteq> None)"

definition chain_exception :: "('h, 'v) chain \<Rightarrow> pyexn + nat option" where
  "chain_exception c =
     (case ch_completion c of
        None \<Rightarrow> Inl InvalidStateErr
      | Some (Inr _) \<Rightarrow> Inr None
      | Some (Inl e) \<Rightarrow> Inr (Some e))"

text \<open>\<open>_wait_once\<close> up to the park (\<open>None\<close>), the code after it, the locked region of its handler, and the
  cancel of the tail leg.\<close>

definition chain_wait :: "('h, 'v) chain \<Rightarrow> (nat + 'v) option" where
  "chain_wait c = ch_completion c"

definition chain_wait_throw :: "('h, 'v) chain \<Rightarrow> ('h, 'v) chain \<times> nat option" where
  "chain_wait_throw c =
     (if ch_completion c = None then (c\<lparr>ch_closed := True\<rparr>, if ch_legs c = [] then None else Some (last (ch_legs c)))
      else (c, None))"

definition cancel_leg :: "nat option \<Rightarrow> ('h, 'v) chain \<Rightarrow> ('h, 'v) chain" where
  "cancel_leg tail c =
     (case tail of
        None \<Rightarrow> c
      | Some leg \<Rightarrow> post_cancel leg (ch_handle c leg) (leg_bind leg None c))"

section \<open>Runs of one chain\<close>

text \<open>The owner starts the first leg and binds its handle, then waits; a throw runs the handler in three
  regions.  A worker completes the flying leg; between \<open>new_leg\<close> and the submit of a later leg the owner may
  run (\<open>cs_sub\<close>).\<close>

datatype 'h owner = OStart | OBind nat "'h option" | OIdle | OParked | OThrown "nat option" | OCancelled

record ('h, 'v) chain_sys =
  cs_chain :: "('h, 'v) chain"
  cs_owner :: "'h owner"
  cs_sub :: "(nat \<times> nat option \<times> ('h, 'v) sub) option"
  cs_outs :: "(nat + 'v) list"

definition cs_start :: "('h, 'v) chain_sys" where
  "cs_start = \<lparr>cs_chain = chain_init, cs_owner = OStart, cs_sub = None, cs_outs = []\<rparr>"

inductive cs_step :: "nat \<Rightarrow> ('h, 'v) chain_sys \<Rightarrow> ('h, 'v) chain_sys \<Rightarrow> bool" for ec where
  cs_begin: "cs_owner s = OStart \<Longrightarrow> new_leg (cs_chain s) = (c, Inr leg) \<Longrightarrow>
    cs_step ec s (s\<lparr>cs_chain := c\<lparr>ch_flying := Some (leg, on_cleanup)\<rparr>, cs_owner := OBind leg (Some h)\<rparr>)"
| cs_begin_inline: "cs_owner s = OStart \<Longrightarrow> new_leg (cs_chain s) = (c, Inr leg) \<Longrightarrow>
    cs_step ec s (s\<lparr>cs_chain := leg_complete ec on_cleanup k c, cs_owner := OBind leg handle\<rparr>)"
| cs_bind: "cs_owner s = OBind leg handle \<Longrightarrow>
    cs_step ec s (s\<lparr>cs_chain := leg_bind leg handle (cs_chain s), cs_owner := OIdle\<rparr>)"
| cs_wait: "cs_owner s = OIdle \<Longrightarrow> chain_wait (cs_chain s) = Some out \<Longrightarrow>
    cs_step ec s (s\<lparr>cs_chain := release_legs (cs_chain s), cs_outs := cs_outs s @ [out]\<rparr>)"
| cs_park: "cs_owner s = OIdle \<Longrightarrow> chain_wait (cs_chain s) = None \<Longrightarrow> cs_step ec s (s\<lparr>cs_owner := OParked\<rparr>)"
| cs_ready: "ch_setting (cs_chain s) \<Longrightarrow>
    cs_step ec s (s\<lparr>cs_chain := (cs_chain s)\<lparr>ch_setting := False, ch_ready := True\<rparr>\<rparr>)"
| cs_resume: "cs_owner s = OParked \<Longrightarrow> ch_ready (cs_chain s) \<Longrightarrow> ch_completion (cs_chain s) = Some out \<Longrightarrow>
    cs_step ec s (s\<lparr>cs_chain := release_legs (cs_chain s), cs_owner := OIdle, cs_outs := cs_outs s @ [out]\<rparr>)"
| cs_throw: "cs_owner s = OParked \<Longrightarrow> chain_wait_throw (cs_chain s) = (c, tail) \<Longrightarrow>
    cs_step ec s (s\<lparr>cs_chain := c, cs_owner := OThrown tail\<rparr>)"
| cs_cancel: "cs_owner s = OThrown tail \<Longrightarrow>
    cs_step ec s (s\<lparr>cs_chain := cancel_leg tail (cs_chain s), cs_owner := OCancelled\<rparr>)"
| cs_release: "cs_owner s = OCancelled \<Longrightarrow>
    cs_step ec s (s\<lparr>cs_chain := release_legs (cs_chain s), cs_owner := OIdle\<rparr>)"
| cs_complete: "ch_flying (cs_chain s) = Some (leg, on_cleanup) \<Longrightarrow> (\<forall>k2 sub. k \<noteq> Succeeded (Follow k2 sub)) \<Longrightarrow>
    cs_step ec s (s\<lparr>cs_chain := leg_complete ec on_cleanup k ((cs_chain s)\<lparr>ch_flying := None\<rparr>)\<rparr>)"
| cs_follow: "ch_flying (cs_chain s) = Some (leg, on_cleanup) \<Longrightarrow> follow_begin ec k2 ((cs_chain s)\<lparr>ch_flying := None\<rparr>) = (c, next_leg) \<Longrightarrow>
    cs_step ec s (s\<lparr>cs_chain := c, cs_sub := map_option (\<lambda>l. (l, k2, sub)) next_leg\<rparr>)"
| cs_submit: "cs_sub s = Some (leg, k2, sub) \<Longrightarrow> follow_submit ec leg k2 sub (cs_chain s) = (c, raised_exc) \<Longrightarrow>
    cs_step ec s (s\<lparr>cs_chain := (case raised_exc of None \<Rightarrow> c | Some e \<Rightarrow> complete_error e c), cs_sub := None\<rparr>)"

section \<open>What the worker does inside the lock\<close>

lemmas chain_op_defs = chain_complete_def chain_finish_def complete_error_def run_cleanup_def post_cancel_def leg_bind_def follow_store_def

definition stored :: "(nat + 'v) option \<Rightarrow> (nat + 'v) list" where
  "stored completion = (case completion of None \<Rightarrow> [] | Some outcome \<Rightarrow> [outcome])"

lemma stored_simps [simp]: "stored None = []" "stored (Some outcome) = [outcome]"
  by (simp_all add: stored_def)

definition settled :: "('h, 'v) chain \<Rightarrow> ('h, 'v) chain \<Rightarrow> bool" where
  "settled c c' \<longleftrightarrow> ch_closed c' = ch_closed c \<and> ch_ready c' = ch_ready c \<and> (ch_accepted c = stored (ch_completion c) \<longrightarrow> ch_accepted c' = stored (ch_completion c'))
     \<and> (if ch_completion c' = None then ch_setting c' = ch_setting c else ch_setting c')"

text \<open>On an open chain: later legs get later numbers and their handles, at most the last one is flying, and
  no cancel is posted.  \<open>n\<close> is the first leg whose handle may change.\<close>

definition opened :: "nat \<Rightarrow> ('h, 'v) chain \<Rightarrow> ('h, 'v) chain \<Rightarrow> bool" where
  "opened n c c' \<longleftrightarrow> settled c c' \<and> ch_next c \<le> ch_next c' \<and> ch_legs c' = ch_legs c @ [ch_next c..<ch_next c']
     \<and> (\<forall>j. j < n \<or> ch_next c' \<le> j \<longrightarrow> ch_handle c' j = ch_handle c j) \<and> ch_cancels c' = ch_cancels c
     \<and> (case ch_flying c' of None \<Rightarrow> True
        | Some (l, _) \<Rightarrow> n \<le> l \<and> Suc l = ch_next c' \<and> ch_handle c' l \<noteq> None \<and> ch_completion c' = None)"

definition idle_chain :: "('h, 'v) chain \<Rightarrow> bool" where
  "idle_chain c \<longleftrightarrow> ch_completion c = None \<and> ch_flying c = None"

lemma opened_follow:
  assumes "opened (ch_next c) (c\<lparr>ch_legs := ch_legs c @ [ch_next c], ch_next := Suc (ch_next c)\<rparr>) c'"
  shows "opened (ch_next c) c c'"
  using assms by (auto simp: opened_def settled_def upt_conv_Cons split: option.splits)

lemma opened_store:
  assumes "opened (ch_next c) c c'" "\<not> ch_closed c'" "Suc l = ch_next c"
  shows "opened l c (follow_store l handle c')"
  using assms by (auto simp: opened_def settled_def chain_op_defs split: option.splits)

lemma opened_error: "opened n c c' \<Longrightarrow> ch_flying c' = None \<Longrightarrow> opened n c (complete_error e c')"
  by (auto simp: opened_def settled_def chain_op_defs)

text \<open>Whatever a hook does after \<open>finish()\<close> leaves the chain as it is.\<close>

lemma run_act_completed: "ch_completion c \<noteq> None \<Longrightarrow> fst (run_act ec a c) = c"
proof (induction a rule: act.induct [where ?P2.0 = "\<lambda>_. True" and ?P3.0 = "\<lambda>_. True"])
  case (Finish v a)
  then show ?case by (simp add: chain_op_defs)
next
  case (Follow k sub)
  then show ?case by (auto simp: follow_begin_def new_leg_def chain_op_defs)
qed simp_all

lemma leg_complete_finish:
  "ch_completion c = None \<Longrightarrow> leg_complete ec k (Succeeded (Finish v a)) c =
     c\<lparr>ch_completion := Some (Inr v), ch_setting := True, ch_accepted := ch_accepted c @ [Inr v]\<rparr>"
  using run_act_completed [of "fst (chain_finish v c)" ec a]
  by (auto simp: chain_op_defs split: prod.splits option.splits)

lemma open_effects:
  fixes c :: "('h, 'v) chain"
  shows "\<not> ch_closed c \<Longrightarrow> idle_chain c \<Longrightarrow> run_act ec a c = (c', r) \<Longrightarrow>
      opened (ch_next c) c c' \<and> (r \<noteq> None \<longrightarrow> ch_flying c' = None)"
    and "\<not> ch_closed c \<Longrightarrow> idle_chain c \<Longrightarrow> Suc l = ch_next c \<Longrightarrow> follow_submit ec l k sub c = (c', r) \<Longrightarrow>
      opened l c c' \<and> (r \<noteq> None \<longrightarrow> ch_flying c' = None)"
    and "\<not> ch_closed c \<Longrightarrow> idle_chain c \<Longrightarrow> opened (ch_next c) c (leg_complete ec k m c)"
proof (induction ec a c and ec l k sub c and ec k m c arbitrary: c' r and c' r
    rule: run_act_follow_submit_leg_complete.induct)
  case (1 ec v a c)
  have "c' = fst (chain_finish v c)" using 1(4) run_act_completed [of "fst (chain_finish v c)" ec a] 1(3)
    by (simp add: idle_chain_def chain_op_defs)
  then show ?case using 1(2,3) by (simp add: idle_chain_def opened_def settled_def chain_op_defs)
next
  case (4 ec on_cleanup sub c)
  let ?c1 = "c\<lparr>ch_legs := ch_legs c @ [ch_next c], ch_next := Suc (ch_next c)\<rparr>"
  have b: "follow_begin ec on_cleanup c = (?c1, Some (ch_next c))"
    using 4(2,3) by (simp add: follow_begin_def new_leg_def idle_chain_def)
  have "opened (ch_next c) ?c1 c' \<and> (r \<noteq> None \<longrightarrow> ch_flying c' = None)"
    by (rule 4(1) [OF b [symmetric] refl]) (use 4(2-4) b in \<open>simp_all add: idle_chain_def\<close>)
  then show ?case using opened_follow by blast
next
  case (5 ec leg on_cleanup h c)
  then show ?case by (auto simp: idle_chain_def opened_def settled_def chain_op_defs)
next
  case (6 ec leg on_cleanup e c)
  then show ?case by (auto simp: idle_chain_def opened_def settled_def chain_op_defs split: option.splits)
next
  case (7 ec leg on_cleanup handle k c)
  then have o: "opened (ch_next c) c (leg_complete ec on_cleanup k c)" by blast
  then have "\<not> ch_closed (leg_complete ec on_cleanup k c)" using 7(2) by (simp add: opened_def settled_def)
  from opened_store [OF o this] 7(4,5) show ?case by auto
next
  case (8 ec on_cleanup e c)
  then show ?case by (auto simp: idle_chain_def opened_def settled_def chain_op_defs split: option.splits)
next
  case (9 ec on_cleanup a c)
  obtain c1 r1 where r: "run_act ec a c = (c1, r1)" by fastforce
  then have o: "opened (ch_next c) c c1" "r1 \<noteq> None \<longrightarrow> ch_flying c1 = None" using 9 by blast+
  then show ?case using r opened_error by (auto simp: idle_chain_def split: option.splits)
qed (auto simp: idle_chain_def opened_def settled_def)

text \<open>On a closed chain no leg is added; only the submit of a leg that existed before the close can fly, and
  its handle is cancelled.\<close>

definition shut :: "('h, 'v) chain \<Rightarrow> ('h, 'v) chain \<Rightarrow> bool" where
  "shut c c' \<longleftrightarrow> settled c c' \<and> ch_next c' = ch_next c \<and> ch_legs c' = ch_legs c \<and> ch_handle c' = ch_handle c"

definition untouched :: "('h, 'v) chain \<Rightarrow> ('h, 'v) chain \<Rightarrow> bool" where
  "untouched c c' \<longleftrightarrow> shut c c' \<and> ch_cancels c' = ch_cancels c \<and> ch_flying c' = None"

lemma closed_effects:
  fixes c :: "('h, 'v) chain"
  shows "ch_closed c \<Longrightarrow> idle_chain c \<Longrightarrow> run_act ec a c = (c', r) \<Longrightarrow> untouched c c'"
    and "ch_closed c \<Longrightarrow> idle_chain c \<Longrightarrow> follow_submit ec l k sub c = (c', r) \<Longrightarrow>
      shut c c' \<and> (r \<noteq> None \<longrightarrow> ch_flying c' = None \<and> ch_cancels c' = ch_cancels c)
      \<and> (ch_cancels c' = ch_cancels c \<and> ch_flying c' = None \<or> (\<exists>h. ch_cancels c' = ch_cancels c @ [(l, h)]))
      \<and> (case ch_flying c' of None \<Rightarrow> True | Some (j, _) \<Rightarrow> j = l \<and> ch_completion c' = None)"
    and "ch_closed c \<Longrightarrow> idle_chain c \<Longrightarrow> untouched c (leg_complete ec k m c)"
proof (induction ec a c and ec l k sub c and ec k m c arbitrary: c' r and c' r
    rule: run_act_follow_submit_leg_complete.induct)
  case (1 ec v a c)
  have "c' = fst (chain_finish v c)" using 1(4) run_act_completed [of "fst (chain_finish v c)" ec a] 1(3)
    by (simp add: idle_chain_def chain_op_defs)
  then show ?case using 1(2,3) by (simp add: idle_chain_def untouched_def shut_def settled_def chain_op_defs)
next
  case (4 ec on_cleanup sub c)
  then show ?case
    by (auto simp: follow_begin_def new_leg_def idle_chain_def untouched_def shut_def settled_def chain_op_defs split: option.splits)
next
  case (5 ec leg on_cleanup h c)
  then show ?case by (auto simp: idle_chain_def shut_def settled_def chain_op_defs)
next
  case (6 ec leg on_cleanup e c)
  then show ?case by (auto simp: idle_chain_def shut_def settled_def chain_op_defs split: option.splits)
next
  case (7 ec leg on_cleanup handle k c)
  then have "untouched c (leg_complete ec on_cleanup k c)" by blast
  then show ?case using 7(2,4) by (auto simp: untouched_def shut_def settled_def chain_op_defs split: option.splits)
next
  case (8 ec on_cleanup e c)
  then show ?case by (auto simp: idle_chain_def untouched_def shut_def settled_def chain_op_defs split: option.splits)
next
  case (9 ec on_cleanup a c)
  obtain c1 r1 where r: "run_act ec a c = (c1, r1)" by fastforce
  then have "untouched c c1" using 9 by blast
  then show ?case using r by (auto simp: untouched_def shut_def settled_def chain_op_defs split: option.splits)
qed (auto simp: idle_chain_def untouched_def shut_def settled_def)

section \<open>The invariant\<close>

definition flags_ok :: "('h, 'v) chain_sys \<Rightarrow> bool" where
  "flags_ok s \<longleftrightarrow> (ch_completion (cs_chain s) \<noteq> None) = (ch_setting (cs_chain s) \<or> ch_ready (cs_chain s))
     \<and> (\<forall>out \<in> set (cs_outs s). ch_completion (cs_chain s) = Some out) \<and> ch_accepted (cs_chain s) = stored (ch_completion (cs_chain s))"

definition work_ok :: "('h, 'v) chain_sys \<Rightarrow> bool" where
  "work_ok s \<longleftrightarrow> (\<forall>j \<ge> ch_next (cs_chain s). ch_handle (cs_chain s) j = None)
     \<and> (case ch_flying (cs_chain s) of None \<Rightarrow> True
        | Some (l, _) \<Rightarrow> Suc l = ch_next (cs_chain s) \<and> cs_sub s = None \<and> ch_completion (cs_chain s) = None)
     \<and> (case cs_sub s of None \<Rightarrow> True
        | Some (l, _) \<Rightarrow> Suc l = ch_next (cs_chain s) \<and> 0 < l \<and> ch_handle (cs_chain s) l = None \<and> ch_completion (cs_chain s) = None)"

definition owner_ok :: "('h, 'v) chain_sys \<Rightarrow> bool" where
  "owner_ok s \<longleftrightarrow>
     (\<not> ch_closed (cs_chain s) \<and> ch_completion (cs_chain s) = None \<longrightarrow> ch_legs (cs_chain s) = [0..<ch_next (cs_chain s)])
     \<and> (case cs_owner s of
          OStart \<Rightarrow> ch_next (cs_chain s) = 0 \<and> \<not> ch_closed (cs_chain s) \<and> idle_chain (cs_chain s) \<and> cs_sub s = None
        | OBind l h \<Rightarrow> l = 0 \<and> 0 < ch_next (cs_chain s) \<and> \<not> ch_closed (cs_chain s) \<and> (h = None \<longrightarrow> (\<forall>k. ch_flying (cs_chain s) \<noteq> Some (0, k)))
        | OThrown t \<Rightarrow> 0 < ch_next (cs_chain s) \<and> (ch_closed (cs_chain s) \<or> ch_completion (cs_chain s) \<noteq> None)
            \<and> (case t of None \<Rightarrow> True | Some l \<Rightarrow> ch_closed (cs_chain s) \<and> Suc l = ch_next (cs_chain s))
        | OCancelled \<Rightarrow> 0 < ch_next (cs_chain s) \<and> (ch_closed (cs_chain s) \<or> ch_completion (cs_chain s) \<noteq> None)
        | _ \<Rightarrow> 0 < ch_next (cs_chain s) \<and> (ch_closed (cs_chain s) \<longrightarrow> ch_legs (cs_chain s) = []))"

definition cancel_ok :: "('h, 'v) chain_sys \<Rightarrow> bool" where
  "cancel_ok s \<longleftrightarrow>
     (ch_cancels (cs_chain s) = [] \<or> ch_closed (cs_chain s) \<and> cs_sub s = None \<and> ch_handle (cs_chain s) (ch_next (cs_chain s) - 1) = None
        \<and> (\<exists>h. ch_cancels (cs_chain s) = [(ch_next (cs_chain s) - 1, h)]))
     \<and> (\<forall>l k. ch_flying (cs_chain s) = Some (l, k) \<longrightarrow>
          (if ch_closed (cs_chain s) then ch_cancels (cs_chain s) \<noteq> [] \<or> cs_owner s = OThrown (Some l) \<and> ch_handle (cs_chain s) l \<noteq> None
           else ch_handle (cs_chain s) l \<noteq> None \<or> (\<exists>h. cs_owner s = OBind l (Some h))))"

definition cs_ok :: "('h, 'v) chain_sys \<Rightarrow> bool" where
  "cs_ok s \<longleftrightarrow> flags_ok s \<and> work_ok s \<and> owner_ok s \<and> cancel_ok s"

lemmas cs_ok_defs = cs_ok_def flags_ok_def work_ok_def owner_ok_def cancel_ok_def

lemma cs_ok_start: "cs_ok cs_start"
  by (simp add: cs_ok_defs cs_start_def chain_init_def idle_chain_def)

text \<open>A worker's locked region on an open chain, for a leg that the worker owns.\<close>

lemma cs_ok_opened:
  assumes "cs_ok s" "opened n (cs_chain s) c" "idle_chain (cs_chain s)" "\<not> ch_closed (cs_chain s)" "cs_owner s \<noteq> OStart"
    "cs_owner s = OBind 0 None \<longrightarrow> (\<forall>k. ch_flying c \<noteq> Some (0, k))"
  shows "cs_ok (s\<lparr>cs_chain := c, cs_sub := None\<rparr>)"
proof -
  let ?s = "s\<lparr>cs_chain := c, cs_sub := None\<rparr>"
  have p: "flags_ok s" "work_ok s" "owner_ok s" "cancel_ok s" using assms(1) by (simp_all add: cs_ok_def)
  have st: "settled (cs_chain s) c" using assms(2) by (simp add: opened_def)
  have "flags_ok ?s" using p(1) st assms(3) by (auto simp: flags_ok_def settled_def idle_chain_def split: if_splits)
  moreover have "work_ok ?s" using p(2) assms(2) by (auto simp: work_ok_def opened_def split: option.splits)
  moreover have "owner_ok ?s"
  proof -
    have l: "ch_legs c = [0..<ch_next c]" "ch_next (cs_chain s) \<le> ch_next c"
      using p(3) assms(2-4) upt_add_eq_append [of 0 "ch_next (cs_chain s)" "ch_next c - ch_next (cs_chain s)"]
      by (auto simp: owner_ok_def opened_def idle_chain_def)
    show ?thesis using p(3) l st assms(3-6)
      by (cases "cs_owner s") (auto simp: owner_ok_def settled_def idle_chain_def split: option.splits)
  qed
  moreover have "cancel_ok ?s"
    using p(4) st assms(2,4) by (auto simp: cancel_ok_def opened_def settled_def split: option.splits)
  ultimately show ?thesis by (simp add: cs_ok_def)
qed

text \<open>The same on a closed chain: a cancel is posted only for the leg being submitted, and then nothing was
  cancelled before.\<close>

lemma cs_ok_shut:
  assumes "cs_ok s" "shut (cs_chain s) c" "idle_chain (cs_chain s)" "ch_closed (cs_chain s)"
    "ch_cancels c = ch_cancels (cs_chain s) \<and> ch_flying c = None
     \<or> (\<exists>l q h. cs_sub s = Some (l, q) \<and> ch_cancels c = ch_cancels (cs_chain s) @ [(l, h)])"
    "case ch_flying c of None \<Rightarrow> True | Some (j, _) \<Rightarrow> Suc j = ch_next (cs_chain s) \<and> ch_completion c = None"
  shows "cs_ok (s\<lparr>cs_chain := c, cs_sub := None\<rparr>)"
proof -
  let ?s = "s\<lparr>cs_chain := c, cs_sub := None\<rparr>"
  have p: "flags_ok s" "work_ok s" "owner_ok s" "cancel_ok s" using assms(1) by (simp_all add: cs_ok_def)
  have st: "settled (cs_chain s) c" using assms(2) by (simp add: shut_def)
  have "flags_ok ?s" using p(1) st assms(3) by (auto simp: flags_ok_def settled_def idle_chain_def split: if_splits)
  moreover have "work_ok ?s" using p(2) assms(2,6) by (auto simp: work_ok_def shut_def split: option.splits)
  moreover have "owner_ok ?s"
    using p(3) assms(2-4) st by (cases "cs_owner s") (auto simp: owner_ok_def shut_def settled_def idle_chain_def split: option.splits)
  moreover have "cancel_ok ?s"
    using assms(5)
  proof
    assume "ch_cancels c = ch_cancels (cs_chain s) \<and> ch_flying c = None"
    then show ?thesis using p(4) assms(2,4) st by (auto simp: cancel_ok_def shut_def settled_def)
  next
    assume "\<exists>l q h. cs_sub s = Some (l, q) \<and> ch_cancels c = ch_cancels (cs_chain s) @ [(l, h)]"
    then obtain l q h where l: "cs_sub s = Some (l, q)" "ch_cancels c = ch_cancels (cs_chain s) @ [(l, h)]" by blast
    then have "ch_cancels (cs_chain s) = []" "ch_next c = Suc l" "ch_handle c l = None" "ch_closed c"
      using p(2,4) assms(2,4) st by (auto simp: cancel_ok_def work_ok_def shut_def settled_def)
    then show ?thesis using l by (auto simp: cancel_ok_def)
  qed
  ultimately show ?thesis by (simp add: cs_ok_def)
qed

lemma cs_ok_land:
  assumes "cs_ok s" "ch_flying (cs_chain s) = Some p"
  shows "cs_ok (s\<lparr>cs_chain := (cs_chain s)\<lparr>ch_flying := None\<rparr>\<rparr>)" "idle_chain ((cs_chain s)\<lparr>ch_flying := None\<rparr>)"
    "cs_sub s = None" "cs_owner s \<noteq> OStart"
  using assms
  by (auto simp: cs_ok_defs idle_chain_def split: option.splits owner.splits)

text \<open>Completion of the flying leg by the worker.\<close>

lemma cs_ok_completed:
  assumes "cs_ok s" "ch_flying (cs_chain s) = Some p"
  shows "cs_ok (s\<lparr>cs_chain := leg_complete ec k m ((cs_chain s)\<lparr>ch_flying := None\<rparr>)\<rparr>)"
proof -
  let ?c = "(cs_chain s)\<lparr>ch_flying := None\<rparr>"
  let ?s = "s\<lparr>cs_chain := ?c\<rparr>"
  note l = cs_ok_land [OF assms]
  have n: "0 < ch_next ?c" using l(1,4) by (auto simp: cs_ok_defs split: owner.splits)
  have e: "s\<lparr>cs_chain := leg_complete ec k m ?c\<rparr> = ?s\<lparr>cs_chain := leg_complete ec k m ?c, cs_sub := None\<rparr>" using l(3) by simp
  show ?thesis
  proof (cases "ch_closed ?c")
    case True
    have u: "untouched ?c (leg_complete ec k m ?c)" by (rule closed_effects(3) [OF True l(2)])
    show ?thesis unfolding e by (rule cs_ok_shut [OF l(1)]) (use u True l(2) in \<open>simp_all add: untouched_def\<close>)
  next
    case False
    have o: "opened (ch_next ?c) ?c (leg_complete ec k m ?c)" by (rule open_effects(3) [OF False l(2)])
    show ?thesis unfolding e
      by (rule cs_ok_opened [OF l(1), where n = "ch_next ?c"]) (use o False l(2,4) n in \<open>auto simp: opened_def\<close>)
  qed
qed

lemma cs_ok_followed:
  assumes "cs_ok s" "ch_flying (cs_chain s) = Some p" "follow_begin ec k2 ((cs_chain s)\<lparr>ch_flying := None\<rparr>) = (c, next_leg)"
  shows "cs_ok (s\<lparr>cs_chain := c, cs_sub := map_option (\<lambda>l. (l, k2, sub)) next_leg\<rparr>)"
proof -
  let ?c = "(cs_chain s)\<lparr>ch_flying := None\<rparr>"
  let ?s = "s\<lparr>cs_chain := ?c\<rparr>"
  note l = cs_ok_land [OF assms(1,2)]
  show ?thesis
  proof (cases "ch_closed ?c")
    case True
    then have c: "c = complete_error ec (run_cleanup k2 ?c)" "next_leg = None"
      using assms(3) l(2) by (auto simp: follow_begin_def new_leg_def idle_chain_def)
    then have e: "s\<lparr>cs_chain := c, cs_sub := map_option (\<lambda>l. (l, k2, sub)) next_leg\<rparr> = ?s\<lparr>cs_chain := c, cs_sub := None\<rparr>" by simp
    have "untouched ?c c" using c(1) l(2) by (auto simp: idle_chain_def untouched_def shut_def settled_def chain_op_defs split: option.splits)
    then show ?thesis unfolding e by (intro cs_ok_shut [OF l(1)]) (use True l(2) in \<open>simp_all add: untouched_def\<close>)
  next
    case False
    then have c: "c = ?c\<lparr>ch_legs := ch_legs ?c @ [ch_next ?c], ch_next := Suc (ch_next ?c)\<rparr>" "next_leg = Some (ch_next ?c)"
      using assms(3) l(2) by (auto simp: follow_begin_def new_leg_def idle_chain_def)
    have q: "flags_ok ?s" "work_ok ?s" "owner_ok ?s" "cancel_ok ?s" using l(1) by (simp_all add: cs_ok_def)
    have n: "0 < ch_next (cs_chain s)" using q(3) l(4) by (auto simp: owner_ok_def split: owner.splits)
    let ?t = "s\<lparr>cs_chain := c, cs_sub := map_option (\<lambda>l. (l, k2, sub)) next_leg\<rparr>"
    have "flags_ok ?t" using q(1) c by (simp add: flags_ok_def)
    moreover have "work_ok ?t" using q(2) c l(2) n by (auto simp: work_ok_def idle_chain_def)
    moreover have "owner_ok ?t"
      using q(3) c False l(2,4) by (cases "cs_owner s") (auto simp: owner_ok_def idle_chain_def)
    moreover have "cancel_ok ?t" using q(4) c False by (auto simp: cancel_ok_def)
    ultimately show ?thesis by (simp add: cs_ok_def)
  qed
qed

lemma cs_ok_submitted:
  assumes "cs_ok s" "cs_sub s = Some (l, k2, sub)" "follow_submit ec l k2 sub (cs_chain s) = (c, r)"
  shows "cs_ok (s\<lparr>cs_chain := (case r of None \<Rightarrow> c | Some e \<Rightarrow> complete_error e c), cs_sub := None\<rparr>)"
proof -
  let ?c' = "case r of None \<Rightarrow> c | Some e \<Rightarrow> complete_error e c"
  have w: "idle_chain (cs_chain s)" "Suc l = ch_next (cs_chain s)" "0 < l" "cs_owner s \<noteq> OStart"
    using assms(1,2) by (auto simp: cs_ok_defs idle_chain_def split: option.splits owner.splits)
  show ?thesis
  proof (cases "ch_closed (cs_chain s)")
    case True
    note e = closed_effects(2) [OF True w(1) assms(3)]
    have "shut (cs_chain s) ?c'" using e by (cases r) (auto simp: shut_def settled_def chain_op_defs idle_chain_def split: if_splits)
    moreover have f: "ch_cancels ?c' = ch_cancels c" "ch_flying ?c' = ch_flying c" by (cases r; simp add: chain_op_defs)+
    moreover have "case ch_flying ?c' of None \<Rightarrow> True | Some (j, _) \<Rightarrow> Suc j = ch_next (cs_chain s) \<and> ch_completion ?c' = None"
      using e w(2) by (cases r) (auto simp: chain_op_defs idle_chain_def split: option.splits)
    ultimately show ?thesis using e assms(2) by (intro cs_ok_shut [OF assms(1)]) (use True w(1) in auto)
  next
    case False
    have o: "opened l (cs_chain s) c" "r \<noteq> None \<longrightarrow> ch_flying c = None" using open_effects(2) [OF False w(1,2) assms(3)] by blast+
    then have o': "opened l (cs_chain s) ?c'" using opened_error by (cases r) (auto simp: idle_chain_def)
    show ?thesis by (rule cs_ok_opened [OF assms(1) o']) (use False w o' in \<open>auto simp: opened_def\<close>)
  qed
qed

text \<open>The owner's steps.\<close>

lemma cs_ok_began:
  assumes "cs_ok s" "cs_owner s = OStart" "new_leg (cs_chain s) = (c, Inr leg)"
  shows "cs_ok (s\<lparr>cs_chain := c, cs_owner := OBind leg handle\<rparr>)" "idle_chain c" "\<not> ch_closed c" "ch_next c = 1" "leg = 0" "cs_sub s = None"
  using assms by (auto simp: cs_ok_defs new_leg_def idle_chain_def split: if_splits)

lemma cs_ok_released:
  assumes "cs_ok s" "ch_closed (cs_chain s) \<or> ch_completion (cs_chain s) \<noteq> None" "cs_owner s = OIdle \<or> cs_owner s = OParked \<or> cs_owner s = OCancelled"
    "\<forall>out \<in> set outs. ch_completion (cs_chain s) = Some out"
  shows "cs_ok (s\<lparr>cs_chain := release_legs (cs_chain s), cs_owner := OIdle, cs_outs := cs_outs s @ outs\<rparr>)"
proof -
  let ?s = "s\<lparr>cs_chain := release_legs (cs_chain s), cs_owner := OIdle, cs_outs := cs_outs s @ outs\<rparr>"
  have p: "flags_ok s" "work_ok s" "owner_ok s" "cancel_ok s" using assms(1) by (simp_all add: cs_ok_def)
  have "flags_ok ?s" using p(1) assms(4) by (auto simp: flags_ok_def release_legs_def)
  moreover have "work_ok ?s" using p(2) by (auto simp: work_ok_def release_legs_def split: option.splits)
  moreover have "owner_ok ?s" using p(3) assms(2,3) by (auto simp: owner_ok_def release_legs_def split: owner.splits)
  moreover have "cancel_ok ?s"
    using p(2,4) assms(2,3) by (auto simp: cancel_ok_def work_ok_def release_legs_def split: option.splits)
  ultimately show ?thesis by (simp add: cs_ok_def)
qed

lemma cs_ok_bound:
  assumes "cs_ok s" "cs_owner s = OBind leg handle"
  shows "cs_ok (s\<lparr>cs_chain := leg_bind leg handle (cs_chain s), cs_owner := OIdle\<rparr>)"
proof -
  let ?s = "s\<lparr>cs_chain := leg_bind leg handle (cs_chain s), cs_owner := OIdle\<rparr>"
  have p: "flags_ok s" "work_ok s" "owner_ok s" "cancel_ok s" using assms(1) by (simp_all add: cs_ok_def)
  have o: "leg = 0" "0 < ch_next (cs_chain s)" "\<not> ch_closed (cs_chain s)" "handle = None \<longrightarrow> (\<forall>k. ch_flying (cs_chain s) \<noteq> Some (0, k))"
    using p(3) assms(2) by (auto simp: owner_ok_def)
  have "flags_ok ?s" using p(1) by (simp add: flags_ok_def leg_bind_def)
  moreover have "work_ok ?s" using p(2) o(1,2) by (auto simp: work_ok_def leg_bind_def split: option.splits)
  moreover have "owner_ok ?s" using p(3) o(2,3) by (auto simp: owner_ok_def leg_bind_def)
  moreover have "cancel_ok ?s" using p(4) o assms(2) by (auto simp: cancel_ok_def leg_bind_def)
  ultimately show ?thesis by (simp add: cs_ok_def)
qed

lemma cs_ok_thrown:
  assumes "cs_ok s" "cs_owner s = OParked" "chain_wait_throw (cs_chain s) = (c, tail)"
  shows "cs_ok (s\<lparr>cs_chain := c, cs_owner := OThrown tail\<rparr>)"
proof -
  let ?s = "s\<lparr>cs_chain := c, cs_owner := OThrown tail\<rparr>"
  have p: "flags_ok s" "work_ok s" "owner_ok s" "cancel_ok s" using assms(1) by (simp_all add: cs_ok_def)
  have n: "0 < ch_next (cs_chain s)" using p(3) assms(2) by (simp add: owner_ok_def)
  have "flags_ok ?s" using p(1) assms(3) by (auto simp: flags_ok_def chain_wait_throw_def split: if_splits)
  moreover have "work_ok ?s" using p(2) assms(3) by (auto simp: work_ok_def chain_wait_throw_def split: if_splits option.splits)
  moreover have "owner_ok ?s"
    using p(3) assms(2,3) n by (auto simp: owner_ok_def chain_wait_throw_def split: if_splits option.splits)
  moreover have "cancel_ok ?s"
  proof (cases "ch_completion (cs_chain s) = None \<and> \<not> ch_closed (cs_chain s)")
    case True
    then have t: "tail = Some (ch_next (cs_chain s) - 1)" "c = (cs_chain s)\<lparr>ch_closed := True\<rparr>"
      using p(3) assms(3) n by (auto simp: owner_ok_def chain_wait_throw_def split: if_splits)
    show ?thesis
      using p(2,4) t True assms(2) by (auto simp: cancel_ok_def work_ok_def)
  next
    case False
    then have "c = cs_chain s" using assms(3) by (auto simp: chain_wait_throw_def split: if_splits)
    moreover have "ch_flying (cs_chain s) = None \<or> ch_closed (cs_chain s)" using False p(2) by (auto simp: work_ok_def split: option.splits)
    ultimately show ?thesis using p(4) assms(2) by (auto simp: cancel_ok_def)
  qed
  ultimately show ?thesis by (simp add: cs_ok_def)
qed

lemma cs_ok_cancelled:
  assumes "cs_ok s" "cs_owner s = OThrown tail"
  shows "cs_ok (s\<lparr>cs_chain := cancel_leg tail (cs_chain s), cs_owner := OCancelled\<rparr>)"
proof -
  let ?s = "s\<lparr>cs_chain := cancel_leg tail (cs_chain s), cs_owner := OCancelled\<rparr>"
  have p: "flags_ok s" "work_ok s" "owner_ok s" "cancel_ok s" using assms(1) by (simp_all add: cs_ok_def)
  have "flags_ok ?s" using p(1) by (auto simp: flags_ok_def cancel_leg_def chain_op_defs split: option.splits)
  moreover have "work_ok ?s" using p(2) by (auto simp: work_ok_def cancel_leg_def chain_op_defs split: option.splits)
  moreover have "owner_ok ?s" using p(3) assms(2) by (auto simp: owner_ok_def cancel_leg_def chain_op_defs split: option.splits)
  moreover have "cancel_ok ?s"
  proof (cases tail)
    case None
    have "ch_flying (cs_chain s) = None \<or> ch_closed (cs_chain s)" using p(2,3) assms(2) by (auto simp: owner_ok_def work_ok_def split: option.splits)
    then show ?thesis using p(4) assms(2) None by (auto simp: cancel_ok_def cancel_leg_def)
  next
    case (Some l)
    then have l: "ch_closed (cs_chain s)" "ch_next (cs_chain s) = Suc l" using p(3) assms(2) by (auto simp: owner_ok_def)
    have f: "\<And>j k. ch_flying (cs_chain s) = Some (j, k) \<Longrightarrow> j = l" using p(2) l(2) by (auto simp: work_ok_def)
    show ?thesis
    proof (cases "ch_handle (cs_chain s) l")
      case None
      then show ?thesis using p(4) Some l f by (auto simp: cancel_ok_def cancel_leg_def chain_op_defs)
    next
      case (Some h)
      then have "ch_cancels (cs_chain s) = []" "cs_sub s = None" using p(2,4) l by (auto simp: cancel_ok_def work_ok_def split: option.splits)
      then show ?thesis using Some \<open>tail = Some l\<close> l by (auto simp: cancel_ok_def cancel_leg_def chain_op_defs)
    qed
  qed
  ultimately show ?thesis by (simp add: cs_ok_def)
qed

lemma cs_step_ok: "cs_step ec s s' \<Longrightarrow> cs_ok s \<Longrightarrow> cs_ok s'"
proof (induction rule: cs_step.induct)
  case (cs_begin s c leg h on_cleanup)
  note b = cs_ok_began(1) [OF cs_begin(3,1,2), of "Some h"] cs_ok_began(2-) [OF cs_begin(3,1,2)]
  show ?case using b by (auto simp: cs_ok_defs idle_chain_def)
next
  case (cs_begin_inline s c leg handle on_cleanup k)
  let ?s = "s\<lparr>cs_chain := c, cs_owner := OBind leg handle\<rparr>"
  note b = cs_ok_began(1) [OF cs_begin_inline(3,1,2), of handle] cs_ok_began(2-) [OF cs_begin_inline(3,1,2)]
  have o: "opened (ch_next c) c (leg_complete ec on_cleanup k c)" by (rule open_effects(3) [OF b(3,2)])
  have "cs_ok (?s\<lparr>cs_chain := leg_complete ec on_cleanup k c, cs_sub := None\<rparr>)"
    by (rule cs_ok_opened [OF b(1), where n = "ch_next c"]) (use o b in \<open>auto simp: opened_def\<close>)
  then show ?case using b(6) by (cases s) simp
next
  case (cs_bind s leg handle)
  then show ?case by (simp add: cs_ok_bound)
next
  case (cs_wait s out)
  then have "cs_ok (s\<lparr>cs_chain := release_legs (cs_chain s), cs_owner := OIdle, cs_outs := cs_outs s @ [out]\<rparr>)"
    by (intro cs_ok_released) (auto simp: chain_wait_def)
  moreover have "s\<lparr>cs_chain := release_legs (cs_chain s), cs_owner := OIdle, cs_outs := cs_outs s @ [out]\<rparr>
      = s\<lparr>cs_chain := release_legs (cs_chain s), cs_outs := cs_outs s @ [out]\<rparr>" using cs_wait(1) by (cases s) simp
  ultimately show ?case by simp
next
  case (cs_park s)
  then have p: "flags_ok s" "work_ok s" "owner_ok s" "cancel_ok s" by (simp_all add: cs_ok_def)
  have "flags_ok (s\<lparr>cs_owner := OParked\<rparr>)" "work_ok (s\<lparr>cs_owner := OParked\<rparr>)" "owner_ok (s\<lparr>cs_owner := OParked\<rparr>)"
    using p(1-3) cs_park(1) by (simp_all add: flags_ok_def work_ok_def owner_ok_def cong: option.case_cong prod.case_cong)
  moreover have "cancel_ok (s\<lparr>cs_owner := OParked\<rparr>)" using p(4) cs_park(1) by (auto simp: cancel_ok_def)
  ultimately show ?case by (simp add: cs_ok_def)
next
  case (cs_ready s)
  let ?s = "s\<lparr>cs_chain := (cs_chain s)\<lparr>ch_setting := False, ch_ready := True\<rparr>\<rparr>"
  have p: "flags_ok s" "work_ok s" "owner_ok s" "cancel_ok s" using cs_ready by (simp_all add: cs_ok_def)
  have "flags_ok ?s" using p(1) cs_ready(1) by (auto simp: flags_ok_def)
  moreover have "work_ok ?s" using p(2) by (simp add: work_ok_def cong: option.case_cong prod.case_cong)
  moreover have "owner_ok ?s" using p(3) by (cases "cs_owner s") (auto simp: owner_ok_def idle_chain_def split: option.splits)
  moreover have "cancel_ok ?s" using p(4) by (simp add: cancel_ok_def cong: if_cong)
  ultimately show ?case by (simp add: cs_ok_def)
next
  case (cs_resume s out)
  then show ?case using cs_ok_released [of s "[out]"] by simp
next
  case (cs_throw s c tail)
  then show ?case by (simp add: cs_ok_thrown)
next
  case (cs_cancel s tail)
  then show ?case by (simp add: cs_ok_cancelled)
next
  case (cs_release s)
  then have "ch_closed (cs_chain s) \<or> ch_completion (cs_chain s) \<noteq> None" by (simp only: cs_ok_def owner_ok_def owner.case)
  with cs_release show ?case using cs_ok_released [of s "[]"] by simp
next
  case (cs_complete s leg on_cleanup k)
  then show ?case by (simp add: cs_ok_completed)
next
  case (cs_follow s leg on_cleanup k2 c next_leg sub)
  then show ?case by (simp add: cs_ok_followed)
next
  case (cs_submit s leg k2 sub c raised_exc)
  then show ?case by (simp add: cs_ok_submitted)
qed

lemma cs_reach_ok: "(cs_step ec)\<^sup>*\<^sup>* cs_start s \<Longrightarrow> cs_ok s"
proof (induction rule: rtranclp_induct)
  case base
  show ?case by (rule cs_ok_start)
next
  case (step s s')
  then show ?case using cs_step_ok by blast
qed

text \<open>A stored completion is the outcome of no later step.\<close>

lemma cs_step_stable:
  assumes "cs_step ec s s'" "cs_ok s" "ch_completion (cs_chain s) = Some out"
  shows "ch_completion (cs_chain s') = Some out"
proof -
  have i: "ch_flying (cs_chain s) = None" "cs_sub s = None" "cs_owner s \<noteq> OStart"
    using assms(2,3) by (auto simp: cs_ok_defs idle_chain_def split: option.splits owner.splits)
  from assms(1) show ?thesis
    by (cases rule: cs_step.cases)
      (use i assms(3) in \<open>auto simp: leg_bind_def release_legs_def chain_wait_throw_def cancel_leg_def post_cancel_def split: option.splits\<close>)
qed

section \<open>Properties\<close>

text \<open>C10: \<open>IOWaitChain\<close>.  Over every interleaving of the owner (waits, interrupts with their cancel and release)
  with the worker that completes and starts the legs: \<open>_complete\<close> answers \<open>True\<close> at most once, for the outcome that
  is stored, no later step changes it and every \<open>wait()\<close> that ends normally gives it; when the hook of the leg in
  flight calls \<open>finish(v)\<close> first, \<open>v\<close> is the outcome whatever the hook does next (another \<open>finish\<close>, an exception, a
  \<open>follow\<close>); the event is set only after a completion is stored, and a stored completion has set it or is about
  to; an interrupted chain starts no further leg; at most one cancel is posted, and once the interrupt has been
  handled the operation still in flight, if any, is the one cancelled.\<close>

theorem chain_one_outcome:
  assumes "(cs_step ec)\<^sup>*\<^sup>* cs_start s"
  shows "(\<forall>out \<in> set (cs_outs s). ch_completion (cs_chain s) = Some out)
    \<and> ch_accepted (cs_chain s) = (case ch_completion (cs_chain s) of None \<Rightarrow> [] | Some out \<Rightarrow> [out])
    \<and> (\<forall>s' out. cs_step ec s s' \<and> ch_completion (cs_chain s) = Some out \<longrightarrow> ch_completion (cs_chain s') = Some out)
    \<and> (\<forall>leg hook v a. ch_flying (cs_chain s) = Some (leg, hook) \<longrightarrow>
         ch_completion (leg_complete ec hook (Succeeded (Finish v a)) ((cs_chain s)\<lparr>ch_flying := None\<rparr>)) = Some (Inr v))
    \<and> (ch_completion (cs_chain s) \<noteq> None \<longleftrightarrow> ch_setting (cs_chain s) \<or> ch_ready (cs_chain s))
    \<and> (ch_closed (cs_chain s) \<longrightarrow> new_leg (cs_chain s) = (cs_chain s, Inl RuntimeErr))
    \<and> length (ch_cancels (cs_chain s)) \<le> 1
    \<and> (\<forall>leg hook. ch_closed (cs_chain s) \<and> ch_flying (cs_chain s) = Some (leg, hook) \<and> (\<forall>t. cs_owner s \<noteq> OThrown t) \<longrightarrow>
         (\<exists>h. ch_cancels (cs_chain s) = [(leg, h)]))"
proof -
  have ok: "cs_ok s" by (rule cs_reach_ok [OF assms])
  then have i: "flags_ok s" "work_ok s" "cancel_ok s" by (simp_all add: cs_ok_def)
  have cancelled: "\<exists>h. ch_cancels (cs_chain s) = [(leg, h)]"
    if h: "ch_closed (cs_chain s)" "ch_flying (cs_chain s) = Some (leg, hook)" "\<forall>t. cs_owner s \<noteq> OThrown t" for leg hook
  proof -
    have "ch_next (cs_chain s) - 1 = leg" using i(2) h(2) by (auto simp: work_ok_def)
    moreover have "ch_cancels (cs_chain s) \<noteq> []" using i(3) h by (auto simp: cancel_ok_def)
    ultimately show ?thesis using i(3) by (auto simp: cancel_ok_def)
  qed
  have finished: "ch_completion (leg_complete ec hook (Succeeded (Finish v a)) ((cs_chain s)\<lparr>ch_flying := None\<rparr>)) = Some (Inr v)"
    if "ch_flying (cs_chain s) = Some (leg, hook)" for leg hook v a
  proof -
    have "ch_completion ((cs_chain s)\<lparr>ch_flying := None\<rparr>) = None" using cs_ok_land(2) [OF ok that] by (simp add: idle_chain_def)
    then show ?thesis by (simp only: leg_complete_finish) simp
  qed
  have cancels: "length (ch_cancels (cs_chain s)) \<le> 1" using i(3) by (auto simp: cancel_ok_def)
  show ?thesis
    using i(1) cs_step_stable [OF _ ok] cancelled finished cancels
    by (intro conjI) (auto simp: flags_ok_def new_leg_def stored_def)
qed

text \<open>The owner starts leg 0 (handle 5), waits and is interrupted; the operation is cancelled while it is
  still flying.\<close>

definition cs_demo :: "(nat, nat) chain_sys" where
  "cs_demo = \<lparr>cs_chain = chain_init\<lparr>ch_closed := True, ch_next := 1, ch_flying := Some (0, None), ch_cancels := [(0, 5)]\<rparr>,
     cs_owner = OIdle, cs_sub = None, cs_outs = []\<rparr>"

lemma cs_demo_reach: "(cs_step 0)\<^sup>*\<^sup>* cs_start cs_demo"
proof -
  let ?c = "chain_init\<lparr>ch_legs := [0], ch_next := 1, ch_flying := Some (0, None)\<rparr> :: (nat, nat) chain"
  let ?c2 = "?c\<lparr>ch_handle := (\<lambda>_. None)(0 := Some 5)\<rparr>"
  let ?s1 = "cs_start\<lparr>cs_chain := ?c, cs_owner := OBind 0 (Some 5)\<rparr>"
  let ?s2 = "cs_start\<lparr>cs_chain := ?c2, cs_owner := OIdle\<rparr>"
  let ?s3 = "cs_start\<lparr>cs_chain := ?c2, cs_owner := OParked\<rparr>"
  let ?s4 = "cs_start\<lparr>cs_chain := ?c2\<lparr>ch_closed := True\<rparr>, cs_owner := OThrown (Some 0)\<rparr>"
  let ?s5 = "cs_start\<lparr>cs_chain := ?c\<lparr>ch_closed := True, ch_cancels := [(0, 5)]\<rparr>, cs_owner := OCancelled\<rparr>"
  have 1: "cs_step 0 cs_start ?s1"
    using cs_begin [of cs_start "chain_init\<lparr>ch_legs := [0], ch_next := 1\<rparr>" 0 0 5 None] by (simp add: cs_start_def new_leg_def chain_init_def)
  have 2: "cs_step 0 ?s1 ?s2" using cs_bind [of ?s1 0 "Some 5" 0] by (simp add: cs_start_def leg_bind_def chain_init_def)
  have 3: "cs_step 0 ?s2 ?s3" using cs_park [of ?s2 0] by (simp add: cs_start_def chain_wait_def chain_init_def)
  have 4: "cs_step 0 ?s3 ?s4"
    using cs_throw [of ?s3 _ _ 0] by (simp add: cs_start_def chain_wait_throw_def chain_init_def)
  have 5: "cs_step 0 ?s4 ?s5"
    using cs_cancel [of ?s4 "Some 0" 0] by (simp add: cs_start_def cancel_leg_def post_cancel_def leg_bind_def chain_init_def fun_upd_idem)
  have 6: "cs_step 0 ?s5 cs_demo"
    using cs_release [of ?s5 0] by (simp add: cs_start_def release_legs_def chain_init_def cs_demo_def cong: if_cong)
  note c = converse_rtranclp_into_rtranclp [of "cs_step 0"]
  show ?thesis by (rule c [OF 1 c [OF 2 c [OF 3 c [OF 4 c [OF 5 r_into_rtranclp [of "cs_step 0", OF 6]]]]]])
qed

theorem chain_one_outcome_witness: "\<exists>h. ch_cancels (cs_chain cs_demo) = [(0, h)]"
  using chain_one_outcome [OF cs_demo_reach] by (simp add: cs_demo_def)

end
