(* ===== verification/Wakeup.thy ===== *)
theory Wakeup
  imports Tealet_Prelude
begin

text \<open>
  The wakeup managers of \<open>tealetio/wakeup.py\<close>: how a signalling thread ends the wait of the thread that drives
  the proactor.  \<open>TokenHandoffWakeupManager\<close> runs under a \<open>threading.Condition\<close>; a call is cut where it sleeps on the
  condition, a sleeping thread goes on only after a \<open>notify_all\<close> (or a timeout of the consumer) and then
  evaluates its predicate again.  \<open>EventWakeupManager\<close> is a \<open>threading.Event\<close>; its wait returns and clears in two
  steps.  The locale \<open>wakeup_manager\<close> is the \<open>WakeupManager\<close> protocol; timing diagnostics are left out.
\<close>

section \<open>The protocol\<close>

datatype wop = Wakeup | Poll

fun run_wops :: "('s \<Rightarrow> 's) \<Rightarrow> ('s \<Rightarrow> 's \<times> bool) \<Rightarrow> wop list \<Rightarrow> 's \<Rightarrow> 's \<times> bool list" where
  "run_wops wakeup poll [] s = (s, [])"
| "run_wops wakeup poll (Wakeup # ops) s = run_wops wakeup poll ops (wakeup s)"
| "run_wops wakeup poll (Poll # ops) s =
     (case poll s of (s1, r) \<Rightarrow> (case run_wops wakeup poll ops s1 of (s2, rs) \<Rightarrow> (s2, r # rs)))"

text \<open>The reference: a poll reports whether there was a wakeup since the last one.\<close>

fun latched :: "bool \<Rightarrow> wop list \<Rightarrow> bool list" where
  "latched b [] = []"
| "latched b (Wakeup # ops) = latched True ops"
| "latched b (Poll # ops) = b # latched False ops"

text \<open>While no thread is blocked in \<open>wait\<close>: a wakeup is latched until a poll consumes it.\<close>

locale wakeup_manager =
  fixes wakeup :: "'s \<Rightarrow> 's" and poll :: "'s \<Rightarrow> 's \<times> bool" and signalled :: "'s \<Rightarrow> bool" and ok :: "'s \<Rightarrow> bool"
  assumes wakeup_ok: "ok s \<Longrightarrow> ok (wakeup s)" and wakeup_latches: "ok s \<Longrightarrow> signalled (wakeup s)"
    and poll_ok: "ok s \<Longrightarrow> ok (fst (poll s))" and poll_reports: "ok s \<Longrightarrow> snd (poll s) = signalled s"
    and poll_consumes: "ok s \<Longrightarrow> \<not> signalled (fst (poll s))"
begin

lemma polls_latched: "ok s \<Longrightarrow> snd (run_wops wakeup poll ops s) = latched (signalled s) ops"
proof (induction ops arbitrary: s)
  case (Cons x ops)
  show ?case
  proof (cases x)
    case Wakeup
    then show ?thesis using Cons.IH [OF wakeup_ok [OF Cons.prems]] wakeup_latches [OF Cons.prems] by simp
  next
    case Poll
    then show ?thesis
      using Cons.IH [OF poll_ok [OF Cons.prems]] poll_reports [OF Cons.prems] poll_consumes [OF Cons.prems]
      by (auto split: prod.split)
  qed
qed simp

end

section \<open>TokenHandoffWakeupManager\<close>

record tokens =
  tk_waiting :: bool
  tk_issued :: nat
  tk_received :: nat

definition tk_init :: tokens where
  "tk_init = \<lparr>tk_waiting = False, tk_issued = 0, tk_received = 0\<rparr>"

text \<open>\<open>wakeup\<close> up to its wait: the state, whether \<open>notify_all\<close> was called, and the token it waits for, if any.\<close>

definition tk_wakeup :: "tokens \<Rightarrow> tokens \<times> bool \<times> nat option" where
  "tk_wakeup s =
     (let s1 = (if tk_issued s = tk_received s then s\<lparr>tk_issued := Suc (tk_issued s)\<rparr> else s);
          notify = (tk_issued s = tk_received s \<and> tk_waiting s)
      in if \<not> tk_waiting s1 then (s1, notify, None) else (s1, notify, Some (tk_issued s1)))"

text \<open>The predicate of the signaller's \<open>wait_for\<close>.\<close>

definition tk_claimed :: "nat \<Rightarrow> tokens \<Rightarrow> bool" where
  "tk_claimed token s = (token \<le> tk_received s)"

text \<open>\<open>wait\<close>: entry, and what it does when the predicate holds (\<open>True\<close>) or the timeout has passed (\<open>False\<close>).\<close>

definition tk_enter :: "tokens \<Rightarrow> tokens" where
  "tk_enter s = s\<lparr>tk_waiting := True\<rparr>"

definition tk_pending :: "tokens \<Rightarrow> bool" where
  "tk_pending s = (tk_received s < tk_issued s)"

definition tk_leave :: "tokens \<Rightarrow> tokens \<times> bool" where
  "tk_leave s =
     (if tk_pending s then (s\<lparr>tk_received := tk_issued s, tk_waiting := False\<rparr>, True)
      else (s\<lparr>tk_waiting := False\<rparr>, False))"

text \<open>An exception that leaves \<open>wait_for\<close> (a \<open>KeyboardInterrupt\<close> in the consumer's thread): the \<open>finally\<close> block only.\<close>

definition tk_wait_throw :: "tokens \<Rightarrow> tokens" where
  "tk_wait_throw s = s\<lparr>tk_waiting := False\<rparr>"

definition tk_poll :: "tokens \<Rightarrow> tokens \<times> bool" where
  "tk_poll s = (if tk_pending s then (s\<lparr>tk_received := tk_issued s\<rparr>, True) else (s, False))"

section \<open>EventWakeupManager\<close>

record event_wakeup =
  ew_set :: bool

definition ew_init :: event_wakeup where
  "ew_init = \<lparr>ew_set = False\<rparr>"

definition ew_wakeup :: "event_wakeup \<Rightarrow> event_wakeup" where
  "ew_wakeup s = s\<lparr>ew_set := True\<rparr>"

definition ew_poll :: "event_wakeup \<Rightarrow> event_wakeup \<times> bool" where
  "ew_poll s = (if ew_set s then (s\<lparr>ew_set := False\<rparr>, True) else (s, False))"

text \<open>\<open>wait\<close> after \<open>Event.wait\<close> returned \<open>woke\<close>.\<close>

definition ew_wait_end :: "bool \<Rightarrow> event_wakeup \<Rightarrow> event_wakeup \<times> bool" where
  "ew_wait_end woke s = ((if woke then s\<lparr>ew_set := False\<rparr> else s), woke)"

interpretation tkm: wakeup_manager "\<lambda>s. fst (tk_wakeup s)" tk_poll tk_pending "\<lambda>s. tk_received s \<le> tk_issued s"
  by unfold_locales (auto simp: tk_wakeup_def tk_poll_def tk_pending_def Let_def)

interpretation ewm: wakeup_manager ew_wakeup ew_poll ew_set "\<lambda>_. True"
  by unfold_locales (auto simp: ew_wakeup_def ew_poll_def)

section \<open>Configuration\<close>

datatype manager_kind = EventKind | TokenKind

definition is_ascii_space :: "char \<Rightarrow> bool" where
  "is_ascii_space c = (c \<in> {CHR '' '', CHR 0x09, CHR 0x0A, CHR 0x0B, CHR 0x0C, CHR 0x0D})"

definition py_strip :: "string \<Rightarrow> string" where
  "py_strip s = rev (dropWhile is_ascii_space (rev (dropWhile is_ascii_space s)))"

definition ascii_lower :: "char \<Rightarrow> char" where
  "ascii_lower c = (let n = of_char c :: nat in if 65 \<le> n \<and> n \<le> 90 then char_of (n + 32) else c)"

text \<open>The argument is the value of the environment variable, if it is set (ASCII text).\<close>

definition create_wakeup_manager :: "string option \<Rightarrow> pyexn + manager_kind" where
  "create_wakeup_manager env =
     (let kind = map ascii_lower (py_strip (case env of None \<Rightarrow> ''event'' | Some v \<Rightarrow> v)) in
      if kind \<in> {''event'', ''''} then Inr EventKind
      else if kind \<in> {''token'', ''handoff'', ''token_handoff''} then Inr TokenKind
      else Inl ValueErr)"

lemma create_wakeup_manager_examples:
  "create_wakeup_manager None = Inr EventKind" "create_wakeup_manager (Some '' Token '') = Inr TokenKind"
  "create_wakeup_manager (Some ''pipe'') = Inl ValueErr"
  by code_simp+

section \<open>Threads\<close>

text \<open>One consumer and any number of signallers on one token manager.  Signallers asleep on the condition and
  those notified since are lists of the tokens they wait for.  The consumer polls only while it is not in
  \<open>wait\<close>.  An exception may end the wait of a signaller or of the consumer; \<open>ty_thrown\<close> records the latter.\<close>

datatype consumer = CIdle | CAsleep | CNotified

record tk_sys =
  ty_mgr :: tokens
  ty_consumer :: consumer
  ty_asleep :: "nat list"
  ty_notified :: "nat list"
  ty_thrown :: bool

definition ty_start :: tk_sys where
  "ty_start = \<lparr>ty_mgr = tk_init, ty_consumer = CIdle, ty_asleep = [], ty_notified = [], ty_thrown = False\<rparr>"

definition ty_notify_all :: "tk_sys \<Rightarrow> tk_sys" where
  "ty_notify_all s = s\<lparr>ty_consumer := (if ty_consumer s = CAsleep then CNotified else ty_consumer s),
     ty_notified := ty_notified s @ ty_asleep s, ty_asleep := []\<rparr>"

inductive ty_step :: "tk_sys \<Rightarrow> tk_sys \<Rightarrow> bool" where
  ty_wakeup: "tk_wakeup (ty_mgr s) = (m, notify, token) \<Longrightarrow> s1 = (if notify then ty_notify_all s else s) \<Longrightarrow>
    ty_step s (s1\<lparr>ty_mgr := m, ty_asleep := ty_asleep s1 @ (case token of None \<Rightarrow> [] | Some t \<Rightarrow> [t])\<rparr>)"
| ty_signaller_done: "ty_notified s = xs @ t # ys \<Longrightarrow> tk_claimed t (ty_mgr s) \<Longrightarrow> ty_step s (s\<lparr>ty_notified := xs @ ys\<rparr>)"
| ty_signaller_sleeps: "ty_notified s = xs @ t # ys \<Longrightarrow> \<not> tk_claimed t (ty_mgr s) \<Longrightarrow>
    ty_step s (s\<lparr>ty_notified := xs @ ys, ty_asleep := ty_asleep s @ [t]\<rparr>)"
| ty_signaller_throw: "ty_asleep s = xs @ t # ys \<Longrightarrow> ty_step s (s\<lparr>ty_asleep := xs @ ys\<rparr>)"
| ty_notified_throw: "ty_notified s = xs @ t # ys \<Longrightarrow> ty_step s (s\<lparr>ty_notified := xs @ ys\<rparr>)"
| ty_wait_now: "ty_consumer s = CIdle \<Longrightarrow> tk_pending (tk_enter (ty_mgr s)) \<Longrightarrow>
    ty_step s (ty_notify_all (s\<lparr>ty_mgr := fst (tk_leave (tk_enter (ty_mgr s)))\<rparr>))"
| ty_wait_sleep: "ty_consumer s = CIdle \<Longrightarrow> \<not> tk_pending (tk_enter (ty_mgr s)) \<Longrightarrow>
    ty_step s (s\<lparr>ty_mgr := tk_enter (ty_mgr s), ty_consumer := CAsleep\<rparr>)"
| ty_consumer_wakes: "ty_consumer s = CNotified \<Longrightarrow> tk_pending (ty_mgr s) \<Longrightarrow>
    ty_step s (ty_notify_all (s\<lparr>ty_mgr := fst (tk_leave (ty_mgr s)), ty_consumer := CIdle\<rparr>))"
| ty_consumer_sleeps: "ty_consumer s = CNotified \<Longrightarrow> \<not> tk_pending (ty_mgr s) \<Longrightarrow> ty_step s (s\<lparr>ty_consumer := CAsleep\<rparr>)"
| ty_timeout: "ty_consumer s \<noteq> CIdle \<Longrightarrow> \<not> tk_pending (ty_mgr s) \<Longrightarrow>
    ty_step s (s\<lparr>ty_mgr := fst (tk_leave (ty_mgr s)), ty_consumer := CIdle\<rparr>)"
| ty_timeout_claims: "ty_consumer s \<noteq> CIdle \<Longrightarrow> tk_pending (ty_mgr s) \<Longrightarrow>
    ty_step s (ty_notify_all (s\<lparr>ty_mgr := fst (tk_leave (ty_mgr s)), ty_consumer := CIdle\<rparr>))"
| ty_throw: "ty_consumer s \<noteq> CIdle \<Longrightarrow>
    ty_step s (s\<lparr>ty_mgr := tk_wait_throw (ty_mgr s), ty_consumer := CIdle, ty_thrown := True\<rparr>)"
| ty_poll: "ty_consumer s = CIdle \<Longrightarrow> ty_step s (s\<lparr>ty_mgr := fst (tk_poll (ty_mgr s))\<rparr>)"

definition ty_ok :: "tk_sys \<Rightarrow> bool" where
  "ty_ok s \<longleftrightarrow> tk_received (ty_mgr s) \<le> tk_issued (ty_mgr s) \<and> tk_issued (ty_mgr s) \<le> Suc (tk_received (ty_mgr s))
     \<and> (tk_waiting (ty_mgr s) \<longleftrightarrow> ty_consumer s \<noteq> CIdle)
     \<and> (ty_consumer s = CAsleep \<longrightarrow> tk_issued (ty_mgr s) = tk_received (ty_mgr s))
     \<and> (\<forall>t \<in> set (ty_asleep s). t \<le> tk_issued (ty_mgr s) \<and> (ty_thrown s \<or> tk_received (ty_mgr s) < t \<and> ty_consumer s = CNotified))
     \<and> (\<forall>t \<in> set (ty_notified s). t \<le> tk_issued (ty_mgr s) \<and> (ty_thrown s \<or> (tk_received (ty_mgr s) < t \<longrightarrow> ty_consumer s = CNotified)))"

lemmas tk_defs = tk_claimed_def tk_pending_def tk_enter_def tk_leave_def tk_poll_def tk_wait_throw_def

lemma ty_step_ok: "ty_step s s' \<Longrightarrow> ty_ok s \<Longrightarrow> ty_ok s'"
proof (induction rule: ty_step.induct)
  case (ty_wakeup s m notify token s1)
  then show ?case
    by (cases "ty_consumer s") (auto simp: ty_ok_def tk_wakeup_def ty_notify_all_def Let_def split: if_splits)
next
  case (ty_timeout s)
  let ?m = "ty_mgr s"
  have e: "tk_received ?m = tk_issued ?m" using ty_timeout(2,3) by (auto simp: ty_ok_def tk_pending_def)
  show ?case using ty_timeout(3) e by (auto simp: ty_ok_def tk_leave_def tk_pending_def)
qed (auto simp: ty_ok_def tk_defs ty_notify_all_def)

lemma ty_reach_ok: "ty_step\<^sup>*\<^sup>* ty_start s \<Longrightarrow> ty_ok s"
proof (induction rule: rtranclp_induct)
  case base
  show ?case by (simp add: ty_ok_def ty_start_def tk_init_def)
next
  case (step s s')
  then show ?case using ty_step_ok by blast
qed

section \<open>Properties\<close>

text \<open>C14: Token hand-over.  Over every interleaving of signallers with the consumer's waits, timeouts, polls and
  exceptions that leave its wait: at most one token is outstanding, and a consumer asleep on the condition has
  nothing to claim (no lost wakeup).  As long as no exception has left the consumer's \<open>wait()\<close>, a signaller asleep on
  the condition waits for a token that the consumer has been notified of and not claimed yet, so none sleeps
  after its token was claimed.  After such an exception an unclaimed token of a sleeping signaller is still
  there to be claimed, by a consumer that is not asleep.\<close>

theorem token_handoff:
  assumes "ty_step\<^sup>*\<^sup>* ty_start s"
  shows "tk_received (ty_mgr s) \<le> tk_issued (ty_mgr s) \<and> tk_issued (ty_mgr s) \<le> Suc (tk_received (ty_mgr s))
    \<and> (ty_consumer s = CAsleep \<longrightarrow> \<not> tk_pending (ty_mgr s))
    \<and> (\<not> ty_thrown s \<longrightarrow> (\<forall>t \<in> set (ty_asleep s). \<not> tk_claimed t (ty_mgr s) \<and> ty_consumer s = CNotified))
    \<and> (\<forall>t \<in> set (ty_asleep s). \<not> tk_claimed t (ty_mgr s) \<longrightarrow> tk_pending (ty_mgr s) \<and> ty_consumer s \<noteq> CAsleep)"
  using ty_reach_ok [OF assms] by (auto simp: ty_ok_def tk_claimed_def tk_pending_def)

text \<open>A consumer asleep, then a signal: the signaller sleeps until the notified consumer claims its token.\<close>

definition ty_demo :: tk_sys where
  "ty_demo = \<lparr>ty_mgr = \<lparr>tk_waiting = True, tk_issued = 1, tk_received = 0\<rparr>, ty_consumer = CNotified, ty_asleep = [1], ty_notified = [], ty_thrown = False\<rparr>"

lemma ty_demo_reach: "ty_step\<^sup>*\<^sup>* ty_start ty_demo"
proof -
  let ?s1 = "ty_start\<lparr>ty_mgr := tk_enter tk_init, ty_consumer := CAsleep\<rparr>"
  have 1: "ty_step ty_start ?s1" using ty_wait_sleep [of ty_start] by (simp add: ty_start_def tk_pending_def tk_enter_def tk_init_def)
  have 2: "ty_step ?s1 ty_demo"
    using ty_wakeup [of ?s1, OF _ refl]
    by (simp add: ty_start_def tk_wakeup_def tk_enter_def tk_init_def ty_notify_all_def ty_demo_def)
  show ?thesis using 1 2 by (meson converse_rtranclp_into_rtranclp rtranclp.rtrancl_refl)
qed

theorem token_handoff_witness: "\<not> tk_claimed 1 (ty_mgr ty_demo) \<and> tk_pending (ty_mgr ty_demo)"
  using token_handoff [OF ty_demo_reach] by (simp add: ty_demo_def)

text \<open>Both managers answer every sequence of wakeups and polls like the reference.\<close>

theorem managers_latch:
  "snd (run_wops (\<lambda>s. fst (tk_wakeup s)) tk_poll ops tk_init) = latched False ops
   \<and> snd (run_wops ew_wakeup ew_poll ops ew_init) = latched False ops"
  using tkm.polls_latched [of tk_init ops] ewm.polls_latched [of ops ew_init]
  by (simp add: tk_init_def tk_pending_def ew_init_def)

text \<open>An exception that leaves the consumer's \<open>wait\<close> leaves the token unclaimed; a \<open>poll\<close> then claims it without a
  \<open>notify_all\<close>, and the signaller sleeps on although its token was claimed.\<close>

theorem poll_strands_signaller:
  "\<exists>s. ty_step\<^sup>*\<^sup>* ty_start s \<and> ty_thrown s \<and> (\<exists>t \<in> set (ty_asleep s). tk_claimed t (ty_mgr s)) \<and> ty_notified s = [] \<and> ty_consumer s = CIdle"
proof -
  let ?s1 = "ty_demo\<lparr>ty_mgr := tk_wait_throw (ty_mgr ty_demo), ty_consumer := CIdle, ty_thrown := True\<rparr>"
  let ?s2 = "?s1\<lparr>ty_mgr := fst (tk_poll (ty_mgr ?s1))\<rparr>"
  have 1: "ty_step ty_demo ?s1" by (rule ty_throw) (simp add: ty_demo_def)
  have 2: "ty_step ?s1 ?s2" by (rule ty_poll) simp
  have "ty_step\<^sup>*\<^sup>* ty_start ?s2" using ty_demo_reach 1 2 by (meson rtranclp.rtrancl_into_rtrancl)
  moreover have "ty_thrown ?s2 \<and> (\<exists>t \<in> set (ty_asleep ?s2). tk_claimed t (ty_mgr ?s2)) \<and> ty_notified ?s2 = [] \<and> ty_consumer ?s2 = CIdle"
    by (simp add: ty_demo_def tk_defs)
  ultimately show ?thesis by blast
qed

end
