(* ===== verification/Drivers.thy ===== *)
theory Drivers
  imports Scheduler_Facts
begin

text \<open>
  The driver loops of \<open>tealetio/scheduler.py\<close>: \<open>arun\<close>, \<open>arun_forever\<close>, \<open>arun_until_complete\<close> (and the blocking
  \<open>run\<close>, \<open>run_forever\<close>, \<open>run_until_complete\<close> made from them), \<open>_idle_or_poll\<close>, \<open>_driving\<close>, \<open>turn\<close> and \<open>stop\<close>, with the
  wait of \<open>BasicScheduler\<close>.  One loop is cut where other threads can act: at the batch, the tests, the check
  for local work, the sleep on the driver's \<open>threading.Event\<close> and its clear.  Other threads queue callbacks
  (\<open>call_soon_threadsafe\<close>) and call \<open>stop()\<close>, each cut between its store and its wake.  Timing counters are left
  out, and the main-tealet context (tealet factory and priority) has no effect on this state.
\<close>

section \<open>Operations\<close>

definition validate_yield_every :: "int option \<Rightarrow> pyexn option" where
  "validate_yield_every yield_every = (case yield_every of None \<Rightarrow> None | Some n \<Rightarrow> if n \<le> 0 then Some ValueErr else None)"

text \<open>\<open>is_current\<close>: this scheduler is the one bound to the thread.\<close>

definition verify_current_scheduler :: "bool \<Rightarrow> world \<Rightarrow> pyexn option" where
  "verify_current_scheduler is_current s = (if \<not> is_current then Some RuntimeErr else if running s then Some RuntimeErr else None)"

definition sched_stop :: "world \<Rightarrow> world" where
  "sched_stop s = (let s1 = s\<lparr>stopping := True\<rparr> in if \<not> in_owner_live_turn s1 then wake_driver s1 else s1)"

definition drive_enter :: "world \<Rightarrow> world" where
  "drive_enter s = s\<lparr>running := True, owner_thread := Some (this_thread s)\<rparr>"

definition drive_exit :: "world \<Rightarrow> world" where
  "drive_exit s = s\<lparr>owner_thread := None, running := False\<rparr>"

text \<open>\<open>BasicScheduler._poll_io\<close>, and \<open>_wait_thread\<close> before and after the sleep.\<close>

definition poll_io :: "world \<Rightarrow> world" where
  "poll_io s = (if wakeup_flag s then s\<lparr>wakeup_flag := False\<rparr> else s)"

definition wait_thread_begin :: "world \<Rightarrow> world \<times> int option" where
  "wait_thread_begin s =
     (case next_timer_deadline s of
        (s1, None) \<Rightarrow> (s1, None)
      | (s1, Some deadline) \<Rightarrow> (s1, Some (delay_until deadline s1)))"

definition wait_thread_end :: "world \<Rightarrow> world" where
  "wait_thread_end s = s\<lparr>wakeup_flag := False\<rparr>"

text \<open>\<open>_idle_or_poll\<close>, up to the sleep: \<open>Some timeout\<close> when it blocks.\<close>

definition idle_or_poll :: "world \<Rightarrow> world \<times> int option option" where
  "idle_or_poll s =
     (if has_local_ready_work s then (poll_io s, None)
      else (case wait_thread_begin s of (s1, timeout) \<Rightarrow> (s1, Some timeout)))"

text \<open>What ends a loop: nothing left to do, \<open>stop()\<close>, or the completion of the target (or \<open>stop()\<close>).\<close>

datatype goal = UntilIdle | Forever | UntilDone "world \<Rightarrow> bool"

definition goal_met :: "goal \<Rightarrow> world \<Rightarrow> bool" where
  "goal_met g s =
     (case g of
        UntilIdle \<Rightarrow> arun_should_terminate s
      | Forever \<Rightarrow> stopping s
      | UntilDone is_done \<Rightarrow> is_done s \<or> stopping s)"

text \<open>Entry checks of the loops and the state they set.\<close>

definition driver_begin :: "goal \<Rightarrow> bool \<Rightarrow> int option \<Rightarrow> world \<Rightarrow> pyexn + world" where
  "driver_begin g is_current yield_every s =
     (case verify_current_scheduler is_current s of
        Some e \<Rightarrow> Inl e
      | None \<Rightarrow>
          (case validate_yield_every yield_every of
             Some e \<Rightarrow> Inl e
           | None \<Rightarrow> Inr (drive_enter (if g = UntilIdle then s else s\<lparr>stopping := False\<rparr>))))"

text \<open>The \<open>finally\<close> block and the code after it.\<close>

definition driver_end :: "goal \<Rightarrow> world \<Rightarrow> world \<times> (pyexn + unit)" where
  "driver_end g s =
     (let s1 = drive_exit s in
      case g of
        UntilIdle \<Rightarrow> (s1, Inr ())
      | Forever \<Rightarrow> (s1\<lparr>stopping := False\<rparr>, Inr ())
      | UntilDone is_done \<Rightarrow>
          (let s2 = s1\<lparr>stopping := False\<rparr> in if \<not> is_done s2 then (s2, Inl RuntimeErr) else (s2, Inr ())))"

definition driver_raise :: "goal \<Rightarrow> world \<Rightarrow> world" where
  "driver_raise g s = (if g = UntilIdle then drive_exit s else (drive_exit s)\<lparr>stopping := False\<rparr>)"

text \<open>\<open>turn\<close>: one slice of a host loop.  \<open>None\<close>: the batch ran out of fuel.\<close>

definition sched_turn :: "(nat \<Rightarrow> unit act) \<Rightarrow> (tid \<Rightarrow> world \<Rightarrow> world \<times> bool) \<Rightarrow> nat \<Rightarrow> bool \<Rightarrow> world \<Rightarrow> (world \<times> (pyexn + int option)) option" where
  "sched_turn ucb body fuel is_current s =
     (case verify_current_scheduler is_current s of
        Some e \<Rightarrow> Some (s, Inl e)
      | None \<Rightarrow>
          (case run_ready_batch ucb body fuel None (poll_io (drive_enter s)) of
             None \<Rightarrow> None
           | Some (s1, Inl e) \<Rightarrow> Some (drive_exit s1, Inl e)
           | Some (s1, Inr transfers) \<Rightarrow>
               (let s2 = (if 0 < transfers \<or> 0 < batch_activity s1 then poll_io s1 else s1) in
                if has_local_ready_work s2 then Some (drive_exit s2, Inr (Some (now s2)))
                else (case next_timer_deadline s2 of (s3, deadline) \<Rightarrow> Some (drive_exit s3, Inr deadline)))))"

section \<open>The loop and the other threads\<close>

datatype dphase = PTop | PBatch | PTest | PIdle | PBlocked "int option" | PClear | PExit | PDone "pyexn + unit"

text \<open>\<open>ds_until\<close> is the instant a blocked wait times out; \<open>ds_wakes\<close> counts calls of other threads between their
  store and their wake.\<close>

record dsys =
  ds_world :: world
  ds_phase :: dphase
  ds_until :: "int option"
  ds_wakes :: nat

text \<open>A wake from thread \<open>other\<close>.\<close>

definition foreign_wake :: "nat \<Rightarrow> world \<Rightarrow> world" where
  "foreign_wake other s = (wake_driver (s\<lparr>this_thread := other\<rparr>))\<lparr>this_thread := this_thread s\<rparr>"

definition batch_limit :: "int option \<Rightarrow> nat option" where
  "batch_limit yield_every = map_option nat yield_every"

inductive d_step :: "(nat \<Rightarrow> unit act) \<Rightarrow> (tid \<Rightarrow> world \<Rightarrow> world \<times> bool) \<Rightarrow> goal \<Rightarrow> int option \<Rightarrow> dsys \<Rightarrow> dsys \<Rightarrow> bool"
  for ucb body g yield_every where
  d_top_exit: "ds_phase s = PTop \<Longrightarrow> goal_met g (ds_world s) \<Longrightarrow> d_step ucb body g yield_every s (s\<lparr>ds_phase := PExit\<rparr>)"
| d_top: "ds_phase s = PTop \<Longrightarrow> \<not> goal_met g (ds_world s) \<Longrightarrow> d_step ucb body g yield_every s (s\<lparr>ds_phase := PBatch\<rparr>)"
| d_batch: "ds_phase s = PBatch \<Longrightarrow> run_ready_batch ucb body fuel (batch_limit yield_every) (ds_world s) = Some (w, Inr n) \<Longrightarrow>
    d_step ucb body g yield_every s (s\<lparr>ds_world := w, ds_phase := PTest\<rparr>)"
| d_batch_raise: "ds_phase s = PBatch \<Longrightarrow> run_ready_batch ucb body fuel (batch_limit yield_every) (ds_world s) = Some (w, Inl e) \<Longrightarrow>
    d_step ucb body g yield_every s (s\<lparr>ds_world := driver_raise g w, ds_phase := PDone (Inl e)\<rparr>)"
| d_test_exit: "ds_phase s = PTest \<Longrightarrow> goal_met g (ds_world s) \<Longrightarrow> d_step ucb body g yield_every s (s\<lparr>ds_phase := PExit\<rparr>)"
| d_test: "ds_phase s = PTest \<Longrightarrow> \<not> goal_met g (ds_world s) \<Longrightarrow> d_step ucb body g yield_every s (s\<lparr>ds_phase := PIdle\<rparr>)"
| d_poll: "ds_phase s = PIdle \<Longrightarrow> idle_or_poll (ds_world s) = (w, None) \<Longrightarrow>
    d_step ucb body g yield_every s (s\<lparr>ds_world := w, ds_phase := PTop\<rparr>)"
| d_block: "ds_phase s = PIdle \<Longrightarrow> idle_or_poll (ds_world s) = (w, Some timeout) \<Longrightarrow>
    d_step ucb body g yield_every s (s\<lparr>ds_world := w, ds_phase := PBlocked timeout, ds_until := map_option (\<lambda>t. now w + t) timeout\<rparr>)"
| d_woken: "ds_phase s = PBlocked timeout \<Longrightarrow> wakeup_flag (ds_world s) \<Longrightarrow> d_step ucb body g yield_every s (s\<lparr>ds_phase := PClear\<rparr>)"
| d_timeout: "ds_phase s = PBlocked timeout \<Longrightarrow> ds_until s = Some t \<Longrightarrow> t \<le> now (ds_world s) \<Longrightarrow>
    d_step ucb body g yield_every s (s\<lparr>ds_phase := PClear\<rparr>)"
| d_clear: "ds_phase s = PClear \<Longrightarrow> d_step ucb body g yield_every s (s\<lparr>ds_world := wait_thread_end (ds_world s), ds_phase := PTop\<rparr>)"
| d_exit: "ds_phase s = PExit \<Longrightarrow> driver_end g (ds_world s) = (w, r) \<Longrightarrow>
    d_step ucb body g yield_every s (s\<lparr>ds_world := w, ds_phase := PDone r\<rparr>)"
| d_foreign_call: "d_step ucb body g yield_every s
    (s\<lparr>ds_world := (ds_world s)\<lparr>ready := ready (ds_world s) @ [cb]\<rparr>, ds_wakes := Suc (ds_wakes s)\<rparr>)"
| d_foreign_stop: "d_step ucb body g yield_every s
    (s\<lparr>ds_world := (ds_world s)\<lparr>stopping := True\<rparr>, ds_wakes := Suc (ds_wakes s)\<rparr>)"
| d_foreign_wake: "0 < ds_wakes s \<Longrightarrow> d_step ucb body g yield_every s
    (s\<lparr>ds_world := foreign_wake other (ds_world s), ds_wakes := ds_wakes s - 1\<rparr>)"
| d_tick: "0 \<le> dt \<Longrightarrow> d_step ucb body g yield_every s (s\<lparr>ds_world := (ds_world s)\<lparr>now := now (ds_world s) + dt\<rparr>\<rparr>)"

definition ds_start :: "world \<Rightarrow> dsys" where
  "ds_start w = \<lparr>ds_world = w, ds_phase = PTop, ds_until = None, ds_wakes = 0\<rparr>"

section \<open>A blocked driver can be woken\<close>

definition alarm :: "dsys \<Rightarrow> bool" where
  "alarm s = (wakeup_flag (ds_world s) \<or> 0 < ds_wakes s)"

definition must_run :: "goal \<Rightarrow> world \<Rightarrow> bool" where
  "must_run g w = (ready w \<noteq> [] \<or> g \<noteq> UntilIdle \<and> stopping w)"

text \<open>The wait is armed no later than the earliest timer that is not cancelled.\<close>

definition timer_armed :: "dsys \<Rightarrow> bool" where
  "timer_armed s =
     (case snd (next_timer_deadline (ds_world s)) of
        None \<Rightarrow> ds_until s = None
      | Some d \<Rightarrow> (\<exists>u. ds_until s = Some u \<and> (u \<le> d \<or> u \<le> now (ds_world s))))"

definition d_ok :: "goal \<Rightarrow> dsys \<Rightarrow> bool" where
  "d_ok g s \<longleftrightarrow>
     (case ds_phase s of
        PIdle \<Rightarrow> g \<noteq> UntilIdle \<and> stopping (ds_world s) \<longrightarrow> alarm s
      | PBlocked t \<Rightarrow> \<not> has_runnable_work (ds_world s) \<and> (must_run g (ds_world s) \<longrightarrow> alarm s) \<and> timer_armed s
      | PDone r \<Rightarrow> \<not> running (ds_world s) \<and> owner_thread (ds_world s) = None
      | _ \<Rightarrow> True)"

lemma foreign_wake_simps [simp]:
  "wakeup_flag (foreign_wake other w)" "ready (foreign_wake other w) = ready w" "stopping (foreign_wake other w) = stopping w"
  "runnable (foreign_wake other w) = runnable w" "timers (foreign_wake other w) = timers w" "handles (foreign_wake other w) = handles w"
  "now (foreign_wake other w) = now w" "running (foreign_wake other w) = running w" "owner_thread (foreign_wake other w) = owner_thread w"
  by (simp_all add: foreign_wake_def wake_driver_def break_wait_def invoke_host_wakeup_def Let_def split: option.split)

lemma deadline_cong: "timers w' = timers w \<Longrightarrow> handles w' = handles w \<Longrightarrow> snd (next_timer_deadline w') = snd (next_timer_deadline w)"
  by (simp add: next_timer_deadline_def Let_def)

lemma drop_cancelled_idem [simp]: "drop_cancelled hs (drop_cancelled hs h) = drop_cancelled hs h"
  by (induction h) simp_all

lemma wait_thread_begin_same:
  "wait_thread_begin w = (w', timeout) \<Longrightarrow> w' = w\<lparr>timers := drop_cancelled (handles w) (timers w)\<rparr>
     \<and> timeout = map_option (\<lambda>d. max 0 (d - now w)) (snd (next_timer_deadline w))"
  by (auto simp: wait_thread_begin_def next_timer_deadline_def delay_until_def Let_def split: option.splits list.splits)

lemma wait_thread_begin_armed:
  assumes "wait_thread_begin w = (w', timeout)"
  shows "timer_armed (s\<lparr>ds_world := w', ds_phase := ph, ds_until := map_option (\<lambda>t. now w' + t) timeout\<rparr>)"
proof -
  note b = wait_thread_begin_same [OF assms]
  have "snd (next_timer_deadline w') = snd (next_timer_deadline w)" using b by (simp add: next_timer_deadline_def Let_def)
  then show ?thesis using b by (cases "snd (next_timer_deadline w)") (auto simp: timer_armed_def max_def)
qed

lemma timer_armed_cong:
  assumes "timer_armed s" "timers (ds_world s') = timers (ds_world s)" "handles (ds_world s') = handles (ds_world s)"
    "now (ds_world s) \<le> now (ds_world s')" "ds_until s' = ds_until s"
  shows "timer_armed s'"
proof -
  have "snd (next_timer_deadline (ds_world s')) = snd (next_timer_deadline (ds_world s))" by (rule deadline_cong [OF assms(2,3)])
  then show ?thesis using assms(1,4,5) by (cases "snd (next_timer_deadline (ds_world s))") (auto simp: timer_armed_def)
qed

text \<open>The steps of the other threads and of the clock.\<close>

lemma d_ok_foreign:
  assumes "d_ok g s" "ds_phase s' = ds_phase s" "ds_until s' = ds_until s" "runnable (ds_world s') = runnable (ds_world s)"
    "timers (ds_world s') = timers (ds_world s)" "handles (ds_world s') = handles (ds_world s)" "now (ds_world s) \<le> now (ds_world s')"
    "running (ds_world s') = running (ds_world s)" "owner_thread (ds_world s') = owner_thread (ds_world s)"
    "alarm s' \<or> alarm s' = alarm s \<and> ready (ds_world s') = ready (ds_world s) \<and> stopping (ds_world s') = stopping (ds_world s)"
  shows "d_ok g s'"
proof (cases "ds_phase s")
  case (PBlocked t)
  then have "timer_armed s" "\<not> has_runnable_work (ds_world s)" "must_run g (ds_world s) \<longrightarrow> alarm s" using assms(1) by (simp_all add: d_ok_def)
  moreover have "timer_armed s'" by (rule timer_armed_cong [OF calculation(1) assms(5-7,3)])
  ultimately show ?thesis
    using PBlocked assms(2,4,10) by (auto simp: d_ok_def has_runnable_work_def must_run_def)
qed (use assms in \<open>auto simp: d_ok_def\<close>)

lemma d_step_ok: "d_step ucb body g y s s' \<Longrightarrow> d_ok g s \<Longrightarrow> d_ok g s'"
proof (induction rule: d_step.induct)
  case (d_block s w timeout)
  have b: "\<not> has_local_ready_work (ds_world s)" "wait_thread_begin (ds_world s) = (w, timeout)"
    using d_block(2) by (auto simp: idle_or_poll_def split: if_splits prod.splits)
  have w: "w = (ds_world s)\<lparr>timers := drop_cancelled (handles (ds_world s)) (timers (ds_world s))\<rparr>"
    using wait_thread_begin_same [OF b(2)] by simp
  have "\<not> has_runnable_work w" "ready w = []" "stopping w = stopping (ds_world s)" "wakeup_flag w = wakeup_flag (ds_world s)"
    using b(1) w by (auto simp: has_local_ready_work_def has_runnable_work_def)
  moreover have "timer_armed (s\<lparr>ds_world := w, ds_phase := PBlocked timeout, ds_until := map_option (\<lambda>t. now w + t) timeout\<rparr>)"
    by (rule wait_thread_begin_armed [OF b(2)])
  ultimately show ?case using d_block(1,3) by (auto simp: d_ok_def must_run_def alarm_def)
next
  case (d_test s)
  then show ?case by (cases g) (auto simp: d_ok_def goal_met_def)
next
  case (d_foreign_call s cb)
  show ?case by (rule d_ok_foreign [OF d_foreign_call(1)]) (simp_all add: alarm_def)
next
  case (d_foreign_stop s)
  show ?case by (rule d_ok_foreign [OF d_foreign_stop(1)]) (simp_all add: alarm_def)
next
  case (d_foreign_wake s other)
  show ?case by (rule d_ok_foreign [OF d_foreign_wake(2)]) (simp_all add: alarm_def)
next
  case (d_tick dt s)
  show ?case by (rule d_ok_foreign [OF d_tick(2)]) (use d_tick(1) in \<open>simp_all add: alarm_def\<close>)
next
  case (d_batch_raise s fuel w e)
  then show ?case by (simp add: d_ok_def driver_raise_def drive_exit_def)
next
  case (d_exit s w r)
  then show ?case by (cases g) (auto simp: d_ok_def driver_end_def drive_exit_def Let_def split: if_splits)
qed (simp_all add: d_ok_def)

lemma d_reach_ok: "(d_step ucb body g y)\<^sup>*\<^sup>* (ds_start w) s \<Longrightarrow> d_ok g s"
proof (induction rule: rtranclp_induct)
  case base
  show ?case by (simp add: ds_start_def d_ok_def)
next
  case (step s s')
  then show ?case using d_step_ok by blast
qed

lemma blocked_wakes_up:
  assumes "ds_phase s = PBlocked t" "alarm s"
  shows "\<exists>s'. (d_step ucb body g y)\<^sup>*\<^sup>* s s' \<and> ds_phase s' = PTop \<and> ready (ds_world s') = ready (ds_world s) \<and> stopping (ds_world s') = stopping (ds_world s)"
proof -
  have go: "\<exists>s'. (d_step ucb body g y)\<^sup>*\<^sup>* s1 s' \<and> ds_phase s' = PTop \<and> ready (ds_world s') = ready (ds_world s1) \<and> stopping (ds_world s') = stopping (ds_world s1)"
    if p: "ds_phase s1 = PBlocked t" and f: "wakeup_flag (ds_world s1)" for s1
  proof -
    let ?s2 = "s1\<lparr>ds_phase := PClear\<rparr>"
    let ?s3 = "?s2\<lparr>ds_world := wait_thread_end (ds_world ?s2), ds_phase := PTop\<rparr>"
    have "d_step ucb body g y s1 ?s2" by (rule d_woken [OF p f])
    moreover have "d_step ucb body g y ?s2 ?s3" by (rule d_clear) simp
    ultimately have "(d_step ucb body g y)\<^sup>*\<^sup>* s1 ?s3" by (meson converse_rtranclp_into_rtranclp r_into_rtranclp)
    then show ?thesis by (intro exI [of _ ?s3]) (simp add: wait_thread_end_def)
  qed
  show ?thesis
  proof (cases "wakeup_flag (ds_world s)")
    case True
    then show ?thesis using go [OF assms(1)] by blast
  next
    case False
    let ?s1 = "s\<lparr>ds_world := foreign_wake 1 (ds_world s), ds_wakes := ds_wakes s - 1\<rparr>"
    have st: "d_step ucb body g y s ?s1" by (rule d_foreign_wake) (use assms(2) False in \<open>simp add: alarm_def\<close>)
    obtain s' where "(d_step ucb body g y)\<^sup>*\<^sup>* ?s1 s'" "ds_phase s' = PTop" "ready (ds_world s') = ready (ds_world ?s1)" "stopping (ds_world s') = stopping (ds_world ?s1)"
      using go [of ?s1] assms(1) by auto
    then show ?thesis using converse_rtranclp_into_rtranclp [of "d_step ucb body g y", OF st] by auto
  qed
qed

section \<open>Properties\<close>

text \<open>C9: The driver does not oversleep.  Over every interleaving of a driver loop (any of the three, any task
  bodies and callbacks) with other threads: while the driver is blocked there is no runnable task, its wait
  is armed no later than the earliest live timer, and a queued callback or a \<open>stop()\<close> has set the wakeup
  event or its caller is about to, so that the driver gets back to the top of its loop with the callbacks
  still queued.  However the loop ends, the scheduler is no longer marked as running.\<close>

theorem driver_no_oversleep:
  assumes "(d_step ucb body g yield_every)\<^sup>*\<^sup>* (ds_start w) s"
  shows "(\<forall>t. ds_phase s = PBlocked t \<longrightarrow>
      \<not> has_runnable_work (ds_world s) \<and> timer_armed s
      \<and> (ready (ds_world s) \<noteq> [] \<or> g \<noteq> UntilIdle \<and> stopping (ds_world s) \<longrightarrow>
          (wakeup_flag (ds_world s) \<or> 0 < ds_wakes s)
          \<and> (\<exists>s'. (d_step ucb body g yield_every)\<^sup>*\<^sup>* s s' \<and> ds_phase s' = PTop
               \<and> ready (ds_world s') = ready (ds_world s) \<and> stopping (ds_world s') = stopping (ds_world s))))
    \<and> (\<forall>r. ds_phase s = PDone r \<longrightarrow> \<not> running (ds_world s) \<and> owner_thread (ds_world s) = None)"
proof -
  have i: "d_ok g s" by (rule d_reach_ok [OF assms])
  show ?thesis
  proof (intro conjI allI impI)
    fix t assume b: "ds_phase s = PBlocked t"
    then show "\<not> has_runnable_work (ds_world s)" "timer_armed s" using i by (simp_all add: d_ok_def)
    assume "ready (ds_world s) \<noteq> [] \<or> g \<noteq> UntilIdle \<and> stopping (ds_world s)"
    then have a: "alarm s" using i b by (simp add: d_ok_def must_run_def)
    then show "wakeup_flag (ds_world s) \<or> 0 < ds_wakes s" by (simp add: alarm_def)
    show "\<exists>s'. (d_step ucb body g yield_every)\<^sup>*\<^sup>* s s' \<and> ds_phase s' = PTop \<and> ready (ds_world s') = ready (ds_world s) \<and> stopping (ds_world s') = stopping (ds_world s)"
      by (rule blocked_wakes_up [OF b a])
  next
    fix r assume "ds_phase s = PDone r"
    then show "\<not> running (ds_world s)" "owner_thread (ds_world s) = None" using i by (simp_all add: d_ok_def)
  qed
qed

text \<open>A driver that found nothing to do sleeps without a timeout; then another thread queues a callback.\<close>

definition blocked_demo :: dsys where
  "blocked_demo = \<lparr>ds_world = idle_world\<lparr>ready := [CbUser 3]\<rparr>, ds_phase = PBlocked None, ds_until = None, ds_wakes = 1\<rparr>"

lemma idle_batch: "run_ready_batch ucb body fuel limit idle_world = Some (idle_world, Inr 0)"
  by (simp add: run_ready_batch_def idle_world_def run_ready_timers_def callback_drain_scope_def run_ready_timers_body_def
      drain_ready_callbacks_def has_runnable_work_def fifo_bool_def fifo_init_def Let_def)

lemma blocked_demo_reach: "(d_step ucb body Forever None)\<^sup>*\<^sup>* (ds_start idle_world) blocked_demo"
proof -
  let ?st = "d_step ucb body Forever None"
  let ?s = "\<lambda>ph. \<lparr>ds_world = idle_world, ds_phase = ph, ds_until = None, ds_wakes = 0\<rparr>"
  have ns: "\<not> goal_met Forever idle_world" by (simp add: goal_met_def idle_world_def)
  have 1: "?st (?s PTop) (?s PBatch)" using d_top [of "?s PTop" Forever ucb body None] ns by simp
  have 2: "?st (?s PBatch) (?s PTest)"
    using d_batch [of "?s PBatch" ucb body 0 None idle_world 0 Forever] idle_batch by (simp add: batch_limit_def)
  have 3: "?st (?s PTest) (?s PIdle)" using d_test [of "?s PTest" Forever ucb body None] ns by simp
  have w: "idle_or_poll idle_world = (idle_world, Some None)"
    by (simp add: idle_or_poll_def wait_thread_begin_def next_timer_deadline_def idle_world_def has_local_ready_work_def has_runnable_work_def fifo_bool_def fifo_init_def)
  have 4: "?st (?s PIdle) (?s (PBlocked None))" using d_block [of "?s PIdle" idle_world None ucb body Forever None] w by simp
  have 5: "?st (?s (PBlocked None)) blocked_demo"
    using d_foreign_call [of ucb body Forever None "?s (PBlocked None)" "CbUser 3"] by (simp add: blocked_demo_def idle_world_def)
  have 0: "ds_start idle_world = ?s PTop" by (simp add: ds_start_def)
  note c = converse_rtranclp_into_rtranclp [of ?st]
  show ?thesis unfolding 0 by (rule c [OF 1 c [OF 2 c [OF 3 c [OF 4 r_into_rtranclp [of ?st, OF 5]]]]])
qed

theorem driver_no_oversleep_witness:
  "\<exists>s'. (d_step (\<lambda>_ s. (s, Inr ())) (\<lambda>_ s. (s, True)) Forever None)\<^sup>*\<^sup>* blocked_demo s' \<and> ds_phase s' = PTop
     \<and> ready (ds_world s') = [CbUser 3]"
proof -
  have "ds_phase blocked_demo = PBlocked None" "ready (ds_world blocked_demo) = [CbUser 3]" by (simp_all add: blocked_demo_def)
  then show ?thesis
    using driver_no_oversleep [OF blocked_demo_reach [of "\<lambda>_ s. (s, Inr ())" "\<lambda>_ s. (s, True)"]] by fastforce
qed

text \<open>What \<open>turn\<close> tells its host.  A \<open>turn\<close> inside a running driver raises and changes nothing; otherwise the
  scheduler is unmarked afterwards, also when the batch raises, and the answer is the current time exactly
  when runnable tasks or queued callbacks remain, and else the deadline of the earliest live timer.\<close>

theorem turn_reports:
  "(running s \<longrightarrow> sched_turn ucb body fuel is_current s = Some (s, Inl RuntimeErr))
   \<and> (\<forall>s' r. \<not> running s \<and> is_current \<and> sched_turn ucb body fuel is_current s = Some (s', r) \<longrightarrow>
        \<not> running s' \<and> owner_thread s' = None
        \<and> (\<forall>answer. r = Inr answer \<longrightarrow>
             answer = (if has_local_ready_work s' then Some (now s') else snd (next_timer_deadline s'))))"
proof (intro conjI allI impI)
  assume "running s"
  then show "sched_turn ucb body fuel is_current s = Some (s, Inl RuntimeErr)" by (simp add: sched_turn_def verify_current_scheduler_def)
next
  have x: "has_local_ready_work (drive_exit w) = has_local_ready_work w" "now (drive_exit w) = now w"
    "snd (next_timer_deadline (drive_exit w)) = snd (next_timer_deadline w)" "\<not> running (drive_exit w)" "owner_thread (drive_exit w) = None" for w
    by (simp_all add: drive_exit_def has_local_ready_work_def has_runnable_work_def next_timer_deadline_def Let_def)
  have y: "has_local_ready_work (fst (next_timer_deadline w)) = has_local_ready_work w"
    "snd (next_timer_deadline (fst (next_timer_deadline w))) = snd (next_timer_deadline w)" for w
    by (simp_all add: has_local_ready_work_def has_runnable_work_def next_timer_deadline_def Let_def)
  fix s' r
  assume a: "\<not> running s \<and> is_current \<and> sched_turn ucb body fuel is_current s = Some (s', r)"
  then obtain s1 res where b: "run_ready_batch ucb body fuel None (poll_io (drive_enter s)) = Some (s1, res)"
    by (auto simp: sched_turn_def verify_current_scheduler_def split: option.splits)
  show "\<not> running s'" "owner_thread s' = None"
    using a b by (auto simp: sched_turn_def verify_current_scheduler_def Let_def x split: sum.splits if_splits prod.splits)
  fix answer
  assume "r = Inr answer"
  then obtain transfers where t: "res = Inr transfers"
    using a b by (auto simp: sched_turn_def verify_current_scheduler_def split: sum.splits)
  let ?s2 = "if 0 < transfers \<or> 0 < batch_activity s1 then poll_io s1 else s1"
  have n: "\<not> running s" is_current and q: "sched_turn ucb body fuel is_current s = Some (s', r)" using a by blast+
  have "sched_turn ucb body fuel is_current s = (if has_local_ready_work ?s2 then Some (drive_exit ?s2, Inr (Some (now ?s2)))
      else Some (drive_exit (fst (next_timer_deadline ?s2)), Inr (snd (next_timer_deadline ?s2))))"
    using n b t by (simp add: sched_turn_def verify_current_scheduler_def Let_def case_prod_beta)
  then have e: "Some (s', r) = (if has_local_ready_work ?s2 then Some (drive_exit ?s2, Inr (Some (now ?s2)))
      else Some (drive_exit (fst (next_timer_deadline ?s2)), Inr (snd (next_timer_deadline ?s2))))" unfolding q .
  show "answer = (if has_local_ready_work s' then Some (now s') else snd (next_timer_deadline s'))"
    using e \<open>r = Inr answer\<close> x y by (cases "has_local_ready_work ?s2") (simp_all only: if_True if_False option.inject prod.inject sum.inject)
qed

theorem turn_reports_witness:
  "\<exists>s'. sched_turn (\<lambda>_ s. (s, Inr ())) (\<lambda>_ s. (s, True)) 0 True (drive_exit idle_world) = Some (s', Inr None)
     \<and> \<not> running s' \<and> None = (if has_local_ready_work s' then Some (now s') else snd (next_timer_deadline s'))"
proof -
  have e: "poll_io (drive_enter (drive_exit idle_world)) = idle_world" "\<not> running (drive_exit idle_world)" "\<not> has_local_ready_work idle_world"
    "next_timer_deadline idle_world = (idle_world, None)" "batch_activity idle_world = 0"
    by (simp_all add: poll_io_def drive_enter_def drive_exit_def idle_world_def has_local_ready_work_def has_runnable_work_def fifo_bool_def fifo_init_def next_timer_deadline_def)
  have "sched_turn (\<lambda>_ s. (s, Inr ())) (\<lambda>_ s. (s, True)) 0 True (drive_exit idle_world) = Some (drive_exit idle_world, Inr None)"
    using e by (simp add: sched_turn_def verify_current_scheduler_def idle_batch)
  then show ?thesis using turn_reports [of "drive_exit idle_world" "\<lambda>_ s. (s, Inr ())" "\<lambda>_ s. (s, True)" 0 True] e(2) by blast
qed

end
