(* ===== verification/Channel.thy ===== *)
theory Channel
  imports Events
begin

text \<open>
  \<open>Channel\<close> of \<open>tealetio/scheduler.py\<close>: an unbuffered rendezvous with one waiter queue whose direction is
  the sign of the balance, over the scheduling core.  A waiter is a task or a \<open>_PacketEvent\<close>; its packet
  \<open>(is_exc, payload)\<close> sits in its \<open>tempval\<close>.  A blocking call is cut where it is suspended: in \<open>_schedule\<close>
  (or in \<open>await waiter.wait()\<close>), or inside \<open>waiter.run()\<close> after the packet has moved.  \<open>here\<close> says whether the
  calling thread is bound to the scheduler that owns the waiters.  An exception leaving a call carries its
  \<open>operation_result\<close> triple.
\<close>

section \<open>Operation results\<close>

type_synonym op_result = "bool \<times> nat option \<times> nat option"

datatype 'a chan_out =
    CRet 'a
  | CRaise pyexn "op_result option"
  | CWait chan_waiter
  | CHandoff packet

text \<open>\<open>_set_received_result\<close>: the triple for a packet that has been taken.\<close>

definition received_result :: "packet \<Rightarrow> op_result" where
  "received_result packet = (if fst packet then (True, None, Some (snd packet)) else (True, Some (snd packet), None))"

text \<open>\<open>Channel.operation_result\<close> on the triples attached to an exception, its \<open>__cause__\<close> and its
  \<open>__context__\<close>.\<close>

definition operation_result :: "op_result option \<Rightarrow> op_result option \<Rightarrow> op_result option \<Rightarrow> op_result option" where
  "operation_result exc cause context_exc =
     (case exc of Some r \<Rightarrow> Some r
      | None \<Rightarrow> (case cause of Some r \<Rightarrow> Some r | None \<Rightarrow> context_exc))"

definition set_preference :: "cid \<Rightarrow> int \<Rightarrow> unit act" where
  "set_preference c value s =
     (if value \<notin> {-1, 0, 1} then (s, Inl ValueErr) else (upd_chan c (\<lambda>ch. ch\<lparr>ch_preference := value\<rparr>) s, Inr ()))"

definition chan_balance :: "cid \<Rightarrow> world \<Rightarrow> int" where
  "chan_balance c s = ch_balance (chans s c)"

definition deliver :: "packet \<Rightarrow> nat chan_out" where
  "deliver packet = (if fst packet then CRaise (UserErr (snd packet)) None else CRet (snd packet))"

section \<open>Waiter bookkeeping\<close>

definition set_tempval :: "chan_waiter \<Rightarrow> packet option \<Rightarrow> world \<Rightarrow> world" where
  "set_tempval w p s = s\<lparr>tempval := (tempval s)(w := p)\<rparr>"

definition pop_tempval :: "chan_waiter \<Rightarrow> world \<Rightarrow> world \<times> packet option" where
  "pop_tempval w s = (set_tempval w None s, tempval s w)"

definition clear_waiter_link :: "chan_waiter \<Rightarrow> world \<Rightarrow> world" where
  "clear_waiter_link w s = (case w of WTask t \<Rightarrow> set_link t None s | WEvent e \<Rightarrow> s)"

definition set_waiter_link :: "cid \<Rightarrow> chan_waiter \<Rightarrow> world \<Rightarrow> world" where
  "set_waiter_link c w s = (case w of WTask t \<Rightarrow> set_link t (Some (ChanLink c)) (set_link t None s) | WEvent e \<Rightarrow> s)"

definition run_on_scheduler :: "bool \<Rightarrow> tid \<Rightarrow> unit act" where
  "run_on_scheduler here t s =
     (if here then make_runnable t s else (call_soon_threadsafe (CbMakeRunnable t) s, Inr ()))"

text \<open>\<open>_wake_sync\<close>: the result tells whether the caller is now suspended inside \<open>waiter.run()\<close>.\<close>

definition wake_sync :: "(nat \<Rightarrow> unit act) \<Rightarrow> bool \<Rightarrow> chan_waiter \<Rightarrow> bool \<Rightarrow> bool act" where
  "wake_sync ucb here w prefer_immediate s =
     (case w of
        WEvent e \<Rightarrow> (case event_set ucb e s of (s1, Inl x) \<Rightarrow> (s1, Inl x) | (s1, Inr _) \<Rightarrow> (s1, Inr False))
      | WTask t \<Rightarrow>
          if prefer_immediate \<and> here
          then (case target_run t s of (s1, Inl x) \<Rightarrow> (s1, Inl x) | (s1, Inr _) \<Rightarrow> (s1, Inr (t \<noteq> current s)))
          else (case run_on_scheduler here t s of (s1, Inl x) \<Rightarrow> (s1, Inl x) | (s1, Inr _) \<Rightarrow> (s1, Inr False)))"

definition link_sender :: "cid \<Rightarrow> chan_waiter \<Rightarrow> packet \<Rightarrow> world \<Rightarrow> world" where
  "link_sender c w packet s =
     set_waiter_link c w
       (upd_chan c (\<lambda>ch. ch\<lparr>ch_waiters := ch_waiters ch @ [w], ch_balance := ch_balance ch + 1\<rparr>) (set_tempval w (Some packet) s))"

definition link_receiver :: "cid \<Rightarrow> chan_waiter \<Rightarrow> world \<Rightarrow> world" where
  "link_receiver c w s =
     set_waiter_link c w
       (upd_chan c (\<lambda>ch. ch\<lparr>ch_waiters := ch_waiters ch @ [w], ch_balance := ch_balance ch - 1\<rparr>) (set_tempval w None s))"

text \<open>\<open>_abort_wait\<close>: the triple it attaches to the exception.\<close>

definition abort_wait :: "cid \<Rightarrow> chan_waiter \<Rightarrow> bool \<Rightarrow> world \<Rightarrow> world \<times> op_result" where
  "abort_wait c w receiving s =
     (case pop_tempval w s of
        (s1, packet) \<Rightarrow>
          (let s2 = chan_unlink_waiter c w s1 in
           case packet of
             None \<Rightarrow> (s2, (\<not> receiving, None, None))
           | Some p \<Rightarrow> if \<not> receiving then (s2, (False, None, None)) else (s2, received_result p)))"

text \<open>The matching half of \<open>send\<close> and \<open>async_send\<close> (\<open>immediate\<close> is false for the latter).\<close>

definition match_receiver :: "(nat \<Rightarrow> unit act) \<Rightarrow> bool \<Rightarrow> cid \<Rightarrow> bool \<Rightarrow> packet \<Rightarrow> world \<Rightarrow> world \<times> unit chan_out" where
  "match_receiver ucb here c immediate packet s =
     (case ch_waiters (chans s c) of
        [] \<Rightarrow> (s, CRaise IndexErr None)
      | receiver # ws \<Rightarrow>
          (let s1 = upd_chan c (\<lambda>ch. ch\<lparr>ch_waiters := ws, ch_balance := ch_balance ch + 1\<rparr>) s;
               s2 = set_tempval receiver (Some packet) (clear_waiter_link receiver s1)
           in case wake_sync ucb here receiver immediate s2 of
                (s3, Inl e) \<Rightarrow> (s3, CRaise e (Some (True, None, None)))
              | (s3, Inr suspended) \<Rightarrow> (s3, if suspended then CHandoff packet else CRet ())))"

definition match_sender :: "(nat \<Rightarrow> unit act) \<Rightarrow> bool \<Rightarrow> cid \<Rightarrow> bool \<Rightarrow> world \<Rightarrow> world \<times> nat chan_out" where
  "match_sender ucb here c immediate s =
     (case ch_waiters (chans s c) of
        [] \<Rightarrow> (s, CRaise IndexErr None)
      | sender # ws \<Rightarrow>
          (let s1 = upd_chan c (\<lambda>ch. ch\<lparr>ch_waiters := ws, ch_balance := ch_balance ch - 1\<rparr>) s
           in case pop_tempval sender s1 of
                (s2, None) \<Rightarrow> (s2, CRaise AssertionErr None)
              | (s2, Some packet) \<Rightarrow>
                  (case wake_sync ucb here sender immediate (clear_waiter_link sender s2) of
                     (s3, Inl e) \<Rightarrow> (s3, CRaise e (Some (received_result packet)))
                   | (s3, Inr suspended) \<Rightarrow> (s3, if suspended then CHandoff packet else deliver packet))))"

text \<open>The parking half: \<open>get_running_scheduler()._schedule(link)\<close> with its \<open>except\<close> block.\<close>

definition chan_park :: "cid \<Rightarrow> bool \<Rightarrow> (world \<Rightarrow> world) \<Rightarrow> world \<Rightarrow> world \<times> 'a chan_out" where
  "chan_park c receiving enlink s =
     (let cur = current s in
      case (if running s then schedule (\<lambda>s. (enlink s, Inr ())) False s else (s, Inl RuntimeErr)) of
        (s1, Inl e) \<Rightarrow> (case abort_wait c (WTask cur) receiving s1 of (s2, r) \<Rightarrow> (s2, CRaise e (Some r)))
      | (s1, Inr _) \<Rightarrow> (s1, CWait (WTask cur)))"

section \<open>Operations\<close>

definition send_packet :: "(nat \<Rightarrow> unit act) \<Rightarrow> bool \<Rightarrow> cid \<Rightarrow> packet \<Rightarrow> world \<Rightarrow> world \<times> unit chan_out" where
  "send_packet ucb here c packet s =
     (if chan_balance c s < 0 then match_receiver ucb here c (ch_preference (chans s c) < 0) packet s
      else chan_park c False (link_sender c (WTask (current s)) packet) s)"

definition chan_send :: "(nat \<Rightarrow> unit act) \<Rightarrow> bool \<Rightarrow> cid \<Rightarrow> nat \<Rightarrow> world \<Rightarrow> world \<times> unit chan_out" where
  "chan_send ucb here c value = send_packet ucb here c (False, value)"

definition send_exception :: "(nat \<Rightarrow> unit act) \<Rightarrow> bool \<Rightarrow> cid \<Rightarrow> nat \<Rightarrow> world \<Rightarrow> world \<times> unit chan_out" where
  "send_exception ucb here c exc = send_packet ucb here c (True, exc)"

definition chan_receive :: "(nat \<Rightarrow> unit act) \<Rightarrow> bool \<Rightarrow> cid \<Rightarrow> world \<Rightarrow> world \<times> nat chan_out" where
  "chan_receive ucb here c s =
     (if chan_balance c s > 0 then match_sender ucb here c (ch_preference (chans s c) > 0) s
      else chan_park c True (link_receiver c (WTask (current s))) s)"

text \<open>The rest of a suspended \<open>receive\<close> or \<open>async_receive\<close>; a suspended send just returns.\<close>

definition receive_resume :: "chan_waiter \<Rightarrow> world \<Rightarrow> world \<times> nat chan_out" where
  "receive_resume w s =
     (case pop_tempval w s of
        (s1, None) \<Rightarrow> (s1, CRaise AssertionErr None)
      | (s1, Some packet) \<Rightarrow> (s1, deliver packet))"

text \<open>An exception thrown into a call that is suspended inside \<open>waiter.run()\<close>.\<close>

definition send_handoff_throw :: op_result where
  "send_handoff_throw = (True, None, None)"

definition receive_handoff_throw :: "packet \<Rightarrow> op_result" where
  "receive_handoff_throw packet = received_result packet"

text \<open>The async operations wait on a fresh \<open>_PacketEvent\<close>; \<open>fut\<close> is the future of its \<open>wait\<close>.\<close>

definition fresh_packet_event :: "world \<Rightarrow> world \<times> eid" where
  "fresh_packet_event s =
     (let e = next_event s
      in (set_tempval (WEvent e) None (upd_event e (\<lambda>_. new_event) (s\<lparr>next_event := Suc e\<rparr>)), e))"

definition async_send :: "(nat \<Rightarrow> unit act) \<Rightarrow> bool \<Rightarrow> cid \<Rightarrow> nat \<Rightarrow> nat \<Rightarrow> world \<Rightarrow> world \<times> unit chan_out" where
  "async_send ucb here c value fut s =
     (if chan_balance c s < 0 then match_receiver ucb here c False (False, value) s
      else (case fresh_packet_event s of
              (s1, e) \<Rightarrow> (case event_wait e fut (link_sender c (WEvent e) (False, value) s1) of
                            (s2, Parked) \<Rightarrow> (s2, CWait (WEvent e)) | (s2, _) \<Rightarrow> (s2, CRet ()))))"

definition async_receive :: "(nat \<Rightarrow> unit act) \<Rightarrow> bool \<Rightarrow> cid \<Rightarrow> nat \<Rightarrow> world \<Rightarrow> world \<times> nat chan_out" where
  "async_receive ucb here c fut s =
     (if chan_balance c s > 0 then match_sender ucb here c False s
      else (case fresh_packet_event s of
              (s1, e) \<Rightarrow> (case event_wait e fut (link_receiver c (WEvent e) s1) of
                            (s2, Parked) \<Rightarrow> (s2, CWait (WEvent e)) | (s2, _) \<Rightarrow> receive_resume (WEvent e) s2)))"

section \<open>The rendezvous invariant\<close>

text \<open>The abstract state of one channel call: not in a call, offering a packet, waiting for one, sent (its
  offer was taken), or got (a packet was stored for it).\<close>

datatype phase = PIdle | POffer packet | PExpect | PSent | PGot packet

fun waiting :: "phase \<Rightarrow> bool" where
  "waiting (POffer p) = True"
| "waiting PExpect = True"
| "waiting _ = False"

fun slot_ok :: "phase \<Rightarrow> packet option \<Rightarrow> bool" where
  "slot_ok PIdle v = True"
| "slot_ok (POffer p) v = (v = Some p)"
| "slot_ok PExpect v = (v = None)"
| "slot_ok PSent v = (v = None)"
| "slot_ok (PGot p) v = (v = Some p)"

definition queue_ok :: "chan \<Rightarrow> (chan_waiter \<Rightarrow> packet option) \<Rightarrow> (chan_waiter \<Rightarrow> phase) \<Rightarrow> bool" where
  "queue_ok ch tv ph \<longleftrightarrow>
     distinct (ch_waiters ch) \<and> (\<forall>w. waiting (ph w) \<longleftrightarrow> w \<in> set (ch_waiters ch))
     \<and> (0 \<le> ch_balance ch \<longrightarrow> ch_balance ch = int (length (ch_waiters ch)) \<and> (\<forall>w \<in> set (ch_waiters ch). \<exists>p. ph w = POffer p))
     \<and> (ch_balance ch < 0 \<longrightarrow> ch_balance ch = - int (length (ch_waiters ch)) \<and> (\<forall>w \<in> set (ch_waiters ch). ph w = PExpect))
     \<and> (\<forall>w. slot_ok (ph w) (tv w))"

definition place_ok :: "cid \<Rightarrow> world \<Rightarrow> (chan_waiter \<Rightarrow> phase) \<Rightarrow> bool" where
  "place_ok c s ph \<longleftrightarrow>
     (\<forall>t. tlink s t = Some (ChanLink c) \<longleftrightarrow> waiting (ph (WTask t)))
     \<and> (\<forall>t. waiting (ph (WTask t)) \<longrightarrow> t \<notin> set (fq_items (runnable s)))
     \<and> (\<forall>e. ph (WEvent e) \<noteq> PIdle \<longrightarrow> e < next_event s \<and> ev_waiters (events s e) = [])
     \<and> (\<forall>r. runner s = Some r \<longrightarrow> ph (WTask r) = PIdle)"

definition cinv :: "cid \<Rightarrow> world \<Rightarrow> (chan_waiter \<Rightarrow> phase) \<Rightarrow> bool" where
  "cinv c s ph \<longleftrightarrow> queue_ok (chans s c) (tempval s) ph \<and> place_ok c s ph"

text \<open>What everything else in the runtime may do between two operations of the channel.\<close>

definition rely :: "cid \<Rightarrow> (chan_waiter \<Rightarrow> phase) \<Rightarrow> world \<Rightarrow> world \<Rightarrow> bool" where
  "rely c ph s s' \<longleftrightarrow>
     chans s' c = chans s c \<and> (\<forall>w. ph w \<noteq> PIdle \<longrightarrow> tempval s' w = tempval s w)
     \<and> (\<forall>t. waiting (ph (WTask t)) \<longrightarrow> tlink s' t = tlink s t)
     \<and> (\<forall>t. tlink s' t = Some (ChanLink c) \<longrightarrow> tlink s t = Some (ChanLink c))
     \<and> (\<forall>t. waiting (ph (WTask t)) \<longrightarrow> t \<notin> set (fq_items (runnable s)) \<longrightarrow> t \<notin> set (fq_items (runnable s')))
     \<and> next_event s \<le> next_event s'
     \<and> (\<forall>e. ph (WEvent e) \<noteq> PIdle \<longrightarrow> ev_waiters (events s e) = [] \<longrightarrow> ev_waiters (events s' e) = [])
     \<and> (\<forall>r. runner s' = Some r \<longrightarrow> runner s = Some r \<or> ph (WTask r) = PIdle)"

lemma cinv_rely:
  assumes "cinv c s ph" and "rely c ph s s'"
  shows "cinv c s' ph"
proof -
  have q: "queue_ok (chans s c) (tempval s) ph" and pl: "place_ok c s ph" using assms(1) by (simp_all add: cinv_def)
  have "slot_ok (ph w) (tempval s' w)" for w
    using q assms(2) by (cases "ph w = PIdle") (simp_all add: queue_ok_def rely_def)
  then have "queue_ok (chans s' c) (tempval s') ph" using q assms(2) by (simp add: queue_ok_def rely_def)
  moreover have "place_ok c s' ph" unfolding place_ok_def
  proof (intro conjI allI impI)
    fix t show "tlink s' t = Some (ChanLink c) \<longleftrightarrow> waiting (ph (WTask t))"
      using pl assms(2) unfolding place_ok_def rely_def by metis
  next
    fix t assume "waiting (ph (WTask t))" then show "t \<notin> set (fq_items (runnable s'))"
      using pl assms(2) unfolding place_ok_def rely_def by blast
  next
    fix e assume "ph (WEvent e) \<noteq> PIdle"
    then show "e < next_event s'" "ev_waiters (events s' e) = []"
      using pl assms(2) unfolding place_ok_def rely_def by (meson less_le_trans, blast)
  next
    fix r assume "runner s' = Some r" then show "ph (WTask r) = PIdle"
      using pl assms(2) unfolding place_ok_def rely_def by blast
  qed
  ultimately show ?thesis by (simp add: cinv_def)
qed

lemma rely_refl [simp]: "rely c ph s s"
  by (simp add: rely_def)

lemma rely_trans: "rely c ph s s1 \<Longrightarrow> rely c ph s1 s2 \<Longrightarrow> rely c ph s s2"
  unfolding rely_def by (intro conjI allI impI) (simp, metis, metis, metis, metis, simp, metis, metis)

section \<open>Scheduling moves\<close>

lemma fifo_add_items: "set (fq_items (fst (fifo_add q t p))) \<subseteq> insert t (set (fq_items q))"
  by (auto simp: fifo_add_def split: option.split)

lemma fifo_discard_items: "set (fq_items (fst (fifo_discard q t))) \<subseteq> set (fq_items q)"
  by (auto simp: fifo_discard_def dest: set_remove1_subset [THEN subsetD])

lemma rely_link_step:
  assumes "chans s' c = chans s c" "tempval s' = tempval s" "next_event s' = next_event s" "runner s' = runner s"
    "\<And>e. ev_waiters (events s e) = [] \<Longrightarrow> ev_waiters (events s' e) = []"
    "tlink s' = (tlink s)(t := l)" "l \<noteq> Some (ChanLink c)" "\<not> waiting (ph (WTask t))"
    "set (fq_items (runnable s')) \<subseteq> insert t (set (fq_items (runnable s)))"
  shows "rely c ph s s'"
  using assms unfolding rely_def by (intro conjI allI impI) (auto split: if_splits)

lemma rely_set_link: "\<not> waiting (ph (WTask t)) \<Longrightarrow> l \<noteq> Some (ChanLink c) \<Longrightarrow> rely c ph s (set_link t l s)"
  by (rule rely_link_step [where t = t and l = l]) auto

lemma rely_make_runnable: "\<not> waiting (ph (WTask t)) \<Longrightarrow> rely c ph s (fst (make_runnable t s))"
  by (cases "fifo_contains (runnable s) t")
    (simp_all add: make_runnable_def Let_def rely_link_step [where t = t and l = "Some RunLink"] fifo_add_items)

lemma rely_make_runnable_next: "\<not> waiting (ph (WTask t)) \<Longrightarrow> rely c ph s (fst (make_runnable_next t s))"
  by (cases "fifo_contains (runnable s) t")
    (simp_all add: make_runnable_next_def rely_link_step [where t = t and l = "Some RunLink"] fifo_add_items)

lemma rely_park_current: "\<not> waiting (ph (WTask (current s))) \<Longrightarrow> rely c ph s (fst (park_current b s))"
  by (simp add: park_current_def Let_def rely_make_runnable rely_make_runnable_next)

lemma link_unlink_other:
  assumes "l \<noteq> ChanLink c"
  shows "chans (link_unlink l t s) c = chans s c" "tempval (link_unlink l t s) = tempval s"
    "next_event (link_unlink l t s) = next_event s" "runner (link_unlink l t s) = runner s"
    "ev_waiters (events s e) = [] \<Longrightarrow> ev_waiters (events (link_unlink l t s) e) = []"
    "set (fq_items (runnable (link_unlink l t s))) \<subseteq> set (fq_items (runnable s))"
    "tlink (link_unlink l t s) = (tlink s)(t := None) \<or> tlink (link_unlink l t s) = tlink s"
    "current (link_unlink l t s) = current s"
  using assms fifo_discard_items [THEN subsetD]
  by (auto simp: link_unlink_def runnable_link_unlink_def event_unlink_def chan_unlink_waiter_def Let_def split: link.split)

lemma rely_task_unlink:
  assumes "\<not> waiting (ph (WTask t))" and "tlink s t \<noteq> Some (ChanLink c)"
  shows "rely c ph s (task_unlink t s)"
proof (cases "tlink s t")
  case None then show ?thesis by (simp add: task_unlink_def rely_def)
next
  case (Some l)
  then have l: "l \<noteq> ChanLink c" using assms(2) by simp
  note u = link_unlink_other [OF l, where t = t and s = s]
  show ?thesis
  proof (cases "tlink (link_unlink l t s) = tlink s")
    case True
    then have "tlink (link_unlink l t s) = (tlink s)(t := tlink s t)" by simp
    then show ?thesis using assms u(1-6) Some
      by (intro rely_link_step [where t = t and l = "tlink s t"]) (auto simp: task_unlink_def Let_def)
  next
    case False
    then have "tlink (link_unlink l t s) = (tlink s)(t := None)" using u(7) by blast
    then show ?thesis using assms u(1-6) Some
      by (intro rely_link_step [where t = t and l = None]) (auto simp: task_unlink_def Let_def)
  qed
qed

lemma rely_upd [simp]:
  "rely c ph s (s\<lparr>current := t, switch_log := l\<rparr>)" "rely c ph s (s\<lparr>inflight := x\<rparr>)"
  "rely c ph s (s\<lparr>current := t, inflight := x, switch_log := l\<rparr>)"
  by (simp_all add: rely_def)

lemma rely_find_target:
  assumes "place_ok c s ph"
  shows "rely c ph s (fst (find_target False explicit s))"
proof (cases "steal_to_runner explicit s")
  case True
  then obtain r where r: "runner s = Some r" by (auto simp: steal_to_runner_def)
  then have idle: "\<not> waiting (ph (WTask r))" "tlink s r \<noteq> Some (ChanLink c)"
    using assms unfolding place_ok_def by (metis waiting.simps(3), metis waiting.simps(3))
  have "rely c ph (task_unlink r s) (set_link r None (task_unlink r s))" using idle(1) by (intro rely_set_link) simp_all
  with rely_task_unlink [where ph = ph and t = r and s = s and c = c, OF idle] have "rely c ph s (set_link r None (task_unlink r s))" by (rule rely_trans)
  then show ?thesis using True r by (simp add: find_target_def Let_def)
next
  case False
  show ?thesis
  proof (cases "fq_items (runnable s)")
    case Nil
    then show ?thesis using False by (simp add: find_target_def has_runnable_work_def fifo_bool_def)
  next
    case (Cons t rest)
    then have "\<not> waiting (ph (WTask t))" using assms unfolding place_ok_def by auto
    then have "rely c ph s (set_link t None (s\<lparr>runnable := fst (fifo_pop_next (runnable s)), n_scheduled := Suc (n_scheduled s)\<rparr>))"
      using Cons by (intro rely_link_step [where t = t and l = None]) (auto simp: fifo_pop_next_def)
    moreover have "snd (fifo_pop_next (runnable s)) = Inr t" using Cons by (simp add: fifo_pop_next_def)
    ultimately show ?thesis
      using False Cons by (simp add: find_target_def has_runnable_work_def fifo_bool_def fifo_pop_next_def)
  qed
qed

lemma rely_switch [simp]: "rely c ph s (tealet_switch t s)"
  by (simp add: tealet_switch_def)

lemma rely_target_run:
  assumes "place_ok c s ph" and "\<not> waiting (ph (WTask t))" and "\<not> waiting (ph (WTask (current s)))"
  shows "rely c ph s (fst (target_run t s))"
proof -
  have u: "rely c ph s (task_unlink t s)"
    using assms(1,2) by (intro rely_task_unlink) (auto simp: place_ok_def)
  have "current (task_unlink t s) = current s"
    by (simp add: task_unlink_def Let_def link_unlink_def runnable_link_unlink_def event_unlink_def chan_unlink_waiter_def
        split: option.split link.split)
  then have "rely c ph (task_unlink t s) (fst (park_current False (task_unlink t s)))"
    using assms(3) by (intro rely_park_current) simp
  then have p: "rely c ph s (fst (park_current False (task_unlink t s)))" by (rule rely_trans [OF u])
  then show ?thesis
    by (auto simp: target_run_def split: prod.split sum.split intro: rely_trans [OF _ rely_switch])
qed

lemma event_set_private:
  assumes "ev_waiters (events s e) = []"
  shows "event_set ucb e s = ((upd_event e (\<lambda>ev. ev\<lparr>ev_is_set := True, ev_waiters := [], ev_async := []\<rparr>) s)
    \<lparr>aio_done := aio_done s \<union> set (ev_async (events s e))\<rparr>, Inr ())"
  using assms by (simp add: event_set_def Let_def)

lemma rely_wake_sync:
  assumes "place_ok c s ph" and "\<not> waiting (ph w)" and "ph w \<noteq> PIdle" and "\<not> waiting (ph (WTask (current s)))"
  shows "rely c ph s (fst (wake_sync ucb here w imm s))"
proof (cases w)
  case (WEvent e)
  then have "ev_waiters (events s e) = []" using assms(1,3) by (simp add: place_ok_def)
  then show ?thesis using WEvent by (simp add: wake_sync_def event_set_private rely_def)
next
  case (WTask t)
  have "rely c ph s (fst (run_on_scheduler here t s))"
    using assms(2) WTask by (simp add: run_on_scheduler_def rely_make_runnable) (simp add: call_soon_threadsafe_def rely_def)
  moreover have "rely c ph s (fst (target_run t s))" using assms WTask by (intro rely_target_run) simp_all
  ultimately show ?thesis using WTask by (auto simp: wake_sync_def split: prod.split sum.split)
qed

section \<open>Channel moves\<close>

lemma queue_ok_enlink_offer:
  assumes "queue_ok ch tv ph" and "ph w = PIdle" and "0 \<le> ch_balance ch"
  shows "queue_ok (ch\<lparr>ch_waiters := ch_waiters ch @ [w], ch_balance := ch_balance ch + 1\<rparr>) (tv(w := Some p)) (ph(w := POffer p))"
proof -
  have "w \<notin> set (ch_waiters ch)" using assms(1,2) unfolding queue_ok_def by (metis waiting.simps(3))
  then show ?thesis using assms by (auto simp: queue_ok_def)
qed

lemma queue_ok_enlink_expect:
  assumes "queue_ok ch tv ph" and "ph w = PIdle" and "ch_balance ch \<le> 0"
  shows "queue_ok (ch\<lparr>ch_waiters := ch_waiters ch @ [w], ch_balance := ch_balance ch - 1\<rparr>) (tv(w := None)) (ph(w := PExpect))"
proof -
  have "w \<notin> set (ch_waiters ch)" using assms(1,2) unfolding queue_ok_def by (metis waiting.simps(3))
  moreover have "ch_balance ch = - int (length (ch_waiters ch))" "\<forall>w \<in> set (ch_waiters ch). ph w = PExpect"
    using assms(1,3) by (cases "ch_balance ch = 0"; simp add: queue_ok_def)+
  ultimately show ?thesis using assms(1) by (auto simp: queue_ok_def)
qed

lemma queue_ok_take:
  assumes "queue_ok ch tv ph" and "ch_waiters ch = w # ws" and "slot_ok p v" and "\<not> waiting p"
  shows "ch_balance ch < 0 \<Longrightarrow> queue_ok (ch\<lparr>ch_waiters := ws, ch_balance := ch_balance ch + 1\<rparr>) (tv(w := v)) (ph(w := p))"
    and "0 < ch_balance ch \<Longrightarrow> queue_ok (ch\<lparr>ch_waiters := ws, ch_balance := ch_balance ch - 1\<rparr>) (tv(w := v)) (ph(w := p))"
proof -
  have w: "w \<notin> set ws" "distinct ws" "\<And>x. waiting ((ph(w := p)) x) \<longleftrightarrow> x \<in> set ws"
    "\<And>x. slot_ok ((ph(w := p)) x) ((tv(w := v)) x)"
    using assms by (auto simp: queue_ok_def)
  show "queue_ok (ch\<lparr>ch_waiters := ws, ch_balance := ch_balance ch + 1\<rparr>) (tv(w := v)) (ph(w := p))" if b: "ch_balance ch < 0"
  proof -
    have "ch_balance ch = - int (length (w # ws))" "\<forall>x \<in> set ws. ph x = PExpect"
      using assms(1,2) b by (simp_all add: queue_ok_def)
    with w assms(2) show ?thesis by (auto simp: queue_ok_def)
  qed
  show "queue_ok (ch\<lparr>ch_waiters := ws, ch_balance := ch_balance ch - 1\<rparr>) (tv(w := v)) (ph(w := p))" if b: "0 < ch_balance ch"
  proof -
    have "ch_balance ch = int (length (w # ws))" "\<forall>x \<in> set ws. \<exists>q. ph x = POffer q"
      using assms(1,2) b by (simp_all add: queue_ok_def)
    with w assms(2) show ?thesis by (auto simp: queue_ok_def)
  qed
qed

lemma queue_ok_remove:
  assumes "queue_ok ch tv ph" and "w \<in> set (ch_waiters ch)"
  shows "queue_ok (ch\<lparr>ch_waiters := remove1 w (ch_waiters ch),
    ch_balance := (if ch_balance ch > 0 then ch_balance ch - 1 else if ch_balance ch < 0 then ch_balance ch + 1 else ch_balance ch)\<rparr>)
    tv (ph(w := PIdle))"
proof -
  have l: "0 < length (ch_waiters ch)" using assms(2) by (rule length_pos_if_in_set)
  have d: "distinct (ch_waiters ch)" using assms(1) by (simp add: queue_ok_def)
  have w: "set (remove1 w (ch_waiters ch)) = set (ch_waiters ch) - {w}" "distinct (remove1 w (ch_waiters ch))"
    "int (length (remove1 w (ch_waiters ch))) = int (length (ch_waiters ch)) - 1"
    using assms(2) d l by (simp_all add: set_remove1_eq length_remove1 of_nat_diff Suc_le_eq)
  have "\<And>x. waiting ((ph(w := PIdle)) x) \<longleftrightarrow> x \<in> set (ch_waiters ch) - {w}" "\<And>x. slot_ok ((ph(w := PIdle)) x) (tv x)"
    using assms by (auto simp: queue_ok_def)
  note f = this
  consider (pos) "0 < ch_balance ch" "ch_balance ch = int (length (ch_waiters ch))" "\<forall>x \<in> set (ch_waiters ch). \<exists>p. ph x = POffer p"
    | (neg) "ch_balance ch < 0" "ch_balance ch = - int (length (ch_waiters ch))" "\<forall>x \<in> set (ch_waiters ch). ph x = PExpect"
    using assms(1) l unfolding queue_ok_def by (metis of_nat_0_less_iff not_less)
  then show ?thesis
  proof cases
    case pos
    then have "\<forall>x \<in> set (ch_waiters ch) - {w}. \<exists>p. (ph(w := PIdle)) x = POffer p" by simp
    with f w l pos(1,2) show ?thesis unfolding queue_ok_def by simp
  next
    case neg
    have one: "\<And>x. length (ch_waiters ch) \<le> Suc 0 \<Longrightarrow> x \<in> set (ch_waiters ch) \<Longrightarrow> x = w"
      using assms(2) by (cases "ch_waiters ch") auto
    have "\<forall>x \<in> set (ch_waiters ch) - {w}. (ph(w := PIdle)) x = PExpect" using neg(3) by simp
    moreover have "0 \<le> ch_balance ch + 1 \<Longrightarrow> set (ch_waiters ch) - {w} = {} \<and> ch_balance ch = - 1"
      using neg(1,2) one l by (auto simp: le_Suc_eq)
    ultimately show ?thesis using f w neg(1,2) unfolding queue_ok_def by auto
  qed
qed

lemma set_tempval_simps [simp]:
  "tempval (set_tempval w v s) = (tempval s)(w := v)" "chans (set_tempval w v s) = chans s"
  "tlink (set_tempval w v s) = tlink s" "runnable (set_tempval w v s) = runnable s" "events (set_tempval w v s) = events s"
  "next_event (set_tempval w v s) = next_event s" "runner (set_tempval w v s) = runner s" "current (set_tempval w v s) = current s"
  by (simp_all add: set_tempval_def)

lemma place_ok_waiting:
  assumes "place_ok c s ph" and "ph w = PIdle" and "\<And>t. w = WTask t \<Longrightarrow> t \<notin> set (fq_items (runnable s)) \<and> runner s \<noteq> Some t"
    and "\<And>e. w = WEvent e \<Longrightarrow> e < next_event s \<and> ev_waiters (events s e) = []" and "waiting p"
    and "tlink s' = (case w of WTask t \<Rightarrow> (tlink s)(t := Some (ChanLink c)) | WEvent e \<Rightarrow> tlink s)"
    and "runnable s' = runnable s" "events s' = events s" "next_event s' = next_event s" "runner s' = runner s"
  shows "place_ok c s' (ph(w := p))"
proof (cases w)
  case (WTask t) then show ?thesis using assms by (auto simp: place_ok_def)
next
  case (WEvent e) then show ?thesis using assms by (auto simp: place_ok_def)
qed

lemma place_ok_woken:
  assumes "place_ok c s ph" and "ph w \<noteq> PIdle" and "\<not> waiting p" and "tlink s' = tlink (clear_waiter_link w s)"
    and "runnable s' = runnable s" "events s' = events s" "next_event s' = next_event s" "runner s' = runner s"
  shows "place_ok c s' (ph(w := p))"
  using assms by (cases w) (auto simp: place_ok_def clear_waiter_link_def)

lemma clear_waiter_link_simps [simp]:
  "chans (clear_waiter_link w s) = chans s" "tempval (clear_waiter_link w s) = tempval s"
  "runnable (clear_waiter_link w s) = runnable s" "events (clear_waiter_link w s) = events s"
  "next_event (clear_waiter_link w s) = next_event s" "runner (clear_waiter_link w s) = runner s"
  "current (clear_waiter_link w s) = current s"
  "tlink (clear_waiter_link w (upd_chan c f s)) = tlink (clear_waiter_link w s)"
  "tlink (clear_waiter_link w (set_tempval w' v s)) = tlink (clear_waiter_link w s)"
  by (simp_all add: clear_waiter_link_def split: chan_waiter.split)

lemma set_waiter_link_simps [simp]:
  "chans (set_waiter_link c w s) = chans s" "tempval (set_waiter_link c w s) = tempval s"
  "runnable (set_waiter_link c w s) = runnable s" "events (set_waiter_link c w s) = events s"
  "next_event (set_waiter_link c w s) = next_event s" "runner (set_waiter_link c w s) = runner s"
  "current (set_waiter_link c w s) = current s"
  "tlink (set_waiter_link c w s) = (case w of WTask t \<Rightarrow> (tlink s)(t := Some (ChanLink c)) | WEvent e \<Rightarrow> tlink s)"
  by (simp_all add: set_waiter_link_def split: chan_waiter.split)

text \<open>Joining the queue, as a sender or as a receiver.\<close>

lemma cinv_link_sender:
  assumes "cinv c s ph" and "ph w = PIdle" and "0 \<le> chan_balance c s"
    and "\<And>t. w = WTask t \<Longrightarrow> t \<notin> set (fq_items (runnable s)) \<and> runner s \<noteq> Some t"
    and "\<And>e. w = WEvent e \<Longrightarrow> e < next_event s \<and> ev_waiters (events s e) = []"
  shows "cinv c (link_sender c w p s) (ph(w := POffer p))"
proof -
  have "queue_ok (chans (link_sender c w p s) c) (tempval (link_sender c w p s)) (ph(w := POffer p))"
    using assms(1-3) queue_ok_enlink_offer [of "chans s c" "tempval s" ph w p]
    by (simp add: cinv_def link_sender_def chan_balance_def)
  moreover have "place_ok c (link_sender c w p s) (ph(w := POffer p))"
    using assms by (intro place_ok_waiting [of c s]) (auto simp: cinv_def link_sender_def split: chan_waiter.split)
  ultimately show ?thesis by (simp add: cinv_def)
qed

lemma cinv_link_receiver:
  assumes "cinv c s ph" and "ph w = PIdle" and "chan_balance c s \<le> 0"
    and "\<And>t. w = WTask t \<Longrightarrow> t \<notin> set (fq_items (runnable s)) \<and> runner s \<noteq> Some t"
    and "\<And>e. w = WEvent e \<Longrightarrow> e < next_event s \<and> ev_waiters (events s e) = []"
  shows "cinv c (link_receiver c w s) (ph(w := PExpect))"
proof -
  have "queue_ok (chans (link_receiver c w s) c) (tempval (link_receiver c w s)) (ph(w := PExpect))"
    using assms(1-3) queue_ok_enlink_expect [of "chans s c" "tempval s" ph w]
    by (simp add: cinv_def link_receiver_def chan_balance_def)
  moreover have "place_ok c (link_receiver c w s) (ph(w := PExpect))"
    using assms by (intro place_ok_waiting [of c s]) (auto simp: cinv_def link_receiver_def split: chan_waiter.split)
  ultimately show ?thesis by (simp add: cinv_def)
qed

text \<open>Leaving the queue.\<close>

lemma cinv_unlink:
  assumes "cinv c s ph" and "waiting (ph w)"
  shows "cinv c (chan_unlink_waiter c w s) (ph(w := PIdle))"
proof -
  have w: "w \<in> set (ch_waiters (chans s c))" using assms by (simp add: cinv_def queue_ok_def)
  have "queue_ok (chans (chan_unlink_waiter c w s) c) (tempval (chan_unlink_waiter c w s)) (ph(w := PIdle))"
    using assms(1) w queue_ok_remove [of "chans s c" "tempval s" ph w]
    by (auto simp: cinv_def chan_unlink_waiter_def Let_def split: chan_waiter.split)
  moreover have "place_ok c (chan_unlink_waiter c w s) (ph(w := PIdle))"
    using assms w by (intro place_ok_woken [of c s])
      (auto simp: cinv_def chan_unlink_waiter_def clear_waiter_link_def Let_def split: chan_waiter.split)
  ultimately show ?thesis by (simp add: cinv_def)
qed

lemma cinv_not_waiting: "cinv c s ph \<Longrightarrow> \<not> waiting (ph w) \<Longrightarrow> w \<notin> set (ch_waiters (chans s c))"
  unfolding cinv_def queue_ok_def by blast

lemma cinv_idle:
  assumes "cinv c s ph" and "\<not> waiting (ph w)"
  shows "cinv c s (ph(w := PIdle))"
  using assms by (cases w) (auto simp: cinv_def queue_ok_def place_ok_def)

lemma unlink_absent:
  "w \<notin> set (ch_waiters (chans s c)) \<Longrightarrow> chan_unlink_waiter c w s = clear_waiter_link w s"
  by (simp add: chan_unlink_waiter_def clear_waiter_link_def Let_def split: chan_waiter.split)

lemma unlink_set_tempval: "chan_unlink_waiter c w (set_tempval w v s) = set_tempval w v (chan_unlink_waiter c w s)"
  by (simp add: chan_unlink_waiter_def set_tempval_def set_link_def upd_chan_def Let_def split: chan_waiter.split)

lemma rely_set_tempval: "ph w = PIdle \<Longrightarrow> rely c ph s (set_tempval w v s)"
  by (simp add: rely_def)

lemma cinv_abort:
  assumes "cinv c s ph"
  shows "cinv c (fst (abort_wait c w receiving s)) (ph(w := PIdle))"
proof -
  have a: "fst (abort_wait c w receiving s) = set_tempval w None (chan_unlink_waiter c w s)"
    by (simp add: abort_wait_def pop_tempval_def unlink_set_tempval Let_def split: option.split)
  have "cinv c (chan_unlink_waiter c w s) (ph(w := PIdle))"
  proof (cases "waiting (ph w)")
    case True then show ?thesis using assms by (intro cinv_unlink)
  next
    case False
    then have "w \<notin> set (ch_waiters (chans s c))" using assms by (simp add: cinv_def queue_ok_def)
    then have u: "chan_unlink_waiter c w s = clear_waiter_link w s" by (rule unlink_absent)
    have "rely c (ph(w := PIdle)) s (clear_waiter_link w s)"
      by (cases w) (simp_all add: clear_waiter_link_def rely_set_link)
    with cinv_idle [OF assms False] show ?thesis unfolding u by (rule cinv_rely)
  qed
  then show ?thesis unfolding a by (rule cinv_rely) (simp add: rely_set_tempval)
qed

lemma abort_report: "snd (abort_wait c w receiving s) =
  (case tempval s w of None \<Rightarrow> (\<not> receiving, None, None)
   | Some p \<Rightarrow> if receiving then received_result p else (False, None, None))"
  by (simp add: abort_wait_def pop_tempval_def Let_def split: option.split)

lemma match_receiver_ok:
  assumes "cinv c s ph" and "chan_balance c s < 0" and "\<not> waiting (ph (WTask (current s)))"
    and "match_receiver ucb here c imm p s = (s', out)"
  shows "cinv c s' (ph(hd (ch_waiters (chans s c)) := PGot p))"
    and "out = CRet () \<or> out = CHandoff p \<or> (\<exists>e. out = CRaise e (Some (True, None, None)))"
    and "ch_waiters (chans s' c) = tl (ch_waiters (chans s c))"
proof -
  obtain r ws where r: "ch_waiters (chans s c) = r # ws"
    using assms(1,2) by (cases "ch_waiters (chans s c)") (auto simp: cinv_def queue_ok_def chan_balance_def)
  then have e: "ph r = PExpect" using assms(1,2) by (simp add: cinv_def queue_ok_def chan_balance_def)
  let ?s1 = "upd_chan c (\<lambda>ch. ch\<lparr>ch_waiters := ws, ch_balance := ch_balance ch + 1\<rparr>) s"
  let ?s2 = "set_tempval r (Some p) (clear_waiter_link r ?s1)" and ?ph = "ph(r := PGot p)"
  have q: "queue_ok (chans ?s2 c) (tempval ?s2) ?ph"
    using queue_ok_take(1) [of "chans s c" "tempval s" ph r ws "PGot p" "Some p"] assms(1,2) r
    by (simp add: cinv_def chan_balance_def)
  have pl: "place_ok c ?s2 ?ph" using assms(1) e by (intro place_ok_woken [of c s]) (auto simp: cinv_def)
  have rl: "rely c ?ph ?s2 (fst (wake_sync ucb here r imm ?s2))"
    using pl e assms(3) by (intro rely_wake_sync) auto
  then have ws: "ch_waiters (chans (fst (wake_sync ucb here r imm ?s2)) c) = ws" by (simp add: rely_def)
  note rl
  moreover have "cinv c ?s2 ?ph" unfolding cinv_def using q pl by blast
  ultimately have "cinv c (fst (wake_sync ucb here r imm ?s2)) ?ph" by (rule cinv_rely [rotated])
  then show "cinv c s' (ph(hd (ch_waiters (chans s c)) := PGot p))"
    using assms(4) r by (auto simp: match_receiver_def Let_def split: prod.splits sum.splits)
  show "out = CRet () \<or> out = CHandoff p \<or> (\<exists>e. out = CRaise e (Some (True, None, None)))"
    using assms(4) r by (auto simp: match_receiver_def Let_def split: prod.splits sum.splits if_splits)
  show "ch_waiters (chans s' c) = tl (ch_waiters (chans s c))"
    using assms(4) r ws by (auto simp: match_receiver_def Let_def split: prod.splits sum.splits)
qed

lemma match_sender_ok:
  assumes "cinv c s ph" and "chan_balance c s > 0" and "\<not> waiting (ph (WTask (current s)))"
    and "match_sender ucb here c imm s = (s', out)"
  obtains p where "ph (hd (ch_waiters (chans s c))) = POffer p" and "cinv c s' (ph(hd (ch_waiters (chans s c)) := PSent))"
    and "out = deliver p \<or> out = CHandoff p \<or> (\<exists>e. out = CRaise e (Some (received_result p)))"
    and "ch_waiters (chans s' c) = tl (ch_waiters (chans s c))"
proof -
  obtain r ws where r: "ch_waiters (chans s c) = r # ws"
    using assms(1,2) by (cases "ch_waiters (chans s c)") (auto simp: cinv_def queue_ok_def chan_balance_def)
  then obtain p where e: "ph r = POffer p" using assms(1,2) unfolding cinv_def queue_ok_def chan_balance_def
    by (metis less_imp_le list.set_intros(1))
  have t: "tempval s r = Some p" using assms(1) e unfolding cinv_def queue_ok_def by (metis slot_ok.simps(2))
  let ?s1 = "upd_chan c (\<lambda>ch. ch\<lparr>ch_waiters := ws, ch_balance := ch_balance ch - 1\<rparr>) s"
  let ?s2 = "clear_waiter_link r (set_tempval r None ?s1)" and ?ph = "ph(r := PSent)"
  have q: "queue_ok (chans ?s2 c) (tempval ?s2) ?ph"
    using queue_ok_take(2) [of "chans s c" "tempval s" ph r ws PSent None] assms(1,2) r
    by (simp add: cinv_def chan_balance_def)
  have pl: "place_ok c ?s2 ?ph" using assms(1) e by (intro place_ok_woken [of c s]) (auto simp: cinv_def)
  have rl: "rely c ?ph ?s2 (fst (wake_sync ucb here r imm ?s2))"
    using pl e assms(3) by (intro rely_wake_sync) auto
  then have ws: "ch_waiters (chans (fst (wake_sync ucb here r imm ?s2)) c) = ws" by (simp add: rely_def)
  note rl
  moreover have "cinv c ?s2 ?ph" unfolding cinv_def using q pl by blast
  ultimately have "cinv c (fst (wake_sync ucb here r imm ?s2)) ?ph" by (rule cinv_rely [rotated])
  then have "cinv c s' ?ph"
    using assms(4) r t by (auto simp: match_sender_def pop_tempval_def Let_def split: prod.splits sum.splits)
  moreover have "out = deliver p \<or> out = CHandoff p \<or> (\<exists>e. out = CRaise e (Some (received_result p)))"
    using assms(4) r t by (auto simp: match_sender_def pop_tempval_def Let_def split: prod.splits sum.splits if_splits)
  moreover have "ch_waiters (chans s' c) = tl (ch_waiters (chans s c))"
    using assms(4) r t ws by (auto simp: match_sender_def pop_tempval_def Let_def split: prod.splits sum.splits)
  ultimately show thesis using that e r by simp
qed

lemma chan_park_ok:
  assumes "cinv c s ph" and "ph (WTask (current s)) = PIdle"
    and "cinv c (enlink s) (ph(WTask (current s) := p))" and "chan_park c receiving enlink s = (s', out)"
  shows "out = CWait (WTask (current s)) \<and> cinv c s' (ph(WTask (current s) := p))
    \<or> (\<exists>e r. out = CRaise e (Some r)) \<and> cinv c s' ph"
proof (cases "running s")
  case False
  then show ?thesis using assms(4) cinv_abort [OF assms(1), of "WTask (current s)" receiving] assms(2)
    by (auto simp: chan_park_def Let_def fun_upd_idem split: prod.splits)
next
  case True
  let ?s1 = "fst (find_target False False (enlink s))" and ?ph = "ph(WTask (current s) := p)"
  have i: "cinv c ?s1 ?ph"
    by (rule cinv_rely [OF assms(3) rely_find_target]) (use assms(3) in \<open>unfold cinv_def, blast\<close>)
  show ?thesis
  proof (cases "snd (find_target False False (enlink s))")
    case (Inl e)
    then have "schedule (\<lambda>s. (enlink s, Inr ())) False s = (?s1, Inl e)"
      by (cases "find_target False False (enlink s)") (simp add: schedule_def)
    then show ?thesis using assms(2,4) True cinv_abort [OF i, of "WTask (current s)" receiving]
      by (auto simp: chan_park_def Let_def fun_upd_idem split: prod.splits)
  next
    case (Inr t)
    then have "schedule (\<lambda>s. (enlink s, Inr ())) False s = (tealet_switch t ?s1, Inr ())"
      by (cases "find_target False False (enlink s)") (simp add: schedule_def)
    then show ?thesis using assms(4) True cinv_rely [OF i rely_switch]
      by (auto simp: chan_park_def Let_def split: prod.splits)
  qed
qed

section \<open>All interleavings\<close>

text \<open>How a call moves the phases: a matching call serves the head of the queue, any other call that parks
  joins it.\<close>

definition after_send :: "cid \<Rightarrow> world \<Rightarrow> packet \<Rightarrow> 'a chan_out \<Rightarrow> (chan_waiter \<Rightarrow> phase) \<Rightarrow> chan_waiter \<Rightarrow> phase" where
  "after_send c s p out ph =
     (if chan_balance c s < 0 then ph(hd (ch_waiters (chans s c)) := PGot p)
      else (case out of CWait w \<Rightarrow> ph(w := POffer p) | _ \<Rightarrow> ph))"

definition after_receive :: "cid \<Rightarrow> world \<Rightarrow> 'a chan_out \<Rightarrow> (chan_waiter \<Rightarrow> phase) \<Rightarrow> chan_waiter \<Rightarrow> phase" where
  "after_receive c s out ph =
     (if chan_balance c s > 0 then ph(hd (ch_waiters (chans s c)) := PSent)
      else (case out of CWait w \<Rightarrow> ph(w := PExpect) | _ \<Rightarrow> ph))"

fun receiving_phase :: "phase \<Rightarrow> bool" where
  "receiving_phase PExpect = True"
| "receiving_phase (PGot p) = True"
| "receiving_phase _ = False"

text \<open>The caller is a task in no channel call, not queued and not the driver.\<close>

definition caller_ok :: "world \<Rightarrow> (chan_waiter \<Rightarrow> phase) \<Rightarrow> bool" where
  "caller_ok s ph \<longleftrightarrow> ph (WTask (current s)) = PIdle \<and> current s \<notin> set (fq_items (runnable s)) \<and> runner s \<noteq> Some (current s)"

inductive ch_step ::
  "(nat \<Rightarrow> unit act) \<Rightarrow> cid \<Rightarrow> world \<times> (chan_waiter \<Rightarrow> phase) \<Rightarrow> world \<times> (chan_waiter \<Rightarrow> phase) \<Rightarrow> bool"
  for ucb :: "nat \<Rightarrow> unit act" and c :: cid where
  h_send: "caller_ok s ph \<Longrightarrow> send_packet ucb here c p s = (s', out) \<Longrightarrow> ch_step ucb c (s, ph) (s', after_send c s p out ph)"
| h_receive: "caller_ok s ph \<Longrightarrow> chan_receive ucb here c s = (s', out) \<Longrightarrow> ch_step ucb c (s, ph) (s', after_receive c s out ph)"
| h_async_send: "\<not> waiting (ph (WTask (current s))) \<Longrightarrow> async_send ucb here c v fut s = (s', out) \<Longrightarrow>
    ch_step ucb c (s, ph) (s', after_send c s (False, v) out ph)"
| h_async_receive: "\<not> waiting (ph (WTask (current s))) \<Longrightarrow> async_receive ucb here c fut s = (s', out) \<Longrightarrow>
    ch_step ucb c (s, ph) (s', after_receive c s out ph)"
| h_send_returns: "ph w = PSent \<Longrightarrow> ch_step ucb c (s, ph) (s, ph(w := PIdle))"
| h_receive_returns: "ph w = PGot p \<Longrightarrow> receive_resume w s = (s', out) \<Longrightarrow> ch_step ucb c (s, ph) (s', ph(w := PIdle))"
| h_throw: "ph (WTask t) \<noteq> PIdle \<Longrightarrow> t \<noteq> current s \<Longrightarrow> \<not> waiting (ph (WTask (current s))) \<Longrightarrow>
    target_throw t exc s = (s1, Inr ()) \<Longrightarrow> abort_wait c (WTask t) (receiving_phase (ph (WTask t))) s1 = (s2, r) \<Longrightarrow>
    ch_step ucb c (s, ph) (s2, ph(WTask t := PIdle))"
| h_async_abort: "ph (WEvent e) \<noteq> PIdle \<Longrightarrow> abort_wait c (WEvent e) (receiving_phase (ph (WEvent e))) s = (s2, r) \<Longrightarrow>
    ch_step ucb c (s, ph) (s2, ph(WEvent e := PIdle))"
| h_other: "rely c ph s s' \<Longrightarrow> ch_step ucb c (s, ph) (s', ph)"

text \<open>A channel nobody has used yet.\<close>

definition fresh_chan :: "cid \<Rightarrow> world \<Rightarrow> bool" where
  "fresh_chan c s \<longleftrightarrow> ch_waiters (chans s c) = [] \<and> ch_balance (chans s c) = 0 \<and> (\<forall>t. tlink s t \<noteq> Some (ChanLink c))"

lemma fresh_event_ok:
  assumes "cinv c s ph" and "fresh_packet_event s = (s1, e)"
  shows "ph (WEvent e) = PIdle" and "cinv c s1 ph" and "chan_balance c s1 = chan_balance c s"
    and "e < next_event s1 \<and> ev_waiters (events s1 e) = []" and "ev_is_set (events s1 e) = False"
proof -
  have e: "e = next_event s" and s1: "s1 = set_tempval (WEvent e) None (upd_event e (\<lambda>_. new_event) (s\<lparr>next_event := Suc e\<rparr>))"
    using assms(2) by (auto simp: fresh_packet_event_def Let_def)
  show i: "ph (WEvent e) = PIdle" using assms(1) e unfolding cinv_def place_ok_def by blast
  show "cinv c s1 ph" using assms(1) by (rule cinv_rely) (use i in \<open>auto simp: rely_def s1 e new_event_def\<close>)
  show "chan_balance c s1 = chan_balance c s" "e < next_event s1 \<and> ev_waiters (events s1 e) = []" "ev_is_set (events s1 e) = False"
    by (simp_all add: s1 chan_balance_def new_event_def)
qed

lemma event_wait_fresh:
  assumes "\<not> ev_is_set (events s e)"
  obtains s' where "event_wait e fut s = (s', Parked)" and "rely c ph s s'"
proof
  show "event_wait e fut s = (upd_event e (\<lambda>ev. ev\<lparr>ev_async := ev_async ev @ [fut]\<rparr>) s, Parked)"
    using assms by (simp add: event_wait_def)
  show "rely c ph s (upd_event e (\<lambda>ev. ev\<lparr>ev_async := ev_async ev @ [fut]\<rparr>) s)" by (simp add: rely_def)
qed

lemma cinv_send:
  assumes "cinv c s ph" and "caller_ok s ph" and "send_packet ucb here c p s = (s', out)"
  shows "cinv c s' (after_send c s p out ph)"
proof (cases "chan_balance c s < 0")
  case True
  have nw: "\<not> waiting (ph (WTask (current s)))" using assms(2) by (simp add: caller_ok_def)
  have "match_receiver ucb here c (ch_preference (chans s c) < 0) p s = (s', out)"
    using assms(3) True by (simp add: send_packet_def)
  from match_receiver_ok(1) [OF assms(1) True nw this] show ?thesis using True by (simp add: after_send_def)
next
  case False
  have i: "cinv c (link_sender c (WTask (current s)) p s) (ph(WTask (current s) := POffer p))"
    using assms(1,2) False by (intro cinv_link_sender) (auto simp: caller_ok_def)
  have "chan_park c False (link_sender c (WTask (current s)) p) s = (s', out)"
    using assms(3) False by (simp add: send_packet_def)
  from chan_park_ok [OF assms(1) _ i this] assms(2) False show ?thesis by (auto simp: after_send_def caller_ok_def)
qed

lemma cinv_receive:
  assumes "cinv c s ph" and "caller_ok s ph" and "chan_receive ucb here c s = (s', out)"
  shows "cinv c s' (after_receive c s out ph)"
proof (cases "chan_balance c s > 0")
  case True
  have nw: "\<not> waiting (ph (WTask (current s)))" using assms(2) by (simp add: caller_ok_def)
  have "match_sender ucb here c (ch_preference (chans s c) > 0) s = (s', out)"
    using assms(3) True by (simp add: chan_receive_def)
  from match_sender_ok [OF assms(1) True nw this] True show ?thesis by (simp add: after_receive_def)
next
  case False
  have i: "cinv c (link_receiver c (WTask (current s)) s) (ph(WTask (current s) := PExpect))"
    using assms(1,2) False by (intro cinv_link_receiver) (auto simp: caller_ok_def)
  have "chan_park c True (link_receiver c (WTask (current s))) s = (s', out)"
    using assms(3) False by (simp add: chan_receive_def)
  from chan_park_ok [OF assms(1) _ i this] assms(2) False show ?thesis by (auto simp: after_receive_def caller_ok_def)
qed

lemma cinv_async_send:
  assumes "cinv c s ph" and "\<not> waiting (ph (WTask (current s)))" and "async_send ucb here c v fut s = (s', out)"
  shows "cinv c s' (after_send c s (False, v) out ph)"
proof (cases "chan_balance c s < 0")
  case True
  then have "match_receiver ucb here c False (False, v) s = (s', out)" using assms(3) by (simp add: async_send_def)
  from match_receiver_ok(1) [OF assms(1) True assms(2) this] show ?thesis using True by (simp add: after_send_def)
next
  case False
  obtain s1 e where f: "fresh_packet_event s = (s1, e)" by fastforce
  note fr = fresh_event_ok [OF assms(1) f]
  let ?s2 = "link_sender c (WEvent e) (False, v) s1" and ?ph = "ph(WEvent e := POffer (False, v))"
  have i: "cinv c ?s2 ?ph" using fr False by (intro cinv_link_sender) auto
  have "\<not> ev_is_set (events ?s2 e)" using fr(5) by (simp add: link_sender_def)
  then obtain s3 where s3: "event_wait e fut ?s2 = (s3, Parked)" "rely c ?ph ?s2 s3" by (rule event_wait_fresh)
  then show ?thesis using assms(3) False f cinv_rely [OF i s3(2)] by (auto simp: async_send_def after_send_def)
qed

lemma cinv_async_receive:
  assumes "cinv c s ph" and "\<not> waiting (ph (WTask (current s)))" and "async_receive ucb here c fut s = (s', out)"
  shows "cinv c s' (after_receive c s out ph)"
proof (cases "chan_balance c s > 0")
  case True
  then have "match_sender ucb here c False s = (s', out)" using assms(3) by (simp add: async_receive_def)
  from match_sender_ok [OF assms(1) True assms(2) this] True show ?thesis by (simp add: after_receive_def)
next
  case False
  obtain s1 e where f: "fresh_packet_event s = (s1, e)" by fastforce
  note fr = fresh_event_ok [OF assms(1) f]
  let ?s2 = "link_receiver c (WEvent e) s1" and ?ph = "ph(WEvent e := PExpect)"
  have i: "cinv c ?s2 ?ph" using fr False by (intro cinv_link_receiver) auto
  have "\<not> ev_is_set (events ?s2 e)" using fr(5) by (simp add: link_receiver_def)
  then obtain s3 where s3: "event_wait e fut ?s2 = (s3, Parked)" "rely c ?ph ?s2 s3" by (rule event_wait_fresh)
  then show ?thesis using assms(3) False f cinv_rely [OF i s3(2)] by (auto simp: async_receive_def after_receive_def)
qed

lemma task_unlink_keeps: "tempval (task_unlink t s) = tempval s" "current (task_unlink t s) = current s"
  by (simp_all add: task_unlink_def Let_def link_unlink_def runnable_link_unlink_def event_unlink_def chan_unlink_waiter_def
      split: option.split link.split)

lemma park_current_tempval: "tempval (fst (park_current b s)) = tempval s"
  by (simp add: park_current_def make_runnable_def make_runnable_next_def Let_def)

lemma cinv_throw:
  assumes "cinv c s ph" and "t \<noteq> current s" and "\<not> waiting (ph (WTask (current s)))" and "target_throw t exc s = (s1, Inr ())"
  shows "cinv c s1 (ph(WTask t := PIdle))" and "tempval s1 = tempval s"
proof -
  let ?ph = "ph(WTask t := PIdle)" and ?u = "task_unlink t s"
  have link: "tlink s t = Some (ChanLink c) \<longleftrightarrow> waiting (ph (WTask t))" using assms(1) by (simp add: cinv_def place_ok_def)
  have u: "cinv c ?u ?ph"
  proof (cases "waiting (ph (WTask t))")
    case True
    then have "?u = (chan_unlink_waiter c (WTask t) s)\<lparr>pending_async_waits := pending_async_waits (chan_unlink_waiter c (WTask t) s) - {t}\<rparr>"
      using link by (simp add: task_unlink_def link_unlink_def Let_def)
    moreover have "rely c ?ph s' (s'\<lparr>pending_async_waits := x\<rparr>)" for s' x by (simp add: rely_def)
    ultimately show ?thesis using cinv_rely [OF cinv_unlink [OF assms(1) True]] by metis
  next
    case False
    have "rely c ?ph s ?u" by (rule rely_task_unlink) (use link False in auto)
    with cinv_idle [OF assms(1) False] show ?thesis by (rule cinv_rely)
  qed
  have p: "rely c ?ph ?u (fst (park_current True ?u))" using assms(2,3) by (intro rely_park_current) (simp add: task_unlink_keeps)
  obtain s0 where s0: "park_current True ?u = (s0, Inr ())" and s1: "s1 = (tealet_switch t s0)\<lparr>inflight := Some exc\<rparr>"
    using assms(2,4) by (auto simp: target_throw_def split: prod.splits sum.splits)
  have "rely c ?ph s0 s1" by (simp add: s1 tealet_switch_def rely_def)
  moreover have "cinv c s0 ?ph" using cinv_rely [OF u p] s0 by simp
  ultimately show "cinv c s1 ?ph" by (rule cinv_rely [rotated])
  show "tempval s1 = tempval s"
    using park_current_tempval [of True ?u] s0 s1 by (simp add: tealet_switch_def task_unlink_keeps)
qed

lemma ch_step_cinv: "ch_step ucb c (s, ph) (s', ph') \<Longrightarrow> cinv c s ph \<Longrightarrow> cinv c s' ph'"
proof (induction "(s, ph)" "(s', ph')" rule: ch_step.induct)
  case (h_send here p out) then show ?case using cinv_send by blast
next
  case (h_receive here out) then show ?case using cinv_receive by blast
next
  case (h_async_send here v fut out) then show ?case using cinv_async_send by blast
next
  case (h_async_receive here fut out) then show ?case using cinv_async_receive by blast
next
  case (h_send_returns w) then show ?case using cinv_idle [of c s ph w] by simp
next
  case (h_receive_returns w p out)
  then have "cinv c s (ph(w := PIdle))" by (intro cinv_idle) simp_all
  moreover have "s' = set_tempval w None s"
    using h_receive_returns by (auto simp: receive_resume_def pop_tempval_def split: option.splits)
  ultimately show ?case using h_receive_returns cinv_rely rely_set_tempval by (metis fun_upd_same)
next
  case (h_throw t exc s1 r)
  then have "cinv c s1 (ph(WTask t := PIdle))" by (intro cinv_throw(1)) simp_all
  from cinv_abort [OF this, of "WTask t" "receiving_phase (ph (WTask t))"] h_throw show ?case by auto
next
  case (h_async_abort e r)
  then show ?case using cinv_abort [of c s ph "WEvent e" "receiving_phase (ph (WEvent e))"] by simp
next
  case h_other then show ?case using cinv_rely by blast
qed

lemma ch_reach_cinv:
  assumes "fresh_chan c s0" and "(ch_step ucb c)\<^sup>*\<^sup>* (s0, \<lambda>_. PIdle) (s, ph)"
  shows "cinv c s ph"
  using assms(2)
proof (induction "(s, ph)" arbitrary: s ph rule: rtranclp_induct)
  case base
  show ?case using assms(1) by (simp add: cinv_def queue_ok_def place_ok_def fresh_chan_def)
next
  case (step y)
  then show ?case using ch_step_cinv by (cases y) blast
qed

section \<open>Order of arrival\<close>

text \<open>A queue that keeps, loses or gains waiters at its end keeps those that stay in their order.\<close>

lemma order_kept:
  assumes "distinct q" and "q2 = q \<or> q2 = tl q \<or> (\<exists>w. q2 = remove1 w q) \<or> (\<exists>w. w \<notin> set q \<and> q2 = q @ [w])"
  shows "\<exists>arrived. q2 = filter (\<lambda>w. w \<in> set q2) q @ arrived \<and> (\<forall>w \<in> set arrived. w \<notin> set q)"
proof -
  have sub: "filter (\<lambda>x. x \<in> set ws) (w # ws) = ws" if "w \<notin> set ws" for w :: 'a and ws using that by simp
  have rem: "filter (\<lambda>x. x \<in> set (remove1 w q)) q = remove1 w q" for w
  proof -
    have "set (remove1 w q) = set q - {w}" using assms(1) by (rule set_remove1_eq)
    then have "filter (\<lambda>x. x \<in> set (remove1 w q)) q = filter (\<lambda>x. x \<noteq> w) q" by (auto intro: filter_cong)
    then show ?thesis using assms(1) by (simp add: distinct_remove1_removeAll removeAll_filter_not_eq fun_Compl_def eq_commute)
  qed
  consider "q2 = q" | "q2 = tl q" | w where "q2 = remove1 w q" | w where "w \<notin> set q" "q2 = q @ [w]" using assms(2) by blast
  then show ?thesis
  proof cases
    case 2
    then show ?thesis using assms(1) sub by (cases q) (auto intro: exI [of _ "[]"])
  next
    case (3 w)
    then show ?thesis using rem [of w] by (intro exI [of _ "[]"]) simp
  qed (auto intro: exI [of _ "[]"])
qed

lemma abort_queue: "ch_waiters (chans (fst (abort_wait c w receiving s)) c) = remove1 w (ch_waiters (chans s c))"
proof -
  have "fst (abort_wait c w receiving s) = set_tempval w None (chan_unlink_waiter c w s)"
    by (simp add: abort_wait_def pop_tempval_def unlink_set_tempval Let_def split: option.split)
  then show ?thesis by (auto simp: chan_unlink_waiter_def Let_def remove1_idem split: chan_waiter.split)
qed

lemma park_queue:
  assumes "cinv c (enlink s) (ph(WTask (current s) := p))" and "WTask (current s) \<notin> set (ch_waiters (chans s c))"
    and "ch_waiters (chans (enlink s) c) = ch_waiters (chans s c) @ [WTask (current s)]" and "chan_park c receiving enlink s = (s', out)"
  shows "ch_waiters (chans s' c) = ch_waiters (chans s c) \<or> ch_waiters (chans s' c) = ch_waiters (chans s c) @ [WTask (current s)]"
proof (cases "running s")
  case False
  then show ?thesis using assms(2,4) abort_queue [of c "WTask (current s)" receiving s]
    by (simp add: chan_park_def Let_def remove1_idem split: prod.splits)
next
  case True
  let ?s1 = "fst (find_target False False (enlink s))"
  have "rely c (ph(WTask (current s) := p)) (enlink s) ?s1"
    by (rule rely_find_target) (use assms(1) in \<open>unfold cinv_def, blast\<close>)
  then have q: "ch_waiters (chans ?s1 c) = ch_waiters (chans s c) @ [WTask (current s)]" using assms(3) by (simp add: rely_def)
  show ?thesis
  proof (cases "snd (find_target False False (enlink s))")
    case (Inl e)
    then have "schedule (\<lambda>s. (enlink s, Inr ())) False s = (?s1, Inl e)"
      by (cases "find_target False False (enlink s)") (simp add: schedule_def)
    then show ?thesis using assms(2,4) True q abort_queue [of c "WTask (current s)" receiving ?s1]
      by (simp add: chan_park_def Let_def remove1_append split: prod.splits)
  next
    case (Inr t)
    then have "schedule (\<lambda>s. (enlink s, Inr ())) False s = (tealet_switch t ?s1, Inr ())"
      by (cases "find_target False False (enlink s)") (simp add: schedule_def)
    then show ?thesis using assms(4) True q by (auto simp: chan_park_def Let_def tealet_switch_def split: prod.splits)
  qed
qed

lemma throw_queue:
  assumes "cinv c s ph" and "t \<noteq> current s" and "\<not> waiting (ph (WTask (current s)))" and "target_throw t exc s = (s1, Inr ())"
  shows "ch_waiters (chans s1 c) = remove1 (WTask t) (ch_waiters (chans s c))"
proof -
  let ?ph = "ph(WTask t := PIdle)" and ?u = "task_unlink t s"
  have link: "tlink s t = Some (ChanLink c) \<longleftrightarrow> waiting (ph (WTask t))" using assms(1) by (simp add: cinv_def place_ok_def)
  have u: "ch_waiters (chans ?u c) = remove1 (WTask t) (ch_waiters (chans s c))"
  proof (cases "waiting (ph (WTask t))")
    case True
    then show ?thesis using link by (auto simp: task_unlink_def link_unlink_def Let_def chan_unlink_waiter_def remove1_idem)
  next
    case False
    then have "rely c ?ph s ?u" by (intro rely_task_unlink) (use link False in auto)
    moreover have "WTask t \<notin> set (ch_waiters (chans s c))" by (rule cinv_not_waiting [OF assms(1) False])
    ultimately show ?thesis by (simp add: rely_def remove1_idem)
  qed
  have p: "rely c ?ph ?u (fst (park_current True ?u))" using assms(2,3) by (intro rely_park_current) (simp add: task_unlink_keeps)
  obtain s0 where s0: "park_current True ?u = (s0, Inr ())" and s1: "s1 = (tealet_switch t s0)\<lparr>inflight := Some exc\<rparr>"
    using assms(2,4) by (auto simp: target_throw_def split: prod.splits sum.splits)
  show ?thesis using u p s0 s1 by (simp add: rely_def tealet_switch_def)
qed

lemma send_queue:
  assumes "cinv c s ph" and "caller_ok s ph" and "send_packet ucb here c p s = (s', out)"
  shows "\<exists>w. w \<notin> set (ch_waiters (chans s c)) \<and> ch_waiters (chans s' c) \<in> {ch_waiters (chans s c), tl (ch_waiters (chans s c)), ch_waiters (chans s c) @ [w]}"
proof -
  have w: "ph (WTask (current s)) = PIdle" "WTask (current s) \<notin> set (ch_waiters (chans s c))"
    using assms(2) cinv_not_waiting [OF assms(1), of "WTask (current s)"] by (simp_all add: caller_ok_def)
  show ?thesis
  proof (cases "chan_balance c s < 0")
    case True
    then have "match_receiver ucb here c (ch_preference (chans s c) < 0) p s = (s', out)" using assms(3) by (simp add: send_packet_def)
    from match_receiver_ok(3) [OF assms(1) True _ this] w show ?thesis by auto
  next
    case False
    have i: "cinv c (link_sender c (WTask (current s)) p s) (ph(WTask (current s) := POffer p))"
      using assms(1,2) False by (intro cinv_link_sender) (auto simp: caller_ok_def)
    have "chan_park c False (link_sender c (WTask (current s)) p) s = (s', out)" using assms(3) False by (simp add: send_packet_def)
    from park_queue [OF i w(2) _ this] w(2) show ?thesis by (auto simp: link_sender_def)
  qed
qed

lemma receive_queue:
  assumes "cinv c s ph" and "caller_ok s ph" and "chan_receive ucb here c s = (s', out)"
  shows "\<exists>w. w \<notin> set (ch_waiters (chans s c)) \<and> ch_waiters (chans s' c) \<in> {ch_waiters (chans s c), tl (ch_waiters (chans s c)), ch_waiters (chans s c) @ [w]}"
proof -
  have w: "ph (WTask (current s)) = PIdle" "WTask (current s) \<notin> set (ch_waiters (chans s c))"
    using assms(2) cinv_not_waiting [OF assms(1), of "WTask (current s)"] by (simp_all add: caller_ok_def)
  show ?thesis
  proof (cases "chan_balance c s > 0")
    case True
    then have m: "match_sender ucb here c (ch_preference (chans s c) > 0) s = (s', out)" using assms(3) by (simp add: chan_receive_def)
    have "\<not> waiting (ph (WTask (current s)))" using w by simp
    from match_sender_ok [OF assms(1) True this m] w show ?thesis by auto
  next
    case False
    have i: "cinv c (link_receiver c (WTask (current s)) s) (ph(WTask (current s) := PExpect))"
      using assms(1,2) False by (intro cinv_link_receiver) (auto simp: caller_ok_def)
    have "chan_park c True (link_receiver c (WTask (current s))) s = (s', out)" using assms(3) False by (simp add: chan_receive_def)
    from park_queue [OF i w(2) _ this] w(2) show ?thesis by (auto simp: link_receiver_def)
  qed
qed

lemma async_send_queue:
  assumes "cinv c s ph" and "\<not> waiting (ph (WTask (current s)))" and "async_send ucb here c v fut s = (s', out)"
  shows "\<exists>w. w \<notin> set (ch_waiters (chans s c)) \<and> ch_waiters (chans s' c) \<in> {ch_waiters (chans s c), tl (ch_waiters (chans s c)), ch_waiters (chans s c) @ [w]}"
proof (cases "chan_balance c s < 0")
  case True
  then have "match_receiver ucb here c False (False, v) s = (s', out)" using assms(3) by (simp add: async_send_def)
  from match_receiver_ok(3) [OF assms(1) True assms(2) this] cinv_not_waiting [OF assms(1,2)] show ?thesis by auto
next
  case False
  obtain s1 e where f: "fresh_packet_event s = (s1, e)" by fastforce
  note fr = fresh_event_ok [OF assms(1) f]
  have q: "chans s1 = chans s" using f by (auto simp: fresh_packet_event_def Let_def)
  have "\<not> ev_is_set (events (link_sender c (WEvent e) (False, v) s1) e)" using fr(5) by (simp add: link_sender_def)
  then obtain s3 where "event_wait e fut (link_sender c (WEvent e) (False, v) s1) = (s3, Parked)"
    "rely c ph (link_sender c (WEvent e) (False, v) s1) s3" by (rule event_wait_fresh)
  moreover have "WEvent e \<notin> set (ch_waiters (chans s c))" using fr(1) by (intro cinv_not_waiting [OF assms(1)]) simp
  ultimately show ?thesis using assms(3) False f q by (intro exI [of _ "WEvent e"]) (auto simp: async_send_def rely_def link_sender_def)
qed

lemma async_receive_queue:
  assumes "cinv c s ph" and "\<not> waiting (ph (WTask (current s)))" and "async_receive ucb here c fut s = (s', out)"
  shows "\<exists>w. w \<notin> set (ch_waiters (chans s c)) \<and> ch_waiters (chans s' c) \<in> {ch_waiters (chans s c), tl (ch_waiters (chans s c)), ch_waiters (chans s c) @ [w]}"
proof (cases "chan_balance c s > 0")
  case True
  then have m: "match_sender ucb here c False s = (s', out)" using assms(3) by (simp add: async_receive_def)
  from match_sender_ok [OF assms(1) True assms(2) m] cinv_not_waiting [OF assms(1,2)] show ?thesis by auto
next
  case False
  obtain s1 e where f: "fresh_packet_event s = (s1, e)" by fastforce
  note fr = fresh_event_ok [OF assms(1) f]
  have q: "chans s1 = chans s" using f by (auto simp: fresh_packet_event_def Let_def)
  have "\<not> ev_is_set (events (link_receiver c (WEvent e) s1) e)" using fr(5) by (simp add: link_receiver_def)
  then obtain s3 where "event_wait e fut (link_receiver c (WEvent e) s1) = (s3, Parked)"
    "rely c ph (link_receiver c (WEvent e) s1) s3" by (rule event_wait_fresh)
  moreover have "WEvent e \<notin> set (ch_waiters (chans s c))" using fr(1) by (intro cinv_not_waiting [OF assms(1)]) simp
  ultimately show ?thesis using assms(3) False f q by (intro exI [of _ "WEvent e"]) (auto simp: async_receive_def rely_def link_receiver_def)
qed

lemma ch_step_queue:
  "ch_step ucb c (s, ph) (s', ph') \<Longrightarrow> cinv c s ph \<Longrightarrow>
     ch_waiters (chans s' c) = ch_waiters (chans s c) \<or> ch_waiters (chans s' c) = tl (ch_waiters (chans s c))
     \<or> (\<exists>w. ch_waiters (chans s' c) = remove1 w (ch_waiters (chans s c)))
     \<or> (\<exists>w. w \<notin> set (ch_waiters (chans s c)) \<and> ch_waiters (chans s' c) = ch_waiters (chans s c) @ [w])"
proof (induction "(s, ph)" "(s', ph')" rule: ch_step.induct)
  case (h_send here p out) then show ?case using send_queue [OF h_send(4,1,2)] by blast
next
  case (h_receive here out) then show ?case using receive_queue [OF h_receive(4,1,2)] by blast
next
  case (h_async_send here v fut out) then show ?case using async_send_queue [OF h_async_send(4,1,2)] by blast
next
  case (h_async_receive here fut out) then show ?case using async_receive_queue [OF h_async_receive(4,1,2)] by blast
next
  case (h_receive_returns w p out)
  then show ?case by (auto simp: receive_resume_def pop_tempval_def split: option.splits)
next
  case (h_throw t exc s1 r)
  have "ch_waiters (chans s1 c) = remove1 (WTask t) (ch_waiters (chans s c))"
    using h_throw throw_queue [of c s ph t exc s1] by simp
  moreover have "distinct (ch_waiters (chans s c))" using h_throw by (simp add: cinv_def queue_ok_def)
  ultimately have "ch_waiters (chans s' c) = remove1 (WTask t) (ch_waiters (chans s c))"
    using h_throw abort_queue [of c "WTask t" "receiving_phase (ph (WTask t))" s1] by (simp add: remove1_idem)
  then show ?case by blast
next
  case (h_async_abort e r)
  then show ?case using abort_queue [of c "WEvent e" "receiving_phase (ph (WEvent e))" s] by auto
qed (auto simp: rely_def)

lemma ch_step_order:
  assumes "ch_step ucb c (s, ph) (s', ph')" and "cinv c s ph"
  shows "\<exists>arrived. ch_waiters (chans s' c) = filter (\<lambda>w. waiting (ph' w)) (ch_waiters (chans s c)) @ arrived \<and> (\<forall>w \<in> set arrived. \<not> waiting (ph w))"
proof -
  have "cinv c s' ph'" by (rule ch_step_cinv [OF assms])
  then have "waiting (ph' w) \<longleftrightarrow> w \<in> set (ch_waiters (chans s' c))" for w by (simp add: cinv_def queue_ok_def)
  moreover have "waiting (ph w) \<longleftrightarrow> w \<in> set (ch_waiters (chans s c))" "distinct (ch_waiters (chans s c))" for w
    using assms(2) by (simp_all add: cinv_def queue_ok_def)
  ultimately show ?thesis using order_kept [OF _ ch_step_queue [OF assms]] by simp
qed

section \<open>Properties\<close>

text \<open>What an exception that leaves a suspended call has to report, by the state of that call.\<close>

fun due_report :: "phase \<Rightarrow> op_result" where
  "due_report (PGot p) = received_result p"
| "due_report PSent = (True, None, None)"
| "due_report _ = (False, None, None)"


text \<open>Task 1 parks in \<open>receive\<close> on channel 0 and task 2 runs.\<close>

definition ch_start :: world where
  "ch_start = idle_world\<lparr>current := 1, runnable := \<lparr>fq_items = [2], fq_set = {2}\<rparr>, tlink := (\<lambda>_. None)(2 := Some RunLink)\<rparr>"

definition no_ucb :: "nat \<Rightarrow> unit act" where
  "no_ucb n s = (s, Inr ())"

definition ch_parked :: world where
  "ch_parked = fst (chan_receive no_ucb True 0 ch_start)"

lemmas ch_demo_simps = ch_start_def idle_world_def chan_receive_def chan_balance_def chan_park_def schedule_def find_target_def
  steal_to_runner_def has_runnable_work_def fifo_bool_def fifo_pop_next_def tealet_switch_def link_receiver_def
  set_waiter_link_def set_tempval_def set_link_def upd_chan_def

lemma ch_parked_out: "chan_receive no_ucb True 0 ch_start = (ch_parked, CWait (WTask 1))"
  unfolding ch_parked_def by (simp add: ch_demo_simps)

lemma ch_start_fresh: "fresh_chan 0 ch_start"
  by (simp add: fresh_chan_def ch_start_def idle_world_def)

lemma ch_parked_reach: "(ch_step no_ucb 0)\<^sup>*\<^sup>* (ch_start, \<lambda>_. PIdle) (ch_parked, (\<lambda>_. PIdle)(WTask 1 := PExpect))"
proof -
  have "caller_ok ch_start (\<lambda>_. PIdle)" by (simp add: caller_ok_def ch_start_def idle_world_def)
  from h_receive [OF this ch_parked_out] show ?thesis
    by (simp add: after_receive_def ch_start_def idle_world_def chan_balance_def r_into_rtranclp)
qed




text \<open>Outside \<open>run\<close> the call fails before it offers anything, and its \<open>operation_result\<close> still claims success.\<close>

lemma send_outside_run_reports_success:
  assumes "\<not> running s" and "0 \<le> chan_balance c s" and "tempval s (WTask (current s)) = None"
  shows "snd (send_packet ucb here c p s) = CRaise RuntimeErr (Some (True, None, None))"
proof -
  have "snd (abort_wait c (WTask (current s)) False s) = (True, None, None)" using assms(3) by (simp add: abort_report)
  then show ?thesis using assms(1,2) by (simp add: send_packet_def chan_park_def Let_def case_prod_beta)
qed

end
