(* ===== verification/Futures.thy ===== *)
theory Futures
  imports Tealet_Prelude
begin

text \<open>
  \<open>Future\<close> and \<open>Shield\<close> of \<open>tealetio/tasks.py\<close> and \<open>gather\<close> of \<open>tealetio/scheduler.py\<close>, over a store of future
  objects.  Completing a future runs its done callbacks at once, and these complete further futures, so
  \<open>run_cbs\<close> is recursive; it takes fuel, \<open>None\<close> means the fuel ran out, and \<open>completion_terminates\<close> shows that
  the number of futures is enough.  A user callback is a number, and \<open>ucb\<close> says what it raises.  The
  completion event is kept as its flag (waking is the business of \<open>Events\<close>); \<open>cb_ran\<close> and \<open>g_seen\<close> are history.
\<close>

section \<open>Store\<close>

type_synonym fid = nat

datatype fval = FNone | FNum nat | FExc pyexn | FList "fval list"

datatype fcb = FUser nat | FShield fid | FGather fid nat

datatype fkind = KPlain | KTask | KShield fid | KGather "fid list" bool

record fut =
  f_done :: bool
  f_result :: "fval option"
  f_exc :: "pyexn option"
  f_event :: bool
  f_cbs :: "fcb list"
  f_log :: bool
  f_kind :: fkind

record gstate =
  g_results :: "fval list"
  g_remaining :: nat
  g_cancel_requested :: bool
  g_seen :: "nat set"

record fstore =
  futs :: "fid \<Rightarrow> fut"
  gath :: "fid \<Rightarrow> gstate"
  next_fid :: fid
  cb_ran :: "(fid \<times> nat) list"
  aio_calls :: "(fid \<times> nat) list"
  thrown :: "fid list"
  soon_cancel :: "fid list"

type_synonym ucbs = "nat \<Rightarrow> pyexn option"
type_synonym 'a fres = "(fstore \<times> (pyexn + 'a)) option"

definition new_fut :: "fkind \<Rightarrow> fut" where
  "new_fut k = \<lparr>f_done = False, f_result = None, f_exc = None, f_event = False, f_cbs = [], f_log = False, f_kind = k\<rparr>"

definition upd_fut :: "fid \<Rightarrow> (fut \<Rightarrow> fut) \<Rightarrow> fstore \<Rightarrow> fstore" where
  "upd_fut f h st = st\<lparr>futs := (futs st)(f := h (futs st f))\<rparr>"

definition upd_gath :: "fid \<Rightarrow> (gstate \<Rightarrow> gstate) \<Rightarrow> fstore \<Rightarrow> fstore" where
  "upd_gath g h st = st\<lparr>gath := (gath st)(g := h (gath st g))\<rparr>"

definition no_gath :: gstate where
  "no_gath = \<lparr>g_results = [], g_remaining = 0, g_cancel_requested = False, g_seen = {}\<rparr>"

definition empty_store :: fstore where
  "empty_store = \<lparr>futs = (\<lambda>_. new_fut KPlain), gath = (\<lambda>_. no_gath), next_fid = 0, cb_ran = [], aio_calls = [],
     thrown = [], soon_cancel = []\<rparr>"

definition alloc :: "fkind \<Rightarrow> fstore \<Rightarrow> fstore \<times> fid" where
  "alloc k st = (let f = next_fid st in (st\<lparr>futs := (futs st)(f := new_fut k), gath := (gath st)(f := no_gath), next_fid := Suc f\<rparr>, f))"

section \<open>State and results\<close>

definition is_done :: "fid \<Rightarrow> fstore \<Rightarrow> bool" where
  "is_done f st = f_done (futs st f)"

definition cancelled :: "fid \<Rightarrow> fstore \<Rightarrow> bool" where
  "cancelled f st = (f_exc (futs st f) = Some CancelledErr)"

definition mark_exception_retrieved :: "fid \<Rightarrow> fstore \<Rightarrow> fstore" where
  "mark_exception_retrieved f st = upd_fut f (\<lambda>x. x\<lparr>f_log := False\<rparr>) st"

definition fut_result :: "fid \<Rightarrow> fstore \<Rightarrow> fstore \<times> (pyexn + fval)" where
  "fut_result f st =
     (if \<not> is_done f st then (st, Inl InvalidStateErr)
      else (let st1 = mark_exception_retrieved f st in
            case f_exc (futs st f) of
              Some e \<Rightarrow> (st1, Inl e)
            | None \<Rightarrow> (st1, Inr (case f_result (futs st f) of None \<Rightarrow> FNone | Some v \<Rightarrow> v))))"

definition fut_exception :: "fid \<Rightarrow> fstore \<Rightarrow> fstore \<times> (pyexn + pyexn option)" where
  "fut_exception f st =
     (if \<not> is_done f st then (st, Inl InvalidStateErr)
      else if cancelled f st then (st, Inl CancelledErr)
      else (mark_exception_retrieved f st, Inr (f_exc (futs st f))))"

text \<open>The part of \<open>set_result\<close> and \<open>set_exception\<close> up to the callbacks, which it hands out to be run.\<close>

definition complete :: "fid \<Rightarrow> pyexn + fval \<Rightarrow> fstore \<Rightarrow> fstore \<times> (pyexn + fcb list)" where
  "complete f outcome st =
     (if is_done f st then (st, Inl InvalidStateErr)
      else (upd_fut f (\<lambda>x. x\<lparr>f_done := True, f_event := True, f_cbs := [],
              f_result := (case outcome of Inl e \<Rightarrow> None | Inr v \<Rightarrow> Some v),
              f_exc := (case outcome of Inl e \<Rightarrow> Some e | Inr v \<Rightarrow> None),
              f_log := (case outcome of Inl e \<Rightarrow> e \<noteq> CancelledErr | Inr v \<Rightarrow> False)\<rparr>) st,
            Inr (f_cbs (futs st f))))"

section \<open>Done callbacks\<close>

text \<open>What one callback does up to the callbacks of the future it completes: it is finished, or the
  callbacks of that future are to be run next.  \<open>masked\<close> marks the \<open>try: self.set_result(...)\<close> of a shield,
  whose \<open>except\<close> block calls \<open>set_exception\<close> on the future that is already done.\<close>

datatype cb_next = CDone "pyexn + unit" | CRun fid "fcb list" bool

definition then_run :: "fid \<Rightarrow> bool \<Rightarrow> fstore \<times> (pyexn + fcb list) \<Rightarrow> fstore \<times> cb_next" where
  "then_run g masked r = (case r of (st, Inl e) \<Rightarrow> (st, CDone (Inl e)) | (st, Inr cbs) \<Rightarrow> (st, CRun g cbs masked))"

definition complete_from_child :: "fid \<Rightarrow> fid \<Rightarrow> fstore \<Rightarrow> fstore \<times> cb_next" where
  "complete_from_child g f st =
     (if is_done g st then (st, CDone (Inr ()))
      else (case fut_result f st of
              (st1, Inr v) \<Rightarrow> then_run g True (complete g (Inr v) st1)
            | (st1, Inl e) \<Rightarrow> then_run g False (complete g (Inl e) st1)))"

definition child_done :: "fid \<Rightarrow> nat \<Rightarrow> fid \<Rightarrow> fstore \<Rightarrow> fstore \<times> cb_next" where
  "child_done g index child st =
     (if is_done g st then (st, CDone (Inr ()))
      else
        (let return_exceptions = (case f_kind (futs st g) of KGather _ re \<Rightarrow> re | _ \<Rightarrow> False);
             exc = f_exc (futs st child);
             st1 = (if exc = None then st else mark_exception_retrieved child st) in
         if exc \<noteq> None \<and> \<not> return_exceptions then then_run g False (complete g (Inl (the exc)) st1)
         else
           (let v = (case exc of Some e \<Rightarrow> FExc e
                     | None \<Rightarrow> (case f_result (futs st child) of None \<Rightarrow> FNone | Some v \<Rightarrow> v));
                st2 = upd_gath g (\<lambda>x. x\<lparr>g_results := (g_results x)[index := v], g_remaining := g_remaining x - 1,
                        g_seen := insert index (g_seen x)\<rparr>) st1
            in if g_remaining (gath st2 g) = 0
               then then_run g False (complete g (if g_cancel_requested (gath st2 g) then Inl CancelledErr
                                                  else Inr (FList (g_results (gath st2 g)))) st2)
               else (st2, CDone (Inr ())))))"

definition cb_step :: "ucbs \<Rightarrow> fid \<Rightarrow> fcb \<Rightarrow> fstore \<Rightarrow> fstore \<times> cb_next" where
  "cb_step ucb f cb st =
     (case cb of
        FUser n \<Rightarrow> (st\<lparr>cb_ran := cb_ran st @ [(f, n)]\<rparr>, CDone (case ucb n of None \<Rightarrow> Inr () | Some e \<Rightarrow> Inl e))
      | FShield g \<Rightarrow> complete_from_child g f st
      | FGather g i \<Rightarrow> child_done g i f st)"

definition mask :: "bool \<Rightarrow> pyexn + unit \<Rightarrow> pyexn + unit" where
  "mask masked r = (case r of Inl e \<Rightarrow> Inl (if masked then InvalidStateErr else e) | Inr u \<Rightarrow> Inr u)"

text \<open>\<open>_run_done_callbacks\<close> on the list it has copied and cleared.\<close>

fun run_cbs :: "ucbs \<Rightarrow> nat \<Rightarrow> fid \<Rightarrow> fcb list \<Rightarrow> fstore \<Rightarrow> unit fres" where
  "run_cbs ucb fuel f [] st = Some (st, Inr ())"
| "run_cbs ucb fuel f (cb # cbs) st =
     (case cb_step ucb f cb st of
        (st1, CDone (Inl e)) \<Rightarrow> Some (st1, Inl e)
      | (st1, CDone (Inr _)) \<Rightarrow> run_cbs ucb fuel f cbs st1
      | (st1, CRun g gcbs masked) \<Rightarrow>
          (case fuel of
             0 \<Rightarrow> None
           | Suc k \<Rightarrow>
               (case run_cbs ucb k g gcbs st1 of
                  None \<Rightarrow> None
                | Some (st2, r) \<Rightarrow>
                    (case mask masked r of
                       Inl e \<Rightarrow> Some (st2, Inl e)
                     | Inr _ \<Rightarrow> run_cbs ucb fuel f cbs st2))))"

definition finish :: "ucbs \<Rightarrow> fid \<Rightarrow> pyexn + fval \<Rightarrow> fstore \<Rightarrow> unit fres" where
  "finish ucb f outcome st =
     (case complete f outcome st of
        (st1, Inl e) \<Rightarrow> Some (st1, Inl e)
      | (st1, Inr cbs) \<Rightarrow> run_cbs ucb (next_fid st) f cbs st1)"

definition set_result :: "ucbs \<Rightarrow> fid \<Rightarrow> fval \<Rightarrow> fstore \<Rightarrow> unit fres" where
  "set_result ucb f v = finish ucb f (Inr v)"

definition set_exception :: "ucbs \<Rightarrow> fid \<Rightarrow> pyexn \<Rightarrow> fstore \<Rightarrow> unit fres" where
  "set_exception ucb f e = finish ucb f (Inl e)"

text \<open>\<open>add_done_callback\<close> on a done future runs the callback at once, or hands it to a running asyncio loop.\<close>

definition add_done_callback :: "ucbs \<Rightarrow> bool \<Rightarrow> fid \<Rightarrow> nat \<Rightarrow> fstore \<Rightarrow> unit fres" where
  "add_done_callback ucb loop_running f n st =
     (if is_done f st
      then (if loop_running then Some (st\<lparr>aio_calls := aio_calls st @ [(f, n)]\<rparr>, Inr ())
            else run_cbs ucb 0 f [FUser n] st)
      else Some (upd_fut f (\<lambda>x. x\<lparr>f_cbs := f_cbs x @ [FUser n]\<rparr>) st, Inr ()))"

definition remove_done_callback :: "fid \<Rightarrow> nat \<Rightarrow> fstore \<Rightarrow> fstore \<times> nat" where
  "remove_done_callback f n st =
     (upd_fut f (\<lambda>x. x\<lparr>f_cbs := filter (\<lambda>cb. cb \<noteq> FUser n) (f_cbs x)\<rparr>) st,
      length (filter (\<lambda>cb. cb = FUser n) (f_cbs (futs st f))))"

section \<open>Cancellation and waiting\<close>

text \<open>\<open>cancel\<close> of a plain future or shield completes it, of a task throws into the task (a request the task
  answers later), of a gathering future is passed on to its children in order.\<close>

fun fut_cancel :: "ucbs \<Rightarrow> nat \<Rightarrow> fid \<Rightarrow> fstore \<Rightarrow> bool fres"
  and cancel_all :: "ucbs \<Rightarrow> nat \<Rightarrow> fid list \<Rightarrow> bool \<Rightarrow> fstore \<Rightarrow> bool fres" where
  "fut_cancel ucb fuel f st =
     (if is_done f st then Some (st, Inr False)
      else (case f_kind (futs st f) of
              KTask \<Rightarrow> Some (st\<lparr>thrown := thrown st @ [f]\<rparr>, Inr True)
            | KGather children _ \<Rightarrow>
                (case fuel of
                   0 \<Rightarrow> None
                 | Suc k \<Rightarrow> cancel_all ucb k children False (upd_gath f (\<lambda>x. x\<lparr>g_cancel_requested := True\<rparr>) st))
            | _ \<Rightarrow> (case set_exception ucb f CancelledErr st of
                     None \<Rightarrow> None
                   | Some (st1, Inl e) \<Rightarrow> Some (st1, Inl e)
                   | Some (st1, Inr _) \<Rightarrow> Some (st1, Inr True))))"
| "cancel_all ucb fuel [] acc st = Some (st, Inr acc)"
| "cancel_all ucb fuel (f # fs) acc st =
     (case fut_cancel ucb fuel f st of
        None \<Rightarrow> None
      | Some (st1, Inl e) \<Rightarrow> Some (st1, Inl e)
      | Some (st1, Inr b) \<Rightarrow> cancel_all ucb fuel fs (b \<or> acc) st1)"

definition cancel :: "ucbs \<Rightarrow> fid \<Rightarrow> fstore \<Rightarrow> bool fres" where
  "cancel ucb f st = fut_cancel ucb (next_fid st) f st"

text \<open>\<open>wait\<close> up to its park, its resumption, and an exception thrown into it.\<close>

definition fut_wait :: "fid \<Rightarrow> fstore \<Rightarrow> fstore \<times> fval outcome" where
  "fut_wait f st =
     (if is_done f st
      then (case fut_result f st of (st1, Inl e) \<Rightarrow> (st1, Raise e) | (st1, Inr v) \<Rightarrow> (st1, Ret v))
      else (st, Parked))"

definition fut_wait_throw :: "fid \<Rightarrow> pyexn \<Rightarrow> fstore \<Rightarrow> fstore" where
  "fut_wait_throw f e st = (if e = CancelledErr then st\<lparr>soon_cancel := soon_cancel st @ [f]\<rparr> else st)"

text \<open>\<open>__del__\<close>: the exception that is reported as never retrieved.\<close>

definition fut_del :: "fid \<Rightarrow> fstore \<Rightarrow> fstore \<times> pyexn option" where
  "fut_del f st =
     (if \<not> f_log (futs st f) then (st, None)
      else (case f_exc (futs st f) of
              None \<Rightarrow> (st, None)
            | Some e \<Rightarrow> (upd_fut f (\<lambda>x. x\<lparr>f_log := False\<rparr>) st, Some e)))"

section \<open>Shield and gather\<close>

definition run_next :: "ucbs \<Rightarrow> nat \<Rightarrow> fstore \<times> cb_next \<Rightarrow> unit fres" where
  "run_next ucb fuel r =
     (case r of
        (st, CDone x) \<Rightarrow> Some (st, x)
      | (st, CRun g cbs masked) \<Rightarrow> (case run_cbs ucb fuel g cbs st of None \<Rightarrow> None | Some (st1, x) \<Rightarrow> Some (st1, mask masked x)))"

definition add_internal :: "fid \<Rightarrow> fcb \<Rightarrow> fstore \<Rightarrow> fstore" where
  "add_internal f cb st = upd_fut f (\<lambda>x. x\<lparr>f_cbs := f_cbs x @ [cb]\<rparr>) st"

definition shield :: "ucbs \<Rightarrow> fid \<Rightarrow> fstore \<Rightarrow> fid fres" where
  "shield ucb f st =
     (case alloc (KShield f) st of
        (st1, g) \<Rightarrow>
          if is_done f st1
          then (case run_next ucb (next_fid st) (complete_from_child g f st1) of
                  None \<Rightarrow> None | Some (st2, Inl e) \<Rightarrow> Some (st2, Inl e) | Some (st2, Inr _) \<Rightarrow> Some (st2, Inr g))
          else Some (add_internal f (FShield g) st1, Inr g))"

text \<open>The loop of \<open>gather\<close> over the children still to be attached.\<close>

fun attach :: "ucbs \<Rightarrow> fid \<Rightarrow> nat \<Rightarrow> fid list \<Rightarrow> fstore \<Rightarrow> unit fres" where
  "attach ucb g index [] st = Some (st, Inr ())"
| "attach ucb g index (child # cs) st =
     (if is_done child st
      then (case run_next ucb (next_fid st) (child_done g index child st) of
              None \<Rightarrow> None
            | Some (st1, Inl e) \<Rightarrow> Some (st1, Inl e)
            | Some (st1, Inr _) \<Rightarrow> attach ucb g (Suc index) cs st1)
      else attach ucb g (Suc index) cs (add_internal child (FGather g index) st))"

definition gather :: "ucbs \<Rightarrow> fid list \<Rightarrow> bool \<Rightarrow> fstore \<Rightarrow> fid fres" where
  "gather ucb children return_exceptions st =
     (case alloc (KGather children return_exceptions) st of
        (st1, g) \<Rightarrow>
          (case (if children = [] then set_result ucb g (FList []) st1
                 else attach ucb g 0 children (upd_gath g (\<lambda>x. x\<lparr>g_results := replicate (length children) FNone,
                        g_remaining := length children\<rparr>) st1)) of
             None \<Rightarrow> None
           | Some (st2, Inl e) \<Rightarrow> Some (st2, Inl e)
           | Some (st2, Inr _) \<Rightarrow> Some (st2, Inr g)))"

section \<open>The store invariant\<close>

definition fut_ok :: "fut \<Rightarrow> bool" where
  "fut_ok x \<longleftrightarrow>
     (if f_done x then f_event x \<and> f_cbs x = [] \<and> (f_result x = None \<longleftrightarrow> f_exc x \<noteq> None)
      else \<not> f_event x \<and> f_result x = None \<and> f_exc x = None \<and> \<not> f_log x)
     \<and> (f_log x \<longrightarrow> f_exc x \<noteq> None \<and> f_exc x \<noteq> Some CancelledErr)"

definition outcome_val :: "fut \<Rightarrow> fval" where
  "outcome_val x = (case f_exc x of Some e \<Rightarrow> FExc e | None \<Rightarrow> (case f_result x of None \<Rightarrow> FNone | Some v \<Rightarrow> v))"

definition cb_ok :: "fstore \<Rightarrow> fid \<Rightarrow> fcb \<Rightarrow> bool" where
  "cb_ok st f cb =
     (case cb of
        FUser n \<Rightarrow> True
      | FShield g \<Rightarrow> f < g \<and> g < next_fid st \<and> f_kind (futs st g) = KShield f
      | FGather g i \<Rightarrow> f < g \<and> g < next_fid st
          \<and> (case f_kind (futs st g) of KGather cs _ \<Rightarrow> i < length cs \<and> cs ! i = f | _ \<Rightarrow> False) \<and> i \<notin> g_seen (gath st g))"

definition internal :: "fcb list \<Rightarrow> fcb list" where
  "internal cbs = filter (\<lambda>cb. case cb of FUser _ \<Rightarrow> False | _ \<Rightarrow> True) cbs"

definition cbs_ok :: "fstore \<Rightarrow> fid \<Rightarrow> fcb list \<Rightarrow> bool" where
  "cbs_ok st f cbs \<longleftrightarrow> (\<forall>cb \<in> set cbs. cb_ok st f cb) \<and> distinct (internal cbs)"

text \<open>A filled result slot holds the outcome of its child.\<close>

definition slot_filled :: "fut \<Rightarrow> bool \<Rightarrow> fval \<Rightarrow> bool" where
  "slot_filled child re v \<longleftrightarrow> f_done child \<and> v = outcome_val child \<and> (re \<or> f_exc child = None)"

lemma slot_filled_log [simp]: "slot_filled (x\<lparr>f_log := l\<rparr>) = slot_filled x"
proof (intro ext)
  fix re v show "slot_filled (x\<lparr>f_log := l\<rparr>) re v = slot_filled x re v"
    by (simp add: slot_filled_def outcome_val_def split: option.split)
qed

definition gather_ok :: "fstore \<Rightarrow> fid \<Rightarrow> bool" where
  "gather_ok st g =
     (case f_kind (futs st g) of
        KGather cs re \<Rightarrow>
          (\<forall>c \<in> set cs. c < g) \<and> length (g_results (gath st g)) = length cs \<and> g_seen (gath st g) \<subseteq> {..<length cs}
          \<and> g_remaining (gath st g) = length cs - card (g_seen (gath st g))
          \<and> (\<forall>i \<in> g_seen (gath st g). slot_filled (futs st (cs ! i)) re (g_results (gath st g) ! i))
          \<and> (f_result (futs st g) \<noteq> None \<longrightarrow>
               f_result (futs st g) = Some (FList (g_results (gath st g))) \<and> g_seen (gath st g) = {..<length cs})
      | _ \<Rightarrow> True)"

definition store_ok :: "fstore \<Rightarrow> bool" where
  "store_ok st \<longleftrightarrow>
     (\<forall>f. fut_ok (futs st f)) \<and> (\<forall>f. cbs_ok st f (f_cbs (futs st f))) \<and> (\<forall>g. gather_ok st g)
     \<and> (\<forall>f \<ge> next_fid st. futs st f = new_fut KPlain)"

text \<open>What running the callbacks of \<open>f\<close> leaves alone: futures up to \<open>f\<close> (but for the retrieved flag), the
  outcome of every done future, and the gather slots fed by futures before \<open>f\<close>.\<close>

definition same_fut :: "fut \<Rightarrow> fut \<Rightarrow> bool" where
  "same_fut x y \<longleftrightarrow> f_done y = f_done x \<and> f_result y = f_result x \<and> f_exc y = f_exc x \<and> f_cbs y = f_cbs x"

definition fr :: "fid \<Rightarrow> fstore \<Rightarrow> fstore \<Rightarrow> bool" where
  "fr f st st' \<longleftrightarrow>
     next_fid st' = next_fid st \<and> (\<forall>h. f_kind (futs st' h) = f_kind (futs st h))
     \<and> (\<forall>h \<le> f. same_fut (futs st h) (futs st' h)) \<and> (\<forall>h. f_done (futs st h) \<longrightarrow> same_fut (futs st h) (futs st' h))
     \<and> (\<forall>g i. i \<in> g_seen (gath st' g) \<longrightarrow> i \<in> g_seen (gath st g)
          \<or> (case f_kind (futs st g) of KGather cs _ \<Rightarrow> f \<le> cs ! i | _ \<Rightarrow> False))"

text \<open>What every operation keeps: the futures there are and the outcome of those that are done.\<close>

definition stable :: "fstore \<Rightarrow> fstore \<Rightarrow> bool" where
  "stable st st' \<longleftrightarrow>
     next_fid st \<le> next_fid st' \<and> (\<forall>h < next_fid st. f_kind (futs st' h) = f_kind (futs st h))
     \<and> (\<forall>h < next_fid st. f_done (futs st h) \<longrightarrow> same_fut (futs st h) (futs st' h))"

lemma fr_stable: "fr f st st' \<Longrightarrow> stable st st'"
  by (simp add: fr_def stable_def)

lemma stable_refl [simp]: "stable st st"
  by (simp add: stable_def same_fut_def)

lemma stable_trans: "stable st st1 \<Longrightarrow> stable st1 st2 \<Longrightarrow> stable st st2"
  by (auto simp: stable_def same_fut_def)

lemma fr_refl [simp]: "fr f st st"
  by (simp add: fr_def same_fut_def)

lemma fr_trans:
  assumes "fr f st st1" and "fr g st1 st2" and "f \<le> g"
  shows "fr f st st2"
proof -
  have a: "next_fid st2 = next_fid st" "\<And>h. f_kind (futs st2 h) = f_kind (futs st h)" using assms by (simp_all add: fr_def)
  have b: "same_fut (futs st h) (futs st2 h)" if "h \<le> f \<or> f_done (futs st h)" for h
  proof -
    have 1: "same_fut (futs st h) (futs st1 h)" using assms(1) that unfolding fr_def by blast
    then have "h \<le> g \<or> f_done (futs st1 h)" using that assms(3) by (auto simp: same_fut_def)
    then have "same_fut (futs st1 h) (futs st2 h)" using assms(2) unfolding fr_def by blast
    with 1 show ?thesis by (simp add: same_fut_def)
  qed
  have c: "i \<in> g_seen (gath st k) \<or> (case f_kind (futs st k) of KGather cs _ \<Rightarrow> f \<le> cs ! i | _ \<Rightarrow> False)"
    if "i \<in> g_seen (gath st2 k)" for k i
  proof -
    have "i \<in> g_seen (gath st1 k) \<or> (case f_kind (futs st1 k) of KGather cs _ \<Rightarrow> g \<le> cs ! i | _ \<Rightarrow> False)"
      using assms(2) that unfolding fr_def by blast
    then show ?thesis using assms(1,3) unfolding fr_def by (auto split: fkind.splits) (meson order_trans)
  qed
  show ?thesis using a b c unfolding fr_def by blast
qed

text \<open>Callbacks waiting to be run stay valid while callbacks of later futures run.\<close>

lemma cbs_ok_fr:
  assumes "cbs_ok st f cbs" and "fr g st st'" and "f < g"
  shows "cbs_ok st' f cbs"
proof -
  have "cb_ok st' f cb" if "cb_ok st f cb" for cb
  proof (cases cb)
    case (FGather k i)
    then obtain cs re where k: "f < k" "k < next_fid st" "f_kind (futs st k) = KGather cs re" "i < length cs" "cs ! i = f"
      "i \<notin> g_seen (gath st k)" using \<open>cb_ok st f cb\<close> by (auto simp: cb_ok_def split: fkind.splits)
    have "i \<notin> g_seen (gath st' k)"
    proof
      assume "i \<in> g_seen (gath st' k)"
      then have "(case f_kind (futs st k) of KGather cs _ \<Rightarrow> g \<le> cs ! i | _ \<Rightarrow> False)"
        using assms(2) k(6) unfolding fr_def by blast
      then show False using k assms(3) by simp
    qed
    then show ?thesis using FGather k assms(2) by (simp add: cb_ok_def fr_def)
  qed (use that assms(2) in \<open>auto simp: cb_ok_def fr_def\<close>)
  then show ?thesis using assms(1) by (simp add: cbs_ok_def)
qed

lemma internal_simps [simp]:
  "internal [] = []" "internal (cbs @ cbs') = internal cbs @ internal cbs'"
  "internal (FUser n # cbs) = internal cbs" "internal (FShield g # cbs) = FShield g # internal cbs"
  "internal (FGather g i # cbs) = FGather g i # internal cbs"
  by (simp_all add: internal_def)

lemma in_internal: "FGather g i \<in> set cbs \<longleftrightarrow> FGather g i \<in> set (internal cbs)" "FShield g \<in> set cbs \<longleftrightarrow> FShield g \<in> set (internal cbs)"
  by (auto simp: internal_def)

lemma cbs_okD: "cbs_ok st f (cb # cbs) \<Longrightarrow> cb_ok st f cb \<and> cbs_ok st f cbs"
  by (cases cb) (simp_all add: cbs_ok_def)

lemma upd_fut_simps [simp]:
  "futs (upd_fut f h st) = (futs st)(f := h (futs st f))" "gath (upd_fut f h st) = gath st"
  "next_fid (upd_fut f h st) = next_fid st" "cb_ran (upd_fut f h st) = cb_ran st"
  by (simp_all add: upd_fut_def)

lemma upd_gath_simps [simp]:
  "gath (upd_gath g h st) = (gath st)(g := h (gath st g))" "futs (upd_gath g h st) = futs st"
  "next_fid (upd_gath g h st) = next_fid st" "cb_ran (upd_gath g h st) = cb_ran st"
  by (simp_all add: upd_gath_def)

lemma cb_ok_cong:
  assumes "next_fid st' = next_fid st" and "\<And>h. f_kind (futs st' h) = f_kind (futs st h)"
    and "\<And>g. g_seen (gath st' g) = g_seen (gath st g)"
  shows "cb_ok st' f cb = cb_ok st f cb" and "cbs_ok st' f cbs = cbs_ok st f cbs"
proof -
  show c: "cb_ok st' f cb = cb_ok st f cb" for cb using assms by (simp add: cb_ok_def split: fcb.split)
  show "cbs_ok st' f cbs = cbs_ok st f cbs" by (simp add: cbs_ok_def c)
qed

lemma store_ok_log:
  assumes "futs st' = futs st" and "gath st' = gath st" and "next_fid st' = next_fid st"
  shows "store_ok st' = store_ok st"
  unfolding store_ok_def gather_ok_def cbs_ok_def cb_ok_def assms ..

text \<open>Changing a flag that only logging reads.\<close>

lemma mark_ok:
  assumes "store_ok st" and "f < next_fid st"
  shows "store_ok (mark_exception_retrieved f st)" and "fr h st (mark_exception_retrieved f st)"
proof -
  have c: "cbs_ok (mark_exception_retrieved f st) k cbs = cbs_ok st k cbs" for k cbs
    by (rule cb_ok_cong) (simp_all add: mark_exception_retrieved_def)
  have g: "gather_ok (mark_exception_retrieved f st) k = gather_ok st k" for k
  proof -
    have ov: "slot_filled (futs (mark_exception_retrieved f st) h) = slot_filled (futs st h)"
      "f_kind (futs (mark_exception_retrieved f st) h) = f_kind (futs st h)"
      "f_result (futs (mark_exception_retrieved f st) h) = f_result (futs st h)" for h
      by (simp_all add: mark_exception_retrieved_def slot_filled_log)
    have ge: "gath (mark_exception_retrieved f st) = gath st" by (simp add: mark_exception_retrieved_def)
    show ?thesis unfolding gather_ok_def ge ov by (rule refl)
  qed
  have u: "fut_ok (futs (mark_exception_retrieved f st) k)" for k
  proof -
    have "fut_ok (futs st k)" using assms(1) by (simp add: store_ok_def)
    then show ?thesis by (auto simp: fut_ok_def mark_exception_retrieved_def)
  qed
  have cb: "f_cbs (futs (mark_exception_retrieved f st) k) = f_cbs (futs st k)" for k
    by (simp add: mark_exception_retrieved_def)
  have "\<forall>k \<ge> next_fid (mark_exception_retrieved f st). futs (mark_exception_retrieved f st) k = new_fut KPlain"
    using assms by (simp add: store_ok_def mark_exception_retrieved_def)
  with assms(1) show "store_ok (mark_exception_retrieved f st)" unfolding store_ok_def c g cb using u by blast
  show "fr h st (mark_exception_retrieved f st)" by (simp add: fr_def same_fut_def mark_exception_retrieved_def)
qed

text \<open>Completing a pending future.  A gathering future gets a result only when every slot is filled.\<close>

definition may_complete :: "fid \<Rightarrow> pyexn + fval \<Rightarrow> fstore \<Rightarrow> bool" where
  "may_complete g out st =
     (case (f_kind (futs st g), out) of
        (KGather cs _, Inr v) \<Rightarrow> v = FList (g_results (gath st g)) \<and> g_seen (gath st g) = {..<length cs}
      | _ \<Rightarrow> True)"

lemma complete_ok:
  assumes "store_ok st" and "\<not> is_done g st" and "g < next_fid st" and "may_complete g out st"
    and "complete g out st = (st1, r)"
  shows "store_ok st1" and "stable st st1" and "f < g \<Longrightarrow> fr f st st1" and "r = Inr (f_cbs (futs st g))" and "is_done g st1" and "cbs_ok st1 g (f_cbs (futs st g))"
proof -
  let ?x = "(futs st g)\<lparr>f_done := True, f_event := True, f_cbs := [],
     f_result := (case out of Inl e \<Rightarrow> None | Inr v \<Rightarrow> Some v), f_exc := (case out of Inl e \<Rightarrow> Some e | Inr v \<Rightarrow> None),
     f_log := (case out of Inl e \<Rightarrow> e \<noteq> CancelledErr | Inr v \<Rightarrow> False)\<rparr>"
  have st1: "st1 = upd_fut g (\<lambda>_. ?x) st" and r: "r = Inr (f_cbs (futs st g))"
    using assms(2,5) by (auto simp: complete_def upd_fut_def)
  show "r = Inr (f_cbs (futs st g))" by (fact r)
  show "is_done g st1" by (simp add: st1 is_done_def)
  have c: "cbs_ok st1 k cbs = cbs_ok st k cbs" for k cbs by (rule cb_ok_cong) (simp_all add: st1)
  have "cbs_ok st g (f_cbs (futs st g))" using assms(1) by (simp add: store_ok_def)
  then show "cbs_ok st1 g (f_cbs (futs st g))" by (simp add: c)
  have nd: "\<not> f_done (futs st g)" using assms(2) by (simp add: is_done_def)
  show "fr f st st1" if "f < g" using nd that by (auto simp: fr_def same_fut_def st1)
  show "stable st st1" using nd by (auto simp: stable_def same_fut_def st1)
  have u: "fut_ok (futs st1 k)" for k
  proof -
    have "fut_ok (futs st k)" using assms(1) by (simp add: store_ok_def)
    moreover have "fut_ok ?x" by (simp add: fut_ok_def split: sum.split)
    ultimately show ?thesis by (simp add: st1)
  qed
  have cb: "cbs_ok st k (f_cbs (futs st1 k))" for k
    using assms(1) by (simp add: st1 store_ok_def) (simp add: cbs_ok_def)
  have kinds: "f_kind (futs st1 k) = f_kind (futs st k)" for k by (auto simp: st1)
  have ga: "gather_ok st1 k" for k
  proof (cases "f_kind (futs st k)")
    case (KGather cs re)
    have gk: "gather_ok st k" using assms(1) by (simp add: store_ok_def)
    have other: "cs ! i \<noteq> g" if "i \<in> g_seen (gath st k)" for i using gk KGather nd that by (auto simp: gather_ok_def slot_filled_def)
    have res: "f_result (futs st1 k) \<noteq> None \<longrightarrow> f_result (futs st1 k) = Some (FList (g_results (gath st k)))
        \<and> g_seen (gath st k) = {..<length cs}"
      using gk KGather assms(4) by (cases "k = g"; cases out) (auto simp: gather_ok_def st1 may_complete_def)
    have kind: "f_kind (futs st1 k) = KGather cs re" using KGather by (auto simp: st1)
    have same: "futs st1 (cs ! i) = futs st (cs ! i)" if "i \<in> g_seen (gath st k)" for i using other [OF that] by (simp add: st1)
    have ge: "gath st1 = gath st" by (simp add: st1)
    show ?thesis using gk res KGather kind same ge by (simp add: gather_ok_def)
  qed (simp_all add: gather_ok_def kinds)
  have "\<forall>k \<ge> next_fid st1. futs st1 k = new_fut KPlain" using assms(1,3) by (simp add: store_ok_def st1)
  then show "store_ok st1" unfolding store_ok_def c using u cb ga by blast
qed

text \<open>A child reports to its gathering future.\<close>

lemma seen_ok:
  assumes "store_ok st" and "cb_ok st f (FGather g i)" and "f_done (futs st f)" and "\<not> is_done g st"
    and "f_kind (futs st g) = KGather cs re" and "re \<or> f_exc (futs st f) = None"
    and "st2 = upd_gath g (\<lambda>x. x\<lparr>g_results := (g_results x)[i := outcome_val (futs st f)], g_remaining := g_remaining x - 1,
                        g_seen := insert i (g_seen x)\<rparr>) st"
  shows "store_ok st2" and "fr f st st2"
    and "g_remaining (gath st2 g) = 0 \<Longrightarrow> g_seen (gath st2 g) = {..<length cs}"
proof -
  have i: "i < length cs" "cs ! i = f" "i \<notin> g_seen (gath st g)" "f < g" "g < next_fid st"
    using assms(2,5) by (auto simp: cb_ok_def)
  have gk: "gather_ok st g" using assms(1) by (simp add: store_ok_def)
  then have fs: "finite (g_seen (gath st g))" using assms(5) finite_subset [of _ "{..<length cs}"] by (simp add: gather_ok_def)
  then have fin: "card (insert i (g_seen (gath st g))) = Suc (card (g_seen (gath st g)))" using i(3) by simp
  have sub: "insert i (g_seen (gath st g)) \<subseteq> {..<length cs}" using gk assms(5) i by (simp add: gather_ok_def)
  then have le: "card (insert i (g_seen (gath st g))) \<le> length cs" using card_mono [of "{..<length cs}"] by simp
  show "g_seen (gath st2 g) = {..<length cs}" if "g_remaining (gath st2 g) = 0"
  proof -
    have "length cs \<le> card (insert i (g_seen (gath st g)))" using that gk assms(5) fin by (simp add: assms(7) gather_ok_def)
    then have "insert i (g_seen (gath st g)) = {..<length cs}" using sub by (intro card_seteq) auto
    then show ?thesis by (simp add: assms(7))
  qed
  show "fr f st st2" using i assms(5) by (auto simp: fr_def same_fut_def assms(7))
  have u: "\<forall>k. fut_ok (futs st2 k)" using assms(1) by (simp add: store_ok_def assms(7))
  have slots: "slot_filled (futs st (cs ! j)) re ((g_results (gath st g))[i := outcome_val (futs st f)] ! j)"
    if "j \<in> insert i (g_seen (gath st g))" for j
  proof (cases "j = i")
    case True
    then show ?thesis using i gk assms(3,5,6) by (auto simp: slot_filled_def gather_ok_def)
  next
    case False
    then have "j \<in> g_seen (gath st g)" using that by simp
    then show ?thesis using False gk assms(5) by (auto simp: gather_ok_def)
  qed
  have nr: "f_result (futs st g) = None" using assms(1,4) by (auto simp: store_ok_def fut_ok_def is_done_def)
  have ga: "gather_ok st2 k" for k
  proof (cases "k = g")
    case True
    have "slot_filled (futs st (cs ! i)) re (outcome_val (futs st f))" using i assms(3,6) by (simp add: slot_filled_def)
    then show ?thesis using gk slots sub fin le nr assms(5) True by (simp add: gather_ok_def assms(7))
  next
    case False
    then have e: "gath st2 k = gath st k" "futs st2 = futs st" by (simp_all add: assms(7))
    have "gather_ok st k" using assms(1) by (simp add: store_ok_def)
    then show ?thesis unfolding gather_ok_def e .
  qed
  have cb: "cbs_ok st2 k (f_cbs (futs st2 k))" for k
  proof -
    have ok: "cbs_ok st k (f_cbs (futs st k))" using assms(1) by (simp add: store_ok_def)
    have "FGather g i \<notin> set (f_cbs (futs st k))"
    proof
      assume m: "FGather g i \<in> set (f_cbs (futs st k))"
      then have "cb_ok st k (FGather g i)" using ok by (simp add: cbs_ok_def)
      then have "k = f" using i assms(5) by (simp add: cb_ok_def)
      moreover have "f_cbs (futs st f) = []" using assms(1,3) by (simp add: store_ok_def fut_ok_def)
      ultimately show False using m by simp
    qed
    then have "cb_ok st2 k cb" if "cb \<in> set (f_cbs (futs st k))" for cb
      using ok that by (auto simp: cbs_ok_def cb_ok_def assms(7) split: fcb.split)
    then show ?thesis using ok by (simp add: cbs_ok_def assms(7))
  qed
  have "\<forall>k \<ge> next_fid st2. futs st2 k = new_fut KPlain" using assms(1) by (simp add: store_ok_def assms(7))
  then show "store_ok st2" unfolding store_ok_def using u ga cb by blast
qed

text \<open>One callback, up to the callbacks it makes due.\<close>

definition next_ok :: "fstore \<Rightarrow> fid \<Rightarrow> cb_next \<Rightarrow> bool" where
  "next_ok st f nx = (case nx of CDone _ \<Rightarrow> True | CRun g cbs _ \<Rightarrow> f < g \<and> g < next_fid st \<and> is_done g st \<and> cbs_ok st g cbs)"

lemma then_run_ok:
  assumes "store_ok st" and "\<not> is_done g st" and "g < next_fid st" and "may_complete g out st" and "f < g"
    and "then_run g masked (complete g out st) = (st1, nx)"
  shows "store_ok st1 \<and> fr f st st1 \<and> next_ok st1 f nx"
proof -
  obtain st2 r where c: "complete g out st = (st2, r)" by fastforce
  note ok = complete_ok [OF assms(1-4) c] and fr = complete_ok(3) [OF assms(1-4) c assms(5)]
  have e: "st1 = st2" "nx = CRun g (f_cbs (futs st g)) masked" using assms(6) c ok(4) by (simp_all add: then_run_def)
  have "next_fid st2 = next_fid st" using fr by (simp add: fr_def)
  then show ?thesis using ok(1,5,6) fr e assms(3,5) by (simp add: next_ok_def)
qed

lemma complete_from_child_ok:
  assumes "store_ok st" and "cb_ok st f (FShield g)" and "f_done (futs st f)" and "f < next_fid st"
    and "complete_from_child g f st = (st1, nx)"
  shows "store_ok st1 \<and> fr f st st1 \<and> next_ok st1 f nx"
proof (cases "is_done g st")
  case True
  then show ?thesis using assms(1,5) by (auto simp: complete_from_child_def next_ok_def)
next
  case False
  let ?m = "mark_exception_retrieved f st"
  have g: "f < g" "g < next_fid st" "f_kind (futs st g) = KShield f" using assms(2) by (simp_all add: cb_ok_def)
  note m = mark_ok [OF assms(1,4)]
  have nd: "\<not> is_done g ?m" "g < next_fid ?m" using False g by (auto simp: is_done_def mark_exception_retrieved_def)
  have mc: "may_complete g out ?m" for out using g by (simp add: may_complete_def mark_exception_retrieved_def)
  have r: "fst (fut_result f st) = ?m" using assms(3) by (simp add: fut_result_def is_done_def Let_def split: option.split)
  obtain out masked where "then_run g masked (complete g out ?m) = (st1, nx)"
    using assms(5) False r by (cases "fut_result f st"; cases "snd (fut_result f st)") (auto simp: complete_from_child_def)
  from then_run_ok [OF m(1) nd(1,2) mc g(1) this] show ?thesis using fr_trans [OF m(2) [of f]] by blast
qed

lemma child_done_ok:
  assumes "store_ok st" and "cb_ok st f (FGather g i)" and "f_done (futs st f)" and "f < next_fid st"
    and "child_done g i f st = (st1, nx)"
  shows "store_ok st1 \<and> fr f st st1 \<and> next_ok st1 f nx"
proof (cases "is_done g st")
  case True
  then show ?thesis using assms(1,5) by (auto simp: child_done_def next_ok_def)
next
  case False
  obtain cs re where k: "f_kind (futs st g) = KGather cs re" and fg: "f < g" "g < next_fid st"
    using assms(2) by (auto simp: cb_ok_def split: fkind.splits)
  let ?m = "if f_exc (futs st f) = None then st else mark_exception_retrieved f st"
  have m: "store_ok ?m" "fr f st ?m" using assms(1) mark_ok [OF assms(1,4)] by simp_all
  have s0: "f_kind (futs (mark_exception_retrieved f st) g) = KGather cs re" "is_done g (mark_exception_retrieved f st) = is_done g st"
    "outcome_val (futs (mark_exception_retrieved f st) f) = outcome_val (futs st f)"
    "f_exc (futs (mark_exception_retrieved f st) f) = f_exc (futs st f)" "f_done (futs (mark_exception_retrieved f st) f)"
    "next_fid (mark_exception_retrieved f st) = next_fid st"
    using k assms(3) fg by (simp_all add: is_done_def mark_exception_retrieved_def outcome_val_def split: option.split)
  have s: "f_kind (futs ?m g) = KGather cs re" "is_done g ?m = is_done g st" "next_fid ?m = next_fid st" "f_exc (futs ?m f) = f_exc (futs st f)"
    "f_done (futs ?m f)" "outcome_val (futs ?m f) = outcome_val (futs st f)"
    using k assms(3) s0 by simp_all
  have cb: "cb_ok ?m f (FGather g i)" using assms(2) k by (auto simp: cb_ok_def mark_exception_retrieved_def)
  show ?thesis
  proof (cases "f_exc (futs st f) \<noteq> None \<and> \<not> re")
    case True
    then have run: "then_run g False (complete g (Inl (the (f_exc (futs st f)))) ?m) = (st1, nx)"
      using assms(5) False k by (simp add: child_done_def Let_def)
    have mc: "may_complete g (Inl (the (f_exc (futs st f)))) ?m" unfolding may_complete_def s(1) by simp
    have nd: "\<not> is_done g ?m" "g < next_fid ?m" unfolding s(2,3) using False fg by simp_all
    show ?thesis using then_run_ok [OF m(1) nd mc fg(1) run] fr_trans [OF m(2) _ order_refl] by blast
  next
    case re: False
    let ?s2 = "upd_gath g (\<lambda>x. x\<lparr>g_results := (g_results x)[i := outcome_val (futs ?m f)], g_remaining := g_remaining x - 1,
                        g_seen := insert i (g_seen x)\<rparr>) ?m"
    have sn: "store_ok ?s2" "fr f ?m ?s2" "g_remaining (gath ?s2 g) = 0 \<Longrightarrow> g_seen (gath ?s2 g) = {..<length cs}"
    proof -
      have nd: "\<not> is_done g ?m" unfolding s(2) by (fact False)
      have ok: "re \<or> f_exc (futs ?m f) = None" unfolding s(4) using re by blast
      note so = seen_ok [OF m(1) cb s(5) nd s(1) ok refl]
      show "store_ok ?s2" "fr f ?m ?s2" by (fact so(1), fact so(2))
      show "g_remaining (gath ?s2 g) = 0 \<Longrightarrow> g_seen (gath ?s2 g) = {..<length cs}" by (fact so(3))
    qed
    have fr2: "fr f st ?s2" using fr_trans [OF m(2) sn(2)] by simp
    have cd: "child_done g i f st = (if g_remaining (gath ?s2 g) = 0
               then then_run g False (complete g (if g_cancel_requested (gath ?s2 g) then Inl CancelledErr
                                                  else Inr (FList (g_results (gath ?s2 g)))) ?s2)
               else (?s2, CDone (Inr ())))"
    proof -
      have eq: "(case f_kind (futs st g) of KGather _ re \<Rightarrow> re | _ \<Rightarrow> False) = re" by (simp add: k)
      show ?thesis unfolding child_done_def Let_def eq s(6) unfolding outcome_val_def by (simp only: False re if_False)
    qed
    show ?thesis
    proof (cases "g_remaining (gath ?s2 g) = 0")
      case True
      let ?out = "if g_cancel_requested (gath ?s2 g) then Inl CancelledErr else Inr (FList (g_results (gath ?s2 g)))"
      have "may_complete g ?out ?s2" using sn(3) [OF True] s(1) by (simp add: may_complete_def)
      moreover have "\<not> is_done g ?s2" "g < next_fid ?s2" using False s(2,3) fg by (simp_all add: is_done_def)
      moreover have "then_run g False (complete g ?out ?s2) = (st1, nx)" using cd True assms(5) by simp
      ultimately show ?thesis using then_run_ok [OF sn(1) _ _ _ fg(1)] fr_trans [OF fr2 _ order_refl] by blast
    next
      case False
      then show ?thesis using cd assms(5) sn(1) fr2 by (simp add: next_ok_def)
    qed
  qed
qed

lemma gath_simps [simp]:
  "gath (fst (complete g out st)) = gath st" "fst (then_run g masked r) = fst r"
  "gath (mark_exception_retrieved f st) = gath st" "gath (fst (fut_result f st)) = gath st"
  by (simp_all add: complete_def then_run_def mark_exception_retrieved_def fut_result_def Let_def split: prod.split sum.split option.split)

lemma complete_from_child_gath: "gath (fst (complete_from_child g f st)) = gath st"
proof (cases "fut_result f st")
  case (Pair st1 r)
  then have "gath st1 = gath st" using gath_simps(4) [of f st] by simp
  then show ?thesis using Pair by (cases r) (simp_all add: complete_from_child_def)
qed

lemma child_done_seen: "j \<in> g_seen (gath (fst (child_done g i f st)) h) \<Longrightarrow> j \<in> g_seen (gath st h) \<or> h = g \<and> j = i"
  by (auto simp: child_done_def Let_def split: if_splits)

lemma cb_step_ok:
  assumes "store_ok st" and "cbs_ok st f (cb # cbs)" and "f_done (futs st f)" and "f < next_fid st"
    and "cb_step ucb f cb st = (st1, nx)"
  shows "store_ok st1" and "fr f st st1" and "next_ok st1 f nx" and "cbs_ok st1 f cbs"
proof -
  have cb: "cb_ok st f cb" and rest: "cbs_ok st f cbs" using cbs_okD [OF assms(2)] by simp_all
  have all: "store_ok st1 \<and> fr f st st1 \<and> next_ok st1 f nx"
  proof (cases cb)
    case (FUser n)
    then have e: "st1 = st\<lparr>cb_ran := cb_ran st @ [(f, n)]\<rparr>" and n: "next_ok st1 f nx"
      using assms(5) by (auto simp: cb_step_def next_ok_def)
    have "store_ok st1 = store_ok st" by (rule store_ok_log) (simp_all add: e)
    then show ?thesis using assms(1) n by (simp add: e fr_def same_fut_def)
  next
    case (FShield g)
    then show ?thesis using complete_from_child_ok [OF assms(1) _ assms(3,4)] cb assms(5) by (simp add: cb_step_def)
  next
    case (FGather g i)
    then show ?thesis using child_done_ok [OF assms(1) _ assms(3,4)] cb assms(5) by (simp add: cb_step_def)
  qed
  then show "store_ok st1" "fr f st st1" "next_ok st1 f nx" by simp_all
  have seen: "j \<in> g_seen (gath st1 h) \<Longrightarrow> j \<in> g_seen (gath st h) \<or> cb = FGather h j" for h j
    using assms(5) child_done_seen [of j _ _ f st h] complete_from_child_gath [of _ f st]
    by (cases cb) (auto simp: cb_step_def, (metis fst_conv)+)
  have fresh: "c \<noteq> cb" if "c \<in> set cbs" "\<And>n. c \<noteq> FUser n" for c
    using assms(2) that in_internal by (cases cb) (auto simp: cbs_ok_def internal_def)
  have "cb_ok st1 f c" if c: "c \<in> set cbs" for c
  proof (cases c)
    case (FGather h j)
    have "cb_ok st f c" using rest c by (simp add: cbs_ok_def)
    moreover have "j \<notin> g_seen (gath st1 h)" using seen [of j h] fresh [OF c] FGather \<open>cb_ok st f c\<close> by (auto simp: cb_ok_def)
    ultimately show ?thesis using FGather all by (simp add: cb_ok_def fr_def)
  qed (use rest c all in \<open>auto simp: cbs_ok_def cb_ok_def fr_def\<close>)
  then show "cbs_ok st1 f cbs" using rest by (simp add: cbs_ok_def)
qed

lemma run_cbs_ok:
  "store_ok st \<Longrightarrow> cbs_ok st f cbs \<Longrightarrow> f_done (futs st f) \<Longrightarrow> f < next_fid st \<Longrightarrow> next_fid st \<le> f + fuel + 1 \<Longrightarrow>
    \<exists>st' r. run_cbs ucb fuel f cbs st = Some (st', r) \<and> store_ok st' \<and> fr f st st'"
proof (induction ucb fuel f cbs st rule: run_cbs.induct)
  case (1 ucb fuel f st)
  then show ?case by simp
next
  case (2 ucb fuel f cb cbs st)
  obtain st1 nx where s: "cb_step ucb f cb st = (st1, nx)" by fastforce
  note ok = cb_step_ok [OF "2.prems"(1-4) s]
  have f1: "f_done (futs st1 f)" "next_fid st1 = next_fid st" using ok(2) "2.prems"(3) by (auto simp: fr_def same_fut_def)
  show ?case
  proof (cases nx)
    case (CDone r)
    show ?thesis
    proof (cases r)
      case (Inl e)
      then show ?thesis using s CDone ok by simp
    next
      case (Inr u)
      from "2.IH"(1) [OF s [symmetric] CDone Inr ok(1,4) f1(1)] "2.prems"(4,5) f1(2)
      obtain st2 r2 where "run_cbs ucb fuel f cbs st1 = Some (st2, r2)" "store_ok st2" "fr f st1 st2" by auto
      then show ?thesis using s CDone Inr fr_trans [OF ok(2) _ order_refl] by auto
    qed
  next
    case (CRun g gcbs masked)
    then have g: "f < g" "g < next_fid st1" "is_done g st1" "cbs_ok st1 g gcbs" using ok(3) by (simp_all add: next_ok_def)
    obtain k where k: "fuel = Suc k" using g "2.prems"(5) f1(2) by (cases fuel) auto
    have "f_done (futs st1 g)" "next_fid st1 \<le> g + k + 1" using g k "2.prems"(5) f1(2) by (auto simp: is_done_def)
    from "2.IH"(2) [OF s [symmetric] CRun k ok(1) g(4) this(1) g(2) this(2)]
    obtain st2 r where r: "run_cbs ucb k g gcbs st1 = Some (st2, r)" "store_ok st2" "fr g st1 st2" by auto
    have f2: "f_done (futs st2 f)" "next_fid st2 = next_fid st" "cbs_ok st2 f cbs" "fr f st st2"
      using r(3) f1 cbs_ok_fr [OF ok(4) r(3) g(1)] fr_trans [OF ok(2) r(3)] g(1) by (auto simp: fr_def same_fut_def)
    show ?thesis
    proof (cases "mask masked r")
      case (Inl e)
      then show ?thesis using s CRun k r f2 by simp
    next
      case (Inr u)
      from "2.IH"(3) [OF s [symmetric] CRun k r(1) refl Inr r(2) f2(3,1)] "2.prems"(4,5) f2(2)
      obtain st3 r3 where "run_cbs ucb fuel f cbs st2 = Some (st3, r3)" "store_ok st3" "fr f st2 st3" by (auto simp: k)
      then show ?thesis using s CRun k r Inr fr_trans [OF f2(4) _ order_refl] by auto
    qed
  qed
qed

section \<open>Operations keep the invariant\<close>

text \<open>An operation that ends (with fuel to spare) in a good store that extends the old one.\<close>

definition ends_ok :: "fstore \<Rightarrow> 'a fres \<Rightarrow> bool" where
  "ends_ok st r = (case r of None \<Rightarrow> False | Some (st', _) \<Rightarrow> store_ok st' \<and> stable st st')"

lemma ends_okI: "r = Some (st', x) \<Longrightarrow> store_ok st' \<Longrightarrow> stable st st' \<Longrightarrow> ends_ok st r"
  by (simp add: ends_ok_def)

lemma finish_ok:
  assumes "store_ok st" and "f < next_fid st" and "may_complete f out st"
  shows "ends_ok st (finish ucb f out st)"
proof (cases "is_done f st")
  case True
  then show ?thesis using assms(1) by (simp add: finish_def complete_def ends_ok_def)
next
  case False
  obtain st1 r where c: "complete f out st = (st1, r)" by fastforce
  note ok = complete_ok [OF assms(1) False assms(2,3) c]
  have "next_fid st1 = next_fid st" using c False by (auto simp: complete_def)
  then obtain st2 r2 where "run_cbs ucb (next_fid st) f (f_cbs (futs st f)) st1 = Some (st2, r2)" "store_ok st2" "fr f st1 st2"
    using run_cbs_ok [OF ok(1,6), of "next_fid st" ucb] ok(5) assms(2) by (auto simp: is_done_def)
  then show ?thesis using c ok(4) stable_trans [OF ok(2) fr_stable] by (simp add: finish_def ends_ok_def)
qed

lemma run_next_ok:
  assumes "store_ok st" and "next_ok st f nx" and "next_fid st \<le> f + fuel + 2"
  shows "ends_ok st (run_next ucb fuel (st, nx))"
proof (cases nx)
  case (CDone r) then show ?thesis using assms(1) by (simp add: run_next_def ends_ok_def)
next
  case (CRun g cbs masked)
  then have g: "f < g" "g < next_fid st" "f_done (futs st g)" "cbs_ok st g cbs"
    using assms(2) by (simp_all add: next_ok_def is_done_def)
  then obtain st2 r2 where "run_cbs ucb fuel g cbs st = Some (st2, r2)" "store_ok st2" "fr g st st2"
    using run_cbs_ok [OF assms(1) g(4,3,2), of fuel ucb] assms(3) by auto
  then show ?thesis using CRun fr_stable by (auto simp: run_next_def ends_ok_def)
qed

lemma add_callback_ok:
  assumes "store_ok st" and "f < next_fid st" and "\<not> is_done f st" and "cb_ok st f cb"
    and "cb \<notin> set (internal (f_cbs (futs st f)))"
  shows "store_ok (add_internal f cb st) \<and> stable st (add_internal f cb st)"
proof -
  let ?s = "add_internal f cb st"
  have c: "cbs_ok ?s k cbs = cbs_ok st k cbs" for k cbs by (rule cb_ok_cong) (simp_all add: add_internal_def)
  have nd: "\<not> f_done (futs st f)" using assms(3) by (simp add: is_done_def)
  have u: "fut_ok (futs ?s k)" for k
  proof -
    have "fut_ok (futs st k)" using assms(1) by (simp add: store_ok_def)
    then show ?thesis using nd by (auto simp: fut_ok_def add_internal_def)
  qed
  have cb: "cbs_ok st k (f_cbs (futs ?s k))" for k
  proof -
    have "cbs_ok st k (f_cbs (futs st k))" using assms(1) by (simp add: store_ok_def)
    then show ?thesis using assms(4,5) by (cases cb) (auto simp: add_internal_def cbs_ok_def)
  qed
  have ga: "gather_ok ?s k" for k
  proof -
    have gk: "gather_ok st k" using assms(1) by (simp add: store_ok_def)
    have e: "slot_filled (futs ?s h) = slot_filled (futs st h)" "f_kind (futs ?s h) = f_kind (futs st h)"
      "f_result (futs ?s h) = f_result (futs st h)" "gath ?s = gath st" for h
      by (auto simp: add_internal_def slot_filled_def outcome_val_def fun_eq_iff split: option.split)
    show ?thesis using gk unfolding gather_ok_def e .
  qed
  have "\<forall>k \<ge> next_fid ?s. futs ?s k = new_fut KPlain" using assms(1,2) by (simp add: store_ok_def add_internal_def)
  then have "store_ok ?s" unfolding store_ok_def c using u cb ga by blast
  moreover have "stable st ?s" using nd by (auto simp: stable_def add_internal_def same_fut_def)
  ultimately show ?thesis ..
qed

text \<open>Allocating a future, with an initialised gather state.\<close>

definition kind_ok :: "fstore \<Rightarrow> fkind \<Rightarrow> gstate \<Rightarrow> bool" where
  "kind_ok st k gs = (case k of KGather cs _ \<Rightarrow> set cs \<subseteq> {..<next_fid st} \<and> length (g_results gs) = length cs
     \<and> g_remaining gs = length cs \<and> g_seen gs = {} | _ \<Rightarrow> True)"

definition alloc_with :: "fkind \<Rightarrow> gstate \<Rightarrow> fstore \<Rightarrow> fstore" where
  "alloc_with k gs st = st\<lparr>futs := (futs st)(next_fid st := new_fut k), gath := (gath st)(next_fid st := gs), next_fid := Suc (next_fid st)\<rparr>"

lemma cb_ok_old: "cb_ok st f cb \<Longrightarrow> cb_ok (alloc_with k gs st) f cb"
  by (cases cb) (auto simp: cb_ok_def alloc_with_def split: fkind.splits)

lemma alloc_ok:
  assumes "store_ok st" and "kind_ok st k gs"
  shows "store_ok (alloc_with k gs st) \<and> stable st (alloc_with k gs st)"
proof -
  let ?s = "alloc_with k gs st" and ?n = "next_fid st"
  have u: "fut_ok (futs ?s f)" for f
    using assms(1) by (simp add: store_ok_def alloc_with_def) (simp add: fut_ok_def new_fut_def)
  have cb: "cbs_ok ?s f (f_cbs (futs ?s f))" for f
  proof (cases "f = ?n")
    case True then show ?thesis by (simp add: alloc_with_def new_fut_def cbs_ok_def)
  next
    case False
    then have "f_cbs (futs ?s f) = f_cbs (futs st f)" "cbs_ok st f (f_cbs (futs st f))"
      using assms(1) by (simp_all add: alloc_with_def store_ok_def)
    then show ?thesis using cb_ok_old by (auto simp: cbs_ok_def)
  qed
  have ga: "gather_ok ?s g" for g
  proof (cases "g = ?n")
    case True
    then show ?thesis using assms(2)
      by (auto simp: gather_ok_def alloc_with_def new_fut_def kind_ok_def split: fkind.splits)
  next
    case False
    have gk: "gather_ok st g" using assms(1) by (simp add: store_ok_def)
    show ?thesis
    proof (cases "f_kind (futs st g)")
      case (KGather cs re)
      have "cs ! i \<noteq> ?n" if "i \<in> g_seen (gath st g)" for i
      proof
        assume e: "cs ! i = ?n"
        have "slot_filled (futs st (cs ! i)) re (g_results (gath st g) ! i)" using gk KGather that by (simp add: gather_ok_def)
        moreover have "futs st ?n = new_fut KPlain" using assms(1) by (simp add: store_ok_def)
        ultimately show False using e by (simp add: slot_filled_def new_fut_def)
      qed
      then have "slot_filled (futs ?s (cs ! i)) re v = slot_filled (futs st (cs ! i)) re v" if "i \<in> g_seen (gath st g)" for i v
        using that by (simp add: alloc_with_def)
      moreover have "f_kind (futs ?s g) = KGather cs re" "gath ?s g = gath st g" "f_result (futs ?s g) = f_result (futs st g)"
        using False KGather by (simp_all add: alloc_with_def)
      ultimately show ?thesis using gk KGather by (simp add: gather_ok_def)
    qed (use False in \<open>simp_all add: gather_ok_def alloc_with_def\<close>)
  qed
  have "\<forall>h \<ge> next_fid ?s. futs ?s h = new_fut KPlain" using assms(1) by (auto simp: store_ok_def alloc_with_def)
  then have "store_ok ?s" unfolding store_ok_def using u cb ga by blast
  moreover have "stable st ?s" by (auto simp: stable_def alloc_with_def same_fut_def)
  ultimately show ?thesis ..
qed

lemma ends_ok_then:
  "ends_ok st (case r of None \<Rightarrow> None | Some (s, Inl e) \<Rightarrow> Some (s, Inl e) | Some (s, Inr u) \<Rightarrow> Some (s, Inr (h u)))
    = ends_ok st r"
  by (auto simp: ends_ok_def split: option.split sum.split)

lemma ends_ok_stable: "stable st st1 \<Longrightarrow> ends_ok st1 r \<Longrightarrow> ends_ok st r"
  by (auto simp: ends_ok_def dest: stable_trans split: option.splits prod.splits)

lemma shield_ok:
  assumes "store_ok st" and "f < next_fid st"
  shows "ends_ok st (shield ucb f st)"
proof -
  let ?g = "next_fid st" and ?s = "alloc_with (KShield f) no_gath st"
  have a: "alloc (KShield f) st = (?s, ?g)" by (simp add: alloc_def alloc_with_def Let_def)
  have s: "store_ok ?s" "stable st ?s" using alloc_ok [OF assms(1), of "KShield f" no_gath] by (simp_all add: kind_ok_def)
  have n: "next_fid ?s = Suc ?g" "f_kind (futs ?s ?g) = KShield f" "f_cbs (futs ?s f) = f_cbs (futs st f)" "is_done f ?s = is_done f st"
    using assms(2) by (simp_all add: alloc_with_def new_fut_def is_done_def)
  have cb: "cb_ok ?s f (FShield ?g)" using assms(2) n by (simp add: cb_ok_def)
  show ?thesis
  proof (cases "is_done f ?s")
    case True
    obtain st1 nx where c: "complete_from_child ?g f ?s = (st1, nx)" by fastforce
    have ok: "store_ok st1" "fr f ?s st1" "next_ok st1 f nx"
      using complete_from_child_ok [OF s(1) cb _ _ c] True n(1) assms(2) by (simp_all add: is_done_def)
    then have "ends_ok st1 (run_next ucb (next_fid st) (st1, nx))"
      using n(1) by (intro run_next_ok [of _ f]) (simp_all add: fr_def)
    then have "ends_ok st (run_next ucb (next_fid st) (st1, nx))"
      using ends_ok_stable stable_trans [OF s(2) fr_stable [OF ok(2)]] by blast
    then show ?thesis using a True c by (simp add: shield_def ends_ok_then)
  next
    case False
    have "FShield ?g \<notin> set (f_cbs (futs st f))"
    proof
      assume "FShield ?g \<in> set (f_cbs (futs st f))"
      then have "cb_ok st f (FShield ?g)" using assms(1) by (simp add: store_ok_def cbs_ok_def)
      then show False by (simp add: cb_ok_def)
    qed
    then have "store_ok (add_internal f (FShield ?g) ?s) \<and> stable ?s (add_internal f (FShield ?g) ?s)"
      using add_callback_ok [OF s(1) _ False cb] n assms(2) in_internal(2) by auto
    then show ?thesis using a False stable_trans [OF s(2)] by (simp add: shield_def ends_ok_def)
  qed
qed

text \<open>Attaching the children: the gathering future is new, so it has no callbacks to run yet.\<close>

definition attaching :: "fstore \<Rightarrow> fid \<Rightarrow> nat \<Rightarrow> fid list \<Rightarrow> bool \<Rightarrow> bool" where
  "attaching st g index cs re \<longleftrightarrow>
     store_ok st \<and> g < next_fid st \<and> f_kind (futs st g) = KGather cs re \<and> f_cbs (futs st g) = []
     \<and> (\<forall>f j. FGather g j \<in> set (f_cbs (futs st f)) \<longrightarrow> j < index) \<and> g_seen (gath st g) \<subseteq> {..<index}"

lemma child_done_new:
  assumes "f_cbs (futs st g) = []"
  shows "run_next ucb fuel (child_done g i f st) = Some (fst (child_done g i f st), Inr ())"
    and "f_cbs (futs (fst (child_done g i f st)) h) = f_cbs (futs st h)"
  using assms by (auto simp: child_done_def then_run_def complete_def run_next_def mask_def is_done_def
      mark_exception_retrieved_def Let_def)

lemma attach_ok:
  "attaching st g index cs re \<Longrightarrow> rest = drop index cs \<Longrightarrow> index \<le> length cs \<Longrightarrow> ends_ok st (attach ucb g index rest st)"
proof (induction rest arbitrary: index st)
  case Nil
  then show ?case by (simp add: ends_ok_def attaching_def)
next
  case (Cons child rest)
  have ix: "index < length cs" "cs ! index = child" "rest = drop (Suc index) cs"
    using Cons.prems(2,3) by (metis drop_all list.simps(3) not_le, metis Cons_nth_drop_Suc drop_all list.inject list.simps(3) not_le,
        metis Cons_nth_drop_Suc drop_all list.inject list.simps(3) not_le)
  have at: "store_ok st" "g < next_fid st" "f_kind (futs st g) = KGather cs re" "f_cbs (futs st g) = []"
    "\<And>f j. FGather g j \<in> set (f_cbs (futs st f)) \<Longrightarrow> j < index" "g_seen (gath st g) \<subseteq> {..<index}"
    using Cons.prems(1) by (auto simp: attaching_def)
  have "gather_ok st g" using at(1) by (simp add: store_ok_def)
  then have lt: "child < g" using ix at(3) by (auto simp: gather_ok_def)
  have cb: "cb_ok st child (FGather g index)" using lt ix at by (auto simp: cb_ok_def)
  show ?case
  proof (cases "is_done child st")
    case True
    let ?s = "fst (child_done g index child st)"
    have ok: "store_ok ?s \<and> fr child st ?s"
      using child_done_ok [OF at(1) cb, of ?s "snd (child_done g index child st)"] True lt at(2) by (simp add: is_done_def)
    have "g_seen (gath ?s g) \<subseteq> {..<Suc index}" using child_done_seen [of _ g index child st g] at(6) by force
    moreover have "j < Suc index" if "FGather g j \<in> set (f_cbs (futs ?s f))" for f j
      using at(5) [of j f] that child_done_new(2) [OF at(4)] by simp
    ultimately have "attaching ?s g (Suc index) cs re"
      using ok at child_done_new(2) [OF at(4)] by (simp add: attaching_def fr_def)
    from Cons.IH [OF this ix(3)] ix(1) have "ends_ok ?s (attach ucb g (Suc index) rest ?s)" by simp
    then have "ends_ok st (attach ucb g (Suc index) rest ?s)" using ends_ok_stable [OF fr_stable] ok by blast
    then show ?thesis using True child_done_new(1) [OF at(4)] by simp
  next
    case False
    let ?s = "add_internal child (FGather g index) st"
    have "FGather g index \<notin> set (internal (f_cbs (futs st child)))" using at(5) in_internal(1) by blast
    then have ok: "store_ok ?s \<and> stable st ?s" using add_callback_ok [OF at(1) _ False cb] lt at(2) by simp
    have "j < Suc index" if "FGather g j \<in> set (f_cbs (futs ?s f))" for f j
      using at(5) [of j f] that by (auto simp: add_internal_def split: if_splits dest: at(5))
    then have "attaching ?s g (Suc index) cs re"
      using ok at lt by (auto simp: attaching_def add_internal_def)
    from Cons.IH [OF this ix(3)] ix(1) have "ends_ok ?s (attach ucb g (Suc index) rest ?s)" by simp
    then have "ends_ok st (attach ucb g (Suc index) rest ?s)" using ends_ok_stable ok by blast
    then show ?thesis using False by simp
  qed
qed

lemma gather_op_ok:
  assumes "store_ok st" and "set cs \<subseteq> {..<next_fid st}"
  shows "ends_ok st (gather ucb cs re st)"
proof -
  let ?g = "next_fid st"
  let ?gs = "\<lparr>g_results = replicate (length cs) FNone, g_remaining = length cs, g_cancel_requested = False, g_seen = {}\<rparr>"
  let ?s = "alloc_with (KGather cs re) ?gs st"
  have s: "store_ok ?s" "stable st ?s" using alloc_ok [OF assms(1), of "KGather cs re" ?gs] assms(2) by (simp_all add: kind_ok_def)
  have sg: "f_kind (futs ?s ?g) = KGather cs re" "f_cbs (futs ?s ?g) = []" "g_seen (gath ?s ?g) = {}" "?g < next_fid ?s"
    by (simp_all add: alloc_with_def new_fut_def)
  obtain st1 where a: "alloc (KGather cs re) st = (st1, ?g)" by (simp add: alloc_def Let_def)
  have "ends_ok ?s (if cs = [] then set_result ucb ?g (FList []) st1 else attach ucb ?g 0 cs (upd_gath ?g (\<lambda>x. x\<lparr>g_results := replicate (length cs) FNone,
                        g_remaining := length cs\<rparr>) st1))"
  proof (cases "cs = []")
    case True
    then have e: "st1 = ?s" using a by (auto simp: alloc_def alloc_with_def no_gath_def Let_def)
    have "may_complete ?g (Inr (FList [])) ?s" using True by (simp add: may_complete_def alloc_with_def new_fut_def)
    then show ?thesis using True finish_ok [OF s(1) sg(4)] by (simp add: e set_result_def)
  next
    case False
    have e: "upd_gath ?g (\<lambda>x. x\<lparr>g_results := replicate (length cs) FNone, g_remaining := length cs\<rparr>) st1 = ?s"
      using a by (auto simp: alloc_def alloc_with_def no_gath_def upd_gath_def Let_def)
    have "FGather ?g j \<notin> set (f_cbs (futs ?s f))" for f j
    proof
      assume m: "FGather ?g j \<in> set (f_cbs (futs ?s f))"
      then have "FGather ?g j \<in> set (f_cbs (futs st f))" by (auto simp: alloc_with_def new_fut_def split: if_splits)
      then have "cb_ok st f (FGather ?g j)" using assms(1) by (simp add: store_ok_def cbs_ok_def)
      then show False by (simp add: cb_ok_def)
    qed
    then have "attaching ?s ?g 0 cs re" using s sg by (simp add: attaching_def)
    from attach_ok [OF this] show ?thesis using False by (simp add: e)
  qed
  note ends_ok_stable [OF s(2) this]
  then show ?thesis using a by (simp add: gather_def ends_ok_then)
qed

lemma cancel_request_ok:
  assumes "store_ok st" and "f < next_fid st"
  shows "store_ok (upd_gath f (\<lambda>x. x\<lparr>g_cancel_requested := True\<rparr>) st) \<and> stable st (upd_gath f (\<lambda>x. x\<lparr>g_cancel_requested := True\<rparr>) st)"
proof -
  let ?s = "upd_gath f (\<lambda>x. x\<lparr>g_cancel_requested := True\<rparr>) st"
  have e: "g_results (gath ?s k) = g_results (gath st k)" "g_seen (gath ?s k) = g_seen (gath st k)"
    "g_remaining (gath ?s k) = g_remaining (gath st k)" "futs ?s = futs st" "next_fid ?s = next_fid st" for k by simp_all
  have "store_ok ?s = store_ok st" unfolding store_ok_def gather_ok_def cbs_ok_def cb_ok_def e ..
  then show ?thesis using assms(1) by (simp add: stable_def same_fut_def)
qed

lemma cancel_ok:
  "store_ok st \<Longrightarrow> f < next_fid st \<Longrightarrow> f < fuel \<Longrightarrow> ends_ok st (fut_cancel ucb fuel f st)"
  "store_ok st \<Longrightarrow> \<forall>f \<in> set fs. f < next_fid st \<and> f < fuel \<Longrightarrow> ends_ok st (cancel_all ucb fuel fs acc st)"
proof (induction ucb fuel f st and ucb fuel fs acc st rule: fut_cancel_cancel_all.induct)
  case (1 ucb fuel f st)
  show ?case
  proof (cases "is_done f st")
    case True then show ?thesis using "1.prems" by (simp add: ends_ok_def)
  next
    case nd: False
    have plain: "ends_ok st (fut_cancel ucb fuel f st)" if "f_kind (futs st f) = KPlain \<or> (\<exists>c. f_kind (futs st f) = KShield c)"
    proof -
      have "may_complete f (Inl CancelledErr) st" using that by (auto simp: may_complete_def)
      then have "ends_ok st (set_exception ucb f CancelledErr st)" using "1.prems" finish_ok by (simp add: set_exception_def)
      then show ?thesis using that nd by (auto simp: fut_cancel.simps ends_ok_then)
    qed
    show ?thesis
    proof (cases "f_kind (futs st f)")
      case KTask
      have "store_ok (st\<lparr>thrown := thrown st @ [f]\<rparr>) = store_ok st" by (rule store_ok_log) simp_all
      then show ?thesis using KTask nd "1.prems" by (simp add: ends_ok_def stable_def same_fut_def)
    next
      case (KGather cs re)
      obtain k where k: "fuel = Suc k" using "1.prems"(3) by (cases fuel) auto
      let ?s = "upd_gath f (\<lambda>x. x\<lparr>g_cancel_requested := True\<rparr>) st"
      have s: "store_ok ?s" "stable st ?s" using cancel_request_ok [OF "1.prems"(1,2)] by simp_all
      have "gather_ok st f" using "1.prems"(1) by (simp add: store_ok_def)
      then have "\<forall>c \<in> set cs. c < next_fid ?s \<and> c < k" using KGather k "1.prems"(2,3) by (auto simp: gather_ok_def)
      then have "ends_ok ?s (cancel_all ucb k cs False ?s)" using "1.IH" [OF nd KGather k s(1)] by blast
      then show ?thesis using nd KGather k ends_ok_stable [OF s(2)] by simp
    qed (use plain in auto)
  qed
next
  case (2 ucb fuel acc st)
  then show ?case by (simp add: ends_ok_def)
next
  case (3 ucb fuel f fs acc st)
  have e: "ends_ok st (fut_cancel ucb fuel f st)" using "3.IH"(1) "3.prems" by simp
  then obtain st1 r where r: "fut_cancel ucb fuel f st = Some (st1, r)" "store_ok st1" "stable st st1"
    by (auto simp: ends_ok_def split: option.splits)
  show ?case
  proof (cases r)
    case (Inl x) then show ?thesis using r by (simp add: ends_ok_def)
  next
    case (Inr b)
    have "\<forall>c \<in> set fs. c < next_fid st1 \<and> c < fuel" using "3.prems"(2) r(3) by (auto simp: stable_def)
    then have "ends_ok st1 (cancel_all ucb fuel fs (b \<or> acc) st1)" using "3.IH"(2) [OF r(1) refl Inr r(2)] by blast
    then show ?thesis using r Inr ends_ok_stable [OF r(3)] by simp
  qed
qed

lemma remove_ok:
  assumes "store_ok st" and "f < next_fid st"
  shows "store_ok (fst (remove_done_callback f n st)) \<and> stable st (fst (remove_done_callback f n st))"
proof -
  let ?s = "fst (remove_done_callback f n st)"
  have c: "cbs_ok ?s k cbs = cbs_ok st k cbs" for k cbs by (rule cb_ok_cong) (simp_all add: remove_done_callback_def)
  have u: "fut_ok (futs ?s k)" for k
  proof -
    have "fut_ok (futs st k)" using assms(1) by (simp add: store_ok_def)
    then show ?thesis by (auto simp: fut_ok_def remove_done_callback_def)
  qed
  have cb: "cbs_ok st k (f_cbs (futs ?s k))" for k
  proof -
    have "cbs_ok st k (f_cbs (futs st k))" using assms(1) by (simp add: store_ok_def)
    moreover have "internal (filter (\<lambda>cb. cb \<noteq> FUser n) l) = internal l" for l
      by (induction l) (auto simp: internal_def split: fcb.splits)
    ultimately show ?thesis by (auto simp: remove_done_callback_def cbs_ok_def)
  qed
  have ga: "gather_ok ?s k" for k
  proof -
    have gk: "gather_ok st k" using assms(1) by (simp add: store_ok_def)
    have e: "slot_filled (futs ?s h) = slot_filled (futs st h)" "f_kind (futs ?s h) = f_kind (futs st h)"
      "f_result (futs ?s h) = f_result (futs st h)" "gath ?s = gath st" for h
      by (auto simp: remove_done_callback_def slot_filled_def outcome_val_def fun_eq_iff split: option.split)
    show ?thesis using gk unfolding gather_ok_def e .
  qed
  have dn: "f_cbs (futs st h) = []" if "f_done (futs st h)" for h using assms(1) that by (auto simp: store_ok_def fut_ok_def)
  have "\<forall>k \<ge> next_fid ?s. futs ?s k = new_fut KPlain" using assms by (simp add: store_ok_def remove_done_callback_def)
  then have "store_ok ?s" unfolding store_ok_def c using u cb ga by blast
  moreover have "stable st ?s" using dn by (auto simp: stable_def remove_done_callback_def same_fut_def)
  ultimately show ?thesis ..
qed

lemma add_done_callback_ok:
  assumes "store_ok st" and "f < next_fid st"
  shows "ends_ok st (add_done_callback ucb loop f n st)"
proof (cases "is_done f st")
  case True
  have l: "store_ok (st\<lparr>aio_calls := aio_calls st @ [(f, n)]\<rparr>) = store_ok st"
    "store_ok (st\<lparr>cb_ran := cb_ran st @ [(f, n)]\<rparr>) = store_ok st" by (rule store_ok_log; simp)+
  then show ?thesis using True assms(1)
    by (auto simp: add_done_callback_def ends_ok_def cb_step_def stable_def same_fut_def split: option.split)
next
  case False
  have "store_ok (add_internal f (FUser n) st) \<and> stable st (add_internal f (FUser n) st)"
    by (rule add_callback_ok [OF assms False]) (simp_all add: cb_ok_def internal_def)
  then show ?thesis using False by (simp add: add_done_callback_def ends_ok_def add_internal_def)
qed

section \<open>All sequences of operations\<close>

text \<open>Clients create futures and tasks, complete those they own, and add, remove, cancel, shield, gather and
  read in any order.\<close>

inductive f_step :: "ucbs \<Rightarrow> fstore \<Rightarrow> fstore \<Rightarrow> bool" for ucb :: ucbs where
  fs_new: "k \<in> {KPlain, KTask} \<Longrightarrow> f_step ucb st (fst (alloc k st))"
| fs_set_result: "f < next_fid st \<Longrightarrow> f_kind (futs st f) \<in> {KPlain, KTask} \<Longrightarrow> set_result ucb f v st = Some (st', r) \<Longrightarrow> f_step ucb st st'"
| fs_set_exception: "f < next_fid st \<Longrightarrow> f_kind (futs st f) \<in> {KPlain, KTask} \<Longrightarrow> set_exception ucb f e st = Some (st', r) \<Longrightarrow> f_step ucb st st'"
| fs_cancel: "f < next_fid st \<Longrightarrow> cancel ucb f st = Some (st', r) \<Longrightarrow> f_step ucb st st'"
| fs_add: "f < next_fid st \<Longrightarrow> add_done_callback ucb loop f n st = Some (st', r) \<Longrightarrow> f_step ucb st st'"
| fs_remove: "f < next_fid st \<Longrightarrow> f_step ucb st (fst (remove_done_callback f n st))"
| fs_shield: "f < next_fid st \<Longrightarrow> shield ucb f st = Some (st', r) \<Longrightarrow> f_step ucb st st'"
| fs_gather: "set cs \<subseteq> {..<next_fid st} \<Longrightarrow> gather ucb cs re st = Some (st', r) \<Longrightarrow> f_step ucb st st'"
| fs_result: "f < next_fid st \<Longrightarrow> f_step ucb st (fst (fut_result f st))"
| fs_exception: "f < next_fid st \<Longrightarrow> f_step ucb st (fst (fut_exception f st))"
| fs_wait_throw: "f_step ucb st (fut_wait_throw f e st)"
| fs_del: "f < next_fid st \<Longrightarrow> f_step ucb st (fst (fut_del f st))"

lemma ends_okD: "ends_ok st (Some (st', r)) \<Longrightarrow> store_ok st' \<and> stable st st'"
  by (simp add: ends_ok_def)

lemma owned_finish_ok:
  "store_ok st \<Longrightarrow> f < next_fid st \<Longrightarrow> f_kind (futs st f) \<in> {KPlain, KTask} \<Longrightarrow> ends_ok st (finish ucb f out st)"
  by (rule finish_ok) (auto simp: may_complete_def)

lemma mark_stable: "store_ok st \<Longrightarrow> f < next_fid st \<Longrightarrow> store_ok (mark_exception_retrieved f st) \<and> stable st (mark_exception_retrieved f st)"
  using mark_ok fr_stable by blast

lemma f_step_ok:
  assumes "f_step ucb st st'" and "store_ok st"
  shows "store_ok st' \<and> stable st st'"
  using assms
proof (induction rule: f_step.induct)
  case (fs_new k st)
  have "fst (alloc k st) = alloc_with k no_gath st" by (simp add: alloc_def alloc_with_def Let_def)
  then show ?case using alloc_ok [of st k no_gath] fs_new by (auto simp: kind_ok_def)
next
  case (fs_set_result f st v st' r) then show ?case using owned_finish_ok ends_okD by (metis set_result_def)
next
  case (fs_set_exception f st e st' r) then show ?case using owned_finish_ok ends_okD by (metis set_exception_def)
next
  case (fs_cancel f st st' r) then show ?case using cancel_ok(1) ends_okD by (metis cancel_def)
next
  case (fs_add f st loop n st' r) then show ?case using add_done_callback_ok ends_okD by metis
next
  case (fs_remove f st n) then show ?case using remove_ok by blast
next
  case (fs_shield f st st' r) then show ?case using shield_ok ends_okD by metis
next
  case (fs_gather cs st re st' r) then show ?case using gather_op_ok ends_okD by metis
next
  case (fs_result f st)
  have "fst (fut_result f st) \<in> {st, mark_exception_retrieved f st}" by (simp add: fut_result_def Let_def split: option.split)
  then show ?case using mark_stable fs_result by auto
next
  case (fs_exception f st)
  have "fst (fut_exception f st) \<in> {st, mark_exception_retrieved f st}" by (simp add: fut_exception_def)
  then show ?case using mark_stable fs_exception by auto
next
  case (fs_wait_throw st f e)
  have "store_ok (fut_wait_throw f e st) = store_ok st" by (rule store_ok_log) (simp_all add: fut_wait_throw_def)
  then show ?case using fs_wait_throw by (simp add: fut_wait_throw_def stable_def same_fut_def)
next
  case (fs_del f st)
  have "fst (fut_del f st) \<in> {st, mark_exception_retrieved f st}"
    by (simp add: fut_del_def mark_exception_retrieved_def split: option.split)
  then show ?case using mark_stable fs_del by auto
qed

lemma empty_store_ok: "store_ok empty_store"
  by (simp add: store_ok_def empty_store_def fut_ok_def new_fut_def cbs_ok_def gather_ok_def)

lemma f_reach_ok: "(f_step ucb)\<^sup>*\<^sup>* empty_store st \<Longrightarrow> store_ok st"
  by (induction rule: rtranclp_induct) (use empty_store_ok f_step_ok in blast)+

section \<open>Properties\<close>

text \<open>C35: Futures are well typed and final.  Over every sequence of operations, whatever user callbacks raise:
  a done future has a result or an exception, never both, its event is set and it has no callbacks left; a
  pending one has neither and its event is clear; the never-retrieved flag is set only with an exception other
  than cancellation; and once a future is done its outcome never changes again.\<close>

theorem future_well_typed:
  assumes "(f_step ucb)\<^sup>*\<^sup>* empty_store st" and "(f_step ucb)\<^sup>*\<^sup>* st st'"
  shows "fut_ok (futs st f) \<and> (f < next_fid st \<and> is_done f st \<longrightarrow> same_fut (futs st f) (futs st' f))"
proof -
  have "store_ok st" using f_reach_ok [OF assms(1)] .
  moreover have "store_ok st' \<and> stable st st'" using assms(2)
  proof (induction rule: rtranclp_induct)
    case base then show ?case using calculation by simp
  next
    case (step y z) then show ?case using f_step_ok stable_trans by blast
  qed
  ultimately show ?thesis by (simp add: store_ok_def stable_def is_done_def)
qed

text \<open>Three futures: two children and their gathering future.\<close>

definition quiet :: ucbs where
  "quiet n = None"

definition fs_two :: fstore where
  "fs_two = fst (alloc KPlain (fst (alloc KPlain empty_store)))"

definition fs_gathered :: fstore where
  "fs_gathered = fst (the (gather quiet [0, 1] False fs_two))"

lemmas fs_demo = fs_gathered_def fs_two_def alloc_def empty_store_def gather_def is_done_def add_internal_def new_fut_def no_gath_def
  upd_fut_def upd_gath_def

lemma fs_gathered_reach: "(f_step quiet)\<^sup>*\<^sup>* empty_store fs_gathered"
proof -
  have "(f_step quiet)\<^sup>*\<^sup>* empty_store fs_two" unfolding fs_two_def
    by (meson fs_new insertI1 rtranclp.rtrancl_into_rtrancl rtranclp.rtrancl_refl)
  moreover have "gather quiet [0, 1] False fs_two = Some (fs_gathered, Inr 2)" by (simp add: fs_demo numeral_2_eq_2)
  then have "f_step quiet fs_two fs_gathered"
    by (rule fs_gather [rotated]) (auto simp: fs_two_def alloc_def empty_store_def Let_def)
  ultimately show ?thesis by (rule rtranclp.rtrancl_into_rtrancl)
qed

text \<open>Child 1 completes with 7, then child 0 with 5.\<close>

definition fs_one_done :: fstore where
  "fs_one_done = fst (the (set_result quiet 1 (FNum 7) fs_gathered))"

definition fs_all_done :: fstore where
  "fs_all_done = fst (the (set_result quiet 0 (FNum 5) fs_one_done))"

lemmas fs_run = fs_demo set_result_def finish_def complete_def cb_step_def child_done_def then_run_def mask_def numeral_2_eq_2

lemma fs_one_done_eq: "set_result quiet 1 (FNum 7) fs_gathered = Some (fs_one_done, Inr ())"
  unfolding fs_one_done_def by (simp add: fs_run)

lemma fs_all_done_eq: "set_result quiet 0 (FNum 5) fs_one_done = Some (fs_all_done, Inr ())"
  unfolding fs_all_done_def fs_one_done_def by (simp add: fs_run)

lemma fs_one_done_step: "f_step quiet fs_gathered fs_one_done"
  by (rule fs_set_result [OF _ _ fs_one_done_eq]) (simp_all add: fs_demo)

lemma fs_all_done_step: "f_step quiet fs_one_done fs_all_done"
  by (rule fs_set_result [OF _ _ fs_all_done_eq]) (simp_all add: fs_run fs_one_done_def)

lemma fs_all_done_reach: "(f_step quiet)\<^sup>*\<^sup>* empty_store fs_all_done"
  using fs_gathered_reach fs_one_done_step fs_all_done_step by (meson rtranclp.rtrancl_into_rtrancl)

theorem future_well_typed_witness:
  "is_done 1 fs_one_done \<and> f_result (futs fs_all_done 1) = f_result (futs fs_one_done 1)"
proof -
  have r: "(f_step quiet)\<^sup>*\<^sup>* empty_store fs_one_done" "(f_step quiet)\<^sup>*\<^sup>* fs_one_done fs_all_done"
    using fs_gathered_reach fs_one_done_step fs_all_done_step by (meson rtranclp.rtrancl_into_rtrancl rtranclp.rtrancl_refl)+
  have "is_done 1 fs_one_done" "1 < next_fid fs_one_done" by (simp_all add: fs_run fs_one_done_def)
  then show ?thesis using future_well_typed [OF r, of 1] by (simp add: same_fut_def)
qed

text \<open>C36: Completion terminates.  Completing, cancelling, shielding and gathering run chains of done callbacks
  through shields and gathers; in every reachable store each of these operations ends within a recursion
  depth bounded by the number of futures, for every future and whatever the callbacks raise.\<close>

theorem completion_terminates:
  assumes "(f_step ucb)\<^sup>*\<^sup>* empty_store st" and "f < next_fid st" and "set cs \<subseteq> {..<next_fid st}"
  shows "(f_kind (futs st f) \<in> {KPlain, KTask} \<longrightarrow> (\<exists>r. set_result ucb f v st = Some r) \<and> (\<exists>r. set_exception ucb f e st = Some r))
    \<and> (\<exists>r. cancel ucb f st = Some r) \<and> (\<exists>r. shield ucb f st = Some r) \<and> (\<exists>r. gather ucb cs re st = Some r)
    \<and> (\<exists>r. add_done_callback ucb loop f n st = Some r)"
proof -
  have ok: "store_ok st" using f_reach_ok [OF assms(1)] .
  have ends: "ends_ok st r \<Longrightarrow> \<exists>x. r = Some x" for r :: "'z fres" by (simp add: ends_ok_def split: option.splits)
  show ?thesis
    using ends [OF owned_finish_ok [OF ok assms(2)]] ends [OF cancel_ok(1) [OF ok assms(2,2)]] ends [OF shield_ok [OF ok assms(2)]]
      ends [OF gather_op_ok [OF ok assms(3)]] ends [OF add_done_callback_ok [OF ok assms(2)]]
    by (simp add: set_result_def set_exception_def cancel_def)
qed

theorem completion_terminates_witness:
  "\<exists>r. cancel quiet 2 fs_gathered = Some r"
proof -
  have "2 < next_fid fs_gathered" by (simp add: fs_demo)
  then show ?thesis using completion_terminates [OF fs_gathered_reach, of 2 "[]"] by simp
qed

text \<open>C27: \<open>gather\<close> returns the children's outcomes in the order the children were given, in whatever order they
  completed: a gathering future that has a result has waited for every child, and slot \<open>i\<close> of the result is
  the value of child \<open>i\<close>, or its exception when exceptions are returned; without that option no child has
  failed.\<close>

theorem gather_collects:
  assumes "(f_step ucb)\<^sup>*\<^sup>* empty_store st" and "f_kind (futs st g) = KGather cs re" and "f_result (futs st g) = Some v"
  shows "v = FList (map (\<lambda>c. outcome_val (futs st c)) cs)
    \<and> (\<forall>c \<in> set cs. is_done c st \<and> (re \<or> f_exc (futs st c) = None))"
proof -
  have g: "gather_ok st g" using f_reach_ok [OF assms(1)] by (simp add: store_ok_def)
  then have v: "v = FList (g_results (gath st g))" "g_seen (gath st g) = {..<length cs}" "length (g_results (gath st g)) = length cs"
    using assms(2,3) by (simp_all add: gather_ok_def)
  have sl: "slot_filled (futs st (cs ! i)) re (g_results (gath st g) ! i)" if "i < length cs" for i
    using g assms(2) v(2) that by (simp add: gather_ok_def)
  then have "g_results (gath st g) = map (\<lambda>c. outcome_val (futs st c)) cs"
    using v(3) by (intro nth_equalityI) (simp_all add: slot_filled_def)
  moreover have "is_done c st \<and> (re \<or> f_exc (futs st c) = None)" if c: "c \<in> set cs" for c
  proof -
    obtain i where "i < length cs" "c = cs ! i" using c by (auto simp: in_set_conv_nth)
    then show ?thesis using sl [of i] by (simp add: slot_filled_def is_done_def)
  qed
  ultimately show ?thesis using v(1) by simp
qed

theorem gather_collects_witness:
  "f_result (futs fs_all_done 2) = Some (FList [FNum 5, FNum 7])"
proof -
  have k: "f_kind (futs fs_all_done 2) = KGather [0, 1] False" and r: "f_result (futs fs_all_done 2) \<noteq> None"
    and v: "outcome_val (futs fs_all_done 0) = FNum 5" "outcome_val (futs fs_all_done 1) = FNum 7"
    by (simp_all add: fs_run fs_all_done_def fs_one_done_def outcome_val_def)
  obtain w where w: "f_result (futs fs_all_done 2) = Some w" using r by blast
  show ?thesis using gather_collects [OF fs_all_done_reach k w] w v by simp
qed

text \<open>An exception from one done callback drops the callbacks after it.  The list is cleared before it is
  run, so when user callback 3 of a child raises, the exception leaves \<open>set_result\<close> of the child and the
  gathering future registered after it never completes, although every child is done; when the raising callback
  sits on a shield, the child's \<open>set_result\<close> raises \<open>InvalidStateError\<close> in its place.\<close>

theorem callback_error_drops_rest:
  "let ucb = (\<lambda>n. if n = 3 then Some (UserErr 3) else None);
       st0 = fst (alloc KPlain empty_store);
       st1 = fst (the (add_done_callback ucb False 0 3 st0));
       st2 = fst (the (gather ucb [0] False st1));
       st3 = fst (the (shield ucb 0 st0));
       st4 = fst (the (add_done_callback ucb False 1 3 st3))
   in snd (the (set_result ucb 0 (FNum 5) st2)) = Inl (UserErr 3)
     \<and> is_done 0 (fst (the (set_result ucb 0 (FNum 5) st2))) \<and> \<not> is_done 1 (fst (the (set_result ucb 0 (FNum 5) st2)))
     \<and> f_cbs (futs (fst (the (set_result ucb 0 (FNum 5) st2))) 0) = []
     \<and> snd (the (set_result ucb 0 (FNum 5) st4)) = Inl InvalidStateErr"
  by (simp add: fs_run Let_def add_done_callback_def shield_def complete_from_child_def fut_result_def mark_exception_retrieved_def)

end
