(* ===== verification/Task_Group.thy ===== *)
theory Task_Group
  imports Tealet_Prelude
begin

text \<open>
  \<open>TaskGroup\<close> of \<open>tealetio/taskgroups.py\<close>.  The group object is a record; \<open>_exit\<close> is cut at its join, so the
  parent is in its body, in the join, or has left.  \<open>Task.throw\<close> into a child or into the parent is recorded
  (\<open>tg_thrown\<close>, \<open>tg_parent_thrown\<close>); what the target then does is a step of its own.  \<open>tg_failed\<close> is the history
  of child failures in the order of completion and is not read by an operation.  \<open>_StartStatus\<close> and the
  wrapper of \<open>start\<close> follow.
\<close>

section \<open>State\<close>

text \<open>\<open>_TaskGroupCancelled\<close> of this group is told apart from every other exception; that of another group is
  a \<open>CancelledError\<close> here.\<close>

datatype gexn = GroupCancelled | Plain pyexn

fun is_cancelled :: "gexn \<Rightarrow> bool" where
  "is_cancelled GroupCancelled = True"
| "is_cancelled (Plain e) = (e = CancelledErr)"

datatype tg_result =
    XNormal
  | XBase pyexn
  | XGroup "pyexn list"
  | XRawTimeout
  | XRaise gexn
  | XBody gexn

datatype tg_phase = TNew | TBody | TJoin "gexn option" | TLeft "gexn option" tg_result | TAbandoned gexn

record tgroup =
  tg_entered :: bool
  tg_exiting :: bool
  tg_aborting :: bool
  tg_parent :: "nat option"
  tg_tasks :: "nat list"
  tg_errors :: "pyexn list"
  tg_base_error :: "pyexn option"
  tg_done :: bool
  tg_timeout_exc :: bool
  tg_cancel_exc :: "gexn option"
  tg_phase :: tg_phase
  tg_queued :: nat
  tg_thrown :: "nat list"
  tg_parent_thrown :: nat
  tg_failed :: "pyexn list"

definition tg_init :: tgroup where
  "tg_init = \<lparr>tg_entered = False, tg_exiting = False, tg_aborting = False, tg_parent = None, tg_tasks = [], tg_errors = [],
     tg_base_error = None, tg_done = True, tg_timeout_exc = False, tg_cancel_exc = None, tg_phase = TNew, tg_queued = 0,
     tg_thrown = [], tg_parent_thrown = 0, tg_failed = []\<rparr>"

type_synonym 'a tgres = "tgroup \<times> (pyexn + 'a)"

section \<open>Operations\<close>

definition tg_enter :: "nat option \<Rightarrow> tgroup \<Rightarrow> unit tgres" where
  "tg_enter parent s =
     (if tg_entered s then (s, Inl RuntimeErr)
      else (case parent of
              None \<Rightarrow> (s, Inl RuntimeErr)
            | Some p \<Rightarrow> (s\<lparr>tg_parent := Some p, tg_entered := True, tg_phase := TBody\<rparr>, Inr ())))"

text \<open>\<open>spawn\<close>, given the task the scheduler creates.\<close>

definition tg_spawn :: "nat \<Rightarrow> tgroup \<Rightarrow> nat tgres" where
  "tg_spawn t s =
     (if \<not> tg_entered s then (s, Inl RuntimeErr)
      else if tg_exiting s \<and> tg_tasks s = [] then (s, Inl RuntimeErr)
      else if tg_aborting s then (s, Inl RuntimeErr)
      else (let s1 = (if tg_tasks s = [] then s\<lparr>tg_done := False\<rparr> else s)
            in (s1\<lparr>tg_tasks := tg_tasks s1 @ [t]\<rparr>, Inr t)))"

definition abort_children :: "nat \<Rightarrow> tgroup \<Rightarrow> tgroup" where
  "abort_children cur s = s\<lparr>tg_aborting := True, tg_thrown := tg_thrown s @ filter (\<lambda>t. t \<noteq> cur) (tg_tasks s)\<rparr>"

definition tg_cancel :: "nat \<Rightarrow> tgroup \<Rightarrow> tgroup" where
  "tg_cancel cur s = abort_children cur s"

text \<open>\<open>_request_abort\<close> as a scheduler callback; \<open>Inl\<close> is the exception it raises when the parent itself runs it.\<close>

definition request_abort :: "nat \<Rightarrow> bool \<Rightarrow> tgroup \<Rightarrow> tgroup \<times> (gexn + unit)" where
  "request_abort cur parent_done s =
     (let s1 = abort_children cur s in
      if tg_exiting s1 then (s1, Inr ())
      else (case tg_parent s1 of
              None \<Rightarrow> (s1, Inr ())
            | Some p \<Rightarrow> if parent_done then (s1, Inr ())
                        else if p = cur then (s1, Inl GroupCancelled)
                        else (s1\<lparr>tg_parent_thrown := Suc (tg_parent_thrown s1)\<rparr>, Inr ())))"

definition discard_task :: "nat \<Rightarrow> tgroup \<Rightarrow> tgroup" where
  "discard_task t s =
     (if remove1 t (tg_tasks s) = [] then s\<lparr>tg_tasks := [], tg_done := True\<rparr> else s\<lparr>tg_tasks := remove1 t (tg_tasks s)\<rparr>)"

definition record_failure :: "pyexn \<Rightarrow> tgroup \<Rightarrow> tgroup" where
  "record_failure e s =
     (if e = SystemExitErr \<or> e = KeyboardInterruptErr
      then (if tg_base_error s = None then s\<lparr>tg_base_error := Some e, tg_failed := tg_failed s @ [e]\<rparr> else s\<lparr>tg_failed := tg_failed s @ [e]\<rparr>)
      else if is_Exception e then s\<lparr>tg_errors := tg_errors s @ [e], tg_failed := tg_failed s @ [e]\<rparr>
      else if tg_base_error s = None then s\<lparr>tg_base_error := Some e, tg_failed := tg_failed s @ [e]\<rparr>
      else s\<lparr>tg_failed := tg_failed s @ [e]\<rparr>)"

definition on_task_done :: "nat \<Rightarrow> gexn option \<Rightarrow> tgroup \<Rightarrow> tgroup" where
  "on_task_done t outcome s =
     (let s2 = discard_task t s in
      case outcome of
        None \<Rightarrow> s2
      | Some x \<Rightarrow>
          if is_cancelled x then s2
          else (case x of
                  GroupCancelled \<Rightarrow> s2
                | Plain e \<Rightarrow>
                    (let s3 = record_failure e s2
                     in if \<not> tg_aborting s3 then s3\<lparr>tg_queued := Suc (tg_queued s3)\<rparr> else s3)))"

section \<open>Leaving the block\<close>

definition tg_ours :: "gexn option \<Rightarrow> bool" where
  "tg_ours exc = (exc = Some GroupCancelled)"

text \<open>\<open>__exit__\<close> up to the join.\<close>

definition exit_begin :: "nat \<Rightarrow> gexn option \<Rightarrow> tgroup \<Rightarrow> tgroup" where
  "exit_begin cur exc s =
     (let s1 = s\<lparr>tg_exiting := True\<rparr>;
          s2 = (if exc \<noteq> None \<and> \<not> tg_aborting s1 then abort_children cur s1 else s1)
      in s2\<lparr>tg_phase := TJoin exc\<rparr>)"

text \<open>An exception thrown into the wait of \<open>_join\<close>; \<open>Inl\<close> leaves the loop with it.\<close>

definition join_exc :: "nat \<Rightarrow> gexn \<Rightarrow> tgroup \<Rightarrow> tgroup \<times> (gexn + unit)" where
  "join_exc cur e s =
     (if is_cancelled e
      then (if e = GroupCancelled then (s, Inr ())
            else (abort_children cur (if tg_cancel_exc s = None then s\<lparr>tg_cancel_exc := Some e\<rparr> else s), Inr ()))
      else if e = Plain RawTimeoutErr then (abort_children cur (s\<lparr>tg_timeout_exc := True\<rparr>), Inr ())
      else (s, Inl e))"

text \<open>The part of \<open>_exit\<close> after the join; \<open>XBody\<close> is the body's own exception going on (\<open>return False\<close>).\<close>

definition exit_result :: "gexn option \<Rightarrow> tgroup \<Rightarrow> tg_result" where
  "exit_result exc s =
     (case tg_base_error s of
        Some e \<Rightarrow> XBase e
      | None \<Rightarrow>
          (case exc of
             None \<Rightarrow>
               if tg_errors s \<noteq> [] then XGroup (tg_errors s)
               else if tg_timeout_exc s then XRawTimeout
               else (case tg_cancel_exc s of Some c \<Rightarrow> XRaise c | None \<Rightarrow> XNormal)
           | Some x \<Rightarrow>
               if tg_ours exc then (if tg_errors s \<noteq> [] then XGroup (tg_errors s) else XBody x)
               else if is_cancelled x then (if tg_errors s \<noteq> [] then XGroup (tg_errors s) else XBody x)
               else (case x of
                       Plain e \<Rightarrow> if is_Exception e then XGroup (tg_errors s @ [e])
                                  else if tg_errors s \<noteq> [] then XGroup (tg_errors s) else XBody x
                     | GroupCancelled \<Rightarrow> XBody x)))"

definition tg_finally :: "tgroup \<Rightarrow> tgroup" where
  "tg_finally s = s\<lparr>tg_parent := None, tg_errors := [], tg_base_error := None\<rparr>"

text \<open>One turn of the join loop: go on waiting, or compute the result and leave.\<close>

definition join_turn :: "tgroup \<Rightarrow> tgroup" where
  "join_turn s =
     (case tg_phase s of
        TJoin exc \<Rightarrow> if tg_tasks s \<noteq> [] then s
                     else (tg_finally s)\<lparr>tg_phase := TLeft exc (exit_result exc s)\<rparr>
      | _ \<Rightarrow> s)"

definition join_throw :: "nat \<Rightarrow> gexn \<Rightarrow> tgroup \<Rightarrow> tgroup" where
  "join_throw cur e s =
     (case join_exc cur e s of
        (s1, Inr _) \<Rightarrow> join_turn s1
      | (s1, Inl x) \<Rightarrow> (tg_finally s1)\<lparr>tg_phase := TAbandoned x\<rparr>)"

section \<open>start\<close>

record sstatus =
  ss_called :: bool
  ss_value :: "nat option"
  ss_error :: "gexn option"
  ss_started :: bool

definition ss_init :: sstatus where
  "ss_init = \<lparr>ss_called = False, ss_value = None, ss_error = None, ss_started = False\<rparr>"

definition ss_call_started :: "nat option \<Rightarrow> sstatus \<Rightarrow> sstatus \<times> (pyexn + unit)" where
  "ss_call_started v s =
     (if ss_called s then (s, Inl RuntimeErr)
      else (s\<lparr>ss_called := True, ss_value := v, ss_started := True\<rparr>, Inr ()))"

definition ss_fail :: "gexn \<Rightarrow> sstatus \<Rightarrow> sstatus" where
  "ss_fail e s = (if ss_called s \<or> ss_error s \<noteq> None then s else s\<lparr>ss_error := Some e, ss_started := True\<rparr>)"

text \<open>\<open>wait\<close> returns \<open>None\<close> here while its event is not set.\<close>

definition ss_wait :: "sstatus \<Rightarrow> (gexn + nat option) option" where
  "ss_wait s = (if \<not> ss_started s then None
                else (case ss_error s of Some e \<Rightarrow> Some (Inl e) | None \<Rightarrow> Some (Inr (ss_value s))))"

text \<open>\<open>wrapped\<close> once \<open>func\<close> has ended: the outcome of the child task.\<close>

definition wrapped_end :: "(gexn + nat) \<Rightarrow> sstatus \<Rightarrow> sstatus \<times> (gexn + nat option)" where
  "wrapped_end r s =
     (case r of
        Inl e \<Rightarrow> if \<not> ss_called s then (ss_fail e s, Inr None) else (s, Inl e)
      | Inr v \<Rightarrow> if \<not> ss_called s then (ss_fail (Plain RuntimeErr) s, Inr None) else (s, Inr (Some v)))"

text \<open>\<open>on_done\<close>, which also runs for a child that was thrown into before it started.\<close>

definition start_on_done :: "gexn + nat option \<Rightarrow> sstatus \<Rightarrow> sstatus" where
  "start_on_done r s =
     (case r of
        Inr v \<Rightarrow> s
      | Inl e \<Rightarrow> ss_fail (if is_cancelled e then Plain CancelledErr else e) s)"

text \<open>A child of \<open>start\<close> from its spawn to its end: it may call \<open>started\<close> any number of times before \<open>func\<close> ends,
  or never get to run.  \<open>calls\<close> are the values it passes, \<open>ran\<close> says whether the body was entered.\<close>

fun run_started :: "nat option list \<Rightarrow> sstatus \<Rightarrow> sstatus" where
  "run_started [] s = s"
| "run_started (v # vs) s = run_started vs (fst (ss_call_started v s))"

definition start_child :: "bool \<Rightarrow> nat option list \<Rightarrow> gexn + nat \<Rightarrow> sstatus \<times> (gexn + nat option)" where
  "start_child entered calls r =
     (let (s, out) = (if entered then wrapped_end r (run_started calls ss_init)
                      else (ss_init, case r of Inl e \<Rightarrow> Inl e | Inr v \<Rightarrow> Inl (Plain CancelledErr)))
      in (start_on_done out s, out))"

section \<open>The group as a system\<close>

text \<open>The body may end with any exception.  It ends with the group's own sentinel when that was thrown into the
  parent, and also when it re-raises the one that cancelled a child (\<open>child.wait()\<close>, \<open>child.result()\<close>).\<close>

inductive tg_step :: "tgroup \<Rightarrow> tgroup \<Rightarrow> bool" where
  g_enter: "tg_phase s = TNew \<Longrightarrow> tg_enter p s = (s', r) \<Longrightarrow> tg_step s s'"
| g_spawn: "t \<notin> set (tg_tasks s) \<Longrightarrow> tg_spawn t s = (s', r) \<Longrightarrow> tg_step s s'"
| g_cancel: "tg_step s (tg_cancel cur s)"
| g_child_done: "t \<in> set (tg_tasks s) \<Longrightarrow> tg_step s (on_task_done t outcome s)"
| g_callback: "0 < tg_queued s \<Longrightarrow> request_abort cur pd (s\<lparr>tg_queued := tg_queued s - 1\<rparr>) = (s', r) \<Longrightarrow> tg_step s s'"
| g_exit: "tg_phase s = TBody \<Longrightarrow> tg_step s (exit_begin cur exc s)"
| g_join_wake: "tg_phase s = TJoin exc \<Longrightarrow> tg_step s (join_turn s)"
| g_join_throw: "tg_phase s = TJoin exc \<Longrightarrow> tg_tasks s \<noteq> [] \<Longrightarrow> tg_step s (join_throw cur e s)"

section \<open>Invariant\<close>

text \<open>What the block has to raise, from the failures of the children in the order they happened, the body's
  exception, and what was thrown into the join.\<close>

definition body_error :: "gexn option \<Rightarrow> pyexn list" where
  "body_error exc = (case exc of Some (Plain e) \<Rightarrow> if is_Exception e then [e] else [] | _ \<Rightarrow> [])"

definition expected :: "gexn option \<Rightarrow> bool \<Rightarrow> gexn option \<Rightarrow> pyexn list \<Rightarrow> tg_result" where
  "expected exc timed_out cancel_exc failed =
     (let bases = filter (\<lambda>e. \<not> is_Exception e) failed in
      if bases \<noteq> [] then XBase (hd bases)
      else if failed @ body_error exc \<noteq> [] then XGroup (failed @ body_error exc)
      else (case exc of
              Some x \<Rightarrow> XBody x
            | None \<Rightarrow> if timed_out then XRawTimeout
                      else (case cancel_exc of Some c \<Rightarrow> XRaise c | None \<Rightarrow> XNormal)))"

definition first_base :: "pyexn list \<Rightarrow> pyexn option" where
  "first_base es = (case filter (\<lambda>e. \<not> is_Exception e) es of [] \<Rightarrow> None | e # _ \<Rightarrow> Some e)"

definition recorded :: "tgroup \<Rightarrow> bool" where
  "recorded s \<longleftrightarrow> tg_errors s = filter is_Exception (tg_failed s) \<and> tg_base_error s = first_base (tg_failed s)"

definition phase_ok :: "tgroup \<Rightarrow> bool" where
  "phase_ok s =
     (case tg_phase s of
        TNew \<Rightarrow> recorded s \<and> \<not> tg_entered s \<and> \<not> tg_exiting s \<and> tg_tasks s = []
      | TBody \<Rightarrow> recorded s \<and> tg_entered s \<and> \<not> tg_exiting s
      | TJoin exc \<Rightarrow> recorded s \<and> tg_entered s \<and> tg_exiting s
      | TLeft exc r \<Rightarrow> tg_entered s \<and> tg_exiting s \<and> tg_tasks s = []
          \<and> r = expected exc (tg_timeout_exc s) (tg_cancel_exc s) (tg_failed s)
      | TAbandoned e \<Rightarrow> tg_entered s \<and> tg_exiting s)"

definition tg_inv :: "tgroup \<Rightarrow> bool" where
  "tg_inv s \<longleftrightarrow>
     phase_ok s \<and> (tg_done s \<longleftrightarrow> tg_tasks s = []) \<and> tg_cancel_exc s \<noteq> Some GroupCancelled
     \<and> (0 < tg_parent_thrown s \<or> 0 < tg_queued s \<longrightarrow> tg_failed s \<noteq> [])
     \<and> (tg_failed s \<noteq> [] \<longrightarrow> tg_aborting s \<or> 0 < tg_queued s)"

lemma filter_all_exceptions: "filter (\<lambda>e. \<not> is_Exception e) es = [] \<Longrightarrow> filter is_Exception es = es"
  by (induction es) (auto split: if_splits)

lemma exit_result_expected:
  assumes "recorded s"
  shows "exit_result exc s = expected exc (tg_timeout_exc s) (tg_cancel_exc s) (tg_failed s)"
proof (cases "filter (\<lambda>e. \<not> is_Exception e) (tg_failed s)")
  case (Cons e es)
  then show ?thesis using assms by (simp add: exit_result_def expected_def recorded_def first_base_def)
next
  case Nil
  have b: "tg_base_error s = None" "tg_errors s = tg_failed s"
    using assms Nil filter_all_exceptions by (simp_all add: recorded_def first_base_def)
  consider "exc = None" | "exc = Some GroupCancelled" | e where "exc = Some (Plain e)" by (cases exc; metis gexn.exhaust)
  then show ?thesis
  proof cases
    case 3
    then show ?thesis using b Nil by (cases "e = CancelledErr") (simp_all add: exit_result_def expected_def body_error_def tg_ours_def)
  qed (use b Nil in \<open>simp_all add: exit_result_def expected_def body_error_def tg_ours_def\<close>)
qed

lemma record_failure_simps [simp]:
  "tg_failed (record_failure e s) = tg_failed s @ [e]" "tg_phase (record_failure e s) = tg_phase s"
  "tg_entered (record_failure e s) = tg_entered s" "tg_exiting (record_failure e s) = tg_exiting s"
  "tg_tasks (record_failure e s) = tg_tasks s" "tg_done (record_failure e s) = tg_done s"
  "tg_timeout_exc (record_failure e s) = tg_timeout_exc s" "tg_cancel_exc (record_failure e s) = tg_cancel_exc s"
  "tg_queued (record_failure e s) = tg_queued s" "tg_parent_thrown (record_failure e s) = tg_parent_thrown s"
  "tg_aborting (record_failure e s) = tg_aborting s"
  by (simp_all add: record_failure_def)

lemma recorded_failure: "recorded s \<Longrightarrow> recorded (record_failure e s)"
  by (auto simp: record_failure_def recorded_def first_base_def split: list.splits)

lemma recorded_queue [simp]: "recorded (s\<lparr>tg_queued := n\<rparr>) = recorded s"
  by (simp add: recorded_def)

lemma discard_task_simps [simp]:
  "tg_failed (discard_task t s) = tg_failed s" "tg_phase (discard_task t s) = tg_phase s"
  "tg_entered (discard_task t s) = tg_entered s" "tg_exiting (discard_task t s) = tg_exiting s"
  "tg_tasks (discard_task t s) = remove1 t (tg_tasks s)" "recorded (discard_task t s) = recorded s"
  "tg_timeout_exc (discard_task t s) = tg_timeout_exc s" "tg_cancel_exc (discard_task t s) = tg_cancel_exc s"
  "tg_queued (discard_task t s) = tg_queued s" "tg_parent_thrown (discard_task t s) = tg_parent_thrown s"
  "tg_aborting (discard_task t s) = tg_aborting s" "tg_done (discard_task t s) = (remove1 t (tg_tasks s) = [] \<or> tg_done s)"
  by (simp_all add: discard_task_def recorded_def)

lemma abort_children_simps [simp]:
  "tg_phase (abort_children c s) = tg_phase s" "tg_entered (abort_children c s) = tg_entered s"
  "tg_exiting (abort_children c s) = tg_exiting s" "tg_tasks (abort_children c s) = tg_tasks s"
  "tg_errors (abort_children c s) = tg_errors s" "tg_base_error (abort_children c s) = tg_base_error s"
  "tg_done (abort_children c s) = tg_done s" "tg_timeout_exc (abort_children c s) = tg_timeout_exc s"
  "tg_cancel_exc (abort_children c s) = tg_cancel_exc s" "tg_queued (abort_children c s) = tg_queued s"
  "tg_parent_thrown (abort_children c s) = tg_parent_thrown s" "tg_failed (abort_children c s) = tg_failed s"
  "tg_aborting (abort_children c s)" "tg_parent (abort_children c s) = tg_parent s"
  by (simp_all add: abort_children_def)

lemma tg_inv_abort: "tg_inv s \<Longrightarrow> tg_inv (abort_children c s)"
  by (auto simp: tg_inv_def phase_ok_def recorded_def split: tg_phase.split)

lemma tg_inv_child_done:
  assumes "tg_inv s" and "t \<in> set (tg_tasks s)"
  shows "tg_inv (on_task_done t outcome s)"
proof -
  have ne: "tg_tasks s \<noteq> []" using assms(2) by auto
  then have nl: "tg_phase s \<noteq> TNew" "tg_phase s \<noteq> TLeft exc r" for exc r using assms(1) by (auto simp: tg_inv_def phase_ok_def)
  have 2: "tg_inv (discard_task t s)" using assms(1) ne nl
    by (cases "tg_phase s") (auto simp: tg_inv_def phase_ok_def)
  show ?thesis
  proof (cases "\<exists>e. outcome = Some (Plain e) \<and> e \<noteq> CancelledErr")
    case False
    then have "on_task_done t outcome s = discard_task t s"
      by (auto simp: on_task_done_def Let_def split: option.split gexn.split)
    then show ?thesis using 2 by simp
  next
    case True
    then obtain e where e: "outcome = Some (Plain e)" "e \<noteq> CancelledErr" by blast
    then have eq: "on_task_done t outcome s = (let s3 = record_failure e (discard_task t s)
        in if \<not> tg_aborting s then s3\<lparr>tg_queued := Suc (tg_queued s)\<rparr> else s3)" by (simp add: on_task_done_def Let_def)
    have rec: "recorded s \<Longrightarrow> recorded (record_failure e (discard_task t s))" by (simp add: recorded_failure)
    show ?thesis unfolding eq using 2 nl ne assms(1) rec
      by (cases "tg_phase s") (auto simp: tg_inv_def phase_ok_def Let_def)
  qed
qed

lemma tg_inv_turn:
  assumes "tg_inv s"
  shows "tg_inv (join_turn s)"
proof (cases "tg_phase s")
  case (TJoin exc)
  then have "tg_phase s = TJoin exc" "recorded s"
    using assms by (simp_all add: tg_inv_def phase_ok_def)
  then show ?thesis using assms exit_result_expected [of s exc]
    by (auto simp: join_turn_def tg_inv_def phase_ok_def tg_finally_def)
qed (use assms in \<open>simp_all add: join_turn_def\<close>)

lemma tg_inv_join_throw:
  assumes "tg_inv s" and "tg_phase s = TJoin exc"
  shows "tg_inv (join_throw cur e s)"
proof (cases "snd (join_exc cur e s)")
  case (Inl x)
  then have "join_exc cur e s = (s, Inl x)" by (auto simp: join_exc_def split: if_splits)
  then show ?thesis using assms by (simp add: join_throw_def tg_inv_def phase_ok_def tg_finally_def)
next
  case (Inr u)
  have c: "tg_inv (s\<lparr>tg_cancel_exc := Some e\<rparr>)" if "e \<noteq> GroupCancelled"
    using assms that by (simp add: tg_inv_def phase_ok_def recorded_def)
  have t: "tg_inv (s\<lparr>tg_timeout_exc := True\<rparr>)" using assms by (simp add: tg_inv_def phase_ok_def recorded_def)
  have "tg_inv (fst (join_exc cur e s))"
    using assms(1) c t by (auto simp: join_exc_def intro: tg_inv_abort)
  then show ?thesis using Inr tg_inv_turn by (auto simp: join_throw_def split: prod.split sum.split)
qed

lemma tg_step_inv: "tg_step s s' \<Longrightarrow> tg_inv s \<Longrightarrow> tg_inv s'"
proof (induction rule: tg_step.induct)
  case (g_enter s p s' r)
  then show ?case by (auto simp: tg_enter_def tg_inv_def phase_ok_def recorded_def split: if_splits option.splits)
next
  case (g_spawn t s s' r)
  then show ?case
    by (cases "tg_phase s") (auto simp: tg_spawn_def tg_inv_def phase_ok_def recorded_def Let_def split: if_splits)
next
  case (g_cancel s cur) then show ?case using tg_inv_abort by (simp add: tg_cancel_def)
next
  case (g_child_done t s outcome) then show ?case by (intro tg_inv_child_done)
next
  case (g_callback s cur pd s' r)
  let ?a = "abort_children cur (s\<lparr>tg_queued := tg_queued s - 1\<rparr>)"
  have f: "tg_failed s \<noteq> []" using g_callback by (simp add: tg_inv_def)
  have a: "tg_inv ?a" using g_callback f
    by (cases "tg_phase s") (auto simp: tg_inv_def phase_ok_def recorded_def)
  have "tg_inv (?a\<lparr>tg_parent_thrown := n\<rparr>)" for n using a f
    by (cases "tg_phase s") (auto simp: tg_inv_def phase_ok_def recorded_def)
  then show ?case using g_callback(2) a
    by (auto simp: request_abort_def Let_def split: if_splits option.splits)
next
  case (g_exit s exc cur)
  then show ?case by (auto simp: exit_begin_def tg_inv_def phase_ok_def recorded_def Let_def)
next
  case (g_join_wake s exc) then show ?case using tg_inv_turn by blast
next
  case (g_join_throw s exc cur e) then show ?case using tg_inv_join_throw by blast
qed

lemma tg_reach_inv: "tg_step\<^sup>*\<^sup>* tg_init s \<Longrightarrow> tg_inv s"
proof (induction rule: rtranclp_induct)
  case base show ?case by (simp add: tg_init_def tg_inv_def phase_ok_def recorded_def first_base_def)
next
  case (step y z) then show ?case using tg_step_inv by blast
qed

section \<open>Properties\<close>


text \<open>Two children; the first fails with a user error, the abort cancels the second, the parent is thrown out of
  its body and leaves.\<close>

definition tg_demo :: tgroup where
  "tg_demo = tg_init\<lparr>tg_entered := True, tg_exiting := True, tg_aborting := True, tg_tasks := [], tg_done := True,
     tg_phase := TLeft (Some GroupCancelled) (XGroup [UserErr 9]), tg_thrown := [2], tg_parent_thrown := 1, tg_failed := [UserErr 9]\<rparr>"

lemma tg_demo_reach: "tg_step\<^sup>*\<^sup>* tg_init tg_demo"
proof -
  define s1 where "s1 = tg_init\<lparr>tg_parent := Some 0, tg_entered := True, tg_phase := TBody\<rparr>"
  define s2 where "s2 = s1\<lparr>tg_done := False, tg_tasks := [1]\<rparr>"
  define s3 where "s3 = s2\<lparr>tg_tasks := [1, 2]\<rparr>"
  define s4 where "s4 = s3\<lparr>tg_tasks := [2], tg_errors := [UserErr 9], tg_failed := [UserErr 9], tg_queued := 1\<rparr>"
  define s5 where "s5 = s4\<lparr>tg_queued := 0, tg_aborting := True, tg_thrown := [2], tg_parent_thrown := 1\<rparr>"
  define s6 where "s6 = s5\<lparr>tg_exiting := True, tg_phase := TJoin (Some GroupCancelled)\<rparr>"
  define s7 where "s7 = s6\<lparr>tg_tasks := [], tg_done := True\<rparr>"
  have "tg_enter (Some 0) tg_init = (s1, Inr ())" by (simp add: tg_enter_def s1_def tg_init_def)
  then have 1: "tg_step tg_init s1" by (rule g_enter [rotated]) (simp add: tg_init_def)
  have "tg_spawn 1 s1 = (s2, Inr 1)" by (simp add: tg_spawn_def s2_def s1_def tg_init_def)
  then have 2: "tg_step s1 s2" by (rule g_spawn [rotated]) (simp add: s1_def tg_init_def)
  have "tg_spawn 2 s2 = (s3, Inr 2)" by (simp add: tg_spawn_def s3_def s2_def s1_def tg_init_def)
  then have 3: "tg_step s2 s3" by (rule g_spawn [rotated]) (simp add: s2_def)
  have "on_task_done 1 (Some (Plain (UserErr 9))) s3 = s4"
    by (simp add: on_task_done_def discard_task_def record_failure_def s4_def s3_def s2_def s1_def tg_init_def)
  moreover have "tg_step s3 (on_task_done 1 (Some (Plain (UserErr 9))) s3)" by (rule g_child_done) (simp add: s3_def)
  ultimately have 4: "tg_step s3 s4" by simp
  have "request_abort 5 False (s4\<lparr>tg_queued := tg_queued s4 - 1\<rparr>) = (s5, Inr ())"
    by (simp add: request_abort_def abort_children_def s5_def s4_def s3_def s2_def s1_def tg_init_def)
  then have 5: "tg_step s4 s5" by (rule g_callback [rotated]) (simp add: s4_def)
  have "exit_begin 0 (Some GroupCancelled) s5 = s6"
    by (simp add: exit_begin_def s6_def s5_def s4_def s3_def s2_def s1_def tg_init_def)
  moreover have "tg_step s5 (exit_begin 0 (Some GroupCancelled) s5)"
    by (rule g_exit) (simp add: s5_def s4_def s3_def s2_def s1_def)
  ultimately have 6: "tg_step s5 s6" by simp
  have "on_task_done 2 (Some GroupCancelled) s6 = s7"
    by (simp add: on_task_done_def discard_task_def s7_def s6_def s5_def s4_def s3_def s2_def s1_def tg_init_def)
  moreover have "tg_step s6 (on_task_done 2 (Some GroupCancelled) s6)"
    by (rule g_child_done) (simp add: s6_def s5_def s4_def)
  ultimately have 7: "tg_step s6 s7" by simp
  have "join_turn s7 = tg_demo"
    by (simp add: join_turn_def tg_demo_def tg_finally_def exit_result_def tg_ours_def s7_def s6_def s5_def s4_def s3_def s2_def s1_def tg_init_def)
  moreover have "tg_step s7 (join_turn s7)" by (rule g_join_wake) (simp add: s7_def s6_def)
  ultimately have 8: "tg_step s7 tg_demo" by simp
  show ?thesis using 1 2 3 4 5 6 7 8 by (meson rtranclp.rtrancl_into_rtrancl rtranclp.rtrancl_refl)
qed


text \<open>A body that cancels its group and then waits for a child re-raises the child's sentinel; the block lets it
  out although nothing failed.\<close>

theorem sentinel_leaks:
  "\<exists>s. tg_step\<^sup>*\<^sup>* tg_init s \<and> tg_phase s = TLeft (Some GroupCancelled) (XBody GroupCancelled) \<and> tg_failed s = []"
proof -
  define s1 where "s1 = tg_init\<lparr>tg_parent := Some 0, tg_entered := True, tg_phase := TBody\<rparr>"
  define s2 where "s2 = s1\<lparr>tg_done := False, tg_tasks := [1]\<rparr>"
  define s3 where "s3 = tg_cancel 0 s2"
  define s4 where "s4 = on_task_done 1 (Some GroupCancelled) s3"
  define s5 where "s5 = exit_begin 0 (Some GroupCancelled) s4"
  note defs = s5_def s4_def s3_def s2_def s1_def tg_init_def tg_cancel_def abort_children_def on_task_done_def discard_task_def exit_begin_def
  have "tg_enter (Some 0) tg_init = (s1, Inr ())" by (simp add: tg_enter_def s1_def tg_init_def)
  then have 1: "tg_step tg_init s1" by (rule g_enter [rotated]) (simp add: tg_init_def)
  have "tg_spawn 1 s1 = (s2, Inr 1)" by (simp add: tg_spawn_def s2_def s1_def tg_init_def)
  then have 2: "tg_step s1 s2" by (rule g_spawn [rotated]) (simp add: s1_def tg_init_def)
  have 3: "tg_step s2 s3" unfolding s3_def by (rule g_cancel)
  have 4: "tg_step s3 s4" unfolding s4_def by (rule g_child_done) (simp add: defs)
  have 5: "tg_step s4 s5" unfolding s5_def by (rule g_exit) (simp add: defs)
  have 6: "tg_step s5 (join_turn s5)" by (rule g_join_wake [where exc = "Some GroupCancelled"]) (simp add: defs)
  have "tg_phase (join_turn s5) = TLeft (Some GroupCancelled) (XBody GroupCancelled)" "tg_failed (join_turn s5) = []"
    by (simp_all add: join_turn_def exit_result_def tg_ours_def tg_finally_def defs)
  then show ?thesis using 1 2 3 4 5 6 by (meson rtranclp.rtrancl_into_rtrancl rtranclp.rtrancl_refl)
qed

text \<open>Any other exception thrown into the join leaves the block at once, with the children still running.\<close>

lemma join_throw_abandons_children:
  assumes "tg_phase s = TJoin exc" and "e = Plain KeyboardInterruptErr \<or> (\<exists>n. e = Plain (UserErr n))"
  shows "tg_phase (join_throw cur e s) = TAbandoned e \<and> tg_tasks (join_throw cur e s) = tg_tasks s"
  using assms by (auto simp: join_throw_def join_exc_def tg_finally_def)

text \<open>C39: \<open>TaskGroup.start\<close> always gets an answer, and only one.  When the child has ended (after any number of
  \<open>started\<close> calls, by returning or raising, or thrown into before it ran), the status is set: \<open>start\<close> returns the
  value of the first \<open>started\<close> call if there was one; otherwise it raises the child's exception, \<open>RuntimeError\<close>
  for a clean return without \<open>started\<close>, \<open>CancelledError\<close> for a child that was cancelled before it ran.  The outcome of
  the child task is exact too: a child that ran and ended before \<open>started\<close> has no failure of its own, one that
  ended afterwards has its own outcome, and a child that never ran keeps the exception thrown into it, which
  \<open>start\<close> then reports as well.\<close>

theorem start_answers:
  "ss_wait (fst (start_child entered calls r)) =
     Some (if entered then (case calls of v # _ \<Rightarrow> Inr v | [] \<Rightarrow> Inl (case r of Inl e \<Rightarrow> e | Inr _ \<Rightarrow> Plain RuntimeErr))
           else Inl (case r of Inl (Plain e) \<Rightarrow> Plain e | _ \<Rightarrow> Plain CancelledErr))
   \<and> snd (start_child entered calls r) =
     (if \<not> entered then Inl (case r of Inl e \<Rightarrow> e | Inr _ \<Rightarrow> Plain CancelledErr)
      else if calls = [] then Inr None else (case r of Inl e \<Rightarrow> Inl e | Inr v \<Rightarrow> Inr (Some v)))"
proof -
  have called: "ss_called s \<Longrightarrow> run_started vs s = s" for vs s
    by (induction vs) (simp_all add: ss_call_started_def)
  show ?thesis
  proof (cases entered)
    case True
    then show ?thesis
      by (cases calls; cases r) (simp_all add: start_child_def called ss_call_started_def wrapped_end_def start_on_done_def ss_fail_def ss_wait_def ss_init_def)
  next
    case False
    then show ?thesis
      by (cases r) (auto simp: start_child_def start_on_done_def ss_fail_def ss_wait_def ss_init_def split: gexn.split)
  qed
qed

text \<open>So a failure before \<open>started\<close> is reported twice when it was thrown into a child that had not run yet: by
  \<open>start\<close>, and as a failure of the group's child.\<close>

theorem start_primed_reported_twice:
  "ss_wait (fst (start_child False calls (Inl (Plain (OSErr n))))) = Some (Inl (Plain (OSErr n)))
   \<and> snd (start_child False calls (Inl (Plain (OSErr n)))) = Inl (Plain (OSErr n))"
  by (simp add: start_child_def start_on_done_def ss_fail_def ss_wait_def ss_init_def)

end
