(* ===== verification/Happy_Eyeballs.thy ===== *)
theory Happy_Eyeballs
  imports Task_Group
begin

text \<open>
  TCP connect of \<open>tealetio/happy_eyeballs.py\<close>: address interleaving, one connect attempt, the sequential walk and
  the race of attempts inside a \<open>TaskGroup\<close>.  The IO manager's calls (\<open>sock_create\<close>, \<open>sock_fastopen\<close>,
  \<open>sock_sendall\<close>, each with its \<open>wait\<close>) are given by \<open>tcp_io\<close> over an environment state; \<open>net\<close> records the open
  sockets of the call and the bytes written on each.  Resolution is an argument.  Delays are in milliseconds.
\<close>

section \<open>Addresses\<close>

record addrinfo =
  ai_family :: int
  ai_type :: int
  ai_proto :: int
  ai_addr :: nat

text \<open>\<open>addrinfos_by_family.setdefault(addr[0], []).append(addr)\<close> on an insertion-ordered dict.\<close>

definition family_append :: "(int \<times> addrinfo list) list \<Rightarrow> addrinfo \<Rightarrow> (int \<times> addrinfo list) list" where
  "family_append d a =
     (if ai_family a \<in> fst ` set d then map (\<lambda>(f, l). if f = ai_family a then (f, l @ [a]) else (f, l)) d
      else d @ [(ai_family a, [a])])"

definition by_family :: "addrinfo list \<Rightarrow> (int \<times> addrinfo list) list" where
  "by_family infos = foldl family_append [] infos"

text \<open>\<open>itertools.zip_longest\<close>.\<close>

definition total :: "'a list list \<Rightarrow> nat" where
  "total ls = sum_list (map length ls)"

lemma total_tails: "l \<in> set ls \<Longrightarrow> l \<noteq> [] \<Longrightarrow> total (map tl ls) < total ls"
proof (induction ls)
  case (Cons k ls)
  have le: "total (map tl ls) \<le> total ls" by (induction ls) (auto simp: total_def intro: add_mono)
  show ?case
  proof (cases "l = k")
    case True
    then have "length (tl k) < length k" using Cons.prems by (cases k) auto
    then show ?thesis using le by (simp add: total_def del: length_tl)
  next
    case False
    then have "total (map tl ls) < total ls" using Cons by simp
    moreover have "length (tl k) \<le> length k" by simp
    ultimately show ?thesis by (simp add: total_def del: length_tl)
  qed
qed simp

function zip_longest :: "'a list list \<Rightarrow> 'a option list list" where
  "zip_longest ls =
     (if \<forall>l \<in> set ls. l = [] then []
      else map (\<lambda>l. case l of [] \<Rightarrow> None | x # _ \<Rightarrow> Some x) ls # zip_longest (map tl ls))"
  by pat_completeness auto
termination
  by (relation "measure total") (auto dest: total_tails)

declare zip_longest.simps [simp del]

lemma zip_longest_steps:
  "\<forall>l \<in> set ls. l = [] \<Longrightarrow> zip_longest ls = []"
  "\<not> (\<forall>l \<in> set ls. l = []) \<Longrightarrow> zip_longest ls = map (\<lambda>l. case l of [] \<Rightarrow> None | x # _ \<Rightarrow> Some x) ls # zip_longest (map tl ls)"
  by (subst zip_longest.simps, simp)+

definition round_robin :: "'a list list \<Rightarrow> 'a list" where
  "round_robin ls = map the (filter (\<lambda>a. a \<noteq> None) (concat (zip_longest ls)))"

definition interleave_addrinfos :: "addrinfo list \<Rightarrow> int \<Rightarrow> pyexn + addrinfo list" where
  "interleave_addrinfos infos first_address_family_count =
     (let ls = map snd (by_family infos) in
      if first_address_family_count > 1
      then (case ls of
              [] \<Rightarrow> Inl IndexErr
            | l # rest \<Rightarrow>
                (let k = nat (first_address_family_count - 1)
                 in Inr (take k l @ round_robin (drop k l # rest))))
      else Inr (round_robin ls))"

definition local_addrs_for_family :: "addrinfo list option \<Rightarrow> int \<Rightarrow> pyexn + nat list option" where
  "local_addrs_for_family local_infos family =
     (case local_infos of
        None \<Rightarrow> Inr None
      | Some infos \<Rightarrow>
          (let addrs = map ai_addr (filter (\<lambda>i. ai_family i = family) infos)
           in if addrs = [] then Inl (OSErr 0) else Inr (Some addrs)))"

section \<open>One attempt\<close>

record net =
  n_live :: "nat list"
  n_sent :: "nat \<Rightarrow> nat list"

record 'e tcp_io =
  io_create :: "addrinfo \<Rightarrow> nat list option \<Rightarrow> 'e \<Rightarrow> 'e \<times> (pyexn + nat)"
  io_fastopen :: "addrinfo \<Rightarrow> nat list \<Rightarrow> nat list option \<Rightarrow> 'e \<Rightarrow> 'e \<times> (pyexn + nat \<times> nat)"
  io_sendall :: "nat \<Rightarrow> nat list \<Rightarrow> 'e \<Rightarrow> 'e \<times> pyexn option"

definition net_open :: "nat \<Rightarrow> nat list \<Rightarrow> net \<Rightarrow> net" where
  "net_open s bytes n = n\<lparr>n_live := n_live n @ [s], n_sent := (n_sent n)(s := bytes)\<rparr>"

definition net_send :: "nat \<Rightarrow> nat list \<Rightarrow> net \<Rightarrow> net" where
  "net_send s bytes n = n\<lparr>n_sent := (n_sent n)(s := n_sent n s @ bytes)\<rparr>"

text \<open>\<open>abortive_close\<close>: harmless on a closed socket.\<close>

definition abortive_close :: "nat \<Rightarrow> net \<Rightarrow> net" where
  "abortive_close s n = n\<lparr>n_live := removeAll s (n_live n)\<rparr>"

definition connect_tcp_socket :: "'e tcp_io \<Rightarrow> addrinfo \<Rightarrow> addrinfo list option \<Rightarrow> 'e \<Rightarrow> 'e \<times> (pyexn + nat)" where
  "connect_tcp_socket io info local_infos e =
     (case local_addrs_for_family local_infos (ai_family info) of
        Inl x \<Rightarrow> (e, Inl x)
      | Inr local_addrs \<Rightarrow> io_create io info local_addrs e)"

definition connect_tcp_fastopen :: "'e tcp_io \<Rightarrow> addrinfo \<Rightarrow> nat list \<Rightarrow> addrinfo list option \<Rightarrow> 'e \<Rightarrow> 'e \<times> (pyexn + nat \<times> nat)" where
  "connect_tcp_fastopen io info data local_infos e =
     (case local_addrs_for_family local_infos (ai_family info) of
        Inl x \<Rightarrow> (e, Inl x)
      | Inr local_addrs \<Rightarrow> io_fastopen io info data local_addrs e)"

definition connect_tcp_attempt ::
  "'e tcp_io \<Rightarrow> addrinfo \<Rightarrow> nat list \<Rightarrow> addrinfo list option \<Rightarrow> bool \<Rightarrow> 'e \<Rightarrow> net \<Rightarrow> 'e \<times> net \<times> (pyexn + nat \<times> nat)" where
  "connect_tcp_attempt io info initial local_infos fastopen e n =
     (if initial \<noteq> [] \<and> fastopen
      then (case connect_tcp_fastopen io info initial local_infos e of
              (e1, Inl x) \<Rightarrow> (e1, n, Inl x)
            | (e1, Inr (s, k)) \<Rightarrow> (e1, net_open s (take k initial) n, Inr (s, k)))
      else (case connect_tcp_socket io info local_infos e of
              (e1, Inl x) \<Rightarrow> (e1, n, Inl x)
            | (e1, Inr s) \<Rightarrow> (e1, net_open s [] n, Inr (s, 0))))"

definition send_unsent_tail :: "'e tcp_io \<Rightarrow> nat \<Rightarrow> nat list \<Rightarrow> nat \<Rightarrow> 'e \<Rightarrow> net \<Rightarrow> 'e \<times> net \<times> pyexn option" where
  "send_unsent_tail io s data k e n =
     (let tail = drop k data in
      if tail = [] then (e, n, None)
      else (case io_sendall io s tail e of
              (e1, Some x) \<Rightarrow> (e1, abortive_close s n, Some x)
            | (e1, None) \<Rightarrow> (e1, net_send s tail n, None)))"

datatype cexn = COne pyexn | CMultiple "pyexn list" | CNoResults

definition raise_connect_errors :: "(pyexn \<Rightarrow> string) \<Rightarrow> pyexn list \<Rightarrow> cexn" where
  "raise_connect_errors str errors =
     (case errors of
        [] \<Rightarrow> CNoResults
      | [x] \<Rightarrow> COne x
      | x # _ \<Rightarrow> if \<forall>y \<in> set errors. str y = str x then COne x else CMultiple errors)"

section \<open>One address at a time\<close>

fun sequential_loop ::
  "'e tcp_io \<Rightarrow> addrinfo list \<Rightarrow> addrinfo list option \<Rightarrow> nat list \<Rightarrow> bool \<Rightarrow> pyexn option \<Rightarrow> 'e \<Rightarrow> net \<Rightarrow> 'e \<times> net \<times> (cexn + nat)" where
  "sequential_loop io [] local_infos initial fastopen last_error e n =
     (e, n, Inl (case last_error of Some x \<Rightarrow> COne x | None \<Rightarrow> CNoResults))"
| "sequential_loop io (info # infos) local_infos initial fastopen last_error e n =
     (case connect_tcp_attempt io info initial local_infos fastopen e n of
        (e1, n1, Inl x) \<Rightarrow>
          if is_OSError x then sequential_loop io infos local_infos initial fastopen (Some x) e1 n1 else (e1, n1, Inl (COne x))
      | (e1, n1, Inr (s, k)) \<Rightarrow>
          (case (if initial \<noteq> [] then send_unsent_tail io s initial k e1 n1 else (e1, n1, None)) of
             (e2, n2, None) \<Rightarrow> (e2, n2, Inr s)
           | (e2, n2, Some x) \<Rightarrow>
               if is_OSError x then sequential_loop io infos local_infos initial fastopen (Some x) e2 n2 else (e2, n2, Inl (COne x))))"

definition connect_tcp_sequential ::
  "'e tcp_io \<Rightarrow> addrinfo list \<Rightarrow> addrinfo list option \<Rightarrow> nat list \<Rightarrow> bool \<Rightarrow> 'e \<Rightarrow> net \<Rightarrow> 'e \<times> net \<times> (cexn + nat)" where
  "connect_tcp_sequential io infos local_infos initial fastopen e n = sequential_loop io infos local_infos initial fastopen None e n"

section \<open>The race\<close>

datatype race_phase = RLoop | RJoin "gexn option" | RWon nat | RRaised

record race =
  rc_left :: "addrinfo list"
  rc_started :: nat
  rc_running :: "nat set"
  rc_winner :: "nat option"
  rc_winner_sent :: nat
  rc_errors :: "pyexn list"
  rc_failed :: "pyexn list"
  rc_cancelled :: bool
  rc_net :: net
  rc_phase :: race_phase
  rc_raised :: "(tg_result + cexn) option"

definition race_init :: "addrinfo list \<Rightarrow> net \<Rightarrow> race" where
  "race_init infos n = \<lparr>rc_left = infos, rc_started = 0, rc_running = {}, rc_winner = None, rc_winner_sent = 0, rc_errors = [],
     rc_failed = [], rc_cancelled = False, rc_net = n, rc_phase = RLoop, rc_raised = None\<rparr>"

text \<open>One turn of the \<open>for\<close> loop: stop when there is a winner, else spawn the next attempt.\<close>

definition race_turn :: "race \<Rightarrow> race" where
  "race_turn s =
     (case rc_left s of
        [] \<Rightarrow> s
      | info # rest \<Rightarrow>
          if rc_winner s \<noteq> None then s
          else s\<lparr>rc_left := rest, rc_running := insert (rc_started s) (rc_running s), rc_started := Suc (rc_started s)\<rparr>)"

text \<open>The end of an \<open>attempt\<close> task, given what its connect call came back with; a failure other than \<open>OSError\<close>
  and cancellation is a failure of the group.\<close>

definition attempt_end :: "nat list \<Rightarrow> nat \<Rightarrow> gexn + nat \<times> nat \<Rightarrow> race \<Rightarrow> race" where
  "attempt_end prefix i r s =
     (let s1 = s\<lparr>rc_running := rc_running s - {i}\<rparr> in
      case r of
        Inl (Plain x) \<Rightarrow>
          if is_OSError x then s1\<lparr>rc_errors := rc_errors s1 @ [x]\<rparr>
          else if x = CancelledErr then s1 else s1\<lparr>rc_failed := rc_failed s1 @ [x]\<rparr>
      | Inl GroupCancelled \<Rightarrow> s1
      | Inr (sock, k) \<Rightarrow>
          (let s2 = s1\<lparr>rc_net := net_open sock (take k prefix) (rc_net s1)\<rparr> in
           if rc_winner s2 = None then s2\<lparr>rc_winner := Some sock, rc_winner_sent := k, rc_cancelled := True\<rparr>
           else s2\<lparr>rc_net := abortive_close sock (rc_net s2)\<rparr>))"

text \<open>The body of the \<open>with\<close> block ends: normally when there is a winner or no address is left, or by an
  exception thrown into the caller (or out of the group).\<close>

definition race_leave :: "gexn option \<Rightarrow> race \<Rightarrow> race" where
  "race_leave exc s = s\<lparr>rc_cancelled := (rc_cancelled s \<or> rc_winner s \<noteq> None \<or> exc \<noteq> None), rc_phase := RJoin exc\<rparr>"

text \<open>After the join: the group has raised, or the winner writes the rest, or all attempts have failed.\<close>

definition race_finish :: "(pyexn \<Rightarrow> string) \<Rightarrow> 'e tcp_io \<Rightarrow> nat list \<Rightarrow> tg_result \<Rightarrow> 'e \<Rightarrow> race \<Rightarrow> 'e \<times> race" where
  "race_finish str io initial gres e s =
     (if gres \<noteq> XNormal
      then (e, s\<lparr>rc_phase := RRaised, rc_raised := Some (Inl gres),
                 rc_net := (case rc_winner s of None \<Rightarrow> rc_net s | Some w \<Rightarrow> abortive_close w (rc_net s))\<rparr>)
      else (case rc_winner s of
              None \<Rightarrow> (e, s\<lparr>rc_phase := RRaised, rc_raised := Some (Inr (raise_connect_errors str (rc_errors s)))\<rparr>)
            | Some w \<Rightarrow>
                (case (if initial \<noteq> [] then send_unsent_tail io w initial (rc_winner_sent s) e (rc_net s) else (e, rc_net s, None)) of
                   (e1, n1, None) \<Rightarrow> (e1, s\<lparr>rc_phase := RWon w, rc_net := n1\<rparr>)
                 | (e1, n1, Some x) \<Rightarrow> (e1, s\<lparr>rc_phase := RRaised, rc_raised := Some (Inr (COne x)), rc_net := abortive_close w n1\<rparr>))))"

section \<open>Resolution and dispatch\<close>

definition resolve_tcp_infos :: "(nat \<Rightarrow> pyexn + addrinfo list) \<Rightarrow> nat \<Rightarrow> pyexn + addrinfo list" where
  "resolve_tcp_infos resolve addr =
     (case resolve addr of Inl x \<Rightarrow> Inl x | Inr infos \<Rightarrow> if infos = [] then Inl (OSErr 0) else Inr infos)"

definition resolve_local_infos :: "(nat \<Rightarrow> pyexn + addrinfo list) \<Rightarrow> nat option \<Rightarrow> pyexn + addrinfo list option" where
  "resolve_local_infos resolve source_address =
     (case source_address of
        None \<Rightarrow> Inr None
      | Some a \<Rightarrow> (case resolve_tcp_infos resolve a of Inl x \<Rightarrow> Inl x | Inr infos \<Rightarrow> Inr (Some infos)))"

definition prepare_tcp_infos :: "(nat \<Rightarrow> pyexn + addrinfo list) \<Rightarrow> nat \<Rightarrow> int option \<Rightarrow> int option \<Rightarrow> pyexn + addrinfo list" where
  "prepare_tcp_infos resolve addr happy_eyeballs_delay interleave =
     (case resolve_tcp_infos resolve addr of
        Inl x \<Rightarrow> Inl x
      | Inr infos \<Rightarrow>
          (case happy_eyeballs_delay of
             Some d \<Rightarrow> if d < 0 then Inl ValueErr
               else (let i = (case interleave of None \<Rightarrow> 1 | Some i \<Rightarrow> i)
                     in if i < 0 then Inl ValueErr else if i \<noteq> 0 then interleave_addrinfos infos i else Inr infos)
           | None \<Rightarrow>
               (case interleave of
                  None \<Rightarrow> Inr infos
                | Some i \<Rightarrow> if i < 0 then Inl ValueErr else if i \<noteq> 0 then interleave_addrinfos infos i else Inr infos)))"

datatype connect_plan =
    Sequential "addrinfo list" "addrinfo list option"
  | Race "addrinfo list" "addrinfo list option" int

definition HAPPY_EYEBALLS_DELAY :: int where "HAPPY_EYEBALLS_DELAY = 250"

text \<open>\<open>_connect_with_io\<close> up to the call it ends with.\<close>

definition connect_with_io ::
  "(nat \<Rightarrow> pyexn + addrinfo list) \<Rightarrow> nat \<Rightarrow> bool \<Rightarrow> int option \<Rightarrow> int option \<Rightarrow> nat option \<Rightarrow> pyexn + connect_plan" where
  "connect_with_io resolve addr happy_eyeballs delay interleave source_address =
     (case resolve_local_infos resolve source_address of
        Inl x \<Rightarrow> Inl x
      | Inr local_infos \<Rightarrow>
          if \<not> happy_eyeballs
          then (if delay \<noteq> Some HAPPY_EYEBALLS_DELAY \<or> interleave \<noteq> None then Inl ValueErr
                else (case resolve_tcp_infos resolve addr of Inl x \<Rightarrow> Inl x | Inr infos \<Rightarrow> Inr (Sequential infos local_infos)))
          else (case prepare_tcp_infos resolve addr delay interleave of
                  Inl x \<Rightarrow> Inl x
                | Inr infos \<Rightarrow> (case delay of
                                  None \<Rightarrow> Inr (Sequential infos local_infos)
                                | Some d \<Rightarrow> if length infos = 1 then Inr (Sequential infos local_infos)
                                            else Inr (Race infos local_infos d))))"

section \<open>Interleaving\<close>

definition heads :: "'a list list \<Rightarrow> 'a list" where
  "heads ls = map the (filter (\<lambda>a. a \<noteq> None) (map (\<lambda>l. case l of [] \<Rightarrow> None | x # _ \<Rightarrow> Some x) ls))"

lemma round_robin_rec: "round_robin ls = (if \<forall>l \<in> set ls. l = [] then [] else heads ls @ round_robin (map tl ls))"
  by (simp add: round_robin_def heads_def zip_longest.simps [of ls])

lemma heads_simps [simp]: "heads [] = []" "heads ([] # ls) = heads ls" "heads ((x # l) # ls) = x # heads ls"
  by (simp_all add: heads_def)

lemma heads_empty: "\<forall>l \<in> set ls. l = [] \<Longrightarrow> heads ls = []"
  by (induction ls) auto

text \<open>A dict from families to their addresses.\<close>

definition family_dict :: "(int \<times> addrinfo list) list \<Rightarrow> bool" where
  "family_dict d \<longleftrightarrow> distinct (map fst d) \<and> (\<forall>(f, l) \<in> set d. \<forall>x \<in> set l. ai_family x = f)"

definition lookup :: "(int \<times> addrinfo list) list \<Rightarrow> int \<Rightarrow> addrinfo list" where
  "lookup d f = (case map_of d f of None \<Rightarrow> [] | Some l \<Rightarrow> l)"

lemma lookup_simps [simp]: "lookup [] f = []" "lookup ((g, l) # d) f = (if g = f then l else lookup d f)"
  by (simp_all add: lookup_def)

lemma lookup_notin: "f \<notin> fst ` set d \<Longrightarrow> lookup d f = []"
  by (induction d) auto

lemma family_dict_Cons: "family_dict ((f, l) # d) \<longleftrightarrow> f \<notin> fst ` set d \<and> (\<forall>x \<in> set l. ai_family x = f) \<and> family_dict d"
  by (auto simp: family_dict_def)

lemma heads_family: "family_dict d \<Longrightarrow> filter (\<lambda>x. ai_family x = f) (heads (map snd d)) = take 1 (lookup d f)"
proof (induction d)
  case (Cons p d)
  obtain g l where p: "p = (g, l)" by fastforce
  have i: "g \<notin> fst ` set d" "\<forall>x \<in> set l. ai_family x = g" "family_dict d" using Cons.prems p by (simp_all add: family_dict_Cons)
  then show ?case using Cons.IH lookup_notin [of g d] p by (cases l) auto
qed simp

lemma tails_dict: "family_dict d \<Longrightarrow> family_dict (map (apsnd tl) d)" "lookup (map (apsnd tl) d) f = tl (lookup d f)"
proof (induction d)
  case (Cons p d)
  obtain g l where p: "p = (g, l)" by fastforce
  { case 1
    have "x \<in> set l" if "x \<in> set (tl l)" for x using that by (cases l) auto
    moreover have "fst ` apsnd tl ` set d = fst ` set d" by force
    ultimately show ?case using Cons.IH(1) 1 p by (simp add: family_dict_Cons) }
  { case 2 show ?case using Cons.IH(2) p by simp }
qed (simp_all add: family_dict_def)

lemma round_robin_family:
  "family_dict d \<Longrightarrow> filter (\<lambda>x. ai_family x = f) (round_robin (map snd d)) = lookup d f"
proof (induction "total (map snd d)" arbitrary: d rule: less_induct)
  case less
  show ?case
  proof (cases "\<forall>l \<in> set (map snd d). l = []")
    case True
    have "lookup d f = []" using True by (induction d) auto
    then show ?thesis using True by (simp add: round_robin_rec [of "map snd d"])
  next
    case False
    let ?d = "map (apsnd tl) d"
    obtain l where "l \<in> set (map snd d)" "l \<noteq> []" using False by blast
    from total_tails [OF this] have "total (map snd ?d) < total (map snd d)" by (simp add: comp_def)
    from less.hyps [OF this tails_dict(1) [OF less.prems]]
    have "filter (\<lambda>x. ai_family x = f) (round_robin (map snd ?d)) = tl (lookup d f)" by (simp add: tails_dict(2))
    moreover have "map tl (map snd d) = map snd ?d" by simp
    moreover have "round_robin (map snd d) = heads (map snd d) @ round_robin (map tl (map snd d))"
      by (subst round_robin_rec) (simp only: False if_False)
    ultimately have "filter (\<lambda>x. ai_family x = f) (round_robin (map snd d)) = take 1 (lookup d f) @ tl (lookup d f)"
      using heads_family [OF less.prems] by (simp only: filter_append)
    then show ?thesis by (cases "lookup d f") simp_all
  qed
qed

lemma family_append_ok:
  assumes "family_dict d"
  shows "family_dict (family_append d a)" and "lookup (family_append d a) f = (if f = ai_family a then lookup d f @ [a] else lookup d f)"
proof -
  let ?g = "ai_family a" and ?h = "\<lambda>(f, l). if f = ai_family a then (f, l @ [a]) else (f, l)"
  have ks: "map fst (map ?h d) = map fst d" by (induction d) auto
  show "family_dict (family_append d a)"
  proof (cases "?g \<in> fst ` set d")
    case True
    have ds: "distinct (map fst (map ?h d))" using assms unfolding ks by (simp add: family_dict_def)
    have hom: "\<forall>x \<in> set l. ai_family x = f" if m: "(f, l) \<in> set (map ?h d)" for f l
    proof -
      obtain l0 where "(f, l0) \<in> set d" "l = l0 \<or> f = ?g \<and> l = l0 @ [a]" using m by (auto split: if_splits)
      moreover have "\<forall>x \<in> set l0. ai_family x = f" using assms calculation(1) unfolding family_dict_def by blast
      ultimately show ?thesis by auto
    qed
    have e: "family_append d a = map ?h d" using True by (simp add: family_append_def)
    show ?thesis unfolding e family_dict_def using ds hom by (intro conjI ballI) (assumption, clarify, blast)
  next
    case False
    then show ?thesis using assms by (auto simp: family_dict_def family_append_def)
  qed
  have "lookup (map ?h d) f = (if f = ?g \<and> f \<in> fst ` set d then lookup d f @ [a] else lookup d f)"
    by (induction d) (auto simp: lookup_notin, force)
  moreover have "lookup (d @ [(?g, [a])]) f = (if f = ?g then lookup d f @ [a] else lookup d f)" if "?g \<notin> fst ` set d"
    using that by (induction d) (auto simp: lookup_notin)
  ultimately show "lookup (family_append d a) f = (if f = ?g then lookup d f @ [a] else lookup d f)"
    by (cases "?g \<in> fst ` set d"; cases "f = ?g"; simp add: family_append_def)
qed

lemma by_family_ok: "family_dict (by_family infos) \<and> lookup (by_family infos) f = filter (\<lambda>x. ai_family x = f) infos"
proof (induction infos rule: rev_induct)
  case Nil show ?case by (simp add: by_family_def family_dict_def)
next
  case (snoc a infos)
  have "by_family (infos @ [a]) = family_append (by_family infos) a" by (simp add: by_family_def)
  then show ?case using family_append_ok [of "by_family infos" a] snoc.IH by auto
qed

section \<open>Properties\<close>

lemma same_families_mset:
  fixes xs ys :: "addrinfo list"
  assumes "\<And>f. filter (\<lambda>x. ai_family x = f) xs = filter (\<lambda>x. ai_family x = f) ys"
  shows "mset xs = mset ys"
proof (rule multiset_eqI)
  fix a :: addrinfo
  have "count (mset zs) a = count (mset (filter (\<lambda>x. ai_family x = ai_family a) zs)) a" for zs :: "addrinfo list"
    by (simp add: mset_filter)
  then show "count (mset xs) a = count (mset ys) a" using assms [of "ai_family a"] by metis
qed

lemma by_family_empty: "by_family infos = [] \<longleftrightarrow> infos = []"
proof
  assume "by_family infos = []"
  then have "filter (\<lambda>x. ai_family x = f) infos = []" for f using by_family_ok [of infos f] by simp
  from this [of "ai_family (hd infos)"] show "infos = []" by (cases infos) auto
qed (simp add: by_family_def)

text \<open>\<open>_interleave_addrinfos\<close> neither drops nor repeats an address and keeps the resolver's order within each
  family, whatever the first-family count; without a count above one the result starts with one address of
  each family, in the order the families appear.  Only an empty list with a count above one raises.\<close>

theorem interleave_keeps_order:
  assumes "infos \<noteq> [] \<or> n \<le> 1"
  shows "\<exists>out. interleave_addrinfos infos n = Inr out \<and> mset out = mset infos
    \<and> (\<forall>f. filter (\<lambda>x. ai_family x = f) out = filter (\<lambda>x. ai_family x = f) infos)
    \<and> (n \<le> 1 \<longrightarrow> take (length (heads (map snd (by_family infos)))) out = heads (map snd (by_family infos)))"
proof -
  let ?d = "by_family infos"
  have d: "family_dict ?d" "\<And>f. lookup ?d f = filter (\<lambda>x. ai_family x = f) infos" using by_family_ok by simp_all
  have "\<exists>out. interleave_addrinfos infos n = Inr out
    \<and> (\<forall>f. filter (\<lambda>x. ai_family x = f) out = filter (\<lambda>x. ai_family x = f) infos)
    \<and> (n \<le> 1 \<longrightarrow> take (length (heads (map snd ?d))) out = heads (map snd ?d))"
  proof (cases "n > 1")
    case False
    have "take (length (heads (map snd ?d))) (round_robin (map snd ?d)) = heads (map snd ?d)"
    proof (cases "\<forall>l \<in> set (map snd ?d). l = []")
      case True
      then have "heads (map snd ?d) = []" by (rule heads_empty)
      then show ?thesis by simp
    next
      case False
      then have "round_robin (map snd ?d) = heads (map snd ?d) @ round_robin (map tl (map snd ?d))"
        by (subst round_robin_rec) (simp only: if_False)
      then show ?thesis by simp
    qed
    then show ?thesis using False round_robin_family [OF d(1)] d(2) by (simp add: interleave_addrinfos_def)
  next
    case True
    then obtain f l rest where r: "?d = (f, l) # rest" using assms by_family_empty [of infos] by (cases ?d) auto
    let ?k = "nat (n - 1)"
    have fl: "f \<notin> fst ` set rest" "\<forall>x \<in> set l. ai_family x = f" "family_dict rest" using d(1) by (simp_all add: r family_dict_Cons)
    then have d': "family_dict ((f, drop ?k l) # rest)" by (auto simp: family_dict_Cons dest: in_set_dropD)
    have "filter (\<lambda>x. ai_family x = g) (take ?k l @ round_robin (drop ?k l # map snd rest)) = lookup ?d g" for g
    proof -
      have "filter (\<lambda>x. ai_family x = g) (take ?k l) = (if g = f then take ?k l else [])"
        using fl(2) by (auto simp: filter_empty_conv dest: in_set_takeD intro: filter_True)
      moreover have "filter (\<lambda>x. ai_family x = g) (round_robin (map snd ((f, drop ?k l) # rest))) = lookup ((f, drop ?k l) # rest) g"
        by (rule round_robin_family [OF d'])
      ultimately show ?thesis by (simp add: r)
    qed
    then show ?thesis using True unfolding d(2) by (auto simp: interleave_addrinfos_def r Let_def)
  qed
  then show ?thesis using same_families_mset by blast
qed

definition v6 :: "nat \<Rightarrow> addrinfo" where "v6 a = \<lparr>ai_family = 10, ai_type = 1, ai_proto = 6, ai_addr = a\<rparr>"
definition v4 :: "nat \<Rightarrow> addrinfo" where "v4 a = \<lparr>ai_family = 2, ai_type = 1, ai_proto = 6, ai_addr = a\<rparr>"

theorem interleave_keeps_order_witness:
  "interleave_addrinfos [v6 1, v6 2, v6 3, v4 4] 1 = Inr [v6 1, v4 4, v6 2, v6 3]
    \<and> (\<exists>out. interleave_addrinfos [v6 1, v6 2, v6 3, v4 4] 1 = Inr out \<and> mset out = mset [v6 1, v6 2, v6 3, v4 4])"
  using interleave_keeps_order [of "[v6 1, v6 2, v6 3, v4 4]" 1]
  by (simp add: interleave_addrinfos_def by_family_def family_append_def v6_def v4_def round_robin_def zip_longest_steps)

lemma sequential_loop_ok:
  "n_live n = [] \<Longrightarrow> sequential_loop io infos li initial fo le e n = (e', n', r) \<Longrightarrow>
    (case r of Inr s \<Rightarrow> n_live n' = [s] \<and> n_sent n' s = initial
     | Inl x \<Rightarrow> n_live n' = [] \<and> (x = CNoResults \<longrightarrow> infos = [] \<and> le = None))"
proof (induction infos arbitrary: le e n)
  case Nil
  then show ?case by (auto split: option.splits)
next
  case (Cons info infos)
  obtain e1 n1 a where a: "connect_tcp_attempt io info initial li fo e n = (e1, n1, a)" by (metis prod_cases3)
  show ?case
  proof (cases a)
    case (Inl x)
    then have "n1 = n" using a by (auto simp: connect_tcp_attempt_def split: if_splits prod.splits sum.splits)
    then show ?thesis using Cons a Inl by (auto split: if_splits) (fastforce split: sum.splits)
  next
    case (Inr sk)
    obtain s k where sk: "sk = (s, k)" by fastforce
    have n1: "n_live n1 = [s]" "n_sent n1 s = take k initial"
      using a Inr sk Cons.prems(1) by (auto simp: connect_tcp_attempt_def net_open_def split: if_splits prod.splits sum.splits)
    obtain e2 n2 t where t: "(if initial \<noteq> [] then send_unsent_tail io s initial k e1 n1 else (e1, n1, None)) = (e2, n2, t)"
      by (metis prod_cases3)
    have ok: "t = None \<Longrightarrow> n_live n2 = [s] \<and> n_sent n2 s = initial" "t \<noteq> None \<Longrightarrow> n_live n2 = []"
      using t n1 by (auto simp: send_unsent_tail_def net_send_def abortive_close_def Let_def split: if_splits prod.splits option.splits)
    show ?thesis
    proof (cases t)
      case None
      then show ?thesis using Cons.prems(2) a Inr sk t ok(1) by (auto split: if_splits)
    next
      case (Some x)
      then show ?thesis using Cons.prems(2) Cons.IH [OF ok(2)] a Inr sk t ok(2)
        by (auto split: if_splits) (fastforce split: sum.splits)+
    qed
  qed
qed

text \<open>The sequential connect leaves exactly one socket or none.  Whatever the IO calls do, when it returns, the
  returned socket is the only one open and carries exactly the initial bytes, the prefix accepted by fast open
  followed by the rest; when it raises, every socket it opened is closed, and the no-results error is raised
  only for an empty address list.\<close>

theorem sequential_one_socket:
  assumes "n_live n = []" and "connect_tcp_sequential io infos li initial fo e n = (e', n', r)"
  shows "case r of Inr s \<Rightarrow> n_live n' = [s] \<and> n_sent n' s = initial
    | Inl x \<Rightarrow> n_live n' = [] \<and> (x = CNoResults \<longrightarrow> infos = [])"
  using sequential_loop_ok [OF assms(1) assms(2) [unfolded connect_tcp_sequential_def]] by (cases r) auto

text \<open>One address whose connect works, sending through fast open that takes two of three bytes.\<close>

definition demo_io :: "unit tcp_io" where
  "demo_io = \<lparr>io_create = (\<lambda>_ _ e. (e, Inl (OSErr 111))), io_fastopen = (\<lambda>_ _ _ e. (e, Inr (4, 2))), io_sendall = (\<lambda>_ _ e. (e, None))\<rparr>"

definition no_net :: net where
  "no_net = \<lparr>n_live = [], n_sent = (\<lambda>_. [])\<rparr>"

theorem sequential_one_socket_witness:
  "snd (snd (connect_tcp_sequential demo_io [v4 9] None [1, 2, 3] True () no_net)) = Inr 4
    \<and> n_sent (fst (snd (connect_tcp_sequential demo_io [v4 9] None [1, 2, 3] True () no_net))) 4 = [1, 2, 3]"
proof -
  let ?r = "connect_tcp_sequential demo_io [v4 9] None [1, 2, 3] True () no_net"
  have r: "snd (snd ?r) = Inr 4"
    by (simp add: connect_tcp_sequential_def connect_tcp_attempt_def connect_tcp_fastopen_def local_addrs_for_family_def
        send_unsent_tail_def demo_io_def numeral_2_eq_2)
  have "?r = (fst ?r, fst (snd ?r), snd (snd ?r))" by (simp only: prod.collapse)
  from sequential_one_socket [OF _ this] r show ?thesis by (simp add: no_net_def)
qed

section \<open>All runs of the race\<close>

inductive race_step :: "(pyexn \<Rightarrow> string) \<Rightarrow> 'e tcp_io \<Rightarrow> nat list \<Rightarrow> bool \<Rightarrow> race \<Rightarrow> race \<Rightarrow> bool"
  for str :: "pyexn \<Rightarrow> string" and io :: "'e tcp_io" and initial :: "nat list" and fastopen :: bool where
  r_turn: "rc_phase s = RLoop \<Longrightarrow> race_step str io initial fastopen s (race_turn s)"
| r_attempt_fails: "i \<in> rc_running s \<Longrightarrow> race_step str io initial fastopen s (attempt_end initial i (Inl x) s)"
| r_attempt_connects: "i \<in> rc_running s \<Longrightarrow> sock \<notin> set (n_live (rc_net s)) \<Longrightarrow> (\<not> fastopen \<Longrightarrow> k = 0) \<Longrightarrow>
    race_step str io initial fastopen s (attempt_end initial i (Inr (sock, k)) s)"
| r_leave: "rc_phase s = RLoop \<Longrightarrow> exc \<noteq> None \<or> rc_winner s \<noteq> None \<or> rc_left s = [] \<Longrightarrow>
    race_step str io initial fastopen s (race_leave exc s)"
| r_finish: "rc_phase s = RJoin exc \<Longrightarrow> rc_running s = {} \<Longrightarrow> gres = expected exc timed_out cancel_exc (rc_failed s) \<Longrightarrow>
    race_finish str io initial gres e s = (e', s') \<Longrightarrow> race_step str io initial fastopen s s'"

definition race_inv :: "nat list \<Rightarrow> race \<Rightarrow> bool" where
  "race_inv initial s =
     (case rc_phase s of
        RWon w \<Rightarrow> rc_running s = {} \<and> n_live (rc_net s) = [w] \<and> n_sent (rc_net s) w = initial
      | RRaised \<Rightarrow> rc_running s = {} \<and> n_live (rc_net s) = []
      | _ \<Rightarrow> (case rc_winner s of
                None \<Rightarrow> n_live (rc_net s) = []
              | Some w \<Rightarrow> n_live (rc_net s) = [w] \<and> n_sent (rc_net s) w = take (rc_winner_sent s) initial))"

lemma race_inv_attempt:
  assumes "race_inv initial s" and "i \<in> rc_running s" and "\<And>sock k. r = Inr (sock, k) \<Longrightarrow> sock \<notin> set (n_live (rc_net s))"
  shows "race_inv initial (attempt_end initial i r s)"
proof -
  have ph: "rc_phase s = RLoop \<or> (\<exists>exc. rc_phase s = RJoin exc)"
    using assms(1,2) by (cases "rc_phase s") (auto simp: race_inv_def)
  show ?thesis
  proof (cases r)
    case (Inl x)
    then show ?thesis using assms(1) ph
      by (cases x; cases "rc_winner s") (auto simp: race_inv_def attempt_end_def Let_def)
  next
    case (Inr sk)
    obtain sock k where sk: "sk = (sock, k)" by fastforce
    have fresh: "sock \<notin> set (n_live (rc_net s))" using assms(3) Inr sk by simp
    show ?thesis
    proof (cases "rc_winner s")
      case None
      then show ?thesis using assms(1) ph Inr sk by (auto simp: race_inv_def attempt_end_def net_open_def)
    next
      case (Some w)
      then have "n_live (rc_net s) = [w]" "n_sent (rc_net s) w = take (rc_winner_sent s) initial"
        using assms(1) ph by (auto simp: race_inv_def)
      moreover have "sock \<noteq> w" using fresh calculation(1) by simp
      ultimately show ?thesis using Some ph Inr sk by (auto simp: race_inv_def attempt_end_def net_open_def abortive_close_def)
    qed
  qed
qed

lemma race_inv_finish:
  assumes "race_inv initial s" and "rc_phase s = RJoin exc" and "rc_running s = {}" and "race_finish str io initial gres e s = (e', s')"
  shows "race_inv initial s'"
proof (cases "rc_winner s")
  case None
  then show ?thesis using assms by (auto simp: race_inv_def race_finish_def split: if_splits)
next
  case (Some w)
  have l: "n_live (rc_net s) = [w]" "n_sent (rc_net s) w = take (rc_winner_sent s) initial"
    using assms(1,2) Some by (simp_all add: race_inv_def)
  show ?thesis
  proof (cases "gres = XNormal")
    case False
    then show ?thesis using assms(3,4) Some l by (auto simp: race_inv_def race_finish_def abortive_close_def)
  next
    case True
    obtain e1 n1 t where t: "(if initial \<noteq> [] then send_unsent_tail io w initial (rc_winner_sent s) e (rc_net s) else (e, rc_net s, None)) = (e1, n1, t)"
      by (metis prod_cases3)
    have "t = None \<Longrightarrow> n_live n1 = [w] \<and> n_sent n1 w = initial" "t \<noteq> None \<Longrightarrow> n_live n1 = []"
      using t l by (auto simp: send_unsent_tail_def net_send_def abortive_close_def Let_def split: if_splits prod.splits option.splits)
    then show ?thesis using assms(3,4) Some True t
      by (cases t) (auto simp: race_inv_def race_finish_def abortive_close_def)
  qed
qed

lemma race_step_inv: "race_step str io initial fo s s' \<Longrightarrow> race_inv initial s \<Longrightarrow> race_inv initial s'"
proof (induction rule: race_step.induct)
  case (r_turn s)
  have "race_turn s = s \<or> (\<exists>l r n. race_turn s = s\<lparr>rc_left := l, rc_running := r, rc_started := n\<rparr>)"
    by (simp add: race_turn_def split: list.split) blast
  then show ?case using r_turn by (auto simp: race_inv_def split: option.splits)
next
  case (r_attempt_fails i s x) then show ?case by (intro race_inv_attempt) auto
next
  case (r_attempt_connects i s sock k) then show ?case by (intro race_inv_attempt) auto
next
  case (r_leave s exc) then show ?case by (cases "rc_winner s") (simp_all add: race_leave_def race_inv_def)
next
  case (r_finish s exc gres timed_out cancel_exc e e' s') 
  show ?case by (rule race_inv_finish [OF r_finish.prems r_finish.hyps(1,2,4)])
qed

text \<open>C24: The happy-eyeballs race keeps at most one socket, over every order of attempts, failures, cancellations
  and exceptions: while it runs, the winner is the only open socket and every later connection is closed at
  once; when it returns, no attempt is running, the returned socket is the only one open and carries exactly the
  initial bytes; when it raises, for whatever reason, no attempt is running and every socket is closed.\<close>

theorem race_one_socket:
  assumes "n_live n0 = []" and "(race_step str io initial fo)\<^sup>*\<^sup>* (race_init infos n0) s"
  shows "set (n_live (rc_net s)) \<subseteq> set_option (rc_winner s) \<union> {w. rc_phase s = RWon w}
    \<and> (rc_phase s = RWon w \<longrightarrow> rc_running s = {} \<and> n_live (rc_net s) = [w] \<and> n_sent (rc_net s) w = initial)
    \<and> (rc_phase s = RRaised \<longrightarrow> rc_running s = {} \<and> n_live (rc_net s) = [])"
proof -
  have "race_inv initial s" using assms(2)
  proof (induction rule: rtranclp_induct)
    case base show ?case using assms(1) by (simp add: race_init_def race_inv_def)
  next
    case (step y z) then show ?case using race_step_inv by blast
  qed
  then show ?thesis by (cases "rc_phase s"; cases "rc_winner s") (auto simp: race_inv_def)
qed

text \<open>Two attempts run; the second connects first and wins, the first connects late and is closed, and the
  winner is returned.\<close>

definition race_demo :: "nat \<Rightarrow> race" where
  "race_demo i =
     (let s2 = race_turn (race_turn (race_init [v6 1, v4 2] no_net)); s3 = attempt_end [] 1 (Inr (8, 0)) s2;
          s4 = attempt_end [] 0 (Inr (7, 0)) s3; s5 = race_leave None s4; s6 = snd (race_finish (\<lambda>_. []) demo_io [] XNormal () s5)
      in [s2, s3, s4, s5, s6] ! i)"

lemmas race_demo_simps = race_demo_def race_turn_def race_init_def attempt_end_def race_leave_def race_finish_def net_open_def
  abortive_close_def no_net_def

lemma race_demo_reach: "(race_step (\<lambda>_. []) demo_io [] False)\<^sup>*\<^sup>* (race_init [v6 1, v4 2] no_net) (race_demo 4)"
proof -
  let ?R = "race_step (\<lambda>_. []) demo_io [] False" and ?s = "race_init [v6 1, v4 2] no_net"
  have "?R ?s (race_turn ?s)" by (rule r_turn) (simp add: race_init_def)
  moreover have "?R (race_turn ?s) (race_demo 0)"
    using r_turn [of "race_turn ?s"] by (simp add: race_demo_simps)
  moreover have "?R (race_demo 0) (race_demo 1)"
    using r_attempt_connects [of 1 "race_demo 0" 8 False 0] by (simp add: race_demo_simps)
  moreover have "?R (race_demo 1) (race_demo 2)"
    using r_attempt_connects [of 0 "race_demo 1" 7 False 0] by (simp add: race_demo_simps)
  moreover have "?R (race_demo 2) (race_demo 3)"
    using r_leave [of "race_demo 2" None] by (simp add: race_demo_simps)
  moreover have "?R (race_demo 3) (race_demo 4)"
    by (rule r_finish [of _ None XNormal False None _ _ _ "()" "()"]) (simp_all add: race_demo_simps expected_def body_error_def)
  ultimately show ?thesis by (meson rtranclp.rtrancl_into_rtrancl rtranclp.rtrancl_refl)
qed

theorem race_one_socket_witness: "rc_phase (race_demo 4) = RWon 8 \<and> n_live (rc_net (race_demo 4)) = [8]"
proof -
  have p: "rc_phase (race_demo 4) = RWon 8" by (simp add: race_demo_simps)
  show ?thesis using race_one_socket [OF _ race_demo_reach, of 8] p by (simp add: no_net_def)
qed

end
