(* ===== verification/Barrier.thy ===== *)
theory Barrier
  imports Waiters
begin

text \<open>
  \<open>Barrier\<close> of \<open>tealetio/locks.py\<close> over the store of private waiter events.  \<open>bar_step\<close> is the system of
  the calls on one barrier: an arrival that parks, the arrival that completes the party, the return of a
  woken call and an exception thrown into a parked one, in any order.  Every generation is released by
  exactly \<open>parties\<close> arrivals and no call passes before its generation is complete.  The party indices are
  \<open>0 .. parties - 1\<close>, each once, in a generation without a cancelled call; after a cancellation one is
  handed out twice.
\<close>

section \<open>Operations\<close>

record barrier =
  bar_parties :: int
  bar_count :: int
  bar_generation :: int
  bar_waiters :: "(nat \<times> int \<times> int) list"

definition barrier_init :: "int \<Rightarrow> pyexn + barrier" where
  "barrier_init parties =
     (if parties \<le> 0 then Inl ValueErr
      else Inr \<lparr>bar_parties = parties, bar_count = 0, bar_generation = 0, bar_waiters = []\<rparr>)"

definition n_waiting :: "barrier \<Rightarrow> int" where
  "n_waiting b = bar_count b"

text \<open>\<open>while self._waiters: waiter, _, _ = self._waiters.popleft(); waiter.set()\<close>\<close>

fun bar_wake :: "(nat \<times> int \<times> int) list \<Rightarrow> wstore \<Rightarrow> wstore" where
  "bar_wake [] ws = ws"
| "bar_wake ((waiter, _, _) # waiters) ws = bar_wake waiters (waiter_set waiter ws)"

definition bar_arrive :: "barrier \<Rightarrow> wstore \<Rightarrow> barrier \<times> wstore \<times> (int \<times> nat option \<times> int)" where
  "bar_arrive b ws =
     (let generation = bar_generation b;
          index = bar_parties b - bar_count b - 1;
          b1 = b\<lparr>bar_count := bar_count b + 1\<rparr>
      in if bar_count b1 = bar_parties b1 then
           (b1\<lparr>bar_count := 0, bar_generation := bar_generation b1 + 1, bar_waiters := []\<rparr>,
            bar_wake (bar_waiters b1) ws, (0, None, generation))
         else (let (waiter, ws1) = new_waiter ws
               in (b1\<lparr>bar_waiters := bar_waiters b1 @ [(waiter, index, generation)]\<rparr>, ws1, (index, Some waiter, generation))))"

definition bar_cancel_waiter :: "nat \<Rightarrow> int \<Rightarrow> int \<Rightarrow> barrier \<Rightarrow> barrier" where
  "bar_cancel_waiter waiter index generation b =
     (if (waiter, index, generation) \<in> set (bar_waiters b) then
        (let b1 = b\<lparr>bar_waiters := remove1 (waiter, index, generation) (bar_waiters b)\<rparr>
         in if generation = bar_generation b1 \<and> 0 < bar_count b1 then b1\<lparr>bar_count := bar_count b1 - 1\<rparr> else b1)
      else b)"

text \<open>\<open>swait\<close> up to \<open>waiter.swait()\<close> (with the locals the suspended call keeps), its return and its
  \<open>except\<close> block.  The coroutine \<open>wait\<close> has the same segments around \<open>await waiter.wait()\<close>.\<close>

definition bar_swait :: "barrier \<Rightarrow> wstore \<Rightarrow> barrier \<times> wstore \<times> (int \<times> int) \<times> int seg" where
  "bar_swait b ws =
     (let (b1, ws1, (index, waiter, generation)) = bar_arrive b ws
      in (b1, ws1, (index, generation), (case waiter of None \<Rightarrow> SRet index | Some w \<Rightarrow> SWait w)))"

definition bar_wait :: "barrier \<Rightarrow> wstore \<Rightarrow> barrier \<times> wstore \<times> (int \<times> int) \<times> int seg" where
  "bar_wait b ws =
     (let (b1, ws1, (index, waiter, generation)) = bar_arrive b ws
      in (b1, ws1, (index, generation), (case waiter of None \<Rightarrow> SRet index | Some w \<Rightarrow> SWait w)))"

definition bar_swait_throw :: "nat \<Rightarrow> int \<times> int \<Rightarrow> barrier \<Rightarrow> barrier" where
  "bar_swait_throw waiter frame b = bar_cancel_waiter waiter (fst frame) (snd frame) b"

section \<open>The calls on one barrier\<close>

text \<open>\<open>bs_frames\<close>: the parked calls with their index and generation.  History: \<open>bs_released g\<close>, the waiters
  woken when generation \<open>g\<close> was completed, and \<open>bs_clean\<close>, whether no call of the current generation was
  cancelled.\<close>

record bar_sys =
  bs_obj :: barrier
  bs_ws :: wstore
  bs_frames :: "nat \<Rightarrow> (int \<times> int) option"
  bs_released :: "int \<Rightarrow> nat set"
  bs_clean :: bool

definition bar_start :: "barrier \<Rightarrow> bar_sys" where
  "bar_start b = \<lparr>bs_obj = b, bs_ws = empty_wstore, bs_frames = (\<lambda>_. None), bs_released = (\<lambda>_. {}), bs_clean = True\<rparr>"

inductive bar_step :: "bar_sys \<Rightarrow> bar_sys \<Rightarrow> bool" where
  bar_park: "bar_swait (bs_obj s) (bs_ws s) = (b, ws, frame, SWait w) \<Longrightarrow>
    bar_step s (s\<lparr>bs_obj := b, bs_ws := ws, bs_frames := (bs_frames s)(w \<mapsto> frame)\<rparr>)"
| bar_last: "bar_swait (bs_obj s) (bs_ws s) = (b, ws, (i, g), SRet i) \<Longrightarrow>
    bar_step s (s\<lparr>bs_obj := b, bs_ws := ws,
      bs_released := (bs_released s)(g := fst ` set (bar_waiters (bs_obj s))), bs_clean := True\<rparr>)"
| bar_resume: "bs_frames s w \<noteq> None \<Longrightarrow> waiter_is_set w (bs_ws s) \<Longrightarrow>
    bar_step s (s\<lparr>bs_frames := (bs_frames s)(w := None)\<rparr>)"
| bar_throw: "bs_frames s w = Some frame \<Longrightarrow>
    bar_step s (s\<lparr>bs_obj := bar_swait_throw w frame (bs_obj s), bs_frames := (bs_frames s)(w := None),
      bs_clean := (bs_clean s \<and> waiter_is_set w (bs_ws s))\<rparr>)"

inductive bar_reach :: "bar_sys \<Rightarrow> bar_sys \<Rightarrow> bool" where
  bar_refl: "bar_reach s s"
| bar_next: "bar_reach s s1 \<Longrightarrow> bar_step s1 s2 \<Longrightarrow> bar_reach s s2"

text \<open>The indices handed out from the top in arrival order.\<close>

definition top_indices :: "int \<Rightarrow> nat \<Rightarrow> int list" where
  "top_indices parties n = map (\<lambda>k. parties - 1 - int k) [0..<n]"

text \<open>The queue holds the parked calls of the current generation; a parked call of an earlier one has
  been woken when its generation was completed.\<close>

definition bar_queue_ok :: "barrier \<Rightarrow> bool" where
  "bar_queue_ok b \<longleftrightarrow> bar_count b = int (length (bar_waiters b)) \<and> bar_count b < bar_parties b
     \<and> distinct (map fst (bar_waiters b)) \<and> (\<forall>x \<in> set (bar_waiters b). snd (snd x) = bar_generation b)"

definition bar_frame_ok :: "bar_sys \<Rightarrow> nat \<Rightarrow> int \<times> int \<Rightarrow> bool" where
  "bar_frame_ok s w frame \<longleftrightarrow> w < w_next (bs_ws s) \<and>
     ((snd frame = bar_generation (bs_obj s) \<and> w \<notin> w_fired (bs_ws s) \<and> (w, frame) \<in> set (bar_waiters (bs_obj s)))
      \<or> (snd frame < bar_generation (bs_obj s) \<and> w \<in> w_fired (bs_ws s) \<and> w \<in> bs_released s (snd frame)))"

definition bar_trips_ok :: "bar_sys \<Rightarrow> bool" where
  "bar_trips_ok s \<longleftrightarrow> 0 \<le> bar_generation (bs_obj s)
     \<and> (\<forall>g. 0 \<le> g \<and> g < bar_generation (bs_obj s) \<longrightarrow> int (card (bs_released s g)) = bar_parties (bs_obj s) - 1)"

definition bar_indices_ok :: "bar_sys \<Rightarrow> bool" where
  "bar_indices_ok s \<longleftrightarrow> bs_clean s \<longrightarrow>
     map (fst \<circ> snd) (bar_waiters (bs_obj s)) = top_indices (bar_parties (bs_obj s)) (length (bar_waiters (bs_obj s)))"

definition bar_ok :: "bar_sys \<Rightarrow> bool" where
  "bar_ok s \<longleftrightarrow> bar_queue_ok (bs_obj s) \<and> wstore_ok (bs_ws s)
     \<and> (\<forall>w frame. bs_frames s w = Some frame \<longrightarrow> bar_frame_ok s w frame)
     \<and> (\<forall>x \<in> set (bar_waiters (bs_obj s)). bs_frames s (fst x) = Some (snd x))
     \<and> bar_trips_ok s \<and> bar_indices_ok s"

section \<open>Lemmas\<close>

lemma bar_wake_simps [simp]:
  "w_fired (bar_wake ls ws) = w_fired ws \<union> fst ` set ls" "w_next (bar_wake ls ws) = w_next ws"
  by (induction ls ws rule: bar_wake.induct) auto

lemma top_indices_Suc: "top_indices p (Suc n) = top_indices p n @ [p - 1 - int n]"
  by (simp add: top_indices_def)

lemma length_top_indices [simp]: "length (top_indices p n) = n"
  by (simp add: top_indices_def)

text \<open>The two ways an arrival ends.\<close>

lemma bar_swait_park:
  assumes "bar_swait b ws = (b', ws', frame, SWait w)"
  shows "bar_count b + 1 \<noteq> bar_parties b \<and> w = w_next ws \<and> frame = (bar_parties b - bar_count b - 1, bar_generation b)
    \<and> ws' = ws\<lparr>w_next := Suc (w_next ws)\<rparr>
    \<and> b' = b\<lparr>bar_count := bar_count b + 1, bar_waiters := bar_waiters b @ [(w_next ws, bar_parties b - bar_count b - 1, bar_generation b)]\<rparr>"
  using assms by (auto simp: bar_swait_def bar_arrive_def Let_def new_waiter_def split: if_splits)

lemma bar_swait_last:
  assumes "bar_swait b ws = (b', ws', (i, g), SRet i)"
  shows "bar_count b + 1 = bar_parties b \<and> i = 0 \<and> g = bar_generation b \<and> ws' = bar_wake (bar_waiters b) ws
    \<and> b' = b\<lparr>bar_count := 0, bar_generation := bar_generation b + 1, bar_waiters := []\<rparr>"
  using assms by (auto simp: bar_swait_def bar_arrive_def Let_def new_waiter_def split: if_splits)

lemma bar_okI:
  assumes "bar_queue_ok (bs_obj s)" "wstore_ok (bs_ws s)"
    "\<And>w frame. bs_frames s w = Some frame \<Longrightarrow> bar_frame_ok s w frame"
    "\<And>x. x \<in> set (bar_waiters (bs_obj s)) \<Longrightarrow> bs_frames s (fst x) = Some (snd x)"
    "bar_trips_ok s" "bar_indices_ok s"
  shows "bar_ok s"
  using assms by (simp add: bar_ok_def)

lemma bar_okD:
  assumes "bar_ok s"
  shows "bar_queue_ok (bs_obj s)" "wstore_ok (bs_ws s)"
    "bs_frames s w = Some frame \<Longrightarrow> bar_frame_ok s w frame"
    "x \<in> set (bar_waiters (bs_obj s)) \<Longrightarrow> bs_frames s (fst x) = Some (snd x)"
    "bar_trips_ok s" "bar_indices_ok s"
  using assms unfolding bar_ok_def by blast+

lemma bar_ok_fresh:
  assumes "bar_ok s"
  shows "bs_frames s (w_next (bs_ws s)) = None" "w_next (bs_ws s) \<notin> fst ` set (bar_waiters (bs_obj s))"
    "w_next (bs_ws s) \<notin> w_fired (bs_ws s)"
proof -
  show n: "bs_frames s (w_next (bs_ws s)) = None"
  proof (rule ccontr)
    assume "bs_frames s (w_next (bs_ws s)) \<noteq> None"
    then obtain f where "bs_frames s (w_next (bs_ws s)) = Some f" by blast
    from bar_okD(3) [OF assms this] show False by (simp add: bar_frame_ok_def)
  qed
  show "w_next (bs_ws s) \<notin> fst ` set (bar_waiters (bs_obj s))"
    using bar_okD(4) [OF assms] n by (metis imageE option.distinct(1))
  show "w_next (bs_ws s) \<notin> w_fired (bs_ws s)"
    using bar_okD(2) [OF assms] by (auto simp: wstore_ok_def)
qed

lemma bar_ok_park:
  assumes ok: "bar_ok s" and e: "bar_swait (bs_obj s) (bs_ws s) = (b, ws, frame, SWait w)"
  shows "bar_ok (s\<lparr>bs_obj := b, bs_ws := ws, bs_frames := (bs_frames s)(w \<mapsto> frame)\<rparr>)" (is "bar_ok ?s")
proof (rule bar_okI)
  note p = bar_swait_park [OF e] and fresh = bar_ok_fresh [OF ok] and d = bar_okD [OF ok]
  show "bar_queue_ok (bs_obj ?s)"
    using p fresh(2) d(1) by (simp add: bar_queue_ok_def)
  show "wstore_ok (bs_ws ?s)"
    using p d(2) by (auto simp: wstore_ok_def less_Suc_eq)
  show "bar_frame_ok ?s v f" if "bs_frames ?s v = Some f" for v f
  proof (cases "v = w")
    case True
    then show ?thesis using p fresh(3) that by (auto simp: bar_frame_ok_def)
  next
    case False
    then have "bar_frame_ok s v f" using that d(3) by simp
    then show ?thesis using p by (auto simp: bar_frame_ok_def)
  qed
  show "bs_frames ?s (fst x) = Some (snd x)" if "x \<in> set (bar_waiters (bs_obj ?s))" for x
    using that p d(4) [of x] fresh(2) by (auto simp: image_iff)
  show "bar_trips_ok ?s" using p d(5) by (simp add: bar_trips_ok_def)
  show "bar_indices_ok ?s"
    using p d(1,6) by (simp add: bar_indices_ok_def bar_queue_ok_def top_indices_Suc)
qed

lemma bar_ok_last:
  assumes ok: "bar_ok s" and e: "bar_swait (bs_obj s) (bs_ws s) = (b, ws, (i, g), SRet i)"
  shows "bar_ok (s\<lparr>bs_obj := b, bs_ws := ws,
      bs_released := (bs_released s)(g := fst ` set (bar_waiters (bs_obj s))), bs_clean := True\<rparr>)" (is "bar_ok ?s")
proof (rule bar_okI)
  note p = bar_swait_last [OF e] and d = bar_okD [OF ok]
  show "bar_queue_ok (bs_obj ?s)"
    using p d(1) by (simp add: bar_queue_ok_def)
  have "v < w_next (bs_ws s)" if "v \<in> fst ` set (bar_waiters (bs_obj s))" for v
    using that d(3,4) by (fastforce simp: bar_frame_ok_def)
  then show "wstore_ok (bs_ws ?s)"
    using p d(2) by (auto simp: wstore_ok_def)
  show "bar_frame_ok ?s v f" if "bs_frames ?s v = Some f" for v f
  proof -
    have "bar_frame_ok s v f" using that d(3) by simp
    then show ?thesis using p by (auto simp: bar_frame_ok_def intro: rev_image_eqI)
  qed
  show "bs_frames ?s (fst x) = Some (snd x)" if "x \<in> set (bar_waiters (bs_obj ?s))" for x
    using that p by simp
  have "int (card (fst ` set (bar_waiters (bs_obj s)))) = bar_parties (bs_obj s) - 1"
    using p d(1) distinct_card [of "map fst (bar_waiters (bs_obj s))"] by (simp add: bar_queue_ok_def)
  then show "bar_trips_ok ?s" using p d(5) by (simp add: bar_trips_ok_def)
  show "bar_indices_ok ?s" using p by (simp add: bar_indices_ok_def top_indices_def)
qed

text \<open>A throw into a woken call leaves the barrier alone; a throw into a queued one takes its place back.\<close>

lemma bar_cancel_woken:
  assumes "bar_ok s" "bs_frames s w = Some frame" "w \<in> w_fired (bs_ws s)"
  shows "bar_swait_throw w frame (bs_obj s) = bs_obj s"
proof -
  have "snd frame < bar_generation (bs_obj s)"
    using bar_okD(3) [OF assms(1,2)] assms(3) by (auto simp: bar_frame_ok_def)
  then have "(w, frame) \<notin> set (bar_waiters (bs_obj s))"
    using bar_okD(1) [OF assms(1)] by (auto simp: bar_queue_ok_def)
  then show ?thesis by (simp add: bar_swait_throw_def bar_cancel_waiter_def)
qed

lemma bar_cancel_queued:
  assumes "bar_ok s" "bs_frames s w = Some frame" "w \<notin> w_fired (bs_ws s)"
  shows "(w, frame) \<in> set (bar_waiters (bs_obj s)) \<and>
    bar_swait_throw w frame (bs_obj s) =
      (bs_obj s)\<lparr>bar_count := bar_count (bs_obj s) - 1, bar_waiters := remove1 (w, frame) (bar_waiters (bs_obj s))\<rparr>"
proof -
  have q: "(w, frame) \<in> set (bar_waiters (bs_obj s))" "snd frame = bar_generation (bs_obj s)"
    using bar_okD(3) [OF assms(1,2)] assms(3) by (auto simp: bar_frame_ok_def)
  moreover have "0 < bar_count (bs_obj s)"
    using q(1) bar_okD(1) [OF assms(1)] by (auto simp: bar_queue_ok_def)
  ultimately show ?thesis by (cases frame) (simp add: bar_swait_throw_def bar_cancel_waiter_def)
qed

lemma bar_ok_resume:
  assumes ok: "bar_ok s" and w: "bs_frames s w \<noteq> None" "w \<in> w_fired (bs_ws s)"
  shows "bar_ok (s\<lparr>bs_frames := (bs_frames s)(w := None)\<rparr>)" (is "bar_ok ?s")
proof (rule bar_okI)
  note d = bar_okD [OF ok]
  show "bar_frame_ok ?s v f" if "bs_frames ?s v = Some f" for v f
    using that d(3) [of v f] by (simp add: bar_frame_ok_def split: if_splits)
  show "bs_frames ?s (fst x) = Some (snd x)" if "x \<in> set (bar_waiters (bs_obj ?s))" for x
  proof -
    have x: "bs_frames s (fst x) = Some (snd x)" "snd (snd x) = bar_generation (bs_obj s)"
      using that d(1,4) by (simp_all add: bar_queue_ok_def)
    then have "fst x \<notin> w_fired (bs_ws s)" using d(3) [OF x(1)] by (simp add: bar_frame_ok_def)
    then show ?thesis using x(1) w(2) by auto
  qed
qed (use bar_okD [OF ok] in \<open>simp_all add: bar_trips_ok_def bar_indices_ok_def\<close>)

lemma bar_ok_unpark:
  assumes ok: "bar_ok s" and w: "bs_frames s w = Some frame" "w \<notin> w_fired (bs_ws s)"
  shows "bar_ok (s\<lparr>bs_obj := bar_swait_throw w frame (bs_obj s), bs_frames := (bs_frames s)(w := None), bs_clean := False\<rparr>)"
    (is "bar_ok ?s")
proof (rule bar_okI)
  note d = bar_okD [OF ok] and q = bar_cancel_queued [OF ok w]
  have dist: "distinct (map fst (bar_waiters (bs_obj s)))" using d(1) by (simp add: bar_queue_ok_def)
  have mem: "x \<in> set (bar_waiters (bs_obj s))" if "x \<in> set (remove1 (w, frame) (bar_waiters (bs_obj s)))" for x
    using that by (rule set_remove1_subset [THEN subsetD])
  show "bar_queue_ok (bs_obj ?s)"
    using q d(1) mem distinct_fst_remove1 [OF dist]
    by (simp add: bar_queue_ok_def length_remove1) (metis Suc_pred length_pos_if_in_set of_nat_Suc add_diff_cancel_left')
  show "wstore_ok (bs_ws ?s)" using d(2) by simp
  show "bar_frame_ok ?s v f" if "bs_frames ?s v = Some f" for v f
  proof -
    have "bar_frame_ok s v f" "v \<noteq> w" using that d(3) [of v f] by (auto split: if_splits)
    then show ?thesis using q by (simp add: bar_frame_ok_def)
  qed
  show "bs_frames ?s (fst x) = Some (snd x)" if "x \<in> set (bar_waiters (bs_obj ?s))" for x
  proof -
    have x: "x \<in> set (remove1 (w, frame) (bar_waiters (bs_obj s)))" using that q by simp
    then have "fst x \<noteq> w" using fst_remove1_notin [OF dist] q by (metis image_eqI)
    then show ?thesis using d(4) [OF mem [OF x]] by simp
  qed
  show "bar_trips_ok ?s" using q d(5) by (simp add: bar_trips_ok_def)
qed (simp add: bar_indices_ok_def)

lemma bar_ok_step: "bar_step s s' \<Longrightarrow> bar_ok s \<Longrightarrow> bar_ok s'"
proof (induction rule: bar_step.induct)
  case (bar_throw s w frame)
  show ?case
  proof (cases "w \<in> w_fired (bs_ws s)")
    case True
    have e: "s\<lparr>bs_obj := bar_swait_throw w frame (bs_obj s), bs_frames := (bs_frames s)(w := None),
        bs_clean := (bs_clean s \<and> waiter_is_set w (bs_ws s))\<rparr> = s\<lparr>bs_frames := (bs_frames s)(w := None)\<rparr>"
      using True bar_cancel_woken [OF bar_throw(2,1) True] by (simp add: waiter_is_set_def)
    show ?thesis unfolding e using bar_ok_resume [OF bar_throw(2) _ True] bar_throw(1) by simp
  next
    case False
    then show ?thesis using bar_ok_unpark [OF bar_throw(2,1)] by (simp add: waiter_is_set_def)
  qed
next
  case (bar_resume s w)
  then show ?case using bar_ok_resume by (simp add: waiter_is_set_def)
qed (rule bar_ok_park bar_ok_last; assumption)+

lemma bar_ok_start: "barrier_init p = Inr b \<Longrightarrow> bar_ok (bar_start b)"
  by (auto simp: barrier_init_def bar_start_def bar_ok_def bar_queue_ok_def bar_trips_ok_def bar_indices_ok_def
      top_indices_def wstore_ok_def empty_wstore_def split: if_splits)

lemma bar_ok_reach: "bar_reach s s' \<Longrightarrow> bar_ok s \<Longrightarrow> bar_ok s'"
  by (induction rule: bar_reach.induct) (auto intro: bar_ok_step)

lemma bar_parties_step: "bar_step s s' \<Longrightarrow> bar_parties (bs_obj s') = bar_parties (bs_obj s)"
proof (induction rule: bar_step.induct)
  case (bar_park s b ws frame w)
  then show ?case using bar_swait_park [OF bar_park] by simp
next
  case (bar_last s b ws i g)
  then show ?case using bar_swait_last [OF bar_last] by simp
qed (simp_all add: bar_swait_throw_def bar_cancel_waiter_def Let_def)

lemma bar_parties_reach: "bar_reach s s' \<Longrightarrow> bar_parties (bs_obj s') = bar_parties (bs_obj s)"
  by (induction rule: bar_reach.induct) (simp_all add: bar_parties_step)

section \<open>Properties\<close>

text \<open>C25: Barrier.  Over every interleaving of arrivals, returns and thrown exceptions on a barrier of
  \<open>parties\<close>: fewer than \<open>parties\<close> calls wait, a parked call is woken exactly when its generation is complete
  (never before, and no call is left behind), a complete generation was released by \<open>parties\<close> arrivals
  (\<open>parties - 1\<close> woken calls and the last one), and while no call of the current generation was cancelled
  the waiting calls hold the distinct indices \<open>parties - 1, parties - 2, ...\<close> in arrival order.\<close>

theorem barrier_generations:
  assumes "barrier_init parties = Inr b" and "bar_reach (bar_start b) s"
  shows "0 \<le> n_waiting (bs_obj s) \<and> n_waiting (bs_obj s) < parties
    \<and> (\<forall>w i g. bs_frames s w = Some (i, g) \<longrightarrow>
         (waiter_is_set w (bs_ws s) \<longleftrightarrow> g < bar_generation (bs_obj s))
         \<and> (waiter_is_set w (bs_ws s) \<longrightarrow> w \<in> bs_released s g))
    \<and> (\<forall>g. 0 \<le> g \<and> g < bar_generation (bs_obj s) \<longrightarrow> int (card (bs_released s g)) = parties - 1)
    \<and> (bs_clean s \<longrightarrow> map (\<lambda>(w, i, g). i) (bar_waiters (bs_obj s)) = top_indices parties (nat (n_waiting (bs_obj s))))"
proof -
  have ok: "bar_ok s" by (rule bar_ok_reach [OF assms(2) bar_ok_start [OF assms(1)]])
  note d = bar_okD [OF ok]
  have parties: "bar_parties (bs_obj s) = parties"
    using bar_parties_reach [OF assms(2)] assms(1) by (auto simp: barrier_init_def bar_start_def split: if_splits)
  have idx: "map (\<lambda>(w, i, g). i) ls = map (fst \<circ> snd) ls" for ls :: "(nat \<times> int \<times> int) list"
    by (induction ls) auto
  have "(waiter_is_set w (bs_ws s) \<longleftrightarrow> g < bar_generation (bs_obj s)) \<and> (waiter_is_set w (bs_ws s) \<longrightarrow> w \<in> bs_released s g)"
    if "bs_frames s w = Some (i, g)" for w i g
    using d(3) [OF that] by (auto simp: bar_frame_ok_def waiter_is_set_def)
  moreover have "0 \<le> n_waiting (bs_obj s) \<and> n_waiting (bs_obj s) < parties
      \<and> nat (n_waiting (bs_obj s)) = length (bar_waiters (bs_obj s))"
    using d(1) parties by (simp add: bar_queue_ok_def n_waiting_def)
  ultimately show ?thesis
    using d(5,6) unfolding bar_trips_ok_def bar_indices_ok_def parties idx by auto
qed

definition demo_barrier :: "int \<Rightarrow> int \<Rightarrow> int \<Rightarrow> (nat \<times> int \<times> int) list \<Rightarrow> barrier" where
  "demo_barrier p n g ls = \<lparr>bar_parties = p, bar_count = n, bar_generation = g, bar_waiters = ls\<rparr>"

lemmas demo_barrier_simps = demo_barrier_def bar_swait_def bar_arrive_def Let_def new_waiter_def waiter_set_def
  bar_swait_throw_def bar_cancel_waiter_def

definition demo_met :: bar_sys where
  "demo_met = \<lparr>bs_obj = demo_barrier 2 0 1 [], bs_ws = \<lparr>w_next = 1, w_fired = {0}\<rparr>,
     bs_frames = [0 \<mapsto> (1, 0)], bs_released = (\<lambda>_. {})(0 := {0}), bs_clean = True\<rparr>"

lemma demo_met_reach: "bar_reach (bar_start (demo_barrier 2 0 0 [])) demo_met"
proof -
  let ?s0 = "bar_start (demo_barrier 2 0 0 [])"
  let ?s1 = "?s0\<lparr>bs_obj := demo_barrier 2 1 0 [(0, 1, 0)], bs_ws := \<lparr>w_next = 1, w_fired = {}\<rparr>, bs_frames := [0 \<mapsto> (1, 0)]\<rparr>"
  have 1: "bar_step ?s0 ?s1"
    using bar_park [of ?s0 "demo_barrier 2 1 0 [(0, 1, 0)]" "\<lparr>w_next = 1, w_fired = {}\<rparr>" "(1, 0)" 0]
    by (simp add: demo_barrier_simps bar_start_def empty_wstore_def)
  have 2: "bar_step ?s1 demo_met"
    using bar_last [of ?s1 "demo_barrier 2 0 1 []" "\<lparr>w_next = 1, w_fired = {0}\<rparr>" 0 0]
    by (simp add: demo_barrier_simps bar_start_def demo_met_def)
  show ?thesis using bar_next [OF bar_next [OF bar_refl 1] 2] .
qed

theorem barrier_generations_witness:
  "n_waiting (bs_obj demo_met) < 2 \<and> waiter_is_set 0 (bs_ws demo_met) \<and> int (card (bs_released demo_met 0)) = 1"
proof -
  have i: "barrier_init 2 = Inr (demo_barrier 2 0 0 [])" by (simp add: barrier_init_def demo_barrier_def)
  note g = barrier_generations [OF i demo_met_reach]
  have "bs_frames demo_met 0 = Some (1, 0)" "bar_generation (bs_obj demo_met) = 1"
    by (simp_all add: demo_met_def demo_barrier_def)
  with g show ?thesis by auto
qed

text \<open>After a cancelled wait two calls of one generation get the same index: of three parties two arrive
  (indices 2 and 1), the first is cancelled, and the next arrival gets index 1 again.\<close>

theorem barrier_index_repeats:
  "\<exists>s. bar_reach (bar_start (demo_barrier 3 0 0 [])) s \<and> bs_frames s 1 = Some (1, 0) \<and> bs_frames s 2 = Some (1, 0)"
proof -
  let ?s0 = "bar_start (demo_barrier 3 0 0 [])"
  let ?s1 = "?s0\<lparr>bs_obj := demo_barrier 3 1 0 [(0, 2, 0)], bs_ws := \<lparr>w_next = 1, w_fired = {}\<rparr>, bs_frames := [0 \<mapsto> (2, 0)]\<rparr>"
  let ?s2 = "?s0\<lparr>bs_obj := demo_barrier 3 2 0 [(0, 2, 0), (1, 1, 0)], bs_ws := \<lparr>w_next = 2, w_fired = {}\<rparr>,
    bs_frames := [0 \<mapsto> (2, 0), 1 \<mapsto> (1, 0)]\<rparr>"
  let ?s3 = "?s2\<lparr>bs_obj := demo_barrier 3 1 0 [(1, 1, 0)], bs_frames := (bs_frames ?s2)(0 := None), bs_clean := False\<rparr>"
  let ?s4 = "?s3\<lparr>bs_obj := demo_barrier 3 2 0 [(1, 1, 0), (2, 1, 0)], bs_ws := \<lparr>w_next = 3, w_fired = {}\<rparr>,
    bs_frames := (bs_frames ?s3)(2 \<mapsto> (1, 0))\<rparr>"
  have 1: "bar_step ?s0 ?s1"
    using bar_park [of ?s0 "demo_barrier 3 1 0 [(0, 2, 0)]" "\<lparr>w_next = 1, w_fired = {}\<rparr>" "(2, 0)" 0]
    by (simp add: demo_barrier_simps bar_start_def empty_wstore_def)
  have 2: "bar_step ?s1 ?s2"
    using bar_park [of ?s1 "demo_barrier 3 2 0 [(0, 2, 0), (1, 1, 0)]" "\<lparr>w_next = 2, w_fired = {}\<rparr>" "(1, 0)" 1]
    by (simp add: demo_barrier_simps bar_start_def)
  have 3: "bar_step ?s2 ?s3"
    using bar_throw [of ?s2 0 "(2, 0)"] by (simp add: demo_barrier_simps bar_start_def waiter_is_set_def)
  have 4: "bar_step ?s3 ?s4"
    using bar_park [of ?s3 "demo_barrier 3 2 0 [(1, 1, 0), (2, 1, 0)]" "\<lparr>w_next = 3, w_fired = {}\<rparr>" "(1, 0)" 2]
    by (simp add: demo_barrier_simps bar_start_def)
  have "bar_reach ?s0 ?s4" using bar_next [OF bar_next [OF bar_next [OF bar_next [OF bar_refl 1] 2] 3] 4] .
  moreover have "bs_frames ?s4 1 = Some (1, 0)" "bs_frames ?s4 2 = Some (1, 0)" by simp_all
  ultimately show ?thesis by blast
qed

end
