(* ===== verification/Conditions.thy ===== *)
theory Conditions
  imports Locks
begin

text \<open>
  \<open>_ConditionBase\<close> and \<open>Condition\<close> of \<open>tealetio/locks.py\<close>: a condition variable over a \<open>Lock\<close>.  \<open>swait\<close> is
  cut twice, at \<open>waiter.swait()\<close> and, in its \<open>finally\<close> block, where it re-acquires the lock; both the
  return and an exception thrown into the wait run that block.  \<open>cond_step\<close> is the system of tasks
  that acquire, release, wait and notify, with exceptions thrown into any parked call.  A parked call is
  queued for the next notify or has been notified, and \<open>notify(n)\<close> wakes exactly the \<open>n\<close> longest waiting.
\<close>

section \<open>Operations\<close>

record cond =
  cd_lock :: lock
  cd_waiters :: "nat list"

definition cond_init :: "lock option \<Rightarrow> cond" where
  "cond_init l = \<lparr>cd_lock = (case l of None \<Rightarrow> lock_init | Some k \<Rightarrow> k), cd_waiters = []\<rparr>"

definition cond_locked :: "cond \<Rightarrow> bool" where
  "cond_locked c = lock_locked (cd_lock c)"

definition cond_release :: "cond \<Rightarrow> wstore \<Rightarrow> cond \<times> wstore \<times> (pyexn + unit)" where
  "cond_release c ws = (case lock_release (cd_lock c) ws of (l, ws1, r) \<Rightarrow> (c\<lparr>cd_lock := l\<rparr>, ws1, r))"

definition cond_sacquire :: "cond \<Rightarrow> wstore \<Rightarrow> cond \<times> wstore \<times> bool seg" where
  "cond_sacquire c ws = (case lock_sacquire (cd_lock c) ws of (l, ws1, r) \<Rightarrow> (c\<lparr>cd_lock := l\<rparr>, ws1, r))"

definition cond_acquire :: "cond \<Rightarrow> wstore \<Rightarrow> cond \<times> wstore \<times> bool seg" where
  "cond_acquire c ws = (case lock_acquire (cd_lock c) ws of (l, ws1, r) \<Rightarrow> (c\<lparr>cd_lock := l\<rparr>, ws1, r))"

text \<open>\<open>_lock_reacquire_sync\<close>.\<close>

definition cond_reacquire :: "cond \<Rightarrow> wstore \<Rightarrow> cond \<times> wstore \<times> bool seg" where
  "cond_reacquire c ws = cond_sacquire c ws"

definition cond_swait :: "cond \<Rightarrow> wstore \<Rightarrow> cond \<times> wstore \<times> bool seg" where
  "cond_swait c ws =
     (if \<not> cond_locked c then (c, ws, SRaise RuntimeErr)
      else (let (waiter, ws1) = new_waiter ws in
            case cond_release (c\<lparr>cd_waiters := cd_waiters c @ [waiter]\<rparr>) ws1 of
              (c2, ws2, Inl e) \<Rightarrow> (c2, ws2, SRaise e)
            | (c2, ws2, Inr _) \<Rightarrow> (c2, ws2, SWait waiter)))"

text \<open>The \<open>finally\<close> block, run when the wait returns and when an exception surfaces in it.  The call goes
  on (returns \<open>True\<close> or re-raises) once the lock is acquired.\<close>

definition cond_swait_finally :: "nat \<Rightarrow> cond \<Rightarrow> wstore \<Rightarrow> cond \<times> wstore \<times> bool seg" where
  "cond_swait_finally waiter c ws = cond_reacquire (c\<lparr>cd_waiters := remove1 waiter (cd_waiters c)\<rparr>) ws"

text \<open>The coroutine \<open>wait\<close>: the same segments around \<open>await waiter.wait()\<close> and \<open>await self._lock.acquire()\<close>.\<close>

definition cond_wait :: "cond \<Rightarrow> wstore \<Rightarrow> cond \<times> wstore \<times> bool seg" where
  "cond_wait c ws =
     (if \<not> cond_locked c then (c, ws, SRaise RuntimeErr)
      else (let (waiter, ws1) = new_waiter ws in
            case cond_release (c\<lparr>cd_waiters := cd_waiters c @ [waiter]\<rparr>) ws1 of
              (c2, ws2, Inl e) \<Rightarrow> (c2, ws2, SRaise e)
            | (c2, ws2, Inr _) \<Rightarrow> (c2, ws2, SWait waiter)))"

definition cond_wait_finally :: "nat \<Rightarrow> cond \<Rightarrow> wstore \<Rightarrow> cond \<times> wstore \<times> bool seg" where
  "cond_wait_finally waiter c ws = cond_acquire (c\<lparr>cd_waiters := remove1 waiter (cd_waiters c)\<rparr>) ws"

text \<open>One round of \<open>swait_for\<close> and of the coroutine \<open>wait_for\<close>: the predicate was evaluated to \<open>result\<close>; a truthy value is
  returned, otherwise the call waits and the next round begins when that wait returns.\<close>

definition cond_swait_for :: "('v \<Rightarrow> bool) \<Rightarrow> 'v \<Rightarrow> cond \<Rightarrow> wstore \<Rightarrow> cond \<times> wstore \<times> 'v seg" where
  "cond_swait_for truthy result c ws =
     (if truthy result then (c, ws, SRet result)
      else (case cond_swait c ws of
              (c1, ws1, SWait w) \<Rightarrow> (c1, ws1, SWait w)
            | (c1, ws1, SRaise e) \<Rightarrow> (c1, ws1, SRaise e)
            | (c1, ws1, SRet _) \<Rightarrow> (c1, ws1, SRet result)))"

definition cond_wait_for :: "('v \<Rightarrow> bool) \<Rightarrow> 'v \<Rightarrow> cond \<Rightarrow> wstore \<Rightarrow> cond \<times> wstore \<times> 'v seg" where
  "cond_wait_for truthy result c ws =
     (if truthy result then (c, ws, SRet result)
      else (case cond_wait c ws of
              (c1, ws1, SWait w) \<Rightarrow> (c1, ws1, SWait w)
            | (c1, ws1, SRaise e) \<Rightarrow> (c1, ws1, SRaise e)
            | (c1, ws1, SRet _) \<Rightarrow> (c1, ws1, SRet result)))"

fun notify_loop :: "nat list \<Rightarrow> int \<Rightarrow> wstore \<Rightarrow> nat list \<times> wstore" where
  "notify_loop [] n ws = ([], ws)"
| "notify_loop (waiter # waiters) n ws =
     (if 0 < n then notify_loop waiters (n - 1) (waiter_set waiter ws) else (waiter # waiters, ws))"

definition cond_notify :: "int \<Rightarrow> cond \<Rightarrow> wstore \<Rightarrow> cond \<times> wstore \<times> (pyexn + unit)" where
  "cond_notify n c ws =
     (if \<not> cond_locked c then (c, ws, Inl RuntimeErr)
      else if n \<le> 0 then (c, ws, Inr ())
      else (case notify_loop (cd_waiters c) n ws of (waiters, ws1) \<Rightarrow> (c\<lparr>cd_waiters := waiters\<rparr>, ws1, Inr ())))"

definition cond_notify_all :: "cond \<Rightarrow> wstore \<Rightarrow> cond \<times> wstore \<times> (pyexn + unit)" where
  "cond_notify_all c ws = cond_notify (int (length (cd_waiters c))) c ws"

section \<open>The calls on one condition\<close>

text \<open>\<open>cs_parked\<close>: calls in \<open>waiter.swait()\<close>; \<open>cs_lockers\<close>: calls parked in the lock (from \<open>sacquire\<close> or from
  the \<open>finally\<close> block of a wait); \<open>cs_held\<close>: the number of calls that hold the lock.\<close>

record cond_sys =
  cs_obj :: cond
  cs_ws :: wstore
  cs_parked :: "nat set"
  cs_lockers :: "nat set"
  cs_held :: nat

definition cond_fresh :: cond_sys where
  "cond_fresh = \<lparr>cs_obj = cond_init None, cs_ws = empty_wstore, cs_parked = {}, cs_lockers = {}, cs_held = 0\<rparr>"

text \<open>What an attempt to take the lock leaves behind.\<close>

definition settle :: "cond \<times> wstore \<times> bool seg \<Rightarrow> cond_sys \<Rightarrow> cond_sys" where
  "settle r s =
     (let (c, ws, q) = r; s1 = s\<lparr>cs_obj := c, cs_ws := ws\<rparr> in
      case q of
        SRet _ \<Rightarrow> s1\<lparr>cs_held := Suc (cs_held s)\<rparr>
      | SWait w \<Rightarrow> s1\<lparr>cs_lockers := insert w (cs_lockers s)\<rparr>
      | SRaise _ \<Rightarrow> s1)"

inductive cond_step :: "cond_sys \<Rightarrow> cond_sys \<Rightarrow> bool" where
  cs_acquire: "cond_step s (settle (cond_sacquire (cs_obj s) (cs_ws s)) s)"
| cs_lock_resume: "w \<in> cs_lockers s \<Longrightarrow> waiter_is_set w (cs_ws s) \<Longrightarrow>
    cond_step s (s\<lparr>cs_obj := (cs_obj s)\<lparr>cd_lock := lock_sacquire_resume (cd_lock (cs_obj s))\<rparr>,
      cs_lockers := cs_lockers s - {w}, cs_held := Suc (cs_held s)\<rparr>)"
| cs_lock_throw: "w \<in> cs_lockers s \<Longrightarrow>
    cond_step s (s\<lparr>cs_obj := (cs_obj s)\<lparr>cd_lock := lock_sacquire_throw w (cd_lock (cs_obj s))\<rparr>,
      cs_lockers := cs_lockers s - {w}\<rparr>)"
| cs_release: "0 < cs_held s \<Longrightarrow> cond_release (cs_obj s) (cs_ws s) = (c, ws, r) \<Longrightarrow>
    cond_step s (s\<lparr>cs_obj := c, cs_ws := ws, cs_held := cs_held s - 1\<rparr>)"
| cs_swait: "0 < cs_held s \<Longrightarrow> cond_swait (cs_obj s) (cs_ws s) = (c, ws, SWait w) \<Longrightarrow>
    cond_step s (s\<lparr>cs_obj := c, cs_ws := ws, cs_parked := insert w (cs_parked s), cs_held := cs_held s - 1\<rparr>)"
| cs_wake: "w \<in> cs_parked s \<Longrightarrow> waiter_is_set w (cs_ws s) \<Longrightarrow>
    cond_step s (settle (cond_swait_finally w (cs_obj s) (cs_ws s)) (s\<lparr>cs_parked := cs_parked s - {w}\<rparr>))"
| cs_throw: "w \<in> cs_parked s \<Longrightarrow>
    cond_step s (settle (cond_swait_finally w (cs_obj s) (cs_ws s)) (s\<lparr>cs_parked := cs_parked s - {w}\<rparr>))"
| cs_notify: "cond_notify n (cs_obj s) (cs_ws s) = (c, ws, r) \<Longrightarrow>
    cond_step s (s\<lparr>cs_obj := c, cs_ws := ws\<rparr>)"

inductive cond_reach :: "cond_sys \<Rightarrow> bool" where
  cr_init: "cond_reach cond_fresh"
| cr_step: "cond_reach s \<Longrightarrow> cond_step s s' \<Longrightarrow> cond_reach s'"

text \<open>The waiter queue is exactly the parked calls not yet notified, in the order they began to wait (waiters are
  numbered as they are made), the lock's queue contains only calls
  parked in the lock, and the two kinds of waiters never mix.\<close>

definition cond_core :: "nat list \<Rightarrow> nat list \<Rightarrow> nat set \<Rightarrow> nat \<Rightarrow> nat set \<Rightarrow> nat set \<Rightarrow> bool" where
  "cond_core queue lqueue fired next parked lockers \<longleftrightarrow>
     sorted queue \<and> distinct queue \<and> set queue = parked - fired \<and> distinct lqueue \<and> set lqueue = lockers - fired
     \<and> parked \<inter> lockers = {} \<and> (\<forall>w \<in> fired \<union> parked \<union> lockers. w < next)"

definition cond_ok :: "cond_sys \<Rightarrow> bool" where
  "cond_ok s \<longleftrightarrow> cond_core (cd_waiters (cs_obj s)) (lk_waiters (cd_lock (cs_obj s)))
     (w_fired (cs_ws s)) (w_next (cs_ws s)) (cs_parked s) (cs_lockers s)"

section \<open>The invariant\<close>

named_theorems core_intros \<open>the ways the waiter queues change\<close>

lemma core_lock_park [core_intros]: "cond_core q l f n p k \<Longrightarrow> cond_core q (l @ [n]) f (Suc n) p (insert n k)"
  by (auto simp: cond_core_def less_Suc_eq)

lemma core_lock_drop [core_intros]: "cond_core q l f n p k \<Longrightarrow> cond_core q (remove1 w l) f n p (k - {w})"
  by (auto simp: cond_core_def set_remove1_eq)

lemma core_lock_resume [core_intros]: "cond_core q l f n p k \<Longrightarrow> w \<in> f \<Longrightarrow> cond_core q l f n p (k - {w})"
  by (auto simp: cond_core_def)

lemma core_park: "cond_core q l f n p k \<Longrightarrow> cond_core (q @ [n]) l f (Suc n) (insert n p) k"
  by (auto simp: cond_core_def less_Suc_eq sorted_append intro: less_imp_le)

lemma core_drop [core_intros]: "cond_core q l f n p k \<Longrightarrow> cond_core (remove1 w q) l f n (p - {w}) k"
  by (auto simp: cond_core_def set_remove1_eq sorted_remove1)

lemma core_lock_wake: "cond_core q l f n p k \<Longrightarrow> cond_core q (drop 1 l) (if l = [] then f else insert (hd l) f) n p k"
  by (cases l) (auto simp: cond_core_def)

lemma core_notify: "cond_core (q1 @ q2) l f n p k \<Longrightarrow> cond_core q2 l (f \<union> set q1) n p k"
  by (auto simp: cond_core_def sorted_append)

lemma notify_loop_eq: "notify_loop q n ws = (drop (nat n) q, wake_all (take (nat n) q) ws)"
proof (induction q n ws rule: notify_loop.induct)
  case (2 w q n ws)
  then show ?case by (cases "nat n") (auto simp: nat_diff_distrib')
qed simp

lemma notify_queues:
  assumes "cond_notify n c ws = (c', ws', r)"
  shows "\<exists>m. cd_lock c' = cd_lock c \<and> cd_waiters c' = drop m (cd_waiters c) \<and> w_next ws' = w_next ws
    \<and> w_fired ws' = w_fired ws \<union> set (take m (cd_waiters c))"
proof (cases "cond_locked c \<and> 0 < n")
  case True
  then show ?thesis using assms by (intro exI [of _ "nat n"]) (auto simp: cond_notify_def notify_loop_eq)
next
  case False
  then show ?thesis using assms by (intro exI [of _ 0]) (auto simp: cond_notify_def split: if_splits)
qed

lemma release_queues:
  assumes "cond_release c ws = (c', ws', r)" "cond_core (cd_waiters c) (lk_waiters (cd_lock c)) (w_fired ws) n p k"
  shows "cd_waiters c' = cd_waiters c \<and> w_next ws' = w_next ws
    \<and> cond_core (cd_waiters c) (lk_waiters (cd_lock c')) (w_fired ws') n p k"
  using assms(1) assms(2) core_lock_wake [OF assms(2)]
  by (auto simp: cond_release_def lock_release_def wake_first_eq split: if_splits)

lemma settle_ok:
  assumes "cond_ok (s\<lparr>cs_obj := c, cs_ws := ws\<rparr>)"
  shows "cond_ok (settle (cond_sacquire c ws) s)"
  using assms core_lock_park
  by (auto simp: settle_def cond_sacquire_def lock_sacquire_def new_waiter_def cond_ok_def)

lemma swait_finally_ok:
  assumes "cond_ok s"
  shows "cond_ok (settle (cond_swait_finally w (cs_obj s) (cs_ws s)) (s\<lparr>cs_parked := cs_parked s - {w}\<rparr>))"
  unfolding cond_swait_finally_def cond_reacquire_def
  by (rule settle_ok) (use assms core_drop in \<open>simp add: cond_ok_def\<close>)

lemma cond_swait_park:
  assumes "cond_swait c ws = (c', ws', SWait w)"
  shows "cond_locked c \<and> w = w_next ws
    \<and> cond_release (c\<lparr>cd_waiters := cd_waiters c @ [w_next ws]\<rparr>) (ws\<lparr>w_next := Suc (w_next ws)\<rparr>) = (c', ws', Inr ())"
  using assms by (auto simp: cond_swait_def new_waiter_def split: if_splits prod.splits sum.splits)

lemma cond_ok_step: "cond_step s s' \<Longrightarrow> cond_ok s \<Longrightarrow> cond_ok s'"
proof (induction rule: cond_step.induct)
  case (cs_acquire s)
  then show ?case by (intro settle_ok) simp
next
  case (cs_lock_resume w s)
  then show ?case using core_lock_resume by (simp add: cond_ok_def lock_sacquire_resume_def waiter_is_set_def)
next
  case (cs_lock_throw w s)
  then show ?case using core_lock_drop by (simp add: cond_ok_def lock_sacquire_throw_def)
next
  case (cs_release s c ws r)
  then show ?case using release_queues [OF cs_release(2)] by (simp add: cond_ok_def)
next
  case (cs_swait s c ws w)
  note p = cond_swait_park [OF cs_swait(2)]
  have "cond_core (cd_waiters (cs_obj s) @ [w]) (lk_waiters (cd_lock (cs_obj s))) (w_fired (cs_ws s)) (Suc w) (insert w (cs_parked s)) (cs_lockers s)"
    using core_park cs_swait(3) p by (simp add: cond_ok_def)
  with p show ?case
    using release_queues [of "(cs_obj s)\<lparr>cd_waiters := cd_waiters (cs_obj s) @ [w]\<rparr>" "(cs_ws s)\<lparr>w_next := Suc w\<rparr>" c ws "Inr ()"
        "Suc w" "insert w (cs_parked s)" "cs_lockers s"]
    by (simp add: cond_ok_def)
next
  case (cs_notify n s c ws r)
  obtain m where m: "cd_lock c = cd_lock (cs_obj s)" "cd_waiters c = drop m (cd_waiters (cs_obj s))" "w_next ws = w_next (cs_ws s)"
    "w_fired ws = w_fired (cs_ws s) \<union> set (take m (cd_waiters (cs_obj s)))"
    using notify_queues [OF cs_notify(1)] by blast
  have "cond_core (take m (cd_waiters (cs_obj s)) @ drop m (cd_waiters (cs_obj s))) (lk_waiters (cd_lock (cs_obj s)))
      (w_fired (cs_ws s)) (w_next (cs_ws s)) (cs_parked s) (cs_lockers s)"
    using cs_notify(2) by (simp add: cond_ok_def)
  from core_notify [OF this] show ?case by (simp add: cond_ok_def m)
qed (rule swait_finally_ok, assumption)+

lemma cond_ok_reach: "cond_reach s \<Longrightarrow> cond_ok s"
proof (induction rule: cond_reach.induct)
  case cr_init
  show ?case
    by (simp add: cond_ok_def cond_core_def cond_fresh_def cond_init_def lock_init_def empty_wstore_def)
qed (rule cond_ok_step)

section \<open>Properties\<close>

text \<open>C26: Condition.  Over every interleaving of acquires, releases, waits, notifies and thrown exceptions a
  call parked in \<open>swait\<close> is queued exactly while it has not been notified (no notification is lost and
  none is spent on a call that has gone), the queue is in the order the calls began to wait (waiters are numbered
  in the order \<open>swait\<close> makes them), and \<open>notify(n)\<close> by a holder wakes exactly the first \<open>n\<close> of it (all when fewer
  wait), each of which began to wait before every call that stays queued.\<close>

theorem condition_notify:
  assumes "cond_reach s" and "cond_locked (cs_obj s)" and "cond_notify n (cs_obj s) (cs_ws s) = (c, ws, r)"
  shows "set (cd_waiters (cs_obj s)) = {w \<in> cs_parked s. \<not> waiter_is_set w (cs_ws s)} \<and> distinct (cd_waiters (cs_obj s))
    \<and> sorted (cd_waiters (cs_obj s)) \<and> fst (new_waiter (cs_ws s)) \<notin> cs_parked s
    \<and> (\<forall>w \<in> cs_parked s. w < fst (new_waiter (cs_ws s)))
    \<and> (\<forall>w \<in> set (take (nat n) (cd_waiters (cs_obj s))). \<forall>w' \<in> set (cd_waiters c). w < w')
    \<and> r = Inr () \<and> cd_waiters c = drop (nat n) (cd_waiters (cs_obj s))
    \<and> {w \<in> cs_parked s. waiter_is_set w ws} =
        {w \<in> cs_parked s. waiter_is_set w (cs_ws s)} \<union> set (take (nat n) (cd_waiters (cs_obj s)))
    \<and> (\<forall>w \<in> cs_lockers s. waiter_is_set w ws \<longleftrightarrow> waiter_is_set w (cs_ws s))"
proof -
  have core: "cond_core (cd_waiters (cs_obj s)) (lk_waiters (cd_lock (cs_obj s)))
     (w_fired (cs_ws s)) (w_next (cs_ws s)) (cs_parked s) (cs_lockers s)"
    using cond_ok_reach [OF assms(1)] by (simp add: cond_ok_def)
  then have q: "set (cd_waiters (cs_obj s)) = cs_parked s - w_fired (cs_ws s)" "distinct (cd_waiters (cs_obj s))"
    "cs_parked s \<inter> cs_lockers s = {}" and old: "\<forall>w \<in> cs_parked s. w < w_next (cs_ws s)" and srt: "sorted (cd_waiters (cs_obj s))"
    by (simp_all add: cond_core_def)
  have e: "r = Inr ()" "cd_waiters c = drop (nat n) (cd_waiters (cs_obj s))"
    "w_fired ws = w_fired (cs_ws s) \<union> set (take (nat n) (cd_waiters (cs_obj s)))"
    using assms(2,3) by (auto simp: cond_notify_def notify_loop_eq split: if_splits)
  have sub: "set (take (nat n) (cd_waiters (cs_obj s))) \<subseteq> cs_parked s"
    using q(1) set_take_subset [of "nat n" "cd_waiters (cs_obj s)"] by auto
  have "sorted (take (nat n) (cd_waiters (cs_obj s)) @ drop (nat n) (cd_waiters (cs_obj s)))"
    "distinct (take (nat n) (cd_waiters (cs_obj s)) @ drop (nat n) (cd_waiters (cs_obj s)))"
    using srt q(2) by simp_all
  then have before: "\<forall>w \<in> set (take (nat n) (cd_waiters (cs_obj s))). \<forall>w' \<in> set (cd_waiters c). w < w'"
    unfolding sorted_append distinct_append e(2) by (metis disjoint_iff le_neq_implies_less)
  have new: "fst (new_waiter (cs_ws s)) = w_next (cs_ws s)" by (simp add: new_waiter_def)
  have woken: "{w \<in> cs_parked s. waiter_is_set w ws} = {w \<in> cs_parked s. waiter_is_set w (cs_ws s)} \<union> set (take (nat n) (cd_waiters (cs_obj s)))"
    "\<forall>w \<in> cs_lockers s. waiter_is_set w ws \<longleftrightarrow> waiter_is_set w (cs_ws s)"
    using q e(3) sub by (auto simp: waiter_is_set_def)
  show ?thesis
    unfolding new using q(1,2) srt old before e(1,2) woken by (intro conjI) (auto simp: waiter_is_set_def)
qed

text \<open>Task A waits on the condition, task B holds its lock.\<close>

definition demo_waiting :: cond_sys where
  "demo_waiting = \<lparr>cs_obj = \<lparr>cd_lock = \<lparr>lk_locked = True, lk_waiters = []\<rparr>, cd_waiters = [0]\<rparr>,
     cs_ws = \<lparr>w_next = 1, w_fired = {}\<rparr>, cs_parked = {0}, cs_lockers = {}, cs_held = 1\<rparr>"

lemmas cond_demo_simps = settle_def cond_sacquire_def lock_sacquire_def cond_swait_def cond_release_def lock_release_def
  new_waiter_def cond_locked_def lock_locked_def cond_swait_finally_def cond_reacquire_def lock_sacquire_throw_def

lemma demo_waiting_reach: "cond_reach demo_waiting"
proof -
  let ?a = "cond_fresh\<lparr>cs_obj := \<lparr>cd_lock = \<lparr>lk_locked = True, lk_waiters = []\<rparr>, cd_waiters = []\<rparr>, cs_held := 1\<rparr>"
  let ?b = "demo_waiting\<lparr>cs_obj := \<lparr>cd_lock = \<lparr>lk_locked = False, lk_waiters = []\<rparr>, cd_waiters = [0]\<rparr>, cs_held := 0\<rparr>"
  have 1: "cond_step cond_fresh ?a"
    using cs_acquire [of cond_fresh] by (simp add: cond_demo_simps cond_fresh_def cond_init_def lock_init_def)
  have 2: "cond_step ?a ?b"
    using cs_swait [of ?a "cs_obj ?b" "cs_ws ?b" 0]
    by (simp add: cond_demo_simps cond_fresh_def demo_waiting_def empty_wstore_def)
  have 3: "cond_step ?b demo_waiting"
    using cs_acquire [of ?b] by (simp add: cond_demo_simps demo_waiting_def)
  show ?thesis using cr_step [OF cr_step [OF cr_step [OF cr_init 1] 2] 3] .
qed

theorem condition_notify_witness:
  "\<exists>c ws. cond_notify 1 (cs_obj demo_waiting) (cs_ws demo_waiting) = (c, ws, Inr ()) \<and> cd_waiters c = []
    \<and> {w \<in> cs_parked demo_waiting. waiter_is_set w ws} = {0}"
proof -
  obtain c ws r where n: "cond_notify 1 (cs_obj demo_waiting) (cs_ws demo_waiting) = (c, ws, r)" using prod_cases3 by blast
  have "cond_locked (cs_obj demo_waiting)" by (simp add: demo_waiting_def cond_locked_def lock_locked_def)
  from condition_notify [OF demo_waiting_reach this n] n show ?thesis
    by (auto simp: demo_waiting_def waiter_is_set_def)
qed

text \<open>An exception thrown while a wait re-acquires the lock makes \<open>swait\<close> raise without the lock.  Here A's
  wait is interrupted, parks in the lock B holds, and is interrupted again; when A then leaves its
  \<open>with cond:\<close> block the release succeeds and unlocks the lock that B still holds.\<close>

theorem condition_releases_foreign_lock:
  "\<exists>s c ws. cond_reach s \<and> cs_parked s = {} \<and> cs_lockers s = {} \<and> cs_held s = 1
     \<and> cond_release (cs_obj s) (cs_ws s) = (c, ws, Inr ()) \<and> \<not> cond_locked c"
proof -
  let ?a = "demo_waiting\<lparr>cs_obj := \<lparr>cd_lock = \<lparr>lk_locked = True, lk_waiters = [1]\<rparr>, cd_waiters = []\<rparr>,
    cs_ws := \<lparr>w_next = 2, w_fired = {}\<rparr>, cs_parked := {}, cs_lockers := {1}\<rparr>"
  let ?b = "?a\<lparr>cs_obj := \<lparr>cd_lock = \<lparr>lk_locked = True, lk_waiters = []\<rparr>, cd_waiters = []\<rparr>, cs_lockers := {}\<rparr>"
  have 1: "cond_step demo_waiting ?a"
    using cs_throw [of 0 demo_waiting] by (simp add: cond_demo_simps demo_waiting_def numeral_2_eq_2)
  have 2: "cond_step ?a ?b"
    using cs_lock_throw [of 1 ?a] by (simp add: cond_demo_simps demo_waiting_def)
  have "cond_reach ?b" using cr_step [OF cr_step [OF demo_waiting_reach 1] 2] .
  moreover have "cond_release (cs_obj ?b) (cs_ws ?b) =
      (\<lparr>cd_lock = \<lparr>lk_locked = False, lk_waiters = []\<rparr>, cd_waiters = []\<rparr>, cs_ws ?b, Inr ())"
    by (simp add: cond_release_def lock_release_def)
  ultimately show ?thesis
    by (intro exI [of _ ?b]) (simp add: demo_waiting_def cond_locked_def lock_locked_def)
qed

end
